(* ===== verification/Prelude.thy ===== *)
theory Prelude
  imports "HOL-Library.Word" "HOL-Library.List_Lexorder" "HOL-Library.Monad_Syntax"
begin

text \<open>
  The prelude of the development: machine integers and byte strings, the two result
  conventions, little- and big-endian integer encodings, byte slices, and the list
  lemmas the components share.

  Conventions used by every theory:
  \<^item> \<open>u8\<close>, \<open>u16\<close>, \<open>u32\<close>, \<open>u64\<close> and \<open>u128\<close> are machine words; \<open>usize\<close> values (lengths,
    offsets, vector indices) are \<open>nat\<close>, and the places where the code guards against
    leaving the \<open>usize\<close> range compare with \<open>usize_max\<close> (a 64-bit host);
  \<^item> a Rust \<open>Result\<close> is a sum: \<open>Inl\<close> the error, \<open>Inr\<close> the value;
  \<^item> a Rust panic that a caller can provoke (a slice out of range, a failed assertion, a
    dangling handle) is \<open>None\<close> of an outer \<open>option\<close>.
\<close>

section \<open>Types\<close>

type_synonym u8 = "8 word"
type_synonym u16 = "16 word"
type_synonym u32 = "32 word"
type_synonym u64 = "64 word"
type_synonym u128 = "128 word"
type_synonym bytes = "u8 list"

text \<open>Collections: facts about byte slices, and about encoded integers.\<close>

named_theorems slice_simps \<open>byte slices and in-place writes\<close>
named_theorems enc_simps \<open>fixed-width integer encodings\<close>

definition usize_max :: nat where
  "usize_max = 2 ^ 64 - 1"

text \<open>\<open>usize::checked_add\<close>.\<close>

definition checked_add :: "nat \<Rightarrow> nat \<Rightarrow> nat option" where
  "checked_add a b = (if a + b \<le> usize_max then Some (a + b) else None)"

lemma checked_add_Some [simp]:
  "checked_add a b = Some c \<longleftrightarrow> c = a + b \<and> a + b \<le> usize_max"
  by (auto simp: checked_add_def)

lemma checked_add_None [simp]: "checked_add a b = None \<longleftrightarrow> usize_max < a + b"
  by (auto simp: checked_add_def)

section \<open>Results\<close>

text \<open>The \<open>?\<close> operator: the first error ends the computation.\<close>

definition try_res :: "'e + 'a \<Rightarrow> ('a \<Rightarrow> 'e + 'b) \<Rightarrow> 'e + 'b" where
  "try_res r f = (case r of Inl e \<Rightarrow> Inl e | Inr x \<Rightarrow> f x)"

lemma try_res_Inl [simp]: "try_res (Inl e) f = Inl e"
  by (simp add: try_res_def)

lemma try_res_Inr [simp]: "try_res (Inr x) f = f x"
  by (simp add: try_res_def)

lemma try_res_eq_Inr: "try_res r f = Inr y \<longleftrightarrow> (\<exists>x. r = Inr x \<and> f x = Inr y)"
  by (cases r) auto

lemma try_res_eq_Inl: "try_res r f = Inl e \<longleftrightarrow> r = Inl e \<or> (\<exists>x. r = Inr x \<and> f x = Inl e)"
  by (cases r) auto

lemma try_res_cong [fundef_cong]:
  "r = r' \<Longrightarrow> (\<And>x. r' = Inr x \<Longrightarrow> f x = g x) \<Longrightarrow> try_res r f = try_res r' g"
  by (cases r') auto

text \<open>\<open>Option::ok_or\<close>.\<close>

definition ok_or :: "'a option \<Rightarrow> 'e \<Rightarrow> 'e + 'a" where
  "ok_or x e = (case x of None \<Rightarrow> Inl e | Some v \<Rightarrow> Inr v)"

lemma ok_or_simps [simp]: "ok_or None e = Inl e" "ok_or (Some v) e = Inr v"
  by (simp_all add: ok_or_def)

section \<open>Lists\<close>

lemma concat_map_const_length:
  "(\<And>x. x \<in> set xs \<Longrightarrow> length (f x) = n) \<Longrightarrow> length (concat (map f xs)) = n * length xs"
  by (induction xs) auto

lemma length_concat_const:
  "(\<And>x. x \<in> set xss \<Longrightarrow> length x = n) \<Longrightarrow> length (concat xss) = length xss * n"
  by (induction xss) auto

lemma concat_eq_split:
  "i < length xss \<Longrightarrow> concat xss = concat (take i xss) @ xss ! i @ concat (drop (Suc i) xss)"
  by (metis concat.simps(2) concat_append id_take_nth_drop)

lemma sorted_wrt_concat:
  "sorted_wrt P (concat xss) \<longleftrightarrow>
     (\<forall>xs \<in> set xss. sorted_wrt P xs) \<and>
     sorted_wrt (\<lambda>xs ys. \<forall>x \<in> set xs. \<forall>y \<in> set ys. P x y) xss"
  by (induction xss) (auto simp: sorted_wrt_append)

lemma list_update_take_drop:
  "i < length xs \<Longrightarrow> xs[i := y] = take i xs @ y # drop (Suc i) xs"
  by (rule upd_conv_take_nth_drop)

section \<open>Byte slices\<close>

text \<open>\<open>bs[a..b]\<close>, and \<open>bs[off..off + new.len()].copy_from_slice(new)\<close>.\<close>

definition slice :: "'a list \<Rightarrow> nat \<Rightarrow> nat \<Rightarrow> 'a list" where
  "slice bs a b = drop a (take b bs)"

definition splice :: "'a list \<Rightarrow> nat \<Rightarrow> 'a list \<Rightarrow> 'a list" where
  "splice bs off new = take off bs @ new @ drop (off + length new) bs"

text \<open>\<open>bs.copy_within(a..b, dst)\<close>.\<close>

definition copy_within :: "'a list \<Rightarrow> nat \<Rightarrow> nat \<Rightarrow> nat \<Rightarrow> 'a list" where
  "copy_within bs a b dst = splice bs dst (slice bs a b)"

lemma length_slice [simp]: "length (slice bs a b) = min b (length bs) - a"
  by (simp add: slice_def)

lemma length_splice [simp]:
  "off + length new \<le> length bs \<Longrightarrow> length (splice bs off new) = length bs"
  by (simp add: splice_def)

lemma length_copy_within [simp]:
  "a \<le> b \<Longrightarrow> b \<le> length bs \<Longrightarrow> dst + (b - a) \<le> length bs \<Longrightarrow>
     length (copy_within bs a b dst) = length bs"
  by (simp add: copy_within_def)

lemma slice_empty [simp]: "slice bs a a = []"
  by (simp add: slice_def)

lemma slice_all [simp]: "slice bs 0 (length bs) = bs"
  by (simp add: slice_def)

lemma slice_splice_same [slice_simps]:
  "off + length new \<le> length bs \<Longrightarrow> b = off + length new \<Longrightarrow> slice (splice bs off new) off b = new"
  by (simp add: slice_def splice_def)

lemma slice_splice_before [slice_simps]:
  "b \<le> off \<Longrightarrow> off + length new \<le> length bs \<Longrightarrow> slice (splice bs off new) a b = slice bs a b"
  by (simp add: slice_def splice_def)

lemma slice_splice_after [slice_simps]:
  "off + length new \<le> a \<Longrightarrow> off + length new \<le> length bs \<Longrightarrow>
     slice (splice bs off new) a b = slice bs a b"
proof (cases "a \<le> b")
  case True
  assume "off + length new \<le> a" and "off + length new \<le> length bs"
  with True show ?thesis
    by (simp add: slice_def splice_def drop_take)
qed (simp add: slice_def)

lemma slice_append_left:
  "b \<le> length xs \<Longrightarrow> slice (xs @ ys) a b = slice xs a b"
  by (simp add: slice_def)

lemma slice_append_right:
  "length xs \<le> a \<Longrightarrow> slice (xs @ ys) a b = slice ys (a - length xs) (b - length xs)"
  by (cases "length xs \<le> b") (auto simp: slice_def min_def)

lemma slice_append_mid [slice_simps]:
  "a = length xs \<Longrightarrow> b = length xs + length ys \<Longrightarrow> slice (xs @ ys @ zs) a b = ys"
  by (simp add: slice_def)

lemma slice_append_mid0 [slice_simps]:
  "b = length ys \<Longrightarrow> slice (ys @ zs) 0 b = ys"
  by (simp add: slice_def)

lemma take_slice: "take n (slice bs a b) = slice bs a (min (a + n) b)"
  by (simp add: slice_def take_drop add.commute)

lemma slice_0_take: "slice bs 0 n = take n bs"
  by (simp add: slice_def)

lemma slice_full_drop: "length bs \<le> b \<Longrightarrow> slice bs a b = drop a bs"
  by (simp add: slice_def)

lemma slice_whole_len: "length xs = n \<Longrightarrow> slice xs 0 n = xs"
  by (simp add: slice_def)

lemma slice_join: "a \<le> b \<Longrightarrow> b \<le> c \<Longrightarrow> slice bs a b @ slice bs b c = slice bs a c"
proof -
  assume ab: "a \<le> b" and bc: "b \<le> c"
  have "take c bs = take b bs @ drop b (take c bs)"
    using append_take_drop_id [of b "take c bs"] bc by (simp add: min_absorb1)
  then have "slice bs a c = drop a (take b bs @ drop b (take c bs))"
    by (simp add: slice_def)
  then show ?thesis
    using ab by (cases "b \<le> length bs") (simp_all add: slice_def)
qed

lemma nth_splice:
  "off + length new \<le> length bs \<Longrightarrow> i < length bs \<Longrightarrow>
     splice bs off new ! i = (if off \<le> i \<and> i < off + length new then new ! (i - off) else bs ! i)"
  by (auto simp: splice_def nth_append min_def)

lemma splice_0: "splice bs 0 new = new @ drop (length new) bs"
  by (simp add: splice_def)

lemma splice_append:
  "off = length xs \<Longrightarrow> length new = length ys \<Longrightarrow> splice (xs @ ys @ zs) off new = xs @ new @ zs"
  by (simp add: splice_def)

lemma slice_concat_const:
  assumes "\<And>x. x \<in> set xss \<Longrightarrow> length x = n" and i: "i < length xss"
  shows "slice (concat xss) (i * n) (i * n + n) = xss ! i"
proof -
  have "length (concat (take i xss)) = i * n"
    using assms by (subst length_concat_const [where n = n]) (auto dest: in_set_takeD)
  moreover have "length (xss ! i) = n" using assms by simp
  ultimately show ?thesis
    by (subst concat_eq_split [OF i]) (simp add: slice_append_mid)
qed

section \<open>Integer encodings\<close>

text \<open>The \<open>n\<close> low base-256 digits of a number, least significant first.\<close>

fun to_le :: "nat \<Rightarrow> nat \<Rightarrow> bytes" where
  "to_le 0 x = []"
| "to_le (Suc n) x = of_nat (x mod 256) # to_le n (x div 256)"

fun from_le :: "bytes \<Rightarrow> nat" where
  "from_le [] = 0"
| "from_le (b # bs) = unat b + 256 * from_le bs"

lemma to_le_numeral:
  "to_le (numeral k) x = of_nat (x mod 256) # to_le (pred_numeral k) (x div 256)"
  by (subst numeral_eq_Suc) (rule to_le.simps)

definition to_be :: "nat \<Rightarrow> nat \<Rightarrow> bytes" where
  "to_be n x = rev (to_le n x)"

definition from_be :: "bytes \<Rightarrow> nat" where
  "from_be bs = from_le (rev bs)"

lemma length_to_le [simp]: "length (to_le n x) = n"
  by (induction n arbitrary: x) auto

lemma length_to_be [simp]: "length (to_be n x) = n"
  by (simp add: to_be_def)

lemma unat_of_nat_mod256 [simp]: "unat (of_nat (x mod 256) :: u8) = x mod 256"
  by (simp add: unat_of_nat)

lemma from_le_to_le: "from_le (to_le n x) = x mod 256 ^ n"
  by (induction n arbitrary: x) (auto simp: mod_mult2_eq)

lemma from_be_to_be: "from_be (to_be n x) = x mod 256 ^ n"
  by (simp add: from_be_def to_be_def from_le_to_le)

lemma u8_of_nat_digit [simp]: "(of_nat ((unat b + 256 * x) mod 256) :: u8) = b"
proof -
  have "unat b < 256"
    using unsigned_less [of b] by simp
  then show ?thesis by simp
qed

lemma to_le_from_le [simp]: "n = length bs \<Longrightarrow> to_le n (from_le bs) = bs"
proof (induction bs arbitrary: n)
  case (Cons b bs)
  have "unat b < 256"
    using unsigned_less [of b] by simp
  with Cons show ?case by (simp del: of_nat_mod)
qed simp

lemma to_be_from_be [simp]: "n = length bs \<Longrightarrow> to_be n (from_be bs) = bs"
  by (simp add: to_be_def from_be_def)

lemma from_le_bound: "from_le bs < 256 ^ length bs"
  by (metis from_le_to_le to_le_from_le mod_less_divisor zero_less_numeral zero_less_power)

lemma from_be_bound: "from_be bs < 256 ^ length bs"
  by (metis from_be_def from_le_bound length_rev)

lemma from_le_append: "from_le (xs @ ys) = from_le xs + 256 ^ length xs * from_le ys"
  by (induction xs) (auto simp: algebra_simps)

lemma from_be_Cons: "from_be (b # bs) = unat b * 256 ^ length bs + from_be bs"
  by (simp add: from_be_def from_le_append)

text \<open>
  The order of equally long byte strings (Rust's \<open>[u8]::cmp\<close>) is the order of the numbers
  they encode big-endian.
\<close>

lemma bytes_less_iff_from_be:
  "length xs = length ys \<Longrightarrow> xs < ys \<longleftrightarrow> from_be xs < from_be ys"
proof (induction xs ys rule: list_induct2)
  case (Cons x xs y ys)
  let ?B = "256 ^ length xs :: nat"
  have bx: "from_be xs < ?B" and "from_be ys < ?B"
    using from_be_bound [of xs] from_be_bound [of ys] Cons.hyps by simp_all
  have step: "u * ?B + from_be xs < v * ?B + from_be ys \<longleftrightarrow> u < v \<or> u = v \<and> from_be xs < from_be ys"
    (is "?l \<longleftrightarrow> ?r") for u v :: nat
  proof (cases u v rule: linorder_cases)
    case less
    then have "u * ?B + ?B \<le> v * ?B"
      by (metis Suc_leI add.commute mult_Suc mult_le_mono1)
    with bx less show ?thesis by simp
  next
    case greater
    then have "v * ?B + ?B \<le> u * ?B"
      by (metis Suc_leI add.commute mult_Suc mult_le_mono1)
    with \<open>from_be ys < ?B\<close> greater show ?thesis by simp
  qed simp
  have "x # xs < y # ys \<longleftrightarrow> unat x < unat y \<or> unat x = unat y \<and> xs < ys"
    by (auto simp: word_less_nat_alt word_unat_eq_iff)
  with Cons step [of "unat x" "unat y"] show ?case
    by (simp add: from_be_Cons)
qed simp

lemma bytes_le_iff_from_be:
  "length xs = length ys \<Longrightarrow> xs \<le> ys \<longleftrightarrow> from_be xs \<le> from_be ys"
  using bytes_less_iff_from_be [of ys xs] by (simp add: not_less [symmetric])

section \<open>Words in bytes\<close>

text \<open>\<open>x.to_le_bytes()\<close>, \<open>x.to_be_bytes()\<close> and their inverses, for the widths the code uses.\<close>

definition u16_be :: "u16 \<Rightarrow> bytes" where "u16_be w = to_be 2 (unat w)"
definition u32_be :: "u32 \<Rightarrow> bytes" where "u32_be w = to_be 4 (unat w)"
definition u64_be :: "u64 \<Rightarrow> bytes" where "u64_be w = to_be 8 (unat w)"
definition u16_le :: "u16 \<Rightarrow> bytes" where "u16_le w = to_le 2 (unat w)"
definition u32_le :: "u32 \<Rightarrow> bytes" where "u32_le w = to_le 4 (unat w)"
definition u64_le :: "u64 \<Rightarrow> bytes" where "u64_le w = to_le 8 (unat w)"
definition u128_le :: "u128 \<Rightarrow> bytes" where "u128_le w = to_le 16 (unat w)"

definition u16_of_be :: "bytes \<Rightarrow> u16" where "u16_of_be bs = of_nat (from_be bs)"
definition u32_of_be :: "bytes \<Rightarrow> u32" where "u32_of_be bs = of_nat (from_be bs)"
definition u64_of_be :: "bytes \<Rightarrow> u64" where "u64_of_be bs = of_nat (from_be bs)"
definition u16_of_le :: "bytes \<Rightarrow> u16" where "u16_of_le bs = of_nat (from_le bs)"
definition u32_of_le :: "bytes \<Rightarrow> u32" where "u32_of_le bs = of_nat (from_le bs)"
definition u64_of_le :: "bytes \<Rightarrow> u64" where "u64_of_le bs = of_nat (from_le bs)"
definition u128_of_le :: "bytes \<Rightarrow> u128" where "u128_of_le bs = of_nat (from_le bs)"

lemmas word_bytes_defs =
  u16_be_def u32_be_def u64_be_def u16_le_def u32_le_def u64_le_def u128_le_def
  u16_of_be_def u32_of_be_def u64_of_be_def u16_of_le_def u32_of_le_def u64_of_le_def u128_of_le_def

lemma unat_lt_width: "unat (w :: 'a::len word) < 2 ^ LENGTH('a)"
  by (rule unsigned_less)

lemma length_word_bytes [simp]:
  "length (u16_be a) = 2" "length (u32_be b) = 4" "length (u64_be c) = 8"
  "length (u16_le a) = 2" "length (u32_le b) = 4" "length (u64_le c) = 8"
  "length (u128_le d) = 16"
  by (simp_all add: word_bytes_defs)

lemma word_bytes_inverse [simp, enc_simps]:
  "u16_of_be (u16_be a) = a" "u32_of_be (u32_be b) = b" "u64_of_be (u64_be c) = c"
  "u16_of_le (u16_le a) = a" "u32_of_le (u32_le b) = b" "u64_of_le (u64_le c) = c"
  "u128_of_le (u128_le d) = d"
  using unat_lt_width [of a] unat_lt_width [of b] unat_lt_width [of c] unat_lt_width [of d]
  by (simp_all add: word_bytes_defs from_be_to_be from_le_to_le del: of_nat_mod)

lemma unat_word_of_bytes:
  "length bs = 2 \<Longrightarrow> unat (u16_of_be bs) = from_be bs"
  "length bs = 4 \<Longrightarrow> unat (u32_of_be bs) = from_be bs"
  "length bs = 8 \<Longrightarrow> unat (u64_of_be bs) = from_be bs"
  "length bs = 2 \<Longrightarrow> unat (u16_of_le bs) = from_le bs"
  "length bs = 4 \<Longrightarrow> unat (u32_of_le bs) = from_le bs"
  "length bs = 8 \<Longrightarrow> unat (u64_of_le bs) = from_le bs"
  "length bs = 16 \<Longrightarrow> unat (u128_of_le bs) = from_le bs"
  using from_be_bound [of bs] from_le_bound [of bs]
  by (simp_all add: word_bytes_defs unat_of_nat)

lemma word_bytes_of [enc_simps]:
  "length bs = 2 \<Longrightarrow> u16_be (u16_of_be bs) = bs"
  "length bs = 4 \<Longrightarrow> u32_be (u32_of_be bs) = bs"
  "length bs = 8 \<Longrightarrow> u64_be (u64_of_be bs) = bs"
  "length bs = 2 \<Longrightarrow> u16_le (u16_of_le bs) = bs"
  "length bs = 4 \<Longrightarrow> u32_le (u32_of_le bs) = bs"
  "length bs = 8 \<Longrightarrow> u64_le (u64_of_le bs) = bs"
  "length bs = 16 \<Longrightarrow> u128_le (u128_of_le bs) = bs"
  unfolding u16_be_def u32_be_def u64_be_def u16_le_def u32_le_def u64_le_def u128_le_def
  by (simp_all add: unat_word_of_bytes)

section \<open>The sentinel\<close>

text \<open>\<open>u32::MAX\<close>, the "no value" / "no page" / "no chunk" marker of every \<open>u32\<close> index.\<close>

definition NONE_U32 :: u32 where
  "NONE_U32 = 4294967295"

lemma unat_NONE_U32 [simp]: "unat NONE_U32 = 4294967295"
  by (simp add: NONE_U32_def)

lemma u32_less: "unat (w :: u32) < 4294967296"
  using unsigned_less [of w] by simp

lemma unat_less_NONE: "w \<noteq> NONE_U32 \<Longrightarrow> unat w < 4294967295"
proof -
  assume "w \<noteq> NONE_U32"
  then have "unat w \<noteq> 4294967295"
    by (metis unat_NONE_U32 word_unat_eq_iff)
  with u32_less [of w] show ?thesis by linarith
qed

lemma unat_of_nat_u32 [simp]: "n < 4294967296 \<Longrightarrow> unat (of_nat n :: u32) = n"
  by (simp add: unat_of_nat)

lemma of_nat_neq_NONE: "n < 4294967295 \<Longrightarrow> (of_nat n :: u32) \<noteq> NONE_U32"
proof
  assume n: "n < 4294967295" and eq: "(of_nat n :: u32) = NONE_U32"
  from n have "unat (of_nat n :: u32) = n" by simp
  with eq n show False by simp
qed

end
