(* ===== verification/Rust_Std.thy ===== *)
theory Rust_Std
  imports Prelude
begin

text \<open>
  The parts of \<open>core\<close> that several components use: UTF-8 validation of byte strings, powers of two, and
  arrays of little-endian integers inside a byte section (as the metadata sections hold them).
\<close>

section \<open>Comparison\<close>

text \<open>\<open>core::cmp::Ordering\<close>.\<close>

datatype ordering = Less | Equal | Greater

section \<open>UTF-8\<close>

text \<open>
  \<open>core::str::from_utf8\<close> as a predicate: the well-formed sequences of the Unicode standard (no overlong
  forms, no surrogates, nothing above U+10FFFF). A \<open>&str\<close> is a byte string that satisfies it.
\<close>

definition utf8_cont :: "u8 \<Rightarrow> bool" where
  "utf8_cont c \<longleftrightarrow> 128 \<le> c \<and> c < 192"

fun utf8_valid :: "bytes \<Rightarrow> bool" where
  "utf8_valid [] = True"
| "utf8_valid (b # bs) =
     (if b < 128 then utf8_valid bs
      else if 194 \<le> b \<and> b < 224 then
        (case bs of c # r \<Rightarrow> utf8_cont c \<and> utf8_valid r | _ \<Rightarrow> False)
      else if 224 \<le> b \<and> b < 240 then
        (case bs of c # d # r \<Rightarrow>
           utf8_cont c \<and> (b = 224 \<longrightarrow> 160 \<le> c) \<and> (b = 237 \<longrightarrow> c < 160) \<and> utf8_cont d \<and> utf8_valid r
         | _ \<Rightarrow> False)
      else if 240 \<le> b \<and> b < 245 then
        (case bs of c # d # e # r \<Rightarrow>
           utf8_cont c \<and> (b = 240 \<longrightarrow> 144 \<le> c) \<and> (b = 244 \<longrightarrow> c < 144) \<and> utf8_cont d \<and> utf8_cont e \<and> utf8_valid r
         | _ \<Rightarrow> False)
      else False)"

lemma utf8_ascii: "(\<forall>b \<in> set bs. b < 128) \<Longrightarrow> utf8_valid bs"
  by (induction bs) simp_all

section \<open>Powers of two\<close>

text \<open>\<open>usize::trailing_zeros\<close> and \<open>usize::is_power_of_two\<close>.\<close>

fun trailing_zeros :: "nat \<Rightarrow> nat" where
  "trailing_zeros n = (if n = 0 then 64 else if odd n then 0 else Suc (trailing_zeros (n div 2)))"

declare trailing_zeros.simps [simp del]

definition is_power_of_two :: "nat \<Rightarrow> bool" where
  "is_power_of_two n \<longleftrightarrow> n \<noteq> 0 \<and> n = 2 ^ trailing_zeros n"

lemma trailing_zeros_pow [simp]: "k < 64 \<Longrightarrow> trailing_zeros (2 ^ k) = k"
proof (induction k)
  case 0
  show ?case by (subst trailing_zeros.simps) simp
next
  case (Suc k)
  then show ?case by (subst trailing_zeros.simps) simp
qed

lemma is_power_of_two_pow: "k < 64 \<Longrightarrow> is_power_of_two (2 ^ k)"
  by (simp add: is_power_of_two_def)

section \<open>Arrays of integers in a byte section\<close>

text \<open>The \<open>n\<close> little-endian integers of a metadata array at \<open>base\<close>.\<close>

definition read_u32s :: "bytes \<Rightarrow> nat \<Rightarrow> nat \<Rightarrow> u32 list" where
  "read_u32s meta base n = map (\<lambda>i. u32_of_le (slice meta (base + i * 4) (base + i * 4 + 4))) [0..<n]"

definition read_u16s :: "bytes \<Rightarrow> nat \<Rightarrow> nat \<Rightarrow> u16 list" where
  "read_u16s meta base n = map (\<lambda>i. u16_of_le (slice meta (base + i * 2) (base + i * 2 + 2))) [0..<n]"

lemma length_reads [simp]: "length (read_u32s meta base n) = n" "length (read_u16s meta base n) = n"
  by (simp_all add: read_u32s_def read_u16s_def)

lemma read_array:
  assumes "\<And>x. length (enc x) = k" and "i < length ws"
  shows "slice (xs @ concat (map enc ws) @ ys) (length xs + i * k) (length xs + i * k + k) = enc (ws ! i)"
proof -
  have len: "length (concat (map enc ws)) = length ws * k"
    by (subst length_concat_const [of _ k]) (auto simp: assms(1))
  have "i * k + k \<le> length ws * k"
    using assms(2) by (metis Suc_leI add.commute mult_Suc mult_le_mono1)
  then have "slice (xs @ concat (map enc ws) @ ys) (length xs + i * k) (length xs + i * k + k) =
      slice (concat (map enc ws)) (i * k) (i * k + k)"
    by (simp add: slice_append_right slice_append_left len)
  also have "\<dots> = map enc ws ! i"
    by (rule slice_concat_const) (use assms in auto)
  finally show ?thesis using assms(2) by simp
qed

lemma read_back:
  "n = length ws \<Longrightarrow> base = length xs \<Longrightarrow> read_u32s (xs @ concat (map u32_le ws) @ ys) base n = ws"
  "n = length vs \<Longrightarrow> base = length xs \<Longrightarrow> read_u16s (xs @ concat (map u16_le vs) @ ys) base n = vs"
  by (auto simp: read_u32s_def read_u16s_def read_array simp del: add_2_eq_Suc' intro!: nth_equalityI)

lemma chunks_join: "concat (map (\<lambda>i. slice bs (base + i * k) (base + i * k + k)) [0..<n]) = slice bs base (base + n * k)"
proof (induction n)
  case (Suc n)
  then show ?case using slice_join [of base "base + n * k" "base + n * k + k" bs] by (simp add: ac_simps)
qed simp

lemma write_back:
  "base + n * 4 \<le> length meta \<Longrightarrow> concat (map u32_le (read_u32s meta base n)) = slice meta base (base + n * 4)"
  "base + n * 2 \<le> length meta \<Longrightarrow> concat (map u16_le (read_u16s meta base n)) = slice meta base (base + n * 2)"
proof -
  assume len: "base + n * 4 \<le> length meta"
  have "map u32_le (read_u32s meta base n) = map (\<lambda>i. slice meta (base + i * 4) (base + i * 4 + 4)) [0..<n]"
    unfolding read_u32s_def map_map by (rule map_cong) (use len in \<open>auto simp: word_bytes_of\<close>)
  then show "concat (map u32_le (read_u32s meta base n)) = slice meta base (base + n * 4)"
    by (simp only: chunks_join)
next
  assume len: "base + n * 2 \<le> length meta"
  have "map u16_le (read_u16s meta base n) = map (\<lambda>i. slice meta (base + i * 2) (base + i * 2 + 2)) [0..<n]"
    unfolding read_u16s_def map_map
    by (rule map_cong) (use len in \<open>auto simp: word_bytes_of simp del: add_2_eq_Suc'\<close>)
  then show "concat (map u16_le (read_u16s meta base n)) = slice meta base (base + n * 2)"
    by (simp only: chunks_join)
qed

end
