(* ===== verification/Keys.thy ===== *)
theory Keys
  imports Prelude
begin

text \<open>
  The big-endian key helpers of \<open>crates/plugmem-arena/src/key.rs\<close>. Every function takes a
  slice and panics (\<open>None\<close>) when the slice is too short, as \<open>out[..4]\<close> does; a call on
  \<open>&mut out[off..]\<close> is \<open>write_at off\<close>, one on \<open>&bytes[off..]\<close> is \<open>read_at off\<close>.
  The lemmas give each helper's effect on a long enough buffer, the round trips, and the
  reason for the big-endian form: byte order of encodings is numeric order.
\<close>

section \<open>Slices of a buffer\<close>

definition write_at :: "nat \<Rightarrow> (bytes \<Rightarrow> bytes option) \<Rightarrow> bytes \<Rightarrow> bytes option" where
  "write_at off w out =
     (if off \<le> length out then map_option (\<lambda>sub. take off out @ sub) (w (drop off out)) else None)"

definition read_at :: "nat \<Rightarrow> (bytes \<Rightarrow> 'a option) \<Rightarrow> bytes \<Rightarrow> 'a option" where
  "read_at off r bs = (if off \<le> length bs then r (drop off bs) else None)"

text \<open>\<open>out[a..b].copy_from_slice(src)\<close> and \<open>&bs[a..b]\<close>.\<close>

definition put_range :: "nat \<Rightarrow> nat \<Rightarrow> bytes \<Rightarrow> bytes \<Rightarrow> bytes option" where
  "put_range a b src out =
     (if a \<le> b \<and> b \<le> length out \<and> length src = b - a then Some (splice out a src) else None)"

definition get_range :: "nat \<Rightarrow> nat \<Rightarrow> bytes \<Rightarrow> bytes option" where
  "get_range a b bs = (if a \<le> b \<and> b \<le> length bs then Some (slice bs a b) else None)"

section \<open>The helpers\<close>

definition write_u32 :: "u32 \<Rightarrow> bytes \<Rightarrow> bytes option" where
  "write_u32 v out = put_range 0 4 (u32_be v) out"

definition read_u32 :: "bytes \<Rightarrow> u32 option" where
  "read_u32 bs = map_option u32_of_be (get_range 0 4 bs)"

definition write_u64 :: "u64 \<Rightarrow> bytes \<Rightarrow> bytes option" where
  "write_u64 v out = put_range 0 8 (u64_be v) out"

definition read_u64 :: "bytes \<Rightarrow> u64 option" where
  "read_u64 bs = map_option u64_of_be (get_range 0 8 bs)"

definition write_pair :: "u64 \<Rightarrow> u32 \<Rightarrow> bytes \<Rightarrow> bytes option" where
  "write_pair hi lo out = do {
     out \<leftarrow> write_u64 hi out;
     write_at 8 (write_u32 lo) out }"

definition read_pair :: "bytes \<Rightarrow> (u64 \<times> u32) option" where
  "read_pair bs = do {
     hi \<leftarrow> read_u64 bs;
     lo \<leftarrow> read_at 8 read_u32 bs;
     Some (hi, lo) }"

section \<open>Effect on a buffer that is long enough\<close>

lemma put_range_ok [simp]:
  "a \<le> b \<Longrightarrow> b \<le> length out \<Longrightarrow> length src = b - a \<Longrightarrow> put_range a b src out = Some (splice out a src)"
  by (simp add: put_range_def)

lemma get_range_ok [simp]:
  "a \<le> b \<Longrightarrow> b \<le> length bs \<Longrightarrow> get_range a b bs = Some (slice bs a b)"
  by (simp add: get_range_def)

lemma write_u32_ok [simp]: "4 \<le> length out \<Longrightarrow> write_u32 v out = Some (splice out 0 (u32_be v))"
  by (simp add: write_u32_def)

lemma write_u64_ok [simp]: "8 \<le> length out \<Longrightarrow> write_u64 v out = Some (splice out 0 (u64_be v))"
  by (simp add: write_u64_def)

lemma splice_take_drop:
  "off \<le> length out \<Longrightarrow> take off out @ splice (drop off out) 0 src = splice out off src"
  by (simp add: splice_def add.commute)

lemma write_at_u32_ok [simp]:
  "off + 4 \<le> length out \<Longrightarrow> write_at off (write_u32 v) out = Some (splice out off (u32_be v))"
  by (simp add: write_at_def splice_take_drop)

lemma write_at_u64_ok [simp]:
  "off + 8 \<le> length out \<Longrightarrow> write_at off (write_u64 v) out = Some (splice out off (u64_be v))"
  by (simp add: write_at_def splice_take_drop)

lemma slice_drop: "slice (drop off bs) a b = slice bs (off + a) (off + b)"
  by (simp add: slice_def take_drop add.commute)

lemma read_u32_ok [simp]: "4 \<le> length bs \<Longrightarrow> read_u32 bs = Some (u32_of_be (slice bs 0 4))"
  by (simp add: read_u32_def)

lemma read_u64_ok [simp]: "8 \<le> length bs \<Longrightarrow> read_u64 bs = Some (u64_of_be (slice bs 0 8))"
  by (simp add: read_u64_def)

lemma read_at_u32_ok [simp]:
  "off + 4 \<le> length bs \<Longrightarrow> read_at off read_u32 bs = Some (u32_of_be (slice bs off (off + 4)))"
  by (simp add: read_at_def slice_drop)

lemma read_at_u64_ok [simp]:
  "off + 8 \<le> length bs \<Longrightarrow> read_at off read_u64 bs = Some (u64_of_be (slice bs off (off + 8)))"
  by (simp add: read_at_def slice_drop)

text \<open>A helper panics exactly on a slice that is too short.\<close>

lemma key_panics:
  "write_u32 v out = None \<longleftrightarrow> length out < 4"
  "write_u64 w out = None \<longleftrightarrow> length out < 8"
  "read_u32 out = None \<longleftrightarrow> length out < 4"
  "read_u64 out = None \<longleftrightarrow> length out < 8"
  by (auto simp: write_u32_def write_u64_def read_u32_def read_u64_def put_range_def get_range_def)

section \<open>Order\<close>

lemma u32_be_less [simp]: "u32_be a < u32_be b \<longleftrightarrow> a < b"
  using unat_lt_width [of a] unat_lt_width [of b]
  by (simp add: bytes_less_iff_from_be u32_be_def from_be_to_be word_less_nat_alt)

lemma u64_be_less [simp]: "u64_be a < u64_be b \<longleftrightarrow> a < b"
  using unat_lt_width [of a] unat_lt_width [of b]
  by (simp add: bytes_less_iff_from_be u64_be_def from_be_to_be word_less_nat_alt)

lemma u32_be_eq [simp]: "u32_be a = u32_be b \<longleftrightarrow> a = b"
  by (metis word_bytes_inverse(2))

lemma u64_be_eq [simp]: "u64_be a = u64_be b \<longleftrightarrow> a = b"
  by (metis word_bytes_inverse(3))

lemma append_less_append:
  fixes xs :: "'a::linorder list"
  shows "length xs = length ys \<Longrightarrow> xs @ us < ys @ vs \<longleftrightarrow> xs < ys \<or> xs = ys \<and> us < vs"
  by (induction xs ys rule: list_induct2) auto

text \<open>
  A composite key written by \<open>write_pair\<close> panics only on a buffer shorter than 12
  bytes; on any other it fills the first 12 bytes, leaves the rest, reads back as the same
  pair, and two such keys compare byte-wise as the pairs compare lexicographically
  (timestamp first, id second).
\<close>

theorem write_pair_order_preserving:
  assumes "12 \<le> length out" and "12 \<le> length out'"
  shows "\<exists>k k'. length k = 12 \<and> length k' = 12 \<and>
      write_pair hi lo out = Some (k @ drop 12 out) \<and>
      write_pair hi' lo' out' = Some (k' @ drop 12 out') \<and>
      read_pair (k @ drop 12 out) = Some (hi, lo) \<and>
      (k < k' \<longleftrightarrow> hi < hi' \<or> hi = hi' \<and> lo < lo')"
proof -
  have w: "write_pair h l o1 = Some ((u64_be h @ u32_be l) @ drop 12 o1)" if "12 \<le> length o1" for h l o1
    using that by (simp add: write_pair_def splice_def)
  have r: "read_pair ((u64_be h @ u32_be l) @ rest) = Some (h, l)" for h l rest
    by (simp add: read_pair_def slice_simps)
  show ?thesis
    by (rule exI [of _ "u64_be hi @ u32_be lo"], rule exI [of _ "u64_be hi' @ u32_be lo'"])
      (use assms in \<open>simp add: w r append_less_append del: append_assoc\<close>)
qed

theorem write_pair_order_preserving_witness:
  "\<exists>k k'. length k = 12 \<and> length k' = 12 \<and>
      write_pair 1 255 (replicate 12 0) = Some (k @ drop 12 (replicate 12 0)) \<and>
      write_pair 256 0 (replicate 13 7) = Some (k' @ drop 12 (replicate 13 7)) \<and>
      read_pair (k @ drop 12 (replicate 12 0)) = Some (1, 255) \<and>
      (k < k' \<longleftrightarrow> (1::u64) < 256 \<or> (1::u64) = 256 \<and> (255::u32) < 0)"
  by (rule write_pair_order_preserving) simp_all

end
