(* ===== verification/Slot.thy ===== *)
theory Slot
  imports Keys
begin

text \<open>
  The \<open>Slot\<close> trait of \<open>crates/plugmem-arena/src/slot.rs\<close>: a record type with a fixed byte
  layout. The trait's layout contract is the locale \<open>slot_codec\<close>: \<open>write\<close> fills every byte of
  a buffer of \<open>SIZE\<close> bytes whatever it held before, \<open>read\<close> is its inverse, and neither
  panics on a buffer of that size. The record types of the engine interpret it (theories
  \<open>Model\<close> and \<open>Postings\<close>), byte arrays here.
\<close>

section \<open>Layouts\<close>

text \<open>\<open>Slot::SIZE\<close> and \<open>Slot::KEY_LEN\<close>, the two constants of the trait.\<close>

record slot_type =
  SIZE :: nat
  KEY_LEN :: nat

definition PAGE_BYTES :: nat where
  "PAGE_BYTES = 4096"

lemma PAGE_BYTES_pos [simp]: "0 < PAGE_BYTES"
  by (simp add: PAGE_BYTES_def)

text \<open>The bounds \<open>Arena::new\<close> checks.\<close>

definition slot_ok :: "slot_type \<Rightarrow> bool" where
  "slot_ok T \<longleftrightarrow> 1 \<le> KEY_LEN T \<and> KEY_LEN T \<le> SIZE T \<and> SIZE T \<le> PAGE_BYTES"

section \<open>The contract\<close>

text \<open>
  What a layout owes its arena, as a closed statement: writing then reading gives the record
  back, whatever the buffer held, and every buffer of \<open>SIZE\<close> bytes is the image of a record.
\<close>

definition lossless :: "slot_type \<Rightarrow> ('r \<Rightarrow> bytes \<Rightarrow> bytes option) \<Rightarrow> (bytes \<Rightarrow> 'r option) \<Rightarrow> bool" where
  "lossless T wr rd \<longleftrightarrow>
     (\<forall>r out. length out = SIZE T \<longrightarrow>
        (\<exists>bs. wr r out = Some bs \<and> length bs = SIZE T \<and> rd bs = Some r)) \<and>
     (\<forall>bs out. length bs = SIZE T \<longrightarrow> length out = SIZE T \<longrightarrow>
        (\<exists>r. rd bs = Some r \<and> wr r out = Some bs))"

locale slot_codec =
  fixes T :: slot_type
    and wr :: "'r \<Rightarrow> bytes \<Rightarrow> bytes option"
    and rd :: "bytes \<Rightarrow> 'r option"
    and image :: "'r \<Rightarrow> bytes"
  assumes layout_ok: "slot_ok T"
    and length_image: "length (image r) = SIZE T"
    and write_fills: "length out = SIZE T \<Longrightarrow> wr r out = Some (image r)"
    and read_image: "rd (image r) = Some r"
    and image_read: "length bs = SIZE T \<Longrightarrow> \<exists>r. rd bs = Some r \<and> image r = bs"
begin

lemma read_write: "length out = SIZE T \<Longrightarrow> wr r out = Some bs \<Longrightarrow> rd bs = Some r"
  using read_image [of r] by (simp add: write_fills)

lemma write_total: "length out = SIZE T \<Longrightarrow> \<exists>bs. wr r out = Some bs \<and> length bs = SIZE T"
  by (simp add: write_fills length_image)

lemma write_independent:
  "length out = SIZE T \<Longrightarrow> length out' = SIZE T \<Longrightarrow> wr r out = wr r out'"
  by (simp add: write_fills)

lemma image_inj: "image r = image r' \<longleftrightarrow> r = r'"
  by (metis option.inject read_image)

lemma read_total: "length bs = SIZE T \<Longrightarrow> \<exists>r. rd bs = Some r"
  using image_read by blast

lemma write_read: "length bs = SIZE T \<Longrightarrow> rd bs = Some r \<Longrightarrow> length out = SIZE T \<Longrightarrow> wr r out = Some bs"
  using image_read write_fills by fastforce

lemma read_inj: "length bs = SIZE T \<Longrightarrow> length bs' = SIZE T \<Longrightarrow> rd bs = rd bs' \<Longrightarrow> bs = bs'"
  by (metis image_read option.inject)

lemma layout_lossless: "lossless T wr rd"
  unfolding lossless_def using write_fills length_image read_image image_read by metis

text \<open>The first \<open>KEY_LEN\<close> bytes of the image are the key prefix the arena sorts by.\<close>

lemma length_key: "length (take (KEY_LEN T) (image r)) = KEY_LEN T"
  using layout_ok by (simp add: length_image slot_ok_def)

end

section \<open>Byte arrays\<close>

text \<open>\<open>impl Slot for [u8; N]\<close>: the value is its own image and its own key.\<close>

definition array_slot :: "nat \<Rightarrow> slot_type" where
  "array_slot n = \<lparr>SIZE = n, KEY_LEN = n\<rparr>"

definition array_write :: "bytes \<Rightarrow> bytes \<Rightarrow> bytes option" where
  "array_write v out = put_range 0 (length out) v out"

definition array_read :: "nat \<Rightarrow> bytes \<Rightarrow> bytes option" where
  "array_read n bs = (if length bs = n then Some bs else None)"

lemma array_write_read:
  "length v = n \<Longrightarrow> length out = n \<Longrightarrow> array_write v out = Some v \<and> array_read n v = Some v"
  by (simp add: array_write_def array_read_def splice_def)

section \<open>Evaluating a fixed layout\<close>

text \<open>
  A chain of writes at ascending offsets is the concatenation of the written fields, and a
  read at an offset picks its field out of such a concatenation; \<open>layout_simps\<close> computes
  both.
\<close>

lemma splice_skip: "length xs \<le> off \<Longrightarrow> splice (xs @ ys) off new = xs @ splice ys (off - length xs) new"
  by (simp add: splice_def)

lemma slice_skip: "length xs \<le> a \<Longrightarrow> slice (xs @ ys) a b = slice ys (a - length xs) (b - length xs)"
  by (rule slice_append_right)

lemma slice_head: "length xs = n \<Longrightarrow> slice (xs @ ys) 0 n = xs"
  by (simp add: slice_def)

lemma slice_whole: "length xs = n \<Longrightarrow> slice xs 0 n = xs"
  by (simp add: slice_def)

lemmas layout_simps = splice_skip splice_0 slice_skip slice_head slice_whole

text \<open>A field image read back out of a slice, used for \<open>image (read bs) = bs\<close>.\<close>

lemma field_of_slice:
  "off + 2 \<le> length bs \<Longrightarrow> u16_be (u16_of_be (slice bs off (off + 2))) = slice bs off (off + 2)"
  "off + 4 \<le> length bs \<Longrightarrow> u32_be (u32_of_be (slice bs off (off + 4))) = slice bs off (off + 4)"
  "off + 8 \<le> length bs \<Longrightarrow> u64_be (u64_of_be (slice bs off (off + 8))) = slice bs off (off + 8)"
  by (simp_all add: word_bytes_of)

end
