(* ===== verification/Paged.thy ===== *)
theory Paged
  imports Slot
begin

text \<open>
  The page-addressed backing of \<open>crates/plugmem-arena/src/paged.rs\<close>: a pool that owns its
  bytes, or borrows a base and overlays a copy of every base page that has been written
  (per-page copy-on-write), with pages grown after open in an owned tail. The page size is
  the argument \<open>P\<close> (the code's const generic).

  The contract the arena and the chunk pool rely on is the locale \<open>page_pool\<close>: a pool is a
  list of pages, a page write replaces one element, growth appends one. \<open>Paged\<close> interprets
  it for both page sizes the code uses, and the borrowed shape is shown to behave exactly as
  an owned pool over the same bytes while its base is never changed.
\<close>

section \<open>State\<close>

datatype paged =
    Owned (owned_bytes: bytes)
  | Cow (cow_base: bytes) (cow_base_pages: nat) (cow_grown: bytes) (cow_over_pool: bytes)
      (cow_over_slot: "u32 list")

section \<open>Operations\<close>

definition owned_empty :: paged where
  "owned_empty = Owned []"

definition owned_from :: "bytes \<Rightarrow> paged" where
  "owned_from bs = Owned bs"

definition borrowed :: "nat \<Rightarrow> bytes \<Rightarrow> paged" where
  "borrowed P base =
     (let base_pages = length base div P
      in Cow base base_pages [] [] (replicate base_pages NONE_U32))"

fun paged_len :: "paged \<Rightarrow> nat" where
  "paged_len (Owned v) = length v"
| "paged_len (Cow base _ grown _ _) = length base + length grown"

text \<open>The bytes of one page; \<open>idx\<close> is the \<open>u32\<close> page index read as \<open>usize\<close>.\<close>

fun page_at :: "nat \<Rightarrow> paged \<Rightarrow> nat \<Rightarrow> bytes" where
  "page_at P (Owned v) idx = slice v (idx * P) (idx * P + P)"
| "page_at P (Cow base base_pages grown over_pool over_slot) idx =
     (if base_pages \<le> idx
      then slice grown ((idx - base_pages) * P) ((idx - base_pages) * P + P)
      else if over_slot ! idx \<noteq> NONE_U32
      then slice over_pool (unat (over_slot ! idx) * P) (unat (over_slot ! idx) * P + P)
      else slice base (idx * P) (idx * P + P))"

text \<open>
  \<open>page_mut\<close> hands out a mutable slice. It is modelled in two steps: \<open>page_touch\<close> is what
  \<open>page_mut\<close> itself does to the pool (the copy-up of a base page on its first write), and
  \<open>page_store\<close> is the caller's write through the slice, which lands in the owned vector, the
  grown tail or the overlay copy. \<open>page_mut P idx f\<close> is both, for a caller that replaces the
  page's bytes \<open>bs\<close> by \<open>f bs\<close>.
\<close>

fun page_touch :: "nat \<Rightarrow> nat \<Rightarrow> paged \<Rightarrow> paged" where
  "page_touch P idx (Owned v) = Owned v"
| "page_touch P idx (Cow base base_pages grown over_pool over_slot) =
     (if base_pages \<le> idx \<or> over_slot ! idx \<noteq> NONE_U32
      then Cow base base_pages grown over_pool over_slot
      else Cow base base_pages grown (over_pool @ slice base (idx * P) (idx * P + P))
             (over_slot[idx := of_nat (length over_pool div P)]))"

fun page_store :: "nat \<Rightarrow> nat \<Rightarrow> bytes \<Rightarrow> paged \<Rightarrow> paged" where
  "page_store P idx bs (Owned v) = Owned (splice v (idx * P) bs)"
| "page_store P idx bs (Cow base base_pages grown over_pool over_slot) =
     (if base_pages \<le> idx
      then Cow base base_pages (splice grown ((idx - base_pages) * P) bs) over_pool over_slot
      else Cow base base_pages grown (splice over_pool (unat (over_slot ! idx) * P) bs) over_slot)"

definition page_mut :: "nat \<Rightarrow> nat \<Rightarrow> (bytes \<Rightarrow> bytes) \<Rightarrow> paged \<Rightarrow> paged" where
  "page_mut P idx f pg =
     (let pg' = page_touch P idx pg in page_store P idx (f (page_at P pg' idx)) pg')"

text \<open>\<open>grown_tail_mut\<close>, used by its owners to append bytes.\<close>

fun grow_tail :: "bytes \<Rightarrow> paged \<Rightarrow> paged" where
  "grow_tail new (Owned v) = Owned (v @ new)"
| "grow_tail new (Cow base base_pages grown over_pool over_slot) =
     Cow base base_pages (grown @ new) over_pool over_slot"

section \<open>Invariant and abstraction\<close>

text \<open>The slots the redirect table names are exactly the copies in the overlay pool.\<close>

definition redirects_ok :: "nat \<Rightarrow> nat \<Rightarrow> u32 list \<Rightarrow> bool" where
  "redirects_ok base_pages copies over_slot \<longleftrightarrow>
     length over_slot = base_pages \<and>
     distinct (filter (\<lambda>s. s \<noteq> NONE_U32) over_slot) \<and>
     length (filter (\<lambda>s. s \<noteq> NONE_U32) over_slot) = copies \<and>
     (\<forall>s \<in> set over_slot. s \<noteq> NONE_U32 \<longrightarrow> unat s < copies)"

fun paged_inv :: "nat \<Rightarrow> paged \<Rightarrow> bool" where
  "paged_inv P (Owned v) \<longleftrightarrow> 0 < P \<and> P dvd length v"
| "paged_inv P (Cow base base_pages grown over_pool over_slot) \<longleftrightarrow>
     0 < P \<and> length base = base_pages * P \<and> base_pages < 2 ^ 32 \<and>
     P dvd length grown \<and> P dvd length over_pool \<and>
     redirects_ok base_pages (length over_pool div P) over_slot"

definition pages :: "nat \<Rightarrow> paged \<Rightarrow> bytes list" where
  "pages P pg = map (page_at P pg) [0..<paged_len pg div P]"

fun base_of :: "paged \<Rightarrow> bytes" where
  "base_of (Owned v) = []"
| "base_of (Cow base _ _ _ _) = base"

section \<open>Chunks of a flat byte string\<close>

lemma slice_chunk_splice:
  assumes "0 < P" and "length new = P" and "i * P + P \<le> length v" and "j * P + P \<le> length v"
  shows "slice (splice v (i * P) new) (j * P) (j * P + P) =
           (if i = j then new else slice v (j * P) (j * P + P))"
proof (cases i j rule: linorder_cases)
  case less
  then have "i * P + P \<le> j * P"
    by (metis Suc_leI add.commute mult_Suc mult_le_mono1)
  with assms less show ?thesis by (simp add: slice_splice_after)
next
  case greater
  then have "j * P + P \<le> i * P"
    by (metis Suc_leI add.commute mult_Suc mult_le_mono1)
  with assms greater show ?thesis by (simp add: slice_splice_before)
qed (use assms in \<open>simp add: slice_splice_same\<close>)

lemma chunk_in_range: "0 < P \<Longrightarrow> i < n div P \<Longrightarrow> i * P + P \<le> (n :: nat)"
  by (metis add.commute div_times_less_eq_dividend le_trans mult_Suc mult_le_mono1 Suc_leI)

lemma chunk_in_range_mult: "i < n \<Longrightarrow> i * P + P \<le> n * (P :: nat)"
  by (metis add.commute mult_Suc mult_le_mono1 Suc_leI)

section \<open>Laws\<close>

lemma redirects_less:
  assumes "redirects_ok bp n os" and "i < bp" and "os ! i = NONE_U32"
  shows "n < bp"
proof -
  have "os ! i \<in> set os"
    using assms by (intro nth_mem) (simp add: redirects_ok_def)
  then have "length (filter (\<lambda>s. s \<noteq> NONE_U32) os) < length os"
    using assms(3) by (intro length_filter_less) auto
  with assms(1) show ?thesis by (simp add: redirects_ok_def)
qed

lemma redirects_slot:
  "redirects_ok bp n os \<Longrightarrow> i < bp \<Longrightarrow> os ! i \<noteq> NONE_U32 \<Longrightarrow> unat (os ! i) < n"
  by (auto simp: redirects_ok_def)

lemma filter_distinct_nth:
  "distinct (filter Q xs) \<Longrightarrow> i < length xs \<Longrightarrow> j < length xs \<Longrightarrow> Q (xs ! i) \<Longrightarrow>
     xs ! i = xs ! j \<Longrightarrow> i = j"
proof (induction xs arbitrary: i j)
  case (Cons x xs)
  show ?case
  proof (cases i; cases j)
    fix j' assume "i = 0" and j: "j = Suc j'"
    with Cons.prems have "x \<in> set (filter Q xs)" by auto
    with Cons.prems \<open>i = 0\<close> show ?thesis by auto
  next
    fix i' assume "j = 0" and i: "i = Suc i'"
    with Cons.prems have "x \<in> set (filter Q xs)" by auto
    with Cons.prems \<open>j = 0\<close> i show ?thesis by auto
  next
    fix i' j' assume "i = Suc i'" and "j = Suc j'"
    with Cons.IH [of i' j'] Cons.prems show ?thesis by (auto split: if_splits)
  qed simp
qed simp

lemma redirects_inj:
  "redirects_ok bp n os \<Longrightarrow> i < bp \<Longrightarrow> j < bp \<Longrightarrow> os ! i \<noteq> NONE_U32 \<Longrightarrow>
     os ! i = os ! j \<Longrightarrow> i = j"
  by (rule filter_distinct_nth [of "\<lambda>s. s \<noteq> NONE_U32" os]) (auto simp: redirects_ok_def)

lemma redirects_add:
  assumes ok: "redirects_ok bp n os" and i: "i < bp" and none: "os ! i = NONE_U32" and bp: "bp < 2 ^ 32"
  shows "redirects_ok bp (Suc n) (os[i := of_nat n])"
proof -
  have n: "n < bp" using redirects_less [OF ok i none] .
  let ?w = "of_nat n :: u32"
  have w: "unat ?w = n" "?w \<noteq> NONE_U32"
    using n bp of_nat_neq_NONE [of n] by simp_all
  have len: "length os = bp" using ok by (simp add: redirects_ok_def)
  have fresh: "?w \<notin> set (filter (\<lambda>s. s \<noteq> NONE_U32) os)"
    using ok w by (auto simp: redirects_ok_def)
  have os: "os = take i os @ NONE_U32 # drop (Suc i) os"
    using i len none by (metis id_take_nth_drop)
  let ?f = "filter (\<lambda>s. s \<noteq> NONE_U32)"
  have f0: "?f os = ?f (take i os) @ ?f (drop (Suc i) os)"
    by (subst os) simp
  have f1: "?f (os[i := ?w]) = ?f (take i os) @ ?w # ?f (drop (Suc i) os)"
    using i len w by (simp add: upd_conv_take_nth_drop)
  have "distinct (?f (os[i := ?w]))" and "length (?f (os[i := ?w])) = Suc n"
    using ok fresh unfolding f1 redirects_ok_def f0 by auto
  moreover have "unat s < Suc n" if "s \<in> set (os[i := ?w])" "s \<noteq> NONE_U32" for s
    using that set_update_subset_insert [of os i ?w] ok w
    by (fastforce simp: redirects_ok_def)
  ultimately show ?thesis
    using len by (simp add: redirects_ok_def)
qed

lemma length_pages [simp]: "length (pages P pg) = paged_len pg div P"
  by (simp add: pages_def)

lemma pages_nth [simp]: "i < paged_len pg div P \<Longrightarrow> pages P pg ! i = page_at P pg i"
  by (simp add: pages_def)

lemma paged_len_dvd: "paged_inv P pg \<Longrightarrow> P dvd paged_len pg"
  by (cases pg) auto

lemma cow_pages:
  assumes "paged_inv P (Cow base bp grown op os)"
  shows "paged_len (Cow base bp grown op os) div P = bp + length grown div P"
  using assms by simp

lemma length_page_at:
  assumes inv: "paged_inv P pg" and i: "i < paged_len pg div P"
  shows "length (page_at P pg i) = P"
proof (cases pg)
  case (Owned v)
  with assms chunk_in_range [of P i "length v"] show ?thesis by simp
next
  case (Cow base bp grown op os)
  with inv have ok: "redirects_ok bp (length op div P) os" and P: "0 < P" and base: "length base = bp * P"
    by simp_all
  show ?thesis
  proof (cases "bp \<le> i")
    case True
    with Cow inv i cow_pages [of P base bp grown op os] have "i - bp < length grown div P" by simp
    with True Cow P chunk_in_range [of P "i - bp" "length grown"] show ?thesis by simp
  next
    case False
    show ?thesis
    proof (cases "os ! i = NONE_U32")
      case True
      with False Cow base chunk_in_range_mult [of i bp P] show ?thesis by simp
    next
      case slot: False
      with False redirects_slot [OF ok] have "unat (os ! i) < length op div P" by simp
      with slot False Cow P chunk_in_range [of P "unat (os ! i)" "length op"] show ?thesis by simp
    qed
  qed
qed

lemma page_touch_props:
  assumes inv: "paged_inv P pg" and i: "i < paged_len pg div P"
  shows "paged_inv P (page_touch P i pg) \<and> paged_len (page_touch P i pg) = paged_len pg \<and>
    pages P (page_touch P i pg) = pages P pg"
proof (cases pg)
  case (Owned v)
  with inv show ?thesis by (simp add: pages_def)
next
  case (Cow base bp grown op os)
  show ?thesis
  proof (cases "bp \<le> i \<or> os ! i \<noteq> NONE_U32")
    case True
    with Cow inv show ?thesis by (simp add: pages_def)
  next
    case False
    let ?n = "length op div P"
    let ?c = "slice base (i * P) (i * P + P)"
    let ?pg = "Cow base bp grown (op @ ?c) (os[i := of_nat ?n])"
    from Cow inv have ok: "redirects_ok bp ?n os" and P: "0 < P" and base: "length base = bp * P"
      and bp: "bp < 2 ^ 32" and dvd: "P dvd length op"
      by simp_all
    have c: "length ?c = P"
      using False base chunk_in_range_mult [of i bp P] by simp
    have n: "length (op @ ?c) div P = Suc ?n"
      using c dvd P by (simp add: div_add1_eq)
    have len: "length os = bp" using ok by (simp add: redirects_ok_def)
    have w: "unat (of_nat ?n :: u32) = ?n" "(of_nat ?n :: u32) \<noteq> NONE_U32"
      using redirects_less [OF ok, of i] False bp of_nat_neq_NONE [of ?n] by simp_all
    have nP: "?n * P = length op" using dvd by simp
    have inv': "paged_inv P ?pg"
      using Cow inv redirects_add [OF ok _ _ bp, of i] False c n by simp
    have at: "page_at P ?pg j = page_at P pg j" for j
    proof (cases "j = i")
      case True
      with Cow False len w nP c show ?thesis
        by (simp add: slice_append_right slice_whole_len)
    next
      case False
      show ?thesis
      proof (cases "j < bp \<and> os ! j \<noteq> NONE_U32")
        case True
        then have "unat (os ! j) < ?n" using redirects_slot [OF ok] by simp
        with P have "unat (os ! j) * P + P \<le> length op" by (simp add: chunk_in_range)
        with True False Cow show ?thesis by (simp add: slice_append_left)
      qed (use Cow False in auto)
    qed
    have "paged_len ?pg = paged_len pg" using Cow by simp
    moreover from this at have "pages P ?pg = pages P pg"
      by (simp add: pages_def)
    moreover have "page_touch P i pg = ?pg" using Cow False by simp
    ultimately show ?thesis using inv' by metis
  qed
qed

lemma page_store_props:
  assumes inv: "paged_inv P pg" and i: "i < paged_len pg div P" and new: "length new = P"
    and owned: "page_touch P i pg = pg"
  shows "paged_inv P (page_store P i new pg) \<and> paged_len (page_store P i new pg) = paged_len pg \<and>
    pages P (page_store P i new pg) = (pages P pg)[i := new]"
proof (cases pg)
  case (Owned v)
  with inv have P: "0 < P" by simp
  have fits: "j * P + P \<le> length v" if "j < length v div P" for j
    using chunk_in_range [OF P that] .
  from Owned i fits new have len: "length (splice v (i * P) new) = length v" by simp
  have "page_at P (Owned (splice v (i * P) new)) j = (if i = j then new else page_at P (Owned v) j)"
    if "j < length v div P" for j
    using slice_chunk_splice [OF P new fits fits] Owned i that by simp
  then have "pages P (Owned (splice v (i * P) new)) = (pages P (Owned v))[i := new]"
    using len by (auto intro!: nth_equalityI simp: nth_list_update)
  with Owned inv len show ?thesis by simp
next
  case (Cow base bp grown op os)
  from Cow inv have ok: "redirects_ok bp (length op div P) os" and P: "0 < P" by simp_all
  note n = cow_pages [OF inv [unfolded Cow]]
  have fits: "j * P + P \<le> length xs" if "j < length xs div P" for j and xs :: bytes
    using chunk_in_range [OF P that] .
  show ?thesis
  proof (cases "bp \<le> i")
    case True
    let ?k = "i - bp"
    let ?pg = "Cow base bp (splice grown (?k * P) new) op os"
    have k: "?k < length grown div P" using True Cow i n by simp
    have len: "length (splice grown (?k * P) new) = length grown"
      using fits [OF k] new by simp
    have "page_at P ?pg j = (if i = j then new else page_at P pg j)"
      if j: "j < paged_len pg div P" for j
    proof (cases "bp \<le> j")
      case jb: True
      then have kj: "j - bp < length grown div P" using j Cow n by simp
      have "i = j \<longleftrightarrow> ?k = j - bp" using True jb by auto
      then show ?thesis
        using slice_chunk_splice [OF P new fits [OF k] fits [OF kj]] jb Cow by simp
    qed (use True Cow in auto)
    then have "pages P ?pg = (pages P pg)[i := new]"
      using len Cow by (auto intro!: nth_equalityI simp: nth_list_update)
    with True Cow inv len show ?thesis by simp
  next
    case False
    let ?s = "unat (os ! i)"
    let ?pg = "Cow base bp grown (splice op (?s * P) new) os"
    have "length (slice base (i * P) (i * P + P)) = P"
      using False Cow inv chunk_in_range_mult [of i bp P] by simp
    then have "slice base (i * P) (i * P + P) \<noteq> []" using P by fastforce
    with owned Cow False have slot: "os ! i \<noteq> NONE_U32" by auto
    have s: "?s < length op div P" using redirects_slot [OF ok] False slot by simp
    have len: "length (splice op (?s * P) new) = length op"
      using fits [OF s] new by simp
    have "page_at P ?pg j = (if i = j then new else page_at P pg j)" for j
    proof (cases "j < bp \<and> os ! j \<noteq> NONE_U32")
      case True
      then have sj: "unat (os ! j) < length op div P" using redirects_slot [OF ok] by simp
      have "i = j \<longleftrightarrow> ?s = unat (os ! j)"
        using redirects_inj [OF ok, of i j] False slot True by (auto simp: word_unat_eq_iff)
      then show ?thesis
        using slice_chunk_splice [OF P new fits [OF s] fits [OF sj]] True Cow by simp
    qed (use False slot Cow in auto)
    then have "pages P ?pg = (pages P pg)[i := new]"
      using Cow by (auto intro!: nth_equalityI simp: nth_list_update)
    with False Cow inv len show ?thesis by simp
  qed
qed

lemma page_touch_idem: "page_touch P i (page_touch P i pg) = page_touch P i pg"
  if "paged_inv P pg" and "i < paged_len pg div P"
proof (cases pg)
  case (Cow base bp grown op os)
  with that have ok: "redirects_ok bp (length op div P) os" and bp: "bp < 2 ^ 32" by simp_all
  show ?thesis
  proof (cases "bp \<le> i \<or> os ! i \<noteq> NONE_U32")
    case False
    then have "length op div P < bp" using redirects_less [OF ok, of i] by simp
    then have "(of_nat (length op div P) :: u32) \<noteq> NONE_U32"
      using bp by (intro of_nat_neq_NONE) simp
    moreover have "i < length os" using False ok by (simp add: redirects_ok_def)
    ultimately show ?thesis using Cow False by simp
  qed (use Cow in simp)
qed simp

lemma page_mut_props:
  assumes inv: "paged_inv P pg" and i: "i < paged_len pg div P"
    and f: "length (f (page_at P pg i)) = P"
  shows "paged_inv P (page_mut P i f pg) \<and> paged_len (page_mut P i f pg) = paged_len pg \<and>
    pages P (page_mut P i f pg) = (pages P pg)[i := f (page_at P pg i)]"
proof -
  let ?t = "page_touch P i pg"
  note t = page_touch_props [OF inv i]
  have at: "page_at P ?t i = page_at P pg i"
    using t i pages_nth by metis
  with t i f page_store_props [of P ?t i "f (page_at P pg i)"] page_touch_idem [OF inv i]
  show ?thesis by (simp add: page_mut_def Let_def)
qed

lemma grow_tail_props:
  assumes inv: "paged_inv P pg" and new: "length new = P"
  shows "paged_inv P (grow_tail new pg) \<and> paged_len (grow_tail new pg) = paged_len pg + P \<and>
    pages P (grow_tail new pg) = pages P pg @ [new]"
proof -
  from inv have P: "0 < P" by (cases pg) auto
  have dvd: "P dvd paged_len pg" using inv by (rule paged_len_dvd)
  have len: "paged_len (grow_tail new pg) = paged_len pg + P"
    using new by (cases pg) auto
  have inv': "paged_inv P (grow_tail new pg)"
    using inv new by (cases pg) auto
  have "page_at P (grow_tail new pg) j = (pages P pg @ [new]) ! j"
    if j: "j < Suc (paged_len pg div P)" for j
  proof (cases pg)
    case (Owned v)
    show ?thesis
    proof (cases "j < length v div P")
      case True
      with Owned chunk_in_range [OF P True] show ?thesis
        by (simp add: nth_append slice_append_left)
    next
      case False
      with j Owned have "j = length v div P" by simp
      moreover have "length v div P * P = length v" using dvd Owned by simp
      ultimately show ?thesis using Owned new
        by (simp add: nth_append slice_append_right slice_whole_len)
    qed
  next
    case (Cow base bp grown op os)
    note n = cow_pages [OF inv [unfolded Cow]]
    show ?thesis
    proof (cases "bp \<le> j")
      case True
      let ?k = "j - bp"
      show ?thesis
      proof (cases "?k < length grown div P")
        case kk: True
        then have "j < bp + length grown div P" using True by simp
        with Cow n True chunk_in_range [OF P kk] show ?thesis
          by (simp add: nth_append slice_append_left)
      next
        case kk: False
        then have k: "?k = length grown div P" and jj: "j = bp + length grown div P"
          using j Cow n True by auto
        have "?k * P = length grown" using k inv Cow by simp
        then have "page_at P (grow_tail new pg) j = new"
          using Cow True new by (simp add: slice_append_right slice_whole_len)
        moreover have "(pages P pg @ [new]) ! j = new"
          using jj n Cow by (simp add: nth_append)
        ultimately show ?thesis by simp
      qed
    next
      case False
      then have "j < paged_len pg div P" using Cow n by simp
      with False Cow show ?thesis by (simp add: nth_append)
    qed
  qed
  moreover have "(paged_len pg + P) div P = Suc (paged_len pg div P)"
    using P by (simp add: div_add_self2)
  ultimately have "pages P (grow_tail new pg) = pages P pg @ [new]"
    using len by (intro nth_equalityI) simp_all
  with inv' len show ?thesis by simp
qed

section \<open>The contract of a page pool\<close>

locale page_pool =
  fixes P :: nat
    and inv :: "'s \<Rightarrow> bool"
    and view :: "'s \<Rightarrow> bytes list"
    and len :: "'s \<Rightarrow> nat"
    and at :: "'s \<Rightarrow> nat \<Rightarrow> bytes"
    and modify :: "nat \<Rightarrow> (bytes \<Rightarrow> bytes) \<Rightarrow> 's \<Rightarrow> 's"
    and grow :: "bytes \<Rightarrow> 's \<Rightarrow> 's"
  assumes page_size_pos: "0 < P"
    and len_view: "inv s \<Longrightarrow> len s = P * length (view s)"
    and at_view: "inv s \<Longrightarrow> i < length (view s) \<Longrightarrow> at s i = view s ! i"
    and page_length: "inv s \<Longrightarrow> b \<in> set (view s) \<Longrightarrow> length b = P"
    and modify_inv: "inv s \<Longrightarrow> i < length (view s) \<Longrightarrow> length (f (view s ! i)) = P \<Longrightarrow> inv (modify i f s)"
    and modify_view: "inv s \<Longrightarrow> i < length (view s) \<Longrightarrow> length (f (view s ! i)) = P \<Longrightarrow>
      view (modify i f s) = (view s)[i := f (view s ! i)]"
    and grow_inv: "inv s \<Longrightarrow> length b = P \<Longrightarrow> inv (grow b s)"
    and grow_view: "inv s \<Longrightarrow> length b = P \<Longrightarrow> view (grow b s) = view s @ [b]"
begin

lemma at_length: "inv s \<Longrightarrow> i < length (view s) \<Longrightarrow> length (at s i) = P"
  by (simp add: at_view page_length)

lemma count_eq: "inv s \<Longrightarrow> len s div P = length (view s)"
  using page_size_pos by (simp add: len_view)

lemma modify_same:
  "inv s \<Longrightarrow> i < length (view s) \<Longrightarrow> length (f (view s ! i)) = P \<Longrightarrow> at (modify i f s) i = f (at s i)"
  by (simp add: at_view modify_inv modify_view)

lemma modify_other:
  "inv s \<Longrightarrow> i < length (view s) \<Longrightarrow> length (f (view s ! i)) = P \<Longrightarrow> j < length (view s) \<Longrightarrow> i \<noteq> j \<Longrightarrow>
     at (modify i f s) j = at s j"
  by (simp add: at_view modify_inv modify_view)

lemma modify_len:
  "inv s \<Longrightarrow> i < length (view s) \<Longrightarrow> length (f (view s ! i)) = P \<Longrightarrow> len (modify i f s) = len s"
  by (simp add: len_view modify_inv modify_view)

lemma grow_old:
  "inv s \<Longrightarrow> length b = P \<Longrightarrow> i < length (view s) \<Longrightarrow> at (grow b s) i = at s i"
  by (simp add: at_view grow_inv grow_view nth_append)

lemma grow_new: "inv s \<Longrightarrow> length b = P \<Longrightarrow> at (grow b s) (length (view s)) = b"
  by (simp add: at_view grow_inv grow_view)

lemma grow_len: "inv s \<Longrightarrow> length b = P \<Longrightarrow> len (grow b s) = len s + P"
  by (simp add: len_view grow_inv grow_view)

end

lemma paged_is_page_pool:
  assumes P: "0 < P"
  shows "page_pool P (paged_inv P) (pages P) paged_len (page_at P) (page_mut P) grow_tail"
proof
  fix s i and b :: bytes and f :: "bytes \<Rightarrow> bytes"
  assume inv: "paged_inv P s"
  show "paged_len s = P * length (pages P s)"
    using paged_len_dvd [OF inv] by simp
  show "b \<in> set (pages P s) \<Longrightarrow> length b = P"
    using length_page_at [OF inv] by (auto simp: pages_def)
  assume i: "i < length (pages P s)"
  then show at: "page_at P s i = pages P s ! i" by simp
  assume "length (f (pages P s ! i)) = P"
  with i at page_mut_props [OF inv, of i f] show "paged_inv P (page_mut P i f s)"
    and "pages P (page_mut P i f s) = (pages P s)[i := f (pages P s ! i)]"
    by simp_all
next
  fix s and b :: bytes
  assume "paged_inv P s" and "length b = P"
  then show "paged_inv P (grow_tail b s)" and "pages P (grow_tail b s) = pages P s @ [b]"
    using grow_tail_props by blast+
qed (rule P)

text \<open>The arena's 4 KiB pages and the chunk pool's 64-byte chunks.\<close>

definition CHUNK_BYTES :: nat where
  "CHUNK_BYTES = 64"

lemma CHUNK_BYTES_pos [simp]: "0 < CHUNK_BYTES"
  by (simp add: CHUNK_BYTES_def)

interpretation page4k: page_pool PAGE_BYTES "paged_inv PAGE_BYTES" "pages PAGE_BYTES" paged_len
    "page_at PAGE_BYTES" "page_mut PAGE_BYTES" grow_tail
  by (rule paged_is_page_pool) simp

interpretation chunk64: page_pool CHUNK_BYTES "paged_inv CHUNK_BYTES" "pages CHUNK_BYTES" paged_len
    "page_at CHUNK_BYTES" "page_mut CHUNK_BYTES" grow_tail
  by (rule paged_is_page_pool) simp

section \<open>Overlay opens behave as owned pools\<close>

text \<open>A write history: in-place page writes and growth by one page.\<close>

datatype pool_op = Write nat "bytes \<Rightarrow> bytes" | Grow bytes

fun pool_op_ok :: "nat \<Rightarrow> bytes list \<Rightarrow> pool_op \<Rightarrow> bool" where
  "pool_op_ok P v (Write i f) \<longleftrightarrow> i < length v \<and> length (f (v ! i)) = P"
| "pool_op_ok P v (Grow b) \<longleftrightarrow> length b = P"

fun pool_op_apply :: "nat \<Rightarrow> pool_op \<Rightarrow> paged \<Rightarrow> paged" where
  "pool_op_apply P (Write i f) pg = page_mut P i f pg"
| "pool_op_apply P (Grow b) pg = grow_tail b pg"

fun pool_run :: "nat \<Rightarrow> pool_op list \<Rightarrow> paged \<Rightarrow> paged" where
  "pool_run P [] pg = pg"
| "pool_run P (x # xs) pg = pool_run P xs (pool_op_apply P x pg)"

fun pool_run_ok :: "nat \<Rightarrow> pool_op list \<Rightarrow> paged \<Rightarrow> bool" where
  "pool_run_ok P [] pg = True"
| "pool_run_ok P (x # xs) pg = (pool_op_ok P (pages P pg) x \<and> pool_run_ok P xs (pool_op_apply P x pg))"

lemma base_page_touch: "base_of (page_touch P i pg) = base_of pg"
  by (cases pg) auto

lemma base_page_store: "base_of (page_store P i bs pg) = base_of pg"
  by (cases pg) auto

lemma base_pool_op: "base_of (pool_op_apply P x pg) = base_of pg"
  by (cases x; cases pg) (auto simp: page_mut_def Let_def base_page_touch base_page_store)

lemma base_pool_run: "base_of (pool_run P xs pg) = base_of pg"
  by (induction xs arbitrary: pg) (auto simp: base_pool_op)

lemma pool_op_pages:
  assumes P: "0 < P" and "paged_inv P a" and "paged_inv P b" and "pages P a = pages P b"
    and "pool_op_ok P (pages P a) x"
  shows "paged_inv P (pool_op_apply P x a) \<and> paged_inv P (pool_op_apply P x b) \<and>
    pages P (pool_op_apply P x a) = pages P (pool_op_apply P x b)"
proof (cases x)
  case (Write i f)
  note laws = page_pool.modify_inv [OF paged_is_page_pool [OF P]]
    page_pool.modify_view [OF paged_is_page_pool [OF P]]
  from assms Write have "i < length (pages P a)" "length (f (pages P a ! i)) = P"
    and "i < length (pages P b)" "length (f (pages P b ! i)) = P"
    by auto
  with assms laws [of a i f] laws [of b i f] Write show ?thesis
    by (simp del: length_pages pages_nth)
next
  case (Grow c)
  with assms grow_tail_props [of P a c] grow_tail_props [of P b c] show ?thesis by simp
qed

lemma pool_run_pages:
  assumes P: "0 < P"
  shows "paged_inv P a \<Longrightarrow> paged_inv P b \<Longrightarrow> pages P a = pages P b \<Longrightarrow> pool_run_ok P xs a \<Longrightarrow>
    pool_run_ok P xs b \<and> pages P (pool_run P xs a) = pages P (pool_run P xs b)"
proof (induction xs arbitrary: a b)
  case (Cons x xs)
  then show ?case using pool_op_pages [OF P, of a b x] by auto
qed simp

lemma borrowed_inv:
  "0 < P \<Longrightarrow> P dvd length base \<Longrightarrow> length base div P < 2 ^ 32 \<Longrightarrow> paged_inv P (borrowed P base)"
  by (auto simp: borrowed_def Let_def redirects_ok_def)

lemma pages_borrowed: "pages P (borrowed P base) = pages P (owned_from base)"
  by (auto simp: pages_def borrowed_def Let_def owned_from_def)

text \<open>
  A pool opened over a borrowed base is indistinguishable from one that copied the base:
  after any sequence of in-place page writes and page growths both hold the same pages, and
  the borrowed base bytes are exactly those given at open (copy-on-write never writes
  through).
\<close>

theorem overlay_refines_owned:
  assumes "0 < P" and "P dvd length base" and "length base div P < 2 ^ 32"
    and "pool_run_ok P xs (owned_from base)"
  shows "pool_run_ok P xs (borrowed P base) \<and>
    pages P (pool_run P xs (borrowed P base)) = pages P (pool_run P xs (owned_from base)) \<and>
    base_of (pool_run P xs (borrowed P base)) = base"
proof -
  have "paged_inv P (owned_from base)"
    using assms by (simp add: owned_from_def)
  with assms pool_run_pages [OF assms(1), of "owned_from base" "borrowed P base" xs]
  show ?thesis
    by (simp add: borrowed_inv pages_borrowed base_pool_run) (simp add: borrowed_def Let_def)
qed

text \<open>A base of two two-byte pages: the second is overwritten, then a third is appended.\<close>

theorem overlay_refines_owned_witness:
  "pool_run_ok 2 [Write 1 (\<lambda>_. [9, 9]), Grow [5, 6], Write 2 rev] (borrowed 2 [1, 2, 3, 4]) \<and>
    pages 2 (pool_run 2 [Write 1 (\<lambda>_. [9, 9]), Grow [5, 6], Write 2 rev] (borrowed 2 [1, 2, 3, 4])) =
      pages 2 (pool_run 2 [Write 1 (\<lambda>_. [9, 9]), Grow [5, 6], Write 2 rev] (owned_from [1, 2, 3, 4])) \<and>
    base_of (pool_run 2 [Write 1 (\<lambda>_. [9, 9]), Grow [5, 6], Write 2 rev] (borrowed 2 [1, 2, 3, 4]))
      = [1, 2, 3, 4]"
  by (rule overlay_refines_owned)
    (simp_all add: owned_from_def pages_def page_mut_def Let_def splice_def slice_def upt_rec)

end
