(* ===== verification/Arena_Error.thy ===== *)
theory Arena_Error
  imports Prelude
begin

text \<open>
  The storage crate's error type, \<open>crates/plugmem-arena/src/error.rs\<close>. The message of
  \<open>Corrupt\<close> names the violated invariant, as in the code.
\<close>

datatype arena_error =
    CapacityExceeded (err_max_bytes: nat)
  | BadSlot (err_size: nat) (err_key_len: nat)
  | BadShardCount (err_got: nat)
  | BlobTooLarge (err_len: nat) (err_max_blob: nat)
  | ValueTooLarge (err_value_len: nat)
  | Corrupt string

end
