(* ===== verification/Blob_Heap.thy ===== *)
theory Blob_Heap
  imports Arena_Error
begin

text \<open>
  The append-only blob heap of \<open>crates/plugmem-arena/src/blob.rs\<close>: a borrowed base, an owned
  tail, and an index of \<open>(offset, len)\<close> pairs over their concatenation. Modelled are
  \<open>push\<close>, \<open>get\<close>, the dumps, the validating loaders, the streaming index builder and heap
  equality. The contract is that of an append-only list of byte strings
  (locale \<open>blob_store\<close>, interpreted on the heap); the loaders accept exactly the dumps.
\<close>

section \<open>State\<close>

record blob_cfg =
  max_bytes :: nat
  max_blob :: nat

definition blob_cfg_new :: blob_cfg where
  "blob_cfg_new = \<lparr>max_bytes = usize_max, max_blob = usize_max\<rparr>"

record blob_heap =
  bh_base :: bytes
  bh_tail :: bytes
  bh_index :: "(nat \<times> u32) list"
  bh_cfg :: blob_cfg

definition blob_new :: "blob_cfg \<Rightarrow> blob_heap" where
  "blob_new cfg = \<lparr>bh_base = [], bh_tail = [], bh_index = [], bh_cfg = cfg\<rparr>"

section \<open>Operations\<close>

definition pool_len :: "blob_heap \<Rightarrow> nat" where
  "pool_len h = length (bh_base h) + length (bh_tail h)"

text \<open>\<open>BlobHeap::slice\<close>; a range past its segment panics.\<close>

definition blob_slice :: "blob_heap \<Rightarrow> nat \<Rightarrow> nat \<Rightarrow> bytes option" where
  "blob_slice h offset len =
     (let base_len = length (bh_base h)
      in if offset < base_len
         then (if offset + len \<le> base_len then Some (slice (bh_base h) offset (offset + len)) else None)
         else (let at = offset - base_len
               in if at + len \<le> length (bh_tail h)
                  then Some (slice (bh_tail h) at (at + len)) else None))"

text \<open>\<open>u32::try_from(n).ok().filter(|&i| i != u32::MAX)\<close>.\<close>

definition fresh_id :: "nat \<Rightarrow> u32 option" where
  "fresh_id n = (if n < 2 ^ 32 \<and> of_nat n \<noteq> NONE_U32 then Some (of_nat n) else None)"

definition blob_push :: "bytes \<Rightarrow> blob_heap \<Rightarrow> arena_error + u32 \<times> blob_heap" where
  "blob_push bs h =
     (let cfg = bh_cfg h; capacity_exceeded = CapacityExceeded (max_bytes cfg); offset = pool_len h
      in if max_blob cfg < length bs then Inl (BlobTooLarge (length bs) (max_blob cfg))
         else try_res (ok_or (checked_add offset (length bs)) capacity_exceeded) (\<lambda>end.
           if max_bytes cfg < end then Inl capacity_exceeded
           else try_res (ok_or (fresh_id (length (bh_index h))) capacity_exceeded) (\<lambda>bid.
             Inr (bid, h\<lparr>bh_tail := bh_tail h @ bs,
                        bh_index := bh_index h @ [(offset, of_nat (length bs))]\<rparr>))))"

definition blob_get :: "blob_heap \<Rightarrow> u32 \<Rightarrow> bytes option" where
  "blob_get h b =
     (if unat b < length (bh_index h)
      then (case bh_index h ! unat b of (offset, len) \<Rightarrow> blob_slice h offset (unat len))
      else None)"

definition blob_count :: "blob_heap \<Rightarrow> nat" where
  "blob_count h = length (bh_index h)"

definition blob_is_empty :: "blob_heap \<Rightarrow> bool" where
  "blob_is_empty h \<longleftrightarrow> bh_index h = []"

definition blob_iter :: "blob_heap \<Rightarrow> (u32 \<times> bytes option) list" where
  "blob_iter h =
     map (\<lambda>i. case bh_index h ! i of (offset, len) \<Rightarrow> (of_nat i, blob_slice h offset (unat len)))
       [0..<length (bh_index h)]"

definition blob_dump_index :: "blob_heap \<Rightarrow> bytes" where
  "blob_dump_index h =
     u32_le (of_nat (length (bh_index h))) @ concat (map (\<lambda>(_, len). u32_le len) (bh_index h))"

definition blob_dump_pool :: "blob_heap \<Rightarrow> bytes" where
  "blob_dump_pool h = bh_base h @ bh_tail h"

text \<open>The loop of \<open>validate_index\<close>: \<open>n\<close> entries still to read, \<open>i\<close> the next one.\<close>

fun validate_lens ::
  "blob_cfg \<Rightarrow> bytes \<Rightarrow> nat \<Rightarrow> nat \<Rightarrow> nat \<Rightarrow> nat \<Rightarrow> (nat \<times> u32) list \<Rightarrow> arena_error + (nat \<times> u32) list \<times> nat"
where
  "validate_lens cfg index plen 0 i offset rebuilt = Inr (rebuilt, offset)"
| "validate_lens cfg index plen (Suc n) i offset rebuilt =
     (let at = 4 + i * 4; len = u32_of_le (slice index at (at + 4))
      in if max_blob cfg < unat len
         then Inl (Corrupt ''blob length exceeds the configured max_blob'')
         else case checked_add offset (unat len) of
             None \<Rightarrow> Inl (Corrupt ''blob lengths overrun the pool'')
           | Some o' \<Rightarrow>
               if plen < o' then Inl (Corrupt ''blob lengths overrun the pool'')
               else validate_lens cfg index plen n (Suc i) o' (rebuilt @ [(offset, len)]))"

definition validate_index :: "blob_cfg \<Rightarrow> bytes \<Rightarrow> nat \<Rightarrow> arena_error + (nat \<times> u32) list" where
  "validate_index cfg index plen =
     (if length index < 4 then Inl (Corrupt ''blob index shorter than its header'')
      else let blobs = u32_of_le (slice index 0 4)
      in if blobs = NONE_U32 then Inl (Corrupt ''blob count overflows the id space'')
      else if length index \<noteq> 4 + unat blobs * 4 then Inl (Corrupt ''blob index length mismatch'')
      else if max_bytes cfg < plen then Inl (Corrupt ''blob pool exceeds the configured ceiling'')
      else try_res (validate_lens cfg index plen (unat blobs) 0 0 []) (\<lambda>(rebuilt, offset).
        if offset \<noteq> plen then Inl (Corrupt ''blob lengths do not cover the pool'')
        else Inr rebuilt))"

definition blob_load :: "blob_cfg \<Rightarrow> bytes \<Rightarrow> bytes \<Rightarrow> arena_error + blob_heap" where
  "blob_load cfg index pool =
     try_res (validate_index cfg index (length pool)) (\<lambda>rebuilt.
       Inr \<lparr>bh_base = [], bh_tail = pool, bh_index = rebuilt, bh_cfg = cfg\<rparr>)"

definition blob_load_borrowed :: "blob_cfg \<Rightarrow> bytes \<Rightarrow> bytes \<Rightarrow> arena_error + blob_heap" where
  "blob_load_borrowed cfg index pool =
     try_res (validate_index cfg index (length pool)) (\<lambda>rebuilt.
       Inr \<lparr>bh_base = pool, bh_tail = [], bh_index = rebuilt, bh_cfg = cfg\<rparr>)"

definition blob_load_overlay :: "blob_cfg \<Rightarrow> bytes \<Rightarrow> bytes \<Rightarrow> arena_error + blob_heap" where
  "blob_load_overlay cfg index pool = blob_load_borrowed cfg index pool"

text \<open>\<open>PartialEq\<close>: equal configuration, index and logical pool.\<close>

definition blob_eq :: "blob_heap \<Rightarrow> blob_heap \<Rightarrow> bool" where
  "blob_eq h h' \<longleftrightarrow> bh_cfg h = bh_cfg h' \<and> bh_index h = bh_index h' \<and>
     bh_base h @ bh_tail h = bh_base h' @ bh_tail h'"

section \<open>The streaming index builder\<close>

record blob_builder =
  bb_lens :: "u32 list"
  bb_pool_len :: nat
  bb_cfg :: blob_cfg

definition builder_new :: "blob_cfg \<Rightarrow> blob_builder" where
  "builder_new cfg = \<lparr>bb_lens = [], bb_pool_len = 0, bb_cfg = cfg\<rparr>"

definition builder_push_len :: "nat \<Rightarrow> blob_builder \<Rightarrow> arena_error + u32 \<times> blob_builder" where
  "builder_push_len len b =
     (let cfg = bb_cfg b; capacity_exceeded = CapacityExceeded (max_bytes cfg)
      in if max_blob cfg < len then Inl (BlobTooLarge len (max_blob cfg))
         else try_res (ok_or (checked_add (bb_pool_len b) len) capacity_exceeded) (\<lambda>end.
           if max_bytes cfg < end then Inl capacity_exceeded
           else try_res (ok_or (fresh_id (length (bb_lens b))) capacity_exceeded) (\<lambda>bid.
             Inr (bid, b\<lparr>bb_lens := bb_lens b @ [of_nat len], bb_pool_len := end\<rparr>))))"

definition builder_dump_index :: "blob_builder \<Rightarrow> bytes" where
  "builder_dump_index b = u32_le (of_nat (length (bb_lens b))) @ concat (map u32_le (bb_lens b))"

section \<open>Invariant and abstraction\<close>

text \<open>
  The index entries are contiguous from \<open>off\<close>. The heap invariant: they cover the logical
  pool, the base ends at an entry boundary, and ids and offsets stay in range.
\<close>

fun contiguous :: "nat \<Rightarrow> (nat \<times> u32) list \<Rightarrow> bool" where
  "contiguous off [] = True"
| "contiguous off ((o', len) # es) = (o' = off \<and> contiguous (off + unat len) es)"

definition lens_total :: "(nat \<times> u32) list \<Rightarrow> nat" where
  "lens_total es = sum_list (map (\<lambda>e. unat (snd e)) es)"

definition blob_inv :: "blob_heap \<Rightarrow> bool" where
  "blob_inv h \<longleftrightarrow> contiguous 0 (bh_index h) \<and> lens_total (bh_index h) = pool_len h \<and>
     (\<exists>k \<le> length (bh_index h). lens_total (take k (bh_index h)) = length (bh_base h)) \<and>
     length (bh_index h) \<le> 2 ^ 32 - 1 \<and>
     pool_len h \<le> max_bytes (bh_cfg h) \<and> pool_len h \<le> usize_max \<and>
     (\<forall>e \<in> set (bh_index h). unat (snd e) \<le> max_blob (bh_cfg h))"

text \<open>The blobs in id order: the abstract value of a heap.\<close>

definition blobs :: "blob_heap \<Rightarrow> bytes list" where
  "blobs h = map (\<lambda>(offset, len). slice (bh_base h @ bh_tail h) offset (offset + unat len)) (bh_index h)"

lemma length_blobs [simp]: "length (blobs h) = length (bh_index h)"
  by (simp add: blobs_def)

lemma contiguous_append:
  "contiguous off (xs @ ys) \<longleftrightarrow> contiguous off xs \<and> contiguous (off + lens_total xs) ys"
  by (induction off xs rule: contiguous.induct) (auto simp: lens_total_def add.assoc)

lemma lens_total_simps [simp]:
  "lens_total [] = 0" "lens_total (e # es) = unat (snd e) + lens_total es"
  "lens_total (xs @ ys) = lens_total xs + lens_total ys"
  by (simp_all add: lens_total_def)

lemma contiguous_nth:
  "contiguous off es \<Longrightarrow> i < length es \<Longrightarrow> fst (es ! i) = off + lens_total (take i es)"
proof (induction es arbitrary: off i)
  case (Cons e es)
  then show ?case by (cases e; cases i) (auto simp: add.assoc)
qed simp

lemma lens_total_take_mono: "i \<le> j \<Longrightarrow> lens_total (take i es) \<le> lens_total (take j es)"
proof -
  assume "i \<le> j"
  then have "take j es = take i es @ take (j - i) (drop i es)"
    by (metis le_add_diff_inverse take_add)
  then show ?thesis by simp
qed

lemma lens_total_Suc:
  "i < length es \<Longrightarrow> lens_total (take (Suc i) es) = lens_total (take i es) + unat (snd (es ! i))"
  by (simp add: take_Suc_conv_app_nth)

text \<open>Each entry's range, and that it does not straddle the base boundary.\<close>

lemma blob_entry_range:
  assumes inv: "blob_inv h" and i: "i < length (bh_index h)" and e: "bh_index h ! i = (off, len)"
  shows "off + unat len \<le> pool_len h"
    and "off < length (bh_base h) \<Longrightarrow> off + unat len \<le> length (bh_base h)"
proof -
  let ?es = "bh_index h"
  from inv i e have off: "off = lens_total (take i ?es)"
    using contiguous_nth [of 0 ?es i] by (simp add: blob_inv_def)
  have end': "off + unat len = lens_total (take (Suc i) ?es)"
    using lens_total_Suc [OF i] off e by simp
  also have "\<dots> \<le> lens_total (take (length ?es) ?es)"
    using i by (intro lens_total_take_mono) simp
  finally show "off + unat len \<le> pool_len h"
    using inv by (simp add: blob_inv_def)
  from inv obtain k where k: "lens_total (take k ?es) = length (bh_base h)"
    by (auto simp: blob_inv_def)
  assume "off < length (bh_base h)"
  then have "\<not> k \<le> i"
    using k off lens_total_take_mono [of k i ?es] by auto
  then show "off + unat len \<le> length (bh_base h)"
    using end' k lens_total_take_mono [of "Suc i" k ?es] by simp
qed

lemma blob_get_blobs:
  assumes inv: "blob_inv h"
  shows "blob_get h b = (if unat b < length (blobs h) then Some (blobs h ! unat b) else None)"
proof (cases "unat b < length (bh_index h)")
  case True
  obtain off len where e: "bh_index h ! unat b = (off, len)" by fastforce
  from blob_entry_range [OF inv True e] True e show ?thesis
    by (auto simp: blob_get_def blob_slice_def blobs_def Let_def pool_len_def
        slice_append_left slice_append_right)
qed (simp add: blob_get_def)

section \<open>Push\<close>

lemma fresh_id_eq: "fresh_id n = (if n < 2 ^ 32 - 1 then Some (of_nat n) else None)"
proof -
  have "(of_nat n :: u32) = NONE_U32 \<longleftrightarrow> n = 2 ^ 32 - 1" if "n < 2 ^ 32"
  proof -
    have "(of_nat n :: u32) = NONE_U32 \<longleftrightarrow> unat (of_nat n :: u32) = unat NONE_U32"
      by (rule word_unat_eq_iff)
    with that show ?thesis by simp
  qed
  then show ?thesis by (auto simp: fresh_id_def)
qed

text \<open>The three ceilings of a push, and nothing else, decide the outcome.\<close>

lemma blob_push_cases:
  "blob_push bs h =
     (if max_blob (bh_cfg h) < length bs then Inl (BlobTooLarge (length bs) (max_blob (bh_cfg h)))
      else if usize_max < pool_len h + length bs \<or> max_bytes (bh_cfg h) < pool_len h + length bs
        \<or> 2 ^ 32 - 1 \<le> length (bh_index h)
      then Inl (CapacityExceeded (max_bytes (bh_cfg h)))
      else Inr (of_nat (length (bh_index h)),
        h\<lparr>bh_tail := bh_tail h @ bs, bh_index := bh_index h @ [(pool_len h, of_nat (length bs))]\<rparr>))"
  by (auto simp: blob_push_def Let_def checked_add_def fresh_id_eq)

lemma blobs_push:
  assumes inv: "blob_inv h" and len: "length bs < 2 ^ 32"
    and h': "h' = h\<lparr>bh_tail := bh_tail h @ bs, bh_index := bh_index h @ [(pool_len h, of_nat (length bs))]\<rparr>"
  shows "blobs h' = blobs h @ [bs]"
proof -
  have "slice (bh_base h @ bh_tail h @ bs) o' (o' + unat l) = slice (bh_base h @ bh_tail h) o' (o' + unat l)"
    if "(o', l) \<in> set (bh_index h)" for o' l
  proof -
    from that obtain i where "i < length (bh_index h)" "bh_index h ! i = (o', l)"
      by (metis in_set_conv_nth)
    from blob_entry_range(1) [OF inv this] show ?thesis
      using slice_append_left [of "o' + unat l" "bh_base h @ bh_tail h" bs o']
      by (simp add: pool_len_def)
  qed
  moreover have "slice (bh_base h @ bh_tail h @ bs) (pool_len h) (pool_len h + length bs) = bs"
    using slice_append_right [of "bh_base h @ bh_tail h" "pool_len h" bs "pool_len h + length bs"]
    by (simp add: pool_len_def slice_whole_len)
  ultimately show ?thesis
    using len by (auto simp: blobs_def h' pool_len_def)
qed

lemma blob_push_inv:
  assumes inv: "blob_inv h" and len: "length bs < 2 ^ 32" and push: "blob_push bs h = Inr (b, h')"
  shows "blob_inv h' \<and> blobs h' = blobs h @ [bs] \<and> unat b = length (blobs h) \<and> bh_cfg h' = bh_cfg h"
proof -
  from push have h': "h' = h\<lparr>bh_tail := bh_tail h @ bs, bh_index := bh_index h @ [(pool_len h, of_nat (length bs))]\<rparr>"
    and b: "b = of_nat (length (bh_index h))"
    and ok: "length bs \<le> max_blob (bh_cfg h)" "pool_len h + length bs \<le> usize_max"
      "pool_len h + length bs \<le> max_bytes (bh_cfg h)" "length (bh_index h) < 2 ^ 32 - 1"
    by (auto simp: blob_push_cases split: if_splits)
  have pl: "pool_len h' = pool_len h + length bs"
    by (simp add: h' pool_len_def)
  from inv obtain k where k: "k \<le> length (bh_index h)"
    "lens_total (take k (bh_index h)) = length (bh_base h)"
    by (auto simp: blob_inv_def)
  then have "\<exists>k \<le> length (bh_index h'). lens_total (take k (bh_index h')) = length (bh_base h')"
    by (intro exI [of _ k]) (simp add: h')
  moreover have "contiguous 0 (bh_index h')"
    using inv by (simp add: h' contiguous_append blob_inv_def)
  moreover have "lens_total (bh_index h') = pool_len h'"
    using inv len by (simp add: pl) (simp add: h' blob_inv_def)
  moreover have "\<forall>e \<in> set (bh_index h'). unat (snd e) \<le> max_blob (bh_cfg h')"
    using inv len ok by (auto simp: h' blob_inv_def)
  ultimately have "blob_inv h'"
    using ok by (simp add: blob_inv_def pl) (simp add: h')
  moreover have "unat b = length (blobs h)" using b ok by simp
  ultimately show ?thesis
    using blobs_push [OF inv len h'] by (simp add: h')
qed

lemma blob_new_inv [simp]: "blob_inv (blob_new cfg)" "blobs (blob_new cfg) = []"
  by (simp_all add: blob_inv_def blob_new_def pool_len_def blobs_def)

section \<open>The contract\<close>

text \<open>An append-only store of byte strings with dense ids: what the interner builds on.\<close>

locale blob_store =
  fixes inv :: "'s \<Rightarrow> bool"
    and view :: "'s \<Rightarrow> bytes list"
    and push :: "bytes \<Rightarrow> 's \<Rightarrow> arena_error + u32 \<times> 's"
    and get :: "'s \<Rightarrow> u32 \<Rightarrow> bytes option"
  assumes push_ok: "inv s \<Longrightarrow> length b < 2 ^ 32 \<Longrightarrow> push b s = Inr (i, s') \<Longrightarrow>
      inv s' \<and> view s' = view s @ [b] \<and> unat i = length (view s)"
    and get_view: "inv s \<Longrightarrow> get s i = (if unat i < length (view s) then Some (view s ! unat i) else None)"
    and ids_bound: "inv s \<Longrightarrow> length (view s) \<le> 2 ^ 32 - 1"
begin

lemma get_pushed:
  "inv s \<Longrightarrow> length b < 2 ^ 32 \<Longrightarrow> push b s = Inr (i, s') \<Longrightarrow> get s' i = Some b"
  using push_ok [of s b i s'] get_view [of s' i] by simp

lemma get_older:
  "inv s \<Longrightarrow> length b < 2 ^ 32 \<Longrightarrow> push b s = Inr (i, s') \<Longrightarrow> unat j < length (view s) \<Longrightarrow> get s' j = get s j"
  using push_ok [of s b i s'] get_view [of s' j] get_view [of s j] by (simp add: nth_append)

lemma get_dangling: "inv s \<Longrightarrow> length (view s) \<le> unat i \<Longrightarrow> get s i = None"
  by (simp add: get_view)

lemma pushed_id_not_none:
  "inv s \<Longrightarrow> length b < 2 ^ 32 \<Longrightarrow> push b s = Inr (i, s') \<Longrightarrow> unat i < 2 ^ 32 - 1"
  using push_ok [of s b i s'] ids_bound [of s'] by simp

end

interpretation heap: blob_store blob_inv blobs blob_push blob_get
proof
  fix s :: blob_heap and b i s'
  assume "blob_inv s" and "length b < 2 ^ 32" and "blob_push b s = Inr (i, s')"
  then show "blob_inv s' \<and> blobs s' = blobs s @ [b] \<and> unat i = length (blobs s)"
    using blob_push_inv by blast
qed (simp_all add: blob_get_blobs, simp add: blob_inv_def)

text \<open>
  C35. The heap is an append-only list of byte strings. A push is refused exactly when the blob
  exceeds its ceiling (\<open>BlobTooLarge\<close>) or the pool or the id space would (\<open>CapacityExceeded\<close>);
  otherwise it keeps the invariant, appends the blob, returns the next dense id, and reading
  any id afterwards gives the blob of that position (a dangling id panics).
\<close>

theorem blob_push_get:
  assumes "blob_inv h" and "length bs < 2 ^ 32"
  shows "case blob_push bs h of
      Inl e \<Rightarrow>
        e = BlobTooLarge (length bs) (max_blob (bh_cfg h)) \<and> max_blob (bh_cfg h) < length bs \<or>
        e = CapacityExceeded (max_bytes (bh_cfg h)) \<and> length bs \<le> max_blob (bh_cfg h) \<and>
          (min usize_max (max_bytes (bh_cfg h)) < pool_len h + length bs \<or> length (blobs h) = 2 ^ 32 - 1)
    | Inr (b, h') \<Rightarrow>
        blob_inv h' \<and> blobs h' = blobs h @ [bs] \<and> unat b = length (blobs h) \<and>
        (\<forall>j. blob_get h' j = (if j = b then Some bs else blob_get h j))"
proof (cases "blob_push bs h")
  case (Inl e)
  then show ?thesis
    using assms by (auto simp: blob_push_cases blob_inv_def split: if_splits)
next
  case (Inr r)
  obtain b h' where r: "r = (b, h')" by fastforce
  note pushed = blob_push_inv [OF assms Inr [unfolded r]]
  have "blob_get h' j = (if j = b then Some bs else blob_get h j)" for j
    using pushed assms(1) word_unat_eq_iff [of j b]
    by (auto simp: blob_get_blobs nth_append)
  with pushed Inr r show ?thesis by simp
qed

theorem blob_push_get_witness:
  "\<exists>h'. blob_push [7, 8] (blob_new \<lparr>max_bytes = 4, max_blob = 2\<rparr>) = Inr (0, h') \<and> blob_inv h' \<and>
     blobs h' = [[7, 8]] \<and> blob_get h' 0 = Some [7, 8] \<and> blob_get h' 1 = None"
proof -
  let ?h = "blob_new \<lparr>max_bytes = 4, max_blob = 2\<rparr>"
  obtain h' where push: "blob_push [7, 8] ?h = Inr (0, h')"
    by (simp add: blob_push_cases) (simp add: blob_new_def pool_len_def usize_max_def)
  have "blob_get ?h 1 = None" by (simp add: blob_get_def blob_new_def)
  with blob_push_get [of ?h "[7, 8]"] push show ?thesis by simp
qed

section \<open>Dump and load\<close>

abbreviation len_bytes :: "(nat \<times> u32) list \<Rightarrow> bytes" where
  "len_bytes es \<equiv> concat (map (\<lambda>(_, len). u32_le len) es)"

lemma length_len_bytes [simp]: "length (len_bytes es) = 4 * length es"
  by (rule concat_map_const_length) auto

lemma validate_lens_sound:
  "validate_lens cfg index plen n i off reb = Inr (reb', off') \<Longrightarrow> 4 + (i + n) * 4 \<le> length index \<Longrightarrow>
     \<exists>es. reb' = reb @ es \<and> length es = n \<and> contiguous off es \<and> off' = off + lens_total es \<and>
       (\<forall>e \<in> set es. unat (snd e) \<le> max_blob cfg) \<and>
       len_bytes es = slice index (4 + i * 4) (4 + (i + n) * 4) \<and> (off \<le> usize_max \<longrightarrow> off' \<le> usize_max)"
proof (induction n arbitrary: i off reb)
  case 0
  then show ?case by (intro exI [of _ "[]"]) simp
next
  case (Suc n)
  let ?at = "4 + i * 4"
  let ?len = "u32_of_le (slice index ?at (?at + 4))"
  from Suc.prems have le: "unat ?len \<le> max_blob cfg" and us: "off + unat ?len \<le> usize_max"
    and rest: "validate_lens cfg index plen n (Suc i) (off + unat ?len) (reb @ [(off, ?len)]) = Inr (reb', off')"
    by (auto simp: Let_def split: if_splits option.splits)
  from Suc.IH [OF rest] Suc.prems(2) obtain es where es:
    "reb' = reb @ (off, ?len) # es" "length es = n" "contiguous (off + unat ?len) es"
    "off' = off + unat ?len + lens_total es" "\<forall>e \<in> set es. unat (snd e) \<le> max_blob cfg"
    "len_bytes es = slice index (4 + Suc i * 4) (4 + (Suc i + n) * 4)" "off' \<le> usize_max"
    using us by auto
  have "u32_le ?len = slice index ?at (?at + 4)"
    using Suc.prems(2) by (intro word_bytes_of) simp
  moreover have "slice index ?at (?at + 4) @ slice index (?at + 4) (4 + (i + Suc n) * 4)
      = slice index ?at (4 + (i + Suc n) * 4)"
    by (rule slice_join) auto
  ultimately have "len_bytes ((off, ?len) # es) = slice index ?at (4 + (i + Suc n) * 4)"
    using es(6) by (simp add: add.commute add.left_commute)
  with es le show ?case
    by (intro exI [of _ "(off, ?len) # es"]) auto
qed

lemma validate_lens_complete:
  "contiguous off es \<Longrightarrow> (\<forall>e \<in> set es. unat (snd e) \<le> max_blob cfg) \<Longrightarrow>
   off + lens_total es \<le> plen \<Longrightarrow> plen \<le> usize_max \<Longrightarrow>
   4 + (i + length es) * 4 \<le> length index \<Longrightarrow>
   len_bytes es = slice index (4 + i * 4) (4 + (i + length es) * 4) \<Longrightarrow>
   validate_lens cfg index plen (length es) i off reb = Inr (reb @ es, off + lens_total es)"
proof (induction es arbitrary: i off reb)
  case (Cons e es)
  obtain len where e: "e = (off, len)" using Cons.prems(1) by (cases e) auto
  let ?at = "4 + i * 4"
  have "slice index ?at (?at + 4) @ slice index (?at + 4) (4 + (i + length (e # es)) * 4)
      = u32_le len @ len_bytes es"
    using Cons.prems(6) e by (subst slice_join) auto
  then have here: "slice index ?at (?at + 4) = u32_le len"
    and there: "slice index (?at + 4) (4 + (i + length (e # es)) * 4) = len_bytes es"
    using Cons.prems(5) by (auto simp: append_eq_append_conv)
  have "validate_lens cfg index plen (length es) (Suc i) (off + unat len) (reb @ [(off, len)])
      = Inr ((reb @ [(off, len)]) @ es, off + unat len + lens_total es)"
    using Cons.prems e there by (intro Cons.IH) (auto simp: add.commute add.left_commute)
  with here Cons.prems e show ?case
    by (simp add: checked_add_def)
qed simp

lemma validate_index_sound:
  assumes v: "validate_index cfg index plen = Inr es"
  shows "contiguous 0 es \<and> lens_total es = plen \<and> length es \<le> 2 ^ 32 - 1 \<and> plen \<le> max_bytes cfg \<and>
    plen \<le> usize_max \<and> (\<forall>e \<in> set es. unat (snd e) \<le> max_blob cfg) \<and>
    index = u32_le (of_nat (length es)) @ len_bytes es"
proof -
  let ?n = "u32_of_le (slice index 0 4)"
  from v have n: "?n \<noteq> NONE_U32" and len: "length index = 4 + unat ?n * 4" and cap: "plen \<le> max_bytes cfg"
    and lens: "validate_lens cfg index plen (unat ?n) 0 0 [] = Inr (es, plen)"
    by (auto simp: validate_index_def Let_def try_res_eq_Inr split: if_splits)
  from validate_lens_sound [OF lens] len have es: "length es = unat ?n" "contiguous 0 es" "plen = lens_total es"
      "\<forall>e \<in> set es. unat (snd e) \<le> max_blob cfg" "len_bytes es = slice index 4 (length index)" "plen \<le> usize_max"
    by auto
  have head: "u32_le ?n = slice index 0 4"
    using len by (intro word_bytes_of) simp
  have "4 \<le> length index" using len by simp
  then have "index = slice index 0 4 @ slice index 4 (length index)"
    by (subst slice_join) simp_all
  also have "\<dots> = u32_le ?n @ len_bytes es"
    by (simp only: head es(5))
  also have "?n = of_nat (length es)" by (simp add: es(1))
  finally have "index = u32_le (of_nat (length es)) @ len_bytes es" .
  moreover have "length es \<le> 2 ^ 32 - 1"
    using es(1) unat_less_NONE [OF n] by simp
  ultimately show ?thesis using es(2-4,6) cap by metis
qed

lemma validate_index_complete:
  assumes "contiguous 0 es" and "lens_total es = plen" and "length es < 2 ^ 32 - 1" and "plen \<le> max_bytes cfg"
    and "plen \<le> usize_max" and "\<forall>e \<in> set es. unat (snd e) \<le> max_blob cfg"
  shows "validate_index cfg (u32_le (of_nat (length es)) @ len_bytes es) plen = Inr es"
proof -
  let ?index = "u32_le (of_nat (length es)) @ len_bytes es"
  have head: "slice ?index 0 4 = u32_le (of_nat (length es))"
    by (simp add: slice_append_mid0)
  have "slice ?index 4 (4 + length es * 4) = len_bytes es"
    using slice_append_right [of "u32_le (of_nat (length es))" 4 "len_bytes es" "4 + length es * 4"]
    by (simp add: slice_whole_len mult.commute)
  then have "validate_lens cfg ?index plen (length es) 0 0 [] = Inr ([] @ es, 0 + lens_total es)"
    using assms by (intro validate_lens_complete) auto
  moreover have "(of_nat (length es) :: u32) \<noteq> NONE_U32"
    using assms(3) by (intro of_nat_neq_NONE) simp
  ultimately show ?thesis
    using assms head by (simp add: validate_index_def Let_def)
qed

lemma loaded_inv:
  assumes "validate_index cfg index (length pool) = Inr es"
  shows "blob_inv \<lparr>bh_base = [], bh_tail = pool, bh_index = es, bh_cfg = cfg\<rparr>"
    and "blob_inv \<lparr>bh_base = pool, bh_tail = [], bh_index = es, bh_cfg = cfg\<rparr>"
  using validate_index_sound [OF assms]
  by (auto simp: blob_inv_def pool_len_def intro: exI [of _ 0] exI [of _ "length es"])

lemma blob_loads_inv:
  assumes "blob_load cfg index pool = Inr h \<or> blob_load_borrowed cfg index pool = Inr h"
  shows "blob_inv h" and "blob_dump_index h = index" and "blob_dump_pool h = pool" and "bh_cfg h = cfg"
proof -
  from assms obtain es where es: "validate_index cfg index (length pool) = Inr es"
    and h: "h = \<lparr>bh_base = [], bh_tail = pool, bh_index = es, bh_cfg = cfg\<rparr> \<or>
      h = \<lparr>bh_base = pool, bh_tail = [], bh_index = es, bh_cfg = cfg\<rparr>"
    by (auto simp: blob_load_def blob_load_borrowed_def try_res_eq_Inr)
  then show "blob_inv h" "blob_dump_index h = index" "blob_dump_pool h = pool" "bh_cfg h = cfg"
    using loaded_inv [OF es] validate_index_sound [OF es] by (auto simp: blob_dump_index_def blob_dump_pool_def)
qed

lemma blob_dump_loads:
  assumes "blob_inv h" and "length (blobs h) < 2 ^ 32 - 1"
  shows "\<exists>h1 h2. blob_load (bh_cfg h) (blob_dump_index h) (blob_dump_pool h) = Inr h1 \<and>
    blob_load_borrowed (bh_cfg h) (blob_dump_index h) (blob_dump_pool h) = Inr h2 \<and>
    blob_eq h1 h \<and> blob_eq h2 h \<and> blobs h1 = blobs h \<and> blobs h2 = blobs h"
proof -
  have "validate_index (bh_cfg h) (blob_dump_index h) (length (blob_dump_pool h)) = Inr (bh_index h)"
    using assms unfolding blob_dump_index_def
    by (intro validate_index_complete) (auto simp: blob_inv_def blob_dump_pool_def pool_len_def)
  then show ?thesis
    by (simp add: blob_load_def blob_load_borrowed_def blob_eq_def blobs_def blob_dump_pool_def)
qed

text \<open>
  The loaders accept exactly the canonical images. Whatever bytes they are given, a heap
  they return satisfies the invariant and dumps back to those very bytes; and the dumps of
  any heap whose id space is not full load, owned or borrowed, into an equal heap holding the
  same blobs.
\<close>

theorem blob_load_dump:
  shows "(\<forall>cfg index pool h. blob_load cfg index pool = Inr h \<longrightarrow>
      blob_inv h \<and> blob_dump_index h = index \<and> blob_dump_pool h = pool) \<and>
    (\<forall>cfg index pool h. blob_load_borrowed cfg index pool = Inr h \<longrightarrow>
      blob_inv h \<and> blob_dump_index h = index \<and> blob_dump_pool h = pool) \<and>
    (\<forall>h. blob_inv h \<and> length (blobs h) < 2 ^ 32 - 1 \<longrightarrow>
      (\<exists>h1 h2. blob_load (bh_cfg h) (blob_dump_index h) (blob_dump_pool h) = Inr h1 \<and>
        blob_load_borrowed (bh_cfg h) (blob_dump_index h) (blob_dump_pool h) = Inr h2 \<and>
        blob_eq h1 h \<and> blob_eq h2 h \<and> blobs h1 = blobs h \<and> blobs h2 = blobs h))"
proof (intro conjI allI impI)
  fix h
  assume "blob_inv h \<and> length (blobs h) < 2 ^ 32 - 1"
  then show "\<exists>h1 h2. blob_load (bh_cfg h) (blob_dump_index h) (blob_dump_pool h) = Inr h1 \<and>
        blob_load_borrowed (bh_cfg h) (blob_dump_index h) (blob_dump_pool h) = Inr h2 \<and>
        blob_eq h1 h \<and> blob_eq h2 h \<and> blobs h1 = blobs h \<and> blobs h2 = blobs h"
    using blob_dump_loads by blast
qed (use blob_loads_inv in blast)+

text \<open>A heap of two blobs, dumped and loaded back.\<close>

definition demo_heap :: blob_heap where
  "demo_heap = \<lparr>bh_base = [1, 2], bh_tail = [3], bh_index = [(0, 2), (2, 1)],
     bh_cfg = \<lparr>max_bytes = 16, max_blob = 4\<rparr>\<rparr>"

lemma demo_heap_inv: "blob_inv demo_heap"
  by (auto simp: demo_heap_def blob_inv_def pool_len_def usize_max_def lens_total_def intro!: exI [of _ 1])

theorem blob_load_dump_witness:
  "\<exists>h1. blob_load (bh_cfg demo_heap) (blob_dump_index demo_heap) (blob_dump_pool demo_heap) = Inr h1 \<and>
     blobs h1 = [[1, 2], [3]] \<and> blob_inv h1"
proof -
  have "blobs demo_heap = [[1, 2], [3]]"
    by (simp add: demo_heap_def blobs_def slice_def)
  moreover have "length (blobs demo_heap) < 2 ^ 32 - 1"
    by (simp add: demo_heap_def)
  ultimately show ?thesis
    using blob_load_dump demo_heap_inv by metis
qed

section \<open>The builder runs in lockstep with a heap\<close>

definition lockstep :: "blob_builder \<Rightarrow> blob_heap \<Rightarrow> bool" where
  "lockstep b h \<longleftrightarrow> bb_cfg b = bh_cfg h \<and> bb_lens b = map snd (bh_index h) \<and> bb_pool_len b = pool_len h"

text \<open>
  The streaming index builder accepts and rejects exactly as the heap it stands for: fed the
  length of a blob the heap is fed, it returns the same error or the same id, stays in step,
  and its index section is byte-identical to the heap's.
\<close>

theorem builder_lockstep:
  assumes "lockstep b h"
  shows "(case (builder_push_len (length bs) b, blob_push bs h) of
      (Inl e, Inl e') \<Rightarrow> e = e'
    | (Inr (i, b'), Inr (j, h')) \<Rightarrow> i = j \<and> lockstep b' h' \<and> builder_dump_index b' = blob_dump_index h'
    | _ \<Rightarrow> False) \<and> builder_dump_index b = blob_dump_index h"
proof -
  have dump: "builder_dump_index b = blob_dump_index h" if "lockstep b h" for b h
    using that by (simp add: lockstep_def builder_dump_index_def blob_dump_index_def comp_def case_prod_unfold)
  have push: "builder_push_len (length bs) b =
      (case blob_push bs h of Inl e \<Rightarrow> Inl e
       | Inr (i, h') \<Rightarrow> Inr (i, b\<lparr>bb_lens := bb_lens b @ [of_nat (length bs)], bb_pool_len := pool_len h + length bs\<rparr>))"
    using assms by (auto simp: builder_push_len_def blob_push_cases lockstep_def Let_def checked_add_def fresh_id_eq)
  have step: "lockstep (b\<lparr>bb_lens := bb_lens b @ [of_nat (length bs)], bb_pool_len := pool_len h + length bs\<rparr>) h'"
    if "blob_push bs h = Inr (i, h')" for i h'
    using that assms by (auto simp: blob_push_cases lockstep_def pool_len_def split: if_splits)
  show ?thesis
    using dump [OF assms] dump [OF step] step
    by (auto simp: push split: sum.splits)
qed

theorem builder_lockstep_witness:
  "\<exists>b'. builder_push_len 2 (builder_new \<lparr>max_bytes = 16, max_blob = 4\<rparr>) = Inr (0, b') \<and>
     builder_dump_index b' = [1, 0, 0, 0, 2, 0, 0, 0]"
proof -
  let ?cfg = "\<lparr>max_bytes = 16, max_blob = 4\<rparr>"
  have "lockstep (builder_new ?cfg) (blob_new ?cfg)"
    by (simp add: lockstep_def builder_new_def blob_new_def pool_len_def)
  moreover have "blob_push [5, 6] (blob_new ?cfg)
      = Inr (0, \<lparr>bh_base = [], bh_tail = [5, 6], bh_index = [(0, 2)], bh_cfg = ?cfg\<rparr>)"
    by (simp add: blob_push_cases blob_new_def pool_len_def usize_max_def)
  moreover have "blob_dump_index \<lparr>bh_base = [], bh_tail = [5, 6], bh_index = [(0, 2)], bh_cfg = ?cfg\<rparr>
      = [1, 0, 0, 0, 2, 0, 0, 0]"
    by (simp add: blob_dump_index_def u32_le_def to_le_numeral)
  ultimately show ?thesis
    using builder_lockstep [of "builder_new ?cfg" "blob_new ?cfg" "[5, 6]"]
    by (auto simp: numeral_2_eq_2 split: sum.splits)
qed

section \<open>A blob of 4 GiB or more\<close>

text \<open>
  C38. The index keeps a blob's length in 32 bits (\<open>bytes.len() as u32\<close>). With a \<open>max_blob\<close> that
  does not rule it out (the default configuration sets none), a push of \<open>2^32 + k\<close> bytes is
  accepted, and the blob then reads back as its first \<open>k\<close> bytes only.
\<close>

theorem blob_push_truncates_length:
  assumes "length bs = 2 ^ 32 + k" and "k < 2 ^ 32"
  shows "\<exists>h. blob_push bs (blob_new blob_cfg_new) = Inr (0, h) \<and> blob_get h 0 = Some (take k bs)"
proof -
  have "unat (of_nat (length bs) :: u32) = length bs mod 2 ^ 32"
    by (simp add: unat_of_nat)
  then have "unat (of_nat (length bs) :: u32) = k"
    using assms by simp
  then show ?thesis
    using assms by (simp add: blob_push_cases blob_get_def blob_slice_def Let_def blob_new_def pool_len_def
        blob_cfg_new_def usize_max_def slice_0_take)
qed

theorem blob_push_truncates_length_witness:
  "\<exists>h. blob_push (replicate (2 ^ 32 + 1) 7) (blob_new blob_cfg_new) = Inr (0, h) \<and> blob_get h 0 = Some [7]"
  using blob_push_truncates_length [of "replicate (2 ^ 32 + 1) 7" 1] by (simp add: take_replicate)

end
