(* ===== verification/Chains.thy ===== *)
theory Chains
  imports Prelude "HOL-Library.Multiset"
begin

text \<open>
  Chains of \<open>u32\<close> indices linked through an array, as the chunk pool (lists and free list) and
  the arena (page chains, their reverse, and the free list) keep them, and partitions of an
  index space into such chains.
\<close>

text \<open>\<open>path lk h cs e\<close>: following links from \<open>h\<close> visits the indices \<open>cs\<close> and arrives at \<open>e\<close>.\<close>

fun path :: "(nat \<Rightarrow> u32) \<Rightarrow> u32 \<Rightarrow> nat list \<Rightarrow> u32 \<Rightarrow> bool" where
  "path lk h [] e \<longleftrightarrow> h = e"
| "path lk h (c # cs) e \<longleftrightarrow> h \<noteq> NONE_U32 \<and> unat h = c \<and> path lk (lk c) cs e"

lemma path_append: "path lk h (xs @ ys) e \<longleftrightarrow> (\<exists>m. path lk h xs m \<and> path lk m ys e)"
  by (induction xs arbitrary: h) auto

lemma path_cong: "(\<And>c. c \<in> set cs \<Longrightarrow> lk c = lk' c) \<Longrightarrow> path lk h cs e \<longleftrightarrow> path lk' h cs e"
  by (induction cs arbitrary: h) auto

lemma path_unique: "path lk h xs NONE_U32 \<Longrightarrow> path lk h ys NONE_U32 \<Longrightarrow> xs = ys"
proof (induction xs arbitrary: h ys)
  case Nil
  then show ?case by (cases ys) auto
next
  case (Cons x xs)
  then show ?case by (cases ys) auto
qed

lemma path_Nil_iff: "path lk h cs NONE_U32 \<Longrightarrow> cs = [] \<longleftrightarrow> h = NONE_U32"
  by (cases cs) auto

lemma mset_concat_update:
  "i < length css \<Longrightarrow> mset (concat (css[i := xs])) + mset (css ! i) = mset (concat css) + mset xs"
  by (induction css arbitrary: i) (auto split: nat.splits simp: ac_simps)

lemma distinct_concat_disjoint:
  "distinct (concat css) \<Longrightarrow> i < length css \<Longrightarrow> j < length css \<Longrightarrow> i \<noteq> j \<Longrightarrow>
     set (css ! i) \<inter> set (css ! j) = {}"
proof (induction css arbitrary: i j)
  case (Cons cs css)
  have "set cs \<inter> set (css ! k) = {}" if "k < length css" for k
    using Cons.prems(1) nth_mem [OF that] by auto
  with Cons show ?case by (cases i; cases j) (auto simp: Int_commute)
qed simp

lemma path_link_range:
  "path lk h cs NONE_U32 \<Longrightarrow> c \<in> set cs \<Longrightarrow> lk c = NONE_U32 \<or> unat (lk c) \<in> set cs"
proof (induction cs arbitrary: h)
  case (Cons d cs)
  then show ?case by (cases cs) auto
qed simp

lemma partition_iff:
  "mset xs = mset [0..<n] \<longleftrightarrow> distinct xs \<and> set xs = {..<n}"
  by (metis atLeast_upt distinct_upt mset_eq_imp_distinct_iff mset_eq_setD set_eq_iff_mset_eq_distinct)


lemma path_tail:
  "path lk h cs NONE_U32 \<Longrightarrow> cs \<noteq> [] \<Longrightarrow> h \<noteq> NONE_U32 \<and> unat h = hd cs"
  by (cases cs) auto

lemma path_last_link: "path lk h cs e \<Longrightarrow> cs \<noteq> [] \<Longrightarrow> lk (last cs) = e"
  by (induction cs arbitrary: h) (auto split: if_splits)

lemma path_nth:
  "path lk h cs e \<Longrightarrow> i < length cs \<Longrightarrow>
     (if i = 0 then h \<noteq> NONE_U32 \<and> unat h = cs ! 0
      else lk (cs ! (i - 1)) \<noteq> NONE_U32 \<and> unat (lk (cs ! (i - 1))) = cs ! i)"
proof (induction cs arbitrary: h i)
  case (Cons c cs)
  show ?case
  proof (cases i)
    case (Suc j)
    with Cons.IH [of "lk c" j] Cons.prems show ?thesis by (cases j) auto
  qed (use Cons.prems in simp)
qed simp

lemma path_join:
  "path lk h xs m \<Longrightarrow> path lk m ys e \<Longrightarrow> path lk h (xs @ ys) e"
  by (auto simp: path_append)

lemma path_update [simp]:
  "q \<notin> set cs \<Longrightarrow> path ((!) (xs[q := v])) h cs e \<longleftrightarrow> path ((!) xs) h cs e"
  by (rule path_cong) (metis nth_list_update_neq)

section \<open>Splicing an index in and out\<close>

text \<open>\<open>q\<close> is linked between \<open>us\<close> and \<open>vs\<close>; \<open>lk'\<close> differs from \<open>lk\<close> at \<open>q\<close> and the end of \<open>us\<close> only.\<close>

lemma path_insert:
  assumes p: "path lk h (us @ vs) e" and dist: "distinct us" and qw: "qw \<noteq> NONE_U32" "unat qw = q"
    and link: "lk' q = (if us = [] then h else lk (last us))"
    and last: "us \<noteq> [] \<Longrightarrow> lk' (last us) = qw"
    and same: "\<And>c. c \<in> set us \<union> set vs \<Longrightarrow> us = [] \<or> c \<noteq> last us \<Longrightarrow> lk' c = lk c"
    and disj: "us \<noteq> [] \<Longrightarrow> last us \<notin> set vs"
  shows "path lk' (if us = [] then qw else h) (us @ q # vs) e"
proof (cases "us = []")
  case True
  then have "path lk' h vs e" using p same path_cong [of vs lk' lk] by simp
  with True qw link show ?thesis by simp
next
  case False
  let ?b = "butlast us" and ?t = "last us"
  have us: "us = ?b @ [?t]" using False by simp
  then have nb: "?t \<notin> set ?b" using dist by (metis distinct_append disjoint_iff list.set_intros(1))
  have "path lk h (?b @ ?t # vs) e" using p us by (metis append_Cons append_Nil append_assoc)
  then obtain m where m: "path lk h ?b m" "m \<noteq> NONE_U32" "unat m = ?t" "path lk (lk ?t) vs e"
    by (auto simp: path_append)
  have "path lk' h ?b m"
    using m(1) path_cong [of ?b lk' lk] same nb by (auto dest: in_set_butlastD)
  moreover have "path lk' (lk ?t) vs e"
    using m(4) path_cong [of vs lk' lk] same disj False by auto
  ultimately have "path lk' h (?b @ ?t # q # vs) e"
    using m(2,3) last link qw False by (auto simp: path_append intro!: exI [of _ m])
  with False us show ?thesis by (metis append_Cons append_Nil append_assoc)
qed

lemma path_delete:
  assumes p: "path lk h (us @ q # vs) e" and dist: "distinct us"
    and last: "us \<noteq> [] \<Longrightarrow> lk' (last us) = lk q"
    and same: "\<And>c. c \<in> set us \<union> set vs \<Longrightarrow> us = [] \<or> c \<noteq> last us \<Longrightarrow> lk' c = lk c"
    and disj: "us \<noteq> [] \<Longrightarrow> last us \<notin> set vs"
  shows "path lk' (if us = [] then lk q else h) (us @ vs) e"
proof (cases "us = []")
  case True
  then show ?thesis using p same path_cong [of vs lk' lk] by simp
next
  case False
  let ?b = "butlast us" and ?t = "last us"
  have us: "us = ?b @ [?t]" using False by simp
  then have nb: "?t \<notin> set ?b" using dist by (metis distinct_append disjoint_iff list.set_intros(1))
  have "path lk h (?b @ ?t # q # vs) e" using p us by (metis append_Cons append_Nil append_assoc)
  then obtain m where m: "path lk h ?b m" "m \<noteq> NONE_U32" "unat m = ?t" "path lk (lk q) vs e"
    by (auto simp: path_append)
  have "path lk' h ?b m"
    using m(1) path_cong [of ?b lk' lk] same nb by (auto dest: in_set_butlastD)
  moreover have "path lk' (lk q) vs e"
    using m(4) path_cong [of vs lk' lk] same disj False by auto
  ultimately have "path lk' h (?b @ ?t # vs) e"
    using m(2,3) last False by (auto simp: path_append intro!: exI [of _ m])
  with False us show ?thesis by (metis append_Cons append_Nil append_assoc)
qed

text \<open>The same for links held in an array.\<close>

lemma path_insert_array:
  assumes p: "path ((!) xs) h (us @ vs) e" and dist: "distinct (us @ vs)" and q: "q \<notin> set (us @ vs)" "q < length xs"
    and qw: "qw \<noteq> NONE_U32" "unat qw = q" and bound: "us \<noteq> [] \<Longrightarrow> last us < length xs"
    and m: "m = (if us = [] then h else xs ! last us)"
    and ys: "ys = (if us = [] then xs[q := m] else xs[q := m, last us := qw])"
  shows "path ((!) ys) (if us = [] then qw else h) (us @ q # vs) e"
proof (rule path_insert [OF p _ qw])
  have nq: "us \<noteq> [] \<Longrightarrow> last us \<noteq> q" using q(1) by auto
  show "distinct us" using dist by simp
  show "ys ! q = (if us = [] then h else xs ! last us)" using q nq m ys by auto
  show "us \<noteq> [] \<Longrightarrow> ys ! last us = qw" using bound ys by simp
  show "us \<noteq> [] \<Longrightarrow> last us \<notin> set vs" using dist last_in_set [of us] by (auto simp: disjoint_iff simp del: last_in_set)
  show "ys ! c = xs ! c" if "c \<in> set us \<union> set vs" "us = [] \<or> c \<noteq> last us" for c
  proof -
    have "c \<noteq> q" using that(1) q(1) by auto
    with that(2) show ?thesis by (auto simp: ys)
  qed
qed

lemma path_delete_array:
  assumes p: "path ((!) xs) h (us @ q # vs) e" and dist: "distinct (us @ q # vs)"
    and bound: "us \<noteq> [] \<Longrightarrow> last us < length xs"
    and ys: "ys = (if us = [] then xs else xs[last us := xs ! q])"
  shows "path ((!) ys) (if us = [] then xs ! q else h) (us @ vs) e"
proof (rule path_delete [OF p])
  show "distinct us" using dist by simp
  show "us \<noteq> [] \<Longrightarrow> ys ! last us = xs ! q" using bound ys by simp
  show "us \<noteq> [] \<Longrightarrow> last us \<notin> set vs" using dist last_in_set [of us] by (auto simp: disjoint_iff simp del: last_in_set)
  show "ys ! c = xs ! c" if "c \<in> set us \<union> set vs" "us = [] \<or> c \<noteq> last us" for c
    using that(2) by (auto simp: ys)
qed

text \<open>The runs of a list of lists, laid end to end.\<close>

lemma concat_update_split:
  assumes "s < length xss" and "xss ! s = us @ vs"
  shows "concat (xss[s := us @ ys @ vs]) =
    take (length (concat (take s xss)) + length us) (concat xss) @ ys @
    drop (length (concat (take s xss)) + length us) (concat xss)"
proof -
  have c: "concat xss = (concat (take s xss) @ us) @ vs @ concat (drop (Suc s) xss)"
    using concat_eq_split [OF assms(1)] assms(2) by simp
  have "concat (xss[s := us @ ys @ vs]) = (concat (take s xss) @ us) @ ys @ vs @ concat (drop (Suc s) xss)"
    using assms(1) by (simp add: upd_conv_take_nth_drop)
  moreover have "take (length (concat (take s xss)) + length us) (concat xss) = concat (take s xss) @ us"
    by (subst c) simp
  moreover have "drop (length (concat (take s xss)) + length us) (concat xss) = vs @ concat (drop (Suc s) xss)"
    by (subst c) simp
  ultimately show ?thesis by simp
qed

lemma nth_subset_concat: "s < length xss \<Longrightarrow> set (xss ! s) \<subseteq> set (concat xss)"
  using nth_mem [of s xss] by (simp only: set_concat) blast

lemma UN_nth: "(\<Union>s < length xs. f (xs ! s)) = (\<Union>x \<in> set xs. f x)"
  by (simp add: set_conv_nth) blast

lemma in_concat_upt: "k \<in> set (concat (map f [0..<n])) \<longleftrightarrow> (\<exists>s < n. k \<in> set (f s))"
  by auto

lemma concat_nth_split:
  assumes "s < length xss" and "j < length (xss ! s)"
  shows "length (concat (take s xss)) + j < length (concat xss)"
    and "concat xss ! (length (concat (take s xss)) + j) = xss ! s ! j"
  using assms by (simp_all add: concat_eq_split [OF assms(1)] nth_append)

lemma length_concat_take_update:
  "s < length xss \<Longrightarrow> k \<le> length xss \<Longrightarrow>
     length (concat (take k (xss[s := ys]))) + (if s < k then length (xss ! s) else 0) =
     length (concat (take k xss)) + (if s < k then length ys else 0)"
proof (induction xss arbitrary: s k)
  case (Cons x xss)
  show ?case
  proof (cases s; cases k)
    fix s' k' assume "s = Suc s'" and "k = Suc k'"
    with Cons.IH [of s' k'] Cons.prems show ?thesis by (simp split: if_splits)
  qed (use Cons.prems in auto)
qed simp

end
