(* ===== verification/Chunk_Pool.thy ===== *)
theory Chunk_Pool
  imports Paged Arena_Error Chains
begin

text \<open>
  The chunk pool of \<open>crates/plugmem-arena/src/chunk.rs\<close>: many growable byte lists threaded
  through 64-byte chunks of one pool, each addressed by a handle its owner keeps. Modelled
  are \<open>push\<close>, \<open>free\<close>, \<open>iter\<close>, chunk allocation, the owner's validation hooks, the canonical
  dumps and the validating loaders.

  A pool is read against the handles its owners hold: \<open>chunk_wf p ls\<close> says that the chains
  of the handles \<open>ls\<close> and the free list partition the chunks. A handle that does not belong
  to the pool can panic the code (\<open>None\<close>); a loop over a cyclic chain does not end, which is
  \<open>None\<close> as well.
\<close>

section \<open>State\<close>

definition LINK_BYTES :: nat where
  "LINK_BYTES = 4"

definition CHUNK_PAYLOAD :: nat where
  "CHUNK_PAYLOAD = CHUNK_BYTES - LINK_BYTES"

definition META_HEADER :: nat where
  "META_HEADER = 2 * 4"

record chunk_pool_cfg =
  cc_max_bytes :: nat

definition chunk_cfg_new :: chunk_pool_cfg where
  "chunk_cfg_new = \<lparr>cc_max_bytes = usize_max\<rparr>"

record list_handle =
  lh_head :: u32
  lh_tail :: u32
  lh_len :: u32

definition EMPTY :: list_handle where
  "EMPTY = \<lparr>lh_head = NONE_U32, lh_tail = NONE_U32, lh_len = 0\<rparr>"

definition handle_is_empty :: "list_handle \<Rightarrow> bool" where
  "handle_is_empty l \<longleftrightarrow> lh_len l = 0"

definition handle_to_bytes :: "list_handle \<Rightarrow> bytes" where
  "handle_to_bytes l = u32_be (lh_head l) @ u32_be (lh_tail l) @ u32_be (lh_len l)"

definition handle_from_bytes :: "bytes \<Rightarrow> list_handle" where
  "handle_from_bytes bs =
     \<lparr>lh_head = u32_of_be (slice bs 0 4), lh_tail = u32_of_be (slice bs 4 8),
      lh_len = u32_of_be (slice bs 8 12)\<rparr>"

record chunk_pool =
  cp_pool :: paged
  cp_used :: "u8 list"
  cp_free_head :: u32
  cp_cfg :: chunk_pool_cfg

definition chunk_pool_new :: "chunk_pool_cfg \<Rightarrow> chunk_pool" where
  "chunk_pool_new cfg =
     \<lparr>cp_pool = owned_empty, cp_used = [], cp_free_head = NONE_U32, cp_cfg = cfg\<rparr>"

section \<open>Operations\<close>

definition cp_chunks :: "chunk_pool \<Rightarrow> nat" where
  "cp_chunks p = length (cp_used p)"

definition cp_pool_bytes :: "chunk_pool \<Rightarrow> nat" where
  "cp_pool_bytes p = paged_len (cp_pool p)"

text \<open>A chunk's bytes, its link and its occupied payload; an index past the pool panics.\<close>

abbreviation cp_page :: "chunk_pool \<Rightarrow> nat \<Rightarrow> bytes" where
  "cp_page p c \<equiv> page_at CHUNK_BYTES (cp_pool p) c"

definition link_of :: "chunk_pool \<Rightarrow> nat \<Rightarrow> u32" where
  "link_of p c = u32_of_le (slice (cp_page p c) 0 LINK_BYTES)"

definition cp_link :: "chunk_pool \<Rightarrow> u32 \<Rightarrow> u32 option" where
  "cp_link p c = (if unat c < paged_len (cp_pool p) div CHUNK_BYTES then Some (link_of p (unat c)) else None)"

definition cp_set_link :: "u32 \<Rightarrow> u32 \<Rightarrow> chunk_pool \<Rightarrow> chunk_pool option" where
  "cp_set_link c to p =
     (if unat c < paged_len (cp_pool p) div CHUNK_BYTES
      then Some (p\<lparr>cp_pool := page_mut CHUNK_BYTES (unat c) (\<lambda>b. splice b 0 (u32_le to)) (cp_pool p)\<rparr>)
      else None)"

definition used_at :: "chunk_pool \<Rightarrow> u32 \<Rightarrow> nat option" where
  "used_at p c = (if unat c < length (cp_used p) then Some (unat (cp_used p ! unat c)) else None)"

definition alloc_chunk :: "chunk_pool \<Rightarrow> (arena_error + u32 \<times> chunk_pool) option" where
  "alloc_chunk p =
     (if cp_free_head p \<noteq> NONE_U32
      then do {
        let chunk = cp_free_head p;
        next \<leftarrow> cp_link p chunk;
        used_at p chunk;
        let p = p\<lparr>cp_free_head := next, cp_used := (cp_used p)[unat chunk := 0]\<rparr>;
        p \<leftarrow> cp_set_link chunk NONE_U32 p;
        Some (Inr (chunk, p)) }
      else
        let capacity_exceeded = CapacityExceeded (cc_max_bytes (cp_cfg p)) in
        case checked_add (paged_len (cp_pool p)) CHUNK_BYTES of
          None \<Rightarrow> Some (Inl capacity_exceeded)
        | Some new_len \<Rightarrow>
            if cc_max_bytes (cp_cfg p) < new_len then Some (Inl capacity_exceeded)
            else let n = length (cp_used p) in
              if n < 2 ^ 32 \<and> of_nat n \<noteq> NONE_U32
              then do {
                let chunk = of_nat n;
                let p = p\<lparr>cp_pool := grow_tail (replicate CHUNK_BYTES 0) (cp_pool p),
                          cp_used := cp_used p @ [0]\<rparr>;
                p \<leftarrow> cp_set_link chunk NONE_U32 p;
                Some (Inr (chunk, p)) }
              else Some (Inl capacity_exceeded))"

definition tail_fits :: "chunk_pool \<Rightarrow> list_handle \<Rightarrow> nat \<Rightarrow> bool option" where
  "tail_fits p l n =
     (if lh_tail l = NONE_U32 then Some False
      else map_option (\<lambda>u. u + n \<le> CHUNK_PAYLOAD) (used_at p (lh_tail l)))"

text \<open>The fresh tail of a list: allocate, then link it after the old tail.\<close>

definition fresh_tail :: "chunk_pool \<Rightarrow> list_handle \<Rightarrow> (arena_error + list_handle \<times> chunk_pool) option" where
  "fresh_tail p l = do {
     r \<leftarrow> alloc_chunk p;
     case r of
       Inl e \<Rightarrow> Some (Inl e)
     | Inr (chunk, p) \<Rightarrow>
         if lh_tail l = NONE_U32 then Some (Inr (l\<lparr>lh_head := chunk, lh_tail := chunk\<rparr>, p))
         else do {
           p \<leftarrow> cp_set_link (lh_tail l) chunk p;
           Some (Inr (l\<lparr>lh_tail := chunk\<rparr>, p)) } }"

text \<open>The value's bytes land after the tail's occupied payload.\<close>

definition append_value :: "bytes \<Rightarrow> list_handle \<Rightarrow> chunk_pool \<Rightarrow> chunk_pool" where
  "append_value v l p =
     (let tail = unat (lh_tail l); used = cp_used p ! tail; rel = LINK_BYTES + unat used
      in p\<lparr>cp_pool := page_mut CHUNK_BYTES tail (\<lambda>b. splice b rel v) (cp_pool p),
           cp_used := (cp_used p)[tail := used + of_nat (length v)]\<rparr>)"

definition chunk_push ::
  "chunk_pool \<Rightarrow> list_handle \<Rightarrow> bytes \<Rightarrow> (arena_error + list_handle \<times> chunk_pool) option" where
  "chunk_push p l v =
     (if CHUNK_PAYLOAD < length v then Some (Inl (ValueTooLarge (length v)))
      else if v = [] then Some (Inr (l\<lparr>lh_len := lh_len l + 1\<rparr>, p))
      else do {
        fits \<leftarrow> tail_fits p l (length v);
        r \<leftarrow> (if fits then Some (Inr (l, p)) else fresh_tail p l);
        case r of
          Inl e \<Rightarrow> Some (Inl e)
        | Inr (l, p) \<Rightarrow> Some (Inr (l\<lparr>lh_len := lh_len l + 1\<rparr>, append_value v l p)) })"

definition chunk_free :: "chunk_pool \<Rightarrow> list_handle \<Rightarrow> (list_handle \<times> chunk_pool) option" where
  "chunk_free p l =
     (if lh_head l \<noteq> NONE_U32
      then do {
        p \<leftarrow> cp_set_link (lh_tail l) (cp_free_head p) p;
        Some (EMPTY, p\<lparr>cp_free_head := lh_head l\<rparr>) }
      else Some (EMPTY, p))"

text \<open>\<open>ChunkIter\<close>: the occupied payload of each chunk of the chain.\<close>

partial_function (option) chunk_walk :: "chunk_pool \<Rightarrow> u32 \<Rightarrow> bytes list option" where
  "chunk_walk p chunk =
     (if chunk = NONE_U32 then Some []
      else do {
        next \<leftarrow> cp_link p chunk;
        used \<leftarrow> used_at p chunk;
        bs \<leftarrow> get_range LINK_BYTES (LINK_BYTES + used) (cp_page p (unat chunk));
        rest \<leftarrow> chunk_walk p next;
        Some (bs # rest) })"

definition chunk_iter :: "chunk_pool \<Rightarrow> list_handle \<Rightarrow> bytes list option" where
  "chunk_iter p l = chunk_walk p (lh_head l)"

section \<open>Validation hooks\<close>

text \<open>
  \<open>validate_chain\<close>; the caller's bitmap is returned with the verdict. The walk ends because
  every step marks a chunk.
\<close>

lemma mark_decreases:
  "c < length (seen :: bool list) \<Longrightarrow> \<not> seen ! c \<Longrightarrow>
     length (filter Not (seen[c := True])) < length (filter Not seen)"
  by (subst id_take_nth_drop [of c seen]) (auto simp: upd_conv_take_nth_drop)

function validate_walk ::
  "chunk_pool \<Rightarrow> u32 \<Rightarrow> u32 \<Rightarrow> bool list \<Rightarrow> (arena_error + unit) \<times> bool list" where
  "validate_walk p tail chunk visited =
     (let c = unat chunk in
      if length visited \<le> c then (Inl (Corrupt ''chunk chain reaches out of bounds''), visited)
      else if visited ! c then (Inl (Corrupt ''chunk claimed by two chains''), visited)
      else let visited = visited[c := True]; next = link_of p c in
        if chunk = tail then
          (if next \<noteq> NONE_U32 then (Inl (Corrupt ''chunk chain tail links onward''), visited)
           else (Inr (), visited))
        else if next = NONE_U32 then (Inl (Corrupt ''chunk chain ends before its tail''), visited)
        else validate_walk p tail next visited)"
  by pat_completeness auto
termination
  by (relation "measure (\<lambda>(p, tail, chunk, visited). length (filter Not visited))")
    (auto simp: mark_decreases not_le)

declare validate_walk.simps [simp del]

definition validate_chain ::
  "chunk_pool \<Rightarrow> list_handle \<Rightarrow> bool list \<Rightarrow> (arena_error + unit) \<times> bool list" where
  "validate_chain p l visited =
     (if lh_head l = NONE_U32 \<or> lh_tail l = NONE_U32 then
        (if lh_head l \<noteq> lh_tail l then (Inl (Corrupt ''chunk chain head/tail disagree''), visited)
         else (Inr (), visited))
      else validate_walk p (lh_tail l) (lh_head l) visited)"

partial_function (option) free_walk :: "chunk_pool \<Rightarrow> u32 \<Rightarrow> bool list \<Rightarrow> bool list option" where
  "free_walk p chunk free =
     (if chunk = NONE_U32 then Some free
      else do {
        next \<leftarrow> cp_link p chunk;
        free_walk p next (free[unat chunk := True]) })"

definition free_map :: "chunk_pool \<Rightarrow> bool list option" where
  "free_map p = free_walk p (cp_free_head p) (replicate (length (cp_used p)) False)"

definition orphan_count :: "chunk_pool \<Rightarrow> bool list \<Rightarrow> nat option" where
  "orphan_count p claimed = do {
     free \<leftarrow> free_map p;
     Some (length (filter (\<lambda>c. \<not> claimed ! c \<and> \<not> free ! c) [0..<length (cp_used p)])) }"

section \<open>Dump and load\<close>

definition cp_dump_meta :: "chunk_pool \<Rightarrow> bytes option" where
  "cp_dump_meta p = do {
     free \<leftarrow> free_map p;
     Some (u32_le (of_nat (length (cp_used p))) @ u32_le (cp_free_head p) @
       map (\<lambda>chunk. if free ! chunk then 0 else cp_used p ! chunk) [0..<length (cp_used p)]) }"

definition dump_chunk :: "chunk_pool \<Rightarrow> bool list \<Rightarrow> nat \<Rightarrow> bytes" where
  "dump_chunk p free chunk =
     (let used = if free ! chunk then 0 else unat (cp_used p ! chunk)
      in take (LINK_BYTES + used) (cp_page p chunk) @ replicate (CHUNK_PAYLOAD - used) 0)"

definition cp_dump_pool :: "chunk_pool \<Rightarrow> bytes option" where
  "cp_dump_pool p = do {
     free \<leftarrow> free_map p;
     Some (concat (map (dump_chunk p free) [0..<length (cp_used p)])) }"

text \<open>The free-list walk of \<open>validate_chunks\<close>; \<open>link\<close> reads a chunk's link in the dumped pool.\<close>

function validate_free ::
  "(nat \<Rightarrow> u32) \<Rightarrow> bytes \<Rightarrow> u32 \<Rightarrow> bool list \<Rightarrow> arena_error + unit" where
  "validate_free link used chunk seen =
     (if chunk = NONE_U32 then Inr ()
      else let c = unat chunk in
        if length seen \<le> c then Inl (Corrupt ''chunk free-list head out of bounds'')
        else if seen ! c then Inl (Corrupt ''chunk free-list contains a cycle'')
        else if used ! c \<noteq> 0 then Inl (Corrupt ''free chunk has nonzero used bytes'')
        else validate_free link used (link c) (seen[c := True]))"
  by pat_completeness auto
termination
  by (relation "measure (\<lambda>(link, used, chunk, seen). length (filter Not seen))")
    (auto simp: mark_decreases not_le)

declare validate_free.simps [simp del]

definition image_link :: "bytes \<Rightarrow> nat \<Rightarrow> u32" where
  "image_link pool chunk =
     (let at = chunk * CHUNK_BYTES in u32_of_le (slice pool at (at + LINK_BYTES)))"

definition validate_chunks :: "chunk_pool_cfg \<Rightarrow> bytes \<Rightarrow> bytes \<Rightarrow> arena_error + bytes \<times> u32" where
  "validate_chunks cfg meta pool =
     (if length meta < META_HEADER then Inl (Corrupt ''chunk meta shorter than its header'')
      else let chunks = u32_of_le (slice meta 0 4); free_head = u32_of_le (slice meta 4 META_HEADER) in
      if chunks = NONE_U32 then Inl (Corrupt ''chunk count overflows the index space'')
      else if length meta \<noteq> META_HEADER + unat chunks then Inl (Corrupt ''chunk meta length mismatch'')
      else if length pool \<noteq> unat chunks * CHUNK_BYTES then Inl (Corrupt ''chunk pool length mismatch'')
      else if cc_max_bytes cfg < length pool
      then Inl (Corrupt ''chunk pool exceeds the configured ceiling'')
      else let used = drop META_HEADER meta in
      if list_ex (\<lambda>u. CHUNK_PAYLOAD < unat u) used
      then Inl (Corrupt ''chunk used bytes exceed the payload size'')
      else if list_ex (\<lambda>c. image_link pool c \<noteq> NONE_U32 \<and> chunks \<le> image_link pool c) [0..<unat chunks]
      then Inl (Corrupt ''chunk link out of bounds'')
      else try_res (validate_free (image_link pool) used free_head (replicate (unat chunks) False))
        (\<lambda>_. Inr (used, free_head)))"

definition chunk_load :: "chunk_pool_cfg \<Rightarrow> bytes \<Rightarrow> bytes \<Rightarrow> arena_error + chunk_pool" where
  "chunk_load cfg meta pool =
     try_res (validate_chunks cfg meta pool) (\<lambda>(used, free_head).
       Inr \<lparr>cp_pool = owned_from pool, cp_used = used, cp_free_head = free_head, cp_cfg = cfg\<rparr>)"

definition chunk_load_borrowed :: "chunk_pool_cfg \<Rightarrow> bytes \<Rightarrow> bytes \<Rightarrow> arena_error + chunk_pool" where
  "chunk_load_borrowed cfg meta pool =
     try_res (validate_chunks cfg meta pool) (\<lambda>(used, free_head).
       Inr \<lparr>cp_pool = borrowed CHUNK_BYTES pool, cp_used = used, cp_free_head = free_head, cp_cfg = cfg\<rparr>)"

definition chunk_load_overlay :: "chunk_pool_cfg \<Rightarrow> bytes \<Rightarrow> bytes \<Rightarrow> arena_error + chunk_pool" where
  "chunk_load_overlay cfg meta pool =
     try_res (validate_chunks cfg meta pool) (\<lambda>(used, free_head).
       Inr \<lparr>cp_pool = borrowed CHUNK_BYTES pool, cp_used = used, cp_free_head = free_head, cp_cfg = cfg\<rparr>)"

section \<open>Invariant and abstraction\<close>

text \<open>The pool's own invariant: one \<open>used\<close> count per chunk, within the payload and the ceilings.\<close>

definition cp_base :: "chunk_pool \<Rightarrow> bool" where
  "cp_base p \<longleftrightarrow> paged_inv CHUNK_BYTES (cp_pool p) \<and>
     cp_pool_bytes p = CHUNK_BYTES * cp_chunks p \<and> cp_chunks p \<le> 2 ^ 32 - 1 \<and>
     (\<forall>u \<in> set (cp_used p). unat u \<le> CHUNK_PAYLOAD) \<and>
     cp_pool_bytes p \<le> cc_max_bytes (cp_cfg p) \<and> cp_pool_bytes p \<le> usize_max"

definition content :: "chunk_pool \<Rightarrow> nat \<Rightarrow> bytes" where
  "content p c = slice (cp_page p c) LINK_BYTES (LINK_BYTES + unat (cp_used p ! c))"

definition handle_ok :: "chunk_pool \<Rightarrow> list_handle \<Rightarrow> nat list \<Rightarrow> bool" where
  "handle_ok p l cs \<longleftrightarrow> path (link_of p) (lh_head l) cs NONE_U32 \<and>
     lh_tail l = (if cs = [] then NONE_U32 else of_nat (last cs)) \<and> (\<forall>c \<in> set cs. content p c \<noteq> [])"

text \<open>The chains \<open>css\<close> of the live handles \<open>ls\<close> and the free list \<open>F\<close> partition the chunks.\<close>

definition chunk_rep :: "chunk_pool \<Rightarrow> list_handle list \<Rightarrow> nat list list \<Rightarrow> nat list \<Rightarrow> bool" where
  "chunk_rep p ls css F \<longleftrightarrow> cp_base p \<and> list_all2 (handle_ok p) ls css \<and>
     path (link_of p) (cp_free_head p) F NONE_U32 \<and> mset (concat css @ F) = mset [0..<cp_chunks p]"

definition chunk_wf :: "chunk_pool \<Rightarrow> list_handle list \<Rightarrow> bool" where
  "chunk_wf p ls \<longleftrightarrow> (\<exists>css F. chunk_rep p ls css F)"

lemma chunk_sizes [simp]: "CHUNK_BYTES = 64" "LINK_BYTES = 4" "CHUNK_PAYLOAD = 60" "META_HEADER = 8"
  by (simp_all add: CHUNK_BYTES_def LINK_BYTES_def CHUNK_PAYLOAD_def META_HEADER_def)

section \<open>Partitioned pools\<close>

text \<open>Facts about a partitioned pool.\<close>

lemma rep_distinct: "chunk_rep p ls css F \<Longrightarrow> distinct (concat css @ F)"
  by (metis chunk_rep_def distinct_upt mset_eq_imp_distinct_iff)

lemma rep_set: "chunk_rep p ls css F \<Longrightarrow> set (concat css @ F) = {..<cp_chunks p}"
  unfolding chunk_rep_def by (metis atLeast_upt set_mset_mset)

lemma rep_bound:
  assumes "chunk_rep p ls css F"
  shows "i < length css \<Longrightarrow> c \<in> set (css ! i) \<Longrightarrow> c < cp_chunks p" and "c \<in> set F \<Longrightarrow> c < cp_chunks p"
  using rep_set [OF assms] nth_mem by fastforce+

lemma rep_length: "chunk_rep p ls css F \<Longrightarrow> length css = length ls"
  by (auto simp: chunk_rep_def list_all2_lengthD)

lemma rep_handle: "chunk_rep p ls css F \<Longrightarrow> i < length ls \<Longrightarrow> handle_ok p (ls ! i) (css ! i)"
  by (simp add: chunk_rep_def list_all2_conv_all_nth)

lemma base_chunks: "cp_base p \<Longrightarrow> paged_len (cp_pool p) div 64 = cp_chunks p"
  by (simp add: cp_base_def cp_pool_bytes_def)

lemma base_index: "cp_base p \<Longrightarrow> c < cp_chunks p \<Longrightarrow> unat (of_nat c :: u32) = c \<and> (of_nat c :: u32) \<noteq> NONE_U32"
  using of_nat_neq_NONE [of c] by (simp add: cp_base_def)

lemma base_page: "cp_base p \<Longrightarrow> c < cp_chunks p \<Longrightarrow> length (cp_page p c) = 64"
  using length_page_at [of 64 "cp_pool p" c] by (simp add: cp_base_def base_chunks cp_pool_bytes_def)

lemma base_used: "cp_base p \<Longrightarrow> c < cp_chunks p \<Longrightarrow> unat (cp_used p ! c) \<le> 60"
  by (simp add: cp_base_def cp_chunks_def)

lemma length_content: "cp_base p \<Longrightarrow> c < cp_chunks p \<Longrightarrow> length (content p c) = unat (cp_used p ! c)"
  using base_page [of p c] base_used [of p c] by (simp add: content_def)

lemma handle_frame:
  assumes "handle_ok p l cs"
    and "\<And>c. c \<in> set cs \<Longrightarrow> link_of p' c = link_of p c \<and> content p' c = content p c"
  shows "handle_ok p' l cs"
  using assms path_cong [of cs "link_of p'" "link_of p"] by (auto simp: handle_ok_def)

section \<open>Effects of the primitive steps\<close>

text \<open>How a page write shows through the pages of the pool.\<close>

lemma page_write:
  assumes "cp_base p" and c: "c < cp_chunks p" and "length (f (cp_page p c)) = 64"
  shows "paged_inv 64 (page_mut 64 c f (cp_pool p))"
    and "paged_len (page_mut 64 c f (cp_pool p)) = paged_len (cp_pool p)"
    and "d < cp_chunks p \<Longrightarrow>
      page_at 64 (page_mut 64 c f (cp_pool p)) d = (if d = c then f (cp_page p c) else cp_page p d)"
proof -
  have inv: "paged_inv 64 (cp_pool p)" and c': "c < paged_len (cp_pool p) div 64"
    using assms by (simp_all add: cp_base_def base_chunks)
  from chunk64.modify_inv [of "cp_pool p" c f] inv c' assms show "paged_inv 64 (page_mut 64 c f (cp_pool p))"
    by simp
  from chunk64.modify_len [of "cp_pool p" c f] inv c' assms
  show "paged_len (page_mut 64 c f (cp_pool p)) = paged_len (cp_pool p)" by simp
  assume "d < cp_chunks p"
  then have "d < paged_len (cp_pool p) div 64" using assms by (simp add: base_chunks)
  with chunk64.modify_same [of "cp_pool p" c f] chunk64.modify_other [of "cp_pool p" c f d] inv c' assms
  show "page_at 64 (page_mut 64 c f (cp_pool p)) d = (if d = c then f (cp_page p c) else cp_page p d)"
    by simp
qed

definition put_link :: "nat \<Rightarrow> u32 \<Rightarrow> chunk_pool \<Rightarrow> chunk_pool" where
  "put_link c to p = p\<lparr>cp_pool := page_mut CHUNK_BYTES c (\<lambda>b. splice b 0 (u32_le to)) (cp_pool p)\<rparr>"

lemma put_link_fields [simp]:
  "cp_used (put_link c to p) = cp_used p" "cp_free_head (put_link c to p) = cp_free_head p"
  "cp_cfg (put_link c to p) = cp_cfg p" "cp_chunks (put_link c to p) = cp_chunks p"
  by (simp_all add: put_link_def cp_chunks_def)

lemma set_link_ok: "cp_base p \<Longrightarrow> unat c < cp_chunks p \<Longrightarrow> cp_set_link c to p = Some (put_link (unat c) to p)"
  by (simp add: cp_set_link_def put_link_def base_chunks)

lemma put_link_effect:
  assumes base: "cp_base p" and c: "c < cp_chunks p"
  shows "cp_base (put_link c to p)"
    and "d < cp_chunks p \<Longrightarrow> link_of (put_link c to p) d = (if d = c then to else link_of p d)"
    and "d < cp_chunks p \<Longrightarrow> content (put_link c to p) d = content p d"
proof -
  let ?f = "\<lambda>b. splice b 0 (u32_le to)"
  have len: "length (?f (cp_page p c)) = 64"
    using base_page [OF base c] by simp
  note w = page_write [where f = ?f, OF base c len]
  show "cp_base (put_link c to p)"
    using base w(1,2) by (simp add: cp_base_def put_link_def cp_pool_bytes_def cp_chunks_def)
  assume d: "d < cp_chunks p"
  show "link_of (put_link c to p) d = (if d = c then to else link_of p d)"
    using w(3) [OF d] base_page [OF base c] by (simp add: link_of_def put_link_def slice_splice_same)
  show "content (put_link c to p) d = content p d"
    using w(3) [OF d] base_page [OF base c] by (simp add: content_def put_link_def slice_splice_after)
qed

text \<open>The pool after a fresh chunk was appended, and after a recycled chunk was reset.\<close>

definition grown :: "chunk_pool \<Rightarrow> chunk_pool" where
  "grown p = p\<lparr>cp_pool := grow_tail (replicate CHUNK_BYTES 0) (cp_pool p), cp_used := cp_used p @ [0]\<rparr>"

lemma grown_effect:
  assumes base: "cp_base p" and room: "cp_chunks p < 2 ^ 32 - 1" "cp_pool_bytes p + 64 \<le> cc_max_bytes (cp_cfg p)"
      "cp_pool_bytes p + 64 \<le> usize_max"
  shows "cp_base (grown p)" and "cp_chunks (grown p) = Suc (cp_chunks p)"
    and "d < cp_chunks p \<Longrightarrow> link_of (grown p) d = link_of p d"
    and "d < cp_chunks p \<Longrightarrow> content (grown p) d = content p d"
    and "content (grown p) (cp_chunks p) = []"
proof -
  have inv: "paged_inv 64 (cp_pool p)" using base by (simp add: cp_base_def)
  let ?new = "replicate 64 (0 :: u8)"
  from chunk64.grow_inv [of "cp_pool p" ?new] inv have inv': "paged_inv 64 (grow_tail ?new (cp_pool p))"
    by simp
  from chunk64.grow_len [of "cp_pool p" ?new] inv
  have len: "paged_len (grow_tail ?new (cp_pool p)) = paged_len (cp_pool p) + 64" by simp
  show chunks: "cp_chunks (grown p) = Suc (cp_chunks p)"
    by (simp add: grown_def cp_chunks_def)
  show "cp_base (grown p)"
    using base room inv' len chunks
    by (auto simp: cp_base_def cp_pool_bytes_def) (auto simp: grown_def)
  show "content (grown p) (cp_chunks p) = []"
    by (simp add: content_def grown_def cp_chunks_def)
  assume d: "d < cp_chunks p"
  with chunk64.grow_old [of "cp_pool p" ?new d] inv base
  have "cp_page (grown p) d = cp_page p d" by (simp add: grown_def base_chunks)
  then show "link_of (grown p) d = link_of p d" and "content (grown p) d = content p d"
    using d by (simp_all add: link_of_def content_def) (simp add: grown_def cp_chunks_def nth_append)
qed

definition recycled :: "chunk_pool \<Rightarrow> chunk_pool" where
  "recycled p = (let c = unat (cp_free_head p) in
     p\<lparr>cp_free_head := link_of p c, cp_used := (cp_used p)[c := 0]\<rparr>)"

lemma recycled_effect:
  assumes base: "cp_base p" and c: "unat (cp_free_head p) = c" "c < cp_chunks p"
  shows "cp_base (recycled p)" and "cp_chunks (recycled p) = cp_chunks p"
    and "link_of (recycled p) d = link_of p d"
    and "d \<noteq> c \<Longrightarrow> content (recycled p) d = content p d" and "content (recycled p) c = []"
    and "cp_free_head (recycled p) = link_of p c"
proof -
  have "unat u \<le> 60" if "u \<in> set ((cp_used p)[c := 0])" for u
    using set_update_subset_insert [of "cp_used p" c 0] that base by (auto simp: cp_base_def)
  then show "cp_base (recycled p)"
    using base c by (auto simp: cp_base_def recycled_def Let_def cp_pool_bytes_def cp_chunks_def)
  show "content (recycled p) c = []"
    using c by (simp add: recycled_def content_def Let_def cp_chunks_def)
qed (use c in \<open>simp_all add: recycled_def Let_def cp_chunks_def link_of_def content_def\<close>)

lemma append_value_effect:
  assumes base: "cp_base p" and t: "unat (lh_tail l) = t" "t < cp_chunks p"
    and fits: "length (content p t) + length v \<le> 60"
  shows "cp_base (append_value v l p)" and "cp_chunks (append_value v l p) = cp_chunks p"
    and "cp_free_head (append_value v l p) = cp_free_head p"
    and "cp_cfg (append_value v l p) = cp_cfg p"
    and "d < cp_chunks p \<Longrightarrow> link_of (append_value v l p) d = link_of p d"
    and "d < cp_chunks p \<Longrightarrow>
      content (append_value v l p) d = (if d = t then content p t @ v else content p d)"
proof -
  let ?u = "unat (cp_used p ! t)" and ?q = "append_value v l p"
  let ?f = "\<lambda>b. splice b (4 + ?u) v"
  have u: "?u + length v \<le> 60" using fits length_content [OF base t(2)] by simp
  have page: "length (cp_page p t) = 64" using base_page [OF base t(2)] .
  have len: "length (?f (cp_page p t)) = 64" using page u by simp
  note w = page_write [where f = ?f, OF base t(2) len]
  have used: "unat (cp_used p ! t + of_nat (length v)) = ?u + length v"
    using u by (simp add: unat_word_ariths unat_of_nat)
  have all: "\<forall>u \<in> set (cp_used ?q). unat u \<le> 60"
  proof
    fix u assume "u \<in> set (cp_used ?q)"
    then have "u = cp_used p ! t + of_nat (length v) \<or> u \<in> set (cp_used p)"
      using set_update_subset_insert [of "cp_used p" t] t by (auto simp: append_value_def Let_def)
    then show "unat u \<le> 60"
      using used u base by (auto simp: cp_base_def simp del: of_nat_id)
  qed
  show chunks: "cp_chunks ?q = cp_chunks p"
    by (simp add: append_value_def cp_chunks_def Let_def)
  have pool: "cp_pool ?q = page_mut 64 t ?f (cp_pool p)" and "cp_cfg ?q = cp_cfg p"
    and "cp_free_head ?q = cp_free_head p"
    using t by (simp_all add: append_value_def Let_def)
  then show "cp_base ?q" "cp_cfg ?q = cp_cfg p" "cp_free_head ?q = cp_free_head p"
    using base w(1,2) all chunks by (auto simp: cp_base_def cp_pool_bytes_def)
  assume d: "d < cp_chunks p"
  show "link_of ?q d = link_of p d"
    using w(3) [OF d] pool page u by (simp add: link_of_def slice_splice_before)
  have "slice (?f (cp_page p t)) 4 (4 + (?u + length v)) = slice (cp_page p t) 4 (4 + ?u) @ v"
  proof -
    have "slice (?f (cp_page p t)) 4 (4 + ?u) @ slice (?f (cp_page p t)) (4 + ?u) (4 + (?u + length v))
        = slice (?f (cp_page p t)) 4 (4 + (?u + length v))"
      by (rule slice_join) simp_all
    moreover have "slice (?f (cp_page p t)) (4 + ?u) (4 + (?u + length v)) = v"
      using page u by (intro slice_splice_same) simp_all
    moreover have "slice (?f (cp_page p t)) 4 (4 + ?u) = slice (cp_page p t) 4 (4 + ?u)"
      using page u by (intro slice_splice_before) simp_all
    ultimately show ?thesis by simp
  qed
  moreover have "cp_used ?q ! d = (if d = t then cp_used p ! t + of_nat (length v) else cp_used p ! d)"
    using d t by (simp add: append_value_def Let_def cp_chunks_def nth_list_update)
  ultimately show "content ?q d = (if d = t then content p t @ v else content p d)"
    using w(3) [OF d] pool used by (simp add: content_def)
qed

end
