(* ===== verification/Chunk_Lists.thy ===== *)
theory Chunk_Lists
  imports Chunk_Pool
begin

text \<open>
  Correctness of the lists of a chunk pool: what \<open>iter\<close> yields, what \<open>push\<close> and \<open>free\<close> do to
  the list they are given, and that they leave every other list alone. The invariant
  \<open>chunk_wf\<close> (chains and free list partition the chunks) is preserved, so no chunk is ever
  shared or lost.
\<close>

section \<open>Iteration\<close>

lemma chunk_walk_path:
  assumes "cp_base p"
  shows "path (link_of p) h cs NONE_U32 \<Longrightarrow> (\<And>c. c \<in> set cs \<Longrightarrow> c < cp_chunks p) \<Longrightarrow>
    chunk_walk p h = Some (map (content p) cs)"
proof (induction cs arbitrary: h)
  case Nil
  then show ?case by (simp add: chunk_walk.simps)
next
  case (Cons c cs)
  then have h: "h \<noteq> NONE_U32" "unat h = c" and rest: "path (link_of p) (link_of p c) cs NONE_U32"
    and c: "c < cp_chunks p" by auto
  have "chunk_walk p (link_of p c) = Some (map (content p) cs)"
    using Cons.IH [OF rest] Cons.prems(2) by simp
  moreover have "get_range 4 (4 + unat (cp_used p ! c)) (cp_page p c) = Some (content p c)"
    using base_page [OF assms c] base_used [OF assms c] by (simp add: content_def)
  ultimately show ?case
    using h c assms by (subst chunk_walk.simps) (simp add: cp_link_def used_at_def base_chunks cp_chunks_def)
qed

lemma rep_iter:
  assumes rep: "chunk_rep p ls css F" and i: "i < length ls"
  shows "chunk_iter p (ls ! i) = Some (map (content p) (css ! i))"
  using rep_handle [OF rep i] rep rep_bound(1) [OF rep, of i] rep_length [OF rep] i
  unfolding chunk_iter_def by (intro chunk_walk_path) (auto simp: handle_ok_def chunk_rep_def)

lemma frame_iter:
  assumes "chunk_rep p ls css F" and "chunk_rep p' ls' css' F'" and "j < length ls" and "j < length ls'"
    and "css' ! j = css ! j" and "\<And>c. c \<in> set (css ! j) \<Longrightarrow> content p' c = content p c"
  shows "chunk_iter p' (ls' ! j) = chunk_iter p (ls ! j)"
  using assms by (simp add: rep_iter)

section \<open>Allocation\<close>

text \<open>The conditions under which no chunk can be had.\<close>

definition pool_full :: "chunk_pool \<Rightarrow> bool" where
  "pool_full p \<longleftrightarrow> cp_free_head p = NONE_U32 \<and>
     (cc_max_bytes (cp_cfg p) < cp_pool_bytes p + CHUNK_BYTES \<or> usize_max < cp_pool_bytes p + CHUNK_BYTES \<or>
      2 ^ 32 - 1 \<le> cp_chunks p)"

lemma alloc_full:
  "pool_full p \<Longrightarrow> alloc_chunk p = Some (Inl (CapacityExceeded (cc_max_bytes (cp_cfg p))))"
proof -
  assume full: "pool_full p"
  have "\<not> (cp_chunks p < 2 ^ 32 \<and> (of_nat (cp_chunks p) :: u32) \<noteq> NONE_U32)" if "2 ^ 32 - 1 \<le> cp_chunks p"
  proof (cases "cp_chunks p = 2 ^ 32 - 1")
    case True
    then show ?thesis by (simp add: NONE_U32_def)
  qed (use that in simp)
  with full show ?thesis
    by (auto simp: alloc_chunk_def pool_full_def Let_def cp_pool_bytes_def cp_chunks_def checked_add_def)
qed

text \<open>Otherwise a chunk that no live chain holds is handed out, empty and linked to nothing.\<close>

definition fresh_chunk :: "chunk_pool \<Rightarrow> nat list \<Rightarrow> nat \<Rightarrow> chunk_pool \<Rightarrow> nat list \<Rightarrow> bool" where
  "fresh_chunk p F c p' F' \<longleftrightarrow>
     cp_base p' \<and> cp_cfg p' = cp_cfg p \<and> cp_chunks p \<le> cp_chunks p' \<and> c < cp_chunks p' \<and>
     link_of p' c = NONE_U32 \<and> content p' c = [] \<and>
     path (link_of p') (cp_free_head p') F' NONE_U32 \<and> length F' = length F - 1 \<and>
     (\<forall>d < cp_chunks p. d \<noteq> c \<longrightarrow> link_of p' d = link_of p d \<and> content p' d = content p d) \<and>
     (F = [] \<longrightarrow> c = cp_chunks p \<and> cp_chunks p' = Suc (cp_chunks p)) \<and>
     (F \<noteq> [] \<longrightarrow> cp_chunks p' = cp_chunks p) \<and>
     (\<forall>css. mset (concat css @ F) = mset [0..<cp_chunks p] \<longrightarrow>
        add_mset c (mset (concat css @ F')) = mset [0..<cp_chunks p'])"

lemma alloc_recycles:
  assumes rep: "chunk_rep p ls css F" and F: "F = c # F'"
  shows "\<exists>p'. alloc_chunk p = Some (Inr (of_nat c, p')) \<and> fresh_chunk p F c p' F'"
proof -
  have base: "cp_base p" and walk: "path (link_of p) (cp_free_head p) F NONE_U32"
    using rep by (simp_all add: chunk_rep_def)
  have h: "cp_free_head p \<noteq> NONE_U32" "unat (cp_free_head p) = c"
    and walk': "path (link_of p) (link_of p c) F' NONE_U32"
    using walk F by auto
  have c: "c < cp_chunks p" using rep_bound(2) [OF rep] F by simp
  have ce: "cp_free_head p = of_nat c" using h(2) by auto
  have nc: "c \<notin> set F'" using rep_distinct [OF rep] F by simp
  have bound: "d < cp_chunks p" if "d \<in> set F'" for d using rep_bound(2) [OF rep] F that by simp
  note r = recycled_effect [OF base h(2) c]
  let ?p = "put_link c NONE_U32 (recycled p)"
  have cr: "c < cp_chunks (recycled p)" using c r by simp
  note l = put_link_effect [OF r(1) cr]
  have "alloc_chunk p = Some (Inr (of_nat c, ?p))"
    using h c base set_link_ok [of "recycled p" "cp_free_head p" NONE_U32] r(1) cr ce
    by (simp add: alloc_chunk_def Let_def cp_link_def used_at_def base_chunks)
      (simp add: recycled_def Let_def cp_chunks_def)
  moreover have "path (link_of ?p) (link_of p c) F' NONE_U32"
    using walk' path_cong [of F' "link_of ?p" "link_of p"] l(2) r(2,3) nc bound by fastforce
  ultimately show ?thesis
    using l r c F by (intro exI [of _ ?p]) (auto simp: fresh_chunk_def, simp add: recycled_def Let_def)
qed

lemma alloc_grows:
  assumes rep: "chunk_rep p ls css []" and room: "\<not> pool_full p"
  shows "\<exists>p'. alloc_chunk p = Some (Inr (of_nat (cp_chunks p), p')) \<and> fresh_chunk p [] (cp_chunks p) p' []"
proof -
  have base: "cp_base p" and free: "cp_free_head p = NONE_U32"
    using rep by (auto simp: chunk_rep_def)
  have sizes: "cp_chunks p < 2 ^ 32 - 1" "cp_pool_bytes p + 64 \<le> cc_max_bytes (cp_cfg p)"
      "cp_pool_bytes p + 64 \<le> usize_max"
    using room free by (auto simp: pool_full_def)
  note g = grown_effect [OF base sizes]
  let ?n = "cp_chunks p" and ?p = "put_link (cp_chunks p) NONE_U32 (grown p)"
  have n: "?n < cp_chunks (grown p)" using g(2) by simp
  note l = put_link_effect [OF g(1) n]
  have w: "unat (of_nat ?n :: u32) = ?n" "(of_nat ?n :: u32) \<noteq> NONE_U32"
    using sizes(1) of_nat_neq_NONE [of ?n] by simp_all
  have "alloc_chunk p = Some (Inr (of_nat ?n, ?p))"
    using free sizes w set_link_ok [OF g(1), of "of_nat ?n" NONE_U32] n
    by (simp add: alloc_chunk_def Let_def checked_add_def cp_pool_bytes_def cp_chunks_def grown_def)
  moreover have "cp_cfg (grown p) = cp_cfg p" "cp_free_head (grown p) = NONE_U32"
    using free by (simp_all add: grown_def)
  ultimately show ?thesis
    using l g by (intro exI [of _ ?p]) (auto simp: fresh_chunk_def)
qed

lemma alloc_ok:
  assumes rep: "chunk_rep p ls css F" and room: "\<not> pool_full p"
  obtains c p' F' where "alloc_chunk p = Some (Inr (of_nat c, p'))" and "fresh_chunk p F c p' F'"
proof (cases F)
  case Nil
  then show thesis using alloc_grows [of p ls css] assms that by blast
next
  case (Cons c F')
  then show thesis using alloc_recycles [OF rep] that by blast
qed

text \<open>A fresh chunk is in no live chain, so those keep their links and contents.\<close>

lemma fresh_not_live:
  assumes rep: "chunk_rep p ls css F" and fr: "fresh_chunk p F c p' F'"
  shows "i < length css \<Longrightarrow> c \<notin> set (css ! i)"
    and "i < length css \<Longrightarrow> d \<in> set (css ! i) \<Longrightarrow> link_of p' d = link_of p d \<and> content p' d = content p d"
    and "c \<notin> set F'"
proof -
  have "add_mset c (mset (concat css @ F')) = mset [0..<cp_chunks p']"
    using rep fr by (simp add: chunk_rep_def fresh_chunk_def)
  then have "distinct (c # (concat css @ F'))"
    by (metis distinct_upt mset.simps(2) mset_eq_imp_distinct_iff)
  then have c: "c \<notin> set (concat css)" and "c \<notin> set F'" by auto
  then show "c \<notin> set F'" by simp
  assume i: "i < length css"
  with c show ci: "c \<notin> set (css ! i)" by auto
  assume d: "d \<in> set (css ! i)"
  with ci rep_bound(1) [OF rep i] fr show "link_of p' d = link_of p d \<and> content p' d = content p d"
    by (auto simp: fresh_chunk_def)
qed

section \<open>Replacing one list\<close>

lemma rep_update:
  assumes rep: "chunk_rep p ls css F" and i: "i < length ls" and base: "cp_base p'"
    and new: "handle_ok p' l' cs'"
    and others: "\<And>j c. j < length ls \<Longrightarrow> j \<noteq> i \<Longrightarrow> c \<in> set (css ! j) \<Longrightarrow>
      link_of p' c = link_of p c \<and> content p' c = content p c"
    and free: "path (link_of p') (cp_free_head p') F' NONE_U32"
    and part: "mset (concat (css[i := cs']) @ F') = mset [0..<cp_chunks p']"
  shows "chunk_rep p' (ls[i := l']) (css[i := cs']) F'"
proof -
  have len: "length css = length ls" using rep_length [OF rep] .
  have "handle_ok p' (ls[i := l'] ! j) (css[i := cs'] ! j)" if j: "j < length ls" for j
  proof (cases "j = i")
    case False
    with handle_frame [OF rep_handle [OF rep j]] others [OF j False] show ?thesis by simp
  qed (use i len new in simp)
  with assms len show ?thesis
    by (auto simp: chunk_rep_def list_all2_conv_all_nth)
qed

lemma handle_len [simp]: "handle_ok p (l\<lparr>lh_len := n\<rparr>) cs = handle_ok p l cs"
  by (simp add: handle_ok_def)

lemma handle_tail:
  assumes "chunk_rep p ls css F" and "i < length ls" and ne: "css ! i \<noteq> []"
  shows "lh_tail (ls ! i) \<noteq> NONE_U32" and "unat (lh_tail (ls ! i)) = last (css ! i)"
    and "last (css ! i) < cp_chunks p"
proof -
  show l: "last (css ! i) < cp_chunks p"
    using assms rep_length [OF assms(1)] by (simp add: rep_bound(1))
  with assms base_index [of p "last (css ! i)"] rep_handle [OF assms(1,2)]
  show "lh_tail (ls ! i) \<noteq> NONE_U32" and "unat (lh_tail (ls ! i)) = last (css ! i)"
    by (simp_all add: chunk_rep_def handle_ok_def)
qed

section \<open>Push\<close>

text \<open>The value fits in the tail chunk.\<close>

lemma append_rep:
  assumes rep: "chunk_rep p ls css F" and i: "i < length ls" and ne: "css ! i \<noteq> []"
    and fits: "length (content p (last (css ! i))) + length v \<le> 60"
  defines "t \<equiv> last (css ! i)" and "q \<equiv> append_value v (ls ! i) p"
  shows "chunk_rep q (ls[i := (ls ! i)\<lparr>lh_len := n\<rparr>]) css F"
    and "map (content q) (css ! i) = map (content p) (butlast (css ! i)) @ [content p t @ v]"
    and "j < length ls \<Longrightarrow> j \<noteq> i \<Longrightarrow> c \<in> set (css ! j) \<Longrightarrow> content q c = content p c"
proof -
  have base: "cp_base p" using rep by (simp add: chunk_rep_def)
  note tl = handle_tail [OF rep i ne]
  have len: "length css = length ls" using rep_length [OF rep] .
  note a = append_value_effect [where l = "ls ! i" and v = v, OF base, of t, folded q_def]
  have t: "unat (lh_tail (ls ! i)) = t" "t < cp_chunks p" "t \<in> set (css ! i)"
    using tl ne by (simp_all add: t_def)
  have fits': "length (content p t) + length v \<le> 60" using fits by (simp add: t_def)
  have dist: "distinct (concat css)" using rep_distinct [OF rep] by simp
  have nt: "t \<notin> set (css ! j)" if "j < length ls" "j \<noteq> i" for j
    using distinct_concat_disjoint [OF dist, of i j] t(3) that i len by auto
  have bound: "c < cp_chunks p" if "j < length ls" "c \<in> set (css ! j)" for j c
    using rep_bound(1) [OF rep] that len by simp
  show other: "content q c = content p c" if "j < length ls" "j \<noteq> i" "c \<in> set (css ! j)" for j c
    using a(6) [OF t(1,2) fits' bound] nt that by auto
  have lk: "link_of q c = link_of p c" if "c < cp_chunks p" for c
    using a(5) [OF t(1,2) fits' that] .
  have "content q c \<noteq> []" if "c \<in> set (css ! i)" for c
    using a(6) [OF t(1,2) fits' bound [OF i that]] rep_handle [OF rep i] that t(3)
    by (auto simp: handle_ok_def)
  moreover have "path (link_of q) (lh_head (ls ! i)) (css ! i) NONE_U32"
    using rep_handle [OF rep i] path_cong [of "css ! i" "link_of q" "link_of p"] lk bound [OF i]
    by (auto simp: handle_ok_def)
  ultimately have h: "handle_ok q ((ls ! i)\<lparr>lh_len := n\<rparr>) (css ! i)"
    using rep_handle [OF rep i] by (simp add: handle_ok_def)
  have "path (link_of q) (cp_free_head q) F NONE_U32"
    using rep path_cong [of F "link_of q" "link_of p"] lk rep_bound(2) [OF rep] a(3) [OF t(1,2) fits']
    by (simp add: chunk_rep_def)
  then have "chunk_rep q (ls[i := (ls ! i)\<lparr>lh_len := n\<rparr>]) (css[i := css ! i]) F"
    using rep a(1,2) [OF t(1,2) fits'] h other lk bound
    by (intro rep_update [OF rep i]) (auto simp: chunk_rep_def)
  then show "chunk_rep q (ls[i := (ls ! i)\<lparr>lh_len := n\<rparr>]) css F"
    by simp
  have "distinct (css ! i)" using dist i len by (simp add: distinct_concat_iff)
  then have "t \<notin> set (butlast (css ! i))"
    using ne append_butlast_last_id [OF ne] by (metis t_def distinct_append disjoint_iff list.set_intros(1))
  moreover have "content q c = (if c = t then content p t @ v else content p c)" if "c \<in> set (css ! i)" for c
    using a(6) [OF t(1,2) fits' bound [OF i that]] .
  ultimately have "content q c = content p c" if "c \<in> set (butlast (css ! i))" for c
    using that in_set_butlastD by metis
  then have "map (content q) (butlast (css ! i)) = map (content p) (butlast (css ! i))" by simp
  moreover have "content q t = content p t @ v" using a(6) [OF t(1,2) fits' t(2)] by simp
  ultimately show "map (content q) (css ! i) = map (content p) (butlast (css ! i)) @ [content p t @ v]"
    by (subst append_butlast_last_id [OF ne, symmetric], subst map_append) (simp add: t_def)
qed

text \<open>The value opens a fresh chunk.\<close>

lemma extend_rep:
  assumes rep: "chunk_rep p ls css F" and i: "i < length ls" and v: "v \<noteq> []" "length v \<le> 60"
    and fr: "fresh_chunk p F c p' F'"
    and l': "unat (lh_tail l') = c" "lh_tail l' = of_nat c"
    and head: "lh_head l' = (if css ! i = [] then of_nat c else lh_head (ls ! i))"
    and p'': "p'' = (if css ! i = [] then p' else put_link (last (css ! i)) (of_nat c) p')"
    and q: "q = append_value v l' p''"
  shows "chunk_rep q (ls[i := l']) (css[i := css ! i @ [c]]) F'"
    and "content q c = v" and "j < length ls \<Longrightarrow> d \<in> set (css ! j) \<Longrightarrow> content q d = content p d"
proof -
  let ?cs = "css ! i" and ?t = "last (css ! i)"
  have len: "length css = length ls" using rep_length [OF rep] .
  have F: "cp_base p'" "c < cp_chunks p'" "link_of p' c = NONE_U32" "content p' c = []"
      "path (link_of p') (cp_free_head p') F' NONE_U32"
    using fr by (auto simp: fresh_chunk_def)
  have ci: "(of_nat c :: u32) \<noteq> NONE_U32" "unat (of_nat c :: u32) = c"
    using base_index [OF F(1,2)] by simp_all
  note live = fresh_not_live [OF rep fr]
  have bound: "d < cp_chunks p'" if "j < length ls" "d \<in> set (css ! j)" for j d
  proof -
    have "d < cp_chunks p" using rep_bound(1) [OF rep] that len by simp
    with fr show ?thesis unfolding fresh_chunk_def by linarith
  qed
  have part: "add_mset c (mset (concat css @ F')) = mset [0..<cp_chunks p']"
    using rep fr by (simp add: chunk_rep_def fresh_chunk_def)
  then have dist: "distinct (c # (concat css @ F'))"
    by (metis distinct_upt mset.simps(2) mset_eq_imp_distinct_iff)
  have "d \<in># mset [0..<cp_chunks p']" if "d \<in> set F'" for d
    unfolding part [symmetric] using that by simp
  then have Fb: "d < cp_chunks p'" if "d \<in> set F'" for d using that by simp
  have t: "?t \<in> set ?cs" "?t < cp_chunks p'" "?t \<noteq> c" if "?cs \<noteq> []"
  proof -
    show "?t \<in> set ?cs" using that by simp
    with bound [OF i] live(1) [of i] i len show "?t < cp_chunks p'" and "?t \<noteq> c" by auto
  qed
  \<comment> \<open>linking the old tail onward\<close>
  have p2: "cp_base p''" "cp_chunks p'' = cp_chunks p'" "cp_free_head p'' = cp_free_head p'"
      "\<And>d. d < cp_chunks p' \<Longrightarrow> content p'' d = content p' d"
      "\<And>d. d < cp_chunks p' \<Longrightarrow>
        link_of p'' d = (if ?cs \<noteq> [] \<and> d = ?t then of_nat c else link_of p' d)"
    using put_link_effect [OF F(1), of ?t] t F(1) by (auto simp: p'')
  have c2: "c < cp_chunks p''" "length (content p'' c) + length v \<le> 60"
    using p2 F v by simp_all
  note a = append_value_effect [OF p2(1) l'(1) c2, folded q]
  show qc: "content q c = v" using a(6) [OF c2(1)] p2(4) F(2,4) by simp
  show qd: "content q d = content p d" if "j < length ls" "d \<in> set (css ! j)" for j d
    using a(6) p2(2,4) bound [OF that] live(1,2) [of j] that len by (metis (full_types))
  have lk: "link_of q d = (if ?cs \<noteq> [] \<and> d = ?t then of_nat c else link_of p' d)" if "d < cp_chunks p'" for d
    using a(5) p2 that by simp
  have disj: "?t \<notin> set (css ! j)" if "j < length ls" "j \<noteq> i" "?cs \<noteq> []" for j
  proof -
    have "distinct (concat css)" using dist by simp
    from distinct_concat_disjoint [OF this, of i j] that i len t(1) [OF that(3)] show ?thesis
      by (metis disjoint_iff)
  qed
  have tF: "?t \<notin> set F'" if "?cs \<noteq> []"
  proof -
    have "?t \<in> set (concat css)"
      using t(1) [OF that] i len nth_mem [of i css] by (simp only: set_concat) blast
    then show ?thesis using dist by auto
  qed
  have qc_link: "link_of q c = NONE_U32" using lk [OF F(2)] t F(3) by auto
  have "path (link_of q) (lh_head l') (?cs @ [c]) NONE_U32"
  proof (cases "?cs = []")
    case True
    then show ?thesis using head ci qc_link by simp
  next
    case False
    let ?b = "butlast ?cs"
    have cs: "?cs = ?b @ [?t]" using False by simp
    have "path (link_of p) (lh_head (ls ! i)) (?b @ [?t]) NONE_U32"
      using rep_handle [OF rep i] cs by (simp add: handle_ok_def)
    then obtain m where m: "path (link_of p) (lh_head (ls ! i)) ?b m" "m \<noteq> NONE_U32" "unat m = ?t"
      by (auto simp: path_append)
    have "distinct ?cs" using dist i len by (simp add: distinct_concat_iff)
    then have "?t \<notin> set ?b" using cs by (metis distinct_append disjoint_iff list.set_intros(1))
    moreover have "link_of p' d = link_of p d" if "d \<in> set ?b" for d
      using live(2) [of i d] i len that by (simp add: in_set_butlastD)
    ultimately have "link_of q d = link_of p d" if "d \<in> set ?b" for d
      using lk [OF bound [OF i in_set_butlastD [OF that]]] that by auto
    then have "path (link_of q) (lh_head (ls ! i)) ?b m"
      using m(1) path_cong [of ?b "link_of q" "link_of p"] by simp
    moreover have "link_of q ?t = of_nat c" using lk [OF t(2)] False by simp
    ultimately have "path (link_of q) (lh_head (ls ! i)) (?b @ [?t] @ [c]) NONE_U32"
      using m(2,3) ci qc_link by (auto simp: path_append intro!: exI [of _ m])
    then show ?thesis using head False cs by (metis append_assoc)
  qed
  moreover have "content q d \<noteq> []" if "d \<in> set (?cs @ [c])" for d
    using that qc v qd [OF i] rep_handle [OF rep i] by (auto simp: handle_ok_def)
  ultimately have h: "handle_ok q l' (?cs @ [c])"
    using l' by (simp add: handle_ok_def)
  have "link_of q d = link_of p d" if "j < length ls" "j \<noteq> i" "d \<in> set (css ! j)" for j d
    using lk [OF bound] disj live(2) [of j d] that len by auto
  moreover have "path (link_of q) (cp_free_head q) F' NONE_U32"
  proof -
    have "link_of q d = link_of p' d" if "d \<in> set F'" for d
      using lk [OF Fb [OF that]] tF that by auto
    then show ?thesis
      using F(5) a(3) p2(3) path_cong [of F' "link_of q" "link_of p'"] by simp
  qed
  moreover have "mset (concat (css[i := ?cs @ [c]]) @ F') = mset [0..<cp_chunks q]"
    using part mset_concat_update [of i css "?cs @ [c]"] i len a(2) p2(2) by simp
  ultimately show "chunk_rep q (ls[i := l']) (css[i := ?cs @ [c]]) F'"
    using a(1) h qd by (intro rep_update [OF rep i]) auto
qed

text \<open>What \<open>push\<close> computes on a partitioned pool, before its result is interpreted.\<close>

lemma tail_fits_rep:
  assumes rep: "chunk_rep p ls css F" and i: "i < length ls"
  shows "tail_fits p (ls ! i) n = Some (css ! i \<noteq> [] \<and> length (content p (last (css ! i))) + n \<le> 60)"
proof (cases "css ! i = []")
  case True
  with rep_handle [OF rep i] show ?thesis by (simp add: tail_fits_def handle_ok_def)
next
  case False
  with handle_tail [OF rep i False] rep show ?thesis
    by (simp add: tail_fits_def used_at_def cp_chunks_def [symmetric] length_content chunk_rep_def)
qed

lemma fresh_tail_full: "pool_full p \<Longrightarrow> fresh_tail p l = Some (Inl (CapacityExceeded (cc_max_bytes (cp_cfg p))))"
  by (simp add: fresh_tail_def alloc_full)

lemma fresh_tail_rep:
  assumes rep: "chunk_rep p ls css F" and i: "i < length ls" and room: "\<not> pool_full p"
  obtains c p' F' where "fresh_chunk p F c p' F'" and "unat (of_nat c :: u32) = c"
    and "fresh_tail p (ls ! i) = Some (Inr
      ((ls ! i)\<lparr>lh_head := (if css ! i = [] then of_nat c else lh_head (ls ! i)), lh_tail := of_nat c\<rparr>,
       if css ! i = [] then p' else put_link (last (css ! i)) (of_nat c) p'))"
proof -
  obtain c p' F' where alloc: "alloc_chunk p = Some (Inr (of_nat c, p'))" and fr: "fresh_chunk p F c p' F'"
    using alloc_ok [OF rep room] .
  have c: "unat (of_nat c :: u32) = c" using fr base_index [of p' c] by (auto simp: fresh_chunk_def)
  have "fresh_tail p (ls ! i) = Some (Inr
      ((ls ! i)\<lparr>lh_head := (if css ! i = [] then of_nat c else lh_head (ls ! i)), lh_tail := of_nat c\<rparr>,
       if css ! i = [] then p' else put_link (last (css ! i)) (of_nat c) p'))"
  proof (cases "css ! i = []")
    case True
    with rep_handle [OF rep i] alloc show ?thesis by (simp add: fresh_tail_def handle_ok_def)
  next
    case False
    note t = handle_tail [OF rep i False]
    have "unat (lh_tail (ls ! i)) < cp_chunks p'"
      using t fr unfolding fresh_chunk_def by linarith
    then have "cp_set_link (lh_tail (ls ! i)) (of_nat c) p' = Some (put_link (last (css ! i)) (of_nat c) p')"
      using set_link_ok [of p' "lh_tail (ls ! i)" "of_nat c"] fr t(2) by (simp add: fresh_chunk_def)
    with False alloc t(1) show ?thesis by (simp add: fresh_tail_def)
  qed
  with fr c show thesis using that by blast
qed

lemma cfg_kept [simp]:
  "cp_cfg (append_value v l p) = cp_cfg p" "cp_cfg (if b then p' else put_link t c p') = cp_cfg p'"
  by (simp_all add: append_value_def Let_def)

lemma push_rep:
  assumes rep: "chunk_rep p ls css F" and i: "i < length ls" and v: "v \<noteq> []" "length v \<le> 60"
  defines "old \<equiv> map (content p) (css ! i)"
  defines "fits \<equiv> old \<noteq> [] \<and> length (last old) + length v \<le> 60"
  shows "if \<not> fits \<and> pool_full p
    then chunk_push p (ls ! i) v = Some (Inl (CapacityExceeded (cc_max_bytes (cp_cfg p))))
    else \<exists>l' p' css' F'. chunk_push p (ls ! i) v = Some (Inr (l', p')) \<and> chunk_rep p' (ls[i := l']) css' F' \<and>
      lh_len l' = lh_len (ls ! i) + 1 \<and>
      map (content p') (css' ! i) = (if fits then butlast old @ [last old @ v] else old @ [v]) \<and>
      (\<forall>j < length ls. j \<noteq> i \<longrightarrow> css' ! j = css ! j \<and> (\<forall>c \<in> set (css ! j). content p' c = content p c)) \<and>
      cp_cfg p' = cp_cfg p"
proof -
  have fits: "fits \<longleftrightarrow> css ! i \<noteq> [] \<and> length (content p (last (css ! i))) + length v \<le> 60"
    by (auto simp: fits_def old_def last_map)
  have tf: "tail_fits p (ls ! i) (length v) = Some fits"
    using tail_fits_rep [OF rep i] fits by simp
  have len: "length css = length ls" using rep_length [OF rep] .
  consider (full) "\<not> fits" "pool_full p" | (fits) "fits" | (fresh) "\<not> fits" "\<not> pool_full p" by blast
  then show ?thesis
  proof cases
    case full
    with tf v show ?thesis by (simp add: chunk_push_def fresh_tail_full)
  next
    case fits': fits
    let ?l' = "(ls ! i)\<lparr>lh_len := lh_len (ls ! i) + 1\<rparr>" and ?p' = "append_value v (ls ! i) p"
    have ne: "css ! i \<noteq> []" and room: "length (content p (last (css ! i))) + length v \<le> 60"
      using fits fits' by auto
    note a1 = append_rep(1) [OF rep i ne room, of "lh_len (ls ! i) + 1"]
    note a = append_rep(2,3) [OF rep i ne room]
    have "chunk_push p (ls ! i) v = Some (Inr (?l', ?p'))"
      using tf v fits' by (simp add: chunk_push_def)
    moreover have "map (content ?p') (css ! i) = butlast old @ [last old @ v]"
      using a(1) ne by (simp add: old_def map_butlast last_map)
    ultimately show ?thesis
      using a1 a(2) fits' by (intro if_not_P [THEN iffD2] exI [of _ ?l'] exI [of _ ?p'] exI [of _ css] exI [of _ F])
        simp_all
  next
    case fresh
    obtain c q F' where fr: "fresh_chunk p F c q F'" and c: "unat (of_nat c :: u32) = c"
      and ft: "fresh_tail p (ls ! i) = Some (Inr
        ((ls ! i)\<lparr>lh_head := (if css ! i = [] then of_nat c else lh_head (ls ! i)), lh_tail := of_nat c\<rparr>,
         if css ! i = [] then q else put_link (last (css ! i)) (of_nat c) q))"
      using fresh_tail_rep [OF rep i fresh(2)] .
    let ?l = "(ls ! i)\<lparr>lh_head := (if css ! i = [] then of_nat c else lh_head (ls ! i)), lh_tail := of_nat c\<rparr>"
    let ?q = "if css ! i = [] then q else put_link (last (css ! i)) (of_nat c) q"
    let ?l' = "?l\<lparr>lh_len := lh_len (ls ! i) + 1\<rparr>"
    have push: "chunk_push p (ls ! i) v = Some (Inr (?l', append_value v ?l ?q))"
      using tf v fresh ft by (simp add: chunk_push_def)
    have same: "append_value v ?l ?q = append_value v ?l' ?q"
      by (simp add: append_value_def)
    have "unat (lh_tail ?l') = c" "lh_tail ?l' = of_nat c"
      "lh_head ?l' = (if css ! i = [] then of_nat c else lh_head (ls ! i))"
      using c by simp_all
    note e = extend_rep [OF rep i v fr this refl same]
    have "map (content (append_value v ?l ?q)) (css[i := css ! i @ [c]] ! i) = old @ [v]"
      using e(2) e(3) [OF i] i len by (simp add: old_def)
    moreover have "cp_cfg q = cp_cfg p" using fr by (simp add: fresh_chunk_def)
    ultimately show ?thesis
      using push e fresh
      by (intro if_not_P [THEN iffD2] exI [of _ ?l'] exI [of _ "append_value v ?l ?q"]
          exI [of _ "css[i := css ! i @ [c]]"] exI [of _ F']) simp_all
  qed
qed

lemma new_pool_rep: "chunk_rep (chunk_pool_new cfg) (replicate n EMPTY) (replicate n []) []"
proof -
  have "cp_base (chunk_pool_new cfg)"
    by (simp add: cp_base_def chunk_pool_new_def cp_pool_bytes_def cp_chunks_def owned_empty_def)
  moreover have "concat (replicate n []) = ([] :: nat list)" by (induction n) simp_all
  ultimately show ?thesis
    by (simp add: chunk_rep_def list_all2_conv_all_nth handle_ok_def EMPTY_def)
      (simp add: chunk_pool_new_def cp_chunks_def)
qed

text \<open>The same over handles alone, for clients of the pool.\<close>

lemma push_wf:
  assumes wf: "chunk_wf p ls" and i: "i < length ls" and v: "v \<noteq> []" "length v \<le> CHUNK_PAYLOAD"
  obtains old where "chunk_iter p (ls ! i) = Some old"
    "\<not> (old \<noteq> [] \<and> length (last old) + length v \<le> CHUNK_PAYLOAD)" "pool_full p"
    "chunk_push p (ls ! i) v = Some (Inl (CapacityExceeded (cc_max_bytes (cp_cfg p))))"
  | old l' p' where "chunk_iter p (ls ! i) = Some old" "chunk_push p (ls ! i) v = Some (Inr (l', p'))"
    "\<not> (\<not> (old \<noteq> [] \<and> length (last old) + length v \<le> CHUNK_PAYLOAD) \<and> pool_full p)"
    "chunk_wf p' (ls[i := l'])" "lh_len l' = lh_len (ls ! i) + 1" "cp_cfg p' = cp_cfg p"
    "chunk_iter p' l' = Some (if old \<noteq> [] \<and> length (last old) + length v \<le> CHUNK_PAYLOAD then butlast old @ [last old @ v] else old @ [v])"
    "\<forall>j < length ls. j \<noteq> i \<longrightarrow> chunk_iter p' (ls ! j) = chunk_iter p (ls ! j)"
proof -
  obtain css F where rep: "chunk_rep p ls css F" using wf by (auto simp: chunk_wf_def)
  let ?old = "map (content p) (css ! i)"
  note old = rep_iter [OF rep i]
  have v60: "length v \<le> 60" using v(2) by simp
  show ?thesis
  proof (cases "\<not> (?old \<noteq> [] \<and> length (last ?old) + length v \<le> 60) \<and> pool_full p")
    case True
    with push_rep [OF rep i v(1) v60] old show ?thesis using that(1) by simp
  next
    case False
    let ?new = "if ?old \<noteq> [] \<and> length (last ?old) + length v \<le> 60 then butlast ?old @ [last ?old @ v] else ?old @ [v]"
    obtain l' p' css' F' where push: "chunk_push p (ls ! i) v = Some (Inr (l', p'))"
      and rep': "chunk_rep p' (ls[i := l']) css' F'" and len: "lh_len l' = lh_len (ls ! i) + 1"
      and new: "map (content p') (css' ! i) = ?new"
      and others: "\<And>j c. j < length ls \<Longrightarrow> j \<noteq> i \<Longrightarrow> css' ! j = css ! j \<and> (\<forall>c \<in> set (css ! j). content p' c = content p c)"
      and cfg: "cp_cfg p' = cp_cfg p"
      using push_rep [OF rep i v(1) v60] unfolding if_not_P [OF False] by blast
    have "chunk_iter p' (ls ! j) = chunk_iter p (ls ! j)" if "j < length ls" "j \<noteq> i" for j
      using frame_iter [OF rep rep', of j] others [OF that] that by simp
    then have frame: "\<forall>j < length ls. j \<noteq> i \<longrightarrow> chunk_iter p' (ls ! j) = chunk_iter p (ls ! j)" by blast
    have "chunk_iter p' l' = Some ?new"
      using rep_iter [OF rep', of i] i new by simp
    moreover have "chunk_wf p' (ls[i := l'])" using rep' by (auto simp: chunk_wf_def)
    ultimately show ?thesis
      using that(2) [OF old push _ _ len cfg _ frame] False by simp
  qed
qed

lemma wf_reorder: "chunk_wf p ls \<Longrightarrow> mset ls' = mset ls \<Longrightarrow> chunk_wf p ls'"
proof -
  assume wf: "chunk_wf p ls" and m: "mset ls' = mset ls"
  then obtain css F where r: "chunk_rep p ls css F" by (auto simp: chunk_wf_def)
  then have "list_all2 (handle_ok p) ls css" by (simp add: chunk_rep_def)
  from list_all2_reorder_left_invariance [OF this m] obtain css' where c: "list_all2 (handle_ok p) ls' css'" "mset css' = mset css" by blast
  have "mset (concat css') = \<Sum>\<^sub># (image_mset mset (mset css'))" by (metis mset_concat mset_map sum_mset_sum_list)
  also have "\<dots> = mset (concat css)" unfolding c(2) by (metis mset_concat mset_map sum_mset_sum_list)
  finally have "chunk_rep p ls' css' F" using r c(1) by (simp add: chunk_rep_def)
  then show "chunk_wf p ls'" unfolding chunk_wf_def by blast
qed

lemma wf_add_empty: "chunk_wf p ls \<Longrightarrow> chunk_wf p (ls @ [EMPTY])"
proof -
  assume "chunk_wf p ls"
  then obtain css F where "chunk_rep p ls css F" by (auto simp: chunk_wf_def)
  then have "chunk_rep p (ls @ [EMPTY]) (css @ [[]]) F"
    by (auto simp: chunk_rep_def list_all2_append handle_ok_def EMPTY_def intro: list_all2_appendI)
  then show ?thesis by (auto simp: chunk_wf_def)
qed

lemma empty_iter: "chunk_iter p EMPTY = Some []"
  by (simp add: chunk_iter_def EMPTY_def chunk_walk.simps)

text \<open>
  C34. A push either fails, leaving everything as it was, for one of its two documented reasons
  (the value is longer than a chunk's payload; a fresh chunk is needed and none can be had), or
  appends exactly the value to the list's last chunk, or in a chunk of its own when it does not
  fit there, so no value straddles two chunks. Every other list reads as before, and the chains
  and the free list still partition the chunks.
\<close>

theorem chunk_push_correct:
  assumes "chunk_wf p ls" and "i < length ls"
  shows "\<exists>old. chunk_iter p (ls ! i) = Some old \<and>
    (let fits = old \<noteq> [] \<and> length (last old) + length v \<le> CHUNK_PAYLOAD in
     if CHUNK_PAYLOAD < length v
     then chunk_push p (ls ! i) v = Some (Inl (ValueTooLarge (length v)))
     else if v \<noteq> [] \<and> \<not> fits \<and> pool_full p
     then chunk_push p (ls ! i) v = Some (Inl (CapacityExceeded (cc_max_bytes (cp_cfg p))))
     else \<exists>l' p'. chunk_push p (ls ! i) v = Some (Inr (l', p')) \<and>
       chunk_wf p' (ls[i := l']) \<and> lh_len l' = lh_len (ls ! i) + 1 \<and>
       chunk_iter p' l' =
         Some (if v = [] then old else if fits then butlast old @ [last old @ v] else old @ [v]) \<and>
       (\<forall>j < length ls. j \<noteq> i \<longrightarrow> chunk_iter p' (ls ! j) = chunk_iter p (ls ! j)) \<and>
       cp_cfg p' = cp_cfg p)"
proof -
  obtain css F where rep: "chunk_rep p ls css F" using assms(1) by (auto simp: chunk_wf_def)
  note i = assms(2)
  let ?old = "map (content p) (css ! i)"
  note old = rep_iter [OF rep i]
  consider "60 < length v" | "v = []" | "v \<noteq> []" "length v \<le> 60" by fastforce
  then show ?thesis
  proof cases
    case 1
    with old show ?thesis by (simp add: chunk_push_def Let_def)
  next
    case 2
    let ?l' = "(ls ! i)\<lparr>lh_len := lh_len (ls ! i) + 1\<rparr>"
    have "chunk_rep p (ls[i := ?l']) (css[i := css ! i]) F"
      using rep rep_handle [OF rep i] by (intro rep_update [OF rep i]) (auto simp: chunk_rep_def)
    then have "chunk_wf p (ls[i := ?l'])" by (auto simp: chunk_wf_def)
    moreover have "chunk_iter p ?l' = chunk_iter p (ls ! i)" by (simp add: chunk_iter_def)
    ultimately show ?thesis using 2 old by (simp add: chunk_push_def Let_def)
  next
    case 3
    then have v: "v \<noteq> []" "length v \<le> CHUNK_PAYLOAD" by simp_all
    show ?thesis by (rule push_wf [OF assms v]) (use v in \<open>simp_all add: Let_def\<close>)
  qed
qed

theorem chunk_push_correct_witness:
  "\<exists>l' p'. chunk_push (chunk_pool_new \<lparr>cc_max_bytes = 128\<rparr>) EMPTY [1, 2] = Some (Inr (l', p')) \<and>
     chunk_iter p' l' = Some [[1, 2]] \<and> chunk_iter p' EMPTY = Some []"
proof -
  let ?p = "chunk_pool_new \<lparr>cc_max_bytes = 128\<rparr>"
  have wf: "chunk_wf ?p [EMPTY, EMPTY]"
    using new_pool_rep [of "\<lparr>cc_max_bytes = 128\<rparr>" 2] by (auto simp: chunk_wf_def numeral_2_eq_2)
  have old: "chunk_iter ?p EMPTY = Some []"
    by (simp add: chunk_iter_def EMPTY_def chunk_walk.simps)
  have room: "\<not> pool_full ?p"
    by (simp add: pool_full_def chunk_pool_new_def cp_pool_bytes_def owned_empty_def usize_max_def cp_chunks_def)
  from chunk_push_correct [OF wf, of 0 "[1, 2]"] old room show ?thesis
    by (auto simp: Let_def less_Suc_eq)
qed

section \<open>Free\<close>

text \<open>
  Freeing a list empties its handle and returns its whole chain, in order, to the head of
  the free list: every other list reads as before, no chunk is lost, and the pool keeps its size.
\<close>

theorem chunk_free_correct:
  assumes "chunk_wf p ls" and "i < length ls"
  shows "\<exists>p'. chunk_free p (ls ! i) = Some (EMPTY, p') \<and> chunk_wf p' (ls[i := EMPTY]) \<and>
    chunk_iter p' EMPTY = Some [] \<and> cp_pool_bytes p' = cp_pool_bytes p \<and> cp_cfg p' = cp_cfg p \<and>
    (\<forall>j < length ls. j \<noteq> i \<longrightarrow> chunk_iter p' (ls ! j) = chunk_iter p (ls ! j)) \<and>
    (\<forall>cs F. path (link_of p) (lh_head (ls ! i)) cs NONE_U32 \<longrightarrow> path (link_of p) (cp_free_head p) F NONE_U32 \<longrightarrow>
       path (link_of p') (cp_free_head p') (cs @ F) NONE_U32)"
proof -
  obtain css F where rep: "chunk_rep p ls css F" using assms(1) by (auto simp: chunk_wf_def)
  note i = assms(2)
  have base: "cp_base p" using rep by (simp add: chunk_rep_def)
  have len: "length css = length ls" using rep_length [OF rep] .
  let ?l = "ls ! i" and ?cs = "css ! i"
  have lp: "path (link_of p) (lh_head ?l) ?cs NONE_U32" and fp: "path (link_of p) (cp_free_head p) F NONE_U32"
    using rep rep_handle [OF rep i] by (simp_all add: handle_ok_def chunk_rep_def)
  have none: "chunk_iter q EMPTY = Some []" for q
    by (simp add: chunk_iter_def EMPTY_def chunk_walk.simps)
  have ok: "handle_ok q EMPTY []" for q by (simp add: handle_ok_def EMPTY_def)
  define p' where "p' = (if ?cs = [] then p else (put_link (last ?cs) (cp_free_head p) p)\<lparr>cp_free_head := lh_head ?l\<rparr>)"
  have run: "chunk_free p ?l = Some (EMPTY, p')"
    using path_Nil_iff [OF lp] handle_tail [OF rep i] set_link_ok [OF base, of "lh_tail ?l" "cp_free_head p"]
    by (cases "?cs = []") (simp_all add: chunk_free_def p'_def)
  have dist: "distinct (concat css @ F)" using rep_distinct [OF rep] .
  have t: "last ?cs < cp_chunks p" "last ?cs \<in> set ?cs" if "?cs \<noteq> []"
    using handle_tail(3) [OF rep i that] that by simp_all
  have eff: "cp_base p'" "cp_chunks p' = cp_chunks p" "cp_cfg p' = cp_cfg p"
      "\<And>d. d < cp_chunks p \<Longrightarrow> content p' d = content p d"
      "\<And>d. d < cp_chunks p \<Longrightarrow> link_of p' d = (if ?cs \<noteq> [] \<and> d = last ?cs then cp_free_head p else link_of p d)"
  proof -
    have field: "cp_base (q\<lparr>cp_free_head := h\<rparr>) = cp_base q" "cp_chunks (q\<lparr>cp_free_head := h\<rparr>) = cp_chunks q"
      "content (q\<lparr>cp_free_head := h\<rparr>) = content q" "link_of (q\<lparr>cp_free_head := h\<rparr>) = link_of q" for q h
      by (auto simp: cp_base_def cp_chunks_def cp_pool_bytes_def content_def link_of_def fun_eq_iff)
    show "cp_base p'" "cp_chunks p' = cp_chunks p" "cp_cfg p' = cp_cfg p"
      "\<And>d. d < cp_chunks p \<Longrightarrow> content p' d = content p d"
      "\<And>d. d < cp_chunks p \<Longrightarrow> link_of p' d = (if ?cs \<noteq> [] \<and> d = last ?cs then cp_free_head p else link_of p d)"
      using put_link_effect [OF base t(1)] base by (auto simp: p'_def field)
  qed
  have bound: "d < cp_chunks p" if "j < length ls" "d \<in> set (css ! j)" for j d
    using rep_bound(1) [OF rep] that len by simp
  have tj: "last ?cs \<notin> set (css ! j)" if "j < length ls" "j \<noteq> i" "?cs \<noteq> []" for j
    using distinct_concat_disjoint [of css i j] dist that i len t(2) [OF that(3)]
    by (metis disjoint_iff distinct_append)
  have dcs: "distinct ?cs" using dist i len by (simp add: distinct_concat_iff)
  have tF: "last ?cs \<notin> set F" if "?cs \<noteq> []"
  proof -
    have "last ?cs \<in> set (concat css)"
      using t(2) [OF that] i len nth_mem [of i css] by (simp only: set_concat) blast
    with dist show ?thesis by auto
  qed
  have chain: "path (link_of p') (cp_free_head p') (?cs @ F) NONE_U32"
  proof (cases "?cs = []")
    case True
    with fp show ?thesis by (simp add: p'_def)
  next
    case False
    let ?b = "butlast ?cs"
    have cs: "?cs = ?b @ [last ?cs]" using False by simp
    with lp have "path (link_of p) (lh_head ?l) (?b @ [last ?cs]) NONE_U32" by simp
    then obtain m where m: "path (link_of p) (lh_head ?l) ?b m" "m \<noteq> NONE_U32" "unat m = last ?cs"
      by (auto simp: path_append)
    have nb: "last ?cs \<notin> set ?b" using dcs cs by (metis distinct_append disjoint_iff list.set_intros(1))
    have "link_of p' d = link_of p d" if "d \<in> set ?b" for d
      using eff(5) [OF bound [OF i in_set_butlastD [OF that]]] nb that by auto
    then have b: "path (link_of p') (lh_head ?l) ?b m" using m(1) path_cong [of ?b "link_of p'" "link_of p"] by simp
    have "link_of p' d = link_of p d" if "d \<in> set F" for d
      using eff(5) [OF rep_bound(2) [OF rep that]] tF that by auto
    then have f: "path (link_of p') (cp_free_head p) F NONE_U32"
      using fp path_cong [of F "link_of p'" "link_of p"] by simp
    have "path (link_of p') (lh_head ?l) (?b @ [last ?cs] @ F) NONE_U32"
      using b m f eff(5) [OF t(1) [OF False]] False by (auto simp: path_append intro!: exI [of _ m])
    moreover have "cp_free_head p' = lh_head ?l" using False by (simp add: p'_def)
    ultimately show ?thesis using cs by (metis append_assoc)
  qed
  have same: "link_of p' d = link_of p d \<and> content p' d = content p d"
    if "j < length ls" "j \<noteq> i" "d \<in> set (css ! j)" for j d
    using eff(4,5) [OF bound [OF that(1,3)]] tj [OF that(1,2)] that(3) by auto
  have "mset (concat (css[i := []]) @ (?cs @ F)) = mset [0..<cp_chunks p']"
    using rep eff(2) mset_concat_update [of i css "[]"] i len
    by (simp add: chunk_rep_def) (metis union_assoc union_commute)
  then have rep': "chunk_rep p' (ls[i := EMPTY]) (css[i := []]) (?cs @ F)"
    using same chain eff(1) ok by (intro rep_update [OF rep i]) auto
  have "chunk_iter p' (ls ! j) = chunk_iter p (ls ! j)" if "j < length ls" "j \<noteq> i" for j
    using frame_iter [OF rep rep', of j] same [OF that] that by simp
  moreover have "cp_pool_bytes p' = cp_pool_bytes p"
    using eff(1,2) base by (simp add: cp_base_def)
  ultimately show ?thesis
    using run rep' none eff(3) chain path_unique [OF _ lp] path_unique [OF _ fp]
    by (auto simp: chunk_wf_def)
qed

text \<open>A list of one value, freed again: the pool keeps its chunk.\<close>

theorem chunk_free_correct_witness:
  "\<exists>l1 p1 p2. chunk_push (chunk_pool_new \<lparr>cc_max_bytes = 128\<rparr>) EMPTY [9] = Some (Inr (l1, p1)) \<and>
     chunk_iter p1 l1 = Some [[9]] \<and> chunk_free p1 l1 = Some (EMPTY, p2) \<and> chunk_wf p2 [EMPTY] \<and>
     cp_pool_bytes p2 = cp_pool_bytes p1"
proof -
  let ?p = "chunk_pool_new \<lparr>cc_max_bytes = 128\<rparr>"
  have rep: "chunk_rep ?p [EMPTY] [[]] []"
    using new_pool_rep [of "\<lparr>cc_max_bytes = 128\<rparr>" 1] by simp
  have room: "\<not> pool_full ?p"
    by (simp add: pool_full_def chunk_pool_new_def cp_pool_bytes_def owned_empty_def usize_max_def cp_chunks_def)
  from push_rep [OF rep, of 0 "[9]"] room obtain l1 p1 css F where
    "chunk_push ?p EMPTY [9] = Some (Inr (l1, p1))" and "chunk_rep p1 [l1] css F"
    and "map (content p1) (css ! 0) = [[9]]"
    by auto
  moreover from this have "chunk_wf p1 [l1]" and "chunk_iter p1 l1 = Some [[9]]"
    using rep_iter [of p1 "[l1]" css F 0] by (auto simp: chunk_wf_def)
  ultimately show ?thesis using chunk_free_correct [of p1 "[l1]" 0] by auto
qed

end
