(* ===== verification/Chunk_Load.thy ===== *)
theory Chunk_Load
  imports Chunk_Lists
begin

text \<open>
  Dumps, loaders and the owner's validation of a chunk pool. The dump of a well-formed pool is
  canonical and loads back, owned or borrowed, into a pool in which every list reads the same;
  whatever bytes a loader accepts form a pool whose links stay in range and whose free list
  ends; and the owner's hooks (\<open>validate_chain\<close> over a shared bitmap, then \<open>orphan_count\<close>) decide
  well-formedness up to one gap, which is exhibited.
\<close>

section \<open>The free map\<close>

definition mark :: "nat list \<Rightarrow> bool list \<Rightarrow> bool list" where
  "mark cs seen = map (\<lambda>c. seen ! c \<or> c \<in> set cs) [0..<length seen]"

lemma mark_simps [simp]:
  "length (mark cs seen) = length seen" "c < length seen \<Longrightarrow> mark cs seen ! c = (seen ! c \<or> c \<in> set cs)"
  "mark [] seen = seen"
  by (simp_all add: mark_def map_nth)

lemma mark_Cons: "mark cs (seen[c := True]) = mark (c # cs) seen"
  by (cases "c < length seen") (auto intro!: nth_equalityI simp: nth_list_update mark_def)

lemma unmarked_rest:
  assumes "\<forall>d \<in> set cs. d < length seen \<and> \<not> seen[c := True] ! d \<and> Q d" and "c < length seen"
  shows "c \<notin> set cs" and "\<forall>d \<in> set cs. d < length seen \<and> \<not> seen ! d \<and> Q d"
proof -
  have "c \<noteq> d \<and> \<not> seen ! d" if "d \<in> set cs" for d
    using bspec [OF assms(1) that] assms(2) by (auto simp: nth_list_update split: if_splits)
  then show "c \<notin> set cs" and "\<forall>d \<in> set cs. d < length seen \<and> \<not> seen ! d \<and> Q d"
    using assms(1) by auto
qed

lemma mark_append: "mark ds (mark cs seen) = mark (cs @ ds) seen"
  by (rule nth_equalityI) auto

lemma free_walk_path:
  assumes "cp_base p"
  shows "path (link_of p) h F NONE_U32 \<Longrightarrow> (\<And>c. c \<in> set F \<Longrightarrow> c < cp_chunks p) \<Longrightarrow>
    free_walk p h seen = Some (mark F seen)"
proof (induction F arbitrary: h seen)
  case Nil
  then show ?case by (simp add: free_walk.simps)
next
  case (Cons c F)
  then have "h \<noteq> NONE_U32" "unat h = c" "free_walk p (link_of p c) (seen[c := True]) = Some (mark F (seen[c := True]))"
    and "c < cp_chunks p"
    by auto
  with assms show ?case
    by (subst free_walk.simps) (simp add: cp_link_def base_chunks mark_Cons)
qed

lemma free_map_path:
  assumes "cp_base p" and "path (link_of p) (cp_free_head p) F NONE_U32" and "\<And>c. c \<in> set F \<Longrightarrow> c < cp_chunks p"
  shows "free_map p = Some (mark F (replicate (cp_chunks p) False))"
  using free_walk_path [OF assms] by (simp add: free_map_def cp_chunks_def)

lemma rep_free_map:
  assumes "chunk_rep p ls css F"
  shows "free_map p = Some (mark F (replicate (cp_chunks p) False))"
  using assms rep_bound(2) [OF assms] by (intro free_map_path) (auto simp: chunk_rep_def)

section \<open>Walks over a bitmap\<close>

lemma validate_free_sound:
  "validate_free lk used h seen = Inr () \<Longrightarrow> length used = length seen \<Longrightarrow>
     \<exists>F. path lk h F NONE_U32 \<and> distinct F \<and> (\<forall>c \<in> set F. c < length seen \<and> \<not> seen ! c \<and> used ! c = 0)"
proof (induction lk used h seen rule: validate_free.induct)
  case (1 lk used h seen)
  show ?case
  proof (cases "h = NONE_U32")
    case True
    then show ?thesis by (intro exI [of _ "[]"]) simp
  next
    case False
    let ?c = "unat h"
    from False have ok: "?c < length seen" "\<not> seen ! ?c" "used ! ?c = 0"
      and rest: "validate_free lk used (lk ?c) (seen[?c := True]) = Inr ()"
      using "1.prems"(1) [unfolded validate_free.simps [of lk used h seen] Let_def]
      by (auto simp: not_le split: if_splits)
    from "1.IH" [OF False refl _ _ _ rest] ok "1.prems"(2) obtain F where
      F: "path lk (lk ?c) F NONE_U32" "distinct F" and
      unseen: "\<forall>c \<in> set F. c < length seen \<and> \<not> seen[?c := True] ! c \<and> used ! c = 0"
      by auto
    with unmarked_rest [OF unseen ok(1)] F ok False show ?thesis by (intro exI [of _ "?c # F"]) auto
  qed
qed

lemma validate_free_complete:
  "path lk h F NONE_U32 \<Longrightarrow> distinct F \<Longrightarrow> (\<forall>c \<in> set F. c < length seen \<and> \<not> seen ! c \<and> used ! c = 0) \<Longrightarrow>
     validate_free lk used h seen = Inr ()"
proof (induction F arbitrary: h seen)
  case Nil
  then show ?case by (simp add: validate_free.simps)
next
  case (Cons c F)
  then have "validate_free lk used (lk c) (seen[c := True]) = Inr ()"
    by (intro Cons.IH) (auto simp: nth_list_update)
  with Cons.prems show ?case by (subst validate_free.simps) (auto simp: Let_def)
qed

definition chain_unseen :: "chunk_pool \<Rightarrow> list_handle \<Rightarrow> nat list \<Rightarrow> bool list \<Rightarrow> bool" where
  "chain_unseen p l cs seen \<longleftrightarrow> path (link_of p) (lh_head l) cs NONE_U32 \<and>
     (if cs = [] then lh_tail l = NONE_U32 else lh_tail l \<noteq> NONE_U32 \<and> unat (lh_tail l) = last cs) \<and>
     distinct cs \<and> (\<forall>c \<in> set cs. c < length seen \<and> \<not> seen ! c)"

lemma validate_walk_sound:
  "validate_walk p tail h seen = (Inr (), seen') \<Longrightarrow> h \<noteq> NONE_U32 \<Longrightarrow>
     \<exists>cs. path (link_of p) h cs NONE_U32 \<and> cs \<noteq> [] \<and> last cs = unat tail \<and> distinct cs \<and>
       (\<forall>c \<in> set cs. c < length seen \<and> \<not> seen ! c) \<and> seen' = mark cs seen"
proof (induction p tail h seen rule: validate_walk.induct)
  case (1 p tail h seen)
  let ?c = "unat h"
  note run = "1.prems"(1) [unfolded validate_walk.simps [of p tail h seen] Let_def]
  then have ok: "?c < length seen" "\<not> seen ! ?c"
    by (auto split: if_splits)
  show ?case
  proof (cases "h = tail")
    case True
    with run ok have "link_of p ?c = NONE_U32" "seen' = seen[?c := True]"
      by (auto split: if_splits)
    with True ok "1.prems"(2) mark_Cons [of "[]" seen ?c] show ?thesis
      by (intro exI [of _ "[?c]"]) simp
  next
    case False
    with run ok have nx: "link_of p ?c \<noteq> NONE_U32"
      and rest: "validate_walk p tail (link_of p ?c) (seen[?c := True]) = (Inr (), seen')"
      by (auto split: if_splits)
    from "1.IH" [OF refl _ _ refl refl False nx rest nx] ok obtain cs where
      cs: "path (link_of p) (link_of p ?c) cs NONE_U32" "cs \<noteq> []" "last cs = unat tail" "distinct cs"
        "seen' = mark cs (seen[?c := True])"
      and un: "\<forall>c \<in> set cs. c < length seen \<and> \<not> seen[?c := True] ! c \<and> True"
      by auto
    with unmarked_rest [OF un ok(1)] cs ok "1.prems"(2) show ?thesis
      by (intro exI [of _ "?c # cs"]) (auto simp: mark_Cons)
  qed
qed

lemma validate_walk_complete:
  "path (link_of p) h cs NONE_U32 \<Longrightarrow> cs \<noteq> [] \<Longrightarrow> last cs = unat tail \<Longrightarrow> distinct cs \<Longrightarrow>
     (\<forall>c \<in> set cs. c < length seen \<and> \<not> seen ! c) \<Longrightarrow> validate_walk p tail h seen = (Inr (), mark cs seen)"
proof (induction cs arbitrary: h seen)
  case (Cons c cs)
  then have h: "h \<noteq> NONE_U32" "unat h = c" and rest: "path (link_of p) (link_of p c) cs NONE_U32" by auto
  show ?case
  proof (cases "cs = []")
    case True
    with Cons.prems rest h have "h = tail" by (simp add: word_unat_eq_iff)
    with True Cons.prems rest h show ?thesis
      using mark_Cons [of "[]" seen c] by (subst validate_walk.simps) (auto simp: Let_def)
  next
    case False
    with Cons.prems h last_in_set [OF False] have "h \<noteq> tail" by auto
    moreover have "link_of p c \<noteq> NONE_U32" using rest False by (cases cs) auto
    moreover have "validate_walk p tail (link_of p c) (seen[c := True]) = (Inr (), mark cs (seen[c := True]))"
      using Cons.prems False rest by (intro Cons.IH) (auto simp: nth_list_update)
    ultimately show ?thesis
      using Cons.prems h by (subst validate_walk.simps) (auto simp: Let_def mark_Cons)
  qed
qed simp

text \<open>\<open>validate_chain\<close> accepts exactly the proper chains of chunks nobody has claimed yet.\<close>

lemma validate_chain_iff:
  "validate_chain p l seen = (Inr (), seen') \<longleftrightarrow> (\<exists>cs. chain_unseen p l cs seen \<and> seen' = mark cs seen)"
proof (cases "lh_head l = NONE_U32 \<or> lh_tail l = NONE_U32")
  case True
  have "cs = []" if "chain_unseen p l cs seen" for cs
    using that True by (cases cs) (auto simp: chain_unseen_def split: if_splits)
  then have "(\<exists>cs. chain_unseen p l cs seen \<and> seen' = mark cs seen) \<longleftrightarrow>
      chain_unseen p l [] seen \<and> seen' = seen"
    by (metis mark_simps(3))
  moreover have "chain_unseen p l [] seen \<longleftrightarrow> lh_head l = NONE_U32 \<and> lh_tail l = NONE_U32"
    by (simp add: chain_unseen_def)
  ultimately show ?thesis
    using True by (auto simp: validate_chain_def)
next
  case False
  then have eq: "validate_chain p l seen = validate_walk p (lh_tail l) (lh_head l) seen"
    by (simp add: validate_chain_def)
  show ?thesis
  proof
    assume "validate_chain p l seen = (Inr (), seen')"
    with validate_walk_sound [of p "lh_tail l" "lh_head l" seen seen'] eq False
    show "\<exists>cs. chain_unseen p l cs seen \<and> seen' = mark cs seen"
      by (auto simp: chain_unseen_def)
  next
    assume "\<exists>cs. chain_unseen p l cs seen \<and> seen' = mark cs seen"
    then obtain cs where cs: "chain_unseen p l cs seen" "seen' = mark cs seen" by blast
    then have "cs \<noteq> []" using False by (auto simp: chain_unseen_def)
    with cs eq show "validate_chain p l seen = (Inr (), seen')"
      by (auto simp: chain_unseen_def intro!: validate_walk_complete)
  qed
qed

section \<open>Dumps\<close>

text \<open>What the two sections of a well-formed pool say about one chunk.\<close>

lemma rep_links:
  assumes rep: "chunk_rep p ls css F" and c: "c < cp_chunks p"
  shows "link_of p c = NONE_U32 \<or> unat (link_of p c) < cp_chunks p"
proof -
  have "c \<in> set (concat css @ F)" using rep_set [OF rep] c by simp
  then consider i where "i < length css" "c \<in> set (css ! i)" | "c \<in> set F"
    by (auto simp: in_set_conv_nth) (metis in_set_conv_nth)
  then show ?thesis
  proof cases
    case 1
    with rep_handle [OF rep, of i] rep_length [OF rep] path_link_range [of "link_of p" _ "css ! i" c]
    show ?thesis using rep_bound(1) [OF rep, of i] by (auto simp: handle_ok_def)
  next
    case 2
    with rep path_link_range [of "link_of p" _ F c] rep_bound(2) [OF rep]
    show ?thesis by (auto simp: chunk_rep_def)
  qed
qed

definition live_used :: "chunk_pool \<Rightarrow> nat list \<Rightarrow> u8 list" where
  "live_used p F = map (\<lambda>c. if c \<in> set F then 0 else cp_used p ! c) [0..<cp_chunks p]"

definition live_chunk :: "chunk_pool \<Rightarrow> nat list \<Rightarrow> nat \<Rightarrow> bytes" where
  "live_chunk p F c = u32_le (link_of p c) @ (if c \<in> set F then replicate 60 0
     else content p c @ replicate (60 - unat (cp_used p ! c)) 0)"

lemma link_bytes: "cp_base p \<Longrightarrow> c < cp_chunks p \<Longrightarrow> u32_le (link_of p c) = take 4 (cp_page p c)"
  using base_page [of p c] by (simp add: link_of_def word_bytes_of slice_0_take)

lemma length_live_chunk: "cp_base p \<Longrightarrow> c < cp_chunks p \<Longrightarrow> length (live_chunk p F c) = 64"
  using base_used [of p c] by (simp add: live_chunk_def length_content)

lemma take_content:
  "cp_base p \<Longrightarrow> c < cp_chunks p \<Longrightarrow>
     take (4 + unat (cp_used p ! c)) (cp_page p c) = u32_le (link_of p c) @ content p c"
  using slice_join [of 0 4 "4 + unat (cp_used p ! c)" "cp_page p c"]
  by (simp add: slice_0_take link_bytes content_def)

lemma rep_dumps:
  assumes rep: "chunk_rep p ls css F"
  shows "cp_dump_meta p = Some (u32_le (of_nat (cp_chunks p)) @ u32_le (cp_free_head p) @ live_used p F)"
    and "cp_dump_pool p = Some (concat (map (live_chunk p F) [0..<cp_chunks p]))"
proof -
  have base: "cp_base p" using rep by (simp add: chunk_rep_def)
  let ?free = "mark F (replicate (cp_chunks p) False)"
  note fm = rep_free_map [OF rep]
  show "cp_dump_meta p = Some (u32_le (of_nat (cp_chunks p)) @ u32_le (cp_free_head p) @ live_used p F)"
    by (simp add: cp_dump_meta_def fm live_used_def cp_chunks_def [symmetric])
  have "dump_chunk p ?free c = live_chunk p F c" if "c < cp_chunks p" for c
    using that base_page [OF base that] take_content [OF base that] link_bytes [OF base that]
    by (simp add: dump_chunk_def live_chunk_def Let_def)
  then have "concat (map (dump_chunk p ?free) [0..<cp_chunks p]) = concat (map (live_chunk p F) [0..<cp_chunks p])"
    by (intro arg_cong [where f = concat]) simp
  then show "cp_dump_pool p = Some (concat (map (live_chunk p F) [0..<cp_chunks p]))"
    by (simp add: cp_dump_pool_def fm cp_chunks_def [symmetric])
qed

section \<open>Loading\<close>

text \<open>The pool a loader builds, owned or borrowed.\<close>

definition loaded :: "bool \<Rightarrow> chunk_pool_cfg \<Rightarrow> bytes \<Rightarrow> bytes \<times> u32 \<Rightarrow> chunk_pool" where
  "loaded owned cfg pool v =
     \<lparr>cp_pool = (if owned then owned_from pool else borrowed CHUNK_BYTES pool),
      cp_used = fst v, cp_free_head = snd v, cp_cfg = cfg\<rparr>"

lemma chunk_load_eq:
  "chunk_load cfg meta pool = try_res (validate_chunks cfg meta pool) (\<lambda>v. Inr (loaded True cfg pool v))"
  "chunk_load_borrowed cfg meta pool = try_res (validate_chunks cfg meta pool) (\<lambda>v. Inr (loaded False cfg pool v))"
  "chunk_load_overlay cfg meta pool = chunk_load_borrowed cfg meta pool"
  by (auto simp: chunk_load_def chunk_load_borrowed_def chunk_load_overlay_def loaded_def try_res_def
      split: sum.splits)

lemma loaded_fields [simp]:
  "cp_used (loaded b cfg pool v) = fst v" "cp_free_head (loaded b cfg pool v) = snd v"
  "cp_cfg (loaded b cfg pool v) = cfg" "cp_chunks (loaded b cfg pool v) = length (fst v)"
  by (simp_all add: loaded_def cp_chunks_def)

lemma loaded_base:
  assumes len: "length pool = length (fst v) * 64" and "length (fst v) \<le> 2 ^ 32 - 1"
    and "\<forall>u \<in> set (fst v). unat u \<le> 60" and "length pool \<le> cc_max_bytes cfg"
  shows "cp_base (loaded b cfg pool v)"
    and "c < length (fst v) \<Longrightarrow> cp_page (loaded b cfg pool v) c = slice pool (c * 64) (c * 64 + 64)"
proof -
  have inv: "paged_inv 64 (cp_pool (loaded b cfg pool v))"
    using assms borrowed_inv [of 64 pool] by (simp add: loaded_def owned_from_def)
  have "paged_len (cp_pool (loaded b cfg pool v)) = length pool"
    by (simp add: loaded_def owned_from_def borrowed_def Let_def)
  with inv assms show "cp_base (loaded b cfg pool v)"
    by (simp add: cp_base_def cp_pool_bytes_def usize_max_def)
  assume "c < length (fst v)"
  then show "cp_page (loaded b cfg pool v) c = slice pool (c * 64) (c * 64 + 64)"
    using len by (simp add: loaded_def owned_from_def borrowed_def Let_def)
qed

lemma loaded_link:
  "cp_base (loaded b cfg pool v) \<Longrightarrow> c < length (fst v) \<Longrightarrow>
     cp_page (loaded b cfg pool v) c = slice pool (c * 64) (c * 64 + 64) \<Longrightarrow>
     link_of (loaded b cfg pool v) c = image_link pool c"
  by (simp add: link_of_def image_link_def Let_def slice_0_take take_slice)

lemma validate_chunks_sound:
  assumes v: "validate_chunks cfg meta pool = Inr v"
  shows "length pool = length (fst v) * 64" and "length (fst v) < 2 ^ 32 - 1"
    and "\<forall>u \<in> set (fst v). unat u \<le> 60" and "length pool \<le> cc_max_bytes cfg"
    and "meta = u32_le (of_nat (length (fst v))) @ u32_le (snd v) @ fst v"
    and "\<forall>c < length (fst v). image_link pool c = NONE_U32 \<or> unat (image_link pool c) < length (fst v)"
    and "\<exists>F. path (image_link pool) (snd v) F NONE_U32 \<and> distinct F \<and>
      (\<forall>c \<in> set F. c < length (fst v) \<and> fst v ! c = 0)"
proof -
  let ?n = "u32_of_le (slice meta 0 4)" and ?fh = "u32_of_le (slice meta 4 8)"
  from v have m8: "8 \<le> length meta" and n: "?n \<noteq> NONE_U32" and lm: "length meta = 8 + unat ?n"
    and lp: "length pool = unat ?n * 64" and cap: "length pool \<le> cc_max_bytes cfg"
    and used: "\<forall>u \<in> set (drop 8 meta). unat u \<le> 60"
    and links: "\<forall>c < unat ?n. image_link pool c = NONE_U32 \<or> image_link pool c < ?n"
    and free: "validate_free (image_link pool) (drop 8 meta) ?fh (replicate (unat ?n) False) = Inr ()"
    and ve: "v = (drop 8 meta, ?fh)"
    by (auto simp: validate_chunks_def Let_def try_res_eq_Inr not_less list_ex_iff split: if_splits)
  have ln: "length (fst v) = unat ?n" using ve lm by simp
  show "length pool = length (fst v) * 64" and "length (fst v) < 2 ^ 32 - 1"
    and "\<forall>u \<in> set (fst v). unat u \<le> 60" and "length pool \<le> cc_max_bytes cfg"
    using ln lp ve used cap unat_less_NONE [OF n] by simp_all
  have "slice meta 0 4 @ slice meta 4 8 = take 8 meta"
    using slice_join [of 0 4 8 meta] by (simp add: slice_0_take)
  then have "meta = slice meta 0 4 @ slice meta 4 8 @ drop 8 meta"
    by (metis append_assoc append_take_drop_id)
  also have "slice meta 0 4 = u32_le ?n" using m8 by (simp add: word_bytes_of)
  also have "slice meta 4 8 = u32_le ?fh" using m8 by (simp add: word_bytes_of)
  finally show "meta = u32_le (of_nat (length (fst v))) @ u32_le (snd v) @ fst v"
    using ve ln by simp
  show "\<forall>c < length (fst v). image_link pool c = NONE_U32 \<or> unat (image_link pool c) < length (fst v)"
    using links ln by (auto simp: word_less_nat_alt)
  from validate_free_sound [OF free] lm ve ln
  show "\<exists>F. path (image_link pool) (snd v) F NONE_U32 \<and> distinct F \<and> (\<forall>c \<in> set F. c < length (fst v) \<and> fst v ! c = 0)"
    by auto
qed

text \<open>Every accepted image is a pool with in-range links and a proper free list.\<close>

lemma loaded_sound:
  fixes b :: bool
  assumes "validate_chunks cfg meta pool = Inr v"
  defines "p \<equiv> loaded b cfg pool v"
  shows "cp_base p" and "\<forall>c < cp_chunks p. link_of p c = NONE_U32 \<or> unat (link_of p c) < cp_chunks p"
    and "\<exists>F. path (link_of p) (cp_free_head p) F NONE_U32 \<and> distinct F \<and>
      (\<forall>c \<in> set F. c < cp_chunks p \<and> cp_used p ! c = 0)"
proof -
  note s = validate_chunks_sound [OF assms(1)]
  have le: "length (fst v) \<le> 2 ^ 32 - 1" using s(2) by simp
  note base = loaded_base [OF s(1) le s(3,4), where b = b, folded p_def]
  show "cp_base p" by (rule base(1))
  have link: "link_of p c = image_link pool c" if "c < cp_chunks p" for c
    using loaded_link [of b cfg pool v c, folded p_def] base that by (simp add: p_def)
  show "\<forall>c < cp_chunks p. link_of p c = NONE_U32 \<or> unat (link_of p c) < cp_chunks p"
    using s(6) link by (simp add: p_def)
  from s(7) obtain F where F: "path (image_link pool) (snd v) F NONE_U32" "distinct F"
    "\<forall>c \<in> set F. c < length (fst v) \<and> fst v ! c = 0" by blast
  then have "path (link_of p) (snd v) F NONE_U32"
    using link path_cong [of F "link_of p" "image_link pool"] by (simp add: p_def)
  with F show "\<exists>F. path (link_of p) (cp_free_head p) F NONE_U32 \<and> distinct F \<and>
      (\<forall>c \<in> set F. c < cp_chunks p \<and> cp_used p ! c = 0)"
    by (auto simp: p_def)
qed

text \<open>The image of a well-formed pool is accepted, and the pool it gives is well formed.\<close>

lemma rep_image:
  assumes rep: "chunk_rep p ls css F" and n: "cp_chunks p < 2 ^ 32 - 1"
  defines "meta \<equiv> u32_le (of_nat (cp_chunks p)) @ u32_le (cp_free_head p) @ live_used p F"
    and "pool \<equiv> concat (map (live_chunk p F) [0..<cp_chunks p])"
  shows "validate_chunks (cp_cfg p) meta pool = Inr (live_used p F, cp_free_head p)"
    and "c < cp_chunks p \<Longrightarrow> slice pool (c * 64) (c * 64 + 64) = live_chunk p F c"
    and "c < cp_chunks p \<Longrightarrow> image_link pool c = link_of p c"
    and "length pool = cp_chunks p * 64"
proof -
  have base: "cp_base p" using rep by (simp add: chunk_rep_def)
  have lens: "length x = 64" if "x \<in> set (map (live_chunk p F) [0..<cp_chunks p])" for x
    using that length_live_chunk [OF base] by auto
  show len: "length pool = cp_chunks p * 64"
    unfolding pool_def by (subst length_concat_const [OF lens]) simp_all
  show chunk: "slice pool (c * 64) (c * 64 + 64) = live_chunk p F c" if "c < cp_chunks p" for c
    unfolding pool_def using that by (subst slice_concat_const [OF lens]) simp_all
  show link: "image_link pool c = link_of p c" if c: "c < cp_chunks p" for c
  proof -
    have "slice pool (c * 64) (c * 64 + 4) = take 4 (slice pool (c * 64) (c * 64 + 64))"
      by (simp add: take_slice)
    with chunk [OF c] show ?thesis by (simp add: image_link_def Let_def live_chunk_def)
  qed
  have heads: "slice meta 0 4 = u32_le (of_nat (cp_chunks p))" "slice meta 4 8 = u32_le (cp_free_head p)"
      "drop 8 meta = live_used p F"
    by (simp_all add: meta_def slice_append_mid0 slice_append_mid)
  have n': "(of_nat (cp_chunks p) :: u32) \<noteq> NONE_U32" "unat (of_nat (cp_chunks p) :: u32) = cp_chunks p"
    using n of_nat_neq_NONE [of "cp_chunks p"] by simp_all
  have used: "\<forall>u \<in> set (live_used p F). unat u \<le> 60"
    using base_used [OF base] by (auto simp: live_used_def)
  have links: "image_link pool c = NONE_U32 \<or> image_link pool c < of_nat (cp_chunks p)" if "c < cp_chunks p" for c
    using rep_links [OF rep that] link [OF that] n' by (simp add: word_less_nat_alt)
  have walk: "path (image_link pool) (cp_free_head p) F NONE_U32"
    using rep link rep_bound(2) [OF rep] path_cong [of F "image_link pool" "link_of p"]
    by (simp add: chunk_rep_def)
  have "validate_free (image_link pool) (live_used p F) (cp_free_head p) (replicate (cp_chunks p) False) = Inr ()"
    using rep_distinct [OF rep] rep_bound(2) [OF rep]
    by (intro validate_free_complete [OF walk]) (auto simp: live_used_def)
  moreover have "length meta = 8 + cp_chunks p" by (simp add: meta_def live_used_def)
  moreover have "length pool \<le> cc_max_bytes (cp_cfg p)"
    using base len by (simp add: cp_base_def)
  ultimately show "validate_chunks (cp_cfg p) meta pool = Inr (live_used p F, cp_free_head p)"
    using heads n' used links len
    by (auto simp: validate_chunks_def Let_def list_ex_iff not_less not_le)
qed

lemma rep_loaded:
  fixes b :: bool
  assumes rep: "chunk_rep p ls css F" and n: "cp_chunks p < 2 ^ 32 - 1"
  defines "q \<equiv> loaded b (cp_cfg p) (concat (map (live_chunk p F) [0..<cp_chunks p]))
    (live_used p F, cp_free_head p)"
  shows "chunk_rep q ls css F" and "c < cp_chunks p \<Longrightarrow> c \<notin> set F \<Longrightarrow> content q c = content p c"
    and "live_used q F = live_used p F" and "c < cp_chunks p \<Longrightarrow> live_chunk q F c = live_chunk p F c"
proof -
  note img = rep_image [OF rep n]
  have base: "cp_base p" using rep by (simp add: chunk_rep_def)
  have qbase: "cp_base q"
    using loaded_sound(1) [OF img(1)] by (simp add: q_def)
  have qn: "cp_chunks q = cp_chunks p" by (simp add: q_def live_used_def)
  have page: "cp_page q c = live_chunk p F c" if "c < cp_chunks p" for c
    using loaded_base(2) [OF _ _ _ _, of _ "(live_used p F, cp_free_head p)"] validate_chunks_sound(1-4) [OF img(1)]
      img(2) [OF that] that by (simp add: q_def live_used_def)
  have link: "link_of q c = link_of p c" if "c < cp_chunks p" for c
    using page [OF that] by (simp add: link_of_def live_chunk_def slice_append_mid0)
  show cont: "content q c = content p c" if "c < cp_chunks p" "c \<notin> set F" for c
  proof -
    have "cp_used q ! c = cp_used p ! c" using that by (simp add: q_def live_used_def)
    then show ?thesis
      using page [OF that(1)] that length_content [OF base that(1)]
      by (simp add: content_def [of q] live_chunk_def slice_append_mid)
  qed
  have "link_of q c = link_of p c \<and> content q c = content p c" if "i < length ls" "c \<in> set (css ! i)" for i c
  proof -
    have "c < cp_chunks p" using rep_bound(1) [OF rep] that rep_length [OF rep] by simp
    moreover have "c \<in> set (concat css)"
      using that nth_mem [of i css] rep_length [OF rep] by (simp only: set_concat) auto
    then have "c \<notin> set F" using rep_distinct [OF rep] by auto
    ultimately show ?thesis using link cont by simp
  qed
  then have handles: "list_all2 (handle_ok q) ls css"
    using rep handle_frame [of p] by (simp add: chunk_rep_def list_all2_conv_all_nth)
  have "path (link_of q) (cp_free_head q) F NONE_U32"
    using rep link rep_bound(2) [OF rep] path_cong [of F "link_of q" "link_of p"]
    by (simp add: chunk_rep_def q_def)
  with handles show "chunk_rep q ls css F"
    using rep qbase qn by (simp add: chunk_rep_def)
  show used: "live_used q F = live_used p F"
    by (simp add: live_used_def [of q] qn) (simp add: q_def live_used_def)
  assume c: "c < cp_chunks p"
  then have "c \<notin> set F \<Longrightarrow> cp_used q ! c = cp_used p ! c"
    by (simp add: q_def live_used_def)
  then show "live_chunk q F c = live_chunk p F c"
    using c link cont by (simp add: live_chunk_def)
qed

lemma chunk_reload:
  assumes "chunk_wf p ls" and "cp_chunks p < 2 ^ 32 - 1"
  shows "\<exists>meta pool q q'. cp_dump_meta p = Some meta \<and> cp_dump_pool p = Some pool \<and>
    chunk_load (cp_cfg p) meta pool = Inr q \<and> chunk_load_borrowed (cp_cfg p) meta pool = Inr q' \<and>
    (\<forall>r \<in> {q, q'}. chunk_wf r ls \<and> cp_dump_meta r = Some meta \<and> cp_dump_pool r = Some pool \<and>
      (\<forall>l \<in> set ls. chunk_iter r l = chunk_iter p l))"
proof -
  obtain css F where rep: "chunk_rep p ls css F" using assms(1) by (auto simp: chunk_wf_def)
  let ?pool = "concat (map (live_chunk p F) [0..<cp_chunks p])" and ?v = "(live_used p F, cp_free_head p)"
  have each: "chunk_wf r ls \<and> cp_dump_meta r = cp_dump_meta p \<and> cp_dump_pool r = cp_dump_pool p \<and>
      (\<forall>l \<in> set ls. chunk_iter r l = chunk_iter p l)" if r: "r = loaded b (cp_cfg p) ?pool ?v" for r b
  proof -
    note l = rep_loaded [OF rep assms(2), where b = b, folded r]
    have n: "cp_chunks r = cp_chunks p" by (simp add: r live_used_def)
    have "chunk_iter r (ls ! i) = chunk_iter p (ls ! i)" if i: "i < length ls" for i
    proof (rule frame_iter [OF rep l(1) i i])
      fix c assume c: "c \<in> set (css ! i)"
      have "c \<in> set (concat css)"
        using c i nth_mem [of i css] rep_length [OF rep] by (simp only: set_concat) auto
      then show "content r c = content p c"
        using l(2) rep_bound(1) [OF rep, of i c] c i rep_length [OF rep] rep_distinct [OF rep] by auto
    qed simp
    then have "\<forall>l \<in> set ls. chunk_iter r l = chunk_iter p l" by (auto simp: in_set_conv_nth)
    moreover have "cp_dump_meta r = cp_dump_meta p"
      using rep_dumps(1) [OF rep] rep_dumps(1) [OF l(1)] l(3) n by (simp add: r)
    moreover have "cp_dump_pool r = cp_dump_pool p"
    proof -
      have "map (live_chunk r F) [0..<cp_chunks p] = map (live_chunk p F) [0..<cp_chunks p]"
        using l(4) by simp
      then show ?thesis
        by (simp only: rep_dumps(2) [OF rep] rep_dumps(2) [OF l(1)] n)
    qed
    ultimately show ?thesis using l(1) by (auto simp: chunk_wf_def)
  qed
  show ?thesis
    using rep_dumps [OF rep] rep_image(1) [OF rep assms(2)] each [of "loaded True (cp_cfg p) ?pool ?v" True]
      each [of "loaded False (cp_cfg p) ?pool ?v" False]
    by (simp add: chunk_load_eq)
qed

text \<open>
  C36. Dumping a well-formed pool succeeds, and both loaders accept the two sections (under the
  same configuration, and unless all \<open>2^32 - 1\<close> chunk ids are in use). The loaded pool is
  well formed for the same handles, every list reads exactly as before, and dumping it again
  gives the same bytes: the dump is canonical.
\<close>

theorem chunk_dump_load:
  assumes "chunk_wf p ls" and "cp_chunks p < 2 ^ 32 - 1"
  shows "\<exists>meta pool q q'. cp_dump_meta p = Some meta \<and> cp_dump_pool p = Some pool \<and>
    chunk_load (cp_cfg p) meta pool = Inr q \<and> chunk_load_borrowed (cp_cfg p) meta pool = Inr q' \<and>
    (\<forall>r \<in> {q, q'}. chunk_wf r ls \<and> cp_dump_meta r = Some meta \<and> cp_dump_pool r = Some pool \<and>
      (\<forall>l \<in> set ls. chunk_iter r l = chunk_iter p l))"
  by (rule chunk_reload [OF assms])

theorem chunk_dump_load_witness:
  "\<exists>meta q. cp_dump_meta (chunk_pool_new \<lparr>cc_max_bytes = 128\<rparr>) = Some meta \<and>
     chunk_load \<lparr>cc_max_bytes = 128\<rparr> meta [] = Inr q \<and> chunk_wf q [EMPTY, EMPTY] \<and> chunk_iter q EMPTY = Some []"
proof -
  let ?p = "chunk_pool_new \<lparr>cc_max_bytes = 128\<rparr>"
  have "chunk_wf ?p [EMPTY, EMPTY]"
    using new_pool_rep [of "\<lparr>cc_max_bytes = 128\<rparr>" 2] by (auto simp: chunk_wf_def numeral_2_eq_2)
  moreover have "cp_chunks ?p < 2 ^ 32 - 1" by (simp add: chunk_pool_new_def cp_chunks_def)
  moreover have "cp_cfg ?p = \<lparr>cc_max_bytes = 128\<rparr>" by (simp add: chunk_pool_new_def)
  moreover have "chunk_iter q EMPTY = Some []" for q
    by (simp add: chunk_iter_def EMPTY_def chunk_walk.simps)
  moreover have "cp_dump_pool ?p = Some []"
    by (simp add: cp_dump_pool_def free_map_def free_walk.simps chunk_pool_new_def)
  ultimately show ?thesis using chunk_dump_load [of ?p "[EMPTY, EMPTY]"] by auto
qed

section \<open>The owner's validation\<close>

text \<open>The loop every owner runs over its handles at load, with one shared bitmap.\<close>

fun validate_lists ::
  "chunk_pool \<Rightarrow> list_handle list \<Rightarrow> bool list \<Rightarrow> (arena_error + unit) \<times> bool list" where
  "validate_lists p [] seen = (Inr (), seen)"
| "validate_lists p (l # ls) seen =
     (case validate_chain p l seen of
        (Inl e, seen) \<Rightarrow> (Inl e, seen)
      | (Inr _, seen) \<Rightarrow> validate_lists p ls seen)"

definition chain_of :: "chunk_pool \<Rightarrow> list_handle \<Rightarrow> nat list \<Rightarrow> bool" where
  "chain_of p l cs \<longleftrightarrow> path (link_of p) (lh_head l) cs NONE_U32 \<and>
     (if cs = [] then lh_tail l = NONE_U32 else lh_tail l \<noteq> NONE_U32 \<and> unat (lh_tail l) = last cs)"

lemma validate_lists_iff:
  "validate_lists p ls seen = (Inr (), seen') \<longleftrightarrow>
     (\<exists>css. list_all2 (chain_of p) ls css \<and> distinct (concat css) \<and>
        (\<forall>c \<in> set (concat css). c < length seen \<and> \<not> seen ! c) \<and> seen' = mark (concat css) seen)"
proof (induction ls arbitrary: seen)
  case (Cons l ls)
  have "validate_lists p (l # ls) seen = (Inr (), seen') \<longleftrightarrow>
      (\<exists>s1. validate_chain p l seen = (Inr (), s1) \<and> validate_lists p ls s1 = (Inr (), seen'))"
    by (auto split: prod.splits sum.splits)
  also have "\<dots> \<longleftrightarrow> (\<exists>cs css. chain_of p l cs \<and> list_all2 (chain_of p) ls css \<and> distinct (cs @ concat css) \<and>
      (\<forall>c \<in> set (cs @ concat css). c < length seen \<and> \<not> seen ! c) \<and> seen' = mark (cs @ concat css) seen)"
    unfolding validate_chain_iff Cons.IH
  proof (intro iffI; elim exE conjE)
    fix s1 cs css
    assume "chain_unseen p l cs seen" "s1 = mark cs seen" "list_all2 (chain_of p) ls css" "distinct (concat css)"
      "\<forall>c \<in> set (concat css). c < length s1 \<and> \<not> s1 ! c" "seen' = mark (concat css) s1"
    moreover have "\<forall>c \<in> set (concat css). c < length seen \<and> \<not> seen ! c \<and> c \<notin> set cs"
    proof
      fix c assume "c \<in> set (concat css)"
      with calculation(5) have "c < length s1" "\<not> s1 ! c" by blast+
      with calculation(2) show "c < length seen \<and> \<not> seen ! c \<and> c \<notin> set cs" by simp
    qed
    ultimately show "\<exists>cs css. chain_of p l cs \<and> list_all2 (chain_of p) ls css \<and> distinct (cs @ concat css) \<and>
      (\<forall>c \<in> set (cs @ concat css). c < length seen \<and> \<not> seen ! c) \<and> seen' = mark (cs @ concat css) seen"
      by (intro exI [of _ cs] exI [of _ css]) (auto simp: chain_unseen_def chain_of_def mark_append)
  next
    fix cs css
    assume a: "chain_of p l cs" "list_all2 (chain_of p) ls css" "distinct (cs @ concat css)"
      "\<forall>c \<in> set (cs @ concat css). c < length seen \<and> \<not> seen ! c" "seen' = mark (cs @ concat css) seen"
    then have "chain_unseen p l cs seen" by (simp add: chain_unseen_def chain_of_def)
    moreover have "\<forall>c \<in> set (concat css). c < length (mark cs seen) \<and> \<not> mark cs seen ! c"
      using a(3,4) by auto
    ultimately show "\<exists>s1. (\<exists>cs. chain_unseen p l cs seen \<and> s1 = mark cs seen) \<and>
        (\<exists>css. list_all2 (chain_of p) ls css \<and> distinct (concat css) \<and>
          (\<forall>c \<in> set (concat css). c < length s1 \<and> \<not> s1 ! c) \<and> seen' = mark (concat css) s1)"
      using a by (intro exI [of _ "mark cs seen"] conjI exI [of _ cs] exI [of _ css]) (auto simp: mark_append)
  qed
  also have "\<dots> \<longleftrightarrow> (\<exists>css. list_all2 (chain_of p) (l # ls) css \<and> distinct (concat css) \<and>
      (\<forall>c \<in> set (concat css). c < length seen \<and> \<not> seen ! c) \<and> seen' = mark (concat css) seen)"
    by (fastforce simp: list_all2_Cons1)
  finally show ?case .
qed auto

lemma chain_of_handle:
  assumes "cp_base p" and "\<forall>c \<in> set cs. c < cp_chunks p"
  shows "handle_ok p l cs \<longleftrightarrow> chain_of p l cs \<and> (\<forall>c \<in> set cs. content p c \<noteq> [])"
proof (cases "cs = []")
  case False
  then have "last cs < cp_chunks p" using assms by simp
  from base_index [OF assms(1) this] False
  have "lh_tail l = of_nat (last cs) \<longleftrightarrow> lh_tail l \<noteq> NONE_U32 \<and> unat (lh_tail l) = last cs"
    by (metis word_unat_eq_iff)
  with False show ?thesis by (auto simp: handle_ok_def chain_of_def)
qed (auto simp: handle_ok_def chain_of_def)

lemma orphan_zero:
  assumes "free_map p = Some (mark F (replicate (cp_chunks p) False))"
  shows "orphan_count p (mark cs (replicate (cp_chunks p) False)) = Some 0 \<longleftrightarrow>
    {..<cp_chunks p} \<subseteq> set cs \<union> set F"
  using assms by (auto simp: orphan_count_def cp_chunks_def filter_empty_conv)

lemma validation_wf:
  assumes base: "cp_base p" and free: "path (link_of p) (cp_free_head p) F NONE_U32" "distinct F"
      "\<forall>c \<in> set F. c < cp_chunks p \<and> cp_used p ! c = 0"
  shows "chunk_rep p ls css F \<longleftrightarrow> list_all2 (chain_of p) ls css \<and> distinct (concat css) \<and>
    (\<forall>c \<in> set (concat css). c < cp_chunks p \<and> content p c \<noteq> []) \<and> {..<cp_chunks p} \<subseteq> set (concat css) \<union> set F"
proof
  assume rep: "chunk_rep p ls css F"
  have bnd: "i < length css \<Longrightarrow> \<forall>c \<in> set (css ! i). c < cp_chunks p" for i
    using rep_bound(1) [OF rep] by blast
  have h: "chain_of p (ls ! i) (css ! i) \<and> (\<forall>c \<in> set (css ! i). content p c \<noteq> [])" if "i < length ls" for i
    using rep_handle [OF rep that] chain_of_handle [OF base bnd] that rep_length [OF rep] by simp
  then have "\<forall>c \<in> set (concat css). content p c \<noteq> []"
    using rep_length [OF rep] by (auto simp: in_set_conv_nth) (metis nth_mem)
  with h rep_distinct [OF rep] rep_set [OF rep] rep_length [OF rep]
  show "list_all2 (chain_of p) ls css \<and> distinct (concat css) \<and>
    (\<forall>c \<in> set (concat css). c < cp_chunks p \<and> content p c \<noteq> []) \<and> {..<cp_chunks p} \<subseteq> set (concat css) \<union> set F"
    by (auto simp: list_all2_conv_all_nth)
next
  assume a: "list_all2 (chain_of p) ls css \<and> distinct (concat css) \<and>
    (\<forall>c \<in> set (concat css). c < cp_chunks p \<and> content p c \<noteq> []) \<and> {..<cp_chunks p} \<subseteq> set (concat css) \<union> set F"
  have "handle_ok p (ls ! i) (css ! i)" if i: "i < length css" for i
  proof -
    have sub: "set (css ! i) \<subseteq> set (concat css)" using i nth_mem by fastforce
    with a chain_of_handle [OF base, of "css ! i" "ls ! i"] i show ?thesis
      by (auto simp: list_all2_conv_all_nth)
  qed
  then have "list_all2 (handle_ok p) ls css" using a by (simp add: list_all2_conv_all_nth)
  moreover have "set (concat css) \<inter> set F = {}"
  proof -
    have "content p c = []" if "c \<in> set F" for c
      using free(3) that length_content [OF base, of c] by auto
    with a show ?thesis by auto
  qed
  ultimately show "chunk_rep p ls css F"
    using a base free by (auto simp: chunk_rep_def partition_iff simp del: mset_append mset_upt)
qed

text \<open>
  For a pool built by the loader from arbitrary bytes, the owner's two hooks and one more
  condition decide well-formedness: the pool is well formed for the handles \<open>ls\<close> exactly when
  the chain walks over one shared bitmap all pass, no chunk is orphaned, and no chunk of a
  live list is empty.
\<close>

lemma owner_decides:
  assumes "chunk_load cfg meta pool = Inr p"
  shows "chunk_wf p ls \<longleftrightarrow>
    (\<exists>claimed. validate_lists p ls (replicate (cp_chunks p) False) = (Inr (), claimed) \<and>
       orphan_count p claimed = Some 0) \<and>
    (\<forall>l \<in> set ls. \<exists>bs. chunk_iter p l = Some bs \<and> [] \<notin> set bs)"
proof -
  obtain v where v: "validate_chunks cfg meta pool = Inr v" and p: "p = loaded True cfg pool v"
    using assms by (auto simp: chunk_load_eq try_res_eq_Inr)
  from loaded_sound [OF v, of True, folded p] obtain F where base: "cp_base p"
    and free: "path (link_of p) (cp_free_head p) F NONE_U32" "distinct F"
      "\<forall>c \<in> set F. c < cp_chunks p \<and> cp_used p ! c = 0" by blast
  note wf = validation_wf [OF base free]
  have fm: "free_map p = Some (mark F (replicate (cp_chunks p) False))"
    using free_map_path [OF base free(1)] free(3) by blast
  have only_F: "F' = F" if "chunk_rep p ls css F'" for css F'
    using that path_unique [OF free(1)] by (auto simp: chunk_rep_def)
  have iter: "chunk_iter p (ls ! i) = Some (map (content p) (css ! i))"
    if "list_all2 (chain_of p) ls css" "\<forall>c \<in> set (concat css). c < cp_chunks p" "i < length ls" for css i
  proof -
    have "set (css ! i) \<subseteq> set (concat css)"
      using list_all2_lengthD [OF that(1)] that(3) nth_mem [of i css] by fastforce
    with that show ?thesis unfolding chunk_iter_def
      by (intro chunk_walk_path [OF base]) (auto simp: list_all2_conv_all_nth chain_of_def)
  qed
  have nonempty: "(\<forall>c \<in> set (concat css). content p c \<noteq> []) \<longleftrightarrow>
      (\<forall>l \<in> set ls. \<exists>bs. chunk_iter p l = Some bs \<and> [] \<notin> set bs)"
    if "list_all2 (chain_of p) ls css" "\<forall>c \<in> set (concat css). c < cp_chunks p" for css
  proof -
    have len: "length css = length ls" using that(1) by (simp add: list_all2_lengthD)
    have "(\<forall>l \<in> set ls. \<exists>bs. chunk_iter p l = Some bs \<and> [] \<notin> set bs) \<longleftrightarrow>
        (\<forall>i < length ls. \<forall>c \<in> set (css ! i). content p c \<noteq> [])"
      unfolding all_set_conv_all_nth [of ls] by (simp add: iter [OF that] image_iff) metis
    also have "\<dots> \<longleftrightarrow> (\<forall>cs \<in> set css. \<forall>c \<in> set cs. content p c \<noteq> [])"
      by (subst all_set_conv_all_nth [of css]) (simp add: len)
    finally show ?thesis by simp
  qed
  have vl: "validate_lists p ls (replicate (cp_chunks p) False) = (Inr (), claimed) \<longleftrightarrow>
      (\<exists>css. list_all2 (chain_of p) ls css \<and> distinct (concat css) \<and> (\<forall>c \<in> set (concat css). c < cp_chunks p) \<and>
        claimed = mark (concat css) (replicate (cp_chunks p) False))" for claimed
    unfolding validate_lists_iff by (intro ex_cong1) auto
  have "chunk_wf p ls \<longleftrightarrow> (\<exists>css. chunk_rep p ls css F)"
    using only_F by (auto simp: chunk_wf_def)
  also have "\<dots> \<longleftrightarrow> (\<exists>css. list_all2 (chain_of p) ls css \<and> distinct (concat css) \<and>
      (\<forall>c \<in> set (concat css). c < cp_chunks p) \<and> {..<cp_chunks p} \<subseteq> set (concat css) \<union> set F \<and>
      (\<forall>l \<in> set ls. \<exists>bs. chunk_iter p l = Some bs \<and> [] \<notin> set bs))"
    unfolding wf using nonempty by (intro ex_cong1) blast
  also have "\<dots> \<longleftrightarrow> (\<exists>claimed. validate_lists p ls (replicate (cp_chunks p) False) = (Inr (), claimed) \<and>
       orphan_count p claimed = Some 0) \<and> (\<forall>l \<in> set ls. \<exists>bs. chunk_iter p l = Some bs \<and> [] \<notin> set bs)"
    unfolding vl using orphan_zero [OF fm] by blast
  finally show ?thesis .
qed

text \<open>A pool of one chunk, for the example below.\<close>

definition one_page :: "u8 \<Rightarrow> bytes" where
  "one_page b = u32_le NONE_U32 @ b # replicate 59 0"

definition one_chunk :: "u32 \<Rightarrow> u8 \<Rightarrow> u8 \<Rightarrow> chunk_pool" where
  "one_chunk h u b =
     \<lparr>cp_pool = Owned (one_page b), cp_used = [u], cp_free_head = h, cp_cfg = chunk_cfg_new\<rparr>"

lemma one_chunk_fields [simp]:
  "cp_used (one_chunk h u b) = [u]" "cp_free_head (one_chunk h u b) = h" "cp_cfg (one_chunk h u b) = chunk_cfg_new"
  "cp_chunks (one_chunk h u b) = 1" "cp_pool (one_chunk h u b) = Owned (one_page b)" "length (one_page b) = 64"
  by (simp_all add: one_chunk_def cp_chunks_def one_page_def)

lemma one_chunk_steps:
  "link_of (one_chunk h u b) 0 = NONE_U32"
  "cp_set_link 0 NONE_U32 (one_chunk h u b) = Some (one_chunk h u b)"
  "lh_tail l = 0 \<Longrightarrow> append_value [c] l (one_chunk h 0 b) = one_chunk h 1 c"
  "content (one_chunk h 1 b) 0 = [b]"
proof -
  have page: "slice (one_page b) 0 64 = one_page b" by (simp add: slice_whole_len)
  show "link_of (one_chunk h u b) 0 = NONE_U32"
    by (simp add: link_of_def page) (simp add: one_page_def slice_append_mid0)
  show "content (one_chunk h 1 b) 0 = [b]"
    by (simp add: content_def page) (simp add: one_page_def slice_append_right slice_0_take)
  show "cp_set_link 0 NONE_U32 (one_chunk h u b) = Some (one_chunk h u b)"
    by (simp add: cp_set_link_def page_mut_def Let_def page)
      (simp add: one_chunk_def one_page_def splice_def)
  show "lh_tail l = 0 \<Longrightarrow> append_value [c] l (one_chunk h 0 b) = one_chunk h 1 c"
    by (simp add: append_value_def page_mut_def Let_def page)
      (simp add: one_chunk_def one_page_def splice_def)
qed

lemma one_chunk_iter:
  "chunk_walk (one_chunk h 1 b) 0 = Some [[b]]"
proof -
  have "cp_base (one_chunk h 1 b)"
    by (simp add: cp_base_def cp_pool_bytes_def chunk_cfg_new_def usize_max_def)
  moreover have "(0 :: u32) \<noteq> NONE_U32" by (simp add: NONE_U32_def)
  ultimately show ?thesis
    using chunk_walk_path [of "one_chunk h 1 b" 0 "[0]"] by (simp add: one_chunk_steps)
qed

text \<open>
  C37. The third condition is not redundant. There is an image of one chunk, free and empty,
  and a handle that claims the same chunk, for which the loader and both hooks report no
  problem; the chunk is then both live and free, and a push to a second list overwrites what
  was pushed to the first.
\<close>

theorem free_chunk_can_be_claimed:
  defines "meta \<equiv> u32_le 1 @ u32_le 0 @ [0]" and "pool \<equiv> u32_le NONE_U32 @ replicate 60 0"
    and "l \<equiv> \<lparr>lh_head = 0, lh_tail = 0, lh_len = 0\<rparr>"
  shows "\<exists>p claimed l1 p1 l2 p2.
    chunk_load chunk_cfg_new meta pool = Inr p \<and>
    validate_lists p [l] (replicate (cp_chunks p) False) = (Inr (), claimed) \<and> orphan_count p claimed = Some 0 \<and>
    chunk_push p l [7] = Some (Inr (l1, p1)) \<and> chunk_iter p1 l1 = Some [[7]] \<and>
    chunk_push p1 EMPTY [8] = Some (Inr (l2, p2)) \<and> chunk_iter p2 l1 = Some [[8]]"
proof -
  let ?p = "one_chunk 0 0 0" and ?l1 = "\<lparr>lh_head = 0, lh_tail = 0, lh_len = 1\<rparr>"
  have z: "(0 :: u32) \<noteq> NONE_U32" "(1 :: u32) \<noteq> NONE_U32" by (simp_all add: NONE_U32_def)
  have pool: "pool = one_page 0" by (simp add: pool_def one_page_def numeral_eq_Suc)
  have img: "image_link (one_page 0) 0 = NONE_U32"
    by (simp add: image_link_def Let_def one_page_def slice_append_mid0)
  have heads: "slice meta 0 4 = u32_le 1" "slice meta 4 8 = u32_le 0" "drop 8 meta = [0]" "length meta = 9"
    by (simp_all add: meta_def slice_append_mid0 slice_append_mid)
  have "validate_chunks chunk_cfg_new meta pool = Inr ([0], 0)"
    using heads z img unfolding pool
    by (simp add: validate_chunks_def Let_def chunk_cfg_new_def usize_max_def validate_free.simps)
  then have load: "chunk_load chunk_cfg_new meta pool = Inr ?p"
    by (simp add: chunk_load_def owned_from_def one_chunk_def pool)
  have valid: "validate_lists ?p [l] (replicate (cp_chunks ?p) False) = (Inr (), [True])"
    using z by (simp add: l_def validate_chain_def validate_walk.simps Let_def one_chunk_steps)
  have orphan: "orphan_count ?p [True] = Some 0"
    using z by (simp add: orphan_count_def free_map_def free_walk.simps cp_link_def one_chunk_steps)
  have push1: "chunk_push ?p l [7] = Some (Inr (?l1, one_chunk 0 1 7))"
    using z by (simp add: chunk_push_def tail_fits_def used_at_def l_def one_chunk_steps)
  have "alloc_chunk (one_chunk 0 1 7) = Some (Inr (0, one_chunk NONE_U32 0 7))"
  proof -
    have recycle: "(one_chunk 0 1 7)\<lparr>cp_free_head := NONE_U32, cp_used := [0]\<rparr> = one_chunk NONE_U32 0 7"
      by (simp add: one_chunk_def)
    show ?thesis
      using z by (simp add: alloc_chunk_def Let_def cp_link_def used_at_def one_chunk_steps recycle)
  qed
  then have push2: "chunk_push (one_chunk 0 1 7) EMPTY [8] = Some (Inr (?l1, one_chunk NONE_U32 1 8))"
    by (simp add: chunk_push_def tail_fits_def fresh_tail_def EMPTY_def one_chunk_steps)
  show ?thesis
    using load valid orphan push1 push2 by (auto simp: chunk_iter_def one_chunk_iter intro!: exI)
qed

end
