(* ===== verification/Model.thy ===== *)
theory Model
  imports Chunk_Pool
begin

unbundle bit_operations_syntax

text \<open>
  The record layouts of \<open>crates/plugmem-core/src/model.rs\<close> and the id types of \<open>id.rs\<close>. Each
  record is a fixed-size slot with a big-endian byte layout; its \<open>write\<close> and \<open>read\<close> are the
  code's, at the code's offsets, and interpret the contract \<open>slot_codec\<close>. The key builders and
  the scan bounds of the two graph indexes follow, with the lemmas that make range scans over
  them correct.
\<close>

section \<open>Identifiers\<close>

text \<open>The id newtypes are their \<open>u32\<close>; \<open>u32::MAX\<close> is their \<open>NONE\<close>.\<close>

type_synonym fact_id = u32
type_synonym entity_id = u32
type_synonym edge_id = u32
type_synonym term_id = u32
type_synonym blob_id = u32

definition id_is_none :: "u32 \<Rightarrow> bool" where
  "id_is_none x \<longleftrightarrow> x = NONE_U32"

definition id_some :: "u32 \<Rightarrow> u32 option" where
  "id_some x = (if id_is_none x then None else Some x)"

definition id_from_opt :: "u32 option \<Rightarrow> u32" where
  "id_from_opt x = (case x of None \<Rightarrow> NONE_U32 | Some v \<Rightarrow> v)"

lemma id_opt_inverse:
  "id_from_opt (id_some x) = x" "y \<noteq> Some NONE_U32 \<Longrightarrow> id_some (id_from_opt y) = y"
  by (auto simp: id_from_opt_def id_some_def id_is_none_def split: option.splits)

section \<open>Records\<close>

definition VALID_TO_OPEN :: u64 where
  "VALID_TO_OPEN = 18446744073709551615"

definition TOMBSTONE :: u16 where "TOMBSTONE = 1"
definition CLOSED :: u16 where "CLOSED = 2"
definition HAS_VECTOR :: u16 where "HAS_VECTOR = 4"
definition EDGE_CLOSED :: u16 where "EDGE_CLOSED = 1"

text \<open>\<open>FactRecord\<close>. The unit of memory, a 48-byte slot keyed by its id.\<close>

record fact_record =
  fr_id :: fact_id
  fr_entity :: entity_id
  fr_flags :: u16
  fr_kind :: u16
  fr_text :: blob_id
  fr_vector :: u32
  fr_revises :: fact_id
  fr_recorded_at :: u64
  fr_valid_from :: u64
  fr_valid_to :: u64

definition fact_record_slot :: slot_type where
  "fact_record_slot = \<lparr>SIZE = 48, KEY_LEN = 4\<rparr>"

definition fact_record_write :: "fact_record \<Rightarrow> bytes \<Rightarrow> bytes option" where
  "fact_record_write r out = do {
     out \<leftarrow> write_u32 (fr_id r) out;
     out \<leftarrow> write_at 4 (write_u32 (fr_entity r)) out;
     out \<leftarrow> put_range 8 10 (u16_be (fr_flags r)) out;
     out \<leftarrow> put_range 10 12 (u16_be (fr_kind r)) out;
     out \<leftarrow> write_at 12 (write_u32 (fr_text r)) out;
     out \<leftarrow> write_at 16 (write_u32 (fr_vector r)) out;
     out \<leftarrow> write_at 20 (write_u32 (fr_revises r)) out;
     out \<leftarrow> write_at 24 (write_u64 (fr_recorded_at r)) out;
     out \<leftarrow> write_at 32 (write_u64 (fr_valid_from r)) out;
     write_at 40 (write_u64 (fr_valid_to r)) out }"

definition fact_record_read :: "bytes \<Rightarrow> fact_record option" where
  "fact_record_read bs = do {
     v_id \<leftarrow> read_u32 bs;
     v_entity \<leftarrow> read_at 4 read_u32 bs;
     v_flags \<leftarrow> map_option u16_of_be (get_range 8 10 bs);
     v_kind \<leftarrow> map_option u16_of_be (get_range 10 12 bs);
     v_text \<leftarrow> read_at 12 read_u32 bs;
     v_vector \<leftarrow> read_at 16 read_u32 bs;
     v_revises \<leftarrow> read_at 20 read_u32 bs;
     v_recorded_at \<leftarrow> read_at 24 read_u64 bs;
     v_valid_from \<leftarrow> read_at 32 read_u64 bs;
     v_valid_to \<leftarrow> read_at 40 read_u64 bs;
     Some \<lparr>fr_id = v_id, fr_entity = v_entity, fr_flags = v_flags, fr_kind = v_kind,
       fr_text = v_text, fr_vector = v_vector, fr_revises = v_revises, fr_recorded_at = v_recorded_at,
       fr_valid_from = v_valid_from, fr_valid_to = v_valid_to\<rparr> }"

text \<open>\<open>FactAux\<close>. The tag list and metadata blob of a fact, a 20-byte slot keyed by the fact id.\<close>

record fact_aux =
  fa_id :: fact_id
  fa_tags :: list_handle
  fa_meta :: blob_id

definition fact_aux_slot :: slot_type where
  "fact_aux_slot = \<lparr>SIZE = 20, KEY_LEN = 4\<rparr>"

definition fact_aux_write :: "fact_aux \<Rightarrow> bytes \<Rightarrow> bytes option" where
  "fact_aux_write r out = do {
     out \<leftarrow> write_u32 (fa_id r) out;
     out \<leftarrow> put_range 4 16 (handle_to_bytes (fa_tags r)) out;
     write_at 16 (write_u32 (fa_meta r)) out }"

definition fact_aux_read :: "bytes \<Rightarrow> fact_aux option" where
  "fact_aux_read bs = do {
     v_id \<leftarrow> read_u32 bs;
     v_tags \<leftarrow> map_option handle_from_bytes (get_range 4 16 bs);
     v_meta \<leftarrow> read_at 16 read_u32 bs;
     Some \<lparr>fa_id = v_id, fa_tags = v_tags, fa_meta = v_meta\<rparr> }"

text \<open>\<open>EntityRecord\<close>. A graph node, a 24-byte slot keyed by its id.\<close>

record entity_record =
  en_id :: entity_id
  en_name :: blob_id
  en_name_term :: term_id
  en_created_at :: u64
  en_flags :: u32

definition entity_record_slot :: slot_type where
  "entity_record_slot = \<lparr>SIZE = 24, KEY_LEN = 4\<rparr>"

definition entity_record_write :: "entity_record \<Rightarrow> bytes \<Rightarrow> bytes option" where
  "entity_record_write r out = do {
     out \<leftarrow> write_u32 (en_id r) out;
     out \<leftarrow> write_at 4 (write_u32 (en_name r)) out;
     out \<leftarrow> write_at 8 (write_u32 (en_name_term r)) out;
     out \<leftarrow> write_at 12 (write_u64 (en_created_at r)) out;
     write_at 20 (write_u32 (en_flags r)) out }"

definition entity_record_read :: "bytes \<Rightarrow> entity_record option" where
  "entity_record_read bs = do {
     v_id \<leftarrow> read_u32 bs;
     v_name \<leftarrow> read_at 4 read_u32 bs;
     v_name_term \<leftarrow> read_at 8 read_u32 bs;
     v_created_at \<leftarrow> read_at 12 read_u64 bs;
     v_flags \<leftarrow> read_at 20 read_u32 bs;
     Some \<lparr>en_id = v_id, en_name = v_name, en_name_term = v_name_term,
       en_created_at = v_created_at, en_flags = v_flags\<rparr> }"

text \<open>\<open>EntityByName\<close>. Name resolution, an 8-byte slot that is all key.\<close>

record entity_by_name =
  bn_name_term :: term_id
  bn_id :: entity_id

definition entity_by_name_slot :: slot_type where
  "entity_by_name_slot = \<lparr>SIZE = 8, KEY_LEN = 8\<rparr>"

definition entity_by_name_write :: "entity_by_name \<Rightarrow> bytes \<Rightarrow> bytes option" where
  "entity_by_name_write r out = do {
     out \<leftarrow> write_u32 (bn_name_term r) out;
     write_at 4 (write_u32 (bn_id r)) out }"

definition entity_by_name_read :: "bytes \<Rightarrow> entity_by_name option" where
  "entity_by_name_read bs = do {
     v_name_term \<leftarrow> read_u32 bs;
     v_id \<leftarrow> read_at 4 read_u32 bs;
     Some \<lparr>bn_name_term = v_name_term, bn_id = v_id\<rparr> }"

text \<open>\<open>EdgeSlot\<close>. A current edge, a 28-byte slot keyed by \<open>(a, rel, b)\<close>.\<close>

record edge_slot =
  es_a :: entity_id
  es_rel :: term_id
  es_b :: entity_id
  es_fact :: fact_id
  es_edge :: edge_id
  es_valid_from :: u64

definition edge_slot_slot :: slot_type where
  "edge_slot_slot = \<lparr>SIZE = 28, KEY_LEN = 12\<rparr>"

definition edge_slot_write :: "edge_slot \<Rightarrow> bytes \<Rightarrow> bytes option" where
  "edge_slot_write r out = do {
     out \<leftarrow> write_u32 (es_a r) out;
     out \<leftarrow> write_at 4 (write_u32 (es_rel r)) out;
     out \<leftarrow> write_at 8 (write_u32 (es_b r)) out;
     out \<leftarrow> write_at 12 (write_u32 (es_fact r)) out;
     out \<leftarrow> write_at 16 (write_u32 (es_edge r)) out;
     write_at 20 (write_u64 (es_valid_from r)) out }"

definition edge_slot_read :: "bytes \<Rightarrow> edge_slot option" where
  "edge_slot_read bs = do {
     v_a \<leftarrow> read_u32 bs;
     v_rel \<leftarrow> read_at 4 read_u32 bs;
     v_b \<leftarrow> read_at 8 read_u32 bs;
     v_fact \<leftarrow> read_at 12 read_u32 bs;
     v_edge \<leftarrow> read_at 16 read_u32 bs;
     v_valid_from \<leftarrow> read_at 20 read_u64 bs;
     Some \<lparr>es_a = v_a, es_rel = v_rel, es_b = v_b, es_fact = v_fact, es_edge = v_edge,
       es_valid_from = v_valid_from\<rparr> }"

text \<open>\<open>EdgeHistorySlot\<close>. An edge version, a 48-byte slot keyed by \<open>(a, valid_from, edge)\<close>.\<close>

record edge_history_slot =
  eh_a :: entity_id
  eh_rel :: term_id
  eh_b :: entity_id
  eh_edge :: edge_id
  eh_fact :: fact_id
  eh_flags :: u16
  eh_kind :: u16
  eh_recorded_at :: u64
  eh_valid_from :: u64
  eh_valid_to :: u64

definition edge_history_slot_slot :: slot_type where
  "edge_history_slot_slot = \<lparr>SIZE = 48, KEY_LEN = 16\<rparr>"

definition edge_history_slot_write :: "edge_history_slot \<Rightarrow> bytes \<Rightarrow> bytes option" where
  "edge_history_slot_write r out = do {
     out \<leftarrow> write_u32 (eh_a r) out;
     out \<leftarrow> write_at 4 (write_u64 (eh_valid_from r)) out;
     out \<leftarrow> write_at 12 (write_u32 (eh_edge r)) out;
     out \<leftarrow> write_at 16 (write_u32 (eh_rel r)) out;
     out \<leftarrow> write_at 20 (write_u32 (eh_b r)) out;
     out \<leftarrow> write_at 24 (write_u32 (eh_fact r)) out;
     out \<leftarrow> put_range 28 30 (u16_be (eh_flags r)) out;
     out \<leftarrow> put_range 30 32 (u16_be (eh_kind r)) out;
     out \<leftarrow> write_at 32 (write_u64 (eh_recorded_at r)) out;
     write_at 40 (write_u64 (eh_valid_to r)) out }"

definition edge_history_slot_read :: "bytes \<Rightarrow> edge_history_slot option" where
  "edge_history_slot_read bs = do {
     v_a \<leftarrow> read_u32 bs;
     v_rel \<leftarrow> read_at 16 read_u32 bs;
     v_b \<leftarrow> read_at 20 read_u32 bs;
     v_edge \<leftarrow> read_at 12 read_u32 bs;
     v_fact \<leftarrow> read_at 24 read_u32 bs;
     v_flags \<leftarrow> map_option u16_of_be (get_range 28 30 bs);
     v_kind \<leftarrow> map_option u16_of_be (get_range 30 32 bs);
     v_recorded_at \<leftarrow> read_at 32 read_u64 bs;
     v_valid_from \<leftarrow> read_at 4 read_u64 bs;
     v_valid_to \<leftarrow> read_at 40 read_u64 bs;
     Some \<lparr>eh_a = v_a, eh_rel = v_rel, eh_b = v_b, eh_edge = v_edge, eh_fact = v_fact,
       eh_flags = v_flags, eh_kind = v_kind, eh_recorded_at = v_recorded_at,
       eh_valid_from = v_valid_from, eh_valid_to = v_valid_to\<rparr> }"

text \<open>\<open>TemporalSlot\<close>. The recording-time index, a 12-byte slot that is all key.\<close>

record temporal_slot =
  ts_recorded_at :: u64
  ts_fact :: fact_id

definition temporal_slot_slot :: slot_type where
  "temporal_slot_slot = \<lparr>SIZE = 12, KEY_LEN = 12\<rparr>"

definition temporal_slot_write :: "temporal_slot \<Rightarrow> bytes \<Rightarrow> bytes option" where
  "temporal_slot_write r out = write_pair (ts_recorded_at r) (ts_fact r) out"

definition temporal_slot_read :: "bytes \<Rightarrow> temporal_slot option" where
  "temporal_slot_read bs = do {
     (recorded_at, fact) \<leftarrow> read_pair bs;
     Some \<lparr>ts_recorded_at = recorded_at, ts_fact = fact\<rparr> }"

section \<open>Flags and liveness\<close>

definition fact_is_tombstone :: "fact_record \<Rightarrow> bool" where
  "fact_is_tombstone r \<longleftrightarrow> fr_flags r AND TOMBSTONE \<noteq> 0"

definition fact_is_closed :: "fact_record \<Rightarrow> bool" where
  "fact_is_closed r \<longleftrightarrow> fr_flags r AND CLOSED \<noteq> 0"

definition fact_has_vector :: "fact_record \<Rightarrow> bool" where
  "fact_has_vector r \<longleftrightarrow> fr_flags r AND HAS_VECTOR \<noteq> 0"

definition fact_is_live_at :: "fact_record \<Rightarrow> u64 \<Rightarrow> bool" where
  "fact_is_live_at r t \<longleftrightarrow> \<not> fact_is_tombstone r \<and> fr_recorded_at r \<le> t \<and> fr_valid_from r \<le> t \<and> t < fr_valid_to r"

definition edge_active_at :: "edge_history_slot \<Rightarrow> u64 \<Rightarrow> bool" where
  "edge_active_at r t \<longleftrightarrow> eh_valid_from r \<le> t \<and> t < eh_valid_to r"

definition edge_is_open :: "edge_history_slot \<Rightarrow> bool" where
  "edge_is_open r \<longleftrightarrow> eh_valid_to r = VALID_TO_OPEN"

section \<open>Keys and scan bounds\<close>

definition edge_key :: "entity_id \<Rightarrow> term_id \<Rightarrow> entity_id \<Rightarrow> bytes option" where
  "edge_key a rel b = do {
     let out = replicate 12 0;
     out \<leftarrow> write_at 0 (write_u32 a) out;
     out \<leftarrow> write_at 4 (write_u32 rel) out;
     write_at 8 (write_u32 b) out }"

text \<open>\<open>saturating_add(1)\<close>; the largest word is \<open>- 1\<close>.\<close>

definition saturating_succ :: "'a::len word \<Rightarrow> 'a word" where
  "saturating_succ x = (if x = - 1 then x else x + 1)"

definition edge_floor :: "entity_id \<Rightarrow> bytes option" where
  "edge_floor a = edge_key a 0 0"

definition edge_end :: "entity_id \<Rightarrow> bytes option" where
  "edge_end a = edge_key (saturating_succ a) 0 0"

definition edge_history_key :: "entity_id \<Rightarrow> u64 \<Rightarrow> edge_id \<Rightarrow> bytes option" where
  "edge_history_key a valid_from edge = do {
     let out = replicate 16 0;
     out \<leftarrow> write_at 0 (write_u32 a) out;
     out \<leftarrow> write_at 4 (write_u64 valid_from) out;
     write_at 12 (write_u32 edge) out }"

definition edge_history_floor :: "entity_id \<Rightarrow> bytes option" where
  "edge_history_floor a = edge_history_key a 0 0"

definition edge_history_ceiling :: "entity_id \<Rightarrow> u64 \<Rightarrow> bytes option" where
  "edge_history_ceiling a as_of = edge_history_key a (saturating_succ as_of) 0"

text \<open>Closing an edge version in place, on the slot bytes after the 16-byte key.\<close>

definition close_edge_history_payload :: "bytes \<Rightarrow> u64 \<Rightarrow> bytes option" where
  "close_edge_history_payload payload valid_to = do {
     flags \<leftarrow> map_option u16_of_be (get_range 12 14 payload);
     payload \<leftarrow> put_range 12 14 (u16_be (flags OR EDGE_CLOSED)) payload;
     write_at 24 (write_u64 valid_to) payload }"

section \<open>The layouts are codecs\<close>

text \<open>Fields read out of a buffer, put back together.\<close>

lemma handle_bytes [simp]:
  "length (handle_to_bytes l) = 12" "handle_from_bytes (handle_to_bytes l) = l"
  by (simp_all add: handle_to_bytes_def handle_from_bytes_def layout_simps)

lemma handle_of_bytes: "length bs = 12 \<Longrightarrow> handle_to_bytes (handle_from_bytes bs) = bs"
  by (simp add: handle_to_bytes_def handle_from_bytes_def word_bytes_of slice_join slice_whole_len)

lemmas codec_simps = slot_ok_def PAGE_BYTES_def layout_simps word_bytes_of handle_of_bytes slice_join

definition fact_record_image :: "fact_record \<Rightarrow> bytes" where
  "fact_record_image r = u32_be (fr_id r) @ u32_be (fr_entity r) @ u16_be (fr_flags r) @
       u16_be (fr_kind r) @ u32_be (fr_text r) @ u32_be (fr_vector r) @ u32_be (fr_revises r) @
       u64_be (fr_recorded_at r) @ u64_be (fr_valid_from r) @ u64_be (fr_valid_to r)"

interpretation fr_codec: slot_codec fact_record_slot fact_record_write fact_record_read fact_record_image
  by unfold_locales (simp_all add: fact_record_slot_def fact_record_write_def fact_record_read_def fact_record_image_def codec_simps)

definition fact_aux_image :: "fact_aux \<Rightarrow> bytes" where
  "fact_aux_image r = u32_be (fa_id r) @ handle_to_bytes (fa_tags r) @ u32_be (fa_meta r)"

interpretation fa_codec: slot_codec fact_aux_slot fact_aux_write fact_aux_read fact_aux_image
  by unfold_locales (simp_all add: fact_aux_slot_def fact_aux_write_def fact_aux_read_def fact_aux_image_def codec_simps)

definition entity_record_image :: "entity_record \<Rightarrow> bytes" where
  "entity_record_image r = u32_be (en_id r) @ u32_be (en_name r) @ u32_be (en_name_term r) @
       u64_be (en_created_at r) @ u32_be (en_flags r)"

interpretation en_codec: slot_codec entity_record_slot entity_record_write entity_record_read entity_record_image
  by unfold_locales (simp_all add: entity_record_slot_def entity_record_write_def entity_record_read_def entity_record_image_def codec_simps)

definition entity_by_name_image :: "entity_by_name \<Rightarrow> bytes" where
  "entity_by_name_image r = u32_be (bn_name_term r) @ u32_be (bn_id r)"

interpretation bn_codec: slot_codec entity_by_name_slot entity_by_name_write entity_by_name_read entity_by_name_image
  by unfold_locales (simp_all add: entity_by_name_slot_def entity_by_name_write_def entity_by_name_read_def entity_by_name_image_def codec_simps)

definition edge_slot_image :: "edge_slot \<Rightarrow> bytes" where
  "edge_slot_image r = u32_be (es_a r) @ u32_be (es_rel r) @ u32_be (es_b r) @ u32_be (es_fact r) @
       u32_be (es_edge r) @ u64_be (es_valid_from r)"

interpretation es_codec: slot_codec edge_slot_slot edge_slot_write edge_slot_read edge_slot_image
  by unfold_locales (simp_all add: edge_slot_slot_def edge_slot_write_def edge_slot_read_def edge_slot_image_def codec_simps)

definition edge_history_slot_image :: "edge_history_slot \<Rightarrow> bytes" where
  "edge_history_slot_image r = u32_be (eh_a r) @ u64_be (eh_valid_from r) @ u32_be (eh_edge r) @
       u32_be (eh_rel r) @ u32_be (eh_b r) @ u32_be (eh_fact r) @ u16_be (eh_flags r) @
       u16_be (eh_kind r) @ u64_be (eh_recorded_at r) @ u64_be (eh_valid_to r)"

interpretation eh_codec: slot_codec edge_history_slot_slot edge_history_slot_write edge_history_slot_read edge_history_slot_image
  by unfold_locales (simp_all add: edge_history_slot_slot_def edge_history_slot_write_def edge_history_slot_read_def edge_history_slot_image_def codec_simps)

definition temporal_slot_image :: "temporal_slot \<Rightarrow> bytes" where
  "temporal_slot_image r = u64_be (ts_recorded_at r) @ u32_be (ts_fact r)"

interpretation ts_codec: slot_codec temporal_slot_slot temporal_slot_write temporal_slot_read temporal_slot_image
  by unfold_locales
    (simp_all add: temporal_slot_slot_def temporal_slot_write_def temporal_slot_read_def temporal_slot_image_def
      write_pair_def read_pair_def codec_simps)

section \<open>What the layouts and keys guarantee\<close>

text \<open>
  All seven record layouts are lossless: a record written into any buffer of its slot size
  reads back equal, and every buffer of that size is what some record writes.
\<close>

theorem record_layouts_lossless:
  "lossless fact_record_slot fact_record_write fact_record_read \<and>
   lossless fact_aux_slot fact_aux_write fact_aux_read \<and>
   lossless entity_record_slot entity_record_write entity_record_read \<and>
   lossless entity_by_name_slot entity_by_name_write entity_by_name_read \<and>
   lossless edge_slot_slot edge_slot_write edge_slot_read \<and>
   lossless edge_history_slot_slot edge_history_slot_write edge_history_slot_read \<and>
   lossless temporal_slot_slot temporal_slot_write temporal_slot_read"
  by (intro conjI fr_codec.layout_lossless fa_codec.layout_lossless en_codec.layout_lossless
      bn_codec.layout_lossless es_codec.layout_lossless eh_codec.layout_lossless ts_codec.layout_lossless)

lemma edge_key_eq: "edge_key a rel b = Some (u32_be a @ u32_be rel @ u32_be b)"
  by (simp add: edge_key_def layout_simps)

lemma edge_history_key_eq: "edge_history_key a vf e = Some (u32_be a @ u64_be vf @ u32_be e)"
  by (simp add: edge_history_key_def layout_simps)

lemma saturating_succ_less: "x < saturating_succ y \<longleftrightarrow> x \<le> y \<and> x \<noteq> - 1" for x y :: "'a::len word"
proof (cases "y = - 1")
  case True
  then show ?thesis by (auto simp: saturating_succ_def order_less_le)
next
  case False
  then have "1 + y \<noteq> 0"
    by (metis add.commute eq_neg_iff_add_eq_0)
  then have "unat (y + 1) = Suc (unat y)"
    using unatSuc [of y] by (simp add: add.commute)
  then have "x < y + 1 \<longleftrightarrow> x \<le> y"
    by (simp add: word_less_nat_alt word_le_nat_alt less_Suc_eq_le)
  moreover have "x \<le> y \<Longrightarrow> x \<noteq> - 1" using False by (metis word_order.extremum_unique)
  ultimately show ?thesis using False by (auto simp: saturating_succ_def)
qed

lemma u32_be_le [simp]: "u32_be a \<le> u32_be b \<longleftrightarrow> a \<le> b"
  by (simp add: not_less [symmetric])

lemma u64_be_le [simp]: "u64_be a \<le> u64_be b \<longleftrightarrow> a \<le> b"
  by (simp add: not_less [symmetric])

lemma append_le_append:
  fixes xs :: "'a::linorder list"
  shows "length xs = length ys \<Longrightarrow> xs @ us \<le> ys @
       vs \<longleftrightarrow> xs < ys \<or> xs = ys \<and> us \<le> vs"
  using append_less_append [of ys xs vs us] by (auto simp: not_less [symmetric])

lemma NONE_max: "NONE_U32 = - 1"
  by (simp add: NONE_U32_def)

lemma OPEN_max: "VALID_TO_OPEN = - 1"
  by (simp add: VALID_TO_OPEN_def)

text \<open>
  A neighbour scan reads exactly the edges of its entity. The bounds \<open>edge_floor a\<close> and
  \<open>edge_end a\<close> enclose the key of an edge slot exactly when its first component is \<open>a\<close>, for
  every \<open>a\<close> but the sentinel, whose scan is empty; and that key is the first 12 bytes the slot
  writes.
\<close>

theorem edge_scan_exact:
  "\<exists>lo hi. edge_floor a = Some lo \<and> edge_end a = Some hi \<and>
     (\<forall>s. \<exists>bs. edge_slot_write s (replicate 28 0) = Some bs \<and>
        edge_key (es_a s) (es_rel s) (es_b s) = Some (take (KEY_LEN edge_slot_slot) bs) \<and>
        (lo \<le> take (KEY_LEN edge_slot_slot) bs \<and> take (KEY_LEN edge_slot_slot) bs < hi
          \<longleftrightarrow> es_a s = a \<and> a \<noteq> NONE_U32))"
proof -
  have img: "edge_slot_write s (replicate 28 0) = Some (edge_slot_image s)" for s
    by (rule es_codec.write_fills) (simp add: edge_slot_slot_def)
  have key: "take 12 (edge_slot_image s) = u32_be (es_a s) @ u32_be (es_rel s) @ u32_be (es_b s)" for s
    by (simp add: edge_slot_image_def)
  show ?thesis
    by (auto simp: edge_floor_def edge_end_def edge_key_eq img key edge_slot_slot_def append_le_append
        append_less_append saturating_succ_less NONE_max)
      (auto simp: saturating_succ_def word_gt_0 split: if_splits)
qed

text \<open>
  A history scan at time \<open>t\<close> misses no valid version. The bounds enclose exactly the versions
  of entity \<open>a\<close> that became true at or before \<open>t\<close> (the one exception, \<open>valid_from = u64::MAX\<close>, is
  valid at no instant), and every version of \<open>a\<close> active at \<open>t\<close> is among them.
\<close>

theorem history_scan_complete:
  "\<exists>lo hi. edge_history_floor a = Some lo \<and> edge_history_ceiling a t = Some hi \<and>
     (\<forall>r. \<exists>bs. edge_history_slot_write r (replicate 48 0) = Some bs \<and>
        edge_history_key (eh_a r) (eh_valid_from r) (eh_edge r) = Some (take (KEY_LEN edge_history_slot_slot) bs) \<and>
        (let k = take (KEY_LEN edge_history_slot_slot) bs in
          (lo \<le> k \<and> k < hi \<longleftrightarrow> eh_a r = a \<and> eh_valid_from r \<le> t \<and> eh_valid_from r \<noteq> VALID_TO_OPEN) \<and>
          (eh_a r = a \<and> edge_active_at r t \<longrightarrow> lo \<le> k \<and> k < hi)))"
proof -
  have img: "edge_history_slot_write r (replicate 48 0) = Some (edge_history_slot_image r)" for r
    by (rule eh_codec.write_fills) (simp add: edge_history_slot_slot_def)
  have key: "take 16 (edge_history_slot_image r) = u32_be (eh_a r) @ u64_be (eh_valid_from r) @
       u32_be (eh_edge r)" for r
    by (simp add: edge_history_slot_image_def)
  let ?key = "\<lambda>r. take 16 (edge_history_slot_image r)"
  let ?lo = "u32_be a @ u64_be 0 @ u32_be 0" and ?hi = "u32_be a @ u64_be (saturating_succ t) @ u32_be 0"
  have range: "?lo \<le> ?key r \<and> ?key r < ?hi \<longleftrightarrow> eh_a r = a \<and> eh_valid_from r \<le> t \<and> eh_valid_from r \<noteq> VALID_TO_OPEN"
    for r
    unfolding key
    by (auto simp: append_le_append append_less_append saturating_succ_less OPEN_max word_gt_0)
  have active: "eh_valid_from r \<le> t \<and> eh_valid_from r \<noteq> VALID_TO_OPEN" if "edge_active_at r t" for r
    using that word_order.extremum_strict unfolding edge_active_at_def OPEN_max
    by (metis order_le_less_trans)
  have "edge_history_floor a = Some ?lo" "edge_history_ceiling a t = Some ?hi"
    by (simp_all add: edge_history_floor_def edge_history_ceiling_def edge_history_key_eq)
  moreover have "edge_history_key (eh_a r) (eh_valid_from r) (eh_edge r) = Some (?key r)" for r
    unfolding key by (rule edge_history_key_eq)
  moreover have "eh_a r = a \<and> edge_active_at r t \<longrightarrow> ?lo \<le> ?key r \<and> ?key r < ?hi" for r
    using range active by blast
  ultimately show ?thesis
    using img range unfolding edge_history_slot_slot_def slot_type.simps Let_def by blast
qed

text \<open>A version valid over \<open>[5, 9)\<close> is found by the scan at 7.\<close>

theorem history_scan_complete_witness:
  defines "r \<equiv> \<lparr>eh_a = 3, eh_rel = 1, eh_b = 4, eh_edge = 0, eh_fact = 0, eh_flags = 0,
       eh_kind = 0,
    eh_recorded_at = 5, eh_valid_from = 5, eh_valid_to = 9\<rparr>"
  shows "\<exists>lo hi k. edge_history_floor 3 = Some lo \<and> edge_history_ceiling 3 7 = Some hi \<and>
    edge_history_key 3 5 0 = Some k \<and> lo \<le> k \<and> k < hi"
proof -
  have "edge_active_at r 7" by (simp add: edge_active_at_def r_def)
  with history_scan_complete [of 3 7] show ?thesis
    by (auto simp: Let_def r_def dest!: spec [of _ "r"])
qed

text \<open>
  Closing an edge version in place. On the bytes after the key of any stored version, the
  patch writes what storing the version with its \<open>CLOSED\<close> flag set and \<open>valid_to = t\<close> would
  write, and touches nothing else; the version is then active exactly on \<open>[valid_from, t)\<close>.
\<close>

theorem close_edge_history_exact:
  "\<exists>bs payload. edge_history_slot_write r (replicate 48 0) = Some bs \<and>
     close_edge_history_payload (drop (KEY_LEN edge_history_slot_slot) bs) t = Some payload \<and>
     edge_history_slot_read (take (KEY_LEN edge_history_slot_slot) bs @ payload) =
       Some (r\<lparr>eh_flags := eh_flags r OR EDGE_CLOSED, eh_valid_to := t\<rparr>) \<and>
     (\<forall>u. edge_active_at (r\<lparr>eh_flags := eh_flags r OR EDGE_CLOSED, eh_valid_to := t\<rparr>) u
        \<longleftrightarrow> eh_valid_from r \<le> u \<and> u < t)"
proof -
  let ?r = "r\<lparr>eh_flags := eh_flags r OR EDGE_CLOSED, eh_valid_to := t\<rparr>"
  have img: "edge_history_slot_write r (replicate 48 0) = Some (edge_history_slot_image r)"
    by (rule eh_codec.write_fills) (simp add: edge_history_slot_slot_def)
  have "close_edge_history_payload (drop 16 (edge_history_slot_image r)) t = Some (drop 16 (edge_history_slot_image ?r))"
    by (simp add: edge_history_slot_image_def close_edge_history_payload_def layout_simps)
  moreover have "take 16 (edge_history_slot_image r) = take 16 (edge_history_slot_image ?r)"
    by (simp add: edge_history_slot_image_def)
  ultimately show ?thesis
    using img eh_codec.read_image [of ?r] by (simp add: edge_history_slot_slot_def edge_active_at_def)
qed


end
