(* ===== verification/Page_Slots.thy ===== *)
theory Page_Slots
  imports Paged Rust_Std
begin

text \<open>
  The slots of one arena page (\<open>crates/plugmem-arena/src/arena.rs\<close>): the shifts that insert
  and remove a slot in place, and the binary search over the occupied prefix. A page whose
  first \<open>n\<close> slots are occupied is read as the list \<open>page_slots\<close> of slot images; bytes past
  them are never looked at (they may be uninitialised).
\<close>

section \<open>Operations\<close>

definition slots_per_page :: "slot_type \<Rightarrow> nat" where
  "slots_per_page T = PAGE_BYTES div SIZE T"

text \<open>\<open>[u8]::cmp\<close>.\<close>

definition cmp_bytes :: "bytes \<Rightarrow> bytes \<Rightarrow> ordering" where
  "cmp_bytes a b = (if a < b then Less else if a = b then Equal else Greater)"

text \<open>
  The binary search: \<open>Inr mid\<close> is the code's \<open>Ok(mid)\<close>, \<open>Inl lo\<close> its \<open>Err(lo)\<close>.
\<close>

function search_loop :: "slot_type \<Rightarrow> bytes \<Rightarrow> bytes \<Rightarrow> nat \<Rightarrow> nat \<Rightarrow> nat + nat" where
  "search_loop T page key lo hi =
     (if lo < hi
      then let mid = lo + (hi - lo) div 2; off = mid * SIZE T in
        case cmp_bytes (slice page off (off + KEY_LEN T)) key of
          Less \<Rightarrow> search_loop T page key (mid + 1) hi
        | Greater \<Rightarrow> search_loop T page key lo mid
        | Equal \<Rightarrow> Inr mid
      else Inl lo)"
  by pat_completeness auto
termination
  by (relation "measure (\<lambda>(T, page, key, lo, hi). hi - lo)") auto

declare search_loop.simps [simp del]

definition search :: "slot_type \<Rightarrow> bytes \<Rightarrow> nat \<Rightarrow> bytes \<Rightarrow> nat + nat" where
  "search T page count key = search_loop T page key 0 count"

text \<open>What \<open>insert_bytes\<close> and \<open>remove\<close> do to the bytes of the page they hit.\<close>

definition page_insert :: "slot_type \<Rightarrow> nat \<Rightarrow> nat \<Rightarrow> bytes \<Rightarrow> bytes \<Rightarrow> bytes" where
  "page_insert T pos count slot page =
     (let slot_start = pos * SIZE T; used_end = count * SIZE T; shifted = used_end - slot_start;
          page = (if 0 < shifted then copy_within page slot_start used_end (slot_start + SIZE T) else page)
      in splice page slot_start slot)"

definition page_remove :: "slot_type \<Rightarrow> nat \<Rightarrow> nat \<Rightarrow> bytes \<Rightarrow> bytes" where
  "page_remove T pos count page =
     (let slot_start = pos * SIZE T; used_end = count * SIZE T; tail = used_end - (slot_start + SIZE T)
      in if 0 < tail then copy_within page (slot_start + SIZE T) used_end slot_start else page)"

section \<open>The occupied slots of a page\<close>

definition page_slots :: "nat \<Rightarrow> nat \<Rightarrow> bytes \<Rightarrow> bytes list" where
  "page_slots sz n page = map (\<lambda>i. slice page (i * sz) (i * sz + sz)) [0..<n]"

lemma length_page_slots [simp]: "length (page_slots sz n page) = n"
  by (simp add: page_slots_def)

lemma page_slots_nth: "i < n \<Longrightarrow> page_slots sz n page ! i = slice page (i * sz) (i * sz + sz)"
  by (simp add: page_slots_def)

lemma page_slots_0 [simp]: "page_slots sz 0 page = []"
  by (simp add: page_slots_def)

lemma page_slots_size:
  assumes "n * sz \<le> length page" and "s \<in> set (page_slots sz n page)"
  shows "length s = sz"
proof -
  from assms(2) obtain i where i: "i < n" and s: "s = slice page (i * sz) (i * sz + sz)"
    by (auto simp: page_slots_def)
  from chunk_in_range_mult [OF i, of sz] assms(1) s show ?thesis by simp
qed

text \<open>A page is the concatenation of its slots and a rest nobody reads.\<close>

lemma page_slots_concat:
  assumes "\<And>s. s \<in> set xs \<Longrightarrow> length s = sz"
  shows "page_slots sz (length xs) (concat xs @ rest) = xs"
proof (rule nth_equalityI)
  fix i assume "i < length (page_slots sz (length xs) (concat xs @ rest))"
  then have i: "i < length xs" by simp
  have "length (concat xs) = length xs * sz" using assms by (rule length_concat_const)
  then have "i * sz + sz \<le> length (concat xs)" using chunk_in_range_mult [OF i, of sz] by simp
  then have "slice (concat xs @ rest) (i * sz) (i * sz + sz) = slice (concat xs) (i * sz) (i * sz + sz)"
    by (rule slice_append_left)
  also have "\<dots> = xs ! i" using assms i by (rule slice_concat_const)
  finally show "page_slots sz (length xs) (concat xs @ rest) ! i = xs ! i"
    using i by (simp add: page_slots_nth)
qed simp

lemma concat_page_slots: "n * sz \<le> length page \<Longrightarrow> concat (page_slots sz n page) = take (n * sz) page"
proof (induction n)
  case (Suc n)
  then have "concat (page_slots sz n page) = take (n * sz) page" by simp
  moreover have "page_slots sz (Suc n) page = page_slots sz n page @ [slice page (n * sz) (n * sz + sz)]"
    by (simp add: page_slots_def)
  ultimately show ?case
    using slice_join [of 0 "n * sz" "n * sz + sz" page] by (simp add: slice_0_take add.commute)
qed simp

lemma page_split:
  assumes "n * sz \<le> length page"
  shows "page = concat (page_slots sz n page) @ drop (n * sz) page"
  using assms by (simp add: concat_page_slots)

lemma page_slots_take: "m \<le> n \<Longrightarrow> page_slots sz m page = take m (page_slots sz n page)"
  by (simp add: page_slots_def take_map)

text \<open>Only the occupied prefix of a page matters.\<close>

lemma page_slots_cong:
  "n * sz \<le> length page \<Longrightarrow> take (n * sz) page = take (n * sz) page' \<Longrightarrow> n * sz \<le> length page' \<Longrightarrow>
     page_slots sz n page = page_slots sz n page'"
proof -
  assume l: "n * sz \<le> length page" and eq: "take (n * sz) page = take (n * sz) page'" and "n * sz \<le> length page'"
  have "slice page (i * sz) (i * sz + sz) = slice page' (i * sz) (i * sz + sz)" if "i < n" for i
  proof -
    have "i * sz + sz \<le> n * sz" using chunk_in_range_mult [OF that] .
    then have "slice p (i * sz) (i * sz + sz) = slice (take (n * sz) p) (i * sz) (i * sz + sz)" for p
      by (simp add: slice_def min_absorb1)
    with eq show ?thesis by metis
  qed
  then show ?thesis by (simp add: page_slots_def)
qed

section \<open>Shifts\<close>

lemma page_insert_slots:
  assumes sz: "0 < SIZE T" and fits: "(count + 1) * SIZE T \<le> length page" and pos: "pos \<le> count"
    and slot: "length slot = SIZE T"
  defines "xs \<equiv> page_slots (SIZE T) count page"
  shows "length (page_insert T pos count slot page) = length page"
    and "page_slots (SIZE T) (count + 1) (page_insert T pos count slot page) = take pos xs @ slot # drop pos xs"
proof -
  let ?sz = "SIZE T" and ?us = "take pos xs" and ?vs = "drop pos xs"
  have lx: "length s = ?sz" if "s \<in> set xs" for s
    using page_slots_size [of count ?sz page s] that fits by (simp add: xs_def)
  have page: "page = concat ?us @ concat ?vs @ drop (count * ?sz) page"
    using page_split [of count ?sz page] fits
    by (simp add: xs_def flip: concat_append append_assoc)
  have lu: "length (concat ?us) = pos * ?sz"
    using pos lx by (subst length_concat_const [where n = ?sz]) (auto simp: xs_def dest: in_set_takeD)
  have lv: "length (concat ?vs) = count * ?sz - pos * ?sz"
    using pos lx by (subst length_concat_const [where n = ?sz]) (auto simp: xs_def diff_mult_distrib dest: in_set_dropD)
  have pc: "pos * ?sz \<le> count * ?sz" using pos by simp
  obtain rest where new: "page_insert T pos count slot page = concat (?us @ slot # ?vs) @ rest"
    and len: "length (page_insert T pos count slot page) = length page"
  proof (cases "pos = count")
    case True
    then have "page_insert T pos count slot page = concat ?us @ slot @ drop (pos * ?sz + ?sz) page"
      using slot fits by (simp add: page_insert_def Let_def splice_def xs_def concat_page_slots)
    moreover have "length (page_insert T pos count slot page) = length page"
      using True fits slot by (simp add: page_insert_def Let_def add.commute)
    ultimately show thesis using that True by (simp add: xs_def)
  next
    case False
    then have lt: "pos * ?sz < count * ?sz" using pos sz by simp
    let ?mid = "concat ?vs"
    have sl: "slice page (pos * ?sz) (count * ?sz) = ?mid"
      using lu lv pc by (subst page) (rule slice_append_mid, simp_all)
    have fits': "pos * ?sz + ?sz + length ?mid \<le> length page" using lv pc fits by (simp add: add.commute)
    have cw: "copy_within page (pos * ?sz) (count * ?sz) (pos * ?sz + ?sz)
        = take (pos * ?sz + ?sz) page @ ?mid @ drop (count * ?sz + ?sz) page"
      using sl lv pc by (simp add: copy_within_def splice_def add.commute add.left_commute)
    have t: "take (pos * ?sz) page = concat ?us" using lu by (subst page) simp
    have ltk: "length (take (pos * ?sz + ?sz) page) = pos * ?sz + ?sz" using fits' by simp
    have ins: "page_insert T pos count slot page
        = splice (take (pos * ?sz + ?sz) page @ ?mid @ drop (count * ?sz + ?sz) page) (pos * ?sz) slot"
      using lt by (simp add: page_insert_def Let_def cw)
    also have "\<dots> = concat ?us @ slot @ ?mid @ drop (count * ?sz + ?sz) page"
      using ltk t slot fits' by (simp add: splice_def min_absorb1)
    finally have new: "page_insert T pos count slot page = concat ?us @ slot @ ?mid @ drop (count * ?sz + ?sz) page" .
    moreover have "length (page_insert T pos count slot page) = length page"
      using pc fits unfolding new length_append lu lv slot length_drop add_mult_distrib by linarith
    ultimately have "page_insert T pos count slot page = concat (?us @ slot # ?vs) @ drop (count * ?sz + ?sz) page"
      "length (page_insert T pos count slot page) = length page" by simp_all
    then show thesis using that by blast
  qed
  show "length (page_insert T pos count slot page) = length page" by (rule len)
  have "length (?us @ slot # ?vs) = count + 1" using pos by (simp add: xs_def)
  then show "page_slots ?sz (count + 1) (page_insert T pos count slot page) = ?us @ slot # ?vs"
    unfolding new using lx slot page_slots_concat [of "?us @ slot # ?vs" ?sz rest]
    by (auto dest: in_set_takeD in_set_dropD)
qed

lemma page_remove_slots:
  assumes sz: "0 < SIZE T" and fits: "count * SIZE T \<le> length page" and pos: "pos < count"
  defines "xs \<equiv> page_slots (SIZE T) count page"
  shows "length (page_remove T pos count page) = length page"
    and "page_slots (SIZE T) (count - 1) (page_remove T pos count page) = take pos xs @ drop (Suc pos) xs"
proof -
  let ?sz = "SIZE T" and ?us = "take pos xs" and ?vs = "drop (Suc pos) xs"
  have lx: "length s = ?sz" if "s \<in> set xs" for s
    using page_slots_size [of count ?sz page s] that fits by (simp add: xs_def)
  have xs: "xs = ?us @ xs ! pos # ?vs" using pos by (simp add: xs_def id_take_nth_drop)
  have page: "page = concat ?us @ xs ! pos @ concat ?vs @ drop (count * ?sz) page"
    using page_split [of count ?sz page] fits concat_eq_split [of pos xs] pos by (simp add: xs_def)
  have lu: "length (concat ?us) = pos * ?sz"
    using pos lx by (subst length_concat_const [where n = ?sz]) (auto simp: xs_def dest: in_set_takeD)
  have lp: "length (xs ! pos) = ?sz" using lx pos by (simp add: xs_def)
  have lv: "length (concat ?vs) = count * ?sz - (pos * ?sz + ?sz)"
    using pos lx by (subst length_concat_const [where n = ?sz])
      (auto simp: xs_def diff_mult_distrib add.commute dest: in_set_dropD)
  have pc: "pos * ?sz + ?sz \<le> count * ?sz" using chunk_in_range_mult [OF pos] .
  obtain rest where new: "page_remove T pos count page = concat (?us @ ?vs) @ rest"
    and len: "length (page_remove T pos count page) = length page"
  proof (cases "?vs = []")
    case True
    then have "count * ?sz - (pos * ?sz + ?sz) = 0" using lv by simp
    then have "page_remove T pos count page = page" by (simp add: page_remove_def Let_def)
    with True page that show thesis by fastforce
  next
    case False
    then have "Suc pos < count" by (simp add: xs_def)
    then have "Suc pos * ?sz < count * ?sz" using sz by (rule mult_less_mono1)
    then have True: "0 < count * ?sz - (pos * ?sz + ?sz)" by simp
    have sl: "slice page (pos * ?sz + ?sz) (count * ?sz) = concat ?vs"
    proof -
      have "page = (concat ?us @ xs ! pos) @ concat ?vs @ drop (count * ?sz) page" using page by simp
      then show ?thesis using lu lp lv pc by (metis le_add_diff_inverse length_append slice_append_mid)
    qed
    have rm: "page_remove T pos count page = splice page (pos * ?sz) (concat ?vs)"
      using True sl by (simp add: page_remove_def Let_def copy_within_def)
    have "take (pos * ?sz) page = concat ?us" using lu by (subst page) simp
    then have "page_remove T pos count page = concat (?us @ ?vs) @ drop (pos * ?sz + length (concat ?vs)) page"
      unfolding rm by (simp add: splice_def)
    moreover have "length (page_remove T pos count page) = length page"
      unfolding rm using lv pc fits by (intro length_splice) simp
    ultimately show thesis by (rule that)
  qed
  show "length (page_remove T pos count page) = length page" by (rule len)
  have "length (?us @ ?vs) = count - 1" using pos by (simp add: xs_def)
  then show "page_slots ?sz (count - 1) (page_remove T pos count page) = ?us @ ?vs"
    unfolding new using lx page_slots_concat [of "?us @ ?vs" ?sz rest]
    by (auto dest: in_set_takeD in_set_dropD)
qed

text \<open>Overwriting one slot in place.\<close>

lemma page_slots_update:
  assumes fits: "n * sz \<le> length page" and i: "i < n" and "length slot = sz"
  shows "page_slots sz n (splice page (i * sz) slot) = (page_slots sz n page)[i := slot]"
proof (cases "sz = 0")
  case True
  with assms show ?thesis
    by (intro nth_equalityI) (auto simp: page_slots_nth nth_list_update splice_def)
next
  case False
  have "j * sz + sz \<le> length page" if "j < n" for j
    using chunk_in_range_mult [OF that, of sz] fits by simp
  then show ?thesis
    using False assms(3) i
    by (intro nth_equalityI) (auto simp: page_slots_nth nth_list_update slice_chunk_splice)
qed

section \<open>Binary search\<close>

definition slot_key :: "slot_type \<Rightarrow> bytes \<Rightarrow> bytes" where
  "slot_key T s = take (KEY_LEN T) s"

text \<open>The two answers of a search over a list of keys.\<close>

definition search_ok :: "bytes list \<Rightarrow> bytes \<Rightarrow> nat + nat \<Rightarrow> bool" where
  "search_ok ks key r \<longleftrightarrow> (case r of
      Inr m \<Rightarrow> m < length ks \<and> ks ! m = key
    | Inl p \<Rightarrow> p \<le> length ks \<and> (\<forall>i < p. ks ! i < key) \<and> (\<forall>i < length ks. p \<le> i \<longrightarrow> key < ks ! i))"

abbreviation page_keys :: "slot_type \<Rightarrow> nat \<Rightarrow> bytes \<Rightarrow> bytes list" where
  "page_keys T n page \<equiv> map (slot_key T) (page_slots (SIZE T) n page)"

lemma page_key_nth:
  "i < n \<Longrightarrow> KEY_LEN T \<le> SIZE T \<Longrightarrow>
     slice page (i * SIZE T) (i * SIZE T + KEY_LEN T) = page_keys T n page ! i"
  by (simp add: page_slots_nth slot_key_def take_slice)

lemma search_loop_ok:
  assumes T: "KEY_LEN T \<le> SIZE T" and sorted: "sorted_wrt (<) (page_keys T n page)"
  shows "lo \<le> hi \<Longrightarrow> hi \<le> n \<Longrightarrow> (\<forall>i < lo. page_keys T n page ! i < key) \<Longrightarrow>
    (\<forall>i < n. hi \<le> i \<longrightarrow> key < page_keys T n page ! i) \<Longrightarrow>
    search_ok (page_keys T n page) key (search_loop T page key lo hi)"
proof (induction "hi - lo" arbitrary: lo hi rule: less_induct)
  case less
  let ?ks = "page_keys T n page"
  have mono: "?ks ! i < ?ks ! j" if "i < j" "j < n" for i j
    using sorted_wrt_nth_less [OF sorted that(1)] that(2) by simp
  show ?case
  proof (cases "lo < hi")
    case False
    then have "search_loop T page key lo hi = Inl lo" by (simp add: search_loop.simps)
    with less.prems False show ?thesis by (simp add: search_ok_def)
  next
    case True
    define mid where "mid = lo + (hi - lo) div 2"
    have mid: "lo \<le> mid" "mid < hi" "mid < n" using True less.prems(2) by (auto simp: mid_def)
    have at: "slice page (mid * SIZE T) (mid * SIZE T + KEY_LEN T) = ?ks ! mid"
      using mid T by (intro page_key_nth)
    note step = search_loop.simps [of T page key lo hi, unfolded Let_def, folded mid_def, unfolded at]
    consider "?ks ! mid < key" | "?ks ! mid = key" | "key < ?ks ! mid" by (rule linorder_cases)
    then show ?thesis
    proof cases
      case 1
      have "search_ok ?ks key (search_loop T page key (mid + 1) hi)"
      proof (rule less.hyps)
        show "\<forall>i < mid + 1. ?ks ! i < key"
        proof (intro allI impI)
          fix i assume "i < mid + 1"
          then have "i = mid \<or> ?ks ! i < ?ks ! mid" using mono [of i mid] mid by (cases "i = mid") auto
          with 1 order_less_trans [of "?ks ! i" "?ks ! mid" key] show "?ks ! i < key"
            by (auto simp del: nth_map)
        qed
      qed (use mid less.prems in auto)
      moreover have "search_loop T page key lo hi = search_loop T page key (mid + 1) hi"
        using 1 True by (subst step) (simp add: cmp_bytes_def del: nth_map)
      ultimately show ?thesis by simp
    next
      case 2
      then have "search_loop T page key lo hi = Inr mid"
        using True by (subst step) (simp add: cmp_bytes_def del: nth_map)
      with 2 mid show ?thesis by (simp add: search_ok_def del: nth_map)
    next
      case 3
      have "search_ok ?ks key (search_loop T page key lo mid)"
      proof (rule less.hyps)
        show "\<forall>i < n. mid \<le> i \<longrightarrow> key < ?ks ! i"
        proof (intro allI impI)
          fix i assume "i < n" "mid \<le> i"
          then have "i = mid \<or> ?ks ! mid < ?ks ! i" using mono [of mid i] by (cases "i = mid") auto
          with 3 order_less_trans [of key "?ks ! mid" "?ks ! i"] show "key < ?ks ! i"
            by (auto simp del: nth_map)
        qed
      qed (use mid less.prems in auto)
      moreover have "\<not> ?ks ! mid < key" "?ks ! mid \<noteq> key" using 3 by auto
      then have "search_loop T page key lo hi = search_loop T page key lo mid"
        using True by (subst step) (simp add: cmp_bytes_def del: nth_map)
      ultimately show ?thesis by simp
    qed
  qed
qed

lemma search_correct:
  assumes "KEY_LEN T \<le> SIZE T" and "sorted_wrt (<) (page_keys T n page)"
  shows "search_ok (page_keys T n page) key (search T page n key)"
  unfolding search_def by (rule search_loop_ok [OF assms]) auto

text \<open>An insertion at the answered position keeps the keys ascending.\<close>

lemma sorted_insert_at:
  assumes "sorted_wrt (<) (xs :: bytes list)" and "search_ok xs k (Inl p)"
  shows "sorted_wrt (<) (take p xs @ k # drop p xs)"
proof -
  have p: "p \<le> length xs" and below: "\<forall>i < p. xs ! i < k" and above: "\<forall>i < length xs. p \<le> i \<longrightarrow> k < xs ! i"
    using assms(2) by (auto simp: search_ok_def)
  have "x < k" if "x \<in> set (take p xs)" for x
    using that below p by (auto simp: in_set_conv_nth)
  moreover have "k < x" if "x \<in> set (drop p xs)" for x
    using that above p by (auto simp: in_set_conv_nth)
  moreover have "sorted_wrt (<) (take p xs @ drop p xs)" using assms(1) by simp
  ultimately show ?thesis
    by (auto simp: sorted_wrt_append simp del: append_take_drop_id)
qed

end
