(* ===== verification/Arena.thy ===== *)
theory Arena
  imports Page_Slots Chains Arena_Error Rust_Std
begin

text \<open>
  The sharded sorted arena of \<open>crates/plugmem-arena/src/arena.rs\<close>: a map from fixed-width keys
  to fixed-size slots, kept as chains of sorted 4 KiB pages with a flat page directory for the
  lookup. This theory holds the state and every operation (insert with page splits, lookup,
  in-place payload update, remove with page recycling, the three iterators, the dumps and the
  validating load). Their correctness is in the theories \<open>Arena_Rep\<close> to \<open>Arena_Load\<close>.

  The record type is the argument \<open>T\<close> (\<open>Slot::SIZE\<close>, \<open>Slot::KEY_LEN\<close>) with its \<open>wr\<close> and \<open>rd\<close>. The
  content of a freshly grown page is uninitialised in the code; it is the argument \<open>junk\<close> here,
  so what is proved holds whatever it is. The scratch buffers and the feature-gated work counters
  are not part of the state. An index the code's own bookkeeping keeps in range is written \<open>xs ! i\<close>.
\<close>

section \<open>State\<close>

datatype shard_mode = Uniform | Ordered

record arena_cfg =
  ac_shards :: nat
  ac_max_bytes :: nat
  ac_mode :: shard_mode

definition arena_cfg_new :: "nat \<Rightarrow> shard_mode \<Rightarrow> arena_cfg" where
  "arena_cfg_new shards mode = \<lparr>ac_shards = shards, ac_max_bytes = usize_max, ac_mode = mode\<rparr>"

definition DIR_KEY_BYTES :: nat where
  "DIR_KEY_BYTES = 16"

definition FIB :: u64 where
  "FIB = 11400714819323198485"

record page_entry =
  pe_key :: bytes
  pe_page :: u32

definition pending :: "u32 \<Rightarrow> page_entry" where
  "pending page = \<lparr>pe_key = replicate DIR_KEY_BYTES 0, pe_page = page\<rparr>"

record target =
  tg_prev :: u32
  tg_page :: u32
  tg_at :: nat

record arena =
  ar_pool :: paged
  ar_heads :: "u32 list"
  ar_next :: "u32 list"
  ar_prev :: "u32 list"
  ar_counts :: "u16 list"
  ar_tails :: "u32 list"
  ar_dir :: "page_entry list"
  ar_dir_at :: "u32 list"
  ar_free_head :: u32
  ar_total :: nat
  ar_cfg :: arena_cfg

definition arena_new :: "slot_type \<Rightarrow> arena_cfg \<Rightarrow> arena_error + arena" where
  "arena_new T cfg =
     (if SIZE T = 0 \<or> PAGE_BYTES < SIZE T \<or> KEY_LEN T = 0 \<or> SIZE T < KEY_LEN T
      then Inl (BadSlot (SIZE T) (KEY_LEN T))
      else if ac_shards cfg = 0 \<or> \<not> is_power_of_two (ac_shards cfg)
      then Inl (BadShardCount (ac_shards cfg))
      else Inr \<lparr>ar_pool = owned_empty, ar_heads = replicate (ac_shards cfg) NONE_U32, ar_next = [],
        ar_prev = [], ar_counts = [], ar_tails = replicate (ac_shards cfg) NONE_U32, ar_dir = [],
        ar_dir_at = replicate (ac_shards cfg + 1) 0, ar_free_head = NONE_U32, ar_total = 0,
        ar_cfg = cfg\<rparr>)"

definition arena_len :: "arena \<Rightarrow> nat" where
  "arena_len a = ar_total a"

definition arena_is_empty :: "arena \<Rightarrow> bool" where
  "arena_is_empty a \<longleftrightarrow> ar_total a = 0"

definition arena_pool_bytes :: "arena \<Rightarrow> nat" where
  "arena_pool_bytes a = paged_len (ar_pool a)"

section \<open>Shards\<close>

definition shard_of :: "arena_cfg \<Rightarrow> bytes \<Rightarrow> nat" where
  "shard_of cfg key =
     (let n = min (length key) 8; pad = splice (replicate 8 0) 0 (take n key); v = u64_of_be pad;
          bits = trailing_zeros (ac_shards cfg)
      in if bits = 0 then 0
         else let h = (case ac_mode cfg of Ordered \<Rightarrow> v | Uniform \<Rightarrow> v * FIB)
              in unat (drop_bit (64 - bits) h))"

section \<open>The page directory\<close>

definition ar_page :: "arena \<Rightarrow> u32 \<Rightarrow> bytes" where
  "ar_page a page = page_at PAGE_BYTES (ar_pool a) (unat page)"

definition first_key :: "slot_type \<Rightarrow> arena \<Rightarrow> u32 \<Rightarrow> bytes" where
  "first_key T a page = take (KEY_LEN T) (ar_page a page)"

definition dir_run :: "arena \<Rightarrow> nat \<Rightarrow> nat \<times> nat" where
  "dir_run a shard = (unat (ar_dir_at a ! shard), unat (ar_dir_at a ! (shard + 1)))"

definition dir_cmp :: "slot_type \<Rightarrow> arena \<Rightarrow> page_entry \<Rightarrow> bytes \<Rightarrow> ordering" where
  "dir_cmp T a entry key =
     (let n = min (KEY_LEN T) DIR_KEY_BYTES in
      case cmp_bytes (take n (pe_key entry)) (take n key) of
        Equal \<Rightarrow> if DIR_KEY_BYTES < KEY_LEN T then cmp_bytes (first_key T a (pe_page entry)) key else Equal
      | other \<Rightarrow> other)"

definition is_le :: "ordering \<Rightarrow> bool" where
  "is_le r \<longleftrightarrow> r \<noteq> Greater"

text \<open>The cached copy of a first key, zero-padded.\<close>

definition cached_key :: "slot_type \<Rightarrow> bytes \<Rightarrow> bytes" where
  "cached_key T first =
     (let n = min (KEY_LEN T) DIR_KEY_BYTES in splice (replicate DIR_KEY_BYTES 0) 0 (take n first))"

definition refresh_dir_key :: "slot_type \<Rightarrow> nat \<Rightarrow> arena \<Rightarrow> arena" where
  "refresh_dir_key T at a =
     (let page = pe_page (ar_dir a ! at)
      in a\<lparr>ar_dir := (ar_dir a)[at := (ar_dir a ! at)\<lparr>pe_key := cached_key T (first_key T a page)\<rparr>]\<rparr>)"

text \<open>The runs of the shards after \<open>shard\<close> start one later, or one earlier.\<close>

definition shift_starts :: "(u32 \<Rightarrow> u32) \<Rightarrow> nat \<Rightarrow> u32 list \<Rightarrow> u32 list" where
  "shift_starts f shard starts = take (shard + 1) starts @ map f (drop (shard + 1) starts)"

definition dir_insert :: "nat \<Rightarrow> nat \<Rightarrow> u32 \<Rightarrow> arena \<Rightarrow> arena" where
  "dir_insert shard at page a =
     a\<lparr>ar_dir := take at (ar_dir a) @ pending page # drop at (ar_dir a),
       ar_dir_at := shift_starts (\<lambda>start. start + 1) shard (ar_dir_at a)\<rparr>"

definition dir_remove :: "nat \<Rightarrow> nat \<Rightarrow> arena \<Rightarrow> arena" where
  "dir_remove shard at a =
     a\<lparr>ar_dir := take at (ar_dir a) @ drop (at + 1) (ar_dir a),
       ar_dir_at := shift_starts (\<lambda>start. start - 1) shard (ar_dir_at a)\<rparr>"

function partition_loop :: "slot_type \<Rightarrow> arena \<Rightarrow> bytes \<Rightarrow> nat \<Rightarrow> nat \<Rightarrow> nat" where
  "partition_loop T a key left right =
     (if left < right
      then let mid = left + (right - left) div 2 in
        if is_le (dir_cmp T a (ar_dir a ! mid) key) then partition_loop T a key (mid + 1) right
        else partition_loop T a key left mid
      else left)"
  by pat_completeness auto
termination
  by (relation "measure (\<lambda>(T, a, key, left, right). right - left)") auto

declare partition_loop.simps [simp del]

definition find_page :: "slot_type \<Rightarrow> arena \<Rightarrow> nat \<Rightarrow> bytes \<Rightarrow> target option" where
  "find_page T a shard key =
     (let (lo, hi) = dir_run a shard in
      if lo = hi then None
      else let at = partition_loop T a key (lo + 1) hi - 1
        in Some \<lparr>tg_prev = (if lo < at then pe_page (ar_dir a ! (at - 1)) else NONE_U32),
                 tg_page = pe_page (ar_dir a ! at), tg_at = at\<rparr>)"

section \<open>Lookup\<close>

definition ar_count :: "arena \<Rightarrow> u32 \<Rightarrow> nat" where
  "ar_count a page = unat (ar_counts a ! unat page)"

definition search_in :: "slot_type \<Rightarrow> arena \<Rightarrow> u32 \<Rightarrow> nat \<Rightarrow> bytes \<Rightarrow> nat + nat" where
  "search_in T a page cnt key = search T (ar_page a page) cnt key"

text \<open>The offset of a key's slot; a key of the wrong length panics (outer \<open>None\<close>).\<close>

definition locate :: "slot_type \<Rightarrow> arena \<Rightarrow> bytes \<Rightarrow> nat option option" where
  "locate T a key =
     (if length key \<noteq> KEY_LEN T then None
      else Some (do {
        t \<leftarrow> find_page T a (shard_of (ar_cfg a) key) key;
        (case search_in T a (tg_page t) (ar_count a (tg_page t)) key of
           Inl _ \<Rightarrow> None
         | Inr pos \<Rightarrow> Some (unat (tg_page t) * PAGE_BYTES + pos * SIZE T)) }))"

definition arena_contains :: "slot_type \<Rightarrow> arena \<Rightarrow> bytes \<Rightarrow> bool option" where
  "arena_contains T a key = map_option (\<lambda>off. off \<noteq> None) (locate T a key)"

definition arena_get_slot :: "slot_type \<Rightarrow> arena \<Rightarrow> bytes \<Rightarrow> bytes option option" where
  "arena_get_slot T a key =
     map_option (map_option (\<lambda>off.
       let page = off div PAGE_BYTES; rel = off mod PAGE_BYTES
       in slice (page_at PAGE_BYTES (ar_pool a) page) rel (rel + SIZE T))) (locate T a key)"

definition arena_get :: "slot_type \<Rightarrow> (bytes \<Rightarrow> 'r option) \<Rightarrow> arena \<Rightarrow> bytes \<Rightarrow> 'r option option" where
  "arena_get T rd a key = do {
     off \<leftarrow> locate T a key;
     (case off of
        None \<Rightarrow> Some None
      | Some off \<Rightarrow>
          let page = off div PAGE_BYTES; rel = off mod PAGE_BYTES
          in map_option Some (rd (slice (page_at PAGE_BYTES (ar_pool a) page) rel (rel + SIZE T)))) }"

text \<open>
  \<open>payload_mut\<close> hands out the bytes after the key. \<open>f\<close> is what the caller makes of them
  (it cannot change their number); \<open>None\<close> inside is an absent key.
\<close>

definition arena_payload_mut ::
  "slot_type \<Rightarrow> (bytes \<Rightarrow> bytes) \<Rightarrow> arena \<Rightarrow> bytes \<Rightarrow> arena option option" where
  "arena_payload_mut T f a key =
     map_option (map_option (\<lambda>off.
       let page = off div PAGE_BYTES; rel = off mod PAGE_BYTES
       in a\<lparr>ar_pool := page_mut PAGE_BYTES page
              (\<lambda>b. splice b (rel + KEY_LEN T) (f (slice b (rel + KEY_LEN T) (rel + SIZE T)))) (ar_pool a)\<rparr>))
       (locate T a key)"

section \<open>Insert\<close>

definition alloc_page :: "bytes \<Rightarrow> arena \<Rightarrow> arena_error + u32 \<times> arena" where
  "alloc_page junk a =
     (if ar_free_head a \<noteq> NONE_U32
      then let page = ar_free_head a; p = unat page in
        Inr (page, a\<lparr>ar_free_head := ar_next a ! p, ar_next := (ar_next a)[p := NONE_U32],
          ar_prev := (ar_prev a)[p := NONE_U32], ar_counts := (ar_counts a)[p := 0]\<rparr>)
      else let old_len = paged_len (ar_pool a); new_len = old_len + PAGE_BYTES in
        if ac_max_bytes (ar_cfg a) < new_len then Inl (CapacityExceeded (ac_max_bytes (ar_cfg a)))
        else Inr (of_nat (old_len div PAGE_BYTES),
          a\<lparr>ar_pool := grow_tail junk (ar_pool a), ar_next := ar_next a @ [NONE_U32],
            ar_prev := ar_prev a @ [NONE_U32], ar_counts := ar_counts a @ [0]\<rparr>))"

definition move_slots :: "u32 \<Rightarrow> nat \<Rightarrow> u32 \<Rightarrow> nat \<Rightarrow> arena \<Rightarrow> arena" where
  "move_slots src_page src_off dst_page len a =
     (let buf = slice (ar_page a src_page) src_off (src_off + len)
      in a\<lparr>ar_pool := page_mut PAGE_BYTES (unat dst_page) (\<lambda>b. splice b 0 buf) (ar_pool a)\<rparr>)"

definition set_count :: "u32 \<Rightarrow> nat \<Rightarrow> arena \<Rightarrow> arena" where
  "set_count page n a = a\<lparr>ar_counts := (ar_counts a)[unat page := of_nat n]\<rparr>"

text \<open>Linking a fresh page right after \<open>page\<close>, in the chain.\<close>

definition link_after :: "nat \<Rightarrow> u32 \<Rightarrow> u32 \<Rightarrow> arena \<Rightarrow> arena" where
  "link_after shard page fresh a =
     (let successor = ar_next a ! unat page;
          a = a\<lparr>ar_next := (ar_next a)[unat fresh := successor],
                ar_prev := (ar_prev a)[unat fresh := page]\<rparr>;
          a = a\<lparr>ar_next := (ar_next a)[unat page := fresh]\<rparr>
      in if successor = NONE_U32 then a\<lparr>ar_tails := (ar_tails a)[shard := fresh]\<rparr>
         else a\<lparr>ar_prev := (ar_prev a)[unat successor := fresh]\<rparr>)"

text \<open>\<open>split\<close>: the page, position and count that receive the new record.\<close>

definition arena_split ::
  "slot_type \<Rightarrow> bytes \<Rightarrow> nat \<Rightarrow> nat \<Rightarrow> nat \<Rightarrow> arena \<Rightarrow> arena_error + (u32 \<times> nat \<times> nat) \<times> arena" where
  "arena_split T junk shard at pos a =
     (let spp = slots_per_page T; page = pe_page (ar_dir a ! at) in
      try_res (alloc_page junk a) (\<lambda>(fresh, a).
        let a = dir_insert shard (at + 1) fresh (link_after shard page fresh a) in
        if pos = spp then Inr ((fresh, 0, 0), a)
        else if spp = 1 then
          let a = move_slots page 0 fresh (SIZE T) a;
              a = set_count fresh 1 (set_count page 0 a)
          in Inr ((page, 0, 0), refresh_dir_key T (at + 1) a)
        else
          let half = spp div 2; moved = spp - half;
              a = move_slots page (half * SIZE T) fresh (moved * SIZE T) a;
              a = set_count fresh moved (set_count page half a);
              a = refresh_dir_key T (at + 1) a
          in Inr (if pos \<le> half then (page, pos, half) else (fresh, pos - half, moved), a)))"

text \<open>The first page of an empty shard.\<close>

definition open_shard :: "slot_type \<Rightarrow> bytes \<Rightarrow> nat \<Rightarrow> arena \<Rightarrow> arena_error + target \<times> arena" where
  "open_shard T junk shard a =
     try_res (alloc_page junk a) (\<lambda>(page, a).
       let a = a\<lparr>ar_heads := (ar_heads a)[shard := page], ar_tails := (ar_tails a)[shard := page]\<rparr>;
           at = unat (ar_dir_at a ! shard)
       in Inr (\<lparr>tg_prev = NONE_U32, tg_page = page, tg_at = at\<rparr>, dir_insert shard at page a))"

text \<open>The end of \<open>insert_bytes\<close>: write the slot, count it, refresh the cached key.\<close>

definition place_slot :: "slot_type \<Rightarrow> bytes \<Rightarrow> u32 \<Rightarrow> nat \<Rightarrow> nat \<Rightarrow> nat \<Rightarrow> arena \<Rightarrow> arena" where
  "place_slot T slot page pos cnt at a =
     (let a = a\<lparr>ar_pool := page_mut PAGE_BYTES (unat page) (page_insert T pos cnt slot) (ar_pool a),
                ar_counts := (ar_counts a)[unat page := ar_counts a ! unat page + 1],
                ar_total := ar_total a + 1\<rparr>
      in if pos = 0 then refresh_dir_key T at a else a)"

definition insert_bytes :: "slot_type \<Rightarrow> bytes \<Rightarrow> bytes \<Rightarrow> arena \<Rightarrow> arena_error + bool \<times> arena" where
  "insert_bytes T junk slot a =
     (let key = take (KEY_LEN T) slot; shard = shard_of (ar_cfg a) key in
      try_res (case find_page T a shard key of
          Some t \<Rightarrow> Inr (t, a)
        | None \<Rightarrow> open_shard T junk shard a) (\<lambda>(t, a).
      let page = tg_page t; cnt = ar_count a page in
      case search_in T a page cnt key of
        Inr _ \<Rightarrow> Inr (False, a)
      | Inl pos \<Rightarrow>
          if cnt = slots_per_page T then
            try_res (arena_split T junk shard (tg_at t) pos a) (\<lambda>((page, pos, cnt), a).
              let at = (if page \<noteq> pe_page (ar_dir a ! tg_at t) then tg_at t + 1 else tg_at t)
              in Inr (True, place_slot T slot page pos cnt at a))
          else Inr (True, place_slot T slot page pos cnt (tg_at t) a)))"

definition arena_insert ::
  "slot_type \<Rightarrow> ('r \<Rightarrow> bytes \<Rightarrow> bytes option) \<Rightarrow> bytes \<Rightarrow> 'r \<Rightarrow> arena \<Rightarrow> (arena_error + bool \<times> arena) option" where
  "arena_insert T wr junk value a = do {
     buf \<leftarrow> wr value (replicate (SIZE T) 0);
     Some (insert_bytes T junk buf a) }"

section \<open>Remove\<close>

text \<open>Unlinking an emptied page from its chain and recycling it.\<close>

definition unlink_page :: "nat \<Rightarrow> target \<Rightarrow> arena \<Rightarrow> arena" where
  "unlink_page shard t a =
     (let page = tg_page t; prev = tg_prev t; successor = ar_next a ! unat page;
          a = (if prev = NONE_U32 then a\<lparr>ar_heads := (ar_heads a)[shard := successor]\<rparr>
               else a\<lparr>ar_next := (ar_next a)[unat prev := successor]\<rparr>);
          a = (if successor = NONE_U32 then a\<lparr>ar_tails := (ar_tails a)[shard := prev]\<rparr>
               else a\<lparr>ar_prev := (ar_prev a)[unat successor := prev]\<rparr>);
          a = a\<lparr>ar_next := (ar_next a)[unat page := ar_free_head a],
                ar_prev := (ar_prev a)[unat page := NONE_U32], ar_free_head := page\<rparr>
      in dir_remove shard (tg_at t) a)"

definition arena_remove :: "slot_type \<Rightarrow> bytes \<Rightarrow> arena \<Rightarrow> (bool \<times> arena) option" where
  "arena_remove T key a =
     (if length key \<noteq> KEY_LEN T then None
      else let shard = shard_of (ar_cfg a) key in
        Some (case find_page T a shard key of
          None \<Rightarrow> (False, a)
        | Some t \<Rightarrow>
            let page = tg_page t; cnt = ar_count a page in
            case search_in T a page cnt key of
              Inl _ \<Rightarrow> (False, a)
            | Inr pos \<Rightarrow>
                let a = a\<lparr>ar_pool := page_mut PAGE_BYTES (unat page) (page_remove T pos cnt) (ar_pool a),
                          ar_counts := (ar_counts a)[unat page := ar_counts a ! unat page - 1],
                          ar_total := ar_total a - 1\<rparr>
                in (True,
                    if ar_count a page = 0 then unlink_page shard t a
                    else if pos = 0 then refresh_dir_key T (tg_at t) a
                    else a)))"

end
