(* ===== verification/Arena_Rep.thy ===== *)
theory Arena_Rep
  imports Arena
begin

text \<open>
  The representation of an arena: \<open>frame T a runs X F\<close> says that the link arrays, the directory
  and the pool agree on the chain \<open>runs ! s\<close> of every shard, on the free list \<open>F\<close>, and that
  these and the pages \<open>X\<close> in transit partition the pages. The lemmas give the effect of every
  structural step (allocating, linking, opening a shard, unlinking) and of a write to one page
  on the frame and on the records of each page.
\<close>

section \<open>Views of the state\<close>

abbreviation nxt :: "arena \<Rightarrow> nat \<Rightarrow> u32" where
  "nxt a p \<equiv> ar_next a ! p"

abbreviation prv :: "arena \<Rightarrow> nat \<Rightarrow> u32" where
  "prv a p \<equiv> ar_prev a ! p"

abbreviation raw_page :: "arena \<Rightarrow> nat \<Rightarrow> bytes" where
  "raw_page a p \<equiv> page_at PAGE_BYTES (ar_pool a) p"

definition npages :: "arena \<Rightarrow> nat" where
  "npages a = length (ar_counts a)"

definition recs :: "slot_type \<Rightarrow> arena \<Rightarrow> nat \<Rightarrow> bytes list" where
  "recs T a p = page_slots (SIZE T) (unat (ar_counts a ! p)) (raw_page a p)"

definition pool_ok :: "arena \<Rightarrow> bool" where
  "pool_ok a \<longleftrightarrow> paged_inv PAGE_BYTES (ar_pool a) \<and> paged_len (ar_pool a) = PAGE_BYTES * npages a \<and>
     length (ar_next a) = npages a \<and> length (ar_prev a) = npages a \<and> npages a \<le> 2 ^ 32 - 1"

definition links_ok :: "arena \<Rightarrow> nat list list \<Rightarrow> nat list \<Rightarrow> bool" where
  "links_ok a runs F \<longleftrightarrow>
     length runs = ac_shards (ar_cfg a) \<and> length (ar_heads a) = length runs \<and>
     length (ar_tails a) = length runs \<and> length (ar_dir_at a) = Suc (length runs) \<and>
     (\<forall>s < length runs. path (nxt a) (ar_heads a ! s) (runs ! s) NONE_U32 \<and>
        path (prv a) (ar_tails a ! s) (rev (runs ! s)) NONE_U32) \<and>
     path (nxt a) (ar_free_head a) F NONE_U32 \<and>
     map pe_page (ar_dir a) = map of_nat (concat runs) \<and>
     (\<forall>s \<le> length runs. unat (ar_dir_at a ! s) = length (concat (take s runs)))"

definition frame :: "slot_type \<Rightarrow> arena \<Rightarrow> nat list list \<Rightarrow> nat list \<Rightarrow> nat list \<Rightarrow> bool" where
  "frame T a runs X F \<longleftrightarrow> slot_ok T \<and> is_power_of_two (ac_shards (ar_cfg a)) \<and> pool_ok a \<and> links_ok a runs F \<and>
     mset (concat runs @ X @ F) = mset [0..<npages a] \<and>
     (\<forall>p < npages a. unat (ar_counts a ! p) \<le> slots_per_page T) \<and> (\<forall>p \<in> set (X @ F). ar_counts a ! p = 0)"

section \<open>Facts of a frame\<close>

lemma frame_dist: "frame T a runs X F \<Longrightarrow> distinct (concat runs @ X @ F)"
  and frame_set: "frame T a runs X F \<Longrightarrow> set (concat runs @ X @ F) = {..<npages a}"
  by (simp_all add: frame_def partition_iff del: mset_upt mset_append)

lemma frame_shards: "frame T a runs X F \<Longrightarrow> length runs = ac_shards (ar_cfg a) \<and> 0 < length runs"
  by (auto simp: frame_def links_ok_def is_power_of_two_def)

lemma frame_bound:
  assumes "frame T a runs X F"
  shows "s < length runs \<Longrightarrow> p \<in> set (runs ! s) \<Longrightarrow> p < npages a"
    and "p \<in> set X \<Longrightarrow> p < npages a" and "p \<in> set F \<Longrightarrow> p < npages a"
proof -
  note st = frame_set [OF assms]
  show "p \<in> set X \<Longrightarrow> p < npages a" "p \<in> set F \<Longrightarrow> p < npages a" using st by auto
  assume "s < length runs" "p \<in> set (runs ! s)"
  then have "p \<in> set (concat runs)" using nth_mem [of s runs] by (simp only: set_concat) blast
  then show "p < npages a" using st by auto
qed

lemma frame_index:
  "frame T a runs X F \<Longrightarrow> p < npages a \<Longrightarrow> unat (of_nat p :: u32) = p \<and> (of_nat p :: u32) \<noteq> NONE_U32"
  using of_nat_neq_NONE [of p] by (simp add: frame_def pool_ok_def)

lemma frame_disjoint:
  assumes f: "frame T a runs X F" and s: "s < length runs" and p: "p \<in> set (runs ! s)"
  shows "p \<notin> set X" and "p \<notin> set F" and "s' < length runs \<Longrightarrow> s' \<noteq> s \<Longrightarrow> p \<notin> set (runs ! s')"
proof -
  have "p \<in> set (concat runs)" using s p nth_mem [of s runs] by (simp only: set_concat) blast
  then show "p \<notin> set X" "p \<notin> set F" using frame_dist [OF f] by auto
  show "s' < length runs \<Longrightarrow> s' \<noteq> s \<Longrightarrow> p \<notin> set (runs ! s')"
    using distinct_concat_disjoint [of runs s s'] frame_dist [OF f] s p by auto
qed

lemma frame_run_distinct: "frame T a runs X F \<Longrightarrow> s < length runs \<Longrightarrow> distinct (runs ! s)"
  using frame_dist by (fastforce simp: distinct_concat_iff)

lemma frame_page_len: "frame T a runs X F \<Longrightarrow> p < npages a \<Longrightarrow> length (raw_page a p) = PAGE_BYTES"
  using length_page_at [of PAGE_BYTES "ar_pool a" p] by (simp add: frame_def pool_ok_def)

lemma spp_fits: "slot_ok T \<Longrightarrow> n \<le> slots_per_page T \<Longrightarrow> n * SIZE T \<le> PAGE_BYTES"
  unfolding slots_per_page_def by (meson div_times_less_eq_dividend le_trans mult_le_mono1)

lemma frame_fits: "frame T a runs X F \<Longrightarrow> p < npages a \<Longrightarrow> unat (ar_counts a ! p) * SIZE T \<le> length (raw_page a p)"
  using spp_fits [of T "unat (ar_counts a ! p)"] frame_page_len [of T a runs X F p] by (simp add: frame_def)

lemma recs_size: "frame T a runs X F \<Longrightarrow> p < npages a \<Longrightarrow> r \<in> set (recs T a p) \<Longrightarrow> length r = SIZE T"
  unfolding recs_def by (rule page_slots_size) (rule frame_fits)

lemma recs_empty: "ar_counts a ! p = 0 \<Longrightarrow> recs T a p = []"
  by (simp add: recs_def)

lemma length_recs: "length (recs T a p) = unat (ar_counts a ! p)"
  by (simp add: recs_def)

lemma dir_nth:
  assumes f: "frame T a runs X F" and s: "s < length runs" and j: "j < length (runs ! s)"
  shows "length (concat (take s runs)) + j < length (ar_dir a)"
    and "pe_page (ar_dir a ! (length (concat (take s runs)) + j)) = of_nat (runs ! s ! j)"
proof -
  note c = concat_nth_split [OF s j]
  have eq: "map pe_page (ar_dir a) = map of_nat (concat runs)" using f by (simp add: frame_def links_ok_def)
  then have "length (ar_dir a) = length (concat runs)" by (metis length_map)
  then show l: "length (concat (take s runs)) + j < length (ar_dir a)" using c(1) by simp
  have "pe_page (ar_dir a ! (length (concat (take s runs)) + j)) =
      map pe_page (ar_dir a) ! (length (concat (take s runs)) + j)" using l by simp
  with eq c show "pe_page (ar_dir a ! (length (concat (take s runs)) + j)) = of_nat (runs ! s ! j)" by simp
qed

lemma frame_run:
  assumes "frame T a runs X F" and s: "s < length runs"
  shows "dir_run a s = (length (concat (take s runs)), length (concat (take s runs)) + length (runs ! s))"
  using assms by (simp add: frame_def links_ok_def dir_run_def take_Suc_conv_app_nth)

lemma frame_prev:
  assumes f: "frame T a runs X F" and s: "s < length runs" and run: "runs ! s = us @ p # vs"
  shows "prv a p = (if us = [] then NONE_U32 else of_nat (last us))"
    and "nxt a p = (if vs = [] then NONE_U32 else of_nat (hd vs))"
proof -
  have fw: "path (nxt a) (ar_heads a ! s) (us @ p # vs) NONE_U32" and bw: "path (prv a) (ar_tails a ! s) (rev vs @ p # rev us) NONE_U32"
    using f s run by (auto simp: frame_def links_ok_def)
  from fw obtain m where "path (nxt a) (nxt a p) vs NONE_U32" by (auto simp: path_append)
  then show "nxt a p = (if vs = [] then NONE_U32 else of_nat (hd vs))"
    by (cases vs) auto
  from bw have "path (prv a) (prv a p) (rev us) NONE_U32" by (auto simp: path_append)
  then show "prv a p = (if us = [] then NONE_U32 else of_nat (last us))"
    by (cases us rule: rev_cases) auto
qed

section \<open>Allocating a page\<close>

definition fresh_page :: "slot_type \<Rightarrow> arena \<Rightarrow> nat \<Rightarrow> arena \<Rightarrow> bool" where
  "fresh_page T a q a' \<longleftrightarrow> npages a \<le> npages a' \<and>
     (\<forall>p < npages a. p \<noteq> q \<longrightarrow> recs T a' p = recs T a p \<and> raw_page a' p = raw_page a p \<and> ar_counts a' ! p = ar_counts a ! p) \<and>
     ar_dir a' = ar_dir a \<and> ar_dir_at a' = ar_dir_at a \<and> ar_heads a' = ar_heads a \<and> ar_tails a' = ar_tails a \<and>
     ar_total a' = ar_total a \<and> ar_cfg a' = ar_cfg a \<and> nxt a' q = NONE_U32 \<and> prv a' q = NONE_U32"

definition arena_full :: "arena \<Rightarrow> bool" where
  "arena_full a \<longleftrightarrow> ar_free_head a = NONE_U32 \<and> ac_max_bytes (ar_cfg a) < arena_pool_bytes a + PAGE_BYTES"

text \<open>The byte limit keeps every page index below the \<open>NONE\<close> sentinel (16 TiB).\<close>

definition index_room :: "arena_cfg \<Rightarrow> bool" where
  "index_room cfg \<longleftrightarrow> ac_max_bytes cfg \<le> (2 ^ 32 - 1) * PAGE_BYTES"

lemma alloc_page_full:
  "arena_full a \<Longrightarrow> alloc_page junk a = Inl (CapacityExceeded (ac_max_bytes (ar_cfg a)))"
  by (simp add: alloc_page_def arena_full_def arena_pool_bytes_def Let_def)

lemma links_cong:
  assumes l: "links_ok a runs F"
    and same: "ar_cfg a' = ar_cfg a" "ar_heads a' = ar_heads a" "ar_tails a' = ar_tails a" "ar_dir_at a' = ar_dir_at a"
      "map pe_page (ar_dir a') = map pe_page (ar_dir a)"
    and live: "\<And>s p. s < length runs \<Longrightarrow> p \<in> set (runs ! s) \<Longrightarrow> nxt a' p = nxt a p \<and> prv a' p = prv a p"
    and free: "path (nxt a') (ar_free_head a') F' NONE_U32"
  shows "links_ok a' runs F'"
proof -
  have "path (nxt a') (ar_heads a' ! s) (runs ! s) NONE_U32 \<and> path (prv a') (ar_tails a' ! s) (rev (runs ! s)) NONE_U32"
    if "s < length runs" for s
    using l same live [OF that] that path_cong [of "runs ! s" "nxt a'" "nxt a"]
      path_cong [of "rev (runs ! s)" "prv a'" "prv a"]
    by (simp add: links_ok_def)
  then show ?thesis using l same free by (simp add: links_ok_def)
qed

lemma alloc_recycled:
  assumes f: "frame T a runs [] (q # F)"
  shows "\<exists>a'. alloc_page junk a = Inr (of_nat q, a') \<and> frame T a' runs [q] F \<and> fresh_page T a q a'"
proof -
  have walk: "path (nxt a) (ar_free_head a) (q # F) NONE_U32" using f by (simp add: frame_def links_ok_def)
  then have h: "ar_free_head a \<noteq> NONE_U32" "unat (ar_free_head a) = q" and walk': "path (nxt a) (nxt a q) F NONE_U32" by auto
  have hq: "ar_free_head a = of_nat q" using h(2) by auto
  have q: "q < npages a" using frame_bound(3) [OF f] by simp
  have nF: "q \<notin> set F" using frame_dist [OF f] by simp
  have z: "ar_counts a ! q = 0" using f by (simp add: frame_def)
  let ?a = "a\<lparr>ar_free_head := nxt a q, ar_next := (ar_next a)[q := NONE_U32],
          ar_prev := (ar_prev a)[q := NONE_U32], ar_counts := (ar_counts a)[q := 0]\<rparr>"
  have counts: "ar_counts ?a = ar_counts a" using list_update_id [of "ar_counts a" q] z by simp
  have np: "npages ?a = npages a" by (simp add: npages_def)
  have live: "nxt ?a p = nxt a p \<and> prv ?a p = prv a p" if "s < length runs" "p \<in> set (runs ! s)" for s p
    using frame_disjoint(2) [OF f that] by auto
  have "path (nxt ?a) (ar_free_head ?a) F NONE_U32"
    using walk' nF by simp
  then have links: "links_ok ?a runs F"
    using f live by (intro links_cong [of a runs "q # F" ?a F]) (auto simp: frame_def)
  have "pool_ok ?a" using f np by (simp add: frame_def pool_ok_def)
  then have "frame T ?a runs [q] F"
    using f links np unfolding frame_def counts by simp
  moreover have "fresh_page T a q ?a"
    using np q f unfolding fresh_page_def recs_def counts by (simp add: frame_def pool_ok_def)
  moreover have "alloc_page junk a = Inr (of_nat q, ?a)"
    using h hq by (simp add: alloc_page_def Let_def)
  ultimately show ?thesis by blast
qed

lemma alloc_grown:
  assumes f: "frame T a runs [] []" and room: "\<not> arena_full a" and n: "index_room (ar_cfg a)"
    and junk: "length junk = PAGE_BYTES"
  shows "\<exists>a'. alloc_page junk a = Inr (of_nat (npages a), a') \<and> frame T a' runs [npages a] [] \<and>
    fresh_page T a (npages a) a'"
proof -
  let ?n = "npages a"
  have free: "ar_free_head a = NONE_U32" using f by (simp add: frame_def links_ok_def)
  have cap: "paged_len (ar_pool a) + PAGE_BYTES \<le> ac_max_bytes (ar_cfg a)"
    using room free by (simp add: arena_full_def arena_pool_bytes_def)
  have pool: "paged_inv PAGE_BYTES (ar_pool a)" "paged_len (ar_pool a) = PAGE_BYTES * ?n"
      "length (ar_next a) = ?n" "length (ar_prev a) = ?n" "length (ar_counts a) = ?n"
    using f by (simp_all add: frame_def pool_ok_def npages_def)
  have n1: "?n < 2 ^ 32 - 1" using cap n pool(2) by (simp add: index_room_def PAGE_BYTES_def)
  let ?a = "a\<lparr>ar_pool := grow_tail junk (ar_pool a), ar_next := ar_next a @ [NONE_U32],
            ar_prev := ar_prev a @ [NONE_U32], ar_counts := ar_counts a @ [0]\<rparr>"
  have np: "npages ?a = Suc ?n" by (simp add: npages_def)
  have old: "raw_page ?a p = raw_page a p" if "p < ?n" for p
    using page4k.grow_old [of "ar_pool a" junk p] pool junk that by simp
  have pool': "pool_ok ?a"
    using page4k.grow_inv [of "ar_pool a" junk] page4k.grow_len [of "ar_pool a" junk] pool junk np n1
    by (simp add: pool_ok_def)
  have live: "nxt ?a p = nxt a p \<and> prv ?a p = prv a p" if "s < length runs" "p \<in> set (runs ! s)" for s p
    using frame_bound(1) [OF f that] pool by (simp add: nth_append)
  have links: "links_ok ?a runs []"
    using f live free by (intro links_cong [of a runs "[]" ?a "[]"]) (auto simp: frame_def)
  have "mset (concat runs @ [?n] @ []) = mset [0..<npages ?a]"
    using f np by (simp add: frame_def del: mset_upt)
  moreover have "unat (ar_counts ?a ! p) \<le> slots_per_page T" if "p < npages ?a" for p
    using f that pool np by (auto simp: frame_def nth_append)
  moreover have "ar_counts ?a ! ?n = 0" using pool by (simp add: nth_append)
  ultimately have "frame T ?a runs [?n] []"
    using f links pool' by (simp add: frame_def del: mset_upt)
  moreover have "fresh_page T a ?n ?a"
    using np old pool by (auto simp: fresh_page_def recs_def nth_append)
  moreover have "alloc_page junk a = Inr (of_nat ?n, ?a)"
    using free cap pool by (simp add: alloc_page_def Let_def not_less)
  ultimately show ?thesis by blast
qed

lemma alloc_page_ok:
  assumes f: "frame T a runs [] F" and room: "\<not> arena_full a" and n: "index_room (ar_cfg a)"
    and junk: "length junk = PAGE_BYTES"
  obtains q F' a' where "alloc_page junk a = Inr (of_nat q, a')" and "frame T a' runs [q] F'" and "fresh_page T a q a'"
proof (cases F)
  case Nil
  with assms alloc_grown [of T a runs junk] that show thesis by blast
next
  case (Cons q F')
  with assms alloc_recycled [of T a runs q F' junk] that show thesis by blast
qed

section \<open>Directory updates\<close>

lemma length_shift_starts [simp]: "length (shift_starts f s xs) = length xs"
  by (simp add: shift_starts_def)

lemma shift_starts_nth: "k < length xs \<Longrightarrow> shift_starts f s xs ! k = (if k \<le> s then xs ! k else f (xs ! k))"
  by (auto simp: shift_starts_def nth_append min_def)

lemma frame_live_count:
  assumes "frame T a runs X F"
  shows "length (concat runs) + length X + length F = npages a"
proof -
  have "size (mset (concat runs @ X @ F)) = size (mset [0..<npages a])"
    using assms by (simp add: frame_def del: mset_upt mset_append)
  then show ?thesis by (simp only: size_mset length_append length_upt)
qed

lemma concat_take_le: "length (concat (take k xss)) \<le> length (concat xss)"
  by (metis append_take_drop_id concat_append le_add1 length_append)

text \<open>The directory parts of \<open>links_ok\<close> after one page entered, or left, the run of a shard.\<close>

lemma dir_insert_links:
  assumes f: "frame T a runs [q] F" and s: "s < length runs" and run: "runs ! s = us @ vs"
    and at: "at = length (concat (take s runs)) + length us"
  defines "b \<equiv> dir_insert s at (of_nat q) a" and "runs' \<equiv> runs[s := us @ q # vs]"
  shows "map pe_page (ar_dir b) = map of_nat (concat runs')"
    and "k \<le> length runs \<Longrightarrow> unat (ar_dir_at b ! k) = length (concat (take k runs'))"
    and "length (ar_dir_at b) = Suc (length runs)"
proof -
  have l: "map pe_page (ar_dir a) = map of_nat (concat runs)" "length (ar_dir_at a) = Suc (length runs)"
      "\<And>k. k \<le> length runs \<Longrightarrow> unat (ar_dir_at a ! k) = length (concat (take k runs))"
    using f by (simp_all add: frame_def links_ok_def)
  have c: "concat runs' = take at (concat runs) @ [q] @ drop at (concat runs)"
    using concat_update_split [OF s run, of "[q]"] by (simp add: runs'_def at)
  show "map pe_page (ar_dir b) = map of_nat (concat runs')"
    unfolding c by (simp add: b_def dir_insert_def pending_def flip: take_map drop_map) (simp add: l(1) take_map drop_map)
  show "length (ar_dir_at b) = Suc (length runs)" using l by (simp add: b_def dir_insert_def)
  assume k: "k \<le> length runs"
  have "length (concat (take k runs)) < 2 ^ 32 - 1"
    using concat_take_le [of k runs] frame_live_count [OF f] f by (simp add: frame_def pool_ok_def)
  then have "unat (ar_dir_at a ! k + 1) = Suc (length (concat (take k runs)))"
    using l(3) [OF k] by (simp add: unat_word_ariths)
  moreover have "length (concat (take k runs')) = length (concat (take k runs)) + (if s < k then 1 else 0)"
    using length_concat_take_update [OF s k, of "us @ q # vs"] run by (auto simp: runs'_def split: if_splits)
  ultimately show "unat (ar_dir_at b ! k) = length (concat (take k runs'))"
    using l k by (auto simp: b_def dir_insert_def shift_starts_nth)
qed

lemma dir_remove_links:
  assumes f: "frame T a runs X F" and s: "s < length runs" and run: "runs ! s = us @ q # vs"
    and at: "at = length (concat (take s runs)) + length us"
  defines "b \<equiv> dir_remove s at a" and "runs' \<equiv> runs[s := us @ vs]"
  shows "map pe_page (ar_dir b) = map of_nat (concat runs')"
    and "k \<le> length runs \<Longrightarrow> unat (ar_dir_at b ! k) = length (concat (take k runs'))"
    and "length (ar_dir_at b) = Suc (length runs)"
proof -
  have l: "map pe_page (ar_dir a) = map of_nat (concat runs)" "length (ar_dir_at a) = Suc (length runs)"
      "\<And>k. k \<le> length runs \<Longrightarrow> unat (ar_dir_at a ! k) = length (concat (take k runs))"
    using f by (simp_all add: frame_def links_ok_def)
  have "concat runs = (concat (take s runs) @ us) @ q # vs @ concat (drop (Suc s) runs)"
    using concat_eq_split [OF s] run by simp
  then have "take at (concat runs) = concat (take s runs) @ us" "drop (at + 1) (concat runs) = vs @ concat (drop (Suc s) runs)"
    by (simp_all add: at)
  then have c: "concat runs' = take at (concat runs) @ drop (at + 1) (concat runs)"
    using s by (simp add: runs'_def upd_conv_take_nth_drop)
  show "map pe_page (ar_dir b) = map of_nat (concat runs')"
    unfolding c by (simp add: b_def dir_remove_def flip: take_map drop_map) (simp add: l(1) take_map drop_map)
  show "length (ar_dir_at b) = Suc (length runs)" using l by (simp add: b_def dir_remove_def)
  assume k: "k \<le> length runs"
  have eq: "length (concat (take k runs')) + (if s < k then 1 else 0) = length (concat (take k runs))"
    using length_concat_take_update [OF s k, of "us @ vs"] run by (auto simp: runs'_def split: if_splits)
  moreover have "unat (ar_dir_at a ! k - 1) = unat (ar_dir_at a ! k) - 1" if "s < k"
  proof (rule unat_minus_one)
    have "0 < unat (ar_dir_at a ! k)" unfolding l(3) [OF k] using eq that by (simp only: if_True)
    then show "ar_dir_at a ! k \<noteq> 0" by (metis less_irrefl unat_0)
  qed
  ultimately show "unat (ar_dir_at b ! k) = length (concat (take k runs'))"
    using l k by (auto simp: b_def dir_remove_def shift_starts_nth split: if_splits)
qed

section \<open>Linking a page into a chain\<close>

text \<open>A page in transit is linked after \<open>p\<close>.\<close>

lemma link_after_frame:
  assumes f: "frame T a runs [q] F" and s: "s < length runs" and run: "runs ! s = us @ p # vs"
    and at: "at = length (concat (take s runs)) + length us + 1"
  defines "b \<equiv> dir_insert s at (of_nat q) (link_after s (of_nat p) (of_nat q) a)"
  shows "frame T b (runs[s := us @ p # q # vs]) [] F"
    and "ar_counts b = ar_counts a" and "ar_pool b = ar_pool a" and "ar_total b = ar_total a" and "ar_cfg b = ar_cfg a"
    and "ar_dir b = take at (ar_dir a) @ pending (of_nat q) # drop at (ar_dir a)"
proof -
  let ?runs = "runs[s := us @ p # q # vs]" and ?succ = "nxt a p"
  have pm: "p \<in> set (runs ! s)" using run by simp
  have pq: "unat (of_nat p :: u32) = p" "unat (of_nat q :: u32) = q" "(of_nat p :: u32) \<noteq> NONE_U32" "(of_nat q :: u32) \<noteq> NONE_U32"
    using frame_index [OF f] frame_bound(1) [OF f s pm] frame_bound(2) [OF f, of q] by simp_all
  have nq: "q \<notin> set (runs ! s')" if "s' < length runs" for s' using frame_disjoint(1) [OF f that] by auto
  have dist: "distinct (us @ p # vs)" using frame_run_distinct [OF f s] run by simp
  have lens: "length (ar_next a) = npages a" "length (ar_prev a) = npages a" "p < npages a" "q < npages a"
    using f frame_bound(1) [OF f s pm] frame_bound(2) [OF f, of q] by (simp_all add: frame_def pool_ok_def)
  have hd: "hd vs < npages a" "unat (of_nat (hd vs) :: u32) = hd vs" "(of_nat (hd vs) :: u32) \<noteq> NONE_U32" if "vs \<noteq> []"
    using frame_bound(1) [OF f s, of "hd vs"] frame_index [OF f, of "hd vs"] that run by simp_all
  have succ: "?succ = (if vs = [] then NONE_U32 else of_nat (hd vs))" using frame_prev(2) [OF f s run] .
  have nx: "ar_next b = (ar_next a)[q := ?succ, p := of_nat q]"
    and pv: "ar_prev b = (if vs = [] then (ar_prev a)[q := of_nat p] else (ar_prev a)[q := of_nat p, hd vs := of_nat q])"
    and tl: "ar_tails b = (if vs = [] then (ar_tails a)[s := of_nat q] else ar_tails a)"
    and same: "ar_heads b = ar_heads a" "ar_free_head b = ar_free_head a" "ar_cfg b = ar_cfg a"
    and rest: "ar_counts b = ar_counts a" "ar_pool b = ar_pool a" "ar_total b = ar_total a"
      "ar_dir b = take at (ar_dir a) @ pending (of_nat q) # drop at (ar_dir a)"
      "ar_dir_at b = ar_dir_at (dir_insert s at (of_nat q) a)"
    using pq succ hd by (auto simp: b_def dir_insert_def link_after_def Let_def)
  show "ar_counts b = ar_counts a" "ar_pool b = ar_pool a" "ar_total b = ar_total a" "ar_cfg b = ar_cfg a"
    "ar_dir b = take at (ar_dir a) @ pending (of_nat q) # drop at (ar_dir a)"
    using rest same by simp_all
  have l: "\<And>s'. s' < length runs \<Longrightarrow> path (nxt a) (ar_heads a ! s') (runs ! s') NONE_U32 \<and>
      path (prv a) (ar_tails a ! s') (rev (runs ! s')) NONE_U32"
    "path (nxt a) (ar_free_head a) F NONE_U32" "length (ar_tails a) = length runs"
    using f by (auto simp: frame_def links_ok_def)
  have fw: "path (nxt b) (ar_heads a ! s) (us @ p # q # vs) NONE_U32"
    using path_insert_array [of "ar_next a" "ar_heads a ! s" "us @ [p]" vs NONE_U32 q "of_nat q" _ "ar_next b"]
      l(1) [OF s] run dist pq nq [OF s] lens by (simp add: nx)
  have bw: "path (prv b) (ar_tails b ! s) (rev vs @ q # p # rev us) NONE_U32"
  proof -
    have bk: "path (prv a) (ar_tails a ! s) (rev vs @ p # rev us) NONE_U32" using l(1) [OF s] run by simp
    have m: "(if rev vs = [] then ar_tails a ! s else prv a (last (rev vs))) = of_nat p"
    proof (cases "vs = []")
      case True
      with bk show ?thesis by auto
    next
      case False
      then have "runs ! s = (us @ [p]) @ hd vs # tl vs" using run by simp
      from frame_prev(1) [OF f s this] False show ?thesis by (simp add: last_rev)
    qed
    have "path (prv b) (if rev vs = [] then of_nat q else ar_tails a ! s) (rev vs @ q # p # rev us) NONE_U32"
      using dist nq [OF s] lens pq hd(1) run
      by (intro path_insert_array [OF bk _ _ _ _ _ _ m [symmetric]]) (auto simp: pv last_rev)
    then show ?thesis using s l(3) by (auto simp: tl split: if_splits)
  qed
  have other: "path (nxt b) (ar_heads a ! s') (runs ! s') NONE_U32 \<and> path (prv b) (ar_tails b ! s') (rev (runs ! s')) NONE_U32"
    if s': "s' < length runs" "s' \<noteq> s" for s'
  proof -
    have "p \<notin> set (runs ! s')" using frame_disjoint(3) [OF f s pm] s' by simp
    moreover have "vs \<noteq> [] \<Longrightarrow> hd vs \<notin> set (runs ! s')" using frame_disjoint(3) [OF f s, of "hd vs"] s' run by simp
    ultimately show ?thesis using l(1) [OF s'(1)] nq [OF s'(1)] s' by (simp add: nx pv tl)
  qed
  have fr: "path (nxt b) (ar_free_head b) F NONE_U32"
    using l(2) frame_disjoint(2) [OF f s pm] frame_dist [OF f] by (simp add: nx same)
  have run': "runs ! s = (us @ [p]) @ vs" "us @ p # q # vs = (us @ [p]) @ q # vs" using run by simp_all
  note d = dir_insert_links [OF f s run'(1), of at]
  have "path (nxt b) (ar_heads b ! s') (?runs ! s') NONE_U32 \<and>
      path (prv b) (ar_tails b ! s') (rev (?runs ! s')) NONE_U32" if "s' < length runs" for s'
    using fw bw other [OF that] s by (cases "s' = s") (simp_all add: same)
  moreover have "map pe_page (ar_dir b) = map of_nat (concat ?runs)"
  proof -
    have "ar_dir b = ar_dir (dir_insert s at (of_nat q) a)"
      using rest(4) by (simp add: dir_insert_def)
    then show ?thesis using d(1) at unfolding run'(2) by simp
  qed
  moreover have "unat (ar_dir_at b ! k) = length (concat (take k ?runs))" if "k \<le> length runs" for k
    unfolding rest(5) run'(2) by (rule d(2) [OF _ that]) (simp add: at)
  moreover have "length (ar_dir_at b) = Suc (length runs)" using d(3) at rest(5) by simp
  ultimately have "links_ok b ?runs F"
    using f fr by (simp add: frame_def links_ok_def same tl)
  moreover have "mset (concat ?runs @ [] @ F) = mset [0..<npages b]"
    using f mset_concat_update [of s runs "us @ p # q # vs"] s run
    by (simp add: frame_def npages_def rest(1) del: mset_upt)
  moreover have "pool_ok b" using f by (simp add: frame_def pool_ok_def npages_def rest nx pv)
  ultimately show "frame T b ?runs [] F"
    using f by (simp add: frame_def npages_def rest(1) same del: mset_upt mset_append)
qed

text \<open>A page in transit becomes the only page of an empty shard.\<close>

lemma open_shard_frame:
  assumes f: "frame T a runs [q] F" and s: "s < length runs" and run: "runs ! s = []"
    and lq: "nxt a q = NONE_U32" "prv a q = NONE_U32" and at: "at = unat (ar_dir_at a ! s)"
  defines "b \<equiv> dir_insert s at (of_nat q)
    (a\<lparr>ar_heads := (ar_heads a)[s := of_nat q], ar_tails := (ar_tails a)[s := of_nat q]\<rparr>)"
  shows "frame T b (runs[s := [q]]) [] F" and "at = length (concat (take s runs))"
    and "ar_counts b = ar_counts a" and "ar_pool b = ar_pool a" and "ar_total b = ar_total a" and "ar_cfg b = ar_cfg a"
    and "ar_dir b = take at (ar_dir a) @ pending (of_nat q) # drop at (ar_dir a)"
proof -
  let ?runs = "runs[s := [q]]"
  have q: "unat (of_nat q :: u32) = q" "(of_nat q :: u32) \<noteq> NONE_U32"
    using frame_index [OF f] frame_bound(2) [OF f, of q] by simp_all
  show at': "at = length (concat (take s runs))"
    using f s at by (simp add: frame_def links_ok_def)
  have same: "ar_counts b = ar_counts a" "ar_pool b = ar_pool a" "ar_total b = ar_total a" "ar_cfg b = ar_cfg a"
      "ar_dir b = take at (ar_dir a) @ pending (of_nat q) # drop at (ar_dir a)" "ar_next b = ar_next a"
      "ar_prev b = ar_prev a" "ar_free_head b = ar_free_head a" "ar_heads b = (ar_heads a)[s := of_nat q]"
      "ar_tails b = (ar_tails a)[s := of_nat q]" "ar_dir b = ar_dir (dir_insert s at (of_nat q) a)"
      "ar_dir_at b = ar_dir_at (dir_insert s at (of_nat q) a)"
    by (simp_all add: b_def dir_insert_def)
  show "ar_counts b = ar_counts a" "ar_pool b = ar_pool a" "ar_total b = ar_total a" "ar_cfg b = ar_cfg a"
    "ar_dir b = take at (ar_dir a) @ pending (of_nat q) # drop at (ar_dir a)"
    using same by simp_all
  have run': "runs ! s = [] @ []" using run by simp
  have l: "length (ar_heads a) = length runs" "length (ar_tails a) = length runs"
    using f by (simp_all add: frame_def links_ok_def)
  have "path (nxt b) (ar_heads b ! s') (?runs ! s') NONE_U32 \<and>
      path (prv b) (ar_tails b ! s') (rev (?runs ! s')) NONE_U32" if "s' < length runs" for s'
    using f that q lq s l by (cases "s' = s") (simp_all add: same frame_def links_ok_def)
  moreover have "map pe_page (ar_dir b) = map of_nat (concat ?runs)"
    using dir_insert_links(1) [OF f s run', of at] at' unfolding same(11) by simp
  moreover have "unat (ar_dir_at b ! k) = length (concat (take k ?runs))" if "k \<le> length runs" for k
    using dir_insert_links(2) [OF f s run' _ that, of at] at' unfolding same(12) by simp
  moreover have "length (ar_dir_at b) = Suc (length runs)"
    using dir_insert_links(3) [OF f s run', of at] at' unfolding same(12) by simp
  ultimately have "links_ok b ?runs F"
    using f l by (simp add: frame_def links_ok_def same(4,6,7,8,9,10))
  moreover have "mset (concat ?runs @ [] @ F) = mset [0..<npages b]"
    using f mset_concat_update [of s runs "[q]"] s run by (simp add: frame_def npages_def same(1) del: mset_upt)
  moreover have "pool_ok b" using f by (simp add: frame_def pool_ok_def npages_def same(1,2,6,7))
  ultimately show "frame T b ?runs [] F"
    using f by (simp add: frame_def npages_def same(1,4) del: mset_upt mset_append)
qed

text \<open>An emptied page leaves its chain for the free list.\<close>

lemma unlink_frame:
  assumes f: "frame T a runs [] F" and s: "s < length runs" and run: "runs ! s = us @ p # vs"
    and empty: "ar_counts a ! p = 0"
    and at: "at = length (concat (take s runs)) + length us"
  defines "t \<equiv> \<lparr>tg_prev = (if us = [] then NONE_U32 else of_nat (last us)), tg_page = of_nat p, tg_at = at\<rparr>"
  defines "b \<equiv> unlink_page s t a"
  shows "frame T b (runs[s := us @ vs]) [] (p # F)"
    and "ar_counts b = ar_counts a" and "ar_pool b = ar_pool a" and "ar_total b = ar_total a" and "ar_cfg b = ar_cfg a"
    and "ar_dir b = take at (ar_dir a) @ drop (at + 1) (ar_dir a)"
proof -
  let ?runs = "runs[s := us @ vs]"
  have bnd: "c < npages a \<and> unat (of_nat c :: u32) = c \<and> (of_nat c :: u32) \<noteq> NONE_U32" if "c \<in> set (us @ p # vs)" for c
    using frame_bound(1) [OF f s, of c] frame_index [OF f, of c] that run by simp
  have p: "p < npages a" "unat (of_nat p :: u32) = p" "(of_nat p :: u32) \<noteq> NONE_U32"
    using bnd [of p] by simp_all
  have lu: "last us < npages a" "unat (of_nat (last us) :: u32) = last us" "(of_nat (last us) :: u32) \<noteq> NONE_U32" if "us \<noteq> []"
    using bnd [of "last us"] that by simp_all
  have hv: "hd vs < npages a" "unat (of_nat (hd vs) :: u32) = hd vs" "(of_nat (hd vs) :: u32) \<noteq> NONE_U32" if "vs \<noteq> []"
    using bnd [of "hd vs"] that by simp_all
  have dist: "distinct (us @ p # vs)" using frame_run_distinct [OF f s] run by simp
  have lens: "length (ar_next a) = npages a" "length (ar_prev a) = npages a"
    "length (ar_heads a) = length runs" "length (ar_tails a) = length runs"
    using f by (simp_all add: frame_def pool_ok_def links_ok_def)
  have succ: "nxt a p = (if vs = [] then NONE_U32 else of_nat (hd vs))"
    and pred: "prv a p = (if us = [] then NONE_U32 else of_nat (last us))"
    using frame_prev [OF f s run] by simp_all
  let ?nx = "if us = [] then ar_next a else (ar_next a)[last us := nxt a p]"
  let ?pv = "if vs = [] then ar_prev a else (ar_prev a)[hd vs := prv a p]"
  have nx: "ar_next b = ?nx[p := ar_free_head a]" and pv: "ar_prev b = ?pv[p := NONE_U32]"
    and hd: "ar_heads b = (if us = [] then (ar_heads a)[s := nxt a p] else ar_heads a)"
    and tl: "ar_tails b = (if vs = [] then (ar_tails a)[s := prv a p] else ar_tails a)"
    and same: "ar_free_head b = of_nat p" "ar_cfg b = ar_cfg a"
    and rest: "ar_counts b = ar_counts a" "ar_pool b = ar_pool a" "ar_total b = ar_total a"
      "ar_dir b = take at (ar_dir a) @ drop (at + 1) (ar_dir a)"
      "ar_dir_at b = ar_dir_at (dir_remove s at a)" "ar_dir b = ar_dir (dir_remove s at a)"
    using p lu hv succ pred by (auto simp: b_def t_def dir_remove_def unlink_page_def Let_def)
  show "ar_counts b = ar_counts a" "ar_pool b = ar_pool a" "ar_total b = ar_total a" "ar_cfg b = ar_cfg a"
    "ar_dir b = take at (ar_dir a) @ drop (at + 1) (ar_dir a)"
    using rest same by simp_all
  have l: "\<And>s'. s' < length runs \<Longrightarrow> path (nxt a) (ar_heads a ! s') (runs ! s') NONE_U32 \<and>
      path (prv a) (ar_tails a ! s') (rev (runs ! s')) NONE_U32"
    "path (nxt a) (ar_free_head a) F NONE_U32"
    using f by (auto simp: frame_def links_ok_def)
  have npu: "p \<notin> set (us @ vs)" using dist by auto
  have "path ((!) ?nx) (if us = [] then nxt a p else ar_heads a ! s) (us @ vs) NONE_U32"
    using l(1) [OF s] run dist lu(1) lens by (intro path_delete_array [of "ar_next a" "ar_heads a ! s" us p vs]) auto
  then have fw: "path (nxt b) (ar_heads b ! s) (us @ vs) NONE_U32"
    using npu s lens unfolding nx hd by (simp split: if_splits)
  have "path ((!) ?pv) (if rev vs = [] then prv a p else ar_tails a ! s) (rev vs @ rev us) NONE_U32"
    using l(1) [OF s] run dist hv(1) lens
    by (intro path_delete_array [of "ar_prev a" "ar_tails a ! s" "rev vs" p "rev us"]) (auto simp: last_rev)
  then have bw: "path (prv b) (ar_tails b ! s) (rev (us @ vs)) NONE_U32"
    using npu s lens unfolding pv tl by (simp split: if_splits)
  have other: "path (nxt b) (ar_heads b ! s') (runs ! s') NONE_U32 \<and> path (prv b) (ar_tails b ! s') (rev (runs ! s')) NONE_U32"
    if s': "s' < length runs" "s' \<noteq> s" for s'
  proof -
    have "c \<notin> set (runs ! s')" if "c \<in> set (us @ p # vs)" for c
      using frame_disjoint(3) [OF f s _ s'] that run by simp
    then have "p \<notin> set (runs ! s')" "us \<noteq> [] \<Longrightarrow> last us \<notin> set (runs ! s')" "vs \<noteq> [] \<Longrightarrow> hd vs \<notin> set (runs ! s')"
      by simp_all
    then show ?thesis using l(1) [OF s'(1)] s' by (simp add: nx pv hd tl)
  qed
  have "path (nxt b) (ar_free_head b) (p # F) NONE_U32"
  proof -
    have "p \<notin> set F" "us \<noteq> [] \<Longrightarrow> last us \<notin> set F"
      using frame_disjoint(2) [OF f s, of p] frame_disjoint(2) [OF f s, of "last us"] run by simp_all
    then show ?thesis using l(2) p lens by (simp add: nx same)
  qed
  moreover have "path (nxt b) (ar_heads b ! s') (?runs ! s') NONE_U32 \<and>
      path (prv b) (ar_tails b ! s') (rev (?runs ! s')) NONE_U32" if "s' < length runs" for s'
    using fw bw other [OF that] s by (cases "s' = s") simp_all
  moreover have "map pe_page (ar_dir b) = map of_nat (concat ?runs)"
    unfolding rest(6) by (rule dir_remove_links(1) [OF f s run at])
  moreover have "unat (ar_dir_at b ! k) = length (concat (take k ?runs))" if "k \<le> length runs" for k
    unfolding rest(5) by (rule dir_remove_links(2) [OF f s run at that])
  moreover have "length (ar_dir_at b) = Suc (length runs)"
    unfolding rest(5) by (rule dir_remove_links(3) [OF f s run at])
  ultimately have "links_ok b ?runs (p # F)"
    using f lens by (simp add: frame_def links_ok_def same hd tl)
  moreover have "mset (concat ?runs @ [] @ (p # F)) = mset [0..<npages b]"
  proof -
    have "mset (concat runs) = add_mset p (mset (concat ?runs))"
      using mset_concat_update [of s runs "us @ vs"] s run by simp
    then show ?thesis using f by (simp add: frame_def npages_def rest(1) del: mset_upt)
  qed
  moreover have "pool_ok b" using f by (simp add: frame_def pool_ok_def npages_def rest nx pv)
  ultimately show "frame T b ?runs [] (p # F)"
    using f empty by (simp add: frame_def npages_def rest(1) same del: mset_upt mset_append)
qed

section \<open>Writes that leave the links alone\<close>

lemma frame_same:
  assumes "frame T a runs X F" and "ar_cfg b = ar_cfg a" and "ar_heads b = ar_heads a" and "ar_next b = ar_next a"
    and "ar_prev b = ar_prev a" and "ar_tails b = ar_tails a" and "ar_dir_at b = ar_dir_at a"
    and "ar_free_head b = ar_free_head a" and "map pe_page (ar_dir b) = map pe_page (ar_dir a)"
    and "paged_inv PAGE_BYTES (ar_pool b)" and "paged_len (ar_pool b) = paged_len (ar_pool a)"
    and "npages b = npages a" and "\<And>p. p < npages a \<Longrightarrow> unat (ar_counts b ! p) \<le> slots_per_page T"
    and "\<And>p. p \<in> set (X @ F) \<Longrightarrow> ar_counts b ! p = 0"
  shows "frame T b runs X F"
  using assms by (simp add: frame_def links_ok_def pool_ok_def)

lemma refresh_fields [simp]:
  "ar_pool (refresh_dir_key T k a) = ar_pool a" "ar_counts (refresh_dir_key T k a) = ar_counts a"
  "ar_total (refresh_dir_key T k a) = ar_total a" "ar_cfg (refresh_dir_key T k a) = ar_cfg a"
  "npages (refresh_dir_key T k a) = npages a" "recs T' (refresh_dir_key T k a) = recs T' a"
  "length (ar_dir (refresh_dir_key T k a)) = length (ar_dir a)"
  by (simp_all add: refresh_dir_key_def Let_def npages_def recs_def fun_eq_iff)

lemma refresh_frame:
  assumes f: "frame T a runs X F"
  shows "frame T (refresh_dir_key T k a) runs X F"
proof (rule frame_same [OF f])
  have "map pe_page ((ar_dir a)[k := (ar_dir a ! k)\<lparr>pe_key := v\<rparr>]) = map pe_page (ar_dir a)" for v
    by (cases "k < length (ar_dir a)") (auto intro!: nth_equalityI simp: nth_list_update)
  then show "map pe_page (ar_dir (refresh_dir_key T k a)) = map pe_page (ar_dir a)"
    by (simp add: refresh_dir_key_def Let_def)
qed (use f in \<open>simp_all add: refresh_dir_key_def Let_def frame_def pool_ok_def npages_def\<close>)

lemma refresh_keys:
  assumes "k < length (ar_dir a)" and "pe_page (ar_dir a ! k) = of_nat p" and "unat (of_nat p :: u32) = p"
  shows "map pe_key (ar_dir (refresh_dir_key T k a)) =
    (map pe_key (ar_dir a))[k := cached_key T (take (KEY_LEN T) (raw_page a p))]"
  using assms by (simp add: refresh_dir_key_def Let_def map_update first_key_def ar_page_def)

lemma pool_write_frame:
  assumes f: "frame T a runs X F" and p: "p < npages a" and g: "length (g (raw_page a p)) = PAGE_BYTES"
  defines "b \<equiv> a\<lparr>ar_pool := page_mut PAGE_BYTES p g (ar_pool a)\<rparr>"
  shows "frame T b runs X F" and "npages b = npages a"
    and "p' < npages a \<Longrightarrow> raw_page b p' = (if p' = p then g (raw_page a p) else raw_page a p')"
    and "p' < npages a \<Longrightarrow> p' \<noteq> p \<Longrightarrow> recs T b p' = recs T a p'"
    and "recs T b p = page_slots (SIZE T) (unat (ar_counts a ! p)) (g (raw_page a p))"
proof -
  have inv: "paged_inv PAGE_BYTES (ar_pool a)" and len: "paged_len (ar_pool a) div PAGE_BYTES = npages a"
    using f by (simp_all add: frame_def pool_ok_def)
  show np: "npages b = npages a" by (simp add: b_def npages_def)
  show pg: "raw_page b p' = (if p' = p then g (raw_page a p) else raw_page a p')" if "p' < npages a" for p'
    using page4k.modify_same [of "ar_pool a" p g] page4k.modify_other [of "ar_pool a" p g p'] inv len p g that
    by (simp add: b_def)
  show "frame T b runs X F"
    using page4k.modify_inv [of "ar_pool a" p g] page4k.modify_len [of "ar_pool a" p g] inv len p g np f
    by (intro frame_same [OF f]) (auto simp: b_def frame_def)
  show "p' < npages a \<Longrightarrow> p' \<noteq> p \<Longrightarrow> recs T b p' = recs T a p'"
    using pg by (simp add: recs_def) (simp add: b_def)
  show "recs T b p = page_slots (SIZE T) (unat (ar_counts a ! p)) (g (raw_page a p))"
    using pg [OF p] by (simp add: recs_def) (simp add: b_def)
qed

lemma count_write_frame:
  assumes f: "frame T a runs X F" and p: "p < npages a" and n: "unat c \<le> slots_per_page T"
    and live: "p \<notin> set (X @ F)"
  defines "b \<equiv> a\<lparr>ar_counts := (ar_counts a)[p := c]\<rparr>"
  shows "frame T b runs X F" and "npages b = npages a" and "raw_page b p' = raw_page a p'"
    and "p' \<noteq> p \<Longrightarrow> recs T b p' = recs T a p'"
    and "recs T b p = page_slots (SIZE T) (unat c) (raw_page a p)"
proof -
  show np: "npages b = npages a" by (simp add: b_def npages_def)
  show "raw_page b p' = raw_page a p'" by (simp add: b_def)
  show "frame T b runs X F"
    using f p n live np by (intro frame_same [OF f]) (auto simp: b_def frame_def nth_list_update npages_def pool_ok_def)
  show "p' \<noteq> p \<Longrightarrow> recs T b p' = recs T a p'" by (simp add: b_def recs_def)
  show "recs T b p = page_slots (SIZE T) (unat c) (raw_page a p)"
    using p by (simp add: b_def recs_def npages_def)
qed

lemma total_write [simp]:
  "frame T (a\<lparr>ar_total := n\<rparr>) runs X F = frame T a runs X F" "npages (a\<lparr>ar_total := n\<rparr>) = npages a"
  "recs T (a\<lparr>ar_total := n\<rparr>) = recs T a"
  by (simp_all add: frame_def links_ok_def pool_ok_def npages_def recs_def fun_eq_iff)

end
