(* ===== verification/Arena_Map.thy ===== *)
theory Arena_Map
  imports Arena_Rep
begin

text \<open>
  The arena as a map. \<open>arena_rep\<close> adds to the frame what the records must satisfy: chains are
  sorted by key, records sit in the shard of their key, chain pages are not empty, the directory
  caches the first keys and \<open>total\<close> counts the records. Under it the directory search finds the
  page that covers a key, and insert, lookup, in-place update and remove act on the abstract map
  \<open>arena_map\<close> as on a finite map.
\<close>

section \<open>Invariant and abstraction\<close>

definition run_recs :: "slot_type \<Rightarrow> arena \<Rightarrow> nat list \<Rightarrow> bytes list" where
  "run_recs T a ps = concat (map (recs T a) ps)"

definition page_first :: "slot_type \<Rightarrow> arena \<Rightarrow> nat \<Rightarrow> bytes" where
  "page_first T a p = take (KEY_LEN T) (raw_page a p)"

definition keys_ok :: "slot_type \<Rightarrow> arena_cfg \<Rightarrow> nat \<Rightarrow> bytes list \<Rightarrow> bool" where
  "keys_ok T cfg s rs \<longleftrightarrow> sorted_wrt (<) (map (slot_key T) rs) \<and> (\<forall>r \<in> set rs. shard_of cfg (slot_key T r) = s)"

definition arena_rep :: "slot_type \<Rightarrow> arena \<Rightarrow> nat list list \<Rightarrow> nat list \<Rightarrow> bool" where
  "arena_rep T a runs F \<longleftrightarrow> frame T a runs [] F \<and> ac_shards (ar_cfg a) \<le> usize_max \<and> (\<forall>p \<in> set (concat runs). recs T a p \<noteq> []) \<and>
     (\<forall>s < length runs. keys_ok T (ar_cfg a) s (run_recs T a (runs ! s))) \<and>
     map pe_key (ar_dir a) = map (\<lambda>p. cached_key T (page_first T a p)) (concat runs) \<and>
     ar_total a = length (run_recs T a (concat runs))"

definition arena_inv :: "slot_type \<Rightarrow> arena \<Rightarrow> bool" where
  "arena_inv T a \<longleftrightarrow> (\<exists>runs F. arena_rep T a runs F)"

text \<open>The records by page index, and the map from keys to slots.\<close>

definition arena_records :: "slot_type \<Rightarrow> arena \<Rightarrow> bytes list" where
  "arena_records T a = run_recs T a [0..<npages a]"

definition arena_map :: "slot_type \<Rightarrow> arena \<Rightarrow> bytes \<Rightarrow> bytes option" where
  "arena_map T a = map_of (map (\<lambda>r. (slot_key T r, r)) (arena_records T a))"

lemma run_recs_simps [simp]:
  "run_recs T a [] = []" "run_recs T a (p # ps) = recs T a p @ run_recs T a ps"
  "run_recs T a (ps @ qs) = run_recs T a ps @ run_recs T a qs"
  by (simp_all add: run_recs_def)

lemma set_run_recs: "set (run_recs T a ps) = (\<Union>p \<in> set ps. set (recs T a p))"
  by (simp add: run_recs_def)

lemma run_recs_cong: "(\<And>p. p \<in> set ps \<Longrightarrow> recs T b p = recs T a p) \<Longrightarrow> run_recs T b ps = run_recs T a ps"
  by (simp add: run_recs_def cong: map_cong)

lemma run_recs_concat: "run_recs T a (concat pss) = concat (map (run_recs T a) pss)"
  by (induction pss) auto

section \<open>Shards\<close>

lemma power_of_two_bits: "is_power_of_two n \<Longrightarrow> n = 2 ^ trailing_zeros n"
  by (simp add: is_power_of_two_def)

lemma shard_of_less:
  assumes "is_power_of_two (ac_shards cfg)" and "ac_shards cfg \<le> usize_max"
  shows "shard_of cfg key < ac_shards cfg"
proof -
  let ?b = "trailing_zeros (ac_shards cfg)"
  have n: "ac_shards cfg = 2 ^ ?b" using power_of_two_bits [OF assms(1)] .
  have b: "?b < 64"
  proof (rule ccontr)
    assume "\<not> ?b < 64"
    then have "(2::nat) ^ 64 \<le> 2 ^ ?b" by (intro power_increasing) simp_all
    with n assms(2) show False by (simp add: usize_max_def)
  qed
  have "unat (drop_bit (64 - ?b) h) < 2 ^ ?b" for h :: u64
  proof -
    have "unat h < 2 ^ ?b * 2 ^ (64 - ?b)"
      using unat_lt_width [of h] b by (simp flip: power_add)
    then have "unat h div 2 ^ (64 - ?b) < 2 ^ ?b" by (simp add: div_less_iff_less_mult)
    moreover have "unat (drop_bit (64 - ?b) h) = unat h div 2 ^ (64 - ?b)"
      unfolding unat_drop_bit_eq by (rule drop_bit_eq_div)
    ultimately show ?thesis by simp
  qed
  then have "shard_of cfg key < 2 ^ ?b" by (simp add: shard_of_def Let_def)
  then show ?thesis using n by simp
qed

section \<open>First keys\<close>

lemma page_first_hd:
  assumes f: "frame T a runs X F" and p: "p < npages a" and ne: "recs T a p \<noteq> []"
  shows "page_first T a p = slot_key T (hd (recs T a p))"
proof -
  have "hd (recs T a p) = take (SIZE T) (raw_page a p)"
  proof -
    have "0 < unat (ar_counts a ! p)" using ne length_recs [of T a p] by (metis length_greater_0_conv)
    then show ?thesis using ne by (simp add: recs_def hd_conv_nth page_slots_nth slice_0_take)
  qed
  moreover have "KEY_LEN T \<le> SIZE T" using f by (simp add: frame_def slot_ok_def)
  ultimately show ?thesis by (simp add: page_first_def slot_key_def min_absorb1)
qed

lemma length_page_first: "frame T a runs X F \<Longrightarrow> p < npages a \<Longrightarrow> length (page_first T a p) = KEY_LEN T"
  using frame_page_len [of T a runs X F p] by (simp add: page_first_def frame_def slot_ok_def)

text \<open>The cached prefix answers a comparison, or the page does.\<close>

lemma lex_prefix:
  fixes xs :: "'a::linorder list"
  assumes "length xs = length ys"
  shows "xs < ys \<longleftrightarrow> take n xs < take n ys \<or> take n xs = take n ys \<and> drop n xs < drop n ys"
  using append_less_append [of "take n xs" "take n ys" "drop n xs" "drop n ys"] assms by simp

lemma dir_cmp_le:
  assumes k: "length f = KEY_LEN T" "length key = KEY_LEN T"
    and e: "pe_key e = cached_key T f" and first: "first_key T a (pe_page e) = f"
  shows "is_le (dir_cmp T a e key) \<longleftrightarrow> f \<le> key"
proof -
  let ?n = "min (KEY_LEN T) DIR_KEY_BYTES"
  have c: "take ?n (pe_key e) = take ?n f"
    using k by (simp add: e cached_key_def Let_def splice_def)
  have lex: "x < y \<longleftrightarrow> take ?n x < take ?n y \<or> take ?n x = take ?n y \<and> drop ?n x < drop ?n y"
    if "length x = KEY_LEN T" "length y = KEY_LEN T" for x y :: bytes
    using lex_prefix [of x y ?n] that by simp
  show ?thesis
  proof (cases "DIR_KEY_BYTES < KEY_LEN T")
    case True
    have "take ?n f < take ?n key \<Longrightarrow> f < key" and "take ?n key < take ?n f \<Longrightarrow> key < f"
      using lex [OF k] lex [OF k(2,1)] by blast+
    with True c first show ?thesis
      by (cases "take ?n f" "take ?n key" rule: linorder_cases)
        (auto simp: dir_cmp_def Let_def is_le_def cmp_bytes_def)
  next
    case False
    then have "take ?n f = f" "take ?n key = key" using k by simp_all
    with False c show ?thesis by (auto simp: dir_cmp_def Let_def is_le_def cmp_bytes_def)
  qed
qed

section \<open>Directory search\<close>

lemma partition_loop_spec:
  assumes "left \<le> right"
    and mono: "\<And>i j. left0 \<le> i \<Longrightarrow> i \<le> j \<Longrightarrow> j < right0 \<Longrightarrow>
      is_le (dir_cmp T a (ar_dir a ! j) key) \<Longrightarrow> is_le (dir_cmp T a (ar_dir a ! i) key)"
    and "left0 \<le> left" and "right \<le> right0"
    and "\<And>i. left0 \<le> i \<Longrightarrow> i < left \<Longrightarrow> is_le (dir_cmp T a (ar_dir a ! i) key)"
    and "\<And>i. right \<le> i \<Longrightarrow> i < right0 \<Longrightarrow> \<not> is_le (dir_cmp T a (ar_dir a ! i) key)"
  shows "left0 \<le> partition_loop T a key left right \<and> partition_loop T a key left right \<le> right0 \<and>
    (\<forall>i. left0 \<le> i \<longrightarrow> i < right0 \<longrightarrow>
      (is_le (dir_cmp T a (ar_dir a ! i) key) \<longleftrightarrow> i < partition_loop T a key left right))"
  using assms(1,3-6)
proof (induction "right - left" arbitrary: left right rule: less_induct)
  case less
  let ?le = "\<lambda>i. is_le (dir_cmp T a (ar_dir a ! i) key)"
  show ?case
  proof (cases "left < right")
    case False
    then have "partition_loop T a key left right = left" by (simp add: partition_loop.simps)
    with less.prems False show ?thesis by (auto simp: not_less) (metis linorder_not_le)
  next
    case True
    define mid where "mid = left + (right - left) div 2"
    have mid: "left \<le> mid" "mid < right" using True by (auto simp: mid_def)
    have step: "partition_loop T a key left right =
        (if ?le mid then partition_loop T a key (mid + 1) right else partition_loop T a key left mid)"
      using True by (subst partition_loop.simps) (simp add: Let_def mid_def)
    show ?thesis
    proof (cases "?le mid")
      case le: True
      have "?le i" if "left0 \<le> i" "i < mid + 1" for i
        using mono [of i mid] that le mid less.prems(3) by simp
      with le mid less.prems show ?thesis unfolding step by (simp, intro less.hyps) auto
    next
      case nle: False
      have "\<not> ?le i" if "mid \<le> i" "i < right0" for i
        using mono [of mid i] that nle mid less.prems(2) by auto
      with nle mid less.prems show ?thesis unfolding step by (simp, intro less.hyps) auto
    qed
  qed
qed

text \<open>The order of the records along a chain.\<close>

lemma rep_frame: "arena_rep T a runs F \<Longrightarrow> frame T a runs [] F"
  by (simp add: arena_rep_def)

lemma rep_keys: "arena_rep T a runs F \<Longrightarrow> s < length runs \<Longrightarrow> keys_ok T (ar_cfg a) s (run_recs T a (runs ! s))"
  by (simp add: arena_rep_def)

lemma rep_nonempty:
  assumes "arena_rep T a runs F" and "s < length runs" and "p \<in> set (runs ! s)"
  shows "recs T a p \<noteq> []"
proof -
  have "p \<in> set (concat runs)" using assms(2,3) nth_mem [of s runs] by (simp only: set_concat) blast
  with assms(1) show ?thesis unfolding arena_rep_def by blast
qed

lemma run_order:
  assumes "keys_ok T cfg s (run_recs T a ps)" and "i < j" and "j < length ps"
    and "r \<in> set (recs T a (ps ! i))" and "r' \<in> set (recs T a (ps ! j))"
  shows "slot_key T r < slot_key T r'"
proof -
  have "sorted_wrt (<) (concat (map (\<lambda>p. map (slot_key T) (recs T a p)) ps))"
    using assms(1) by (simp add: keys_ok_def run_recs_def map_concat comp_def)
  then have "sorted_wrt (\<lambda>xs ys. \<forall>x \<in> set xs. \<forall>y \<in> set ys. x < y) (map (\<lambda>p. map (slot_key T) (recs T a p)) ps)"
    by (simp only: sorted_wrt_concat)
  from sorted_wrt_nth_less [OF this assms(2)] assms(2-5) show ?thesis by simp
qed

lemma page_sorted:
  assumes "keys_ok T cfg s (run_recs T a ps)" and "p \<in> set ps"
  shows "sorted_wrt (<) (map (slot_key T) (recs T a p))"
proof -
  have "sorted_wrt (<) (concat (map (\<lambda>p. map (slot_key T) (recs T a p)) ps))"
    using assms(1) by (simp add: keys_ok_def run_recs_def map_concat comp_def)
  with assms(2) show ?thesis by (auto simp: sorted_wrt_concat)
qed

lemma page_first_le:
  assumes rep: "arena_rep T a runs F" and s: "s < length runs" and p: "p \<in> set (runs ! s)" and r: "r \<in> set (recs T a p)"
  shows "page_first T a p \<le> slot_key T r"
proof -
  have ne: "recs T a p \<noteq> []" using r by auto
  have pn: "p < npages a" using frame_bound(1) [OF rep_frame [OF rep] s p] .
  have so: "sorted_wrt (<) (map (slot_key T) (recs T a p))" using page_sorted [OF rep_keys [OF rep s] p] .
  from r obtain i where i: "i < length (recs T a p)" "r = recs T a p ! i" by (metis in_set_conv_nth)
  show ?thesis
  proof (cases i)
    case 0
    then show ?thesis using i ne page_first_hd [OF rep_frame [OF rep] pn ne] by (simp add: hd_conv_nth)
  next
    case (Suc i')
    then show ?thesis
      using sorted_wrt_nth_less [OF so, of 0 i] i ne page_first_hd [OF rep_frame [OF rep] pn ne]
      by (simp add: hd_conv_nth)
  qed
qed

definition covers :: "slot_type \<Rightarrow> arena \<Rightarrow> bytes \<Rightarrow> nat list \<Rightarrow> nat \<Rightarrow> nat list \<Rightarrow> bool" where
  "covers T a key us p vs \<longleftrightarrow>
     (\<forall>r \<in> set (run_recs T a us). slot_key T r < key) \<and> (\<forall>r \<in> set (run_recs T a vs). key < slot_key T r)"

definition target_of :: "nat list list \<Rightarrow> nat \<Rightarrow> nat list \<Rightarrow> nat \<Rightarrow> target" where
  "target_of runs s us p =
     \<lparr>tg_prev = (if us = [] then NONE_U32 else of_nat (last us)), tg_page = of_nat p,
      tg_at = length (concat (take s runs)) + length us\<rparr>"

lemma dir_entry_le:
  assumes rep: "arena_rep T a runs F" and s: "s < length runs" and j: "j < length (runs ! s)"
    and key: "length key = KEY_LEN T"
  shows "is_le (dir_cmp T a (ar_dir a ! (length (concat (take s runs)) + j)) key) \<longleftrightarrow>
    page_first T a (runs ! s ! j) \<le> key"
proof -
  note f = rep_frame [OF rep]
  let ?i = "length (concat (take s runs)) + j" and ?p = "runs ! s ! j"
  have p: "?p < npages a" using frame_bound(1) [OF f s] j by simp
  note d = dir_nth [OF f s j]
  have "pe_key (ar_dir a ! ?i) = map pe_key (ar_dir a) ! ?i" using d(1) by simp
  also have "\<dots> = cached_key T (page_first T a ?p)"
    using rep concat_nth_split [OF s j] by (simp add: arena_rep_def)
  finally have k: "pe_key (ar_dir a ! ?i) = cached_key T (page_first T a ?p)" .
  have "first_key T a (pe_page (ar_dir a ! ?i)) = page_first T a ?p"
    using d(2) frame_index [OF f p] by (simp add: first_key_def ar_page_def page_first_def)
  then show ?thesis using dir_cmp_le [OF length_page_first [OF f p] key k] by simp
qed

lemma find_page_none:
  assumes "frame T a runs X F" and "s < length runs"
  shows "find_page T a s key = None \<longleftrightarrow> runs ! s = []"
  using frame_run [OF assms] by (simp add: find_page_def Let_def)

lemma find_page_correct:
  assumes rep: "arena_rep T a runs F" and s: "s < length runs" and key: "length key = KEY_LEN T"
    and ne: "runs ! s \<noteq> []"
  shows "\<exists>us p vs. runs ! s = us @ p # vs \<and> find_page T a s key = Some (target_of runs s us p) \<and> covers T a key us p vs"
proof -
  note f = rep_frame [OF rep]
  let ?run = "runs ! s" and ?L = "length (concat (take s runs))" and ?n = "length (runs ! s)"
  let ?le = "\<lambda>i. is_le (dir_cmp T a (ar_dir a ! i) key)"
  note keys = rep_keys [OF rep s]
  have le: "?le (?L + j) \<longleftrightarrow> page_first T a (?run ! j) \<le> key" if "j < ?n" for j
    using dir_entry_le [OF rep s that key] .
  have firsts: "page_first T a (?run ! i) < page_first T a (?run ! j)" if "i < j" "j < ?n" for i j
  proof -
    have m: "?run ! i \<in> set ?run" "?run ! j \<in> set ?run" using that by simp_all
    have ni: "recs T a (?run ! i) \<noteq> []" "recs T a (?run ! j) \<noteq> []" using rep_nonempty [OF rep s] m by blast+
    have bi: "?run ! i < npages a" "?run ! j < npages a" using frame_bound(1) [OF f s] m by blast+
    have "slot_key T (hd (recs T a (?run ! i))) < slot_key T (hd (recs T a (?run ! j)))"
      using run_order [OF keys that] ni by simp
    then show ?thesis using page_first_hd [OF f] bi ni by simp
  qed
  have mono: "?le i" if "?L + 1 \<le> i" "i \<le> j" "j < ?L + ?n" "?le j" for i j
  proof (cases "i = j")
    case False
    have "page_first T a (?run ! (i - ?L)) < page_first T a (?run ! (j - ?L))"
      using that False by (intro firsts) auto
    moreover have "page_first T a (?run ! (j - ?L)) \<le> key" using le [of "j - ?L"] that by simp
    ultimately show ?thesis using le [of "i - ?L"] that by simp
  qed (use that in simp)
  define c where "c = partition_loop T a key (?L + 1) (?L + ?n)"
  have spec: "?L + 1 \<le> c \<and> c \<le> ?L + ?n \<and> (\<forall>i. ?L + 1 \<le> i \<longrightarrow> i < ?L + ?n \<longrightarrow> (?le i \<longleftrightarrow> i < c))"
    unfolding c_def using ne mono by (intro partition_loop_spec) (auto simp: Suc_le_eq)
  define j where "j = c - 1 - ?L"
  have j: "c - 1 = ?L + j" "j < ?n" using spec by (auto simp: j_def)
  let ?us = "take j ?run" and ?p = "?run ! j" and ?vs = "drop (Suc j) ?run"
  have run: "?run = ?us @ ?p # ?vs" using j by (simp add: id_take_nth_drop)
  have "find_page T a s key = Some (target_of runs s ?us ?p)"
  proof -
    have prev: "pe_page (ar_dir a ! (?L + j - 1)) = of_nat (last ?us)" if "0 < j"
      using dir_nth(2) [OF f s, of "j - 1"] that j(2)
      by (subst last_conv_nth) (auto simp: min_absorb2)
    have "?us = [] \<longleftrightarrow> j = 0" using j(2) by auto
    then show ?thesis
      using frame_run [OF f s] ne j prev dir_nth(2) [OF f s j(2)]
      by (auto simp: find_page_def c_def [symmetric, simplified] target_of_def Let_def)
  qed
  moreover have "covers T a key ?us ?p ?vs"
    unfolding covers_def
  proof (intro conjI ballI)
    fix r assume "r \<in> set (run_recs T a ?us)"
    then obtain q where q: "q \<in> set ?us" "r \<in> set (recs T a q)" by (auto simp: set_run_recs)
    then obtain i where i: "i < j" "r \<in> set (recs T a (?run ! i))"
      using j(2) by (auto simp: in_set_conv_nth [of q])
    have jm: "?run ! j \<in> set ?run" using j(2) by simp
    have "slot_key T r < slot_key T (hd (recs T a (?run ! j)))"
      using run_order [OF keys i(1) j(2) i(2)] rep_nonempty [OF rep s jm] by simp
    also have "\<dots> = page_first T a (?run ! j)"
      using page_first_hd [OF f] frame_bound(1) [OF f s jm] rep_nonempty [OF rep s jm] by simp
    also have "\<dots> \<le> key"
    proof -
      have "?le (?L + j) \<longleftrightarrow> ?L + j < c" using spec i(1) j(2) by simp
      moreover have "?L + j < c" using j(1) spec by linarith
      ultimately show ?thesis using le [OF j(2)] by simp
    qed
    finally show "slot_key T r < key" .
  next
    fix r assume "r \<in> set (run_recs T a ?vs)"
    then obtain q where q: "q \<in> set ?vs" "r \<in> set (recs T a q)" by (auto simp: set_run_recs)
    then obtain k where "k < ?n - Suc j" "q = ?run ! (Suc j + k)"
      by (auto simp: in_set_conv_nth [of q])
    with q(2) obtain i where i: "j < i" "i < ?n" "r \<in> set (recs T a (?run ! i))"
      using that [of "Suc j + k"] by simp
    have "?le (?L + i) \<longleftrightarrow> ?L + i < c" using spec i(1,2) by simp
    moreover have "\<not> ?L + i < c" using i(1) j(1) by linarith
    ultimately have "\<not> ?le (?L + i)" by simp
    then have "key < page_first T a (?run ! i)" using le [OF i(2)] by simp
    also have "\<dots> \<le> slot_key T r" using page_first_le [OF rep s _ i(3)] i(2) by simp
    finally show "key < slot_key T r" .
  qed
  ultimately show ?thesis using run by blast
qed

section \<open>The abstract map\<close>

lemma map_of_functional:
  assumes "\<And>v w. (k, v) \<in> set xs \<Longrightarrow> (k, w) \<in> set xs \<Longrightarrow> v = w"
  shows "map_of xs k = Some v \<longleftrightarrow> (k, v) \<in> set xs"
  using assms map_of_SomeD weak_map_of_SomeI by metis

lemma rep_records:
  assumes "arena_rep T a runs F"
  shows "set (arena_records T a) = (\<Union>s < length runs. set (run_recs T a (runs ! s)))"
proof -
  note f = rep_frame [OF assms]
  have "set (arena_records T a) = (\<Union>p < npages a. set (recs T a p))"
    by (auto simp: arena_records_def set_run_recs)
  also have "\<dots> = (\<Union>p \<in> set (concat runs @ [] @ F). set (recs T a p))"
    using frame_set [OF f] by simp
  also have "\<dots> = (\<Union>p \<in> set (concat runs). set (recs T a p))"
  proof -
    have "recs T a p = []" if "p \<in> set F" for p using f that by (intro recs_empty) (simp add: frame_def)
    then show ?thesis by auto
  qed
  also have "\<dots> = (\<Union>ps \<in> set runs. set (run_recs T a ps))"
    by (simp add: set_run_recs)
  also have "\<dots> = (\<Union>s < length runs. set (run_recs T a (runs ! s)))"
    by (rule UN_nth [symmetric])
  finally show ?thesis .
qed

lemma sorted_key_unique:
  assumes "keys_ok T cfg s rs" and "r \<in> set rs" and "r' \<in> set rs" and "slot_key T r = slot_key T r'"
  shows "r = r'"
proof -
  have "distinct (map (slot_key T) rs)"
    using assms(1) by (simp add: keys_ok_def strict_sorted_iff)
  then have "inj_on (slot_key T) (set rs)" by (simp add: distinct_map)
  from inj_onD [OF this assms(4,2,3)] show ?thesis .
qed

lemma rep_shard: "arena_rep T a runs F \<Longrightarrow> shard_of (ar_cfg a) k < length runs"
  using shard_of_less [of "ar_cfg a" k] by (simp add: arena_rep_def frame_def links_ok_def)

lemma rep_shard_recs:
  assumes rep: "arena_rep T a runs F"
  shows "r \<in> set (arena_records T a) \<and> slot_key T r = k \<longleftrightarrow>
    r \<in> set (run_recs T a (runs ! shard_of (ar_cfg a) k)) \<and> slot_key T r = k"
proof -
  have "s = shard_of (ar_cfg a) (slot_key T r)" if "s < length runs" "r \<in> set (run_recs T a (runs ! s))" for s
    using rep_keys [OF rep that(1)] that(2) by (simp add: keys_ok_def)
  then show ?thesis using rep_records [OF rep] rep_shard [OF rep, of k] by auto
qed

lemma arena_map_iff:
  assumes rep: "arena_rep T a runs F"
  shows "arena_map T a k = Some r \<longleftrightarrow> r \<in> set (run_recs T a (runs ! shard_of (ar_cfg a) k)) \<and> slot_key T r = k"
proof -
  note s = rep_shard [OF rep, of k]
  have "arena_map T a k = Some r \<longleftrightarrow> (k, r) \<in> set (map (\<lambda>r. (slot_key T r, r)) (arena_records T a))"
    unfolding arena_map_def
  proof (rule map_of_functional)
    fix v w
    assume "(k, v) \<in> set (map (\<lambda>r. (slot_key T r, r)) (arena_records T a))"
      and "(k, w) \<in> set (map (\<lambda>r. (slot_key T r, r)) (arena_records T a))"
    then have "v \<in> set (run_recs T a (runs ! shard_of (ar_cfg a) k)) \<and> slot_key T v = k"
      and "w \<in> set (run_recs T a (runs ! shard_of (ar_cfg a) k)) \<and> slot_key T w = k"
      using rep_shard_recs [OF rep, of v k] rep_shard_recs [OF rep, of w k] by auto
    then show "v = w" using sorted_key_unique [OF rep_keys [OF rep s]] by simp
  qed
  also have "\<dots> \<longleftrightarrow> r \<in> set (arena_records T a) \<and> slot_key T r = k" by auto
  finally show ?thesis using rep_shard_recs [OF rep] by simp
qed

lemma arena_map_none:
  assumes rep: "arena_rep T a runs F"
  shows "arena_map T a k = None \<longleftrightarrow> k \<notin> slot_key T ` set (run_recs T a (runs ! shard_of (ar_cfg a) k))"
    (is "_ \<longleftrightarrow> k \<notin> slot_key T ` ?R")
proof -
  have "k \<in> slot_key T ` ?R \<longleftrightarrow> (\<exists>r. r \<in> ?R \<and> slot_key T r = k)" by blast
  also have "\<dots> \<longleftrightarrow> (\<exists>r. arena_map T a k = Some r)" using arena_map_iff [OF rep, of k] by simp
  finally show ?thesis by simp
qed

section \<open>Lookup\<close>

lemma recs_search:
  assumes rep: "arena_rep T a runs F" and s: "s < length runs" and p: "p \<in> set (runs ! s)"
  shows "search_ok (map (slot_key T) (recs T a p)) key (search_in T a (of_nat p) (ar_count a (of_nat p)) key)"
proof -
  note f = rep_frame [OF rep]
  have pn: "unat (of_nat p :: u32) = p" using frame_index [OF f] frame_bound(1) [OF f s p] by simp
  have "KEY_LEN T \<le> SIZE T" using f by (simp add: frame_def slot_ok_def)
  then show ?thesis
    using search_correct [of T "unat (ar_counts a ! p)" "raw_page a p" key] page_sorted [OF rep_keys [OF rep s] p]
    by (simp add: search_in_def ar_count_def ar_page_def pn recs_def)
qed

text \<open>The three outcomes of looking for a key.\<close>

lemma rep_find:
  assumes rep: "arena_rep T a runs F" and key: "length key = KEY_LEN T"
  defines "s \<equiv> shard_of (ar_cfg a) key"
  obtains (empty) "runs ! s = []" "find_page T a s key = None" "arena_map T a key = None"
  | (found) us p vs pos where "runs ! s = us @ p # vs" "find_page T a s key = Some (target_of runs s us p)"
      "covers T a key us p vs" "search_in T a (of_nat p) (ar_count a (of_nat p)) key = Inr pos"
      "pos < length (recs T a p)" "slot_key T (recs T a p ! pos) = key" "arena_map T a key = Some (recs T a p ! pos)"
  | (absent) us p vs pos where "runs ! s = us @ p # vs" "find_page T a s key = Some (target_of runs s us p)"
      "covers T a key us p vs" "search_in T a (of_nat p) (ar_count a (of_nat p)) key = Inl pos"
      "search_ok (map (slot_key T) (recs T a p)) key (Inl pos)" "arena_map T a key = None"
proof (cases "runs ! s = []")
  case True
  with find_page_none [OF rep_frame [OF rep], of s] rep_shard [OF rep, of key] arena_map_none [OF rep, of key]
  show thesis by (intro empty) (simp_all add: s_def)
next
  case False
  have s: "s < length runs" using rep_shard [OF rep] by (simp add: s_def)
  obtain us p vs where run: "runs ! s = us @ p # vs" and fp: "find_page T a s key = Some (target_of runs s us p)"
    and cov: "covers T a key us p vs"
    using find_page_correct [OF rep s key False] by blast
  have p: "p \<in> set (runs ! s)" using run by simp
  note so = recs_search [OF rep s p, of key]
  have only: "r \<in> set (recs T a p)" if "r \<in> set (run_recs T a (runs ! s))" "slot_key T r = key" for r
    using that cov by (auto simp: run covers_def)
  show thesis
  proof (cases "search_in T a (of_nat p) (ar_count a (of_nat p)) key")
    case (Inr pos)
    with so have pos: "pos < length (recs T a p)" "slot_key T (recs T a p ! pos) = key"
      by (auto simp: search_ok_def)
    then have "arena_map T a key = Some (recs T a p ! pos)"
      using arena_map_iff [OF rep, of key "recs T a p ! pos"] by (simp add: s_def [symmetric] run)
    with found run fp cov Inr pos show thesis by blast
  next
    case (Inl pos)
    have "key \<notin> slot_key T ` set (recs T a p)"
    proof
      assume "key \<in> slot_key T ` set (recs T a p)"
      then obtain i where "i < length (recs T a p)" "slot_key T (recs T a p ! i) = key"
        by (auto simp: in_set_conv_nth)
      with so Inl show False by (cases "i < pos") (auto simp: search_ok_def)
    qed
    then have "key \<notin> slot_key T ` set (run_recs T a (runs ! s))" using only by auto
    then have "arena_map T a key = None" using arena_map_none [OF rep, of key] by (simp add: s_def)
    with absent run fp cov Inl so show thesis by fastforce
  qed
qed

lemma slot_offset:
  assumes f: "frame T a runs X F" and p: "p < npages a" and pos: "pos < length (recs T a p)"
  shows "(p * PAGE_BYTES + pos * SIZE T) div PAGE_BYTES = p" and "(p * PAGE_BYTES + pos * SIZE T) mod PAGE_BYTES = pos * SIZE T"
    and "pos * SIZE T + SIZE T \<le> PAGE_BYTES"
    and "slice (raw_page a p) (pos * SIZE T) (pos * SIZE T + SIZE T) = recs T a p ! pos"
proof -
  have n: "pos < unat (ar_counts a ! p)" using pos by (simp add: length_recs)
  have "pos * SIZE T + SIZE T \<le> unat (ar_counts a ! p) * SIZE T" using chunk_in_range_mult [OF n] .
  also have "\<dots> \<le> PAGE_BYTES" using frame_fits [OF f p] frame_page_len [OF f p] by simp
  finally show le: "pos * SIZE T + SIZE T \<le> PAGE_BYTES" .
  moreover have "0 < SIZE T" using f by (simp add: frame_def slot_ok_def)
  ultimately have lt: "pos * SIZE T < PAGE_BYTES" by simp
  then show "(p * PAGE_BYTES + pos * SIZE T) div PAGE_BYTES = p" "(p * PAGE_BYTES + pos * SIZE T) mod PAGE_BYTES = pos * SIZE T"
    by simp_all
  show "slice (raw_page a p) (pos * SIZE T) (pos * SIZE T + SIZE T) = recs T a p ! pos"
    using n by (simp add: recs_def page_slots_nth)
qed

lemma locate_rep:
  assumes rep: "arena_rep T a runs F" and key: "length key = KEY_LEN T"
  shows "(arena_map T a key = None \<and> locate T a key = Some None) \<or>
    (\<exists>s us p vs pos. s < length runs \<and> runs ! s = us @ p # vs \<and> pos < length (recs T a p) \<and>
       locate T a key = Some (Some (p * PAGE_BYTES + pos * SIZE T)) \<and>
       slot_key T (recs T a p ! pos) = key \<and> arena_map T a key = Some (recs T a p ! pos))"
proof -
  note f = rep_frame [OF rep]
  let ?s = "shard_of (ar_cfg a) key"
  have s: "?s < length runs" using rep_shard [OF rep] .
  have pn: "unat (of_nat p :: u32) = p" if "runs ! ?s = us @ p # vs" for us p vs
    using frame_index [OF f] frame_bound(1) [OF f s, of p] that by simp
  from rep key show ?thesis
  proof (cases rule: rep_find)
    case empty
    then show ?thesis using key by (simp add: locate_def)
  next
    case (found us p vs pos)
    then have "locate T a key = Some (Some (p * PAGE_BYTES + pos * SIZE T))"
      using key pn [OF found(1)] by (simp add: locate_def target_of_def)
    with found s show ?thesis by blast
  next
    case (absent us p vs pos)
    then show ?thesis using key by (simp add: locate_def target_of_def)
  qed
qed

lemma get_slot_rep:
  assumes rep: "arena_rep T a runs F" and key: "length key = KEY_LEN T"
  shows "arena_get_slot T a key = Some (arena_map T a key)"
proof -
  note f = rep_frame [OF rep]
  from locate_rep [OF assms] show ?thesis
  proof (elim disjE exE conjE)
    fix s us p vs pos
    assume a: "s < length runs" "runs ! s = us @ p # vs" "pos < length (recs T a p)"
      "locate T a key = Some (Some (p * PAGE_BYTES + pos * SIZE T))" "arena_map T a key = Some (recs T a p ! pos)"
    then have p: "p < npages a" using frame_bound(1) [OF f, of s p] by simp
    show ?thesis using a slot_offset [OF f p a(3)] by (simp add: arena_get_slot_def Let_def)
  qed (simp add: arena_get_slot_def)
qed

end
