(* ===== verification/Arena_Insert.thy ===== *)
theory Arena_Insert
  imports Arena_Map
begin

text \<open>
  Insertion into the arena. \<open>loose\<close> is the invariant between the structural part of an insert
  (opening a shard, splitting a page) and the write of the slot: one page may be empty and the
  cached directory keys at the positions \<open>E\<close> may be stale. Every structural part leads to a
  \<open>loose\<close> state with the same records, \<open>place_slot\<close> leads back to \<open>arena_rep\<close>, and together
  they insert one record into the abstract map.
\<close>

section \<open>Between two steps\<close>

definition dkeys :: "slot_type \<Rightarrow> arena \<Rightarrow> nat list list \<Rightarrow> nat set \<Rightarrow> bool" where
  "dkeys T a runs E \<longleftrightarrow> length (ar_dir a) = length (concat runs) \<and>
     (\<forall>i < length (concat runs). i \<notin> E \<longrightarrow>
        pe_key (ar_dir a ! i) = cached_key T (page_first T a (concat runs ! i)))"

lemma dkeys_iff:
  "dkeys T a runs {} \<longleftrightarrow> map pe_key (ar_dir a) = map (\<lambda>p. cached_key T (page_first T a p)) (concat runs)"
  by (auto simp: dkeys_def list_eq_iff_nth_eq)

definition loose :: "slot_type \<Rightarrow> arena \<Rightarrow> nat list list \<Rightarrow> nat list \<Rightarrow> nat \<Rightarrow> nat set \<Rightarrow> bool" where
  "loose T a runs F p E \<longleftrightarrow> frame T a runs [] F \<and> ac_shards (ar_cfg a) \<le> usize_max \<and>
     (\<forall>q \<in> set (concat runs). q \<noteq> p \<longrightarrow> recs T a q \<noteq> []) \<and> dkeys T a runs E"

lemma rep_loose: "arena_rep T a runs F \<Longrightarrow> loose T a runs F p {}"
  by (simp add: arena_rep_def loose_def dkeys_iff)

lemma loose_rep:
  assumes "loose T a runs F p {}" and "recs T a p \<noteq> []"
    and "\<And>s. s < length runs \<Longrightarrow> keys_ok T (ar_cfg a) s (run_recs T a (runs ! s))"
    and "ar_total a = length (run_recs T a (concat runs))"
  shows "arena_rep T a runs F"
  using assms by (auto simp: arena_rep_def loose_def dkeys_iff simp del: set_concat)

lemma dkeys_refresh:
  assumes f: "frame T a runs X F" and d: "dkeys T a runs E" and k: "k < length (concat runs)"
  shows "dkeys T (refresh_dir_key T k a) runs (E - {k})"
proof -
  have m: "concat runs ! k \<in> set (concat runs)" using k by (rule nth_mem)
  then have p: "concat runs ! k < npages a" using frame_set [OF f] by auto
  have pg: "map pe_page (ar_dir a) = map of_nat (concat runs)" using f by (simp add: frame_def links_ok_def)
  have l: "length (ar_dir a) = length (concat runs)" using d by (simp add: dkeys_def)
  have "pe_page (ar_dir a ! k) = map pe_page (ar_dir a) ! k" using k l by simp
  then have e: "pe_page (ar_dir a ! k) = of_nat (concat runs ! k)" using k pg by simp
  have keys: "map pe_key (ar_dir (refresh_dir_key T k a)) =
      (map pe_key (ar_dir a))[k := cached_key T (page_first T a (concat runs ! k))]"
    using refresh_keys [of k a, OF _ e] frame_index [OF f p] k l by (simp add: page_first_def)
  have "pe_key (ar_dir (refresh_dir_key T k a) ! i) = cached_key T (page_first T a (concat runs ! i))"
    if "i < length (concat runs)" "i \<notin> E - {k}" for i
  proof -
    have "pe_key (ar_dir (refresh_dir_key T k a) ! i) = map pe_key (ar_dir (refresh_dir_key T k a)) ! i"
      using that l by simp
    also have "\<dots> = (if i = k then cached_key T (page_first T a (concat runs ! k)) else pe_key (ar_dir a ! i))"
      unfolding keys using that l k by (simp add: nth_list_update)
    also have "\<dots> = cached_key T (page_first T a (concat runs ! i))"
      using d that by (auto simp: dkeys_def)
    finally show ?thesis .
  qed
  then show ?thesis using l by (simp add: dkeys_def page_first_def)
qed

lemma dkeys_mono: "dkeys T a runs E \<Longrightarrow> E \<subseteq> E' \<Longrightarrow> dkeys T a runs E'"
  by (auto simp: dkeys_def)

lemma dkeys_write:
  assumes d: "dkeys T a runs E" and dir: "ar_dir b = ar_dir a"
    and same: "\<And>i. i < length (concat runs) \<Longrightarrow> i \<notin> E' \<Longrightarrow>
      page_first T b (concat runs ! i) = page_first T a (concat runs ! i)" and sub: "E \<subseteq> E'"
  shows "dkeys T b runs E'"
  using d same sub by (auto simp: dkeys_def dir)

lemma dkeys_insert:
  assumes d: "dkeys T a runs {}" and at: "at \<le> length (concat runs)"
    and dir: "ar_dir b = take at (ar_dir a) @ pending (of_nat q) # drop at (ar_dir a)"
    and runs': "concat runs' = take at (concat runs) @ q # drop at (concat runs)"
    and same: "\<And>p. p \<in> set (concat runs) \<Longrightarrow> page_first T b p = page_first T a p"
  shows "dkeys T b runs' {at}"
proof -
  have l: "length (ar_dir a) = length (concat runs)" using d by (simp add: dkeys_def)
  have k: "pe_key (ar_dir a ! i) = cached_key T (page_first T b (concat runs ! i))" if "i < length (concat runs)" for i
    using d same [OF nth_mem [OF that]] that by (simp add: dkeys_def)
  have "pe_key (ar_dir b ! i) = cached_key T (page_first T b (concat runs' ! i))"
    if "i < length (concat runs')" "i \<noteq> at" for i
  proof (cases "i < at")
    case True
    then show ?thesis using k [of i] at l by (simp add: dir runs' nth_append)
  next
    case False
    with that(2) obtain j where "i = Suc (at + j)" using less_imp_Suc_add [of at i] by auto
    then show ?thesis using k [of "at + j"] that at l by (simp add: dir runs' nth_append)
  qed
  then show ?thesis using l at by (simp add: dkeys_def dir runs')
qed

section \<open>Writing the slot\<close>

lemma slots_per_page_small: "slots_per_page T \<le> PAGE_BYTES"
  by (simp add: slots_per_page_def)

lemma run_position:
  assumes f: "frame T a runs X F" and s: "s < length runs" and run: "runs ! s = us @ p # vs"
  defines "k \<equiv> length (concat (take s runs)) + length us"
  shows "k < length (concat runs)" and "concat runs ! k = p"
    and "i < length (concat runs) \<Longrightarrow> i \<noteq> k \<Longrightarrow> concat runs ! i \<noteq> p"
proof -
  have k: "k < length (concat runs) \<and> concat runs ! k = p"
    using concat_nth_split [OF s, of "length us"] run by (simp add: k_def)
  then show "k < length (concat runs)" "concat runs ! k = p" by simp_all
  have "distinct (concat runs)" using frame_dist [OF f] by simp
  then show "i < length (concat runs) \<Longrightarrow> i \<noteq> k \<Longrightarrow> concat runs ! i \<noteq> p"
    using k nth_eq_iff_index_eq by blast
qed

lemma place_slot_loose:
  assumes l: "loose T a runs F p E" and s: "s < length runs" and run: "runs ! s = us @ p # vs"
    and pos: "pos \<le> length (recs T a p)" and room: "length (recs T a p) < slots_per_page T"
    and k: "k = length (concat (take s runs)) + length us" and E: "E \<subseteq> (if pos = 0 then {k} else {})"
    and slot: "length slot = SIZE T"
  defines "b \<equiv> place_slot T slot (of_nat p) pos (length (recs T a p)) k a"
  shows "loose T b runs F p {}"
    and "recs T b p = take pos (recs T a p) @ slot # drop pos (recs T a p)"
    and "q < npages a \<Longrightarrow> q \<noteq> p \<Longrightarrow> recs T b q = recs T a q"
    and "ar_total b = ar_total a + 1" and "ar_cfg b = ar_cfg a" and "npages b = npages a"
proof -
  have f: "frame T a runs [] F" using l by (simp add: loose_def)
  have ok: "slot_ok T" using f by (simp add: frame_def)
  have p: "p < npages a" using frame_bound(1) [OF f s] run by simp
  have pn: "unat (of_nat p :: u32) = p" using frame_index [OF f p] by simp
  let ?n = "unat (ar_counts a ! p)" and ?g = "page_insert T pos (unat (ar_counts a ! p)) slot"
  have fits: "(?n + 1) * SIZE T \<le> length (raw_page a p)"
    using spp_fits [OF ok, of "?n + 1"] room frame_page_len [OF f p] by (simp add: length_recs)
  note ins = page_insert_slots [of T ?n "raw_page a p" pos slot, folded recs_def]
  have len: "length (?g (raw_page a p)) = PAGE_BYTES"
    and new: "page_slots (SIZE T) (?n + 1) (?g (raw_page a p)) = take pos (recs T a p) @ slot # drop pos (recs T a p)"
    using ins ok fits pos slot frame_page_len [OF f p] by (simp_all add: length_recs slot_ok_def)
  let ?a1 = "a\<lparr>ar_pool := page_mut PAGE_BYTES p ?g (ar_pool a)\<rparr>"
  let ?a2 = "?a1\<lparr>ar_counts := (ar_counts ?a1)[p := ar_counts a ! p + 1]\<rparr>"
  let ?a3 = "?a2\<lparr>ar_total := ar_total a + 1\<rparr>"
  note w1 = pool_write_frame [OF f p, of ?g, OF len]
  have c: "unat (ar_counts a ! p + 1) = ?n + 1"
    using room slots_per_page_small [of T] by (simp add: length_recs unat_word_ariths PAGE_BYTES_def)
  have live: "p \<notin> set ([] @ F)" using frame_disjoint(2) [OF f s] run by simp
  have p1: "p < npages ?a1" using p w1(2) by simp
  have n1: "unat (ar_counts a ! p + 1) \<le> slots_per_page T" using c room by (simp add: length_recs)
  note w2 = count_write_frame [OF w1(1) p1 n1 live]
  have f3: "frame T ?a3 runs [] F" using w2(1) by simp
  have np3: "npages ?a3 = npages a" using w1(2) w2(2) by simp
  have rp: "recs T ?a3 p = take pos (recs T a p) @ slot # drop pos (recs T a p)"
    using w2(5) w1(3) [OF p] c new by simp
  have ro: "recs T ?a3 q = recs T a q" if "q < npages a" "q \<noteq> p" for q
    using w2(4) [of q] w1(4) [of q] that by simp
  have po: "page_first T ?a3 q = page_first T a q" if "q < npages a" "q \<noteq> p" for q
    using w2(3) [of q] w1(3) [of q] that by (simp add: page_first_def)
  have pp: "page_first T ?a3 p = page_first T a p" if "pos \<noteq> 0"
  proof -
    have ne: "recs T a p \<noteq> []" using that pos by auto
    then have "hd (recs T ?a3 p) = hd (recs T a p)" unfolding rp using that by simp
    moreover have "recs T ?a3 p \<noteq> []" unfolding rp by simp
    moreover have "p < npages ?a3" unfolding np3 by (rule p)
    ultimately show ?thesis using page_first_hd [OF f p ne] page_first_hd [OF f3] by metis
  qed
  note kp = run_position [OF f s run, folded k]
  have d3: "dkeys T ?a3 runs (if pos = 0 then {k} else {})"
  proof (rule dkeys_write [of T a runs E])
    show "dkeys T a runs E" using l by (simp add: loose_def)
    show "ar_dir ?a3 = ar_dir a" by simp
    show "E \<subseteq> (if pos = 0 then {k} else {})" by (rule E)
    fix i assume i: "i < length (concat runs)" "i \<notin> (if pos = 0 then {k} else {})"
    then have "concat runs ! i < npages a" using nth_mem [OF i(1)] frame_set [OF f] by auto
    with i kp po pp show "page_first T ?a3 (concat runs ! i) = page_first T a (concat runs ! i)"
      by (cases "i = k") (auto split: if_splits)
  qed
  have b: "b = (if pos = 0 then refresh_dir_key T k ?a3 else ?a3)"
    by (simp add: b_def place_slot_def Let_def pn length_recs)
  have fb: "frame T b runs [] F" unfolding b using f3 refresh_frame [OF f3, of k] by (split if_split) blast
  have rb: "recs T b = recs T ?a3" "ar_cfg b = ar_cfg a" "ar_total b = ar_total a + 1"
    by (simp_all add: b)
  have "npages b = npages a" unfolding b by (simp only: if_distrib [of npages] refresh_fields np3 if_cancel)
  note rb = rb this
  show "recs T b p = take pos (recs T a p) @ slot # drop pos (recs T a p)"
    "q < npages a \<Longrightarrow> q \<noteq> p \<Longrightarrow> recs T b q = recs T a q"
    "ar_total b = ar_total a + 1" "ar_cfg b = ar_cfg a" "npages b = npages a"
    using rp ro unfolding rb by blast+
  have db: "dkeys T b runs {}"
    using d3 dkeys_refresh [OF f3 d3 kp(1)] by (auto simp: b split: if_splits)
  have "recs T b q \<noteq> []" if "q \<in> set (concat runs)" "q \<noteq> p" for q
  proof -
    have "q < npages a" using that frame_set [OF f] by auto
    with that ro rb l show ?thesis by (auto simp: loose_def simp del: set_concat)
  qed
  then show "loose T b runs F p {}" using fb db rb l by (simp add: loose_def)
qed

section \<open>One record more\<close>

lemma option_eq_Some: "(\<And>r. x = Some r \<longleftrightarrow> y = Some r) \<Longrightarrow> x = y"
  by (cases x; cases y) auto

lemma rep_map_insert:
  assumes ra: "arena_rep T a runs F" and rb: "arena_rep T b runs' F'" and cfg: "ar_cfg b = ar_cfg a"
    and other: "\<And>s'. s' < length runs \<Longrightarrow> s' \<noteq> s \<Longrightarrow> set (run_recs T b (runs' ! s')) = set (run_recs T a (runs ! s'))"
    and here: "set (run_recs T b (runs' ! s)) = insert slot {r \<in> set (run_recs T a (runs ! s)). slot_key T r \<noteq> slot_key T slot}"
    and s: "s = shard_of (ar_cfg a) (slot_key T slot)"
  shows "arena_map T b = (arena_map T a)(slot_key T slot \<mapsto> slot)"
proof (rule ext, rule option_eq_Some)
  fix k r
  have "arena_map T b k = Some r \<longleftrightarrow> r \<in> set (run_recs T b (runs' ! shard_of (ar_cfg a) k)) \<and> slot_key T r = k"
    using arena_map_iff [OF rb, of k r] cfg by simp
  also have "\<dots> \<longleftrightarrow> (if k = slot_key T slot then r = slot
      else r \<in> set (run_recs T a (runs ! shard_of (ar_cfg a) k)) \<and> slot_key T r = k)"
    using here other [OF rep_shard [OF ra, of k]] s by (cases "shard_of (ar_cfg a) k = s") auto
  also have "\<dots> \<longleftrightarrow> ((arena_map T a)(slot_key T slot \<mapsto> slot)) k = Some r"
    using arena_map_iff [OF ra, of k r] by auto
  finally show "arena_map T b k = Some r \<longleftrightarrow> ((arena_map T a)(slot_key T slot \<mapsto> slot)) k = Some r" .
qed

lemma keys_ok_insert:
  assumes "keys_ok T cfg s (A @ B)" and "\<forall>r \<in> set A. slot_key T r < slot_key T slot"
    and "\<forall>r \<in> set B. slot_key T slot < slot_key T r" and "shard_of cfg (slot_key T slot) = s"
  shows "keys_ok T cfg s (A @ slot # B)"
  using assms by (auto simp: keys_ok_def sorted_wrt_append)

lemma run_recs_length:
  "length (run_recs T a (concat runs)) = length (concat (map (run_recs T a) runs))"
  by (simp add: run_recs_concat)

lemma length_concat_one:
  "s < length xss \<Longrightarrow> length yss = length xss \<Longrightarrow> (\<And>i. i < length xss \<Longrightarrow> i \<noteq> s \<Longrightarrow> yss ! i = xss ! i) \<Longrightarrow>
     length (concat yss) + length (xss ! s) = length (concat xss) + length (yss ! s)"
proof -
  assume s: "s < length xss" and l: "length yss = length xss" and same: "\<And>i. i < length xss \<Longrightarrow> i \<noteq> s \<Longrightarrow> yss ! i = xss ! i"
  have "yss = xss[s := yss ! s]" using s l same by (intro nth_equalityI) (auto simp: nth_list_update)
  then have "length (concat yss) = length (concat (take (length xss) (xss[s := yss ! s])))" using l by simp
  then show ?thesis using length_concat_take_update [OF s order_refl, of "yss ! s"] s by simp
qed

definition ready :: "slot_type \<Rightarrow> arena \<Rightarrow> nat list list \<Rightarrow> arena \<Rightarrow> nat \<Rightarrow> bytes list \<Rightarrow> bytes list \<Rightarrow> nat \<Rightarrow> nat \<Rightarrow> nat \<Rightarrow> bool" where
  "ready T a runs c s A B p pos k \<longleftrightarrow> (\<exists>runs' F' E us vs. loose T c runs' F' p E \<and> E \<subseteq> (if pos = 0 then {k} else {}) \<and>
     runs' ! s = us @ p # vs \<and> k = length (concat (take s runs')) + length us \<and>
     pos \<le> length (recs T c p) \<and> length (recs T c p) < slots_per_page T \<and>
     A = run_recs T c us @ take pos (recs T c p) \<and> B = drop pos (recs T c p) @ run_recs T c vs \<and>
     length runs' = length runs \<and>
     (\<forall>s' < length runs. s' \<noteq> s \<longrightarrow> run_recs T c (runs' ! s') = run_recs T a (runs ! s')) \<and>
     ar_cfg c = ar_cfg a \<and> ar_total c = ar_total a)"

lemma ready_place:
  assumes rep: "arena_rep T a runs F" and s: "s = shard_of (ar_cfg a) (slot_key T slot)"
    and recs: "run_recs T a (runs ! s) = A @ B"
    and AB: "\<forall>r \<in> set A. slot_key T r < slot_key T slot" "\<forall>r \<in> set B. slot_key T slot < slot_key T r"
    and slot: "length slot = SIZE T" and ready: "ready T a runs c s A B p pos k"
  defines "b \<equiv> place_slot T slot (of_nat p) pos (length (recs T c p)) k c"
  shows "arena_inv T b" and "arena_map T b = (arena_map T a)(slot_key T slot \<mapsto> slot)"
    and "ar_total b = ar_total a + 1" and "ar_cfg b = ar_cfg a" and "npages b = npages c"
proof -
  obtain runs' F' E us vs where l: "loose T c runs' F' p E" and E: "E \<subseteq> (if pos = 0 then {k} else {})"
    and run: "runs' ! s = us @ p # vs" and k: "k = length (concat (take s runs')) + length us"
    and pos: "pos \<le> length (recs T c p)" "length (recs T c p) < slots_per_page T"
    and A: "A = run_recs T c us @ take pos (recs T c p)" and B: "B = drop pos (recs T c p) @ run_recs T c vs"
    and len: "length runs' = length runs"
    and other: "\<And>s'. s' < length runs \<Longrightarrow> s' \<noteq> s \<Longrightarrow> run_recs T c (runs' ! s') = run_recs T a (runs ! s')"
    and cfg: "ar_cfg c = ar_cfg a" "ar_total c = ar_total a"
    using ready unfolding ready_def by blast
  have sl: "s < length runs" using rep_shard [OF rep] by (simp add: s)
  have sl': "s < length runs'" using sl len by simp
  have fc: "frame T c runs' [] F'" using l by (simp add: loose_def)
  note ps = place_slot_loose [OF l sl' run pos k E slot, folded b_def]
  have same: "recs T b q = recs T c q" if "s' < length runs'" "q \<in> set (runs' ! s')" "q \<noteq> p" for s' q
    using ps(3) frame_bound(1) [OF fc that(1,2)] that(3) by blast
  have puv: "p \<notin> set us" "p \<notin> set vs" using frame_run_distinct [OF fc sl'] run by auto
  have bu: "run_recs T b us = run_recs T c us" "run_recs T b vs = run_recs T c vs"
    using same [OF sl'] run puv by (auto intro!: run_recs_cong)
  then have here: "run_recs T b (runs' ! s) = A @ slot # B" by (simp add: run ps(2) A B)
  have other': "run_recs T b (runs' ! s') = run_recs T a (runs ! s')" if "s' < length runs" "s' \<noteq> s" for s'
  proof -
    have "p \<notin> set (runs' ! s')" using frame_disjoint(3) [OF fc sl', of p s'] that run len by simp
    then have "run_recs T b (runs' ! s') = run_recs T c (runs' ! s')"
      using same [of s'] that(1) len by (intro run_recs_cong) auto
    with other [OF that] show ?thesis by simp
  qed
  show tot: "ar_total b = ar_total a + 1" and cfg': "ar_cfg b = ar_cfg a" and "npages b = npages c"
    using ps(4-6) cfg by simp_all
  have "arena_rep T b runs' F'"
  proof (rule loose_rep [OF ps(1)])
    show "recs T b p \<noteq> []" by (simp add: ps(2))
    show "keys_ok T (ar_cfg b) s' (run_recs T b (runs' ! s'))" if "s' < length runs'" for s'
    proof (cases "s' = s")
      case True
      have "keys_ok T (ar_cfg a) s (A @ B)" using rep_keys [OF rep sl] recs by simp
      from keys_ok_insert [OF this AB] s have "keys_ok T (ar_cfg b) s (run_recs T b (runs' ! s))"
        unfolding here cfg' by simp
      with True show ?thesis by simp
    next
      case False
      with rep_keys [OF rep] other' that len show ?thesis by (simp add: cfg')
    qed
    have "length (concat (map (run_recs T b) runs')) + length (map (run_recs T a) runs ! s) =
        length (concat (map (run_recs T a) runs)) + length (map (run_recs T b) runs' ! s)"
      using sl len other' by (intro length_concat_one) auto
    moreover have "ar_total a = length (run_recs T a (concat runs))" using rep by (simp add: arena_rep_def)
    ultimately show "ar_total b = length (run_recs T b (concat runs'))"
      using sl sl' here recs tot by (simp only: run_recs_length nth_map length_append) simp
  qed
  moreover from this show "arena_inv T b" unfolding arena_inv_def by blast
  ultimately show "arena_map T b = (arena_map T a)(slot_key T slot \<mapsto> slot)"
  proof (intro rep_map_insert [OF rep _ cfg' _ _ s])
    have "r \<in> set (A @ B) \<Longrightarrow> slot_key T r \<noteq> slot_key T slot" for r using AB by auto
    then show "set (run_recs T b (runs' ! s)) = insert slot {r \<in> set (run_recs T a (runs ! s)). slot_key T r \<noteq> slot_key T slot}"
      by (auto simp: here recs)
  qed (use other' in auto)
qed

section \<open>The structural steps\<close>

lemma ready_plain:
  assumes rep: "arena_rep T a runs F" and run: "runs ! s = us @ p # vs"
    and "pos \<le> length (recs T a p)" and "length (recs T a p) < slots_per_page T"
    and "k = length (concat (take s runs)) + length us"
  shows "ready T a runs a s (run_recs T a us @ take pos (recs T a p)) (drop pos (recs T a p) @ run_recs T a vs) p pos k"
  unfolding ready_def using rep_loose [OF rep, of p] assms(2-5) by blast

text \<open>A fresh page in transit has no records and disturbs none.\<close>

lemma fresh_transit:
  assumes rep: "arena_rep T a runs F" and f': "frame T a' runs [q] F'" and fresh: "fresh_page T a q a'"
  shows "recs T a' q = []" and "p \<in> set (concat runs) \<Longrightarrow> p \<noteq> q \<and> recs T a' p = recs T a p \<and> page_first T a' p = page_first T a p"
proof -
  show "recs T a' q = []" using f' by (intro recs_empty) (simp add: frame_def)
  assume p: "p \<in> set (concat runs)"
  then have "p \<noteq> q" using frame_dist [OF f'] by auto
  moreover have "p < npages a" using p frame_set [OF rep_frame [OF rep]] by auto
  ultimately show "p \<noteq> q \<and> recs T a' p = recs T a p \<and> page_first T a' p = page_first T a p"
    using fresh by (simp add: fresh_page_def page_first_def)
qed

lemma ready_open:
  assumes rep: "arena_rep T a runs F" and s: "s < length runs" and run: "runs ! s = []"
    and room: "\<not> arena_full a" and n: "index_room (ar_cfg a)" and junk: "length junk = PAGE_BYTES"
  shows "\<exists>q k c. open_shard T junk s a = Inr (\<lparr>tg_prev = NONE_U32, tg_page = of_nat q, tg_at = k\<rparr>, c) \<and>
    ready T a runs c s [] [] q 0 k \<and> recs T c q = [] \<and> unat (of_nat q :: u32) = q"
proof -
  note f = rep_frame [OF rep]
  obtain q F' a' where al: "alloc_page junk a = Inr (of_nat q, a')" and f': "frame T a' runs [q] F'"
    and fresh: "fresh_page T a q a'"
    using alloc_page_ok [OF f room n junk] by blast
  note tr = fresh_transit [OF rep f' fresh]
  let ?k = "unat (ar_dir_at a' ! s)"
  let ?c = "dir_insert s ?k (of_nat q) (a'\<lparr>ar_heads := (ar_heads a')[s := of_nat q], ar_tails := (ar_tails a')[s := of_nat q]\<rparr>)"
  have lq: "nxt a' q = NONE_U32" "prv a' q = NONE_U32" using fresh by (simp_all add: fresh_page_def)
  note o = open_shard_frame [OF f' s run lq refl]
  have recs: "recs T ?c = recs T a'" and first: "page_first T ?c = page_first T a'"
    using o(3,4) by (simp_all add: recs_def page_first_def fun_eq_iff)
  have keep: "ar_dir a' = ar_dir a" "ar_cfg a' = ar_cfg a" "ar_total a' = ar_total a"
    using fresh by (simp_all add: fresh_page_def)
  have c: "concat (runs[s := [q]]) = take ?k (concat runs) @ q # drop ?k (concat runs)"
    using concat_update_split [OF s, of "[]" "[]" "[q]"] run o(2) by simp
  have "?k \<le> length (concat runs)" unfolding o(2) by (rule concat_take_le)
  then have "dkeys T ?c (runs[s := [q]]) {?k}"
    using rep_loose [OF rep] o(7) c tr(2) keep(1)
    by (intro dkeys_insert [of T a runs ?k ?c q]) (auto simp: loose_def first simp del: set_concat)
  moreover have "recs T ?c x \<noteq> []" if "x \<in> set (concat (runs[s := [q]]))" "x \<noteq> q" for x
  proof -
    have "x \<in> set (concat runs)" using that unfolding c by (auto simp del: set_concat dest: in_set_takeD in_set_dropD)
    then show ?thesis using tr(2) rep by (simp add: recs arena_rep_def del: set_concat)
  qed
  ultimately have "loose T ?c (runs[s := [q]]) F' q {?k}"
    using o(1,6) rep keep by (simp add: loose_def arena_rep_def del: set_concat)
  moreover have "run_recs T ?c (runs[s := [q]] ! s') = run_recs T a (runs ! s')" if "s' < length runs" "s' \<noteq> s" for s'
  proof -
    have "set (runs ! s') \<subseteq> set (concat runs)" using that(1) by (rule nth_subset_concat)
    then show ?thesis using that tr(2) by (auto intro!: run_recs_cong simp: recs simp del: set_concat)
  qed
  moreover have "?k = length (concat (take s (runs[s := [q]]))) + length []" using o(2) by simp
  moreover have "runs[s := [q]] ! s = [] @ q # []" using s by simp
  moreover have "0 < slots_per_page T"
    using f by (auto simp: frame_def slot_ok_def slots_per_page_def div_greater_zero_iff)
  ultimately have "ready T a runs ?c s [] [] q 0 ?k"
    unfolding ready_def using o(5,6) keep tr(1) recs
    by (intro exI [of _ "runs[s := [q]]"] exI [of _ F'] exI [of _ "{?k}"] exI [of _ "[]"]) simp
  moreover have "open_shard T junk s a = Inr (\<lparr>tg_prev = NONE_U32, tg_page = of_nat q, tg_at = ?k\<rparr>, ?c)"
    by (simp add: open_shard_def al Let_def)
  moreover have "unat (of_nat q :: u32) = q" using frame_index [OF f'] frame_bound(2) [OF f', of q] by simp
  moreover have "recs T ?c q = []" using tr(1) recs by simp
  ultimately show ?thesis by (intro exI [of _ q] exI [of _ ?k] exI [of _ ?c] conjI)
qed

section \<open>Splitting a page\<close>

text \<open>The copy of the upper slots to an empty page.\<close>

lemma page_slots_move:
  assumes fits: "(h + m) * sz \<le> length page"
  shows "page_slots sz m (splice b 0 (slice page (h * sz) (h * sz + m * sz))) = drop h (page_slots sz (h + m) page)"
proof -
  let ?xs = "page_slots sz (h + m) page"
  have lx: "length x = sz" if "x \<in> set ?xs" for x using page_slots_size [OF fits that] .
  have lt: "length (concat (take h ?xs)) = h * sz"
    using lx by (subst length_concat_const [where n = sz]) (auto dest: in_set_takeD)
  have "slice page (h * sz) (h * sz + m * sz) = drop (h * sz) (take ((h + m) * sz) page)"
    by (simp add: slice_def drop_take add_mult_distrib)
  also have "\<dots> = drop (h * sz) (concat (take h ?xs) @ concat (drop h ?xs))"
    by (simp only: concat_page_slots [OF fits, symmetric] concat_append [symmetric] append_take_drop_id)
  also have "\<dots> = concat (drop h ?xs)" using lt by simp
  finally have "splice b 0 (slice page (h * sz) (h * sz + m * sz)) =
      concat (drop h ?xs) @ drop (length (concat (drop h ?xs))) b"
    by (simp add: splice_def)
  moreover have "length (drop h ?xs) = m" by simp
  ultimately show ?thesis
    using page_slots_concat [of "drop h ?xs" sz] lx by (metis in_set_dropD)
qed

text \<open>A fresh page is linked after the full one.\<close>

lemma split_link:
  assumes rep: "arena_rep T a runs F" and s: "s < length runs" and run: "runs ! s = us @ p # vs"
    and k: "k = length (concat (take s runs)) + length us"
    and room: "\<not> arena_full a" and n: "index_room (ar_cfg a)" and junk: "length junk = PAGE_BYTES"
  obtains q F' a' b where "alloc_page junk a = Inr (of_nat q, a')"
    and "b = dir_insert s (k + 1) (of_nat q) (link_after s (of_nat p) (of_nat q) a')"
    and "loose T b (runs[s := us @ p # q # vs]) F' q {k + 1}" and "recs T b q = []"
    and "\<And>x. x \<in> set (concat runs) \<Longrightarrow> x \<noteq> q \<and> recs T b x = recs T a x"
    and "ar_cfg b = ar_cfg a" and "ar_total b = ar_total a"
    and "\<And>x. x \<in> set (us @ p # q # vs) \<Longrightarrow> unat (of_nat x :: u32) = x"
proof -
  note f = rep_frame [OF rep]
  obtain q F' a' where al: "alloc_page junk a = Inr (of_nat q, a')" and f': "frame T a' runs [q] F'"
    and fresh: "fresh_page T a q a'"
    using alloc_page_ok [OF f room n junk] by blast
  note tr = fresh_transit [OF rep f' fresh]
  let ?b = "dir_insert s (k + 1) (of_nat q) (link_after s (of_nat p) (of_nat q) a')"
  let ?runs = "runs[s := us @ p # q # vs]"
  note o = link_after_frame [OF f' s run, folded k, OF refl]
  have recs: "recs T ?b = recs T a'" and first: "page_first T ?b = page_first T a'"
    using o(2,3) by (simp_all add: recs_def page_first_def fun_eq_iff)
  have keep: "ar_dir a' = ar_dir a" "ar_cfg a' = ar_cfg a" "ar_total a' = ar_total a"
    using fresh by (simp_all add: fresh_page_def)
  have c: "concat ?runs = take (k + 1) (concat runs) @ q # drop (k + 1) (concat runs)"
    using concat_update_split [OF s, of "us @ [p]" vs "[q]"] run k by simp
  have "k + 1 \<le> length (concat runs)" using run_position(1) [OF f s run] k by simp
  moreover have "dkeys T a runs {}" using rep_loose [OF rep] by (simp add: loose_def)
  moreover have "page_first T ?b x = page_first T a x" if "x \<in> set (concat runs)" for x
    unfolding first using tr(2) [OF that] by simp
  ultimately have d: "dkeys T ?b ?runs {k + 1}"
    using o(6) c unfolding keep(1) by (intro dkeys_insert [of T a runs "k + 1" ?b q])
  have ne: "recs T ?b x \<noteq> []" if "x \<in> set (concat ?runs)" "x \<noteq> q" for x
  proof -
    have "x \<in> set (concat runs)" using that unfolding c by (auto simp del: set_concat dest: in_set_takeD in_set_dropD)
    then show ?thesis unfolding recs using tr(2) rep by (simp add: arena_rep_def del: set_concat)
  qed
  have "recs T ?b q = []" unfolding recs by (rule tr(1))
  show thesis
  proof (rule that [OF al refl, of F'])
    show "loose T ?b ?runs F' q {k + 1}"
      using o(1) rep d ne unfolding loose_def o(5) keep(2) by (simp add: arena_rep_def del: set_concat)
    show "x \<noteq> q \<and> recs T ?b x = recs T a x" if "x \<in> set (concat runs)" for x
      unfolding recs using tr(2) [OF that] by simp
    show "unat (of_nat x :: u32) = x" if "x \<in> set (us @ p # q # vs)" for x
      using frame_index [OF o(1)] frame_bound(1) [OF o(1), of s x] that s by simp
    show "ar_cfg ?b = ar_cfg a" "ar_total ?b = ar_total a" unfolding o(4,5) keep by simp_all
  qed fact
qed

text \<open>The upper slots of \<open>p\<close> move to the fresh page \<open>q\<close>; its cached key is refreshed.\<close>

lemma split_move:
  assumes l: "loose T b runs F q {k + 1}" and s: "s < length runs" and run: "runs ! s = us @ p # q # vs"
    and k: "k = length (concat (take s runs)) + length us"
    and n: "length (recs T b p) = h + m" and empty: "recs T b q = []" and m: "0 < m"
  defines "c \<equiv> refresh_dir_key T (k + 1) (set_count (of_nat q) m (set_count (of_nat p) h
      (move_slots (of_nat p) (h * SIZE T) (of_nat q) (m * SIZE T) b)))"
  shows "recs T c p = take h (recs T b p)" and "recs T c q = drop h (recs T b p)"
    and "x < npages b \<Longrightarrow> x \<noteq> p \<Longrightarrow> x \<noteq> q \<Longrightarrow> recs T c x = recs T b x"
    and "ar_cfg c = ar_cfg b" and "ar_total c = ar_total b"
    and "loose T c runs F p {}" and "h \<noteq> 0 \<Longrightarrow> loose T c runs F q {}"
proof -
  have f: "frame T b runs [] F" using l by (simp add: loose_def)
  have ok: "slot_ok T" using f by (simp add: frame_def)
  have bnd: "x < npages b \<and> unat (of_nat x :: u32) = x \<and> x \<notin> set F" if "x \<in> set (us @ p # q # vs)" for x
    using frame_bound(1) [OF f s, of x] frame_index [OF f, of x] frame_disjoint(2) [OF f s, of x] that run by simp
  have p: "p < npages b" "unat (of_nat p :: u32) = p" "p \<notin> set ([] @ F)" using bnd [of p] by simp_all
  have q: "q < npages b" "unat (of_nat q :: u32) = q" "q \<notin> set ([] @ F)" using bnd [of q] by simp_all
  have pq: "p \<noteq> q" using frame_run_distinct [OF f s] run by auto
  let ?buf = "slice (raw_page b p) (h * SIZE T) (h * SIZE T + m * SIZE T)" and ?g = "\<lambda>y. splice y 0 (slice (raw_page b p) (h * SIZE T) (h * SIZE T + m * SIZE T))"
  have hm: "unat (ar_counts b ! p) = h + m" using n by (simp add: length_recs)
  have fits: "(h + m) * SIZE T \<le> length (raw_page b p)" using frame_fits [OF f p(1)] hm by simp
  have le: "h + m \<le> slots_per_page T" using f p(1) unfolding hm [symmetric] by (simp add: frame_def)
  have small: "h + m < 2 ^ 16" using le slots_per_page_small [of T] by (simp add: PAGE_BYTES_def)
  have buf: "length ?buf = m * SIZE T" using fits by (simp add: add_mult_distrib)
  have "length (?g (raw_page b q)) = PAGE_BYTES"
    using buf fits frame_page_len [OF f p(1)] frame_page_len [OF f q(1)] by (simp add: add_mult_distrib)
  note w1 = pool_write_frame [OF f q(1), of ?g, OF this]
  let ?b1 = "b\<lparr>ar_pool := page_mut PAGE_BYTES q ?g (ar_pool b)\<rparr>"
  have p1: "p < npages ?b1" using p(1) w1(2) by simp
  have h16: "unat (of_nat h :: u16) = h" "unat (of_nat m :: u16) = m" using small by (simp_all add: unat_of_nat)
  have "unat (of_nat h :: u16) \<le> slots_per_page T" using h16 le by simp
  note w2 = count_write_frame [OF w1(1) p1 this p(3)]
  let ?b2 = "?b1\<lparr>ar_counts := (ar_counts ?b1)[p := of_nat h]\<rparr>"
  have q2: "q < npages ?b2" using q(1) w1(2) w2(2) by simp
  have "unat (of_nat m :: u16) \<le> slots_per_page T" using h16 le by simp
  note w3 = count_write_frame [OF w2(1) q2 this q(3)]
  let ?b3 = "?b2\<lparr>ar_counts := (ar_counts ?b2)[q := of_nat m]\<rparr>"
  have c: "c = refresh_dir_key T (k + 1) ?b3"
    using p(2) q(2) by (simp add: c_def set_count_def move_slots_def ar_page_def Let_def)
  have rc: "recs T c = recs T ?b3" "ar_cfg c = ar_cfg b" "ar_total c = ar_total b" unfolding c by simp_all
  have raw: "raw_page ?b3 x = (if x = q then ?g (raw_page b q) else raw_page b x)" if "x < npages b" for x
    using w3(3) w2(3) w1(3) [OF that] by simp
  have "recs T ?b3 p = page_slots (SIZE T) h (raw_page b p)"
    using w3(4) [OF pq] w2(5) w1(3) [OF p(1)] h16 pq by simp
  then show rp: "recs T c p = take h (recs T b p)"
    unfolding rc using page_slots_take [of h "h + m" "SIZE T" "raw_page b p"] hm by (simp add: recs_def)
  have "recs T ?b3 q = page_slots (SIZE T) m (?g (raw_page b q))"
    using w3(5) w2(3) w1(3) [OF q(1)] h16 by simp
  then show rq: "recs T c q = drop h (recs T b p)"
    unfolding rc using page_slots_move [OF fits, of "raw_page b q"] hm by (simp add: recs_def)
  have ro: "recs T c x = recs T b x" if "x < npages b" "x \<noteq> p" "x \<noteq> q" for x
    unfolding rc using w3(4) [OF that(3)] w2(4) [OF that(2)] w1(4) [OF that(1,3)] by simp
  then show "x < npages b \<Longrightarrow> x \<noteq> p \<Longrightarrow> x \<noteq> q \<Longrightarrow> recs T c x = recs T b x" .
  show "ar_cfg c = ar_cfg b" "ar_total c = ar_total b" by (fact rc)+
  have run': "runs ! s = (us @ [p]) @ q # vs" using run by simp
  have pos: "k + 1 = length (concat (take s runs)) + length (us @ [p])" using k by simp
  note kp = run_position [OF f s run', folded pos]
  have "dkeys T ?b3 runs {k + 1}"
  proof (rule dkeys_write [of T b runs "{k + 1}"])
    fix i assume i: "i < length (concat runs)" "i \<notin> {k + 1}"
    then have "concat runs ! i < npages b" using nth_mem [OF i(1)] frame_set [OF f] by auto
    then show "page_first T ?b3 (concat runs ! i) = page_first T b (concat runs ! i)"
      unfolding page_first_def using raw kp(3) [OF i(1)] i(2) by simp
  qed (use l in \<open>simp_all add: loose_def\<close>)
  from dkeys_refresh [OF w3(1) this kp(1)] have d: "dkeys T c runs {}" unfolding c by simp
  have fc: "frame T c runs [] F" unfolding c using refresh_frame [OF w3(1)] .
  have ne: "recs T c x \<noteq> []" if "x \<in> set (concat runs)" "h \<noteq> 0 \<or> x \<noteq> p" for x
  proof -
    have "x < npages b" using that(1) frame_set [OF f] by auto
    with that ro [of x] rp rq n m l show ?thesis
      by (cases "x = p"; cases "x = q") (auto simp: loose_def simp del: set_concat)
  qed
  show "loose T c runs F p {}" "h \<noteq> 0 \<Longrightarrow> loose T c runs F q {}"
    using fc d ne l rc by (simp_all add: loose_def del: set_concat)
qed

lemma split_ready:
  assumes rep: "arena_rep T a runs F" and s: "s < length runs" and run: "runs ! s = us @ p # vs"
    and k: "k = length (concat (take s runs)) + length us"
    and room: "\<not> arena_full a" and n: "index_room (ar_cfg a)" and junk: "length junk = PAGE_BYTES"
    and full: "length (recs T a p) = slots_per_page T" and pos: "pos \<le> slots_per_page T"
  shows "\<exists>p' pos' k' c. arena_split T junk s k pos a = Inr ((of_nat p', pos', length (recs T c p')), c) \<and>
    ready T a runs c s (run_recs T a us @ take pos (recs T a p)) (drop pos (recs T a p) @ run_recs T a vs) p' pos' k' \<and>
    k' = (if of_nat p' \<noteq> pe_page (ar_dir c ! k) then k + 1 else k)"
proof -
  note f = rep_frame [OF rep]
  obtain q F' a' b where al: "alloc_page junk a = Inr (of_nat q, a')"
    and b: "b = dir_insert s (k + 1) (of_nat q) (link_after s (of_nat p) (of_nat q) a')"
    and lb: "loose T b (runs[s := us @ p # q # vs]) F' q {k + 1}" and eq: "recs T b q = []"
    and old: "\<And>x. x \<in> set (concat runs) \<Longrightarrow> x \<noteq> q \<and> recs T b x = recs T a x"
    and cb: "ar_cfg b = ar_cfg a" "ar_total b = ar_total a"
    and idx: "\<And>x. x \<in> set (us @ p # q # vs) \<Longrightarrow> unat (of_nat x :: u32) = x"
    using split_link [OF rep s run k room n junk] by metis
  let ?runs = "runs[s := us @ p # q # vs]" and ?spp = "slots_per_page T"
  have fb: "frame T b ?runs [] F'" using lb by (simp add: loose_def)
  have sr: "s < length ?runs" "?runs ! s = us @ p # q # vs" "take s ?runs = take s runs" using s by simp_all
  have in_run: "x \<in> set (concat runs)" if "x \<in> set (us @ p # vs)" for x
    using nth_subset_concat [OF s] run that by auto
  have pm: "p \<in> set (concat runs)" and puv: "p \<notin> set us" "p \<notin> set vs" and pq: "p \<noteq> q"
    using in_run [of p] frame_run_distinct [OF f s] run old by auto
  have bnd: "x < npages b" if "x \<in> set (concat runs)" for x
  proof -
    have c: "concat ?runs = take (k + 1) (concat runs) @ [q] @ drop (k + 1) (concat runs)"
      using concat_update_split [OF s, of "us @ [p]" vs "[q]"] run k by simp
    have "x \<in> set (take (k + 1) (concat runs) @ drop (k + 1) (concat runs))" using that by (simp only: append_take_drop_id)
    then have "x \<in> set (concat ?runs)" unfolding c set_append by blast
    then show ?thesis using frame_set [OF fb] by auto
  qed
  have page: "pe_page (ar_dir a ! k) = of_nat p" using dir_nth(2) [OF f s, of "length us"] run k by simp
  have pages: "(of_nat x :: u32) \<noteq> of_nat p" if "x = q" for x
  proof -
    have "unat (of_nat q :: u32) = q" "unat (of_nat p :: u32) = p" using idx [of q] idx [of p] by simp_all
    then show ?thesis using that pq by metis
  qed
  have at: "pe_page (ar_dir c ! k) = of_nat p" if "loose T c ?runs F' x E" for c x E
    using dir_nth(2) [of T c ?runs "[]" F' s "length us"] that sr k by (simp add: loose_def)
  have ready: "ready T a runs c s (run_recs T a us @ take pos (recs T a p)) (drop pos (recs T a p) @ run_recs T a vs) p' pos' k'"
    if "loose T c ?runs F' p' E" "E \<subseteq> (if pos' = 0 then {k'} else {})" "us @ p # q # vs = us' @ p' # vs'"
      "k' = length (concat (take s runs)) + length us'" "pos' \<le> length (recs T c p')" "length (recs T c p') < ?spp"
      "run_recs T a us @ take pos (recs T a p) = run_recs T c us' @ take pos' (recs T c p')"
      "drop pos (recs T a p) @ run_recs T a vs = drop pos' (recs T c p') @ run_recs T c vs'"
      "ar_cfg c = ar_cfg a" "ar_total c = ar_total a"
      "\<And>x. x \<in> set (concat runs) \<Longrightarrow> x \<noteq> p \<Longrightarrow> recs T c x = recs T a x" for c p' E us' vs' pos' k'
  proof -
    have "run_recs T c (?runs ! s') = run_recs T a (runs ! s')" if s': "s' < length runs" "s' \<noteq> s" for s'
      using \<open>\<And>x. x \<in> set (concat runs) \<Longrightarrow> x \<noteq> p \<Longrightarrow> recs T c x = recs T a x\<close> nth_subset_concat [OF s'(1)]
        frame_disjoint(3) [OF f s, of p s'] s' run
      by (auto intro!: run_recs_cong simp del: set_concat)
    with that(1-10) sr show ?thesis unfolding ready_def
      by (intro exI [of _ ?runs] exI [of _ F'] exI [of _ E] exI [of _ us'] exI [of _ vs']) simp
  qed
  have rcs: "run_recs T c us = run_recs T a us \<and> run_recs T c vs = run_recs T a vs"
    if "\<And>x. x \<in> set (concat runs) \<Longrightarrow> x \<noteq> p \<Longrightarrow> recs T c x = recs T a x" for c
    using that in_run puv by (auto intro!: run_recs_cong simp del: set_concat)
  have ra: "run_recs T b us = run_recs T a us" "run_recs T b vs = run_recs T a vs" "recs T b p = recs T a p"
    using old in_run by (auto intro!: run_recs_cong simp del: set_concat)
  have spp: "0 < ?spp" using f by (auto simp: frame_def slot_ok_def slots_per_page_def div_greater_zero_iff)
  have fin: ?thesis if "arena_split T junk s k pos a = Inr ((of_nat p', pos', length (recs T c p')), c)"
    "ready T a runs c s (run_recs T a us @ take pos (recs T a p)) (drop pos (recs T a p) @ run_recs T a vs) p' pos' k'"
    "k' = (if of_nat p' \<noteq> pe_page (ar_dir c ! k) then k + 1 else k)" for p' pos' k' c
    using that by blast
  consider (append) "pos = ?spp" | (single) "pos \<noteq> ?spp" "?spp = 1" | (half) "pos \<noteq> ?spp" "?spp \<noteq> 1" by blast
  then show ?thesis
  proof cases
    case append
    have "arena_split T junk s k pos a = Inr ((of_nat q, 0, length (recs T b q)), b)"
      using append by (simp add: arena_split_def page al b [simplified, symmetric] Let_def eq)
    moreover have "ready T a runs b s (run_recs T a us @ take pos (recs T a p)) (drop pos (recs T a p) @ run_recs T a vs) q 0 (k + 1)"
      by (rule ready [OF lb, where us' = "us @ [p]" and vs' = vs]) (use append full k eq spp ra old cb in simp_all)
    moreover have "k + 1 = (if of_nat q \<noteq> pe_page (ar_dir b ! k) then k + 1 else k)"
      unfolding at [OF lb] using pages by simp
    ultimately show ?thesis by blast
  next
    case single
    let ?c = "refresh_dir_key T (k + 1) (set_count (of_nat q) 1 (set_count (of_nat p) 0
      (move_slots (of_nat p) (0 * SIZE T) (of_nat q) (1 * SIZE T) b)))"
    have "length (recs T b p) = 0 + 1" using full ra single by simp
    note mv = split_move [OF lb sr(1,2) k [folded sr(3)] this eq zero_less_one]
    have c: "arena_split T junk s k pos a = Inr ((of_nat p, 0, 0), ?c)"
      using single by (simp add: arena_split_def page al b [simplified, symmetric] Let_def)
    have rp: "recs T ?c p = []" "recs T ?c q = recs T b p" using mv(1,2) by simp_all
    have old': "recs T ?c x = recs T a x" if "x \<in> set (concat runs)" "x \<noteq> p" for x
      using mv(3) [OF bnd [OF that(1)] that(2)] old [OF that(1)] by simp
    have rc: "run_recs T ?c us = run_recs T a us" "run_recs T ?c vs = run_recs T a vs"
      using rcs [OF old'] by blast+
    have lc: "loose T ?c ?runs F' p {}" using mv(6) by simp
    have pos0: "pos = 0" using single pos by simp
    have cc: "ar_cfg ?c = ar_cfg a" "ar_total ?c = ar_total a"
      using trans [OF mv(4) cb(1)] trans [OF mv(5) cb(2)] by blast+
    have "ready T a runs ?c s (run_recs T a us @ take pos (recs T a p)) (drop pos (recs T a p) @ run_recs T a vs) p 0 k"
    proof (rule ready [OF lc, where us' = us and vs' = "q # vs"])
      show "run_recs T a us @ take pos (recs T a p) = run_recs T ?c us @ take 0 (recs T ?c p)"
        unfolding rc rp using pos0 by simp
      show "drop pos (recs T a p) @ run_recs T a vs = drop 0 (recs T ?c p) @ run_recs T ?c (q # vs)"
        unfolding rc rp run_recs_simps ra using pos0 by simp
      show "length (recs T ?c p) < ?spp" unfolding rp using spp by simp
      show "k = length (concat (take s runs)) + length us" by (fact k)
    qed (simp, rule refl, simp, fact cc, fact cc, fact old')
    moreover have "k = (if of_nat p \<noteq> pe_page (ar_dir ?c ! k) then k + 1 else k)" using at [OF lc] by simp
    ultimately show ?thesis using c rp by (metis list.size(3))
  next
    case half
    let ?h = "?spp div 2" and ?m = "?spp - ?spp div 2"
    let ?c = "refresh_dir_key T (k + 1) (set_count (of_nat q) ?m (set_count (of_nat p) ?h
      (move_slots (of_nat p) (?h * SIZE T) (of_nat q) (?m * SIZE T) b)))"
    have h: "0 < ?h" "?h < ?spp" "0 < ?m" "?m < ?spp" using half spp by auto
    have "length (recs T b p) = ?h + ?m" using full ra h by simp
    note mv = split_move [OF lb sr(1,2) k [folded sr(3)] this eq h(3)]
    have rp: "recs T ?c p = take ?h (recs T a p)" "recs T ?c q = drop ?h (recs T a p)" using mv(1,2) ra by simp_all
    have c: "arena_split T junk s k pos a =
        Inr (if pos \<le> ?h then (of_nat p, pos, length (recs T ?c p)) else (of_nat q, pos - ?h, length (recs T ?c q)), ?c)"
      unfolding rp using full h half(1) by (simp add: arena_split_def page al b [symmetric] half(2) Let_def del: One_nat_def)
    have old': "recs T ?c x = recs T a x" if "x \<in> set (concat runs)" "x \<noteq> p" for x
      using mv(3) [OF bnd [OF that(1)] that(2)] old [OF that(1)] by simp
    have rc: "run_recs T ?c us = run_recs T a us" "run_recs T ?c vs = run_recs T a vs"
      using rcs [OF old'] by blast+
    have lc: "loose T ?c ?runs F' p {}" "loose T ?c ?runs F' q {}" using mv(6,7) h by simp_all
    have cc: "ar_cfg ?c = ar_cfg a" "ar_total ?c = ar_total a"
      using trans [OF mv(4) cb(1)] trans [OF mv(5) cb(2)] by blast+
    show ?thesis
    proof (cases "pos \<le> ?h")
      case True
      have d: "drop pos (take ?h (recs T a p)) @ drop ?h (recs T a p) = drop pos (recs T a p)"
        using True full h(2) drop_append [of pos "take ?h (recs T a p)" "drop ?h (recs T a p)"] by (simp add: min_absorb2)
      have "ready T a runs ?c s (run_recs T a us @ take pos (recs T a p)) (drop pos (recs T a p) @ run_recs T a vs) p pos k"
      proof (rule ready [OF lc(1), where us' = us and vs' = "q # vs"])
        show "run_recs T a us @ take pos (recs T a p) = run_recs T ?c us @ take pos (recs T ?c p)"
          unfolding rc rp using True by (simp add: min_absorb1)
        show "drop pos (recs T a p) @ run_recs T a vs = drop pos (recs T ?c p) @ run_recs T ?c (q # vs)"
          unfolding rc rp run_recs_simps using d by simp
        show "pos \<le> length (recs T ?c p)" "length (recs T ?c p) < ?spp" unfolding rp using True full h by simp_all
        show "k = length (concat (take s runs)) + length us" by (fact k)
      qed (simp, rule refl, fact cc, fact cc, fact old')
      moreover have "k = (if of_nat p \<noteq> pe_page (ar_dir ?c ! k) then k + 1 else k)" using at [OF lc(1)] by simp
      ultimately show ?thesis by (rule fin [OF c [unfolded if_P [OF True]]])
    next
      case False
      have e: "pos = ?h + (pos - ?h)" using False by simp
      have "ready T a runs ?c s (run_recs T a us @ take pos (recs T a p)) (drop pos (recs T a p) @ run_recs T a vs) q (pos - ?h) (k + 1)"
      proof (rule ready [OF lc(2), where us' = "us @ [p]" and vs' = vs])
        show "run_recs T a us @ take pos (recs T a p) = run_recs T ?c (us @ [p]) @ take (pos - ?h) (recs T ?c q)"
          unfolding rc rp run_recs_simps by (subst e) (simp only: take_add append_assoc append_Nil2)
        show "drop pos (recs T a p) @ run_recs T a vs = drop (pos - ?h) (recs T ?c q) @ run_recs T ?c vs"
          unfolding rc rp by (subst e) (simp only: drop_drop add.commute)
        show "pos - ?h \<le> length (recs T ?c q)" "length (recs T ?c q) < ?spp" unfolding rp using pos full h by simp_all
        show "k + 1 = length (concat (take s runs)) + length (us @ [p])" using k by simp
      qed (simp, simp, fact cc, fact cc, fact old')
      moreover have "k + 1 = (if of_nat q \<noteq> pe_page (ar_dir ?c ! k) then k + 1 else k)"
        using at [OF lc(1)] pages by simp
      ultimately show ?thesis by (rule fin [OF c [unfolded if_not_P [OF False]]])
    qed
  qed
qed

section \<open>Insertion\<close>

lemma search_empty: "search_in T a page 0 key = Inl 0"
  by (simp add: search_in_def search_def search_loop.simps)

lemma insertion_point:
  assumes cov: "covers T a key us p vs" and so: "search_ok (map (slot_key T) (recs T a p)) key (Inl pos)"
  shows "\<forall>r \<in> set (run_recs T a us @ take pos (recs T a p)). slot_key T r < key"
    and "\<forall>r \<in> set (drop pos (recs T a p) @ run_recs T a vs). key < slot_key T r" and "pos \<le> length (recs T a p)"
proof -
  have s: "pos \<le> length (recs T a p)" "\<And>i. i < pos \<Longrightarrow> slot_key T (recs T a p ! i) < key"
    "\<And>i. i < length (recs T a p) \<Longrightarrow> pos \<le> i \<Longrightarrow> key < slot_key T (recs T a p ! i)"
    using so by (auto simp: search_ok_def)
  show "pos \<le> length (recs T a p)" by (rule s(1))
  have "slot_key T r < key" if "r \<in> set (take pos (recs T a p))" for r
    using that s(1,2) by (auto simp: in_set_conv_nth)
  then show "\<forall>r \<in> set (run_recs T a us @ take pos (recs T a p)). slot_key T r < key"
    using cov by (auto simp: covers_def)
  have "key < slot_key T r" if "r \<in> set (drop pos (recs T a p))" for r
    using that s(1,3) by (auto simp: in_set_conv_nth)
  then show "\<forall>r \<in> set (drop pos (recs T a p) @ run_recs T a vs). key < slot_key T r"
    using cov by (auto simp: covers_def)
qed

definition inserted :: "slot_type \<Rightarrow> bytes \<Rightarrow> arena \<Rightarrow> arena \<Rightarrow> bool" where
  "inserted T slot a b \<longleftrightarrow> arena_inv T b \<and> arena_map T b = (arena_map T a)(slot_key T slot \<mapsto> slot) \<and>
     arena_len b = arena_len a + 1 \<and> ar_cfg b = ar_cfg a"

lemma insert_bytes_rep:
  assumes rep: "arena_rep T a runs F" and slot: "length slot = SIZE T"
    and n: "index_room (ar_cfg a)" and junk: "length junk = PAGE_BYTES"
  shows "(arena_map T a (slot_key T slot) \<noteq> None \<and> insert_bytes T junk slot a = Inr (False, a)) \<or>
    (arena_map T a (slot_key T slot) = None \<and> arena_full a \<and>
       insert_bytes T junk slot a = Inl (CapacityExceeded (ac_max_bytes (ar_cfg a)))) \<or>
    (arena_map T a (slot_key T slot) = None \<and> (\<exists>b. insert_bytes T junk slot a = Inr (True, b) \<and> inserted T slot a b))"
proof -
  note f = rep_frame [OF rep]
  let ?key = "slot_key T slot" and ?A = "\<lambda>us p pos. run_recs T a us @ take pos (recs T a p)"
  let ?B = "\<lambda>vs p pos. drop pos (recs T a p) @ run_recs T a vs"
  define s where "s = shard_of (ar_cfg a) ?key"
  have s: "s < length runs" using rep_shard [OF rep] by (simp add: s_def)
  have key: "length ?key = KEY_LEN T" using slot f by (simp add: slot_key_def frame_def slot_ok_def)
  have key': "take (KEY_LEN T) slot = ?key" by (simp add: slot_key_def)
  have pn: "unat (of_nat p :: u32) = p" if "runs ! s = us @ p # vs" for us p vs
    using frame_index [OF f] frame_bound(1) [OF f s, of p] that by simp
  have cnt: "ar_count c (of_nat p) = length (recs T c p)" if "unat (of_nat p :: u32) = p" for c p
    using that by (simp add: ar_count_def length_recs)
  show ?thesis
  proof (rule rep_find [OF rep key, folded s_def])
    assume e: "runs ! s = []" "find_page T a s ?key = None" "arena_map T a ?key = None"
    show ?thesis
    proof (cases "arena_full a")
      case True
      then have "insert_bytes T junk slot a = Inl (CapacityExceeded (ac_max_bytes (ar_cfg a)))"
        using e by (simp add: insert_bytes_def key' s_def [symmetric] open_shard_def alloc_page_full)
      with True e(3) show ?thesis by blast
    next
      case False
      obtain q k c where o: "open_shard T junk s a = Inr (\<lparr>tg_prev = NONE_U32, tg_page = of_nat q, tg_at = k\<rparr>, c)"
        and r: "ready T a runs c s [] [] q 0 k" and z: "recs T c q = []" and q: "unat (of_nat q :: u32) = q"
        using ready_open [OF rep s e(1) False n junk] by blast
      have "0 < slots_per_page T" using r by (auto simp: ready_def)
      then have i: "insert_bytes T junk slot a = Inr (True, place_slot T slot (of_nat q) 0 (length (recs T c q)) k c)"
        using e o z cnt [OF q, of c] by (simp add: insert_bytes_def key' s_def [symmetric] Let_def search_empty)
      have "run_recs T a (runs ! s) = [] @ []" using e by simp
      note p = ready_place [OF rep s_def this _ _ slot r]
      show ?thesis using i p e(3) by (auto simp: inserted_def arena_len_def)
    qed
  next
    fix us p vs pos
    assume a: "runs ! s = us @ p # vs" "find_page T a s ?key = Some (target_of runs s us p)"
      "search_in T a (of_nat p) (ar_count a (of_nat p)) ?key = Inr pos" "arena_map T a ?key = Some (recs T a p ! pos)"
    then have "insert_bytes T junk slot a = Inr (False, a)"
      by (simp add: insert_bytes_def key' s_def [symmetric] target_of_def Let_def)
    with a(4) show ?thesis by simp
  next
    fix us p vs pos
    assume a: "runs ! s = us @ p # vs" "find_page T a s ?key = Some (target_of runs s us p)"
      and cov: "covers T a ?key us p vs"
      and se: "search_in T a (of_nat p) (ar_count a (of_nat p)) ?key = Inl pos"
      and so: "search_ok (map (slot_key T) (recs T a p)) ?key (Inl pos)" and none: "arena_map T a ?key = None"
    note ip = insertion_point [OF cov so]
    have recs: "run_recs T a (runs ! s) = ?A us p pos @ ?B vs p pos" using a(1) by simp
    have c: "ar_count a (of_nat p) = length (recs T a p)" using cnt [OF pn [OF a(1)]] .
    define k where "k = length (concat (take s runs)) + length us"
    have p: "p < npages a" using frame_bound(1) [OF f s, of p] a(1) by simp
    have le: "length (recs T a p) \<le> slots_per_page T" using f p by (simp add: length_recs frame_def)
    define t where "t = target_of runs s us p"
    have t: "tg_page t = of_nat p" "tg_at t = k" by (simp_all add: t_def target_of_def k_def)
    have step: "insert_bytes T junk slot a =
      (if length (recs T a p) = slots_per_page T then
         try_res (arena_split T junk s k pos a) (\<lambda>((page, pos, cnt), a).
           Inr (True, place_slot T slot page pos cnt (if page \<noteq> pe_page (ar_dir a ! k) then k + 1 else k) a))
       else Inr (True, place_slot T slot (of_nat p) pos (length (recs T a p)) k a))"
      using a(2) se unfolding c t_def [symmetric]
      by (simp add: insert_bytes_def key' s_def [symmetric] t Let_def c case_prod_unfold cong: if_cong)
    show ?thesis
    proof (cases "length (recs T a p) = slots_per_page T")
      case False
      then have "length (recs T a p) < slots_per_page T" using le by simp
      note pl = ready_place [OF rep s_def recs ip(1,2) slot ready_plain [OF rep a(1) ip(3) this k_def]]
      have i: "insert_bytes T junk slot a = Inr (True, place_slot T slot (of_nat p) pos (length (recs T a p)) k a)"
        unfolding step using False by simp
      show ?thesis using i pl none unfolding inserted_def arena_len_def by blast
    next
      case full: True
      show ?thesis
      proof (cases "arena_full a")
        case True
        then have "insert_bytes T junk slot a = Inl (CapacityExceeded (ac_max_bytes (ar_cfg a)))"
          unfolding step using full by (simp add: arena_split_def alloc_page_full Let_def)
        with True none show ?thesis by blast
      next
        case False
        have "pos \<le> slots_per_page T" using ip(3) full by simp
        from split_ready [OF rep s a(1) k_def False n junk full this]
        obtain p' pos' k' c where sp: "arena_split T junk s k pos a = Inr ((of_nat p', pos', length (recs T c p')), c)"
          and r: "ready T a runs c s (?A us p pos) (?B vs p pos) p' pos' k'"
          and k': "k' = (if of_nat p' \<noteq> pe_page (ar_dir c ! k) then k + 1 else k)" by blast
        note pl = ready_place [OF rep s_def recs ip(1,2) slot r]
        have i: "insert_bytes T junk slot a = Inr (True, place_slot T slot (of_nat p') pos' (length (recs T c p')) k' c)"
          unfolding step sp k' using full by simp
        show ?thesis using i pl none unfolding inserted_def arena_len_def by blast
      qed
    qed
  qed
qed

end
