(* ===== verification/Arena_Remove.thy ===== *)
theory Arena_Remove
  imports Arena_Insert
begin

text \<open>
  Removal from the arena, the in-place change of a record's payload and the empty arena, as
  operations on the abstract map.
\<close>

section \<open>Taking one record out\<close>

lemma rep_map_delete:
  assumes ra: "arena_rep T a runs F" and rb: "arena_rep T b runs' F'" and cfg: "ar_cfg b = ar_cfg a"
    and other: "\<And>s'. s' < length runs \<Longrightarrow> s' \<noteq> s \<Longrightarrow> run_recs T b (runs' ! s') = run_recs T a (runs ! s')"
    and here: "set (run_recs T b (runs' ! s)) = {r \<in> set (run_recs T a (runs ! s)). slot_key T r \<noteq> key}"
    and s: "s = shard_of (ar_cfg a) key"
  shows "arena_map T b = (arena_map T a)(key := None)"
proof (rule ext, rule option_eq_Some)
  fix k r
  have "arena_map T b k = Some r \<longleftrightarrow> r \<in> set (run_recs T b (runs' ! shard_of (ar_cfg a) k)) \<and> slot_key T r = k"
    using arena_map_iff [OF rb, of k r] cfg by simp
  also have "\<dots> \<longleftrightarrow> k \<noteq> key \<and> r \<in> set (run_recs T a (runs ! shard_of (ar_cfg a) k)) \<and> slot_key T r = k"
    using here other [OF rep_shard [OF ra, of k]] s by (cases "shard_of (ar_cfg a) k = s") auto
  also have "\<dots> \<longleftrightarrow> ((arena_map T a)(key := None)) k = Some r"
    using arena_map_iff [OF ra, of k r] by auto
  finally show "arena_map T b k = Some r \<longleftrightarrow> ((arena_map T a)(key := None)) k = Some r" .
qed

lemma dkeys_delete:
  assumes d: "dkeys T a runs {at}" and at: "at < length (concat runs)"
    and dir: "ar_dir b = take at (ar_dir a) @ drop (at + 1) (ar_dir a)"
    and runs': "concat runs' = take at (concat runs) @ drop (at + 1) (concat runs)"
    and same: "\<And>p. page_first T b p = page_first T a p"
  shows "dkeys T b runs' {}"
proof -
  have l: "length (ar_dir a) = length (concat runs)" using d by (simp add: dkeys_def)
  have k: "pe_key (ar_dir a ! i) = cached_key T (page_first T b (concat runs ! i))"
    if "i < length (concat runs)" "i \<noteq> at" for i
    using d same that by (simp add: dkeys_def)
  have "pe_key (ar_dir b ! i) = cached_key T (page_first T b (concat runs' ! i))" if "i < length (concat runs')" for i
  proof (cases "i < at")
    case True
    then show ?thesis using k [of i] at l by (simp add: dir runs' nth_append)
  next
    case False
    then have "dir_i = ar_dir a ! Suc i" if "dir_i = ar_dir b ! i" for dir_i
      using that l at \<open>i < length (concat runs')\<close> by (simp add: dir runs' nth_append)
    moreover have "concat runs' ! i = concat runs ! Suc i"
      using False that at by (simp add: runs' nth_append)
    ultimately show ?thesis using k [of "Suc i"] that at False by (simp add: runs')
  qed
  then show ?thesis using l at by (simp add: dkeys_def dir runs')
qed

definition cut_slot :: "slot_type \<Rightarrow> nat \<Rightarrow> nat \<Rightarrow> arena \<Rightarrow> arena" where
  "cut_slot T p pos a = a\<lparr>ar_pool := page_mut PAGE_BYTES p (page_remove T pos (unat (ar_counts a ! p))) (ar_pool a),
     ar_counts := (ar_counts a)[p := ar_counts a ! p - 1], ar_total := ar_total a - 1\<rparr>"

lemma cut_slot_frame:
  assumes rep: "arena_rep T a runs F" and s: "s < length runs" and run: "runs ! s = us @ p # vs"
    and pos: "pos < length (recs T a p)" and k: "k = length (concat (take s runs)) + length us"
  defines "c \<equiv> cut_slot T p pos a"
  shows "frame T c runs [] F"
    and "recs T c p = take pos (recs T a p) @ drop (Suc pos) (recs T a p)"
    and "q < npages a \<Longrightarrow> q \<noteq> p \<Longrightarrow> recs T c q = recs T a q"
    and "ar_total c = ar_total a - 1" and "ar_cfg c = ar_cfg a" and "npages c = npages a"
    and "unat (ar_counts c ! p) = length (recs T a p) - 1"
    and "dkeys T c runs (if pos = 0 then {k} else {})"
proof -
  note f = rep_frame [OF rep]
  have ok: "slot_ok T" using f by (simp add: frame_def)
  have p: "p < npages a" using frame_bound(1) [OF f s] run by simp
  let ?n = "unat (ar_counts a ! p)" and ?g = "page_remove T pos (unat (ar_counts a ! p))"
  note rm = page_remove_slots [of T ?n "raw_page a p" pos, folded recs_def]
  have len: "length (?g (raw_page a p)) = PAGE_BYTES"
    and new: "page_slots (SIZE T) (?n - 1) (?g (raw_page a p)) = take pos (recs T a p) @ drop (Suc pos) (recs T a p)"
    using rm ok frame_fits [OF f p] pos frame_page_len [OF f p] by (simp_all add: length_recs slot_ok_def)
  let ?a1 = "a\<lparr>ar_pool := page_mut PAGE_BYTES p ?g (ar_pool a)\<rparr>"
  let ?a2 = "?a1\<lparr>ar_counts := (ar_counts ?a1)[p := ar_counts a ! p - 1]\<rparr>"
  let ?a3 = "?a2\<lparr>ar_total := ar_total a - 1\<rparr>"
  note w1 = pool_write_frame [OF f p, of ?g, OF len]
  have "ar_counts a ! p \<noteq> 0" using pos by (auto simp: length_recs)
  then have c: "unat (ar_counts a ! p - 1) = ?n - 1" by (rule unat_minus_one)
  have live: "p \<notin> set ([] @ F)" using frame_disjoint(2) [OF f s] run by simp
  have p1: "p < npages ?a1" using p w1(2) by simp
  have "unat (ar_counts a ! p) \<le> slots_per_page T" using f p by (simp add: frame_def)
  then have n1: "unat (ar_counts a ! p - 1) \<le> slots_per_page T" using c by simp
  note w2 = count_write_frame [OF w1(1) p1 n1 live]
  have cc: "c = ?a3" by (simp add: c_def cut_slot_def)
  show fc: "frame T c runs [] F" unfolding cc using w2(1) by simp
  show np: "npages c = npages a" unfolding cc using w1(2) w2(2) by simp
  have "recs T c p = recs T ?a2 p" unfolding cc by simp
  then show rp: "recs T c p = take pos (recs T a p) @ drop (Suc pos) (recs T a p)"
    using w2(5) w1(3) [OF p] c new by simp
  have ro: "recs T c q = recs T a q" if "q < npages a" "q \<noteq> p" for q
    unfolding cc using w2(4) [of q] w1(4) [of q] that by simp
  then show "q < npages a \<Longrightarrow> q \<noteq> p \<Longrightarrow> recs T c q = recs T a q" .
  show "ar_total c = ar_total a - 1" "ar_cfg c = ar_cfg a" unfolding cc by simp_all
  show "unat (ar_counts c ! p) = length (recs T a p) - 1" using rp pos unfolding length_recs [of T c, symmetric] by simp
  have po: "page_first T c q = page_first T a q" if "q < npages a" "q \<noteq> p" for q
    unfolding cc using w2(3) [of q] w1(3) [of q] that by (simp add: page_first_def)
  have pp: "page_first T c p = page_first T a p" if "pos \<noteq> 0"
  proof -
    have ne: "recs T a p \<noteq> []" and ne': "recs T c p \<noteq> []" using that pos unfolding rp by auto
    have "hd (recs T c p) = hd (recs T a p)" unfolding rp using that ne by simp
    moreover have "p < npages c" unfolding np by (rule p)
    ultimately show ?thesis using page_first_hd [OF f p ne] page_first_hd [OF fc _ ne'] by metis
  qed
  note kp = run_position [OF f s run, folded k]
  show "dkeys T c runs (if pos = 0 then {k} else {})"
  proof (rule dkeys_write [of T a runs "{}"])
    show "dkeys T a runs {}" using rep_loose [OF rep] by (simp add: loose_def)
    show "ar_dir c = ar_dir a" unfolding cc by simp
    fix i assume i: "i < length (concat runs)" "i \<notin> (if pos = 0 then {k} else {})"
    then have "concat runs ! i < npages a" using nth_mem [OF i(1)] frame_set [OF f] by auto
    with i kp po pp show "page_first T c (concat runs ! i) = page_first T a (concat runs ! i)"
      by (cases "i = k") (auto split: if_splits)
  qed simp
qed

lemma keys_ok_delete: "keys_ok T cfg s (A @ r # B) \<Longrightarrow> keys_ok T cfg s (A @ B)"
  by (auto simp: keys_ok_def sorted_wrt_append)

text \<open>The invariant after a change of one shard.\<close>

lemma rep_change:
  assumes ra: "arena_rep T a runs F" and s: "s < length runs"
    and fb: "frame T b runs' [] F'" and cfg: "ar_cfg b = ar_cfg a" and db: "dkeys T b runs' {}"
    and ne: "\<And>p. p \<in> set (concat runs') \<Longrightarrow> recs T b p \<noteq> []"
    and keys: "keys_ok T (ar_cfg a) s (run_recs T b (runs' ! s))"
    and other: "\<And>s'. s' < length runs \<Longrightarrow> s' \<noteq> s \<Longrightarrow> run_recs T b (runs' ! s') = run_recs T a (runs ! s')"
    and total: "ar_total b + length (run_recs T a (runs ! s)) = ar_total a + length (run_recs T b (runs' ! s))"
  shows "arena_rep T b runs' F'"
proof -
  have len: "length runs' = length runs"
    using frame_shards [OF fb] frame_shards [OF rep_frame [OF ra]] cfg by simp
  have "keys_ok T (ar_cfg b) s' (run_recs T b (runs' ! s'))" if "s' < length runs'" for s'
    using that len keys other [of s'] rep_keys [OF ra, of s'] by (cases "s' = s") (simp_all add: cfg)
  moreover have "length (concat (map (run_recs T b) runs')) + length (map (run_recs T a) runs ! s) =
      length (concat (map (run_recs T a) runs)) + length (map (run_recs T b) runs' ! s)"
    using s len other by (intro length_concat_one) auto
  then have "ar_total b = length (run_recs T b (concat runs'))"
    using ra total s len by (simp add: run_recs_concat arena_rep_def)
  ultimately show ?thesis
    using fb ne db ra unfolding arena_rep_def cfg dkeys_iff by blast
qed

section \<open>Removal\<close>

definition removed :: "slot_type \<Rightarrow> bytes \<Rightarrow> arena \<Rightarrow> arena \<Rightarrow> bool" where
  "removed T key a b \<longleftrightarrow> arena_inv T b \<and> arena_map T b = (arena_map T a)(key := None) \<and>
     arena_len b + 1 = arena_len a \<and> ar_cfg b = ar_cfg a"

lemma shard_split_facts:
  assumes rep: "arena_rep T a runs F" and s: "s < length runs" and run: "runs ! s = us @ p # vs" and pos: "pos < length (recs T a p)"
  defines "A \<equiv> run_recs T a us @ take pos (recs T a p)" and "B \<equiv> drop (Suc pos) (recs T a p) @ run_recs T a vs"
    and "r \<equiv> recs T a p ! pos"
  shows "run_recs T a (runs ! s) = A @ r # B"
    and "x \<in> set (A @ B) \<Longrightarrow> slot_key T x \<noteq> slot_key T r"
    and "ar_total a \<ge> 1"
proof -
  show eq: "run_recs T a (runs ! s) = A @ r # B"
    using pos id_take_nth_drop [OF pos] by (simp add: run A_def B_def r_def)
  then have "keys_ok T (ar_cfg a) s (A @ r # B)" using rep_keys [OF rep s] by simp
  then have "distinct (map (slot_key T) (A @ r # B))" by (simp add: keys_ok_def strict_sorted_iff)
  then have "slot_key T r \<notin> slot_key T ` set (A @ B)" by auto
  then show "x \<in> set (A @ B) \<Longrightarrow> slot_key T x \<noteq> slot_key T r" by (metis image_eqI)
  have "p \<in> set (concat runs)" using nth_subset_concat [OF s] run by auto
  then have "set (recs T a p) \<subseteq> set (run_recs T a (concat runs))" by (auto simp: set_run_recs simp del: set_concat)
  moreover have "recs T a p ! pos \<in> set (recs T a p)" using pos by simp
  ultimately have "recs T a p ! pos \<in> set (run_recs T a (concat runs))" by blast
  then have "run_recs T a (concat runs) \<noteq> []" by (rule list.set_cases) simp_all
  then show "ar_total a \<ge> 1" using rep by (simp add: arena_rep_def Suc_le_eq)
qed

lemma remove_found:
  assumes rep: "arena_rep T a runs F" and s: "s = shard_of (ar_cfg a) key" and run: "runs ! s = us @ p # vs"
    and pos: "pos < length (recs T a p)" and key: "slot_key T (recs T a p ! pos) = key"
  defines "c \<equiv> cut_slot T p pos a"
  defines "b \<equiv> (if ar_count c (of_nat p) = 0 then unlink_page s (target_of runs s us p) c
                 else if pos = 0 then refresh_dir_key T (tg_at (target_of runs s us p)) c else c)"
  shows "removed T key a b"
proof -
  note f = rep_frame [OF rep]
  have sl: "s < length runs" using rep_shard [OF rep] by (simp add: s)
  have p: "p < npages a" and pn: "unat (of_nat p :: u32) = p"
    using frame_index [OF f] frame_bound(1) [OF f sl] run by simp_all
  define k where "k = length (concat (take s runs)) + length us"
  note cut = cut_slot_frame [OF rep sl run pos k_def, folded c_def]
  note sp = shard_split_facts [OF rep sl run pos]
  let ?A = "run_recs T a us @ take pos (recs T a p)" and ?B = "drop (Suc pos) (recs T a p) @ run_recs T a vs"
  have fc: "frame T c runs [] F" by (rule cut(1))
  have dist: "p \<notin> set us" "p \<notin> set vs" using frame_run_distinct [OF f sl] run by auto
  have ro: "recs T c x = recs T a x" if "x \<in> set (concat runs)" "x \<noteq> p" for x
  proof -
    have "x < npages a" using that(1) frame_set [OF f] by auto
    then show ?thesis using that(2) by (rule cut(3))
  qed
  have in_run: "x \<in> set (concat runs)" if "x \<in> set (us @ p # vs)" for x
    using nth_subset_concat [OF sl] run that by auto
  have uv: "run_recs T c us = run_recs T a us" "run_recs T c vs = run_recs T a vs"
    using ro in_run dist by (auto intro!: run_recs_cong simp del: set_concat)
  have oc: "run_recs T c (runs ! s') = run_recs T a (runs ! s')" if "s' < length runs" "s' \<noteq> s" for s'
  proof (rule run_recs_cong)
    fix x assume x: "x \<in> set (runs ! s')"
    then have "x \<noteq> p" using frame_disjoint(3) [OF f sl, of p s'] that run by auto
    moreover have "x \<in> set (concat runs)" using nth_subset_concat [OF that(1)] x by blast
    ultimately show "recs T c x = recs T a x" by (intro ro)
  qed
  have nonempty: "recs T a x \<noteq> []" if "x \<in> set (concat runs)" for x using that rep unfolding arena_rep_def by blast
  have keys: "keys_ok T (ar_cfg a) s (?A @ ?B)"
    using rep_keys [OF rep sl] sp(1) keys_ok_delete by metis
  have tot: "ar_total c + length (run_recs T a (runs ! s)) = ar_total a + length (?A @ ?B)"
    using sp(1,3) cut(4) by simp
  have "\<exists>runs' F'. arena_rep T b runs' F' \<and> run_recs T b (runs' ! s) = ?A @ ?B \<and>
      (\<forall>s' < length runs. s' \<noteq> s \<longrightarrow> run_recs T b (runs' ! s') = run_recs T a (runs ! s')) \<and>
      ar_cfg b = ar_cfg a \<and> ar_total b = ar_total c"
  proof (cases "recs T c p = []")
    case True
    have "unat (ar_counts c ! p) = 0" using True length_recs [of T c p] by simp
    then have z: "ar_counts c ! p = 0" by (simp add: unat_eq_0)
    have pos0: "pos = 0" using True pos unfolding cut(2) by auto
    let ?b = "unlink_page s (target_of runs s us p) c" and ?runs = "runs[s := us @ vs]"
    have b: "b = ?b" using z pn by (simp add: b_def ar_count_def)
    note ul = unlink_frame [OF fc sl run z k_def, folded k_def target_of_def, unfolded k_def, folded target_of_def]
    have recs: "recs T ?b = recs T c" and first: "page_first T ?b = page_first T c"
      using ul(2,3) by (simp_all add: recs_def page_first_def fun_eq_iff)
    have cr: "concat ?runs = take k (concat runs) @ drop (k + 1) (concat runs)"
      using concat_eq_split [OF sl] run sl by (simp add: k_def upd_conv_take_nth_drop)
    have kl: "k < length (concat runs)" using run_position(1) [OF f sl run] by (simp add: k_def)
    have "dkeys T c runs {k}" using cut(8) pos0 by simp
    then have d: "dkeys T ?b ?runs {}"
      using kl ul(6) [folded k_def] cr by (rule dkeys_delete) (simp add: first)
    have here: "run_recs T ?b (?runs ! s) = ?A @ ?B"
      using sl uv True unfolding cut(2) by (simp add: run_recs_def recs)
    have oth: "run_recs T ?b (?runs ! s') = run_recs T a (runs ! s')" if "s' < length runs" "s' \<noteq> s" for s'
      using oc [OF that] that by (simp add: run_recs_def recs)
    have ne: "recs T ?b x \<noteq> []" if "x \<in> set (concat ?runs)" for x
    proof -
      have "x \<in> set (concat runs)" "x \<noteq> p"
        using that frame_dist [OF ul(1)] unfolding cr by (auto simp del: set_concat dest: in_set_takeD in_set_dropD)
      then show ?thesis using ro nonempty by (simp add: recs)
    qed
    have "arena_rep T ?b ?runs (p # F)"
      using ul(4,5) cut(5) tot keys
      by (intro rep_change [OF rep sl ul(1) _ d ne _ oth]) (simp_all add: here)
    then show ?thesis unfolding b using here oth ul(4,5) cut(5) by auto
  next
    case False
    have "ar_count c (of_nat p) \<noteq> 0" using False pn length_recs [of T c p] by (simp add: ar_count_def flip: length_greater_0_conv)
    then have b: "b = (if pos = 0 then refresh_dir_key T k c else c)"
      by (simp add: b_def target_of_def k_def)
    have recs: "recs T b = recs T c" "ar_cfg b = ar_cfg a" "ar_total b = ar_total c" using cut(5) by (simp_all add: b)
    have fb: "frame T b runs [] F" unfolding b using fc refresh_frame [OF fc, of k] by (split if_split) blast
    have kl: "k < length (concat runs)" using run_position(1) [OF f sl run] by (simp add: k_def)
    have d: "dkeys T b runs {}"
      using cut(8) dkeys_refresh [OF fc cut(8) kl] by (auto simp: b split: if_splits)
    have here: "run_recs T b (runs ! s) = ?A @ ?B"
      using uv unfolding run run_recs_simps by (simp add: run_recs_def recs(1) cut(2))
    have oth: "run_recs T b (runs ! s') = run_recs T a (runs ! s')" if "s' < length runs" "s' \<noteq> s" for s'
      using oc [OF that] by (simp add: run_recs_def recs(1))
    have ne: "recs T b x \<noteq> []" if "x \<in> set (concat runs)" for x
      using that False ro nonempty unfolding recs(1) by metis
    have "arena_rep T b runs F"
      using recs tot keys by (intro rep_change [OF rep sl fb _ d ne _ oth]) (simp_all add: here)
    then show ?thesis using here oth recs by blast
  qed
  then obtain runs' F' where rb: "arena_rep T b runs' F'" and here: "run_recs T b (runs' ! s) = ?A @ ?B"
    and oth: "\<And>s'. s' < length runs \<Longrightarrow> s' \<noteq> s \<Longrightarrow> run_recs T b (runs' ! s') = run_recs T a (runs ! s')"
    and cfg: "ar_cfg b = ar_cfg a" and total: "ar_total b = ar_total c" by blast
  have "set (run_recs T b (runs' ! s)) = {r \<in> set (run_recs T a (runs ! s)). slot_key T r \<noteq> key}"
    unfolding here sp(1) using sp(2) key by auto
  from rep_map_delete [OF rep rb cfg oth this s] have "arena_map T b = (arena_map T a)(key := None)" .
  moreover have "arena_len b + 1 = arena_len a" using total cut(4) sp(3) by (simp add: arena_len_def)
  ultimately show ?thesis using rb cfg unfolding removed_def arena_inv_def by blast
qed

lemma remove_rep:
  assumes rep: "arena_rep T a runs F" and key: "length key = KEY_LEN T"
  shows "(arena_map T a key = None \<and> arena_remove T key a = Some (False, a)) \<or>
    (arena_map T a key \<noteq> None \<and> (\<exists>b. arena_remove T key a = Some (True, b) \<and> removed T key a b))"
proof -
  note f = rep_frame [OF rep]
  define s where "s = shard_of (ar_cfg a) key"
  have s: "s < length runs" using rep_shard [OF rep] by (simp add: s_def)
  show ?thesis
  proof (rule rep_find [OF rep key, folded s_def])
    assume "find_page T a s key = None" "arena_map T a key = None"
    then show ?thesis using key by (simp add: arena_remove_def s_def [symmetric])
  next
    fix us p vs pos
    assume "find_page T a s key = Some (target_of runs s us p)"
      "search_in T a (of_nat p) (ar_count a (of_nat p)) key = Inl pos" "arena_map T a key = None"
    then show ?thesis using key by (simp add: arena_remove_def s_def [symmetric] target_of_def Let_def)
  next
    fix us p vs pos
    assume a: "runs ! s = us @ p # vs" "find_page T a s key = Some (target_of runs s us p)"
      "search_in T a (of_nat p) (ar_count a (of_nat p)) key = Inr pos" "pos < length (recs T a p)"
      "slot_key T (recs T a p ! pos) = key" "arena_map T a key = Some (recs T a p ! pos)"
    have pn: "unat (of_nat p :: u32) = p" using frame_index [OF f] frame_bound(1) [OF f s, of p] a(1) by simp
    have tp: "tg_page (target_of runs s us p) = of_nat p" by (simp add: target_of_def)
    have "ar_counts a ! p \<noteq> 0" using a(4) by (auto simp: length_recs)
    have "arena_remove T key a = Some (True,
        if ar_count (cut_slot T p pos a) (of_nat p) = 0 then unlink_page s (target_of runs s us p) (cut_slot T p pos a)
        else if pos = 0 then refresh_dir_key T (tg_at (target_of runs s us p)) (cut_slot T p pos a)
        else cut_slot T p pos a)"
      using key a(2,3) pn by (simp add: arena_remove_def s_def [symmetric] tp cut_slot_def ar_count_def)
    with remove_found [OF rep s_def a(1,4,5)] a(6) show ?thesis by auto
  qed
qed

end
