(* ===== verification/Arena_Store.thy ===== *)
theory Arena_Store
  imports Arena_Remove Model
begin

text \<open>
  What the arena promises its clients, over the abstract map \<open>arena_map\<close>: the empty arena, the
  three mutators, the lookups and whole histories of operations. The interface the engine relies
  on is the locale \<open>keyed_store\<close>, interpreted on the arena for every slot type.
\<close>

section \<open>Changing a payload in place\<close>

lemma slot_key_update:
  assumes "length r = SIZE T" and "KEY_LEN T \<le> SIZE T"
  shows "slot_key T (slot_key T r @ x) = slot_key T r"
  using assms by (simp add: slot_key_def)

lemma keys_ok_cong:
  "map (slot_key T) rs' = map (slot_key T) rs \<Longrightarrow> keys_ok T cfg s rs \<Longrightarrow> keys_ok T cfg s rs'"
proof -
  have "keys_ok T cfg s xs \<longleftrightarrow> sorted_wrt (<) (map (slot_key T) xs) \<and> set (map (slot_key T) xs) \<subseteq> {k. shard_of cfg k = s}" for xs
    by (auto simp: keys_ok_def)
  then show "map (slot_key T) rs' = map (slot_key T) rs \<Longrightarrow> keys_ok T cfg s rs \<Longrightarrow> keys_ok T cfg s rs'" by metis
qed

lemma set_list_update_key:
  assumes "distinct (map g xs)" and "i < length xs" and "g y = g (xs ! i)"
  shows "set (xs[i := y]) = insert y {x \<in> set xs. g x \<noteq> g y}"
proof -
  have xs: "xs = take i xs @ xs ! i # drop (Suc i) xs" using assms(2) by (rule id_take_nth_drop)
  then have "distinct (map g (take i xs @ xs ! i # drop (Suc i) xs))" using assms(1) by simp
  then have "g (xs ! i) \<notin> g ` set (take i xs @ drop (Suc i) xs)" by auto
  then have n: "g x \<noteq> g y" if "x \<in> set (take i xs @ drop (Suc i) xs)" for x
    using that assms(3) by (metis image_eqI)
  have "set xs = insert (xs ! i) (set (take i xs @ drop (Suc i) xs))" by (subst xs) auto
  then have "{x \<in> set xs. g x \<noteq> g y} = set (take i xs @ drop (Suc i) xs)"
    using n assms(3) by auto
  moreover have "set (xs[i := y]) = insert y (set (take i xs @ drop (Suc i) xs))"
    using assms(2) by (simp add: upd_conv_take_nth_drop)
  ultimately show ?thesis by simp
qed

lemma payload_found:
  assumes rep: "arena_rep T a runs F" and s: "s = shard_of (ar_cfg a) key" and run: "runs ! s = us @ p # vs"
    and pos: "pos < length (recs T a p)" and key: "slot_key T (recs T a p ! pos) = key"
    and g: "\<And>xs. length xs = SIZE T - KEY_LEN T \<Longrightarrow> length (g xs) = length xs"
  defines "new \<equiv> key @ g (drop (KEY_LEN T) (recs T a p ! pos))"
  defines "b \<equiv> a\<lparr>ar_pool := page_mut PAGE_BYTES p (\<lambda>b. splice b (pos * SIZE T + KEY_LEN T)
      (g (slice b (pos * SIZE T + KEY_LEN T) (pos * SIZE T + SIZE T)))) (ar_pool a)\<rparr>"
  shows "arena_rep T b runs F" and "arena_map T b = (arena_map T a)(key \<mapsto> new)"
proof -
  note f = rep_frame [OF rep]
  have sl: "s < length runs" using rep_shard [OF rep] by (simp add: s)
  have p: "p < npages a" using frame_bound(1) [OF f sl] run by simp
  have ok: "KEY_LEN T \<le> SIZE T" "0 < SIZE T" using f by (simp_all add: frame_def slot_ok_def)
  note so = slot_offset [OF f p pos]
  let ?r = "recs T a p ! pos" and ?raw = "raw_page a p"
  let ?h = "\<lambda>b. splice b (pos * SIZE T + KEY_LEN T) (g (slice b (pos * SIZE T + KEY_LEN T) (pos * SIZE T + SIZE T)))"
  have rl: "length ?r = SIZE T" using recs_size [OF f p] pos by simp
  have raw: "length ?raw = PAGE_BYTES" using frame_page_len [OF f p] .
  have pay: "slice ?raw (pos * SIZE T + KEY_LEN T) (pos * SIZE T + SIZE T) = drop (KEY_LEN T) ?r"
    unfolding so(4) [symmetric] by (simp add: slice_def drop_drop add.commute)
  have gl: "length (g (drop (KEY_LEN T) ?r)) = SIZE T - KEY_LEN T" using g rl by simp
  have nl: "length new = SIZE T" using gl rl ok by (simp add: new_def key [symmetric] slot_key_def)
  have nk: "slot_key T new = key"
    using rl ok by (simp add: new_def key [symmetric] slot_key_def)
  have fits: "pos * SIZE T + SIZE T \<le> length ?raw" using so(3) raw by simp
  have h: "?h ?raw = splice ?raw (pos * SIZE T) new"
  proof -
    have "take (pos * SIZE T + KEY_LEN T) ?raw = take (pos * SIZE T) ?raw @ key"
      using slice_join [of 0 "pos * SIZE T" "pos * SIZE T + KEY_LEN T" ?raw] key ok
      unfolding so(4) [symmetric] by (simp add: slot_key_def take_slice slice_0_take)
    then show ?thesis unfolding pay using gl nl ok
      by (simp add: splice_def new_def key [symmetric] slot_key_def)
  qed
  have "length (?h ?raw) = PAGE_BYTES" unfolding h using nl fits raw by simp
  note w = pool_write_frame [OF f p, of ?h, OF this, folded b_def]
  have n: "pos < unat (ar_counts a ! p)" using pos by (simp add: length_recs)
  have "recs T b p = page_slots (SIZE T) (unat (ar_counts a ! p)) (splice ?raw (pos * SIZE T) new)"
    using w(5) unfolding h .
  then have rp: "recs T b p = (recs T a p)[pos := new]"
    using page_slots_update [OF frame_fits [OF f p] n nl] by (simp add: recs_def [of T a])
  have keys: "map (slot_key T) (recs T b x) = map (slot_key T) (recs T a x)" if "x < npages a" for x
  proof (cases "x = p")
    case True
    then show ?thesis using pos key nk by (simp add: rp map_update list_update_same_conv)
  qed (use w(4) that in simp)
  have kr: "map (slot_key T) (run_recs T b ps) = map (slot_key T) (run_recs T a ps)" if "\<forall>x \<in> set ps. x < npages a" for ps
    using keys that by (induction ps) auto
  have ne: "recs T b x \<noteq> [] \<longleftrightarrow> recs T a x \<noteq> []" if "x < npages a" for x
    using keys [OF that] by (metis map_is_Nil_conv)
  have first: "page_first T b x = page_first T a x" if "x < npages a" "recs T a x \<noteq> []" for x
  proof -
    have "slot_key T (hd (recs T b x)) = slot_key T (hd (recs T a x))"
      using keys [OF that(1)] that ne [OF that(1)] by (metis list.map_sel(1))
    then show ?thesis using page_first_hd [OF f that] page_first_hd [OF w(1), of x] that ne w(2) by simp
  qed
  have inn: "x < npages a" if "x \<in> set (concat runs)" for x using that frame_set [OF f] by auto
  have cfg: "ar_cfg b = ar_cfg a" by (simp add: b_def)
  have ks: "keys_ok T (ar_cfg b) s' (run_recs T b (runs ! s'))" if "s' < length runs" for s'
  proof -
    have "map (slot_key T) (run_recs T b (runs ! s')) = map (slot_key T) (run_recs T a (runs ! s'))"
      using kr frame_bound(1) [OF f that] by blast
    then show ?thesis using rep_keys [OF rep that] keys_ok_cong unfolding cfg by blast
  qed
  have tot: "length (run_recs T b (concat runs)) = length (run_recs T a (concat runs))"
    using kr [of "concat runs"] inn by (metis length_map)
  have live: "recs T a x \<noteq> []" if "x \<in> set (concat runs)" for x using that rep unfolding arena_rep_def by blast
  have "map (\<lambda>x. cached_key T (page_first T b x)) (concat runs) = map (\<lambda>x. cached_key T (page_first T a x)) (concat runs)"
    using first inn live by (simp del: set_concat map_concat)
  moreover have "ar_dir b = ar_dir a" "ar_cfg b = ar_cfg a" "ar_total b = ar_total a" by (simp_all add: b_def)
  ultimately show rb: "arena_rep T b runs F"
    using w(1) ks tot rep ne inn unfolding arena_rep_def by (metis (no_types, lifting))
  have other: "run_recs T b (runs ! s') = run_recs T a (runs ! s')" if "s' < length runs" "s' \<noteq> s" for s'
  proof (rule run_recs_cong)
    fix x assume "x \<in> set (runs ! s')"
    then show "recs T b x = recs T a x"
      using w(4) [of x] frame_bound(1) [OF f that(1)] frame_disjoint(3) [OF f sl, of p s'] that run by auto
  qed
  have puv: "p \<notin> set us" "p \<notin> set vs" using frame_run_distinct [OF f sl] run by auto
  have uv: "run_recs T b us = run_recs T a us" "run_recs T b vs = run_recs T a vs"
    using w(4) frame_bound(1) [OF f sl] run puv by (auto intro!: run_recs_cong)
  let ?i = "length (run_recs T a us) + pos"
  have here: "run_recs T b (runs ! s) = (run_recs T a (runs ! s))[?i := new]"
    using uv pos by (simp add: run rp list_update_append)
  have "distinct (map (slot_key T) (run_recs T a (runs ! s)))"
    using rep_keys [OF rep sl] by (simp add: keys_ok_def strict_sorted_iff)
  then have "set (run_recs T b (runs ! s)) = insert new {r \<in> set (run_recs T a (runs ! s)). slot_key T r \<noteq> slot_key T new}"
    unfolding here using pos key nk by (intro set_list_update_key) (simp_all add: run nth_append)
  from rep_map_insert [OF rep rb cfg _ this] other s nk
  show "arena_map T b = (arena_map T a)(key \<mapsto> new)" by simp
qed

lemma payload_rep:
  assumes rep: "arena_rep T a runs F" and key: "length key = KEY_LEN T"
    and g: "\<And>xs. length xs = SIZE T - KEY_LEN T \<Longrightarrow> length (g xs) = length xs"
  shows "case arena_map T a key of
      None \<Rightarrow> arena_payload_mut T g a key = Some None
    | Some r \<Rightarrow> \<exists>b. arena_payload_mut T g a key = Some (Some b) \<and> arena_rep T b runs F \<and> ar_cfg b = ar_cfg a \<and>
        ar_total b = ar_total a \<and> arena_map T b = (arena_map T a)(key \<mapsto> key @ g (drop (KEY_LEN T) r))"
proof -
  note f = rep_frame [OF rep]
  define s where "s = shard_of (ar_cfg a) key"
  have s: "s < length runs" using rep_shard [OF rep] by (simp add: s_def)
  show ?thesis
  proof (rule rep_find [OF rep key, folded s_def])
    assume "find_page T a s key = None" "arena_map T a key = None"
    then show ?thesis using key by (simp add: arena_payload_mut_def locate_def s_def [symmetric])
  next
    fix us p vs pos
    assume "find_page T a s key = Some (target_of runs s us p)"
      "search_in T a (of_nat p) (ar_count a (of_nat p)) key = Inl pos" "arena_map T a key = None"
    then show ?thesis using key by (simp add: arena_payload_mut_def locate_def s_def [symmetric] target_of_def)
  next
    fix us p vs pos
    assume a: "runs ! s = us @ p # vs" "find_page T a s key = Some (target_of runs s us p)"
      "search_in T a (of_nat p) (ar_count a (of_nat p)) key = Inr pos" "pos < length (recs T a p)"
      "slot_key T (recs T a p ! pos) = key" "arena_map T a key = Some (recs T a p ! pos)"
    have p: "p < npages a" and pn: "unat (of_nat p :: u32) = p"
      using frame_index [OF f] frame_bound(1) [OF f s, of p] a(1) by simp_all
    have l: "locate T a key = Some (Some (p * PAGE_BYTES + pos * SIZE T))"
      using key a(2,3) pn by (simp add: locate_def s_def [symmetric] target_of_def)
    have lt: "pos * SIZE T < PAGE_BYTES"
      using slot_offset(3) [OF f p a(4)] f by (simp add: frame_def slot_ok_def)
    note pf = payload_found [OF rep s_def a(1,4,5) g]
    show ?thesis using pf a(6) lt by (simp add: arena_payload_mut_def l Let_def)
  qed
qed

section \<open>The empty arena\<close>

lemma concat_replicate_Nil [simp]: "concat (replicate n []) = []"
  by (induction n) simp_all

lemma arena_new_rep:
  assumes "arena_new T cfg = Inr a" and "ac_shards cfg \<le> usize_max"
  shows "arena_rep T a (replicate (ac_shards cfg) []) []" and "arena_map T a = Map.empty" and "ar_cfg a = cfg"
proof -
  have "slot_ok T" "is_power_of_two (ac_shards cfg)"
    using assms(1) by (auto simp: arena_new_def slot_ok_def split: if_splits)
  moreover have a: "ar_pool a = owned_empty" "ar_heads a = replicate (ac_shards cfg) NONE_U32" "ar_next a = []"
    "ar_prev a = []" "ar_counts a = []" "ar_tails a = replicate (ac_shards cfg) NONE_U32" "ar_dir a = []"
    "ar_dir_at a = replicate (ac_shards cfg + 1) 0" "ar_free_head a = NONE_U32" "ar_total a = 0" "ar_cfg a = cfg"
    using assms(1) by (auto simp: arena_new_def split: if_splits)
  moreover have "paged_inv PAGE_BYTES owned_empty" "paged_len owned_empty = 0" by (simp_all add: owned_empty_def)
  ultimately show "arena_rep T a (replicate (ac_shards cfg) []) []"
    using assms(2)
    by (simp add: arena_rep_def frame_def pool_ok_def links_ok_def npages_def keys_ok_def take_replicate del: replicate_Suc)
  show "arena_map T a = Map.empty" by (simp add: arena_map_def arena_records_def npages_def a)
  show "ar_cfg a = cfg" by (rule a)
qed

section \<open>The record count\<close>

lemma run_recs_distinct:
  assumes rep: "arena_rep T a runs F"
  shows "distinct (map (slot_key T) (run_recs T a (concat runs)))"
proof -
  let ?ks = "\<lambda>s. map (slot_key T) (run_recs T a (runs ! s))"
  have d: "distinct (?ks s)" if "s < length runs" for s
    using rep_keys [OF rep that] by (simp add: keys_ok_def strict_sorted_iff)
  have sh: "shard_of (ar_cfg a) k = s" if "s < length runs" "k \<in> set (?ks s)" for s k
    using rep_keys [OF rep that(1)] that(2) by (auto simp: keys_ok_def)
  have "distinct (concat (map ?ks [0..<n]))" if "n \<le> length runs" for n
    using that
  proof (induction n)
    case (Suc n)
    have "set (concat (map ?ks [0..<n])) \<inter> set (?ks n) = {}"
    proof (rule ccontr)
      assume "set (concat (map ?ks [0..<n])) \<inter> set (?ks n) \<noteq> {}"
      then obtain k where k: "k \<in> set (?ks n)" "k \<in> set (concat (map ?ks [0..<n]))" by blast
      from k(2) obtain s where "s < n" "k \<in> set (?ks s)" unfolding in_concat_upt by blast
      with k(1) have "shard_of (ar_cfg a) k = s" "shard_of (ar_cfg a) k = n"
        using sh [of s k] sh [of n k] Suc.prems by simp_all
      with \<open>s < n\<close> show False by simp
    qed
    then show ?case using Suc d [of n] by simp
  qed simp
  from this [of "length runs"] have "distinct (concat (map (\<lambda>ps. map (slot_key T) (run_recs T a ps)) (map ((!) runs) [0..<length runs])))"
    by (simp add: comp_def)
  then show ?thesis by (simp only: map_nth run_recs_concat map_concat map_map comp_def)
qed

lemma total_is_card:
  assumes rep: "arena_rep T a runs F"
  shows "arena_len a = card (dom (arena_map T a))"
proof -
  let ?rs = "run_recs T a (concat runs)"
  have "set (arena_records T a) = set ?rs"
    using rep_records [OF rep] by (simp add: run_recs_concat UN_nth [of "\<lambda>ps. set (run_recs T a ps)"])
  then have "dom (arena_map T a) = slot_key T ` set ?rs"
    by (auto simp: arena_map_def dom_map_of_conv_image_fst image_image)
  then have "card (dom (arena_map T a)) = length (map (slot_key T) ?rs)"
    using distinct_card [OF run_recs_distinct [OF rep]] by simp
  then show ?thesis using rep by (simp add: arena_len_def arena_rep_def)
qed

lemma inv_card: "arena_inv T a \<Longrightarrow> arena_len a = card (dom (arena_map T a))"
  using total_is_card unfolding arena_inv_def by blast

section \<open>The interface\<close>

text \<open>
  A store of values under keys, as the engine uses the arena: \<open>ins\<close> refuses (\<open>None\<close>) or says
  whether the value is new, \<open>del\<close> whether the key was there. An input carries the value and
  what else the operation needs.
\<close>

locale keyed_store =
  fixes inv :: "'s \<Rightarrow> bool" and view :: "'s \<Rightarrow> 'k \<Rightarrow> 'v option" and okk :: "'k \<Rightarrow> bool" and oki :: "'i \<Rightarrow> bool"
    and key :: "'v \<Rightarrow> 'k" and val :: "'i \<Rightarrow> 'v"
    and get :: "'s \<Rightarrow> 'k \<Rightarrow> 'v option option" and ins :: "'i \<Rightarrow> 's \<Rightarrow> (bool \<times> 's) option"
    and del :: "'k \<Rightarrow> 's \<Rightarrow> (bool \<times> 's) option"
  assumes get_law: "inv s \<Longrightarrow> okk k \<Longrightarrow> get s k = Some (view s k)"
    and ins_law: "inv s \<Longrightarrow> oki i \<Longrightarrow> ins i s = Some (new, s') \<Longrightarrow>
      inv s' \<and> new = (view s (key (val i)) = None) \<and>
      view s' = (if new then (view s)(key (val i) \<mapsto> val i) else view s)"
    and del_law: "inv s \<Longrightarrow> okk k \<Longrightarrow> \<exists>s'. del k s = Some (view s k \<noteq> None, s') \<and> inv s' \<and> view s' = (view s)(k := None)"
    and key_law: "oki i \<Longrightarrow> okk (key (val i))"

datatype ('i, 'k) store_op = Ins 'i | Del 'k

text \<open>A history of operations on a store, and on a map; \<open>None\<close> when an insert is refused.\<close>

fun run_ops :: "('i \<Rightarrow> 's \<Rightarrow> (bool \<times> 's) option) \<Rightarrow> ('k \<Rightarrow> 's \<Rightarrow> (bool \<times> 's) option) \<Rightarrow>
    ('i, 'k) store_op list \<Rightarrow> 's \<Rightarrow> (bool list \<times> 's) option" where
  "run_ops ins del [] s = Some ([], s)"
| "run_ops ins del (op # ops) s = do {
     (b, s) \<leftarrow> (case op of Ins i \<Rightarrow> ins i s | Del k \<Rightarrow> del k s);
     (bs, s) \<leftarrow> run_ops ins del ops s;
     Some (b # bs, s) }"

fun map_ops :: "('v \<Rightarrow> 'k) \<Rightarrow> ('i \<Rightarrow> 'v) \<Rightarrow> ('i, 'k) store_op list \<Rightarrow> ('k \<Rightarrow> 'v option) \<Rightarrow> bool list \<times> ('k \<Rightarrow> 'v option)" where
  "map_ops key val [] m = ([], m)"
| "map_ops key val (Ins i # ops) m =
     (let new = (m (key (val i)) = None); (bs, m') = map_ops key val ops (if new then m(key (val i) \<mapsto> val i) else m)
      in (new # bs, m'))"
| "map_ops key val (Del k # ops) m =
     (let (bs, m') = map_ops key val ops (m(k := None)) in ((m k \<noteq> None) # bs, m'))"

definition ok_op :: "('i \<Rightarrow> bool) \<Rightarrow> ('k \<Rightarrow> bool) \<Rightarrow> ('i, 'k) store_op \<Rightarrow> bool" where
  "ok_op oki okk op \<longleftrightarrow> (case op of Ins i \<Rightarrow> oki i | Del k \<Rightarrow> okk k)"

context keyed_store
begin

lemma get_inserted:
  "inv s \<Longrightarrow> oki i \<Longrightarrow> ins i s = Some (True, s') \<Longrightarrow> get s' (key (val i)) = Some (Some (val i))"
  using ins_law [of s i True s'] get_law [of s' "key (val i)"] key_law by simp

lemma get_frame:
  "inv s \<Longrightarrow> oki i \<Longrightarrow> ins i s = Some (new, s') \<Longrightarrow> okk k \<Longrightarrow> k \<noteq> key (val i) \<Longrightarrow> get s' k = get s k"
  using ins_law [of s i new s'] get_law [of s' k] get_law [of s k] by (simp split: if_splits)

lemma history_refines:
  "inv s \<Longrightarrow> \<forall>op \<in> set ops. ok_op oki okk op \<Longrightarrow> run_ops ins del ops s = Some (bs, s') \<Longrightarrow>
     inv s' \<and> map_ops key val ops (view s) = (bs, view s')"
proof (induction ops arbitrary: s bs)
  case (Cons op ops)
  show ?case
  proof (cases op)
    case (Ins i)
    with Cons.prems obtain new s1 bs1 where i: "ins i s = Some (new, s1)" and r: "run_ops ins del ops s1 = Some (bs1, s')"
      and bs: "bs = new # bs1" by (auto split: Option.bind_splits)
    have oki: "oki i" using Cons.prems(2) Ins by (simp add: ok_op_def)
    note l = ins_law [OF Cons.prems(1) oki i]
    have "inv s' \<and> map_ops key val ops (view s1) = (bs1, view s')"
      using Cons.IH [OF _ _ r] l Cons.prems(2) by simp
    then show ?thesis using l Ins bs by (simp add: Let_def)
  next
    case (Del k)
    have okk: "okk k" using Cons.prems(2) Del by (simp add: ok_op_def)
    from del_law [OF Cons.prems(1) okk] obtain s1 where d: "del k s = Some (view s k \<noteq> None, s1)"
      and l: "inv s1" "view s1 = (view s)(k := None)" by blast
    with Cons.prems(3) Del obtain bs1 where r: "run_ops ins del ops s1 = Some (bs1, s')" and bs: "bs = (view s k \<noteq> None) # bs1"
      by (auto split: Option.bind_splits)
    have "inv s' \<and> map_ops key val ops (view s1) = (bs1, view s')"
      using Cons.IH [OF l(1) _ r] Cons.prems(2) by simp
    then show ?thesis using l Del bs by simp
  qed
qed simp

end

text \<open>The arena provides it: an input is the slot and the bytes a page grown on the way holds.\<close>

definition arena_ins :: "slot_type \<Rightarrow> bytes \<times> bytes \<Rightarrow> arena \<Rightarrow> (bool \<times> arena) option" where
  "arena_ins T i a = (case insert_bytes T (fst i) (snd i) a of Inl _ \<Rightarrow> None | Inr r \<Rightarrow> Some r)"

definition arena_usable :: "slot_type \<Rightarrow> arena \<Rightarrow> bool" where
  "arena_usable T a \<longleftrightarrow> arena_inv T a \<and> index_room (ar_cfg a)"

lemma inv_slot_ok: "arena_inv T a \<Longrightarrow> slot_ok T"
  by (auto simp: arena_inv_def arena_rep_def frame_def)

interpretation arena_store: keyed_store "\<lambda>a. arena_usable T a \<and> slot_ok T" "arena_map T" "\<lambda>k. length k = KEY_LEN T"
  "\<lambda>i. length (fst i) = PAGE_BYTES \<and> length (snd i) = SIZE T \<and> slot_ok T" "slot_key T" snd "arena_get_slot T" "arena_ins T" "arena_remove T"
  for T
proof (unfold_locales, goal_cases)
  case (1 a k)
  then show ?case using get_slot_rep by (auto simp: arena_usable_def arena_inv_def)
next
  case (2 a i new a')
  then obtain runs F where "arena_rep T a runs F" by (auto simp: arena_usable_def arena_inv_def)
  from insert_bytes_rep [OF this, of "snd i" "fst i"] 2 show ?case
    by (auto simp: arena_usable_def arena_ins_def inserted_def split: sum.splits)
next
  case (3 a k)
  then obtain runs F where "arena_rep T a runs F" by (auto simp: arena_usable_def arena_inv_def)
  from remove_rep [OF this, of k] 3 show ?case
    by (auto simp: arena_usable_def removed_def fun_upd_idem)
next
  case (4 i)
  then show ?case by (simp add: slot_key_def slot_ok_def)
qed

end
