(* ===== verification/Arena_Theorems.thy ===== *)
theory Arena_Theorems
  imports Arena_Store
begin

text \<open>
  The correctness of the arena's operations as closed statements, with a small concrete arena
  that shows each can apply.
\<close>

section \<open>A concrete arena\<close>

definition demo_type :: slot_type where
  "demo_type = \<lparr>SIZE = 4, KEY_LEN = 2\<rparr>"

definition demo_cfg :: arena_cfg where
  "demo_cfg = \<lparr>ac_shards = 1, ac_max_bytes = 8192, ac_mode = Uniform\<rparr>"

definition demo_arena :: arena where
  "demo_arena = \<lparr>ar_pool = owned_empty, ar_heads = [NONE_U32], ar_next = [], ar_prev = [], ar_counts = [],
     ar_tails = [NONE_U32], ar_dir = [], ar_dir_at = [0, 0], ar_free_head = NONE_U32, ar_total = 0,
     ar_cfg = demo_cfg\<rparr>"

lemma demo_new: "arena_new demo_type demo_cfg = Inr demo_arena"
  by (simp add: arena_new_def demo_type_def demo_cfg_def demo_arena_def is_power_of_two_def trailing_zeros.simps
      PAGE_BYTES_def numeral_2_eq_2)

lemma demo_inv: "arena_inv demo_type demo_arena" "arena_map demo_type demo_arena = Map.empty"
  "index_room (ar_cfg demo_arena)" "\<not> arena_full demo_arena"
proof -
  note n = arena_new_rep [OF demo_new]
  show "arena_inv demo_type demo_arena" "arena_map demo_type demo_arena = Map.empty"
    using n unfolding arena_inv_def by (auto simp: demo_cfg_def usize_max_def)
  show "index_room (ar_cfg demo_arena)" "\<not> arena_full demo_arena"
    by (simp_all add: demo_arena_def demo_cfg_def index_room_def arena_full_def arena_pool_bytes_def owned_empty_def PAGE_BYTES_def)
qed

text \<open>The same arena after one insert, whose only page is linked in shard 0.\<close>

definition demo_slot :: bytes where
  "demo_slot = [0, 1, 2, 3]"

lemma demo_slot_facts: "length demo_slot = SIZE demo_type" "slot_key demo_type demo_slot = [0, 1]" "KEY_LEN demo_type = 2"
  by (simp_all add: demo_slot_def demo_type_def slot_key_def)

lemma demo_inserted:
  "\<exists>b. insert_bytes demo_type (replicate PAGE_BYTES 0) demo_slot demo_arena = Inr (True, b) \<and>
     arena_inv demo_type b \<and> arena_map demo_type b = [[0, 1] \<mapsto> demo_slot] \<and> arena_len b = 1 \<and> ar_cfg b = demo_cfg"
proof -
  obtain runs F where "arena_rep demo_type demo_arena runs F" using demo_inv(1) unfolding arena_inv_def by blast
  from insert_bytes_rep [OF this demo_slot_facts(1) demo_inv(3), of "replicate PAGE_BYTES 0"] demo_inv demo_slot_facts
  show ?thesis by (auto simp: inserted_def arena_len_def demo_arena_def)
qed

section \<open>Construction\<close>

text \<open>
  \<open>Arena::new\<close> accepts exactly the slot layouts that fit a page with a non-empty key no longer
  than the slot, and the shard counts that are powers of two; the arena it returns satisfies the
  representation invariant and is the empty map. A bad slot layout is reported before a bad
  shard count.
\<close>

theorem arena_new_correct:
  assumes "ac_shards cfg \<le> usize_max"
  shows "case arena_new T cfg of
      Inr a \<Rightarrow> slot_ok T \<and> is_power_of_two (ac_shards cfg) \<and> arena_inv T a \<and> arena_map T a = Map.empty \<and>
        ar_cfg a = cfg \<and> arena_len a = 0
    | Inl e \<Rightarrow> (if \<not> slot_ok T then e = BadSlot (SIZE T) (KEY_LEN T)
        else \<not> is_power_of_two (ac_shards cfg) \<and> e = BadShardCount (ac_shards cfg))"
proof (cases "arena_new T cfg")
  case (Inl e)
  then show ?thesis by (auto simp: arena_new_def slot_ok_def is_power_of_two_def Suc_le_eq not_le split: if_splits)
next
  case (Inr a)
  note n = arena_new_rep [OF Inr assms]
  have "slot_ok T \<and> is_power_of_two (ac_shards cfg)"
    using n(1,3) by (simp add: arena_rep_def frame_def)
  then show ?thesis using n inv_card [of T a] unfolding Inr arena_inv_def by auto
qed

theorem arena_new_correct_witness:
  "arena_inv demo_type demo_arena \<and> arena_map demo_type demo_arena = Map.empty"
  using arena_new_correct [of demo_cfg demo_type] by (simp add: demo_new) (simp add: demo_cfg_def usize_max_def)

section \<open>Lookup\<close>

text \<open>
  Lookups answer from the abstract map: on an arena that satisfies its invariant, a key of the
  type's length is found exactly when the map has it, \<open>get_slot\<close> returns the whole stored slot,
  \<open>get\<close> the record decoded from it, and \<open>contains\<close> whether there is one. The directory search,
  the shard function and the binary search in the page never miss a stored record. A key of the
  wrong length panics.
\<close>

theorem arena_lookup_correct:
  assumes "arena_inv T a"
  shows "if length key = KEY_LEN T then
      arena_get_slot T a key = Some (arena_map T a key) \<and>
      arena_contains T a key = Some (arena_map T a key \<noteq> None) \<and>
      arena_get T rd a key = (case arena_map T a key of None \<Rightarrow> Some None | Some r \<Rightarrow> map_option Some (rd r))
    else arena_get_slot T a key = None \<and> arena_contains T a key = None \<and> arena_get T rd a key = None"
proof (cases "length key = KEY_LEN T")
  case True
  obtain runs F where rep: "arena_rep T a runs F" using assms unfolding arena_inv_def by blast
  have g: "arena_get_slot T a key = Some (arena_map T a key)" using get_slot_rep [OF rep True] .
  have "arena_contains T a key = Some (arena_map T a key \<noteq> None)"
    using locate_rep [OF rep True] by (auto simp: arena_contains_def)
  moreover have "arena_get T rd a key = (case arena_map T a key of None \<Rightarrow> Some None | Some r \<Rightarrow> map_option Some (rd r))"
    using g by (auto simp: arena_get_def arena_get_slot_def Let_def split: option.splits)
  ultimately show ?thesis using True g by simp
qed (simp add: arena_get_slot_def arena_contains_def arena_get_def locate_def)

theorem arena_lookup_correct_witness:
  "\<exists>b. insert_bytes demo_type (replicate PAGE_BYTES 0) demo_slot demo_arena = Inr (True, b) \<and>
     arena_get_slot demo_type b [0, 1] = Some (Some demo_slot) \<and> arena_contains demo_type b [0, 2] = Some False"
proof -
  from demo_inserted obtain b where b: "insert_bytes demo_type (replicate PAGE_BYTES 0) demo_slot demo_arena = Inr (True, b)"
    "arena_inv demo_type b" "arena_map demo_type b = [[0, 1] \<mapsto> demo_slot]" by blast
  show ?thesis
    using b arena_lookup_correct [OF b(2), of "[0, 1]" Some] arena_lookup_correct [OF b(2), of "[0, 2]" Some]
    by (simp add: demo_slot_facts)
qed

section \<open>Insert\<close>

text \<open>
  C2. \<open>insert\<close> adds exactly the new record: when the key is present it answers \<open>false\<close> and
  changes nothing; otherwise it answers \<open>true\<close>, keeps the invariant (chains, directory, sorted
  pages, counts, free list) through page allocation and every kind of page split, and the new
  map is the old one with the encoded record under its key. It fails only for an absent key in
  an arena with no free page left and no room under \<open>max_bytes\<close>. Nothing depends on what a
  fresh page holds (\<open>junk\<close>).
\<close>

theorem arena_insert_correct:
  assumes "arena_inv T a" and "index_room (ar_cfg a)" and "length junk = PAGE_BYTES"
    and "wr v (replicate (SIZE T) 0) = Some slot" and "length slot = SIZE T"
  shows "case arena_insert T wr junk v a of
      None \<Rightarrow> False
    | Some (Inl e) \<Rightarrow> arena_map T a (slot_key T slot) = None \<and> arena_full a \<and>
        e = CapacityExceeded (ac_max_bytes (ar_cfg a))
    | Some (Inr (False, b)) \<Rightarrow> arena_map T a (slot_key T slot) \<noteq> None \<and> b = a
    | Some (Inr (True, b)) \<Rightarrow> arena_map T a (slot_key T slot) = None \<and> arena_inv T b \<and>
        arena_map T b = (arena_map T a)(slot_key T slot \<mapsto> slot) \<and>
        arena_len b = arena_len a + 1 \<and> ar_cfg b = ar_cfg a"
proof -
  obtain runs F where rep: "arena_rep T a runs F" using assms(1) unfolding arena_inv_def by blast
  have "arena_insert T wr junk v a = Some (insert_bytes T junk slot a)" by (simp add: arena_insert_def assms(4))
  with insert_bytes_rep [OF rep assms(5,2,3)] show ?thesis by (auto simp: inserted_def)
qed

theorem arena_insert_correct_witness:
  "\<exists>b. arena_insert demo_type array_write (replicate PAGE_BYTES 9) demo_slot demo_arena = Some (Inr (True, b)) \<and>
     arena_map demo_type b [0, 1] = Some [0, 1, 2, 3] \<and> arena_len b = 1"
proof -
  have w: "array_write demo_slot (replicate (SIZE demo_type) 0) = Some demo_slot"
    by (simp add: array_write_def demo_slot_def demo_type_def splice_def)
  have "arena_len demo_arena = 0" by (simp add: arena_len_def demo_arena_def)
  then show ?thesis
    using arena_insert_correct [where wr = array_write and v = demo_slot, OF demo_inv(1,3) _ w demo_slot_facts(1), of "replicate PAGE_BYTES 9"]
      demo_inv(2,4)
    by (auto simp: demo_slot_facts split: option.splits sum.splits bool.splits) (auto simp: demo_slot_def)
qed

text \<open>
  What is inserted is what is read: for a record type whose layout is lossless, after
  \<open>insert(v)\<close> answered \<open>true\<close>, \<open>get\<close> of the record's key decodes to \<open>v\<close> again, and every other
  key reads as before.
\<close>

theorem arena_insert_get:
  assumes "lossless T wr rd" and "arena_inv T a" and "index_room (ar_cfg a)" and "length junk = PAGE_BYTES"
    and "arena_insert T wr junk v a = Some (Inr (True, b))"
  shows "\<exists>slot. wr v (replicate (SIZE T) 0) = Some slot \<and> arena_get T rd b (slot_key T slot) = Some (Some v) \<and>
    (\<forall>k. k \<noteq> slot_key T slot \<longrightarrow> length k = KEY_LEN T \<longrightarrow> arena_get_slot T b k = arena_get_slot T a k)"
proof -
  obtain slot where w: "wr v (replicate (SIZE T) 0) = Some slot" "length slot = SIZE T" "rd slot = Some v"
    using assms(1) unfolding lossless_def by (metis length_replicate)
  have ok: "slot_ok T" using assms(2) by (rule inv_slot_ok)
  then have k: "length (slot_key T slot) = KEY_LEN T" using w(2) by (simp add: slot_key_def slot_ok_def)
  have i: "insert_bytes T junk slot a = Inr (True, b)" using assms(5) w(1) by (simp add: arena_insert_def)
  then have ins: "arena_ins T (junk, slot) a = Some (True, b)" by (simp add: arena_ins_def)
  have inv: "arena_usable T a \<and> slot_ok T" using assms(2,3) ok by (simp add: arena_usable_def)
  have io: "length (fst (junk, slot)) = PAGE_BYTES \<and> length (snd (junk, slot)) = SIZE T \<and> slot_ok T" using assms(4) w(2) ok by simp
  have g: "arena_get_slot T b (slot_key T slot) = Some (Some slot)"
    using arena_store.get_inserted [OF inv io ins] by simp
  then have "arena_get T rd b (slot_key T slot) = Some (Some v)"
    using w(3) by (auto simp: arena_get_def arena_get_slot_def Let_def split: option.splits)
  moreover have "arena_get_slot T b x = arena_get_slot T a x" if "x \<noteq> slot_key T slot" "length x = KEY_LEN T" for x
    using arena_store.get_frame [OF inv io ins that(2)] that(1) by simp
  ultimately show ?thesis using w(1) by blast
qed

text \<open>An arena of temporal slots, for the typed statement.\<close>

lemma demo_temporal:
  obtains a b where "arena_new temporal_slot_slot demo_cfg = Inr a" and "arena_inv temporal_slot_slot a" and "index_room (ar_cfg a)"
    and "arena_insert temporal_slot_slot temporal_slot_write (replicate PAGE_BYTES 0) r a = Some (Inr (True, b))"
proof -
  let ?T = temporal_slot_slot
  have ok: "slot_ok ?T" by (rule ts_codec.layout_ok)
  have "\<not> (SIZE ?T = 0 \<or> PAGE_BYTES < SIZE ?T \<or> KEY_LEN ?T = 0 \<or> SIZE ?T < KEY_LEN ?T)"
    using ok by (auto simp: slot_ok_def)
  moreover have "ac_shards demo_cfg = 1" "is_power_of_two 1"
    by (simp_all add: demo_cfg_def is_power_of_two_def trailing_zeros.simps)
  ultimately obtain a where a: "arena_new ?T demo_cfg = Inr a" by (auto simp: arena_new_def)
  note n = arena_new_rep [OF a, unfolded \<open>ac_shards demo_cfg = 1\<close>]
  have rep: "arena_rep ?T a (replicate 1 []) []" using n(1) by (simp add: usize_max_def)
  have e: "arena_map ?T a = Map.empty" "ar_cfg a = demo_cfg" using n(2,3) by (simp_all add: usize_max_def)
  have room: "index_room (ar_cfg a)" unfolding e by (simp add: demo_cfg_def index_room_def PAGE_BYTES_def)
  have "arena_pool_bytes a = 0" using a by (auto simp: arena_new_def arena_pool_bytes_def owned_empty_def split: if_splits)
  then have full: "\<not> arena_full a" by (simp add: arena_full_def e(2)) (simp add: demo_cfg_def PAGE_BYTES_def)
  from insert_bytes_rep [OF rep ts_codec.length_image [of r] room, of "replicate PAGE_BYTES 0"] e(1) full
  obtain b where "insert_bytes ?T (replicate PAGE_BYTES 0) (temporal_slot_image r) a = Inr (True, b)" by auto
  then have "arena_insert ?T temporal_slot_write (replicate PAGE_BYTES 0) r a = Some (Inr (True, b))"
    by (simp add: arena_insert_def ts_codec.write_fills)
  with a rep room that show thesis unfolding arena_inv_def by blast
qed

theorem arena_insert_get_witness:
  "\<exists>a b slot. arena_insert temporal_slot_slot temporal_slot_write (replicate PAGE_BYTES 0)
       \<lparr>ts_recorded_at = 7, ts_fact = 5\<rparr> a = Some (Inr (True, b)) \<and>
     arena_get temporal_slot_slot temporal_slot_read b (slot_key temporal_slot_slot slot) = Some (Some \<lparr>ts_recorded_at = 7, ts_fact = 5\<rparr>)"
  using demo_temporal [of "\<lparr>ts_recorded_at = 7, ts_fact = 5\<rparr>"] arena_insert_get [OF ts_codec.layout_lossless]
  by (metis length_replicate)

section \<open>Remove\<close>

text \<open>
  C4. \<open>remove\<close> deletes exactly one key: it answers whether the key was present, an absent key
  changes nothing, and a present one leaves an arena that satisfies the invariant (an emptied
  page is unlinked from its chain and directory and put on the free list, a changed first key is
  refreshed), whose map is the old one without the key and whose count is one less. A key of the
  wrong length panics.
\<close>

theorem arena_remove_correct:
  assumes "arena_inv T a"
  shows "case arena_remove T key a of
      None \<Rightarrow> length key \<noteq> KEY_LEN T
    | Some (found, b) \<Rightarrow> length key = KEY_LEN T \<and> found = (arena_map T a key \<noteq> None) \<and>
        (if found then arena_inv T b \<and> arena_map T b = (arena_map T a)(key := None) \<and>
            arena_len b + 1 = arena_len a \<and> ar_cfg b = ar_cfg a
         else b = a)"
proof (cases "length key = KEY_LEN T")
  case True
  obtain runs F where rep: "arena_rep T a runs F" using assms unfolding arena_inv_def by blast
  from remove_rep [OF rep True] True show ?thesis by (auto simp: removed_def)
qed (simp add: arena_remove_def)

theorem arena_remove_correct_witness:
  "\<exists>a b. arena_map demo_type a [0, 1] = Some demo_slot \<and> arena_remove demo_type [0, 1] a = Some (True, b) \<and>
     arena_map demo_type b = Map.empty \<and> arena_len b = 0"
proof -
  from demo_inserted obtain a where a: "arena_inv demo_type a" "arena_map demo_type a = [[0, 1] \<mapsto> demo_slot]" "arena_len a = 1"
    by blast
  show ?thesis
    using arena_remove_correct [OF a(1), of "[0, 1]"] a(2,3)
    by - (rule exI [of _ a], auto simp: demo_slot_facts split: option.splits prod.splits)
qed

section \<open>Payload updates\<close>

text \<open>
  \<open>payload_mut\<close> reaches the payload of exactly one record: whatever the caller writes through
  the slice it gets (it cannot resize it), the key bytes, the order of the pages, the count and
  every other record stay as they were, and an absent key hands out nothing.
\<close>

theorem arena_payload_mut_correct:
  assumes "arena_inv T a" and "length key = KEY_LEN T"
    and "\<And>xs. length xs = SIZE T - KEY_LEN T \<Longrightarrow> length (f xs) = length xs"
  shows "case arena_map T a key of
      None \<Rightarrow> arena_payload_mut T f a key = Some None
    | Some r \<Rightarrow> \<exists>b. arena_payload_mut T f a key = Some (Some b) \<and> arena_inv T b \<and> arena_len b = arena_len a \<and>
        arena_map T b = (arena_map T a)(key \<mapsto> key @ f (drop (KEY_LEN T) r))"
proof -
  obtain runs F where rep: "arena_rep T a runs F" using assms(1) unfolding arena_inv_def by blast
  from payload_rep [OF rep assms(2,3)] show ?thesis
    by (auto simp: arena_inv_def arena_len_def split: option.splits)
qed

theorem arena_payload_mut_correct_witness:
  "\<exists>a b. arena_map demo_type a [0, 1] = Some [0, 1, 2, 3] \<and> arena_payload_mut demo_type rev a [0, 1] = Some (Some b) \<and>
     arena_map demo_type b [0, 1] = Some [0, 1, 3, 2]"
proof -
  from demo_inserted obtain a where a: "arena_inv demo_type a" "arena_map demo_type a = [[0, 1] \<mapsto> demo_slot]" by blast
  show ?thesis
    using arena_payload_mut_correct [OF a(1), of "[0, 1]" rev] a(2)
    by - (rule exI [of _ a], auto simp: demo_slot_facts(3) demo_slot_def)
qed

section \<open>Count and histories\<close>

text \<open>
  The record count kept incrementally is always the number of keys of the abstract map, so no
  record is ever duplicated or stranded in a page outside the chains.
\<close>

theorem arena_len_is_card:
  assumes "arena_inv T a"
  shows "arena_len a = card (dom (arena_map T a)) \<and> (arena_is_empty a \<longleftrightarrow> arena_map T a = Map.empty)"
proof -
  have fin: "finite (dom (arena_map T a))" by (simp add: arena_map_def finite_dom_map_of)
  show ?thesis using inv_card [OF assms] fin by (auto simp: arena_is_empty_def arena_len_def)
qed

theorem arena_len_is_card_witness:
  "\<exists>a. arena_len a = 1 \<and> dom (arena_map demo_type a) = {[0, 1]} \<and> \<not> arena_is_empty a"
proof -
  from demo_inserted obtain a where a: "arena_inv demo_type a" "arena_map demo_type a = [[0, 1] \<mapsto> demo_slot]" "arena_len a = 1"
    by blast
  then show ?thesis using arena_len_is_card [OF a(1)] by (intro exI [of _ a]) auto
qed

text \<open>
  C3. The arena refines a finite map over whole histories: any sequence of inserts and removes
  that is not refused for lack of room, started on an arena that satisfies its invariant, gives
  the answers the map gives to the same sequence, one by one, and ends in an arena that
  satisfies the invariant and represents the map's final state.
\<close>

theorem arena_history_refines:
  assumes "arena_inv T a" and "index_room (ar_cfg a)"
    and "\<forall>op \<in> set ops. ok_op (\<lambda>i. length (fst i) = PAGE_BYTES \<and> length (snd i) = SIZE T) (\<lambda>k. length k = KEY_LEN T) op"
    and "run_ops (arena_ins T) (arena_remove T) ops a = Some (answers, b)"
  shows "arena_inv T b \<and> map_ops (slot_key T) snd ops (arena_map T a) = (answers, arena_map T b)"
proof -
  have ok: "slot_ok T" using assms(1) by (rule inv_slot_ok)
  have "\<forall>op \<in> set ops. ok_op (\<lambda>i. length (fst i) = PAGE_BYTES \<and> length (snd i) = SIZE T \<and> slot_ok T) (\<lambda>k. length k = KEY_LEN T) op"
    using assms(3) ok by (auto simp: ok_op_def split: store_op.splits)
  from arena_store.history_refines [OF _ this assms(4)] assms(1,2) ok show ?thesis
    by (simp add: arena_usable_def)
qed

theorem arena_history_refines_witness:
  "\<exists>b. run_ops (arena_ins demo_type) (arena_remove demo_type)
        [Ins (replicate PAGE_BYTES 0, demo_slot), Ins (replicate PAGE_BYTES 0, demo_slot), Del [0, 1]] demo_arena
      = Some ([True, False, True], b) \<and> arena_map demo_type b = Map.empty"
proof -
  let ?j = "replicate PAGE_BYTES (0 :: u8)"
  let ?ops = "[Ins (?j, demo_slot), Ins (?j, demo_slot), Del [0, 1]]"
  obtain a where a: "insert_bytes demo_type ?j demo_slot demo_arena = Inr (True, a)" "arena_inv demo_type a"
    "arena_map demo_type a = [[0, 1] \<mapsto> demo_slot]" "ar_cfg a = demo_cfg" using demo_inserted by blast
  obtain runs F where rep: "arena_rep demo_type a runs F" using a(2) unfolding arena_inv_def by blast
  have "index_room (ar_cfg a)" using a(4) by (simp add: demo_cfg_def index_room_def PAGE_BYTES_def)
  then have i: "insert_bytes demo_type ?j demo_slot a = Inr (False, a)"
    using insert_bytes_rep [OF rep demo_slot_facts(1), of ?j] a(3) by (simp add: demo_slot_facts)
  obtain b where b: "arena_remove demo_type [0, 1] a = Some (True, b)"
    using remove_rep [OF rep, of "[0, 1]"] a(3) by (auto simp: demo_slot_facts)
  have r: "run_ops (arena_ins demo_type) (arena_remove demo_type) ?ops demo_arena = Some ([True, False, True], b)"
    by (simp add: arena_ins_def a(1) i b)
  have "arena_inv demo_type b \<and> map_ops (slot_key demo_type) snd ?ops (arena_map demo_type demo_arena) = ([True, False, True], arena_map demo_type b)"
    by (rule arena_history_refines [OF demo_inv(1,3) _ r]) (simp add: ok_op_def demo_slot_facts)
  then have "arena_map demo_type b = Map.empty" by (simp add: demo_inv(2) demo_slot_facts Let_def)
  with r show ?thesis by blast
qed

end
