(* ===== verification/Arena_Scan.thy ===== *)
theory Arena_Scan
  imports Arena_Store
begin

text \<open>
  The three iterators of \<open>arena.rs\<close> as state machines: \<open>iter\<close> over all records, \<open>range\<close> over a
  key interval ascending and \<open>range_rev\<close> descending. One call of \<open>next\<close> loops over empty shards
  and exhausted pages; a loop over corrupt links may not end, so the functions are partial
  (\<open>None\<close> is a loop that does not return, or a panic of \<open>T::read\<close>). Everything a client can ask
  for by repeated calls is \<open>drain\<close>.
\<close>

section \<open>Cursors\<close>

record cursor =
  cu_shard :: nat
  cu_page :: u32
  cu_idx :: nat

record iter = cursor +
  it_remaining :: nat

definition arena_iter :: "arena \<Rightarrow> iter" where
  "arena_iter a = \<lparr>cu_shard = 0, cu_page = NONE_U32, cu_idx = 0, it_remaining = ar_total a\<rparr>"

partial_function (option) iter_next ::
  "slot_type \<Rightarrow> (bytes \<Rightarrow> 'r option) \<Rightarrow> arena \<Rightarrow> iter \<Rightarrow> ('r option \<times> iter) option" where
  "iter_next T rd a it =
     (if cu_page it = NONE_U32
      then if ac_shards (ar_cfg a) \<le> cu_shard it then Some (None, it)
           else iter_next T rd a (it\<lparr>cu_page := ar_heads a ! cu_shard it, cu_idx := 0, cu_shard := cu_shard it + 1\<rparr>)
      else if cu_idx it < ar_count a (cu_page it)
      then let rel = cu_idx it * SIZE T in do {
             r \<leftarrow> rd (slice (ar_page a (cu_page it)) rel (rel + SIZE T));
             Some (Some r, it\<lparr>cu_idx := cu_idx it + 1, it_remaining := it_remaining it - 1\<rparr>) }
      else iter_next T rd a (it\<lparr>cu_page := ar_next a ! unat (cu_page it), cu_idx := 0\<rparr>))"

definition iter_size_hint :: "iter \<Rightarrow> nat \<times> nat option" where
  "iter_size_hint it = (it_remaining it, Some (it_remaining it))"

text \<open>\<open>range\<close> and \<open>range_rev\<close> panic (\<open>None\<close>) on a hashed arena or a bound of the wrong length.\<close>

definition arena_range :: "slot_type \<Rightarrow> arena \<Rightarrow> bytes \<Rightarrow> bytes \<Rightarrow> cursor option" where
  "arena_range T a start to =
     (if ac_mode (ar_cfg a) \<noteq> Ordered \<or> length start \<noteq> KEY_LEN T \<or> length to \<noteq> KEY_LEN T then None
      else let shard = shard_of (ar_cfg a) start;
               (page, idx) = (case find_page T a shard start of
                   None \<Rightarrow> (NONE_U32, 0)
                 | Some t \<Rightarrow>
                     let cnt = ar_count a (tg_page t);
                         pos = (case search_in T a (tg_page t) cnt start of Inr p \<Rightarrow> p | Inl p \<Rightarrow> p)
                     in if pos < cnt then (tg_page t, pos) else (ar_next a ! unat (tg_page t), 0))
        in Some \<lparr>cu_shard = shard + 1, cu_page = page, cu_idx = idx\<rparr>)"

partial_function (option) range_next ::
  "slot_type \<Rightarrow> (bytes \<Rightarrow> 'r option) \<Rightarrow> arena \<Rightarrow> bytes \<Rightarrow> cursor \<Rightarrow> ('r option \<times> cursor) option" where
  "range_next T rd a to c =
     (if cu_page c = NONE_U32
      then if ac_shards (ar_cfg a) \<le> cu_shard c then Some (None, c)
           else range_next T rd a to (c\<lparr>cu_page := ar_heads a ! cu_shard c, cu_idx := 0, cu_shard := cu_shard c + 1\<rparr>)
      else if cu_idx c < ar_count a (cu_page c)
      then let rel = cu_idx c * SIZE T; page = ar_page a (cu_page c) in
           if to \<le> slice page rel (rel + KEY_LEN T) then Some (None, c)
           else do {
             r \<leftarrow> rd (slice page rel (rel + SIZE T));
             Some (Some r, c\<lparr>cu_idx := cu_idx c + 1\<rparr>) }
      else range_next T rd a to (c\<lparr>cu_page := ar_next a ! unat (cu_page c), cu_idx := 0\<rparr>))"

definition arena_range_rev :: "slot_type \<Rightarrow> arena \<Rightarrow> bytes \<Rightarrow> bytes \<Rightarrow> cursor option" where
  "arena_range_rev T a start to =
     (if ac_mode (ar_cfg a) \<noteq> Ordered \<or> length start \<noteq> KEY_LEN T \<or> length to \<noteq> KEY_LEN T then None
      else if to \<le> start then Some \<lparr>cu_shard = 0, cu_page = NONE_U32, cu_idx = 0\<rparr>
      else let shard = shard_of (ar_cfg a) to;
               (page, idx) = (case find_page T a shard to of
                   None \<Rightarrow> (NONE_U32, 0)
                 | Some t \<Rightarrow>
                     let cnt = ar_count a (tg_page t);
                         pos = (case search_in T a (tg_page t) cnt to of Inr p \<Rightarrow> p | Inl p \<Rightarrow> p)
                     in if 0 < pos then (tg_page t, pos)
                        else let page = ar_prev a ! unat (tg_page t)
                          in (page, if page \<noteq> NONE_U32 then ar_count a page else 0))
        in Some \<lparr>cu_shard = shard, cu_page = page, cu_idx = idx\<rparr>)"

partial_function (option) range_rev_next ::
  "slot_type \<Rightarrow> (bytes \<Rightarrow> 'r option) \<Rightarrow> arena \<Rightarrow> bytes \<Rightarrow> cursor \<Rightarrow> ('r option \<times> cursor) option" where
  "range_rev_next T rd a start c =
     (if cu_page c = NONE_U32
      then if cu_shard c = 0 then Some (None, c)
           else let shard = cu_shard c - 1; page = ar_tails a ! shard in
             range_rev_next T rd a start
               \<lparr>cu_shard = shard, cu_page = page, cu_idx = (if page = NONE_U32 then 0 else ar_count a page)\<rparr>
      else if cu_idx c = 0
      then let page = ar_prev a ! unat (cu_page c) in
             range_rev_next T rd a start (c\<lparr>cu_page := page, cu_idx := (if page = NONE_U32 then 0 else ar_count a page)\<rparr>)
      else let idx = cu_idx c - 1; rel = idx * SIZE T; page = ar_page a (cu_page c) in
           if slice page rel (rel + KEY_LEN T) < start then Some (None, c\<lparr>cu_idx := idx\<rparr>)
           else do {
             r \<leftarrow> rd (slice page rel (rel + SIZE T));
             Some (Some r, c\<lparr>cu_idx := idx\<rparr>) })"

text \<open>All items of an iterator, by repeated calls until it answers \<open>None\<close>.\<close>

partial_function (option) drain :: "('c \<Rightarrow> ('x option \<times> 'c) option) \<Rightarrow> 'c \<Rightarrow> 'x list option" where
  "drain nx c = do {
     (x, c') \<leftarrow> nx c;
     (case x of
        None \<Rightarrow> Some []
      | Some x \<Rightarrow> do { xs \<leftarrow> drain nx c'; Some (x # xs) }) }"

definition iter_all :: "slot_type \<Rightarrow> (bytes \<Rightarrow> 'r option) \<Rightarrow> arena \<Rightarrow> 'r list option" where
  "iter_all T rd a = drain (iter_next T rd a) (arena_iter a)"

definition range_all :: "slot_type \<Rightarrow> (bytes \<Rightarrow> 'r option) \<Rightarrow> arena \<Rightarrow> bytes \<Rightarrow> bytes \<Rightarrow> 'r list option" where
  "range_all T rd a start to = do { c \<leftarrow> arena_range T a start to; drain (range_next T rd a to) c }"

definition range_rev_all :: "slot_type \<Rightarrow> (bytes \<Rightarrow> 'r option) \<Rightarrow> arena \<Rightarrow> bytes \<Rightarrow> bytes \<Rightarrow> 'r list option" where
  "range_rev_all T rd a start to = do { c \<leftarrow> arena_range_rev T a start to; drain (range_rev_next T rd a start) c }"

lemma drain_items:
  assumes step: "\<And>c x xs. R c (x # xs) \<Longrightarrow> \<exists>c'. nx c = Some (Some x, c') \<and> R c' xs"
    and stop: "\<And>c. R c [] \<Longrightarrow> \<exists>c'. nx c = Some (None, c')"
  shows "R c xs \<Longrightarrow> drain nx c = Some xs"
proof (induction xs arbitrary: c)
  case Nil
  from stop [OF this] show ?case by (subst drain.simps) auto
next
  case (Cons x xs)
  from step [OF this(2)] obtain c' where "nx c = Some (Some x, c')" "R c' xs" by blast
  with Cons.IH show ?case by (subst drain.simps) simp
qed

section \<open>Where a cursor stands\<close>

text \<open>\<open>cur_at c rest n\<close>: an ascending cursor has the records \<open>rest\<close> ahead and at most \<open>n\<close> moves before one.\<close>

definition cur_at :: "slot_type \<Rightarrow> arena \<Rightarrow> nat list list \<Rightarrow> 'z cursor_scheme \<Rightarrow> bytes list \<Rightarrow> nat \<Rightarrow> bool" where
  "cur_at T a runs c rest n \<longleftrightarrow>
     (cu_page c = NONE_U32 \<and> rest = run_recs T a (concat (drop (cu_shard c) runs)) \<and>
        n = length (drop (cu_shard c) runs) + length (concat (drop (cu_shard c) runs))) \<or>
     (\<exists>s us p vs. cu_shard c = Suc s \<and> s < length runs \<and> runs ! s = us @ p # vs \<and> cu_page c = of_nat p \<and>
        cu_idx c \<le> length (recs T a p) \<and>
        rest = drop (cu_idx c) (recs T a p) @ run_recs T a vs @ run_recs T a (concat (drop (Suc s) runs)) \<and>
        n = Suc (length vs) + length (drop (Suc s) runs) + length (concat (drop (Suc s) runs)))"

lemma cur_inside:
  assumes "cu_shard c = Suc s" and "s < length runs" and "runs ! s = us @ p # vs" and "cu_page c = of_nat p"
    and "cu_idx c \<le> length (recs T a p)"
    and "rest = drop (cu_idx c) (recs T a p) @ run_recs T a vs @ run_recs T a (concat (drop (Suc s) runs))"
    and "n = Suc (length vs) + length (drop (Suc s) runs) + length (concat (drop (Suc s) runs))"
  shows "cur_at T a runs c rest n"
  unfolding cur_at_def using assms by blast

lemma cur_between:
  assumes "cur_at T a runs c rest n" and "cu_page c = NONE_U32" and f: "frame T a runs X F"
  shows "rest = run_recs T a (concat (drop (cu_shard c) runs))"
    and "n = length (drop (cu_shard c) runs) + length (concat (drop (cu_shard c) runs))"
proof -
  have "(of_nat p :: u32) \<noteq> NONE_U32" if "s < length runs" "runs ! s = us @ p # vs" for s us p vs
    using frame_index [OF f] frame_bound(1) [OF f that(1), of p] that(2) by simp
  with assms(1,2) have "rest = run_recs T a (concat (drop (cu_shard c) runs)) \<and>
      n = length (drop (cu_shard c) runs) + length (concat (drop (cu_shard c) runs))"
    unfolding cur_at_def by metis
  then show "rest = run_recs T a (concat (drop (cu_shard c) runs))"
    "n = length (drop (cu_shard c) runs) + length (concat (drop (cu_shard c) runs))" by blast+
qed

lemma cur_done:
  assumes "cur_at T a runs c rest n" and "cu_page c = NONE_U32" and "length runs \<le> cu_shard c"
    and f: "frame T a runs X F"
  shows "rest = []"
  using cur_between(1) [OF assms(1,2) f] assms(3) by simp

lemma cur_at_more [simp]: "cur_at T a runs (it\<lparr>it_remaining := k\<rparr>) rest n \<longleftrightarrow> cur_at T a runs it rest n"
  by (simp add: cur_at_def)

lemma run_head:
  assumes f: "frame T a runs X F" and s: "s < length runs"
  shows "ar_heads a ! s = (case runs ! s of [] \<Rightarrow> NONE_U32 | p # _ \<Rightarrow> of_nat p)"
    and "ar_tails a ! s = (if runs ! s = [] then NONE_U32 else of_nat (last (runs ! s)))"
proof -
  have p: "path (nxt a) (ar_heads a ! s) (runs ! s) NONE_U32" "path (prv a) (ar_tails a ! s) (rev (runs ! s)) NONE_U32"
    using f s by (simp_all add: frame_def links_ok_def)
  show "ar_heads a ! s = (case runs ! s of [] \<Rightarrow> NONE_U32 | p # _ \<Rightarrow> of_nat p)"
    using p(1) by (cases "runs ! s") auto
  show "ar_tails a ! s = (if runs ! s = [] then NONE_U32 else of_nat (last (runs ! s)))"
    using p(2) by (cases "runs ! s" rule: rev_cases) auto
qed

lemma cur_page_index:
  assumes "cur_at T a runs c rest n" and "cu_page c \<noteq> NONE_U32" and f: "frame T a runs X F"
  obtains s us p vs where "cu_shard c = Suc s" "s < length runs" "runs ! s = us @ p # vs" "cu_page c = of_nat p"
    "unat (cu_page c) = p" "p < npages a" "cu_idx c \<le> length (recs T a p)"
    "rest = drop (cu_idx c) (recs T a p) @ run_recs T a vs @ run_recs T a (concat (drop (Suc s) runs))"
    "n = Suc (length vs) + length (drop (Suc s) runs) + length (concat (drop (Suc s) runs))"
    "ar_count a (cu_page c) = length (recs T a p)"
proof -
  from assms(1,2) obtain s us p vs where a: "cu_shard c = Suc s" "s < length runs" "runs ! s = us @ p # vs" "cu_page c = of_nat p"
    "cu_idx c \<le> length (recs T a p)"
    "rest = drop (cu_idx c) (recs T a p) @ run_recs T a vs @ run_recs T a (concat (drop (Suc s) runs))"
    "n = Suc (length vs) + length (drop (Suc s) runs) + length (concat (drop (Suc s) runs))"
    unfolding cur_at_def by blast
  have p: "p < npages a" using frame_bound(1) [OF f a(2), of p] a(3) by simp
  then have "unat (of_nat p :: u32) = p" using frame_index [OF f] by simp
  with a(4) have "unat (cu_page c) = p" "ar_count a (cu_page c) = length (recs T a p)" by (simp_all add: ar_count_def length_recs)
  with that a p show thesis by blast
qed

lemma cur_shard_step:
  assumes c: "cur_at T a runs c rest n" and page: "cu_page c = NONE_U32" and s: "cu_shard c < length runs"
    and f: "frame T a runs X F"
  shows "\<exists>m < n. cur_at T a runs (c\<lparr>cu_page := ar_heads a ! cu_shard c, cu_idx := 0, cu_shard := cu_shard c + 1\<rparr>) rest m"
proof -
  note r = cur_between(1) [OF c page f] and n = cur_between(2) [OF c page f]
  have d: "drop (cu_shard c) runs = runs ! cu_shard c # drop (Suc (cu_shard c)) runs"
    using s by (simp add: Cons_nth_drop_Suc)
  show ?thesis
  proof (cases "runs ! cu_shard c")
    case Nil
    then show ?thesis using r n d run_head(1) [OF f s] by (intro exI [of _ "n - 1"]) (auto simp: cur_at_def)
  next
    case (Cons p vs)
    have h: "ar_heads a ! cu_shard c = of_nat p" using run_head(1) [OF f s] Cons by simp
    have "runs ! cu_shard c = [] @ p # vs" using Cons by simp
    then show ?thesis using r n d s h Cons
      by (intro exI [of _ "n - 1"] conjI cur_inside [where s = "cu_shard c" and us = "[]" and p = p and vs = vs]) auto
  qed
qed

lemma cur_page_step:
  assumes c: "cur_at T a runs c rest n" and page: "cu_page c \<noteq> NONE_U32"
    and idx: "\<not> cu_idx c < ar_count a (cu_page c)" and f: "frame T a runs X F"
  shows "\<exists>m < n. cur_at T a runs (c\<lparr>cu_page := ar_next a ! unat (cu_page c), cu_idx := 0\<rparr>) rest m"
proof -
  from cur_page_index [OF c page f] obtain s us p vs where a: "cu_shard c = Suc s" "s < length runs" "runs ! s = us @ p # vs"
    "cu_page c = of_nat p" "unat (cu_page c) = p" "cu_idx c \<le> length (recs T a p)"
    "rest = drop (cu_idx c) (recs T a p) @ run_recs T a vs @ run_recs T a (concat (drop (Suc s) runs))"
    "n = Suc (length vs) + length (drop (Suc s) runs) + length (concat (drop (Suc s) runs))"
    "ar_count a (cu_page c) = length (recs T a p)" by metis
  have rest: "rest = run_recs T a vs @ run_recs T a (concat (drop (Suc s) runs))" using a idx by simp
  have nx: "ar_next a ! unat (cu_page c) = (if vs = [] then NONE_U32 else of_nat (hd vs))"
    using frame_prev(2) [OF f a(2,3)] a(5) by simp
  show ?thesis
  proof (cases vs)
    case Nil
    then show ?thesis using a(1,8) rest nx by (intro exI [of _ "n - 1"]) (auto simp: cur_at_def)
  next
    case (Cons q ws)
    have run: "runs ! s = (us @ [p]) @ q # ws" using a(3) Cons by simp
    show ?thesis using a(1,2,8) rest nx Cons run
      by (intro exI [of _ "n - 1"] conjI cur_inside [where s = s and us = "us @ [p]" and p = q and vs = ws]) auto
  qed
qed

lemma cur_here:
  assumes c: "cur_at T a runs c rest n" and page: "cu_page c \<noteq> NONE_U32"
    and idx: "cu_idx c < ar_count a (cu_page c)" and f: "frame T a runs X F"
  obtains r rest' where "rest = r # rest'" "slice (ar_page a (cu_page c)) (cu_idx c * SIZE T) (cu_idx c * SIZE T + SIZE T) = r"
    "slice (ar_page a (cu_page c)) (cu_idx c * SIZE T) (cu_idx c * SIZE T + KEY_LEN T) = slot_key T r" "length r = SIZE T"
    "cur_at T a runs (c\<lparr>cu_idx := cu_idx c + 1\<rparr>) rest' n"
proof -
  from cur_page_index [OF c page f] obtain s us p vs where a: "cu_shard c = Suc s" "s < length runs" "runs ! s = us @ p # vs"
    "cu_page c = of_nat p" "unat (cu_page c) = p" "p < npages a"
    "rest = drop (cu_idx c) (recs T a p) @ run_recs T a vs @ run_recs T a (concat (drop (Suc s) runs))"
    "n = Suc (length vs) + length (drop (Suc s) runs) + length (concat (drop (Suc s) runs))"
    "ar_count a (cu_page c) = length (recs T a p)" by metis
  have i: "cu_idx c < length (recs T a p)" using idx a(9) by simp
  let ?r = "recs T a p ! cu_idx c"
  have k: "KEY_LEN T \<le> SIZE T" using f by (simp add: frame_def slot_ok_def)
  have sl: "slice (ar_page a (cu_page c)) (cu_idx c * SIZE T) (cu_idx c * SIZE T + SIZE T) = ?r"
    using slot_offset(4) [OF f a(6) i] a(5) by (simp add: ar_page_def)
  have "slot_key T ?r = slice (ar_page a (cu_page c)) (cu_idx c * SIZE T) (cu_idx c * SIZE T + KEY_LEN T)"
    unfolding sl [symmetric] slot_key_def using k by (simp add: take_slice)
  moreover have "length ?r = SIZE T" using recs_size [OF f a(6)] i by simp
  moreover have "rest = ?r # drop (Suc (cu_idx c)) (recs T a p) @ run_recs T a vs @ run_recs T a (concat (drop (Suc s) runs))"
    using a(7) i by (simp add: Cons_nth_drop_Suc [symmetric])
  moreover have "cur_at T a runs (c\<lparr>cu_idx := cu_idx c + 1\<rparr>)
      (drop (Suc (cu_idx c)) (recs T a p) @ run_recs T a vs @ run_recs T a (concat (drop (Suc s) runs))) n"
    by (rule cur_inside [of _ s runs us p vs, OF _ a(2,3) _ _ _ a(8)]) (use a(1,4) i in simp_all)
  ultimately show thesis using sl that by metis
qed

section \<open>One call of \<open>next\<close>\<close>

lemma iter_next_spec:
  assumes f: "frame T a runs X F" and rd: "\<forall>bs. length bs = SIZE T \<longrightarrow> rd bs = Some (dec bs)"
  shows "cur_at T a runs it rest n \<Longrightarrow>
    (case rest of
       [] \<Rightarrow> \<exists>it'. iter_next T rd a it = Some (None, it')
     | r # rest' \<Rightarrow> \<exists>it' m. iter_next T rd a it = Some (Some (dec r), it') \<and> cur_at T a runs it' rest' m \<and>
         it_remaining it' = it_remaining it - 1)"
proof (induction n arbitrary: it rule: less_induct)
  case (less n)
  have sh: "length runs = ac_shards (ar_cfg a)" using frame_shards [OF f] by simp
  consider (finished) "cu_page it = NONE_U32" "length runs \<le> cu_shard it"
    | (shard) "cu_page it = NONE_U32" "cu_shard it < length runs"
    | (here) "cu_page it \<noteq> NONE_U32" "cu_idx it < ar_count a (cu_page it)"
    | (page) "cu_page it \<noteq> NONE_U32" "\<not> cu_idx it < ar_count a (cu_page it)" by linarith
  then show ?case
  proof cases
    case finished
    have "rest = []" using cur_done [OF less.prems finished f] .
    moreover have "iter_next T rd a it = Some (None, it)" by (subst iter_next.simps) (use finished sh in simp)
    ultimately show ?thesis by simp
  next
    case shard
    let ?it = "it\<lparr>cu_page := ar_heads a ! cu_shard it, cu_idx := 0, cu_shard := cu_shard it + 1\<rparr>"
    have eq: "iter_next T rd a it = iter_next T rd a ?it" by (subst iter_next.simps) (use shard sh in simp)
    obtain m where "m < n" "cur_at T a runs ?it rest m" using cur_shard_step [OF less.prems shard f] by blast
    from less.IH [OF this] show ?thesis unfolding eq by (simp split: list.splits)
  next
    case here
    from cur_here [OF less.prems here f] obtain r rest' where r: "rest = r # rest'"
      "slice (ar_page a (cu_page it)) (cu_idx it * SIZE T) (cu_idx it * SIZE T + SIZE T) = r" "length r = SIZE T"
      "cur_at T a runs (it\<lparr>cu_idx := cu_idx it + 1\<rparr>) rest' n" by metis
    then have "cur_at T a runs (it\<lparr>cu_idx := cu_idx it + 1, it_remaining := it_remaining it - 1\<rparr>) rest' n" by simp
    moreover have "iter_next T rd a it = Some (Some (dec r), it\<lparr>cu_idx := cu_idx it + 1, it_remaining := it_remaining it - 1\<rparr>)"
      by (subst iter_next.simps) (use here r rd in simp)
    ultimately show ?thesis using r(1) by auto
  next
    case page
    let ?it = "it\<lparr>cu_page := ar_next a ! unat (cu_page it), cu_idx := 0\<rparr>"
    have eq: "iter_next T rd a it = iter_next T rd a ?it" by (subst iter_next.simps) (use page in simp)
    obtain m where "m < n" "cur_at T a runs ?it rest m" using cur_page_step [OF less.prems page f] by blast
    from less.IH [OF this] show ?thesis unfolding eq by (simp split: list.splits)
  qed
qed

lemma range_next_spec:
  assumes f: "frame T a runs X F" and rd: "\<forall>bs. length bs = SIZE T \<longrightarrow> rd bs = Some (dec bs)"
  shows "cur_at T a runs c rest n \<Longrightarrow>
    (case rest of
       [] \<Rightarrow> \<exists>c'. range_next T rd a to c = Some (None, c')
     | r # rest' \<Rightarrow> if to \<le> slot_key T r then \<exists>c'. range_next T rd a to c = Some (None, c')
         else \<exists>c' m. range_next T rd a to c = Some (Some (dec r), c') \<and> cur_at T a runs c' rest' m)"
proof (induction n arbitrary: c rule: less_induct)
  case (less n)
  have sh: "length runs = ac_shards (ar_cfg a)" using frame_shards [OF f] by simp
  consider (finished) "cu_page c = NONE_U32" "length runs \<le> cu_shard c"
    | (shard) "cu_page c = NONE_U32" "cu_shard c < length runs"
    | (here) "cu_page c \<noteq> NONE_U32" "cu_idx c < ar_count a (cu_page c)"
    | (page) "cu_page c \<noteq> NONE_U32" "\<not> cu_idx c < ar_count a (cu_page c)" by linarith
  then show ?case
  proof cases
    case finished
    have "rest = []" using cur_done [OF less.prems finished f] .
    moreover have "range_next T rd a to c = Some (None, c)" by (subst range_next.simps) (use finished sh in simp)
    ultimately show ?thesis by simp
  next
    case shard
    let ?c = "c\<lparr>cu_page := ar_heads a ! cu_shard c, cu_idx := 0, cu_shard := cu_shard c + 1\<rparr>"
    have eq: "range_next T rd a to c = range_next T rd a to ?c" by (subst range_next.simps) (use shard sh in simp)
    obtain m where "m < n" "cur_at T a runs ?c rest m" using cur_shard_step [OF less.prems shard f] by blast
    from less.IH [OF this] show ?thesis unfolding eq .
  next
    case here
    from cur_here [OF less.prems here f] obtain r rest' where r: "rest = r # rest'"
      "slice (ar_page a (cu_page c)) (cu_idx c * SIZE T) (cu_idx c * SIZE T + SIZE T) = r"
      "slice (ar_page a (cu_page c)) (cu_idx c * SIZE T) (cu_idx c * SIZE T + KEY_LEN T) = slot_key T r" "length r = SIZE T"
      "cur_at T a runs (c\<lparr>cu_idx := cu_idx c + 1\<rparr>) rest' n"
      by metis
    have "range_next T rd a to c = (if to \<le> slot_key T r then Some (None, c) else Some (Some (dec r), c\<lparr>cu_idx := cu_idx c + 1\<rparr>))"
      by (subst range_next.simps) (use here r rd in \<open>simp add: Let_def\<close>)
    then show ?thesis using r by auto
  next
    case page
    let ?c = "c\<lparr>cu_page := ar_next a ! unat (cu_page c), cu_idx := 0\<rparr>"
    have eq: "range_next T rd a to c = range_next T rd a to ?c" by (subst range_next.simps) (use page in simp)
    obtain m where "m < n" "cur_at T a runs ?c rest m" using cur_page_step [OF less.prems page f] by blast
    from less.IH [OF this] show ?thesis unfolding eq .
  qed
qed

section \<open>Descending cursors\<close>

definition rcur_at :: "slot_type \<Rightarrow> arena \<Rightarrow> nat list list \<Rightarrow> cursor \<Rightarrow> bytes list \<Rightarrow> nat \<Rightarrow> bool" where
  "rcur_at T a runs c rest n \<longleftrightarrow>
     (cu_page c = NONE_U32 \<and> cu_shard c \<le> length runs \<and> rest = rev (run_recs T a (concat (take (cu_shard c) runs))) \<and>
        n = cu_shard c + length (concat (take (cu_shard c) runs))) \<or>
     (\<exists>us p vs. cu_shard c < length runs \<and> runs ! cu_shard c = us @ p # vs \<and> cu_page c = of_nat p \<and>
        cu_idx c \<le> length (recs T a p) \<and>
        rest = rev (run_recs T a (concat (take (cu_shard c) runs)) @ run_recs T a us @ take (cu_idx c) (recs T a p)) \<and>
        n = Suc (length us) + cu_shard c + length (concat (take (cu_shard c) runs)))"

lemma rcur_inside:
  assumes "cu_shard c < length runs" and "runs ! cu_shard c = us @ p # vs" and "cu_page c = of_nat p"
    and "cu_idx c \<le> length (recs T a p)"
    and "rest = rev (run_recs T a (concat (take (cu_shard c) runs)) @ run_recs T a us @ take (cu_idx c) (recs T a p))"
    and "n = Suc (length us) + cu_shard c + length (concat (take (cu_shard c) runs))"
  shows "rcur_at T a runs c rest n"
  unfolding rcur_at_def using assms by blast

lemma rcur_between:
  assumes "rcur_at T a runs c rest n" and "cu_page c = NONE_U32" and f: "frame T a runs X F"
  shows "cu_shard c \<le> length runs" and "rest = rev (run_recs T a (concat (take (cu_shard c) runs)))"
    and "n = cu_shard c + length (concat (take (cu_shard c) runs))"
proof -
  have "(of_nat p :: u32) \<noteq> NONE_U32" if "s < length runs" "runs ! s = us @ p # vs" for s us p vs
    using frame_index [OF f] frame_bound(1) [OF f that(1), of p] that(2) by simp
  with assms(1,2) have "cu_shard c \<le> length runs \<and> rest = rev (run_recs T a (concat (take (cu_shard c) runs))) \<and>
      n = cu_shard c + length (concat (take (cu_shard c) runs))"
    unfolding rcur_at_def by metis
  then show "cu_shard c \<le> length runs" "rest = rev (run_recs T a (concat (take (cu_shard c) runs)))"
    "n = cu_shard c + length (concat (take (cu_shard c) runs))" by blast+
qed

lemma rcur_page:
  assumes "rcur_at T a runs c rest n" and "cu_page c \<noteq> NONE_U32" and f: "frame T a runs X F"
  obtains us p vs where "cu_shard c < length runs" "runs ! cu_shard c = us @ p # vs" "cu_page c = of_nat p"
    "unat (cu_page c) = p" "p < npages a" "cu_idx c \<le> length (recs T a p)"
    "rest = rev (run_recs T a (concat (take (cu_shard c) runs)) @ run_recs T a us @ take (cu_idx c) (recs T a p))"
    "n = Suc (length us) + cu_shard c + length (concat (take (cu_shard c) runs))"
proof -
  from assms(1,2) obtain us p vs where a: "cu_shard c < length runs" "runs ! cu_shard c = us @ p # vs" "cu_page c = of_nat p"
    "cu_idx c \<le> length (recs T a p)"
    "rest = rev (run_recs T a (concat (take (cu_shard c) runs)) @ run_recs T a us @ take (cu_idx c) (recs T a p))"
    "n = Suc (length us) + cu_shard c + length (concat (take (cu_shard c) runs))"
    unfolding rcur_at_def by blast
  have p: "p < npages a" using frame_bound(1) [OF f a(1), of p] a(2) by simp
  then have "unat (of_nat p :: u32) = p" using frame_index [OF f] by simp
  with a(3) have "unat (cu_page c) = p" by simp
  with that a p show thesis by blast
qed

definition full_idx :: "arena \<Rightarrow> u32 \<Rightarrow> nat" where
  "full_idx a page = (if page = NONE_U32 then 0 else ar_count a page)"

lemma rcur_shard_step:
  assumes c: "rcur_at T a runs c rest n" and page: "cu_page c = NONE_U32" and s: "cu_shard c \<noteq> 0"
    and f: "frame T a runs X F"
  defines "pg \<equiv> ar_tails a ! (cu_shard c - 1)"
  shows "\<exists>m < n. rcur_at T a runs \<lparr>cu_shard = cu_shard c - 1, cu_page = pg, cu_idx = full_idx a pg\<rparr> rest m"
proof -
  note b = rcur_between [OF c page f]
  obtain t where t: "cu_shard c = Suc t" "t < length runs" using b(1) s by (cases "cu_shard c") simp_all
  have tk: "concat (take (Suc t) runs) = concat (take t runs) @ runs ! t" using t(2) by (simp add: take_Suc_conv_app_nth)
  show ?thesis
  proof (cases "runs ! t" rule: rev_cases)
    case Nil
    then have "pg = NONE_U32" using run_head(2) [OF f t(2)] by (simp add: pg_def t)
    then show ?thesis using b t Nil tk by (intro exI [of _ "n - 1"]) (auto simp: rcur_at_def full_idx_def)
  next
    case (snoc us p)
    have p: "p < npages a" using frame_bound(1) [OF f t(2), of p] snoc by simp
    have pg: "pg = of_nat p" using run_head(2) [OF f t(2)] snoc by (simp add: pg_def t)
    have i: "full_idx a pg = length (recs T a p)"
      using frame_index [OF f p] by (simp add: pg full_idx_def ar_count_def length_recs)
    have "runs ! t = us @ p # []" using snoc by simp
    then show ?thesis using b t pg i snoc tk
      by (intro exI [of _ "n - 1"] conjI rcur_inside [where us = us and p = p and vs = "[]"]) auto
  qed
qed

lemma rcur_page_step:
  assumes c: "rcur_at T a runs c rest n" and page: "cu_page c \<noteq> NONE_U32" and z: "cu_idx c = 0"
    and f: "frame T a runs X F"
  defines "pg \<equiv> ar_prev a ! unat (cu_page c)"
  shows "\<exists>m < n. rcur_at T a runs (c\<lparr>cu_page := pg, cu_idx := full_idx a pg\<rparr>) rest m"
proof -
  from rcur_page [OF c page f] obtain us p vs where a: "cu_shard c < length runs" "runs ! cu_shard c = us @ p # vs"
    "unat (cu_page c) = p"
    "rest = rev (run_recs T a (concat (take (cu_shard c) runs)) @ run_recs T a us @ take (cu_idx c) (recs T a p))"
    "n = Suc (length us) + cu_shard c + length (concat (take (cu_shard c) runs))" by metis
  have pv: "pg = (if us = [] then NONE_U32 else of_nat (last us))"
    using frame_prev(1) [OF f a(1,2)] a(3) by (simp add: pg_def)
  show ?thesis
  proof (cases us rule: rev_cases)
    case Nil
    then show ?thesis using a z pv by (intro exI [of _ "n - 1"]) (auto simp: rcur_at_def full_idx_def)
  next
    case (snoc ws q)
    have q: "q < npages a" using frame_bound(1) [OF f a(1), of q] a(2) snoc by simp
    have pg: "pg = of_nat q" using pv snoc by simp
    have i: "full_idx a pg = length (recs T a q)"
      using frame_index [OF f q] by (simp add: pg full_idx_def ar_count_def length_recs)
    have run: "runs ! cu_shard c = ws @ q # p # vs" using a(2) snoc by simp
    show ?thesis using a z pg i snoc run
      by (intro exI [of _ "n - 1"] conjI rcur_inside [where us = ws and p = q and vs = "p # vs"]) auto
  qed
qed

lemma rcur_here:
  assumes c: "rcur_at T a runs c rest n" and page: "cu_page c \<noteq> NONE_U32" and z: "cu_idx c \<noteq> 0"
    and f: "frame T a runs X F"
  obtains r rest' where "rest = r # rest'"
    "slice (ar_page a (cu_page c)) ((cu_idx c - 1) * SIZE T) ((cu_idx c - 1) * SIZE T + SIZE T) = r"
    "slice (ar_page a (cu_page c)) ((cu_idx c - 1) * SIZE T) ((cu_idx c - 1) * SIZE T + KEY_LEN T) = slot_key T r" "length r = SIZE T"
    "rcur_at T a runs (c\<lparr>cu_idx := cu_idx c - 1\<rparr>) rest' n"
proof -
  from rcur_page [OF c page f] obtain us p vs where a: "cu_shard c < length runs" "runs ! cu_shard c = us @ p # vs"
    "cu_page c = of_nat p" "unat (cu_page c) = p" "p < npages a" "cu_idx c \<le> length (recs T a p)"
    "rest = rev (run_recs T a (concat (take (cu_shard c) runs)) @ run_recs T a us @ take (cu_idx c) (recs T a p))"
    "n = Suc (length us) + cu_shard c + length (concat (take (cu_shard c) runs))" by metis
  obtain i where i: "cu_idx c = Suc i" using z by (cases "cu_idx c") simp_all
  have il: "i < length (recs T a p)" using a(6) i by simp
  let ?r = "recs T a p ! i"
  have k: "KEY_LEN T \<le> SIZE T" using f by (simp add: frame_def slot_ok_def)
  have sl: "slice (ar_page a (cu_page c)) (i * SIZE T) (i * SIZE T + SIZE T) = ?r"
    using slot_offset(4) [OF f a(5) il] a(4) by (simp add: ar_page_def)
  have "slot_key T ?r = slice (ar_page a (cu_page c)) (i * SIZE T) (i * SIZE T + KEY_LEN T)"
    unfolding sl [symmetric] slot_key_def using k by (simp add: take_slice)
  moreover have "length ?r = SIZE T" using recs_size [OF f a(5)] il by simp
  moreover have "rest = ?r # rev (run_recs T a (concat (take (cu_shard c) runs)) @ run_recs T a us @ take i (recs T a p))"
    using a(7) il by (simp add: i take_Suc_conv_app_nth)
  moreover have "rcur_at T a runs (c\<lparr>cu_idx := i\<rparr>)
      (rev (run_recs T a (concat (take (cu_shard c) runs)) @ run_recs T a us @ take i (recs T a p))) n"
    by (rule rcur_inside [of _ runs us p vs]) (use a(1-3) il a(8) in simp_all)
  ultimately show thesis using sl that i by (metis diff_Suc_1)
qed

lemma range_rev_next_spec:
  assumes f: "frame T a runs X F" and rd: "\<forall>bs. length bs = SIZE T \<longrightarrow> rd bs = Some (dec bs)"
  shows "rcur_at T a runs c rest n \<Longrightarrow>
    (case rest of
       [] \<Rightarrow> \<exists>c'. range_rev_next T rd a start c = Some (None, c')
     | r # rest' \<Rightarrow> if slot_key T r < start then \<exists>c'. range_rev_next T rd a start c = Some (None, c')
         else \<exists>c' m. range_rev_next T rd a start c = Some (Some (dec r), c') \<and> rcur_at T a runs c' rest' m)"
proof (induction n arbitrary: c rule: less_induct)
  case (less n)
  consider (finished) "cu_page c = NONE_U32" "cu_shard c = 0" | (shard) "cu_page c = NONE_U32" "cu_shard c \<noteq> 0"
    | (page) "cu_page c \<noteq> NONE_U32" "cu_idx c = 0" | (here) "cu_page c \<noteq> NONE_U32" "cu_idx c \<noteq> 0" by blast
  then show ?case
  proof cases
    case finished
    have "rest = []" using rcur_between(2) [OF less.prems finished(1) f] finished(2) by simp
    moreover have "range_rev_next T rd a start c = Some (None, c)" by (subst range_rev_next.simps) (use finished in simp)
    ultimately show ?thesis by simp
  next
    case shard
    let ?pg = "ar_tails a ! (cu_shard c - 1)"
    let ?c = "\<lparr>cu_shard = cu_shard c - 1, cu_page = ?pg, cu_idx = full_idx a ?pg\<rparr>"
    have eq: "range_rev_next T rd a start c = range_rev_next T rd a start ?c"
      by (subst range_rev_next.simps) (use shard in \<open>simp add: Let_def full_idx_def\<close>)
    obtain m where "m < n" "rcur_at T a runs ?c rest m" using rcur_shard_step [OF less.prems shard f] by blast
    from less.IH [OF this] show ?thesis unfolding eq .
  next
    case page
    let ?pg = "ar_prev a ! unat (cu_page c)"
    let ?c = "c\<lparr>cu_page := ?pg, cu_idx := full_idx a ?pg\<rparr>"
    have eq: "range_rev_next T rd a start c = range_rev_next T rd a start ?c"
      by (subst range_rev_next.simps) (use page in \<open>simp add: Let_def full_idx_def\<close>)
    obtain m where "m < n" "rcur_at T a runs ?c rest m" using rcur_page_step [OF less.prems page f] by blast
    from less.IH [OF this] show ?thesis unfolding eq .
  next
    case here
    from rcur_here [OF less.prems here f] obtain r rest' where r: "rest = r # rest'"
      "slice (ar_page a (cu_page c)) ((cu_idx c - 1) * SIZE T) ((cu_idx c - 1) * SIZE T + SIZE T) = r"
      "slice (ar_page a (cu_page c)) ((cu_idx c - 1) * SIZE T) ((cu_idx c - 1) * SIZE T + KEY_LEN T) = slot_key T r" "length r = SIZE T"
      "rcur_at T a runs (c\<lparr>cu_idx := cu_idx c - 1\<rparr>) rest' n" by metis
    have "range_rev_next T rd a start c = (if slot_key T r < start then Some (None, c\<lparr>cu_idx := cu_idx c - 1\<rparr>)
        else Some (Some (dec r), c\<lparr>cu_idx := cu_idx c - 1\<rparr>))"
      by (subst range_rev_next.simps) (use here r rd in \<open>simp add: Let_def\<close>)
    then show ?thesis using r by auto
  qed
qed

end
