(* ===== verification/Arena_Scan_Theorems.thy ===== *)
theory Arena_Scan_Theorems
  imports Arena_Scan Arena_Theorems
begin

text \<open>
  What the three iterators return: every record once, in key order in an ordered arena, and
  exactly the records of the asked interval, ascending or descending.
\<close>

section \<open>Shard order is key order\<close>

lemma shard_of_mono:
  assumes mode: "ac_mode cfg = Ordered" and len: "length k = length k'" and le: "k \<le> k'"
  shows "shard_of cfg k \<le> shard_of cfg k'"
proof -
  let ?n = "min (length k) 8"
  let ?pad = "\<lambda>k :: bytes. take ?n k @ replicate (8 - ?n) 0"
  have pad: "splice (replicate 8 0) 0 (take (min (length x) 8) x) = ?pad x" if "length x = length k" for x :: bytes
    using that by (simp add: splice_def)
  have "take ?n k \<le> take ?n k'"
  proof (rule ccontr)
    assume "\<not> take ?n k \<le> take ?n k'"
    then have "take ?n k' < take ?n k" by (rule not_le_imp_less)
    then have "k' < k" unfolding lex_prefix [OF len [symmetric], of ?n] by blast
    with le show False by simp
  qed
  then have "?pad k \<le> ?pad k'"
    using append_le_append [of "take ?n k" "take ?n k'" "replicate (8 - ?n) 0" "replicate (8 - ?n) 0"] len by auto
  moreover have l8: "length (?pad x) = 8" if "length x = length k" for x :: bytes using that by simp
  have "u64_be (u64_of_be (?pad k)) = ?pad k" "u64_be (u64_of_be (?pad k')) = ?pad k'"
    using l8 [of k] l8 [of k'] len by (simp_all only: word_bytes_of)
  ultimately have "u64_of_be (?pad k) \<le> u64_of_be (?pad k')"
    using u64_be_less [of "u64_of_be (?pad k')" "u64_of_be (?pad k)"] by (metis not_less)
  then have "unat (u64_of_be (?pad k)) div 2 ^ m \<le> unat (u64_of_be (?pad k')) div 2 ^ m" for m
    by (intro div_le_mono) (simp add: word_le_nat_alt)
  then have "unat (drop_bit m (u64_of_be (?pad k))) \<le> unat (drop_bit m (u64_of_be (?pad k')))" for m
    unfolding unat_drop_bit_eq drop_bit_eq_div [where 'a = nat] .
  then show ?thesis
    using mode len pad [of k] pad [of k'] by (simp add: shard_of_def Let_def)
qed

lemma ordered_shards:
  assumes rep: "arena_rep T a runs F" and mode: "ac_mode (ar_cfg a) = Ordered"
    and s: "s < s'" "s' < length runs" and r: "r \<in> set (run_recs T a (runs ! s))" and r': "r' \<in> set (run_recs T a (runs ! s'))"
  shows "slot_key T r < slot_key T r'"
proof (rule ccontr)
  note f = rep_frame [OF rep]
  assume "\<not> slot_key T r < slot_key T r'"
  then have le: "slot_key T r' \<le> slot_key T r" by simp
  have "length x = SIZE T" if "x \<in> set (run_recs T a (runs ! t))" "t < length runs" for x t
    using that recs_size [OF f] frame_bound(1) [OF f that(2)] by (auto simp: set_run_recs)
  then have "length (slot_key T r') = length (slot_key T r)" using r r' s by (simp add: slot_key_def)
  from shard_of_mono [OF mode this le] rep_keys [OF rep, of s] rep_keys [OF rep, of s'] r r' s
  show False by (simp add: keys_ok_def)
qed

definition all_recs :: "slot_type \<Rightarrow> arena \<Rightarrow> nat list list \<Rightarrow> bytes list" where
  "all_recs T a runs = run_recs T a (concat runs)"

lemma all_recs_split:
  "s < length runs \<Longrightarrow> all_recs T a runs = run_recs T a (concat (take s runs)) @ run_recs T a (runs ! s) @
     run_recs T a (concat (drop (Suc s) runs))"
  by (simp add: all_recs_def concat_eq_split)

lemma in_run_concat: "r \<in> set (run_recs T a (concat rs)) \<longleftrightarrow> (\<exists>i < length rs. r \<in> set (run_recs T a (rs ! i)))"
  by (simp add: run_recs_concat) (metis in_set_conv_nth)

lemma all_recs_sorted:
  assumes rep: "arena_rep T a runs F" and mode: "ac_mode (ar_cfg a) = Ordered"
  shows "sorted_wrt (<) (map (slot_key T) (all_recs T a runs))"
proof -
  have "sorted_wrt (<) (map (slot_key T) (run_recs T a (concat (take n runs))))" if "n \<le> length runs" for n
    using that
  proof (induction n)
    case (Suc n)
    then have n: "n < length runs" by simp
    have e: "concat (take (Suc n) runs) = concat (take n runs) @ runs ! n" using n by (simp add: take_Suc_conv_app_nth)
    have "slot_key T r < slot_key T r'" if "r \<in> set (run_recs T a (concat (take n runs)))" "r' \<in> set (run_recs T a (runs ! n))" for r r'
    proof -
      from that(1) obtain i where "i < n" "r \<in> set (run_recs T a (runs ! i))" using n by (auto simp: in_run_concat)
      then show ?thesis using ordered_shards [OF rep mode _ n _ that(2)] by blast
    qed
    then show ?case using Suc rep_keys [OF rep n] unfolding e by (simp add: sorted_wrt_append keys_ok_def)
  qed simp
  from this [of "length runs"] show ?thesis by (simp add: all_recs_def)
qed

lemma all_recs_map:
  assumes rep: "arena_rep T a runs F"
  shows "set (all_recs T a runs) = ran (arena_map T a)" and "distinct (all_recs T a runs)"
    and "length (all_recs T a runs) = ar_total a" and "r \<in> set (all_recs T a runs) \<Longrightarrow> length r = SIZE T"
proof -
  note f = rep_frame [OF rep]
  have s: "set (all_recs T a runs) = set (arena_records T a)"
    using rep_records [OF rep] by (auto simp: all_recs_def in_run_concat)
  have "r \<in> set (arena_records T a) \<longleftrightarrow> arena_map T a (slot_key T r) = Some r" for r
    using rep_shard_recs [OF rep, of r "slot_key T r"] arena_map_iff [OF rep, of "slot_key T r" r] by simp
  moreover have "arena_map T a k = Some r \<Longrightarrow> k = slot_key T r" for k r using arena_map_iff [OF rep] by simp
  ultimately show "set (all_recs T a runs) = ran (arena_map T a)"
    unfolding s ran_def by blast
  show "distinct (all_recs T a runs)"
    using run_recs_distinct [OF rep] by (simp add: all_recs_def distinct_map)
  show "length (all_recs T a runs) = ar_total a" using rep by (simp add: all_recs_def arena_rep_def)
  assume "r \<in> set (all_recs T a runs)"
  then obtain i where "i < length runs" "r \<in> set (run_recs T a (runs ! i))" by (auto simp: all_recs_def in_run_concat)
  then show "length r = SIZE T" using recs_size [OF f] frame_bound(1) [OF f] by (auto simp: set_run_recs)
qed

section \<open>All records\<close>

lemma iter_drain:
  assumes f: "frame T a runs X F" and rd: "\<forall>bs. length bs = SIZE T \<longrightarrow> rd bs = Some (dec bs)"
    and c: "cur_at T a runs it rest n"
  shows "drain (iter_next T rd a) it = Some (map dec rest)"
proof (rule drain_items [where R = "\<lambda>(it :: iter) xs. \<exists>rest n. xs = map dec rest \<and> cur_at T a runs it rest n"])
  fix it :: iter and x xs assume "\<exists>rest n. x # xs = map dec rest \<and> cur_at T a runs it rest n"
  then obtain r rest n where "x = dec r" "xs = map dec rest" "cur_at T a runs it (r # rest) n" by (auto simp: Cons_eq_map_conv)
  with iter_next_spec [OF f rd this(3)]
  show "\<exists>c'. iter_next T rd a it = Some (Some x, c') \<and> (\<exists>rest n. xs = map dec rest \<and> cur_at T a runs c' rest n)" by auto
next
  fix it :: iter assume "\<exists>rest n. [] = map dec rest \<and> cur_at T a runs it rest n"
  then show "\<exists>c'. iter_next T rd a it = Some (None, c')" using iter_next_spec [OF f rd] by fastforce
qed (use c in blast)

text \<open>The cursor after \<open>k\<close> items, and what it says is left.\<close>

fun iter_after :: "slot_type \<Rightarrow> (bytes \<Rightarrow> 'r option) \<Rightarrow> arena \<Rightarrow> nat \<Rightarrow> iter option" where
  "iter_after T rd a 0 = Some (arena_iter a)"
| "iter_after T rd a (Suc k) = do {
     it \<leftarrow> iter_after T rd a k;
     (x, it') \<leftarrow> iter_next T rd a it;
     Some it' }"

lemma iter_after_spec:
  assumes f: "frame T a runs X F" and rd: "\<forall>bs. length bs = SIZE T \<longrightarrow> rd bs = Some (dec bs)"
    and k: "k \<le> length (all_recs T a runs)" and tot: "length (all_recs T a runs) = ar_total a"
  shows "\<exists>it n. iter_after T rd a k = Some it \<and> cur_at T a runs it (drop k (all_recs T a runs)) n \<and>
    it_remaining it = ar_total a - k"
  using k
proof (induction k)
  case 0
  show ?case by (auto simp: arena_iter_def cur_at_def all_recs_def)
next
  case (Suc k)
  then obtain it n where it: "iter_after T rd a k = Some it" "cur_at T a runs it (drop k (all_recs T a runs)) n"
    "it_remaining it = ar_total a - k" by auto
  have d: "drop k (all_recs T a runs) = all_recs T a runs ! k # drop (Suc k) (all_recs T a runs)"
    using Suc.prems by (simp add: Cons_nth_drop_Suc)
  from iter_next_spec [OF f rd it(2)] obtain it' m where "iter_next T rd a it = Some (Some (dec (all_recs T a runs ! k)), it')"
    "cur_at T a runs it' (drop (Suc k) (all_recs T a runs)) m" "it_remaining it' = it_remaining it - 1"
    unfolding d by auto
  then show ?case using it Suc.prems tot by auto
qed

text \<open>
  C19. \<open>iter\<close> terminates and yields every stored record exactly once; in an ordered arena in
  ascending key order across all shards. The count it announces (\<open>size_hint\<close>, the contract of
  \<open>ExactSizeIterator\<close>) is the number of records still to come, at every step.
\<close>

theorem arena_iter_correct:
  assumes "arena_inv T a" and "\<forall>bs. length bs = SIZE T \<longrightarrow> rd bs = Some (dec bs)"
  shows "\<exists>rs. iter_all T rd a = Some (map dec rs) \<and> distinct rs \<and> set rs = ran (arena_map T a) \<and>
    (ac_mode (ar_cfg a) = Ordered \<longrightarrow> sorted_wrt (<) (map (slot_key T) rs)) \<and>
    (\<forall>k \<le> length rs. \<exists>it. iter_after T rd a k = Some it \<and> drain (iter_next T rd a) it = Some (map dec (drop k rs)) \<and>
       iter_size_hint it = (length (drop k rs), Some (length (drop k rs))))"
proof -
  obtain runs F where rep: "arena_rep T a runs F" using assms(1) unfolding arena_inv_def by blast
  note f = rep_frame [OF rep] and am = all_recs_map [OF rep]
  have c: "cur_at T a runs (arena_iter a) (all_recs T a runs) (length runs + length (concat runs))"
    by (simp add: arena_iter_def cur_at_def all_recs_def)
  have "iter_all T rd a = Some (map dec (all_recs T a runs))"
    unfolding iter_all_def by (rule iter_drain [OF f assms(2) c])
  moreover have "\<exists>it. iter_after T rd a k = Some it \<and> drain (iter_next T rd a) it = Some (map dec (drop k (all_recs T a runs))) \<and>
      iter_size_hint it = (length (drop k (all_recs T a runs)), Some (length (drop k (all_recs T a runs))))"
    if k: "k \<le> length (all_recs T a runs)" for k
  proof -
    obtain it n where it: "iter_after T rd a k = Some it" "cur_at T a runs it (drop k (all_recs T a runs)) n"
      "it_remaining it = ar_total a - k" using iter_after_spec [OF f assms(2) k am(3)] by blast
    then show ?thesis using iter_drain [OF f assms(2) it(2)] am(3) by (simp add: iter_size_hint_def)
  qed
  ultimately show ?thesis using am all_recs_sorted [OF rep] by (intro exI [of _ "all_recs T a runs"]) blast
qed

theorem arena_iter_correct_witness:
  "\<exists>a. arena_inv demo_type a \<and> arena_len a = 1 \<and> iter_all demo_type Some a = Some [demo_slot]"
proof -
  from demo_inserted obtain a where a: "arena_inv demo_type a" "arena_map demo_type a = [[0, 1] \<mapsto> demo_slot]" "arena_len a = 1"
    by blast
  obtain rs where rs: "iter_all demo_type Some a = Some (map (\<lambda>x. x) rs)" "distinct rs" "set rs = ran (arena_map demo_type a)"
    using arena_iter_correct [OF a(1), of Some "\<lambda>x. x"] by auto
  then have "set rs = {demo_slot}" using a(2) by (simp add: ran_def)
  then have "rs = [demo_slot]" using rs(2) by (cases rs; cases "tl rs") auto
  then show ?thesis using a rs(1) by (intro exI [of _ a]) simp
qed

section \<open>Intervals\<close>

lemma range_drain:
  assumes f: "frame T a runs X F" and rd: "\<forall>bs. length bs = SIZE T \<longrightarrow> rd bs = Some (dec bs)"
    and c: "cur_at T a runs c rest n"
  shows "drain (range_next T rd a to) c = Some (map dec (takeWhile (\<lambda>r. slot_key T r < to) rest))"
proof (rule drain_items [where R = "\<lambda>(c :: cursor) xs. \<exists>rest n. xs = map dec (takeWhile (\<lambda>r. slot_key T r < to) rest) \<and> cur_at T a runs c rest n"])
  fix c :: cursor and x xs
  assume "\<exists>rest n. x # xs = map dec (takeWhile (\<lambda>r. slot_key T r < to) rest) \<and> cur_at T a runs c rest n"
  then obtain rest n where e: "x # xs = map dec (takeWhile (\<lambda>r. slot_key T r < to) rest)" and c: "cur_at T a runs c rest n" by meson
  from e obtain r rest' where r: "rest = r # rest'" "slot_key T r < to" "x = dec r" "xs = map dec (takeWhile (\<lambda>r. slot_key T r < to) rest')"
    by (cases rest) (auto split: if_splits)
  from range_next_spec [OF f rd c, of to] r(1,2)
  obtain c' m where "range_next T rd a to c = Some (Some (dec r), c')" "cur_at T a runs c' rest' m"
    by (auto simp: not_le [symmetric])
  with r(3,4) show "\<exists>c'. range_next T rd a to c = Some (Some x, c') \<and>
      (\<exists>rest n. xs = map dec (takeWhile (\<lambda>r. slot_key T r < to) rest) \<and> cur_at T a runs c' rest n)" by blast
next
  fix c :: cursor
  assume "\<exists>rest n. [] = map dec (takeWhile (\<lambda>r. slot_key T r < to) rest) \<and> cur_at T a runs c rest n"
  then obtain rest n where e: "takeWhile (\<lambda>r. slot_key T r < to) rest = []" and c: "cur_at T a runs c rest n" by auto
  with range_next_spec [OF f rd c, of to] show "\<exists>c'. range_next T rd a to c = Some (None, c')"
    by (cases rest) (auto split: if_splits)
qed (use c in blast)

lemma range_rev_drain:
  assumes f: "frame T a runs X F" and rd: "\<forall>bs. length bs = SIZE T \<longrightarrow> rd bs = Some (dec bs)"
    and c: "rcur_at T a runs c rest n"
  shows "drain (range_rev_next T rd a start) c = Some (map dec (takeWhile (\<lambda>r. start \<le> slot_key T r) rest))"
proof (rule drain_items [where R = "\<lambda>c xs. \<exists>rest n. xs = map dec (takeWhile (\<lambda>r. start \<le> slot_key T r) rest) \<and> rcur_at T a runs c rest n"])
  fix c x xs
  assume "\<exists>rest n. x # xs = map dec (takeWhile (\<lambda>r. start \<le> slot_key T r) rest) \<and> rcur_at T a runs c rest n"
  then obtain rest n where e: "x # xs = map dec (takeWhile (\<lambda>r. start \<le> slot_key T r) rest)" and c: "rcur_at T a runs c rest n" by meson
  from e obtain r rest' where r: "rest = r # rest'" "start \<le> slot_key T r" "x = dec r" "xs = map dec (takeWhile (\<lambda>r. start \<le> slot_key T r) rest')"
    by (cases rest) (auto split: if_splits)
  from range_rev_next_spec [OF f rd c, of start] r(1,2)
  obtain c' m where "range_rev_next T rd a start c = Some (Some (dec r), c')" "rcur_at T a runs c' rest' m"
    by (auto simp: not_less [symmetric])
  with r(3,4) show "\<exists>c'. range_rev_next T rd a start c = Some (Some x, c') \<and>
      (\<exists>rest n. xs = map dec (takeWhile (\<lambda>r. start \<le> slot_key T r) rest) \<and> rcur_at T a runs c' rest n)" by blast
next
  fix c
  assume "\<exists>rest n. [] = map dec (takeWhile (\<lambda>r. start \<le> slot_key T r) rest) \<and> rcur_at T a runs c rest n"
  then obtain rest n where e: "takeWhile (\<lambda>r. start \<le> slot_key T r) rest = []" and c: "rcur_at T a runs c rest n" by auto
  with range_rev_next_spec [OF f rd c, of start] show "\<exists>c'. range_rev_next T rd a start c = Some (None, c')"
    by (cases rest) (auto split: if_splits)
qed (use c in blast)

text \<open>Where a key falls among all records: the position the searches compute.\<close>

lemma cut_at:
  assumes "all = A @ B" and "\<And>r. r \<in> set A \<Longrightarrow> key r < k" and "\<And>r. r \<in> set B \<Longrightarrow> (k :: 'k :: linorder) \<le> key r"
  shows "filter (\<lambda>r. k \<le> key r) all = B" and "filter (\<lambda>r. key r < k) all = A"
  using assms by (auto simp: filter_empty_conv filter_id_conv not_le not_less intro: filter_True)

lemma other_shards:
  assumes rep: "arena_rep T a runs F" and mode: "ac_mode (ar_cfg a) = Ordered" and k: "length k = KEY_LEN T"
    and s: "s = shard_of (ar_cfg a) k"
  shows "r \<in> set (run_recs T a (concat (take s runs))) \<Longrightarrow> slot_key T r < k"
    and "r \<in> set (run_recs T a (concat (drop (Suc s) runs))) \<Longrightarrow> k < slot_key T r"
proof -
  note f = rep_frame [OF rep]
  have kl: "length (slot_key T r) = length k" if "r \<in> set (run_recs T a (runs ! t))" "t < length runs" for t
  proof -
    have "length r = SIZE T" using that recs_size [OF f] frame_bound(1) [OF f that(2)] by (auto simp: set_run_recs)
    then show ?thesis using f k by (simp add: slot_key_def frame_def slot_ok_def)
  qed
  have sh: "shard_of (ar_cfg a) (slot_key T r) = t" if "r \<in> set (run_recs T a (runs ! t))" "t < length runs" for t
    using rep_keys [OF rep that(2)] that(1) by (simp add: keys_ok_def)
  show "slot_key T r < k" if "r \<in> set (run_recs T a (concat (take s runs)))"
  proof (rule ccontr)
    from that obtain t where t: "t < s" "t < length runs" "r \<in> set (run_recs T a (runs ! t))" by (auto simp: in_run_concat)
    assume "\<not> slot_key T r < k"
    then have "k \<le> slot_key T r" by simp
    from shard_of_mono [OF mode kl [OF t(3,2), symmetric] this] sh [OF t(3,2)] s t(1) show False by simp
  qed
  show "k < slot_key T r" if "r \<in> set (run_recs T a (concat (drop (Suc s) runs)))"
  proof (rule ccontr)
    from that obtain i where "i < length (drop (Suc s) runs)" "r \<in> set (run_recs T a (drop (Suc s) runs ! i))"
      unfolding in_run_concat by blast
    then have t: "Suc s + i < length runs" "r \<in> set (run_recs T a (runs ! (Suc s + i)))" by simp_all
    assume "\<not> k < slot_key T r"
    then have "slot_key T r \<le> k" by simp
    from shard_of_mono [OF mode kl [OF t(2,1)] this] sh [OF t(2,1)] s show False by simp
  qed
qed

text \<open>The page and slot a search for \<open>k\<close> ends at, hit or miss.\<close>

lemma search_cut:
  assumes rep: "arena_rep T a runs F" and k: "length k = KEY_LEN T" and s: "s = shard_of (ar_cfg a) k"
  obtains (empty) "runs ! s = []" "find_page T a s k = None"
  | (page) us p vs pos where "runs ! s = us @ p # vs" "find_page T a s k = Some (target_of runs s us p)"
      "(case search_in T a (of_nat p) (ar_count a (of_nat p)) k of Inr q \<Rightarrow> q | Inl q \<Rightarrow> q) = pos"
      "pos \<le> length (recs T a p)"
      "\<And>r. r \<in> set (run_recs T a us @ take pos (recs T a p)) \<Longrightarrow> slot_key T r < k"
      "\<And>r. r \<in> set (drop pos (recs T a p) @ run_recs T a vs) \<Longrightarrow> k \<le> slot_key T r"
proof (rule rep_find [OF rep k, folded s])
  assume "runs ! s = []" "find_page T a s k = None"
  then show thesis by (rule empty)
next
  fix us p vs pos
  assume a: "runs ! s = us @ p # vs" "find_page T a s k = Some (target_of runs s us p)" "covers T a k us p vs"
    "search_in T a (of_nat p) (ar_count a (of_nat p)) k = Inl pos" "search_ok (map (slot_key T) (recs T a p)) k (Inl pos)"
  note ip = insertion_point [OF a(3,5)]
  show thesis by (rule page [OF a(1,2), of pos]) (use a(4) ip in \<open>auto simp: less_imp_le\<close>)
next
  fix us p vs pos
  assume a: "runs ! s = us @ p # vs" "find_page T a s k = Some (target_of runs s us p)" "covers T a k us p vs"
    "search_in T a (of_nat p) (ar_count a (of_nat p)) k = Inr pos" "pos < length (recs T a p)" "slot_key T (recs T a p ! pos) = k"
  have sl: "s < length runs" using rep_shard [OF rep] by (simp add: s)
  have so: "sorted_wrt (<) (map (slot_key T) (recs T a p))"
    using page_sorted [OF rep_keys [OF rep sl], of p] a(1) by simp
  have lo: "slot_key T r < k" if "r \<in> set (take pos (recs T a p))" for r
  proof -
    from that a(5) obtain i where "i < pos" "r = recs T a p ! i" by (auto simp: in_set_conv_nth)
    then show ?thesis using sorted_wrt_nth_less [OF so, of i pos] a(5,6) by simp
  qed
  have hi: "k \<le> slot_key T r" if "r \<in> set (drop pos (recs T a p))" for r
  proof -
    from that obtain i where "i < length (recs T a p) - pos" and r: "r = recs T a p ! (pos + i)"
      by (auto simp: in_set_conv_nth)
    then have i: "pos + i < length (recs T a p)" "r = recs T a p ! (pos + i)" by simp_all
    show ?thesis
    proof (cases "i = 0")
      case False
      then show ?thesis using sorted_wrt_nth_less [OF so, of pos "pos + i"] i a(6) by simp
    qed (use i a(6) in simp)
  qed
  show thesis by (rule page [OF a(1,2), of pos]) (use a(3-5) lo hi in \<open>auto simp: covers_def less_imp_le\<close>)
qed

lemma range_start:
  assumes rep: "arena_rep T a runs F" and mode: "ac_mode (ar_cfg a) = Ordered"
    and k: "length start = KEY_LEN T" "length to = KEY_LEN T"
  shows "\<exists>c n. arena_range T a start to = Some c \<and>
    cur_at T a runs c (filter (\<lambda>r. start \<le> slot_key T r) (all_recs T a runs)) n"
proof -
  note f = rep_frame [OF rep]
  define s where "s = shard_of (ar_cfg a) start"
  have s: "s < length runs" using rep_shard [OF rep] by (simp add: s_def)
  note other = other_shards [OF rep mode k(1) s_def]
  show ?thesis
  proof (cases rule: search_cut [OF rep k(1) s_def])
    case 1
    let ?c = "\<lparr>cu_shard = s + 1, cu_page = NONE_U32, cu_idx = 0\<rparr>"
    have "filter (\<lambda>r. start \<le> slot_key T r) (all_recs T a runs) = run_recs T a (concat (drop (Suc s) runs))"
      using 1(1) other by (intro cut_at [of _ "run_recs T a (concat (take s runs))"]) (auto simp: all_recs_split [OF s] less_imp_le)
    moreover have "arena_range T a start to = Some ?c" using mode k 1(2) by (simp add: arena_range_def s_def [symmetric])
    ultimately show ?thesis by (auto simp: cur_at_def)
  next
    case (2 us p vs pos)
    have p: "p < npages a" "unat (of_nat p :: u32) = p" using frame_index [OF f] frame_bound(1) [OF f s, of p] 2(1) by simp_all
    have cnt: "ar_count a (of_nat p) = length (recs T a p)" using p by (simp add: ar_count_def length_recs)
    let ?rest = "drop pos (recs T a p) @ run_recs T a vs @ run_recs T a (concat (drop (Suc s) runs))"
    have "all_recs T a runs = (run_recs T a (concat (take s runs)) @ run_recs T a us @ take pos (recs T a p)) @ ?rest"
      using 2(1) by (simp add: all_recs_split [OF s])
    then have flt: "filter (\<lambda>r. start \<le> slot_key T r) (all_recs T a runs) = ?rest"
      by (rule cut_at(1)) (use other 2(5,6) in \<open>auto simp: less_imp_le\<close>)
    let ?here = "\<lparr>cu_shard = s + 1, cu_page = of_nat p, cu_idx = pos\<rparr>"
    have c: "cur_at T a runs ?here ?rest (Suc (length vs) + length (drop (Suc s) runs) + length (concat (drop (Suc s) runs)))"
      by (rule cur_inside [of _ s runs us p vs]) (use s 2(1,4) in simp_all)
    have r: "arena_range T a start to = Some (if pos < length (recs T a p) then ?here
        else ?here\<lparr>cu_page := ar_next a ! p, cu_idx := 0\<rparr>)"
      using mode k 2(2,3) p(2) cnt by (simp add: arena_range_def s_def [symmetric] target_of_def Let_def)
    show ?thesis
    proof (cases "pos < length (recs T a p)")
      case True
      with r c flt show ?thesis by auto
    next
      case False
      have "cu_page ?here \<noteq> NONE_U32" "\<not> cu_idx ?here < ar_count a (cu_page ?here)"
        using False cnt frame_index [OF f p(1)] by simp_all
      from cur_page_step [OF c this f] r False p(2) flt show ?thesis by auto
    qed
  qed
qed

lemma range_rev_start:
  assumes rep: "arena_rep T a runs F" and mode: "ac_mode (ar_cfg a) = Ordered"
    and k: "length start = KEY_LEN T" "length to = KEY_LEN T" and lt: "start < to"
  shows "\<exists>c n. arena_range_rev T a start to = Some c \<and>
    rcur_at T a runs c (rev (filter (\<lambda>r. slot_key T r < to) (all_recs T a runs))) n"
proof -
  note f = rep_frame [OF rep]
  define s where "s = shard_of (ar_cfg a) to"
  have s: "s < length runs" using rep_shard [OF rep] by (simp add: s_def)
  note other = other_shards [OF rep mode k(2) s_def]
  have nle: "\<not> to \<le> start" using lt by simp
  show ?thesis
  proof (cases rule: search_cut [OF rep k(2) s_def])
    case 1
    let ?c = "\<lparr>cu_shard = s, cu_page = NONE_U32, cu_idx = 0\<rparr>"
    have "filter (\<lambda>r. slot_key T r < to) (all_recs T a runs) = run_recs T a (concat (take s runs))"
      using 1(1) other by (intro cut_at(2) [of _ _ "run_recs T a (concat (drop (Suc s) runs))"]) (auto simp: all_recs_split [OF s] less_imp_le)
    moreover have "arena_range_rev T a start to = Some ?c" using mode k nle 1(2) by (simp add: arena_range_rev_def s_def [symmetric])
    ultimately show ?thesis using s by (auto simp: rcur_at_def)
  next
    case (2 us p vs pos)
    have p: "p < npages a" "unat (of_nat p :: u32) = p" using frame_index [OF f] frame_bound(1) [OF f s, of p] 2(1) by simp_all
    have cnt: "ar_count a (of_nat p) = length (recs T a p)" using p by (simp add: ar_count_def length_recs)
    let ?rest = "run_recs T a (concat (take s runs)) @ run_recs T a us @ take pos (recs T a p)"
    have "all_recs T a runs = ?rest @ drop pos (recs T a p) @ run_recs T a vs @ run_recs T a (concat (drop (Suc s) runs))"
      using 2(1) by (simp add: all_recs_split [OF s])
    then have flt: "filter (\<lambda>r. slot_key T r < to) (all_recs T a runs) = ?rest"
      by (rule cut_at(2)) (use other 2(5,6) in \<open>auto simp: less_imp_le\<close>)
    let ?here = "\<lparr>cu_shard = s, cu_page = of_nat p, cu_idx = pos\<rparr>"
    have c: "rcur_at T a runs ?here (rev ?rest) (Suc (length us) + s + length (concat (take s runs)))"
      by (rule rcur_inside [of _ runs us p vs]) (use s 2(1,4) in simp_all)
    have r: "arena_range_rev T a start to = Some (if 0 < pos then ?here
        else ?here\<lparr>cu_page := ar_prev a ! p, cu_idx := full_idx a (ar_prev a ! p)\<rparr>)"
      using mode k nle 2(2,3) p(2) cnt
      by (simp add: arena_range_rev_def s_def [symmetric] target_of_def Let_def full_idx_def)
    show ?thesis
    proof (cases "0 < pos")
      case True
      with r c flt show ?thesis by auto
    next
      case False
      have "cu_page ?here \<noteq> NONE_U32" "cu_idx ?here = 0" using False frame_index [OF f p(1)] by simp_all
      from rcur_page_step [OF c this f] r False p(2) flt show ?thesis by auto
    qed
  qed
qed

text \<open>On a sorted list the prefix below a bound, or the suffix above one, is a filter.\<close>

lemma takeWhile_sorted:
  "sorted_wrt (<) (map key xs) \<Longrightarrow> takeWhile (\<lambda>r. key r < (k :: 'k :: linorder)) xs = filter (\<lambda>r. key r < k) xs"
proof (induction xs)
  case (Cons x xs)
  have "filter (\<lambda>r. key r < k) xs = []" if "\<not> key x < k"
  proof -
    have "\<not> key y < k" if "y \<in> set xs" for y
    proof -
      have "key x < key y" using Cons.prems that by simp
      with \<open>\<not> key x < k\<close> show ?thesis by simp
    qed
    then show ?thesis by (simp add: filter_empty_conv)
  qed
  then show ?case using Cons by simp
qed simp

lemma takeWhile_rev_sorted:
  "sorted_wrt (<) (map key xs) \<Longrightarrow> takeWhile (\<lambda>r. (k :: 'k :: linorder) \<le> key r) (rev xs) = rev (filter (\<lambda>r. k \<le> key r) xs)"
proof (induction xs rule: rev_induct)
  case (snoc x xs)
  have "filter (\<lambda>r. k \<le> key r) xs = []" if "\<not> k \<le> key x"
  proof -
    have "\<not> k \<le> key y" if "y \<in> set xs" for y
    proof -
      have "key y < key x" using snoc.prems that by (simp add: sorted_wrt_append)
      with \<open>\<not> k \<le> key x\<close> show ?thesis by simp
    qed
    then show ?thesis by (simp add: filter_empty_conv)
  qed
  then show ?case using snoc by (simp add: sorted_wrt_append)
qed simp

text \<open>The records of an interval, in ascending key order.\<close>

definition interval_recs :: "slot_type \<Rightarrow> bytes \<Rightarrow> bytes \<Rightarrow> bytes list \<Rightarrow> bytes list" where
  "interval_recs T start to rs = filter (\<lambda>r. start \<le> slot_key T r \<and> slot_key T r < to) rs"

lemma range_rep:
  assumes rep: "arena_rep T a runs F" and mode: "ac_mode (ar_cfg a) = Ordered"
    and k: "length start = KEY_LEN T" "length to = KEY_LEN T"
    and rd: "\<forall>bs. length bs = SIZE T \<longrightarrow> rd bs = Some (dec bs)"
  shows "range_all T rd a start to = Some (map dec (interval_recs T start to (all_recs T a runs)))"
    and "range_rev_all T rd a start to = Some (map dec (rev (interval_recs T start to (all_recs T a runs))))"
proof -
  note f = rep_frame [OF rep]
  have so: "sorted_wrt (<) (map (slot_key T) (filter P (all_recs T a runs)))" for P
    using all_recs_sorted [OF rep mode] by (simp add: sorted_wrt_map sorted_wrt_filter)
  obtain c n where "arena_range T a start to = Some c"
    "cur_at T a runs c (filter (\<lambda>r. start \<le> slot_key T r) (all_recs T a runs)) n" using range_start [OF rep mode k] by blast
  with range_drain [OF f rd this(2), of to] show "range_all T rd a start to = Some (map dec (interval_recs T start to (all_recs T a runs)))"
    by (simp add: range_all_def takeWhile_sorted [OF so] interval_recs_def conj_commute)
  show "range_rev_all T rd a start to = Some (map dec (rev (interval_recs T start to (all_recs T a runs))))"
  proof (cases "start < to")
    case True
    obtain c n where "arena_range_rev T a start to = Some c"
      "rcur_at T a runs c (rev (filter (\<lambda>r. slot_key T r < to) (all_recs T a runs))) n" using range_rev_start [OF rep mode k True] by blast
    with range_rev_drain [OF f rd this(2), of start] show ?thesis
      by (simp add: range_rev_all_def takeWhile_rev_sorted [OF so] interval_recs_def conj_commute)
  next
    case False
    then have ge: "to \<le> start" by simp
    then have e: "interval_recs T start to (all_recs T a runs) = []" by (auto simp: interval_recs_def filter_empty_conv)
    let ?c = "\<lparr>cu_shard = 0, cu_page = NONE_U32, cu_idx = 0\<rparr>"
    have "range_rev_next T rd a start ?c = Some (None, ?c)" by (subst range_rev_next.simps) simp
    then have "drain (range_rev_next T rd a start) ?c = Some []" by (subst drain.simps) simp
    then show ?thesis using ge mode k e by (simp add: range_rev_all_def arena_range_rev_def)
  qed
qed

text \<open>
  C20. \<open>range(from, to)\<close> on an ordered arena terminates and yields exactly the records whose key
  lies in \<open>[from, to)\<close>, each once, in strictly ascending key order, whatever shards and pages
  they are spread over; a hashed arena or a bound of the wrong length panics.
\<close>

theorem arena_range_correct:
  assumes "arena_inv T a" and "\<forall>bs. length bs = SIZE T \<longrightarrow> rd bs = Some (dec bs)"
  shows "if ac_mode (ar_cfg a) = Ordered \<and> length start = KEY_LEN T \<and> length to = KEY_LEN T then
      \<exists>rs. range_all T rd a start to = Some (map dec rs) \<and> sorted_wrt (<) (map (slot_key T) rs) \<and>
        set rs = {r \<in> ran (arena_map T a). start \<le> slot_key T r \<and> slot_key T r < to}
    else range_all T rd a start to = None"
proof -
  obtain runs F where rep: "arena_rep T a runs F" using assms(1) unfolding arena_inv_def by blast
  let ?rs = "interval_recs T start to (all_recs T a runs)"
  have "set ?rs = {r \<in> ran (arena_map T a). start \<le> slot_key T r \<and> slot_key T r < to}"
    using all_recs_map(1) [OF rep] by (auto simp: interval_recs_def)
  moreover have "sorted_wrt (<) (map (slot_key T) ?rs)" if "ac_mode (ar_cfg a) = Ordered"
    using all_recs_sorted [OF rep that] by (simp add: interval_recs_def sorted_wrt_map sorted_wrt_filter)
  ultimately show ?thesis
    using range_rep(1) [OF rep _ _ _ assms(2), of start to] by (auto simp: range_all_def arena_range_def)
qed

text \<open>
  The newest-first scan \<open>range_rev\<close> is the ascending scan of the same interval read backwards,
  for every pair of bounds (an empty interval included): it returns the same records, in the
  reverse order, and panics exactly when \<open>range\<close> does.
\<close>

theorem arena_range_rev_is_reverse:
  assumes "arena_inv T a" and "\<forall>bs. length bs = SIZE T \<longrightarrow> rd bs = Some (dec bs)"
  shows "range_rev_all T rd a start to = map_option rev (range_all T rd a start to)"
proof (cases "ac_mode (ar_cfg a) = Ordered \<and> length start = KEY_LEN T \<and> length to = KEY_LEN T")
  case True
  obtain runs F where rep: "arena_rep T a runs F" using assms(1) unfolding arena_inv_def by blast
  from range_rep [OF rep _ _ _ assms(2)] True show ?thesis by (simp add: rev_map)
next
  case False
  then show ?thesis by (auto simp: range_all_def range_rev_all_def arena_range_def arena_range_rev_def)
qed

section \<open>Witnesses\<close>

definition demo_ordered :: arena_cfg where
  "demo_ordered = \<lparr>ac_shards = 2, ac_max_bytes = 8192, ac_mode = Ordered\<rparr>"

lemma demo_ordered_inserted:
  "\<exists>b. arena_inv demo_type b \<and> arena_map demo_type b = [[0, 1] \<mapsto> demo_slot] \<and> ac_mode (ar_cfg b) = Ordered"
proof -
  have "is_power_of_two 2" by (simp add: is_power_of_two_def trailing_zeros.simps)
  then obtain a where a: "arena_new demo_type demo_ordered = Inr a"
    by (simp add: arena_new_def demo_type_def demo_ordered_def PAGE_BYTES_def)
  note n = arena_new_rep [OF a]
  have us: "ac_shards demo_ordered \<le> usize_max" by (simp add: demo_ordered_def usize_max_def)
  have room: "index_room (ar_cfg a)" using n(3) us by (simp add: demo_ordered_def index_room_def PAGE_BYTES_def)
  have "arena_pool_bytes a = 0" using a by (auto simp: arena_new_def arena_pool_bytes_def owned_empty_def split: if_splits)
  then have full: "\<not> arena_full a" using n(3) us by (simp add: arena_full_def demo_ordered_def PAGE_BYTES_def)
  from insert_bytes_rep [OF n(1) [OF us] demo_slot_facts(1) room, of "replicate PAGE_BYTES 0"] n(2,3) [OF us] full
  show ?thesis by (auto simp: inserted_def demo_slot_facts demo_ordered_def)
qed

lemma list_of_singleton: "distinct xs \<Longrightarrow> set xs = {x} \<Longrightarrow> xs = [x]"
  by (cases xs; cases "tl xs") auto

theorem arena_range_correct_witness:
  "\<exists>a. arena_inv demo_type a \<and> range_all demo_type Some a [0, 0] [1, 0] = Some [demo_slot] \<and>
     range_all demo_type Some a [0, 2] [1, 0] = Some []"
proof -
  obtain a where a: "arena_inv demo_type a" "arena_map demo_type a = [[0, 1] \<mapsto> demo_slot]" "ac_mode (ar_cfg a) = Ordered"
    using demo_ordered_inserted by blast
  have ran: "ran (arena_map demo_type a) = {demo_slot}" by (simp add: a(2) ran_def)
  note r = arena_range_correct [OF a(1), of Some "\<lambda>x. x"]
  have bounds: "{r. r = demo_slot \<and> [0, 0] \<le> slot_key demo_type r \<and> slot_key demo_type r < [1, 0]} = {demo_slot}"
    "{r. r = demo_slot \<and> [0, 2] \<le> slot_key demo_type r \<and> slot_key demo_type r < [1, 0]} = {}"
    using demo_slot_facts(2) by (auto simp: list_le_def)
  obtain rs where rs: "range_all demo_type Some a [0, 0] [1, 0] = Some rs" "sorted_wrt (<) (map (slot_key demo_type) rs)" "set rs = {demo_slot}"
    using r [of "[0, 0]" "[1, 0]"] a(3) ran demo_slot_facts bounds by auto
  have "distinct rs" using rs(2) by (simp add: strict_sorted_iff distinct_map)
  then have "rs = [demo_slot]" using rs(3) by (rule list_of_singleton)
  moreover have "range_all demo_type Some a [0, 2] [1, 0] = Some []"
    using r [of "[0, 2]" "[1, 0]"] a(3) ran demo_slot_facts bounds by auto
  ultimately show ?thesis using a(1) rs(1) by blast
qed

theorem arena_range_rev_is_reverse_witness:
  "\<exists>a. arena_inv demo_type a \<and> arena_map demo_type a [0, 1] = Some demo_slot \<and>
     range_rev_all demo_type Some a [0, 0] [1, 0] = map_option rev (range_all demo_type Some a [0, 0] [1, 0])"
proof -
  obtain a where a: "arena_inv demo_type a" "arena_map demo_type a = [[0, 1] \<mapsto> demo_slot]"
    using demo_ordered_inserted by blast
  show ?thesis
    using arena_range_rev_is_reverse [OF a(1), of Some "\<lambda>x. x"] a by (intro exI [of _ a]) simp
qed

end
