(* ===== verification/Arena_Load.thy ===== *)
theory Arena_Load
  imports Arena_Store Chunk_Load
begin

text \<open>
  The dumps and the validating load of an arena (\<open>dump_meta\<close>, \<open>dump_pool\<close>, \<open>load_impl\<close> of
  \<open>arena.rs\<close>). The image is untrusted: the loader walks every shard chain and the free list over
  one bitmap, so each walk ends and every page is reached exactly once. The first part is the
  code; the second says what an accepted walk has established.
\<close>

section \<open>Dumps\<close>

definition IMAGE_HEADER :: nat where
  "IMAGE_HEADER = 24"

definition mode_byte :: "shard_mode \<Rightarrow> u8" where
  "mode_byte m = (case m of Uniform \<Rightarrow> 0 | Ordered \<Rightarrow> 1)"

definition arena_dump_meta :: "arena \<Rightarrow> bytes" where
  "arena_dump_meta a =
     (let pages = paged_len (ar_pool a) div PAGE_BYTES in
      u32_le (of_nat (ac_shards (ar_cfg a))) @ u32_le (of_nat pages) @ u32_le (ar_free_head a) @
      u64_le (of_nat (ar_total a)) @ [mode_byte (ac_mode (ar_cfg a))] @ replicate 3 0 @
      concat (map u32_le (ar_heads a)) @ concat (map u32_le (ar_next a)) @ concat (map u16_le (ar_counts a)))"

definition dump_page :: "slot_type \<Rightarrow> arena \<Rightarrow> nat \<Rightarrow> bytes" where
  "dump_page T a page =
     (let used = unat (ar_counts a ! page) * SIZE T
      in take used (page_at PAGE_BYTES (ar_pool a) page) @ replicate (PAGE_BYTES - used) 0)"

definition arena_dump_pool :: "slot_type \<Rightarrow> arena \<Rightarrow> bytes" where
  "arena_dump_pool T a = concat (map (dump_page T a) [0..<length (ar_counts a)])"

section \<open>The reachability walk\<close>

text \<open>What the loader has built so far: the bitmap, the record count, and the derived tables.\<close>

record walk =
  wk_seen :: "bool list"
  wk_live :: nat
  wk_dir :: "page_entry list"
  wk_dir_at :: "u32 list"
  wk_prev :: "u32 list"
  wk_tails :: "u32 list"

definition image_first :: "slot_type \<Rightarrow> bytes \<Rightarrow> nat \<Rightarrow> bytes" where
  "image_first T pool p = slice pool (p * PAGE_BYTES) (p * PAGE_BYTES + KEY_LEN T)"

definition image_last :: "slot_type \<Rightarrow> bytes \<Rightarrow> u16 list \<Rightarrow> nat \<Rightarrow> bytes" where
  "image_last T pool counts pr =
     (let last_at = pr * PAGE_BYTES + (unat (counts ! pr) - 1) * SIZE T
      in slice pool last_at (last_at + KEY_LEN T))"

function chain_walk ::
  "slot_type \<Rightarrow> arena_cfg \<Rightarrow> bytes \<Rightarrow> u32 list \<Rightarrow> u16 list \<Rightarrow> nat \<Rightarrow> u32 \<Rightarrow> u32 \<Rightarrow> walk \<Rightarrow> arena_error + walk" where
  "chain_walk T cfg pool next counts shard page predecessor w =
     (if page = NONE_U32 then Inr w
      else let p = unat page in
        if length (wk_seen w) \<le> p then Inl (Corrupt ''arena chain page out of bounds'')
        else if wk_seen w ! p then Inl (Corrupt ''arena page linked more than once'')
        else if unat (counts ! p) = 0 then Inl (Corrupt ''arena chain contains an empty page'')
        else let first = image_first T pool p in
          if shard_of cfg first \<noteq> shard then Inl (Corrupt ''arena page sits in the wrong shard'')
          else if predecessor \<noteq> NONE_U32 \<and> first \<le> image_last T pool counts (unat predecessor)
          then Inl (Corrupt ''arena chain pages out of key order'')
          else chain_walk T cfg pool next counts shard (next ! p) page
            (w\<lparr>wk_seen := (wk_seen w)[p := True], wk_live := wk_live w + unat (counts ! p),
               wk_prev := (wk_prev w)[p := predecessor],
               wk_tails := (if next ! p = NONE_U32 then (wk_tails w)[shard := page] else wk_tails w),
               wk_dir := wk_dir w @ [\<lparr>pe_key = cached_key T first, pe_page = page\<rparr>]\<rparr>))"
  by pat_completeness auto
termination
  by (relation "measure (\<lambda>(T, cfg, pool, next, counts, shard, page, predecessor, w). length (filter Not (wk_seen w)))")
    (auto simp: mark_decreases not_le)

declare chain_walk.simps [simp del]

fun walk_shards ::
  "slot_type \<Rightarrow> arena_cfg \<Rightarrow> bytes \<Rightarrow> u32 list \<Rightarrow> u16 list \<Rightarrow> nat \<Rightarrow> u32 list \<Rightarrow> walk \<Rightarrow> arena_error + walk" where
  "walk_shards T cfg pool next counts shard [] w = Inr w"
| "walk_shards T cfg pool next counts shard (head # heads) w =
     try_res (chain_walk T cfg pool next counts shard head NONE_U32
         (w\<lparr>wk_dir_at := (wk_dir_at w)[shard := of_nat (length (wk_dir w))]\<rparr>))
       (walk_shards T cfg pool next counts (shard + 1) heads)"

function free_page_walk :: "u32 list \<Rightarrow> u16 list \<Rightarrow> u32 \<Rightarrow> bool list \<Rightarrow> arena_error + bool list" where
  "free_page_walk next counts page seen =
     (if page = NONE_U32 then Inr seen
      else let p = unat page in
        if length seen \<le> p then Inl (Corrupt ''arena free page out of bounds'')
        else if seen ! p then Inl (Corrupt ''arena page linked more than once'')
        else if counts ! p \<noteq> 0 then Inl (Corrupt ''arena free page has a nonzero count'')
        else free_page_walk next counts (next ! p) (seen[p := True]))"
  by pat_completeness auto
termination
  by (relation "measure (\<lambda>(next, counts, page, seen). length (filter Not seen))") (auto simp: mark_decreases not_le)

declare free_page_walk.simps [simp del]

section \<open>Loading\<close>

text \<open>The walks over the decoded arrays, and the arena they make.\<close>

definition arena_adopt ::
  "slot_type \<Rightarrow> arena_cfg \<Rightarrow> bytes \<Rightarrow> paged \<Rightarrow> u32 list \<Rightarrow> u32 list \<Rightarrow> u16 list \<Rightarrow> u32 \<Rightarrow> u64 \<Rightarrow> arena_error + arena" where
  "arena_adopt T cfg pool backing heads next counts free_head tot =
     (let pages = length next; shards = length heads in
      if list_ex (\<lambda>c. slots_per_page T < unat c) counts then Inl (Corrupt ''arena page count exceeds slots per page'')
      else try_res (walk_shards T cfg pool next counts 0 heads
          \<lparr>wk_seen = replicate pages False, wk_live = 0, wk_dir = [], wk_dir_at = replicate (shards + 1) 0,
           wk_prev = replicate pages NONE_U32, wk_tails = replicate shards NONE_U32\<rparr>) (\<lambda>w.
        let dir_at = (wk_dir_at w)[shards := of_nat (length (wk_dir w))] in
        try_res (free_page_walk next counts free_head (wk_seen w)) (\<lambda>seen.
        if list_ex Not seen then Inl (Corrupt ''arena has an orphan page'')
        else if wk_live w \<noteq> unat tot then Inl (Corrupt ''arena record total disagrees with page counts'')
        else Inr \<lparr>ar_pool = backing, ar_heads = heads, ar_next = next, ar_prev = wk_prev w, ar_counts = counts,
          ar_tails = wk_tails w, ar_dir = wk_dir w, ar_dir_at = dir_at, ar_free_head = free_head,
          ar_total = unat tot, ar_cfg = cfg\<rparr>)))"

definition load_impl :: "slot_type \<Rightarrow> arena_cfg \<Rightarrow> bytes \<Rightarrow> bytes \<Rightarrow> paged \<Rightarrow> arena_error + arena" where
  "load_impl T cfg meta pool backing =
     try_res (arena_new T cfg) (\<lambda>_.
     if length meta < IMAGE_HEADER then Inl (Corrupt ''arena meta shorter than its header'')
     else let shards = unat (u32_of_le (slice meta 0 4)); pages = unat (u32_of_le (slice meta 4 8));
              free_head = u32_of_le (slice meta 8 12); tot = u64_of_le (slice meta 12 20); mode = meta ! 20 in
     if slice meta 21 24 \<noteq> replicate 3 0 then Inl (Corrupt ''arena meta reserved bytes must be zero'')
     else if shards \<noteq> ac_shards cfg then Inl (Corrupt ''arena meta shard count disagrees with cfg'')
     else if mode \<noteq> mode_byte (ac_mode cfg) then Inl (Corrupt ''arena meta shard mode disagrees with cfg'')
     else if unat NONE_U32 \<le> pages then Inl (Corrupt ''arena page count overflows the index space'')
     else if length meta \<noteq> IMAGE_HEADER + shards * 4 + pages * 6 then Inl (Corrupt ''arena meta length mismatch'')
     else if length pool \<noteq> pages * PAGE_BYTES then Inl (Corrupt ''arena pool length mismatch'')
     else let next_base = IMAGE_HEADER + shards * 4; counts_base = next_base + pages * 4 in
       arena_adopt T cfg pool backing (read_u32s meta IMAGE_HEADER shards) (read_u32s meta next_base pages)
         (read_u16s meta counts_base pages) free_head tot)"

definition arena_load :: "slot_type \<Rightarrow> arena_cfg \<Rightarrow> bytes \<Rightarrow> bytes \<Rightarrow> arena_error + arena" where
  "arena_load T cfg meta pool = load_impl T cfg meta pool (owned_from pool)"

definition arena_load_borrowed :: "slot_type \<Rightarrow> arena_cfg \<Rightarrow> bytes \<Rightarrow> bytes \<Rightarrow> arena_error + arena" where
  "arena_load_borrowed T cfg meta pool = load_impl T cfg meta pool (borrowed PAGE_BYTES pool)"

definition arena_load_overlay :: "slot_type \<Rightarrow> arena_cfg \<Rightarrow> bytes \<Rightarrow> bytes \<Rightarrow> arena_error + arena" where
  "arena_load_overlay T cfg meta pool = load_impl T cfg meta pool (borrowed PAGE_BYTES pool)"

section \<open>What a walk establishes\<close>

fun back_links :: "u32 \<Rightarrow> u32 list \<Rightarrow> nat list \<Rightarrow> u32 list" where
  "back_links pr prev [] = prev"
| "back_links pr prev (p # ps) = back_links (of_nat p) (prev[p := pr]) ps"

definition dir_entries :: "slot_type \<Rightarrow> bytes \<Rightarrow> nat list \<Rightarrow> page_entry list" where
  "dir_entries T pool ps = map (\<lambda>p. \<lparr>pe_key = cached_key T (image_first T pool p), pe_page = of_nat p\<rparr>) ps"

definition chain_effect ::
  "slot_type \<Rightarrow> bytes \<Rightarrow> u16 list \<Rightarrow> nat \<Rightarrow> u32 \<Rightarrow> nat list \<Rightarrow> walk \<Rightarrow> walk" where
  "chain_effect T pool counts s pr ps w = w\<lparr>wk_seen := mark ps (wk_seen w),
     wk_live := wk_live w + sum_list (map (\<lambda>p. unat (counts ! p)) ps), wk_prev := back_links pr (wk_prev w) ps,
     wk_tails := (if ps = [] then wk_tails w else (wk_tails w)[s := of_nat (last ps)]),
     wk_dir := wk_dir w @ dir_entries T pool ps\<rparr>"

fun pages_ascend :: "slot_type \<Rightarrow> bytes \<Rightarrow> u16 list \<Rightarrow> u32 \<Rightarrow> nat list \<Rightarrow> bool" where
  "pages_ascend T pool counts pr [] = True"
| "pages_ascend T pool counts pr (p # ps) \<longleftrightarrow>
     (pr \<noteq> NONE_U32 \<longrightarrow> image_last T pool counts (unat pr) < image_first T pool p) \<and>
     pages_ascend T pool counts (of_nat p) ps"

text \<open>A page of shard \<open>s\<close> that may stand in a chain.\<close>

definition live_page :: "slot_type \<Rightarrow> arena_cfg \<Rightarrow> bytes \<Rightarrow> u16 list \<Rightarrow> nat \<Rightarrow> nat \<Rightarrow> bool" where
  "live_page T cfg pool counts s p \<longleftrightarrow> counts ! p \<noteq> 0 \<and> shard_of cfg (image_first T pool p) = s"

lemma chain_effect_Nil [simp]: "chain_effect T pool counts s pr [] w = w"
  by (simp add: chain_effect_def dir_entries_def)

lemma chain_effect_Cons:
  "path ((!) next) (next ! p) ps NONE_U32 \<Longrightarrow>
   chain_effect T pool counts s (of_nat p) ps
     (w\<lparr>wk_seen := (wk_seen w)[p := True], wk_live := wk_live w + unat (counts ! p),
        wk_prev := (wk_prev w)[p := pr],
        wk_tails := (if next ! p = NONE_U32 then (wk_tails w)[s := of_nat p] else wk_tails w),
        wk_dir := wk_dir w @ [\<lparr>pe_key = cached_key T (image_first T pool p), pe_page = of_nat p\<rparr>]\<rparr>) =
   chain_effect T pool counts s pr (p # ps) w"
  by (cases ps) (auto simp: chain_effect_def dir_entries_def mark_Cons)

lemma chain_walk_sound:
  "chain_walk T cfg pool next counts s page pr w = Inr w' \<Longrightarrow>
     \<exists>ps. path ((!) next) page ps NONE_U32 \<and> distinct ps \<and>
       (\<forall>p \<in> set ps. p < length (wk_seen w) \<and> \<not> wk_seen w ! p \<and> live_page T cfg pool counts s p) \<and>
       pages_ascend T pool counts pr ps \<and> w' = chain_effect T pool counts s pr ps w"
proof (induction T cfg pool "next" counts s page pr w rule: chain_walk.induct)
  case (1 T cfg pool "next" counts s page pr w)
  show ?case
  proof (cases "page = NONE_U32")
    case True
    with "1.prems" show ?thesis by (intro exI [of _ "[]"]) (simp add: chain_walk.simps)
  next
    case False
    let ?p = "unat page"
    let ?w = "w\<lparr>wk_seen := (wk_seen w)[?p := True], wk_live := wk_live w + unat (counts ! ?p),
        wk_prev := (wk_prev w)[?p := pr],
        wk_tails := (if next ! ?p = NONE_U32 then (wk_tails w)[s := of_nat ?p] else wk_tails w),
        wk_dir := wk_dir w @ [\<lparr>pe_key = cached_key T (image_first T pool ?p), pe_page = of_nat ?p\<rparr>]\<rparr>"
    note run = "1.prems" [unfolded chain_walk.simps [of T cfg pool "next" counts s page pr w] Let_def]
    from run False have ok: "?p < length (wk_seen w)" "\<not> wk_seen w ! ?p" "live_page T cfg pool counts s ?p"
      and asc: "pr = NONE_U32 \<or> image_last T pool counts (unat pr) < image_first T pool ?p"
      and rest: "chain_walk T cfg pool next counts s (next ! ?p) page ?w = Inr w'"
      by (auto simp: live_page_def not_le unat_eq_0 cong: if_cong split: if_split_asm)
    have "\<exists>ps. path ((!) next) (next ! ?p) ps NONE_U32 \<and> distinct ps \<and>
       (\<forall>p \<in> set ps. p < length (wk_seen ?w) \<and> \<not> wk_seen ?w ! p \<and> live_page T cfg pool counts s p) \<and>
       pages_ascend T pool counts page ps \<and> w' = chain_effect T pool counts s page ps ?w"
      using "1.IH" [OF False refl _ _ _ refl] ok asc rest
      by (simp add: live_page_def unat_eq_0 not_le split del: if_split cong: if_cong)
    then obtain ps where ps: "path ((!) next) (next ! ?p) ps NONE_U32" "distinct ps"
        "\<forall>p \<in> set ps. p < length (wk_seen w) \<and> \<not> (wk_seen w)[?p := True] ! p \<and> live_page T cfg pool counts s p"
        "pages_ascend T pool counts page ps" "w' = chain_effect T pool counts s (of_nat ?p) ps ?w"
      by auto
    note un = unmarked_rest [OF ps(3) ok(1)]
    show ?thesis
    proof (intro exI [of _ "?p # ps"] conjI)
      show "w' = chain_effect T pool counts s pr (?p # ps) w"
        unfolding ps(5) by (rule chain_effect_Cons [OF ps(1)])
    qed (use False ok asc ps un in auto)
  qed
qed

lemma chain_walk_complete:
  "path ((!) next) page ps NONE_U32 \<Longrightarrow> distinct ps \<Longrightarrow>
     (\<forall>p \<in> set ps. p < length (wk_seen w) \<and> \<not> wk_seen w ! p \<and> live_page T cfg pool counts s p) \<Longrightarrow>
     pages_ascend T pool counts pr ps \<Longrightarrow>
     chain_walk T cfg pool next counts s page pr w = Inr (chain_effect T pool counts s pr ps w)"
proof (induction ps arbitrary: page pr w)
  case Nil
  then show ?case by (simp add: chain_walk.simps)
next
  case (Cons p ps)
  then have page: "page \<noteq> NONE_U32" "unat page = p" "page = of_nat p" and rest: "path ((!) next) (next ! p) ps NONE_U32"
    by auto
  have ok: "p < length (wk_seen w)" "\<not> wk_seen w ! p" "unat (counts ! p) \<noteq> 0" "shard_of cfg (image_first T pool p) = s"
    and asc: "\<not> (pr \<noteq> NONE_U32 \<and> image_first T pool p \<le> image_last T pool counts (unat pr))"
    using Cons.prems by (auto simp: live_page_def unat_eq_0 not_le)
  let ?w = "w\<lparr>wk_seen := (wk_seen w)[p := True], wk_live := wk_live w + unat (counts ! p),
      wk_prev := (wk_prev w)[p := pr],
      wk_tails := (if next ! p = NONE_U32 then (wk_tails w)[s := of_nat p] else wk_tails w),
      wk_dir := wk_dir w @ [\<lparr>pe_key = cached_key T (image_first T pool p), pe_page = of_nat p\<rparr>]\<rparr>"
  have "chain_walk T cfg pool next counts s page pr w = chain_walk T cfg pool next counts s (next ! p) (of_nat p) ?w"
    using ok page(1,2) unfolding page(3) [symmetric]
    by (subst chain_walk.simps) (simp add: if_not_P [OF asc] not_le Let_def split del: if_split)
  also have "\<dots> = Inr (chain_effect T pool counts s (of_nat p) ps ?w)"
    by (rule Cons.IH [OF rest]) (use Cons.prems in \<open>auto simp: nth_list_update\<close>)
  finally show ?case unfolding chain_effect_Cons [OF rest] .
qed

text \<open>The shards one after the other.\<close>

fun good_runs ::
  "slot_type \<Rightarrow> arena_cfg \<Rightarrow> bytes \<Rightarrow> u32 list \<Rightarrow> u16 list \<Rightarrow> nat \<Rightarrow> u32 list \<Rightarrow> nat list list \<Rightarrow> bool" where
  "good_runs T cfg pool next counts s [] runs \<longleftrightarrow> runs = []"
| "good_runs T cfg pool next counts s (h # hs) runs \<longleftrightarrow> (\<exists>ps runs'. runs = ps # runs' \<and>
     path ((!) next) h ps NONE_U32 \<and> pages_ascend T pool counts NONE_U32 ps \<and>
     (\<forall>p \<in> set ps. live_page T cfg pool counts s p) \<and> good_runs T cfg pool next counts (Suc s) hs runs')"

lemma good_runs_iff:
  "good_runs T cfg pool next counts s hs runs \<longleftrightarrow> length runs = length hs \<and>
     (\<forall>i < length hs. path ((!) next) (hs ! i) (runs ! i) NONE_U32 \<and> pages_ascend T pool counts NONE_U32 (runs ! i) \<and>
        (\<forall>p \<in> set (runs ! i). live_page T cfg pool counts (s + i) p))"
proof (induction hs arbitrary: s runs)
  case (Cons h hs)
  show ?case
  proof (cases runs)
    case (Cons ps runs')
    then show ?thesis using Cons.IH [of "Suc s" runs'] by (simp add: All_less_Suc2) blast
  qed simp
qed simp

fun shards_effect :: "slot_type \<Rightarrow> bytes \<Rightarrow> u16 list \<Rightarrow> nat \<Rightarrow> nat list list \<Rightarrow> walk \<Rightarrow> walk" where
  "shards_effect T pool counts s [] w = w"
| "shards_effect T pool counts s (ps # runs) w = shards_effect T pool counts (Suc s) runs
     (chain_effect T pool counts s NONE_U32 ps (w\<lparr>wk_dir_at := (wk_dir_at w)[s := of_nat (length (wk_dir w))]\<rparr>))"

lemma chain_effect_seen [simp]: "wk_seen (chain_effect T pool counts s pr ps w) = mark ps (wk_seen w)"
  by (simp add: chain_effect_def)

lemma walk_shards_sound:
  "walk_shards T cfg pool next counts s hs w = Inr w' \<Longrightarrow>
     \<exists>runs. good_runs T cfg pool next counts s hs runs \<and> distinct (concat runs) \<and>
       (\<forall>p \<in> set (concat runs). p < length (wk_seen w) \<and> \<not> wk_seen w ! p) \<and> w' = shards_effect T pool counts s runs w"
proof (induction hs arbitrary: s w)
  case Nil
  then show ?case by (intro exI [of _ "[]"]) simp
next
  case (Cons h hs)
  let ?w = "w\<lparr>wk_dir_at := (wk_dir_at w)[s := of_nat (length (wk_dir w))]\<rparr>"
  from Cons.prems obtain w1 where w1: "chain_walk T cfg pool next counts s h NONE_U32 ?w = Inr w1"
    and rest: "walk_shards T cfg pool next counts (Suc s) hs w1 = Inr w'"
    by (auto simp: try_res_eq_Inr)
  from chain_walk_sound [OF w1] obtain ps where
    ps: "path ((!) next) h ps NONE_U32" "distinct ps" "pages_ascend T pool counts NONE_U32 ps"
      "w1 = chain_effect T pool counts s NONE_U32 ps ?w"
    and live: "\<forall>p \<in> set ps. p < length (wk_seen w) \<and> \<not> wk_seen w ! p \<and> live_page T cfg pool counts s p" by auto
  from Cons.IH [OF rest] obtain runs where
    runs: "good_runs T cfg pool next counts (Suc s) hs runs" "distinct (concat runs)" "w' = shards_effect T pool counts (Suc s) runs w1"
    and new: "\<forall>p \<in> set (concat runs). p < length (wk_seen w1) \<and> \<not> wk_seen w1 ! p" by blast
  have "p < length (wk_seen w) \<and> \<not> wk_seen w ! p \<and> p \<notin> set ps" if "p \<in> set (concat runs)" for p
    using bspec [OF new that] ps(4) by auto
  with ps runs live show ?case
    by (intro exI [of _ "ps # runs"]) (auto simp del: set_concat)
qed

lemma walk_shards_complete:
  "good_runs T cfg pool next counts s hs runs \<Longrightarrow> distinct (concat runs) \<Longrightarrow>
     (\<forall>p \<in> set (concat runs). p < length (wk_seen w) \<and> \<not> wk_seen w ! p) \<Longrightarrow>
     walk_shards T cfg pool next counts s hs w = Inr (shards_effect T pool counts s runs w)"
proof (induction hs arbitrary: s w runs)
  case (Cons h hs)
  let ?w = "w\<lparr>wk_dir_at := (wk_dir_at w)[s := of_nat (length (wk_dir w))]\<rparr>"
  from Cons.prems(1) obtain ps runs' where runs: "runs = ps # runs'" "path ((!) next) h ps NONE_U32"
      "pages_ascend T pool counts NONE_U32 ps" "\<forall>p \<in> set ps. live_page T cfg pool counts s p"
      "good_runs T cfg pool next counts (Suc s) hs runs'" by auto
  have "chain_walk T cfg pool next counts s h NONE_U32 ?w = Inr (chain_effect T pool counts s NONE_U32 ps ?w)"
    using runs Cons.prems(2,3) by (intro chain_walk_complete) auto
  moreover have "walk_shards T cfg pool next counts (Suc s) hs (chain_effect T pool counts s NONE_U32 ps ?w) =
      Inr (shards_effect T pool counts s runs w)"
    using runs Cons.prems(2,3) by (subst Cons.IH [of "Suc s" runs']) auto
  ultimately show ?case by simp
qed simp

section \<open>The tables a walk builds\<close>

lemma length_back_links [simp]: "length (back_links pr prev ps) = length prev"
  by (induction ps arbitrary: pr prev) simp_all

lemma back_links_other: "q \<notin> set ps \<Longrightarrow> back_links pr prev ps ! q = prev ! q"
  by (induction ps arbitrary: pr prev) auto

lemma back_links_path:
  "distinct ps \<Longrightarrow> (\<forall>p \<in> set ps. p < length prev \<and> p < 4294967295) \<Longrightarrow>
     path ((!) (back_links pr prev ps)) (if ps = [] then pr else of_nat (last ps)) (rev ps) pr"
proof (induction ps arbitrary: pr prev)
  case (Cons p ps)
  then have p: "p < length prev" "(of_nat p :: u32) \<noteq> NONE_U32" "unat (of_nat p :: u32) = p" "p \<notin> set ps"
    using of_nat_neq_NONE [of p] by auto
  have "path ((!) (back_links (of_nat p) (prev[p := pr]) ps)) (if ps = [] then of_nat p else of_nat (last ps)) (rev ps) (of_nat p)"
    using Cons.prems by (intro Cons.IH) auto
  moreover have "path ((!) (back_links (of_nat p) (prev[p := pr]) ps)) (of_nat p) [p] pr"
    using p by (simp add: back_links_other)
  ultimately show ?case by (auto intro: path_join)
qed simp

lemma shards_effect_fields:
  "wk_seen (shards_effect T pool counts s runs w) = mark (concat runs) (wk_seen w)"
  "wk_live (shards_effect T pool counts s runs w) = wk_live w + sum_list (map (\<lambda>p. unat (counts ! p)) (concat runs))"
  "wk_dir (shards_effect T pool counts s runs w) = wk_dir w @ dir_entries T pool (concat runs)"
  "length (wk_prev (shards_effect T pool counts s runs w)) = length (wk_prev w)"
  "length (wk_tails (shards_effect T pool counts s runs w)) = length (wk_tails w)"
  "length (wk_dir_at (shards_effect T pool counts s runs w)) = length (wk_dir_at w)"
  by (induction runs arbitrary: s w) (simp_all add: chain_effect_def mark_append dir_entries_def)

lemma shards_effect_frame:
  "q \<notin> set (concat runs) \<Longrightarrow> wk_prev (shards_effect T pool counts s runs w) ! q = wk_prev w ! q"
  "t < s \<Longrightarrow> wk_tails (shards_effect T pool counts s runs w) ! t = wk_tails w ! t"
  "t < s \<Longrightarrow> wk_dir_at (shards_effect T pool counts s runs w) ! t = wk_dir_at w ! t"
  by (induction runs arbitrary: s w) (simp_all add: chain_effect_def back_links_other)

lemma shards_effect_tables:
  "distinct (concat runs) \<Longrightarrow> (\<forall>p \<in> set (concat runs). p < length (wk_prev w) \<and> p < 4294967295) \<Longrightarrow>
     s + length runs \<le> length (wk_tails w) \<Longrightarrow> s + length runs < length (wk_dir_at w) \<Longrightarrow>
     (\<forall>i < length runs. wk_tails w ! (s + i) = NONE_U32) \<Longrightarrow> w' = shards_effect T pool counts s runs w \<Longrightarrow> i < length runs \<Longrightarrow>
     path ((!) (wk_prev w')) (wk_tails w' ! (s + i)) (rev (runs ! i)) NONE_U32 \<and>
     wk_dir_at w' ! (s + i) = of_nat (length (wk_dir w) + length (concat (take i runs)))"
proof (induction runs arbitrary: s w i)
  case (Cons ps runs)
  let ?w = "w\<lparr>wk_dir_at := (wk_dir_at w)[s := of_nat (length (wk_dir w))]\<rparr>"
  let ?v = "chain_effect T pool counts s NONE_U32 ps ?w"
  have w': "w' = shards_effect T pool counts (Suc s) runs ?v" using Cons.prems(6) by simp
  have disj: "set ps \<inter> set (concat runs) = {}" and dist: "distinct ps" "distinct (concat runs)"
    using Cons.prems(1) by auto
  show ?case
  proof (cases i)
    case 0
    have tail: "wk_tails ?v ! s = (if ps = [] then NONE_U32 else of_nat (last ps))"
      using Cons.prems(3) spec [OF Cons.prems(5), of 0] by (simp add: chain_effect_def)
    have "path ((!) (back_links NONE_U32 (wk_prev w) ps)) (if ps = [] then NONE_U32 else of_nat (last ps)) (rev ps) NONE_U32"
      using Cons.prems(2) dist by (intro back_links_path) auto
    moreover have "wk_prev w' ! q = back_links NONE_U32 (wk_prev w) ps ! q" if "q \<in> set (rev ps)" for q
    proof -
      have "q \<notin> set (concat runs)" using disj that by auto
      from shards_effect_frame(1) [OF this] show ?thesis unfolding w' by (simp add: chain_effect_def)
    qed
    ultimately have "path ((!) (wk_prev w')) (wk_tails ?v ! s) (rev ps) NONE_U32"
      using path_cong [of "rev ps" "(!) (wk_prev w')" "(!) (back_links NONE_U32 (wk_prev w) ps)"] tail by simp
    moreover have "wk_dir_at w' ! s = of_nat (length (wk_dir w))"
      using Cons.prems(4) by (simp add: w' shards_effect_frame(3)) (simp add: chain_effect_def)
    ultimately show ?thesis using 0 by (simp add: w' shards_effect_frame(2))
  next
    case (Suc j)
    have tails: "\<forall>i < length runs. wk_tails ?v ! (Suc s + i) = NONE_U32"
    proof (intro allI impI)
      fix i assume "i < length runs"
      then have "wk_tails w ! (s + Suc i) = NONE_U32" using spec [OF Cons.prems(5), of "Suc i"] by simp
      then show "wk_tails ?v ! (Suc s + i) = NONE_U32" by (simp add: chain_effect_def)
    qed
    have "path ((!) (wk_prev w')) (wk_tails w' ! (Suc s + j)) (rev (runs ! j)) NONE_U32 \<and>
      wk_dir_at w' ! (Suc s + j) = of_nat (length (wk_dir ?v) + length (concat (take j runs)))"
      by (rule Cons.IH [OF dist(2) _ _ _ tails w']) (use Cons.prems Suc in \<open>auto simp: chain_effect_def\<close>)
    then show ?thesis using Suc by (simp add: chain_effect_def dir_entries_def ac_simps)
  qed
qed simp

section \<open>The free list\<close>

lemma free_page_walk_sound:
  "free_page_walk next counts page seen = Inr seen' \<Longrightarrow>
     \<exists>F. path ((!) next) page F NONE_U32 \<and> distinct F \<and>
       (\<forall>p \<in> set F. p < length seen \<and> \<not> seen ! p \<and> counts ! p = 0) \<and> seen' = mark F seen"
proof (induction "next" counts page seen rule: free_page_walk.induct)
  case (1 "next" counts page seen)
  note run = "1.prems" [unfolded free_page_walk.simps [of "next" counts page seen] Let_def]
  show ?case
  proof (cases "page = NONE_U32")
    case True
    with run show ?thesis by (intro exI [of _ "[]"]) simp
  next
    case False
    let ?p = "unat page"
    from run False have ok: "?p < length seen" "\<not> seen ! ?p" "counts ! ?p = 0"
      and rest: "free_page_walk next counts (next ! ?p) (seen[?p := True]) = Inr seen'"
      by (auto simp: not_le split: if_split_asm)
    from "1.IH" [OF False refl _ _ _ rest] ok obtain F where
      F: "path ((!) next) (next ! ?p) F NONE_U32" "distinct F" "seen' = mark F (seen[?p := True])"
      "\<forall>p \<in> set F. p < length seen \<and> \<not> seen[?p := True] ! p \<and> counts ! p = 0" by auto
    with unmarked_rest [OF F(4) ok(1)] ok False show ?thesis
      by (intro exI [of _ "?p # F"]) (auto simp: mark_Cons)
  qed
qed

lemma free_page_walk_complete:
  "path ((!) next) page F NONE_U32 \<Longrightarrow> distinct F \<Longrightarrow>
     (\<forall>p \<in> set F. p < length seen \<and> \<not> seen ! p \<and> counts ! p = 0) \<Longrightarrow>
     free_page_walk next counts page seen = Inr (mark F seen)"
proof (induction F arbitrary: page seen)
  case Nil
  then show ?case by (simp add: free_page_walk.simps)
next
  case (Cons p F)
  then have "free_page_walk next counts (next ! p) (seen[p := True]) = Inr (mark F (seen[p := True]))"
    by (intro Cons.IH) (auto simp: nth_list_update)
  with Cons.prems show ?case by (subst free_page_walk.simps) (auto simp: Let_def mark_Cons)
qed

end
