(* ===== verification/Arena_Image.thy ===== *)
theory Arena_Image
  imports Arena_Load
begin

text \<open>
  What the arena loaders accept and what they make of it: the decoding of the metadata arrays is
  inverse to the dump, an accepted image is a proper frame of chains (every page in exactly one
  chain or free), and the dump of a well-formed arena is accepted.
\<close>

section \<open>The arena a loader builds\<close>

definition walk_start :: "nat \<Rightarrow> nat \<Rightarrow> walk" where
  "walk_start n shards = \<lparr>wk_seen = replicate n False, wk_live = 0, wk_dir = [], wk_dir_at = replicate (shards + 1) 0,
     wk_prev = replicate n NONE_U32, wk_tails = replicate shards NONE_U32\<rparr>"

definition adopted ::
  "slot_type \<Rightarrow> arena_cfg \<Rightarrow> bytes \<Rightarrow> paged \<Rightarrow> u32 list \<Rightarrow> u32 list \<Rightarrow> u16 list \<Rightarrow> u32 \<Rightarrow> u64 \<Rightarrow> nat list list \<Rightarrow> arena" where
  "adopted T cfg pool backing heads next counts fh tot runs =
     (let w = shards_effect T pool counts 0 runs (walk_start (length next) (length heads)) in
      \<lparr>ar_pool = backing, ar_heads = heads, ar_next = next, ar_prev = wk_prev w, ar_counts = counts,
       ar_tails = wk_tails w, ar_dir = wk_dir w,
       ar_dir_at = (wk_dir_at w)[length heads := of_nat (length (wk_dir w))], ar_free_head = fh,
       ar_total = unat tot, ar_cfg = cfg\<rparr>)"

text \<open>An image whose chains and free list partition the pages.\<close>

definition image_ok ::
  "slot_type \<Rightarrow> arena_cfg \<Rightarrow> bytes \<Rightarrow> u32 list \<Rightarrow> u32 list \<Rightarrow> u16 list \<Rightarrow> u32 \<Rightarrow> u64 \<Rightarrow> nat list list \<Rightarrow> nat list \<Rightarrow> bool" where
  "image_ok T cfg pool heads next counts fh tot runs F \<longleftrightarrow>
     good_runs T cfg pool next counts 0 heads runs \<and> path ((!) next) fh F NONE_U32 \<and>
     mset (concat runs @ F) = mset [0..<length next] \<and> (\<forall>p \<in> set F. counts ! p = 0) \<and>
     (\<forall>c \<in> set counts. unat c \<le> slots_per_page T) \<and>
     sum_list (map (\<lambda>p. unat (counts ! p)) (concat runs)) = unat tot"

lemma walk_start_simps [simp]:
  "wk_seen (walk_start n m) = replicate n False" "wk_live (walk_start n m) = 0" "wk_dir (walk_start n m) = []"
  "wk_dir_at (walk_start n m) = replicate (m + 1) 0" "wk_prev (walk_start n m) = replicate n NONE_U32"
  "wk_tails (walk_start n m) = replicate m NONE_U32"
  by (simp_all add: walk_start_def)

lemma all_marked: "(\<forall>b \<in> set (mark cs (replicate n False)). b) \<longleftrightarrow> {..<n} \<subseteq> set cs"
  by (auto simp: mark_def)

lemma arena_adopt_iff:
  "arena_adopt T cfg pool backing heads next counts fh tot = Inr a \<longleftrightarrow>
     (\<exists>runs F. image_ok T cfg pool heads next counts fh tot runs F \<and>
        a = adopted T cfg pool backing heads next counts fh tot runs)" (is "?L \<longleftrightarrow> ?R")
proof
  assume ?L
  then obtain w seen where fits: "\<forall>c \<in> set counts. unat c \<le> slots_per_page T"
    and w: "walk_shards T cfg pool next counts 0 heads (walk_start (length next) (length heads)) = Inr w"
    and fw: "free_page_walk next counts fh (wk_seen w) = Inr seen" and all: "\<forall>b \<in> set seen. b"
    and live: "wk_live w = unat tot"
    and a: "a = \<lparr>ar_pool = backing, ar_heads = heads, ar_next = next, ar_prev = wk_prev w, ar_counts = counts,
       ar_tails = wk_tails w, ar_dir = wk_dir w,
       ar_dir_at = (wk_dir_at w)[length heads := of_nat (length (wk_dir w))], ar_free_head = fh,
       ar_total = unat tot, ar_cfg = cfg\<rparr>"
    by (auto simp: arena_adopt_def Let_def walk_start_def try_res_eq_Inr list_ex_iff not_less split: if_split_asm)
  from walk_shards_sound [OF w] obtain runs where runs: "good_runs T cfg pool next counts 0 heads runs" "distinct (concat runs)"
      "\<forall>p \<in> set (concat runs). p < length next" and eff: "w = shards_effect T pool counts 0 runs (walk_start (length next) (length heads))"
    by auto
  have seen_w: "wk_seen w = mark (concat runs) (replicate (length next) False)" by (simp add: eff shards_effect_fields)
  from free_page_walk_sound [OF fw] obtain F where F0: "path ((!) next) fh F NONE_U32" "distinct F"
    and un: "\<forall>p \<in> set F. p < length (wk_seen w) \<and> \<not> wk_seen w ! p \<and> counts ! p = 0"
    and seen: "seen = mark F (wk_seen w)" by blast
  have "p < length next \<and> p \<notin> set (concat runs) \<and> counts ! p = 0" if "p \<in> set F" for p
    using bspec [OF un that] by (auto simp: seen_w simp del: set_concat)
  note F = F0 this
  have "{..<length next} \<subseteq> set (concat runs @ F)"
    using all unfolding seen seen_w mark_append all_marked .
  with runs F have "mset (concat runs @ F) = mset [0..<length next]"
    unfolding partition_iff by (auto simp del: set_concat)
  moreover have "sum_list (map (\<lambda>p. unat (counts ! p)) (concat runs)) = unat tot"
    using live by (simp add: eff shards_effect_fields)
  ultimately have "image_ok T cfg pool heads next counts fh tot runs F"
    using runs(1) F fits by (simp add: image_ok_def)
  moreover have "a = adopted T cfg pool backing heads next counts fh tot runs"
    unfolding a eff adopted_def Let_def ..
  ultimately show ?R by blast
next
  assume ?R
  then obtain runs F where ok: "image_ok T cfg pool heads next counts fh tot runs F"
    and a: "a = adopted T cfg pool backing heads next counts fh tot runs" by blast
  let ?w = "shards_effect T pool counts 0 runs (walk_start (length next) (length heads))"
  have part: "distinct (concat runs @ F)" "set (concat runs @ F) = {..<length next}"
    using ok by (simp_all only: image_ok_def partition_iff)
  then have lt: "p \<in> set (concat runs) \<Longrightarrow> p < length next" "p \<in> set F \<Longrightarrow> p < length next" for p
    by (auto simp del: set_concat)
  have fits: "\<not> list_ex (\<lambda>c. slots_per_page T < unat c) counts"
    using ok by (auto simp: image_ok_def list_ex_iff not_less)
  have "walk_shards T cfg pool next counts 0 heads (walk_start (length next) (length heads)) = Inr ?w"
    by (rule walk_shards_complete) (use ok part lt in \<open>auto simp: image_ok_def simp del: set_concat\<close>)
  moreover have "wk_seen ?w = mark (concat runs) (replicate (length next) False)" by (simp add: shards_effect_fields)
  moreover have "free_page_walk next counts fh (mark (concat runs) (replicate (length next) False)) =
      Inr (mark (concat runs @ F) (replicate (length next) False))"
    unfolding mark_append [symmetric]
    by (rule free_page_walk_complete) (use ok part lt in \<open>auto simp: image_ok_def simp del: set_concat\<close>)
  moreover have "\<forall>b \<in> set (mark (concat runs @ F) (replicate (length next) False)). b"
    unfolding all_marked part(2) by simp
  then have "\<not> list_ex Not (mark (concat runs @ F) (replicate (length next) False))"
    unfolding list_ex_iff by blast
  moreover have "wk_live ?w = unat tot" using ok by (simp add: image_ok_def shards_effect_fields)
  ultimately show ?L
    using fits unfolding arena_adopt_def walk_start_def a adopted_def Let_def by simp
qed


section \<open>The loaded arena\<close>

text \<open>A page pool that holds exactly the image's bytes.\<close>

definition backs :: "bytes \<Rightarrow> paged \<Rightarrow> bool" where
  "backs pool backing \<longleftrightarrow> paged_inv PAGE_BYTES backing \<and> paged_len backing = length pool \<and>
     (\<forall>p. p * PAGE_BYTES + PAGE_BYTES \<le> length pool \<longrightarrow>
        page_at PAGE_BYTES backing p = slice pool (p * PAGE_BYTES) (p * PAGE_BYTES + PAGE_BYTES))"

lemma backs_both:
  assumes "length pool = n * PAGE_BYTES" and "n < 4294967295"
  shows "backs pool (owned_from pool)" and "backs pool (borrowed PAGE_BYTES pool)"
proof -
  show "backs pool (owned_from pool)" using assms(1) by (simp add: backs_def owned_from_def)
  have "paged_inv PAGE_BYTES (borrowed PAGE_BYTES pool)"
    using assms by (intro borrowed_inv) simp_all
  moreover have "p < n" if "p * PAGE_BYTES + PAGE_BYTES \<le> length pool" for p
  proof -
    have "Suc p * PAGE_BYTES \<le> n * PAGE_BYTES" using that assms(1) by simp
    then show ?thesis using mult_le_cancel2 [of "Suc p" PAGE_BYTES n] by simp
  qed
  moreover have "paged_len (borrowed PAGE_BYTES pool) = length pool" by (simp add: borrowed_def Let_def)
  moreover have "page_at PAGE_BYTES (borrowed PAGE_BYTES pool) p = slice pool (p * PAGE_BYTES) (p * PAGE_BYTES + PAGE_BYTES)"
    if "p < n" for p
    using assms(1) that by (simp add: borrowed_def Let_def)
  ultimately show "backs pool (borrowed PAGE_BYTES pool)"
    unfolding backs_def by blast
qed

lemma backs_page:
  assumes "backs pool backing" and "length pool = n * PAGE_BYTES" and "p < n"
  shows "page_at PAGE_BYTES backing p = slice pool (p * PAGE_BYTES) (p * PAGE_BYTES + PAGE_BYTES)"
proof -
  have "p * PAGE_BYTES + PAGE_BYTES \<le> n * PAGE_BYTES"
    using mult_le_mono1 [of "Suc p" n PAGE_BYTES] assms(3) by simp
  then show ?thesis using assms(1,2) by (simp add: backs_def)
qed

lemma adopted_fields [simp]:
  "ar_pool (adopted T cfg pool backing heads next counts fh tot runs) = backing"
  "ar_heads (adopted T cfg pool backing heads next counts fh tot runs) = heads"
  "ar_next (adopted T cfg pool backing heads next counts fh tot runs) = next"
  "ar_counts (adopted T cfg pool backing heads next counts fh tot runs) = counts"
  "ar_free_head (adopted T cfg pool backing heads next counts fh tot runs) = fh"
  "ar_total (adopted T cfg pool backing heads next counts fh tot runs) = unat tot"
  "ar_cfg (adopted T cfg pool backing heads next counts fh tot runs) = cfg"
  by (simp_all add: adopted_def Let_def)

text \<open>\<open>a\<close> is what a loader makes of an accepted image whose pool is \<open>pool\<close>.\<close>

definition loaded_from :: "slot_type \<Rightarrow> bytes \<Rightarrow> arena \<Rightarrow> nat list list \<Rightarrow> nat list \<Rightarrow> bool" where
  "loaded_from T pool a runs F \<longleftrightarrow> slot_ok T \<and> is_power_of_two (ac_shards (ar_cfg a)) \<and>
     length (ar_heads a) = ac_shards (ar_cfg a) \<and> length (ar_counts a) = length (ar_next a) \<and>
     npages a < 4294967295 \<and> length pool = npages a * PAGE_BYTES \<and> backs pool (ar_pool a) \<and>
     image_ok T (ar_cfg a) pool (ar_heads a) (ar_next a) (ar_counts a) (ar_free_head a) (of_nat (ar_total a)) runs F \<and>
     ar_total a < 2 ^ 64 \<and>
     a = adopted T (ar_cfg a) pool (ar_pool a) (ar_heads a) (ar_next a) (ar_counts a) (ar_free_head a) (of_nat (ar_total a)) runs"

lemma loaded_partition: "loaded_from T pool a runs F \<Longrightarrow> mset (concat runs @ F) = mset [0..<npages a]"
  by (simp add: loaded_from_def image_ok_def npages_def)

lemma loaded_lt: "loaded_from T pool a runs F \<Longrightarrow> p \<in> set (concat runs) \<Longrightarrow> p < npages a"
  using loaded_partition [of T pool a runs F, unfolded partition_iff] by (auto simp del: set_concat)

lemma loaded_runs: "loaded_from T pool a runs F \<Longrightarrow> length runs = length (ar_heads a)"
  by (simp add: loaded_from_def image_ok_def good_runs_iff)

lemma loaded_good:
  "loaded_from T pool a runs F \<Longrightarrow> s < length runs \<Longrightarrow> path (nxt a) (ar_heads a ! s) (runs ! s) NONE_U32 \<and>
    pages_ascend T pool (ar_counts a) NONE_U32 (runs ! s) \<and>
    (\<forall>p \<in> set (runs ! s). live_page T (ar_cfg a) pool (ar_counts a) s p)"
  by (simp add: loaded_from_def image_ok_def good_runs_iff)

lemma loaded_page:
  "loaded_from T pool a runs F \<Longrightarrow> p < npages a \<Longrightarrow> raw_page a p = slice pool (p * PAGE_BYTES) (p * PAGE_BYTES + PAGE_BYTES)"
  using backs_page [of pool "ar_pool a" "npages a"] by (simp add: loaded_from_def)

lemma loaded_first: "loaded_from T pool a runs F \<Longrightarrow> p < npages a \<Longrightarrow> image_first T pool p = page_first T a p"
  using loaded_page [of T pool a runs F p]
  by (simp add: image_first_def page_first_def take_slice) (simp add: loaded_from_def slot_ok_def)

lemma loaded_tables:
  assumes l: "loaded_from T pool a runs F"
  shows "length (ar_prev a) = npages a" and "length (ar_tails a) = length (ar_heads a)"
    and "length (ar_dir_at a) = Suc (length (ar_heads a))" and "ar_dir a = dir_entries T pool (concat runs)"
    and "ar_dir_at a ! length (ar_heads a) = of_nat (length (concat runs))"
    and "s < length runs \<Longrightarrow> path (prv a) (ar_tails a ! s) (rev (runs ! s)) NONE_U32"
    and "s < length runs \<Longrightarrow> ar_dir_at a ! s = of_nat (length (concat (take s runs)))"
proof -
  let ?w = "shards_effect T pool (ar_counts a) 0 runs (walk_start (length (ar_next a)) (length (ar_heads a)))"
  have a: "ar_prev a = wk_prev ?w" "ar_tails a = wk_tails ?w" "ar_dir a = wk_dir ?w"
    "ar_dir_at a = (wk_dir_at ?w)[length (ar_heads a) := of_nat (length (wk_dir ?w))]"
    using l by (simp_all add: loaded_from_def adopted_def Let_def) (metis arena.select_convs)+
  have n: "npages a = length (ar_next a)" using l by (simp add: loaded_from_def npages_def)
  show "length (ar_prev a) = npages a" "length (ar_tails a) = length (ar_heads a)"
    "length (ar_dir_at a) = Suc (length (ar_heads a))" "ar_dir a = dir_entries T pool (concat runs)"
    by (simp_all add: a n shards_effect_fields)
  show "ar_dir_at a ! length (ar_heads a) = of_nat (length (concat runs))"
    by (simp add: a shards_effect_fields dir_entries_def)
  assume s: "s < length runs"
  have "distinct (concat runs)"
    using loaded_partition [OF l] by (simp add: partition_iff del: mset_append mset_upt)
  moreover have "p < 4294967295" "p < length (ar_next a)" if "p \<in> set (concat runs)" for p
    using loaded_lt [OF l that] l n by (simp_all add: loaded_from_def)
  ultimately have "path ((!) (wk_prev ?w)) (wk_tails ?w ! (0 + s)) (rev (runs ! s)) NONE_U32 \<and>
      wk_dir_at ?w ! (0 + s) = of_nat (length (wk_dir (walk_start (length (ar_next a)) (length (ar_heads a)))) +
        length (concat (take s runs)))"
    using s loaded_runs [OF l] by (intro shards_effect_tables) (auto simp del: set_concat)
  then show "path (prv a) (ar_tails a ! s) (rev (runs ! s)) NONE_U32"
      "ar_dir_at a ! s = of_nat (length (concat (take s runs)))"
    using s loaded_runs [OF l] by (simp_all add: a)
qed

lemma loaded_frame:
  assumes l: "loaded_from T pool a runs F"
  shows "frame T a runs [] F"
proof -
  note part = loaded_partition [OF l] and tab = loaded_tables [OF l] and runs = loaded_runs [OF l]
  have "length (concat runs @ F) = npages a" using mset_eq_length [OF part] by simp
  then have total: "length (concat runs) < 4294967296" using l by (simp add: loaded_from_def)
  have "pool_ok a"
    using l tab(1) by (simp add: pool_ok_def loaded_from_def backs_def npages_def)
  moreover have "unat (ar_dir_at a ! s) = length (concat (take s runs))" if "s \<le> length runs" for s
  proof (cases "s < length runs")
    case True
    have "length (concat (take s runs)) \<le> length (concat runs)"
      by (subst concat_eq_split [OF True]) simp
    with tab(7) [OF True] total show ?thesis by simp
  next
    case False
    with that have "s = length (ar_heads a)" by (simp add: runs)
    then show ?thesis using tab(5) total by (simp add: runs [symmetric])
  qed
  moreover have "path (nxt a) (ar_free_head a) F NONE_U32" "length (ar_heads a) = ac_shards (ar_cfg a)"
    using l by (simp_all add: loaded_from_def image_ok_def)
  ultimately have "pool_ok a \<and> links_ok a runs F"
    using loaded_good [OF l] tab(2,3,6) runs by (simp add: links_ok_def tab(4) dir_entries_def)
  moreover have "unat (ar_counts a ! p) \<le> slots_per_page T" if "p < npages a" for p
    using l that by (simp add: loaded_from_def image_ok_def npages_def)
  moreover have "\<forall>p \<in> set F. ar_counts a ! p = 0" "slot_ok T" "is_power_of_two (ac_shards (ar_cfg a))"
    using l by (simp_all add: loaded_from_def image_ok_def)
  ultimately show ?thesis using part by (simp add: frame_def)
qed

lemma loaded_live: "loaded_from T pool a runs F \<Longrightarrow> p \<in> set (concat runs) \<Longrightarrow> recs T a p \<noteq> []"
proof -
  assume l: "loaded_from T pool a runs F" and "p \<in> set (concat runs)"
  then obtain s where "s < length runs" "p \<in> set (runs ! s)"
    by (simp add: in_set_conv_nth) (metis in_set_conv_nth nth_mem)
  then have "ar_counts a ! p \<noteq> 0" using loaded_good [OF l] by (auto simp: live_page_def)
  then show ?thesis by (simp add: recs_def page_slots_def unat_eq_0)
qed

lemma loaded_keys:
  "loaded_from T pool a runs F \<Longrightarrow> map pe_key (ar_dir a) = map (\<lambda>p. cached_key T (page_first T a p)) (concat runs)"
  using loaded_first loaded_lt by (simp add: loaded_tables(4) dir_entries_def del: set_concat)

lemma loaded_total: "loaded_from T pool a runs F \<Longrightarrow> ar_total a = length (run_recs T a (concat runs))"
  by (simp add: run_recs_def length_concat o_def length_recs loaded_from_def image_ok_def unat_of_nat)

lemma image_last_slots:
  assumes T: "slot_ok T" and c: "counts ! p \<noteq> 0" "unat (counts ! p) * SIZE T \<le> PAGE_BYTES"
  shows "image_last T pool counts p =
    slot_key T (last (page_slots (SIZE T) (unat (counts ! p)) (slice pool (p * PAGE_BYTES) (p * PAGE_BYTES + PAGE_BYTES))))"
proof -
  let ?n = "unat (counts ! p)" and ?b = "p * PAGE_BYTES"
  let ?page = "slice pool ?b (?b + PAGE_BYTES)"
  have n: "0 < ?n" using c(1) by (simp add: unat_gt_0)
  have "?n * SIZE T = (?n - 1) * SIZE T + SIZE T" using n by (cases ?n) auto
  then have fits: "(?n - 1) * SIZE T + SIZE T \<le> PAGE_BYTES" using c(2) by simp
  have "page_slots (SIZE T) ?n ?page \<noteq> []" using n by (simp add: page_slots_def)
  then have "last (page_slots (SIZE T) ?n ?page) = slice ?page ((?n - 1) * SIZE T) ((?n - 1) * SIZE T + SIZE T)"
    using n by (simp add: last_conv_nth page_slots_nth)
  also have "\<dots> = slice pool (?b + (?n - 1) * SIZE T) (?b + (?n - 1) * SIZE T + SIZE T)"
    using fits by (simp add: slice_def min_def drop_drop take_drop ac_simps)
  finally show ?thesis
    using T by (simp add: image_last_def Let_def slot_key_def take_slice slot_ok_def)
qed

lemma loaded_last:
  assumes l: "loaded_from T pool a runs F" and p: "p < npages a" and c: "ar_counts a ! p \<noteq> 0"
  shows "image_last T pool (ar_counts a) p = slot_key T (last (recs T a p))"
proof -
  have T: "slot_ok T" using l by (simp add: loaded_from_def)
  have "unat (ar_counts a ! p) * SIZE T \<le> PAGE_BYTES"
    using spp_fits [OF T] loaded_frame [OF l] p by (simp add: frame_def)
  from image_last_slots [OF T _ this] c show ?thesis
    by (simp add: recs_def loaded_page [OF l p])
qed

text \<open>Sorted pages make a sorted run: the loader compared the last key of each page with the next first key.\<close>

lemma loaded_sorted:
  assumes l: "loaded_from T pool a runs F"
  shows "set ps \<subseteq> set (concat runs) \<Longrightarrow> pages_ascend T pool (ar_counts a) pr ps \<Longrightarrow>
     (\<forall>p \<in> set ps. sorted_wrt (<) (map (slot_key T) (recs T a p))) \<Longrightarrow>
     sorted_wrt (<) (map (slot_key T) (run_recs T a ps)) \<and>
     (pr \<noteq> NONE_U32 \<longrightarrow> (\<forall>r \<in> set (run_recs T a ps). image_last T pool (ar_counts a) (unat pr) < slot_key T r))"
proof (induction ps arbitrary: pr)
  case (Cons p ps)
  note f = loaded_frame [OF l]
  have p: "p < npages a" and ne: "recs T a p \<noteq> []"
    using Cons.prems(1) loaded_lt [OF l] loaded_live [OF l] by (simp_all del: set_concat)
  have c: "ar_counts a ! p \<noteq> 0" using ne recs_empty by blast
  have w: "(of_nat p :: u32) \<noteq> NONE_U32" "unat (of_nat p :: u32) = p"
    using frame_index [OF f p] by simp_all
  have sorted: "sorted_wrt (<) (map (slot_key T) (recs T a p))" using Cons.prems(3) by simp
  have first: "image_first T pool p = slot_key T (hd (recs T a p))"
    using loaded_first [OF l p] page_first_hd [OF f p ne] by simp
  have from_first: "slot_key T (hd (recs T a p)) \<le> slot_key T r" if "r \<in> set (recs T a p)" for r
    using sorted that by (cases "recs T a p") auto
  have to_last: "slot_key T r \<le> image_last T pool (ar_counts a) p" if "r \<in> set (recs T a p)" for r
    using sorted that loaded_last [OF l p c] by (cases "recs T a p" rule: rev_cases) (auto simp: sorted_wrt_append)
  have IH: "sorted_wrt (<) (map (slot_key T) (run_recs T a ps))"
    "\<forall>r \<in> set (run_recs T a ps). image_last T pool (ar_counts a) p < slot_key T r"
    using Cons.IH [of "of_nat p"] Cons.prems w by (simp_all del: set_concat)
  have next_page: "slot_key T r < slot_key T r'" if "r \<in> set (recs T a p)" "r' \<in> set (run_recs T a ps)" for r r'
    using to_last [OF that(1)] IH(2) that(2) by (blast intro: le_less_trans)
  have "sorted_wrt (<) (map (slot_key T) (run_recs T a (p # ps)))"
    using sorted IH(1) next_page by (auto simp: sorted_wrt_append)
  moreover have "image_last T pool (ar_counts a) (unat pr) < slot_key T r"
    if pr: "pr \<noteq> NONE_U32" and r: "r \<in> set (run_recs T a (p # ps))" for r
  proof -
    have lt: "image_last T pool (ar_counts a) (unat pr) < slot_key T (hd (recs T a p))"
      using Cons.prems(2) pr first by simp
    have "slot_key T (hd (recs T a p)) \<le> slot_key T r"
      using r from_first next_page [of "hd (recs T a p)" r] ne by auto
    with lt show ?thesis by (rule less_le_trans)
  qed
  ultimately show ?case by blast
qed simp

end
