(* ===== verification/Arena_Load_Theorems.thy ===== *)
theory Arena_Load_Theorems
  imports Arena_Image Arena_Theorems
begin

text \<open>
  The arena loaders: whatever bytes they accept form a proper frame of chains; the accepted image is
  a well-formed arena exactly when its pages are internally sorted and sharded (which the loader
  leaves to the owner); and the dump of a well-formed arena is canonical and loads back.
\<close>

section \<open>Soundness of a load\<close>

lemma arena_new_ok: "arena_new T cfg = Inr a0 \<Longrightarrow> slot_ok T \<and> is_power_of_two (ac_shards cfg)"
  by (auto simp: arena_new_def slot_ok_def split: if_splits)

lemma slice_one: "i < length bs \<Longrightarrow> slice bs i (i + 1) = [bs ! i]"
  by (simp add: slice_def take_Suc_conv_app_nth)

lemma drop_three:
  "a \<le> b \<Longrightarrow> b \<le> c \<Longrightarrow> c \<le> length bs \<Longrightarrow> drop a bs = slice bs a b @ slice bs b c @ slice bs c (length bs)"
  by (simp add: slice_join) (simp add: slice_def)

lemma split_header:
  assumes "24 \<le> length meta" and "slice meta 21 24 = replicate 3 0"
  shows "meta = u32_le (u32_of_le (slice meta 0 4)) @ u32_le (u32_of_le (slice meta 4 8)) @ u32_le (u32_of_le (slice meta 8 12)) @
    u64_le (u64_of_le (slice meta 12 20)) @ [meta ! 20] @ replicate 3 0 @ drop 24 meta"
proof -
  have "slice meta 0 4 @ slice meta 4 8 @ slice meta 8 12 @ slice meta 12 20 @ slice meta 20 21 @ slice meta 21 24 = take 24 meta"
    by (simp add: slice_join) (simp add: slice_0_take)
  moreover have "slice meta 20 21 = [meta ! 20]"
    using assms(1) slice_one [of 20 meta] by simp
  ultimately have "take 24 meta = slice meta 0 4 @ slice meta 4 8 @ slice meta 8 12 @ slice meta 12 20 @ [meta ! 20] @ replicate 3 0"
    using assms(2) by simp
  then have "take 24 meta @ drop 24 meta = slice meta 0 4 @ slice meta 4 8 @ slice meta 8 12 @ slice meta 12 20 @
      [meta ! 20] @ replicate 3 0 @ drop 24 meta" by (simp only: append_assoc)
  then have "meta = slice meta 0 4 @ slice meta 4 8 @ slice meta 8 12 @ slice meta 12 20 @ [meta ! 20] @ replicate 3 0 @ drop 24 meta"
    by (simp only: append_take_drop_id)
  moreover have "u32_le (u32_of_le (slice meta 0 4)) = slice meta 0 4" "u32_le (u32_of_le (slice meta 4 8)) = slice meta 4 8"
    "u32_le (u32_of_le (slice meta 8 12)) = slice meta 8 12" "u64_le (u64_of_le (slice meta 12 20)) = slice meta 12 20"
    using assms(1) by (simp_all add: word_bytes_of)
  ultimately show ?thesis by (simp only:)
qed

lemma load_impl_sound:
  assumes load: "load_impl T cfg meta pool backing = Inr a"
    and backing: "backing = owned_from pool \<or> backing = borrowed PAGE_BYTES pool"
  shows "\<exists>runs F. loaded_from T pool a runs F" and "ar_cfg a = cfg" and "arena_dump_meta a = meta"
    and "ar_pool a = backing" and "ac_shards cfg < 2 ^ 32"
proof -
  let ?s = "unat (u32_of_le (slice meta 0 4))" and ?n = "unat (u32_of_le (slice meta 4 8))"
  let ?fh = "u32_of_le (slice meta 8 12)" and ?tot = "u64_of_le (slice meta 12 20)"
  let ?heads = "read_u32s meta 24 ?s" and ?next = "read_u32s meta (24 + ?s * 4) ?n"
  let ?counts = "read_u16s meta (24 + ?s * 4 + ?n * 4) ?n"
  obtain a0 where new: "arena_new T cfg = Inr a0" and m24: "24 \<le> length meta" and res: "slice meta 21 24 = replicate 3 0"
    and sh: "?s = ac_shards cfg" and mode: "meta ! 20 = mode_byte (ac_mode cfg)" and n: "?n < 4294967295"
    and lm: "length meta = 24 + ?s * 4 + ?n * 6" and lp: "length pool = ?n * PAGE_BYTES"
    and adopt: "arena_adopt T cfg pool backing ?heads ?next ?counts ?fh ?tot = Inr a"
    using load unfolding load_impl_def IMAGE_HEADER_def Let_def
    by (auto simp: try_res_eq_Inr not_less not_le simp del: replicate.simps split: if_split_asm)
  from adopt obtain runs F where ok: "image_ok T cfg pool ?heads ?next ?counts ?fh ?tot runs F"
    and a: "a = adopted T cfg pool backing ?heads ?next ?counts ?fh ?tot runs"
    by (auto simp: arena_adopt_iff)
  have backs: "backs pool backing" using backs_both [OF lp n] backing by auto
  have flds: "ar_cfg a = cfg" "ar_heads a = ?heads" "ar_next a = ?next" "ar_counts a = ?counts" "ar_pool a = backing"
      "ar_free_head a = ?fh" "ar_total a = unat ?tot" "npages a = ?n"
    by (simp_all add: a npages_def)
  have tot: "of_nat (unat ?tot) = ?tot" "unat ?tot < 2 ^ 64" using unat_lt_width [of ?tot] by simp_all
  have "loaded_from T pool a runs F"
    unfolding loaded_from_def flds tot(1) using arena_new_ok [OF new] sh n lp backs ok tot(2) a
    by (intro conjI) simp_all
  then show "\<exists>runs F. loaded_from T pool a runs F" by blast
  show "ar_cfg a = cfg" "ar_pool a = backing" by (rule flds)+
  show "ac_shards cfg < 2 ^ 32" using u32_less [of "u32_of_le (slice meta 0 4)"] by (simp add: sh [symmetric])
  have "paged_len backing div PAGE_BYTES = ?n" using backs lp by (simp add: backs_def)
  moreover have "drop 24 meta = slice meta 24 (24 + ?s * 4) @ slice meta (24 + ?s * 4) (24 + ?s * 4 + ?n * 4) @
      slice meta (24 + ?s * 4 + ?n * 4) (24 + ?s * 4 + ?n * 4 + ?n * 2)"
  proof -
    have "24 + ?s * 4 + ?n * 4 + ?n * 2 = length meta" using lm by arith
    then show ?thesis by (simp only:) (rule drop_three, simp_all add: lm)
  qed
  moreover have "of_nat (ac_shards cfg) = u32_of_le (slice meta 0 4)" by (simp add: sh [symmetric])
  moreover have "concat (map u32_le ?heads) = slice meta 24 (24 + ?s * 4)"
    "concat (map u32_le ?next) = slice meta (24 + ?s * 4) (24 + ?s * 4 + ?n * 4)"
    "concat (map u16_le ?counts) = slice meta (24 + ?s * 4 + ?n * 4) (24 + ?s * 4 + ?n * 4 + ?n * 2)"
    using lm by (simp_all add: write_back)
  ultimately have "arena_dump_meta a = u32_le (u32_of_le (slice meta 0 4)) @ u32_le (u32_of_le (slice meta 4 8)) @
      u32_le ?fh @ u64_le ?tot @ [meta ! 20] @ replicate 3 0 @ drop 24 meta"
    unfolding arena_dump_meta_def Let_def flds mode by simp
  also have "\<dots> = meta" by (rule split_header [OF m24 res, symmetric])
  finally show "arena_dump_meta a = meta" .
qed

text \<open>What the loader leaves unchecked: the records inside each page.\<close>

definition pages_sorted :: "slot_type \<Rightarrow> arena \<Rightarrow> bool" where
  "pages_sorted T a \<longleftrightarrow> (\<forall>p < npages a. sorted_wrt (<) (map (slot_key T) (recs T a p)) \<and>
     (\<forall>r \<in> set (recs T a p). shard_of (ar_cfg a) (slot_key T r) = shard_of (ar_cfg a) (page_first T a p)))"

lemma pages_sorted_rep:
  assumes rep: "arena_rep T a runs F" and p: "p < npages a"
  shows "sorted_wrt (<) (map (slot_key T) (recs T a p))"
    and "r \<in> set (recs T a p) \<Longrightarrow> shard_of (ar_cfg a) (slot_key T r) = shard_of (ar_cfg a) (page_first T a p)"
proof -
  note f = rep_frame [OF rep]
  have "sorted_wrt (<) (map (slot_key T) (recs T a p)) \<and>
    (\<forall>r \<in> set (recs T a p). shard_of (ar_cfg a) (slot_key T r) = shard_of (ar_cfg a) (page_first T a p))"
  proof (cases "recs T a p = []")
    case False
    have "p \<in> set (concat runs) \<union> set F" using frame_set [OF f] p by (auto simp del: set_concat)
    moreover have "p \<notin> set F" using False f recs_empty [of a p T] by (auto simp: frame_def)
    ultimately obtain s where s: "s < length runs" "p \<in> set (runs ! s)"
      by (auto simp: in_set_conv_nth) (metis in_set_conv_nth)
    then obtain us vs where run: "runs ! s = us @ p # vs" by (meson split_list)
    have k: "keys_ok T (ar_cfg a) s (run_recs T a us @ recs T a p @ run_recs T a vs)"
      using rep_keys [OF rep s(1)] run by simp
    moreover have "page_first T a p = slot_key T (hd (recs T a p))" by (rule page_first_hd [OF f p False])
    moreover have "hd (recs T a p) \<in> set (recs T a p)" using False by simp
    ultimately show ?thesis by (auto simp: keys_ok_def sorted_wrt_append)
  qed simp
  then show "sorted_wrt (<) (map (slot_key T) (recs T a p))"
    and "r \<in> set (recs T a p) \<Longrightarrow> shard_of (ar_cfg a) (slot_key T r) = shard_of (ar_cfg a) (page_first T a p)"
    by blast+
qed

lemma loaded_rep:
  assumes l: "loaded_from T pool a runs F" and sorted: "pages_sorted T a" and sh: "ac_shards (ar_cfg a) < 2 ^ 32"
  shows "arena_rep T a runs F"
proof -
  have keys: "keys_ok T (ar_cfg a) s (run_recs T a (runs ! s))" if s: "s < length runs" for s
  proof -
    have sub: "set (runs ! s) \<subseteq> set (concat runs)" by (rule nth_subset_concat [OF s])
    have "\<forall>p \<in> set (runs ! s). sorted_wrt (<) (map (slot_key T) (recs T a p))"
      using sorted loaded_lt [OF l] sub by (auto simp: pages_sorted_def simp del: set_concat)
    with loaded_sorted [OF l sub] loaded_good [OF l s]
    have "sorted_wrt (<) (map (slot_key T) (run_recs T a (runs ! s)))" by blast
    moreover have "shard_of (ar_cfg a) (slot_key T r) = s" if r: "r \<in> set (run_recs T a (runs ! s))" for r
    proof -
      from r obtain p where p: "p \<in> set (runs ! s)" "r \<in> set (recs T a p)" by (auto simp: set_run_recs)
      then have lt: "p < npages a" using loaded_lt [OF l] sub by blast
      then have "shard_of (ar_cfg a) (slot_key T r) = shard_of (ar_cfg a) (image_first T pool p)"
        using sorted p(2) loaded_first [OF l lt] by (simp add: pages_sorted_def)
      also have "\<dots> = s" using loaded_good [OF l s] p(1) by (simp add: live_page_def)
      finally show ?thesis .
    qed
    ultimately show ?thesis by (simp add: keys_ok_def)
  qed
  show ?thesis
    unfolding arena_rep_def
    using loaded_frame [OF l] loaded_live [OF l] loaded_keys [OF l] loaded_total [OF l] keys sh
    by (simp add: usize_max_def del: set_concat)
qed

lemma frame_record_count:
  assumes f: "frame T a runs [] F"
  shows "length (arena_records T a) = length (run_recs T a (concat runs))"
proof -
  have len: "length (run_recs T a ps) = sum_list (map (\<lambda>p. unat (ar_counts a ! p)) ps)" for ps
    by (simp add: run_recs_def length_concat o_def length_recs)
  have part: "mset (concat runs @ F) = mset [0..<npages a]" using f by (simp add: frame_def)
  have "length (arena_records T a) = sum_mset (image_mset (\<lambda>p. unat (ar_counts a ! p)) (mset [0..<npages a]))"
    unfolding arena_records_def len by (metis mset_map sum_mset_sum_list)
  also have "\<dots> = sum_list (map (\<lambda>p. unat (ar_counts a ! p)) (concat runs @ F))"
    unfolding part [symmetric] by (metis mset_map sum_mset_sum_list)
  also have "\<dots> = length (run_recs T a (concat runs)) + sum_list (map (\<lambda>p. unat (ar_counts a ! p)) F)"
    by (simp add: len)
  also have "sum_list (map (\<lambda>p. unat (ar_counts a ! p)) F) = 0"
    using f by (simp add: frame_def)
  finally show ?thesis by simp
qed

text \<open>
  C22. Whatever bytes a loader accepts, the arena it returns keeps the image (its metadata dumps to
  the very bytes that were read), its pages form a proper frame (each page in exactly one chain of
  its shard or in the free list, links and directory consistent), no chain page is empty, and the
  record count is the number of stored records. The chains are finite, so no later operation can
  loop on them.
\<close>

theorem arena_load_sound:
  assumes "arena_load T cfg meta pool = Inr a \<or> arena_load_borrowed T cfg meta pool = Inr a \<or>
    arena_load_overlay T cfg meta pool = Inr a"
  shows "ar_cfg a = cfg \<and> arena_dump_meta a = meta \<and> arena_len a = length (arena_records T a) \<and>
    (\<exists>runs F. frame T a runs [] F \<and> (\<forall>p \<in> set (concat runs). recs T a p \<noteq> []))"
proof -
  obtain backing where load: "load_impl T cfg meta pool backing = Inr a"
    and b: "backing = owned_from pool \<or> backing = borrowed PAGE_BYTES pool"
    using assms by (auto simp: arena_load_def arena_load_borrowed_def arena_load_overlay_def)
  note s = load_impl_sound [OF load b]
  from s(1) obtain runs F where l: "loaded_from T pool a runs F" by blast
  have "arena_len a = length (arena_records T a)"
    using frame_record_count [OF loaded_frame [OF l]] loaded_total [OF l] by (simp add: arena_len_def)
  then show ?thesis using s loaded_frame [OF l] loaded_live [OF l] by blast
qed

lemma loaded_inv_iff:
  assumes "arena_load T cfg meta pool = Inr a \<or> arena_load_borrowed T cfg meta pool = Inr a"
  shows "arena_inv T a \<longleftrightarrow> pages_sorted T a"
proof
  assume "arena_inv T a"
  then obtain runs F where rep: "arena_rep T a runs F" by (auto simp: arena_inv_def)
  show "pages_sorted T a" unfolding pages_sorted_def using pages_sorted_rep [OF rep] by blast
next
  assume sorted: "pages_sorted T a"
  obtain backing where load: "load_impl T cfg meta pool backing = Inr a"
    and b: "backing = owned_from pool \<or> backing = borrowed PAGE_BYTES pool"
    using assms by (auto simp: arena_load_def arena_load_borrowed_def)
  note s = load_impl_sound [OF load b]
  from s(1) obtain runs F where l: "loaded_from T pool a runs F" by blast
  show "arena_inv T a" unfolding arena_inv_def using loaded_rep [OF l sorted] s(2,5) by auto
qed

text \<open>
  C23. A loaded arena is well formed exactly when every page of the image is strictly sorted and
  holds records of its first key's shard only: the chain checks of the loader (a page's last key
  below the next page's first key, each page in its shard) are enough for everything else.
\<close>

theorem arena_load_valid_iff:
  assumes "arena_load T cfg meta pool = Inr a \<or> arena_load_borrowed T cfg meta pool = Inr a"
  shows "arena_inv T a \<longleftrightarrow> pages_sorted T a"
  by (rule loaded_inv_iff [OF assms])

section \<open>The dump loads back\<close>

lemma rep_dump_page:
  assumes f: "frame T a runs X F" and p: "p < npages a"
  shows "length (dump_page T a p) = PAGE_BYTES"
    and "take (unat (ar_counts a ! p) * SIZE T) (dump_page T a p) = take (unat (ar_counts a ! p) * SIZE T) (raw_page a p)"
  using frame_fits [OF f p] frame_page_len [OF f p] by (simp_all add: dump_page_def Let_def)

lemma dump_slots_cong:
  "take (n * sz) b = take (n * sz) b' \<Longrightarrow> page_slots sz n b = page_slots sz n b'"
proof -
  assume eq: "take (n * sz) b = take (n * sz) b'"
  have "slice b (i * sz) (i * sz + sz) = slice b' (i * sz) (i * sz + sz)" if "i < n" for i
  proof -
    have "i * sz + sz \<le> n * sz" using that by (metis Suc_leI add.commute mult_Suc mult_le_mono1)
    then have "take (i * sz + sz) b = take (i * sz + sz) (take (n * sz) b)"
      "take (i * sz + sz) b' = take (i * sz + sz) (take (n * sz) b')" by (simp_all add: min_def)
    with eq show ?thesis by (simp add: slice_def)
  qed
  then show ?thesis by (simp add: page_slots_def)
qed

lemma dump_pool_pages:
  assumes f: "frame T a runs X F"
  shows "length (arena_dump_pool T a) = npages a * PAGE_BYTES"
    and "p < npages a \<Longrightarrow> slice (arena_dump_pool T a) (p * PAGE_BYTES) (p * PAGE_BYTES + PAGE_BYTES) = dump_page T a p"
proof -
  have len: "length x = PAGE_BYTES" if "x \<in> set (map (dump_page T a) [0..<npages a])" for x
    using that rep_dump_page(1) [OF f] by auto
  have eq: "arena_dump_pool T a = concat (map (dump_page T a) [0..<npages a])"
    by (simp add: arena_dump_pool_def npages_def)
  show "length (arena_dump_pool T a) = npages a * PAGE_BYTES"
    unfolding eq by (subst length_concat_const [OF len]) simp_all
  show "p < npages a \<Longrightarrow> slice (arena_dump_pool T a) (p * PAGE_BYTES) (p * PAGE_BYTES + PAGE_BYTES) = dump_page T a p"
    unfolding eq by (subst slice_concat_const [OF len]) simp_all
qed


lemma ascend_sorted:
  assumes first: "\<And>p. p \<in> set ps \<Longrightarrow> image_first T pool p = slot_key T (hd (recs T a p))"
    and last: "\<And>p. p \<in> set ps \<Longrightarrow> image_last T pool counts p = slot_key T (last (recs T a p))"
    and ne: "\<And>p. p \<in> set ps \<Longrightarrow> recs T a p \<noteq> [] \<and> unat (of_nat p :: u32) = p"
  shows "sorted_wrt (<) (map (slot_key T) (run_recs T a ps)) \<Longrightarrow>
    (pr \<noteq> NONE_U32 \<Longrightarrow> ps \<noteq> [] \<Longrightarrow> image_last T pool counts (unat pr) < image_first T pool (hd ps)) \<Longrightarrow>
    pages_ascend T pool counts pr ps"
  using first last ne
proof (induction ps arbitrary: pr)
  case (Cons p ps)
  have "image_last T pool counts (unat (of_nat p :: u32)) < image_first T pool (hd ps)" if ps: "ps \<noteq> []"
  proof -
    obtain q qs where q: "ps = q # qs" using ps by (cases ps) auto
    have "last (recs T a p) \<in> set (recs T a p)" "hd (recs T a q) \<in> set (run_recs T a ps)"
      using Cons.prems(5) [of p] Cons.prems(5) [of q] q by auto
    then have "slot_key T (last (recs T a p)) < slot_key T (hd (recs T a q))"
      using Cons.prems(1) by (auto simp: sorted_wrt_append)
    then show ?thesis using Cons.prems(3) [of q] Cons.prems(4) [of p] Cons.prems(5) [of p] q by simp
  qed
  moreover have "sorted_wrt (<) (map (slot_key T) (run_recs T a ps))"
    using Cons.prems(1) by (simp add: sorted_wrt_append)
  ultimately have "pages_ascend T pool counts (of_nat p) ps"
    by (intro Cons.IH) (use Cons.prems(3-5) in auto)
  then show ?case using Cons.prems(2) by simp
qed simp

lemma sum_list_le: "(\<And>x. x \<in> set xs \<Longrightarrow> f x \<le> (k :: nat)) \<Longrightarrow> sum_list (map f xs) \<le> length xs * k"
  by (induction xs) (auto simp: add_le_mono)

lemma rep_total_bound:
  assumes rep: "arena_rep T a runs F"
  shows "ar_total a < 2 ^ 64"
proof -
  have "length (concat runs @ F) = npages a"
    using mset_eq_length [of "concat runs @ F" "[0..<npages a]"] rep_frame [OF rep] by (simp add: frame_def)
  then have n: "length (concat runs) < 2 ^ 32" using rep_frame [OF rep] by (simp add: frame_def pool_ok_def)
  have "ar_total a = sum_list (map (\<lambda>p. unat (ar_counts a ! p)) (concat runs))"
    using rep by (simp add: arena_rep_def run_recs_def length_concat o_def length_recs)
  also have "\<dots> \<le> length (concat runs) * 2 ^ 16"
    by (rule sum_list_le) (simp add: less_imp_le unat_lt_width [where 'a = 16, simplified])
  also have "\<dots> \<le> 2 ^ 32 * 2 ^ 16" using n by simp
  finally show ?thesis by simp
qed

lemma rep_image_ok:
  assumes rep: "arena_rep T a runs F"
  shows "image_ok T (ar_cfg a) (arena_dump_pool T a) (ar_heads a) (ar_next a) (ar_counts a) (ar_free_head a)
    (of_nat (ar_total a)) runs F"
proof -
  let ?pool = "arena_dump_pool T a"
  note f = rep_frame [OF rep]
  have T: "slot_ok T" and links: "links_ok a runs F" and n: "length (ar_next a) = npages a"
    using f by (simp_all add: frame_def pool_ok_def)
  have lt: "p < npages a" and ne: "recs T a p \<noteq> []" and c: "ar_counts a ! p \<noteq> 0" if "p \<in> set (concat runs)" for p
  proof -
    show "p < npages a" using frame_set [OF f] that by (auto simp del: set_concat)
    show "recs T a p \<noteq> []" using rep that by (simp add: arena_rep_def del: set_concat)
    then show "ar_counts a ! p \<noteq> 0" using recs_empty by blast
  qed
  have recs: "page_slots (SIZE T) (unat (ar_counts a ! p)) (dump_page T a p) = recs T a p" if "p < npages a" for p
    unfolding recs_def by (rule dump_slots_cong) (rule rep_dump_page(2) [OF f that])
  have last: "image_last T ?pool (ar_counts a) p = slot_key T (last (recs T a p))" if "p \<in> set (concat runs)" for p
  proof -
    have "unat (ar_counts a ! p) * SIZE T \<le> PAGE_BYTES"
      using frame_fits [OF f lt [OF that]] frame_page_len [OF f lt [OF that]] by simp
    from image_last_slots [where pool = ?pool, OF T c [OF that] this] show ?thesis
      by (simp add: dump_pool_pages(2) [OF f lt [OF that]] recs [OF lt [OF that]])
  qed
  have first: "image_first T ?pool p = page_first T a p" if p: "p \<in> set (concat runs)" for p
  proof -
    let ?k = "KEY_LEN T" and ?u = "unat (ar_counts a ! p) * SIZE T"
    have "unat (ar_counts a ! p) \<noteq> 0" using c [OF p] by (simp add: unat_eq_0)
    then have "SIZE T \<le> ?u" by (cases "unat (ar_counts a ! p)") simp_all
    then have "?k \<le> ?u" using T unfolding slot_ok_def by (meson le_trans)
    then have "take ?k (dump_page T a p) = take ?k (raw_page a p)"
      using arg_cong [where f = "take ?k", OF rep_dump_page(2) [OF f lt [OF p]]] by (simp add: min_def)
    moreover have "image_first T ?pool p = take ?k (slice ?pool (p * PAGE_BYTES) (p * PAGE_BYTES + PAGE_BYTES))"
      using T by (simp add: image_first_def take_slice slot_ok_def)
    ultimately show ?thesis by (simp add: dump_pool_pages(2) [OF f lt [OF p]] page_first_def)
  qed
  have "good_runs T (ar_cfg a) ?pool (ar_next a) (ar_counts a) 0 (ar_heads a) runs"
    unfolding good_runs_iff
  proof (intro conjI allI impI ballI)
    show "length runs = length (ar_heads a)" using links by (simp add: links_ok_def)
    fix s assume "s < length (ar_heads a)"
    then have s: "s < length runs" using links by (simp add: links_ok_def)
    have sub: "set (runs ! s) \<subseteq> set (concat runs)" by (rule nth_subset_concat [OF s])
    note keys = rep_keys [OF rep s]
    show "path ((!) (ar_next a)) (ar_heads a ! s) (runs ! s) NONE_U32" using links s by (simp add: links_ok_def)
    have hd: "page_first T a p = slot_key T (hd (recs T a p))" if "p \<in> set (runs ! s)" for p
      using page_first_hd [OF f lt ne] that sub by blast
    show "pages_ascend T ?pool (ar_counts a) NONE_U32 (runs ! s)"
    proof (rule ascend_sorted)
      show "sorted_wrt (<) (map (slot_key T) (run_recs T a (runs ! s)))" using keys by (simp add: keys_ok_def)
      show "recs T a p \<noteq> [] \<and> unat (of_nat p :: u32) = p" if "p \<in> set (runs ! s)" for p
        using that sub ne frame_index [OF f lt] by blast
      show "image_first T ?pool p = slot_key T (hd (recs T a p))" if "p \<in> set (runs ! s)" for p
        using first [OF subsetD [OF sub that]] hd [OF that] by simp
      show "image_last T ?pool (ar_counts a) p = slot_key T (last (recs T a p))" if "p \<in> set (runs ! s)" for p
        using last [OF subsetD [OF sub that]] .
    qed simp
    fix p assume p: "p \<in> set (runs ! s)"
    then have "hd (recs T a p) \<in> set (run_recs T a (runs ! s))"
      using hd_in_set [OF ne [OF subsetD [OF sub p]]] unfolding set_run_recs by blast
    then have "shard_of (ar_cfg a) (page_first T a p) = s" using keys hd [OF p] by (simp add: keys_ok_def)
    with first [of p] c [of p] p sub show "live_page T (ar_cfg a) ?pool (ar_counts a) (0 + s) p"
      by (auto simp: live_page_def simp del: set_concat)
  qed
  moreover have "sum_list (map (\<lambda>p. unat (ar_counts a ! p)) (concat runs)) = ar_total a"
    using rep by (simp add: arena_rep_def run_recs_def length_concat o_def length_recs)
  then have "sum_list (map (\<lambda>p. unat (ar_counts a ! p)) (concat runs)) = unat (of_nat (ar_total a) :: u64)"
    using rep_total_bound [OF rep] by (simp add: unat_of_nat)
  moreover have "unat k \<le> slots_per_page T" if "k \<in> set (ar_counts a)" for k
    using f that by (auto simp: frame_def npages_def in_set_conv_nth)
  ultimately show ?thesis
    using f links n by (simp add: image_ok_def frame_def links_ok_def)
qed

text \<open>Reading the sections of a dump.\<close>

lemma load_of_parts:
  assumes new: "slot_ok T" "is_power_of_two (ac_shards cfg)" and heads: "length heads = ac_shards cfg" "ac_shards cfg < 2 ^ 32"
    and n: "length next < 2 ^ 32 - 1" "length counts = length next" "length pool = length next * PAGE_BYTES"
    and meta: "meta = u32_le (of_nat (ac_shards cfg)) @ u32_le (of_nat (length next)) @ u32_le fh @ u64_le tot @
      [mode_byte (ac_mode cfg)] @ replicate 3 0 @ concat (map u32_le heads) @ concat (map u32_le next) @ concat (map u16_le counts)"
  shows "load_impl T cfg meta pool backing = arena_adopt T cfg pool backing heads next counts fh tot"
proof -
  have lens: "length (concat (map u32_le heads)) = ac_shards cfg * 4" "length (concat (map u32_le next)) = length next * 4"
    "length (concat (map u16_le counts)) = length next * 2"
    using heads n by (simp_all add: concat_map_const_length)
  have lm: "length meta = 24 + ac_shards cfg * 4 + length next * 6" by (simp add: meta lens)
  have arrays: "read_u32s meta 24 (ac_shards cfg) = heads" "read_u32s meta (24 + ac_shards cfg * 4) (length next) = next"
    "read_u16s meta (24 + ac_shards cfg * 4 + length next * 4) (length next) = counts"
  proof -
    let ?h = "u32_le (of_nat (ac_shards cfg)) @ u32_le (of_nat (length next)) @ u32_le fh @ u64_le tot @
      [mode_byte (ac_mode cfg)] @ replicate 3 0"
    show "read_u32s meta 24 (ac_shards cfg) = heads"
      using read_back(1) [of "ac_shards cfg" heads 24 ?h] heads by (simp add: meta)
    show "read_u32s meta (24 + ac_shards cfg * 4) (length next) = next"
      using read_back(1) [of "length next" "next" "24 + ac_shards cfg * 4" "?h @ concat (map u32_le heads)"] lens by (simp add: meta)
    show "read_u16s meta (24 + ac_shards cfg * 4 + length next * 4) (length next) = counts"
      using read_back(2) [of "length next" counts "24 + ac_shards cfg * 4 + length next * 4"
          "?h @ concat (map u32_le heads) @ concat (map u32_le next)" "[]"] lens n by (simp add: meta)
  qed
  have header: "slice meta 0 4 = u32_le (of_nat (ac_shards cfg))" "slice meta 4 8 = u32_le (of_nat (length next))"
    "slice meta 8 12 = u32_le fh" "slice meta 12 20 = u64_le tot" "meta ! 20 = mode_byte (ac_mode cfg)"
    "slice meta 21 24 = replicate 3 0"
    by (simp_all add: meta slice_append_right slice_append_left slice_whole_len nth_append)
      (simp add: slice_def)
  obtain a0 where "arena_new T cfg = Inr a0"
    using new by (auto simp: arena_new_def slot_ok_def is_power_of_two_def)
  then show ?thesis
    using heads n lm unfolding load_impl_def Let_def IMAGE_HEADER_def header by (simp add: arrays header)
qed

text \<open>Loading the dump of a well-formed arena, over a copy or over the borrowed bytes.\<close>

lemma dump_loads:
  assumes rep: "arena_rep T a runs F" and n: "npages a < 2 ^ 32 - 1" and sh: "ac_shards (ar_cfg a) < 2 ^ 32"
  defines "pool \<equiv> arena_dump_pool T a"
  assumes b: "backing = owned_from pool \<or> backing = borrowed PAGE_BYTES pool"
  shows "\<exists>q. load_impl T (ar_cfg a) (arena_dump_meta a) pool backing = Inr q \<and> arena_inv T q \<and>
    arena_map T q = arena_map T a \<and> arena_len q = arena_len a \<and> ar_cfg q = ar_cfg a \<and>
    arena_dump_meta q = arena_dump_meta a \<and> arena_dump_pool T q = pool"
proof -
  let ?tot = "of_nat (ar_total a) :: u64"
  define q where "q = adopted T (ar_cfg a) pool backing (ar_heads a) (ar_next a) (ar_counts a) (ar_free_head a) ?tot runs"
  note f = rep_frame [OF rep]
  have T: "slot_ok T" "is_power_of_two (ac_shards (ar_cfg a))" and heads: "length (ar_heads a) = ac_shards (ar_cfg a)"
    and len: "length (ar_next a) = npages a" "length (ar_counts a) = npages a" "paged_len (ar_pool a) = PAGE_BYTES * npages a"
    using f by (simp_all add: frame_def pool_ok_def links_ok_def npages_def)
  have lp: "length pool = npages a * PAGE_BYTES" unfolding pool_def by (rule dump_pool_pages(1) [OF f])
  have backs: "backs pool backing" using backs_both [OF lp] n b by auto
  have tot: "unat ?tot = ar_total a" using rep_total_bound [OF rep] by (simp add: unat_of_nat)
  have ok: "image_ok T (ar_cfg a) pool (ar_heads a) (ar_next a) (ar_counts a) (ar_free_head a) ?tot runs F"
    unfolding pool_def by (rule rep_image_ok [OF rep])
  have "load_impl T (ar_cfg a) (arena_dump_meta a) pool backing =
      arena_adopt T (ar_cfg a) pool backing (ar_heads a) (ar_next a) (ar_counts a) (ar_free_head a) ?tot"
    by (rule load_of_parts) (use T heads sh n len lp in \<open>simp_all add: arena_dump_meta_def Let_def del: replicate.simps\<close>)
  also have "\<dots> = Inr q" unfolding arena_adopt_iff q_def using ok by blast
  finally have load: "load_impl T (ar_cfg a) (arena_dump_meta a) pool backing = Inr q" .
  have flds: "ar_cfg q = ar_cfg a" "ar_heads q = ar_heads a" "ar_next q = ar_next a" "ar_counts q = ar_counts a"
    "ar_free_head q = ar_free_head a" "ar_total q = ar_total a" "ar_pool q = backing" "npages q = npages a"
    by (simp_all add: q_def tot npages_def)
  have l: "loaded_from T pool q runs F"
    unfolding loaded_from_def flds using T heads len n lp backs ok rep_total_bound [OF rep]
    by (intro conjI) (simp_all add: q_def)
  have page: "raw_page q p = dump_page T a p" if "p < npages a" for p
    using loaded_page [OF l] dump_pool_pages(2) [OF f that] that by (simp add: flds pool_def)
  have recs: "recs T q p = recs T a p" if "p < npages a" for p
    unfolding recs_def flds(4) page [OF that] by (rule dump_slots_cong) (rule rep_dump_page(2) [OF f that])
  have "pages_sorted T q"
    unfolding pages_sorted_def
  proof (intro allI impI conjI ballI)
    fix p assume "p < npages q"
    then have p: "p < npages a" by (simp add: flds)
    show "sorted_wrt (<) (map (slot_key T) (recs T q p))"
      unfolding recs [OF p] by (rule pages_sorted_rep(1) [OF rep p])
    fix r assume r: "r \<in> set (recs T q p)"
    then have ne: "recs T a p \<noteq> []" unfolding recs [OF p] by auto
    have "page_first T q p = page_first T a p"
      using page_first_hd [OF loaded_frame [OF l], of p] page_first_hd [OF f p ne] ne p by (simp add: flds recs)
    then show "shard_of (ar_cfg q) (slot_key T r) = shard_of (ar_cfg q) (page_first T q p)"
      using pages_sorted_rep(2) [OF rep p, of r] r by (simp add: flds recs [OF p])
  qed
  from loaded_rep [OF l this] sh have "arena_inv T q" unfolding arena_inv_def flds by blast
  moreover have "arena_records T q = arena_records T a"
    unfolding arena_records_def flds by (rule run_recs_cong) (use recs in simp)
  then have "arena_map T q = arena_map T a" by (simp add: arena_map_def)
  moreover have "arena_dump_meta q = arena_dump_meta a"
    unfolding arena_dump_meta_def flds using backs lp len by (simp add: backs_def)
  moreover have "dump_page T q p = dump_page T a p" if "p < npages a" for p
  proof -
    have "raw_page q p = dump_page T a p" by (rule page [OF that])
    then show ?thesis
      using rep_dump_page(2) [OF f that] by (simp add: dump_page_def [of T q] flds(4) Let_def) (simp add: dump_page_def Let_def)
  qed
  then have "map (dump_page T q) [0..<npages a] = map (dump_page T a) [0..<npages a]" by simp
  then have "arena_dump_pool T q = pool"
    unfolding pool_def arena_dump_pool_def flds(4) npages_def by (rule arg_cong)
  ultimately show ?thesis using load flds by (auto simp: arena_len_def)
qed

text \<open>
  C21. The dump of a well-formed arena loads back under the same configuration (unless every page
  index is in use, or there are 2^32 shards): the loaded arena, whether it copies or borrows the
  pool, is well formed, holds the same map and record count, and dumps to the same bytes, so
  the image is canonical although the pages' unused tails are not part of the state.
\<close>

theorem arena_dump_load:
  assumes "arena_inv T a" and "npages a < 2 ^ 32 - 1" and "ac_shards (ar_cfg a) < 2 ^ 32"
  shows "\<forall>load \<in> {arena_load, arena_load_borrowed, arena_load_overlay}.
    \<exists>q. load T (ar_cfg a) (arena_dump_meta a) (arena_dump_pool T a) = Inr q \<and> arena_inv T q \<and>
      arena_map T q = arena_map T a \<and> arena_len q = arena_len a \<and> ar_cfg q = ar_cfg a \<and>
      arena_dump_meta q = arena_dump_meta a \<and> arena_dump_pool T q = arena_dump_pool T a"
proof -
  obtain runs F where rep: "arena_rep T a runs F" using assms(1) by (auto simp: arena_inv_def)
  show ?thesis
    using dump_loads [OF rep assms(2,3), of "owned_from (arena_dump_pool T a)"]
      dump_loads [OF rep assms(2,3), of "borrowed PAGE_BYTES (arena_dump_pool T a)"]
    by (simp add: arena_load_def arena_load_borrowed_def arena_load_overlay_def)
qed

text \<open>The witnesses use the demo arena with one record.\<close>

lemma demo_image:
  "\<exists>b. arena_inv demo_type b \<and> arena_map demo_type b = [[0, 1] \<mapsto> demo_slot] \<and> arena_len b = 1 \<and>
    npages b < 2 ^ 32 - 1 \<and> ac_shards (ar_cfg b) < 2 ^ 32"
proof -
  obtain b where b: "arena_inv demo_type b" "arena_map demo_type b = [[0, 1] \<mapsto> demo_slot]" "arena_len b = 1" "ar_cfg b = demo_cfg"
    and ins: "insert_bytes demo_type (replicate PAGE_BYTES 0) demo_slot demo_arena = Inr (True, b)"
    using demo_inserted by blast
  have "npages b = 1"
    using ins
    by (simp add: insert_bytes_def find_page_def dir_run_def demo_arena_def open_shard_def alloc_page_def demo_cfg_def
        owned_empty_def shard_of_def trailing_zeros.simps Let_def dir_insert_def search_in_def search_def
        search_loop.simps ar_count_def place_slot_def refresh_dir_key_def slots_per_page_def demo_type_def
        PAGE_BYTES_def npages_def arena_split_def split: if_split_asm) auto
  with b show ?thesis by (intro exI [of _ b]) (simp add: demo_cfg_def)
qed

theorem arena_dump_load_witness:
  "\<exists>b q. arena_map demo_type b = [[0, 1] \<mapsto> demo_slot] \<and>
     arena_load_borrowed demo_type (ar_cfg b) (arena_dump_meta b) (arena_dump_pool demo_type b) = Inr q \<and>
     arena_map demo_type q = [[0, 1] \<mapsto> demo_slot] \<and> arena_len q = 1"
proof -
  obtain b where b: "arena_inv demo_type b" "arena_map demo_type b = [[0, 1] \<mapsto> demo_slot]" "arena_len b = 1"
    and n: "npages b < 2 ^ 32 - 1" "ac_shards (ar_cfg b) < 2 ^ 32"
    using demo_image by blast
  from arena_dump_load [OF b(1) n] b show ?thesis by auto
qed

lemma demo_load:
  "\<exists>cfg meta pool q. arena_load demo_type cfg meta pool = Inr q \<and> arena_inv demo_type q \<and> arena_len q = 1"
proof -
  obtain b where b: "arena_inv demo_type b" "arena_map demo_type b = [[0, 1] \<mapsto> demo_slot]" "arena_len b = 1"
    and n: "npages b < 2 ^ 32 - 1" "ac_shards (ar_cfg b) < 2 ^ 32"
    using demo_image by blast
  then obtain runs F where rep: "arena_rep demo_type b runs F" by (auto simp: arena_inv_def)
  from dump_loads [OF rep n, of "owned_from (arena_dump_pool demo_type b)"] b(3) show ?thesis
    by (auto simp: arena_load_def)
qed

theorem arena_load_sound_witness:
  "\<exists>cfg meta pool q. arena_load demo_type cfg meta pool = Inr q \<and> arena_dump_meta q = meta \<and>
     length (arena_records demo_type q) = 1"
proof -
  obtain cfg meta pool q where q: "arena_load demo_type cfg meta pool = Inr q" "arena_len q = 1"
    using demo_load by blast
  with arena_load_sound [of demo_type cfg meta pool q] show ?thesis by (intro exI conjI) auto
qed

theorem arena_load_valid_iff_witness:
  "\<exists>cfg meta pool q. arena_load demo_type cfg meta pool = Inr q \<and> pages_sorted demo_type q"
proof -
  obtain cfg meta pool q where q: "arena_load demo_type cfg meta pool = Inr q" "arena_inv demo_type q"
    using demo_load by blast
  with arena_load_valid_iff [of demo_type cfg meta pool q] show ?thesis by blast
qed

end
