(* ===== verification/Interner.thy ===== *)
theory Interner
  imports Blob_Heap Rust_Std
begin

text \<open>
  The string interner of \<open>crates/plugmem-arena/src/interner.rs\<close>: a blob heap of the distinct
  strings plus an open-addressing table of \<open>id + 1\<close> entries probed linearly. The hash
  \<open>xxh3_64\<close> is a third-party function and a parameter (\<open>h\<close>) of every operation; nothing is
  assumed of it. A probe of a full table would not end, so the probing loops are partial
  functions (\<open>None\<close>: the loop does not return, or a dangling id panics); the load factor
  keeps an empty slot, which is what makes them return.
\<close>

section \<open>State\<close>

definition INITIAL_SLOTS :: nat where
  "INITIAL_SLOTS = 16"

definition LOAD_NUM :: nat where
  "LOAD_NUM = 7"

definition LOAD_DEN :: nat where
  "LOAD_DEN = 10"

record interner =
  in_heap :: blob_heap
  in_table :: "u32 list"
  in_len :: u32

definition interner_new :: "blob_cfg \<Rightarrow> interner" where
  "interner_new cfg = \<lparr>in_heap = blob_new cfg, in_table = replicate INITIAL_SLOTS 0, in_len = 0\<rparr>"

section \<open>Probing\<close>

text \<open>\<open>xxh3_64(bytes) as usize & mask\<close>, and the next slot of a probe.\<close>

definition home_slot :: "(bytes \<Rightarrow> u64) \<Rightarrow> 'e list \<Rightarrow> bytes \<Rightarrow> nat" where
  "home_slot h table bs = and (unat (h bs)) (length table - 1)"

definition next_slot :: "'e list \<Rightarrow> nat \<Rightarrow> nat" where
  "next_slot table idx = and (idx + 1) (length table - 1)"

text \<open>The loop of \<open>intern\<close> and \<open>lookup\<close>: \<open>Inl\<close> the empty slot, or \<open>Inr\<close> the id that holds the string.\<close>

partial_function (option) probe :: "blob_heap \<Rightarrow> u32 list \<Rightarrow> bytes \<Rightarrow> nat \<Rightarrow> (nat + u32) option" where
  "probe heap table bs idx =
     (let entry = table ! idx in
      if entry = 0 then Some (Inl idx)
      else do {
        b \<leftarrow> blob_get heap (entry - 1);
        if b = bs then Some (Inr (entry - 1)) else probe heap table bs (next_slot table idx) })"

section \<open>Operations\<close>

partial_function (option) free_slot :: "u32 list \<Rightarrow> nat \<Rightarrow> nat option" where
  "free_slot table idx = (if table ! idx \<noteq> 0 then free_slot table (next_slot table idx) else Some idx)"

fun reinsert :: "(bytes \<Rightarrow> u64) \<Rightarrow> blob_heap \<Rightarrow> u32 list \<Rightarrow> u32 list \<Rightarrow> u32 list option" where
  "reinsert h heap [] table = Some table"
| "reinsert h heap (entry # entries) table = do {
     b \<leftarrow> blob_get heap (entry - 1);
     idx \<leftarrow> free_slot table (home_slot h table b);
     reinsert h heap entries (table[idx := entry]) }"

definition rehash :: "(bytes \<Rightarrow> u64) \<Rightarrow> interner \<Rightarrow> interner option" where
  "rehash h t = do {
     table \<leftarrow> reinsert h (in_heap t) (filter (\<lambda>e. e \<noteq> 0) (in_table t)) (replicate (length (in_table t) * 2) 0);
     Some (t\<lparr>in_table := table\<rparr>) }"

text \<open>\<open>intern\<close> returns its result and the interner it leaves, also when it fails.\<close>

definition intern :: "(bytes \<Rightarrow> u64) \<Rightarrow> bytes \<Rightarrow> interner \<Rightarrow> ((arena_error + u32) \<times> interner) option" where
  "intern h bs t = do {
     t \<leftarrow> (if length (in_table t) * LOAD_NUM < (unat (in_len t) + 1) * LOAD_DEN then rehash h t else Some t);
     r \<leftarrow> probe (in_heap t) (in_table t) bs (home_slot h (in_table t) bs);
     Some (case r of
         Inr tid \<Rightarrow> (Inr tid, t)
       | Inl idx \<Rightarrow>
           (case blob_push bs (in_heap t) of
              Inl e \<Rightarrow> (Inl e, t)
            | Inr (tid, heap) \<Rightarrow>
                (Inr tid, t\<lparr>in_heap := heap, in_table := (in_table t)[idx := tid + 1], in_len := in_len t + 1\<rparr>))) }"

definition interner_lookup :: "(bytes \<Rightarrow> u64) \<Rightarrow> bytes \<Rightarrow> interner \<Rightarrow> u32 option option" where
  "interner_lookup h bs t =
     map_option (\<lambda>r. case r of Inl _ \<Rightarrow> None | Inr tid \<Rightarrow> Some tid)
       (probe (in_heap t) (in_table t) bs (home_slot h (in_table t) bs))"

definition interner_resolve :: "interner \<Rightarrow> u32 \<Rightarrow> bytes option" where
  "interner_resolve t tid = do {
     b \<leftarrow> blob_get (in_heap t) tid;
     if utf8_valid b then Some b else None }"

definition interner_count :: "interner \<Rightarrow> nat" where
  "interner_count t = unat (in_len t)"

definition interner_is_empty :: "interner \<Rightarrow> bool" where
  "interner_is_empty t \<longleftrightarrow> in_len t = 0"

definition interner_pool_bytes :: "interner \<Rightarrow> nat" where
  "interner_pool_bytes t = pool_len (in_heap t)"

section \<open>Dump and load\<close>

definition TABLE_HEADER :: nat where
  "TABLE_HEADER = 8"

definition interner_dump_index :: "interner \<Rightarrow> bytes" where
  "interner_dump_index t = blob_dump_index (in_heap t)"

definition interner_dump_pool :: "interner \<Rightarrow> bytes" where
  "interner_dump_pool t = blob_dump_pool (in_heap t)"

definition interner_dump_table :: "interner \<Rightarrow> bytes" where
  "interner_dump_table t = u32_le (of_nat (length (in_table t))) @ u32_le (in_len t) @ concat (map u32_le (in_table t))"

text \<open>The entry loop: \<open>n\<close> slots still to read from slot \<open>i\<close>, over the bitmap \<open>seen\<close>.\<close>

fun read_entries :: "bytes \<Rightarrow> nat \<Rightarrow> nat \<Rightarrow> bool list \<Rightarrow> nat \<Rightarrow> u32 list \<Rightarrow> arena_error + u32 list \<times> nat" where
  "read_entries table 0 i seen filled entries = Inr (entries, filled)"
| "read_entries table (Suc n) i seen filled entries =
     (let at = TABLE_HEADER + i * 4; entry = u32_of_le (slice table at (at + 4)) in
      if entry \<noteq> 0 then
        let tid = unat (entry - 1) in
        if length seen \<le> tid then Inl (Corrupt ''interner table entry out of bounds'')
        else if seen ! tid then Inl (Corrupt ''interner table stores an id twice'')
        else read_entries table n (i + 1) (seen[tid := True]) (filled + 1) (entries @ [entry])
      else read_entries table n (i + 1) seen filled (entries @ [entry]))"

definition from_heap_and_table :: "blob_heap \<Rightarrow> bytes \<Rightarrow> arena_error + interner" where
  "from_heap_and_table heap table =
     (if list_ex (\<lambda>(_, blob). case blob of Some b \<Rightarrow> \<not> utf8_valid b | None \<Rightarrow> False) (blob_iter heap)
      then Inl (Corrupt ''interned term is not valid UTF-8'')
      else if length table < TABLE_HEADER then Inl (Corrupt ''interner table shorter than its header'')
      else let slots = unat (u32_of_le (slice table 0 4)); len = u32_of_le (slice table 4 8) in
      if slots < INITIAL_SLOTS \<or> \<not> is_power_of_two slots then Inl (Corrupt ''interner table size is not a power of two'')
      else if length table \<noteq> TABLE_HEADER + slots * 4 then Inl (Corrupt ''interner table length mismatch'')
      else if unat len \<noteq> blob_count heap then Inl (Corrupt ''interner length disagrees with its heap'')
      else if slots * LOAD_NUM < unat len * LOAD_DEN then Inl (Corrupt ''interner table over the load factor'')
      else try_res (read_entries table slots 0 (replicate (blob_count heap) False) 0 []) (\<lambda>(entries, filled).
        if filled \<noteq> unat len then Inl (Corrupt ''interner table entry count disagrees with len'')
        else Inr \<lparr>in_heap = heap, in_table = entries, in_len = len\<rparr>))"

definition interner_load :: "blob_cfg \<Rightarrow> bytes \<Rightarrow> bytes \<Rightarrow> bytes \<Rightarrow> arena_error + interner" where
  "interner_load cfg index pool table = try_res (blob_load cfg index pool) (\<lambda>heap. from_heap_and_table heap table)"

definition interner_load_borrowed :: "blob_cfg \<Rightarrow> bytes \<Rightarrow> bytes \<Rightarrow> bytes \<Rightarrow> arena_error + interner" where
  "interner_load_borrowed cfg index pool table =
     try_res (blob_load_borrowed cfg index pool) (\<lambda>heap. from_heap_and_table heap table)"

end
