(* ===== verification/Interner_Proofs.thy ===== *)
theory Interner_Proofs
  imports Interner "HOL-Library.Multiset"
begin

text \<open>
  The interner is an injective dictionary from strings to dense ids. The table is described by
  the multiset of its entries (each id once) and by placement: from a string's home slot to its
  entry no slot is empty. The load factor leaves an empty slot, so every probe ends.
\<close>

section \<open>Cyclic positions\<close>

definition table_size :: "nat \<Rightarrow> bool" where
  "table_size n \<longleftrightarrow> (\<exists>k \<ge> 4. n = 2 ^ k)"

lemma table_size_ge: "table_size n \<Longrightarrow> 16 \<le> n"
proof -
  assume "table_size n"
  then obtain k where k: "4 \<le> k" "n = 2 ^ k" by (auto simp: table_size_def)
  then have "(2::nat) ^ 4 \<le> 2 ^ k" by (intro power_increasing) simp_all
  with k(2) show ?thesis by simp
qed

lemma mask_mod: "table_size n \<Longrightarrow> and x (n - 1) = x mod n"
proof -
  assume "table_size n"
  then obtain k where "n = 2 ^ k" by (auto simp: table_size_def)
  then show ?thesis
    using take_bit_eq_mask [of k x] take_bit_eq_mod [of k x] mask_eq_exp_minus_1 [of k, where 'a = nat] by simp
qed

lemma slot_steps:
  assumes "table_size (length table)"
  shows "home_slot h table bs = unat (h bs) mod length table"
    and "next_slot table ((i + d) mod length table) = (i + Suc d) mod length table"
    and "home_slot h table bs < length table"
proof -
  have "0 < length table" using table_size_ge [OF assms] by linarith
  then show "home_slot h table bs = unat (h bs) mod length table"
    and "next_slot table ((i + d) mod length table) = (i + Suc d) mod length table"
    and "home_slot h table bs < length table"
    using mask_mod [OF assms] by (simp_all add: home_slot_def next_slot_def mod_Suc_eq)
qed

lemma reach: "i < n \<Longrightarrow> j < n \<Longrightarrow> \<exists>d < n. (i + d) mod n = (j :: nat)"
  by (rule exI [of _ "(j + n - i) mod n"]) (simp add: mod_add_right_eq)

text \<open>The first slot of a probe path that satisfies \<open>S\<close>.\<close>

lemma first_stop:
  assumes "i < n" and "j < n" and "S j"
  obtains d where "d < (n :: nat)" and "S ((i + d) mod n)" and "\<And>k. k < d \<Longrightarrow> \<not> S ((i + k) mod n)"
proof -
  obtain d where d: "d < n" "(i + d) mod n = j" using reach [OF assms(1,2)] by blast
  define m where "m = (LEAST d. S ((i + d) mod n))"
  have "S ((i + m) mod n)" unfolding m_def by (rule LeastI [of _ d]) (simp add: d assms(3))
  moreover have "m \<le> d" unfolding m_def by (rule Least_le) (simp add: d assms(3))
  moreover have "\<not> S ((i + k) mod n)" if "k < m" for k
    using not_less_Least [of k "\<lambda>d. S ((i + d) mod n)"] that by (simp add: m_def)
  ultimately show thesis using d(1) by (intro that [of m]) simp_all
qed

section \<open>Runs of the loops\<close>

lemma probe_run:
  assumes sz: "table_size (length table)"
    and skip: "\<And>k. k < d \<Longrightarrow> table ! ((i + k) mod length table) \<noteq> 0 \<and>
      (\<exists>b. blob_get heap (table ! ((i + k) mod length table) - 1) = Some b \<and> b \<noteq> bs)"
    and r: "r = probe heap table bs ((i + d) mod length table)"
  shows "probe heap table bs (i mod length table) = r"
proof -
  have "probe heap table bs ((i + (d - m)) mod length table) = r" if "m \<le> d" for m
    using that
  proof (induction m)
    case (Suc m)
    let ?k = "d - Suc m"
    have "Suc ?k = d - m" using Suc.prems by simp
    then have "probe heap table bs (next_slot table ((i + ?k) mod length table)) = r"
      using Suc.IH Suc.prems slot_steps(2) [OF sz, of i ?k] by simp
    moreover obtain b where "table ! ((i + ?k) mod length table) \<noteq> 0"
      "blob_get heap (table ! ((i + ?k) mod length table) - 1) = Some b" "b \<noteq> bs"
      using skip [of ?k] Suc.prems by auto
    ultimately show ?case by (subst probe.simps) simp
  qed (simp add: r)
  from this [of d] show ?thesis by simp
qed

lemma free_slot_run:
  assumes sz: "table_size (length table)" and skip: "\<And>k. k < d \<Longrightarrow> table ! ((i + k) mod length table) \<noteq> 0"
    and stop: "table ! ((i + d) mod length table) = 0"
  shows "free_slot table (i mod length table) = Some ((i + d) mod length table)"
proof -
  have "free_slot table ((i + (d - m)) mod length table) = Some ((i + d) mod length table)" if "m \<le> d" for m
    using that
  proof (induction m)
    case 0
    then show ?case using stop by (subst free_slot.simps) simp
  next
    case (Suc m)
    let ?k = "d - Suc m"
    have "Suc ?k = d - m" using Suc.prems by simp
    then have "free_slot table (next_slot table ((i + ?k) mod length table)) = Some ((i + d) mod length table)"
      using Suc.IH Suc.prems slot_steps(2) [OF sz, of i ?k] by simp
    moreover have "table ! ((i + ?k) mod length table) \<noteq> 0" using skip [of ?k] Suc.prems by simp
    ultimately show ?case by (subst free_slot.simps) simp
  qed
  from this [of d] show ?thesis by simp
qed

section \<open>What a table holds\<close>

definition terms :: "interner \<Rightarrow> bytes list" where
  "terms t = blobs (in_heap t)"

abbreviation entries :: "u32 list \<Rightarrow> u32 multiset" where
  "entries table \<equiv> mset (filter (\<lambda>e. e \<noteq> 0) table)"

text \<open>Every id once, and the load factor: what a loader checks.\<close>

definition table_covers :: "nat \<Rightarrow> u32 list \<Rightarrow> bool" where
  "table_covers n table \<longleftrightarrow> table_size (length table) \<and> n * LOAD_DEN \<le> length table * LOAD_NUM \<and>
     entries table = mset (map (\<lambda>i. of_nat (Suc i)) [0..<n])"

text \<open>Every entry can be reached from its string's home slot.\<close>

definition placed :: "(bytes \<Rightarrow> u64) \<Rightarrow> bytes list \<Rightarrow> u32 list \<Rightarrow> bool" where
  "placed h bl table \<longleftrightarrow> (\<forall>j < length table. table ! j \<noteq> 0 \<longrightarrow>
     (\<exists>d. (home_slot h table (bl ! unat (table ! j - 1)) + d) mod length table = j \<and>
        (\<forall>k < d. table ! ((home_slot h table (bl ! unat (table ! j - 1)) + k) mod length table) \<noteq> 0)))"

definition interner_ok :: "interner \<Rightarrow> bool" where
  "interner_ok t \<longleftrightarrow> blob_inv (in_heap t) \<and> (\<forall>b \<in> set (terms t). utf8_valid b) \<and>
     unat (in_len t) = length (terms t) \<and> table_covers (length (terms t)) (in_table t)"

definition interner_inv :: "(bytes \<Rightarrow> u64) \<Rightarrow> interner \<Rightarrow> bool" where
  "interner_inv h t \<longleftrightarrow> interner_ok t \<and> distinct (terms t) \<and> placed h (terms t) (in_table t)"

lemma of_nat_Suc_nz: "i < 4294967295 \<Longrightarrow> (of_nat (Suc i) :: u32) \<noteq> 0"
proof -
  assume "i < 4294967295"
  then have "unat (of_nat (Suc i) :: u32) = Suc i" by (intro unat_of_nat_u32) simp
  then show ?thesis by (metis nat.distinct(1) unat_0)
qed

lemma covers_facts:
  assumes c: "table_covers n table" and n: "n \<le> 4294967295"
  shows "table_size (length table)" and "j < length table \<Longrightarrow> table ! j \<noteq> 0 \<Longrightarrow> unat (table ! j - 1) < n"
    and "i < n \<Longrightarrow> \<exists>j < length table. table ! j \<noteq> 0 \<and> unat (table ! j - 1) = i"
    and "\<exists>j < length table. table ! j = 0" and "length (filter (\<lambda>e. e \<noteq> 0) table) = n"
proof -
  show sz: "table_size (length table)" using c by (simp add: table_covers_def)
  have m: "entries table = mset (map (\<lambda>i. of_nat (Suc i)) [0..<n])" using c by (simp only: table_covers_def)
  then have set: "{e \<in> set table. e \<noteq> 0} = (\<lambda>i. of_nat (Suc i)) ` {..<n}"
    using mset_eq_setD [OF m] by (simp only: set_filter set_map atLeast_upt)
  have dec: "unat ((of_nat (Suc i) :: u32) - 1) = i" if "i < n" for i
    using that n by (simp add: unat_of_nat)
  show "j < length table \<Longrightarrow> table ! j \<noteq> 0 \<Longrightarrow> unat (table ! j - 1) < n"
  proof -
    assume "j < length table" "table ! j \<noteq> 0"
    then have "table ! j \<in> (\<lambda>i. of_nat (Suc i)) ` {..<n}" using set by auto
    then obtain i where "i < n" "table ! j = of_nat (Suc i)" by blast
    then show ?thesis using dec [of i] by simp
  qed
  have nz: "(of_nat (Suc i) :: u32) \<noteq> 0" if "i < n" for i
    using that n by (intro of_nat_Suc_nz) simp
  show "i < n \<Longrightarrow> \<exists>j < length table. table ! j \<noteq> 0 \<and> unat (table ! j - 1) = i"
  proof -
    assume i: "i < n"
    then have "of_nat (Suc i) \<in> set table" using set by blast
    then obtain j where "j < length table" "table ! j = of_nat (Suc i)" by (metis in_set_conv_nth)
    with i nz dec show ?thesis by (intro exI [of _ j]) simp
  qed
  show len: "length (filter (\<lambda>e. e \<noteq> 0) table) = n" using mset_eq_length [OF m] by simp
  have "n < length table"
    using c table_size_ge [OF sz] by (simp add: table_covers_def LOAD_NUM_def LOAD_DEN_def)
  then have "filter (\<lambda>e. e \<noteq> 0) table \<noteq> table" using len by auto
  then show "\<exists>j < length table. table ! j = 0" by (auto simp: filter_id_conv in_set_conv_nth)
qed

lemma ok_bound: "interner_ok t \<Longrightarrow> length (terms t) \<le> 4294967295"
  by (simp add: interner_ok_def blob_inv_def terms_def)

lemma ok_get:
  "interner_ok t \<Longrightarrow> j < length (in_table t) \<Longrightarrow> in_table t ! j \<noteq> 0 \<Longrightarrow>
     blob_get (in_heap t) (in_table t ! j - 1) = Some (terms t ! unat (in_table t ! j - 1))"
  using covers_facts(2) [OF _ ok_bound, of t "in_table t" j]
  by (simp add: interner_ok_def terms_def blob_get_blobs)

text \<open>A probe stops at the first slot that is empty or holds the string, and there is one.\<close>

lemma probe_spec:
  assumes ok: "interner_ok t" and i: "i < length (in_table t)"
  obtains d where "\<And>k. k < d \<Longrightarrow> in_table t ! ((i + k) mod length (in_table t)) \<noteq> 0 \<and>
      terms t ! unat (in_table t ! ((i + k) mod length (in_table t)) - 1) \<noteq> bs"
    and "(in_table t ! ((i + d) mod length (in_table t)) = 0 \<and>
        probe (in_heap t) (in_table t) bs i = Some (Inl ((i + d) mod length (in_table t)))) \<or>
      (in_table t ! ((i + d) mod length (in_table t)) \<noteq> 0 \<and>
        terms t ! unat (in_table t ! ((i + d) mod length (in_table t)) - 1) = bs \<and>
        probe (in_heap t) (in_table t) bs i = Some (Inr (in_table t ! ((i + d) mod length (in_table t)) - 1)))"
proof -
  let ?n = "length (in_table t)" and ?S = "\<lambda>j. in_table t ! j = 0 \<or> terms t ! unat (in_table t ! j - 1) = bs"
  have c: "table_covers (length (terms t)) (in_table t)" using ok by (simp add: interner_ok_def)
  note cf = covers_facts [OF c ok_bound [OF ok]]
  obtain j where j: "j < ?n" "?S j" using cf(4) by blast
  obtain d where d: "?S ((i + d) mod ?n)" and before: "\<And>k. k < d \<Longrightarrow> \<not> ?S ((i + k) mod ?n)"
    using first_stop [where S = ?S, OF i j] by blast
  have lt: "(i + k) mod ?n < ?n" for k using i by (intro mod_less_divisor) linarith
  have run: "probe (in_heap t) (in_table t) bs (i mod ?n) = probe (in_heap t) (in_table t) bs ((i + d) mod ?n)"
    by (rule probe_run [OF cf(1) _ refl]) (use before ok_get [OF ok lt] in auto)
  have "probe (in_heap t) (in_table t) bs ((i + d) mod ?n) =
      (if in_table t ! ((i + d) mod ?n) = 0 then Some (Inl ((i + d) mod ?n))
       else Some (Inr (in_table t ! ((i + d) mod ?n) - 1)))"
    using d ok_get [OF ok lt, of d] by (subst probe.simps) auto
  with run i d before show thesis by (intro that [of d]) (auto split: if_splits)
qed

lemma placed_found:
  assumes ok: "interner_ok t" and placed: "placed h (terms t) (in_table t)" and x: "x < length (terms t)"
    and i: "i = home_slot h (in_table t) (terms t ! x)"
    and skip: "\<And>k. k < d \<Longrightarrow> in_table t ! ((i + k) mod length (in_table t)) \<noteq> 0 \<and>
      terms t ! unat (in_table t ! ((i + k) mod length (in_table t)) - 1) \<noteq> terms t ! x"
  shows "in_table t ! ((i + d) mod length (in_table t)) \<noteq> 0"
proof
  let ?T = "in_table t"
  assume zero: "?T ! ((i + d) mod length ?T) = 0"
  have c: "table_covers (length (terms t)) ?T" using ok by (simp add: interner_ok_def)
  obtain j where j: "j < length ?T" "?T ! j \<noteq> 0" "unat (?T ! j - 1) = x"
    using covers_facts(3) [OF c ok_bound [OF ok] x] by blast
  with placed obtain e where e: "(i + e) mod length ?T = j" and path: "\<forall>k < e. ?T ! ((i + k) mod length ?T) \<noteq> 0"
    unfolding placed_def i by blast
  show False
  proof (cases "d \<le> e")
    case True
    then show ?thesis using zero path e j(2) by (cases "d = e") auto
  next
    case False
    then show ?thesis using skip [of e] e j(3) by simp
  qed
qed

text \<open>The outcome of a probe from a string's home slot.\<close>

lemma probe_home [consumes 1, case_names vacant found]:
  assumes ok: "interner_ok t"
  obtains (vacant) d where
      "probe (in_heap t) (in_table t) bs (home_slot h (in_table t) bs) =
        Some (Inl ((home_slot h (in_table t) bs + d) mod length (in_table t)))"
      "in_table t ! ((home_slot h (in_table t) bs + d) mod length (in_table t)) = 0"
      "\<And>k. k < d \<Longrightarrow> in_table t ! ((home_slot h (in_table t) bs + k) mod length (in_table t)) \<noteq> 0"
      "placed h (terms t) (in_table t) \<Longrightarrow> bs \<notin> set (terms t)"
  | (found) tid where "probe (in_heap t) (in_table t) bs (home_slot h (in_table t) bs) = Some (Inr tid)"
      "unat tid < length (terms t)" "terms t ! unat tid = bs"
proof -
  let ?i = "home_slot h (in_table t) bs" and ?T = "in_table t"
  have c: "table_covers (length (terms t)) ?T" using ok by (simp add: interner_ok_def)
  note cf = covers_facts [OF c ok_bound [OF ok]]
  have i: "?i < length ?T" by (rule slot_steps(3) [OF cf(1)])
  obtain d where skip: "\<And>k. k < d \<Longrightarrow> ?T ! ((?i + k) mod length ?T) \<noteq> 0 \<and>
      terms t ! unat (?T ! ((?i + k) mod length ?T) - 1) \<noteq> bs"
    and stop: "(?T ! ((?i + d) mod length ?T) = 0 \<and>
        probe (in_heap t) ?T bs ?i = Some (Inl ((?i + d) mod length ?T))) \<or>
      (?T ! ((?i + d) mod length ?T) \<noteq> 0 \<and> terms t ! unat (?T ! ((?i + d) mod length ?T) - 1) = bs \<and>
        probe (in_heap t) ?T bs ?i = Some (Inr (?T ! ((?i + d) mod length ?T) - 1)))"
    using probe_spec [OF ok i, of bs] by blast
  have q: "(?i + d) mod length ?T < length ?T" using i by (intro mod_less_divisor) linarith
  from stop show thesis
  proof (elim disjE conjE)
    assume z: "?T ! ((?i + d) mod length ?T) = 0" and p: "probe (in_heap t) ?T bs ?i = Some (Inl ((?i + d) mod length ?T))"
    have "bs \<notin> set (terms t)" if placed: "placed h (terms t) ?T"
    proof
      assume "bs \<in> set (terms t)"
      then obtain x where x: "x < length (terms t)" "terms t ! x = bs" by (auto simp: in_set_conv_nth)
      have "?T ! ((?i + d) mod length ?T) \<noteq> 0"
        by (rule placed_found [OF ok placed x(1), where i = ?i]) (use x(2) skip in auto)
      with z show False by simp
    qed
    with p z skip show thesis by (intro vacant) blast+
  next
    assume "?T ! ((?i + d) mod length ?T) \<noteq> 0" "terms t ! unat (?T ! ((?i + d) mod length ?T) - 1) = bs"
      "probe (in_heap t) ?T bs ?i = Some (Inr (?T ! ((?i + d) mod length ?T) - 1))"
    with cf(2) [OF q] show thesis by (intro found) blast+
  qed
qed

section \<open>Filling a slot\<close>

lemma entries_fill:
  "j < length table \<Longrightarrow> table ! j = 0 \<Longrightarrow> e \<noteq> 0 \<Longrightarrow> entries (table[j := e]) = add_mset e (entries table)"
  by (simp add: mset_update nth_mem_mset)

lemma home_update [simp]: "home_slot h (table[j := e]) bs = home_slot h table bs"
  by (simp add: home_slot_def)

lemma placed_fill:
  assumes placed: "placed h bl table" and j: "j = (home_slot h table (bl ! unat (e - 1)) + d) mod length table"
    and path: "\<And>k. k < d \<Longrightarrow> table ! ((home_slot h table (bl ! unat (e - 1)) + k) mod length table) \<noteq> 0"
    and e: "e \<noteq> 0" "j < length table"
  shows "placed h bl (table[j := e])"
  unfolding placed_def
proof (intro allI impI)
  fix i assume i: "i < length (table[j := e])" "table[j := e] ! i \<noteq> 0"
  have keep: "table ! q \<noteq> 0 \<Longrightarrow> table[j := e] ! q \<noteq> 0" for q
    using e by (cases "q = j") auto
  show "\<exists>d. (home_slot h (table[j := e]) (bl ! unat (table[j := e] ! i - 1)) + d) mod length (table[j := e]) = i \<and>
      (\<forall>k < d. table[j := e] ! ((home_slot h (table[j := e]) (bl ! unat (table[j := e] ! i - 1)) + k) mod length (table[j := e])) \<noteq> 0)"
  proof (cases "i = j")
    case True
    with j path e keep show ?thesis by (intro exI [of _ d]) simp
  next
    case False
    with i placed obtain c where "(home_slot h table (bl ! unat (table ! i - 1)) + c) mod length table = i"
      "\<forall>k < c. table ! ((home_slot h table (bl ! unat (table ! i - 1)) + k) mod length table) \<noteq> 0"
      unfolding placed_def by force
    with False keep show ?thesis by (intro exI [of _ c]) simp
  qed
qed

lemma free_slot_spec:
  assumes sz: "table_size (length table)" and i: "i < length table" and j: "j < length table" "table ! j = 0"
  obtains d where "free_slot table i = Some ((i + d) mod length table)" and "table ! ((i + d) mod length table) = 0"
    and "\<And>k. k < d \<Longrightarrow> table ! ((i + k) mod length table) \<noteq> 0"
proof -
  obtain d where d: "table ! ((i + d) mod length table) = 0" and before: "\<And>k. k < d \<Longrightarrow> table ! ((i + k) mod length table) \<noteq> 0"
    using first_stop [where S = "\<lambda>j. table ! j = 0", OF i j] by blast
  from free_slot_run [OF sz before d] i d before show thesis by (intro that [of d]) simp_all
qed

lemma reinsert_spec:
  assumes get: "\<forall>e \<in> set es. e \<noteq> 0 \<and> blob_get heap (e - 1) = Some (bl ! unat (e - 1))"
    and sz: "table_size (length table)" and room: "size (entries table) + length es < length table"
    and placed: "placed h bl table"
  shows "\<exists>table'. reinsert h heap es table = Some table' \<and> length table' = length table \<and>
    entries table' = entries table + mset es \<and> placed h bl table'"
  using assms
proof (induction es arbitrary: table)
  case (Cons e es)
  let ?i = "home_slot h table (bl ! unat (e - 1))"
  have "length (filter (\<lambda>e. e \<noteq> 0) table) < length table" using Cons.prems(3) by (simp del: mset_filter)
  then have "filter (\<lambda>e. e \<noteq> 0) table \<noteq> table" by auto
  then obtain j where j: "j < length table" "table ! j = 0" by (auto simp: filter_id_conv in_set_conv_nth)
  obtain d where slot: "free_slot table ?i = Some ((?i + d) mod length table)" "table ! ((?i + d) mod length table) = 0"
    and path: "\<And>k. k < d \<Longrightarrow> table ! ((?i + k) mod length table) \<noteq> 0"
    using free_slot_spec [OF Cons.prems(2) slot_steps(3) [OF Cons.prems(2)] j] by blast
  let ?q = "(?i + d) mod length table"
  have q: "?q < length table" using j by (intro mod_less_divisor) linarith
  have e: "e \<noteq> 0" "blob_get heap (e - 1) = Some (bl ! unat (e - 1))" using Cons.prems(1) by simp_all
  have fill: "entries (table[?q := e]) = add_mset e (entries table)" by (rule entries_fill [OF q slot(2) e(1)])
  have "\<exists>table'. reinsert h heap es (table[?q := e]) = Some table' \<and> length table' = length (table[?q := e]) \<and>
    entries table' = entries (table[?q := e]) + mset es \<and> placed h bl table'"
  proof (rule Cons.IH)
    show "placed h bl (table[?q := e])" by (rule placed_fill [OF Cons.prems(4) refl path e(1) q])
    show "size (entries (table[?q := e])) + length es < length (table[?q := e])"
      unfolding fill using Cons.prems(3) by simp
  qed (use Cons.prems in simp_all)
  then show ?case using slot(1) e by (simp add: fill del: mset_filter)
qed simp

lemma rehash_spec:
  assumes ok: "interner_ok t"
  shows "\<exists>t'. rehash h t = Some t' \<and> t' = t\<lparr>in_table := in_table t'\<rparr> \<and> length (in_table t') = length (in_table t) * 2 \<and>
    interner_ok t' \<and> placed h (terms t') (in_table t')"
proof -
  let ?es = "filter (\<lambda>e. e \<noteq> 0) (in_table t)" and ?empty = "replicate (length (in_table t) * 2) 0 :: u32 list"
  have c: "table_covers (length (terms t)) (in_table t)" using ok by (simp add: interner_ok_def)
  note cf = covers_facts [OF c ok_bound [OF ok]]
  have get: "\<forall>e \<in> set ?es. e \<noteq> 0 \<and> blob_get (in_heap t) (e - 1) = Some (terms t ! unat (e - 1))"
  proof
    fix e assume "e \<in> set ?es"
    then obtain j where "j < length (in_table t)" "in_table t ! j = e" "e \<noteq> 0" by (auto simp: in_set_conv_nth)
    with ok_get [OF ok, of j] show "e \<noteq> 0 \<and> blob_get (in_heap t) (e - 1) = Some (terms t ! unat (e - 1))" by simp
  qed
  have sz: "table_size (length ?empty)"
  proof -
    obtain k where "4 \<le> k" "length (in_table t) = 2 ^ k" using cf(1) by (auto simp: table_size_def)
    then show ?thesis unfolding table_size_def by (intro exI [of _ "Suc k"]) simp
  qed
  have none: "entries ?empty = {#}" by simp
  have "length ?es \<le> length (in_table t)" by (rule length_filter_le)
  then have room: "size (entries ?empty) + length ?es < length ?empty"
    unfolding none using table_size_ge [OF cf(1)] by (simp only: length_replicate size_empty)
  have "placed h (terms t) ?empty" by (simp add: placed_def)
  from reinsert_spec [OF get sz room this] obtain table' where
    t': "reinsert h (in_heap t) ?es ?empty = Some table'" "length table' = length ?empty"
      "entries table' = entries ?empty + mset ?es" "placed h (terms t) table'" by blast
  have "table_covers (length (terms t)) table'"
    using c sz t'(2,3) none by (simp add: table_covers_def LOAD_DEN_def LOAD_NUM_def)
  then have "interner_ok (t\<lparr>in_table := table'\<rparr>)"
    using ok by (simp add: interner_ok_def terms_def)
  moreover have "placed h (terms (t\<lparr>in_table := table'\<rparr>)) table'" using t'(4) by (simp add: terms_def)
  ultimately show ?thesis using t'(1,2) by (intro exI [of _ "t\<lparr>in_table := table'\<rparr>"]) (simp add: rehash_def)
qed

section \<open>Interning\<close>

lemma intern_store:
  assumes ok: "interner_ok t" and bs: "utf8_valid bs" "length bs < 2 ^ 32"
    and room: "(length (terms t) + 1) * LOAD_DEN \<le> length (in_table t) * LOAD_NUM"
    and push: "blob_push bs (in_heap t) = Inr (tid, heap)"
    and j: "j = (home_slot h (in_table t) bs + d) mod length (in_table t)" "in_table t ! j = 0"
    and path: "\<And>k. k < d \<Longrightarrow> in_table t ! ((home_slot h (in_table t) bs + k) mod length (in_table t)) \<noteq> 0"
  defines "t' \<equiv> t\<lparr>in_heap := heap, in_table := (in_table t)[j := tid + 1], in_len := in_len t + 1\<rparr>"
  shows "interner_ok t'" and "terms t' = terms t @ [bs]" and "unat tid = length (terms t)"
    and "placed h (terms t) (in_table t) \<Longrightarrow> placed h (terms t') (in_table t')"
proof -
  let ?T = "in_table t" and ?n = "length (terms t)"
  have binv: "blob_inv (in_heap t)" and c: "table_covers ?n ?T" and len: "unat (in_len t) = ?n"
    using ok by (simp_all add: interner_ok_def)
  note cf = covers_facts [OF c ok_bound [OF ok]]
  note pushed = heap.push_ok [OF binv bs(2) push]
  have n: "?n < 4294967295"
    using heap.pushed_id_not_none [OF binv bs(2) push] pushed by (simp add: terms_def)
  show terms: "terms t' = terms t @ [bs]" and tid: "unat tid = length (terms t)"
    using pushed by (simp_all add: terms_def t'_def)
  have tid1: "tid + 1 = of_nat (Suc ?n)" unfolding tid [symmetric] by simp
  have nz: "tid + 1 \<noteq> 0" unfolding tid1 by (rule of_nat_Suc_nz [OF n])
  have jn: "j < length ?T" unfolding j(1) using table_size_ge [OF cf(1)] by (intro mod_less_divisor) linarith
  have "entries (?T[j := tid + 1]) = add_mset (tid + 1) (entries ?T)" by (rule entries_fill [OF jn j(2) nz])
  then have "entries (?T[j := tid + 1]) = mset (map (\<lambda>i. of_nat (Suc i)) [0..<Suc ?n])"
    using c by (simp add: table_covers_def tid1 del: mset_filter)
  then have "table_covers (Suc ?n) (?T[j := tid + 1])"
    using c room by (simp add: table_covers_def del: mset_filter)
  moreover have "unat (in_len t + 1) = Suc ?n"
    using len n by (simp add: unat_word_ariths)
  moreover have "blob_inv heap" using pushed by simp
  ultimately show "interner_ok t'"
    using ok bs(1) unfolding interner_ok_def terms by (simp add: t'_def)
  have new: "(terms t @ [bs]) ! unat (tid + 1 - 1) = bs" using tid by simp
  assume "placed h (terms t) ?T"
  then have "placed h (terms t @ [bs]) ?T" using cf(2) by (simp add: placed_def nth_append)
  then have "placed h (terms t @ [bs]) (?T[j := tid + 1])"
    by (rule placed_fill [where d = d, OF _ _ _ nz jn]) (use new j(1) path in auto)
  then show "placed h (terms t') (in_table t')" unfolding terms by (simp add: t'_def)
qed

text \<open>
  The outcome of \<open>intern\<close>. Termination and resolution need the loader's guarantees only; that a
  string already stored is found needs placement (which the growth step restores). The table
  may double even when nothing is stored.
\<close>

definition grows :: "interner \<Rightarrow> bool" where
  "grows t \<longleftrightarrow> length (in_table t) * LOAD_NUM < (unat (in_len t) + 1) * LOAD_DEN"

lemma grow_step:
  assumes ok: "interner_ok t"
  obtains u where "(if grows t then rehash h t else Some t) = Some u" and "interner_ok u" and "in_heap u = in_heap t"
    and "length (in_table u) = (if grows t then 2 else 1) * length (in_table t)"
    and "(length (terms u) + 1) * LOAD_DEN \<le> length (in_table u) * LOAD_NUM"
    and "grows t \<or> placed h (terms t) (in_table t) \<Longrightarrow> placed h (terms u) (in_table u)"
proof (cases "grows t")
  case True
  obtain u where u: "rehash h t = Some u" "u = t\<lparr>in_table := in_table u\<rparr>"
    "length (in_table u) = length (in_table t) * 2" "interner_ok u" "placed h (terms u) (in_table u)"
    using rehash_spec [OF ok] by blast
  have heap: "in_heap u = in_heap t" by (subst u(2)) simp
  have c: "table_covers (length (terms t)) (in_table t)" using ok by (simp add: interner_ok_def)
  then have "16 \<le> length (in_table t)" using table_size_ge by (simp add: table_covers_def)
  then have "(length (terms u) + 1) * LOAD_DEN \<le> length (in_table u) * LOAD_NUM"
    using c u(3) heap by (simp add: terms_def table_covers_def LOAD_DEN_def LOAD_NUM_def)
  with True u heap show thesis by (intro that [of u]) simp_all
next
  case False
  have "unat (in_len t) = length (terms t)" using ok by (simp add: interner_ok_def)
  with False ok show thesis by (intro that [of t]) (simp_all add: grows_def)
qed

lemma intern_spec:
  assumes ok: "interner_ok t" and bs: "utf8_valid bs" "length bs < 2 ^ 32"
  shows "\<exists>r t'. intern h bs t = Some (r, t') \<and> interner_ok t' \<and>
    (placed h (terms t) (in_table t) \<longrightarrow> placed h (terms t') (in_table t')) \<and>
    (case r of
       Inr tid \<Rightarrow> (terms t' = terms t \<or> terms t' = terms t @ [bs] \<and> \<not> isl (blob_push bs (in_heap t))) \<and> unat tid < length (terms t') \<and> terms t' ! unat tid = bs
     | Inl e \<Rightarrow> terms t' = terms t \<and> blob_push bs (in_heap t) = Inl e) \<and>
    (placed h (terms t) (in_table t) \<longrightarrow> (bs \<in> set (terms t) \<longrightarrow> \<not> isl r \<and> terms t' = terms t) \<and>
       (bs \<notin> set (terms t) \<longrightarrow> isl r \<or> terms t' = terms t @ [bs])) \<and>
    (isl r \<longrightarrow> length (in_table t') = (if grows t then 2 else 1) * length (in_table t))"
proof -
  obtain u where grow: "(if grows t then rehash h t else Some t) = Some u" and oku: "interner_ok u" and hu: "in_heap u = in_heap t"
    and lu: "length (in_table u) = (if grows t then 2 else 1) * length (in_table t)"
    and room: "(length (terms u) + 1) * LOAD_DEN \<le> length (in_table u) * LOAD_NUM"
    and pu: "grows t \<or> placed h (terms t) (in_table t) \<Longrightarrow> placed h (terms u) (in_table u)"
    using grow_step [OF ok] by blast
  have tu: "terms u = terms t" by (simp add: terms_def hu)
  have step: "intern h bs t = (case probe (in_heap u) (in_table u) bs (home_slot h (in_table u) bs) of
      None \<Rightarrow> None
    | Some (Inr tid) \<Rightarrow> Some (Inr tid, u)
    | Some (Inl j) \<Rightarrow> (case blob_push bs (in_heap u) of Inl e \<Rightarrow> Some (Inl e, u)
        | Inr (tid, heap) \<Rightarrow> Some (Inr tid, u\<lparr>in_heap := heap, in_table := (in_table u)[j := tid + 1], in_len := in_len u + 1\<rparr>)))"
    unfolding intern_def grows_def [symmetric] grow by (auto split: option.splits sum.splits prod.splits)
  from oku show ?thesis
  proof (cases rule: probe_home [where h = h and bs = bs])
    case (found tid)
    then have "bs \<in> set (terms t)" using nth_mem [of "unat tid" "terms u"] by (simp add: tu)
    with found pu oku show ?thesis unfolding step found(1) by (simp add: tu)
  next
    case (vacant d)
    let ?j = "(home_slot h (in_table u) bs + d) mod length (in_table u)"
    show ?thesis
    proof (cases "blob_push bs (in_heap u)")
      case (Inl e)
      with vacant(4) pu oku lu show ?thesis unfolding step vacant(1) by (simp add: tu hu)
    next
      case (Inr p)
      then obtain tid heap where push: "blob_push bs (in_heap u) = Inr (tid, heap)" by (cases p) auto
      let ?t' = "u\<lparr>in_heap := heap, in_table := (in_table u)[?j := tid + 1], in_len := in_len u + 1\<rparr>"
      note st = intern_store [OF oku bs room push refl vacant(2,3)]
      have "intern h bs t = Some (Inr tid, ?t')" unfolding step vacant(1) push by simp
      with st vacant(4) pu show ?thesis
        using push by (intro exI [of _ "Inr tid"] exI [of _ ?t']) (simp add: tu hu)
    qed
  qed
qed

text \<open>A lookup always ends, and what it finds is right; that it finds every string needs placement.\<close>

lemma lookup_spec:
  assumes ok: "interner_ok t"
  shows "\<exists>r. interner_lookup h bs t = Some r \<and>
    (case r of None \<Rightarrow> placed h (terms t) (in_table t) \<longrightarrow> bs \<notin> set (terms t)
     | Some tid \<Rightarrow> unat tid < length (terms t) \<and> terms t ! unat tid = bs)"
  using ok by (cases rule: probe_home [where h = h and bs = bs]) (simp_all add: interner_lookup_def)

lemma resolve_spec:
  "interner_ok t \<Longrightarrow> interner_resolve t tid = (if unat tid < length (terms t) then Some (terms t ! unat tid) else None)"
  by (auto simp: interner_resolve_def interner_ok_def terms_def blob_get_blobs)

lemma interner_new_inv: "interner_inv h (interner_new cfg)" "terms (interner_new cfg) = []"
proof -
  have "table_size 16" unfolding table_size_def by (intro exI [of _ 4]) simp
  then show "interner_inv h (interner_new cfg)" "terms (interner_new cfg) = []"
    by (simp_all add: interner_inv_def interner_ok_def interner_new_def terms_def table_covers_def placed_def
        INITIAL_SLOTS_def)
qed

end
