(* ===== verification/Interner_Theorems.thy ===== *)
theory Interner_Theorems
  imports Interner_Proofs
begin

text \<open>
  The interner's contract as a locale (\<open>term_dict\<close>: an injective, append-only dictionary with dense ids),
  its interpretation, the loaders, and the closed statements.
\<close>

section \<open>The contract\<close>

locale term_dict =
  fixes inv :: "'s \<Rightarrow> bool"
    and view :: "'s \<Rightarrow> bytes list"
    and ok_term :: "bytes \<Rightarrow> bool"
    and add :: "bytes \<Rightarrow> 's \<Rightarrow> ((arena_error + u32) \<times> 's) option"
    and find :: "bytes \<Rightarrow> 's \<Rightarrow> u32 option option"
    and name :: "'s \<Rightarrow> u32 \<Rightarrow> bytes option"
  assumes add_law: "inv s \<Longrightarrow> ok_term b \<Longrightarrow> \<exists>r s'. add b s = Some (r, s') \<and> inv s' \<and>
      (case r of
         Inr i \<Rightarrow> view s' = (if b \<in> set (view s) then view s else view s @ [b]) \<and> unat i < length (view s') \<and> view s' ! unat i = b
       | Inl e \<Rightarrow> view s' = view s \<and> b \<notin> set (view s))"
    and find_law: "inv s \<Longrightarrow> \<exists>r. find b s = Some r \<and>
      (case r of None \<Rightarrow> b \<notin> set (view s) | Some i \<Rightarrow> unat i < length (view s) \<and> view s ! unat i = b)"
    and name_law: "inv s \<Longrightarrow> name s i = (if unat i < length (view s) then Some (view s ! unat i) else None)"
    and injective: "inv s \<Longrightarrow> distinct (view s)"
begin

lemma found_iff:
  assumes "inv s"
  shows "find b s = Some (Some i) \<longleftrightarrow> unat i < length (view s) \<and> view s ! unat i = b"
proof
  show "find b s = Some (Some i) \<Longrightarrow> unat i < length (view s) \<and> view s ! unat i = b"
    using find_law [OF assms, of b] by auto
  assume i: "unat i < length (view s) \<and> view s ! unat i = b"
  then have "b \<in> set (view s)" by auto
  then obtain j where j: "find b s = Some (Some j)" "unat j < length (view s)" "view s ! unat j = b"
    using find_law [OF assms, of b] by (auto split: option.splits)
  then have "unat i = unat j" using i injective [OF assms] nth_eq_iff_index_eq by blast
  with j show "find b s = Some (Some i)" by (simp add: word_unat_eq_iff)
qed

lemma add_find:
  assumes "inv s" and "ok_term b" and "add b s = Some (Inr i, s')"
  shows "inv s'" and "find b s' = Some (Some i)" and "name s' i = Some b"
    and "find c s = Some (Some j) \<Longrightarrow> find c s' = Some (Some j)"
proof -
  obtain r u where "add b s = Some (r, u)" and law: "inv u"
      "case r of Inr i \<Rightarrow> view u = (if b \<in> set (view s) then view s else view s @ [b]) \<and> unat i < length (view u) \<and> view u ! unat i = b
       | Inl e \<Rightarrow> view u = view s \<and> b \<notin> set (view s)"
    using add_law [OF assms(1,2)] by blast
  with assms(3) have ru: "r = Inr i" "u = s'" by simp_all
  from law [unfolded ru sum.case] have inv': "inv s'" and v: "view s' = (if b \<in> set (view s) then view s else view s @ [b])"
    and i: "unat i < length (view s')" "view s' ! unat i = b" by blast+
  show "inv s'" by fact
  show "find b s' = Some (Some i)" "name s' i = Some b"
    using found_iff [OF inv'] name_law [OF inv'] i by simp_all
  assume "find c s = Some (Some j)"
  then have "unat j < length (view s) \<and> view s ! unat j = c" using found_iff [OF assms(1)] by simp
  then show "find c s' = Some (Some j)" using found_iff [OF inv'] v by (simp add: nth_append)
qed

lemma add_again:
  assumes "inv s" and "ok_term b" and "add b s = Some (Inr i, s')"
  shows "\<exists>s''. add b s' = Some (Inr i, s'') \<and> view s'' = view s'"
proof -
  note a = add_find [OF assms]
  from a(2) found_iff [OF a(1)] have i: "unat i < length (view s')" "view s' ! unat i = b" by auto
  then have mem: "b \<in> set (view s')" by auto
  obtain r s'' where r: "add b s' = Some (r, s'')" and inv'': "inv s''"
    and post: "case r of Inr j \<Rightarrow> view s'' = (if b \<in> set (view s') then view s' else view s' @ [b]) \<and>
        unat j < length (view s'') \<and> view s'' ! unat j = b
       | Inl e \<Rightarrow> view s'' = view s' \<and> b \<notin> set (view s')"
    using add_law [OF a(1) assms(2)] by blast
  with mem obtain j where j: "r = Inr j" "view s'' = view s'" "unat j < length (view s'')" "view s'' ! unat j = b"
    by (cases r) auto
  then have "unat i = unat j" using i injective [OF a(1)] nth_eq_iff_index_eq by metis
  with r j show ?thesis by (simp add: word_unat_eq_iff)
qed

lemma ids_separate:
  assumes "inv s" and "find b s = Some (Some i)" and "find c s = Some (Some j)"
  shows "i = j \<longleftrightarrow> b = c"
proof -
  have "unat i < length (view s) \<and> view s ! unat i = b" "unat j < length (view s) \<and> view s ! unat j = c"
    using assms found_iff [OF assms(1)] by blast+
  then show ?thesis
    using injective [OF assms(1)] by (metis nth_eq_iff_index_eq word_unat_eq_iff)
qed

end

interpretation dict: term_dict "interner_inv h" terms "\<lambda>b. utf8_valid b \<and> length b < 2 ^ 32" "intern h" "interner_lookup h" interner_resolve
  for h
proof
  fix s b
  assume inv: "interner_inv h s" and b: "utf8_valid b \<and> length b < 2 ^ 32"
  then have ok: "interner_ok s" and pl: "placed h (terms s) (in_table s)" and dist: "distinct (terms s)"
    by (simp_all add: interner_inv_def)
  from b have b': "utf8_valid b" "length b < 2 ^ 32" by simp_all
  obtain r s' where s: "intern h b s = Some (r, s')" "interner_ok s'" "placed h (terms s') (in_table s')"
    and post: "case r of
       Inr tid \<Rightarrow> (terms s' = terms s \<or> terms s' = terms s @ [b] \<and> \<not> isl (blob_push b (in_heap s))) \<and> unat tid < length (terms s') \<and> terms s' ! unat tid = b
     | Inl e \<Rightarrow> terms s' = terms s \<and> blob_push b (in_heap s) = Inl e"
    and exact: "b \<in> set (terms s) \<Longrightarrow> \<not> isl r \<and> terms s' = terms s" "b \<notin> set (terms s) \<Longrightarrow> isl r \<or> terms s' = terms s @ [b]"
    using intern_spec [OF ok b', of h] pl by blast
  have law: "case r of
       Inr i \<Rightarrow> terms s' = (if b \<in> set (terms s) then terms s else terms s @ [b]) \<and> unat i < length (terms s') \<and> terms s' ! unat i = b
     | Inl e \<Rightarrow> terms s' = terms s \<and> b \<notin> set (terms s)"
  proof (cases r)
    case (Inl e)
    show ?thesis using post exact unfolding Inl sum.case by auto
  next
    case (Inr i)
    then have "terms s' = (if b \<in> set (terms s) then terms s else terms s @ [b])" using exact by (cases "b \<in> set (terms s)") simp_all
    then show ?thesis using post unfolding Inr sum.case by blast
  qed
  have "distinct (terms s')"
    using law dist by (cases r; cases "b \<in> set (terms s)") (simp_all only: sum.case, auto)
  with s have "interner_inv h s'" by (simp add: interner_inv_def)
  with s(1) law show "\<exists>r s'. intern h b s = Some (r, s') \<and> interner_inv h s' \<and>
      (case r of
         Inr i \<Rightarrow> terms s' = (if b \<in> set (terms s) then terms s else terms s @ [b]) \<and> unat i < length (terms s') \<and> terms s' ! unat i = b
       | Inl e \<Rightarrow> terms s' = terms s \<and> b \<notin> set (terms s))" by blast
next
  fix s b i
  assume inv: "interner_inv h s"
  then have ok: "interner_ok s" "placed h (terms s) (in_table s)" by (simp_all add: interner_inv_def)
  show "\<exists>r. interner_lookup h b s = Some r \<and>
      (case r of None \<Rightarrow> b \<notin> set (terms s) | Some i \<Rightarrow> unat i < length (terms s) \<and> terms s ! unat i = b)"
    using lookup_spec [OF ok(1), of h b] ok(2) by (auto split: option.splits)
  show "interner_resolve s i = (if unat i < length (terms s) then Some (terms s ! unat i) else None)"
    by (rule resolve_spec [OF ok(1)])
  show "distinct (terms s)" using inv by (simp add: interner_inv_def)
qed

section \<open>The loaders\<close>

definition entry_ids :: "u32 list \<Rightarrow> nat list" where
  "entry_ids es = map (\<lambda>e. unat (e - 1)) (filter (\<lambda>e. e \<noteq> 0) es)"

lemma read_entries_iff:
  "read_entries table n i seen filled acc = Inr (es, k) \<longleftrightarrow>
     (let xs = map (\<lambda>j. u32_of_le (slice table (8 + j * 4) (8 + j * 4 + 4))) [i..<i + n] in
      distinct (entry_ids xs) \<and> (\<forall>x \<in> set (entry_ids xs). x < length seen \<and> \<not> seen ! x) \<and>
      es = acc @ xs \<and> k = filled + length (entry_ids xs))"
proof (induction n arbitrary: i seen filled acc)
  case 0
  show ?case by (auto simp: entry_ids_def)
next
  case (Suc n)
  define e where "e = u32_of_le (slice table (8 + i * 4) (8 + i * 4 + 4))"
  define xs where "xs = map (\<lambda>j. u32_of_le (slice table (8 + j * 4) (8 + j * 4 + 4))) [Suc i..<Suc i + n]"
  have all: "map (\<lambda>j. u32_of_le (slice table (8 + j * 4) (8 + j * 4 + 4))) [i..<i + Suc n] = e # xs"
    using upt_conv_Cons [of i "i + Suc n"] by (simp add: e_def xs_def del: upt_Suc)
  have step: "read_entries table (Suc n) i seen filled acc =
      (if e = 0 then read_entries table n (Suc i) seen filled (acc @ [0])
       else if length seen \<le> unat (e - 1) then Inl (Corrupt ''interner table entry out of bounds'')
       else if seen ! unat (e - 1) then Inl (Corrupt ''interner table stores an id twice'')
       else read_entries table n (Suc i) (seen[unat (e - 1) := True]) (Suc filled) (acc @ [e]))"
    by (simp add: TABLE_HEADER_def Let_def e_def)
  note IH = Suc.IH [of "Suc i", folded xs_def, unfolded Let_def]
  show ?case
  proof (cases "e = 0")
    case True
    then have "entry_ids (e # xs) = entry_ids xs" by (simp add: entry_ids_def)
    with True show ?thesis unfolding all step Let_def by (simp add: IH)
  next
    case False
    let ?t = "unat (e - 1)"
    have ids: "entry_ids (e # xs) = ?t # entry_ids xs" using False by (simp add: entry_ids_def)
    have "(\<forall>x \<in> set (entry_ids xs). x < length (seen[?t := True]) \<and> \<not> seen[?t := True] ! x) \<longleftrightarrow>
        ?t \<notin> set (entry_ids xs) \<and> (\<forall>x \<in> set (entry_ids xs). x < length seen \<and> \<not> seen ! x)" if "?t < length seen"
      using that by (auto simp: nth_list_update)
    with False show ?thesis unfolding all step Let_def ids by (auto simp: IH)
  qed
qed

text \<open>Distinct ids below \<open>n\<close>, \<open>n\<close> of them, are every id once.\<close>

lemma ids_cover:
  assumes "distinct (entry_ids es)" and "\<forall>x \<in> set (entry_ids es). x < n" and "length (entry_ids es) = n"
  shows "entries es = mset (map (\<lambda>i. of_nat (Suc i)) [0..<n])"
proof -
  have "set (entry_ids es) = {..<n}"
    using assms distinct_card [OF assms(1)] by (intro card_subset_eq) auto
  with assms(1) have "mset (entry_ids es) = mset [0..<n]"
    by (simp add: set_eq_iff_mset_eq_distinct [symmetric] atLeast0LessThan del: mset_upt)
  then have "image_mset (\<lambda>i. of_nat (Suc i) :: u32) (mset (entry_ids es)) = mset (map (\<lambda>i. of_nat (Suc i)) [0..<n])"
    by (simp only: mset_map)
  moreover have "map (\<lambda>i. of_nat (Suc i) :: u32) (entry_ids es) = filter (\<lambda>e. e \<noteq> 0) es"
    by (simp add: entry_ids_def o_def)
  ultimately show ?thesis by (metis mset_map)
qed

lemma cover_ids:
  assumes "entries es = mset (map (\<lambda>i. of_nat (Suc i)) [0..<n])" and "n \<le> 4294967295"
  shows "distinct (entry_ids es)" and "\<forall>x \<in> set (entry_ids es). x < n" and "length (entry_ids es) = n"
proof -
  have dec: "unat ((of_nat (Suc i) :: u32) - 1) = i" if "i < n" for i
    using that assms(2) by (simp add: unat_of_nat)
  have "mset (entry_ids es) = image_mset (\<lambda>e. unat (e - 1)) (entries es)"
    by (simp add: entry_ids_def)
  also have "\<dots> = mset (map (\<lambda>i. unat ((of_nat (Suc i) :: u32) - 1)) [0..<n])"
    unfolding assms(1) by (simp only: mset_map image_mset.comp [symmetric] multiset.map_comp o_def)
  also have "map (\<lambda>i. unat ((of_nat (Suc i) :: u32) - 1)) [0..<n] = [0..<n]"
    by (rule map_idI) (simp add: dec del: of_nat_Suc)
  finally have m: "mset (entry_ids es) = mset [0..<n]" .
  show "distinct (entry_ids es)" using mset_eq_imp_distinct_iff [OF m] by simp
  show "\<forall>x \<in> set (entry_ids es). x < n" using mset_eq_setD [OF m] by auto
  show "length (entry_ids es) = n" using mset_eq_length [OF m] by simp
qed

text \<open>What a loader accepts, exactly.\<close>

lemma blob_iter_terms:
  "blob_inv h \<Longrightarrow> (list_ex (\<lambda>(_, blob). case blob of Some b \<Rightarrow> \<not> utf8_valid b | None \<Rightarrow> False) (blob_iter h)) \<longleftrightarrow>
     (\<exists>b \<in> set (blobs h). \<not> utf8_valid b)"
proof -
  assume inv: "blob_inv h"
  have "blob_slice h (fst (bh_index h ! i)) (unat (snd (bh_index h ! i))) = Some (blobs h ! i)"
    if i: "i < length (bh_index h)" for i
  proof -
    have "i < 4294967296" using inv i by (simp add: blob_inv_def)
    then have "blob_get h (of_nat i) = Some (blobs h ! i)" using inv i by (simp add: blob_get_blobs)
    then show ?thesis using i \<open>i < 4294967296\<close> by (simp add: blob_get_def split: prod.splits)
  qed
  then have "blob_iter h = map (\<lambda>i. (of_nat i, Some (blobs h ! i))) [0..<length (bh_index h)]"
    unfolding blob_iter_def by (intro map_cong) (auto simp: case_prod_beta)
  then have "list_ex (\<lambda>(_, blob). case blob of Some b \<Rightarrow> \<not> utf8_valid b | None \<Rightarrow> False) (blob_iter h) \<longleftrightarrow>
      (\<exists>i < length (bh_index h). \<not> utf8_valid (blobs h ! i))"
    by (auto simp: list_ex_iff)
  then show ?thesis by (simp add: in_set_conv_nth Bex_def) (metis length_blobs)
qed

lemma from_parts_sound:
  assumes inv: "blob_inv heap" and load: "from_heap_and_table heap table = Inr t"
  shows "interner_ok t" and "in_heap t = heap" and "interner_dump_table t = table" and "length (in_table t) < 2 ^ 32"
proof -
  let ?s = "unat (u32_of_le (slice table 0 4))" and ?len = "u32_of_le (slice table 4 8)"
  obtain es k where utf: "\<not> list_ex (\<lambda>(_, blob). case blob of Some b \<Rightarrow> \<not> utf8_valid b | None \<Rightarrow> False) (blob_iter heap)"
    and h8: "8 \<le> length table" and s16: "16 \<le> ?s" and pow: "is_power_of_two ?s" and lt: "length table = 8 + ?s * 4"
    and len: "unat ?len = blob_count heap" and load': "unat ?len * 10 \<le> ?s * 7"
    and es: "read_entries table ?s 0 (replicate (blob_count heap) False) 0 [] = Inr (es, k)" and k: "k = unat ?len"
    and t: "t = \<lparr>in_heap = heap, in_table = es, in_len = ?len\<rparr>"
    using load
    by (auto simp: from_heap_and_table_def Let_def try_res_eq_Inr TABLE_HEADER_def INITIAL_SLOTS_def LOAD_NUM_def LOAD_DEN_def
        not_less split: if_split_asm)
  have xs: "es = read_u32s table 8 ?s" and d: "distinct (entry_ids es)"
    and b: "\<forall>x \<in> set (entry_ids es). x < blob_count heap" and k': "k = length (entry_ids es)"
    using es unfolding read_entries_iff Let_def by (auto simp: read_u32s_def)
  have terms: "terms t = blobs heap" by (simp add: t terms_def)
  have n: "length (blobs heap) = blob_count heap" by (simp add: blob_count_def)
  show "in_heap t = heap" by (simp add: t)
  have "table_size ?s"
  proof -
    obtain j where j: "?s = 2 ^ j" using pow by (auto simp: is_power_of_two_def)
    have "4 \<le> j"
    proof (rule ccontr)
      assume "\<not> 4 \<le> j"
      then have "(2::nat) ^ j < 2 ^ 4" by (intro power_strict_increasing) simp_all
      with j s16 show False by simp
    qed
    with j show ?thesis by (auto simp: table_size_def)
  qed
  moreover have "entries es = mset (map (\<lambda>i. of_nat (Suc i)) [0..<blob_count heap])"
    by (rule ids_cover) (use d b k k' len in auto)
  ultimately have "table_covers (blob_count heap) es"
    using load' len by (simp add: table_covers_def LOAD_NUM_def LOAD_DEN_def xs del: mset_filter)
  then have "table_covers (length (terms t)) (in_table t)" unfolding terms n by (simp add: t)
  moreover have "\<forall>b \<in> set (terms t). utf8_valid b"
    using utf blob_iter_terms [OF inv] by (simp add: terms)
  ultimately show "interner_ok t"
    using inv len by (simp add: interner_ok_def terms n) (simp add: t blob_count_def)
  show "length (in_table t) < 2 ^ 32" using u32_less [of "u32_of_le (slice table 0 4)"] by (simp add: t xs)
  have "table = slice table 0 4 @ slice table 4 8 @ slice table 8 (8 + ?s * 4)"
    using lt by (simp add: slice_join) (metis slice_all)
  moreover have "u32_le (u32_of_le (slice table 0 4)) = slice table 0 4" "u32_le ?len = slice table 4 8"
    using h8 by (simp_all add: word_bytes_of)
  moreover have "concat (map u32_le es) = slice table 8 (8 + ?s * 4)"
    unfolding xs by (rule write_back) (simp add: lt)
  moreover have "of_nat (length es) = u32_of_le (slice table 0 4)" by (simp add: xs)
  ultimately show "interner_dump_table t = table"
    unfolding interner_dump_table_def t interner.select_convs by (simp only:)
qed

lemma from_parts_complete:
  assumes ok: "interner_ok t" and slots: "length (in_table t) < 2 ^ 32" and heap: "blob_inv heap" "blobs heap = terms t"
  shows "from_heap_and_table heap (interner_dump_table t) = Inr (t\<lparr>in_heap := heap\<rparr>)"
proof -
  let ?T = "in_table t" and ?n = "length (terms t)" and ?b = "interner_dump_table t"
  have c: "table_covers ?n ?T" and len: "unat (in_len t) = ?n" and utf: "\<forall>b \<in> set (terms t). utf8_valid b"
    using ok by (simp_all add: interner_ok_def)
  note cf = covers_facts [OF c ok_bound [OF ok]]
  have n: "blob_count heap = ?n" using heap(2) by (metis blob_count_def length_blobs)
  obtain j where j: "4 \<le> j" "length ?T = 2 ^ j" using cf(1) by (auto simp: table_size_def)
  have "j < 64"
  proof (rule ccontr)
    assume "\<not> j < 64"
    then have "(2::nat) ^ 64 \<le> 2 ^ j" by (intro power_increasing) simp_all
    with j slots show False by simp
  qed
  then have pow: "is_power_of_two (length ?T)" unfolding j(2) by (rule is_power_of_two_pow)
  have lb: "length ?b = 8 + length ?T * 4" by (simp add: interner_dump_table_def concat_map_const_length)
  have parts: "slice ?b 0 4 = u32_le (of_nat (length ?T))" "slice ?b 4 8 = u32_le (in_len t)"
    by (simp_all add: interner_dump_table_def slice_append_right slice_append_left slice_whole_len)
  have rd: "read_u32s ?b 8 (length ?T) = ?T"
    using read_back(1) [of "length ?T" ?T 8 "u32_le (of_nat (length ?T)) @ u32_le (in_len t)" "[]"]
    by (simp add: interner_dump_table_def)
  have "entries ?T = mset (map (\<lambda>i. of_nat (Suc i)) [0..<?n])" using c by (simp only: table_covers_def)
  note ids = cover_ids [OF this ok_bound [OF ok]]
  have "read_entries ?b (length ?T) 0 (replicate ?n False) 0 [] = Inr (?T, ?n)"
    unfolding read_entries_iff Let_def using rd ids by (simp add: read_u32s_def)
  moreover have "\<not> list_ex (\<lambda>(_, blob). case blob of Some b \<Rightarrow> \<not> utf8_valid b | None \<Rightarrow> False) (blob_iter heap)"
    using blob_iter_terms [OF heap(1)] utf heap(2) by simp
  moreover have "\<not> length ?T < 16" using table_size_ge [OF cf(1)] by simp
  moreover have "\<not> length ?T * 7 < ?n * 10" using c by (simp add: table_covers_def LOAD_NUM_def LOAD_DEN_def not_less)
  ultimately show ?thesis
    using pow lb len n slots
    by (simp add: from_heap_and_table_def Let_def parts TABLE_HEADER_def INITIAL_SLOTS_def LOAD_NUM_def LOAD_DEN_def)
qed

section \<open>The interner as a dictionary\<close>

text \<open>
  C24. Interning a string always returns. It gives the id of the string in the dictionary: the old id if
  the string was there, the next dense id if it was not, and an error (with the dictionary unchanged)
  only when the string heap refuses the new string. The id then resolves to the string and is found again.
\<close>

theorem intern_correct:
  assumes "interner_inv h t" and "utf8_valid bs" and "length bs < 2 ^ 32"
  shows "\<exists>r t'. intern h bs t = Some (r, t') \<and> interner_inv h t' \<and>
    (case r of
       Inr tid \<Rightarrow> terms t' = (if bs \<in> set (terms t) then terms t else terms t @ [bs]) \<and>
         interner_resolve t' tid = Some bs \<and> interner_lookup h bs t' = Some (Some tid)
     | Inl e \<Rightarrow> terms t' = terms t \<and> bs \<notin> set (terms t) \<and> blob_push bs (in_heap t) = Inl e)"
proof -
  have b: "utf8_valid bs \<and> length bs < 2 ^ 32" using assms by simp
  obtain r t' where r: "intern h bs t = Some (r, t')" and inv': "interner_inv h t'"
    and post: "case r of
         Inr i \<Rightarrow> terms t' = (if bs \<in> set (terms t) then terms t else terms t @ [bs]) \<and> unat i < length (terms t') \<and> terms t' ! unat i = bs
       | Inl e \<Rightarrow> terms t' = terms t \<and> bs \<notin> set (terms t)"
    using dict.add_law [OF assms(1) b] by blast
  have "case r of
       Inr tid \<Rightarrow> terms t' = (if bs \<in> set (terms t) then terms t else terms t @ [bs]) \<and>
         interner_resolve t' tid = Some bs \<and> interner_lookup h bs t' = Some (Some tid)
     | Inl e \<Rightarrow> terms t' = terms t \<and> bs \<notin> set (terms t) \<and> blob_push bs (in_heap t) = Inl e"
  proof (cases r)
    case (Inl e)
    moreover have "blob_push bs (in_heap t) = Inl e"
      using intern_spec [of t bs h] assms r Inl by (auto simp: interner_inv_def)
    ultimately show ?thesis using post by simp
  next
    case (Inr i)
    then show ?thesis
      using post dict.add_find(2,3) [OF assms(1) b, of i t'] r unfolding Inr sum.case by blast
  qed
  with r inv' show ?thesis by blast
qed

lemma ascii_term: "utf8_valid [97]" "length ([97] :: bytes) < 2 ^ 32"
  by simp_all

theorem intern_correct_witness:
  "\<exists>r t'. intern (\<lambda>_. 0) [97] (interner_new blob_cfg_new) = Some (r, t') \<and> interner_inv (\<lambda>_. 0) t'"
  using intern_correct [OF interner_new_inv(1) ascii_term] by blast

text \<open>
  C25. Ids are stable and separate strings: after interning a string its id is found for ever by whatever
  strings are interned later, interning it again returns the same id, and two stored strings
  have the same id exactly when they are equal.
\<close>

theorem intern_ids_stable:
  assumes "interner_inv h t" and "utf8_valid bs" and "length bs < 2 ^ 32" and "intern h bs t = Some (Inr i, t')"
  shows "(\<forall>c j. interner_lookup h c t = Some (Some j) \<longrightarrow> interner_lookup h c t' = Some (Some j)) \<and>
    (\<exists>t''. intern h bs t' = Some (Inr i, t'') \<and> terms t'' = terms t') \<and>
    (\<forall>b c j k. interner_lookup h b t' = Some (Some j) \<and> interner_lookup h c t' = Some (Some k) \<longrightarrow> (j = k \<longleftrightarrow> b = c))"
proof -
  have b: "utf8_valid bs \<and> length bs < 2 ^ 32" using assms by simp
  note af = dict.add_find [OF assms(1) b assms(4)]
  show ?thesis
    using af(4) dict.add_again [OF assms(1) b assms(4)] dict.ids_separate [OF af(1)] by blast
qed

text \<open>
  A lookup on any image a loader accepts returns, and what it finds resolves to the string; so
  does interning. The table's placement is not checked by the loader, but neither a hang nor a
  panic nor a wrong id can come of it: the load factor leaves an empty slot.
\<close>

theorem interner_load_total:
  assumes "interner_load cfg index pool table = Inr t \<or> interner_load_borrowed cfg index pool table = Inr t"
  shows "(\<exists>r. interner_lookup h bs t = Some r \<and> (\<forall>tid. r = Some tid \<longrightarrow> interner_resolve t tid = Some bs)) \<and>
    (utf8_valid bs \<and> length bs < 2 ^ 32 \<longrightarrow> (\<exists>r t'. intern h bs t = Some (r, t') \<and>
      (\<forall>tid. r = Inr tid \<longrightarrow> interner_resolve t' tid = Some bs)))"
proof -
  obtain heap where load: "blob_load cfg index pool = Inr heap \<or> blob_load_borrowed cfg index pool = Inr heap"
    and t: "from_heap_and_table heap table = Inr t"
    using assms by (auto simp: interner_load_def interner_load_borrowed_def try_res_eq_Inr)
  have ok: "interner_ok t" by (rule from_parts_sound(1) [OF blob_loads_inv(1) [OF load] t])
  have "\<exists>r. interner_lookup h bs t = Some r \<and> (\<forall>tid. r = Some tid \<longrightarrow> interner_resolve t tid = Some bs)"
    using lookup_spec [OF ok, of h bs] resolve_spec [OF ok] by (auto split: option.splits)
  moreover have "\<exists>r t'. intern h bs t = Some (r, t') \<and> (\<forall>tid. r = Inr tid \<longrightarrow> interner_resolve t' tid = Some bs)"
    if bs: "utf8_valid bs" "length bs < 2 ^ 32"
  proof -
    obtain r t' where "intern h bs t = Some (r, t')" "interner_ok t'" and post: "case r of
       Inr tid \<Rightarrow> (terms t' = terms t \<or> terms t' = terms t @ [bs] \<and> \<not> isl (blob_push bs (in_heap t))) \<and> unat tid < length (terms t') \<and> terms t' ! unat tid = bs
     | Inl e \<Rightarrow> terms t' = terms t \<and> blob_push bs (in_heap t) = Inl e"
      using intern_spec [OF ok bs] by blast
    moreover have "interner_resolve t' tid = Some bs" if "r = Inr tid" for tid
      using post resolve_spec [OF calculation(2)] unfolding that sum.case by simp
    ultimately show ?thesis by blast
  qed
  ultimately show ?thesis by blast
qed

text \<open>
  C26. The three sections of an interner load back (unless the id space or the slot count is at its limit): owned or
  borrowed, the loaded interner is well formed, holds the same terms under the same ids and dumps to the
  same bytes; and whatever a loader accepts dumps to the bytes it read.
\<close>

theorem interner_dump_load:
  assumes "interner_inv h t" and "length (terms t) < 2 ^ 32 - 1" and "length (in_table t) < 2 ^ 32"
  shows "\<forall>load \<in> {interner_load, interner_load_borrowed}. \<exists>u.
    load (bh_cfg (in_heap t)) (interner_dump_index t) (interner_dump_pool t) (interner_dump_table t) = Inr u \<and>
    interner_inv h u \<and> terms u = terms t \<and> (\<forall>b. interner_lookup h b u = interner_lookup h b t) \<and>
    interner_dump_index u = interner_dump_index t \<and> interner_dump_pool u = interner_dump_pool t \<and>
    interner_dump_table u = interner_dump_table t"
proof -
  have ok: "interner_ok t" using assms(1) by (simp add: interner_inv_def)
  then have inv: "blob_inv (in_heap t)" by (simp add: interner_ok_def)
  obtain h1 h2 where loads: "blob_load (bh_cfg (in_heap t)) (interner_dump_index t) (interner_dump_pool t) = Inr h1"
      "blob_load_borrowed (bh_cfg (in_heap t)) (interner_dump_index t) (interner_dump_pool t) = Inr h2"
    and same: "blobs h1 = terms t" "blobs h2 = terms t"
    using blob_dump_loads [OF inv] assms(2) by (auto simp: interner_dump_index_def interner_dump_pool_def terms_def)
  have each: "\<exists>u. from_heap_and_table heap (interner_dump_table t) = Inr u \<and> interner_inv h u \<and> terms u = terms t \<and>
      (\<forall>b. interner_lookup h b u = interner_lookup h b t) \<and>
      interner_dump_index u = interner_dump_index t \<and> interner_dump_pool u = interner_dump_pool t \<and>
      interner_dump_table u = interner_dump_table t"
    if heap: "blob_inv heap" "blobs heap = terms t" "blob_dump_index heap = interner_dump_index t" "blob_dump_pool heap = interner_dump_pool t"
    for heap
  proof -
    let ?u = "t\<lparr>in_heap := heap\<rparr>"
    have terms: "terms ?u = terms t" by (simp add: terms_def [of ?u] heap(2))
    have inv_u: "interner_inv h ?u"
      using assms(1) heap(1) unfolding interner_inv_def interner_ok_def terms by simp
    have "interner_lookup h b ?u = interner_lookup h b t" for b
    proof -
      obtain r s where rs: "interner_lookup h b ?u = Some r" "interner_lookup h b t = Some s"
        using dict.find_law [OF inv_u, of b] dict.find_law [OF assms(1), of b] by blast
      have iff: "r = Some i \<longleftrightarrow> s = Some i" for i
        using dict.found_iff [OF inv_u, of b i] dict.found_iff [OF assms(1), of b i] unfolding terms rs by simp
      have "r = s"
      proof (cases s)
        case None
        then show ?thesis using iff [of "the r"] by (cases r) simp_all
      next
        case (Some i)
        then show ?thesis using iff [of i] by simp
      qed
      with rs show ?thesis by simp
    qed
    then show ?thesis
      using from_parts_complete [OF ok assms(3) heap(1,2)] inv_u terms heap(3,4)
      by (intro exI [of _ ?u]) (simp add: interner_dump_index_def interner_dump_pool_def interner_dump_table_def)
  qed
  note i1 = blob_loads_inv [OF disjI1 [OF loads(1)]] and i2 = blob_loads_inv [OF disjI2 [OF loads(2)]]
  show ?thesis
    using each [OF i1(1) same(1) i1(2,3)] each [OF i2(1) same(2) i2(2,3)] loads
    by (simp add: interner_load_def interner_load_borrowed_def)
qed

text \<open>
  C40. A refused \<open>intern\<close> does not always leave the interner unchanged, as its documentation says: at the
  load limit the table has been doubled before the heap refuses the string, and the dumped table
  section differs (the dictionary itself is the same).
\<close>

theorem failed_intern_grows_table:
  assumes "interner_inv h t" and "utf8_valid bs" and "length bs < 2 ^ 32" and "bs \<notin> set (terms t)"
    and "blob_push bs (in_heap t) = Inl e" and "grows t"
  shows "\<exists>t'. intern h bs t = Some (Inl e, t') \<and> terms t' = terms t \<and>
    length (in_table t') = 2 * length (in_table t) \<and> length (interner_dump_table t') \<noteq> length (interner_dump_table t)"
proof -
  have ok: "interner_ok t" "placed h (terms t) (in_table t)" using assms(1) by (simp_all add: interner_inv_def)
  obtain r t' where r: "intern h bs t = Some (r, t')" and post: "case r of
       Inr tid \<Rightarrow> (terms t' = terms t \<or> terms t' = terms t @ [bs] \<and> \<not> isl (blob_push bs (in_heap t))) \<and>
         unat tid < length (terms t') \<and> terms t' ! unat tid = bs
     | Inl e \<Rightarrow> terms t' = terms t \<and> blob_push bs (in_heap t) = Inl e"
    and new: "isl r \<or> terms t' = terms t @ [bs]" and len: "isl r \<longrightarrow> length (in_table t') = 2 * length (in_table t)"
    using intern_spec [OF ok(1) assms(2,3), of h] ok(2) assms(4,6) by auto
  have "r = Inl e"
  proof (cases r)
    case (Inl e')
    then show ?thesis using post assms(5) by simp
  next
    case (Inr tid)
    then show ?thesis using post new assms(5) by simp
  qed
  moreover have "0 < length (in_table t)"
    using ok(1) table_size_ge [of "length (in_table t)"] by (auto simp: interner_ok_def table_covers_def)
  ultimately show ?thesis
    using r post len by (intro exI [of _ t']) (simp add: interner_dump_table_def concat_map_const_length)
qed

text \<open>An interner of eleven one-byte terms at its load limit, whose heap is full.\<close>

definition full_interner :: interner where
  "full_interner = \<lparr>in_heap = \<lparr>bh_base = [], bh_tail = map of_nat [0..<11], bh_index = map (\<lambda>i. (i, 1)) [0..<11],
       bh_cfg = \<lparr>max_bytes = 11, max_blob = 1\<rparr>\<rparr>,
     in_table = map (\<lambda>i. of_nat (Suc i)) [0..<11] @ replicate 5 0, in_len = 11\<rparr>"

lemma full_terms: "terms full_interner = [[0], [1], [2], [3], [4], [5], [6], [7], [8], [9], [10]]"
  by (simp add: terms_def blobs_def full_interner_def slice_def upt_rec)

lemma full_inv: "interner_inv (\<lambda>_. 0) full_interner"
proof -
  have sz: "table_size 16" unfolding table_size_def by (intro exI [of _ 4]) simp
  have inv: "blob_inv (in_heap full_interner)"
    unfolding blob_inv_def
    by (intro conjI exI [of _ 0]) (simp_all add: full_interner_def pool_len_def lens_total_def upt_rec usize_max_def)
  have "filter (\<lambda>e. e \<noteq> 0) (in_table full_interner) = map (\<lambda>i. of_nat (Suc i)) [0..<11]"
    by (simp add: full_interner_def upt_rec)
  then have es: "entries (in_table full_interner) = mset (map (\<lambda>i. of_nat (Suc i)) [0..<11])" by (rule arg_cong)
  have n: "length (terms full_interner) = 11" by (simp add: full_terms)
  have flds: "length (in_table full_interner) = 16" "unat (in_len full_interner) = 11"
    by (simp_all add: full_interner_def)
  have "(11::nat) * LOAD_DEN \<le> 16 * LOAD_NUM" by (simp add: LOAD_DEN_def LOAD_NUM_def)
  then have "table_covers (length (terms full_interner)) (in_table full_interner)"
    unfolding table_covers_def n flds using sz es by (intro conjI)
  with inv have "interner_ok full_interner"
    unfolding interner_ok_def n flds by (simp add: full_terms)
  moreover have "placed (\<lambda>_. 0) (terms full_interner) (in_table full_interner)"
    unfolding placed_def
  proof (intro allI impI)
    fix j assume j: "j < length (in_table full_interner)" "in_table full_interner ! j \<noteq> 0"
    then have j11: "j < 11" by (simp add: full_interner_def nth_append split: if_splits)
    have "in_table full_interner ! k \<noteq> 0" if "k < 11" for k
      using that of_nat_Suc_nz [of k] by (simp add: full_interner_def nth_append del: of_nat_Suc upt_rec)
    with j11 show "\<exists>d. (home_slot (\<lambda>_. 0) (in_table full_interner) (terms full_interner ! unat (in_table full_interner ! j - 1)) + d) mod
        length (in_table full_interner) = j \<and>
      (\<forall>k<d. in_table full_interner ! ((home_slot (\<lambda>_. 0) (in_table full_interner)
        (terms full_interner ! unat (in_table full_interner ! j - 1)) + k) mod length (in_table full_interner)) \<noteq> 0)"
      by (intro exI [of _ j]) (simp add: home_slot_def full_interner_def)
  qed
  moreover have "distinct (terms full_interner)" by (simp add: full_terms)
  ultimately show ?thesis by (simp add: interner_inv_def)
qed

theorem failed_intern_grows_table_witness:
  "\<exists>t'. intern (\<lambda>_. 0) [11] full_interner = Some (Inl (CapacityExceeded 11), t') \<and> length (in_table t') = 32"
proof -
  have b: "utf8_valid [11]" "length ([11] :: bytes) < 2 ^ 32" by simp_all
  have new: "[11] \<notin> set (terms full_interner)" by (simp add: full_terms)
  have push: "blob_push [11] (in_heap full_interner) = Inl (CapacityExceeded 11)"
    by (simp add: blob_push_cases full_interner_def pool_len_def)
  have "grows full_interner" by (simp add: grows_def full_interner_def LOAD_NUM_def LOAD_DEN_def)
  moreover have "length (in_table full_interner) = 16" by (simp add: full_interner_def)
  ultimately show ?thesis using failed_intern_grows_table [OF full_inv b new push] by auto
qed

theorem intern_ids_stable_witness:
  "\<exists>i t' t''. intern (\<lambda>_. 0) [97] (interner_new blob_cfg_new) = Some (Inr i, t') \<and>
     intern (\<lambda>_. 0) [97] t' = Some (Inr i, t'')"
proof -
  have ok: "interner_ok (interner_new blob_cfg_new)"
    using interner_new_inv(1) [of "\<lambda>_. 0"] by (simp add: interner_inv_def)
  obtain r t' where r: "intern (\<lambda>_. 0) [97] (interner_new blob_cfg_new) = Some (r, t')"
    and post: "case r of
       Inr tid \<Rightarrow> (terms t' = terms (interner_new blob_cfg_new) \<or> terms t' = terms (interner_new blob_cfg_new) @ [[97]] \<and>
           \<not> isl (blob_push [97] (in_heap (interner_new blob_cfg_new)))) \<and> unat tid < length (terms t') \<and> terms t' ! unat tid = [97]
     | Inl e \<Rightarrow> terms t' = terms (interner_new blob_cfg_new) \<and> blob_push [97] (in_heap (interner_new blob_cfg_new)) = Inl e"
    using intern_spec [OF ok ascii_term, of "\<lambda>_. 0"] by blast
  have "blob_push [97] (in_heap (interner_new blob_cfg_new)) \<noteq> Inl e" for e
    by (simp add: blob_push_cases interner_new_def blob_new_def blob_cfg_new_def pool_len_def usize_max_def)
  with post obtain i where "r = Inr i" by (cases r) simp_all
  with r intern_ids_stable [OF interner_new_inv(1) ascii_term, of "\<lambda>_. 0" blob_cfg_new i t'] show ?thesis by blast
qed

theorem interner_dump_load_witness:
  "\<exists>u. interner_load (bh_cfg (in_heap full_interner)) (interner_dump_index full_interner) (interner_dump_pool full_interner)
      (interner_dump_table full_interner) = Inr u \<and> terms u = terms full_interner"
proof -
  have "length (terms full_interner) < 2 ^ 32 - 1" "length (in_table full_interner) < 2 ^ 32"
    by (simp_all add: full_terms) (simp add: full_interner_def)
  from interner_dump_load [OF full_inv this] show ?thesis by auto
qed

theorem interner_load_total_witness:
  "\<exists>u. interner_load (bh_cfg (in_heap full_interner)) (interner_dump_index full_interner) (interner_dump_pool full_interner)
      (interner_dump_table full_interner) = Inr u \<and> (\<exists>r. interner_lookup (\<lambda>_. 1) [3] u = Some r)"
proof -
  have ok: "interner_ok full_interner" using full_inv by (simp add: interner_inv_def)
  have n: "length (blobs (in_heap full_interner)) < 2 ^ 32 - 1" "length (in_table full_interner) < 2 ^ 32"
    by (simp_all add: full_interner_def)
  have inv: "blob_inv (in_heap full_interner)" using ok by (simp add: interner_ok_def)
  obtain h1 where h1: "blob_load (bh_cfg (in_heap full_interner)) (interner_dump_index full_interner) (interner_dump_pool full_interner) = Inr h1"
    "blobs h1 = terms full_interner"
    using blob_dump_loads [OF inv n(1)] by (auto simp: interner_dump_index_def interner_dump_pool_def terms_def)
  from from_parts_complete [OF ok n(2) blob_loads_inv(1) h1(2)] h1(1)
  obtain u where u: "interner_load (bh_cfg (in_heap full_interner)) (interner_dump_index full_interner) (interner_dump_pool full_interner)
      (interner_dump_table full_interner) = Inr u"
    by (auto simp: interner_load_def)
  from interner_load_total [OF disjI1 [OF u], of "\<lambda>_. 1" "[3]"] u show ?thesis by blast
qed

end
