(* ===== verification/Core_Error.thy ===== *)
theory Core_Error
  imports Arena_Error
begin

text \<open>
  The engine's error type, \<open>crates/plugmem-core/src/error.rs\<close>. The two variants whose names the storage
  crate's type already uses carry the suffix \<open>_core\<close>; the names and messages are those of the code.
  \<open>from_arena\<close> is the \<open>#[from]\<close> conversion the \<open>?\<close> operator inserts.
\<close>

datatype core_error =
    CapacityExceeded_core string
  | TooLarge string nat nat
  | DimMismatch nat nat
  | NotFound u32
  | AlreadyClosed u32
  | StaleCursor
  | UntrackedVectorSpace
  | VectorSpaceMismatch bytes bytes
  | ConfigMismatch string
  | Corrupt_core string
  | UnsupportedVersion u16
  | Invalid string
  | Storage bytes
  | Arena_err arena_error

definition from_arena :: "arena_error + 'a \<Rightarrow> core_error + 'a" where
  "from_arena r = map_sum Arena_err id r"

lemma from_arena_simps [simp]: "from_arena (Inl e) = Inl (Arena_err e)" "from_arena (Inr x) = Inr x"
  by (simp_all add: from_arena_def)

lemma from_arena_eq_Inr [simp]: "from_arena r = Inr x \<longleftrightarrow> r = Inr x"
  by (cases r) simp_all

end
