(* ===== verification/Wire.thy ===== *)
theory Wire
  imports Core_Error Rust_Std
begin

text \<open>
  Length-prefixed binary fields, as the journal (\<open>journal.rs\<close>) and the metadata blob (\<open>metadata.rs\<close>) write and
  read them. A writer is a function to bytes; a reader takes the whole input and an offset and returns the value and
  the offset behind it, as the code's \<open>take_*(bytes, &mut at)\<close>. The contract between the two is the
  locale \<open>wire_field\<close>: what was written is read back wherever it stands, and what is read is exactly the writer's
  image of the value, so a format built of such fields is lossless and canonical. Pairs and counted lists of
  fields satisfy it again.
\<close>

section \<open>The contract\<close>

locale wire_field =
  fixes ok :: "'a \<Rightarrow> bool"
    and put :: "'a \<Rightarrow> bytes"
    and get :: "bytes \<Rightarrow> nat \<Rightarrow> 'e + 'a \<times> nat"
  assumes get_put: "ok x \<Longrightarrow> length bs \<le> usize_max \<Longrightarrow> at \<le> length bs \<Longrightarrow> drop at bs = put x @ rest \<Longrightarrow>
      get bs at = Inr (x, at + length (put x))"
    and get_exact: "at \<le> length bs \<Longrightarrow> get bs at = Inr (x, at') \<Longrightarrow>
      ok x \<and> at' \<le> length bs \<and> drop at bs = put x @ drop at' bs"
begin

lemma get_rest:
  assumes "ok x" and "length bs \<le> usize_max" and "at \<le> length bs" and "drop at bs = put x @ rest"
  shows "get bs at = Inr (x, at + length (put x))" and "at + length (put x) \<le> length bs"
    and "drop (at + length (put x)) bs = rest"
proof -
  show "get bs at = Inr (x, at + length (put x))" by (rule get_put [OF assms])
  have "length (drop at bs) = length (put x @ rest)" using assms(4) by simp
  then show "at + length (put x) \<le> length bs" using assms(3) by simp
  have "drop (at + length (put x)) bs = drop (length (put x)) (drop at bs)" by (simp add: add.commute)
  then show "drop (at + length (put x)) bs = rest" using assms(4) by simp
qed

lemma get_end: "at \<le> length bs \<Longrightarrow> get bs at = Inr (x, at') \<Longrightarrow> at' = at + length (put x)"
proof -
  assume at: "at \<le> length bs" and g: "get bs at = Inr (x, at')"
  note ex = get_exact [OF at g]
  have "length bs - at = length (put x) + (length bs - at')" using ex by (metis length_append length_drop)
  moreover have "at' \<le> length bs" using ex by simp
  ultimately show ?thesis using at by linarith
qed

text \<open>No image is a proper prefix of another: the format needs no separators.\<close>

lemma put_prefix_free:
  assumes "ok x" and "ok y" and "put x @ r = put y @ s" and "length (put x @ r) \<le> usize_max"
  shows "x = y \<and> r = s"
proof -
  have "get (put x @ r) 0 = Inr (x, length (put x))" using get_put [OF assms(1), of "put x @ r" 0 r] assms by simp
  moreover have "get (put x @ r) 0 = Inr (y, length (put y))" using get_put [OF assms(2), of "put x @ r" 0 s] assms by simp
  ultimately show ?thesis using assms(3) by simp
qed

end

section \<open>Combinators\<close>

text \<open>Two fields in a row.\<close>

definition put_pair :: "('a \<Rightarrow> bytes) \<Rightarrow> ('b \<Rightarrow> bytes) \<Rightarrow> 'a \<times> 'b \<Rightarrow> bytes" where
  "put_pair p q x = p (fst x) @ q (snd x)"

definition take_pair ::
  "(bytes \<Rightarrow> nat \<Rightarrow> 'e + 'a \<times> nat) \<Rightarrow> (bytes \<Rightarrow> nat \<Rightarrow> 'e + 'b \<times> nat) \<Rightarrow> bytes \<Rightarrow> nat \<Rightarrow> 'e + ('a \<times> 'b) \<times> nat" where
  "take_pair f g bs at = try_res (f bs at) (\<lambda>(x, at). try_res (g bs at) (\<lambda>(y, at). Inr ((x, y), at)))"

lemma wire_pair:
  assumes "wire_field ok p f" and "wire_field ok' q g"
  shows "wire_field (\<lambda>x. ok (fst x) \<and> ok' (snd x)) (put_pair p q) (take_pair f g)"
proof
  fix x bs at rest
  assume x: "ok (fst x) \<and> ok' (snd x)" and b: "length bs \<le> usize_max" "at \<le> length bs"
    and d: "drop at bs = put_pair p q x @ rest"
  have d1: "drop at bs = p (fst x) @ q (snd x) @ rest" using d by (simp add: put_pair_def)
  note one = wire_field.get_rest [OF assms(1) _ b d1]
  note two = wire_field.get_rest [OF assms(2) _ b(1) one(2,3)]
  show "take_pair f g bs at = Inr (x, at + length (put_pair p q x))"
    using x one(1) two(1) by (simp add: take_pair_def put_pair_def add.assoc)
next
  fix at bs x at'
  assume at: "at \<le> length bs" and t: "take_pair f g bs at = Inr (x, at')"
  obtain m where f: "f bs at = Inr (fst x, m)" and g: "g bs m = Inr (snd x, at')"
    using t by (cases x) (auto simp: take_pair_def try_res_eq_Inr)
  note one = wire_field.get_exact [OF assms(1) at f]
  then have m: "m \<le> length bs" by simp
  show "(ok (fst x) \<and> ok' (snd x)) \<and> at' \<le> length bs \<and> drop at bs = put_pair p q x @ drop at' bs"
    using one wire_field.get_exact [OF assms(2) m g] by (simp add: put_pair_def)
qed

text \<open>\<open>for _ in 0..n { push(take()?) }\<close>.\<close>

fun take_n :: "(bytes \<Rightarrow> nat \<Rightarrow> 'e + 'a \<times> nat) \<Rightarrow> nat \<Rightarrow> bytes \<Rightarrow> nat \<Rightarrow> 'e + 'a list \<times> nat" where
  "take_n f 0 bs at = Inr ([], at)"
| "take_n f (Suc n) bs at = try_res (f bs at) (\<lambda>(x, at). try_res (take_n f n bs at) (\<lambda>(xs, at). Inr (x # xs, at)))"

lemma wire_take_n:
  assumes "wire_field ok p f"
  shows "wire_field (\<lambda>xs. length xs = n \<and> list_all ok xs) (\<lambda>xs. concat (map p xs)) (take_n f n)"
proof
  fix xs bs at rest
  show "length xs = n \<and> list_all ok xs \<Longrightarrow> length bs \<le> usize_max \<Longrightarrow> at \<le> length bs \<Longrightarrow>
      drop at bs = concat (map p xs) @ rest \<Longrightarrow> take_n f n bs at = Inr (xs, at + length (concat (map p xs)))"
  proof (induction xs arbitrary: n at)
    case (Cons x xs)
    then have d: "drop at bs = p x @ concat (map p xs) @ rest" by simp
    note one = wire_field.get_rest [OF assms _ Cons.prems(2,3) d]
    have "take_n f (length xs) bs (at + length (p x)) = Inr (xs, at + length (p x) + length (concat (map p xs)))"
      by (rule Cons.IH) (use Cons.prems one in simp_all)
    then show ?case using Cons.prems(1) one(1) by (auto simp: add.assoc)
  qed simp
next
  fix at bs xs at'
  show "at \<le> length bs \<Longrightarrow> take_n f n bs at = Inr (xs, at') \<Longrightarrow>
      (length xs = n \<and> list_all ok xs) \<and> at' \<le> length bs \<and> drop at bs = concat (map p xs) @ drop at' bs"
  proof (induction n arbitrary: at xs)
    case (Suc n)
    obtain x m ys where f: "f bs at = Inr (x, m)" and g: "take_n f n bs m = Inr (ys, at')" and xs: "xs = x # ys"
      using Suc.prems(2) by (auto simp: try_res_eq_Inr)
    note one = wire_field.get_exact [OF assms Suc.prems(1) f]
    then have "m \<le> length bs" by simp
    from Suc.IH [OF this g] one show ?case by (simp add: xs)
  qed simp
qed

section \<open>Fields\<close>

text \<open>One byte, and \<open>bs[at..at + n]\<close> bytes read as a little-endian integer.\<close>

lemma wire_bytes:
  assumes len: "\<And>x. length (enc x) = n" and dec: "\<And>x. dec (enc x) = x" and enc: "\<And>b. length b = n \<Longrightarrow> enc (dec b) = b"
  shows "wire_field (\<lambda>_. True) enc (\<lambda>bs at. if length bs < at + n then Inl (e at) else Inr (dec (slice bs at (at + n)), at + n))"
proof
  fix x bs at rest
  assume at: "at \<le> length bs" and d: "drop at bs = enc x @ rest"
  have "length (drop at bs) = length (enc x @ rest)" using d by simp
  then have "at + n \<le> length bs" using at by (simp add: len)
  moreover have "slice bs at (at + n) = take n (drop at bs)" by (simp add: slice_def take_drop add.commute)
  ultimately show "(if length bs < at + n then Inl (e at) else Inr (dec (slice bs at (at + n)), at + n)) = Inr (x, at + length (enc x))"
    using d by (simp add: len dec)
next
  fix at bs x at'
  assume "(if length bs < at + n then Inl (e at) else Inr (dec (slice bs at (at + n)), at + n)) = Inr (x, at')"
  then have x: "x = dec (slice bs at (at + n))" "at' = at + n" and n: "at + n \<le> length bs"
    by (auto split: if_splits)
  have "drop at bs = slice bs at (at + n) @ drop (at + n) bs"
    by (metis append_take_drop_id slice_def drop_drop take_drop add.commute)
  then show "True \<and> at' \<le> length bs \<and> drop at bs = enc x @ drop at' bs"
    using n by (simp add: x enc)
qed

text \<open>A length-prefixed UTF-8 string, given the reader of its length.\<close>

definition put_str :: "bytes \<Rightarrow> bytes" where
  "put_str s = u32_le (of_nat (length s)) @ s"

definition str_ok :: "bytes \<Rightarrow> bool" where
  "str_ok s \<longleftrightarrow> utf8_valid s \<and> length s < 2 ^ 32"

definition read_str ::
  "(bytes \<Rightarrow> nat \<Rightarrow> core_error + u32 \<times> nat) \<Rightarrow> string \<Rightarrow> string \<Rightarrow> bytes \<Rightarrow> nat \<Rightarrow> core_error + bytes \<times> nat" where
  "read_str take_u32 overrun bad bs at =
     try_res (take_u32 bs at) (\<lambda>(len, at).
       case checked_add at (unat len) of
         None \<Rightarrow> Inl (Corrupt_core overrun)
       | Some stop \<Rightarrow>
           if stop \<le> length bs then
             let s = slice bs at stop in
             if utf8_valid s then Inr (s, stop) else Inl (Corrupt_core bad)
           else Inl (Corrupt_core overrun))"

lemma wire_str:
  assumes "wire_field (\<lambda>_. True) u32_le take_u32"
  shows "wire_field str_ok put_str (read_str take_u32 overrun bad)"
proof
  fix s bs at rest
  assume s: "str_ok s" and b: "length bs \<le> usize_max" "at \<le> length bs" and d: "drop at bs = put_str s @ rest"
  have d1: "drop at bs = u32_le (of_nat (length s)) @ s @ rest" using d by (simp add: put_str_def)
  note one = wire_field.get_rest [OF assms TrueI b d1]
  have len: "unat (of_nat (length s) :: u32) = length s" using s by (simp add: str_ok_def)
  have "length (drop (at + 4) bs) = length (s @ rest)" using one(3) by simp
  then have n: "at + 4 + length s \<le> length bs" using one(2) by simp
  then have "checked_add (at + 4) (length s) = Some (at + 4 + length s)" using b(1) by simp
  moreover have "slice bs (at + 4) (at + 4 + length s) = s"
    using one(3) by (simp add: slice_def drop_take)
  ultimately show "read_str take_u32 overrun bad bs at = Inr (s, at + length (put_str s))"
    using one(1) n s len by (simp add: read_str_def put_str_def str_ok_def del: checked_add_Some)
next
  fix at bs s at'
  assume at: "at \<le> length bs" and r: "read_str take_u32 overrun bad bs at = Inr (s, at')"
  obtain len m where t: "take_u32 bs at = Inr (len, m)" and e: "at' = m + unat len" "at' \<le> length bs"
    and s: "s = slice bs m at'" "utf8_valid s"
    using r by (auto simp: read_str_def try_res_eq_Inr Let_def split: option.splits if_splits)
  note one = wire_field.get_exact [OF assms at t]
  have "length s = unat len" using e by (simp add: s(1))
  then have "str_ok s" "put_str s = u32_le len @ s"
    using s(2) unsigned_less [of len] by (simp_all add: str_ok_def put_str_def)
  moreover have "drop m bs = s @ drop at' bs"
  proof -
    have "drop m bs = drop m (take at' bs) @ drop at' bs"
      using e(1) by (metis append_take_drop_id drop_append drop_drop le_add1 le_add_diff_inverse2 take_drop add.commute)
    then show ?thesis by (simp add: s(1) slice_def)
  qed
  ultimately show "str_ok s \<and> at' \<le> length bs \<and> drop at bs = put_str s @ drop at' bs"
    using one e(2) by simp
qed

section \<open>Counted lists\<close>

text \<open>A count of some width, then that many fields; \<open>un\<close> reads the count, \<open>wn\<close> truncates a length to its width.\<close>

definition put_counted :: "('w \<Rightarrow> bytes) \<Rightarrow> (nat \<Rightarrow> 'w) \<Rightarrow> ('a \<Rightarrow> bytes) \<Rightarrow> 'a list \<Rightarrow> bytes" where
  "put_counted enc wn p xs = enc (wn (length xs)) @ concat (map p xs)"

definition take_counted ::
  "(bytes \<Rightarrow> nat \<Rightarrow> 'e + 'w \<times> nat) \<Rightarrow> ('w \<Rightarrow> nat) \<Rightarrow> (bytes \<Rightarrow> nat \<Rightarrow> 'e + 'a \<times> nat) \<Rightarrow> bytes \<Rightarrow> nat \<Rightarrow> 'e + 'a list \<times> nat" where
  "take_counted cnt un f bs at = try_res (cnt bs at) (\<lambda>(c, at). take_n f (un c) bs at)"

lemma wire_counted:
  assumes "wire_field (\<lambda>_. True) enc cnt" and "wire_field ok p f" and inv: "\<And>c. wn (un c) = c"
  shows "wire_field (\<lambda>xs. list_all ok xs \<and> un (wn (length xs)) = length xs) (put_counted enc wn p) (take_counted cnt un f)"
proof
  fix xs bs at rest
  assume xs: "list_all ok xs \<and> un (wn (length xs)) = length xs" and b: "length bs \<le> usize_max" "at \<le> length bs"
    and d: "drop at bs = put_counted enc wn p xs @ rest"
  have d1: "drop at bs = enc (wn (length xs)) @ concat (map p xs) @ rest" using d by (simp add: put_counted_def)
  note one = wire_field.get_rest [OF assms(1) TrueI b d1]
  note two = wire_field.get_rest [OF wire_take_n [OF assms(2), of "length xs"] _ b(1) one(2,3)]
  show "take_counted cnt un f bs at = Inr (xs, at + length (put_counted enc wn p xs))"
    using xs one(1) two(1) by (simp add: take_counted_def put_counted_def add.assoc)
next
  fix at bs xs at'
  assume at: "at \<le> length bs" and t: "take_counted cnt un f bs at = Inr (xs, at')"
  obtain c m where c: "cnt bs at = Inr (c, m)" and g: "take_n f (un c) bs m = Inr (xs, at')"
    using t by (auto simp: take_counted_def try_res_eq_Inr)
  note one = wire_field.get_exact [OF assms(1) at c]
  then have m: "m \<le> length bs" by simp
  note two = wire_field.get_exact [OF wire_take_n [OF assms(2), of "un c"] m g]
  show "(list_all ok xs \<and> un (wn (length xs)) = length xs) \<and> at' \<le> length bs \<and> drop at bs = put_counted enc wn p xs @ drop at' bs"
    using one two by (auto simp: put_counted_def inv)
qed

end
