(* ===== verification/Storage.thy ===== *)
theory Storage
  imports Prelude
begin

text \<open>
  The storage interface of \<open>crates/plugmem-core/src/storage.rs\<close>. The trait \<open>Storage\<close> is the locale \<open>storage_log\<close>: a
  snapshot that \<open>write_snapshot\<close> replaces and a journal that grows by \<open>append_journal\<close> until \<open>clear_journal\<close>; its
  in-memory implementation \<open>MemStorage\<close> interprets it. The trait \<open>Scratch\<close>, an append-only area that is frozen
  into one slice, is the locale \<open>staging\<close>, interpreted on \<open>MemScratch\<close>. The implementations here cannot fail
  (their error type is \<open>Infallible\<close>), so their operations return plain states.
\<close>

section \<open>The storage contract\<close>

locale storage_log =
  fixes read_snapshot :: "'s \<Rightarrow> bytes option"
    and read_journal :: "'s \<Rightarrow> bytes"
    and write_snapshot :: "bytes \<Rightarrow> 's \<Rightarrow> 's"
    and append_journal :: "bytes \<Rightarrow> 's \<Rightarrow> 's"
    and clear_journal :: "'s \<Rightarrow> 's"
  assumes write_reads: "read_snapshot (write_snapshot b s) = Some b" "read_journal (write_snapshot b s) = read_journal s"
    and append_reads: "read_journal (append_journal b s) = read_journal s @ b" "read_snapshot (append_journal b s) = read_snapshot s"
    and clear_reads: "read_journal (clear_journal s) = []" "read_snapshot (clear_journal s) = read_snapshot s"
begin

lemma fold_append: "read_journal (fold append_journal bs s) = read_journal s @ concat bs"
  "read_snapshot (fold append_journal bs s) = read_snapshot s"
  by (induction bs arbitrary: s) (simp_all add: append_reads)

text \<open>A snapshot followed by a cleared journal and some appends reads back as the snapshot and exactly those appends.\<close>

lemma checkpoint:
  "read_snapshot (fold append_journal bs (clear_journal (write_snapshot b s))) = Some b"
  "read_journal (fold append_journal bs (clear_journal (write_snapshot b s))) = concat bs"
  by (simp_all add: fold_append clear_reads write_reads)

end

section \<open>MemStorage\<close>

record mem_storage =
  ms_snapshot :: "bytes option"
  ms_journal :: bytes

definition mem_storage_new :: mem_storage where
  "mem_storage_new = \<lparr>ms_snapshot = None, ms_journal = []\<rparr>"

definition mem_read_snapshot :: "mem_storage \<Rightarrow> bytes option" where
  "mem_read_snapshot s = ms_snapshot s"

definition mem_write_snapshot :: "bytes \<Rightarrow> mem_storage \<Rightarrow> mem_storage" where
  "mem_write_snapshot b s = s\<lparr>ms_snapshot := Some b\<rparr>"

definition mem_read_journal :: "mem_storage \<Rightarrow> bytes" where
  "mem_read_journal s = ms_journal s"

definition mem_append_journal :: "bytes \<Rightarrow> mem_storage \<Rightarrow> mem_storage" where
  "mem_append_journal entry s = s\<lparr>ms_journal := ms_journal s @ entry\<rparr>"

definition mem_clear_journal :: "mem_storage \<Rightarrow> mem_storage" where
  "mem_clear_journal s = s\<lparr>ms_journal := []\<rparr>"

lemmas mem_storage_defs = mem_storage_new_def mem_read_snapshot_def mem_write_snapshot_def mem_read_journal_def
  mem_append_journal_def mem_clear_journal_def

interpretation mem: storage_log mem_read_snapshot mem_read_journal mem_write_snapshot mem_append_journal mem_clear_journal
  by unfold_locales (simp_all add: mem_storage_defs)

section \<open>Scratch\<close>

locale staging =
  fixes stage :: "bytes \<Rightarrow> 's \<Rightarrow> 's"
    and staged_len :: "'s \<Rightarrow> nat"
    and freeze :: "'s \<Rightarrow> bytes"
    and fresh :: 's
  assumes freeze_fresh: "freeze fresh = []"
    and freeze_stage: "freeze (stage b s) = freeze s @ b"
    and len_freeze: "staged_len s = length (freeze s)"
begin

lemma freeze_fold: "freeze (fold stage bs s) = freeze s @ concat bs"
  by (induction bs arbitrary: s) (simp_all add: freeze_stage)

text \<open>What was written at an offset is read there after freezing.\<close>

lemma freeze_slice:
  "slice (freeze (fold stage cs (stage b s))) (staged_len s) (staged_len s + length b) = b"
  by (simp add: freeze_fold freeze_stage len_freeze slice_def)

end

record mem_scratch =
  sc_buf :: bytes

definition mem_scratch_new :: mem_scratch where
  "mem_scratch_new = \<lparr>sc_buf = []\<rparr>"

definition scratch_write :: "bytes \<Rightarrow> mem_scratch \<Rightarrow> mem_scratch" where
  "scratch_write bs s = s\<lparr>sc_buf := sc_buf s @ bs\<rparr>"

definition scratch_len :: "mem_scratch \<Rightarrow> nat" where
  "scratch_len s = length (sc_buf s)"

definition scratch_is_empty :: "mem_scratch \<Rightarrow> bool" where
  "scratch_is_empty s \<longleftrightarrow> scratch_len s = 0"

definition scratch_freeze :: "mem_scratch \<Rightarrow> bytes" where
  "scratch_freeze s = sc_buf s"

interpretation scratch: staging scratch_write scratch_len scratch_freeze mem_scratch_new
  by unfold_locales (simp_all add: mem_scratch_new_def scratch_write_def scratch_len_def scratch_freeze_def)

end
