(* ===== verification/Journal.thy ===== *)
theory Journal
  imports Model Wire
begin

text \<open>
  The write-ahead journal of \<open>crates/plugmem-core/src/journal.rs\<close>: framing of records (\<open>encode_entry\<close>, \<open>scan\<close>)
  and the engine operations they carry (\<open>Op::encode\<close>, \<open>Op::decode\<close>). The checksum function \<open>xxh3_64\<close>
  is third-party and the parameter \<open>h\<close>; nothing is assumed of it. An \<open>f32\<close> is its bit pattern, as its
  \<open>to_le_bytes\<close> writes it. \<open>encode_entry\<close> panics (\<open>None\<close>) when a record does not fit 32 bits.
\<close>

section \<open>Frames\<close>

definition JOURNAL_HEADER :: nat where
  "JOURNAL_HEADER = 8"

record journal_entry =
  je_op :: u8
  je_payload :: bytes

record journal_scan =
  js_entries :: "journal_entry list"
  js_truncated :: bool

definition body_checksum :: "(bytes \<Rightarrow> u64) \<Rightarrow> bytes \<Rightarrow> u32" where
  "body_checksum h body = ucast (h body)"

text \<open>The header is written with a zero checksum, the body behind it, and the checksum of the body patched in.\<close>

definition encode_entry :: "(bytes \<Rightarrow> u64) \<Rightarrow> bytes \<Rightarrow> u8 \<Rightarrow> bytes \<Rightarrow> bytes option" where
  "encode_entry h out op payload =
     (let len = 1 + length payload in
      if len < 2 ^ 32 then
        let out = out @ u32_le (of_nat len);
            check_pos = length out;
            out = out @ replicate 4 0 @ [op] @ payload;
            check = body_checksum h (drop (check_pos + 4) out)
        in Some (splice out check_pos (u32_le check))
      else None)"

function scan_loop :: "(bytes \<Rightarrow> u64) \<Rightarrow> bytes \<Rightarrow> nat \<Rightarrow> journal_entry list \<Rightarrow> core_error + journal_scan" where
  "scan_loop h journal pos entries =
     (if pos < length journal then
        let rest = drop pos journal in
        if length rest < JOURNAL_HEADER then Inr \<lparr>js_entries = entries, js_truncated = True\<rparr>
        else let len = unat (u32_of_le (slice rest 0 4)) in
        if len = 0 then Inl (Corrupt_core ''journal record with zero length'')
        else case checked_add JOURNAL_HEADER len of
          None \<Rightarrow> Inr \<lparr>js_entries = entries, js_truncated = True\<rparr>
        | Some stop \<Rightarrow>
            if length rest < stop then Inr \<lparr>js_entries = entries, js_truncated = True\<rparr>
            else let body = slice rest JOURNAL_HEADER stop; want = u32_of_le (slice rest 4 JOURNAL_HEADER) in
            if body_checksum h body \<noteq> want then
              if pos + JOURNAL_HEADER + len = length journal then Inr \<lparr>js_entries = entries, js_truncated = True\<rparr>
              else Inl (Corrupt_core ''journal checksum mismatch mid-stream'')
            else scan_loop h journal (pos + (JOURNAL_HEADER + len))
                   (entries @ [\<lparr>je_op = body ! 0, je_payload = drop 1 body\<rparr>])
      else Inr \<lparr>js_entries = entries, js_truncated = False\<rparr>)"
  by pat_completeness auto

termination
  by (relation "measure (\<lambda>(h, journal, pos, entries). length journal - pos)") (auto simp: JOURNAL_HEADER_def)

declare scan_loop.simps [simp del]

definition scan :: "(bytes \<Rightarrow> u64) \<Rightarrow> bytes \<Rightarrow> core_error + journal_scan" where
  "scan h journal = scan_loop h journal 0 []"

section \<open>Fields\<close>

definition journal_u32 :: "bytes \<Rightarrow> nat \<Rightarrow> core_error + u32 \<times> nat" where
  "journal_u32 bs at =
     (if length bs < at + 4 then Inl (Corrupt_core ''journal record truncated inside a field'')
      else Inr (u32_of_le (slice bs at (at + 4)), at + 4))"

definition journal_u64 :: "bytes \<Rightarrow> nat \<Rightarrow> core_error + u64 \<times> nat" where
  "journal_u64 bs at =
     (if length bs < at + 8 then Inl (Corrupt_core ''journal record truncated inside a field'')
      else Inr (u64_of_le (slice bs at (at + 8)), at + 8))"

definition journal_u8 :: "bytes \<Rightarrow> nat \<Rightarrow> core_error + u8 \<times> nat" where
  "journal_u8 bs at =
     (if at < length bs then Inr (bs ! at, at + 1) else Inl (Corrupt_core ''journal record truncated inside a field''))"

definition journal_str :: "bytes \<Rightarrow> nat \<Rightarrow> core_error + bytes \<times> nat" where
  "journal_str = read_str journal_u32 ''journal string overruns its record'' ''journal string is not UTF-8''"

definition take_vec_f32 :: "bytes \<Rightarrow> nat \<Rightarrow> core_error + u32 list \<times> nat" where
  "take_vec_f32 bs at =
     try_res (journal_u32 bs at) (\<lambda>(count, at).
       let stop = at + unat count * 4 in
       if length bs < stop then Inl (Corrupt_core ''journal vector overruns its record'')
       else Inr (read_u32s bs at (unat count), stop))"

definition put_vec_f32 :: "u32 list \<Rightarrow> bytes" where
  "put_vec_f32 v = u32_le (of_nat (length v)) @ concat (map u32_le v)"

definition put_entity :: "bytes option \<Rightarrow> bytes" where
  "put_entity entity = (case entity of Some name \<Rightarrow> [1] @ put_str name | None \<Rightarrow> [0])"

definition take_entity :: "bytes \<Rightarrow> nat \<Rightarrow> core_error + bytes option \<times> nat" where
  "take_entity bs at =
     (if at < length bs \<and> bs ! at = 0 then Inr (None, at + 1)
      else if at < length bs \<and> bs ! at = 1 then try_res (journal_str bs (at + 1)) (\<lambda>(s, at). Inr (Some s, at))
      else Inl (Corrupt_core ''journal entity flag is invalid''))"

section \<open>Operations\<close>

datatype op =
    Remember (op_now: u64) (op_valid_from: u64) (op_entity: "bytes option") (op_text: bytes) (op_tags: "bytes list")
      (op_links: "(bytes \<times> bytes) list") (op_vector: "u32 list") (op_metadata: "(bytes \<times> bytes) list")
      (op_revises: fact_id) (op_assigned: fact_id)
  | Forget (op_now: u64) (op_fact: fact_id)
  | Link (op_now: u64) (op_src: bytes) (op_rel: bytes) (op_dst: bytes) (op_provenance: fact_id)
  | Maintain (op_now: u64) (op_mode: u8) (op_max_hnsw_inserts: u32)
  | Unlink (op_now: u64) (op_src: bytes) (op_rel: bytes) (op_dst: bytes)
  | RemoveTag (op_now: u64) (op_tag: bytes)
  | SetVectorSpace (op_space: bytes)

fun op_payload :: "op \<Rightarrow> bytes" where
  "op_payload (Remember now valid_from entity text tags links vector metadata revises assigned) =
     u64_le now @ u64_le valid_from @ u32_le revises @ u32_le assigned @ put_entity entity @ put_str text @
     put_counted (\<lambda>c. [c]) of_nat put_str tags @ put_counted (\<lambda>c. [c]) of_nat (put_pair put_str put_str) links @
     put_vec_f32 vector @ put_counted u32_le of_nat (put_pair put_str put_str) metadata"
| "op_payload (Forget now fid) = u64_le now @ u32_le fid"
| "op_payload (Link now src rel dst provenance) = u64_le now @ u32_le provenance @ put_str src @ put_str rel @ put_str dst"
| "op_payload (Unlink now src rel dst) = u64_le now @ put_str src @ put_str rel @ put_str dst"
| "op_payload (Maintain now mode max_hnsw_inserts) = u64_le now @ [mode] @ u32_le max_hnsw_inserts"
| "op_payload (RemoveTag now tag) = u64_le now @ put_str tag"
| "op_payload (SetVectorSpace space) = put_str space"

fun op_code :: "op \<Rightarrow> u8" where
  "op_code (Remember _ _ _ _ _ _ _ _ revises _) = (if id_is_none revises then 1 else 2)"
| "op_code (Forget _ _) = 3"
| "op_code (Link _ _ _ _ _) = 4"
| "op_code (Unlink _ _ _ _) = 6"
| "op_code (Maintain _ _ _) = 5"
| "op_code (RemoveTag _ _) = 7"
| "op_code (SetVectorSpace _) = 8"

definition op_encode :: "(bytes \<Rightarrow> u64) \<Rightarrow> op \<Rightarrow> bytes \<Rightarrow> bytes option" where
  "op_encode h v out = encode_entry h out (op_code v) (op_payload v)"

definition decode_remember :: "u8 \<Rightarrow> bytes \<Rightarrow> nat \<Rightarrow> core_error + op \<times> nat" where
  "decode_remember op p at =
     try_res (journal_u64 p at) (\<lambda>(now, at). try_res (journal_u64 p at) (\<lambda>(valid_from, at).
     try_res (journal_u32 p at) (\<lambda>(revises, at). try_res (journal_u32 p at) (\<lambda>(assigned, at).
     if (op = 2) = id_is_none revises then Inl (Corrupt_core ''journal revises field disagrees with op'')
     else try_res (take_entity p at) (\<lambda>(entity, at). try_res (journal_str p at) (\<lambda>(text, at).
     try_res (take_counted journal_u8 unat journal_str p at) (\<lambda>(tags, at).
     try_res (take_counted journal_u8 unat (take_pair journal_str journal_str) p at) (\<lambda>(links, at).
     try_res (take_vec_f32 p at) (\<lambda>(vector, at).
     try_res (take_counted journal_u32 unat (take_pair journal_str journal_str) p at) (\<lambda>(metadata, at).
     Inr (Remember now valid_from entity text tags links vector metadata revises assigned, at)))))))))))"

definition decode_forget :: "bytes \<Rightarrow> nat \<Rightarrow> core_error + op \<times> nat" where
  "decode_forget p at =
     try_res (journal_u64 p at) (\<lambda>(now, at). try_res (journal_u32 p at) (\<lambda>(fid, at). Inr (Forget now fid, at)))"

definition decode_link :: "bytes \<Rightarrow> nat \<Rightarrow> core_error + op \<times> nat" where
  "decode_link p at =
     try_res (journal_u64 p at) (\<lambda>(now, at). try_res (journal_u32 p at) (\<lambda>(provenance, at).
     try_res (journal_str p at) (\<lambda>(src, at). try_res (journal_str p at) (\<lambda>(rel, at).
     try_res (journal_str p at) (\<lambda>(dst, at). Inr (Link now src rel dst provenance, at))))))"

definition decode_maintain :: "bytes \<Rightarrow> nat \<Rightarrow> core_error + op \<times> nat" where
  "decode_maintain p at =
     try_res (journal_u64 p at) (\<lambda>(now, at).
     if at = length p then Inr (Maintain now 0 NONE_U32, at)
     else try_res (journal_u8 p at) (\<lambda>(mode, at). try_res (journal_u32 p at) (\<lambda>(max_hnsw_inserts, at).
       Inr (Maintain now mode max_hnsw_inserts, at))))"

definition decode_unlink :: "bytes \<Rightarrow> nat \<Rightarrow> core_error + op \<times> nat" where
  "decode_unlink p at =
     try_res (journal_u64 p at) (\<lambda>(now, at). try_res (journal_str p at) (\<lambda>(src, at).
     try_res (journal_str p at) (\<lambda>(rel, at). try_res (journal_str p at) (\<lambda>(dst, at). Inr (Unlink now src rel dst, at)))))"

definition decode_remove_tag :: "bytes \<Rightarrow> nat \<Rightarrow> core_error + op \<times> nat" where
  "decode_remove_tag p at =
     try_res (journal_u64 p at) (\<lambda>(now, at). try_res (journal_str p at) (\<lambda>(tag, at). Inr (RemoveTag now tag, at)))"

definition decode_set_space :: "bytes \<Rightarrow> nat \<Rightarrow> core_error + op \<times> nat" where
  "decode_set_space p at = try_res (journal_str p at) (\<lambda>(space, at). Inr (SetVectorSpace space, at))"

definition op_decode :: "u8 \<Rightarrow> bytes \<Rightarrow> core_error + op" where
  "op_decode op payload =
     try_res
       (if op = 1 \<or> op = 2 then decode_remember op payload 0
        else if op = 3 then decode_forget payload 0
        else if op = 4 then decode_link payload 0
        else if op = 5 then decode_maintain payload 0
        else if op = 6 then decode_unlink payload 0
        else if op = 7 then decode_remove_tag payload 0
        else if op = 8 then decode_set_space payload 0
        else Inl (Corrupt_core ''unknown journal op''))
       (\<lambda>(decoded, at).
         if at \<noteq> length payload then Inl (Corrupt_core ''journal record has trailing bytes'') else Inr decoded)"

end
