(* ===== verification/Journal_Proofs.thy ===== *)
theory Journal_Proofs
  imports Journal
begin

text \<open>
  Lemmas about the journal: its field readers satisfy the contract \<open>wire_field\<close>, the body of every
  operation is a tuple of such fields, and a frame that stands in a buffer is scanned as one entry.
\<close>

section \<open>The fields\<close>

interpretation ju32: wire_field "\<lambda>_. True" u32_le journal_u32
  using wire_bytes [of u32_le 4 u32_of_le "\<lambda>_. Corrupt_core ''journal record truncated inside a field''"]
  by (simp add: journal_u32_def [abs_def] word_bytes_of)

interpretation ju64: wire_field "\<lambda>_. True" u64_le journal_u64
  using wire_bytes [of u64_le 8 u64_of_le "\<lambda>_. Corrupt_core ''journal record truncated inside a field''"]
  by (simp add: journal_u64_def [abs_def] word_bytes_of)

interpretation ju8: wire_field "\<lambda>_. True" "\<lambda>c. [c]" journal_u8
proof
  show "journal_u8 bs at = Inr (x, at + length [x])"
    if "at \<le> length bs" "drop at bs = [x] @ rest" for x :: u8 and bs at rest
  proof -
    have "at < length bs" using that by (cases "at < length bs") simp_all
    then show ?thesis using that(2) by (simp add: journal_u8_def Cons_nth_drop_Suc [symmetric])
  qed
  show "True \<and> at' \<le> length bs \<and> drop at bs = [x] @ drop at' bs"
    if "at \<le> length bs" "journal_u8 bs at = Inr (x, at')" for at bs x at'
    using that by (auto simp: journal_u8_def Cons_nth_drop_Suc split: if_splits)
qed

interpretation jstr: wire_field str_ok put_str journal_str
  unfolding journal_str_def by (rule wire_str) (rule ju32.wire_field_axioms)

definition entity_ok :: "bytes option \<Rightarrow> bool" where
  "entity_ok e \<longleftrightarrow> (\<forall>s. e = Some s \<longrightarrow> str_ok s)"

interpretation jentity: wire_field entity_ok put_entity take_entity
proof
  fix e :: "bytes option" and bs at rest
  assume e: "entity_ok e" and b: "length bs \<le> usize_max" "at \<le> length bs" and d: "drop at bs = put_entity e @ rest"
  show "take_entity bs at = Inr (e, at + length (put_entity e))"
  proof (cases e)
    case None
    with d have "drop at bs = [0] @ rest" by (simp add: put_entity_def)
    from ju8.get_rest [OF TrueI b this] have "at < length bs" "bs ! at = 0"
      by (auto simp: journal_u8_def split: if_splits)
    with None show ?thesis by (simp add: take_entity_def put_entity_def)
  next
    case (Some s)
    with d have "drop at bs = [1] @ put_str s @ rest" by (simp add: put_entity_def)
    note one = ju8.get_rest [OF TrueI b this]
    then have "at < length bs" "bs ! at = 1" by (auto simp: journal_u8_def split: if_splits)
    moreover have "journal_str bs (at + 1) = Inr (s, at + 1 + length (put_str s))"
      using jstr.get_put [of s bs "at + 1"] one b(1) e Some by (simp add: entity_ok_def)
    ultimately show ?thesis using Some by (simp add: take_entity_def put_entity_def)
  qed
next
  fix at bs e at'
  assume at: "at \<le> length bs" and t: "take_entity bs at = Inr (e, at')"
  show "entity_ok e \<and> at' \<le> length bs \<and> drop at bs = put_entity e @ drop at' bs"
  proof (cases e)
    case None
    with t have "at < length bs" "bs ! at = 0" "at' = at + 1"
      by (auto simp: take_entity_def try_res_eq_Inr split: if_splits)
    then show ?thesis using None Cons_nth_drop_Suc [of at bs] by (simp add: put_entity_def entity_ok_def)
  next
    case (Some s)
    with t have "at < length bs" "bs ! at = 1" and s: "journal_str bs (at + 1) = Inr (s, at')"
      by (auto simp: take_entity_def try_res_eq_Inr split: if_splits)
    then show ?thesis
      using Some Cons_nth_drop_Suc [of at bs] jstr.get_exact [OF _ s] by (simp add: put_entity_def entity_ok_def)
  qed
qed

definition vec_ok :: "u32 list \<Rightarrow> bool" where
  "vec_ok v \<longleftrightarrow> length v < 2 ^ 32"

interpretation jvec: wire_field vec_ok put_vec_f32 take_vec_f32
proof
  fix v :: "u32 list" and bs at rest
  assume v: "vec_ok v" and b: "length bs \<le> usize_max" "at \<le> length bs" and d: "drop at bs = put_vec_f32 v @ rest"
  have d1: "drop at bs = u32_le (of_nat (length v)) @ concat (map u32_le v) @ rest" using d by (simp add: put_vec_f32_def)
  note one = ju32.get_rest [OF TrueI b d1]
  have n: "unat (of_nat (length v) :: u32) = length v" using v by (simp add: vec_ok_def)
  have len: "length (concat (map u32_le v)) = length v * 4"
    by (subst concat_map_const_length [where n = 4]) simp_all
  have "length (drop (at + 4) bs) = length (concat (map u32_le v) @ rest)" using one(3) by simp
  then have fits: "at + 4 + length v * 4 \<le> length bs" using one(2) by (simp add: len)
  have "bs = take (at + 4) bs @ concat (map u32_le v) @ rest" using one(3) by (metis append_take_drop_id length_word_bytes(5))
  then have "read_u32s bs (at + 4) (length v) = v"
    using read_back(1) [of "length v" v "at + 4" "take (at + 4) bs" rest] one(2) by simp
  then show "take_vec_f32 bs at = Inr (v, at + length (put_vec_f32 v))"
    using one(1) fits by (simp add: take_vec_f32_def put_vec_f32_def n len)
next
  fix at bs v at'
  assume at: "at \<le> length bs" and t: "take_vec_f32 bs at = Inr (v, at')"
  obtain c m where c: "journal_u32 bs at = Inr (c, m)" and v: "v = read_u32s bs m (unat c)" and e: "at' = m + unat c * 4" "at' \<le> length bs"
    using t by (auto simp: take_vec_f32_def try_res_eq_Inr Let_def split: if_splits)
  note one = ju32.get_exact [OF at c]
  have "concat (map u32_le v) = slice bs m at'" using write_back(1) [of m "unat c" bs] e by (simp add: v)
  moreover have "drop m bs = slice bs m at' @ drop at' bs"
    using e(1) slice_join [of m at' "length bs" bs] e(2) by (simp add: slice_full_drop)
  ultimately show "vec_ok v \<and> at' \<le> length bs \<and> drop at bs = put_vec_f32 v @ drop at' bs"
    using one e(2) unsigned_less [of c] by (simp add: vec_ok_def put_vec_f32_def v)
qed

lemmas wire_links = wire_pair [OF jstr.wire_field_axioms jstr.wire_field_axioms]

definition strs_ok :: "bytes list \<Rightarrow> bool" where
  "strs_ok xs \<longleftrightarrow> list_all str_ok xs \<and> length xs < 256"

definition links_ok :: "nat \<Rightarrow> (bytes \<times> bytes) list \<Rightarrow> bool" where
  "links_ok n xs \<longleftrightarrow> list_all (\<lambda>x. str_ok (fst x) \<and> str_ok (snd x)) xs \<and> length xs < n"

lemma unat_mod_lt: "unat (of_nat n :: 'a::len word) = n \<longleftrightarrow> n < 2 ^ LENGTH('a)"
  by (metis unat_of_nat mod_less unsigned_less)

interpretation jtags: wire_field strs_ok "put_counted (\<lambda>c. [c]) (of_nat :: nat \<Rightarrow> u8) put_str" "take_counted journal_u8 unat journal_str"
  using wire_counted [OF ju8.wire_field_axioms jstr.wire_field_axioms, of of_nat unat]
  by (simp add: strs_ok_def [abs_def] unat_mod_lt)

interpretation jlinks: wire_field "links_ok 256" "put_counted (\<lambda>c. [c]) (of_nat :: nat \<Rightarrow> u8) (put_pair put_str put_str)"
    "take_counted journal_u8 unat (take_pair journal_str journal_str)"
  using wire_counted [OF ju8.wire_field_axioms wire_links, of of_nat unat]
  by (simp add: links_ok_def [abs_def] unat_mod_lt)

interpretation jmeta: wire_field "links_ok (2 ^ 32)" "put_counted u32_le (of_nat :: nat \<Rightarrow> u32) (put_pair put_str put_str)"
    "take_counted journal_u32 unat (take_pair journal_str journal_str)"
  using wire_counted [OF ju32.wire_field_axioms wire_links, of of_nat unat]
  by (simp add: links_ok_def [abs_def] unat_mod_lt)

section \<open>The bodies of the operations\<close>

text \<open>A body that is a tuple of fields decodes exactly the images of its tuple.\<close>

lemma try_res_assoc: "try_res (try_res r f) g = try_res r (\<lambda>x. try_res (f x) g)"
  by (cases r) simp_all

lemmas body_simps = take_pair_def try_res_assoc case_prod_unfold

lemma body_complete:
  assumes "wire_field ok put get" and "ok x" and "length (put x) \<le> usize_max"
  shows "get (put x) 0 = Inr (x, length (put x))"
  using wire_field.get_put [OF assms(1,2,3), of 0 "[]"] by simp

lemma body_exact:
  assumes "wire_field ok put get" and "get p 0 = Inr (x, length p)"
  shows "ok x" and "p = put x"
  using wire_field.get_exact [OF assms(1) _ assms(2)] by simp_all

definition head_fields :: "bytes \<Rightarrow> nat \<Rightarrow> core_error + (u64 \<times> u64 \<times> u32 \<times> u32) \<times> nat" where
  "head_fields = take_pair journal_u64 (take_pair journal_u64 (take_pair journal_u32 journal_u32))"

lemmas wire_head = wire_pair [OF ju64.wire_field_axioms wire_pair [OF ju64.wire_field_axioms
  wire_pair [OF ju32.wire_field_axioms ju32.wire_field_axioms]], folded head_fields_def]

definition body_fields where
  "body_fields = take_pair take_entity (take_pair journal_str (take_pair (take_counted journal_u8 unat journal_str)
     (take_pair (take_counted journal_u8 unat (take_pair journal_str journal_str)) (take_pair take_vec_f32
       (take_counted journal_u32 unat (take_pair journal_str journal_str))))))"

lemmas wire_body = wire_pair [OF jentity.wire_field_axioms wire_pair [OF jstr.wire_field_axioms
  wire_pair [OF jtags.wire_field_axioms wire_pair [OF jlinks.wire_field_axioms
  wire_pair [OF jvec.wire_field_axioms jmeta.wire_field_axioms]]]], folded body_fields_def]

lemmas wire_link = wire_pair [OF ju64.wire_field_axioms wire_pair [OF ju32.wire_field_axioms
  wire_pair [OF jstr.wire_field_axioms wire_pair [OF jstr.wire_field_axioms jstr.wire_field_axioms]]]]

lemmas wire_unlink = wire_pair [OF ju64.wire_field_axioms
  wire_pair [OF jstr.wire_field_axioms wire_pair [OF jstr.wire_field_axioms jstr.wire_field_axioms]]]

lemmas wire_forget = wire_pair [OF ju64.wire_field_axioms ju32.wire_field_axioms]
lemmas wire_remove_tag = wire_pair [OF ju64.wire_field_axioms jstr.wire_field_axioms]
lemmas wire_budget = wire_pair [OF ju8.wire_field_axioms ju32.wire_field_axioms]

lemma decode_tuples:
  "decode_forget p at = try_res (take_pair journal_u64 journal_u32 p at) (\<lambda>(x, at). Inr (Forget (fst x) (snd x), at))"
  "decode_link p at = try_res (take_pair journal_u64 (take_pair journal_u32 (take_pair journal_str (take_pair journal_str journal_str))) p at)
     (\<lambda>((now, provenance, src, rel, dst), at). Inr (Link now src rel dst provenance, at))"
  "decode_unlink p at = try_res (take_pair journal_u64 (take_pair journal_str (take_pair journal_str journal_str)) p at)
     (\<lambda>((now, src, rel, dst), at). Inr (Unlink now src rel dst, at))"
  "decode_remove_tag p at = try_res (take_pair journal_u64 journal_str p at) (\<lambda>((now, tag), at). Inr (RemoveTag now tag, at))"
  "decode_maintain p at = try_res (journal_u64 p at) (\<lambda>(now, at). if at = length p then Inr (Maintain now 0 NONE_U32, at)
     else try_res (take_pair journal_u8 journal_u32 p at) (\<lambda>((mode, n), at). Inr (Maintain now mode n, at)))"
  by (simp_all add: decode_forget_def decode_link_def decode_unlink_def decode_remove_tag_def decode_maintain_def body_simps cong: if_cong)

lemma decode_remember_tuple:
  "decode_remember op p at = try_res (head_fields p at) (\<lambda>((now, valid_from, revises, assigned), at).
     if (op = 2) = id_is_none revises then Inl (Corrupt_core ''journal revises field disagrees with op'')
     else try_res (body_fields p at) (\<lambda>((entity, text, tags, links, vector, metadata), at).
       Inr (Remember now valid_from entity text tags links vector metadata revises assigned, at)))"
  by (simp add: decode_remember_def head_fields_def body_fields_def body_simps cong: if_cong)

section \<open>Operations\<close>

text \<open>The values of the code's types an encoding can hold: strings are UTF-8, and every count fits its width.\<close>

fun op_ok :: "op \<Rightarrow> bool" where
  "op_ok (Remember now valid_from entity text tags links vector metadata revises assigned) \<longleftrightarrow>
     entity_ok entity \<and> str_ok text \<and> strs_ok tags \<and> links_ok 256 links \<and> vec_ok vector \<and> links_ok (2 ^ 32) metadata"
| "op_ok (Forget now fid) \<longleftrightarrow> True"
| "op_ok (Link now src rel dst provenance) \<longleftrightarrow> str_ok src \<and> str_ok rel \<and> str_ok dst"
| "op_ok (Maintain now mode n) \<longleftrightarrow> True"
| "op_ok (Unlink now src rel dst) \<longleftrightarrow> str_ok src \<and> str_ok rel \<and> str_ok dst"
| "op_ok (RemoveTag now tag) \<longleftrightarrow> str_ok tag"
| "op_ok (SetVectorSpace space) \<longleftrightarrow> str_ok space"

definition put_head :: "u64 \<times> u64 \<times> u32 \<times> u32 \<Rightarrow> bytes" where
  "put_head = put_pair u64_le (put_pair u64_le (put_pair u32_le u32_le))"

definition put_body where
  "put_body = put_pair put_entity (put_pair put_str (put_pair (put_counted (\<lambda>c. [c]) (of_nat :: nat \<Rightarrow> u8) put_str)
     (put_pair (put_counted (\<lambda>c. [c]) (of_nat :: nat \<Rightarrow> u8) (put_pair put_str put_str))
     (put_pair put_vec_f32 (put_counted u32_le (of_nat :: nat \<Rightarrow> u32) (put_pair put_str put_str))))))"

lemma remember_payload:
  "op_payload (Remember now vf e text tags links vector metadata revises assigned) =
     put_head (now, vf, revises, assigned) @ put_body (e, text, tags, links, vector, metadata)"
  by (simp add: put_head_def put_body_def put_pair_def)

lemma decode_complete:
  assumes ok: "op_ok v" and len: "length (op_payload v) \<le> usize_max"
  shows "op_decode (op_code v) (op_payload v) = Inr v"
proof (cases v)
  case (Remember now vf e tx tags links vector metadata revises assigned)
  define hf body where "hf = (now, vf, revises, assigned)" and "body = (e, tx, tags, links, vector, metadata)"
  have p: "op_payload v = put_head hf @ put_body body" unfolding Remember hf_def body_def by (rule remember_payload)
  have h: "head_fields (op_payload v) 0 = Inr (hf, length (put_head hf))" "length (put_head hf) \<le> length (op_payload v)"
      "drop (length (put_head hf)) (op_payload v) = put_body body"
    using wire_field.get_rest [OF wire_head [folded put_head_def], where x = hf and bs = "op_payload v" and at = 0 and rest = "put_body body"] len by (simp_all add: p)
  have okb: "entity_ok e" "str_ok tx" "strs_ok tags" "links_ok 256 links" "vec_ok vector" "links_ok (2 ^ 32) metadata"
    using ok by (simp_all add: Remember)
  have "body_fields (op_payload v) (length (put_head hf)) = Inr (body, length (put_head hf) + length (put_body body))"
    by (rule wire_field.get_put [OF wire_body [folded put_body_def] _ len h(2), where rest = "[]"])
      (use okb h(3) in \<open>simp_all add: body_def\<close>)
  moreover have "length (op_payload v) = length (put_head hf) + length (put_body body)" by (simp only: p length_append)
  ultimately have "body_fields (op_payload v) (length (put_head hf)) = Inr (body, length (op_payload v))" by simp
  with h(1) have "decode_remember (op_code v) (op_payload v) 0 = Inr (v, length (op_payload v))"
    by (simp add: decode_remember_tuple hf_def body_def Remember)
  then show ?thesis by (simp add: op_decode_def Remember)
next
  case (Forget now fid)
  then show ?thesis
    using body_complete [OF wire_forget, of "(now, fid)"] len by (simp add: op_decode_def decode_tuples put_pair_def)
next
  case (Link now src rel dst provenance)
  then show ?thesis
    using body_complete [OF wire_link, of "(now, provenance, src, rel, dst)"] len ok
    by (simp add: op_decode_def decode_tuples put_pair_def)
next
  case (Maintain now mode n)
  let ?p = "u64_le now @ [mode] @ u32_le n"
  have a: "journal_u64 ?p 0 = Inr (now, 8)" "8 \<le> length ?p" "drop 8 ?p = [mode] @ u32_le n"
    using ju64.get_rest [where x = now and bs = ?p and at = 0 and rest = "[mode] @ u32_le n"] by (simp_all add: usize_max_def)
  have "take_pair journal_u8 journal_u32 ?p 8 = Inr ((mode, n), 13)"
    using wire_field.get_put [OF wire_budget, where x = "(mode, n)" and bs = ?p and at = 8 and rest = "[]"] a(2,3) by (simp add: put_pair_def usize_max_def)
  with a(1) show ?thesis by (simp add: op_decode_def decode_tuples Maintain)
next
  case (Unlink now src rel dst)
  then show ?thesis
    using body_complete [OF wire_unlink, of "(now, src, rel, dst)"] len ok
    by (simp add: op_decode_def decode_tuples put_pair_def)
next
  case (RemoveTag now tag)
  then show ?thesis
    using body_complete [OF wire_remove_tag, of "(now, tag)"] len ok by (simp add: op_decode_def decode_tuples put_pair_def)
next
  case (SetVectorSpace space)
  then show ?thesis
    using body_complete [OF jstr.wire_field_axioms, of space] len ok by (simp add: op_decode_def decode_set_space_def)
qed

text \<open>The one image that is not the writer's: the short \<open>Maintain\<close> record, read as an unlimited pass.\<close>

definition short_maintain :: "u8 \<Rightarrow> bytes \<Rightarrow> op \<Rightarrow> bool" where
  "short_maintain op p v \<longleftrightarrow> op = 5 \<and> length p = 8 \<and> v = Maintain (u64_of_le p) 0 NONE_U32"

lemma decode_cases:
  assumes "op_decode op p = Inr v"
  obtains (remember) "op = 1 \<or> op = 2" "decode_remember op p 0 = Inr (v, length p)"
    | (forget) "op = 3" "decode_forget p 0 = Inr (v, length p)"
    | (link) "op = 4" "decode_link p 0 = Inr (v, length p)"
    | (maintain) "op = 5" "decode_maintain p 0 = Inr (v, length p)"
    | (unlink) "op = 6" "decode_unlink p 0 = Inr (v, length p)"
    | (remove_tag) "op = 7" "decode_remove_tag p 0 = Inr (v, length p)"
    | (set_space) "op = 8" "decode_set_space p 0 = Inr (v, length p)"
  using assms unfolding op_decode_def try_res_eq_Inr by (auto split: if_splits)

lemma decode_exact:
  assumes "op_decode op p = Inr v"
  shows "op_ok v \<and> op_code v = op \<and> (op_payload v = p \<or> short_maintain op p v)"
  using assms
proof (cases rule: decode_cases)
  case remember
  from remember(2) [unfolded decode_remember_tuple try_res_eq_Inr]
  obtain x m where h0: "head_fields p 0 = Inr (x, m)"
    and t: "(case x of (now, vf, revises, assigned) \<Rightarrow> if (op = 2) = id_is_none revises
        then Inl (Corrupt_core ''journal revises field disagrees with op'')
        else try_res (body_fields p m) (\<lambda>((e, tx, tags, links, vector, metadata), at).
          Inr (Remember now vf e tx tags links vector metadata revises assigned, at))) = Inr (v, length p)"
    by auto
  obtain now vf revises assigned where x: "x = (now, vf, revises, assigned)" by (cases x)
  have r: "(op = 2) \<noteq> id_is_none revises" using t by (simp add: x split: if_splits)
  with t obtain body where b: "body_fields p m = Inr (body, length p)"
    and v: "v = Remember now vf (fst body) (fst (snd body)) (fst (snd (snd body))) (fst (snd (snd (snd body))))
        (fst (snd (snd (snd (snd body))))) (snd (snd (snd (snd (snd body))))) revises assigned"
    by (auto simp: x try_res_eq_Inr)
  note h = h0 [unfolded x]
  note hx = wire_field.get_exact [OF wire_head [folded put_head_def] _ h]
  have m: "m \<le> length p" using hx by simp
  note bx = wire_field.get_exact [OF wire_body [folded put_body_def] m b]
  have "op_payload v = put_head (now, vf, revises, assigned) @ put_body body" unfolding v remember_payload by simp
  then have "op_payload v = p" using hx bx by simp
  moreover have "op_ok v" using bx by (simp add: v)
  moreover have "op_code v = op" using remember(1) r by (auto simp: v)
  ultimately show ?thesis by simp
next
  case forget
  then obtain x where x: "take_pair journal_u64 journal_u32 p 0 = Inr (x, length p)" and v: "v = Forget (fst x) (snd x)"
    by (auto simp: decode_tuples try_res_eq_Inr)
  then show ?thesis using body_exact [OF wire_forget x] forget(1) by (simp add: put_pair_def)
next
  case link
  then obtain now prov src rel dst where x: "take_pair journal_u64 (take_pair journal_u32 (take_pair journal_str (take_pair journal_str journal_str))) p 0 =
      Inr ((now, prov, src, rel, dst), length p)" and v: "v = Link now src rel dst prov"
    by (auto simp: decode_tuples try_res_eq_Inr)
  then show ?thesis using body_exact [OF wire_link x] link(1) by (simp add: put_pair_def)
next
  case maintain
  then obtain now m where n: "journal_u64 p 0 = Inr (now, m)"
    and r: "m = length p \<and> v = Maintain now 0 NONE_U32 \<or>
      (\<exists>mode k. m \<noteq> length p \<and> take_pair journal_u8 journal_u32 p m = Inr ((mode, k), length p) \<and> v = Maintain now mode k)"
    by (auto simp: decode_tuples try_res_eq_Inr split: if_splits)
  note nx = ju64.get_exact [OF _ n] ju64.get_end [OF _ n]
  from r show ?thesis
  proof
    assume "m = length p \<and> v = Maintain now 0 NONE_U32"
    then show ?thesis using nx maintain(1) by (simp add: short_maintain_def)
  next
    assume "\<exists>mode k. m \<noteq> length p \<and> take_pair journal_u8 journal_u32 p m = Inr ((mode, k), length p) \<and> v = Maintain now mode k"
    then obtain mode k where t: "take_pair journal_u8 journal_u32 p m = Inr ((mode, k), length p)" and v: "v = Maintain now mode k"
      by blast
    show ?thesis using nx wire_field.get_exact [OF wire_budget _ t] maintain(1) by (simp add: v put_pair_def)
  qed
next
  case unlink
  then obtain now src rel dst where x: "take_pair journal_u64 (take_pair journal_str (take_pair journal_str journal_str)) p 0 =
      Inr ((now, src, rel, dst), length p)" and v: "v = Unlink now src rel dst"
    by (auto simp: decode_tuples try_res_eq_Inr)
  then show ?thesis using body_exact [OF wire_unlink x] unlink(1) by (simp add: put_pair_def)
next
  case remove_tag
  then obtain now tag where x: "take_pair journal_u64 journal_str p 0 = Inr ((now, tag), length p)" and v: "v = RemoveTag now tag"
    by (auto simp: decode_tuples try_res_eq_Inr)
  then show ?thesis using body_exact [OF wire_remove_tag x] remove_tag(1) by (simp add: put_pair_def)
next
  case set_space
  then obtain space where x: "journal_str p 0 = Inr (space, length p)" and v: "v = SetVectorSpace space"
    by (auto simp: decode_set_space_def try_res_eq_Inr)
  then show ?thesis using body_exact [OF jstr.wire_field_axioms x] set_space(1) by simp
qed

section \<open>Frames\<close>

text \<open>The bytes one entry occupies.\<close>

definition frame :: "(bytes \<Rightarrow> u64) \<Rightarrow> journal_entry \<Rightarrow> bytes" where
  "frame h e = u32_le (of_nat (1 + length (je_payload e))) @ u32_le (body_checksum h (je_op e # je_payload e)) @ je_op e # je_payload e"

definition entry_fits :: "journal_entry \<Rightarrow> bool" where
  "entry_fits e \<longleftrightarrow> 1 + length (je_payload e) < 2 ^ 32"

lemma encode_entry_frame:
  "encode_entry h out op p = (if entry_fits \<lparr>je_op = op, je_payload = p\<rparr> then Some (out @ frame h \<lparr>je_op = op, je_payload = p\<rparr>) else None)"
  by (simp add: encode_entry_def frame_def entry_fits_def splice_def Let_def)

lemma length_frame: "length (frame h e) = 9 + length (je_payload e)"
  by (simp add: frame_def)

lemma frame_len: "entry_fits e \<Longrightarrow> unat (of_nat (1 + length (je_payload e)) :: u32) = 1 + length (je_payload e)"
  using unat_of_nat_u32 [of "1 + length (je_payload e)"] unfolding entry_fits_def by simp

end
