(* ===== verification/Journal_Scan.thy ===== *)
theory Journal_Scan
  imports Journal_Proofs
begin

text \<open>
  Scanning a journal buffer: whole frames are read back one by one, what is left of a torn last frame is dropped,
  and a successful scan has split its input into exactly those frames and that tail.
\<close>

lemma entry_eta [simp]: "\<lparr>je_op = je_op e, je_payload = je_payload e\<rparr> = e"
  by (cases e) simp

section \<open>One frame\<close>

text \<open>One iteration of the loop, over the rest of the buffer.\<close>

lemma scan_unfold:
  assumes pos: "pos < length j" and len: "length j \<le> usize_max" and d: "drop pos j = r"
    and n: "unat (u32_of_le (take 4 r)) = n" and body: "take n (drop 8 r) = body"
  shows "scan_loop h j pos acc =
     (if length r < 8 then Inr \<lparr>js_entries = acc, js_truncated = True\<rparr>
      else if n = 0 then Inl (Corrupt_core ''journal record with zero length'')
      else if length r < 8 + n then Inr \<lparr>js_entries = acc, js_truncated = True\<rparr>
      else if body_checksum h body \<noteq> u32_of_le (take 4 (drop 4 r)) then
        if length r = 8 + n then Inr \<lparr>js_entries = acc, js_truncated = True\<rparr>
        else Inl (Corrupt_core ''journal checksum mismatch mid-stream'')
      else scan_loop h j (pos + (8 + n)) (acc @ [\<lparr>je_op = body ! 0, je_payload = drop 1 body\<rparr>]))"
proof -
  have L: "length r = length j - pos" using d by auto
  have sl: "slice r 0 4 = take 4 r" "slice r 4 8 = take 4 (drop 4 r)" "slice r 8 (8 + n) = body"
    using body by (simp_all add: slice_def take_drop add.commute)
  have e: "pos + 8 + n = length j \<longleftrightarrow> length r = 8 + n" if "\<not> length r < 8 + n" using L that pos by linarith
  have over: "length r < 8 + n" if "usize_max < 8 + n" using that L len by linarith
  show ?thesis
    by (subst scan_loop.simps, unfold Let_def d sl n JOURNAL_HEADER_def)
      (use pos over e sl(3) in \<open>auto split: option.split\<close>)
qed

lemma scan_frame:
  assumes e: "entry_fits e" and len: "length j \<le> usize_max" and d: "drop pos j = frame h e @ rest"
  shows "scan_loop h j pos acc = scan_loop h j (pos + length (frame h e)) (acc @ [e])"
proof -
  have pos: "pos < length j"
  proof (rule ccontr)
    assume "\<not> pos < length j"
    with d show False by (simp add: frame_def)
  qed
  have n: "unat (u32_of_le (take 4 (frame h e @ rest))) = 1 + length (je_payload e)"
    unfolding frame_def using frame_len [OF e] by simp
  have body: "take (1 + length (je_payload e)) (drop 8 (frame h e @ rest)) = je_op e # je_payload e"
    and want: "u32_of_le (take 4 (drop 4 (frame h e @ rest))) = body_checksum h (je_op e # je_payload e)"
    unfolding frame_def by simp_all
  show ?thesis
    unfolding scan_unfold [OF pos len d n body] want by (simp add: length_frame)
qed

lemma scan_torn:
  assumes e: "entry_fits e" and len: "length j \<le> usize_max" and d: "drop pos j = take n (frame h e)"
    and n: "0 < n" "n < length (frame h e)"
  shows "scan_loop h j pos acc = Inr \<lparr>js_entries = acc, js_truncated = True\<rparr>"
proof -
  have L: "length j - pos = n" using arg_cong [OF d, of length] n(2) by simp
  then have pos: "pos < length j" using n(1) by linarith
  have rest: "length (take n (frame h e)) = n" using n(2) by simp
  have big: "unat (u32_of_le (take 4 (take n (frame h e)))) = 1 + length (je_payload e)" if "\<not> n < 8"
  proof -
    have "take 4 (take n (frame h e)) = take 4 (frame h e)" using that by simp
    then show ?thesis unfolding frame_def using frame_len [OF e] by simp
  qed
  have "n < 8 + (1 + length (je_payload e))" using n(2) by (simp add: length_frame)
  then show ?thesis
    using scan_unfold [OF pos len d refl refl, of h acc] big unfolding rest by (cases "n < 8") simp_all
qed

section \<open>A whole buffer\<close>

definition frames :: "(bytes \<Rightarrow> u64) \<Rightarrow> journal_entry list \<Rightarrow> bytes" where
  "frames h es = concat (map (frame h) es)"

lemma frames_simps [simp]: "frames h [] = []" "frames h (e # es) = frame h e @ frames h es"
  "frames h (es @ fs) = frames h es @ frames h fs"
  by (simp_all add: frames_def)

lemma scan_frames:
  "list_all entry_fits es \<Longrightarrow> length j \<le> usize_max \<Longrightarrow> drop pos j = frames h es @ rest \<Longrightarrow>
     scan_loop h j pos acc = scan_loop h j (pos + length (frames h es)) (acc @ es)"
proof (induction es arbitrary: pos acc)
  case (Cons e es)
  then have d: "drop pos j = frame h e @ frames h es @ rest" by simp
  have "drop (pos + length (frame h e)) j = drop (length (frame h e)) (drop pos j)" by (simp add: add.commute)
  then have "drop (pos + length (frame h e)) j = frames h es @ rest" by (simp add: d)
  from Cons.IH [OF _ _ this, of "acc @ [e]"] Cons.prems show ?case
    by (simp add: scan_frame [OF _ _ d] add.assoc)
qed simp

lemma scan_whole:
  assumes "list_all entry_fits es" and "length (frames h es) \<le> usize_max"
  shows "scan h (frames h es) = Inr \<lparr>js_entries = es, js_truncated = False\<rparr>"
proof -
  have "scan h (frames h es) = scan_loop h (frames h es) (length (frames h es)) es"
    using scan_frames [OF assms, of 0 h "[]" "[]"] by (simp add: scan_def)
  then show ?thesis by (subst (asm) scan_loop.simps) simp
qed

text \<open>A prefix of a journal is some whole frames and a proper prefix of the next.\<close>

lemma prefix_of_frames:
  "n < length (frames h es) \<Longrightarrow> \<exists>k m. k < length es \<and> m < length (frame h (es ! k)) \<and>
     take n (frames h es) = frames h (take k es) @ take m (frame h (es ! k)) \<and> n = length (frames h (take k es)) + m"
proof (induction es arbitrary: n)
  case (Cons e es)
  show ?case
  proof (cases "n < length (frame h e)")
    case True
    then show ?thesis by (intro exI [of _ 0] exI [of _ n]) simp
  next
    case False
    with Cons.prems have "n - length (frame h e) < length (frames h es)" by simp
    from Cons.IH [OF this] obtain k m where km: "k < length es" "m < length (frame h (es ! k))"
      "take (n - length (frame h e)) (frames h es) = frames h (take k es) @ take m (frame h (es ! k))"
      "n - length (frame h e) = length (frames h (take k es)) + m" by blast
    then show ?thesis using False by (intro exI [of _ "Suc k"] exI [of _ m]) simp
  qed
qed simp

lemma scan_prefix:
  assumes es: "list_all entry_fits es" and len: "length (frames h es) \<le> usize_max"
    and n: "n = length (frames h (take k es)) + m" "k < length es" "m < length (frame h (es ! k))"
  shows "scan h (take n (frames h es)) = Inr \<lparr>js_entries = take k es, js_truncated = (m \<noteq> 0)\<rparr>"
proof -
  have split: "frames h es = frames h (take k es) @ frame h (es ! k) @ frames h (drop (Suc k) es)"
    using id_take_nth_drop [OF n(2)] by (metis append_Cons frames_simps(2,3))
  define j where "j = take n (frames h es)"
  have j: "j = frames h (take k es) @ take m (frame h (es ! k))"
    unfolding j_def using n(1,3) by (simp add: split)
  have lj: "length j \<le> usize_max" unfolding j_def using len by simp
  have fits: "list_all entry_fits (take k es)" "entry_fits (es ! k)"
    using es n(2) by (auto simp: list_all_length)
  have "scan h j = scan_loop h j (length (frames h (take k es))) (take k es)"
    using scan_frames [OF fits(1) lj, of 0 h "take m (frame h (es ! k))" "[]"] by (simp add: scan_def j)
  also have "\<dots> = Inr \<lparr>js_entries = take k es, js_truncated = (m \<noteq> 0)\<rparr>"
  proof (cases "m = 0")
    case True
    then show ?thesis by (subst scan_loop.simps) (simp add: j)
  next
    case False
    then show ?thesis using scan_torn [OF fits(2) lj _ _ n(3), where pos = "length (frames h (take k es))"] by (simp add: j)
  qed
  finally show ?thesis by (simp add: j_def)
qed

section \<open>What a scan accepts\<close>

definition starts_with_frame :: "(bytes \<Rightarrow> u64) \<Rightarrow> bytes \<Rightarrow> bool" where
  "starts_with_frame h bs \<longleftrightarrow> (\<exists>e rest. entry_fits e \<and> bs = frame h e @ rest)"

lemma frame_at:
  assumes "8 \<le> length r" and n: "n = unat (u32_of_le (take 4 r))" "0 < n" "8 + n \<le> length r"
    and body: "body = take n (drop 8 r)" and sum: "body_checksum h body = u32_of_le (take 4 (drop 4 r))"
  defines "e \<equiv> \<lparr>je_op = body ! 0, je_payload = drop 1 body\<rparr>"
  shows "entry_fits e" and "r = frame h e @ drop (8 + n) r"
proof -
  have lb: "length body = n" using n(3) by (simp add: body)
  moreover have "body ! 0 # drop 1 body = body" using lb n(2) by (cases body) simp_all
  ultimately have b: "length body = n" "body ! 0 # drop 1 body = body" by blast+
  then have len: "1 + length (je_payload e) = n" using n(2) by (simp add: e_def)
  then show "entry_fits e" using unsigned_less [of "u32_of_le (take 4 r)"] n(1) by (simp add: entry_fits_def)
  have "frame h e = u32_le (of_nat n) @ u32_le (u32_of_le (take 4 (drop 4 r))) @ body"
    unfolding frame_def len using b(2) sum by (simp add: e_def)
  also have "\<dots> = take 4 r @ take 4 (drop 4 r) @ take n (drop 8 r)"
    using n(1) assms(1) by (simp add: word_bytes_of body)
  also have "\<dots> = take (8 + n) r"
    using take_add [of 4 "4 + n" r] take_add [of 4 n "drop 4 r"] by (simp add: add.assoc)
  finally show "r = frame h e @ drop (8 + n) r" by simp
qed

lemma starts_with_frame_conds:
  assumes "starts_with_frame h r"
  shows "8 \<le> length r" and "0 < unat (u32_of_le (take 4 r))" and "8 + unat (u32_of_le (take 4 r)) \<le> length r"
    and "body_checksum h (take (unat (u32_of_le (take 4 r))) (drop 8 r)) = u32_of_le (take 4 (drop 4 r))"
proof -
  obtain e rest where e: "entry_fits e" and r: "r = frame h e @ rest" using assms by (auto simp: starts_with_frame_def)
  have n: "unat (u32_of_le (take 4 r)) = 1 + length (je_payload e)"
    unfolding r frame_def using frame_len [OF e] by simp
  show "8 \<le> length r" "0 < unat (u32_of_le (take 4 r))" "8 + unat (u32_of_le (take 4 r)) \<le> length r"
    unfolding n by (simp_all add: r length_frame)
  show "body_checksum h (take (unat (u32_of_le (take 4 r))) (drop 8 r)) = u32_of_le (take 4 (drop 4 r))"
    unfolding n unfolding r frame_def by simp
qed

lemma if_chain:
  "Inr s = (if a then Inr t else if b then Inl x else if c then Inr t else if d then if f then Inr t else Inl y else q) \<Longrightarrow>
     s \<noteq> t \<Longrightarrow> \<not> a \<and> \<not> b \<and> \<not> c \<and> \<not> d"
  by (auto split: if_splits)

lemma scan_loop_exact:
  "scan_loop h j pos acc = Inr s \<Longrightarrow> length j \<le> usize_max \<Longrightarrow> pos \<le> length j \<Longrightarrow>
     \<exists>es tail. js_entries s = acc @ es \<and> list_all entry_fits es \<and> drop pos j = frames h es @ tail \<and>
       js_truncated s = (tail \<noteq> []) \<and> \<not> starts_with_frame h tail"
proof (induction "length j - pos" arbitrary: pos acc rule: less_induct)
  case less
  let ?r = "drop pos j" and ?n = "unat (u32_of_le (take 4 (drop pos j)))"
  let ?body = "take ?n (drop 8 ?r)"
  let ?e = "\<lparr>je_op = ?body ! 0, je_payload = drop 1 ?body\<rparr>"
  show ?case
  proof (cases "pos < length j")
    case False
    then have "s = \<lparr>js_entries = acc, js_truncated = False\<rparr>" using less.prems(1) by (subst (asm) scan_loop.simps) simp
    moreover have "\<not> starts_with_frame h []" by (auto simp: starts_with_frame_def frame_def)
    ultimately show ?thesis using False by (intro exI [of _ "[]"] exI [of _ "[]"]) simp
  next
    case pos: True
    note step = scan_unfold [OF pos less.prems(2) refl refl refl, of h acc, unfolded less.prems(1)]
    show ?thesis
    proof (cases "starts_with_frame h ?r")
      case True
      note c = starts_with_frame_conds [OF True]
      define e where "e = ?e"
      note fr = frame_at [OF c(1) refl c(2,3) refl c(4), folded e_def]
      have rec: "scan_loop h j (pos + (8 + ?n)) (acc @ [e]) = Inr s" using step c by (simp add: e_def)
      have bound: "pos + (8 + ?n) \<le> length j" using c(3) pos by simp
      have dec: "length j - (pos + (8 + ?n)) < length j - pos" using pos by linarith
      obtain es tail where it: "js_entries s = (acc @ [e]) @ es" "list_all entry_fits es"
        "drop (pos + (8 + ?n)) j = frames h es @ tail" "js_truncated s = (tail \<noteq> [])" "\<not> starts_with_frame h tail"
        using less.hyps [OF dec rec less.prems(2) bound] by blast
      have "drop (8 + ?n) ?r = frames h es @ tail" using it(3) by (simp add: add.commute)
      then have "?r = frames h (e # es) @ tail" using fr(2) by (simp only: frames_simps append_assoc)
      then show ?thesis using it fr(1) by (intro exI [of _ "e # es"] exI [of _ tail]) (simp only: list.pred_inject append_assoc append_Cons append_Nil simp_thms)
    next
      case False
      have "s = \<lparr>js_entries = acc, js_truncated = True\<rparr>"
      proof (rule ccontr)
        assume ne: "s \<noteq> \<lparr>js_entries = acc, js_truncated = True\<rparr>"
        have c: "8 \<le> length ?r" "0 < ?n" "8 + ?n \<le> length ?r" "body_checksum h ?body = u32_of_le (take 4 (drop 4 ?r))"
          using if_chain [OF step ne] by (simp_all only: not_less neq0_conv not_not simp_thms)
        from frame_at [OF c(1) refl c(2,3) refl c(4)] False show False
          unfolding starts_with_frame_def by blast
      qed
      then show ?thesis using pos False by (intro exI [of _ "[]"] exI [of _ ?r]) simp
    qed
  qed
qed

end
