(* ===== verification/Journal_Theorems.thy ===== *)
theory Journal_Theorems
  imports Journal_Scan Storage
begin

text \<open>
  The journal's guarantees: operations survive their encoding exactly, and a journal cut off at any byte by a
  crash opens as the operations whose records had been written completely.
\<close>

section \<open>Journals of operations\<close>

text \<open>What \<open>append_journal\<close> leaves after a run of operations, each encoded into an entry of its own.\<close>

fun journal_ops :: "(bytes \<Rightarrow> u64) \<Rightarrow> op list \<Rightarrow> mem_storage \<Rightarrow> mem_storage option" where
  "journal_ops h [] s = Some s"
| "journal_ops h (v # vs) s = do {
     entry \<leftarrow> op_encode h v [];
     journal_ops h vs (mem_append_journal entry s) }"

definition op_entry :: "op \<Rightarrow> journal_entry" where
  "op_entry v = \<lparr>je_op = op_code v, je_payload = op_payload v\<rparr>"

lemma op_encode_eq: "op_encode h v out = (if entry_fits (op_entry v) then Some (out @ frame h (op_entry v)) else None)"
  by (simp add: op_encode_def encode_entry_frame op_entry_def)

lemma journal_ops_eq:
  "journal_ops h vs s = (if list_all (\<lambda>v. entry_fits (op_entry v)) vs
     then Some (fold mem_append_journal (map (\<lambda>v. frame h (op_entry v)) vs) s) else None)"
  by (induction vs arbitrary: s) (simp_all add: op_encode_eq)

lemma journal_ops_bytes:
  assumes "journal_ops h vs s = Some s'"
  shows "list_all entry_fits (map op_entry vs)" and "mem_read_journal s' = mem_read_journal s @ frames h (map op_entry vs)"
proof -
  have c: "list_all (\<lambda>v. entry_fits (op_entry v)) vs" and s': "s' = fold mem_append_journal (map (\<lambda>v. frame h (op_entry v)) vs) s"
    using assms by (simp_all add: journal_ops_eq split: if_splits)
  show "list_all entry_fits (map op_entry vs)" using c by (simp add: list_all_length)
  show "mem_read_journal s' = mem_read_journal s @ frames h (map op_entry vs)"
    by (simp add: s' mem.fold_append(1) frames_def comp_def)
qed

definition replayed :: "journal_scan \<Rightarrow> (core_error + op) list" where
  "replayed s = map (\<lambda>e. op_decode (je_op e) (je_payload e)) (js_entries s)"

lemma decode_entries:
  assumes "list_all op_ok vs" and "list_all entry_fits (map op_entry vs)"
  shows "map (\<lambda>e. op_decode (je_op e) (je_payload e)) (map op_entry vs) = map Inr vs"
proof -
  have "op_decode (je_op (op_entry v)) (je_payload (op_entry v)) = Inr v" if "v \<in> set vs" for v
    using that assms decode_complete [of v] by (auto simp: list_all_iff op_entry_def entry_fits_def usize_max_def)
  then show ?thesis by simp
qed

text \<open>
  C27. A crash can cut the journal anywhere: whatever prefix of the bytes survives, the scan accepts it and replays
  exactly the operations whose records were written completely, in order and unchanged, and it reports a truncated
  tail exactly when the cut is not at a record boundary.
\<close>

theorem journal_survives_crash:
  assumes "list_all op_ok vs" and "journal_ops h vs mem_storage_new = Some s" and "j = mem_read_journal s"
    and "length j \<le> usize_max" and "n \<le> length j"
  shows "\<exists>k sc sk. k \<le> length vs \<and> scan h (take n j) = Inr sc \<and> replayed sc = map Inr (take k vs) \<and>
    journal_ops h (take k vs) mem_storage_new = Some sk \<and> length (mem_read_journal sk) \<le> n \<and>
    (js_truncated sc \<longleftrightarrow> length (mem_read_journal sk) < n) \<and>
    (k < length vs \<longrightarrow> (\<exists>sn. journal_ops h (take (Suc k) vs) mem_storage_new = Some sn \<and> n < length (mem_read_journal sn)))"
proof -
  note b = journal_ops_bytes [OF assms(2)]
  let ?es = "map op_entry vs"
  have j: "j = frames h ?es" using b(2) assms(3) by (simp add: mem_storage_new_def mem_read_journal_def)
  have part: "\<exists>sk. journal_ops h (take k vs) mem_storage_new = Some sk \<and> mem_read_journal sk = frames h (take k ?es)" for k
  proof -
    have "list_all (\<lambda>v. entry_fits (op_entry v)) (take k vs)"
      using b(1) by (auto simp: list_all_iff dest: in_set_takeD)
    then obtain sk where sk: "journal_ops h (take k vs) mem_storage_new = Some sk" by (simp add: journal_ops_eq)
    from journal_ops_bytes(2) [OF this] sk show ?thesis
      by (simp add: mem_storage_new_def mem_read_journal_def take_map)
  qed
  have dec: "map (\<lambda>e. op_decode (je_op e) (je_payload e)) (take k ?es) = map Inr (take k vs)" for k
    by (simp only: take_map [symmetric] decode_entries [OF assms(1) b(1)])
  show ?thesis
  proof (cases "n < length j")
    case True
    then obtain k m where km: "k < length ?es" "m < length (frame h (?es ! k))" "n = length (frames h (take k ?es)) + m"
      using prefix_of_frames [of n h ?es] by (auto simp: j)
    obtain sk sn where sk: "journal_ops h (take k vs) mem_storage_new = Some sk" "mem_read_journal sk = frames h (take k ?es)"
      and sn: "journal_ops h (take (Suc k) vs) mem_storage_new = Some sn" "mem_read_journal sn = frames h (take (Suc k) ?es)"
      using part [of k] part [of "Suc k"] by blast
    have "length (mem_read_journal sn) = length (frames h (take k ?es)) + length (frame h (?es ! k))"
      using km(1) unfolding sn(2) by (simp add: take_Suc_conv_app_nth)
    with scan_prefix [OF b(1) _ km(3,1,2)] sk sn km dec [of k] assms(4) show ?thesis
      by (intro exI [of _ k] exI [of _ "\<lparr>js_entries = take k ?es, js_truncated = (m \<noteq> 0)\<rparr>"] exI [of _ sk])
        (auto simp: j replayed_def)
  next
    case False
    then have n: "take n j = j" "n = length j" using assms(5) by simp_all
    show ?thesis
      using scan_whole [OF b(1), of h] part [of "length vs"] dec [of "length vs"] assms(4)
      by (intro exI [of _ "length vs"] exI [of _ "\<lparr>js_entries = ?es, js_truncated = False\<rparr>"])
        (auto simp: n(1) n(2) j replayed_def)
  qed
qed

text \<open>Two operations, the second one cut in the middle of its record.\<close>

definition sample_ops :: "op list" where
  "sample_ops = [Forget 7 1, RemoveTag 8 [97, 98]]"

lemma sample_ops_journal:
  "journal_ops h sample_ops mem_storage_new = Some \<lparr>ms_snapshot = None, ms_journal = frame h (op_entry (Forget 7 1)) @ frame h (op_entry (RemoveTag 8 [97, 98]))\<rparr>"
  by (simp add: sample_ops_def journal_ops_eq entry_fits_def op_entry_def mem_storage_new_def mem_append_journal_def put_str_def)

theorem journal_survives_crash_witness:
  "\<exists>k sc sk. k \<le> 2 \<and> scan (\<lambda>_. 0) (take 30 (frame (\<lambda>_. 0) (op_entry (Forget 7 1)) @ frame (\<lambda>_. 0) (op_entry (RemoveTag 8 [97, 98])))) = Inr sc \<and>
     replayed sc = map Inr (take k sample_ops) \<and> journal_ops (\<lambda>_. 0) (take k sample_ops) mem_storage_new = Some sk"
proof -
  have ok: "list_all op_ok sample_ops" by (simp add: sample_ops_def str_ok_def)
  have n: "length sample_ops = 2" by (simp add: sample_ops_def)
  show ?thesis
    using journal_survives_crash [OF ok sample_ops_journal [of "\<lambda>_. 0"] refl, of 30] unfolding n
    by (fastforce simp: mem_read_journal_def length_frame op_entry_def put_str_def usize_max_def)
qed

text \<open>
  C29. The encoding of operations loses nothing and is canonical. An operation whose strings and counts fit their
  fields decodes back to itself, and a payload decodes only if it is the encoding of the operation it decodes to,
  with one exception: the eight-byte form of \<open>Maintain\<close>, which reads as an unlimited pass.
\<close>

theorem op_codec_exact:
  "(op_ok v \<and> length (op_payload v) \<le> usize_max \<longrightarrow> op_decode (op_code v) (op_payload v) = Inr v) \<and>
   (op_decode op p = Inr v \<longrightarrow> op_ok v \<and> op_code v = op \<and>
     (op_payload v = p \<or> op = 5 \<and> length p = 8 \<and> v = Maintain (u64_of_le p) 0 NONE_U32))"
  using decode_complete [of v] decode_exact [of op p v] by (auto simp: short_maintain_def)

theorem op_codec_exact_witness:
  "op_decode 7 [8, 0, 0, 0, 0, 0, 0, 0, 2, 0, 0, 0, 97, 98] = Inr (RemoveTag 8 [97, 98])"
proof -
  have "op_payload (RemoveTag 8 [97, 98]) = [8, 0, 0, 0, 0, 0, 0, 0, 2, 0, 0, 0, 97, 98]"
    by (simp add: put_str_def u64_le_def u32_le_def to_le_numeral)
  then show ?thesis
    using op_codec_exact [of "RemoveTag 8 [97, 98]"] by (simp add: str_ok_def usize_max_def)
qed

section \<open>The frame format\<close>

text \<open>Entries appended one after the other to a buffer.\<close>

fun encode_entries :: "(bytes \<Rightarrow> u64) \<Rightarrow> journal_entry list \<Rightarrow> bytes \<Rightarrow> bytes option" where
  "encode_entries h [] out = Some out"
| "encode_entries h (e # es) out = do {
     out \<leftarrow> encode_entry h out (je_op e) (je_payload e);
     encode_entries h es out }"

lemma encode_entries_eq:
  "encode_entries h es out = (if list_all entry_fits es then Some (out @ frames h es) else None)"
  by (induction es arbitrary: out) (simp_all add: encode_entry_frame)

text \<open>
  C28. The scan inverts the writer and accepts nothing else: a buffer of encoded entries scans to those entries
  without a truncated tail; and whenever a scan succeeds, the input is the encoding of the entries it returns followed
  by a tail that does not begin with a valid record, reported as truncated exactly when it is not empty.
\<close>

theorem scan_inverts_encoding:
  assumes "length j \<le> usize_max"
  shows "(encode_entries h es [] = Some j \<longrightarrow> scan h j = Inr \<lparr>js_entries = es, js_truncated = False\<rparr>) \<and>
    (scan h j = Inr sc \<longrightarrow> (\<exists>j1 tail. encode_entries h (js_entries sc) [] = Some j1 \<and> j = j1 @ tail \<and>
       (js_truncated sc \<longleftrightarrow> tail \<noteq> []) \<and> (\<forall>e r. encode_entry h [] (je_op e) (je_payload e) \<noteq> None \<longrightarrow>
         tail \<noteq> the (encode_entry h [] (je_op e) (je_payload e)) @ r)))"
proof (intro conjI impI)
  assume "encode_entries h es [] = Some j"
  then show "scan h j = Inr \<lparr>js_entries = es, js_truncated = False\<rparr>"
    using scan_whole [of es h] assms by (simp add: encode_entries_eq split: if_splits)
next
  assume "scan h j = Inr sc"
  then obtain es tail where "js_entries sc = es" "list_all entry_fits es" "j = frames h es @ tail"
    "js_truncated sc = (tail \<noteq> [])" "\<not> starts_with_frame h tail"
    using scan_loop_exact [of h j 0 "[]" sc] assms by (auto simp: scan_def)
  then show "\<exists>j1 tail. encode_entries h (js_entries sc) [] = Some j1 \<and> j = j1 @ tail \<and>
       (js_truncated sc \<longleftrightarrow> tail \<noteq> []) \<and> (\<forall>e r. encode_entry h [] (je_op e) (je_payload e) \<noteq> None \<longrightarrow>
         tail \<noteq> the (encode_entry h [] (je_op e) (je_payload e)) @ r)"
    by (intro exI [of _ "frames h es"] exI [of _ tail])
      (auto simp: encode_entries_eq encode_entry_frame starts_with_frame_def split: if_splits)
qed

theorem scan_inverts_encoding_witness:
  "scan (\<lambda>_. 0) [1, 0, 0, 0, 0, 0, 0, 0, 9] = Inr \<lparr>js_entries = [\<lparr>je_op = 9, je_payload = []\<rparr>], js_truncated = False\<rparr>"
proof -
  have "encode_entries (\<lambda>_. 0) [\<lparr>je_op = 9, je_payload = []\<rparr>] [] = Some [1, 0, 0, 0, 0, 0, 0, 0, 9]"
    by (simp add: encode_entries_eq entry_fits_def frame_def body_checksum_def u32_le_def to_le_numeral)
  then show ?thesis
    using conjunct1 [OF scan_inverts_encoding [of "[1, 0, 0, 0, 0, 0, 0, 0, 9]" "\<lambda>_. 0" "[\<lparr>je_op = 9, je_payload = []\<rparr>]"]]
    by (simp add: usize_max_def)
qed

end
