(* ===== verification/Metadata.thy ===== *)
theory Metadata
  imports Wire
begin

text \<open>
  The metadata blob of a fact, \<open>crates/plugmem-core/src/metadata.rs\<close>: a map of UTF-8 strings, encoded with its keys in
  ascending byte order. \<open>sort_by\<close> on the vector of positions is the stable sort of the pairs by key; the
  order of \<open>[u8]::cmp\<close> is the lexicographic order of byte lists.
\<close>

section \<open>Encoding\<close>


definition metadata_encode :: "(bytes \<times> bytes) list \<Rightarrow> core_error + bytes" where
  "metadata_encode pairs =
     (let order = sort_key (\<lambda>i. fst (pairs ! i)) [0..<length pairs] in
      if list_ex (\<lambda>(i, j). fst (pairs ! i) = fst (pairs ! j)) (zip order (tl order))
      then Inl (Invalid ''duplicate metadata key'')
      else Inr (u32_le (of_nat (length pairs)) @
        concat (map (\<lambda>i. let (k, v) = pairs ! i in
          u32_le (of_nat (length k)) @ k @ u32_le (of_nat (length v)) @ v) order)))"

section \<open>Decoding\<close>

definition meta_u32 :: "bytes \<Rightarrow> nat \<Rightarrow> core_error + u32 \<times> nat" where
  "meta_u32 bs at =
     (case checked_add at 4 of
        None \<Rightarrow> Inl (Corrupt_core ''metadata blob truncated inside a field'')
      | Some stop \<Rightarrow>
          if stop \<le> length bs then Inr (u32_of_le (slice bs at stop), stop)
          else Inl (Corrupt_core ''metadata blob truncated inside a field''))"

definition meta_str :: "bytes \<Rightarrow> nat \<Rightarrow> core_error + bytes \<times> nat" where
  "meta_str = read_str meta_u32 ''metadata string overruns its blob'' ''metadata string is not UTF-8''"

text \<open>The loop: \<open>n\<close> pairs still to read, the previous key, the pairs pushed so far.\<close>

fun meta_loop :: "bytes \<Rightarrow> nat \<Rightarrow> bytes option \<Rightarrow> nat \<Rightarrow> (bytes \<times> bytes) list \<Rightarrow> core_error + (bytes \<times> bytes) list \<times> nat" where
  "meta_loop bs 0 prev at out = Inr (out, at)"
| "meta_loop bs (Suc n) prev at out =
     try_res (meta_str bs at) (\<lambda>(k, at). try_res (meta_str bs at) (\<lambda>(v, at).
       case prev of
         Some p \<Rightarrow> if k \<le> p then Inl (Corrupt_core ''metadata keys are not strictly ascending'')
                   else meta_loop bs n (Some k) at (out @ [(k, v)])
       | None \<Rightarrow> meta_loop bs n (Some k) at (out @ [(k, v)])))"

definition metadata_decode :: "bytes \<Rightarrow> core_error + (bytes \<times> bytes) list" where
  "metadata_decode bs =
     try_res (meta_u32 bs 0) (\<lambda>(count, at).
       try_res (meta_loop bs (unat count) None at []) (\<lambda>(out, at).
         if at \<noteq> length bs then Inl (Corrupt_core ''metadata blob has trailing bytes'') else Inr out))"

end
