(* ===== verification/Metadata_Theorems.thy ===== *)
theory Metadata_Theorems
  imports Metadata "HOL-Library.Multiset"
begin

text \<open>
  The metadata format is lossless and canonical: \<open>metadata_decode\<close> accepts exactly the images of sorted maps, and
  the encoder writes that image whatever the order of its input.
\<close>

section \<open>Sorting by key\<close>

lemma map_insort_key: "map g (insort_key (\<lambda>i. f (g i)) x xs) = insort_key f (g x) (map g xs)"
  by (induction xs) auto

lemma map_sort_key: "map g (sort_key (\<lambda>i. f (g i)) xs) = sort_key f (map g xs)"
  by (induction xs) (simp_all add: map_insort_key)

lemma order_pairs: "map ((!) ps) (sort_key (\<lambda>i. fst (ps ! i)) [0..<length ps]) = sort_key fst ps"
  by (simp add: map_sort_key [of "(!) ps" fst] map_nth)

lemma adjacent_dup: "sorted xs \<Longrightarrow> list_ex (\<lambda>(x, y). x = y) (zip xs (tl xs)) \<longleftrightarrow> \<not> distinct xs"
proof (induction xs)
  case (Cons x xs)
  show ?case
  proof (cases xs)
    case (Cons y ys)
    have "x \<in> set (y # ys) \<longleftrightarrow> x = y" using Cons.prems unfolding Cons by (auto intro: antisym)
    with Cons.IH Cons.prems show ?thesis by (simp add: Cons)
  qed simp
qed simp

lemma strict_sorted: "sorted_wrt (<) (xs :: bytes list) \<longleftrightarrow> sorted xs \<and> distinct xs"
  by (induction xs) (auto simp: less_le)

section \<open>The encoder\<close>

definition meta_image :: "(bytes \<times> bytes) list \<Rightarrow> bytes" where
  "meta_image qs = put_counted u32_le of_nat (put_pair put_str put_str) qs"

lemma encode_eq:
  "metadata_encode ps = (if distinct (map fst ps) then Inr (meta_image (sort_key fst ps))
     else Inl (Invalid ''duplicate metadata key''))"
proof -
  let ?order = "sort_key (\<lambda>i. fst (ps ! i)) [0..<length ps]"
  have keys: "map (\<lambda>i. fst (ps ! i)) ?order = map fst (sort_key fst ps)"
    using arg_cong [OF order_pairs, of "map fst" ps] by (simp add: comp_def)
  have "list_ex (\<lambda>(i, j). fst (ps ! i) = fst (ps ! j)) (zip ?order (tl ?order)) \<longleftrightarrow>
      list_ex (\<lambda>(x, y). x = y) (zip (map (\<lambda>i. fst (ps ! i)) ?order) (tl (map (\<lambda>i. fst (ps ! i)) ?order)))"
    by (simp add: map_tl [symmetric] zip_map_map list_ex_iff split_def)
  also have "\<dots> \<longleftrightarrow> \<not> distinct (map fst (sort_key fst ps))"
    unfolding keys by (rule adjacent_dup) simp
  also have "distinct (map fst (sort_key fst ps)) = distinct (map fst ps)"
    by (metis mset_eq_imp_distinct_iff mset_map mset_sort)
  finally have dup: "list_ex (\<lambda>(i, j). fst (ps ! i) = fst (ps ! j)) (zip ?order (tl ?order)) \<longleftrightarrow> \<not> distinct (map fst ps)" .
  have "concat (map (\<lambda>i. let (k, v) = ps ! i in u32_le (of_nat (length k)) @ k @ u32_le (of_nat (length v)) @ v) ?order) =
      concat (map (put_pair put_str put_str) (map ((!) ps) ?order))"
    by (simp add: comp_def put_pair_def put_str_def split_def Let_def)
  then show ?thesis
    unfolding metadata_encode_def Let_def [of ?order] dup by (simp add: meta_image_def put_counted_def order_pairs)
qed

section \<open>The decoder\<close>

lemma wire_meta_u32: "wire_field (\<lambda>_. True) u32_le meta_u32"
proof -
  let ?get = "\<lambda>bs at. if length bs < at + 4 then Inl (Corrupt_core []) else Inr (u32_of_le (slice bs at (at + 4)), at + 4)"
  have w: "wire_field (\<lambda>_. True) u32_le ?get" by (rule wire_bytes) (simp_all add: word_bytes_of)
  show ?thesis
  proof
    fix x bs at rest
    assume b: "length bs \<le> usize_max" "at \<le> length bs" and d: "drop at bs = u32_le x @ rest"
    have "?get bs at = Inr (x, at + length (u32_le x))" by (rule wire_field.get_put [OF w TrueI b d])
    with b(1) show "meta_u32 bs at = Inr (x, at + length (u32_le x))"
      by (auto simp: meta_u32_def split: if_splits option.split)
  next
    fix at bs x at'
    assume at: "at \<le> length bs" and t: "meta_u32 bs at = Inr (x, at')"
    have "?get bs at = Inr (x, at')" using t by (auto simp: meta_u32_def split: if_splits option.splits)
    from wire_field.get_exact [OF w at this] show "True \<and> at' \<le> length bs \<and> drop at bs = u32_le x @ drop at' bs" .
  qed
qed

interpretation mu32: wire_field "\<lambda>_. True" u32_le meta_u32
  by (rule wire_meta_u32)

interpretation mstr: wire_field str_ok put_str meta_str
  unfolding meta_str_def by (rule wire_str) (rule mu32.wire_field_axioms)

definition pairs_ok :: "(bytes \<times> bytes) list \<Rightarrow> bool" where
  "pairs_ok ps \<longleftrightarrow> list_all (\<lambda>x. str_ok (fst x) \<and> str_ok (snd x)) ps \<and> length ps < 2 ^ 32"

lemma unat_of_nat_fits: "unat (of_nat n :: 'a::len word) = n \<longleftrightarrow> n < 2 ^ LENGTH('a)"
  by (metis unat_of_nat mod_less unsigned_less)

interpretation mpairs: wire_field pairs_ok meta_image "take_counted meta_u32 unat (take_pair meta_str meta_str)"
  using wire_counted [OF mu32.wire_field_axioms wire_pair [OF mstr.wire_field_axioms mstr.wire_field_axioms], of of_nat unat]
  by (simp add: pairs_ok_def [abs_def] unat_of_nat_fits meta_image_def [abs_def])

lemma meta_loop_iff:
  "meta_loop bs n prev at out = Inr (r, e) \<longleftrightarrow>
     (\<exists>ps. take_n (take_pair meta_str meta_str) n bs at = Inr (ps, e) \<and> r = out @ ps \<and>
       sorted_wrt (<) ((case prev of None \<Rightarrow> [] | Some p \<Rightarrow> [p]) @ map fst ps))"
proof (induction n arbitrary: prev at out)
  case 0
  show ?case by (auto split: option.splits)
next
  case (Suc n)
  show ?case
  proof (cases "take_pair meta_str meta_str bs at")
    case (Inl err)
    then have "meta_str bs at = Inl err \<or> (\<exists>k m. meta_str bs at = Inr (k, m) \<and> meta_str bs m = Inl err)"
      by (auto simp: take_pair_def try_res_eq_Inl)
    then show ?thesis using Inl by auto
  next
    case (Inr kvm)
    obtain k v m where kvm: "kvm = ((k, v), m)" by (cases kvm) auto
    obtain m1 where "meta_str bs at = Inr (k, m1)" "meta_str bs m1 = Inr (v, m)"
      using Inr by (auto simp: kvm take_pair_def try_res_eq_Inr)
    then have "meta_loop bs (Suc n) prev at out = Inr (r, e) \<longleftrightarrow>
        (\<forall>p. prev = Some p \<longrightarrow> p < k) \<and> meta_loop bs n (Some k) m (out @ [(k, v)]) = Inr (r, e)"
      by (auto split: option.splits)
    also have "\<dots> \<longleftrightarrow> (\<forall>p. prev = Some p \<longrightarrow> p < k) \<and> (\<exists>ps. take_n (take_pair meta_str meta_str) n bs m = Inr (ps, e) \<and>
        r = out @ (k, v) # ps \<and> sorted_wrt (<) (k # map fst ps))"
      by (simp add: Suc.IH)
    also have "\<dots> \<longleftrightarrow> (\<exists>ps. take_n (take_pair meta_str meta_str) (Suc n) bs at = Inr (ps, e) \<and> r = out @ ps \<and>
        sorted_wrt (<) ((case prev of None \<Rightarrow> [] | Some p \<Rightarrow> [p]) @ map fst ps))"
      by (cases prev) (force simp: Inr kvm try_res_eq_Inr intro: less_trans)+
    finally show ?thesis .
  qed
qed

lemma decode_iff:
  assumes len: "length bs \<le> usize_max"
  shows "metadata_decode bs = Inr out \<longleftrightarrow> pairs_ok out \<and> sorted_wrt (<) (map fst out) \<and> bs = meta_image out"
proof -
  have "metadata_decode bs = Inr out \<longleftrightarrow>
      take_counted meta_u32 unat (take_pair meta_str meta_str) bs 0 = Inr (out, length bs) \<and> sorted_wrt (<) (map fst out)"
    by (auto simp: metadata_decode_def take_counted_def try_res_eq_Inr meta_loop_iff split: if_splits)
  also have "\<dots> \<longleftrightarrow> pairs_ok out \<and> sorted_wrt (<) (map fst out) \<and> bs = meta_image out"
  proof -
    have "take_counted meta_u32 unat (take_pair meta_str meta_str) bs 0 = Inr (out, length bs) \<longleftrightarrow> pairs_ok out \<and> bs = meta_image out"
    proof
      assume "take_counted meta_u32 unat (take_pair meta_str meta_str) bs 0 = Inr (out, length bs)"
      from mpairs.get_exact [OF _ this] show "pairs_ok out \<and> bs = meta_image out" by simp
    next
      assume "pairs_ok out \<and> bs = meta_image out"
      then show "take_counted meta_u32 unat (take_pair meta_str meta_str) bs 0 = Inr (out, length bs)"
        using mpairs.get_put [where x = out and bs = bs and at = 0 and rest = "[]"] len by simp
    qed
    then show ?thesis by blast
  qed
  finally show ?thesis .
qed

section \<open>The format\<close>

text \<open>
  C33. Metadata survives its encoding and has one image per map. The encoder rejects exactly the inputs with a repeated
  key; a blob decodes to some pairs exactly when these are in strictly ascending key order and the blob is
  what the encoder writes for them in any order; hence decoding after encoding gives the pairs sorted by key.
\<close>

theorem metadata_codec_exact:
  assumes "length bs \<le> usize_max" and "pairs_ok ps"
  shows "(metadata_encode ps = Inl (Invalid ''duplicate metadata key'') \<longleftrightarrow> \<not> distinct (map fst ps)) \<and>
    (metadata_encode ps = Inr bs \<longrightarrow> metadata_decode bs = Inr (sort_key fst ps)) \<and>
    (metadata_decode bs = Inr out \<longleftrightarrow>
      pairs_ok out \<and> sorted_wrt (<) (map fst out) \<and> (\<forall>qs. mset qs = mset out \<longrightarrow> metadata_encode qs = Inr bs))"
proof (intro conjI)
  show "metadata_encode ps = Inl (Invalid ''duplicate metadata key'') \<longleftrightarrow> \<not> distinct (map fst ps)"
    by (simp add: encode_eq)
  have sorted_ok: "pairs_ok (sort_key fst ps)"
    using assms(2) by (simp add: pairs_ok_def list_all_iff)
  have "sorted_wrt (<) (map fst (sort_key fst ps))" if "distinct (map fst ps)"
  proof -
    have "distinct (map fst (sort_key fst ps))" using that by (metis mset_eq_imp_distinct_iff mset_map mset_sort)
    then show ?thesis by (simp add: strict_sorted)
  qed
  then show "metadata_encode ps = Inr bs \<longrightarrow> metadata_decode bs = Inr (sort_key fst ps)"
    using sorted_ok assms(1) by (simp add: encode_eq decode_iff)
  have same: "sort_key fst qs = out" if "sorted_wrt (<) (map fst out)" "mset qs = mset out" for qs :: "(bytes \<times> bytes) list"
  proof -
    have so: "sorted (map fst out)" "distinct (map fst out)" using that(1) by (simp_all add: strict_sorted)
    have "distinct (map fst qs)" using that(2) so(2) by (metis mset_eq_imp_distinct_iff mset_map)
    then have "inj_on fst (set qs)" by (simp add: distinct_map)
    then have "sort_key fst qs = sort_key fst out"
      by (metis that(2) properties_for_sort_key sort_key_inj_key_eq so(1) sorted_sort_key mset_sort)
    then show ?thesis using so(1) using properties_for_sort_key [of out out fst] by simp
  qed
  have "metadata_encode qs = Inr (meta_image out)" if "sorted_wrt (<) (map fst out)" "mset qs = mset out" for qs
  proof -
    have "distinct (map fst qs)" using that by (metis mset_eq_imp_distinct_iff mset_map strict_sorted)
    then show ?thesis using same [OF that] by (simp add: encode_eq)
  qed
  then show "metadata_decode bs = Inr out \<longleftrightarrow>
      pairs_ok out \<and> sorted_wrt (<) (map fst out) \<and> (\<forall>qs. mset qs = mset out \<longrightarrow> metadata_encode qs = Inr bs)"
    unfolding decode_iff [OF assms(1)] by (metis sum.inject(2))
qed

theorem metadata_codec_exact_witness:
  "metadata_decode [1, 0, 0, 0, 1, 0, 0, 0, 107, 1, 0, 0, 0, 118] = Inr [([107], [118])]"
proof -
  have "metadata_encode [([107], [118])] = Inr [1, 0, 0, 0, 1, 0, 0, 0, 107, 1, 0, 0, 0, 118]"
    by (simp add: encode_eq meta_image_def put_counted_def put_pair_def put_str_def u32_le_def to_le_numeral)
  then show ?thesis
    using metadata_codec_exact [of "[1, 0, 0, 0, 1, 0, 0, 0, 107, 1, 0, 0, 0, 118]" "[([107], [118])]"]
    by (simp add: pairs_ok_def str_ok_def usize_max_def)
qed

end
