(* ===== verification/Config.thy ===== *)
theory Config
  imports Core_Error Rust_Std Slot
begin

text \<open>
  The engine configuration of \<open>crates/plugmem-core/src/config.rs\<close>: its validation and the fixed binary block a
  snapshot stores. An \<open>f32\<close> is its IEEE 754 bit pattern; the predicates on floats below are the comparisons of
  IEEE arithmetic read off the bits (a NaN satisfies none of them, and \<open>-0.0\<close> equals \<open>0.0\<close>).
\<close>

section \<open>Floats\<close>

type_synonym f32 = u32

definition f32_exponent :: "f32 \<Rightarrow> u32" where
  "f32_exponent x = and (drop_bit 23 x) 255"

definition f32_is_finite :: "f32 \<Rightarrow> bool" where
  "f32_is_finite x \<longleftrightarrow> f32_exponent x \<noteq> 255"

definition f32_is_nan :: "f32 \<Rightarrow> bool" where
  "f32_is_nan x \<longleftrightarrow> f32_exponent x = 255 \<and> and x 8388607 \<noteq> 0"

definition f32_ge_0 :: "f32 \<Rightarrow> bool" where
  "f32_ge_0 x \<longleftrightarrow> \<not> f32_is_nan x \<and> (x < 2147483648 \<or> x = 2147483648)"

definition f32_gt_0 :: "f32 \<Rightarrow> bool" where
  "f32_gt_0 x \<longleftrightarrow> \<not> f32_is_nan x \<and> x < 2147483648 \<and> x \<noteq> 0"

definition f32_le_1 :: "f32 \<Rightarrow> bool" where
  "f32_le_1 x \<longleftrightarrow> \<not> f32_is_nan x \<and> (2147483648 \<le> x \<or> x \<le> 1065353216)"

section \<open>The record\<close>

definition PAGES_PER_SHARD :: nat where "PAGES_PER_SHARD = 64"
definition SHARD_TARGET_BYTES :: nat where "SHARD_TARGET_BYTES = PAGES_PER_SHARD * PAGE_BYTES"
definition MAX_HNSW_DEGREE :: nat where "MAX_HNSW_DEGREE = PAGE_BYTES div 4"
definition MIN_SHARDS :: nat where "MIN_SHARDS = 4"
definition MAX_SHARDS :: nat where "MAX_SHARDS = 2 ^ 16"

definition USIZE_FIELDS :: nat where "USIZE_FIELDS = 14"
definition F32_FIELDS :: nat where "F32_FIELDS = 10"
definition U32_FIELDS :: nat where "U32_FIELDS = 3"
definition F32S_AT :: nat where "F32S_AT = USIZE_FIELDS * 8"
definition U32S_AT :: nat where "U32S_AT = F32S_AT + F32_FIELDS * 4"
definition DB_UUID_AT :: nat where "DB_UUID_AT = U32S_AT + U32_FIELDS * 4"
definition RESERVED_AT :: nat where "RESERVED_AT = DB_UUID_AT + 16"
definition RESERVED_LEN :: nat where "RESERVED_LEN = 8"
definition ENCODED_LEN :: nat where "ENCODED_LEN = RESERVED_AT + RESERVED_LEN"

lemmas config_consts = USIZE_FIELDS_def F32_FIELDS_def U32_FIELDS_def F32S_AT_def U32S_AT_def DB_UUID_AT_def
  RESERVED_AT_def RESERVED_LEN_def ENCODED_LEN_def

record config =
  cf_dim :: nat
  cf_max_bytes :: nat
  cf_max_text :: nat
  cf_max_blob :: nat
  cf_shards_facts :: nat
  cf_shards_entities :: nat
  cf_shards_edges :: nat
  cf_shards_temporal :: nat
  cf_shards_postings :: nat
  cf_bm25_k1 :: f32
  cf_bm25_b :: f32
  cf_rrf_k :: u32
  cf_w_bm25 :: f32
  cf_w_vec :: f32
  cf_w_graph :: f32
  cf_w_time :: f32
  cf_w_recency :: f32
  cf_half_life_days :: u32
  cf_graph_depth :: u32
  cf_graph_decay :: f32
  cf_similar_cos :: f32
  cf_similar_jaccard :: f32
  cf_hnsw_m :: nat
  cf_hnsw_m0 :: nat
  cf_hnsw_ef_construction :: nat
  cf_hnsw_ef_search :: nat
  cf_flat_to_hnsw :: nat
  cf_db_uuid :: u128

definition config_default :: config where
  "config_default = \<lparr>cf_dim = 0, cf_max_bytes = 2 * 1024 * 1024 * 1024, cf_max_text = 4096, cf_max_blob = 64 * 1024,
     cf_shards_facts = MIN_SHARDS, cf_shards_entities = MIN_SHARDS, cf_shards_edges = MIN_SHARDS,
     cf_shards_temporal = MIN_SHARDS, cf_shards_postings = MIN_SHARDS,
     cf_bm25_k1 = 0x3F99999A, cf_bm25_b = 0x3F400000, cf_rrf_k = 60,
     cf_w_bm25 = 0x3F800000, cf_w_vec = 0x3F800000, cf_w_graph = 0x3F800000, cf_w_time = 0x3F800000,
     cf_w_recency = 0x3E800000, cf_half_life_days = 180, cf_graph_depth = 2, cf_graph_decay = 0x3F000000,
     cf_similar_cos = 0x3F59999A, cf_similar_jaccard = 0x3F000000, cf_hnsw_m = 16, cf_hnsw_m0 = 32,
     cf_hnsw_ef_construction = 200, cf_hnsw_ef_search = 64, cf_flat_to_hnsw = 24000, cf_db_uuid = 0\<rparr>"

section \<open>Validation\<close>

definition check_weight :: "f32 \<Rightarrow> string \<Rightarrow> core_error + unit" where
  "check_weight v what = (if f32_is_finite v \<and> f32_ge_0 v then Inr () else Inl (ConfigMismatch what))"

definition check_unit :: "f32 \<Rightarrow> string \<Rightarrow> core_error + unit" where
  "check_unit v what = (if f32_is_finite v \<and> f32_ge_0 v \<and> f32_le_1 v then Inr () else Inl (ConfigMismatch what))"

fun check_shards :: "(nat \<times> string \<times> string) list \<Rightarrow> core_error + unit" where
  "check_shards [] = Inr ()"
| "check_shards ((shards, not_pow2, too_many) # rest) =
     (if \<not> is_power_of_two shards then Inl (ConfigMismatch not_pow2)
      else if MAX_SHARDS < shards then Inl (ConfigMismatch too_many)
      else check_shards rest)"

definition config_validate :: "config \<Rightarrow> core_error + unit" where
  "config_validate c =
    (if 4096 < cf_dim c then Inl (ConfigMismatch ''dim must be <= 4096'')
     else try_res (check_shards
       [(cf_shards_facts c, ''shards_facts must be a power of two'', ''shards_facts exceeds MAX_SHARDS''),
        (cf_shards_entities c, ''shards_entities must be a power of two'', ''shards_entities exceeds MAX_SHARDS''),
        (cf_shards_edges c, ''shards_edges must be a power of two'', ''shards_edges exceeds MAX_SHARDS''),
        (cf_shards_temporal c, ''shards_temporal must be a power of two'', ''shards_temporal exceeds MAX_SHARDS''),
        (cf_shards_postings c, ''shards_postings must be a power of two'', ''shards_postings exceeds MAX_SHARDS'')]) (\<lambda>_.
     if cf_max_text c = 0 \<or> cf_max_blob c < cf_max_text c then Inl (ConfigMismatch ''max_text must be in 1..=max_blob'')
     else if cf_max_bytes c < cf_max_blob c then Inl (ConfigMismatch ''max_blob must be <= max_bytes'')
     else if \<not> (f32_is_finite (cf_bm25_k1 c) \<and> f32_gt_0 (cf_bm25_k1 c)) then Inl (ConfigMismatch ''bm25_k1 must be positive'')
     else try_res (check_unit (cf_bm25_b c) ''bm25_b must be in [0, 1]'') (\<lambda>_.
     if cf_rrf_k c = 0 then Inl (ConfigMismatch ''rrf_k must be >= 1'')
     else try_res (check_weight (cf_w_bm25 c) ''w_bm25 must be finite and >= 0'') (\<lambda>_.
     try_res (check_weight (cf_w_vec c) ''w_vec must be finite and >= 0'') (\<lambda>_.
     try_res (check_weight (cf_w_graph c) ''w_graph must be finite and >= 0'') (\<lambda>_.
     try_res (check_weight (cf_w_time c) ''w_time must be finite and >= 0'') (\<lambda>_.
     try_res (check_weight (cf_w_recency c) ''w_recency must be finite and >= 0'') (\<lambda>_.
     if cf_half_life_days c = 0 then Inl (ConfigMismatch ''half_life_days must be >= 1'')
     else if \<not> (f32_is_finite (cf_graph_decay c) \<and> f32_gt_0 (cf_graph_decay c) \<and> f32_le_1 (cf_graph_decay c))
     then Inl (ConfigMismatch ''graph_decay must be in (0, 1]'')
     else try_res (check_unit (cf_similar_cos c) ''similar_cos must be in [0, 1]'') (\<lambda>_.
     try_res (check_unit (cf_similar_jaccard c) ''similar_jaccard must be in [0, 1]'') (\<lambda>_.
     if cf_hnsw_m c < 2 then Inl (ConfigMismatch ''hnsw_m must be >= 2'')
     else if cf_hnsw_m0 c < cf_hnsw_m c then Inl (ConfigMismatch ''hnsw_m0 must be >= hnsw_m'')
     else if MAX_HNSW_DEGREE < cf_hnsw_m c then Inl (ConfigMismatch ''hnsw_m exceeds MAX_HNSW_DEGREE'')
     else if MAX_HNSW_DEGREE < cf_hnsw_m0 c then Inl (ConfigMismatch ''hnsw_m0 exceeds MAX_HNSW_DEGREE'')
     else if cf_hnsw_ef_construction c < cf_hnsw_m c then Inl (ConfigMismatch ''hnsw_ef_construction must be >= hnsw_m'')
     else if cf_hnsw_ef_search c = 0 then Inl (ConfigMismatch ''hnsw_ef_search must be >= 1'')
     else if cf_flat_to_hnsw c = 0 then Inl (ConfigMismatch ''flat_to_hnsw must be >= 1'')
     else Inr ()))))))))))"

section \<open>The block\<close>

text \<open>The three groups of fields, each in the order the block stores it.\<close>

definition size_fields :: "config \<Rightarrow> nat list" where
  "size_fields c = [cf_dim c, cf_max_bytes c, cf_max_text c, cf_max_blob c, cf_shards_facts c, cf_shards_entities c,
     cf_shards_edges c, cf_shards_temporal c, cf_shards_postings c, cf_hnsw_m c, cf_hnsw_m0 c,
     cf_hnsw_ef_construction c, cf_hnsw_ef_search c, cf_flat_to_hnsw c]"

definition f32_fields :: "config \<Rightarrow> f32 list" where
  "f32_fields c = [cf_bm25_k1 c, cf_bm25_b c, cf_w_bm25 c, cf_w_vec c, cf_w_graph c, cf_w_time c, cf_w_recency c,
     cf_graph_decay c, cf_similar_cos c, cf_similar_jaccard c]"

definition u32_fields :: "config \<Rightarrow> u32 list" where
  "u32_fields c = [cf_rrf_k c, cf_half_life_days c, cf_graph_depth c]"

definition config_encode :: "config \<Rightarrow> bytes \<Rightarrow> bytes" where
  "config_encode c out = out @ concat (map (\<lambda>v. u64_le (of_nat v)) (size_fields c)) @ concat (map u32_le (f32_fields c)) @
     concat (map u32_le (u32_fields c)) @ u128_le (cf_db_uuid c) @ replicate RESERVED_LEN 0"

text \<open>\<open>take_usize\<close>, and the fourteen calls of it.\<close>

definition take_usize :: "bytes \<Rightarrow> nat \<Rightarrow> core_error + nat \<times> nat" where
  "take_usize bs at =
     (let v = unat (u64_of_le (slice bs at (at + 8))) in
      if v \<le> usize_max then Inr (v, at + 8) else Inl (ConfigMismatch ''database requires a 64-bit address space''))"

fun take_sizes :: "bytes \<Rightarrow> nat \<Rightarrow> nat \<Rightarrow> core_error + nat list" where
  "take_sizes bs 0 at = Inr []"
| "take_sizes bs (Suc n) at = try_res (take_usize bs at) (\<lambda>(v, at). try_res (take_sizes bs n at) (\<lambda>vs. Inr (v # vs)))"

definition config_decode :: "bytes \<Rightarrow> core_error + config" where
  "config_decode bs =
     (if length bs \<noteq> ENCODED_LEN then Inl (Corrupt_core ''config block length mismatch'')
      else try_res (take_sizes bs USIZE_FIELDS 0) (\<lambda>sizes.
        let floats = read_u32s bs F32S_AT F32_FIELDS;
            u32s = read_u32s bs U32S_AT U32_FIELDS;
            db_uuid = u128_of_le (slice bs DB_UUID_AT RESERVED_AT) in
        if slice bs RESERVED_AT ENCODED_LEN \<noteq> replicate RESERVED_LEN 0
        then Inl (Corrupt_core ''reserved config bytes must be zero'')
        else
          let cfg = \<lparr>cf_dim = sizes ! 0, cf_max_bytes = sizes ! 1, cf_max_text = sizes ! 2, cf_max_blob = sizes ! 3,
            cf_shards_facts = sizes ! 4, cf_shards_entities = sizes ! 5, cf_shards_edges = sizes ! 6,
            cf_shards_temporal = sizes ! 7, cf_shards_postings = sizes ! 8,
            cf_bm25_k1 = floats ! 0, cf_bm25_b = floats ! 1, cf_rrf_k = u32s ! 0,
            cf_w_bm25 = floats ! 2, cf_w_vec = floats ! 3, cf_w_graph = floats ! 4, cf_w_time = floats ! 5,
            cf_w_recency = floats ! 6, cf_half_life_days = u32s ! 1, cf_graph_depth = u32s ! 2,
            cf_graph_decay = floats ! 7, cf_similar_cos = floats ! 8, cf_similar_jaccard = floats ! 9,
            cf_hnsw_m = sizes ! 9, cf_hnsw_m0 = sizes ! 10, cf_hnsw_ef_construction = sizes ! 11,
            cf_hnsw_ef_search = sizes ! 12, cf_flat_to_hnsw = sizes ! 13, cf_db_uuid = db_uuid\<rparr>
          in try_res (config_validate cfg) (\<lambda>_. Inr cfg)))"

end
