(* ===== verification/Record_Arena.thy ===== *)
theory Record_Arena
  imports Arena_Store Core_Error
begin

text \<open>
  Arenas seen through their record types. An arena stores slots under byte keys; the engine stores
  records under the tuples those keys encode. \<open>rview\<close> is that typed map, and the locale
  \<open>record_arena\<close> (a \<open>slot_codec\<close> whose key bytes encode a key type) carries each arena operation to
  it, once for all record types. \<open>effect\<close> is the shape of the engine's fallible methods on \<open>&mut self\<close>:
  the outer \<open>None\<close> is a panic, and an error keeps the state the early return leaves behind.
\<close>

section \<open>Methods that may fail\<close>

type_synonym ('s, 'a) effect = "'s \<Rightarrow> ((core_error + 'a) \<times> 's) option"

definition done_with :: "'a \<Rightarrow> ('s, 'a) effect" where
  "done_with x s = Some (Inr x, s)"

definition fail_with :: "core_error \<Rightarrow> ('s, 'a) effect" where
  "fail_with e s = Some (Inl e, s)"

definition and_then :: "('s, 'a) effect \<Rightarrow> ('a \<Rightarrow> ('s, 'b) effect) \<Rightarrow> ('s, 'b) effect" where
  "and_then m f s = (case m s of
     None \<Rightarrow> None
   | Some (Inl e, s') \<Rightarrow> Some (Inl e, s')
   | Some (Inr x, s') \<Rightarrow> f x s')"

definition panic_if :: "('s \<Rightarrow> bool) \<Rightarrow> ('s, unit) effect" where
  "panic_if p s = (if p s then None else Some (Inr (), s))"

definition modify :: "('s \<Rightarrow> 's) \<Rightarrow> ('s, unit) effect" where
  "modify f s = Some (Inr (), f s)"

lemma effect_simps [simp]:
  "done_with x s = Some (Inr x, s)" "fail_with e s = Some (Inl e, s)" "modify f s = Some (Inr (), f s)"
  by (simp_all add: done_with_def fail_with_def modify_def)

lemma and_then_simps [simp]:
  "m s = None \<Longrightarrow> and_then m f s = None"
  "m s = Some (Inl e, s') \<Longrightarrow> and_then m f s = Some (Inl e, s')"
  "m s = Some (Inr x, s') \<Longrightarrow> and_then m f s = f x s'"
  by (simp_all add: and_then_def)

lemma and_then_SomeE:
  assumes "and_then m f s = Some (r, t)"
  obtains (err) e where "m s = Some (Inl e, t)" "r = Inl e"
  | (ok) x s' where "m s = Some (Inr x, s')" "f x s' = Some (r, t)"
  using assms by (auto simp: and_then_def split: option.splits sum.splits)

text \<open>A value whose computation may panic, and a read of the state that may.\<close>

definition need :: "'a option \<Rightarrow> ('s, 'a) effect" where
  "need x s = map_option (\<lambda>v. (Inr v, s)) x"

definition reads :: "('s \<Rightarrow> 'a option) \<Rightarrow> ('s, 'a) effect" where
  "reads f s = map_option (\<lambda>v. (Inr v, s)) (f s)"

lemma need_reads_simps [simp]:
  "need (Some v) s = Some (Inr v, s)" "need None s = None"
  "f s = Some v \<Longrightarrow> reads f s = Some (Inr v, s)" "f s = None \<Longrightarrow> reads f s = None"
  by (simp_all add: need_def reads_def)

text \<open>An arena operation on the arena a state holds, read by \<open>get\<close> and written back by \<open>put\<close>.\<close>

definition insert_at ::
  "('s \<Rightarrow> arena) \<Rightarrow> (arena \<Rightarrow> 's \<Rightarrow> 's) \<Rightarrow> slot_type \<Rightarrow> ('r \<Rightarrow> bytes \<Rightarrow> bytes option) \<Rightarrow> bytes \<Rightarrow> 'r \<Rightarrow> ('s, bool) effect" where
  "insert_at get put T wr junk r s = (case arena_insert T wr junk r (get s) of
     None \<Rightarrow> None
   | Some (Inl e) \<Rightarrow> Some (Inl (Arena_err e), s)
   | Some (Inr (new, a)) \<Rightarrow> Some (Inr new, put a s))"

definition remove_at ::
  "('s \<Rightarrow> arena) \<Rightarrow> (arena \<Rightarrow> 's \<Rightarrow> 's) \<Rightarrow> slot_type \<Rightarrow> bytes \<Rightarrow> ('s, bool) effect" where
  "remove_at get put T key s = (case arena_remove T key (get s) of
     None \<Rightarrow> None
   | Some (hit, a) \<Rightarrow> Some (Inr hit, put a s))"

text \<open>\<open>payload_mut\<close>, the change \<open>f\<close> to the payload, and what an absent key leads to.\<close>

definition payload_at ::
  "('s \<Rightarrow> arena) \<Rightarrow> (arena \<Rightarrow> 's \<Rightarrow> 's) \<Rightarrow> slot_type \<Rightarrow> bytes \<Rightarrow> (bytes \<Rightarrow> bytes) \<Rightarrow> ('s, unit) effect \<Rightarrow> ('s, unit) effect" where
  "payload_at get put T key f absent s = (case arena_payload_mut T f (get s) key of
     None \<Rightarrow> None
   | Some None \<Rightarrow> absent s
   | Some (Some a) \<Rightarrow> Some (Inr (), put a s))"

section \<open>Pages an operation may add\<close>

lemma alloc_page_count: "alloc_page junk a = Inr (p, b) \<Longrightarrow> npages b \<le> npages a + 1"
  by (auto simp: alloc_page_def npages_def Let_def split: if_splits)

lemma npages_local [simp]:
  "npages (refresh_dir_key T at a) = npages a" "npages (dir_insert s at p a) = npages a" "npages (dir_remove s at a) = npages a"
  "npages (set_count p n a) = npages a" "npages (move_slots p o1 q o2 a) = npages a" "npages (link_after s p q a) = npages a"
  "npages (place_slot T slot p pos cnt at a) = npages a"
  by (simp_all add: npages_def refresh_dir_key_def dir_insert_def dir_remove_def set_count_def move_slots_def link_after_def
      place_slot_def Let_def)

lemma insert_npages:
  assumes rep: "arena_rep T a runs F" and room: "index_room (ar_cfg a)" and junk: "length junk = PAGE_BYTES"
    and slot: "length slot = SIZE T" and ins: "insert_bytes T junk slot a = Inr (new, b)"
  shows "npages b \<le> npages a + 1"
proof -
  note f = rep_frame [OF rep]
  define key where "key = take (KEY_LEN T) slot"
  define s where "s = shard_of (ar_cfg a) key"
  have key: "length key = KEY_LEN T" using slot f by (simp add: key_def frame_def slot_ok_def)
  have s: "s < length runs" using rep_shard [OF rep] by (simp add: s_def)
  have split: "npages c \<le> npages d + 1" if "arena_split T junk s' at pos d = Inr (r, c)" for s' at pos r c d
    using that by (auto simp: arena_split_def Let_def try_res_eq_Inr dest!: alloc_page_count split: if_splits)
  show ?thesis
  proof (cases "find_page T a s key")
    case (Some t)
    then show ?thesis
      using ins by (auto simp: insert_bytes_def key_def [symmetric] s_def [symmetric] Let_def try_res_eq_Inr
          split: sum.splits if_splits dest!: split)
  next
    case None
    have e: "runs ! s = []"
      by (rule rep_find [OF rep key, folded s_def]) (use None in auto)
    have full: "\<not> arena_full a"
      using ins None by (auto simp: insert_bytes_def key_def [symmetric] s_def [symmetric] Let_def open_shard_def alloc_page_full)
    obtain q k c where o: "open_shard T junk s a = Inr (\<lparr>tg_prev = NONE_U32, tg_page = of_nat q, tg_at = k\<rparr>, c)"
      and r: "ready T a runs c s [] [] q 0 k" and z: "recs T c q = []" and q: "unat (of_nat q :: u32) = q"
      using ready_open [OF rep s e full room junk] by blast
    have spp: "0 < slots_per_page T" using r by (auto simp: ready_def)
    have cnt: "ar_count c (of_nat q) = 0" using z q by (metis ar_count_def length_recs list.size(3))
    have "b = place_slot T slot (of_nat q) 0 0 k c"
      using ins None o spp cnt by (simp add: insert_bytes_def key_def [symmetric] s_def [symmetric] Let_def search_empty)
    moreover have "npages c \<le> npages a + 1"
      using o by (auto simp: open_shard_def Let_def try_res_eq_Inr npages_def dir_insert_def dest!: alloc_page_count [unfolded npages_def])
    ultimately show ?thesis by simp
  qed
qed

lemma remove_npages: "arena_remove T key a = Some (hit, b) \<Longrightarrow> npages b = npages a"
  by (auto simp: arena_remove_def unlink_page_def Let_def npages_def refresh_dir_key_def dir_remove_def split: if_splits option.splits sum.splits)

lemma payload_npages: "arena_payload_mut T f a key = Some (Some b) \<Longrightarrow> npages b = npages a"
  by (auto simp: arena_payload_mut_def npages_def Let_def)

section \<open>The typed view\<close>

definition rview :: "slot_type \<Rightarrow> (bytes \<Rightarrow> 'r option) \<Rightarrow> ('k \<Rightarrow> bytes) \<Rightarrow> arena \<Rightarrow> 'k \<Rightarrow> 'r option" where
  "rview T rd kb a k = Option.bind (arena_map T a (kb k)) rd"

lemma arena_map_slot:
  assumes "arena_inv T a" and "arena_map T a k = Some r"
  shows "slot_key T r = k" and "length r = SIZE T"
proof -
  obtain runs F where rep: "arena_rep T a runs F" using assms(1) unfolding arena_inv_def by blast
  note f = rep_frame [OF rep]
  have s: "shard_of (ar_cfg a) k < length runs" using rep_shard [OF rep] .
  have "r \<in> set (run_recs T a (runs ! shard_of (ar_cfg a) k)) \<and> slot_key T r = k"
    using arena_map_iff [OF rep] assms(2) by blast
  then show "slot_key T r = k" "length r = SIZE T"
    using recs_size [OF f] frame_bound(1) [OF f s] by (auto simp: set_run_recs)
qed

locale record_arena = slot_codec T wr rd image
  for T :: slot_type and wr :: "'r \<Rightarrow> bytes \<Rightarrow> bytes option" and rd :: "bytes \<Rightarrow> 'r option" and image :: "'r \<Rightarrow> bytes" +
  fixes key_of :: "'r \<Rightarrow> 'k" and kb :: "'k \<Rightarrow> bytes"
  assumes image_key: "slot_key T (image r) = kb (key_of r)"
    and kb_inj: "kb k = kb k' \<longleftrightarrow> k = k'"
    and length_kb: "length (kb k) = KEY_LEN T"
begin

lemma view_iff:
  assumes "arena_inv T a"
  shows "rview T rd kb a k = Some r \<longleftrightarrow> arena_map T a (kb k) = Some (image r)"
proof
  assume "rview T rd kb a k = Some r"
  then obtain bs where bs: "arena_map T a (kb k) = Some bs" "rd bs = Some r"
    by (auto simp: rview_def bind_eq_Some_conv)
  with image_read [OF arena_map_slot(2) [OF assms bs(1)]] show "arena_map T a (kb k) = Some (image r)" by auto
qed (simp add: rview_def read_image)

lemma view_none:
  assumes "arena_inv T a"
  shows "rview T rd kb a k = None \<longleftrightarrow> arena_map T a (kb k) = None"
proof
  assume "rview T rd kb a k = None"
  then show "arena_map T a (kb k) = None"
    using image_read arena_map_slot(2) [OF assms, of "kb k"] by (cases "arena_map T a (kb k)") (fastforce simp: rview_def)+
qed (simp add: rview_def)

lemma view_map: "arena_inv T a \<Longrightarrow> arena_map T a (kb k) = map_option image (rview T rd kb a k)"
  using view_iff [of a k] view_none [of a k] by (cases "rview T rd kb a k") auto

lemma view_key: "arena_inv T a \<Longrightarrow> rview T rd kb a k = Some r \<Longrightarrow> key_of r = k"
  using arena_map_slot(1) [of T a "kb k" "image r"] by (simp add: view_iff image_key kb_inj)

lemma get_view:
  assumes "arena_inv T a"
  shows "arena_get_slot T a (kb k) = Some (map_option image (rview T rd kb a k))"
    and "arena_get T rd a (kb k) = Some (rview T rd kb a k)"
proof -
  obtain runs F where "arena_rep T a runs F" using assms unfolding arena_inv_def by blast
  from get_slot_rep [OF this length_kb] show slot: "arena_get_slot T a (kb k) = Some (map_option image (rview T rd kb a k))"
    using view_map [OF assms] by simp
  then have "arena_get T rd a (kb k) = (case map_option image (rview T rd kb a k) of None \<Rightarrow> Some None | Some r \<Rightarrow> map_option Some (rd r))"
    by (auto simp: arena_get_def arena_get_slot_def Let_def split: option.splits)
  then show "arena_get T rd a (kb k) = Some (rview T rd kb a k)"
    by (cases "rview T rd kb a k") (simp_all add: read_image)
qed

lemma view_update:
  assumes "arena_inv T a" "arena_inv T b" "arena_map T b = (arena_map T a)(kb k := map_option image x)"
  shows "rview T rd kb b = (rview T rd kb a)(k := x)"
  using assms(3) read_image by (cases x) (auto simp: rview_def fun_eq_iff kb_inj)

text \<open>Insertion: refused, a duplicate, or the new record and nothing else.\<close>

lemma insert_view:
  assumes "arena_usable T a" and "length junk = PAGE_BYTES"
  obtains (dup) r' where "rview T rd kb a (key_of r) = Some r'" "arena_insert T wr junk r a = Some (Inr (False, a))"
  | (full) "rview T rd kb a (key_of r) = None" "arena_full a"
      "arena_insert T wr junk r a = Some (Inl (CapacityExceeded (ac_max_bytes (ar_cfg a))))"
  | (new) b where "rview T rd kb a (key_of r) = None" "arena_insert T wr junk r a = Some (Inr (True, b))"
      "arena_usable T b" "rview T rd kb b = (rview T rd kb a)(key_of r \<mapsto> r)" "ar_cfg b = ar_cfg a"
      "arena_len b = arena_len a + 1" "npages b \<le> npages a + 1"
proof -
  have inv: "arena_inv T a" and room: "index_room (ar_cfg a)" using assms(1) by (simp_all add: arena_usable_def)
  obtain runs F where rep: "arena_rep T a runs F" using inv unfolding arena_inv_def by blast
  have ins: "arena_insert T wr junk r a = Some (insert_bytes T junk (image r) a)"
    by (simp add: arena_insert_def write_fills)
  have key: "slot_key T (image r) = kb (key_of r)" by (rule image_key)
  from insert_bytes_rep [OF rep length_image room assms(2), of r, unfolded key]
  show ?thesis
  proof (elim disjE conjE exE)
    assume "arena_map T a (kb (key_of r)) \<noteq> None" "insert_bytes T junk (image r) a = Inr (False, a)"
    then show ?thesis using dup view_none [OF inv, of "key_of r"] ins by auto
  next
    assume "arena_map T a (kb (key_of r)) = None" "arena_full a"
      "insert_bytes T junk (image r) a = Inl (CapacityExceeded (ac_max_bytes (ar_cfg a)))"
    then show ?thesis using full view_none [OF inv] ins by simp
  next
    fix b assume b: "arena_map T a (kb (key_of r)) = None" "insert_bytes T junk (image r) a = Inr (True, b)" "inserted T (image r) a b"
    then have "arena_inv T b" "arena_map T b = (arena_map T a)(kb (key_of r) := map_option image (Some r))"
      by (simp_all add: inserted_def key)
    with view_update [OF inv this] new b view_none [OF inv] ins room
      insert_npages [OF rep room assms(2) length_image b(2)] show ?thesis
      by (simp add: inserted_def arena_usable_def)
  qed
qed

lemma remove_view:
  assumes "arena_usable T a"
  obtains (absent) "rview T rd kb a k = None" "arena_remove T (kb k) a = Some (False, a)"
  | (hit) r b where "rview T rd kb a k = Some r" "arena_remove T (kb k) a = Some (True, b)" "arena_usable T b"
      "rview T rd kb b = (rview T rd kb a)(k := None)" "ar_cfg b = ar_cfg a" "npages b = npages a"
proof -
  have inv: "arena_inv T a" and room: "index_room (ar_cfg a)" using assms(1) by (simp_all add: arena_usable_def)
  obtain runs F where rep: "arena_rep T a runs F" using inv unfolding arena_inv_def by blast
  from remove_rep [OF rep length_kb, of k] show ?thesis
  proof (elim disjE conjE exE)
    assume "arena_map T a (kb k) = None" "arena_remove T (kb k) a = Some (False, a)"
    then show ?thesis using absent view_none [OF inv] by simp
  next
    fix b assume b: "arena_map T a (kb k) \<noteq> None" "arena_remove T (kb k) a = Some (True, b)" "removed T (kb k) a b"
    then have "arena_inv T b" "arena_map T b = (arena_map T a)(kb k := map_option image None)"
      by (simp_all add: removed_def)
    with view_update [OF inv this] hit b view_none [OF inv, of k] room remove_npages [OF b(2)] show ?thesis
      by (auto simp: removed_def arena_usable_def)
  qed
qed

lemma payload_view:
  assumes "arena_usable T a" and "\<And>xs. length xs = SIZE T - KEY_LEN T \<Longrightarrow> length (g xs) = length xs"
    and "\<And>r. rview T rd kb a k = Some r \<Longrightarrow> image (h r) = kb k @ g (drop (KEY_LEN T) (image r))"
  obtains (absent) "rview T rd kb a k = None" "arena_payload_mut T g a (kb k) = Some None"
  | (hit) r b where "rview T rd kb a k = Some r" "arena_payload_mut T g a (kb k) = Some (Some b)" "arena_usable T b"
      "rview T rd kb b = (rview T rd kb a)(k \<mapsto> h r)" "ar_cfg b = ar_cfg a" "npages b = npages a"
proof -
  have inv: "arena_inv T a" and room: "index_room (ar_cfg a)" using assms(1) by (simp_all add: arena_usable_def)
  obtain runs F where rep: "arena_rep T a runs F" using inv unfolding arena_inv_def by blast
  note p = payload_rep [OF rep length_kb assms(2), of k]
  show ?thesis
  proof (cases "rview T rd kb a k")
    case None
    then show ?thesis using p absent view_map [OF inv, of k] by simp
  next
    case (Some r)
    with p view_map [OF inv, of k] obtain b where b: "arena_payload_mut T g a (kb k) = Some (Some b)" "arena_rep T b runs F"
      "ar_cfg b = ar_cfg a" "arena_map T b = (arena_map T a)(kb k \<mapsto> kb k @ g (drop (KEY_LEN T) (image r)))" by auto
    then have "arena_inv T b" "arena_map T b = (arena_map T a)(kb k := map_option image (Some (h r)))"
      using assms(3) [OF Some] by (auto simp: arena_inv_def)
    with view_update [OF inv this] hit Some b room payload_npages [OF b(1)] show ?thesis by (simp add: arena_usable_def)
  qed
qed

lemma new_view:
  assumes "arena_new T cfg = Inr a" and "ac_shards cfg \<le> usize_max" and "index_room cfg"
  shows "arena_usable T a" and "rview T rd kb a = Map.empty" and "ar_cfg a = cfg"
  using arena_new_rep [OF assms(1,2)] assms(3) by (auto simp: arena_usable_def arena_inv_def rview_def fun_eq_iff)

end

section \<open>The record types of the engine\<close>

definition id_key :: "u32 \<Rightarrow> bytes" where
  "id_key i = u32_be i"

definition pair_key :: "u32 \<times> u32 \<Rightarrow> bytes" where
  "pair_key k = u32_be (fst k) @ u32_be (snd k)"

definition stamp_key :: "u64 \<times> u32 \<Rightarrow> bytes" where
  "stamp_key k = u64_be (fst k) @ u32_be (snd k)"

definition triple_key :: "u32 \<times> u32 \<times> u32 \<Rightarrow> bytes" where
  "triple_key k = (case k of (a, rel, b) \<Rightarrow> u32_be a @ u32_be rel @ u32_be b)"

definition version_key :: "u32 \<times> u64 \<times> u32 \<Rightarrow> bytes" where
  "version_key k = (case k of (a, vf, e) \<Rightarrow> u32_be a @ u64_be vf @ u32_be e)"

lemmas key_defs = id_key_def pair_key_def stamp_key_def triple_key_def version_key_def

lemma be_inj [simp]: "u32_be x = u32_be y \<longleftrightarrow> x = y" "u64_be v = u64_be w \<longleftrightarrow> v = w"
  by (metis word_bytes_inverse)+

interpretation fr_arena: record_arena fact_record_slot fact_record_write fact_record_read fact_record_image fr_id id_key
  by unfold_locales (simp_all add: fact_record_slot_def fact_record_image_def slot_key_def key_defs)

interpretation fa_arena: record_arena fact_aux_slot fact_aux_write fact_aux_read fact_aux_image fa_id id_key
  by unfold_locales (simp_all add: fact_aux_slot_def fact_aux_image_def slot_key_def key_defs)

interpretation en_arena: record_arena entity_record_slot entity_record_write entity_record_read entity_record_image en_id id_key
  by unfold_locales (simp_all add: entity_record_slot_def entity_record_image_def slot_key_def key_defs)

interpretation bn_arena: record_arena entity_by_name_slot entity_by_name_write entity_by_name_read entity_by_name_image
  "\<lambda>r. (bn_name_term r, bn_id r)" pair_key
  by unfold_locales (auto simp: entity_by_name_slot_def entity_by_name_image_def slot_key_def key_defs)

interpretation ts_arena: record_arena temporal_slot_slot temporal_slot_write temporal_slot_read temporal_slot_image
  "\<lambda>r. (ts_recorded_at r, ts_fact r)" stamp_key
  by unfold_locales (auto simp: temporal_slot_slot_def temporal_slot_image_def slot_key_def key_defs)

interpretation es_arena: record_arena edge_slot_slot edge_slot_write edge_slot_read edge_slot_image
  "\<lambda>r. (es_a r, es_rel r, es_b r)" triple_key
  by unfold_locales (auto simp: edge_slot_slot_def edge_slot_image_def slot_key_def key_defs)

interpretation eh_arena: record_arena edge_history_slot_slot edge_history_slot_write edge_history_slot_read edge_history_slot_image
  "\<lambda>r. (eh_a r, eh_valid_from r, eh_edge r)" version_key
  by unfold_locales (auto simp: edge_history_slot_slot_def edge_history_slot_image_def slot_key_def key_defs)

end
