(* ===== verification/Edges.thy ===== *)
theory Edges
  imports Record_Arena
begin

text \<open>
  The bitemporal edge graph of \<open>crates/plugmem-core/src/memory.rs\<close>: the four edge arenas and the edge id
  counter of \<open>Memory\<close>, and the private methods that open and close edge versions. Every edge is
  stored twice, under its source and under its target; the current graph holds the open version of
  a \<open>(src, rel, dst)\<close> triple, the history holds all of them. Method arguments called \<open>junk\<close> give
  the bytes a page holds when an arena grows by it.
\<close>

record graph =
  edges_out :: arena
  edges_in :: arena
  edges_hist_out :: arena
  edges_hist_in :: arena
  next_edge :: edge_id

definition put_out :: "arena \<Rightarrow> graph \<Rightarrow> graph" where "put_out a g = g\<lparr>edges_out := a\<rparr>"
definition put_in :: "arena \<Rightarrow> graph \<Rightarrow> graph" where "put_in a g = g\<lparr>edges_in := a\<rparr>"
definition put_hist_out :: "arena \<Rightarrow> graph \<Rightarrow> graph" where "put_hist_out a g = g\<lparr>edges_hist_out := a\<rparr>"
definition put_hist_in :: "arena \<Rightarrow> graph \<Rightarrow> graph" where "put_hist_in a g = g\<lparr>edges_hist_in := a\<rparr>"

lemmas put_defs = put_out_def put_in_def put_hist_out_def put_hist_in_def

text \<open>The edge arenas of a new database: \<open>ord\<close> of \<open>Memory::new\<close>.\<close>

definition graph_new :: "nat \<Rightarrow> nat \<Rightarrow> core_error + graph" where
  "graph_new shards_edges max_bytes =
     (let cfg = \<lparr>ac_shards = shards_edges, ac_max_bytes = max_bytes, ac_mode = Ordered\<rparr> in
      try_res (from_arena (arena_new edge_slot_slot cfg)) (\<lambda>ao.
      try_res (from_arena (arena_new edge_slot_slot cfg)) (\<lambda>ai.
      try_res (from_arena (arena_new edge_history_slot_slot cfg)) (\<lambda>ho.
      try_res (from_arena (arena_new edge_history_slot_slot cfg)) (\<lambda>hi.
        Inr \<lparr>edges_out = ao, edges_in = ai, edges_hist_out = ho, edges_hist_in = hi, next_edge = 0\<rparr>)))))"

definition current_edge :: "graph \<Rightarrow> entity_id \<Rightarrow> term_id \<Rightarrow> entity_id \<Rightarrow> edge_slot option option" where
  "current_edge g src rel dst = do {
     key \<leftarrow> edge_key src rel dst;
     slot \<leftarrow> arena_get_slot edge_slot_slot (edges_out g) key;
     (case slot of None \<Rightarrow> Some None | Some bs \<Rightarrow> map_option Some (edge_slot_read bs)) }"

text \<open>
  One pass of the loop of \<open>insert_current_edge\<close>: the slot is inserted, or the payload of the one
  already there is overwritten.
\<close>

definition put_current :: "(graph \<Rightarrow> arena) \<Rightarrow> (arena \<Rightarrow> graph \<Rightarrow> graph) \<Rightarrow> bytes \<Rightarrow> edge_slot \<Rightarrow> (graph, unit) effect" where
  "put_current get put junk slot =
     and_then (insert_at get put edge_slot_slot edge_slot_write junk slot) (\<lambda>new.
       if new then done_with ()
       else and_then (need (edge_key (es_a slot) (es_rel slot) (es_b slot))) (\<lambda>key.
            and_then (need (edge_slot_write slot (replicate (SIZE edge_slot_slot) 0))) (\<lambda>full.
              payload_at get put edge_slot_slot key (\<lambda>_. drop (KEY_LEN edge_slot_slot) full) (need None))))"

definition insert_current_edge ::
  "(nat \<Rightarrow> bytes) \<Rightarrow> entity_id \<Rightarrow> term_id \<Rightarrow> entity_id \<Rightarrow> fact_id \<Rightarrow> edge_id \<Rightarrow> u64 \<Rightarrow> (graph, unit) effect" where
  "insert_current_edge junk src rel dst prov edge valid_from =
     and_then (put_current edges_out put_out (junk 2)
         \<lparr>es_a = src, es_rel = rel, es_b = dst, es_fact = prov, es_edge = edge, es_valid_from = valid_from\<rparr>) (\<lambda>_.
       put_current edges_in put_in (junk 3)
         \<lparr>es_a = dst, es_rel = rel, es_b = src, es_fact = prov, es_edge = edge, es_valid_from = valid_from\<rparr>)"

definition insert_history_edge :: "(nat \<Rightarrow> bytes) \<Rightarrow> edge_history_slot \<Rightarrow> (graph, unit) effect" where
  "insert_history_edge junk edge =
     and_then (insert_at edges_hist_out put_hist_out edge_history_slot_slot edge_history_slot_write (junk 0) edge) (\<lambda>_.
     and_then (insert_at edges_hist_in put_hist_in edge_history_slot_slot edge_history_slot_write (junk 1)
         (edge\<lparr>eh_a := eh_b edge, eh_b := eh_a edge\<rparr>)) (\<lambda>_. done_with ()))"

text \<open>A payload of the slot's length always closes; shorter ones would panic and do not occur.\<close>

definition closing :: "u64 \<Rightarrow> bytes \<Rightarrow> bytes" where
  "closing close_at payload = (case close_edge_history_payload payload close_at of None \<Rightarrow> payload | Some p \<Rightarrow> p)"

definition close_current_edge :: "u64 \<Rightarrow> entity_id \<Rightarrow> term_id \<Rightarrow> entity_id \<Rightarrow> (graph, bool) effect" where
  "close_current_edge now src rel dst =
     and_then (reads (\<lambda>g. current_edge g src rel dst)) (\<lambda>found. case found of
       None \<Rightarrow> done_with False
     | Some current \<Rightarrow>
         let close_at = max now (es_valid_from current) in
         and_then (need (edge_history_key src (es_valid_from current) (es_edge current))) (\<lambda>out_key.
         and_then (need (edge_history_key dst (es_valid_from current) (es_edge current))) (\<lambda>in_key.
         and_then (payload_at edges_hist_out put_hist_out edge_history_slot_slot out_key (closing close_at)
             (fail_with (Corrupt_core ''missing outgoing edge history''))) (\<lambda>_.
         and_then (payload_at edges_hist_in put_hist_in edge_history_slot_slot in_key (closing close_at)
             (fail_with (Corrupt_core ''missing incoming edge history''))) (\<lambda>_.
         and_then (need (edge_key src rel dst)) (\<lambda>out_edge.
         and_then (remove_at edges_out put_out edge_slot_slot out_edge) (\<lambda>out_removed.
         and_then (need (edge_key dst rel src)) (\<lambda>in_edge.
         and_then (remove_at edges_in put_in edge_slot_slot in_edge) (\<lambda>in_removed.
           if out_removed \<noteq> in_removed then fail_with (Corrupt_core ''edge mirrors disagree'')
           else done_with out_removed)))))))))"

text \<open>The second half of \<open>open_edge\<close>: a fresh version under the next edge id.\<close>

definition open_version :: "(nat \<Rightarrow> bytes) \<Rightarrow> u64 \<Rightarrow> entity_id \<Rightarrow> term_id \<Rightarrow> entity_id \<Rightarrow> fact_id \<Rightarrow> (graph, unit) effect" where
  "open_version junk now src rel dst prov =
     and_then (reads (\<lambda>g. Some (next_edge g))) (\<lambda>edge.
     and_then (insert_history_edge junk
         \<lparr>eh_a = src, eh_rel = rel, eh_b = dst, eh_edge = edge, eh_fact = prov, eh_flags = 0, eh_kind = 0,
          eh_recorded_at = now, eh_valid_from = now, eh_valid_to = VALID_TO_OPEN\<rparr>) (\<lambda>_.
     and_then (insert_current_edge junk src rel dst prov edge now) (\<lambda>_.
     and_then (panic_if (\<lambda>g. next_edge g = - 1)) (\<lambda>_.
       modify (\<lambda>g. g\<lparr>next_edge := next_edge g + 1\<rparr>)))))"

definition open_edge :: "(nat \<Rightarrow> bytes) \<Rightarrow> u64 \<Rightarrow> entity_id \<Rightarrow> term_id \<Rightarrow> entity_id \<Rightarrow> fact_id \<Rightarrow> (graph, unit) effect" where
  "open_edge junk now src rel dst prov =
     and_then (reads (\<lambda>g. current_edge g src rel dst)) (\<lambda>found. case found of
       None \<Rightarrow> open_version junk now src rel dst prov
     | Some current \<Rightarrow>
         if es_fact current = prov then done_with ()
         else and_then (close_current_edge now src rel dst) (\<lambda>_. open_version junk now src rel dst prov))"

end
