(* ===== verification/Rust_Search.thy ===== *)
theory Rust_Search
  imports Rust_Std
begin

text \<open>
  Binary search of \<open>core::slice\<close>: \<open>binary_search_by\<close> and \<open>partition_point\<close> with the standard library's
  loop, over a comparison that may panic (\<open>None\<close>), and what they return on a sorted slice. \<open>Ok\<close> of the
  result is \<open>Inr\<close>, the insertion point of \<open>Err\<close> is \<open>Inl\<close>.
\<close>

definition compare :: "'a :: linorder \<Rightarrow> 'a \<Rightarrow> ordering" where
  "compare x y = (if x < y then Less else if x = y then Equal else Greater)"

lemma compare_simps [simp]:
  "compare x y = Less \<longleftrightarrow> x < y" "compare x y = Equal \<longleftrightarrow> x = y" "compare x y = Greater \<longleftrightarrow> y < x"
  using less_linear [of x y] by (auto simp: compare_def)

function bsearch_loop :: "(nat \<Rightarrow> ordering option) \<Rightarrow> nat \<Rightarrow> nat \<Rightarrow> nat option" where
  "bsearch_loop f base sz =
     (if 1 < sz then
        let half = sz div 2; mid = base + half in do {
          c \<leftarrow> f mid;
          bsearch_loop f (if c = Greater then base else mid) (sz - half) }
      else Some base)"
  by pat_completeness auto
termination
  by (relation "measure (\<lambda>(f, base, sz). sz)") auto

declare bsearch_loop.simps [simp del]

definition binary_search_by :: "(nat \<Rightarrow> ordering option) \<Rightarrow> nat \<Rightarrow> (nat + nat) option" where
  "binary_search_by f n =
     (if n = 0 then Some (Inl 0)
      else do {
        base \<leftarrow> bsearch_loop f 0 n;
        c \<leftarrow> f base;
        Some (if c = Equal then Inr base else Inl (base + (if c = Less then 1 else 0))) })"

definition partition_point :: "(nat \<Rightarrow> bool option) \<Rightarrow> nat \<Rightarrow> nat option" where
  "partition_point p n =
     map_option (case_sum id id) (binary_search_by (\<lambda>i. map_option (\<lambda>b. if b then Less else Greater) (p i)) n)"

lemma bsearch_loop_spec:
  assumes f: "\<forall>i < n. f i = Some (g i)" and mono: "\<forall>i j. i \<le> j \<longrightarrow> j < n \<longrightarrow> g i = Greater \<longrightarrow> g j = Greater"
  shows "0 < sz \<Longrightarrow> base + sz \<le> n \<Longrightarrow> base = 0 \<or> g base \<noteq> Greater \<Longrightarrow> (\<forall>j. base + sz \<le> j \<and> j < n \<longrightarrow> g j = Greater) \<Longrightarrow>
    \<exists>b. bsearch_loop f base sz = Some b \<and> b < n \<and> (b = 0 \<or> g b \<noteq> Greater) \<and> (\<forall>j. b < j \<and> j < n \<longrightarrow> g j = Greater)"
proof (induction sz arbitrary: base rule: less_induct)
  case (less sz)
  show ?case
  proof (cases "1 < sz")
    case True
    let ?mid = "base + sz div 2"
    have mid: "?mid < n" using less.prems(1,2) True by linarith
    have half: "0 < sz div 2" "sz div 2 < sz" using True by auto
    show ?thesis
    proof (cases "g ?mid = Greater")
      case gr: True
      have "\<forall>j. base + (sz - sz div 2) \<le> j \<and> j < n \<longrightarrow> g j = Greater"
      proof (intro allI impI)
        fix j assume j: "base + (sz - sz div 2) \<le> j \<and> j < n"
        then have "?mid \<le> j" by linarith
        then show "g j = Greater" using mono gr j by blast
      qed
      with less.IH [of "sz - sz div 2" base] less.prems half show ?thesis
        by (subst bsearch_loop.simps) (use True f mid gr in \<open>simp add: Let_def\<close>)
    next
      case False
      with less.IH [of "sz - sz div 2" ?mid] less.prems half show ?thesis
        by (subst bsearch_loop.simps) (use True f mid False in \<open>simp add: Let_def\<close>)
    qed
  next
    case False
    then have "sz = 1" using less.prems(1) by simp
    then show ?thesis using less.prems by (subst bsearch_loop.simps) auto
  qed
qed

lemma bsearch_spec:
  assumes f: "\<forall>i < n. f i = Some (g i)" and mono: "\<forall>i j. i \<le> j \<longrightarrow> j < n \<longrightarrow> g i = Greater \<longrightarrow> g j = Greater" and n: "0 < n"
  obtains b where "bsearch_loop f 0 n = Some b" "b < n" "b = 0 \<or> g b \<noteq> Greater" "\<And>j. b < j \<Longrightarrow> j < n \<Longrightarrow> g j = Greater"
proof -
  have "\<forall>j. 0 + n \<le> j \<and> j < n \<longrightarrow> g j = Greater" by auto
  from bsearch_loop_spec [OF f mono n _ _ this] that show ?thesis by auto
qed

text \<open>On a slice ordered strictly by a key, against a key.\<close>

lemma binary_search_sorted:
  assumes so: "sorted_wrt (<) (ks :: 'a :: linorder list)" and f: "\<And>i. i < length ks \<Longrightarrow> f i = Some (compare (ks ! i) x)"
  obtains (found) i where "binary_search_by f (length ks) = Some (Inr i)" "i < length ks" "ks ! i = x"
  | (absent) i where "binary_search_by f (length ks) = Some (Inl i)" "i \<le> length ks" "x \<notin> set ks"
      "\<forall>k \<in> set (take i ks). k < x" "\<forall>k \<in> set (drop i ks). x < k"
proof (cases "ks = []")
  case True
  then show ?thesis using absent [of 0] by (simp add: binary_search_by_def)
next
  case False
  have lt: "i < j \<Longrightarrow> j < length ks \<Longrightarrow> ks ! i < ks ! j" for i j using so by (simp add: sorted_wrt_iff_nth_less)
  have mono: "\<forall>i j. i \<le> j \<longrightarrow> j < length ks \<longrightarrow> compare (ks ! i) x = Greater \<longrightarrow> compare (ks ! j) x = Greater"
    using lt by (metis compare_simps(3) le_neq_implies_less order_less_trans)
  have "\<forall>i < length ks. f i = Some (compare (ks ! i) x)" using f by blast
  from bsearch_spec [OF this mono] False obtain b where
    b: "bsearch_loop f 0 (length ks) = Some b" "b < length ks" "b = 0 \<or> \<not> x < ks ! b" "\<And>j. b < j \<Longrightarrow> j < length ks \<Longrightarrow> x < ks ! j"
    by (metis compare_simps(3) length_greater_0_conv)
  have after: "k \<in> set (drop (Suc b) ks) \<Longrightarrow> x < k" for k
    using b(4) by (auto simp: in_set_conv_nth)
  have before: "k \<in> set (take b ks) \<Longrightarrow> k < ks ! b" for k
    using lt b(2) by (auto simp: in_set_conv_nth)
  have whole: "ks = take b ks @ ks ! b # drop (Suc b) ks" using id_take_nth_drop [OF b(2)] .
  have r: "binary_search_by f (length ks) = Some (if compare (ks ! b) x = Equal then Inr b else Inl (b + (if compare (ks ! b) x = Less then 1 else 0)))"
    using b f False by (simp add: binary_search_by_def)
  consider "ks ! b = x" | "ks ! b < x" | "x < ks ! b" by fastforce
  then show ?thesis
  proof cases
    case 1
    then show ?thesis using found [of b] r b(2) by simp
  next
    case 2
    then have t: "\<forall>k \<in> set (take (b + 1) ks). k < x" using before b(2) by (auto simp: take_Suc_conv_app_nth) (meson order_less_trans)
    moreover have "x \<notin> set ks"
      using t after unfolding set_append [symmetric] by (metis Un_iff append_take_drop_id less_irrefl set_append Suc_eq_plus1)
    ultimately show ?thesis using absent [of "b + 1"] r b(2) 2 after by simp
  next
    case 3
    then have "b = 0" using b(3) by auto
    then have "\<forall>k \<in> set ks. x < k" using whole 3 after by (metis append_Nil set_ConsD take0)
    moreover have "x \<notin> set ks" using calculation by blast
    moreover have "ks ! 0 \<noteq> x" "\<not> ks ! 0 < x" using 3 \<open>b = 0\<close> by auto
    ultimately show ?thesis using absent [of 0] r \<open>b = 0\<close> by simp
  qed
qed

lemma partition_point_spec:
  assumes f: "\<And>i. i < n \<Longrightarrow> p i = Some (g i)" and mono: "\<And>i j. i \<le> j \<Longrightarrow> j < n \<Longrightarrow> g j \<Longrightarrow> g i"
  obtains i where "partition_point p n = Some i" "i \<le> n" "\<And>j. j < i \<Longrightarrow> g j" "\<And>j. i \<le> j \<Longrightarrow> j < n \<Longrightarrow> \<not> g j"
proof (cases "n = 0")
  case True
  then show ?thesis using that [of 0] by (simp add: partition_point_def binary_search_by_def)
next
  case False
  let ?f = "\<lambda>i. map_option (\<lambda>b. if b then Less else Greater) (p i)" and ?g = "\<lambda>i. if g i then Less else Greater"
  have f': "\<forall>i < n. ?f i = Some (?g i)" by (simp add: f)
  have m': "\<forall>i j. i \<le> j \<longrightarrow> j < n \<longrightarrow> ?g i = Greater \<longrightarrow> ?g j = Greater" using mono by (auto split: if_splits)
  from False obtain b where
    b: "bsearch_loop ?f 0 n = Some b" "b < n" "b = 0 \<or> g b" "\<And>j. b < j \<Longrightarrow> j < n \<Longrightarrow> \<not> g j"
    by (metis bsearch_spec [OF f' m'] gr0I ordering.distinct(3))
  have r: "partition_point p n = Some (b + (if g b then 1 else 0))"
    using b False by (simp add: partition_point_def binary_search_by_def f)
  show ?thesis
  proof (rule that [OF r])
    show "b + (if g b then 1 else 0) \<le> n" using b(2) by simp
    show "g j" if "j < b + (if g b then 1 else 0)" for j
      using that b(2,3) mono [of j b] by (auto split: if_splits)
    show "\<not> g j" if "b + (if g b then 1 else 0) \<le> j" "j < n" for j
      using that b(3,4) by (cases "j = b") (auto split: if_splits)
  qed
qed

end
