(* ===== verification/Tag_Catalog.thy ===== *)
theory Tag_Catalog
  imports Interner Rust_Search Core_Error
begin

unbundle bit_operations_syntax

text \<open>
  The tag catalog, \<open>crates/plugmem-core/src/memory/tags.rs\<close>: how many current facts carry each tag, as a
  sorted base loaded from the snapshot under a log-structured overlay of sorted runs, with an
  order-independent fingerprint; and the paged listing, a merge of all sorted sources behind an
  opaque cursor. Names are resolved through the interner; an id that does not resolve panics
  (\<open>None\<close>). \<open>h\<close> is \<open>xxh3\<close>.
\<close>

definition DEFAULT_TAG_PAGE_LIMIT :: nat where "DEFAULT_TAG_PAGE_LIMIT = 64"

definition MAX_TAG_PAGE_LIMIT :: nat where "MAX_TAG_PAGE_LIMIT = 256"

definition RUN_BASE :: nat where "RUN_BASE = 64"

definition CATALOG_ENTRY_BYTES :: nat where "CATALOG_ENTRY_BYTES = 8"

record cat_entry =
  ce_term :: u32
  ce_count :: u32

record tag_catalog =
  tc_base :: "cat_entry list"
  tc_runs :: "cat_entry list option list"
  tc_buffer :: "cat_entry list"
  tc_fingerprint :: u64

definition catalog_new :: tag_catalog where
  "catalog_new = \<lparr>tc_base = [], tc_runs = [], tc_buffer = [], tc_fingerprint = 0\<rparr>"

text \<open>The hash of an entry: \<open>Xxh3\<close> fed the name and then the count is the hash of the concatenation.\<close>

definition entry_hash :: "(bytes \<Rightarrow> u64) \<Rightarrow> bytes \<Rightarrow> u32 \<Rightarrow> u64" where
  "entry_hash h name cnt = h (name @ u32_le cnt)"

abbreviation entry_name :: "interner \<Rightarrow> cat_entry \<Rightarrow> bytes option" where
  "entry_name dict e \<equiv> interner_resolve dict (ce_term e)"

section \<open>Loading\<close>

fun load_entries ::
  "(bytes \<Rightarrow> u64) \<Rightarrow> interner \<Rightarrow> bytes list \<Rightarrow> bytes option \<Rightarrow> u64 \<Rightarrow> cat_entry list \<Rightarrow> (core_error + cat_entry list \<times> u64) option" where
  "load_entries h dict [] previous fp base = Some (Inr (base, fp))"
| "load_entries h dict (raw # raws) previous fp base =
     (let tid = u32_of_le (slice raw 0 4); cnt = u32_of_le (slice raw 4 8) in
      if interner_count dict \<le> unat tid \<or> cnt = 0 then Some (Inl (Corrupt_core ''tag catalog entry is invalid''))
      else do {
        name \<leftarrow> interner_resolve dict tid;
        (if (case previous of None \<Rightarrow> False | Some old \<Rightarrow> name \<le> old)
         then Some (Inl (Corrupt_core ''tag catalog is not strictly sorted''))
         else load_entries h dict raws (Some name) (fp XOR entry_hash h name cnt) (base @ [\<lparr>ce_term = tid, ce_count = cnt\<rparr>])) })"

definition chunks_exact :: "nat \<Rightarrow> bytes \<Rightarrow> bytes list" where
  "chunks_exact n bs = map (\<lambda>i. slice bs (i * n) (i * n + n)) [0..<length bs div n]"

definition catalog_load :: "(bytes \<Rightarrow> u64) \<Rightarrow> bytes \<Rightarrow> interner \<Rightarrow> (core_error + tag_catalog) option" where
  "catalog_load h bs dict =
     (if length bs mod CATALOG_ENTRY_BYTES \<noteq> 0 then Some (Inl (Corrupt_core ''tag catalog is not an entry sequence''))
      else map_option (map_sum id (\<lambda>(base, fp). \<lparr>tc_base = base, tc_runs = [], tc_buffer = [], tc_fingerprint = fp\<rparr>))
        (load_entries h dict (chunks_exact CATALOG_ENTRY_BYTES bs) None 0 []))"

text \<open>
  \<open>sort_unstable_by\<close> on resolved names: of two or more entries every name is compared, so resolved;
  the names of the entries sorted are pairwise distinct, which leaves one sorted order.
\<close>

definition sort_by_name :: "interner \<Rightarrow> cat_entry list \<Rightarrow> cat_entry list option" where
  "sort_by_name dict es =
     (if 2 \<le> length es \<and> (\<exists>e \<in> set es. entry_name dict e = None) then None
      else Some (sort_key (\<lambda>e. the (entry_name dict e)) es))"

fun fold_hash :: "(bytes \<Rightarrow> u64) \<Rightarrow> interner \<Rightarrow> cat_entry list \<Rightarrow> u64 \<Rightarrow> u64 option" where
  "fold_hash h dict [] hash = Some hash"
| "fold_hash h dict (e # es) hash = do {
     name \<leftarrow> entry_name dict e;
     fold_hash h dict es (hash XOR entry_hash h name (ce_count e)) }"

definition from_counts :: "(bytes \<Rightarrow> u64) \<Rightarrow> (u32 \<times> u32) list \<Rightarrow> interner \<Rightarrow> tag_catalog option" where
  "from_counts h entries dict = do {
     let entries = filter (\<lambda>(_, cnt). cnt \<noteq> 0) entries;
     base \<leftarrow> sort_by_name dict (map (\<lambda>(tid, cnt). \<lparr>ce_term = tid, ce_count = cnt\<rparr>) entries);
     fp \<leftarrow> fold_hash h dict base 0;
     Some \<lparr>tc_base = base, tc_runs = [], tc_buffer = [], tc_fingerprint = fp\<rparr> }"

section \<open>Lookup and change\<close>

definition cat_search :: "cat_entry list \<Rightarrow> interner \<Rightarrow> bytes \<Rightarrow> (nat + nat) option" where
  "cat_search entries dict name =
     binary_search_by (\<lambda>i. map_option (\<lambda>n. compare n name) (entry_name dict (entries ! i))) (length entries)"

definition base_entry :: "tag_catalog \<Rightarrow> interner \<Rightarrow> u32 \<Rightarrow> cat_entry option option" where
  "base_entry c dict tid = do {
     name \<leftarrow> interner_resolve dict tid;
     r \<leftarrow> cat_search (tc_base c) dict name;
     Some (case r of Inr at \<Rightarrow> Some (tc_base c ! at) | Inl _ \<Rightarrow> None) }"

fun find_in_runs :: "interner \<Rightarrow> bytes \<Rightarrow> cat_entry list option list \<Rightarrow> cat_entry option option" where
  "find_in_runs dict name [] = Some None"
| "find_in_runs dict name (None # runs) = find_in_runs dict name runs"
| "find_in_runs dict name (Some run # runs) = do {
     r \<leftarrow> cat_search run dict name;
     (case r of Inr at \<Rightarrow> Some (Some (run ! at)) | Inl _ \<Rightarrow> find_in_runs dict name runs) }"

definition overlay_entry :: "tag_catalog \<Rightarrow> interner \<Rightarrow> u32 \<Rightarrow> cat_entry option option" where
  "overlay_entry c dict tid = do {
     name \<leftarrow> interner_resolve dict tid;
     r \<leftarrow> cat_search (tc_buffer c) dict name;
     (case r of Inr at \<Rightarrow> Some (Some (tc_buffer c ! at)) | Inl _ \<Rightarrow> find_in_runs dict name (tc_runs c)) }"

definition is_overridden :: "tag_catalog \<Rightarrow> interner \<Rightarrow> u32 \<Rightarrow> bool option" where
  "is_overridden c dict tid = map_option (\<lambda>e. e \<noteq> None) (overlay_entry c dict tid)"

definition tag_count :: "tag_catalog \<Rightarrow> interner \<Rightarrow> u32 \<Rightarrow> u32 option" where
  "tag_count c dict tid = do {
     found \<leftarrow> overlay_entry c dict tid;
     (case found of
        Some e \<Rightarrow> Some (ce_count e)
      | None \<Rightarrow> map_option (\<lambda>b. case b of None \<Rightarrow> 0 | Some e \<Rightarrow> ce_count e) (base_entry c dict tid)) }"

text \<open>\<open>saturating_add\<close> of a signed change.\<close>

definition sat_change :: "u32 \<Rightarrow> int \<Rightarrow> u32" where
  "sat_change old delta = (let n = uint old + delta in if n < 0 then 0 else if 2 ^ 32 \<le> n then - 1 else of_int n)"

text \<open>\<open>merge\<close>: on equal names the newer entry, that of \<open>b\<close>, stays.\<close>

function merge_entries :: "cat_entry list \<Rightarrow> cat_entry list \<Rightarrow> interner \<Rightarrow> cat_entry list option" where
  "merge_entries [] bs dict = Some bs"
| "merge_entries (a # as) [] dict = Some (a # as)"
| "merge_entries (a # as) (b # bs) dict = do {
     left \<leftarrow> entry_name dict a;
     right \<leftarrow> entry_name dict b;
     (case compare left right of
        Less \<Rightarrow> map_option ((#) a) (merge_entries as (b # bs) dict)
      | Greater \<Rightarrow> map_option ((#) b) (merge_entries (a # as) bs dict)
      | Equal \<Rightarrow> map_option ((#) b) (merge_entries as bs dict)) }"
  by pat_completeness auto
termination
  by (relation "measure (\<lambda>(as, bs, dict). length as + length bs)") auto

text \<open>The loop of \<open>flush_buffer\<close> over the levels.\<close>

fun place_carry :: "cat_entry list \<Rightarrow> cat_entry list option list \<Rightarrow> interner \<Rightarrow> cat_entry list option list option" where
  "place_carry carry [] dict = Some [Some carry]"
| "place_carry carry (None # runs) dict = Some (Some carry # runs)"
| "place_carry carry (Some existing # runs) dict = do {
     carry \<leftarrow> merge_entries existing carry dict;
     map_option ((#) None) (place_carry carry runs dict) }"

definition flush_buffer :: "tag_catalog \<Rightarrow> interner \<Rightarrow> tag_catalog option" where
  "flush_buffer c dict =
     (if tc_buffer c = [] then Some c
      else map_option (\<lambda>runs. c\<lparr>tc_runs := runs, tc_buffer := []\<rparr>) (place_carry (tc_buffer c) (tc_runs c) dict))"

text \<open>The loop of \<open>change\<close> over the runs: the first run that has the name is updated in place.\<close>

fun update_run :: "interner \<Rightarrow> bytes \<Rightarrow> u32 \<Rightarrow> cat_entry list option list \<Rightarrow> cat_entry list option list option option" where
  "update_run dict name new [] = Some None"
| "update_run dict name new (None # runs) = map_option (map_option ((#) None)) (update_run dict name new runs)"
| "update_run dict name new (Some run # runs) = do {
     r \<leftarrow> cat_search run dict name;
     (case r of
        Inr at \<Rightarrow> Some (Some (Some (run[at := (run ! at)\<lparr>ce_count := new\<rparr>]) # runs))
      | Inl _ \<Rightarrow> map_option (map_option ((#) (Some run))) (update_run dict name new runs)) }"

text \<open>The end of \<open>change\<close>: where the new count is recorded.\<close>

definition record_count :: "interner \<Rightarrow> bytes \<Rightarrow> u32 \<Rightarrow> u32 \<Rightarrow> tag_catalog \<Rightarrow> tag_catalog option" where
  "record_count dict name tid new c = do {
     r \<leftarrow> cat_search (tc_buffer c) dict name;
     (case r of
        Inr at \<Rightarrow> Some (c\<lparr>tc_buffer := (tc_buffer c)[at := (tc_buffer c ! at)\<lparr>ce_count := new\<rparr>]\<rparr>)
      | Inl at \<Rightarrow> do {
          u \<leftarrow> update_run dict name new (tc_runs c);
          (case u of
             Some runs \<Rightarrow> Some (c\<lparr>tc_runs := runs\<rparr>)
           | None \<Rightarrow>
               let c = c\<lparr>tc_buffer := take at (tc_buffer c) @ \<lparr>ce_term = tid, ce_count = new\<rparr> # drop at (tc_buffer c)\<rparr>
               in if RUN_BASE \<le> length (tc_buffer c) then flush_buffer c dict else Some c) }) }"

definition tag_change :: "(bytes \<Rightarrow> u64) \<Rightarrow> interner \<Rightarrow> u32 \<Rightarrow> int \<Rightarrow> tag_catalog \<Rightarrow> tag_catalog option" where
  "tag_change h dict tid delta c = do {
     old \<leftarrow> tag_count c dict tid;
     let new = sat_change old delta;
     if old = new then Some c
     else do {
       name \<leftarrow> interner_resolve dict tid;
       let fp = (if old \<noteq> 0 then tc_fingerprint c XOR entry_hash h name old else tc_fingerprint c);
       let fp = (if new \<noteq> 0 then fp XOR entry_hash h name new else fp);
       record_count dict name tid new (c\<lparr>tc_fingerprint := fp\<rparr>) } }"

section \<open>Cursors\<close>

record tag_cursor =
  cr_fingerprint :: u64
  cr_prefix_hash :: u64
  cr_db_uuid :: u128
  cr_term :: u32
  cr_term_hash :: u64

text \<open>Formatting in hexadecimal, padded with zeros, and \<open>from_str_radix(_, 16)\<close> for unsigned integers.\<close>

definition hex_digit :: "nat \<Rightarrow> u8" where
  "hex_digit d = of_nat (if d < 10 then 48 + d else 87 + d)"

fun to_hex :: "nat \<Rightarrow> bytes" where
  "to_hex n = (if n < 16 then [hex_digit n] else to_hex (n div 16) @ [hex_digit (n mod 16)])"

declare to_hex.simps [simp del]

definition hex_pad :: "nat \<Rightarrow> nat \<Rightarrow> bytes" where
  "hex_pad w n = replicate (w - length (to_hex n)) 48 @ to_hex n"

definition hex_val :: "u8 \<Rightarrow> nat option" where
  "hex_val c =
     (if 48 \<le> c \<and> c \<le> 57 then Some (unat c - 48)
      else if 97 \<le> c \<and> c \<le> 102 then Some (unat c - 87)
      else if 65 \<le> c \<and> c \<le> 70 then Some (unat c - 55)
      else None)"

fun parse_hex :: "nat \<Rightarrow> nat \<Rightarrow> bytes \<Rightarrow> nat option" where
  "parse_hex limit acc [] = Some acc"
| "parse_hex limit acc (c # cs) = do {
     d \<leftarrow> hex_val c;
     if acc * 16 + d < limit then parse_hex limit (acc * 16 + d) cs else None }"

definition from_str_radix16 :: "nat \<Rightarrow> bytes \<Rightarrow> nat option" where
  "from_str_radix16 limit s =
     (if s = [] \<or> s = [43] \<or> s = [45] then None
      else parse_hex limit 0 (if hd s = 43 then tl s else s))"

fun split_on :: "u8 \<Rightarrow> bytes \<Rightarrow> bytes list" where
  "split_on sep [] = [[]]"
| "split_on sep (c # cs) =
     (if c = sep then [] # split_on sep cs
      else case split_on sep cs of p # ps \<Rightarrow> (c # p) # ps | [] \<Rightarrow> [[c]])"

definition CURSOR_PREFIX :: bytes where
  "CURSOR_PREFIX = [116, 49]"

definition encode_cursor :: "tag_cursor \<Rightarrow> bytes" where
  "encode_cursor c = CURSOR_PREFIX @ [58] @ hex_pad 16 (unat (cr_fingerprint c)) @ [58] @ hex_pad 16 (unat (cr_prefix_hash c)) @ [58] @
     hex_pad 32 (unat (cr_db_uuid c)) @ [58] @ hex_pad 8 (unat (cr_term c)) @ [58] @ hex_pad 16 (unat (cr_term_hash c))"

definition decode_cursor :: "bytes \<Rightarrow> core_error + tag_cursor" where
  "decode_cursor raw =
     (case split_on 58 raw of
        [p, a, b, c, d, e] \<Rightarrow>
          (case (from_str_radix16 (2 ^ 64) a, from_str_radix16 (2 ^ 64) b, from_str_radix16 (2 ^ 128) c,
                 from_str_radix16 (2 ^ 32) d, from_str_radix16 (2 ^ 64) e) of
             (Some a, Some b, Some c, Some d, Some e) \<Rightarrow>
               if p = CURSOR_PREFIX
               then Inr \<lparr>cr_fingerprint = of_nat a, cr_prefix_hash = of_nat b, cr_db_uuid = of_nat c, cr_term = of_nat d, cr_term_hash = of_nat e\<rparr>
               else Inl (Invalid ''malformed tag cursor'')
           | _ \<Rightarrow> Inl (Invalid ''malformed tag cursor''))
      | _ \<Rightarrow> Inl (Invalid ''malformed tag cursor''))"

section \<open>Listing\<close>

record tag_query =
  tq_prefix :: "bytes option"
  tq_cursor :: "bytes option"
  tq_limit :: nat

record tag_page =
  tp_items :: "(bytes \<times> u32) list"
  tp_next_cursor :: "bytes option"

definition starts_with :: "bytes \<Rightarrow> bytes \<Rightarrow> bool" where
  "starts_with prefix name \<longleftrightarrow> take (length prefix) name = prefix"

definition sources :: "tag_catalog \<Rightarrow> (bool \<times> cat_entry list) list" where
  "sources c = (True, tc_base c) # (False, tc_buffer c) # map (Pair False) (List.map_filter id (tc_runs c))"

definition first_after :: "cat_entry list \<Rightarrow> interner \<Rightarrow> bytes option \<Rightarrow> bytes \<Rightarrow> nat option" where
  "first_after entries dict after prefix =
     partition_point (\<lambda>i. map_option (\<lambda>name. case after of Some floor \<Rightarrow> name \<le> floor | None \<Rightarrow> name < prefix)
       (entry_name dict (entries ! i))) (length entries)"

text \<open>
  The inner loop of \<open>page\<close> on one source: from its position to the next entry to show. A position
  is represented by the entries from it on.
\<close>

fun advance :: "tag_catalog \<Rightarrow> interner \<Rightarrow> bytes \<Rightarrow> bool \<Rightarrow> cat_entry list \<Rightarrow> cat_entry list option" where
  "advance c dict prefix is_base [] = Some []"
| "advance c dict prefix is_base (e # es) = do {
     name \<leftarrow> entry_name dict e;
     if \<not> starts_with prefix name then Some []
     else do {
       over \<leftarrow> (if ce_count e \<noteq> 0 \<and> is_base then is_overridden c dict (ce_term e) else Some False);
       if ce_count e \<noteq> 0 \<and> \<not> over then Some (e # es) else advance c dict prefix is_base es } }"

text \<open>One round over the sources: the advanced positions and the source of the smallest name.\<close>

fun best_source ::
  "tag_catalog \<Rightarrow> interner \<Rightarrow> bytes \<Rightarrow> nat \<Rightarrow> (bool \<times> cat_entry list) list \<Rightarrow> (nat \<times> cat_entry) option \<Rightarrow>
     ((bool \<times> cat_entry list) list \<times> (nat \<times> cat_entry) option) option" where
  "best_source c dict prefix i [] best = Some ([], best)"
| "best_source c dict prefix i ((is_base, es) # rests) best = do {
     es \<leftarrow> advance c dict prefix is_base es;
     best \<leftarrow> (case es of
         [] \<Rightarrow> Some best
       | e # _ \<Rightarrow>
           (case best of
              None \<Rightarrow> Some (Some (i, e))
            | Some (j, old) \<Rightarrow> do {
                name \<leftarrow> entry_name dict e;
                old_name \<leftarrow> entry_name dict old;
                Some (Some (if name < old_name then (i, e) else (j, old))) }));
     (rests, best) \<leftarrow> best_source c dict prefix (i + 1) rests best;
     Some ((is_base, es) # rests, best) }"

function page_loop ::
  "tag_catalog \<Rightarrow> interner \<Rightarrow> bytes \<Rightarrow> nat \<Rightarrow> (bool \<times> cat_entry list) list \<Rightarrow> (bytes \<times> u32) list \<Rightarrow> (bytes \<times> u32) list option" where
  "page_loop c dict prefix limit rests items =
     (if length items \<le> limit then do {
        (rests, best) \<leftarrow> best_source c dict prefix 0 rests None;
        (case best of
           None \<Rightarrow> Some items
         | Some (i, e) \<Rightarrow> do {
             name \<leftarrow> entry_name dict e;
             page_loop c dict prefix limit (rests[i := map_prod id tl (rests ! i)]) (items @ [(name, ce_count e)]) }) }
      else Some items)"
  by pat_completeness auto
termination
  by (relation "measure (\<lambda>(c, dict, prefix, limit, rests, items). Suc limit - length items)") auto

declare page_loop.simps [simp del]

text \<open>The checks on a cursor: the name the page continues after.\<close>

definition resume_after ::
  "(bytes \<Rightarrow> u64) \<Rightarrow> tag_catalog \<Rightarrow> interner \<Rightarrow> u128 \<Rightarrow> u64 \<Rightarrow> bytes option \<Rightarrow> (core_error + bytes option) option" where
  "resume_after h c dict db_uuid prefix_hash cursor =
     (case cursor of
        None \<Rightarrow> Some (Inr None)
      | Some raw \<Rightarrow>
          (case decode_cursor raw of
             Inl e \<Rightarrow> Some (Inl e)
           | Inr d \<Rightarrow>
               if cr_fingerprint d \<noteq> tc_fingerprint c \<or> cr_prefix_hash d \<noteq> prefix_hash \<or> cr_db_uuid d \<noteq> db_uuid
               then Some (Inl StaleCursor)
               else if interner_count dict \<le> unat (cr_term d) then Some (Inl StaleCursor)
               else do {
                 name \<leftarrow> interner_resolve dict (cr_term d);
                 Some (if h name \<noteq> cr_term_hash d then Inl StaleCursor else Inr (Some name)) }))"

fun start_positions :: "interner \<Rightarrow> bytes option \<Rightarrow> bytes \<Rightarrow> (bool \<times> cat_entry list) list \<Rightarrow> (bool \<times> cat_entry list) list option" where
  "start_positions dict after prefix [] = Some []"
| "start_positions dict after prefix ((b, es) # srcs) = do {
     at \<leftarrow> first_after es dict after prefix;
     rests \<leftarrow> start_positions dict after prefix srcs;
     Some ((b, drop at es) # rests) }"

definition list_tags :: "(bytes \<Rightarrow> u64) \<Rightarrow> tag_catalog \<Rightarrow> interner \<Rightarrow> u128 \<Rightarrow> tag_query \<Rightarrow> (core_error + tag_page) option" where
  "list_tags h c dict db_uuid q =
     (let limit = (if tq_limit q = 0 then DEFAULT_TAG_PAGE_LIMIT else tq_limit q) in
      if MAX_TAG_PAGE_LIMIT < limit then Some (Inl (TooLarge ''tag page limit'' limit MAX_TAG_PAGE_LIMIT))
      else let prefix = (case tq_prefix q of None \<Rightarrow> [] | Some p \<Rightarrow> p) in do {
        r \<leftarrow> resume_after h c dict db_uuid (h prefix) (tq_cursor q);
        (case r of
           Inl e \<Rightarrow> Some (Inl e)
         | Inr after \<Rightarrow> do {
             rests \<leftarrow> start_positions dict after prefix (sources c);
             items \<leftarrow> page_loop c dict prefix limit rests [];
             if limit < length items then do {
               let items = butlast items;
               let last_name = fst (last items);
               found \<leftarrow> interner_lookup h last_name dict;
               tid \<leftarrow> found;
               Some (Inr \<lparr>tp_items = items, tp_next_cursor = Some (encode_cursor \<lparr>cr_fingerprint = tc_fingerprint c,
                 cr_prefix_hash = h prefix, cr_db_uuid = db_uuid, cr_term = tid, cr_term_hash = h last_name\<rparr>)\<rparr>) }
             else Some (Inr \<lparr>tp_items = items, tp_next_cursor = None\<rparr>) }) })"

section \<open>Dump\<close>

fun visible_base :: "tag_catalog \<Rightarrow> interner \<Rightarrow> cat_entry list \<Rightarrow> cat_entry list option" where
  "visible_base c dict [] = Some []"
| "visible_base c dict (e # es) = do {
     over \<leftarrow> is_overridden c dict (ce_term e);
     rest \<leftarrow> visible_base c dict es;
     Some (if over then rest else e # rest) }"

definition catalog_dump :: "tag_catalog \<Rightarrow> interner \<Rightarrow> bytes option" where
  "catalog_dump c dict = do {
     base \<leftarrow> visible_base c dict (tc_base c);
     let entries = base @ filter (\<lambda>e. ce_count e \<noteq> 0) (tc_buffer c) @
       concat (map (filter (\<lambda>e. ce_count e \<noteq> 0)) (List.map_filter id (tc_runs c)));
     entries \<leftarrow> sort_by_name dict entries;
     Some (concat (map (\<lambda>e. u32_le (ce_term e) @ u32_le (ce_count e)) entries)) }"

definition catalog_pool_bytes :: "tag_catalog \<Rightarrow> nat" where
  "catalog_pool_bytes c =
     (length (tc_base c) + length (tc_buffer c) + sum_list (map length (List.map_filter id (tc_runs c)))) * CATALOG_ENTRY_BYTES"

end
