(* ===== verification/Tally.thy ===== *)
theory Tally
  imports Interner_Proofs
begin

unbundle bit_operations_syntax

text \<open>
  Term frequencies of a document: \<open>tally_term\<close> of \<open>crates/plugmem-core/src/memory.rs\<close>, which counts terms
  through an open-addressing table beside the list of counts. The table has no effect on the
  counts: they are those of a scan, in the order of first occurrence, whatever table is reused.
  The loop that skips taken slots is the interner's \<open>free_slot\<close>.
\<close>

section \<open>Operations\<close>

definition FIB_MULT :: u64 where
  "FIB_MULT = 0x9E3779B97F4A7C15"

definition probe_at :: "u32 \<Rightarrow> nat \<Rightarrow> nat" where
  "probe_at t m = and (unat (drop_bit 32 (ucast t * FIB_MULT :: u64))) m"

definition count_once_more :: "u8 \<Rightarrow> u8" where
  "count_once_more n = (if n = - 1 then - 1 else n + 1)"

text \<open>The rehash: the slots of the terms seen so far, in a cleared table.\<close>

fun regrow :: "(u32 \<times> u8) list \<Rightarrow> nat \<Rightarrow> u32 list \<Rightarrow> u32 list option" where
  "regrow [] i table = Some table"
| "regrow ((seen, _) # rest) i table = do {
     at \<leftarrow> free_slot table (probe_at seen (length table - 1));
     regrow rest (i + 1) (table[at := of_nat i + 1]) }"

partial_function (option) tally_loop :: "(u32 \<times> u8) list \<Rightarrow> u32 list \<Rightarrow> u32 \<Rightarrow> nat \<Rightarrow> ((u32 \<times> u8) list \<times> u32 list) option" where
  "tally_loop tfs table t at =
     (let slot = table ! at in
      if slot = 0 then Some (tfs @ [(t, 1)], table[at := of_nat (length tfs) + 1])
      else let i = unat slot - 1 in
      if length tfs \<le> i then None
      else if fst (tfs ! i) = t then Some (tfs[i := (t, count_once_more (snd (tfs ! i)))], table)
      else tally_loop tfs table t (next_slot table at))"

definition tally_term :: "u32 \<Rightarrow> (u32 \<times> u8) list \<times> u32 list \<Rightarrow> ((u32 \<times> u8) list \<times> u32 list) option" where
  "tally_term t s = (case s of (tfs, table) \<Rightarrow> do {
     table \<leftarrow> (if length table < (length tfs + 1) * 2 then regrow tfs 0 (replicate (max (length table * 2) 64) 0) else Some table);
     tally_loop tfs table t (probe_at t (length table - 1)) })"

fun tally_all :: "u32 list \<Rightarrow> (u32 \<times> u8) list \<times> u32 list \<Rightarrow> ((u32 \<times> u8) list \<times> u32 list) option" where
  "tally_all [] s = Some s"
| "tally_all (t # ts) s = Option.bind (tally_term t s) (tally_all ts)"

section \<open>The table\<close>

text \<open>Every count has one slot, reachable from its term's home slot; the table is at most half full.\<close>

definition homed :: "u32 list \<Rightarrow> u32 \<Rightarrow> nat \<Rightarrow> bool" where
  "homed table t j \<longleftrightarrow> (\<exists>d. (probe_at t (length table - 1) + d) mod length table = j \<and>
     (\<forall>k < d. table ! ((probe_at t (length table - 1) + k) mod length table) \<noteq> 0))"

text \<open>The first \<open>n\<close> counts placed.\<close>

definition part_table :: "(u32 \<times> u8) list \<Rightarrow> nat \<Rightarrow> u32 list \<Rightarrow> bool" where
  "part_table tfs n table \<longleftrightarrow> table_size (length table) \<and> entries table = mset (map (\<lambda>i. of_nat (Suc i)) [0..<n]) \<and>
     (\<forall>j < length table. table ! j \<noteq> 0 \<longrightarrow> homed table (fst (tfs ! (unat (table ! j) - 1))) j)"

definition tally_inv :: "(u32 \<times> u8) list \<Rightarrow> u32 list \<Rightarrow> bool" where
  "tally_inv tfs table \<longleftrightarrow> distinct (map fst tfs) \<and> (tfs = [] \<and> table = [] \<or>
     64 \<le> length table \<and> length tfs * 2 \<le> length table \<and> part_table tfs (length tfs) table)"

lemma probe_at_lt: "table_size (length table) \<Longrightarrow> probe_at t (length table - 1) < length table"
proof -
  assume sz: "table_size (length table)"
  then have "0 < length table" using table_size_ge by fastforce
  then show ?thesis unfolding probe_at_def mask_mod [OF sz] by simp
qed

lemma entry_index:
  assumes "entries table = mset (map (\<lambda>i. of_nat (Suc i)) [0..<n])" and "n < 2 ^ 32" and "j < length table" and "table ! j \<noteq> 0"
  shows "unat (table ! j) - 1 < n" and "table ! j = of_nat (Suc (unat (table ! j) - 1))"
proof -
  have "table ! j \<in># entries table" using assms(3,4) by simp
  then obtain i where i: "i < n" "table ! j = of_nat (Suc i)" unfolding assms(1) by auto
  then have "unat (table ! j) = Suc i" using assms(2) by (simp add: unat_of_nat take_bit_nat_eq_self_iff take_bit_eq_mod del: of_nat_Suc)
  then show "unat (table ! j) - 1 < n" "table ! j = of_nat (Suc (unat (table ! j) - 1))" using i by simp_all
qed

lemma entry_slot:
  assumes "entries table = mset (map (\<lambda>i. of_nat (Suc i)) [0..<n])" and "n < 2 ^ 32" and "i < n" and "(of_nat (Suc i) :: u32) \<noteq> 0"
  shows "\<exists>j < length table. table ! j = of_nat (Suc i)"
proof -
  have "of_nat (Suc i) \<in># entries table" using assms(1,3) by auto
  then show ?thesis by (auto simp: in_set_conv_nth)
qed

lemma free_exists:
  assumes "entries table = mset (map (\<lambda>i. of_nat (Suc i)) [0..<n])" and "n < length table"
  shows "\<exists>j < length table. table ! j = 0"
proof (rule ccontr)
  assume "\<not> (\<exists>j < length table. table ! j = 0)"
  then have "filter (\<lambda>e. e \<noteq> 0) table = table" by (auto simp: filter_id_conv in_set_conv_nth)
  then have "length table = n" using arg_cong [OF assms(1), of size] by simp
  then show False using assms(2) by simp
qed

text \<open>Filling a free slot found from a term's home keeps every slot reachable.\<close>

lemma fill_slot:
  assumes z: "table ! j = 0" and j: "j < length table" and v: "v \<noteq> 0"
  shows "homed table t k \<Longrightarrow> homed (table[j := v]) t k"
    and "entries (table[j := v]) = add_mset v (entries table)"
proof -
  show "homed table t k \<Longrightarrow> homed (table[j := v]) t k"
    unfolding homed_def length_list_update using v j by (metis nth_list_update)
  have "table = take j table @ table ! j # drop (Suc j) table" by (rule id_take_nth_drop [OF j])
  then have "entries table = entries (take j table) + entries (drop (Suc j) table)"
    using z by (metis (mono_tags, lifting) filter.simps(2) filter_append mset_append)
  then show "entries (table[j := v]) = add_mset v (entries table)" using v by (simp add: upd_conv_take_nth_drop [OF j])
qed

lemma free_from_home:
  assumes sz: "table_size (length table)" and free: "\<exists>j < length table. table ! j = 0"
  obtains j where "free_slot table (probe_at t (length table - 1)) = Some j" "j < length table" "table ! j = 0" "homed table t j"
proof -
  let ?i = "probe_at t (length table - 1)"
  have i: "?i < length table" by (rule probe_at_lt [OF sz])
  then have pos: "0 < length table" by linarith
  obtain j0 where j0: "j0 < length table" "table ! j0 = 0" using free by blast
  obtain d where d: "table ! ((?i + d) mod length table) = 0" "\<And>k. k < d \<Longrightarrow> table ! ((?i + k) mod length table) \<noteq> 0"
    using first_stop [OF i j0(1), of "\<lambda>j. table ! j = 0"] j0(2) by blast
  have "free_slot table (?i mod length table) = Some ((?i + d) mod length table)" using free_slot_run [OF sz] d by blast
  then have "free_slot table ?i = Some ((?i + d) mod length table)" using i by simp
  moreover have "(?i + d) mod length table < length table" using pos by simp
  moreover have "homed table t ((?i + d) mod length table)" using d(2) unfolding homed_def by blast
  ultimately show ?thesis using that d(1) by blast
qed

lemma place_next:
  assumes p: "part_table tfs n table" and j: "j < length table" "table ! j = 0" "homed table (fst (tfs ! n)) j" and n: "n < 2 ^ 32 - 1"
  shows "part_table tfs (Suc n) (table[j := of_nat (Suc n)])"
proof -
  have nz: "(of_nat (Suc n) :: u32) \<noteq> 0" using of_nat_Suc_nz [of n] n by simp
  have un: "unat (of_nat (Suc n) :: u32) = Suc n" using n by (simp add: unat_of_nat take_bit_nat_eq_self_iff del: of_nat_Suc)
  note f = fill_slot [OF j(2,1) nz]
  have "homed (table[j := of_nat (Suc n)]) (fst (tfs ! (unat (table[j := of_nat (Suc n)] ! k) - 1))) k"
    if k: "k < length table" and e: "table[j := of_nat (Suc n)] ! k \<noteq> 0" for k
  proof (cases "k = j")
    case True
    then show ?thesis using f(1) [OF j(3)] j(1) un by simp
  next
    case False
    then show ?thesis using f(1) p k e by (simp add: part_table_def)
  qed
  then show ?thesis using p f(2) unfolding part_table_def length_list_update by (simp del: of_nat_Suc)
qed

lemma regrow_spec:
  "part_table tfs i table \<Longrightarrow> length tfs < length table \<Longrightarrow> length tfs < 2 ^ 32 - 1 \<Longrightarrow> rest = drop i tfs \<Longrightarrow> i \<le> length tfs \<Longrightarrow>
    \<exists>table'. regrow rest i table = Some table' \<and> length table' = length table \<and> part_table tfs (length tfs) table'"
proof (induction rest i table rule: regrow.induct)
  case (1 i table)
  then show ?case by simp
next
  case (2 seen cnt rest i table)
  have i: "i < length tfs" and ti: "tfs ! i = (seen, cnt)" and rest: "rest = drop (i + 1) tfs"
    using 2(5) by (metis drop_eq_Nil leI list.distinct(1)) (metis 2(5) hd_drop_conv_nth drop_eq_Nil leI list.distinct(1) list.sel(1), metis 2(5) drop_Suc list.sel(3) tl_drop Suc_eq_plus1)
  have sz: "table_size (length table)" and en: "entries table = mset (map (\<lambda>i. of_nat (Suc i)) [0..<i])" using 2(2) by (simp_all add: part_table_def)
  have free: "\<exists>j < length table. table ! j = 0" using free_exists [OF en] i 2(3) by simp
  obtain j where j: "free_slot table (probe_at seen (length table - 1)) = Some j" "j < length table" "table ! j = 0" "homed table seen j"
    by (rule free_from_home [OF sz free])
  have "part_table tfs (Suc i) (table[j := of_nat (Suc i)])"
    by (rule place_next [OF 2(2) j(2,3)]) (use j(4) ti i 2(4) in auto)
  then show ?case using "2.IH" [OF j(1)] 2(3,4) rest i j(1) by (simp add: add.commute)
qed

section \<open>One term\<close>

text \<open>What a scan of the counts would do.\<close>

definition scan_tally :: "u32 \<Rightarrow> (u32 \<times> u8) list \<Rightarrow> (u32 \<times> u8) list" where
  "scan_tally t tfs = (if t \<in> fst ` set tfs then map (\<lambda>(s, n). (s, if s = t then count_once_more n else n)) tfs else tfs @ [(t, 1)])"

lemma tally_loop_run:
  assumes sz: "table_size (length table)"
    and skip: "\<And>k. k < d \<Longrightarrow> (let e = table ! ((i + k) mod length table) in e \<noteq> 0 \<and> unat e - 1 < length tfs \<and> fst (tfs ! (unat e - 1)) \<noteq> t)"
  shows "tally_loop tfs table t (i mod length table) = tally_loop tfs table t ((i + d) mod length table)"
proof -
  have "tally_loop tfs table t ((i + (d - m)) mod length table) = tally_loop tfs table t ((i + d) mod length table)" if "m \<le> d" for m
    using that
  proof (induction m)
    case (Suc m)
    let ?k = "d - Suc m"
    have "Suc ?k = d - m" using Suc.prems by simp
    then have "tally_loop tfs table t (next_slot table ((i + ?k) mod length table)) = tally_loop tfs table t ((i + d) mod length table)"
      using Suc.IH Suc.prems slot_steps(2) [OF sz, of i ?k] by simp
    then show ?case using skip [of ?k] Suc.prems by (subst tally_loop.simps) (simp add: Let_def)
  qed simp
  from this [of d] show ?thesis by simp
qed

lemma tally_loop_spec:
  assumes d: "distinct (map fst tfs)" and p: "part_table tfs (length tfs) table" and room: "length tfs < length table" and n: "length tfs < 2 ^ 32 - 1"
  shows "\<exists>table'. tally_loop tfs table t (probe_at t (length table - 1)) = Some (scan_tally t tfs, table') \<and> length table' = length table \<and>
    part_table (scan_tally t tfs) (length (scan_tally t tfs)) table'"
proof -
  let ?i = "probe_at t (length table - 1)"
  have sz: "table_size (length table)" and en: "entries table = mset (map (\<lambda>i. of_nat (Suc i)) [0..<length tfs])"
    and home: "\<And>j. j < length table \<Longrightarrow> table ! j \<noteq> 0 \<Longrightarrow> homed table (fst (tfs ! (unat (table ! j) - 1))) j"
    using p by (simp_all add: part_table_def)
  have i: "?i < length table" by (rule probe_at_lt [OF sz])
  then have pos: "0 < length table" by linarith
  have n32: "length tfs < 2 ^ 32" using n by simp
  note ei = entry_index [OF en n32]
  show ?thesis
  proof (cases "t \<in> fst ` set tfs")
    case False
    obtain j0 where j0: "j0 < length table" "table ! j0 = 0" using free_exists [OF en room] by blast
    obtain d where d0: "table ! ((?i + d) mod length table) = 0" "\<And>k. k < d \<Longrightarrow> table ! ((?i + k) mod length table) \<noteq> 0"
      using first_stop [OF i j0(1), of "\<lambda>j. table ! j = 0"] j0(2) by blast
    let ?j = "(?i + d) mod length table"
    have jl: "?j < length table" using pos by simp
    have "tally_loop tfs table t (?i mod length table) = tally_loop tfs table t ?j"
    proof (rule tally_loop_run [OF sz])
      fix k assume k: "k < d"
      have l: "(?i + k) mod length table < length table" using pos by simp
      have "fst (tfs ! (unat (table ! ((?i + k) mod length table)) - 1)) \<noteq> t"
        using ei(1) [OF l d0(2) [OF k]] False by (metis imageI nth_mem)
      then show "let e = table ! ((?i + k) mod length table) in e \<noteq> 0 \<and> unat e - 1 < length tfs \<and> fst (tfs ! (unat e - 1)) \<noteq> t"
        using ei(1) [OF l d0(2) [OF k]] d0(2) [OF k] by (simp add: Let_def)
    qed
    also have "\<dots> = Some (tfs @ [(t, 1)], table[?j := of_nat (Suc (length tfs))])"
      using d0(1) by (subst tally_loop.simps) (simp add: add.commute)
    finally have run: "tally_loop tfs table t ?i = Some (tfs @ [(t, 1)], table[?j := of_nat (Suc (length tfs))])" using i by simp
    have "part_table (tfs @ [(t, 1)]) (length tfs) table"
      using p ei(1) unfolding part_table_def by (simp add: nth_append)
    moreover have "homed table (fst ((tfs @ [(t, 1)]) ! length tfs)) ?j" using d0(2) by (auto simp: homed_def)
    ultimately have "part_table (tfs @ [(t, 1)]) (Suc (length tfs)) (table[?j := of_nat (Suc (length tfs))])"
      using place_next [of "tfs @ [(t, 1)]" "length tfs" table ?j] jl d0(1) n by blast
    then show ?thesis using run False by (simp add: scan_tally_def del: of_nat_Suc)
  next
    case True
    then obtain q where q: "q < length tfs" "fst (tfs ! q) = t" by (auto simp: in_set_conv_nth)
    have nz: "(of_nat (Suc q) :: u32) \<noteq> 0" using of_nat_Suc_nz [of q] q(1) n by simp
    obtain j where j: "j < length table" "table ! j = of_nat (Suc q)" using entry_slot [OF en n32 q(1) nz] by blast
    have uq: "unat (of_nat (Suc q) :: u32) = Suc q" using q(1) n by (simp add: unat_of_nat take_bit_nat_eq_self_iff del: of_nat_Suc)
    have "homed table t j" using home [OF j(1)] j(2) nz uq q(2) by simp
    then obtain e where e: "(?i + e) mod length table = j" "\<And>k. k < e \<Longrightarrow> table ! ((?i + k) mod length table) \<noteq> 0" by (auto simp: homed_def)
    text \<open>The first slot on the path whose entry holds the term is the only one.\<close>
    define e0 where "e0 = (LEAST k. (?i + k) mod length table = j)"
    have e0: "(?i + e0) mod length table = j" unfolding e0_def by (rule LeastI [of _ e]) (rule e(1))
    have le: "e0 \<le> e" unfolding e0_def by (rule Least_le) (rule e(1))
    have before: "(?i + k) mod length table \<noteq> j" if "k < e0" for k using not_less_Least that unfolding e0_def by blast
    have "tally_loop tfs table t (?i mod length table) = tally_loop tfs table t ((?i + e0) mod length table)"
    proof (rule tally_loop_run [OF sz])
      fix k assume k: "k < e0"
      let ?l = "(?i + k) mod length table"
      have l: "?l < length table" "table ! ?l \<noteq> 0" using pos e(2) [of k] le k by simp_all
      have lt: "unat (table ! ?l) - 1 < length tfs" using ei(1) [OF l] .
      have "fst (tfs ! (unat (table ! ?l) - 1)) \<noteq> t"
      proof
        assume "fst (tfs ! (unat (table ! ?l) - 1)) = t"
        then have "unat (table ! ?l) - 1 = q" using d q lt by (simp add: distinct_conv_nth) metis
        then have same: "table ! ?l = table ! j" using ei(2) [OF l] j(2) by simp
        have "entries table = entries (table[j := 0]) + {#table ! j#}"
        proof -
          have "entries table = add_mset (table ! j) (entries (table[j := 0]))"
            using fill_slot(2) [of "table[j := 0]" j "table ! j"] j nz list_update_id [of table j] by (simp del: of_nat_Suc list_update_id)
          then show ?thesis by simp
        qed
        moreover have "table ! j \<in># entries (table[j := 0])"
          using same before [OF k] l j nz by (simp add: in_set_conv_nth) (metis length_list_update nth_list_update_neq)
        ultimately have "2 \<le> Multiset.count (entries table) (table ! j)" by (simp add: Suc_leI)
        moreover have "distinct (map (\<lambda>i. of_nat (Suc i) :: u32) [0..<length tfs])"
        proof -
          have "inj_on (\<lambda>i. of_nat (Suc i) :: u32) {..<length tfs}"
          proof (rule inj_onI)
            fix x y assume "x \<in> {..<length tfs}" "y \<in> {..<length tfs}" "(of_nat (Suc x) :: u32) = of_nat (Suc y)"
            then have "unat (of_nat (Suc x) :: u32) = unat (of_nat (Suc y) :: u32)" "Suc x < 2 ^ 32" "Suc y < 2 ^ 32" using n by simp_all
            then show "x = y" by (simp add: unat_of_nat take_bit_nat_eq_self_iff del: of_nat_Suc)
          qed
          then show ?thesis by (simp add: distinct_map atLeast0LessThan del: of_nat_Suc)
        qed
        then have "Multiset.count (entries table) (table ! j) \<le> 1" unfolding en distinct_count_atmost_1 by simp
        ultimately show False by simp
      qed
      then show "let e = table ! ?l in e \<noteq> 0 \<and> unat e - 1 < length tfs \<and> fst (tfs ! (unat e - 1)) \<noteq> t"
        using l lt by (simp add: Let_def)
    qed
    also have "\<dots> = Some (tfs[q := (t, count_once_more (snd (tfs ! q)))], table)"
      unfolding e0 using j(2) nz uq q by (subst tally_loop.simps) (simp add: Let_def del: of_nat_Suc)
    finally have run: "tally_loop tfs table t ?i = Some (tfs[q := (t, count_once_more (snd (tfs ! q)))], table)" using i by simp
    have upd: "tfs[q := (t, count_once_more (snd (tfs ! q)))] = scan_tally t tfs"
    proof (rule nth_equalityI)
      show "length (tfs[q := (t, count_once_more (snd (tfs ! q)))]) = length (scan_tally t tfs)" using True by (simp add: scan_tally_def)
      fix m assume m: "m < length (tfs[q := (t, count_once_more (snd (tfs ! q)))])"
      have "fst (tfs ! m) = t \<longleftrightarrow> m = q" using d q m by (auto simp: distinct_conv_nth)
      then show "tfs[q := (t, count_once_more (snd (tfs ! q)))] ! m = scan_tally t tfs ! m"
        using True m q by (cases "tfs ! m") (auto simp: scan_tally_def nth_list_update)
    qed
    have fsts: "map fst (scan_tally t tfs) = map fst tfs" using True by (simp add: scan_tally_def comp_def case_prod_unfold)
    have len: "length (scan_tally t tfs) = length tfs" using arg_cong [OF fsts, of length] by simp
    have "m < length tfs \<Longrightarrow> fst (scan_tally t tfs ! m) = fst (tfs ! m)" for m using fsts len by (metis nth_map)
    then have "part_table (scan_tally t tfs) (length (scan_tally t tfs)) table"
      using p ei(1) unfolding part_table_def len by simp
    then show ?thesis using run upd by simp
  qed
qed

lemma scan_tally_facts:
  "distinct (map fst tfs) \<Longrightarrow> distinct (map fst (scan_tally t tfs))" "length (scan_tally t tfs) \<le> length tfs + 1"
proof -
  have "map fst (scan_tally t tfs) = (if t \<in> fst ` set tfs then map fst tfs else map fst tfs @ [t])"
    by (simp add: scan_tally_def comp_def case_prod_unfold)
  then show "distinct (map fst tfs) \<Longrightarrow> distinct (map fst (scan_tally t tfs))" by simp
  show "length (scan_tally t tfs) \<le> length tfs + 1" by (simp add: scan_tally_def)
qed

lemma tally_term_spec:
  assumes inv: "tally_inv tfs table" and n: "length tfs < 2 ^ 32 - 1"
  shows "\<exists>table'. tally_term t (tfs, table) = Some (scan_tally t tfs, table') \<and> tally_inv (scan_tally t tfs) table'"
proof -
  have d: "distinct (map fst tfs)" using inv by (simp add: tally_inv_def)
  obtain table1 where t1: "(if length table < (length tfs + 1) * 2 then regrow tfs 0 (replicate (max (length table * 2) 64) 0) else Some table) = Some table1"
    "part_table tfs (length tfs) table1" "64 \<le> length table1" "(length tfs + 1) * 2 \<le> length table1"
  proof (cases "length table < (length tfs + 1) * 2")
    case True
    let ?g = "max (length table * 2) 64"
    have sz: "table_size ?g"
    proof (cases "table = []")
      case True
      then have "?g = 2 ^ 6" by simp
      then show ?thesis unfolding table_size_def by (intro exI [of _ 6]) simp
    next
      case False
      then obtain k where "4 \<le> k" "length table = 2 ^ k" "64 \<le> length table" using inv by (auto simp: tally_inv_def part_table_def table_size_def)
      then show ?thesis unfolding table_size_def by (intro exI [of _ "Suc k"]) simp
    qed
    have room: "(length tfs + 1) * 2 \<le> ?g" using inv by (auto simp: tally_inv_def)
    have "part_table tfs 0 (replicate ?g 0)" using sz by (simp add: part_table_def)
    then obtain table' where "regrow tfs 0 (replicate ?g 0) = Some table'" "length table' = ?g" "part_table tfs (length tfs) table'"
      using regrow_spec [of tfs 0 "replicate ?g 0" tfs] room n by auto
    then show ?thesis using that [of table'] True room by simp
  next
    case False
    moreover have "tfs \<noteq> [] \<or> table \<noteq> []" using False by auto
    ultimately have "64 \<le> length table" "part_table tfs (length tfs) table" using inv by (auto simp: tally_inv_def)
    then show ?thesis using that [of table] False by simp
  qed
  obtain table2 where t2: "tally_loop tfs table1 t (probe_at t (length table1 - 1)) = Some (scan_tally t tfs, table2)" "length table2 = length table1"
    "part_table (scan_tally t tfs) (length (scan_tally t tfs)) table2"
    using tally_loop_spec [OF d t1(2) _ n] t1(4) by auto
  have "length (scan_tally t tfs) * 2 \<le> length table2" using scan_tally_facts(2) [of t tfs] t1(4) t2(2) by simp
  then show ?thesis using t1 t2 scan_tally_facts(1) [OF d] by (auto simp: tally_term_def tally_inv_def)
qed

section \<open>A document\<close>

lemma tally_all_spec:
  "tally_inv tfs table \<Longrightarrow> length tfs + length ts < 2 ^ 32 \<Longrightarrow>
    \<exists>table'. tally_all ts (tfs, table) = Some (fold scan_tally ts tfs, table') \<and> tally_inv (fold scan_tally ts tfs) table'"
proof (induction ts arbitrary: tfs table)
  case (Cons t ts)
  obtain table1 where t: "tally_term t (tfs, table) = Some (scan_tally t tfs, table1)" "tally_inv (scan_tally t tfs) table1"
    using tally_term_spec [OF Cons.prems(1)] Cons.prems(2) by auto
  have "length (scan_tally t tfs) + length ts < 2 ^ 32" using scan_tally_facts(2) [of t tfs] Cons.prems(2) by simp
  then show ?case using Cons.IH [OF t(2)] t(1) by simp
qed simp

definition firsts :: "'a list \<Rightarrow> 'a list" where
  "firsts ts = rev (remdups (rev ts))"

definition doc_counts :: "u32 list \<Rightarrow> (u32 \<times> u8) list" where
  "doc_counts ts = map (\<lambda>t. (t, of_nat (min 255 (count_list ts t)))) (firsts ts)"

lemma count_once_more_nat: "count_once_more (of_nat (min 255 n)) = of_nat (min 255 (Suc n))"
proof (cases "n < 255")
  case True
  have "(of_nat n :: u8) \<noteq> - 1"
  proof
    assume "(of_nat n :: u8) = - 1"
    then have "unat (of_nat n :: u8) = 255" by (simp add: unsigned_minus_1_eq_mask mask_eq_exp_minus_1)
    moreover have "unat (of_nat n :: u8) = n" using True by (simp add: unat_of_nat take_bit_nat_eq_self_iff)
    ultimately show False using True by simp
  qed
  moreover have "min 255 n = n" "min 255 (Suc n) = Suc n" using True by simp_all
  ultimately show ?thesis by (simp add: count_once_more_def)
next
  case False
  then show ?thesis by (simp add: count_once_more_def min_def)
qed

lemma fold_scan_counts: "fold scan_tally ts [] = doc_counts ts"
proof (induction ts rule: rev_induct)
  case Nil
  then show ?case by (simp add: doc_counts_def firsts_def)
next
  case (snoc t ts)
  have set: "fst ` set (doc_counts ts) = set ts" by (force simp: doc_counts_def firsts_def)
  show ?case
  proof (cases "t \<in> set ts")
    case True
    have f: "firsts (ts @ [t]) = firsts ts" using True by (simp add: firsts_def)
    have "scan_tally t (doc_counts ts) = map (\<lambda>s. (s, if s = t then count_once_more (of_nat (min 255 (count_list ts s))) else of_nat (min 255 (count_list ts s)))) (firsts ts)"
      using True by (simp add: scan_tally_def set) (simp add: doc_counts_def)
    also have "\<dots> = doc_counts (ts @ [t])"
      unfolding doc_counts_def f by (intro map_cong refl) (simp add: count_once_more_nat del: of_nat_Suc)
    finally have "scan_tally t (doc_counts ts) = doc_counts (ts @ [t])" .
    then show ?thesis using snoc.IH by simp
  next
    case False
    have f: "firsts (ts @ [t]) = firsts ts @ [t]" using False by (simp add: firsts_def)
    have z: "count_list ts t = 0" using False by (simp add: count_list_0_iff)
    have "map (\<lambda>s. (s, of_nat (min 255 (count_list (ts @ [t]) s)) :: u8)) (firsts ts) = doc_counts ts"
      unfolding doc_counts_def using False by (intro map_cong) (auto simp: firsts_def)
    moreover have "scan_tally t (doc_counts ts) = doc_counts ts @ [(t, 1)]" using False unfolding scan_tally_def set by simp
    ultimately show ?thesis using snoc.IH z by (simp add: doc_counts_def [of "ts @ [t]"] f)
  qed
qed

lemma tally_doc:
  assumes "length ts < 2 ^ 32" and "n = 0 \<or> 64 \<le> n \<and> table_size n"
  shows "\<exists>table'. tally_all ts ([], replicate n 0) = Some (doc_counts ts, table') \<and> (length table' = 0 \<or> 64 \<le> length table' \<and> table_size (length table'))"
proof -
  have "tally_inv [] (replicate n 0)" using assms(2) by (auto simp: tally_inv_def part_table_def)
  then obtain table' where t: "tally_all ts ([], replicate n 0) = Some (doc_counts ts, table')" "tally_inv (doc_counts ts) table'"
    using tally_all_spec [of "[]" "replicate n 0" ts] assms(1) by (auto simp: fold_scan_counts)
  then show ?thesis by (auto simp: tally_inv_def part_table_def)
qed

text \<open>
  C17. Counting the terms of a document through the open-addressing table returns, for every table size the scratch may have
  kept from earlier documents, exactly the term frequencies a scan would give: each distinct term once, in order of first
  occurrence, with its number of occurrences capped at 255; every probe and every rehash ends.
\<close>

theorem tally_counts_terms:
  assumes "length ts < 2 ^ 32" and "n = 0 \<or> 64 \<le> n \<and> table_size n"
  shows "\<exists>table'. tally_all ts ([], replicate n 0) = Some (map (\<lambda>t. (t, of_nat (min 255 (count_list ts t)))) (firsts ts), table')"
  using tally_doc [OF assms] by (auto simp: doc_counts_def)

theorem tally_counts_terms_witness:
  "\<exists>table'. tally_all [7, 9, 7, 7, 4] ([], []) = Some ([(7, 3), (9, 1), (4, 1)], table')"
proof -
  have "map (\<lambda>t. (t, of_nat (min 255 (count_list [7, 9, 7, 7, 4] t)) :: u8)) (firsts [7 :: u32, 9, 7, 7, 4]) = [(7, 3), (9, 1), (4, 1)]"
    by (simp add: firsts_def)
  then show ?thesis using tally_counts_terms [of "[7, 9, 7, 7, 4]" 0] by simp
qed

end
