(* ===== verification/Record_Scan.thy ===== *)
theory Record_Scan
  imports Record_Arena Arena_Scan_Theorems
begin

text \<open>
  A full scan of a record arena (\<open>iter\<close>): every record of the typed view once, each under its own key.
\<close>

context record_arena
begin

lemma iter_view:
  assumes u: "arena_inv T a"
  obtains rs where "iter_all T rd a = Some rs" "distinct (map key_of rs)"
    "key_of ` set rs = dom (rview T rd kb a)" "\<And>r. r \<in> set rs \<longleftrightarrow> rview T rd kb a (key_of r) = Some r"
proof -
  obtain runs F where rep: "arena_rep T a runs F" using u unfolding arena_inv_def by blast
  define dec where "dec bs = the (rd bs)" for bs
  have dec: "\<forall>bs. length bs = SIZE T \<longrightarrow> rd bs = Some (dec bs)" using read_total by (auto simp: dec_def)
  let ?bs = "all_recs T a runs"
  have c: "cur_at T a runs (arena_iter a) ?bs (length runs + length (concat runs))"
    by (simp add: arena_iter_def cur_at_def all_recs_def)
  have iter: "iter_all T rd a = Some (map dec ?bs)"
    unfolding iter_all_def by (rule iter_drain [OF rep_frame [OF rep] dec c])
  note am = all_recs_map [OF rep]
  have img: "image (dec b) = b" if "b \<in> set ?bs" for b
    using image_read [OF am(4) [OF that]] dec am(4) [OF that] by auto
  have mem: "r \<in> set (map dec ?bs) \<longleftrightarrow> rview T rd kb a (key_of r) = Some r" for r
  proof
    assume "r \<in> set (map dec ?bs)"
    then obtain b where b: "b \<in> set ?bs" "r = dec b" by auto
    then obtain k where k: "arena_map T a k = Some b" using am(1) by (auto simp: ran_def)
    have "k = kb (key_of r)" using arena_map_slot(1) [OF u k] img [OF b(1)] image_key [of r] b(2) by simp
    then show "rview T rd kb a (key_of r) = Some r" using k img [OF b(1)] b(2) by (simp add: view_iff [OF u])
  next
    assume "rview T rd kb a (key_of r) = Some r"
    then have "image r \<in> set ?bs" using am(1) by (auto simp: view_iff [OF u] ran_def)
    moreover have "dec (image r) = r" by (simp add: dec_def read_image)
    ultimately show "r \<in> set (map dec ?bs)" by (metis image_eqI list.set_map)
  qed
  have "inj_on (\<lambda>b. key_of (dec b)) (set ?bs)"
  proof (rule inj_onI)
    fix b c assume "b \<in> set ?bs" "c \<in> set ?bs" "key_of (dec b) = key_of (dec c)"
    moreover have "rview T rd kb a (key_of (dec b)) = Some (dec b)" "rview T rd kb a (key_of (dec c)) = Some (dec c)"
      using mem calculation(1,2) by auto
    ultimately show "b = c" using img by (metis option.inject)
  qed
  then have "distinct (map key_of (map dec ?bs))" using am(2) by (simp add: distinct_map o_def)
  moreover have "key_of ` set (map dec ?bs) = dom (rview T rd kb a)"
  proof -
    have "k \<in> key_of ` set (map dec ?bs)" if "rview T rd kb a k = Some r" for k r
      using mem [of r] view_key [OF u that] that by (metis image_eqI)
    then show ?thesis using mem by fast
  qed
  ultimately show ?thesis using that [OF iter _ _ mem] by simp
qed

end

end
