(* ===== verification/Varint.thy ===== *)
theory Varint
  imports Prelude
begin

unbundle bit_operations_syntax

text \<open>
  LEB128 varints, \<open>crates/plugmem-core/src/index/varint.rs\<close>: the encoder and decoder loops, that they
  invert each other, and that an encoding has one to five bytes, so the encoder's five-byte buffer
  is never overrun.
\<close>

definition MAX_VARINT :: nat where
  "MAX_VARINT = 5"

lemma unat_drop7: "unat (drop_bit 7 (v :: u32)) = unat v div 128"
  unfolding unat_drop_bit_eq by (simp add: drop_bit_eq_div)

lemma drop_bit_decreases: "drop_bit 7 (v :: u32) \<noteq> 0 \<Longrightarrow> unat (drop_bit 7 v) < unat v"
proof -
  assume "drop_bit 7 v \<noteq> 0"
  then have "unat (drop_bit 7 v) \<noteq> 0" by (simp add: unat_eq_zero)
  then show ?thesis unfolding unat_drop7 by simp
qed

function encode_u32 :: "u32 \<Rightarrow> bytes" where
  "encode_u32 v =
     (let byte = ucast (v AND 0x7F); v = drop_bit 7 v
      in if v = 0 then [byte] else (byte OR 0x80) # encode_u32 v)"
  by pat_completeness auto
termination
  by (relation "measure unat") (simp_all add: drop_bit_decreases)

declare encode_u32.simps [simp del]

text \<open>The loop over \<open>bytes.iter().take(MAX_VARINT).enumerate()\<close>.\<close>

fun decode_loop :: "nat \<Rightarrow> u32 \<Rightarrow> bytes \<Rightarrow> (u32 \<times> nat) option" where
  "decode_loop i v [] = None"
| "decode_loop i v (byte # bytes) =
     (if i \<ge> MAX_VARINT then None
      else
        let payload = ucast (byte AND 0x7F) in
        if i = MAX_VARINT - 1 \<and> (byte AND 0x80 \<noteq> 0 \<or> payload > 0x0F) then None
        else
          let v = v OR push_bit (7 * i) payload in
          if byte AND 0x80 = 0 then Some (v, i + 1) else decode_loop (i + 1) v bytes)"

definition decode_u32 :: "bytes \<Rightarrow> (u32 \<times> nat) option" where
  "decode_u32 bytes = decode_loop 0 0 bytes"

section \<open>The codec\<close>

lemma decode_used: "decode_loop i v bs = Some (w, n) \<Longrightarrow> i < n \<and> n \<le> i + length bs"
proof (induction i v bs rule: decode_loop.induct)
  case (2 i v byte bytes)
  show ?case
  proof (cases "n = i + 1")
    case False
    then have "i + 1 < n \<and> n \<le> i + 1 + length bytes"
      using 2 by (auto simp: Let_def split: if_splits)
    then show ?thesis by auto
  qed simp
qed simp

lemma low_bits: "(v :: u32) AND 0x7F = take_bit 7 v" "(b :: u8) AND 0x7F = take_bit 7 b"
proof -
  have "(0x7F :: u32) = mask 7" "(0x7F :: u8) = mask 7" by (simp_all add: mask_eq_exp_minus_1)
  then show "(v :: u32) AND 0x7F = take_bit 7 v" "(b :: u8) AND 0x7F = take_bit 7 b" by (simp_all add: take_bit_eq_mask)
qed

lemma high_bit: "(b :: u8) AND 0x80 = 0 \<longleftrightarrow> \<not> bit b 7"
proof -
  have "(0x80 :: u8) = 2 ^ 7" by simp
  then show ?thesis by (metis and_exp_eq_0_iff_not_bit)
qed

lemma set_high: "(b :: u8) OR 0x80 = set_bit 7 b"
  by (simp add: set_bit_eq_or)

lemma payload_byte:
  "ucast (take_bit 7 (ucast (take_bit 7 (v :: u32)) :: u8)) = take_bit 7 v"
  "ucast (take_bit 7 (set_bit 7 (ucast (take_bit 7 (v :: u32)) :: u8))) = take_bit 7 v"
  "\<not> bit (ucast (take_bit 7 (v :: u32)) :: u8) 7" "bit (set_bit 7 (b :: u8)) 7"
  by (auto intro!: bit_word_eqI simp: bit_simps)

lemma split_low: "push_bit (7 * i) (take_bit 7 (v :: u32)) OR push_bit (7 * Suc i) (drop_bit 7 v) = push_bit (7 * i) v"
proof (rule bit_word_eqI)
  fix n assume n: "n < LENGTH(32)"
  show "bit (push_bit (7 * i) (take_bit 7 v) OR push_bit (7 * Suc i) (drop_bit 7 v)) n \<longleftrightarrow> bit (push_bit (7 * i) v) n"
  proof (cases "7 * Suc i \<le> n")
    case True
    then have "n - 7 * Suc i + 7 = n - 7 * i" by simp
    then show ?thesis using True n by (auto simp: bit_simps add.commute)
  next
    case False
    then show ?thesis using n by (auto simp: bit_simps)
  qed
qed

lemma decode_encode_loop:
  "i \<le> 4 \<Longrightarrow> unat v < 2 ^ (32 - 7 * i) \<Longrightarrow>
    decode_loop i acc (encode_u32 v @ rest) = Some (acc OR push_bit (7 * i) v, i + length (encode_u32 v)) \<and>
    i + length (encode_u32 v) \<le> 5"
proof (induction v arbitrary: i acc rule: encode_u32.induct)
  case (1 v)
  let ?low = "ucast (take_bit 7 v) :: u8"
  show ?case
  proof (cases "drop_bit 7 v = 0")
    case True
    have "unat v div 128 = 0" using True unat_drop7 [of v] by simp
    then have v: "unat v < 128" by (simp add: div_eq_0_iff)
    then have "unat (take_bit 7 v) = unat v"
      unfolding unsigned_take_bit_eq by (simp add: take_bit_eq_mod)
    then have low: "take_bit 7 v = v" by (simp only: word_unat_eq_iff)
    have small: "\<not> 15 < v" if "i = 4" using 1(3) that by (simp add: word_less_nat_alt)
    have "encode_u32 v = [ucast v]" using True low by (simp add: encode_u32.simps [of v] low_bits Let_def)
    then show ?thesis
      using 1(2) small payload_byte(1,3) [of v] low by (auto simp: Let_def low_bits high_bit MAX_VARINT_def)
  next
    case False
    have lt: "unat v \<ge> 128"
    proof (rule ccontr)
      assume "\<not> 128 \<le> unat v"
      then have "unat (drop_bit 7 v) = 0" by (simp add: unat_drop7)
      with False show False by (simp add: unat_eq_zero)
    qed
    then have i: "i \<le> 3" using 1(2,3) by (cases "i = 4") auto
    have "unat (drop_bit 7 v) < 2 ^ (32 - 7 * (i + 1))"
    proof -
      have "(2::nat) ^ (32 - 7 * i) = 128 * 2 ^ (32 - 7 * (i + 1))"
      proof -
        have "32 - 7 * i = 7 + (32 - 7 * (i + 1))" using i by simp
        then show ?thesis by (simp only: power_add) simp
      qed
      then show ?thesis using 1(3) by (simp add: unat_drop7 less_mult_imp_div_less mult.commute)
    qed
    with "1.IH" [OF refl refl False, of "i + 1" "acc OR push_bit (7 * i) (take_bit 7 v)"] i
    have IH: "decode_loop (i + 1) (acc OR push_bit (7 * i) (take_bit 7 v)) (encode_u32 (drop_bit 7 v) @ rest) =
        Some ((acc OR push_bit (7 * i) (take_bit 7 v)) OR push_bit (7 * Suc i) (drop_bit 7 v), i + 1 + length (encode_u32 (drop_bit 7 v)))"
      "i + 1 + length (encode_u32 (drop_bit 7 v)) \<le> 5" by simp_all
    have e: "encode_u32 v = set_bit 7 ?low # encode_u32 (drop_bit 7 v)"
      using False by (simp add: encode_u32.simps [of v] low_bits set_high Let_def)
    show ?thesis
      using IH i payload_byte(2) [of v] payload_byte(4) [of ?low] split_low [of i v]
      by (simp add: e Let_def low_bits high_bit MAX_VARINT_def or.assoc)
  qed
qed

lemma decode_encode: "decode_u32 (encode_u32 v @ rest) = Some (v, length (encode_u32 v))"
  and length_encode: "length (encode_u32 v) \<le> MAX_VARINT"
  using decode_encode_loop [of 0 v 0 rest] unat_lt_width [of v] by (simp_all add: decode_u32_def MAX_VARINT_def)

lemma encode_nonempty [simp]: "encode_u32 v \<noteq> []"
  by (subst encode_u32.simps) (simp add: Let_def)

end
