(* ===== verification/Postings.thy ===== *)
theory Postings
  imports Record_Scan Chunk_Lists Varint
begin

text \<open>
  Posting lists, \<open>crates/plugmem-core/src/index/postings.rs\<close>: an arena of list handles by key and one chunk
  pool holding the lists, as varint deltas of ascending fact ids. The const parameter \<open>TF\<close> (a term
  frequency byte per entry) is an argument. \<open>validate_lists\<close> of \<open>memory/persist.rs\<close>, the check a
  loaded store has to pass, follows.
\<close>

section \<open>Slots\<close>

record idlist_slot =
  il_key :: u32
  il_handle :: list_handle
  il_count :: u32
  il_last :: u32

definition idlist_type :: slot_type where
  "idlist_type = \<lparr>SIZE = 24, KEY_LEN = 4\<rparr>"

definition idlist_write :: "idlist_slot \<Rightarrow> bytes \<Rightarrow> bytes option" where
  "idlist_write r out = do {
     out \<leftarrow> write_u32 (il_key r) out;
     out \<leftarrow> put_range 4 16 (handle_to_bytes (il_handle r)) out;
     out \<leftarrow> write_at 16 (write_u32 (il_count r)) out;
     write_at 20 (write_u32 (il_last r)) out }"

definition idlist_read :: "bytes \<Rightarrow> idlist_slot option" where
  "idlist_read bs = do {
     v_key \<leftarrow> read_u32 bs;
     v_handle \<leftarrow> map_option handle_from_bytes (get_range 4 16 bs);
     v_count \<leftarrow> read_at 16 read_u32 bs;
     v_last \<leftarrow> read_at 20 read_u32 bs;
     Some \<lparr>il_key = v_key, il_handle = v_handle, il_count = v_count, il_last = v_last\<rparr> }"

definition idlist_image :: "idlist_slot \<Rightarrow> bytes" where
  "idlist_image r = u32_be (il_key r) @ handle_to_bytes (il_handle r) @ u32_be (il_count r) @ u32_be (il_last r)"

interpretation il_codec: slot_codec idlist_type idlist_write idlist_read idlist_image
  by unfold_locales (simp_all add: idlist_type_def idlist_write_def idlist_read_def idlist_image_def codec_simps)

interpretation il_arena: record_arena idlist_type idlist_write idlist_read idlist_image il_key id_key
  by unfold_locales (simp_all add: idlist_type_def idlist_image_def slot_key_def key_defs)

section \<open>The store\<close>

record posting_store =
  ps_handles :: arena
  ps_pool :: chunk_pool

definition postings_new :: "nat \<Rightarrow> nat \<Rightarrow> core_error + posting_store" where
  "postings_new shards max_bytes =
     try_res (from_arena (arena_new idlist_type \<lparr>ac_shards = shards, ac_max_bytes = max_bytes, ac_mode = Uniform\<rparr>)) (\<lambda>handles.
       Inr \<lparr>ps_handles = handles, ps_pool = chunk_pool_new \<lparr>cc_max_bytes = max_bytes\<rparr>\<rparr>)"

definition put_handles :: "arena \<Rightarrow> posting_store \<Rightarrow> posting_store" where
  "put_handles a s = s\<lparr>ps_handles := a\<rparr>"

text \<open>A push to a chunk list held in a state, whose handle comes back changed.\<close>

definition chunk_push_at ::
  "('s \<Rightarrow> chunk_pool) \<Rightarrow> (chunk_pool \<Rightarrow> 's \<Rightarrow> 's) \<Rightarrow> list_handle \<Rightarrow> bytes \<Rightarrow> ('s, list_handle) effect" where
  "chunk_push_at get put l v s = (case chunk_push (get s) l v of
     None \<Rightarrow> None
   | Some (Inl e) \<Rightarrow> Some (Inl (Arena_err e), s)
   | Some (Inr (l, p)) \<Rightarrow> Some (Inr l, put p s))"

definition put_pool :: "chunk_pool \<Rightarrow> posting_store \<Rightarrow> posting_store" where
  "put_pool p s = s\<lparr>ps_pool := p\<rparr>"

definition lookup_slot :: "posting_store \<Rightarrow> u32 \<Rightarrow> idlist_slot option option" where
  "lookup_slot s raw_key = do {
     kb \<leftarrow> write_u32 raw_key (replicate 4 0);
     arena_get idlist_type idlist_read (ps_handles s) kb }"

definition entry_bytes :: "bool \<Rightarrow> u32 \<Rightarrow> u8 \<Rightarrow> bytes" where
  "entry_bytes TF delta tf = encode_u32 delta @ (if TF then [tf] else [])"

text \<open>The end of \<open>push\<close>: the key's slot is rewritten in place, or inserted.\<close>

definition store_slot :: "bytes \<Rightarrow> bool \<Rightarrow> idlist_slot \<Rightarrow> (posting_store, unit) effect" where
  "store_slot junk present updated =
     (if present
      then and_then (need (idlist_write updated (replicate (SIZE idlist_type) 0))) (\<lambda>full.
           and_then (need (write_u32 (il_key updated) (replicate 4 0))) (\<lambda>kb.
             payload_at ps_handles put_handles idlist_type kb (\<lambda>_. drop (KEY_LEN idlist_type) full) (need None)))
      else and_then (insert_at ps_handles put_handles idlist_type idlist_write junk updated) (\<lambda>_. done_with ()))"

definition posting_push :: "bool \<Rightarrow> bytes \<Rightarrow> u32 \<Rightarrow> fact_id \<Rightarrow> u8 \<Rightarrow> (posting_store, unit) effect" where
  "posting_push TF junk raw_key fid tf =
     and_then (reads (\<lambda>s. lookup_slot s raw_key)) (\<lambda>slot.
       let (handle, cnt, last) = (case slot of Some s \<Rightarrow> (il_handle s, il_count s, il_last s) | None \<Rightarrow> (EMPTY, 0, 0));
           delta = fid - (if cnt = 0 then 0 else last)
       in and_then (chunk_push_at ps_pool put_pool handle (entry_bytes TF delta tf)) (\<lambda>handle.
          and_then (panic_if (\<lambda>_. cnt = - 1)) (\<lambda>_.
            store_slot junk (slot \<noteq> None) \<lparr>il_key = raw_key, il_handle = handle, il_count = cnt + 1, il_last = fid\<rparr>)))"

definition posting_count :: "posting_store \<Rightarrow> u32 \<Rightarrow> u32 option" where
  "posting_count s raw_key = map_option (\<lambda>slot. case slot of None \<Rightarrow> 0 | Some sl \<Rightarrow> il_count sl) (lookup_slot s raw_key)"

text \<open>
  \<open>Entries::next\<close> to its end: \<open>cur\<close> is the rest of the current chunk, \<open>chunks\<close> the ones after it. A
  malformed entry and an id past \<open>u32::MAX\<close> panic.
\<close>

function entries_loop :: "bool \<Rightarrow> bytes \<Rightarrow> bytes list \<Rightarrow> u32 \<Rightarrow> bool \<Rightarrow> (fact_id \<times> u8) list option" where
  "entries_loop TF cur chunks prev first =
     (if cur = [] then
        (case chunks of [] \<Rightarrow> Some [] | c # cs \<Rightarrow> entries_loop TF c cs prev first)
      else case decode_u32 cur of
        None \<Rightarrow> None
      | Some (delta, used) \<Rightarrow>
          if TF \<and> length cur \<le> used then None
          else if \<not> first \<and> 2 ^ 32 \<le> unat prev + unat delta then None
          else
            let tf = (if TF then cur ! used else 1);
                at = (if TF then used + 1 else used);
                fid = (if first then delta else prev + delta)
            in map_option ((#) (fid, tf)) (entries_loop TF (drop at cur) chunks fid False))"
  by pat_completeness auto
termination
  by (relation "measure (\<lambda>(TF, cur, chunks, prev, first). length cur + length chunks + length (concat chunks))")
    (auto simp: decode_u32_def dest!: decode_used)

declare entries_loop.simps [simp del]

definition posting_entries :: "bool \<Rightarrow> posting_store \<Rightarrow> u32 \<Rightarrow> (fact_id \<times> u8) list option" where
  "posting_entries TF s raw_key = do {
     slot \<leftarrow> lookup_slot s raw_key;
     let handle = (case slot of None \<Rightarrow> EMPTY | Some sl \<Rightarrow> il_handle sl);
     chunks \<leftarrow> chunk_iter (ps_pool s) handle;
     entries_loop TF [] chunks 0 True }"

definition posting_keys :: "posting_store \<Rightarrow> nat" where
  "posting_keys s = arena_len (ps_handles s)"

definition posting_pool_bytes :: "posting_store \<Rightarrow> nat" where
  "posting_pool_bytes s = arena_pool_bytes (ps_handles s) + cp_pool_bytes (ps_pool s)"

end
