(* ===== verification/Posting_Lists.thy ===== *)
theory Posting_Lists
  imports Postings
begin

text \<open>
  What a posting store is: for every key a list of entries in ascending id order. \<open>posting_rep\<close>
  relates the handle arena and the chunk pool to that map; its last argument lists the chains no
  handle reaches any more. A list is read off its chunks by the decoder itself, so a store loaded
  from an image, whose varints need not be the shortest ones, is covered too. The lemmas carry
  \<open>push\<close> and \<open>entries\<close> to the map.
\<close>

type_synonym entry = "fact_id \<times> u8"

section \<open>Encoded lists\<close>

definition ascending :: "entry list \<Rightarrow> bool" where
  "ascending es \<longleftrightarrow> sorted_wrt (<) (map fst es)"

definition plain_tf :: "bool \<Rightarrow> u8 \<Rightarrow> u8" where
  "plain_tf TF tf = (if TF then tf else 1)"

lemma ascending_simps [simp]: "ascending []"
  "ascending (es @ [e]) \<longleftrightarrow> ascending es \<and> (\<forall>d \<in> set es. fst d < fst e)"
  by (auto simp: ascending_def sorted_wrt_append)

lemma ascending_last: "ascending es \<Longrightarrow> d \<in> set es \<Longrightarrow> fst d \<le> fst (last es)"
  by (cases es rule: rev_cases) (auto intro: order_less_imp_le)

lemma ascending_snoc: "ascending es \<Longrightarrow> es = [] \<or> fst (last es) < fst e \<Longrightarrow> ascending (es @ [e])"
proof -
  assume a: "ascending es" and e: "es = [] \<or> fst (last es) < fst e"
  have "fst d < fst e" if d: "d \<in> set es" for d
    using ascending_last [OF a d] e d by auto
  with a show ?thesis by simp
qed

lemma entry_bytes_simps [simp]: "entry_bytes TF d tf \<noteq> []" "length (entry_bytes TF d tf) \<le> 60"
  using length_encode [of d] by (simp_all add: entry_bytes_def MAX_VARINT_def)

lemma decode_loop_prefix: "decode_loop i v bs = Some r \<Longrightarrow> decode_loop i v (bs @ cs) = Some r"
  by (induction i v bs rule: decode_loop.induct) (auto simp: Let_def split: if_splits)

lemma decode_prefix: "decode_u32 bs = Some r \<Longrightarrow> decode_u32 (bs @ cs) = Some r"
  by (simp add: decode_u32_def decode_loop_prefix)

lemma decode_length: "decode_u32 bs = Some (d, n) \<Longrightarrow> 0 < n \<and> n \<le> length bs"
  using decode_used [of 0 0 bs d n] by (simp add: decode_u32_def)

text \<open>Decoding: one more entry at the end, in the last chunk or in one of its own.\<close>

definition next_ok :: "u32 \<Rightarrow> bool \<Rightarrow> entry list \<Rightarrow> u32 \<Rightarrow> bool" where
  "next_ok prev first es i \<longleftrightarrow> (if es = [] then (if first then prev = 0 else prev < i) else fst (last es) < i)"

definition last_id :: "u32 \<Rightarrow> entry list \<Rightarrow> u32" where
  "last_id prev es = (if es = [] then prev else fst (last es))"

lemma decode_single:
  assumes "next_ok prev first [] i"
  shows "entries_loop TF (entry_bytes TF (i - prev) tf) [] prev first = Some [(i, plain_tf TF tf)]"
proof -
  have d: "decode_u32 (entry_bytes TF (i - prev) tf) = Some (i - prev, length (encode_u32 (i - prev)))"
    using decode_encode [of "i - prev" "if TF then [tf] else []"] by (simp add: entry_bytes_def)
  have sum: "first \<or> unat prev + unat (i - prev) < 2 ^ 32"
  proof (cases first)
    case False
    then have le: "prev \<le> i" using assms by (simp add: next_ok_def)
    then show ?thesis using unat_sub [OF le] word_le_nat_alt [of prev i] unat_lt_width [of i] by simp
  qed simp
  have e: "entries_loop TF [] [] p False = Some []" for p by (subst entries_loop.simps) simp
  show ?thesis
    using d sum assms e by (subst entries_loop.simps) (auto simp: plain_tf_def entry_bytes_def Let_def not_le next_ok_def split: if_splits)
qed

lemma entries_extend:
  assumes "entries_loop TF cur chunks prev first = Some es" and "next_ok prev first es i"
  shows "entries_loop TF cur (chunks @ [entry_bytes TF (i - last_id prev es) tf]) prev first = Some (es @ [(i, plain_tf TF tf)])"
    and "chunks \<noteq> [] \<Longrightarrow> entries_loop TF cur (butlast chunks @ [last chunks @ entry_bytes TF (i - last_id prev es) tf]) prev first =
      Some (es @ [(i, plain_tf TF tf)])"
    and "chunks = [] \<Longrightarrow> entries_loop TF (cur @ entry_bytes TF (i - last_id prev es) tf) [] prev first = Some (es @ [(i, plain_tf TF tf)])"
proof -
  have "entries_loop TF cur (chunks @ [entry_bytes TF (i - last_id prev es) tf]) prev first = Some (es @ [(i, plain_tf TF tf)]) \<and>
    (chunks \<noteq> [] \<longrightarrow> entries_loop TF cur (butlast chunks @ [last chunks @ entry_bytes TF (i - last_id prev es) tf]) prev first =
      Some (es @ [(i, plain_tf TF tf)])) \<and>
    (chunks = [] \<longrightarrow> entries_loop TF (cur @ entry_bytes TF (i - last_id prev es) tf) [] prev first = Some (es @ [(i, plain_tf TF tf)]))"
    using assms
  proof (induction TF cur chunks prev first arbitrary: es rule: entries_loop.induct)
    case (1 TF cur chunks prev first)
    have skip: "entries_loop TF [] (c # cs) prev first = entries_loop TF c cs prev first" for c cs
      by (subst entries_loop.simps) simp
    show ?case
    proof (cases "cur = []")
      case cur: True
      show ?thesis
      proof (cases chunks)
        case Nil
        then have "es = []" using 1(3) cur by (subst (asm) entries_loop.simps) simp
        then show ?thesis using decode_single 1(4) Nil cur by (simp add: skip last_id_def)
      next
        case (Cons c cs)
        then have "entries_loop TF c cs prev first = Some es" using 1(3) cur by (simp add: skip)
        with "1.IH"(1) [OF cur Cons] 1(4) Cons cur show ?thesis by (cases cs) (auto simp: skip)
      qed
    next
      case False
      then obtain delta used where d: "decode_u32 cur = Some (delta, used)"
        using 1(3) by (subst (asm) entries_loop.simps) (auto split: option.splits)
      let ?tf = "if TF then cur ! used else 1" and ?at = "if TF then used + 1 else used" and ?id = "if first then delta else prev + delta"
      have ok: "\<not> (TF \<and> length cur \<le> used)" "\<not> (\<not> first \<and> 2 ^ 32 \<le> unat prev + unat delta)"
        using 1(3) False d by (subst (asm) entries_loop.simps; auto split: if_splits)+
      have step: "entries_loop TF (cur @ v) cs prev first = map_option ((#) (?id, ?tf)) (entries_loop TF (drop ?at cur @ v) cs ?id False)" for v cs
        using False ok decode_length [OF d]
        by (subst entries_loop.simps) (auto simp: decode_prefix [OF d] Let_def nth_append not_le not_less_eq_eq)
      obtain es' where es: "es = (?id, ?tf) # es'" "entries_loop TF (drop ?at cur) chunks ?id False = Some es'"
        using 1(3) step [of "[]" chunks] by (cases "entries_loop TF (drop ?at cur) chunks ?id False") auto
      have prev: "next_ok ?id False es' i" using 1(4) es by (auto simp: next_ok_def split: if_splits)
      have "last_id ?id es' = last_id prev es" using es(1) by (simp add: last_id_def)
      with "1.IH"(2) [OF False d refl ok refl refl refl es(2) prev] step step [of "[]"] es(1) show ?thesis by auto
    qed
  qed
  then show "entries_loop TF cur (chunks @ [entry_bytes TF (i - last_id prev es) tf]) prev first = Some (es @ [(i, plain_tf TF tf)])"
    and "chunks \<noteq> [] \<Longrightarrow> entries_loop TF cur (butlast chunks @ [last chunks @ entry_bytes TF (i - last_id prev es) tf]) prev first =
      Some (es @ [(i, plain_tf TF tf)])"
    and "chunks = [] \<Longrightarrow> entries_loop TF (cur @ entry_bytes TF (i - last_id prev es) tf) [] prev first = Some (es @ [(i, plain_tf TF tf)])"
    by blast+
qed

section \<open>The representation\<close>

abbreviation "il_view \<equiv> rview idlist_type idlist_read id_key"

definition list_rep :: "bool \<Rightarrow> chunk_pool \<Rightarrow> idlist_slot \<Rightarrow> entry list \<Rightarrow> bool" where
  "list_rep TF p sl es \<longleftrightarrow> ascending es \<and> unat (il_count sl) = length es \<and> (es \<noteq> [] \<longrightarrow> il_last sl = fst (last es)) \<and>
     (\<exists>chunks. chunk_iter p (il_handle sl) = Some chunks \<and> entries_loop TF [] chunks 0 True = Some es)"

definition handles_of :: "(u32 \<Rightarrow> idlist_slot option) \<Rightarrow> u32 list \<Rightarrow> list_handle list" where
  "handles_of v ks = map (\<lambda>k. il_handle (the (v k))) ks"

definition lists_rep :: "bool \<Rightarrow> posting_store \<Rightarrow> (u32 \<Rightarrow> entry list) \<Rightarrow> bool" where
  "lists_rep TF s m \<longleftrightarrow> (\<forall>k. case il_view (ps_handles s) k of None \<Rightarrow> m k = [] | Some sl \<Rightarrow> list_rep TF (ps_pool s) sl (m k))"

definition posting_rep :: "bool \<Rightarrow> posting_store \<Rightarrow> (u32 \<Rightarrow> entry list) \<Rightarrow> list_handle list \<Rightarrow> bool" where
  "posting_rep TF s m lost \<longleftrightarrow> arena_usable idlist_type (ps_handles s) \<and> lists_rep TF s m \<and>
     (\<exists>ks. distinct ks \<and> set ks = dom (il_view (ps_handles s)) \<and> chunk_wf (ps_pool s) (handles_of (il_view (ps_handles s)) ks @ lost))"

lemma id_bytes: "write_u32 k (replicate 4 0) = Some (id_key k)"
  by (simp add: id_key_def write_u32_def put_range_def splice_def)

lemma lookup_usable: "arena_usable idlist_type (ps_handles s) \<Longrightarrow> lookup_slot s k = Some (il_view (ps_handles s) k)"
  using il_arena.get_view(2) [of "ps_handles s" k] by (simp add: arena_usable_def lookup_slot_def id_bytes)

lemma lookup_view: "posting_rep TF s m lost \<Longrightarrow> lookup_slot s k = Some (il_view (ps_handles s) k)"
  by (simp add: posting_rep_def lookup_usable)

lemma rep_cases:
  assumes "posting_rep TF s m lost"
  obtains (absent) "il_view (ps_handles s) k = None" "m k = []"
  | (here) sl chunks where "il_view (ps_handles s) k = Some sl" "ascending (m k)" "unat (il_count sl) = length (m k)"
      "m k \<noteq> [] \<Longrightarrow> il_last sl = fst (last (m k))" "chunk_iter (ps_pool s) (il_handle sl) = Some chunks"
      "entries_loop TF [] chunks 0 True = Some (m k)"
proof -
  have c: "case il_view (ps_handles s) k of None \<Rightarrow> m k = [] | Some sl \<Rightarrow> list_rep TF (ps_pool s) sl (m k)"
    using assms by (simp add: posting_rep_def lists_rep_def)
  show ?thesis
  proof (cases "il_view (ps_handles s) k")
    case None
    with c absent show ?thesis by simp
  next
    case (Some sl)
    with c here show ?thesis by (auto simp: list_rep_def)
  qed
qed

lemma no_entries: "entries_loop TF [] [] 0 True = Some []"
  by (subst entries_loop.simps) simp

lemma rep_entries:
  assumes rep: "posting_rep TF s m lost"
  shows "posting_entries TF s k = Some (m k)" and "length (m k) < 2 ^ 32" and "posting_count s k = Some (of_nat (length (m k)))"
    and "ascending (m k)"
proof -
  note l = lookup_view [OF rep, of k]
  have "posting_entries TF s k = Some (m k) \<and> length (m k) < 2 ^ 32 \<and> posting_count s k = Some (of_nat (length (m k))) \<and> ascending (m k)"
    using rep
  proof (cases rule: rep_cases [where k = k])
    case absent
    then show ?thesis by (simp add: posting_entries_def posting_count_def l empty_iter no_entries)
  next
    case (here sl chunks)
    then have "il_count sl = of_nat (length (m k))" by (simp add: word_unat_eq_iff unat_of_nat flip: here(3))
    moreover have "length (m k) < 2 ^ 32" using here(3) unat_lt_width [of "il_count sl"] by simp
    ultimately show ?thesis using here by (simp add: posting_entries_def posting_count_def l)
  qed
  then show "posting_entries TF s k = Some (m k)" "length (m k) < 2 ^ 32" "posting_count s k = Some (of_nat (length (m k)))" "ascending (m k)"
    by simp_all
qed

section \<open>Appending\<close>

lemma list_rep_frame: "chunk_iter q (il_handle sl) = chunk_iter p (il_handle sl) \<Longrightarrow> list_rep TF q sl es = list_rep TF p sl es"
  by (simp add: list_rep_def)

text \<open>A push to the chunks of one list, seen by the decoder.\<close>

lemma extend_list:
  assumes dec: "entries_loop TF [] old 0 True = Some es" and asc: "es = [] \<or> fst (last es) < i"
    and v: "v = entry_bytes TF (i - (if es = [] then 0 else fst (last es))) tf"
    and new: "new = (if old \<noteq> [] \<and> length (last old) + length v \<le> CHUNK_PAYLOAD then butlast old @ [last old @ v] else old @ [v])"
  shows "entries_loop TF [] new 0 True = Some (es @ [(i, plain_tf TF tf)])"
proof -
  have n: "next_ok 0 True es i" using asc by (auto simp: next_ok_def)
  have l: "last_id 0 es = (if es = [] then 0 else fst (last es))" by (simp add: last_id_def)
  show ?thesis using entries_extend(1,2) [OF dec n, of tf, folded l] v new by (auto simp: l)
qed

definition stored :: "u32 \<Rightarrow> list_handle \<Rightarrow> nat \<Rightarrow> fact_id \<Rightarrow> idlist_slot" where
  "stored k h n i = \<lparr>il_key = k, il_handle = h, il_count = of_nat (Suc n), il_last = i\<rparr>"

lemma stored_fields [simp]:
  "il_key (stored k h n i) = k" "il_handle (stored k h n i) = h" "il_last (stored k h n i) = i"
  "Suc n < 2 ^ 32 \<Longrightarrow> unat (il_count (stored k h n i)) = Suc n"
  by (simp_all add: stored_def unat_of_nat del: of_nat_Suc)

text \<open>Writing the slot back.\<close>

lemma store_slot_absent:
  assumes a: "arena_usable idlist_type (ps_handles s)" and junk: "length junk = PAGE_BYTES"
    and none: "il_view (ps_handles s) (il_key u) = None"
  obtains (full) "arena_full (ps_handles s)"
      "store_slot junk False u s = Some (Inl (Arena_err (CapacityExceeded (ac_max_bytes (ar_cfg (ps_handles s))))), s)"
  | (new) b where "store_slot junk False u s = Some (Inr (), s\<lparr>ps_handles := b\<rparr>)" "arena_usable idlist_type b"
      "il_view b = (il_view (ps_handles s))(il_key u \<mapsto> u)" "arena_len b = arena_len (ps_handles s) + 1" "ar_cfg b = ar_cfg (ps_handles s)"
  by (rule il_arena.insert_view [OF a junk, of u])
    (use none in \<open>auto simp: store_slot_def insert_at_def put_handles_def intro: that\<close>)

lemma store_slot_present:
  assumes a: "arena_usable idlist_type (ps_handles s)" and here: "il_view (ps_handles s) (il_key u) = Some sl"
  obtains b where "store_slot junk True u s = Some (Inr (), s\<lparr>ps_handles := b\<rparr>)" "arena_usable idlist_type b"
      "il_view b = (il_view (ps_handles s))(il_key u \<mapsto> u)" "ar_cfg b = ar_cfg (ps_handles s)"
proof -
  have full: "idlist_write u (replicate (SIZE idlist_type) 0) = Some (idlist_image u)" by (simp add: il_codec.write_fills)
  have len: "length (drop (KEY_LEN idlist_type) (idlist_image u)) = SIZE idlist_type - KEY_LEN idlist_type"
    by (simp add: il_codec.length_image)
  have img: "idlist_image u = id_key (il_key u) @ drop (KEY_LEN idlist_type) (idlist_image u)"
    by (simp add: idlist_image_def id_key_def idlist_type_def)
  show ?thesis
  proof (rule il_arena.payload_view [OF a, of "\<lambda>_. drop (KEY_LEN idlist_type) (idlist_image u)" "il_key u" "\<lambda>_. u"])
    fix r b assume "il_view (ps_handles s) (il_key u) = Some r"
      "arena_payload_mut idlist_type (\<lambda>_. drop (KEY_LEN idlist_type) (idlist_image u)) (ps_handles s) (id_key (il_key u)) = Some (Some b)"
      "arena_usable idlist_type b" "il_view b = (il_view (ps_handles s))(il_key u \<mapsto> u)" "ar_cfg b = ar_cfg (ps_handles s)"
    then show ?thesis
      using that [of b] full by (simp add: store_slot_def payload_at_def put_handles_def id_bytes)
  qed (use here len img in auto)
qed

lemma handles_of_update:
  "k \<notin> set ks \<Longrightarrow> handles_of (v(k \<mapsto> u)) ks = handles_of v ks"
  "distinct ks \<Longrightarrow> j < length ks \<Longrightarrow> ks ! j = k \<Longrightarrow> handles_of (v(k \<mapsto> u)) ks = (handles_of v ks)[j := il_handle u]"
  by (auto simp: handles_of_def nth_list_update nth_eq_iff_index_eq intro!: nth_equalityI)

text \<open>
  The outcomes of \<open>push\<close>: a full chunk pool refuses and changes nothing; a full handle arena refuses
  after the chunk is written, so that chunk is lost; or the entry is appended.
\<close>

lemma posting_push_rep:
  assumes rep: "posting_rep TF s m lost" and junk: "length junk = PAGE_BYTES"
    and asc: "m k = [] \<or> fst (last (m k)) < i" and room: "Suc (length (m k)) < 2 ^ 32"
  obtains (refused) "pool_full (ps_pool s)"
      "posting_push TF junk k i tf s = Some (Inl (Arena_err (CapacityExceeded (cc_max_bytes (cp_cfg (ps_pool s))))), s)"
  | (orphaned) s' l where "arena_full (ps_handles s)" "il_view (ps_handles s) k = None" "m k = []"
      "posting_push TF junk k i tf s = Some (Inl (Arena_err (CapacityExceeded (ac_max_bytes (ar_cfg (ps_handles s))))), s')"
      "posting_rep TF s' m (lost @ [l])" "chunk_iter (ps_pool s') l = Some [entry_bytes TF i tf]" "ps_handles s' = ps_handles s"
  | (ok) s' where "posting_push TF junk k i tf s = Some (Inr (), s')"
      "posting_rep TF s' (m(k := m k @ [(i, plain_tf TF tf)])) lost"
proof -
  have a: "arena_usable idlist_type (ps_handles s)" using rep by (simp add: posting_rep_def)
  obtain ks where ks: "distinct ks" "set ks = dom (il_view (ps_handles s))"
    and wf: "chunk_wf (ps_pool s) (handles_of (il_view (ps_handles s)) ks @ lost)"
    using rep by (auto simp: posting_rep_def)
  let ?v = "il_view (ps_handles s)" and ?e = "(i, plain_tf TF tf)"
  let ?hs = "handles_of ?v ks @ lost"
  note look = lookup_view [OF rep, of k]
  have lists: "\<And>k. case ?v k of None \<Rightarrow> m k = [] | Some sl \<Rightarrow> list_rep TF (ps_pool s) sl (m k)"
    using rep by (simp add: posting_rep_def lists_rep_def)
  have none: "m k' = []" if "?v k' = None" for k' using lists [of k'] that by simp
  have hs: "\<exists>j < length ks. ks ! j = k'" if "?v k' \<noteq> None" for k'
    using that ks(2) by (metis domI domIff in_set_conv_nth)
  have nth: "?hs ! j = il_handle (the (?v (ks ! j)))" "j < length ?hs" if "j < length ks" for j
    using that by (auto simp: handles_of_def nth_append)
  show ?thesis
    using rep
  proof (cases rule: rep_cases [where k = k])
    case absent
    let ?w = "entry_bytes TF i tf" and ?n = "length ?hs"
    have wf1: "chunk_wf (ps_pool s) (?hs @ [EMPTY])" by (rule wf_add_empty [OF wf])
    show ?thesis
    proof (rule push_wf [OF wf1, of ?n ?w])
      fix old l' p' assume old: "chunk_iter (ps_pool s) ((?hs @ [EMPTY]) ! ?n) = Some old"
        and push: "chunk_push (ps_pool s) ((?hs @ [EMPTY]) ! ?n) ?w = Some (Inr (l', p'))"
        and wf': "chunk_wf p' ((?hs @ [EMPTY])[?n := l'])" and cfg: "cp_cfg p' = cp_cfg (ps_pool s)"
        and iter: "chunk_iter p' l' = Some (if old \<noteq> [] \<and> length (last old) + length ?w \<le> CHUNK_PAYLOAD then butlast old @ [last old @ ?w] else old @ [?w])"
        and frame: "\<forall>j < length (?hs @ [EMPTY]). j \<noteq> ?n \<longrightarrow> chunk_iter p' ((?hs @ [EMPTY]) ! j) = chunk_iter (ps_pool s) ((?hs @ [EMPTY]) ! j)"
      let ?s = "s\<lparr>ps_pool := p'\<rparr>" and ?u = "stored k l' 0 i"
      have "old = []" using old by (simp add: empty_iter)
      then have iter: "chunk_iter p' l' = Some [?w]" using iter by simp
      have wf': "chunk_wf p' (?hs @ [l'])" using wf' unfolding list_update_length .
      have fr: "chunk_iter p' (?hs ! j) = chunk_iter (ps_pool s) (?hs ! j)" if "j < ?n" for j
      proof -
        have "(?hs @ [EMPTY]) ! j = ?hs ! j" by (rule nth_append_left [OF that])
        with frame [rule_format, of j] that show ?thesis by simp
      qed
      have others: "list_rep TF p' sl (m k')" if v': "?v k' = Some sl" for k' sl
      proof -
        obtain j where "j < length ks" "ks ! j = k'" using hs [of k'] v' by auto
        then have "chunk_iter p' (il_handle sl) = chunk_iter (ps_pool s) (il_handle sl)" using fr [of j] nth [of j] v' by simp
        then show ?thesis using lists [of k'] v' list_rep_frame [of p' sl "ps_pool s"] by simp
      qed
      have run: "posting_push TF junk k i tf s = store_slot junk False ?u ?s"
        using push absent by (simp add: posting_push_def reads_def look chunk_push_at_def put_pool_def panic_if_def and_then_def stored_def)
      show ?thesis
      proof (rule store_slot_absent [of ?s junk ?u])
        assume full: "arena_full (ps_handles ?s)"
          "store_slot junk False ?u ?s = Some (Inl (Arena_err (CapacityExceeded (ac_max_bytes (ar_cfg (ps_handles ?s))))), ?s)"
        have "posting_rep TF ?s m (lost @ [l'])"
          using a ks wf' others absent none by (auto simp: posting_rep_def lists_rep_def split: option.splits)
        then show ?thesis using orphaned full run absent iter by simp
      next
        fix b assume b: "store_slot junk False ?u ?s = Some (Inr (), ?s\<lparr>ps_handles := b\<rparr>)" "arena_usable idlist_type b"
          "il_view b = (il_view (ps_handles ?s))(il_key ?u \<mapsto> ?u)"
        then have v: "il_view b = ?v(k \<mapsto> ?u)" by simp
        have "k \<notin> set ks" using ks(2) absent by (simp add: domIff)
        then have "handles_of (il_view b) (ks @ [k]) = handles_of ?v ks @ [l']"
          using handles_of_update(1) [of k ks ?v ?u] by (auto simp: v handles_of_def)
        then have "mset (handles_of (il_view b) (ks @ [k]) @ lost) = mset (?hs @ [l'])" by simp
        from wf_reorder [OF wf' this] have wf2: "chunk_wf p' (handles_of (il_view b) (ks @ [k]) @ lost)" .
        have new: "list_rep TF p' ?u [?e]"
          using decode_single [of 0 True i TF tf] iter by (simp add: list_rep_def next_ok_def ascending_def) (subst entries_loop.simps, simp)
        have "lists_rep TF (?s\<lparr>ps_handles := b\<rparr>) (m(k := m k @ [?e]))"
          using others new none absent by (auto simp: lists_rep_def v split: option.splits)
        moreover have "distinct (ks @ [k])" "set (ks @ [k]) = dom (il_view b)" using ks \<open>k \<notin> set ks\<close> by (auto simp: v)
        ultimately have "posting_rep TF (?s\<lparr>ps_handles := b\<rparr>) (m(k := m k @ [?e])) lost"
          using b(2) wf2 unfolding posting_rep_def by (intro conjI exI [of _ "ks @ [k]"]) simp_all
        then show ?thesis using ok b(1) run by simp
      qed (use a junk absent in simp_all)
    qed (use refused absent in \<open>auto simp: posting_push_def reads_def look chunk_push_at_def and_then_def\<close>)
  next
    case (here sl old)
    obtain j where j: "j < length ks" "ks ! j = k" using hs here by auto
    let ?w = "entry_bytes TF (i - (if m k = [] then 0 else fst (last (m k)))) tf"
    have cnt: "il_count sl = 0 \<longleftrightarrow> m k = []" "il_count sl \<noteq> - 1" "il_count sl + 1 = of_nat (Suc (length (m k)))"
    proof -
      show "il_count sl = 0 \<longleftrightarrow> m k = []" using here(3) by (metis length_0_conv unat_eq_zero)
      show "il_count sl \<noteq> - 1" using here(3) room by (auto simp: unsigned_minus_1_eq_mask mask_eq_exp_minus_1)
      show "il_count sl + 1 = of_nat (Suc (length (m k)))" using here(3) by (metis add.commute of_nat_Suc of_nat_unat ucast_id)
    qed
    have delta: "i - (if il_count sl = 0 then 0 else il_last sl) = i - (if m k = [] then 0 else fst (last (m k)))"
      using cnt(1) here(4) by auto
    have hj: "?hs ! j = il_handle sl" using nth(1) [OF j(1)] here(1) by (simp add: j(2))
    show ?thesis
    proof (rule push_wf [OF wf nth(2) [OF j(1)], of ?w])
      fix old' l' p' assume old: "chunk_iter (ps_pool s) (?hs ! j) = Some old'"
        and push: "chunk_push (ps_pool s) (?hs ! j) ?w = Some (Inr (l', p'))"
        and wf': "chunk_wf p' (?hs[j := l'])" and cfg: "cp_cfg p' = cp_cfg (ps_pool s)"
        and iter: "chunk_iter p' l' = Some (if old' \<noteq> [] \<and> length (last old') + length ?w \<le> CHUNK_PAYLOAD then butlast old' @ [last old' @ ?w] else old' @ [?w])"
        and frame: "\<forall>j' < length ?hs. j' \<noteq> j \<longrightarrow> chunk_iter p' (?hs ! j') = chunk_iter (ps_pool s) (?hs ! j')"
      let ?s = "s\<lparr>ps_pool := p'\<rparr>" and ?u = "stored k l' (length (m k)) i"
      have old': "old' = old" using old hj here(5) by simp
      have run: "posting_push TF junk k i tf s = store_slot junk True ?u ?s"
        using push here cnt hj
        by (simp add: posting_push_def reads_def look chunk_push_at_def put_pool_def panic_if_def and_then_def stored_def delta add.commute cong: if_cong)
      obtain b where b: "store_slot junk True ?u ?s = Some (Inr (), ?s\<lparr>ps_handles := b\<rparr>)" "arena_usable idlist_type b"
        "il_view b = (il_view (ps_handles ?s))(il_key ?u \<mapsto> ?u)"
        using store_slot_present [of ?s ?u sl junk] a here(1) by auto
      then have v: "il_view b = ?v(k \<mapsto> ?u)" by simp
      have "handles_of (il_view b) ks @ lost = ?hs[j := l']"
        using handles_of_update(2) [OF ks(1) j, of ?v ?u] j(1) by (simp add: v list_update_append handles_of_def)
      then have wf2: "chunk_wf p' (handles_of (il_view b) ks @ lost)" using wf' by simp
      have others: "list_rep TF p' sl' (m k')" if v': "?v k' = Some sl'" "k' \<noteq> k" for k' sl'
      proof -
        obtain j' where j': "j' < length ks" "ks ! j' = k'" using hs [of k'] v' by auto
        then have "j' \<noteq> j" using v' j by auto
        then have "chunk_iter p' (il_handle sl') = chunk_iter (ps_pool s) (il_handle sl')"
          using frame nth [OF j'(1)] v' j' by auto
        then show ?thesis using lists [of k'] v' list_rep_frame [of p' sl' "ps_pool s"] by simp
      qed
      have new: "list_rep TF p' ?u (m k @ [?e])"
      proof -
        have e: "entries_loop TF [] (if old' \<noteq> [] \<and> length (last old') + length ?w \<le> CHUNK_PAYLOAD then butlast old' @ [last old' @ ?w] else old' @ [?w])
            0 True = Some (m k @ [?e])"
          using extend_list [OF here(6) asc refl refl] by (simp only: old')
        have "ascending (m k @ [?e])" using ascending_snoc [OF here(2), of ?e] asc by simp
        with iter e room show ?thesis unfolding list_rep_def by (simp del: ascending_simps)
      qed
      have "lists_rep TF (?s\<lparr>ps_handles := b\<rparr>) (m(k := m k @ [?e]))"
        using others new none by (auto simp: lists_rep_def v split: option.splits)
      moreover have "set ks = dom (il_view b)" using ks here(1) by (auto simp: v)
      ultimately have "posting_rep TF (?s\<lparr>ps_handles := b\<rparr>) (m(k := m k @ [?e])) lost"
        using b(2) wf2 ks(1) unfolding posting_rep_def by (intro conjI exI [of _ ks]) simp_all
      then show ?thesis using ok b(1) run by simp
    qed (use refused here hj in \<open>auto simp: posting_push_def reads_def look chunk_push_at_def and_then_def delta\<close>)
  qed
qed

end
