(* ===== verification/Posting_Load.thy ===== *)
theory Posting_Load
  imports Posting_Lists Record_Scan Chunk_Load Arena_Load
begin

text \<open>
  Loading a posting store, \<open>validate_lists\<close> and \<open>load_sections\<close> of \<open>crates/plugmem-core/src/memory/persist.rs\<close>:
  chain walks over one shared bitmap, a full decode of every list, and a count of the chunks no
  list reaches. What the check accepts are the stores that represent a map of ascending lists.
\<close>

section \<open>The check\<close>

text \<open>The entries of one chunk; the loop over \<open>cur\<close>. \<open>count += 1\<close> past \<open>u32::MAX\<close> panics.\<close>

function check_chunk :: "bool \<Rightarrow> bytes \<Rightarrow> u32 \<Rightarrow> u32 \<Rightarrow> bool \<Rightarrow> (core_error + u32 \<times> u32 \<times> bool) option" where
  "check_chunk TF cur cnt hi first =
     (if cur = [] then Some (Inr (cnt, hi, first))
      else case decode_u32 cur of
        None \<Rightarrow> Some (Inl (Corrupt_core ''posting entry is malformed''))
      | Some (delta, used) \<Rightarrow>
          if TF \<and> length cur < used + 1 then Some (Inl (Corrupt_core ''posting entry is malformed''))
          else let entry_len = (if TF then used + 1 else used); cur = drop entry_len cur in
            if \<not> first \<and> delta = 0 then Some (Inl (Corrupt_core ''posting ids are not ascending''))
            else if \<not> first \<and> 2 ^ 32 \<le> unat hi + unat delta then Some (Inl (Corrupt_core ''posting id overflows''))
            else let fid = (if first then delta else hi + delta) in
              if cnt = - 1 then None else check_chunk TF cur (cnt + 1) fid False)"
  by pat_completeness auto
termination
  by (relation "measure (\<lambda>(TF, cur, cnt, hi, first). length cur)") (auto simp: decode_u32_def dest!: decode_used)

declare check_chunk.simps [simp del]

fun check_list :: "bool \<Rightarrow> bytes list \<Rightarrow> u32 \<Rightarrow> u32 \<Rightarrow> bool \<Rightarrow> (core_error + u32 \<times> u32) option" where
  "check_list TF [] cnt hi first = Some (Inr (cnt, hi))"
| "check_list TF (chunk # chunks) cnt hi first =
     (case check_chunk TF chunk cnt hi first of
        None \<Rightarrow> None
      | Some (Inl e) \<Rightarrow> Some (Inl e)
      | Some (Inr (cnt, hi, first)) \<Rightarrow> check_list TF chunks cnt hi first)"

fun check_slots :: "bool \<Rightarrow> chunk_pool \<Rightarrow> idlist_slot list \<Rightarrow> bool list \<Rightarrow> (core_error + bool list) option" where
  "check_slots TF p [] visited = Some (Inr visited)"
| "check_slots TF p (slot # slots) visited =
     (case validate_chain p (il_handle slot) visited of
        (Inl e, _) \<Rightarrow> Some (Inl (Arena_err e))
      | (Inr _, visited) \<Rightarrow>
          (case chunk_iter p (il_handle slot) of
             None \<Rightarrow> None
           | Some chunks \<Rightarrow>
               (case check_list TF chunks 0 0 True of
                  None \<Rightarrow> None
                | Some (Inl e) \<Rightarrow> Some (Inl e)
                | Some (Inr (cnt, hi)) \<Rightarrow>
                    if cnt \<noteq> il_count slot \<or> (cnt > 0 \<and> hi \<noteq> il_last slot)
                    then Some (Inl (Corrupt_core ''posting list disagrees with its handle''))
                    else check_slots TF p slots visited)))"

definition validate_postings :: "bool \<Rightarrow> arena \<Rightarrow> chunk_pool \<Rightarrow> (core_error + unit) option" where
  "validate_postings TF handles p = do {
     slots \<leftarrow> iter_all idlist_type idlist_read handles;
     r \<leftarrow> check_slots TF p slots (replicate (cp_chunks p) False);
     (case r of
        Inl e \<Rightarrow> Some (Inl e)
      | Inr visited \<Rightarrow> do {
          orphans \<leftarrow> orphan_count p visited;
          Some (if orphans \<noteq> 0 then Inl (Corrupt_core ''posting pool has orphan chunks'') else Inr ()) }) }"

definition postings_load_sections ::
  "bool \<Rightarrow> nat \<Rightarrow> nat \<Rightarrow> bytes \<Rightarrow> bytes \<Rightarrow> bytes \<Rightarrow> bytes \<Rightarrow> (core_error + posting_store) option" where
  "postings_load_sections TF shards max_bytes hm hp cm cp =
     (case from_arena (arena_load idlist_type \<lparr>ac_shards = shards, ac_max_bytes = max_bytes, ac_mode = Uniform\<rparr> hm hp) of
        Inl e \<Rightarrow> Some (Inl e)
      | Inr handles \<Rightarrow>
          (case from_arena (chunk_load \<lparr>cc_max_bytes = max_bytes\<rparr> cm cp) of
             Inl e \<Rightarrow> Some (Inl e)
           | Inr p \<Rightarrow>
               (case validate_postings TF handles p of
                  None \<Rightarrow> None
                | Some (Inl e) \<Rightarrow> Some (Inl e)
                | Some (Inr _) \<Rightarrow> Some (Inr \<lparr>ps_handles = handles, ps_pool = p\<rparr>))))"

section \<open>What the check decides\<close>

definition asc_from :: "u32 \<Rightarrow> bool \<Rightarrow> entry list \<Rightarrow> bool" where
  "asc_from hi first es \<longleftrightarrow> ascending es \<and> (first \<or> (\<forall>e \<in> set es. hi < fst e))"

lemma asc_from_simps [simp]:
  "asc_from hi first []"
  "asc_from hi first ((i, tf) # es) \<longleftrightarrow> (first \<or> hi < i) \<and> asc_from i False es"
  by (auto simp: asc_from_def ascending_def intro: less_trans)

lemma asc_from_append:
  "asc_from hi first (xs @ ys) \<longleftrightarrow> asc_from hi first xs \<and> asc_from (last_id hi xs) (first \<and> xs = []) ys"
proof (induction xs arbitrary: hi first)
  case (Cons x xs)
  have "last_id hi (x # xs) = last_id (fst x) xs" by (simp add: last_id_def)
  with Cons show ?case by (cases x) simp
qed (simp add: last_id_def)

lemma last_id_append: "last_id hi (xs @ ys) = last_id (last_id hi xs) ys"
  by (simp add: last_id_def)

lemma entries_step:
  assumes "cur \<noteq> []"
  shows "entries_loop TF cur chunks prev first = (case decode_u32 cur of
      None \<Rightarrow> None
    | Some (delta, used) \<Rightarrow>
        if TF \<and> length cur \<le> used \<or> \<not> first \<and> 2 ^ 32 \<le> unat prev + unat delta then None
        else let i = (if first then delta else prev + delta)
          in map_option ((#) (i, if TF then cur ! used else 1))
              (entries_loop TF (drop (if TF then used + 1 else used) cur) chunks i False))"
  using assms by (subst entries_loop.simps) (simp add: Let_def split: option.split)

lemma entries_split:
  "entries_loop TF cur (c # cs) prev first = do {
     es \<leftarrow> entries_loop TF cur [] prev first;
     es' \<leftarrow> entries_loop TF c cs (last_id prev es) (first \<and> es = []);
     Some (es @ es') }"
proof (induction "length cur" arbitrary: cur prev first rule: less_induct)
  case less
  show ?case
  proof (cases "cur = []")
    case True
    then show ?thesis by (simp add: entries_loop.simps [of TF "[]"] last_id_def split: Option.bind_splits)
  next
    case False
    show ?thesis
    proof (cases "decode_u32 cur")
      case None
      then show ?thesis using False by (simp add: entries_step)
    next
      case (Some r)
      then obtain delta used where d: "decode_u32 cur = Some (delta, used)" by (cases r) auto
      let ?i = "if first then delta else prev + delta" and ?at = "if TF then used + 1 else used"
      have "length (drop ?at cur) < length cur" using decode_length [OF d] by auto
      note IH = less [OF this, of ?i False]
      have "last_id prev ((i, tf) # es) = last_id i es" for i tf es by (simp add: last_id_def)
      then show ?thesis
        unfolding entries_step [OF False] d option.case prod.case Let_def IH
        by (cases "entries_loop TF (drop ?at cur) [] ?i False") (auto simp: map_option_bind map_option_case split: Option.bind_splits)
    qed
  qed
qed

lemma check_chunk_iff:
  "check_chunk TF cur cnt hi first = Some (Inr (c, h, f)) \<longleftrightarrow>
     (\<exists>es. entries_loop TF cur [] hi first = Some es \<and> asc_from hi first es \<and> unat cnt + length es < 2 ^ 32 \<and>
        c = cnt + of_nat (length es) \<and> h = last_id hi es \<and> f = (first \<and> es = []))"
proof (induction "length cur" arbitrary: cur cnt hi first rule: less_induct)
  case less
  show ?case
  proof (cases "cur = []")
    case True
    then show ?thesis using unat_lt_width [of cnt]
      by (auto simp: check_chunk.simps [of TF "[]"] entries_loop.simps [of TF "[]"] last_id_def)
  next
    case False
    show ?thesis
    proof (cases "decode_u32 cur")
      case None
      then show ?thesis using False by (subst check_chunk.simps) (simp add: entries_step)
    next
      case (Some r)
      then obtain delta used where d: "decode_u32 cur = Some (delta, used)" by (cases r) auto
      let ?i = "if first then delta else hi + delta" and ?at = "if TF then used + 1 else used" and ?tf = "if TF then cur ! used else 1"
      let ?go = "\<not> (TF \<and> length cur \<le> used) \<and> (first \<or> delta \<noteq> 0 \<and> unat hi + unat delta < 2 ^ 32)"
      have dec: "length (drop ?at cur) < length cur" using decode_length [OF d] by auto
      have step: "check_chunk TF cur cnt hi first = Some (Inr (c, h, f)) \<longleftrightarrow>
          ?go \<and> cnt \<noteq> - 1 \<and> check_chunk TF (drop ?at cur) (cnt + 1) ?i False = Some (Inr (c, h, f))"
        using False d by (subst check_chunk.simps) (auto simp: Let_def)
      have loop: "entries_loop TF cur [] hi first = (if TF \<and> length cur \<le> used \<or> \<not> first \<and> 2 ^ 32 \<le> unat hi + unat delta then None
          else map_option ((#) (?i, ?tf)) (entries_loop TF (drop ?at cur) [] ?i False))"
        using entries_step [OF False, of TF "[]" hi first] d by (simp add: Let_def)
      have ord: "(first \<or> hi < ?i) \<longleftrightarrow> (first \<or> delta \<noteq> 0)" if "first \<or> unat hi + unat delta < 2 ^ 32"
      proof (cases first)
        case False
        then have "unat (hi + delta) = unat hi + unat delta" using that by (simp add: unat_word_ariths)
        then show ?thesis using False by (auto simp: word_less_nat_alt unat_gt_0)
      qed simp
      have cnt: "cnt \<noteq> - 1 \<and> unat (cnt + 1) + n < 2 ^ 32 \<longleftrightarrow> unat cnt + Suc n < 2 ^ 32" for n
      proof (cases "cnt = - 1")
        case True
        then show ?thesis by (simp add: unsigned_minus_1_eq_mask mask_eq_exp_minus_1)
      next
        case False
        then have "unat (cnt + 1) = unat cnt + 1" by (metis Suc_eq_plus1 unatSuc add.commute add_eq_0_iff2 minus_equation_iff)
        then show ?thesis using False by simp
      qed
      have lid: "last_id hi ((i, tf) # es) = last_id i es" for i tf es by (simp add: last_id_def)
      define i where "i = ?i"
      define tf where "tf = ?tf"
      show ?thesis
      proof (cases "entries_loop TF (drop ?at cur) [] i False")
        case None
        then show ?thesis unfolding step loop less [OF dec] i_def by simp
      next
        case (Some es)
        have "check_chunk TF cur cnt hi first = Some (Inr (c, h, f)) \<longleftrightarrow> ?go \<and> asc_from i False es \<and>
            (cnt \<noteq> - 1 \<and> unat (cnt + 1) + length es < 2 ^ 32) \<and> c = cnt + of_nat (Suc (length es)) \<and> h = last_id i es \<and> \<not> f"
          unfolding step less [OF dec] i_def [symmetric] Some of_nat_Suc add.assoc by simp blast
        also have "\<dots> \<longleftrightarrow> (\<not> (TF \<and> length cur \<le> used \<or> \<not> first \<and> 2 ^ 32 \<le> unat hi + unat delta)) \<and> asc_from hi first ((i, tf) # es) \<and>
            unat cnt + Suc (length es) < 2 ^ 32 \<and> c = cnt + of_nat (Suc (length es)) \<and> h = last_id hi ((i, tf) # es) \<and> \<not> f"
          unfolding cnt lid asc_from_simps(2) using ord [folded i_def] by auto
        also have "\<dots> \<longleftrightarrow> (\<exists>es. entries_loop TF cur [] hi first = Some es \<and> asc_from hi first es \<and> unat cnt + length es < 2 ^ 32 \<and>
            c = cnt + of_nat (length es) \<and> h = last_id hi es \<and> f = (first \<and> es = []))"
          unfolding loop [folded i_def tf_def] Some by auto
        finally show ?thesis .
      qed
    qed
  qed
qed

lemma check_list_iff:
  "check_list TF chunks cnt hi first = Some (Inr (c, h)) \<longleftrightarrow>
     (\<exists>es. entries_loop TF [] chunks hi first = Some es \<and> asc_from hi first es \<and> unat cnt + length es < 2 ^ 32 \<and>
        c = cnt + of_nat (length es) \<and> h = last_id hi es)"
proof (induction chunks arbitrary: cnt hi first)
  case Nil
  then show ?case using unat_lt_width [of cnt] by (auto simp: entries_loop.simps [of TF "[]"] last_id_def)
next
  case (Cons chunk chunks)
  have skip: "entries_loop TF [] (x # xs) hi first = entries_loop TF x xs hi first" for x xs by (subst entries_loop.simps) simp
  have whole: "entries_loop TF chunk chunks hi first = (case chunks of [] \<Rightarrow> entries_loop TF chunk [] hi first | c # cs \<Rightarrow>
      entries_loop TF chunk (c # cs) hi first)" by (cases chunks) simp_all
  have split: "entries_loop TF [] (chunk # chunks) hi first = do {
      es \<leftarrow> entries_loop TF chunk [] hi first; es' \<leftarrow> entries_loop TF [] chunks (last_id hi es) (first \<and> es = []); Some (es @ es') }"
  proof (cases chunks)
    case Nil
    then show ?thesis by (simp add: skip entries_loop.simps [of TF "[]" "[]"])
  next
    case (Cons c cs)
    have skips: "entries_loop TF [] (x # xs) p b = entries_loop TF x xs p b" for x xs p b by (subst entries_loop.simps) simp
    show ?thesis unfolding Cons skips by (simp only: entries_split)
  qed
  have "check_list TF (chunk # chunks) cnt hi first = Some (Inr (c, h)) \<longleftrightarrow>
      (\<exists>c' h' f'. check_chunk TF chunk cnt hi first = Some (Inr (c', h', f')) \<and> check_list TF chunks c' h' f' = Some (Inr (c, h)))"
    by (auto split: option.splits sum.splits)
  also have "\<dots> \<longleftrightarrow> (\<exists>es es'. entries_loop TF chunk [] hi first = Some es \<and> asc_from hi first es \<and> unat cnt + length es < 2 ^ 32 \<and>
      entries_loop TF [] chunks (last_id hi es) (first \<and> es = []) = Some es' \<and> asc_from (last_id hi es) (first \<and> es = []) es' \<and>
      unat (cnt + of_nat (length es)) + length es' < 2 ^ 32 \<and> c = cnt + of_nat (length es) + of_nat (length es') \<and> h = last_id (last_id hi es) es')"
    unfolding check_chunk_iff Cons.IH by blast
  also have "\<dots> \<longleftrightarrow> (\<exists>es es'. entries_loop TF chunk [] hi first = Some es \<and>
      entries_loop TF [] chunks (last_id hi es) (first \<and> es = []) = Some es' \<and> asc_from hi first (es @ es') \<and>
      unat cnt + length (es @ es') < 2 ^ 32 \<and> c = cnt + of_nat (length (es @ es')) \<and> h = last_id hi (es @ es'))"
  proof -
    have "unat cnt + n < 2 ^ 32 \<Longrightarrow> unat (cnt + of_nat n) = unat cnt + n" for n
      by (simp add: unat_word_ariths unat_of_nat)
    then have "unat cnt + n < 2 ^ 32 \<and> unat (cnt + of_nat n) + n' < 2 ^ 32 \<longleftrightarrow> unat cnt + (n + n') < 2 ^ 32" for n n'
      by (metis add.assoc add_lessD1)
    then show ?thesis unfolding asc_from_append last_id_append length_append of_nat_add add.assoc by blast
  qed
  also have "\<dots> \<longleftrightarrow> (\<exists>es. entries_loop TF [] (chunk # chunks) hi first = Some es \<and> asc_from hi first es \<and> unat cnt + length es < 2 ^ 32 \<and>
        c = cnt + of_nat (length es) \<and> h = last_id hi es)"
    unfolding split by (auto simp: bind_eq_Some_conv)
  finally show ?case .
qed

lemma check_list_rep:
  assumes "chunk_iter p (il_handle slot) = Some chunks"
  shows "(\<exists>cnt hi. check_list TF chunks 0 0 True = Some (Inr (cnt, hi)) \<and> cnt = il_count slot \<and> (cnt > 0 \<longrightarrow> hi = il_last slot)) \<longleftrightarrow>
    (\<exists>es. list_rep TF p slot es)"
proof
  assume "\<exists>cnt hi. check_list TF chunks 0 0 True = Some (Inr (cnt, hi)) \<and> cnt = il_count slot \<and> (cnt > 0 \<longrightarrow> hi = il_last slot)"
  then obtain hi where c: "check_list TF chunks 0 0 True = Some (Inr (il_count slot, hi))" "il_count slot > 0 \<longrightarrow> hi = il_last slot" by blast
  then obtain es where es: "entries_loop TF [] chunks 0 True = Some es" "asc_from 0 True es" "length es < 2 ^ 32"
    "il_count slot = of_nat (length es)" "hi = last_id 0 es" by (auto simp: check_list_iff)
  then have n: "unat (il_count slot) = length es" by (simp add: unat_of_nat)
  moreover have "es \<noteq> [] \<longrightarrow> il_last slot = fst (last es)"
    using c(2) es(5) n by (auto simp: last_id_def word_less_nat_alt)
  ultimately have "list_rep TF p slot es" using es assms by (auto simp: list_rep_def asc_from_def)
  then show "\<exists>es. list_rep TF p slot es" by blast
next
  assume "\<exists>es. list_rep TF p slot es"
  then obtain es where es: "ascending es" "unat (il_count slot) = length es" "es \<noteq> [] \<longrightarrow> il_last slot = fst (last es)"
    "entries_loop TF [] chunks 0 True = Some es" using assms by (auto simp: list_rep_def)
  have n: "il_count slot = of_nat (length es)" "length es < 2 ^ 32"
    using es(2) unat_lt_width [of "il_count slot"] by (simp_all add: word_unat_eq_iff unat_of_nat flip: es(2))
  have "check_list TF chunks 0 0 True = Some (Inr (il_count slot, last_id 0 es))"
    unfolding check_list_iff using es n by (intro exI [of _ es]) (simp add: asc_from_def)
  moreover have "il_count slot > 0 \<longrightarrow> last_id 0 es = il_last slot" using es(2,3) by (auto simp: last_id_def word_less_nat_alt)
  ultimately show "\<exists>cnt hi. check_list TF chunks 0 0 True = Some (Inr (cnt, hi)) \<and> cnt = il_count slot \<and> (cnt > 0 \<longrightarrow> hi = il_last slot)"
    by blast
qed

lemma check_slots_iff:
  "check_slots TF p slots seen = Some (Inr seen') \<longleftrightarrow>
     validate_lists p (map il_handle slots) seen = (Inr (), seen') \<and> (\<forall>slot \<in> set slots. \<exists>es. list_rep TF p slot es)"
proof (induction slots arbitrary: seen)
  case (Cons slot slots)
  show ?case
  proof (cases "\<exists>s1. validate_chain p (il_handle slot) seen = (Inr (), s1)")
    case False
    then have "\<exists>e s1. validate_chain p (il_handle slot) seen = (Inl e, s1)"
      by (metis old.unit.exhaust prod.exhaust sum.exhaust)
    then show ?thesis by auto
  next
    case True
    then obtain s1 where s1: "validate_chain p (il_handle slot) seen = (Inr (), s1)" by blast
    show ?thesis
    proof (cases "chunk_iter p (il_handle slot)")
      case None
      then show ?thesis using s1 by (auto simp: list_rep_def)
    next
      case (Some chunks)
      have "check_slots TF p (slot # slots) seen = Some (Inr seen') \<longleftrightarrow>
          (\<exists>cnt hi. check_list TF chunks 0 0 True = Some (Inr (cnt, hi)) \<and> cnt = il_count slot \<and> (cnt > 0 \<longrightarrow> hi = il_last slot)) \<and>
          check_slots TF p slots s1 = Some (Inr seen')"
        using s1 Some by (auto split: option.splits sum.splits)
      then show ?thesis using s1 unfolding check_list_rep [OF Some] Cons.IH by auto
    qed
  qed
qed simp

text \<open>The handles the check visits are those of the representation.\<close>

lemma slots_handles:
  assumes u: "arena_inv idlist_type h"
  obtains slots where "iter_all idlist_type idlist_read h = Some slots" "distinct (map il_key slots)"
    "set (map il_key slots) = dom (il_view h)" "map il_handle slots = handles_of (il_view h) (map il_key slots)"
    "\<And>k sl. il_view h k = Some sl \<longleftrightarrow> sl \<in> set slots \<and> il_key sl = k"
proof (rule il_arena.iter_view [OF u])
  fix rs assume rs: "iter_all idlist_type idlist_read h = Some rs" "distinct (map il_key rs)" "il_key ` set rs = dom (il_view h)"
    and mem: "\<And>r. (r \<in> set rs) = (il_view h (il_key r) = Some r)"
  have "map il_handle rs = handles_of (il_view h) (map il_key rs)" using mem by (auto simp: handles_of_def)
  moreover have "il_view h k = Some sl \<longleftrightarrow> sl \<in> set rs \<and> il_key sl = k" for k sl
    using mem [of sl] il_arena.view_key [OF u, of k sl] by auto
  ultimately show ?thesis using that [OF rs(1,2)] rs(3) by simp
qed

lemma same_handles:
  "distinct ks \<Longrightarrow> distinct ks' \<Longrightarrow> set ks = set ks' \<Longrightarrow> mset (handles_of v ks) = mset (handles_of v ks')"
proof -
  assume "distinct ks" "distinct ks'" "set ks = set ks'"
  then have "mset ks = mset ks'" using set_eq_iff_mset_eq_distinct by blast
  then show ?thesis by (simp add: handles_of_def)
qed

lemma rep_slots:
  assumes "arena_usable idlist_type (ps_handles s)" and "iter_all idlist_type idlist_read (ps_handles s) = Some slots"
  shows "posting_rep TF s m lost \<longleftrightarrow> chunk_wf (ps_pool s) (map il_handle slots @ lost) \<and> lists_rep TF s m"
proof -
  have u: "arena_inv idlist_type (ps_handles s)" using assms(1) by (simp add: arena_usable_def)
  obtain sl where sl: "iter_all idlist_type idlist_read (ps_handles s) = Some sl" "distinct (map il_key sl)"
    "set (map il_key sl) = dom (il_view (ps_handles s))" "map il_handle sl = handles_of (il_view (ps_handles s)) (map il_key sl)"
    by (rule slots_handles [OF u]) (rule that; assumption)
  have e: "sl = slots" using sl(1) assms(2) by simp
  have "chunk_wf (ps_pool s) (handles_of (il_view (ps_handles s)) ks @ lost) \<longleftrightarrow> chunk_wf (ps_pool s) (map il_handle slots @ lost)"
    if "distinct ks" "set ks = dom (il_view (ps_handles s))" for ks
  proof -
    have m: "mset (handles_of (il_view (ps_handles s)) ks) = mset (map il_handle slots)"
      using same_handles [OF that(1) sl(2)] that(2) sl(3,4) e by simp
    then have m: "mset (handles_of (il_view (ps_handles s)) ks @ lost) = mset (map il_handle slots @ lost)" by simp
    show ?thesis using wf_reorder [OF _ m] wf_reorder [OF _ m [symmetric]] by blast
  qed
  moreover have "\<exists>ks. distinct ks \<and> set ks = dom (il_view (ps_handles s))" using sl(2,3) by blast
  ultimately show ?thesis using assms(1) unfolding posting_rep_def by blast
qed

end
