(* ===== verification/Bm25_Index.thy ===== *)
theory Bm25_Index
  imports Tally Posting_Load
begin

unbundle bit_operations_syntax

text \<open>
  The state of the lexical index, \<open>crates/plugmem-core/src/index/bm25.rs\<close>: postings with term
  frequencies, the arena of document records with their term-set signatures, and the flat length
  index derived from it. Indexing, the flat index, its rebuild, compaction and the length lookup of
  the scorer are modelled; the scores themselves are floating-point sums and are not.
  Documents are read from the arena in its iteration order.
\<close>

section \<open>Effects on a part of a state\<close>

definition zoom :: "('s \<Rightarrow> 'c) \<Rightarrow> ('c \<Rightarrow> 's \<Rightarrow> 's) \<Rightarrow> ('c, 'a) effect \<Rightarrow> ('s, 'a) effect" where
  "zoom get put f s = map_option (\<lambda>(r, c). (r, put c s)) (f (get s))"

lemma zoom_simps [simp]:
  "f (get s) = None \<Longrightarrow> zoom get put f s = None"
  "f (get s) = Some (r, c) \<Longrightarrow> zoom get put f s = Some (r, put c s)"
  by (simp_all add: zoom_def)

text \<open>A loop over a list whose body may fail.\<close>

fun for_each :: "'a list \<Rightarrow> ('a \<Rightarrow> ('s, unit) effect) \<Rightarrow> ('s, unit) effect" where
  "for_each [] body = done_with ()"
| "for_each (x # xs) body = and_then (body x) (\<lambda>_. for_each xs body)"

section \<open>Document records\<close>

definition sig_bit :: "u32 \<Rightarrow> u64" where
  "sig_bit t = push_bit (unat (drop_bit 58 (ucast t * FIB_MULT :: u64))) 1"

record doc_len_slot =
  dl_fact :: fact_id
  dl_len :: u16
  dl_distinct :: u16
  dl_sig :: u64

definition doc_len_type :: slot_type where
  "doc_len_type = \<lparr>SIZE = 16, KEY_LEN = 4\<rparr>"

definition doc_len_write :: "doc_len_slot \<Rightarrow> bytes \<Rightarrow> bytes option" where
  "doc_len_write r out = do {
     out \<leftarrow> write_u32 (dl_fact r) out;
     out \<leftarrow> put_range 4 6 (u16_be (dl_len r)) out;
     out \<leftarrow> put_range 6 8 (u16_be (dl_distinct r)) out;
     put_range 8 16 (u64_be (dl_sig r)) out }"

definition doc_len_read :: "bytes \<Rightarrow> doc_len_slot option" where
  "doc_len_read bs = do {
     v_fact \<leftarrow> read_u32 bs;
     v_len \<leftarrow> map_option u16_of_be (get_range 4 6 bs);
     v_distinct \<leftarrow> map_option u16_of_be (get_range 6 8 bs);
     v_sig \<leftarrow> map_option u64_of_be (get_range 8 16 bs);
     Some \<lparr>dl_fact = v_fact, dl_len = v_len, dl_distinct = v_distinct, dl_sig = v_sig\<rparr> }"

definition doc_len_image :: "doc_len_slot \<Rightarrow> bytes" where
  "doc_len_image r = u32_be (dl_fact r) @ u16_be (dl_len r) @ u16_be (dl_distinct r) @ u64_be (dl_sig r)"

interpretation dl_codec: slot_codec doc_len_type doc_len_write doc_len_read doc_len_image
  by unfold_locales (simp_all add: doc_len_type_def doc_len_write_def doc_len_read_def doc_len_image_def codec_simps)

interpretation dl_arena: record_arena doc_len_type doc_len_write doc_len_read doc_len_image dl_fact id_key
  by unfold_locales (simp_all add: doc_len_type_def doc_len_image_def slot_key_def key_defs)

abbreviation dl_view :: "arena \<Rightarrow> u32 \<Rightarrow> doc_len_slot option" where
  "dl_view \<equiv> rview doc_len_type doc_len_read id_key"

definition has_signature :: "doc_len_slot \<Rightarrow> bool" where
  "has_signature d \<longleftrightarrow> dl_distinct d \<noteq> 0"

definition overlap_bound :: "doc_len_slot \<Rightarrow> u32 list \<Rightarrow> nat" where
  "overlap_bound d ts = length (filter (\<lambda>t. dl_sig d AND sig_bit t \<noteq> 0) ts)"

section \<open>The index\<close>

definition DOC_LEN_ABSENT :: u32 where
  "DOC_LEN_ABSENT = - 1"

definition DENSE_SLACK :: nat where
  "DENSE_SLACK = 8"

record bm25_index =
  bm_postings :: posting_store
  bm_doc_len :: arena
  bm_total_docs :: u64
  bm_total_len :: u64
  bm_unsummarized :: bool
  bm_dense :: "u32 list"
  bm_dense_limit :: nat

definition put_postings :: "posting_store \<Rightarrow> bm25_index \<Rightarrow> bm25_index" where
  "put_postings p s = s\<lparr>bm_postings := p\<rparr>"

definition put_doc_len :: "arena \<Rightarrow> bm25_index \<Rightarrow> bm25_index" where
  "put_doc_len a s = s\<lparr>bm_doc_len := a\<rparr>"

definition bm25_new :: "nat \<Rightarrow> nat \<Rightarrow> core_error + bm25_index" where
  "bm25_new shards ceiling =
     try_res (postings_new shards ceiling) (\<lambda>p.
     try_res (from_arena (arena_new doc_len_type \<lparr>ac_shards = shards, ac_max_bytes = ceiling, ac_mode = Uniform\<rparr>)) (\<lambda>d.
       Inr \<lparr>bm_postings = p, bm_doc_len = d, bm_total_docs = 0, bm_total_len = 0, bm_unsummarized = False,
         bm_dense = [], bm_dense_limit = usize_max\<rparr>))"

definition dense_capacity :: "bm25_index \<Rightarrow> nat" where
  "dense_capacity s = min usize_max (min usize_max (unat (bm_total_docs s) + 1) * DENSE_SLACK)"

definition note_dense :: "doc_len_slot \<Rightarrow> bm25_index \<Rightarrow> bm25_index" where
  "note_dense doc s =
     (let at = unat (dl_fact doc) in
      if dense_capacity s \<le> at then s\<lparr>bm_dense_limit := min (bm_dense_limit s) at\<rparr>
      else let dense = (if length (bm_dense s) \<le> at
               then bm_dense s @ replicate (at + 1 - length (bm_dense s)) DOC_LEN_ABSENT else bm_dense s)
           in s\<lparr>bm_dense := dense[at := ucast (dl_len doc)]\<rparr>)"

text \<open>The loop of \<open>index_doc\<close>: the terms' postings, with the length and the signature so far.\<close>

fun push_terms :: "bytes \<Rightarrow> fact_id \<Rightarrow> (u32 \<times> u8) list \<Rightarrow> u32 \<times> u64 \<Rightarrow> (bm25_index, u32 \<times> u64) effect" where
  "push_terms junk fid [] acc = done_with acc"
| "push_terms junk fid ((t, tf) # rest) (len, sig) =
     and_then (zoom bm_postings put_postings (posting_push True junk t fid tf)) (\<lambda>_.
     and_then (panic_if (\<lambda>_. 2 ^ 32 \<le> unat len + unat tf)) (\<lambda>_.
       push_terms junk fid rest (len + ucast tf, sig OR sig_bit t)))"

text \<open>\<open>u16::try_from(_).unwrap_or(u16::MAX)\<close>.\<close>

definition clamp_u16 :: "nat \<Rightarrow> u16" where
  "clamp_u16 n = (if n < 2 ^ 16 then of_nat n else - 1)"

definition index_doc :: "(nat \<Rightarrow> bytes) \<Rightarrow> fact_id \<Rightarrow> (u32 \<times> u8) list \<Rightarrow> (bm25_index, unit) effect" where
  "index_doc junk fid term_tfs =
     and_then (push_terms (junk 4) fid term_tfs (0, 0)) (\<lambda>(len, sig).
       let doc = \<lparr>dl_fact = fid, dl_len = clamp_u16 (unat len), dl_distinct = clamp_u16 (length term_tfs), dl_sig = sig\<rparr> in
       and_then (insert_at bm_doc_len put_doc_len doc_len_type doc_len_write (junk 5) doc) (\<lambda>_.
       and_then (modify (note_dense doc)) (\<lambda>_.
       and_then (panic_if (\<lambda>s. bm_total_docs s = - 1)) (\<lambda>_.
       and_then (modify (\<lambda>s. s\<lparr>bm_total_docs := bm_total_docs s + 1\<rparr>)) (\<lambda>_.
       and_then (panic_if (\<lambda>s. 2 ^ 64 \<le> unat (bm_total_len s) + unat len)) (\<lambda>_.
         modify (\<lambda>s. s\<lparr>bm_total_len := bm_total_len s + ucast len\<rparr>)))))))"

section \<open>The flat length index\<close>

definition rebuild_limit :: "nat \<Rightarrow> doc_len_slot list \<Rightarrow> nat \<times> nat" where
  "rebuild_limit cap docs = fold (\<lambda>d (limit, reach). let at = unat (dl_fact d) in
     if cap \<le> at then (min limit at, reach) else (limit, max reach (at + 1))) docs (usize_max, 0)"

definition rebuild_fill :: "nat \<Rightarrow> doc_len_slot list \<Rightarrow> u32 list \<Rightarrow> u32 list" where
  "rebuild_fill cap docs dense = fold (\<lambda>d dense. let at = unat (dl_fact d) in
     if at < cap then dense[at := ucast (dl_len d)] else dense) docs dense"

definition rebuild_dense :: "bm25_index \<Rightarrow> bm25_index option" where
  "rebuild_dense s = do {
     docs \<leftarrow> iter_all doc_len_type doc_len_read (bm_doc_len s);
     let (limit, reach) = rebuild_limit (dense_capacity s) docs;
     Some (s\<lparr>bm_dense := rebuild_fill (dense_capacity s) docs (replicate reach DOC_LEN_ABSENT), bm_dense_limit := limit\<rparr>) }"

definition bm25_doc :: "bm25_index \<Rightarrow> fact_id \<Rightarrow> doc_len_slot option option" where
  "bm25_doc s fid = arena_get doc_len_type doc_len_read (bm_doc_len s) (u32_be fid)"

definition doc_len_of :: "bm25_index \<Rightarrow> fact_id \<Rightarrow> u16 option option" where
  "doc_len_of s fid =
     (let at = unat fid in
      if at < bm_dense_limit s \<and> at < length (bm_dense s)
      then Some (if bm_dense s ! at \<noteq> DOC_LEN_ABSENT then Some (ucast (bm_dense s ! at)) else None)
      else map_option (map_option dl_len) (bm25_doc s fid))"

definition bm25_df :: "bm25_index \<Rightarrow> u32 \<Rightarrow> u32 option" where
  "bm25_df s t = posting_count (bm_postings s) t"

definition bm25_pool_bytes :: "bm25_index \<Rightarrow> nat" where
  "bm25_pool_bytes s = posting_pool_bytes (bm_postings s) + arena_pool_bytes (bm_doc_len s)"

definition bm25_from_parts :: "posting_store \<Rightarrow> arena \<Rightarrow> u64 \<Rightarrow> u64 \<Rightarrow> bm25_index option" where
  "bm25_from_parts p d total_docs total_len =
     rebuild_dense \<lparr>bm_postings = p, bm_doc_len = d, bm_total_docs = total_docs, bm_total_len = total_len,
       bm_unsummarized = False, bm_dense = [], bm_dense_limit = usize_max\<rparr>"

section \<open>Compaction\<close>

text \<open>The first loop of \<open>compact_live\<close>: live documents, the count of those without a signature and their largest id.\<close>

fun keep_docs :: "bytes \<Rightarrow> (fact_id \<Rightarrow> bool) \<Rightarrow> doc_len_slot list \<Rightarrow> nat \<times> u32 \<Rightarrow> (bm25_index, nat \<times> u32) effect" where
  "keep_docs junk live [] acc = done_with acc"
| "keep_docs junk live (d # ds) (legacy, max_fact) =
     (if live (dl_fact d) then
        and_then (insert_at bm_doc_len put_doc_len doc_len_type doc_len_write junk d) (\<lambda>_.
        and_then (panic_if (\<lambda>s. bm_total_docs s = - 1)) (\<lambda>_.
        and_then (modify (\<lambda>s. s\<lparr>bm_total_docs := bm_total_docs s + 1\<rparr>)) (\<lambda>_.
        and_then (panic_if (\<lambda>s. 2 ^ 64 \<le> unat (bm_total_len s) + unat (dl_len d))) (\<lambda>_.
        and_then (modify (\<lambda>s. s\<lparr>bm_total_len := bm_total_len s + ucast (dl_len d)\<rparr>)) (\<lambda>_.
          keep_docs junk live ds (if has_signature d then (legacy, max_fact) else (legacy + 1, max max_fact (dl_fact d))))))))
      else keep_docs junk live ds (legacy, max_fact))"

text \<open>
  The postings of one list: the live entries, with the signatures transposed on the way. A list is
  decoded as a whole before its entries are pushed.
\<close>

fun keep_entries :: "bytes \<Rightarrow> (fact_id \<Rightarrow> bool) \<Rightarrow> u32 \<Rightarrow> (fact_id \<times> u8) list \<Rightarrow> (u64 \<times> u16) list \<Rightarrow> (bm25_index, (u64 \<times> u16) list) effect" where
  "keep_entries junk live k [] rebuilt = done_with rebuilt"
| "keep_entries junk live k ((fid, tf) # es) rebuilt =
     (if \<not> live fid then keep_entries junk live k es rebuilt
      else and_then (zoom bm_postings put_postings (posting_push True junk k fid tf)) (\<lambda>_.
        keep_entries junk live k es
          (let i = unat fid in
           if i < length rebuilt
           then rebuilt[i := (fst (rebuilt ! i) OR sig_bit k, saturating_succ (snd (rebuilt ! i)))] else rebuilt)))"

fun keep_lists :: "bytes \<Rightarrow> (fact_id \<Rightarrow> bool) \<Rightarrow> posting_store \<Rightarrow> idlist_slot list \<Rightarrow> (u64 \<times> u16) list \<Rightarrow> (bm25_index, (u64 \<times> u16) list) effect" where
  "keep_lists junk live src [] rebuilt = done_with rebuilt"
| "keep_lists junk live src (slot # slots) rebuilt =
     and_then (need (posting_entries True src (il_key slot))) (\<lambda>es.
     and_then (keep_entries junk live (il_key slot) es rebuilt) (\<lambda>rebuilt.
       keep_lists junk live src slots rebuilt))"

fun fill_stale :: "doc_len_slot list \<Rightarrow> (u64 \<times> u16) list \<Rightarrow> arena \<Rightarrow> arena option" where
  "fill_stale [] rebuilt a = Some a"
| "fill_stale (d # ds) rebuilt a =
     (let i = unat (dl_fact d) in
      if length rebuilt \<le> i \<or> snd (rebuilt ! i) = 0 then fill_stale ds rebuilt a
      else do {
        full \<leftarrow> doc_len_write (d\<lparr>dl_sig := fst (rebuilt ! i), dl_distinct := snd (rebuilt ! i)\<rparr>) (replicate (SIZE doc_len_type) 0);
        r \<leftarrow> arena_payload_mut doc_len_type (\<lambda>_. drop (KEY_LEN doc_len_type) full) a (u32_be (dl_fact d));
        fill_stale ds rebuilt (case r of None \<Rightarrow> a | Some b \<Rightarrow> b) })"

definition fill_missing_signatures :: "(u64 \<times> u16) list \<Rightarrow> bm25_index \<Rightarrow> bm25_index option" where
  "fill_missing_signatures rebuilt s = do {
     docs \<leftarrow> iter_all doc_len_type doc_len_read (bm_doc_len s);
     a \<leftarrow> fill_stale (filter (\<lambda>d. \<not> has_signature d) docs) rebuilt (bm_doc_len s);
     Some (s\<lparr>bm_doc_len := a\<rparr>) }"

text \<open>The compacted index is the state of the effect; the source is only read.\<close>

definition compact_live :: "(nat \<Rightarrow> bytes) \<Rightarrow> nat \<Rightarrow> nat \<Rightarrow> (fact_id \<Rightarrow> bool) \<Rightarrow> bm25_index \<Rightarrow> (core_error + bm25_index) option" where
  "compact_live junk shards ceiling live src =
     (case bm25_new shards ceiling of
        Inl e \<Rightarrow> Some (Inl e)
      | Inr out \<Rightarrow> do {
          docs \<leftarrow> iter_all doc_len_type doc_len_read (bm_doc_len src);
          slots \<leftarrow> iter_all idlist_type idlist_read (ps_handles (bm_postings src));
          (r, out) \<leftarrow> and_then (keep_docs (junk 5) live docs (0, 0)) (\<lambda>(legacy, max_fact).
            and_then (reads (\<lambda>s. Some (dense_capacity s))) (\<lambda>cap.
              keep_lists (junk 4) live (bm_postings src) slots
                (if 0 < legacy \<and> unat max_fact < cap then replicate (unat max_fact + 1) (0, 0) else []))) out;
          (case r of
             Inl e \<Rightarrow> Some (Inl e)
           | Inr rebuilt \<Rightarrow> do {
               out \<leftarrow> (if rebuilt \<noteq> [] then fill_missing_signatures rebuilt out else Some out);
               map_option Inr (rebuild_dense out) }) })"

end
