(* ===== verification/Vec_Pool.thy ===== *)
theory Vec_Pool
  imports Record_Arena Config
begin

unbundle bit_operations_syntax

text \<open>
  The flat pool of quantised vectors, \<open>crates/plugmem-core/src/index/vecpool.rs\<close>: slots of a fixed
  stride over a borrowed base and an owned tail, appending (with the rollback of a refused vector),
  cloning a slot for a retagged fact, the framing check of the loaders and the structural check of
  \<open>validate\<close>. Single-precision arithmetic and \<open>libm\<close> are the parameter \<open>ops\<close>; an \<open>f32\<close> is its bit
  pattern. The quantised cosine is in \<open>Similar\<close>; the searches are floating-point rankings and are not modelled.
\<close>

record f32_ops =
  fl_add :: "f32 \<Rightarrow> f32 \<Rightarrow> f32"
  fl_mul :: "f32 \<Rightarrow> f32 \<Rightarrow> f32"
  fl_div :: "f32 \<Rightarrow> f32 \<Rightarrow> f32"
  fl_max :: "f32 \<Rightarrow> f32 \<Rightarrow> f32"
  fl_sqrt :: "f32 \<Rightarrow> f32"
  fl_abs :: "f32 \<Rightarrow> f32"
  fl_round_i8 :: "f32 \<Rightarrow> u8"
  fl_of_int :: "int \<Rightarrow> f32"

text \<open>\<open>fl_round_i8 x\<close> is \<open>roundf(x).clamp(-127.0, 127.0) as i32 as i8 as u8\<close>, \<open>fl_of_int\<close> the conversion of an integer; 1.0 and 127.0 by their bits.\<close>

definition F32_ONE :: f32 where "F32_ONE = 0x3F800000"

definition F32_127 :: f32 where "F32_127 = 0x42FE0000"

definition FACT_BYTES :: nat where "FACT_BYTES = 4"

definition HEAD :: nat where "HEAD = 8"

definition SIG_WORD_BYTES :: nat where "SIG_WORD_BYTES = 8"

record vec_pool =
  vp_base :: bytes
  vp_tail :: bytes
  vp_dim :: nat
  vp_max_bytes :: nat

definition sig_words :: "nat \<Rightarrow> nat" where
  "sig_words dim = (dim + 63) div 64"

definition vecs_new :: "nat \<Rightarrow> nat \<Rightarrow> vec_pool" where
  "vecs_new dim ceiling = \<lparr>vp_base = [], vp_tail = [], vp_dim = dim, vp_max_bytes = ceiling\<rparr>"

definition vec_stride :: "nat \<Rightarrow> nat" where
  "vec_stride dim = HEAD + sig_words dim * SIG_WORD_BYTES + dim"

definition vecs_pool_len :: "vec_pool \<Rightarrow> nat" where
  "vecs_pool_len p = length (vp_base p) + length (vp_tail p)"

text \<open>A range out of bounds of \<open>base\<close> or \<open>tail\<close> panics.\<close>

definition slot_bytes :: "vec_pool \<Rightarrow> nat \<Rightarrow> bytes option" where
  "slot_bytes p i =
     (let stride = vec_stride (vp_dim p); start = i * stride in
      if start < length (vp_base p)
      then (if start + stride \<le> length (vp_base p) then Some (slice (vp_base p) start (start + stride)) else None)
      else let at = start - length (vp_base p) in
        if at + stride \<le> length (vp_tail p) then Some (slice (vp_tail p) at (at + stride)) else None)"

definition vecs_len :: "vec_pool \<Rightarrow> nat" where
  "vecs_len p = (if vecs_pool_len p = 0 then 0 else vecs_pool_len p div vec_stride (vp_dim p))"

definition vecs_is_empty :: "vec_pool \<Rightarrow> bool" where
  "vecs_is_empty p \<longleftrightarrow> vecs_pool_len p = 0"

definition slot_fact :: "vec_pool \<Rightarrow> nat \<Rightarrow> fact_id option" where
  "slot_fact p i = map_option (\<lambda>s. u32_of_le (slice s 0 FACT_BYTES)) (slot_bytes p i)"

definition slot_scale :: "vec_pool \<Rightarrow> nat \<Rightarrow> f32 option" where
  "slot_scale p i = map_option (\<lambda>s. u32_of_le (slice s FACT_BYTES HEAD)) (slot_bytes p i)"

section \<open>Quantisation\<close>

text \<open>The sum of squares, unless a component is not finite.\<close>

fun norm_square :: "f32_ops \<Rightarrow> f32 list \<Rightarrow> f32 \<Rightarrow> f32 option" where
  "norm_square ops [] acc = Some acc"
| "norm_square ops (x # xs) acc = (if \<not> f32_is_finite x then None else norm_square ops xs (fl_add ops acc (fl_mul ops x x)))"

definition sign_word :: "nat \<Rightarrow> bytes \<Rightarrow> nat \<Rightarrow> u64" where
  "sign_word dim q w = foldl (\<lambda>word b. if w * 64 + b < dim \<and> q ! (w * 64 + b) < 128 then word OR push_bit b 1 else word) 0 [0..<64]"

definition slot_image :: "nat \<Rightarrow> fact_id \<Rightarrow> f32 \<Rightarrow> bytes \<Rightarrow> bytes" where
  "slot_image dim fid scale q = u32_le fid @ u32_le scale @ concat (map (\<lambda>w. u64_le (sign_word dim q w)) [0..<sig_words dim]) @ q"

text \<open>\<open>norm <= 0.0\<close> is false of a NaN.\<close>

definition encode_slot :: "f32_ops \<Rightarrow> nat \<Rightarrow> fact_id \<Rightarrow> f32 list \<Rightarrow> core_error + bytes" where
  "encode_slot ops dim fid v =
     (if length v \<noteq> dim then Inl (DimMismatch (length v) dim)
      else case norm_square ops v 0 of
        None \<Rightarrow> Inl (Invalid ''vector must be finite'')
      | Some norm_sq \<Rightarrow>
          let norm = fl_sqrt ops norm_sq in
          if \<not> f32_gt_0 norm \<and> \<not> f32_is_nan norm then Inl (Invalid ''vector must be nonzero'')
          else
            let inv_norm = fl_div ops F32_ONE norm;
                max_abs = foldl (\<lambda>m x. fl_max ops m (fl_abs ops (fl_mul ops x inv_norm))) 0 v;
                scale = fl_div ops max_abs F32_127
            in Inr (slot_image dim fid scale (map (\<lambda>x. fl_round_i8 ops (fl_div ops (fl_mul ops x inv_norm) scale)) v)))"

section \<open>Appending\<close>

text \<open>The tail grows by a zeroed slot that \<open>encode_slot\<close> fills; a refused vector is truncated away again.\<close>

definition vecs_push :: "f32_ops \<Rightarrow> fact_id \<Rightarrow> f32 list \<Rightarrow> (vec_pool, u32) effect" where
  "vecs_push ops fid v p =
     (let stride = vec_stride (vp_dim p); n = vecs_pool_len p in
      if vp_max_bytes p < n + stride then Some (Inl (CapacityExceeded_core ''vectors''), p)
      else if 2 ^ 32 \<le> n div stride then Some (Inl (CapacityExceeded_core ''vector slots''), p)
      else
        let at = length (vp_tail p); tail = vp_tail p @ replicate stride 0 in
        case encode_slot ops (vp_dim p) fid v of
          Inr slot \<Rightarrow> Some (Inr (of_nat (n div stride)), p\<lparr>vp_tail := splice tail at slot\<rparr>)
        | Inl e \<Rightarrow> Some (Inl e, p\<lparr>vp_tail := take at tail\<rparr>))"

text \<open>\<open>copy_within\<close> panics on a range past the end; the slot checked to exist is inside.\<close>

definition clone_slot_for_fact :: "fact_id \<Rightarrow> u32 \<Rightarrow> (vec_pool, u32) effect" where
  "clone_slot_for_fact fid source p =
     (let stride = vec_stride (vp_dim p); n = vecs_pool_len p in
      if vecs_len p \<le> unat source then Some (Inl (Corrupt_core ''retag vector slot is out of range''), p)
      else if vp_max_bytes p < n + stride then Some (Inl (CapacityExceeded_core ''vectors''), p)
      else if 2 ^ 32 \<le> n div stride then Some (Inl (CapacityExceeded_core ''vector slots''), p)
      else do {
        slot \<leftarrow> slot_bytes p (unat source);
        let tail = vp_tail p @ slot;
        let at = length tail - stride;
        Some (Inr (of_nat (n div stride)), p\<lparr>vp_tail := splice tail at (u32_le fid)\<rparr>) })"

definition vecs_copy_slot :: "vec_pool \<Rightarrow> u32 \<Rightarrow> vec_pool \<Rightarrow> (u32 \<times> vec_pool) option" where
  "vecs_copy_slot src i p = do {
     slot \<leftarrow> slot_bytes src (unat i);
     Some (of_nat (vecs_pool_len p div vec_stride (vp_dim p)), p\<lparr>vp_tail := vp_tail p @ slot\<rparr>) }"

section \<open>Loading\<close>

definition vec_pieces :: "vec_pool \<Rightarrow> bytes list" where
  "vec_pieces p = [vp_base p, vp_tail p]"

definition frame_check :: "nat \<Rightarrow> nat \<Rightarrow> nat \<Rightarrow> core_error + unit" where
  "frame_check dim ceiling len =
     (if ceiling < len then Inl (Corrupt_core ''vector pool exceeds the configured ceiling'')
      else if dim = 0 then
        (if len \<noteq> 0 then Inl (Corrupt_core ''vector pool present with dim 0'') else Inr ())
      else if len mod vec_stride dim \<noteq> 0 then Inl (Corrupt_core ''vector pool is not a whole number of slots'')
      else Inr ())"

definition vecs_from_parts :: "nat \<Rightarrow> nat \<Rightarrow> bytes \<Rightarrow> core_error + vec_pool" where
  "vecs_from_parts dim ceiling bs = try_res (frame_check dim ceiling (length bs)) (\<lambda>_. Inr ((vecs_new dim ceiling)\<lparr>vp_tail := bs\<rparr>))"

definition vecs_from_parts_borrowed :: "nat \<Rightarrow> nat \<Rightarrow> bytes \<Rightarrow> core_error + vec_pool" where
  "vecs_from_parts_borrowed dim ceiling bs = try_res (frame_check dim ceiling (length bs)) (\<lambda>_. Inr ((vecs_new dim ceiling)\<lparr>vp_base := bs\<rparr>))"

text \<open>The check of one slot; \<open>scale < 0.0\<close> is false of a NaN and of negative zero.\<close>

definition f32_lt_0 :: "f32 \<Rightarrow> bool" where
  "f32_lt_0 x \<longleftrightarrow> \<not> f32_is_nan x \<and> 2147483648 < x"

definition check_slot :: "nat \<Rightarrow> bytes \<Rightarrow> core_error + unit" where
  "check_slot dim slot =
     (let q_off = HEAD + sig_words dim * SIG_WORD_BYTES; scale = u32_of_le (slice slot FACT_BYTES HEAD) in
      if \<not> f32_is_finite scale \<or> f32_lt_0 scale then Inl (Corrupt_core ''vector slot scale is not finite and non-negative'')
      else if list_ex (\<lambda>w. u64_of_le (slice slot (HEAD + w * SIG_WORD_BYTES) (HEAD + w * SIG_WORD_BYTES + SIG_WORD_BYTES)) \<noteq>
          sign_word dim (drop q_off slot) w) [0..<sig_words dim]
      then Inl (Corrupt_core ''vector slot signature disagrees with its components'')
      else Inr ())"

fun check_slots_from :: "vec_pool \<Rightarrow> nat list \<Rightarrow> (core_error + unit) option" where
  "check_slots_from p [] = Some (Inr ())"
| "check_slots_from p (i # is) = do {
     slot \<leftarrow> slot_bytes p i;
     (case check_slot (vp_dim p) slot of Inl e \<Rightarrow> Some (Inl e) | Inr _ \<Rightarrow> check_slots_from p is) }"

definition vecs_validate :: "vec_pool \<Rightarrow> (core_error + unit) option" where
  "vecs_validate p = (if vp_dim p = 0 then Some (Inr ()) else check_slots_from p [0..<vecs_len p])"

section \<open>What a pool holds\<close>

text \<open>The pool as a list of slots, whatever part of it is borrowed.\<close>

definition framed :: "vec_pool \<Rightarrow> bool" where
  "framed p \<longleftrightarrow> length (vp_base p) mod vec_stride (vp_dim p) = 0 \<and> length (vp_tail p) mod vec_stride (vp_dim p) = 0"

definition vec_slots :: "vec_pool \<Rightarrow> bytes list" where
  "vec_slots p = map (\<lambda>i. slice (vp_base p @ vp_tail p) (i * vec_stride (vp_dim p)) (i * vec_stride (vp_dim p) + vec_stride (vp_dim p)))
     [0..<vecs_pool_len p div vec_stride (vp_dim p)]"

lemma stride_pos [simp]: "0 < vec_stride dim"
  by (simp add: vec_stride_def HEAD_def)

lemma length_slot_image: "length q = dim \<Longrightarrow> length (slot_image dim fid scale q) = vec_stride dim"
  by (simp add: slot_image_def vec_stride_def HEAD_def SIG_WORD_BYTES_def length_concat comp_def sum_list_triv)

lemma slot_bytes_spec:
  assumes f: "framed p" and i: "i < length (vec_slots p)"
  shows "slot_bytes p i = Some (vec_slots p ! i)" and "length (vec_slots p ! i) = vec_stride (vp_dim p)"
proof -
  let ?s = "vec_stride (vp_dim p)"
  obtain b t where b: "length (vp_base p) = b * ?s" and t: "length (vp_tail p) = t * ?s"
    using f unfolding framed_def by (metis mod_0_imp_dvd dvd_def mult.commute)
  have n: "vecs_pool_len p = (b + t) * ?s" by (simp add: vecs_pool_len_def b t algebra_simps)
  have i': "i < b + t" using i by (simp add: vec_slots_def n)
  then have le: "i * ?s + ?s \<le> (b + t) * ?s" using mult_le_mono1 [of "Suc i" "b + t" ?s] by simp
  show "length (vec_slots p ! i) = ?s"
    using i le n by (simp add: vec_slots_def slice_def vecs_pool_len_def)
  show "slot_bytes p i = Some (vec_slots p ! i)"
  proof (cases "i < b")
    case True
    then have lb: "i * ?s + ?s \<le> b * ?s" using mult_le_mono1 [of "Suc i" b ?s] by simp
    moreover have "i * ?s < b * ?s" using True by simp
    ultimately show ?thesis using i' n by (simp add: slot_bytes_def vec_slots_def b slice_def Let_def)
  next
    case False
    then have "b * ?s \<le> i * ?s" by simp
    then have ge: "b * ?s \<le> i * ?s" by simp
    have fit: "i * ?s - b * ?s + ?s \<le> t * ?s" using ge le by (simp add: add_mult_distrib)
    have "slice (vp_base p @ vp_tail p) (i * ?s) (i * ?s + ?s) = slice (vp_tail p) (i * ?s - b * ?s) (i * ?s - b * ?s + ?s)"
      using slice_skip [of "vp_base p" "i * ?s" "vp_tail p" "i * ?s + ?s"] ge by (simp add: b)
    then show ?thesis using i' n ge fit by (simp add: slot_bytes_def vec_slots_def b t Let_def not_less)
  qed
qed

lemma slots_append:
  assumes "length (vp_base p) = b * vec_stride (vp_dim p)" and "length (vp_tail p) = t * vec_stride (vp_dim p)" and "length slot = vec_stride (vp_dim p)"
  shows "vec_slots (p\<lparr>vp_tail := vp_tail p @ slot\<rparr>) = vec_slots p @ [slot]"
proof -
  let ?s = "vec_stride (vp_dim p)" and ?all = "vp_base p @ vp_tail p"
  have len: "length ?all = (b + t) * ?s" using assms by (simp add: algebra_simps)
  have n: "vecs_pool_len p = (b + t) * ?s" "vecs_pool_len (p\<lparr>vp_tail := vp_tail p @ slot\<rparr>) = Suc (b + t) * ?s"
    using assms by (simp_all add: vecs_pool_len_def algebra_simps)
  have old: "slice (?all @ slot) (i * ?s) (i * ?s + ?s) = slice ?all (i * ?s) (i * ?s + ?s)" if "i < b + t" for i
  proof -
    have "i * ?s + ?s \<le> (b + t) * ?s" using mult_le_mono1 [of "Suc i" "b + t" ?s] that by simp
    then show ?thesis using len by (simp only: slice_append_left)
  qed
  have new: "slice (?all @ slot) ((b + t) * ?s) ((b + t) * ?s + ?s) = slot"
    using slice_append_right [where xs = ?all and ys = slot and a = "(b + t) * ?s"] len assms(3) by (simp add: slice_whole_len)
  show ?thesis using old new by (simp add: vec_slots_def n append_assoc [symmetric] del: append_assoc mult_Suc)
qed

lemma framed_counts:
  assumes "framed p"
  obtains b t where "length (vp_base p) = b * vec_stride (vp_dim p)" "length (vp_tail p) = t * vec_stride (vp_dim p)"
    "length (vec_slots p) = b + t" "vecs_pool_len p div vec_stride (vp_dim p) = b + t"
proof -
  let ?s = "vec_stride (vp_dim p)"
  obtain b t where b: "length (vp_base p) = b * ?s" and t: "length (vp_tail p) = t * ?s"
    using assms unfolding framed_def by (metis mod_0_imp_dvd dvd_def mult.commute)
  have "vecs_pool_len p = (b + t) * ?s" by (simp add: vecs_pool_len_def b t algebra_simps)
  then have "vecs_pool_len p div ?s = b + t" by simp
  then show ?thesis using that [OF b t] by (simp add: vec_slots_def)
qed

lemma append_slot:
  assumes f: "framed p" and len: "length slot = vec_stride (vp_dim p)"
  shows "framed (p\<lparr>vp_tail := vp_tail p @ slot\<rparr>)" and "vec_slots (p\<lparr>vp_tail := vp_tail p @ slot\<rparr>) = vec_slots p @ [slot]"
proof -
  obtain b t where bt: "length (vp_base p) = b * vec_stride (vp_dim p)" "length (vp_tail p) = t * vec_stride (vp_dim p)"
    using framed_counts [OF f] by metis
  show "framed (p\<lparr>vp_tail := vp_tail p @ slot\<rparr>)" using bt len by (simp add: framed_def)
  show "vec_slots (p\<lparr>vp_tail := vp_tail p @ slot\<rparr>) = vec_slots p @ [slot]" by (rule slots_append [OF bt len])
qed

lemma encode_slot_length: "encode_slot ops dim fid v = Inr slot \<Longrightarrow> length slot = vec_stride dim"
  by (auto simp: encode_slot_def Let_def length_slot_image split: if_splits option.splits)

lemma vecs_push_spec:
  assumes f: "framed p"
  shows "\<exists>r p'. vecs_push ops fid v p = Some (r, p') \<and> framed p' \<and>
    (case r of
       Inl e \<Rightarrow> p' = p
     | Inr i \<Rightarrow> (\<exists>slot. encode_slot ops (vp_dim p) fid v = Inr slot \<and> vec_slots p' = vec_slots p @ [slot]) \<and> unat i = length (vec_slots p))"
proof -
  let ?n = "length (vec_slots p)"
  have bt: "vecs_pool_len p div vec_stride (vp_dim p) = ?n" by (simp add: vec_slots_def)
  show ?thesis
  proof (cases "vp_max_bytes p < vecs_pool_len p + vec_stride (vp_dim p) \<or> 2 ^ 32 \<le> vecs_pool_len p div vec_stride (vp_dim p)")
    case True
    then show ?thesis using f by (auto simp: vecs_push_def Let_def)
  next
    case False
    show ?thesis
    proof (cases "encode_slot ops (vp_dim p) fid v")
      case (Inl e)
      then show ?thesis using f False by (simp add: vecs_push_def Let_def)
    next
      case (Inr slot)
      have len: "length slot = vec_stride (vp_dim p)" by (rule encode_slot_length [OF Inr])
      have "splice (vp_tail p @ replicate (vec_stride (vp_dim p)) 0) (length (vp_tail p)) slot = vp_tail p @ slot"
        using splice_append [of "length (vp_tail p)" "vp_tail p" slot "replicate (vec_stride (vp_dim p)) 0" "[]"] len by simp
      moreover have "unat (of_nat ?n :: u32) = ?n" using False bt by (simp add: unat_of_nat take_bit_nat_eq_self_iff)
      ultimately show ?thesis using append_slot [OF f len] False Inr bt by (simp add: vecs_push_def Let_def)
    qed
  qed
qed

lemma clone_spec:
  assumes f: "framed p"
  shows "\<exists>r p'. clone_slot_for_fact fid source p = Some (r, p') \<and> framed p' \<and>
    (case r of
       Inl e \<Rightarrow> p' = p
     | Inr i \<Rightarrow> unat source < length (vec_slots p) \<and> unat i = length (vec_slots p) \<and>
         vec_slots p' = vec_slots p @ [u32_le fid @ drop FACT_BYTES (vec_slots p ! unat source)])"
proof -
  let ?s = "vec_stride (vp_dim p)"
  let ?n = "length (vec_slots p)"
  have bt: "vecs_pool_len p div ?s = ?n" by (simp add: vec_slots_def)
  have n: "vecs_len p = length (vec_slots p)" by (simp add: vecs_len_def vec_slots_def)
  show ?thesis
  proof (cases "vecs_len p \<le> unat source \<or> vp_max_bytes p < vecs_pool_len p + ?s \<or> 2 ^ 32 \<le> vecs_pool_len p div ?s")
    case True
    then show ?thesis using f by (auto simp: clone_slot_for_fact_def Let_def)
  next
    case False
    let ?slot = "vec_slots p ! unat source"
    have i: "unat source < length (vec_slots p)" using False n by simp
    note sb = slot_bytes_spec [OF f i]
    have "4 \<le> ?s" by (simp add: vec_stride_def HEAD_def)
    then have "splice (vp_tail p @ ?slot) (length (vp_tail p)) (u32_le fid) = vp_tail p @ (u32_le fid @ drop FACT_BYTES ?slot)"
      using sb(2) by (simp add: splice_def FACT_BYTES_def)
    moreover have "length (u32_le fid @ drop FACT_BYTES ?slot) = ?s" using sb(2) \<open>4 \<le> ?s\<close> by (simp add: FACT_BYTES_def)
    moreover have "unat (of_nat ?n :: u32) = ?n" using False bt by (simp add: unat_of_nat take_bit_nat_eq_self_iff)
    ultimately show ?thesis
      using append_slot [OF f, of "u32_le fid @ drop FACT_BYTES ?slot"] False sb i bt
      by (simp add: clone_slot_for_fact_def Let_def)
  qed
qed

section \<open>A quantised slot\<close>

lemma norm_square_eq:
  "norm_square ops v acc = (if list_all f32_is_finite v then Some (foldl (\<lambda>a x. fl_add ops a (fl_mul ops x x)) acc v) else None)"
  by (induction v arbitrary: acc) auto

lemma bit_fold_word:
  "bit (foldl (\<lambda>word b. if P b then word OR push_bit b 1 else word) a bs :: u64) n \<longleftrightarrow> bit a n \<or> n < 64 \<and> n \<in> set bs \<and> P n"
  by (induction bs arbitrary: a) (auto simp: bit_simps)

text \<open>Bit \<open>j\<close> of the signature says that component \<open>j\<close> is not negative.\<close>

lemma bit_sign_word: "bit (sign_word dim q w) b \<longleftrightarrow> b < 64 \<and> w * 64 + b < dim \<and> q ! (w * 64 + b) < 128"
  unfolding sign_word_def bit_fold_word by auto

lemma image_parts:
  assumes "length q = dim"
  shows "slice (slot_image dim fid scale q) 0 FACT_BYTES = u32_le fid"
    and "slice (slot_image dim fid scale q) FACT_BYTES HEAD = u32_le scale"
    and "drop (HEAD + sig_words dim * SIG_WORD_BYTES) (slot_image dim fid scale q) = q"
    and "w < sig_words dim \<Longrightarrow>
      slice (slot_image dim fid scale q) (HEAD + w * SIG_WORD_BYTES) (HEAD + w * SIG_WORD_BYTES + SIG_WORD_BYTES) = u64_le (sign_word dim q w)"
proof -
  let ?ws = "map (\<lambda>w. u64_le (sign_word dim q w)) [0..<sig_words dim]"
  have len: "length (concat ?ws) = sig_words dim * 8" by (simp add: length_concat comp_def sum_list_triv)
  show "slice (slot_image dim fid scale q) 0 FACT_BYTES = u32_le fid"
    using slice_append_mid [of 0 "[]" 4 "u32_le fid"] by (simp add: slot_image_def FACT_BYTES_def)
  show "drop (HEAD + sig_words dim * SIG_WORD_BYTES) (slot_image dim fid scale q) = q"
    by (simp add: slot_image_def HEAD_def SIG_WORD_BYTES_def len)
  show "slice (slot_image dim fid scale q) FACT_BYTES HEAD = u32_le scale"
    using slice_append_mid [of 4 "u32_le fid" 8 "u32_le scale"] by (simp add: slot_image_def FACT_BYTES_def HEAD_def)
  assume w: "w < sig_words dim"
  have "slice (slot_image dim fid scale q) (8 + w * 8) (8 + w * 8 + 8) = slice (concat ?ws @ q) (w * 8) (w * 8 + 8)"
    using slice_append_right [where xs = "u32_le fid @ u32_le scale" and ys = "concat ?ws @ q" and a = "8 + w * 8" and b = "8 + w * 8 + 8"]
    by (simp add: slot_image_def add.commute)
  also have "\<dots> = slice (concat ?ws) (w * 8) (w * 8 + 8)"
    using w len by (intro slice_append_left) simp
  also have "\<dots> = ?ws ! w" by (rule slice_concat_const) (use w in auto)
  finally show "slice (slot_image dim fid scale q) (HEAD + w * SIG_WORD_BYTES) (HEAD + w * SIG_WORD_BYTES + SIG_WORD_BYTES) = u64_le (sign_word dim q w)"
    using w by (simp add: HEAD_def SIG_WORD_BYTES_def)
qed

text \<open>The signature bits read back from the slot.\<close>

lemma image_bits:
  assumes "length q = dim" and "j < dim"
  shows "bit (u64_of_le (slice (slot_image dim fid scale q) (HEAD + j div 64 * 8) (HEAD + j div 64 * 8 + 8))) (j mod 64) \<longleftrightarrow> q ! j < 128"
proof -
  have "j div 64 < sig_words dim" using assms(2) by (simp add: sig_words_def less_mult_imp_div_less div_less_iff_less_mult)
  from image_parts(4) [OF assms(1) this, where fid = fid and scale = scale] show ?thesis using assms(2) by (simp add: SIG_WORD_BYTES_def bit_sign_word)
qed

section \<open>The structural check\<close>

lemma check_from_iff:
  "framed p \<Longrightarrow> \<forall>i \<in> set is. i < length (vec_slots p) \<Longrightarrow>
    \<exists>r. check_slots_from p is = Some r \<and> (r = Inr () \<longleftrightarrow> (\<forall>i \<in> set is. check_slot (vp_dim p) (vec_slots p ! i) = Inr ()))"
proof (induction "is")
  case (Cons i "is")
  then have "slot_bytes p i = Some (vec_slots p ! i)" using slot_bytes_spec(1) by simp
  then show ?case using Cons by (cases "check_slot (vp_dim p) (vec_slots p ! i)") auto
qed simp

lemma validate_iff:
  assumes "framed p" and "0 < vp_dim p"
  shows "\<exists>r. vecs_validate p = Some r \<and> (r = Inr () \<longleftrightarrow> (\<forall>s \<in> set (vec_slots p). check_slot (vp_dim p) s = Inr ()))"
proof -
  have "vecs_len p = length (vec_slots p)" by (simp add: vecs_len_def vec_slots_def)
  then show ?thesis
    using check_from_iff [OF assms(1), of "[0..<vecs_len p]"] assms(2) by (auto simp: vecs_validate_def all_set_conv_all_nth)
qed

lemma check_image:
  assumes "length q = dim"
  shows "check_slot dim (slot_image dim fid scale q) = Inr () \<longleftrightarrow> f32_is_finite scale \<and> \<not> f32_lt_0 scale"
  using image_parts [OF assms, where fid = fid and scale = scale] by (auto simp: check_slot_def Let_def list_ex_iff)

text \<open>A clone keeps everything but the owner, so it passes the check as its source does.\<close>

lemma check_clone:
  assumes "length slot = vec_stride dim"
  shows "check_slot dim (u32_le fid @ drop FACT_BYTES slot) = check_slot dim slot"
proof -
  have sl: "slice (u32_le fid @ drop FACT_BYTES slot) a b = slice slot a b" if "4 \<le> a" "a \<le> b" for a b
    using slice_append_right [where xs = "u32_le fid" and ys = "drop FACT_BYTES slot" and a = a and b = b] that
    by (simp add: FACT_BYTES_def slice_drop)
  have "drop (HEAD + n) (u32_le fid @ drop FACT_BYTES slot) = drop (HEAD + n) slot" for n by (simp add: HEAD_def FACT_BYTES_def)
  then show ?thesis using sl by (simp add: check_slot_def Let_def HEAD_def SIG_WORD_BYTES_def FACT_BYTES_def)
qed

lemma push_case:
  fixes ops v
  defines "norm \<equiv> fl_sqrt ops (foldl (\<lambda>a x. fl_add ops a (fl_mul ops x x)) 0 v)"
  defines "unit \<equiv> \<lambda>x. fl_mul ops x (fl_div ops F32_ONE norm)"
  defines "scale \<equiv> fl_div ops (foldl (\<lambda>m x. fl_max ops m (fl_abs ops (unit x))) 0 v) F32_127"
  defines "q \<equiv> map (\<lambda>x. fl_round_i8 ops (fl_div ops (unit x) scale)) v"
  assumes p: "framed p" "0 < vp_dim p" "vecs_validate p = Some (Inr ())"
  shows "\<exists>r p'. vecs_push ops fid v p = Some (r, p') \<and> framed p' \<and>
      (if vp_max_bytes p < vecs_pool_len p + vec_stride (vp_dim p) then r = Inl (CapacityExceeded_core ''vectors'') \<and> p' = p
       else if 2 ^ 32 \<le> length (vec_slots p) then r = Inl (CapacityExceeded_core ''vector slots'') \<and> p' = p
       else if length v \<noteq> vp_dim p then r = Inl (DimMismatch (length v) (vp_dim p)) \<and> p' = p
       else if \<not> list_all f32_is_finite v then r = Inl (Invalid ''vector must be finite'') \<and> p' = p
       else if \<not> f32_gt_0 norm \<and> \<not> f32_is_nan norm then r = Inl (Invalid ''vector must be nonzero'') \<and> p' = p
       else r = Inr (of_nat (length (vec_slots p))) \<and> (\<exists>slot. vec_slots p' = vec_slots p @ [slot] \<and>
         slice slot 0 4 = u32_le fid \<and> slice slot 4 8 = u32_le scale \<and> drop (8 + sig_words (vp_dim p) * 8) slot = q \<and>
         (\<forall>j < vp_dim p. bit (u64_of_le (slice slot (8 + j div 64 * 8) (8 + j div 64 * 8 + 8))) (j mod 64) \<longleftrightarrow> q ! j < 128)) \<and>
         (vecs_validate p' = Some (Inr ()) \<longleftrightarrow> f32_is_finite scale \<and> \<not> f32_lt_0 scale))"
proof -
  have all: "\<forall>s \<in> set (vec_slots p). check_slot (vp_dim p) s = Inr ()" using validate_iff [OF p(1,2)] p(3) by auto
  obtain r p' where r: "vecs_push ops fid v p = Some (r, p')" "framed p'"
    "case r of Inl e \<Rightarrow> p' = p
     | Inr i \<Rightarrow> (\<exists>slot. encode_slot ops (vp_dim p) fid v = Inr slot \<and> vec_slots p' = vec_slots p @ [slot]) \<and> unat i = length (vec_slots p)"
    using vecs_push_spec [OF p(1)] by blast
  have dim: "vp_dim p' = vp_dim p" using r(1) by (auto simp: vecs_push_def Let_def split: if_splits sum.splits)
  have val: "vecs_validate p' = Some (Inr ()) \<longleftrightarrow> (\<forall>s \<in> set (vec_slots p'). check_slot (vp_dim p) s = Inr ())"
    using validate_iff [OF r(2)] dim p(2) by auto
  have n: "vecs_pool_len p div vec_stride (vp_dim p) = length (vec_slots p)" by (simp add: vec_slots_def)
  have enc: "encode_slot ops (vp_dim p) fid v =
    (if length v \<noteq> vp_dim p then Inl (DimMismatch (length v) (vp_dim p))
     else if \<not> list_all f32_is_finite v then Inl (Invalid ''vector must be finite'')
     else if \<not> f32_gt_0 norm \<and> \<not> f32_is_nan norm then Inl (Invalid ''vector must be nonzero'')
     else Inr (slot_image (vp_dim p) fid scale q))"
    by (simp add: encode_slot_def norm_square_eq norm_def unit_def scale_def q_def Let_def)
  note push = r(1) [unfolded vecs_push_def Let_def n enc]
  show ?thesis
  proof (cases r)
    case (Inl e)
    then have "p' = p" using r(3) by simp
    with r(1,2) push Inl show ?thesis by (intro exI [of _ r] exI [of _ p']) (auto split: if_splits)
  next
    case (Inr i)
    have c: "\<not> vp_max_bytes p < vecs_pool_len p + vec_stride (vp_dim p)" "\<not> 2 ^ 32 \<le> length (vec_slots p)" "length v = vp_dim p"
      "list_all f32_is_finite v" "f32_gt_0 norm \<or> f32_is_nan norm" "i = of_nat (length (vec_slots p))"
      using push Inr by (auto split: if_splits)
    have q: "length q = vp_dim p" by (simp add: q_def c(3))
    let ?slot = "slot_image (vp_dim p) fid scale q"
    have e: "encode_slot ops (vp_dim p) fid v = Inr ?slot" using c enc by auto
    then have s: "vec_slots p' = vec_slots p @ [?slot]" using r(3) Inr by auto
    note parts = image_parts [OF q, where fid = fid and scale = scale] and bits = image_bits [OF q, where fid = fid and scale = scale]
    have v: "vecs_validate p' = Some (Inr ()) \<longleftrightarrow> f32_is_finite scale \<and> \<not> f32_lt_0 scale"
      using val s all check_image [OF q, of fid scale] by auto
    have "\<exists>slot. vec_slots p' = vec_slots p @ [slot] \<and> slice slot 0 4 = u32_le fid \<and> slice slot 4 8 = u32_le scale \<and>
        drop (8 + sig_words (vp_dim p) * 8) slot = q \<and>
        (\<forall>j < vp_dim p. bit (u64_of_le (slice slot (8 + j div 64 * 8) (8 + j div 64 * 8 + 8))) (j mod 64) \<longleftrightarrow> q ! j < 128)"
      using s parts(1-3) bits by (intro exI [of _ ?slot]) (simp add: FACT_BYTES_def HEAD_def SIG_WORD_BYTES_def)
    with r(1,2) Inr c v show ?thesis by (intro exI [of _ r] exI [of _ p']) auto
  qed
qed

lemma clone_case:
  assumes "framed p" and "0 < vp_dim p" and "vecs_validate p = Some (Inr ())"
  shows "\<exists>r p'. clone_slot_for_fact fid source p = Some (r, p') \<and> framed p' \<and> vecs_validate p' = Some (Inr ()) \<and>
      (if length (vec_slots p) \<le> unat source then r = Inl (Corrupt_core ''retag vector slot is out of range'') \<and> p' = p
       else if vp_max_bytes p < vecs_pool_len p + vec_stride (vp_dim p) then r = Inl (CapacityExceeded_core ''vectors'') \<and> p' = p
       else if 2 ^ 32 \<le> length (vec_slots p) then r = Inl (CapacityExceeded_core ''vector slots'') \<and> p' = p
       else r = Inr (of_nat (length (vec_slots p))) \<and> vec_slots p' = vec_slots p @ [u32_le fid @ drop 4 (vec_slots p ! unat source)])"
proof -
  have all: "\<forall>s \<in> set (vec_slots p). check_slot (vp_dim p) s = Inr ()" using validate_iff [OF assms(1,2)] assms(3) by auto
  obtain r p' where c: "clone_slot_for_fact fid source p = Some (r, p')" "framed p'"
    "case r of Inl e \<Rightarrow> p' = p
     | Inr i \<Rightarrow> unat source < length (vec_slots p) \<and> unat i = length (vec_slots p) \<and>
         vec_slots p' = vec_slots p @ [u32_le fid @ drop FACT_BYTES (vec_slots p ! unat source)]"
    using clone_spec [OF assms(1)] by blast
  have dim: "vp_dim p' = vp_dim p" using c(1) by (auto simp: clone_slot_for_fact_def Let_def bind_eq_Some_conv split: if_splits)
  have n: "length (vec_slots p) = vecs_pool_len p div vec_stride (vp_dim p)" "vecs_len p = length (vec_slots p)"
    by (simp_all add: vec_slots_def vecs_len_def)
  have res: "if length (vec_slots p) \<le> unat source then r = Inl (Corrupt_core ''retag vector slot is out of range'')
       else if vp_max_bytes p < vecs_pool_len p + vec_stride (vp_dim p) then r = Inl (CapacityExceeded_core ''vectors'')
       else if 2 ^ 32 \<le> length (vec_slots p) then r = Inl (CapacityExceeded_core ''vector slots'')
       else r = Inr (of_nat (length (vec_slots p)))"
    using c(1) unfolding clone_slot_for_fact_def Let_def n(2) unfolding n(1) by (auto simp: bind_eq_Some_conv split: if_splits)
  have "vecs_validate p' = Some (Inr ())"
  proof (cases r)
    case (Inl e)
    then show ?thesis using c(3) assms(3) by simp
  next
    case (Inr i)
    then have src: "unat source < length (vec_slots p)" "vec_slots p' = vec_slots p @ [u32_le fid @ drop FACT_BYTES (vec_slots p ! unat source)]"
      using c(3) by auto
    have "check_slot (vp_dim p) (vec_slots p ! unat source) = Inr ()" using all src(1) by simp
    then show ?thesis
      using validate_iff [OF c(2)] dim assms(2) src all check_clone [OF slot_bytes_spec(2) [OF assms(1) src(1)], of fid] by auto
  qed
  with c res show ?thesis by (intro exI [of _ r] exI [of _ p']) (auto simp: FACT_BYTES_def split: if_splits)
qed

text \<open>
  C18. A push appends one slot or leaves the pool exactly as it was (also when the vector is refused after the tail has grown). It
  succeeds exactly when the ceiling and the slot ids leave room, the vector has the pool's dimension, every component is finite and
  the norm, the root of the sum of squares, is not zero (or is a NaN, which the code's comparison lets through); each refusal has
  its own error, and they are decided in this order. The new slot holds the owner, the scale (the largest component of the
  normalised vector over 127), the components divided by the scale and rounded, and a signature whose bit \<open>j\<close> tells that component
  \<open>j\<close> is not negative. \<open>f32\<close> arithmetic being a parameter, a valid pool stays valid exactly when that scale is finite and not
  negative. A clone of an existing slot appends it under its new owner and keeps the pool valid. Neither panics, over a borrowed
  base as over an owned pool.
\<close>

theorem vec_pool_appends:
  assumes "framed p" and "0 < vp_dim p" and "vecs_validate p = Some (Inr ())"
  shows "(let norm = fl_sqrt ops (foldl (\<lambda>a x. fl_add ops a (fl_mul ops x x)) 0 v);
      unit = (\<lambda>x. fl_mul ops x (fl_div ops F32_ONE norm));
      scale = fl_div ops (foldl (\<lambda>m x. fl_max ops m (fl_abs ops (unit x))) 0 v) F32_127;
      q = map (\<lambda>x. fl_round_i8 ops (fl_div ops (unit x) scale)) v in
    \<exists>r p'. vecs_push ops fid v p = Some (r, p') \<and> framed p' \<and>
      (if vp_max_bytes p < vecs_pool_len p + vec_stride (vp_dim p) then r = Inl (CapacityExceeded_core ''vectors'') \<and> p' = p
       else if 2 ^ 32 \<le> length (vec_slots p) then r = Inl (CapacityExceeded_core ''vector slots'') \<and> p' = p
       else if length v \<noteq> vp_dim p then r = Inl (DimMismatch (length v) (vp_dim p)) \<and> p' = p
       else if \<not> list_all f32_is_finite v then r = Inl (Invalid ''vector must be finite'') \<and> p' = p
       else if \<not> f32_gt_0 norm \<and> \<not> f32_is_nan norm then r = Inl (Invalid ''vector must be nonzero'') \<and> p' = p
       else r = Inr (of_nat (length (vec_slots p))) \<and> (\<exists>slot. vec_slots p' = vec_slots p @ [slot] \<and>
         slice slot 0 4 = u32_le fid \<and> slice slot 4 8 = u32_le scale \<and> drop (8 + sig_words (vp_dim p) * 8) slot = q \<and>
         (\<forall>j < vp_dim p. bit (u64_of_le (slice slot (8 + j div 64 * 8) (8 + j div 64 * 8 + 8))) (j mod 64) \<longleftrightarrow> q ! j < 128)) \<and>
         (vecs_validate p' = Some (Inr ()) \<longleftrightarrow> f32_is_finite scale \<and> \<not> f32_lt_0 scale))) \<and>
    (\<exists>r p'. clone_slot_for_fact gid source p = Some (r, p') \<and> framed p' \<and> vecs_validate p' = Some (Inr ()) \<and>
      (if length (vec_slots p) \<le> unat source then r = Inl (Corrupt_core ''retag vector slot is out of range'') \<and> p' = p
       else if vp_max_bytes p < vecs_pool_len p + vec_stride (vp_dim p) then r = Inl (CapacityExceeded_core ''vectors'') \<and> p' = p
       else if 2 ^ 32 \<le> length (vec_slots p) then r = Inl (CapacityExceeded_core ''vector slots'') \<and> p' = p
       else r = Inr (of_nat (length (vec_slots p))) \<and> vec_slots p' = vec_slots p @ [u32_le gid @ drop 4 (vec_slots p ! unat source)]))"
  unfolding Let_def by (rule conjI [OF push_case [OF assms] clone_case [OF assms]])

text \<open>A vector of two ones is stored in an empty pool; the zero vector is refused there.\<close>

theorem vec_pool_appends_witness:
  "let ops = \<lparr>fl_add = \<lambda>a b. if a = 0 then b else F32_ONE, fl_mul = \<lambda>a b. if a = 0 then 0 else F32_ONE, fl_div = \<lambda>_ _. F32_ONE,
       fl_max = \<lambda>_ _. F32_ONE, fl_sqrt = \<lambda>x. x, fl_abs = \<lambda>x. x, fl_round_i8 = \<lambda>_. 127, fl_of_int = \<lambda>_. F32_ONE\<rparr>; p = vecs_new 2 1000
   in (\<exists>p' slot. vecs_push ops 7 [F32_ONE, F32_ONE] p = Some (Inr 0, p') \<and> framed p' \<and> vec_slots p' = [slot] \<and> slice slot 0 4 = u32_le 7 \<and>
        drop 16 slot = [127, 127] \<and> bit (u64_of_le (slice slot 8 16)) 0 \<and> vecs_validate p' = Some (Inr ())) \<and>
      vecs_push ops 7 [0, 0] p = Some (Inl (Invalid ''vector must be nonzero''), p)"
proof -
  let ?ops = "\<lparr>fl_add = \<lambda>a b. if a = 0 then b else F32_ONE, fl_mul = \<lambda>a b. if a = 0 then 0 else F32_ONE, fl_div = \<lambda>_ _. F32_ONE,
       fl_max = \<lambda>_ _. F32_ONE, fl_sqrt = \<lambda>x. x, fl_abs = \<lambda>x. x, fl_round_i8 = \<lambda>_. 127, fl_of_int = \<lambda>_. F32_ONE\<rparr>"
  let ?p = "vecs_new 2 1000"
  have a: "framed ?p" "0 < vp_dim ?p" "vecs_validate ?p = Some (Inr ())"
    by (simp_all add: framed_def vecs_new_def vecs_validate_def vecs_len_def vecs_pool_len_def)
  have n: "vec_slots ?p = []" "vp_dim ?p = 2" "vp_max_bytes ?p = 1000" "vecs_pool_len ?p = 0" "vec_stride 2 = 18" "sig_words 2 = 1"
    by (simp_all add: vecs_new_def vecs_pool_len_def vec_slots_def vec_stride_def sig_words_def HEAD_def SIG_WORD_BYTES_def)
  have f: "f32_is_finite F32_ONE" "f32_gt_0 F32_ONE" "\<not> f32_lt_0 F32_ONE" "f32_is_finite 0" "\<not> f32_gt_0 0" "\<not> f32_is_nan 0"
    "F32_ONE \<noteq> 0"
    by (simp_all add: f32_gt_0_def f32_is_nan_def f32_is_finite_def f32_exponent_def f32_lt_0_def F32_ONE_def drop_bit_eq_div)
  note one = conjunct1 [OF vec_pool_appends [OF a, of ?ops "[F32_ONE, F32_ONE]" 7]] and zero = conjunct1 [OF vec_pool_appends [OF a, of ?ops "[0, 0]" 7]]
  show ?thesis using one zero f by (auto simp: n Let_def)
qed

end
