(* ===== verification/Engine.thy ===== *)
theory Engine
  imports Edges Config Metadata Interner Tag_Catalog Bm25_Index Vec_Pool Arena_Scan
begin

text \<open>
  The engine state \<open>Memory\<close> of \<open>crates/plugmem-core/src/memory.rs\<close> and the internal methods that execute
  operations on it: entities by name, \<open>apply_remember\<close> with everything it writes, \<open>apply_forget\<close>,
  \<open>apply_remove_tag\<close>, links and unlinks, and the read accessors. A method is an \<open>effect\<close>: what it has
  written when it fails stays written. The record \<open>platform\<close> holds what the engine takes from elsewhere:
  the hash of the interner and the tag catalog, the tokenizer as the list of tokens of a string, \<open>f32\<close>
  arithmetic, and the bytes of fresh pages. The HNSW graph is not part of the state here; none of these
  methods touches it.
\<close>

section \<open>State\<close>

record platform =
  pf_hash :: "bytes \<Rightarrow> u64"
  pf_tokens :: "bytes \<Rightarrow> bytes list"
  pf_f32 :: f32_ops
  pf_junk :: "nat \<Rightarrow> bytes"

definition MAX_TAGS :: nat where "MAX_TAGS = 32"

definition TOKENIZER_INDEX_VERSION :: u32 where "TOKENIZER_INDEX_VERSION = 2"

record memory =
  m_cfg :: config
  m_facts :: arena
  m_fact_aux :: arena
  m_entities :: arena
  m_by_name :: arena
  m_graph :: graph
  m_temporal :: arena
  m_texts :: blob_heap
  m_metas :: blob_heap
  m_terms :: interner
  m_tag_lists :: chunk_pool
  m_bm25 :: bm25_index
  m_tags_idx :: posting_store
  m_tag_catalog :: tag_catalog
  m_entity_facts :: posting_store
  m_vecs :: vec_pool
  m_vector_space :: "bytes option"
  m_next_fact :: fact_id
  m_next_entity :: entity_id
  m_tombstones :: nat
  m_tokenizer_version :: u32
  m_tf_scratch :: "(u32 \<times> u8) list"
  m_tf_probe :: "u32 list"

definition memory_new :: "config \<Rightarrow> core_error + memory" where
  "memory_new cfg =
     try_res (config_validate cfg) (\<lambda>_.
     let ceiling = cf_max_bytes cfg;
         uni = (\<lambda>T shards. from_arena (arena_new T \<lparr>ac_shards = shards, ac_max_bytes = ceiling, ac_mode = Uniform\<rparr>));
         ord = (\<lambda>T shards. from_arena (arena_new T \<lparr>ac_shards = shards, ac_max_bytes = ceiling, ac_mode = Ordered\<rparr>));
         blob = \<lparr>max_bytes = ceiling, max_blob = cf_max_blob cfg\<rparr> in
     try_res (uni fact_record_slot (cf_shards_facts cfg)) (\<lambda>facts.
     try_res (uni fact_aux_slot (cf_shards_facts cfg)) (\<lambda>fact_aux.
     try_res (uni entity_record_slot (cf_shards_entities cfg)) (\<lambda>entities.
     try_res (ord entity_by_name_slot (cf_shards_entities cfg)) (\<lambda>by_name.
     try_res (graph_new (cf_shards_edges cfg) ceiling) (\<lambda>graph.
     try_res (ord temporal_slot_slot (cf_shards_temporal cfg)) (\<lambda>temporal.
     try_res (bm25_new (cf_shards_postings cfg) ceiling) (\<lambda>bm25.
     try_res (postings_new (cf_shards_postings cfg) ceiling) (\<lambda>tags_idx.
     try_res (postings_new (cf_shards_entities cfg) ceiling) (\<lambda>entity_facts.
       Inr \<lparr>m_cfg = cfg, m_facts = facts, m_fact_aux = fact_aux, m_entities = entities, m_by_name = by_name, m_graph = graph,
         m_temporal = temporal, m_texts = blob_new blob, m_metas = blob_new blob, m_terms = interner_new blob,
         m_tag_lists = chunk_pool_new \<lparr>cc_max_bytes = ceiling\<rparr>, m_bm25 = bm25, m_tags_idx = tags_idx,
         m_tag_catalog = catalog_new, m_entity_facts = entity_facts, m_vecs = vecs_new (cf_dim cfg) ceiling,
         m_vector_space = None, m_next_fact = 0, m_next_entity = 0, m_tombstones = 0,
         m_tokenizer_version = TOKENIZER_INDEX_VERSION, m_tf_scratch = [], m_tf_probe = []\<rparr>))))))))))"

section \<open>Steps on a part of the state\<close>

definition gets :: "('s \<Rightarrow> 'a) \<Rightarrow> ('s, 'a) effect" where
  "gets f s = Some (Inr (f s), s)"

definition give :: "core_error + 'a \<Rightarrow> ('s, 'a) effect" where
  "give r s = Some (r, s)"

definition update :: "('s \<Rightarrow> 's option) \<Rightarrow> ('s, unit) effect" where
  "update f s = map_option (\<lambda>t. (Inr (), t)) (f s)"

lemma gets_give [simp]: "gets f s = Some (Inr (f s), s)" "give r s = Some (r, s)"
  by (simp_all add: gets_def give_def)

definition push_text :: "bytes \<Rightarrow> (memory, blob_id) effect" where
  "push_text bs m = (case blob_push bs (m_texts m) of
     Inl e \<Rightarrow> Some (Inl (Arena_err e), m)
   | Inr (i, heap) \<Rightarrow> Some (Inr i, m\<lparr>m_texts := heap\<rparr>))"

definition push_meta :: "bytes \<Rightarrow> (memory, blob_id) effect" where
  "push_meta bs m = (case blob_push bs (m_metas m) of
     Inl e \<Rightarrow> Some (Inl (Arena_err e), m)
   | Inr (i, heap) \<Rightarrow> Some (Inr i, m\<lparr>m_metas := heap\<rparr>))"

definition intern_term :: "platform \<Rightarrow> bytes \<Rightarrow> (memory, term_id) effect" where
  "intern_term E bs m = map_option (\<lambda>(r, t). (from_arena r, m\<lparr>m_terms := t\<rparr>)) (intern (pf_hash E) bs (m_terms m))"

definition lookup_term :: "platform \<Rightarrow> memory \<Rightarrow> bytes \<Rightarrow> term_id option option" where
  "lookup_term E m bs = interner_lookup (pf_hash E) bs (m_terms m)"

section \<open>Entities\<close>

text \<open>The tokens of a name joined by single spaces.\<close>

definition normalize_name :: "platform \<Rightarrow> bytes \<Rightarrow> bytes" where
  "normalize_name E name = foldl (\<lambda>out token. (if out \<noteq> [] then out @ [32] else out) @ token) [] (pf_tokens E name)"

definition lookup_entity_by_norm :: "platform \<Rightarrow> memory \<Rightarrow> bytes \<Rightarrow> entity_id option option" where
  "lookup_entity_by_norm E m norm = do {
     found \<leftarrow> lookup_term E m norm;
     (case found of
        None \<Rightarrow> Some None
      | Some t \<Rightarrow> do {
          let start = u32_be t @ u32_be 0;
          let stop = u32_be t @ u32_be (- 1);
          c \<leftarrow> arena_range entity_by_name_slot (m_by_name m) start stop;
          (hit, _) \<leftarrow> range_next entity_by_name_slot entity_by_name_read (m_by_name m) stop c;
          Some (map_option bn_id hit) }) }"

definition lookup_entity_name :: "platform \<Rightarrow> memory \<Rightarrow> bytes \<Rightarrow> entity_id option option" where
  "lookup_entity_name E m name =
     (let norm = normalize_name E name in if norm = [] then Some None else lookup_entity_by_norm E m norm)"

definition create_entity :: "platform \<Rightarrow> bytes \<Rightarrow> bytes \<Rightarrow> u64 \<Rightarrow> (memory, entity_id) effect" where
  "create_entity E norm name now =
     and_then (intern_term E norm) (\<lambda>t.
     and_then (gets m_next_entity) (\<lambda>i.
     and_then (push_text name) (\<lambda>name_id.
     and_then (insert_at m_entities (\<lambda>a m. m\<lparr>m_entities := a\<rparr>) entity_record_slot entity_record_write (pf_junk E 8)
         \<lparr>en_id = i, en_name = name_id, en_name_term = t, en_created_at = now, en_flags = 0\<rparr>) (\<lambda>_.
     and_then (insert_at m_by_name (\<lambda>a m. m\<lparr>m_by_name := a\<rparr>) entity_by_name_slot entity_by_name_write (pf_junk E 9)
         \<lparr>bn_name_term = t, bn_id = i\<rparr>) (\<lambda>_.
     and_then (panic_if (\<lambda>m. m_next_entity m = - 1)) (\<lambda>_.
     and_then (modify (\<lambda>m. m\<lparr>m_next_entity := m_next_entity m + 1\<rparr>)) (\<lambda>_.
       done_with i)))))))"

definition resolve_or_create_entity :: "platform \<Rightarrow> bytes \<Rightarrow> u64 \<Rightarrow> (memory, entity_id) effect" where
  "resolve_or_create_entity E name now =
     (let norm = normalize_name E name in
      if norm = [] then fail_with (Invalid ''entity name has no indexable characters'')
      else and_then (reads (\<lambda>m. lookup_entity_by_norm E m norm)) (\<lambda>found. case found of
             Some i \<Rightarrow> done_with i
           | None \<Rightarrow> create_entity E norm name now))"

section \<open>Reading facts\<close>

definition m_fact :: "memory \<Rightarrow> fact_id \<Rightarrow> fact_record option option" where
  "m_fact m fid = arena_get fact_record_slot fact_record_read (m_facts m) (u32_be fid)"

definition m_aux :: "memory \<Rightarrow> fact_id \<Rightarrow> fact_aux option option" where
  "m_aux m fid = arena_get fact_aux_slot fact_aux_read (m_fact_aux m) (u32_be fid)"

definition is_tombstone :: "fact_record \<Rightarrow> bool" where
  "is_tombstone r \<longleftrightarrow> fr_flags r AND TOMBSTONE \<noteq> 0"

definition is_closed :: "fact_record \<Rightarrow> bool" where
  "is_closed r \<longleftrightarrow> fr_flags r AND CLOSED \<noteq> 0"

definition has_vector :: "fact_record \<Rightarrow> bool" where
  "has_vector r \<longleftrightarrow> fr_flags r AND HAS_VECTOR \<noteq> 0"

text \<open>\<open>get\<close>: the record and its text, unless it is unknown, tombstoned or its text is unreadable.\<close>

definition get_fact :: "memory \<Rightarrow> fact_id \<Rightarrow> (fact_record \<times> bytes) option option" where
  "get_fact m fid = do {
     found \<leftarrow> m_fact m fid;
     (case found of
        None \<Rightarrow> Some None
      | Some r \<Rightarrow> if is_tombstone r then Some None
          else map_option (\<lambda>bs. if utf8_valid bs then Some (r, bs) else None) (blob_get (m_texts m) (fr_text r))) }"

text \<open>The term ids of a tag list, chunk by chunk.\<close>

definition tag_ids :: "memory \<Rightarrow> list_handle \<Rightarrow> u32 list option" where
  "tag_ids m l = map_option (\<lambda>chunks. map u32_of_be (concat (map (chunks_exact 4) chunks))) (chunk_iter (m_tag_lists m) l)"

definition tags_of :: "memory \<Rightarrow> fact_id \<Rightarrow> term_id list option" where
  "tags_of m fid = do {
     found \<leftarrow> m_fact m fid;
     (case found of
        None \<Rightarrow> Some []
      | Some r \<Rightarrow> if is_tombstone r then Some []
          else do {
            aux \<leftarrow> m_aux m fid;
            (case aux of None \<Rightarrow> Some [] | Some a \<Rightarrow> tag_ids m (fa_tags a)) }) }"

definition metadata_of :: "memory \<Rightarrow> fact_id \<Rightarrow> (bytes \<times> bytes) list option" where
  "metadata_of m fid = do {
     found \<leftarrow> m_fact m fid;
     (case found of
        None \<Rightarrow> Some []
      | Some r \<Rightarrow> if is_tombstone r then Some []
          else do {
            aux \<leftarrow> m_aux m fid;
            (case aux of
               None \<Rightarrow> Some []
             | Some a \<Rightarrow>
                 if fa_meta a = NONE_U32 \<or> of_nat (blob_count (m_metas m)) \<le> fa_meta a then Some []
                 else map_option (\<lambda>bs. case metadata_decode bs of Inl _ \<Rightarrow> [] | Inr pairs \<Rightarrow> pairs) (blob_get (m_metas m) (fa_meta a))) }) }"

definition entity_name :: "memory \<Rightarrow> entity_id \<Rightarrow> bytes option option" where
  "entity_name m eid = do {
     found \<leftarrow> arena_get entity_record_slot entity_record_read (m_entities m) (u32_be eid);
     (case found of
        None \<Rightarrow> Some None
      | Some r \<Rightarrow> map_option (\<lambda>bs. if utf8_valid bs then Some bs else None) (blob_get (m_texts m) (en_name r))) }"

section \<open>Remembering\<close>

record remember_input =
  ri_now :: u64
  ri_text :: bytes
  ri_entity :: "bytes option"
  ri_tags :: "bytes list"
  ri_links :: "(bytes \<times> bytes) list"
  ri_vector :: "f32 list option"
  ri_valid_from :: "u64 option"
  ri_metadata :: "(bytes \<times> bytes) list option"

text \<open>The tokenizer's callback: tokens are interned and counted until an interning fails.\<close>

fun count_tokens :: "platform \<Rightarrow> bytes list \<Rightarrow> (memory, unit) effect" where
  "count_tokens E [] = done_with ()"
| "count_tokens E (token # tokens) =
     and_then (intern_term E token) (\<lambda>t.
     and_then (update (\<lambda>m. map_option (\<lambda>(tfs, table). m\<lparr>m_tf_scratch := tfs, m_tf_probe := table\<rparr>)
         (tally_term t (m_tf_scratch m, m_tf_probe m)))) (\<lambda>_.
       count_tokens E tokens))"

text \<open>The scratch is taken out while the document is indexed, and lost when that fails.\<close>

definition index_text :: "platform \<Rightarrow> fact_id \<Rightarrow> bytes \<Rightarrow> (memory, unit) effect" where
  "index_text E fid body =
     and_then (modify (\<lambda>m. m\<lparr>m_tf_scratch := [], m_tf_probe := map (\<lambda>_. 0) (m_tf_probe m)\<rparr>)) (\<lambda>_.
     and_then (count_tokens E (pf_tokens E body)) (\<lambda>_.
     and_then (gets m_tf_scratch) (\<lambda>tfs.
     and_then (modify (\<lambda>m. m\<lparr>m_tf_scratch := []\<rparr>)) (\<lambda>_.
     and_then (zoom m_bm25 (\<lambda>b m. m\<lparr>m_bm25 := b\<rparr>) (index_doc (pf_junk E) fid tfs)) (\<lambda>_.
       modify (\<lambda>m. m\<lparr>m_tf_scratch := tfs\<rparr>))))))"

definition store_metadata :: "(bytes \<times> bytes) list option \<Rightarrow> (memory, blob_id) effect" where
  "store_metadata metadata = (case metadata of
     Some (p # ps) \<Rightarrow> and_then (give (metadata_encode (p # ps))) push_meta
   | _ \<Rightarrow> done_with NONE_U32)"

text \<open>The tag loop: the handle of the fact's tag list and the distinct terms so far.\<close>

fun attach_tags :: "platform \<Rightarrow> fact_id \<Rightarrow> bytes list \<Rightarrow> list_handle \<times> u32 list \<Rightarrow> (memory, list_handle \<times> u32 list) effect" where
  "attach_tags E fid [] acc = done_with acc"
| "attach_tags E fid (tag # tags) (handle, seen) =
     and_then (intern_term E tag) (\<lambda>t.
       if t \<in> set seen then attach_tags E fid tags (handle, seen)
       else and_then (panic_if (\<lambda>_. MAX_TAGS \<le> length seen)) (\<lambda>_.
            and_then (chunk_push_at m_tag_lists (\<lambda>p m. m\<lparr>m_tag_lists := p\<rparr>) handle (u32_be t)) (\<lambda>handle.
            and_then (zoom m_tags_idx (\<lambda>p m. m\<lparr>m_tags_idx := p\<rparr>) (posting_push False (pf_junk E 11) t fid 0)) (\<lambda>_.
              attach_tags E fid tags (handle, seen @ [t])))))"

fun open_links :: "platform \<Rightarrow> u64 \<Rightarrow> entity_id \<Rightarrow> fact_id \<Rightarrow> (bytes \<times> bytes) list \<Rightarrow> (memory, unit) effect" where
  "open_links E now src fid [] = done_with ()"
| "open_links E now src fid ((rel, dst_name) # links) =
     and_then (resolve_or_create_entity E dst_name now) (\<lambda>dst.
     and_then (intern_term E rel) (\<lambda>rel.
     and_then (zoom m_graph (\<lambda>g m. m\<lparr>m_graph := g\<rparr>) (open_edge (pf_junk E) now src rel dst fid)) (\<lambda>_.
       open_links E now src fid links)))"

definition store_vector :: "platform \<Rightarrow> fact_id \<Rightarrow> f32 list option \<Rightarrow> u32 option \<Rightarrow> (memory, u32 \<times> u16) effect" where
  "store_vector E fid vector copy_vector = (case (vector, copy_vector) of
     (Some v, None) \<Rightarrow> and_then (zoom m_vecs (\<lambda>p m. m\<lparr>m_vecs := p\<rparr>) (vecs_push (pf_f32 E) fid v)) (\<lambda>slot. done_with (slot, HAS_VECTOR))
   | (None, Some source) \<Rightarrow>
       and_then (zoom m_vecs (\<lambda>p m. m\<lparr>m_vecs := p\<rparr>) (clone_slot_for_fact fid source)) (\<lambda>slot. done_with (slot, HAS_VECTOR))
   | (None, None) \<Rightarrow> done_with (NONE_U32, 0)
   | (Some _, Some _) \<Rightarrow> need None)"

fun change_tags :: "platform \<Rightarrow> u32 list \<Rightarrow> int \<Rightarrow> (memory, unit) effect" where
  "change_tags E [] delta = done_with ()"
| "change_tags E (t # ts) delta =
     and_then (update (\<lambda>m. map_option (\<lambda>c. m\<lparr>m_tag_catalog := c\<rparr>) (tag_change (pf_hash E) (m_terms m) t delta (m_tag_catalog m)))) (\<lambda>_.
       change_tags E ts delta)"

text \<open>What \<open>apply_remember\<close> writes once the indexes are done: the fact record, the temporal index and the tag counts.\<close>

definition commit_fact :: "platform \<Rightarrow> fact_record \<Rightarrow> u32 list \<Rightarrow> (memory, unit) effect" where
  "commit_fact E r seen =
     and_then (insert_at m_facts (\<lambda>a m. m\<lparr>m_facts := a\<rparr>) fact_record_slot fact_record_write (pf_junk E 6) r) (\<lambda>_.
     and_then (insert_at m_temporal (\<lambda>a m. m\<lparr>m_temporal := a\<rparr>) temporal_slot_slot temporal_slot_write (pf_junk E 10)
         \<lparr>ts_recorded_at = fr_recorded_at r, ts_fact = fr_id r\<rparr>) (\<lambda>_.
     and_then (change_tags E seen 1) (\<lambda>_.
     and_then (panic_if (\<lambda>m. m_next_fact m = - 1)) (\<lambda>_.
       modify (\<lambda>m. m\<lparr>m_next_fact := m_next_fact m + 1\<rparr>)))))"

definition resolve_subject :: "platform \<Rightarrow> bytes option \<Rightarrow> u64 \<Rightarrow> (memory, entity_id option) effect" where
  "resolve_subject E entity now = (case entity of
     None \<Rightarrow> done_with None
   | Some name \<Rightarrow> and_then (resolve_or_create_entity E name now) (\<lambda>i. done_with (Some i)))"

definition apply_remember :: "platform \<Rightarrow> remember_input \<Rightarrow> fact_id \<Rightarrow> u32 option \<Rightarrow> (memory, fact_id \<times> entity_id option) effect" where
  "apply_remember E input revises copy_vector =
     and_then (gets m_next_fact) (\<lambda>fid.
     and_then (resolve_subject E (ri_entity input) (ri_now input)) (\<lambda>entity.
     and_then (push_text (ri_text input)) (\<lambda>text_id.
     and_then (index_text E fid (ri_text input)) (\<lambda>_.
     and_then (store_metadata (ri_metadata input)) (\<lambda>meta.
     and_then (attach_tags E fid (ri_tags input) (EMPTY, [])) (\<lambda>(handle, seen).
     and_then (insert_at m_fact_aux (\<lambda>a m. m\<lparr>m_fact_aux := a\<rparr>) fact_aux_slot fact_aux_write (pf_junk E 7)
         \<lparr>fa_id = fid, fa_tags = handle, fa_meta = meta\<rparr>) (\<lambda>_.
     and_then (case entity of
         None \<Rightarrow> done_with ()
       | Some src \<Rightarrow> and_then (open_links E (ri_now input) src fid (ri_links input)) (\<lambda>_.
           zoom m_entity_facts (\<lambda>p m. m\<lparr>m_entity_facts := p\<rparr>) (posting_push False (pf_junk E 12) src fid 0))) (\<lambda>_.
     and_then (store_vector E fid (ri_vector input) copy_vector) (\<lambda>(vector, flags).
     and_then (commit_fact E \<lparr>fr_id = fid, fr_entity = id_from_opt entity, fr_flags = flags, fr_kind = 0, fr_text = text_id,
           fr_vector = vector, fr_revises = revises, fr_recorded_at = ri_now input,
           fr_valid_from = (case ri_valid_from input of None \<Rightarrow> ri_now input | Some t \<Rightarrow> t), fr_valid_to = VALID_TO_OPEN\<rparr> seen) (\<lambda>_.
       done_with (fid, entity)))))))))))"

section \<open>Closing, forgetting, retagging\<close>

definition change_catalog_for_fact :: "platform \<Rightarrow> fact_id \<Rightarrow> int \<Rightarrow> (memory, unit) effect" where
  "change_catalog_for_fact E fid delta =
     and_then (reads (\<lambda>m. m_aux m fid)) (\<lambda>aux. case aux of
       None \<Rightarrow> done_with ()
     | Some a \<Rightarrow> and_then (reads (\<lambda>m. tag_ids m (fa_tags a))) (\<lambda>ids. change_tags E (take MAX_TAGS ids) delta))"

definition check_revisable :: "memory \<Rightarrow> fact_id \<Rightarrow> (core_error + unit) option" where
  "check_revisable m target =
     map_option (\<lambda>found. case found of
         None \<Rightarrow> Inl (NotFound target)
       | Some r \<Rightarrow> if is_tombstone r then Inl (NotFound target) else if is_closed r then Inl (AlreadyClosed target) else Inr ())
       (m_fact m target)"

text \<open>Payload offsets are slot offsets less the four bytes of the key.\<close>

definition close_target :: "platform \<Rightarrow> fact_id \<Rightarrow> u64 \<Rightarrow> (memory, unit) effect" where
  "close_target E target valid_to =
     and_then (reads (\<lambda>m. m_fact m target)) (\<lambda>found.
     and_then (need found) (\<lambda>r.
     and_then (payload_at m_facts (\<lambda>a m. m\<lparr>m_facts := a\<rparr>) fact_record_slot (u32_be target)
         (\<lambda>p. splice (splice p 4 (u16_be (fr_flags r OR CLOSED))) 36 (u64_be valid_to)) (need None)) (\<lambda>_.
       change_catalog_for_fact E target (- 1))))"

definition apply_forget :: "platform \<Rightarrow> fact_id \<Rightarrow> (memory, bool) effect" where
  "apply_forget E fid =
     and_then (reads (\<lambda>m. m_fact m fid)) (\<lambda>found. case found of
       None \<Rightarrow> fail_with (NotFound fid)
     | Some r \<Rightarrow>
         if is_tombstone r then done_with False
         else and_then (payload_at m_facts (\<lambda>a m. m\<lparr>m_facts := a\<rparr>) fact_record_slot (u32_be fid)
                (\<lambda>p. splice p 4 (u16_be (fr_flags r OR TOMBSTONE))) (need None)) (\<lambda>_.
              and_then (modify (\<lambda>m. m\<lparr>m_tombstones := m_tombstones m + 1\<rparr>)) (\<lambda>_.
              and_then (if is_closed r then done_with () else change_catalog_for_fact E fid (- 1)) (\<lambda>_.
                done_with True))))"

text \<open>The names of the tags that stay, and the rest of the input of the successor.\<close>

definition retag_input :: "memory \<Rightarrow> u64 \<Rightarrow> fact_id \<Rightarrow> bytes \<Rightarrow> fact_record \<Rightarrow> bytes \<Rightarrow> remember_input option" where
  "retag_input m now target gone r body = do {
     entity \<leftarrow> (case id_some (fr_entity r) of None \<Rightarrow> Some None | Some i \<Rightarrow> entity_name m i);
     ids \<leftarrow> tags_of m target;
     names \<leftarrow> those (map (interner_resolve (m_terms m)) ids);
     metadata \<leftarrow> metadata_of m target;
     Some \<lparr>ri_now = now, ri_text = body, ri_entity = entity, ri_tags = filter (\<lambda>name. name \<noteq> gone) names, ri_links = [],
       ri_vector = None, ri_valid_from = Some now, ri_metadata = (if metadata = [] then None else Some metadata)\<rparr> }"

definition retag_without :: "platform \<Rightarrow> u64 \<Rightarrow> fact_id \<Rightarrow> bytes \<Rightarrow> (memory, unit) effect" where
  "retag_without E now target gone =
     and_then (reads (\<lambda>m. m_fact m target)) (\<lambda>found.
     and_then (give (case found of None \<Rightarrow> Inl (NotFound target) | Some r \<Rightarrow> Inr r)) (\<lambda>r.
     and_then (reads (\<lambda>m. get_fact m target)) (\<lambda>view.
     and_then (give (case view of None \<Rightarrow> Inl (NotFound target) | Some (_, body) \<Rightarrow> Inr body)) (\<lambda>body.
     and_then (reads (\<lambda>m. retag_input m now target gone r body)) (\<lambda>input.
     and_then (apply_remember E input target (if has_vector r then Some (fr_vector r) else None)) (\<lambda>_.
       close_target E target now))))))"

fun retag_each :: "platform \<Rightarrow> u64 \<Rightarrow> bytes \<Rightarrow> fact_id list \<Rightarrow> u32 \<Rightarrow> (memory, u32) effect" where
  "retag_each E now tag [] affected = done_with affected"
| "retag_each E now tag (target # targets) affected =
     and_then (retag_without E now target tag) (\<lambda>_. retag_each E now tag targets (saturating_succ affected))"

text \<open>The facts under a tag that are neither forgotten nor closed.\<close>

definition current_tagged :: "memory \<Rightarrow> term_id \<Rightarrow> fact_id list option" where
  "current_tagged m t = do {
     es \<leftarrow> posting_entries False (m_tags_idx m) t;
     rs \<leftarrow> those (map (\<lambda>(fid, _). map_option (\<lambda>r. (fid, r)) (m_fact m fid)) es);
     Some (map fst (filter (\<lambda>(_, r). case r of None \<Rightarrow> False | Some r \<Rightarrow> \<not> is_tombstone r \<and> \<not> is_closed r) rs)) }"

definition apply_remove_tag :: "platform \<Rightarrow> u64 \<Rightarrow> bytes \<Rightarrow> (memory, u32) effect" where
  "apply_remove_tag E now tag =
     and_then (reads (\<lambda>m. lookup_term E m tag)) (\<lambda>found. case found of
       None \<Rightarrow> done_with 0
     | Some t \<Rightarrow> and_then (reads (\<lambda>m. current_tagged m t)) (\<lambda>targets. retag_each E now tag targets 0))"

section \<open>Edges\<close>

definition apply_link :: "platform \<Rightarrow> u64 \<Rightarrow> bytes \<Rightarrow> bytes \<Rightarrow> bytes \<Rightarrow> fact_id \<Rightarrow> (memory, unit) effect" where
  "apply_link E now src rel dst provenance =
     and_then (resolve_or_create_entity E src now) (\<lambda>src.
     and_then (resolve_or_create_entity E dst now) (\<lambda>dst.
     and_then (intern_term E rel) (\<lambda>rel.
       zoom m_graph (\<lambda>g m. m\<lparr>m_graph := g\<rparr>) (open_edge (pf_junk E) now src rel dst provenance))))"

definition apply_unlink :: "platform \<Rightarrow> u64 \<Rightarrow> bytes \<Rightarrow> bytes \<Rightarrow> bytes \<Rightarrow> (memory, bool) effect" where
  "apply_unlink E now src rel dst =
     and_then (reads (\<lambda>m. lookup_entity_name E m src)) (\<lambda>found. case found of
       None \<Rightarrow> done_with False
     | Some src \<Rightarrow> and_then (reads (\<lambda>m. lookup_entity_name E m dst)) (\<lambda>found. case found of
         None \<Rightarrow> done_with False
       | Some dst \<Rightarrow> and_then (reads (\<lambda>m. lookup_term E m rel)) (\<lambda>found. case found of
           None \<Rightarrow> done_with False
         | Some rel \<Rightarrow> zoom m_graph (\<lambda>g m. m\<lparr>m_graph := g\<rparr>) (close_current_edge now src rel dst))))"

section \<open>The vector space\<close>

definition MAX_VECTOR_SPACE_ID_BYTES :: nat where "MAX_VECTOR_SPACE_ID_BYTES = 256"

definition validate_vector_space :: "bytes \<Rightarrow> core_error + unit" where
  "validate_vector_space space =
     (if space = [] then Inl (Invalid ''vector space must not be empty'')
      else if MAX_VECTOR_SPACE_ID_BYTES < length space then Inl (TooLarge ''vector space'' (length space) MAX_VECTOR_SPACE_ID_BYTES)
      else if list_ex (\<lambda>b. b < 32 \<or> b = 127) space then Inl (Invalid ''vector space must not contain control bytes'')
      else Inr ())"

definition check_vector_space_claim :: "memory \<Rightarrow> bytes \<Rightarrow> core_error + bool" where
  "check_vector_space_claim m space =
     try_res (validate_vector_space space) (\<lambda>_. case m_vector_space m of
       Some known \<Rightarrow>
         if known = space then Inr False
         else if \<not> vecs_is_empty (m_vecs m) then Inl (VectorSpaceMismatch known space)
         else Inr True
     | None \<Rightarrow> if \<not> vecs_is_empty (m_vecs m) then Inl UntrackedVectorSpace else Inr True)"

definition apply_set_vector_space :: "bytes \<Rightarrow> (memory, unit) effect" where
  "apply_set_vector_space space =
     and_then (give (validate_vector_space space)) (\<lambda>_.
     and_then (gets m_vector_space) (\<lambda>known.
     and_then (gets m_vecs) (\<lambda>vecs.
       if known = Some space then done_with ()
       else if known \<noteq> None \<and> \<not> vecs_is_empty vecs then fail_with (Corrupt_core ''journal changes an established vector space'')
       else if \<not> vecs_is_empty vecs then fail_with (Corrupt_core ''journal assigns a vector space after vector records'')
       else modify (\<lambda>m. m\<lparr>m_vector_space := Some space\<rparr>))))"

section \<open>Sizes\<close>

record mem_stats =
  sz_facts :: nat
  sz_entities :: nat
  sz_terms :: nat
  sz_edges :: nat
  sz_edge_versions :: nat
  sz_vectors :: nat
  sz_tombstones :: nat
  sz_hnsw_indexed :: u32
  sz_next_fact :: u32
  sz_next_entity :: u32
  sz_next_edge :: u32
  sz_db_uuid :: u128
  sz_pool_bytes :: nat

text \<open>\<open>stats\<close>; the two figures of the HNSW graph are arguments, and the shard layout repeats the configuration.\<close>

definition memory_stats :: "memory \<Rightarrow> u32 \<Rightarrow> nat \<Rightarrow> mem_stats" where
  "memory_stats m hnsw_indexed hnsw_bytes =
     \<lparr>sz_facts = arena_len (m_facts m), sz_entities = arena_len (m_entities m), sz_terms = interner_count (m_terms m),
      sz_edges = arena_len (edges_out (m_graph m)), sz_edge_versions = arena_len (edges_hist_out (m_graph m)),
      sz_vectors = vecs_len (m_vecs m), sz_tombstones = m_tombstones m, sz_hnsw_indexed = hnsw_indexed,
      sz_next_fact = m_next_fact m, sz_next_entity = m_next_entity m, sz_next_edge = next_edge (m_graph m),
      sz_db_uuid = cf_db_uuid (m_cfg m),
      sz_pool_bytes = arena_pool_bytes (m_facts m) + arena_pool_bytes (m_fact_aux m) + arena_pool_bytes (m_entities m)
        + arena_pool_bytes (m_by_name m) + arena_pool_bytes (edges_out (m_graph m)) + arena_pool_bytes (edges_in (m_graph m))
        + arena_pool_bytes (edges_hist_out (m_graph m)) + arena_pool_bytes (edges_hist_in (m_graph m))
        + arena_pool_bytes (m_temporal m) + pool_len (m_texts m) + interner_pool_bytes (m_terms m)
        + cp_pool_bytes (m_tag_lists m) + bm25_pool_bytes (m_bm25 m) + posting_pool_bytes (m_tags_idx m)
        + catalog_pool_bytes (m_tag_catalog m) + posting_pool_bytes (m_entity_facts m) + vecs_pool_len (m_vecs m) + hnsw_bytes\<rparr>"

end
