(* ===== verification/Similar.thy ===== *)
theory Similar
  imports Engine
begin

unbundle bit_operations_syntax

text \<open>
  Similar-fact detection, \<open>scan_similar\<close> of \<open>crates/plugmem-core/src/memory.rs\<close> with the quantised cosine of
  \<open>crates/plugmem-core/src/index/vecpool.rs\<close>: the most recent facts of an entity are compared with a new
  text by the Jaccard overlap of their term sets and by their vectors; a term-set summary rules out
  candidates without reading their text. Comparisons of \<open>f32\<close> values are read off the bits.
\<close>

section \<open>Comparing floats\<close>

definition f32_order :: "f32 \<Rightarrow> int" where
  "f32_order x = (let i = sint x in if 0 \<le> i then i else - 1 - i - 2 ^ 31)"

definition f32_magnitude :: "f32 \<Rightarrow> int" where
  "f32_magnitude x = (if x < 2147483648 then uint x else 2 ^ 31 - uint x)"

definition f32_lt :: "f32 \<Rightarrow> f32 \<Rightarrow> bool" where
  "f32_lt x y \<longleftrightarrow> \<not> f32_is_nan x \<and> \<not> f32_is_nan y \<and> f32_magnitude x < f32_magnitude y"

section \<open>Quantised cosine\<close>

definition DOT_LANES :: nat where "DOT_LANES = 16"

definition i8_products :: "bytes \<Rightarrow> bytes \<Rightarrow> int list" where
  "i8_products x y = map (\<lambda>(a, b). sint a * sint b) (zip x y)"

text \<open>Sixteen running sums over whole chunks, their total, and the products of the remainders.\<close>

definition dot_i8 :: "bytes \<Rightarrow> bytes \<Rightarrow> int" where
  "dot_i8 a b =
     (let lanes = fold (\<lambda>(x, y) lanes. map (\<lambda>(l, p). l + p) (zip lanes (i8_products x y)))
            (zip (chunks_exact DOT_LANES a) (chunks_exact DOT_LANES b)) (replicate DOT_LANES 0)
      in fold (\<lambda>p acc. acc + p) (i8_products (drop (length a div DOT_LANES * DOT_LANES) a) (drop (length b div DOT_LANES * DOT_LANES) b))
           (sum_list lanes))"

definition q_offset :: "vec_pool \<Rightarrow> nat" where
  "q_offset p = HEAD + sig_words (vp_dim p) * SIG_WORD_BYTES"

definition cosine_at :: "f32_ops \<Rightarrow> vec_pool \<Rightarrow> nat \<Rightarrow> nat \<Rightarrow> f32 option" where
  "cosine_at ops p a b = do {
     sa \<leftarrow> slot_bytes p a;
     sb \<leftarrow> slot_bytes p b;
     ka \<leftarrow> slot_scale p a;
     kb \<leftarrow> slot_scale p b;
     Some (fl_mul ops (fl_mul ops ka kb)
       (fl_of_int ops (dot_i8 (slice sa (q_offset p) (vec_stride (vp_dim p))) (slice sb (q_offset p) (vec_stride (vp_dim p)))))) }"

definition cosine_slots :: "f32_ops \<Rightarrow> vec_pool \<Rightarrow> u32 \<Rightarrow> u32 \<Rightarrow> f32 option" where
  "cosine_slots ops p a b =
     (if vecs_len p \<le> unat a \<or> vecs_len p \<le> unat b then Some 0 else cosine_at ops p (unat a) (unat b))"

definition cosine_encoded_slot :: "f32_ops \<Rightarrow> vec_pool \<Rightarrow> bytes \<Rightarrow> u32 \<Rightarrow> f32 option" where
  "cosine_encoded_slot ops p encoded slot =
     (if length encoded \<noteq> vec_stride (vp_dim p) \<or> vecs_len p \<le> unat slot then Some 0
      else do {
        bs \<leftarrow> slot_bytes p (unat slot);
        scale \<leftarrow> slot_scale p (unat slot);
        Some (fl_mul ops (fl_mul ops (u32_of_le (slice encoded FACT_BYTES HEAD)) scale)
          (fl_of_int ops (dot_i8 (slice encoded (q_offset p) (vec_stride (vp_dim p))) (slice bs (q_offset p) (vec_stride (vp_dim p)))))) })"

section \<open>Queries and hints\<close>

definition SIMILAR_CANDIDATE_CAP :: nat where "SIMILAR_CANDIDATE_CAP = 32"

datatype similar_reason = LexicalOverlap | VectorCosine

record similar_hint =
  sh_id :: fact_id
  sh_score :: f32
  sh_reason :: similar_reason

datatype similar_vector = No_vector | Stored_vector u32 | Encoded_vector bytes

record similarity_query =
  sq_entity :: entity_id
  sq_exclude :: "fact_id option"
  sq_terms :: "u32 list"
  sq_count :: nat
  sq_vector :: similar_vector

text \<open>The ring of the most recent candidates, in the order of its slots.\<close>

definition ring_of :: "fact_id list \<Rightarrow> fact_id list" where
  "ring_of fids = take (min (length fids) SIMILAR_CANDIDATE_CAP)
     (fst (fold (\<lambda>f (ring, n). (ring[n mod SIMILAR_CANDIDATE_CAP := f], n + 1)) fids (replicate SIMILAR_CANDIDATE_CAP NONE_U32, 0)))"

text \<open>The distinct terms of some tokens that the vocabulary holds, and the tokens it does not.\<close>

fun known_terms :: "platform \<Rightarrow> memory \<Rightarrow> bytes list \<Rightarrow> u32 list \<Rightarrow> u32 list option" where
  "known_terms E m [] out = Some out"
| "known_terms E m (token # tokens) out = do {
     found \<leftarrow> lookup_term E m token;
     known_terms E m tokens (case found of None \<Rightarrow> out | Some t \<Rightarrow> if t \<in> set out then out else out @ [t]) }"

fun unknown_tokens :: "platform \<Rightarrow> memory \<Rightarrow> bytes list \<Rightarrow> bytes list \<Rightarrow> bytes list option" where
  "unknown_tokens E m [] out = Some out"
| "unknown_tokens E m (token # tokens) out = do {
     found \<leftarrow> lookup_term E m token;
     unknown_tokens E m tokens (if found \<noteq> None \<or> token \<in> set out then out else out @ [token]) }"

definition f32_of_nat :: "platform \<Rightarrow> nat \<Rightarrow> f32" where
  "f32_of_nat E n = fl_of_int (pf_f32 E) (int n)"

definition jaccard_exceeds :: "platform \<Rightarrow> memory \<Rightarrow> nat \<Rightarrow> nat \<Rightarrow> bool" where
  "jaccard_exceeds E m both all_terms \<longleftrightarrow>
     f32_lt (cf_similar_jaccard (m_cfg m)) (fl_div (pf_f32 E) (f32_of_nat E both) (f32_of_nat E all_terms))"

definition overlap_possible :: "platform \<Rightarrow> memory \<Rightarrow> fact_id \<Rightarrow> u32 list \<Rightarrow> nat \<Rightarrow> bool \<Rightarrow> bool option" where
  "overlap_possible E m candidate new_terms new_count trust =
     (if \<not> trust then Some True
      else do {
        found \<leftarrow> bm25_doc (m_bm25 m) candidate;
        (case found of
           None \<Rightarrow> Some True
         | Some doc \<Rightarrow>
             if \<not> has_signature doc then Some True
             else let bound = overlap_bound doc new_terms in
                  if new_count < bound then None
                  else Some (jaccard_exceeds E m bound ((new_count - bound) + unat (dl_distinct doc)))) })"

text \<open>The lexical signal of a candidate whose text may overlap; an unreadable text gives none.\<close>

definition lexical_signal :: "platform \<Rightarrow> memory \<Rightarrow> similarity_query \<Rightarrow> fact_record \<Rightarrow> f32 option option" where
  "lexical_signal E m q r = do {
     bs \<leftarrow> blob_get (m_texts m) (fr_text r);
     if \<not> utf8_valid bs then Some None
     else do {
       cand \<leftarrow> known_terms E m (pf_tokens E bs) [];
       let both = length (filter (\<lambda>t. t \<in> set (sq_terms q)) cand);
       let all_terms = length cand + sq_count q - both;
       Some (if cand \<noteq> [] \<and> jaccard_exceeds E m both all_terms
             then Some (fl_div (pf_f32 E) (f32_of_nat E both) (f32_of_nat E all_terms)) else None) } }"

definition vector_signal :: "platform \<Rightarrow> memory \<Rightarrow> similarity_query \<Rightarrow> fact_record \<Rightarrow> f32 option option" where
  "vector_signal E m q r =
     (if \<not> has_vector r then Some None
      else map_option (\<lambda>cos. if f32_lt (cf_similar_cos (m_cfg m)) cos then Some cos else None)
        (case sq_vector q of
           No_vector \<Rightarrow> Some 0
         | Stored_vector slot \<Rightarrow> cosine_slots (pf_f32 E) (m_vecs m) slot (fr_vector r)
         | Encoded_vector encoded \<Rightarrow> cosine_encoded_slot (pf_f32 E) (m_vecs m) encoded (fr_vector r)))"

definition best_signal :: "f32 option \<Rightarrow> f32 option \<Rightarrow> (f32 \<times> similar_reason) option" where
  "best_signal lexical vector = (case (lexical, vector) of
     (Some l, Some v) \<Rightarrow> Some (if f32_lt l v then (v, VectorCosine) else (l, LexicalOverlap))
   | (Some l, None) \<Rightarrow> Some (l, LexicalOverlap)
   | (None, Some v) \<Rightarrow> Some (v, VectorCosine)
   | (None, None) \<Rightarrow> None)"

definition judge_candidate :: "platform \<Rightarrow> memory \<Rightarrow> similarity_query \<Rightarrow> bool \<Rightarrow> fact_id \<Rightarrow> similar_hint list option" where
  "judge_candidate E m q trust fid = do {
     may \<leftarrow> (if sq_terms q = [] then Some False else overlap_possible E m fid (sq_terms q) (sq_count q) trust);
     if sq_vector q = No_vector \<and> \<not> may then Some []
     else do {
       found \<leftarrow> m_fact m fid;
       (case found of
          None \<Rightarrow> Some []
        | Some r \<Rightarrow>
            if is_tombstone r \<or> is_closed r then Some []
            else do {
              lexical \<leftarrow> (if may then lexical_signal E m q r else Some None);
              vector \<leftarrow> vector_signal E m q r;
              Some (case best_signal lexical vector of None \<Rightarrow> []
                | Some (score, reason) \<Rightarrow> [\<lparr>sh_id = fid, sh_score = score, sh_reason = reason\<rparr>]) }) } }"

text \<open>Best score first, then by id, at most eight. The scan needs a trustworthy index to use summaries.\<close>

definition scan_similar :: "platform \<Rightarrow> memory \<Rightarrow> similarity_query \<Rightarrow> similar_hint list option" where
  "scan_similar E m q =
     (if sq_count q = 0 \<and> sq_vector q = No_vector then Some []
      else do {
        es \<leftarrow> posting_entries False (m_entity_facts m) (sq_entity q);
        let ring = ring_of (filter (\<lambda>f. sq_exclude q \<noteq> Some f) (map fst es));
        hints \<leftarrow> those (map (judge_candidate E m q (m_tokenizer_version m = TOKENIZER_INDEX_VERSION)) ring);
        Some (take 8 (sort_key (\<lambda>s. - f32_order (sh_score s)) (sort_key sh_id (concat hints)))) })"

definition find_similar :: "platform \<Rightarrow> memory \<Rightarrow> fact_id \<times> entity_id option \<Rightarrow> similar_hint list option" where
  "find_similar E m outcome = (case snd outcome of
     None \<Rightarrow> Some []
   | Some entity \<Rightarrow> do {
       found \<leftarrow> m_fact m (fst outcome);
       let terms = map fst (m_tf_scratch m);
       scan_similar E m \<lparr>sq_entity = entity, sq_exclude = Some (fst outcome), sq_terms = terms, sq_count = length terms,
         sq_vector = (case found of Some r \<Rightarrow> if has_vector r then Stored_vector (fr_vector r) else No_vector | None \<Rightarrow> No_vector)\<rparr> })"

definition find_similar_input :: "platform \<Rightarrow> memory \<Rightarrow> remember_input \<Rightarrow> (core_error + similar_hint list) option" where
  "find_similar_input E m input = (case ri_entity input of
     None \<Rightarrow> Some (Inr [])
   | Some name \<Rightarrow> do {
       found \<leftarrow> lookup_entity_name E m name;
       (case found of
          None \<Rightarrow> Some (Inr [])
        | Some entity \<Rightarrow> do {
            new_terms \<leftarrow> known_terms E m (pf_tokens E (ri_text input)) [];
            unknown \<leftarrow> unknown_tokens E m (pf_tokens E (ri_text input)) [];
            (case (case ri_vector input of None \<Rightarrow> Inr No_vector
                   | Some v \<Rightarrow> map_sum id Encoded_vector (encode_slot (pf_f32 E) (vp_dim (m_vecs m)) NONE_U32 v)) of
               Inl e \<Rightarrow> Some (Inl e)
             | Inr vector \<Rightarrow> map_option Inr (scan_similar E m \<lparr>sq_entity = entity, sq_exclude = None, sq_terms = new_terms,
                 sq_count = length new_terms + length unknown, sq_vector = vector\<rparr>)) }) })"

section \<open>The dot product\<close>

text \<open>Summing by lanes is summing in order, and the sum stays far inside 32 bits.\<close>

lemma products_append: "length x = length y \<Longrightarrow> i8_products (x @ x') (y @ y') = i8_products x y @ i8_products x' y'"
  by (simp add: i8_products_def)

lemma lane_sum: "length l = length p \<Longrightarrow> sum_list (map (\<lambda>(l, p). l + p) (zip l p)) = sum_list l + (sum_list p :: int)"
  by (induction l p rule: list_induct2) simp_all

lemma lanes_fold:
  "length lanes = n \<Longrightarrow> \<forall>i \<in> set is. length (f i) = n \<and> length (g i) = n \<Longrightarrow>
    sum_list (fold (\<lambda>(x, y) lanes. map (\<lambda>(l, p). l + p) (zip lanes (i8_products x y))) (map (\<lambda>i. (f i, g i)) is) lanes) =
      sum_list lanes + (\<Sum>i \<leftarrow> is. sum_list (i8_products (f i) (g i)))"
proof (induction "is" arbitrary: lanes)
  case (Cons i "is")
  have l: "length (i8_products (f i) (g i)) = length lanes" using Cons.prems by (simp add: i8_products_def)
  then show ?case using Cons.prems Cons.IH [of "map (\<lambda>(l, p). l + p) (zip lanes (i8_products (f i) (g i)))"]
    by (simp add: lane_sum)
qed simp

lemma chunk_sum:
  "k * n \<le> length a \<Longrightarrow> length a = length b \<Longrightarrow>
    (\<Sum>i \<leftarrow> [0..<k]. sum_list (i8_products (slice a (i * n) (i * n + n)) (slice b (i * n) (i * n + n)))) =
      sum_list (i8_products (take (k * n) a) (take (k * n) b))"
proof (induction k)
  case (Suc k)
  have "take (Suc k * n) xs = take (k * n) xs @ slice xs (k * n) (k * n + n)" for xs :: bytes
  proof -
    have "slice xs (k * n) (k * n + n) = take n (drop (k * n) xs)" by (simp add: slice_def drop_take del: take_add)
    then show ?thesis using take_add [of "k * n" n xs] by (simp add: add.commute [of n])
  qed
  then show ?case using Suc by (simp add: products_append)
qed (simp add: i8_products_def)

lemma dot_i8_sum:
  assumes "length a = length b"
  shows "dot_i8 a b = (\<Sum>(x, y) \<leftarrow> zip a b. sint x * sint y)"
proof -
  let ?k = "length a div DOT_LANES"
  have k: "?k * DOT_LANES \<le> length a" by simp
  have z: "zip (chunks_exact DOT_LANES a) (chunks_exact DOT_LANES b) =
      map (\<lambda>i. (slice a (i * DOT_LANES) (i * DOT_LANES + DOT_LANES), slice b (i * DOT_LANES) (i * DOT_LANES + DOT_LANES))) [0..<?k]"
    using assms by (simp add: chunks_exact_def zip_map_map zip_same_conv_map)
  have in_range: "i * DOT_LANES + DOT_LANES \<le> length a" if "i < ?k" for i
    using mult_le_mono1 [of "Suc i" ?k DOT_LANES] that k by (simp only: mult_Suc) linarith
  have fold_add: "fold (\<lambda>p acc. acc + p) ps c = c + sum_list ps" for ps :: "int list" and c
    by (induction ps arbitrary: c) simp_all
  have "dot_i8 a b = sum_list (i8_products (take (?k * DOT_LANES) a) (take (?k * DOT_LANES) b)) +
      sum_list (i8_products (drop (?k * DOT_LANES) a) (drop (?k * DOT_LANES) b))"
    unfolding dot_i8_def Let_def fold_add z
    by (subst lanes_fold [where n = DOT_LANES]) (use assms in_range chunk_sum [OF k assms] in \<open>auto simp: sum_list_replicate\<close>)
  also have "\<dots> = sum_list (i8_products a b)"
    using products_append [of "take (?k * DOT_LANES) a" "take (?k * DOT_LANES) b"] assms by (metis append_take_drop_id length_take sum_list_append)
  finally show ?thesis by (simp add: i8_products_def)
qed

lemma i8_range: "\<bar>sint x * sint y\<bar> \<le> 2 ^ 14" for x y :: u8
proof -
  have "\<bar>sint z\<bar> \<le> 2 ^ 7" for z :: u8 using sint_lt [of z] sint_ge [of z] by simp
  from mult_mono [OF this [of x] this [of y]] show ?thesis by (simp add: abs_mult)
qed

lemma sum_list_bound: "\<forall>p \<in> set ps. \<bar>p\<bar> \<le> c \<Longrightarrow> \<bar>sum_list ps\<bar> \<le> int (length ps) * c"
  by (induction ps) (auto simp: algebra_simps)

lemma dot_i8_bound:
  assumes "length a = length b"
  shows "\<bar>dot_i8 a b\<bar> \<le> int (length a) * 2 ^ 14"
proof -
  let ?ps = "map (\<lambda>(x, y). sint x * sint y) (zip a b)"
  have "\<forall>p \<in> set ?ps. \<bar>p\<bar> \<le> 2 ^ 14"
  proof
    fix p assume "p \<in> set ?ps"
    then obtain x y :: u8 where "p = sint x * sint y" by auto
    then show "\<bar>p\<bar> \<le> 2 ^ 14" using i8_range by blast
  qed
  from sum_list_bound [OF this] have "\<bar>sum_list ?ps\<bar> \<le> int (length ?ps) * 2 ^ 14" .
  moreover have "length ?ps = length a" using assms by simp
  ultimately show ?thesis by (simp only: dot_i8_sum [OF assms])
qed

end
