(* ===== verification/Config_Theorems.thy ===== *)
theory Config_Theorems
  imports Config Arena Similar
begin

text \<open>
  The configuration block is lossless and canonical, and only valid configurations decode. Validation accepts exactly the
  documented ranges, which bound the arenas, the vector slots, the dot product and the neighbour blocks.
\<close>

section \<open>The block\<close>

definition sizes_fit :: "config \<Rightarrow> bool" where
  "sizes_fit c \<longleftrightarrow> list_all (\<lambda>v. v \<le> usize_max) (size_fields c)"

lemma u64_of_nat [simp]: "v \<le> usize_max \<Longrightarrow> unat (of_nat v :: u64) = v"
  by (simp add: usize_max_def unat_of_nat)

lemma take_sizes_iff:
  "at + n * 8 \<le> length bs \<Longrightarrow> take_sizes bs n at = Inr vs \<longleftrightarrow>
     length vs = n \<and> list_all (\<lambda>v. v \<le> usize_max) vs \<and> slice bs at (at + n * 8) = concat (map (\<lambda>v. u64_le (of_nat v)) vs)"
proof (induction n arbitrary: at vs)
  case (Suc n)
  have len: "length (slice bs at (at + 8)) = 8" using Suc.prems by simp
  have split: "slice bs at (at + Suc n * 8) = slice bs at (at + 8) @ slice bs (at + 8) (at + 8 + n * 8)"
    using slice_join [of at "at + 8" "at + 8 + n * 8" bs] by (simp add: add.assoc)
  let ?w = "u64_of_le (slice bs at (at + 8))"
  have w: "u64_le ?w = slice bs at (at + 8)" using len by (simp add: word_bytes_of)
  have fits: "unat ?w \<le> usize_max" using unat_lt_width [of ?w] by (simp add: usize_max_def)
  have "take_sizes bs (Suc n) at = Inr vs \<longleftrightarrow> (\<exists>us. take_sizes bs n (at + 8) = Inr us \<and> vs = unat ?w # us)"
    using fits by (auto simp: take_usize_def Let_def try_res_eq_Inr)
  also have "\<dots> \<longleftrightarrow> (\<exists>us. (length us = n \<and> list_all (\<lambda>v. v \<le> usize_max) us \<and>
      slice bs (at + 8) (at + 8 + n * 8) = concat (map (\<lambda>v. u64_le (of_nat v)) us)) \<and> vs = unat ?w # us)"
    using Suc.IH [of "at + 8"] Suc.prems by simp
  also have "\<dots> \<longleftrightarrow> length vs = Suc n \<and> list_all (\<lambda>v. v \<le> usize_max) vs \<and>
      slice bs at (at + Suc n * 8) = concat (map (\<lambda>v. u64_le (of_nat v)) vs)"
  proof (cases vs)
    case (Cons v us)
    have "slice bs at (at + 8) = u64_le (of_nat v) \<longleftrightarrow> v = unat ?w" if "v \<le> usize_max"
    proof
      assume "slice bs at (at + 8) = u64_le (of_nat v)"
      then have "?w = of_nat v" by simp
      then show "v = unat ?w" using that by simp
    next
      assume "v = unat ?w"
      then show "slice bs at (at + 8) = u64_le (of_nat v)" using w by simp
    qed
    moreover have "slice bs at (at + 8) @ r = u64_le (of_nat v) @ q \<longleftrightarrow> slice bs at (at + 8) = u64_le (of_nat v) \<and> r = q" for r q
      by (rule append_eq_append_conv) (use len in simp)
    ultimately show ?thesis using fits unfolding split Cons by auto
  qed simp
  finally show ?case .
qed auto

lemma length_config_encode: "length (config_encode c []) = ENCODED_LEN"
  by (simp add: config_encode_def config_consts size_fields_def f32_fields_def u32_fields_def)

lemma encode_parts:
  fixes c :: config
  defines "b \<equiv> config_encode c []"
  shows "slice b 0 112 = concat (map (\<lambda>v. u64_le (of_nat v)) (size_fields c))"
    and "read_u32s b 112 10 = f32_fields c" and "read_u32s b 152 3 = u32_fields c"
    and "slice b 164 180 = u128_le (cf_db_uuid c)" and "slice b 180 188 = replicate 8 0"
proof -
  let ?s = "concat (map (\<lambda>v. u64_le (of_nat v)) (size_fields c))" and ?f = "concat (map u32_le (f32_fields c))"
    and ?u = "concat (map u32_le (u32_fields c))"
  have b: "b = ?s @ ?f @ ?u @ u128_le (cf_db_uuid c) @ replicate 8 0"
    by (simp add: b_def config_encode_def RESERVED_LEN_def)
  have len: "length ?s = 112" "length ?f = 40" "length ?u = 12" "length (f32_fields c) = 10" "length (u32_fields c) = 3"
    by (simp_all add: size_fields_def f32_fields_def u32_fields_def)
  show "slice b 0 112 = ?s" unfolding b by (rule slice_append_mid0) (simp only: len)
  show "read_u32s b 112 10 = f32_fields c" unfolding b by (rule read_back(1)) (simp_all only: len)
  have "b = (?s @ ?f) @ ?u @ u128_le (cf_db_uuid c) @ replicate 8 0" by (simp add: b)
  then show "read_u32s b 152 3 = u32_fields c" using read_back(1) [of 3 "u32_fields c" 152 "?s @ ?f"] by (simp add: len)
  show "slice b 164 180 = u128_le (cf_db_uuid c)"
    using slice_append_mid [of 164 "?s @ ?f @ ?u" 180 "u128_le (cf_db_uuid c)" "replicate 8 0"] len unfolding b by simp
  show "slice b 180 188 = replicate 8 0"
    using slice_append_mid [of 180 "?s @ ?f @ ?u @ u128_le (cf_db_uuid c)" 188 "replicate 8 0" "[]"] len unfolding b by simp
qed

lemma nths_14: "length xs = 14 \<Longrightarrow> [xs ! 0, xs ! 1, xs ! 2, xs ! 3, xs ! 4, xs ! 5, xs ! 6, xs ! 7, xs ! 8, xs ! 9, xs ! 10, xs ! 11, xs ! 12, xs ! 13] = xs"
  by (auto simp: numeral_eq_Suc length_Suc_conv)

lemma nths_10: "length xs = 10 \<Longrightarrow> [xs ! 0, xs ! 1, xs ! 2, xs ! 3, xs ! 4, xs ! 5, xs ! 6, xs ! 7, xs ! 8, xs ! 9] = xs"
  by (auto simp: numeral_eq_Suc length_Suc_conv)

lemma nths_3: "length xs = 3 \<Longrightarrow> [xs ! 0, xs ! 1, xs ! 2] = xs"
  by (auto simp: numeral_eq_Suc length_Suc_conv)

lemma decode_sound:
  assumes "config_decode bs = Inr c"
  shows "config_validate c = Inr () \<and> sizes_fit c \<and> bs = config_encode c []"
proof -
  obtain sizes where len: "length bs = 188" and sizes: "take_sizes bs 14 0 = Inr sizes"
    and res: "slice bs 180 188 = replicate 8 0"
    and c: "size_fields c = [sizes ! 0, sizes ! 1, sizes ! 2, sizes ! 3, sizes ! 4, sizes ! 5, sizes ! 6, sizes ! 7, sizes ! 8,
        sizes ! 9, sizes ! 10, sizes ! 11, sizes ! 12, sizes ! 13]"
      "f32_fields c = (let xs = read_u32s bs 112 10 in [xs ! 0, xs ! 1, xs ! 2, xs ! 3, xs ! 4, xs ! 5, xs ! 6, xs ! 7, xs ! 8, xs ! 9])"
      "u32_fields c = (let xs = read_u32s bs 152 3 in [xs ! 0, xs ! 1, xs ! 2])"
      "cf_db_uuid c = u128_of_le (slice bs 164 180)"
    and v: "config_validate c = Inr ()"
    using assms
    by (auto simp: config_decode_def Let_def try_res_eq_Inr config_consts size_fields_def f32_fields_def u32_fields_def
        split: if_splits)
  have s: "length sizes = 14" "list_all (\<lambda>v. v \<le> usize_max) sizes" "slice bs 0 112 = concat (map (\<lambda>v. u64_le (of_nat v)) sizes)"
    using take_sizes_iff [of 0 14 bs sizes] sizes len by simp_all
  have sf: "size_fields c = sizes" using c(1) nths_14 [OF s(1)] by simp
  have ff: "f32_fields c = read_u32s bs 112 10" using c(2) nths_10 [of "read_u32s bs 112 10"] by (simp add: Let_def)
  have uf: "u32_fields c = read_u32s bs 152 3" using c(3) nths_3 [of "read_u32s bs 152 3"] by (simp add: Let_def)
  have "config_encode c [] = slice bs 0 112 @ slice bs 112 152 @ slice bs 152 164 @ slice bs 164 180 @ slice bs 180 188"
    unfolding config_encode_def sf ff uf c(4) RESERVED_LEN_def
    using s(3) write_back(1) [of 112 10 bs] write_back(1) [of 152 3 bs] len res by (simp add: word_bytes_of)
  also have "\<dots> = slice bs 0 188" by (simp add: slice_join)
  also have "\<dots> = bs" using len by (simp add: slice_def)
  finally show ?thesis using v s(2) sf by (simp add: sizes_fit_def)
qed

lemma config_eta: "\<lparr>cf_dim = cf_dim c, cf_max_bytes = cf_max_bytes c, cf_max_text = cf_max_text c,
     cf_max_blob = cf_max_blob c, cf_shards_facts = cf_shards_facts c, cf_shards_entities = cf_shards_entities c,
     cf_shards_edges = cf_shards_edges c, cf_shards_temporal = cf_shards_temporal c, cf_shards_postings =
     cf_shards_postings c, cf_bm25_k1 = cf_bm25_k1 c, cf_bm25_b = cf_bm25_b c, cf_rrf_k = cf_rrf_k c, cf_w_bm25 =
     cf_w_bm25 c, cf_w_vec = cf_w_vec c, cf_w_graph = cf_w_graph c, cf_w_time = cf_w_time c, cf_w_recency =
     cf_w_recency c, cf_half_life_days = cf_half_life_days c, cf_graph_depth = cf_graph_depth c, cf_graph_decay =
     cf_graph_decay c, cf_similar_cos = cf_similar_cos c, cf_similar_jaccard = cf_similar_jaccard c, cf_hnsw_m =
     cf_hnsw_m c, cf_hnsw_m0 = cf_hnsw_m0 c, cf_hnsw_ef_construction = cf_hnsw_ef_construction c, cf_hnsw_ef_search
     = cf_hnsw_ef_search c, cf_flat_to_hnsw = cf_flat_to_hnsw c, cf_db_uuid = cf_db_uuid c\<rparr> = c"
  by (cases c) simp

lemma decode_complete_config:
  assumes "config_validate c = Inr ()" and "sizes_fit c"
  shows "config_decode (config_encode c []) = Inr c"
proof -
  note p = encode_parts [of c]
  have len: "length (config_encode c []) = 188" using length_config_encode [of c] by (simp add: config_consts)
  have s: "take_sizes (config_encode c []) 14 0 = Inr (size_fields c)"
    using take_sizes_iff [of 0 14 "config_encode c []" "size_fields c"] p(1) len assms(2)
    by (simp add: sizes_fit_def) (simp add: size_fields_def)
  have u: "u128_of_le (u128_le (cf_db_uuid c)) = cf_db_uuid c" by simp
  show ?thesis
    unfolding config_decode_def using len s p(2-5) assms(1) u
    by (simp add: config_consts Let_def) (simp add: size_fields_def f32_fields_def u32_fields_def config_eta)
qed

text \<open>
  C31. The configuration block is lossless and canonical: a block decodes to a configuration exactly when that
  configuration is valid, its sizes fit the address space, and the block is its encoding.
\<close>

theorem config_codec_exact:
  "config_decode bs = Inr c \<longleftrightarrow>
     config_validate c = Inr () \<and> list_all (\<lambda>v. v \<le> usize_max) (size_fields c) \<and> bs = config_encode c []"
  using decode_sound [of bs c] decode_complete_config [of c] by (auto simp: sizes_fit_def)

section \<open>Bounds\<close>

lemma check_shards_ok: "check_shards xs = Inr () \<longleftrightarrow> (\<forall>(n, _) \<in> set xs. is_power_of_two n \<and> n \<le> MAX_SHARDS)"
  by (induction xs rule: check_shards.induct) auto

lemma validate_facts:
  assumes "config_validate c = Inr ()"
  shows "\<forall>n \<in> {cf_shards_facts c, cf_shards_entities c, cf_shards_edges c, cf_shards_temporal c, cf_shards_postings c}.
      is_power_of_two n \<and> n \<le> MAX_SHARDS"
    and "0 < cf_max_text c \<and> cf_max_text c \<le> cf_max_blob c \<and> cf_max_blob c \<le> cf_max_bytes c"
    and "2 \<le> cf_hnsw_m c \<and> cf_hnsw_m c \<le> cf_hnsw_m0 c \<and> cf_hnsw_m0 c \<le> MAX_HNSW_DEGREE"
  using assms unfolding config_validate_def try_res_eq_Inr
  by (simp_all add: try_res_eq_Inr check_shards_ok split: if_splits)

lemma validate_iff_ranges:
  "config_validate c = Inr () \<longleftrightarrow> cf_dim c \<le> 4096 \<and>
     (\<forall>n \<in> {cf_shards_facts c, cf_shards_entities c, cf_shards_edges c, cf_shards_temporal c, cf_shards_postings c}.
        is_power_of_two n \<and> n \<le> 2 ^ 16) \<and>
     0 < cf_max_text c \<and> cf_max_text c \<le> cf_max_blob c \<and> cf_max_blob c \<le> cf_max_bytes c \<and>
     f32_is_finite (cf_bm25_k1 c) \<and> f32_gt_0 (cf_bm25_k1 c) \<and>
     (\<forall>u \<in> {cf_bm25_b c, cf_similar_cos c, cf_similar_jaccard c}. f32_is_finite u \<and> f32_ge_0 u \<and> f32_le_1 u) \<and>
     (\<forall>w \<in> {cf_w_bm25 c, cf_w_vec c, cf_w_graph c, cf_w_time c, cf_w_recency c}. f32_is_finite w \<and> f32_ge_0 w) \<and>
     f32_is_finite (cf_graph_decay c) \<and> f32_gt_0 (cf_graph_decay c) \<and> f32_le_1 (cf_graph_decay c) \<and>
     cf_rrf_k c \<noteq> 0 \<and> cf_half_life_days c \<noteq> 0 \<and>
     2 \<le> cf_hnsw_m c \<and> cf_hnsw_m c \<le> cf_hnsw_m0 c \<and> cf_hnsw_m0 c \<le> 1024 \<and>
     cf_hnsw_m c \<le> cf_hnsw_ef_construction c \<and> 0 < cf_hnsw_ef_search c \<and> 0 < cf_flat_to_hnsw c"
proof -
  have u: "check_unit v s = Inr () \<longleftrightarrow> f32_is_finite v \<and> f32_ge_0 v \<and> f32_le_1 v" for v s by (simp add: check_unit_def)
  have w: "check_weight v s = Inr () \<longleftrightarrow> f32_is_finite v \<and> f32_ge_0 v" for v s by (simp add: check_weight_def)
  have e: "(if b then Inl x else y) = Inr () \<longleftrightarrow> \<not> b \<and> y = Inr ()" for b and x :: core_error and y by simp
  show ?thesis
    unfolding config_validate_def try_res_eq_Inr e u w check_shards_ok
    by (simp add: try_res_eq_Inr e u w check_shards_ok MAX_SHARDS_def MAX_HNSW_DEGREE_def PAGE_BYTES_def not_less, rule iffI)
      (elim conjE, intro conjI; (assumption | linarith))+
qed

text \<open>
  C32. A configuration validates exactly when every field is in its documented range: dimension, shard counts, text, blob and pool
  sizes, BM25 and fusion weights, similarity thresholds, HNSW degrees and beams. Of a valid one follow the bounds that the comments
  on the limits derive: every shard count builds an arena of any slot type that fits a page, its first page per shard is addressable
  with 32 bits and its metadata stays below a mebibyte; a vector slot is at most 4616 bytes; the dot product of two quantised
  vectors, summed by lanes, is the plain sum of the products and fits a signed 32-bit integer; a level-0 neighbour block fits a page.
\<close>

theorem validated_config_bounds:
  "(config_validate c = Inr () \<longleftrightarrow> cf_dim c \<le> 4096 \<and>
     (\<forall>n \<in> {cf_shards_facts c, cf_shards_entities c, cf_shards_edges c, cf_shards_temporal c, cf_shards_postings c}.
        is_power_of_two n \<and> n \<le> 2 ^ 16) \<and>
     0 < cf_max_text c \<and> cf_max_text c \<le> cf_max_blob c \<and> cf_max_blob c \<le> cf_max_bytes c \<and>
     f32_is_finite (cf_bm25_k1 c) \<and> f32_gt_0 (cf_bm25_k1 c) \<and>
     (\<forall>u \<in> {cf_bm25_b c, cf_similar_cos c, cf_similar_jaccard c}. f32_is_finite u \<and> f32_ge_0 u \<and> f32_le_1 u) \<and>
     (\<forall>w \<in> {cf_w_bm25 c, cf_w_vec c, cf_w_graph c, cf_w_time c, cf_w_recency c}. f32_is_finite w \<and> f32_ge_0 w) \<and>
     f32_is_finite (cf_graph_decay c) \<and> f32_gt_0 (cf_graph_decay c) \<and> f32_le_1 (cf_graph_decay c) \<and>
     cf_rrf_k c \<noteq> 0 \<and> cf_half_life_days c \<noteq> 0 \<and>
     2 \<le> cf_hnsw_m c \<and> cf_hnsw_m c \<le> cf_hnsw_m0 c \<and> cf_hnsw_m0 c \<le> 1024 \<and>
     cf_hnsw_m c \<le> cf_hnsw_ef_construction c \<and> 0 < cf_hnsw_ef_search c \<and> 0 < cf_flat_to_hnsw c) \<and>
   (config_validate c = Inr () \<longrightarrow>
     (\<forall>n \<in> {cf_shards_facts c, cf_shards_entities c, cf_shards_edges c, cf_shards_temporal c, cf_shards_postings c}.
        (\<forall>T mode. slot_ok T \<longrightarrow> (\<exists>a. arena_new T (arena_cfg_new n mode) = Inr a)) \<and> n * PAGE_BYTES < 2 ^ 32 \<and> n * (3 * 4) \<le> 1024 * 1024) \<and>
     vec_stride (cf_dim c) \<le> 4616 \<and>
     (\<forall>a b. length a = cf_dim c \<and> length b = cf_dim c \<longrightarrow>
        dot_i8 a b = (\<Sum>(x, y) \<leftarrow> zip a b. sint x * sint y) \<and> \<bar>dot_i8 a b\<bar> < 2 ^ 31) \<and>
     cf_hnsw_m0 c * 4 \<le> PAGE_BYTES)"
proof (rule conjI [OF validate_iff_ranges], intro impI conjI ballI allI)
  assume v: "config_validate c = Inr ()"
  note f = v [unfolded validate_iff_ranges]
  fix n assume n: "n \<in> {cf_shards_facts c, cf_shards_entities c, cf_shards_edges c, cf_shards_temporal c, cf_shards_postings c}"
  have p: "is_power_of_two n" "n \<le> 2 ^ 16" using f n by blast+
  show "\<exists>a. arena_new T (arena_cfg_new n mode) = Inr a" if "slot_ok T" for T mode
    using that p(1) by (simp add: arena_new_def slot_ok_def arena_cfg_new_def is_power_of_two_def)
  show "n * PAGE_BYTES < 2 ^ 32" "n * (3 * 4) \<le> 1024 * 1024" using p(2) by (simp_all add: PAGE_BYTES_def)
next
  assume "config_validate c = Inr ()"
  then have d: "cf_dim c \<le> 4096" by (simp add: validate_iff_ranges)
  then have "(cf_dim c + 63) div 64 \<le> 64" using div_le_mono [of "cf_dim c + 63" "4096 + 63" 64] by simp
  with d show "vec_stride (cf_dim c) \<le> 4616" by (simp add: vec_stride_def sig_words_def HEAD_def SIG_WORD_BYTES_def)
next
  fix a b :: bytes
  assume "config_validate c = Inr ()" and l: "length a = cf_dim c \<and> length b = cf_dim c"
  then have d: "cf_dim c \<le> 4096" by (simp add: validate_iff_ranges)
  show "dot_i8 a b = (\<Sum>(x, y) \<leftarrow> zip a b. sint x * sint y)" using dot_i8_sum l by simp
  have "int (length a) * 2 ^ 14 < 2 ^ 31" using d l by simp
  then show "\<bar>dot_i8 a b\<bar> < 2 ^ 31" using dot_i8_bound [of a b] l by linarith
next
  assume "config_validate c = Inr ()"
  then show "cf_hnsw_m0 c * 4 \<le> PAGE_BYTES" by (simp add: validate_iff_ranges PAGE_BYTES_def)
qed

lemma default_valid: "config_validate config_default = Inr ()"
proof -
  have p2: "is_power_of_two 4" using is_power_of_two_pow [of 2] by simp
  show ?thesis
    by (simp add: config_validate_def config_default_def check_unit_def check_weight_def MIN_SHARDS_def MAX_SHARDS_def p2
        MAX_HNSW_DEGREE_def PAGE_BYTES_def f32_is_finite_def f32_ge_0_def f32_gt_0_def f32_le_1_def f32_is_nan_def f32_exponent_def)
qed

theorem validated_config_bounds_witness:
  "config_validate config_default = Inr () \<and> (\<exists>a. arena_new (array_slot 8) (arena_cfg_new MIN_SHARDS Uniform) = Inr a)"
proof -
  have "slot_ok (array_slot 8)" by (simp add: slot_ok_def array_slot_def PAGE_BYTES_def)
  then show ?thesis
    using mp [OF conjunct2 [OF validated_config_bounds] default_valid] default_valid by (simp add: config_default_def)
qed

end
