(* ===== verification/Snapshot.thy ===== *)
theory Snapshot
  imports Core_Error Rust_Std
begin

unbundle bit_operations_syntax

text \<open>
  The snapshot container of \<open>crates/plugmem-core/src/snapshot.rs\<close>: the writer (\<open>SnapshotWriter\<close>), the prefix builder
  of the streaming writer (\<open>build_prefix\<close>) with the two passes that \<open>memory/persist.rs\<close> drives over it, and the parser
  of untrusted files. \<open>xxh3_64\<close> is third-party and the parameter \<open>h\<close>; a streaming hasher is the bytes
  fed to it, and its digest \<open>h\<close> of them.
\<close>

section \<open>Constants\<close>

definition MAGIC :: u32 where "MAGIC = 0x504C474D"
definition FORMAT_VERSION :: u16 where "FORMAT_VERSION = 1"
definition FLAG_VECTORS :: u16 where "FLAG_VECTORS = 1"
definition SNAP_HEADER :: nat where "SNAP_HEADER = 64"
definition ENTRY :: nat where "ENTRY = 32"
definition ALIGN :: nat where "ALIGN = 64"
definition FILE_HASH_AT :: nat where "FILE_HASH_AT = 20"

lemmas snap_consts = MAGIC_def FORMAT_VERSION_def FLAG_VECTORS_def SNAP_HEADER_def ENTRY_def ALIGN_def FILE_HASH_AT_def

definition align_up :: "nat \<Rightarrow> nat" where
  "align_up v = (v + (ALIGN - 1)) div ALIGN * ALIGN"

definition file_hash :: "(bytes \<Rightarrow> u64) \<Rightarrow> bytes \<Rightarrow> u64" where
  "file_hash h bs = h (take FILE_HASH_AT bs @ replicate 8 0 @ drop (FILE_HASH_AT + 8) bs)"

section \<open>Writing\<close>

type_synonym section_body = "u16 \<times> bytes"

definition writer_section :: "u16 \<Rightarrow> bytes \<Rightarrow> section_body list \<Rightarrow> core_error + section_body list" where
  "writer_section kind bs sections =
     (if list_ex (\<lambda>(k, _). k = kind) sections then Inl (Corrupt_core ''duplicate section kind'')
      else Inr (sections @ [(kind, bs)]))"

text \<open>The offsets of the bodies from a cursor on, and the cursor behind the last.\<close>

fun lay_out :: "nat \<Rightarrow> nat list \<Rightarrow> nat list \<times> nat" where
  "lay_out cursor [] = ([], cursor)"
| "lay_out cursor (len # lens) =
     (let (offsets, stop) = lay_out (align_up (cursor + len)) lens in (cursor # offsets, stop))"

definition write_header :: "bytes \<Rightarrow> bytes \<Rightarrow> u16 \<Rightarrow> nat \<Rightarrow> u64 \<Rightarrow> bytes \<Rightarrow> bytes" where
  "write_header out config flags count created_at ver =
     (let out = splice out 0 (u32_le MAGIC);
          out = splice out 4 (u16_le FORMAT_VERSION);
          out = splice out 6 (u16_le flags);
          out = splice out 8 (u16_le (of_nat count));
          out = splice out 16 (u32_le (of_nat (length config)));
          out = splice out 28 (u64_le created_at);
          ver_len = min (length ver) 24;
          out = splice out 36 (take ver_len ver)
      in splice out SNAP_HEADER config)"

definition write_entry :: "bytes \<Rightarrow> nat \<Rightarrow> u16 \<Rightarrow> nat \<Rightarrow> nat \<Rightarrow> u64 \<Rightarrow> bytes" where
  "write_entry out at kind offset len hash =
     (let out = splice out at (u16_le kind);
          out = splice out (at + 2) (u16_le (of_nat ALIGN));
          out = splice out (at + 8) (u64_le (of_nat offset));
          out = splice out (at + 16) (u64_le (of_nat len))
      in splice out (at + 24) (u64_le hash))"

fun write_sections :: "(bytes \<Rightarrow> u64) \<Rightarrow> nat \<Rightarrow> nat \<Rightarrow> (section_body \<times> nat) list \<Rightarrow> bytes \<Rightarrow> bytes" where
  "write_sections h table_start i [] out = out"
| "write_sections h table_start i (((kind, bs), offset) # rest) out =
     (let out = write_entry out (table_start + i * ENTRY) kind offset (length bs) (h bs);
          out = splice out offset bs
      in write_sections h table_start (i + 1) rest out)"

definition writer_finish :: "(bytes \<Rightarrow> u64) \<Rightarrow> section_body list \<Rightarrow> bytes \<Rightarrow> u16 \<Rightarrow> u64 \<Rightarrow> bytes \<Rightarrow> bytes" where
  "writer_finish h sections config flags created_at engine_ver =
     (let config_end = SNAP_HEADER + length config;
          table_start = align_up config_end;
          table_end = table_start + length sections * ENTRY;
          (offsets, file_len) = lay_out (align_up table_end) (map (\<lambda>(_, bs). length bs) sections);
          out = replicate file_len 0;
          out = write_header out config flags (length sections) created_at engine_ver;
          out = write_sections h table_start 0 (zip sections offsets) out
      in splice out FILE_HASH_AT (u64_le (file_hash h out)))"

section \<open>Streaming\<close>

record section_meta =
  sm_kind :: u16
  sm_len :: nat
  sm_hash :: u64

record prefix =
  px_bytes :: bytes
  px_offsets :: "nat list"
  px_file_len :: nat

fun write_table :: "nat \<Rightarrow> nat \<Rightarrow> (section_meta \<times> nat) list \<Rightarrow> bytes \<Rightarrow> bytes" where
  "write_table table_start i [] out = out"
| "write_table table_start i ((m, offset) # rest) out =
     write_table table_start (i + 1) rest
       (write_entry out (table_start + i * ENTRY) (sm_kind m) offset (sm_len m) (sm_hash m))"

definition build_prefix :: "bytes \<Rightarrow> u16 \<Rightarrow> u64 \<Rightarrow> bytes \<Rightarrow> section_meta list \<Rightarrow> prefix" where
  "build_prefix config flags created_at engine_ver metas =
     (let count = length metas;
          config_end = SNAP_HEADER + length config;
          table_start = align_up config_end;
          table_end = table_start + count * ENTRY;
          (offsets, file_len) = lay_out (align_up table_end) (map sm_len metas);
          out = replicate (align_up table_end) 0;
          out = write_header out config flags count created_at engine_ver;
          out = write_table table_start 0 (zip metas offsets) out
      in \<lparr>px_bytes = out, px_offsets = offsets, px_file_len = file_len\<rparr>)"

definition pad_len :: "nat \<Rightarrow> nat \<Rightarrow> nat" where
  "pad_len offset len = align_up (offset + len) - (offset + len)"

text \<open>The sink of a byte vector: \<open>write\<close> appends, \<open>patch\<close> overwrites (and panics outside the vector).\<close>

definition vec_sink_write :: "bytes \<Rightarrow> bytes \<Rightarrow> bytes" where
  "vec_sink_write bs sink = sink @ bs"

definition vec_sink_patch :: "nat \<Rightarrow> bytes \<Rightarrow> bytes \<Rightarrow> bytes option" where
  "vec_sink_patch at bs sink = (if at + length bs \<le> length sink then Some (splice sink at bs) else None)"

text \<open>
  The two passes of \<open>write_snapshot_reconfigured\<close>, over the sections its emitter yields in both: a kind and the pieces
  of the body. The second pass returns the sink and the bytes fed to the file hash.
\<close>

definition pass_1 :: "(bytes \<Rightarrow> u64) \<Rightarrow> (u16 \<times> bytes list) list \<Rightarrow> section_meta list" where
  "pass_1 h secs = map (\<lambda>(kind, pieces).
     \<lparr>sm_kind = kind, sm_len = sum_list (map length pieces), sm_hash = h (concat pieces)\<rparr>) secs"

fun pass_2 :: "((u16 \<times> bytes list) \<times> nat \<times> section_meta) list \<Rightarrow> bytes \<Rightarrow> bytes \<Rightarrow> bytes \<times> bytes" where
  "pass_2 [] sink fed = (sink, fed)"
| "pass_2 (((_, pieces), offset, m) # rest) sink fed =
     (let sink = fold vec_sink_write pieces sink;
          fed = fed @ concat pieces;
          zero = replicate (pad_len offset (sm_len m)) 0
      in pass_2 rest (vec_sink_write zero sink) (fed @ zero))"

definition write_streamed :: "(bytes \<Rightarrow> u64) \<Rightarrow> (u16 \<times> bytes list) list \<Rightarrow> bytes \<Rightarrow> u16 \<Rightarrow> u64 \<Rightarrow> bytes \<Rightarrow> bytes option" where
  "write_streamed h secs config flags created_at engine_ver =
     (let metas = pass_1 h secs;
          p = build_prefix config flags created_at engine_ver metas;
          (sink, fed) = pass_2 (zip secs (zip (px_offsets p) metas)) (vec_sink_write (px_bytes p) []) (px_bytes p)
      in vec_sink_patch FILE_HASH_AT (u64_le (h fed)) sink)"

section \<open>Parsing\<close>

record snapshot =
  sn_bytes :: bytes
  sn_flags :: u16
  sn_created_at :: u64
  sn_config_len :: nat
  sn_sections :: "(u16 \<times> nat \<times> nat \<times> u64) list"
  sn_engine_ver_len :: nat

definition nonzero :: "bytes \<Rightarrow> bool" where
  "nonzero bs \<longleftrightarrow> list_ex (\<lambda>b. b \<noteq> 0) bs"

fun parse_sections :: "bytes \<Rightarrow> nat \<Rightarrow> nat \<Rightarrow> nat \<Rightarrow> nat \<Rightarrow> (u16 \<times> nat \<times> nat \<times> u64) list \<Rightarrow>
    core_error + (u16 \<times> nat \<times> nat \<times> u64) list \<times> nat" where
  "parse_sections bs table_start 0 i expected sections = Inr (sections, expected)"
| "parse_sections bs table_start (Suc n) i expected sections =
     (let at = table_start + i * ENTRY;
          kind = u16_of_le (slice bs at (at + 2));
          align = u16_of_le (slice bs (at + 2) (at + 4)) in
      if unat align \<noteq> ALIGN then Inl (Corrupt_core ''section alignment must be 64'')
      else if slice bs (at + 4) (at + 8) \<noteq> replicate 4 0 then Inl (Corrupt_core ''reserved section bytes must be zero'')
      else
      let offset = unat (u64_of_le (slice bs (at + 8) (at + 16)));
          len = unat (u64_of_le (slice bs (at + 16) (at + 24)));
          want = u64_of_le (slice bs (at + 24) (at + 32)) in
      if offset \<noteq> expected then Inl (Corrupt_core ''sections must be contiguous in table order'')
      else if 2 ^ 64 \<le> offset + len then Inl (Corrupt_core ''section length overflow'')
      else if length bs < offset + len then Inl (Corrupt_core ''section out of bounds'')
      else if list_ex (\<lambda>(k, _, _, _). k = kind) sections then Inl (Corrupt_core ''duplicate section kind'')
      else
      let expected = align_up (offset + len) in
      if nonzero (slice bs (offset + len) (min expected (length bs))) then Inl (Corrupt_core ''nonzero padding after a section'')
      else parse_sections bs table_start n (i + 1) expected (sections @ [(kind, offset, len, want)]))"

definition zero_position :: "bytes \<Rightarrow> nat" where
  "zero_position bs = length (takeWhile (\<lambda>b. b \<noteq> 0) bs)"

definition snapshot_parse :: "bytes \<Rightarrow> core_error + snapshot" where
  "snapshot_parse bs =
    (if length bs < SNAP_HEADER then Inl (Corrupt_core ''snapshot shorter than its header'')
     else if length bs mod ALIGN \<noteq> 0 then Inl (Corrupt_core ''snapshot length is not 64-byte aligned'')
     else if u32_of_le (slice bs 0 4) \<noteq> MAGIC then Inl (Corrupt_core ''bad magic'')
     else let version = u16_of_le (slice bs 4 6) in
     if version \<noteq> FORMAT_VERSION then Inl (UnsupportedVersion version)
     else let flags = u16_of_le (slice bs 6 8) in
     if flags AND NOT FLAG_VECTORS \<noteq> 0 then Inl (Corrupt_core ''unknown flag bits set'')
     else let section_cnt = unat (u16_of_le (slice bs 8 10)) in
     if slice bs 10 16 \<noteq> replicate 6 0 \<or> slice bs 60 64 \<noteq> replicate 4 0
     then Inl (Corrupt_core ''reserved header bytes must be zero'')
     else let config_len = unat (u32_of_le (slice bs 16 20));
              created_at = u64_of_le (slice bs 28 36);
              ver_bytes = slice bs 36 60;
              engine_ver_len = zero_position ver_bytes in
     if nonzero (drop engine_ver_len ver_bytes) then Inl (Corrupt_core ''engine version is not zero-terminated'')
     else if \<not> utf8_valid (take engine_ver_len ver_bytes) then Inl (Corrupt_core ''engine version is not UTF-8'')
     else let config_end = SNAP_HEADER + config_len;
              table_start = align_up config_end;
              table_end = table_start + section_cnt * ENTRY in
     if length bs < table_end then Inl (Corrupt_core ''section table out of bounds'')
     else if nonzero (slice bs config_end table_start) then Inl (Corrupt_core ''nonzero padding after the config block'')
     else let expected = align_up table_end in
     if nonzero (slice bs table_end expected) then Inl (Corrupt_core ''nonzero padding after the section table'')
     else try_res (parse_sections bs table_start section_cnt 0 expected []) (\<lambda>(sections, expected).
     if expected \<noteq> length bs then Inl (Corrupt_core ''trailing bytes after the last section'')
     else Inr \<lparr>sn_bytes = bs, sn_flags = flags, sn_created_at = created_at, sn_config_len = config_len,
       sn_sections = sections, sn_engine_ver_len = engine_ver_len\<rparr>))"

text \<open>The accessors; a slice out of range or a failed \<open>expect\<close> would panic (\<open>None\<close>).\<close>

definition checked_slice :: "bytes \<Rightarrow> nat \<Rightarrow> nat \<Rightarrow> bytes option" where
  "checked_slice bs a b = (if a \<le> b \<and> b \<le> length bs then Some (slice bs a b) else None)"

definition snapshot_config :: "snapshot \<Rightarrow> bytes option" where
  "snapshot_config s = checked_slice (sn_bytes s) SNAP_HEADER (SNAP_HEADER + sn_config_len s)"

definition snapshot_section :: "snapshot \<Rightarrow> u16 \<Rightarrow> bytes option option" where
  "snapshot_section s kind =
     (case find (\<lambda>(k, _, _, _). k = kind) (sn_sections s) of
        None \<Rightarrow> Some None
      | Some (_, start, len, _) \<Rightarrow> map_option Some (checked_slice (sn_bytes s) start (start + len)))"

definition snapshot_engine_ver :: "snapshot \<Rightarrow> bytes option" where
  "snapshot_engine_ver s =
     (case checked_slice (sn_bytes s) 36 (36 + sn_engine_ver_len s) of
        Some v \<Rightarrow> if utf8_valid v then Some v else None
      | None \<Rightarrow> None)"

end
