(* ===== verification/Snapshot_Writer.thy ===== *)
theory Snapshot_Writer
  imports Snapshot
begin

text \<open>
  What the snapshot writers produce: both the in-memory and the streaming writer write the same image, the
  concatenation of header, configuration, section table and padded bodies.
\<close>

section \<open>Alignment\<close>

lemma align_up_eq: "align_up v = (v + 63) div 64 * 64"
  by (simp add: align_up_def ALIGN_def)

lemma align_up_ge: "v \<le> align_up v"
  unfolding align_up_eq by presburger

lemma align_up_lt: "align_up v < v + 64"
  unfolding align_up_eq by presburger

lemma align_up_mod [simp]: "align_up v mod 64 = 0"
  by (simp add: align_up_eq)

lemma align_up_id: "v mod 64 = 0 \<Longrightarrow> align_up v = v"
  unfolding align_up_eq by presburger

lemma align_up_mono: "v \<le> n \<Longrightarrow> align_up v \<le> align_up n"
  unfolding align_up_eq by (intro mult_le_mono1 div_le_mono) simp

lemma align_up_le: "v \<le> n \<Longrightarrow> n mod 64 = 0 \<Longrightarrow> align_up v \<le> n"
  using align_up_mono [of v n] by (simp add: align_up_id)

section \<open>The image\<close>

definition row :: "u16 \<Rightarrow> nat \<Rightarrow> nat \<Rightarrow> u64 \<Rightarrow> bytes" where
  "row kind offset len hash =
     u16_le kind @ u16_le 64 @ replicate 4 0 @ u64_le (of_nat offset) @ u64_le (of_nat len) @ u64_le hash"

definition header :: "u16 \<Rightarrow> nat \<Rightarrow> nat \<Rightarrow> u64 \<Rightarrow> bytes \<Rightarrow> bytes" where
  "header flags count config_len created_at ver =
     u32_le MAGIC @ u16_le 1 @ u16_le flags @ u16_le (of_nat count) @ replicate 6 0 @ u32_le (of_nat config_len) @
     replicate 8 0 @ u64_le created_at @ take 24 ver @ replicate (24 - min 24 (length ver)) 0 @ replicate 4 0"

fun rows :: "section_meta list \<Rightarrow> nat \<Rightarrow> bytes" where
  "rows [] cursor = []"
| "rows (m # ms) cursor = row (sm_kind m) cursor (sm_len m) (sm_hash m) @ rows ms (align_up (cursor + sm_len m))"

fun bodies :: "nat \<Rightarrow> bytes list \<Rightarrow> bytes" where
  "bodies cursor [] = []"
| "bodies cursor (b # bs) = b @ replicate (pad_len cursor (length b)) 0 @ bodies (align_up (cursor + length b)) bs"

lemma length_row [simp]: "length (row k off len hash) = 32"
  by (simp add: row_def)

lemma length_header [simp]: "length (header flags count n created ver) = 64"
  by (simp add: header_def)

lemma length_rows [simp]: "length (rows ms cursor) = length ms * 32"
  by (induction ms cursor rule: rows.induct) simp_all

lemma lay_out_length [simp]: "length (fst (lay_out cursor lens)) = length lens"
  by (induction cursor lens rule: lay_out.induct) (simp_all add: case_prod_unfold Let_def)

lemma lay_out_ge: "cursor \<le> snd (lay_out cursor lens)"
proof (induction cursor lens rule: lay_out.induct)
  case (2 cursor len lens)
  then show ?case
    using align_up_ge [of "cursor + len"] by (simp add: case_prod_unfold Let_def)
qed simp

lemma pad_end: "cursor + len + pad_len cursor len = align_up (cursor + len)"
  using align_up_ge [of "cursor + len"] by (simp add: pad_len_def)

lemma length_bodies: "cursor + length (bodies cursor bs) = snd (lay_out cursor (map length bs))"
proof (induction cursor bs rule: bodies.induct)
  case (2 cursor b bs)
  have "cursor + length (bodies cursor (b # bs)) =
      cursor + length b + pad_len cursor (length b) + length (bodies (align_up (cursor + length b)) bs)" by simp
  also have "\<dots> = snd (lay_out (align_up (cursor + length b)) (map length bs))"
    unfolding pad_end by (rule 2)
  finally show ?case by (simp add: case_prod_unfold Let_def)
qed simp

section \<open>In-place writes\<close>

lemma splice_at: "off = length xs \<Longrightarrow> length new = length ys \<Longrightarrow> splice (xs @ ys @ zs) off new = xs @ new @ zs"
  by (rule splice_append)

lemma write_entry_row:
  assumes "at = length a"
  shows "write_entry (a @ replicate 32 0 @ c) at k off len hash = a @ row k off len hash @ c"
proof -
  have z: "replicate 32 (0 :: u8) = replicate 2 0 @ replicate 2 0 @ replicate 4 0 @ replicate 8 0 @ replicate 8 0 @ replicate 8 0"
    by (simp add: replicate_add [symmetric])
  let ?z2 = "replicate 2 (0 :: u8)" and ?z4 = "replicate 4 (0 :: u8)" and ?z8 = "replicate 8 (0 :: u8)"
  have s1: "splice (a @ ?z2 @ ?z2 @ ?z4 @ ?z8 @ ?z8 @ ?z8 @ c) at (u16_le k) = a @ u16_le k @ ?z2 @ ?z4 @ ?z8 @ ?z8 @ ?z8 @ c"
    using assms by (intro splice_at) simp_all
  have s2: "splice (a @ u16_le k @ ?z2 @ ?z4 @ ?z8 @ ?z8 @ ?z8 @ c) (at + 2) (u16_le (of_nat ALIGN)) =
      a @ u16_le k @ u16_le 64 @ ?z4 @ ?z8 @ ?z8 @ ?z8 @ c"
    using splice_at [of "at + 2" "a @ u16_le k" "u16_le 64" ?z2 "?z4 @ ?z8 @ ?z8 @ ?z8 @ c"] assms by (simp add: ALIGN_def)
  have s3: "splice (a @ u16_le k @ u16_le 64 @ ?z4 @ ?z8 @ ?z8 @ ?z8 @ c) (at + 8) (u64_le (of_nat off)) =
      a @ u16_le k @ u16_le 64 @ ?z4 @ u64_le (of_nat off) @ ?z8 @ ?z8 @ c"
    using splice_at [of "at + 8" "a @ u16_le k @ u16_le 64 @ ?z4" "u64_le (of_nat off)" ?z8 "?z8 @ ?z8 @ c"] assms by simp
  have s4: "splice (a @ u16_le k @ u16_le 64 @ ?z4 @ u64_le (of_nat off) @ ?z8 @ ?z8 @ c) (at + 16) (u64_le (of_nat len)) =
      a @ u16_le k @ u16_le 64 @ ?z4 @ u64_le (of_nat off) @ u64_le (of_nat len) @ ?z8 @ c"
    using splice_at [of "at + 16" "a @ u16_le k @ u16_le 64 @ ?z4 @ u64_le (of_nat off)" "u64_le (of_nat len)" ?z8 "?z8 @ c"] assms
    by simp
  have s5: "splice (a @ u16_le k @ u16_le 64 @ ?z4 @ u64_le (of_nat off) @ u64_le (of_nat len) @ ?z8 @ c) (at + 24) (u64_le hash) =
      a @ row k off len hash @ c"
    using splice_at [of "at + 24" "a @ u16_le k @ u16_le 64 @ ?z4 @ u64_le (of_nat off) @ u64_le (of_nat len)" "u64_le hash" ?z8 c] assms
    by (simp add: row_def)
  show ?thesis unfolding write_entry_def Let_def z append_assoc s1 s2 s3 s4 s5 ..
qed

lemma write_header_image:
  assumes n: "64 + length config \<le> n"
  shows "write_header (replicate n 0) config flags count created ver =
    header flags count (length config) created ver @ config @ replicate (n - 64 - length config) 0"
proof -
  let ?z = "\<lambda>k. replicate k (0 :: u8)" and ?v = "take (min (length ver) 24) ver"
  let ?r = "?z (length config) @ ?z (n - 64 - length config)"
  have z: "?z n = ?z 4 @ ?z 2 @ ?z 2 @ ?z 2 @ ?z 6 @ ?z 4 @ ?z 8 @ ?z 8 @ ?z (length ?v) @ ?z (24 - length ?v) @ ?z 4 @ ?r"
    unfolding replicate_add [symmetric] by (rule arg_cong [of _ _ "\<lambda>k. replicate k 0"]) (use n in simp)
  have v: "?v = take 24 ver" "length ?v = min 24 (length ver)" by (simp_all add: min.commute min_def)
  note at = splice_at [where ?'a = u8]
  have h1: "splice (?z n) 0 (u32_le MAGIC) = u32_le MAGIC @ ?z 2 @ ?z 2 @ ?z 2 @ ?z 6 @ ?z 4 @ ?z 8 @ ?z 8 @ ?z (length ?v) @ ?z (24 - length ?v) @ ?z 4 @ ?r"
    unfolding z using at [of 0 "[]" "u32_le MAGIC" "?z 4"] by simp
  define m f c l t where d: "m = u32_le MAGIC" "f = u16_le flags" "c = u16_le (of_nat count)" "l = u32_le (of_nat (length config))" "t = u64_le created"
  have len: "length m = 4" "length f = 2" "length c = 2" "length l = 4" "length t = 8" by (simp_all add: d)
  let ?e = "?z (24 - length ?v) @ ?z 4 @ ?r"
  have h2: "splice (m @ ?z 2 @ ?z 2 @ ?z 2 @ ?z 6 @ ?z 4 @ ?z 8 @ ?z 8 @ ?z (length ?v) @ ?e) 4 (u16_le FORMAT_VERSION) =
      m @ u16_le 1 @ ?z 2 @ ?z 2 @ ?z 6 @ ?z 4 @ ?z 8 @ ?z 8 @ ?z (length ?v) @ ?e"
    using at [of 4 m "u16_le 1" "?z 2"] len by (simp add: FORMAT_VERSION_def)
  have h3: "splice (m @ u16_le 1 @ ?z 2 @ ?z 2 @ ?z 6 @ ?z 4 @ ?z 8 @ ?z 8 @ ?z (length ?v) @ ?e) 6 f =
      m @ u16_le 1 @ f @ ?z 2 @ ?z 6 @ ?z 4 @ ?z 8 @ ?z 8 @ ?z (length ?v) @ ?e"
    using at [of 6 "m @ u16_le 1" f "?z 2"] len by simp
  have h4: "splice (m @ u16_le 1 @ f @ ?z 2 @ ?z 6 @ ?z 4 @ ?z 8 @ ?z 8 @ ?z (length ?v) @ ?e) 8 c =
      m @ u16_le 1 @ f @ c @ ?z 6 @ ?z 4 @ ?z 8 @ ?z 8 @ ?z (length ?v) @ ?e"
    using at [of 8 "m @ u16_le 1 @ f" c "?z 2"] len by simp
  have h5: "splice (m @ u16_le 1 @ f @ c @ ?z 6 @ ?z 4 @ ?z 8 @ ?z 8 @ ?z (length ?v) @ ?e) 16 l =
      m @ u16_le 1 @ f @ c @ ?z 6 @ l @ ?z 8 @ ?z 8 @ ?z (length ?v) @ ?e"
    using at [of 16 "m @ u16_le 1 @ f @ c @ ?z 6" l "?z 4"] len by simp
  have h6: "splice (m @ u16_le 1 @ f @ c @ ?z 6 @ l @ ?z 8 @ ?z 8 @ ?z (length ?v) @ ?e) 28 t =
      m @ u16_le 1 @ f @ c @ ?z 6 @ l @ ?z 8 @ t @ ?z (length ?v) @ ?e"
    using at [of 28 "m @ u16_le 1 @ f @ c @ ?z 6 @ l @ ?z 8" t "?z 8"] len by simp
  have h7: "splice (m @ u16_le 1 @ f @ c @ ?z 6 @ l @ ?z 8 @ t @ ?z (length ?v) @ ?e) 36 ?v =
      m @ u16_le 1 @ f @ c @ ?z 6 @ l @ ?z 8 @ t @ ?v @ ?e"
    using at [of 36 "m @ u16_le 1 @ f @ c @ ?z 6 @ l @ ?z 8 @ t" ?v "?z (length ?v)" ?e] len by simp
  have h8: "splice (m @ u16_le 1 @ f @ c @ ?z 6 @ l @ ?z 8 @ t @ ?v @ ?e) 64 config =
      m @ u16_le 1 @ f @ c @ ?z 6 @ l @ ?z 8 @ t @ ?v @ ?z (24 - length ?v) @ ?z 4 @ config @ ?z (n - 64 - length config)"
    using at [of 64 "m @ u16_le 1 @ f @ c @ ?z 6 @ l @ ?z 8 @ t @ ?v @ ?z (24 - length ?v) @ ?z 4" config "?z (length config)" "?z (n - 64 - length config)"] len
    by simp
  show ?thesis
    unfolding write_header_def Let_def h1 SNAP_HEADER_def unfolding d(1) [symmetric] h2 d(2) [symmetric] h3
    unfolding d(3) [symmetric] h4 d(4) [symmetric] h5 d(5) [symmetric] h6 h7 h8
    unfolding header_def d(1) [symmetric] d(2) [symmetric] d(3) [symmetric] d(4) [symmetric] d(5) [symmetric] v by simp
qed

section \<open>The loops\<close>

lemma lay_out_Cons [simp]:
  "fst (lay_out cursor (len # lens)) = cursor # fst (lay_out (align_up (cursor + len)) lens)"
  "snd (lay_out cursor (len # lens)) = snd (lay_out (align_up (cursor + len)) lens)"
  by (simp_all add: case_prod_unfold Let_def)

declare lay_out.simps(2) [simp del]

lemma write_table_rows:
  "length a = table_start + i * ENTRY \<Longrightarrow>
     write_table table_start i (zip ms (fst (lay_out cursor (map sm_len ms)))) (a @ replicate (length ms * 32) 0 @ c) =
       a @ rows ms cursor @ c"
proof (induction ms arbitrary: a i cursor)
  case (Cons m ms)
  have z: "replicate (length (m # ms) * 32) (0 :: u8) = replicate 32 0 @ replicate (length ms * 32) 0"
    by (simp add: replicate_add)
  let ?r = "row (sm_kind m) cursor (sm_len m) (sm_hash m)"
  have "length (a @ ?r) = table_start + (i + 1) * ENTRY" using Cons.prems by (simp add: ENTRY_def)
  from Cons.IH [OF this, of "align_up (cursor + sm_len m)"] show ?case
    unfolding z using write_entry_row [OF Cons.prems [symmetric], of "replicate (length ms * 32) 0 @ c"] by simp
qed simp

definition metas_of :: "(bytes \<Rightarrow> u64) \<Rightarrow> section_body list \<Rightarrow> section_meta list" where
  "metas_of h secs = map (\<lambda>(kind, bs). \<lparr>sm_kind = kind, sm_len = length bs, sm_hash = h bs\<rparr>) secs"

lemma metas_of_simps [simp]: "length (metas_of h secs) = length secs"
  "map sm_len (metas_of h secs) = map (\<lambda>(_, bs). length bs) secs" "metas_of h [] = []"
  "metas_of h ((k, b) # secs) = \<lparr>sm_kind = k, sm_len = length b, sm_hash = h b\<rparr> # metas_of h secs"
  by (simp_all add: metas_of_def case_prod_unfold)

lemma write_sections_image:
  "length a = table_start + i * ENTRY \<Longrightarrow> length a + length secs * 32 + length c + length d = cursor \<Longrightarrow>
   cursor + n = snd (lay_out cursor (map (\<lambda>(_, bs). length bs) secs)) \<Longrightarrow>
     write_sections h table_start i (zip secs (fst (lay_out cursor (map (\<lambda>(_, bs). length bs) secs))))
       (a @ replicate (length secs * 32) 0 @ c @ d @ replicate n 0) =
     a @ rows (metas_of h secs) cursor @ c @ d @ bodies cursor (map snd secs)"
proof (induction secs arbitrary: a i cursor d n)
  case (Cons s secs)
  obtain k b where s: "s = (k, b)" by (cases s)
  let ?next = "align_up (cursor + length b)" and ?lens = "map (\<lambda>(_, bs). length bs) secs"
  let ?r = "row k cursor (length b) (h b)" and ?pad = "pad_len cursor (length b)"
  have z: "replicate (length (s # secs) * 32) (0 :: u8) = replicate 32 0 @ replicate (length secs * 32) 0"
    by (simp add: replicate_add)
  have stop: "?next \<le> snd (lay_out ?next ?lens)" by (rule lay_out_ge)
  have n: "cursor + n = snd (lay_out ?next ?lens)" using Cons.prems(3) by (simp add: s)
  define m where "m = n - length b - ?pad"
  have split: "n = length b + (?pad + m)" using n stop pad_end [of cursor "length b"] by (simp add: m_def)
  have cur: "cursor = length (a @ ?r @ replicate (length secs * 32) 0 @ c @ d)"
    unfolding Cons.prems(2) [symmetric] by simp
  have body: "splice (a @ ?r @ replicate (length secs * 32) 0 @ c @ d @ replicate n 0) cursor b =
      (a @ ?r) @ replicate (length secs * 32) 0 @ c @ (d @ b @ replicate ?pad 0) @ replicate m 0"
    using splice_at [OF cur, of b "replicate (length b) 0" "replicate ?pad 0 @ replicate m 0"]
    by (simp only: split replicate_add append_assoc length_replicate)
  have ih: "write_sections h table_start (i + 1) (zip secs (fst (lay_out ?next ?lens)))
      ((a @ ?r) @ replicate (length secs * 32) 0 @ c @ (d @ b @ replicate ?pad 0) @ replicate m 0) =
      (a @ ?r) @ rows (metas_of h secs) ?next @ c @ (d @ b @ replicate ?pad 0) @ bodies ?next (map snd secs)"
    by (rule Cons.IH) (use Cons.prems(1,2) n split pad_end [of cursor "length b"] in \<open>simp_all add: ENTRY_def s\<close>)
  have entry: "write_entry (a @ replicate 32 0 @ replicate (length secs * 32) 0 @ c @ d @ replicate n 0) (table_start + i * ENTRY) k cursor (length b) (h b) =
      a @ ?r @ replicate (length secs * 32) 0 @ c @ d @ replicate n 0"
    by (rule write_entry_row) (use Cons.prems(1) in simp)
  show ?case
    unfolding z append_assoc using ih entry body by (simp add: s Let_def)
qed simp

section \<open>The two writers\<close>

text \<open>The image of a snapshot whose file hash is still zero.\<close>

definition unhashed :: "(bytes \<Rightarrow> u64) \<Rightarrow> section_body list \<Rightarrow> bytes \<Rightarrow> u16 \<Rightarrow> u64 \<Rightarrow> bytes \<Rightarrow> bytes" where
  "unhashed h secs config flags created ver =
     (let table_start = align_up (64 + length config); table_end = table_start + length secs * 32; first = align_up table_end in
      header flags (length secs) (length config) created ver @ config @ replicate (table_start - 64 - length config) 0 @
      rows (metas_of h secs) first @ replicate (first - table_end) 0 @ bodies first (map snd secs))"

definition prefix_image :: "(bytes \<Rightarrow> u64) \<Rightarrow> section_body list \<Rightarrow> bytes \<Rightarrow> u16 \<Rightarrow> u64 \<Rightarrow> bytes \<Rightarrow> bytes" where
  "prefix_image h secs config flags created ver =
     (let table_start = align_up (64 + length config); table_end = table_start + length secs * 32; first = align_up table_end in
      header flags (length secs) (length config) created ver @ config @ replicate (table_start - 64 - length config) 0 @
      rows (metas_of h secs) first @ replicate (first - table_end) 0)"

lemma unhashed_prefix:
  "unhashed h secs config flags created ver = prefix_image h secs config flags created ver @
     bodies (align_up (align_up (64 + length config) + length secs * 32)) (map snd secs)"
  by (simp add: unhashed_def prefix_image_def Let_def)

lemma blank_header:
  assumes "ts = align_up (64 + length config)" and "te = ts + k * 32" and "te \<le> n"
  shows "write_header (replicate n 0) config flags count created ver =
    (header flags count (length config) created ver @ config @ replicate (ts - 64 - length config) 0) @ replicate (k * 32) 0 @ replicate (n - te) 0"
proof -
  have "64 + length config \<le> ts" unfolding assms(1) by (rule align_up_ge)
  then have len: "64 + length config \<le> n" "n - 64 - length config = (ts - 64 - length config) + (k * 32 + (n - te))"
    using assms(2,3) by simp_all
  show ?thesis unfolding write_header_image [OF len(1)] len(2) by (simp add: replicate_add)
qed

lemma finish_image:
  "writer_finish h secs config flags created ver =
     splice (unhashed h secs config flags created ver) 20 (u64_le (file_hash h (unhashed h secs config flags created ver)))"
proof -
  let ?ts = "align_up (64 + length config)"
  let ?te = "?ts + length secs * 32"
  let ?lens = "map (\<lambda>(_, bs). length bs) secs"
  define stop where "stop = snd (lay_out (align_up ?te) ?lens)"
  have le: "?te \<le> align_up ?te" "align_up ?te \<le> stop" by (simp_all add: align_up_ge lay_out_ge stop_def)
  let ?a = "header flags (length secs) (length config) created ver @ config @ replicate (?ts - 64 - length config) 0"
  have la: "length ?a = ?ts" using align_up_ge [of "64 + length config"] by simp
  have z: "replicate (stop - ?te) (0 :: u8) = replicate (align_up ?te - ?te) 0 @ [] @ replicate (stop - align_up ?te) 0"
    unfolding append_Nil replicate_add [symmetric] by (rule arg_cong [of _ _ "\<lambda>k. replicate k 0"]) (use le in simp)
  have "write_sections h ?ts 0 (zip secs (fst (lay_out (align_up ?te) ?lens)))
      (write_header (replicate stop 0) config flags (length secs) created ver) = unhashed h secs config flags created ver"
    unfolding blank_header [OF refl refl le(1) [THEN le_trans, OF le(2)]] z
    using write_sections_image [of ?a ?ts 0 secs "replicate (align_up ?te - ?te) 0" "[]" "align_up ?te" "stop - align_up ?te" h] la le
    by (simp add: unhashed_def Let_def ENTRY_def stop_def)
  then show ?thesis
    by (simp add: writer_finish_def Let_def case_prod_unfold SNAP_HEADER_def ENTRY_def FILE_HASH_AT_def stop_def)
qed

lemma header_split:
  "\<exists>p q. header flags count n created ver = p @ replicate 8 0 @ q \<and> length p = 20 \<and> length q = 36"
  by (intro exI [of _ "u32_le MAGIC @ u16_le 1 @ u16_le flags @ u16_le (of_nat count) @ replicate 6 0 @ u32_le (of_nat n)"]
      exI [of _ "u64_le created @ take 24 ver @ replicate (24 - min 24 (length ver)) 0 @ replicate 4 0"])
    (simp add: header_def)

text \<open>The file hash of an unhashed image is the hash of all its bytes.\<close>

lemma unhashed_split:
  "\<exists>p q. unhashed h secs config flags created ver = p @ replicate 8 0 @ q \<and> length p = 20"
  using header_split [of flags "length secs" "length config" created ver]
  unfolding unhashed_def Let_def by (metis append_assoc)

lemma unhashed_hash: "file_hash h (unhashed g secs config flags created ver) = h (unhashed g secs config flags created ver)"
  using unhashed_split [of g secs config flags created ver] by (auto simp: file_hash_def FILE_HASH_AT_def)

lemma build_prefix_image:
  "px_bytes (build_prefix config flags created ver (metas_of h secs)) = prefix_image h secs config flags created ver"
  "px_offsets (build_prefix config flags created ver (metas_of h secs)) =
     fst (lay_out (align_up (align_up (64 + length config) + length secs * 32)) (map length (map snd secs)))"
proof -
  let ?ts = "align_up (64 + length config)"
  let ?te = "?ts + length secs * 32"
  let ?a = "header flags (length secs) (length config) created ver @ config @ replicate (?ts - 64 - length config) 0"
  have la: "length ?a = ?ts + 0 * ENTRY" using align_up_ge [of "64 + length config"] by simp
  have lens: "map sm_len (metas_of h secs) = map length (map snd secs)" by (simp add: case_prod_unfold)
  show "px_bytes (build_prefix config flags created ver (metas_of h secs)) = prefix_image h secs config flags created ver"
    using write_table_rows [OF la, of "metas_of h secs" "align_up ?te" "replicate (align_up ?te - ?te) 0"]
      blank_header [OF refl refl align_up_ge, of config "length secs" flags "length secs" created ver]
    by (simp add: build_prefix_def prefix_image_def Let_def case_prod_unfold SNAP_HEADER_def ENTRY_def)
  show "px_offsets (build_prefix config flags created ver (metas_of h secs)) = fst (lay_out (align_up ?te) (map length (map snd secs)))"
    by (simp add: build_prefix_def Let_def case_prod_unfold SNAP_HEADER_def ENTRY_def comp_def)
qed

definition joined :: "(u16 \<times> bytes list) list \<Rightarrow> section_body list" where
  "joined secs = map (\<lambda>(kind, pieces). (kind, concat pieces)) secs"

lemma pass_1_metas: "pass_1 h secs = metas_of h (joined secs)"
  by (simp add: pass_1_def metas_of_def joined_def case_prod_unfold length_concat)

lemma pass_2_bodies:
  "pass_2 (zip secs (zip (fst (lay_out cursor (map length (map snd (joined secs))))) (metas_of h (joined secs)))) sink fed =
     (sink @ bodies cursor (map snd (joined secs)), fed @ bodies cursor (map snd (joined secs)))"
proof (induction secs arbitrary: cursor sink fed)
  case (Cons s secs)
  obtain k ps where s: "s = (k, ps)" by (cases s)
  have f: "fold vec_sink_write ps sink = sink @ concat ps" for sink
    by (induction ps arbitrary: sink) (simp_all add: vec_sink_write_def)
  show ?case
    using Cons.IH [of "align_up (cursor + length (concat ps))"]
    by (simp add: s joined_def Let_def f) (simp add: vec_sink_write_def)
qed (simp add: joined_def)

lemma length_unhashed: "64 \<le> length (unhashed h secs config flags created ver)"
  by (simp add: unhashed_def Let_def)

text \<open>
  C30. The streaming writer is the in-memory writer: for sections given in any pieces, the two passes over a byte
  vector, with the file hash patched in at the end, write exactly the bytes of \<open>SnapshotWriter::finish\<close> over the joined
  sections, and the patch is in range.
\<close>

theorem streamed_snapshot_identical:
  "write_streamed h secs config flags created ver =
     Some (writer_finish h (map (\<lambda>(kind, pieces). (kind, concat pieces)) secs) config flags created ver)"
proof -
  let ?first = "align_up (align_up (64 + length config) + length secs * 32)"
  have n: "length (joined secs) = length secs" by (simp add: joined_def)
  have p: "pass_2 (zip secs (zip (px_offsets (build_prefix config flags created ver (pass_1 h secs))) (pass_1 h secs)))
      (vec_sink_write (px_bytes (build_prefix config flags created ver (pass_1 h secs))) [])
      (px_bytes (build_prefix config flags created ver (pass_1 h secs))) =
    (unhashed h (joined secs) config flags created ver, unhashed h (joined secs) config flags created ver)"
    unfolding pass_1_metas build_prefix_image n unfolding unhashed_prefix n
    using pass_2_bodies [of secs ?first h] by (simp add: vec_sink_write_def)
  have "20 + 8 \<le> length (unhashed h (joined secs) config flags created ver)"
    using length_unhashed [of h "joined secs" config flags created ver] by simp
  then show ?thesis
    unfolding write_streamed_def Let_def p finish_image joined_def [symmetric] unhashed_hash
    by (simp add: vec_sink_patch_def FILE_HASH_AT_def)
qed

end
