(* ===== verification/Edge_Graph.thy ===== *)
theory Edge_Graph
  imports Edges
begin

text \<open>
  What the edge graph is: a set of edge versions. \<open>graph_rep g V\<close> says that the four arenas of \<open>g\<close>
  store exactly \<open>V\<close>, mirrored under source and target, with the open versions as the current graph.
  The lemmas carry each method to that set: closing replaces one open version by its closed
  form, opening adds one version under a fresh id.
\<close>

section \<open>Maps keyed by a set of records\<close>

definition keyed :: "('r \<Rightarrow> 'k) \<Rightarrow> 'r set \<Rightarrow> ('k \<Rightarrow> 'r option) \<Rightarrow> bool" where
  "keyed key S m \<longleftrightarrow> (\<forall>k r. m k = Some r \<longleftrightarrow> r \<in> S \<and> key r = k)"

lemma keyed_get: "keyed key S m \<Longrightarrow> r \<in> S \<Longrightarrow> m (key r) = Some r"
  by (simp add: keyed_def)

lemma keyed_SomeD: "keyed key S m \<Longrightarrow> m k = Some r \<Longrightarrow> r \<in> S \<and> key r = k"
  by (simp add: keyed_def)

lemma keyed_None: "keyed key S m \<Longrightarrow> m k = None \<longleftrightarrow> (\<forall>r \<in> S. key r \<noteq> k)"
  unfolding keyed_def by (metis not_Some_eq)

lemma keyed_ran: "keyed key S m \<Longrightarrow> ran m = S"
  by (auto simp: keyed_def ran_def)

lemma keyed_inj: "keyed key S m \<Longrightarrow> r \<in> S \<Longrightarrow> r' \<in> S \<Longrightarrow> key r = key r' \<Longrightarrow> r = r'"
  by (metis keyed_get option.inject)

lemma keyed_empty: "keyed key {} Map.empty"
  by (simp add: keyed_def)

lemma keyed_insert: "keyed key S m \<Longrightarrow> m (key r) = None \<Longrightarrow> keyed key (insert r S) (m(key r \<mapsto> r))"
  using keyed_None [of key S m "key r"] by (auto simp: keyed_def)

lemma keyed_remove: "keyed key S m \<Longrightarrow> r \<in> S \<Longrightarrow> keyed key (S - {r}) (m(key r := None))"
  unfolding keyed_def by (metis DiffD1 DiffD2 DiffI fun_upd_apply insertI1 option.distinct(1) option.inject singletonD)

lemma keyed_update:
  assumes "keyed key S m" and "r \<in> S" and "key r' = key r"
  shows "keyed key (insert r' (S - {r})) (m(key r \<mapsto> r'))"
proof -
  from keyed_insert [OF keyed_remove [OF assms(1,2)], of r'] show ?thesis using assms(3) by simp
qed

section \<open>Versions\<close>

definition is_open :: "edge_history_slot \<Rightarrow> bool" where
  "is_open h \<longleftrightarrow> eh_flags h AND EDGE_CLOSED = 0"

definition triple :: "edge_history_slot \<Rightarrow> entity_id \<times> term_id \<times> entity_id" where
  "triple h = (eh_a h, eh_rel h, eh_b h)"

definition opens :: "edge_history_slot set \<Rightarrow> edge_history_slot set" where
  "opens V = {h \<in> V. is_open h}"

definition slot_of :: "edge_history_slot \<Rightarrow> edge_slot" where
  "slot_of h = \<lparr>es_a = eh_a h, es_rel = eh_rel h, es_b = eh_b h, es_fact = eh_fact h, es_edge = eh_edge h,
     es_valid_from = eh_valid_from h\<rparr>"

definition slot_mirror :: "edge_history_slot \<Rightarrow> edge_slot" where
  "slot_mirror h = (slot_of h)\<lparr>es_a := eh_b h, es_b := eh_a h\<rparr>"

definition mirror :: "edge_history_slot \<Rightarrow> edge_history_slot" where
  "mirror h = h\<lparr>eh_a := eh_b h, eh_b := eh_a h\<rparr>"

definition closed_at :: "u64 \<Rightarrow> edge_history_slot \<Rightarrow> edge_history_slot" where
  "closed_at t h = h\<lparr>eh_flags := eh_flags h OR EDGE_CLOSED, eh_valid_to := t\<rparr>"

definition fresh_version :: "u64 \<Rightarrow> entity_id \<times> term_id \<times> entity_id \<Rightarrow> fact_id \<Rightarrow> edge_id \<Rightarrow> edge_history_slot" where
  "fresh_version now t prov edge = (case t of (src, rel, dst) \<Rightarrow>
     \<lparr>eh_a = src, eh_rel = rel, eh_b = dst, eh_edge = edge, eh_fact = prov, eh_flags = 0, eh_kind = 0,
      eh_recorded_at = now, eh_valid_from = now, eh_valid_to = VALID_TO_OPEN\<rparr>)"

definition versions_ok :: "edge_history_slot set \<Rightarrow> edge_id \<Rightarrow> bool" where
  "versions_ok V n \<longleftrightarrow> (\<forall>h \<in> V. eh_edge h < n) \<and> inj_on eh_edge V \<and> inj_on triple (opens V) \<and>
     (\<forall>h \<in> V. if is_open h then eh_valid_to h = VALID_TO_OPEN else eh_valid_from h \<le> eh_valid_to h)"

lemma triple_unique: "versions_ok V n \<Longrightarrow> h \<in> opens V \<Longrightarrow> h' \<in> opens V \<Longrightarrow> triple h = triple h' \<Longrightarrow> h = h'"
  unfolding versions_ok_def by (meson inj_onD)

text \<open>The specification of the two methods, on sets of versions.\<close>

definition spec_close :: "u64 \<Rightarrow> entity_id \<times> term_id \<times> entity_id \<Rightarrow> edge_history_slot set \<Rightarrow> edge_history_slot set" where
  "spec_close now t V = (\<lambda>h. if is_open h \<and> triple h = t then closed_at (max now (eh_valid_from h)) h else h) ` V"

definition spec_open ::
  "u64 \<Rightarrow> entity_id \<times> term_id \<times> entity_id \<Rightarrow> fact_id \<Rightarrow> edge_history_slot set \<times> edge_id \<Rightarrow> edge_history_slot set \<times> edge_id" where
  "spec_open now t prov Vn = (case Vn of (V, n) \<Rightarrow>
     if \<exists>h \<in> opens V. triple h = t \<and> eh_fact h = prov then (V, n)
     else (insert (fresh_version now t prov n) (spec_close now t V), n + 1))"

lemma version_simps [simp]:
  "triple (closed_at t h) = triple h" "eh_edge (closed_at t h) = eh_edge h" "\<not> is_open (closed_at t h)"
  "eh_valid_from (closed_at t h) = eh_valid_from h" "eh_valid_to (closed_at t h) = t" "eh_a (closed_at t h) = eh_a h"
  "eh_b (closed_at t h) = eh_b h" "eh_rel (closed_at t h) = eh_rel h" "eh_fact (closed_at t h) = eh_fact h"
  "mirror (closed_at t h) = closed_at t (mirror h)" "mirror (mirror h) = h"
  "eh_a (mirror h) = eh_b h" "eh_edge (mirror h) = eh_edge h" "eh_valid_from (mirror h) = eh_valid_from h"
  "is_open (fresh_version now k prov e)" "triple (fresh_version now k prov e) = k"
  "eh_edge (fresh_version now k prov e) = e" "eh_valid_to (fresh_version now k prov e) = VALID_TO_OPEN"
  "eh_valid_from (fresh_version now k prov e) = now" "eh_fact (fresh_version now k prov e) = prov"
  by (simp_all add: closed_at_def is_open_def triple_def mirror_def fresh_version_def EDGE_CLOSED_def
      bit.conj_disj_distrib2 split: prod.splits)

lemma slot_simps [simp]:
  "es_fact (slot_of h) = eh_fact h" "es_valid_from (slot_of h) = eh_valid_from h" "es_edge (slot_of h) = eh_edge h"
  "es_a (slot_of h) = eh_a h" "es_rel (slot_of h) = eh_rel h" "es_b (slot_of h) = eh_b h"
  "es_a (slot_mirror h) = eh_b h" "es_rel (slot_mirror h) = eh_rel h" "es_b (slot_mirror h) = eh_a h"
  by (simp_all add: slot_of_def slot_mirror_def)

lemma closed_image:
  "edge_history_slot_image (closed_at t h) =
     version_key (eh_a h, eh_valid_from h, eh_edge h) @ closing t (drop (KEY_LEN edge_history_slot_slot) (edge_history_slot_image h))"
  by (simp add: edge_history_slot_image_def closing_def close_edge_history_payload_def closed_at_def version_key_def
      edge_history_slot_slot_def layout_simps)

lemma length_closing: "length xs = 32 \<Longrightarrow> length (closing t xs) = length xs"
  by (auto simp: closing_def close_edge_history_payload_def split: option.splits bind_splits)

section \<open>The representation\<close>

abbreviation "es_key s \<equiv> (es_a s, es_rel s, es_b s)"
abbreviation "eh_key h \<equiv> (eh_a h, eh_valid_from h, eh_edge h)"
abbreviation "es_view \<equiv> rview edge_slot_slot edge_slot_read triple_key"
abbreviation "eh_view \<equiv> rview edge_history_slot_slot edge_history_slot_read version_key"

definition graph_rep :: "graph \<Rightarrow> edge_history_slot set \<Rightarrow> bool" where
  "graph_rep g V \<longleftrightarrow>
     arena_usable edge_slot_slot (edges_out g) \<and> arena_usable edge_slot_slot (edges_in g) \<and>
     arena_usable edge_history_slot_slot (edges_hist_out g) \<and> arena_usable edge_history_slot_slot (edges_hist_in g) \<and>
     keyed es_key (slot_of ` opens V) (es_view (edges_out g)) \<and> keyed es_key (slot_mirror ` opens V) (es_view (edges_in g)) \<and>
     keyed eh_key V (eh_view (edges_hist_out g)) \<and> keyed eh_key (mirror ` V) (eh_view (edges_hist_in g)) \<and>
     versions_ok V (next_edge g)"

text \<open>The versions a graph holds, and the invariant, without naming the set.\<close>

definition versions :: "graph \<Rightarrow> edge_history_slot set" where
  "versions g = ran (eh_view (edges_hist_out g))"

definition graph_inv :: "graph \<Rightarrow> bool" where
  "graph_inv g \<longleftrightarrow> graph_rep g (versions g)"

lemma rep_versions: "graph_rep g V \<Longrightarrow> versions g = V"
  unfolding graph_rep_def versions_def using keyed_ran by blast

lemma rep_inv: "graph_rep g V \<Longrightarrow> graph_inv g"
  using rep_versions unfolding graph_inv_def by blast

definition edge_arenas :: "graph \<Rightarrow> arena list" where
  "edge_arenas g = [edges_out g, edges_in g, edges_hist_out g, edges_hist_in g]"

definition edge_cfgs :: "graph \<Rightarrow> arena_cfg list" where
  "edge_cfgs g = map ar_cfg (edge_arenas g)"

text \<open>A bound on the pages each arena holds.\<close>

definition pages_le :: "nat \<Rightarrow> graph \<Rightarrow> bool" where
  "pages_le n g \<longleftrightarrow> (\<forall>a \<in> set (edge_arenas g). npages a \<le> n)"

lemmas edge_arena_defs = edge_cfgs_def pages_le_def edge_arenas_def

section \<open>Looking an edge up\<close>

lemma current_view:
  assumes "arena_inv edge_slot_slot (edges_out g)"
  shows "current_edge g src rel dst = Some (es_view (edges_out g) (src, rel, dst))"
proof -
  have k: "edge_key src rel dst = Some (triple_key (src, rel, dst))" by (simp add: edge_key_eq triple_key_def)
  show ?thesis
    by (cases "es_view (edges_out g) (src, rel, dst)")
      (simp_all add: current_edge_def k es_arena.get_view(1) [OF assms] es_codec.read_image)
qed

lemma current_rep:
  assumes "graph_rep g V"
  obtains (absent) "current_edge g src rel dst = Some None" "\<forall>h \<in> opens V. triple h \<noteq> (src, rel, dst)"
  | (found) h where "current_edge g src rel dst = Some (Some (slot_of h))" "h \<in> opens V" "triple h = (src, rel, dst)"
proof -
  have k: "keyed es_key (slot_of ` opens V) (es_view (edges_out g))" and inv: "arena_inv edge_slot_slot (edges_out g)"
    using assms by (simp_all add: graph_rep_def arena_usable_def)
  note c = current_view [OF inv, of src rel dst]
  show ?thesis
  proof (cases "es_view (edges_out g) (src, rel, dst)")
    case None
    then have "\<forall>h \<in> opens V. triple h \<noteq> (src, rel, dst)" using keyed_None [OF k] by (auto simp: triple_def)
    then show ?thesis using None c absent by simp
  next
    case (Some s)
    from keyed_SomeD [OF k this] obtain h where "h \<in> opens V" "s = slot_of h" "triple h = (src, rel, dst)"
      by (auto simp: triple_def)
    then show ?thesis using Some c found by simp
  qed
qed

section \<open>Closing a version\<close>

lemma version_sets:
  assumes ok: "versions_ok V n" and h: "h \<in> opens V" and t: "eh_valid_from h \<le> t"
  defines "W \<equiv> insert (closed_at t h) (V - {h})"
  shows "versions_ok W n" and "opens W = opens V - {h}"
    and "slot_of ` (opens V - {h}) = slot_of ` opens V - {slot_of h}"
    and "slot_mirror ` (opens V - {h}) = slot_mirror ` opens V - {slot_mirror h}"
    and "mirror ` W = insert (closed_at t (mirror h)) (mirror ` V - {mirror h})"
proof -
  have hV: "h \<in> V" using h by (simp add: opens_def)
  have inj: "inj_on eh_edge V" using ok by (simp add: versions_ok_def)
  have "closed_at t h \<noteq> h" using h version_simps(3) [of t h] by (auto simp: opens_def simp del: version_simps)
  then show o: "opens W = opens V - {h}" by (auto simp: W_def opens_def)
  have "inj_on eh_edge W"
    using inj hV unfolding W_def by (auto simp: inj_on_def)
  moreover have "inj_on triple (opens W)" unfolding o using ok by (auto simp: versions_ok_def intro: inj_on_subset)
  ultimately show "versions_ok W n" using ok t hV unfolding versions_ok_def W_def by auto
  have "inj_on slot_of (opens V)" "inj_on slot_mirror (opens V)"
    using inj by (auto simp: inj_on_def opens_def slot_of_def slot_mirror_def)
  then show "slot_of ` (opens V - {h}) = slot_of ` opens V - {slot_of h}"
    "slot_mirror ` (opens V - {h}) = slot_mirror ` opens V - {slot_mirror h}"
    using h by (simp_all add: inj_on_image_set_diff [where C = "opens V"])
  have "inj_on mirror V" by (rule inj_on_inverseI [of _ mirror]) simp
  then show "mirror ` W = insert (closed_at t (mirror h)) (mirror ` V - {mirror h})"
    using hV by (simp add: W_def inj_on_image_set_diff [where C = V])
qed

lemma close_payload:
  assumes u: "arena_usable edge_history_slot_slot (get g)" and k: "keyed eh_key V (eh_view (get g))" and h: "h \<in> V"
    and key: "key = version_key (eh_key h)"
  obtains b where "payload_at get put edge_history_slot_slot key (closing t) absent g = Some (Inr (), put b g)"
    "arena_usable edge_history_slot_slot b" "keyed eh_key (insert (closed_at t h) (V - {h})) (eh_view b)" "ar_cfg b = ar_cfg (get g)" "npages b = npages (get g)"
proof -
  have inv: "arena_inv edge_history_slot_slot (get g)" using u by (simp add: arena_usable_def)
  have len: "length xs = SIZE edge_history_slot_slot - KEY_LEN edge_history_slot_slot \<Longrightarrow> length (closing t xs) = length xs" for xs
    by (simp add: edge_history_slot_slot_def length_closing)
  have img: "edge_history_slot_image (closed_at t r) =
      version_key (eh_key h) @ closing t (drop (KEY_LEN edge_history_slot_slot) (edge_history_slot_image r))"
    if "eh_view (get g) (eh_key h) = Some r" for r
    using eh_arena.view_key [OF inv that] by (simp add: closed_image)
  have some: "eh_view (get g) (eh_key h) = Some h" using keyed_get [OF k h] .
  show ?thesis
  proof (rule eh_arena.payload_view [of "get g" "closing t" "eh_key h" "closed_at t", OF u len img])
    fix r b assume b: "eh_view (get g) (eh_key h) = Some r"
      "arena_payload_mut edge_history_slot_slot (closing t) (get g) (version_key (eh_key h)) = Some (Some b)"
      "arena_usable edge_history_slot_slot b" "eh_view b = (eh_view (get g))(eh_key h \<mapsto> closed_at t r)" "ar_cfg b = ar_cfg (get g)"
      "npages b = npages (get g)"
    have "keyed eh_key (insert (closed_at t h) (V - {h})) (eh_view b)"
      using keyed_update [OF k h, of "closed_at t h"] b(1,4) some by simp
    then show ?thesis using that b(2,3,5,6) by (simp add: payload_at_def key)
  qed (use some in simp_all)
qed

lemma remove_current:
  assumes u: "arena_usable edge_slot_slot (get g)" and k: "keyed es_key S (es_view (get g))" and s: "s \<in> S"
    and key: "key = triple_key (es_key s)"
  obtains b where "remove_at get put edge_slot_slot key g = Some (Inr True, put b g)"
    "arena_usable edge_slot_slot b" "keyed es_key (S - {s}) (es_view b)" "ar_cfg b = ar_cfg (get g)" "npages b = npages (get g)"
  by (rule es_arena.remove_view [OF u, of "es_key s"])
    (use keyed_get [OF k s] keyed_remove [OF k s] that in \<open>simp_all add: remove_at_def key\<close>)

lemma close_found:
  assumes rep: "graph_rep g V" and h: "h \<in> opens V" and tr: "triple h = (src, rel, dst)"
  obtains g' where "close_current_edge now src rel dst g = Some (Inr True, g')"
    "graph_rep g' (insert (closed_at (max now (eh_valid_from h)) h) (V - {h}))" "next_edge g' = next_edge g" "edge_cfgs g' = edge_cfgs g"
    "\<And>n. pages_le n g \<Longrightarrow> pages_le n g'"
proof -
  let ?t = "max now (eh_valid_from h)"
  have hV: "h \<in> V" using h by (simp add: opens_def)
  have e: "eh_a h = src" "eh_rel h = rel" "eh_b h = dst" using tr by (simp_all add: triple_def)
  have cur: "current_edge g src rel dst = Some (Some (slot_of h))"
    using keyed_get [of es_key "slot_of ` opens V" "es_view (edges_out g)" "slot_of h"] h rep e
    by (simp add: graph_rep_def arena_usable_def current_view)
  obtain ho where 1: "payload_at edges_hist_out put_hist_out edge_history_slot_slot (version_key (eh_key h)) (closing ?t)
      (fail_with (Corrupt_core ''missing outgoing edge history'')) g = Some (Inr (), put_hist_out ho g)"
    "arena_usable edge_history_slot_slot ho" "keyed eh_key (insert (closed_at ?t h) (V - {h})) (eh_view ho)" "ar_cfg ho = ar_cfg (edges_hist_out g)" "npages ho = npages (edges_hist_out g)"
    using close_payload [of edges_hist_out g V h] rep hV unfolding graph_rep_def by blast
  define g1 where "g1 = put_hist_out ho g"
  have g1: "edges_hist_in g1 = edges_hist_in g" "edges_out g1 = edges_out g" "edges_in g1 = edges_in g" by (simp_all add: g1_def put_defs)
  obtain hi where 2: "payload_at edges_hist_in put_hist_in edge_history_slot_slot (version_key (eh_key (mirror h))) (closing ?t)
      (fail_with (Corrupt_core ''missing incoming edge history'')) g1 = Some (Inr (), put_hist_in hi g1)"
    "arena_usable edge_history_slot_slot hi" "keyed eh_key (insert (closed_at ?t (mirror h)) (mirror ` V - {mirror h})) (eh_view hi)"
    "ar_cfg hi = ar_cfg (edges_hist_in g)" "npages hi = npages (edges_hist_in g)"
    using close_payload [of edges_hist_in g1 "mirror ` V" "mirror h"] rep hV unfolding graph_rep_def g1 by blast
  define g2 where "g2 = put_hist_in hi g1"
  have g2: "edges_out g2 = edges_out g" "edges_in g2 = edges_in g" by (simp_all add: g2_def put_defs g1)
  obtain ao where 3: "remove_at edges_out put_out edge_slot_slot (triple_key (es_key (slot_of h))) g2 = Some (Inr True, put_out ao g2)"
    "arena_usable edge_slot_slot ao" "keyed es_key (slot_of ` opens V - {slot_of h}) (es_view ao)" "ar_cfg ao = ar_cfg (edges_out g)" "npages ao = npages (edges_out g)"
    using remove_current [of edges_out g2 "slot_of ` opens V" "slot_of h"] rep h unfolding graph_rep_def g2 by blast
  define g3 where "g3 = put_out ao g2"
  have g3: "edges_in g3 = edges_in g" by (simp add: g3_def put_defs g2)
  obtain ai where 4: "remove_at edges_in put_in edge_slot_slot (triple_key (es_key (slot_mirror h))) g3 = Some (Inr True, put_in ai g3)"
    "arena_usable edge_slot_slot ai" "keyed es_key (slot_mirror ` opens V - {slot_mirror h}) (es_view ai)" "ar_cfg ai = ar_cfg (edges_in g)" "npages ai = npages (edges_in g)"
    using remove_current [of edges_in g3 "slot_mirror ` opens V" "slot_mirror h"] rep h unfolding graph_rep_def g3 by blast
  have ok: "versions_ok V (next_edge g)" using rep by (simp add: graph_rep_def)
  note vs = version_sets [OF ok h, of ?t]
  have "close_current_edge now src rel dst g = Some (Inr True, put_in ai g3)"
    using cur 1(1) 2(1) 3(1) 4(1) e unfolding close_current_edge_def Let_def
    by (simp add: edge_history_key_eq edge_key_eq version_key_def triple_key_def g1_def [symmetric] g2_def [symmetric] g3_def [symmetric])
  moreover have "graph_rep (put_in ai g3) (insert (closed_at ?t h) (V - {h}))"
    using vs 1 2 3 4 unfolding graph_rep_def g3_def g2_def g1_def put_defs by simp
  moreover have "next_edge (put_in ai g3) = next_edge g" "edge_cfgs (put_in ai g3) = edge_cfgs g"
    "\<And>n. pages_le n g \<Longrightarrow> pages_le n (put_in ai g3)"
    using 1 2 3 4 by (simp_all add: g3_def g2_def g1_def put_defs edge_arena_defs)
  ultimately show ?thesis using that by blast
qed

section \<open>Opening a version\<close>

text \<open>What a refused insert leaves: an arena with no free page and no room for another, unchanged.\<close>

definition capacity_error :: "core_error \<Rightarrow> graph \<Rightarrow> bool" where
  "capacity_error e g \<longleftrightarrow> (\<exists>a \<in> set (edge_arenas g).
     arena_full a \<and> e = Arena_err (CapacityExceeded (ac_max_bytes (ar_cfg a))))"

lemma insert_fresh_history:
  assumes u: "arena_usable edge_history_slot_slot (get g)" and k: "keyed eh_key S (eh_view (get g))"
    and fresh: "\<forall>h' \<in> S. eh_edge h' \<noteq> eh_edge h" and junk: "length junk = PAGE_BYTES"
  obtains (full) "insert_at get put edge_history_slot_slot edge_history_slot_write junk h g =
      Some (Inl (Arena_err (CapacityExceeded (ac_max_bytes (ar_cfg (get g))))), g)" "arena_full (get g)"
  | (new) b where "insert_at get put edge_history_slot_slot edge_history_slot_write junk h g = Some (Inr True, put b g)"
      "arena_usable edge_history_slot_slot b" "keyed eh_key (insert h S) (eh_view b)" "ar_cfg b = ar_cfg (get g)" "npages b \<le> npages (get g) + 1"
proof -
  have none: "eh_view (get g) (eh_key h) = None" using keyed_None [OF k] fresh by auto
  show ?thesis
    by (rule eh_arena.insert_view [OF u junk, of h])
      (use none keyed_insert [OF k, of h] full new in \<open>simp_all add: insert_at_def\<close>)
qed

lemma put_fresh_current:
  assumes u: "arena_usable edge_slot_slot (get g)" and k: "keyed es_key S (es_view (get g))"
    and fresh: "\<forall>s' \<in> S. es_key s' \<noteq> es_key s" and junk: "length junk = PAGE_BYTES"
  obtains (full) "put_current get put junk s g =
      Some (Inl (Arena_err (CapacityExceeded (ac_max_bytes (ar_cfg (get g))))), g)" "arena_full (get g)"
  | (new) b where "put_current get put junk s g = Some (Inr (), put b g)"
      "arena_usable edge_slot_slot b" "keyed es_key (insert s S) (es_view b)" "ar_cfg b = ar_cfg (get g)" "npages b \<le> npages (get g) + 1"
proof -
  have none: "es_view (get g) (es_key s) = None" using keyed_None [OF k] fresh by auto
  show ?thesis
    by (rule es_arena.insert_view [OF u junk, of s])
      (use none keyed_insert [OF k, of s] full new in \<open>simp_all add: put_current_def and_then_def insert_at_def\<close>)
qed

lemma open_sets:
  fixes now :: u64 and prov :: fact_id
  assumes ok: "versions_ok V n" and n: "n \<noteq> - 1" and none: "\<forall>h \<in> opens V. triple h \<noteq> t"
  defines "h \<equiv> fresh_version now t prov n"
  shows "versions_ok (insert h V) (n + 1)" and "opens (insert h V) = insert h (opens V)"
    and "h' \<in> V \<Longrightarrow> eh_edge h' \<noteq> eh_edge h" and "h' \<in> opens V \<Longrightarrow> triple h' \<noteq> triple h"
proof -
  show o: "opens (insert h V) = insert h (opens V)" by (auto simp: opens_def h_def)
  have lt: "eh_edge x < n" if "x \<in> V" for x using ok that by (simp add: versions_ok_def)
  show ed: "eh_edge h' \<noteq> eh_edge h" if "h' \<in> V" for h' using lt [OF that] by (auto simp: h_def)
  show tr: "triple h' \<noteq> triple h" if "h' \<in> opens V" for h' using none that by (simp add: h_def)
  have "1 + n \<noteq> 0" using n by (metis add.commute eq_neg_iff_add_eq_0)
  then have "n < n + 1" using unatSuc [of n] by (simp add: word_less_nat_alt add.commute)
  moreover have "inj_on eh_edge (insert h V)" "inj_on triple (opens (insert h V))"
    using ok ed tr unfolding o versions_ok_def by (auto simp: image_iff) (metis DiffD1)+
  ultimately show "versions_ok (insert h V) (n + 1)"
    using ok lt unfolding versions_ok_def by (auto simp: h_def intro: order.strict_trans)
qed

lemma open_version_rep:
  assumes rep: "graph_rep g V" and n: "next_edge g \<noteq> - 1" and none: "\<forall>h \<in> opens V. triple h \<noteq> (src, rel, dst)"
    and junk: "\<forall>i. length (junk i) = PAGE_BYTES"
  obtains (full) e g' where "open_version junk now src rel dst prov g = Some (Inl e, g')" "capacity_error e g" "capacity_error e g'"
      "next_edge g' = next_edge g" "edge_cfgs g' = edge_cfgs g"
  | (new) g' where "open_version junk now src rel dst prov g = Some (Inr (), g')"
      "graph_rep g' (insert (fresh_version now (src, rel, dst) prov (next_edge g)) V)"
      "next_edge g' = next_edge g + 1" "edge_cfgs g' = edge_cfgs g" "\<And>n. pages_le n g \<Longrightarrow> pages_le (n + 1) g'"
proof -
  let ?h = "fresh_version now (src, rel, dst) prov (next_edge g)"
  have ok: "versions_ok V (next_edge g)" using rep by (simp add: graph_rep_def)
  note vs = open_sets [OF ok n none, where now = now and prov = prov]
  have j: "length (junk i) = PAGE_BYTES" for i using junk by blast
  have rec: "\<lparr>eh_a = src, eh_rel = rel, eh_b = dst, eh_edge = next_edge g, eh_fact = prov, eh_flags = 0, eh_kind = 0,
      eh_recorded_at = now, eh_valid_from = now, eh_valid_to = VALID_TO_OPEN\<rparr> = ?h"
    "\<lparr>eh_a = dst, eh_rel = rel, eh_b = src, eh_edge = next_edge g, eh_fact = prov, eh_flags = 0, eh_kind = 0,
      eh_recorded_at = now, eh_valid_from = now, eh_valid_to = VALID_TO_OPEN\<rparr> = mirror ?h"
    "?h\<lparr>eh_a := eh_b ?h, eh_b := eh_a ?h\<rparr> = mirror ?h"
    "\<lparr>es_a = src, es_rel = rel, es_b = dst, es_fact = prov, es_edge = next_edge g, es_valid_from = now\<rparr> = slot_of ?h"
    "\<lparr>es_a = dst, es_rel = rel, es_b = src, es_fact = prov, es_edge = next_edge g, es_valid_from = now\<rparr> = slot_mirror ?h"
    by (simp_all add: fresh_version_def mirror_def slot_of_def slot_mirror_def)
  note defs = open_version_def insert_history_edge_def insert_current_edge_def and_then_def panic_if_def
  note reps = rep [unfolded graph_rep_def]
  show ?thesis
  proof (rule insert_fresh_history [of edges_hist_out g V ?h "junk 0" put_hist_out])
    assume f: "insert_at edges_hist_out put_hist_out edge_history_slot_slot edge_history_slot_write (junk 0) ?h g =
        Some (Inl (Arena_err (CapacityExceeded (ac_max_bytes (ar_cfg (edges_hist_out g))))), g)" "arena_full (edges_hist_out g)"
    show ?thesis by (rule full) (use f in \<open>auto simp: defs rec capacity_error_def edge_arena_defs\<close>)
  next
    fix ho assume 1: "insert_at edges_hist_out put_hist_out edge_history_slot_slot edge_history_slot_write (junk 0) ?h g =
        Some (Inr True, put_hist_out ho g)"
      "arena_usable edge_history_slot_slot ho" "keyed eh_key (insert ?h V) (eh_view ho)" "ar_cfg ho = ar_cfg (edges_hist_out g)"
      "npages ho \<le> npages (edges_hist_out g) + 1"
    define g1 where "g1 = put_hist_out ho g"
    have g1: "edges_hist_in g1 = edges_hist_in g" "edges_hist_out g1 = ho" "edges_out g1 = edges_out g" "edges_in g1 = edges_in g"
      "next_edge g1 = next_edge g" by (simp_all add: g1_def put_defs)
    show ?thesis
    proof (rule insert_fresh_history [of edges_hist_in g1 "mirror ` V" "mirror ?h" "junk 1" put_hist_in])
      assume f: "insert_at edges_hist_in put_hist_in edge_history_slot_slot edge_history_slot_write (junk 1) (mirror ?h) g1 =
          Some (Inl (Arena_err (CapacityExceeded (ac_max_bytes (ar_cfg (edges_hist_in g1))))), g1)" "arena_full (edges_hist_in g1)"
      show ?thesis by (rule full [of _ g1]) (use f 1 in \<open>auto simp: defs rec capacity_error_def edge_arena_defs g1 g1_def [symmetric]\<close>)
    next
      fix hi assume 2: "insert_at edges_hist_in put_hist_in edge_history_slot_slot edge_history_slot_write (junk 1) (mirror ?h) g1 =
          Some (Inr True, put_hist_in hi g1)"
        "arena_usable edge_history_slot_slot hi" "keyed eh_key (insert (mirror ?h) (mirror ` V)) (eh_view hi)"
        "ar_cfg hi = ar_cfg (edges_hist_in g1)" "npages hi \<le> npages (edges_hist_in g1) + 1"
      define g2 where "g2 = put_hist_in hi g1"
      have g2: "edges_hist_in g2 = hi" "edges_hist_out g2 = ho" "edges_out g2 = edges_out g" "edges_in g2 = edges_in g"
        "next_edge g2 = next_edge g" by (simp_all add: g2_def put_defs g1)
      show ?thesis
      proof (rule put_fresh_current [of edges_out g2 "slot_of ` opens V" "slot_of ?h" "junk 2" put_out])
        assume f: "put_current edges_out put_out (junk 2) (slot_of ?h) g2 =
            Some (Inl (Arena_err (CapacityExceeded (ac_max_bytes (ar_cfg (edges_out g2))))), g2)" "arena_full (edges_out g2)"
        show ?thesis by (rule full [of _ g2])
          (use f 1 2 in \<open>auto simp: defs rec capacity_error_def edge_arena_defs g1 g2 g1_def [symmetric] g2_def [symmetric]\<close>)
      next
        fix ao assume 3: "put_current edges_out put_out (junk 2) (slot_of ?h) g2 = Some (Inr (), put_out ao g2)"
          "arena_usable edge_slot_slot ao" "keyed es_key (insert (slot_of ?h) (slot_of ` opens V)) (es_view ao)"
          "ar_cfg ao = ar_cfg (edges_out g2)" "npages ao \<le> npages (edges_out g2) + 1"
        define g3 where "g3 = put_out ao g2"
        have g3: "edges_hist_in g3 = hi" "edges_hist_out g3 = ho" "edges_out g3 = ao" "edges_in g3 = edges_in g"
          "next_edge g3 = next_edge g" by (simp_all add: g3_def put_defs g2)
        show ?thesis
        proof (rule put_fresh_current [of edges_in g3 "slot_mirror ` opens V" "slot_mirror ?h" "junk 3" put_in])
          assume f: "put_current edges_in put_in (junk 3) (slot_mirror ?h) g3 =
              Some (Inl (Arena_err (CapacityExceeded (ac_max_bytes (ar_cfg (edges_in g3))))), g3)" "arena_full (edges_in g3)"
          show ?thesis by (rule full [of _ g3])
            (use f 1 2 3 in \<open>auto simp: defs rec capacity_error_def edge_arena_defs g1 g2 g3 g1_def [symmetric] g2_def [symmetric] g3_def [symmetric]\<close>)
        next
          fix ai assume 4: "put_current edges_in put_in (junk 3) (slot_mirror ?h) g3 = Some (Inr (), put_in ai g3)"
            "arena_usable edge_slot_slot ai" "keyed es_key (insert (slot_mirror ?h) (slot_mirror ` opens V)) (es_view ai)"
            "ar_cfg ai = ar_cfg (edges_in g3)" "npages ai \<le> npages (edges_in g3) + 1"
          let ?g = "(put_in ai g3)\<lparr>next_edge := next_edge g + 1\<rparr>"
          show ?thesis
          proof (rule new [of ?g])
            show "open_version junk now src rel dst prov g = Some (Inr (), ?g)"
              using 1 2 3 4 n by (simp add: defs rec g3 put_defs g1_def [symmetric] g2_def [symmetric] g3_def [symmetric, unfolded put_defs]
                  g1_def [symmetric, unfolded put_defs] g2_def [symmetric, unfolded put_defs])
            show "graph_rep ?g (insert ?h V)"
              using 1 2 3 4 vs unfolding graph_rep_def by (simp add: put_defs g3)
            show "next_edge ?g = next_edge g + 1" "edge_cfgs ?g = edge_cfgs g" "\<And>n. pages_le n g \<Longrightarrow> pages_le (n + 1) ?g"
              using 1 2 3 4 by (simp_all add: put_defs edge_arena_defs g1 g2 g3)
          qed
        qed (use reps vs(3,4) j in \<open>auto simp: g3 triple_def\<close>)
      qed (use reps vs(3,4) j in \<open>auto simp: g2 triple_def\<close>)
    qed (use reps vs(3) j in \<open>auto simp: g1\<close>)
  qed (use reps vs(3) j in auto)
qed

end
