(* ===== verification/Edge_Scan.thy ===== *)
theory Edge_Scan
  imports Edge_Graph Arena_Scan_Theorems
begin

text \<open>
  Reading the graph: \<open>neighbors\<close> of \<open>crates/plugmem-core/src/memory/recall.rs\<close>, which walks the mirrored
  arenas in key order, and what it visits on a well-formed graph. The visitor is a state
  transformer whose \<open>False\<close> stops the walk.
\<close>

type_synonym neighbor = "entity_id \<times> term_id \<times> bool \<times> fact_id"

fun visit_each :: "('x \<Rightarrow> 's \<Rightarrow> bool \<times> 's) \<Rightarrow> 'x list \<Rightarrow> 's \<Rightarrow> bool \<times> 's" where
  "visit_each visit [] s = (True, s)"
| "visit_each visit (x # xs) s = (case visit x s of (go, s) \<Rightarrow> if go then visit_each visit xs s else (False, s))"

lemma visit_each_append:
  "visit_each visit (xs @ ys) s = (case visit_each visit xs s of (go, s) \<Rightarrow> if go then visit_each visit ys s else (False, s))"
  by (induction xs arbitrary: s) (auto split: prod.splits)

text \<open>The loop over the two arenas: the second is read only when the visitor let the first finish.\<close>

definition both_sides :: "('x \<Rightarrow> 's \<Rightarrow> bool \<times> 's) \<Rightarrow> 'x list option \<Rightarrow> 'x list option \<Rightarrow> 's \<Rightarrow> 's option" where
  "both_sides visit outgoing incoming s = do {
     xs \<leftarrow> outgoing;
     (case visit_each visit xs s of
        (False, s) \<Rightarrow> Some s
      | (True, s) \<Rightarrow> do { ys \<leftarrow> incoming; Some (snd (visit_each visit ys s)) }) }"

definition neighbors :: "graph \<Rightarrow> entity_id \<Rightarrow> u64 \<Rightarrow> bool \<Rightarrow> (neighbor \<Rightarrow> 's \<Rightarrow> bool \<times> 's) \<Rightarrow> 's \<Rightarrow> 's option" where
  "neighbors g entity as_of historical visit s =
     (if historical then do {
        from \<leftarrow> edge_history_floor entity;
        to \<leftarrow> edge_history_ceiling entity as_of;
        let valid = (\<lambda>is_src. map_option (\<lambda>es. map (\<lambda>e. (eh_b e, eh_rel e, is_src, eh_fact e)) (filter (\<lambda>e. as_of < eh_valid_to e) es)));
        both_sides visit
          (valid True (range_rev_all edge_history_slot_slot edge_history_slot_read (edges_hist_out g) from to))
          (valid False (range_rev_all edge_history_slot_slot edge_history_slot_read (edges_hist_in g) from to)) s }
      else do {
        from \<leftarrow> edge_floor entity;
        to \<leftarrow> edge_end entity;
        let all = (\<lambda>is_src. map_option (map (\<lambda>e. (es_b e, es_rel e, is_src, es_fact e))));
        both_sides visit
          (all True (range_all edge_slot_slot edge_slot_read (edges_out g) from to))
          (all False (range_all edge_slot_slot edge_slot_read (edges_in g) from to)) s })"

lemma both_sides_append: "both_sides visit (Some xs) (Some ys) s = Some (snd (visit_each visit (xs @ ys) s))"
  by (simp add: both_sides_def visit_each_append split: prod.split bool.split)

section \<open>Scans of one entity\<close>

text \<open>The records of a keyed arena inside an interval of keys, in key order.\<close>

context record_arena
begin

lemma scan_view:
  assumes u: "arena_inv T a" and mode: "ac_mode (ar_cfg a) = Ordered" and k: "keyed key_of S (rview T rd kb a)"
    and len: "length lo = KEY_LEN T" "length hi = KEY_LEN T"
  obtains rs where "range_all T rd a lo hi = Some rs" "range_rev_all T rd a lo hi = Some (rev rs)"
    "sorted_wrt (<) (map (\<lambda>r. kb (key_of r)) rs)" "set rs = {r \<in> S. lo \<le> kb (key_of r) \<and> kb (key_of r) < hi}"
proof -
  obtain runs F where rep: "arena_rep T a runs F" using u unfolding arena_inv_def by blast
  define dec where "dec bs = the (rd bs)" for bs
  have dec: "\<forall>bs. length bs = SIZE T \<longrightarrow> rd bs = Some (dec bs)" using read_total by (auto simp: dec_def)
  let ?bs = "interval_recs T lo hi (all_recs T a runs)"
  let ?rs = "map dec ?bs"
  have size: "length b = SIZE T" if "b \<in> set (all_recs T a runs)" for b
    using all_recs_map(4) [OF rep that] .
  have ran: "set (all_recs T a runs) = ran (arena_map T a)" using all_recs_map(1) [OF rep] by simp
  have img: "image (dec b) = b" if "b \<in> set (all_recs T a runs)" for b
    using image_read [OF size [OF that]] dec size [OF that] by auto
  have key: "slot_key T b = kb (key_of (dec b))" if "b \<in> set (all_recs T a runs)" for b
    using img [OF that] image_key [of "dec b"] by simp
  have "map (\<lambda>r. kb (key_of r)) ?rs = map (slot_key T) ?bs"
    using key by (auto simp: interval_recs_def)
  moreover have "sorted_wrt (<) (map (slot_key T) ?bs)"
    using all_recs_sorted [OF rep mode] by (simp add: interval_recs_def sorted_wrt_map sorted_wrt_filter)
  ultimately have so: "sorted_wrt (<) (map (\<lambda>r. kb (key_of r)) ?rs)" by metis
  have mem: "dec ` set (all_recs T a runs) = S"
  proof -
    have "dec b \<in> S" if "b \<in> ran (arena_map T a)" for b
    proof -
      have b: "b \<in> set (all_recs T a runs)" using that ran by simp
      from that obtain kk where kk: "arena_map T a kk = Some b" by (auto simp: ran_def)
      then have "kk = kb (key_of (dec b))" using arena_map_slot(1) [OF u] key [OF b] by metis
      then have "rview T rd kb a (key_of (dec b)) = Some (dec b)"
        using kk img [OF b] by (simp add: view_iff [OF u])
      then show ?thesis using keyed_SomeD [OF k] by blast
    qed
    moreover have "r \<in> dec ` ran (arena_map T a)" if "r \<in> S" for r
    proof -
      have "arena_map T a (kb (key_of r)) = Some (image r)"
        using keyed_get [OF k that] view_iff [OF u] by blast
      then show ?thesis by (metis dec_def image_eqI option.sel ranI read_image)
    qed
    ultimately show ?thesis using ran by blast
  qed
  have "set ?rs = {r \<in> S. lo \<le> kb (key_of r) \<and> kb (key_of r) < hi}"
    unfolding mem [symmetric] using key by (auto simp: interval_recs_def)
  with so range_rep [OF rep mode assms(4,5) dec] that [of ?rs] show ?thesis by (simp add: rev_map)
qed

end

section \<open>Key intervals\<close>

lemma edge_bounds:
  obtains lo hi where "edge_floor a = Some lo" "edge_end a = Some hi" "length lo = 12" "length hi = 12"
    "\<And>k. lo \<le> triple_key k \<and> triple_key k < hi \<longleftrightarrow> fst k = a \<and> a \<noteq> NONE_U32"
proof -
  have "edge_floor a = Some (triple_key (a, 0, 0))" "edge_end a = Some (triple_key (saturating_succ a, 0, 0))"
    by (simp_all add: edge_floor_def edge_end_def edge_key_eq triple_key_def)
  moreover have "triple_key (a, 0, 0) \<le> triple_key k \<and> triple_key k < triple_key (saturating_succ a, 0, 0) \<longleftrightarrow> fst k = a \<and> a \<noteq> NONE_U32" for k
    by (cases k) (auto simp: triple_key_def append_le_append append_less_append saturating_succ_less NONE_max,
      auto simp: saturating_succ_def word_gt_0 split: if_splits)
  ultimately show ?thesis using that by (simp add: triple_key_def)
qed

lemma history_bounds:
  obtains lo hi where "edge_history_floor a = Some lo" "edge_history_ceiling a t = Some hi" "length lo = 16" "length hi = 16"
    "\<And>k. lo \<le> version_key k \<and> version_key k < hi \<longleftrightarrow> fst k = a \<and> fst (snd k) \<le> t \<and> fst (snd k) \<noteq> VALID_TO_OPEN"
proof -
  have "edge_history_floor a = Some (version_key (a, 0, 0))"
    "edge_history_ceiling a t = Some (version_key (a, saturating_succ t, 0))"
    by (simp_all add: edge_history_floor_def edge_history_ceiling_def edge_history_key_eq version_key_def)
  moreover have "version_key (a, 0, 0) \<le> version_key k \<and> version_key k < version_key (a, saturating_succ t, 0) \<longleftrightarrow>
      fst k = a \<and> fst (snd k) \<le> t \<and> fst (snd k) \<noteq> VALID_TO_OPEN" for k
    by (cases k) (auto simp: version_key_def append_le_append append_less_append saturating_succ_less OPEN_max word_gt_0)
  ultimately show ?thesis using that by (simp add: version_key_def)
qed

section \<open>The neighbours of an entity\<close>

definition as_source :: "edge_history_slot \<Rightarrow> neighbor" where
  "as_source h = (eh_b h, eh_rel h, True, eh_fact h)"

definition as_target :: "edge_history_slot \<Rightarrow> neighbor" where
  "as_target h = (eh_a h, eh_rel h, False, eh_fact h)"

text \<open>
  The versions of one entity that a walk reports, on one side: all of them, each once, and for a
  historical walk the latest to begin first.
\<close>

definition side_walk :: "bool \<Rightarrow> edge_history_slot set \<Rightarrow> edge_history_slot list \<Rightarrow> bool" where
  "side_walk newest_first V hs \<longleftrightarrow> set hs = V \<and> distinct hs \<and>
     (newest_first \<longrightarrow> sorted_wrt (\<lambda>x y. eh_valid_from y \<le> eh_valid_from x) hs)"

definition ordered_arenas :: "graph \<Rightarrow> bool" where
  "ordered_arenas g \<longleftrightarrow> (\<forall>c \<in> set (edge_cfgs g). ac_mode c = Ordered)"

lemma version_key_newest:
  assumes "fst k = a" and "fst k' = a" and "version_key k' < version_key k"
  shows "fst (snd k') \<le> fst (snd k)"
  using assms by (cases k; cases k') (auto simp: version_key_def append_less_append)

lemma history_side:
  assumes inv: "arena_inv edge_history_slot_slot ar" and mode: "ac_mode (ar_cfg ar) = Ordered" and k: "keyed eh_key S (eh_view ar)"
    and b: "edge_history_floor a = Some lo" "edge_history_ceiling a t = Some hi" "length lo = 16" "length hi = 16"
      "\<And>k. lo \<le> version_key k \<and> version_key k < hi \<longleftrightarrow> fst k = a \<and> fst (snd k) \<le> t \<and> fst (snd k) \<noteq> VALID_TO_OPEN"
  obtains es where "range_rev_all edge_history_slot_slot edge_history_slot_read ar lo hi = Some es"
    "side_walk True {h \<in> S. eh_a h = a \<and> edge_active_at h t} (filter (\<lambda>e. t < eh_valid_to e) es)"
proof -
  have len: "length lo = KEY_LEN edge_history_slot_slot" "length hi = KEY_LEN edge_history_slot_slot"
    using b(3,4) by (simp_all add: edge_history_slot_slot_def)
  obtain rs where rs: "range_rev_all edge_history_slot_slot edge_history_slot_read ar lo hi = Some (rev rs)"
    "sorted_wrt (<) (map (\<lambda>h. version_key (eh_key h)) rs)" "set rs = {h \<in> S. lo \<le> version_key (eh_key h) \<and> version_key (eh_key h) < hi}"
    by (rule eh_arena.scan_view [OF inv mode k len]) (rule that; assumption)
  have "sorted_wrt (\<lambda>x y. eh_valid_from x \<le> eh_valid_from y) rs"
    using rs(2) unfolding sorted_wrt_map
  proof (rule sorted_wrt_mono_rel [rotated])
    fix x y assume "x \<in> set rs" "y \<in> set rs" "version_key (eh_key x) < version_key (eh_key y)"
    then show "eh_valid_from x \<le> eh_valid_from y"
      using version_key_newest [of "eh_key y" a "eh_key x"] rs(3) b(5) by auto
  qed
  moreover have "distinct rs" using rs(2) strict_sorted_iff distinct_map by blast
  moreover have "eh_valid_from h \<le> t \<and> eh_valid_from h \<noteq> VALID_TO_OPEN" if "edge_active_at h t" for h
    using that word_order.extremum_strict unfolding edge_active_at_def OPEN_max by (metis order_le_less_trans)
  ultimately have "side_walk True {h \<in> S. eh_a h = a \<and> edge_active_at h t} (filter (\<lambda>e. t < eh_valid_to e) (rev rs))"
    using rs(3) b(5) by (auto simp: side_walk_def sorted_wrt_filter sorted_wrt_rev edge_active_at_def)
  with rs(1) that show ?thesis by blast
qed

lemma neighbors_history:
  assumes rep: "graph_rep g V" and mode: "ordered_arenas g"
  obtains outs ins where
    "\<And>visit s. neighbors g a t True visit s = Some (snd (visit_each visit (map as_source outs @ map as_target ins) s))"
    "side_walk True {h \<in> V. eh_a h = a \<and> edge_active_at h t} outs" "side_walk True {h \<in> V. eh_b h = a \<and> edge_active_at h t} ins"
proof -
  obtain lo hi where b: "edge_history_floor a = Some lo" "edge_history_ceiling a t = Some hi" "length lo = 16" "length hi = 16"
    "\<And>k. lo \<le> version_key k \<and> version_key k < hi \<longleftrightarrow> fst k = a \<and> fst (snd k) \<le> t \<and> fst (snd k) \<noteq> VALID_TO_OPEN"
    using history_bounds [of a t] by blast
  note reps = rep [unfolded graph_rep_def arena_usable_def] mode [unfolded ordered_arenas_def edge_cfgs_def edge_arenas_def]
  obtain os where os: "range_rev_all edge_history_slot_slot edge_history_slot_read (edges_hist_out g) lo hi = Some os"
    "side_walk True {h \<in> V. eh_a h = a \<and> edge_active_at h t} (filter (\<lambda>e. t < eh_valid_to e) os)"
    using history_side [of "edges_hist_out g" V, OF _ _ _ b] reps by auto
  obtain ns where ns: "range_rev_all edge_history_slot_slot edge_history_slot_read (edges_hist_in g) lo hi = Some ns"
    "side_walk True {h \<in> mirror ` V. eh_a h = a \<and> edge_active_at h t} (filter (\<lambda>e. t < eh_valid_to e) ns)"
    using history_side [of "edges_hist_in g" "mirror ` V", OF _ _ _ b] reps by auto
  let ?outs = "filter (\<lambda>e. t < eh_valid_to e) os" and ?ins = "map mirror (filter (\<lambda>e. t < eh_valid_to e) ns)"
  have "(\<lambda>e. (eh_b e, eh_rel e, False, eh_fact e)) = as_target \<circ> mirror" "(\<lambda>e. (eh_b e, eh_rel e, True, eh_fact e)) = as_source"
    by (auto simp: as_target_def as_source_def mirror_def)
  then have "neighbors g a t True visit s = Some (snd (visit_each visit (map as_source ?outs @ map as_target ?ins) s))" for visit :: "neighbor \<Rightarrow> 's \<Rightarrow> bool \<times> 's" and s
    using os(1) ns(1) b(1,2) by (simp add: neighbors_def both_sides_append Let_def comp_def)
  moreover have "side_walk True {h \<in> V. eh_b h = a \<and> edge_active_at h t} ?ins"
  proof -
    have "inj_on mirror X" for X by (rule inj_on_inverseI [of _ mirror]) simp
    moreover have "mirror ` {h \<in> mirror ` V. eh_a h = a \<and> edge_active_at h t} = {h \<in> V. eh_b h = a \<and> edge_active_at h t}"
      by (force simp: mirror_def edge_active_at_def image_iff)
    ultimately show ?thesis using ns(2) by (auto simp: side_walk_def distinct_map sorted_wrt_map)
  qed
  ultimately show ?thesis using that os(2) by blast
qed

lemma current_side:
  assumes inv: "arena_inv edge_slot_slot ar" and mode: "ac_mode (ar_cfg ar) = Ordered" and k: "keyed es_key (f ` S) (es_view ar)" and f: "inj_on f S"
    and b: "edge_floor a = Some lo" "edge_end a = Some hi" "length lo = 12" "length hi = 12"
      "\<And>k. lo \<le> triple_key k \<and> triple_key k < hi \<longleftrightarrow> fst k = a \<and> a \<noteq> NONE_U32"
  obtains hs where "range_all edge_slot_slot edge_slot_read ar lo hi = Some (map f hs)"
    "side_walk False {h \<in> S. es_a (f h) = a \<and> a \<noteq> NONE_U32} hs"
proof -
  have len: "length lo = KEY_LEN edge_slot_slot" "length hi = KEY_LEN edge_slot_slot"
    using b(3,4) by (simp_all add: edge_slot_slot_def)
  obtain rs where rs: "range_all edge_slot_slot edge_slot_read ar lo hi = Some rs"
    "sorted_wrt (<) (map (\<lambda>h. triple_key (es_key h)) rs)" "set rs = {s \<in> f ` S. lo \<le> triple_key (es_key s) \<and> triple_key (es_key s) < hi}"
    by (rule es_arena.scan_view [OF inv mode k len]) (rule that; assumption)
  define hs where "hs = map (inv_into S f) rs"
  have sub: "set rs \<subseteq> f ` S" using rs(3) by auto
  then have "map f hs = rs" by (auto simp: hs_def f_inv_into_f intro!: map_idI)
  moreover have "distinct rs" using rs(2) strict_sorted_iff distinct_map by blast
  then have "distinct hs" using sub by (auto simp: hs_def distinct_map intro: inj_on_inv_into inj_on_subset)
  moreover have "set hs = {h \<in> S. es_a (f h) = a \<and> a \<noteq> NONE_U32}"
    using f unfolding hs_def set_map rs(3) by (auto simp: b(5) inv_into_into image_iff) (metis inv_into_f_f)
  ultimately show ?thesis using that rs(1) by (auto simp: side_walk_def)
qed

lemma neighbors_current:
  assumes rep: "graph_rep g V" and mode: "ordered_arenas g"
  obtains outs ins where
    "\<And>visit s. neighbors g a t False visit s = Some (snd (visit_each visit (map as_source outs @ map as_target ins) s))"
    "side_walk False {h \<in> opens V. eh_a h = a \<and> a \<noteq> NONE_U32} outs" "side_walk False {h \<in> opens V. eh_b h = a \<and> a \<noteq> NONE_U32} ins"
proof -
  obtain lo hi where b: "edge_floor a = Some lo" "edge_end a = Some hi" "length lo = 12" "length hi = 12"
    "\<And>k. lo \<le> triple_key k \<and> triple_key k < hi \<longleftrightarrow> fst k = a \<and> a \<noteq> NONE_U32"
    using edge_bounds [of a] by blast
  note reps = rep [unfolded graph_rep_def arena_usable_def] mode [unfolded ordered_arenas_def edge_cfgs_def edge_arenas_def]
  have inj: "inj_on slot_of (opens V)" "inj_on slot_mirror (opens V)"
    using reps(1) by (auto simp: versions_ok_def inj_on_def opens_def slot_of_def slot_mirror_def)
  obtain outs where os: "range_all edge_slot_slot edge_slot_read (edges_out g) lo hi = Some (map slot_of outs)"
    "side_walk False {h \<in> opens V. es_a (slot_of h) = a \<and> a \<noteq> NONE_U32} outs"
    using current_side [of "edges_out g" slot_of "opens V", OF _ _ _ inj(1) b] reps by auto
  obtain ins where ns: "range_all edge_slot_slot edge_slot_read (edges_in g) lo hi = Some (map slot_mirror ins)"
    "side_walk False {h \<in> opens V. es_a (slot_mirror h) = a \<and> a \<noteq> NONE_U32} ins"
    using current_side [of "edges_in g" slot_mirror "opens V", OF _ _ _ inj(2) b] reps by auto
  have "neighbors g a t False visit s = Some (snd (visit_each visit (map as_source outs @ map as_target ins) s))" for visit :: "neighbor \<Rightarrow> 's \<Rightarrow> bool \<times> 's" and s
    using os(1) ns(1) b(1,2)
    by (simp add: neighbors_def both_sides_append Let_def comp_def as_source_def [abs_def] as_target_def [abs_def] slot_mirror_def slot_of_def)
  then show ?thesis by (rule that) (use os(2) ns(2) in simp_all)
qed

end
