(* ===== verification/Edge_History.thy ===== *)
theory Edge_History
  imports Edge_Scan
begin

text \<open>
  Histories of edge operations. \<open>graph_now\<close> is what a reader expects of them, the map from triples to
  the provenance of the last link not undone; \<open>spec_run\<close> is the bitemporal set of versions they
  leave, and \<open>edge_run\<close> the engine's own steps. The lemmas relate the three: the versions open now, and
  with a clock that never runs backwards those active at any instant, are the map of the
  operations up to that instant.
\<close>

type_synonym edge_triple = "entity_id \<times> term_id \<times> entity_id"

datatype edge_op = Linked u64 edge_triple fact_id | Unlinked u64 edge_triple

fun op_time :: "edge_op \<Rightarrow> u64" where
  "op_time (Linked now t prov) = now"
| "op_time (Unlinked now t) = now"

fun now_step :: "edge_op \<Rightarrow> (edge_triple \<Rightarrow> fact_id option) \<Rightarrow> edge_triple \<Rightarrow> fact_id option" where
  "now_step (Linked now t prov) m = m(t \<mapsto> prov)"
| "now_step (Unlinked now t) m = m(t := None)"

definition graph_now :: "edge_op list \<Rightarrow> edge_triple \<Rightarrow> fact_id option" where
  "graph_now ops = fold now_step ops Map.empty"

fun spec_step :: "edge_op \<Rightarrow> edge_history_slot set \<times> edge_id \<Rightarrow> edge_history_slot set \<times> edge_id" where
  "spec_step (Linked now t prov) Vn = spec_open now t prov Vn"
| "spec_step (Unlinked now t) Vn = (spec_close now t (fst Vn), snd Vn)"

definition spec_run :: "edge_op list \<Rightarrow> edge_history_slot set \<times> edge_id" where
  "spec_run ops = fold spec_step ops ({}, 0)"

lemma history_snoc [simp]:
  "graph_now (ops @ [op]) = now_step op (graph_now ops)" "spec_run (ops @ [op]) = spec_step op (spec_run ops)"
  "graph_now [] = Map.empty" "spec_run [] = ({}, 0)"
  by (simp_all add: graph_now_def spec_run_def)

section \<open>One step on the versions\<close>

lemma spec_close_absent: "\<forall>h \<in> opens V. triple h \<noteq> t \<Longrightarrow> spec_close now t V = V"
  by (force simp: spec_close_def opens_def image_iff)

lemma spec_close_found:
  assumes "versions_ok V n" and h: "h \<in> opens V" "triple h = t"
  shows "spec_close now t V = insert (closed_at (max now (eh_valid_from h)) h) (V - {h})"
proof -
  let ?f = "\<lambda>x. if is_open x \<and> triple x = t then closed_at (max now (eh_valid_from x)) x else x"
  have "x = h" if "x \<in> V" "is_open x" "triple x = t" for x
    using assms that unfolding versions_ok_def by (auto simp: opens_def dest!: inj_onD)
  then have rest: "?f ` (V - {h}) = V - {h}" by (force simp: image_iff)
  have hV: "h \<in> V" and fh: "?f h = closed_at (max now (eh_valid_from h)) h" using h by (auto simp: opens_def)
  have "?f ` V = ?f ` insert h (V - {h})" by (simp only: insert_Diff [OF hV])
  also have "\<dots> = insert (?f h) (?f ` (V - {h}))" by (rule image_insert)
  finally show ?thesis unfolding spec_close_def fh rest .
qed

lemma spec_close_ok:
  assumes ok: "versions_ok V n"
  shows "versions_ok (spec_close now t V) n" and "opens (spec_close now t V) = {h \<in> opens V. triple h \<noteq> t}"
proof -
  have "versions_ok (spec_close now t V) n \<and> opens (spec_close now t V) = {h \<in> opens V. triple h \<noteq> t}"
  proof (cases "\<exists>h \<in> opens V. triple h = t")
    case True
    then obtain h where h: "h \<in> opens V" "triple h = t" by blast
    then have "opens V - {h} = {h \<in> opens V. triple h \<noteq> t}"
      using ok unfolding versions_ok_def by (auto dest!: inj_onD)
    then show ?thesis using version_sets(1,2) [OF ok h(1), of "max now (eh_valid_from h)"] spec_close_found [OF ok h] by simp
  qed (auto simp: spec_close_absent ok)
  then show "versions_ok (spec_close now t V) n" "opens (spec_close now t V) = {h \<in> opens V. triple h \<noteq> t}" by simp_all
qed

lemma spec_open_cases:
  assumes ok: "versions_ok V n" and n: "n \<noteq> - 1"
  obtains (same) h where "h \<in> opens V" "triple h = t" "eh_fact h = prov" "spec_open now t prov (V, n) = (V, n)"
  | (fresh) W where "W = insert (fresh_version now t prov n) (spec_close now t V)" "spec_open now t prov (V, n) = (W, n + 1)"
      "versions_ok W (n + 1)" "opens W = insert (fresh_version now t prov n) {h \<in> opens V. triple h \<noteq> t}"
proof (cases "\<exists>h \<in> opens V. triple h = t \<and> eh_fact h = prov")
  case True
  then show ?thesis using same by (auto simp: spec_open_def)
next
  case False
  note c = spec_close_ok [OF ok, of now t]
  have "\<forall>h \<in> opens (spec_close now t V). triple h \<noteq> t" by (simp add: c(2))
  note o = open_sets [OF c(1) n this, where now = now and prov = prov]
  show ?thesis by (rule fresh [OF refl]) (use False o(1,2) in \<open>simp_all add: spec_open_def c(2)\<close>)
qed

section \<open>The open versions are the current graph\<close>

definition shows_graph :: "edge_history_slot set \<Rightarrow> (edge_triple \<Rightarrow> fact_id option) \<Rightarrow> bool" where
  "shows_graph S m \<longleftrightarrow> (\<forall>t f. m t = Some f \<longleftrightarrow> (\<exists>h \<in> S. triple h = t \<and> eh_fact h = f))"

lemma shows_graph_filter:
  "shows_graph {h \<in> S. P h} m \<longleftrightarrow> (\<forall>t f. m t = Some f \<longleftrightarrow> (\<exists>h \<in> S. P h \<and> triple h = t \<and> eh_fact h = f))"
  unfolding shows_graph_def by (simp only: mem_Collect_eq conj_assoc Bex_def)

lemma shows_graph_step:
  assumes ok: "versions_ok V n" and n: "n \<noteq> - 1" and m: "shows_graph (opens V) m"
  shows "shows_graph (opens (fst (spec_step op (V, n)))) (now_step op m)"
proof (cases op)
  case (Unlinked now t)
  then show ?thesis using m by (auto simp: shows_graph_def spec_close_ok [OF ok])
next
  case (Linked now t prov)
  show ?thesis
  proof (rule spec_open_cases [OF ok n, of t prov now])
    fix h assume h: "h \<in> opens V" "triple h = t" "eh_fact h = prov" "spec_open now t prov (V, n) = (V, n)"
    then have "m t = Some prov" using m unfolding shows_graph_def by blast
    then show ?thesis using m h(4) Linked by (simp add: fun_upd_idem)
  next
    fix W assume W: "spec_open now t prov (V, n) = (W, n + 1)"
      "opens W = insert (fresh_version now t prov n) {h \<in> opens V. triple h \<noteq> t}"
    show ?thesis using m unfolding shows_graph_def Linked spec_step.simps W(1) fst_conv W(2) by (auto simp: W(2))
  qed
qed

lemma spec_run_ok:
  assumes "length ops < 2 ^ 32 - 1"
  shows "versions_ok (fst (spec_run ops)) (snd (spec_run ops))" and "unat (snd (spec_run ops)) \<le> length ops"
    and "shows_graph (opens (fst (spec_run ops))) (graph_now ops)"
proof -
  have "versions_ok (fst (spec_run ops)) (snd (spec_run ops)) \<and> unat (snd (spec_run ops)) \<le> length ops \<and>
      shows_graph (opens (fst (spec_run ops))) (graph_now ops)"
    using assms
  proof (induction ops rule: rev_induct)
    case Nil
    then show ?case by (simp add: versions_ok_def opens_def shows_graph_def)
  next
    case (snoc op ops)
    obtain V n where vn: "spec_run ops = (V, n)" by force
    have IH: "versions_ok V n" "unat n \<le> length ops" "shows_graph (opens V) (graph_now ops)" using snoc vn by auto
    have "unat n < 2 ^ 32 - 1" using IH(2) snoc.prems by simp
    then have n: "n \<noteq> - 1" by (auto simp: unsigned_minus_1_eq_mask mask_eq_exp_minus_1)
    have "versions_ok (fst (spec_step op (V, n))) (snd (spec_step op (V, n))) \<and> unat (snd (spec_step op (V, n))) \<le> Suc (length ops)"
    proof (cases op)
      case (Linked now t prov)
      have "unat (n + 1) \<le> Suc (unat n)" by (simp add: unat_word_ariths)
      then have u: "unat (n + 1) \<le> Suc (length ops)" using IH(2) by simp
      show ?thesis by (rule spec_open_cases [OF IH(1) n, of t prov now]) (use IH Linked u in \<open>simp_all\<close>)
    qed (use IH spec_close_ok [OF IH(1)] in simp)
    then show ?case using shows_graph_step [OF IH(1) n IH(3), of op] vn by simp
  qed
  then show "versions_ok (fst (spec_run ops)) (snd (spec_run ops))" "unat (snd (spec_run ops)) \<le> length ops"
    "shows_graph (opens (fst (spec_run ops))) (graph_now ops)" by simp_all
qed

section \<open>The versions active at an instant are the graph of that instant\<close>

definition until :: "u64 \<Rightarrow> edge_op list \<Rightarrow> edge_op list" where
  "until x ops = filter (\<lambda>op. op_time op \<le> x) ops"

text \<open>Nothing in \<open>V\<close> happens after \<open>T\<close>.\<close>

definition not_after :: "u64 \<Rightarrow> edge_history_slot set \<Rightarrow> bool" where
  "not_after T V \<longleftrightarrow> (\<forall>h \<in> V. eh_valid_from h \<le> T \<and> (\<not> is_open h \<longrightarrow> eh_valid_to h \<le> T))"

lemma not_after_step:
  assumes "not_after (op_time op) V"
  shows "not_after (op_time op) (fst (spec_step op (V, n)))"
proof -
  have c: "not_after T (spec_close T t V)" if "not_after T V" for T t
    using that by (auto simp: not_after_def spec_close_def)
  show ?thesis
  proof (cases op)
    case (Linked now t prov)
    then show ?thesis using assms c [of now t] by (auto simp: spec_open_def not_after_def)
  qed (use assms c in simp)
qed

lemma active_open:
  assumes ok: "versions_ok V n" and na: "not_after T V" and x: "T \<le> x" "x \<noteq> VALID_TO_OPEN"
  shows "{h \<in> V. edge_active_at h x} = opens V"
proof -
  have lt: "x < VALID_TO_OPEN" using x(2) by (simp add: OPEN_max word_order.not_eq_extremum)
  have "edge_active_at h x \<longleftrightarrow> is_open h" if h: "h \<in> V" for h
  proof (cases "is_open h")
    case True
    then have "eh_valid_to h = VALID_TO_OPEN" "eh_valid_from h \<le> x"
      using ok na h x(1) unfolding versions_ok_def not_after_def by (auto intro: order_trans)
    then show ?thesis using lt True by (simp add: edge_active_at_def)
  next
    case False
    then have "eh_valid_to h \<le> x" using na h x(1) unfolding not_after_def by (auto intro: order_trans)
    then show ?thesis using False by (auto simp: edge_active_at_def dest: leD)
  qed
  then show ?thesis by (auto simp: opens_def)
qed

lemma active_step:
  assumes ok: "versions_ok V n" and na: "not_after (op_time op) V" and x: "x < op_time op"
  shows "shows_graph {h \<in> fst (spec_step op (V, n)). edge_active_at h x} m \<longleftrightarrow> shows_graph {h \<in> V. edge_active_at h x} m"
proof -
  have lt: "x < VALID_TO_OPEN" using x unfolding OPEN_max by (metis order_less_le_trans word_order.extremum)
  have c: "edge_active_at (closed_at (max T (eh_valid_from h)) h) x \<longleftrightarrow> edge_active_at h x"
    if "h \<in> V" "is_open h" "not_after T V" "x < T" for h T
    using that ok lt unfolding versions_ok_def not_after_def edge_active_at_def by (auto simp: max_def)
  have close: "(\<exists>h \<in> spec_close T t V. edge_active_at h x \<and> triple h = u \<and> eh_fact h = f) \<longleftrightarrow>
      (\<exists>h \<in> V. edge_active_at h x \<and> triple h = u \<and> eh_fact h = f)" if "not_after T V" "x < T" for T t u f
  proof -
    have "edge_active_at (if is_open h \<and> triple h = t then closed_at (max T (eh_valid_from h)) h else h) x = edge_active_at h x"
      if "h \<in> V" for h
      using c [OF that _ \<open>not_after T V\<close> \<open>x < T\<close>] by simp
    then show ?thesis unfolding spec_close_def bex_simps(7) by (intro bex_cong refl) simp
  qed
  show ?thesis
  proof (cases op)
    case (Linked now t prov)
    have "\<not> edge_active_at (fresh_version now t prov n) x" using x Linked by (auto simp: edge_active_at_def dest: leD)
    then have "(\<exists>h \<in> fst (spec_open now t prov (V, n)). edge_active_at h x \<and> triple h = u \<and> eh_fact h = f) \<longleftrightarrow>
      (\<exists>h \<in> V. edge_active_at h x \<and> triple h = u \<and> eh_fact h = f)" for u f
      using close [of now t u f] na x Linked by (auto simp: spec_open_def)
    then show ?thesis using Linked by (simp add: shows_graph_filter)
  next
    case (Unlinked now t)
    then show ?thesis using close [of now t] na x by (simp add: shows_graph_filter)
  qed
qed

lemma spec_run_active:
  assumes "length ops < 2 ^ 32 - 1" and "sorted (map op_time ops)" and x: "x \<noteq> VALID_TO_OPEN"
  shows "shows_graph {h \<in> fst (spec_run ops). edge_active_at h x} (graph_now (until x ops))"
    and "ops \<noteq> [] \<Longrightarrow> not_after (op_time (last ops)) (fst (spec_run ops))"
proof -
  have "shows_graph {h \<in> fst (spec_run ops). edge_active_at h x} (graph_now (until x ops)) \<and>
      (ops \<noteq> [] \<longrightarrow> not_after (op_time (last ops)) (fst (spec_run ops)))"
    using assms(1,2)
  proof (induction ops rule: rev_induct)
    case Nil
    then show ?case by (simp add: until_def shows_graph_def)
  next
    case (snoc op ops)
    obtain V n where vn: "spec_run ops = (V, n)" by force
    have so: "sorted (map op_time ops)" and le: "\<forall>o' \<in> set ops. op_time o' \<le> op_time op"
      using snoc.prems(2) by (auto simp: sorted_append)
    have len: "length ops < 2 ^ 32 - 1" using snoc.prems(1) by simp
    have ok: "versions_ok V n" using spec_run_ok(1) [OF len] vn by simp
    have na: "not_after (op_time op) V"
    proof (cases "ops = []")
      case True
      then show ?thesis using vn by (simp add: not_after_def)
    next
      case False
      then have "not_after (op_time (last ops)) V" "op_time (last ops) \<le> op_time op"
        using snoc.IH [OF len so] vn le by simp_all
      then show ?thesis unfolding not_after_def by (meson order_trans)
    qed
    note na' = not_after_step [OF na, of n]
    have "shows_graph {h \<in> fst (spec_step op (V, n)). edge_active_at h x} (graph_now (until x (ops @ [op])))"
    proof (cases "op_time op \<le> x")
      case True
      then have "until x (ops @ [op]) = ops @ [op]" using le by (auto simp: until_def filter_id_conv intro: order_trans)
      moreover have "versions_ok (fst (spec_step op (V, n))) (snd (spec_step op (V, n)))"
        "shows_graph (opens (fst (spec_step op (V, n)))) (graph_now (ops @ [op]))"
        using spec_run_ok(1,3) [OF snoc.prems(1)] vn by simp_all
      ultimately show ?thesis using active_open [OF _ na' True x] by simp
    next
      case False
      then have "until x (ops @ [op]) = until x ops" by (simp add: until_def)
      then show ?thesis using active_step [OF ok na] False snoc.IH [OF len so] vn by simp
    qed
    then show ?case using na' vn by simp
  qed
  then show "shows_graph {h \<in> fst (spec_run ops). edge_active_at h x} (graph_now (until x ops))"
    "ops \<noteq> [] \<Longrightarrow> not_after (op_time (last ops)) (fst (spec_run ops))" by simp_all
qed

end
