(* ===== verification/Edge_Theorems.thy ===== *)
theory Edge_Theorems
  imports Edge_History
begin

text \<open>
  The edge graph's theorems: each method refines its specification on versions, the neighbour walks
  of a database answer from the links made so far, and those of a past instant from the links made
  by then. The last section shows what replaying a journal tail twice does.
\<close>

section \<open>Runs of the engine\<close>

inductive edge_run :: "graph \<Rightarrow> edge_op list \<Rightarrow> graph \<Rightarrow> bool" for g\<^sub>0 where
  start: "edge_run g\<^sub>0 [] g\<^sub>0"
| linked: "edge_run g\<^sub>0 ops g \<Longrightarrow> \<forall>i. length (junk i) = PAGE_BYTES \<Longrightarrow>
    open_edge junk now src rel dst prov g = Some (Inr (), g') \<Longrightarrow>
    edge_run g\<^sub>0 (ops @ [Linked now (src, rel, dst) prov]) g'"
| unlinked: "edge_run g\<^sub>0 ops g \<Longrightarrow> close_current_edge now src rel dst g = Some (Inr hit, g') \<Longrightarrow>
    edge_run g\<^sub>0 (ops @ [Unlinked now (src, rel, dst)]) g'"

inductive_cases edge_run_NilE: "edge_run g\<^sub>0 [] g"

lemma graph_new_rep:
  assumes "graph_new shards max_bytes = Inr g" and "shards \<le> usize_max" and "max_bytes \<le> (2 ^ 32 - 1) * PAGE_BYTES"
  shows "graph_rep g {}" and "next_edge g = 0" and "ordered_arenas g" and "pages_le 0 g"
    and "\<forall>c \<in> set (edge_cfgs g). ac_max_bytes c = max_bytes"
proof -
  let ?cfg = "\<lparr>ac_shards = shards, ac_max_bytes = max_bytes, ac_mode = Ordered\<rparr>"
  from assms(1) obtain ao ai ho hi where n: "arena_new edge_slot_slot ?cfg = Inr ao" "arena_new edge_slot_slot ?cfg = Inr ai"
    "arena_new edge_history_slot_slot ?cfg = Inr ho" "arena_new edge_history_slot_slot ?cfg = Inr hi"
    and g: "g = \<lparr>edges_out = ao, edges_in = ai, edges_hist_out = ho, edges_hist_in = hi, next_edge = 0\<rparr>"
    unfolding graph_new_def Let_def try_res_eq_Inr from_arena_eq_Inr by blast
  have room: "ac_shards ?cfg \<le> usize_max" "index_room ?cfg" using assms(2,3) by (simp_all add: index_room_def)
  show "graph_rep g {}"
    using es_arena.new_view [OF n(1) room] es_arena.new_view [OF n(2) room]
      eh_arena.new_view [OF n(3) room] eh_arena.new_view [OF n(4) room]
    by (simp add: graph_rep_def g keyed_empty opens_def versions_ok_def)
  have "npages a = 0" if "arena_new T ?cfg = Inr a" for T a
    using that by (auto simp: arena_new_def npages_def split: if_splits)
  then show "pages_le 0 g" using n by (simp add: g pages_le_def edge_arenas_def)
  show "next_edge g = 0" "ordered_arenas g" "\<forall>c \<in> set (edge_cfgs g). ac_max_bytes c = max_bytes"
    using es_arena.new_view(3) [OF n(1) room] es_arena.new_view(3) [OF n(2) room]
      eh_arena.new_view(3) [OF n(3) room] eh_arena.new_view(3) [OF n(4) room]
    by (simp_all add: g ordered_arenas_def edge_cfgs_def edge_arenas_def)
qed

lemma close_rep:
  assumes rep: "graph_rep g V"
  obtains g' where "close_current_edge now src rel dst g = Some (Inr (\<exists>h \<in> opens V. triple h = (src, rel, dst)), g')"
    "graph_rep g' (spec_close now (src, rel, dst) V)" "next_edge g' = next_edge g" "edge_cfgs g' = edge_cfgs g"
    "\<And>n. pages_le n g \<Longrightarrow> pages_le n g'"
proof (rule current_rep [OF rep, of src rel dst])
  have ok: "versions_ok V (next_edge g)" using rep by (simp add: graph_rep_def)
  {
    assume "current_edge g src rel dst = Some None" "\<forall>h \<in> opens V. triple h \<noteq> (src, rel, dst)"
    then show ?thesis using that [of g] rep by (simp add: close_current_edge_def spec_close_absent)
  next
    fix h assume h: "h \<in> opens V" "triple h = (src, rel, dst)"
    then have hit: "(\<exists>h \<in> opens V. triple h = (src, rel, dst)) = True" by blast
    obtain g' where "close_current_edge now src rel dst g = Some (Inr True, g')"
      "graph_rep g' (insert (closed_at (max now (eh_valid_from h)) h) (V - {h}))" "next_edge g' = next_edge g" "edge_cfgs g' = edge_cfgs g" "\<And>n. pages_le n g \<Longrightarrow> pages_le n g'"
      using close_found [OF rep h, of now] by blast
    then show ?thesis using that [of g'] unfolding hit spec_close_found [OF ok h] by blast
  }
qed

text \<open>How many pages a refused insert had to find in use.\<close>

definition exhausted :: "graph \<Rightarrow> bool" where
  "exhausted g \<longleftrightarrow> (\<exists>c \<in> set (edge_cfgs g). \<forall>n. pages_le n g \<longrightarrow> ac_max_bytes c < (n + 1) * PAGE_BYTES)"

lemma capacity_exhausted:
  assumes rep: "graph_rep g V" and e: "capacity_error e g"
  shows "exhausted g"
proof -
  have pool: "arena_pool_bytes a = PAGE_BYTES * npages a" if inv: "arena_inv T a" for T a
  proof -
    obtain runs F where "arena_rep T a runs F" using inv unfolding arena_inv_def by blast
    from rep_frame [OF this] show ?thesis by (simp add: frame_def pool_ok_def arena_pool_bytes_def)
  qed
  obtain a where a: "a \<in> set (edge_arenas g)" "arena_full a" using e unfolding capacity_error_def by blast
  then have "\<exists>T. arena_inv T a" using rep by (auto simp: graph_rep_def arena_usable_def edge_arenas_def)
  then have lim: "ac_max_bytes (ar_cfg a) < (npages a + 1) * PAGE_BYTES" using a(2) pool by (auto simp: arena_full_def algebra_simps)
  have "ac_max_bytes (ar_cfg a) < (n + 1) * PAGE_BYTES" if "pages_le n g" for n
  proof -
    have "npages a \<le> n" using that a(1) by (simp add: pages_le_def)
    then have "(npages a + 1) * PAGE_BYTES \<le> (n + 1) * PAGE_BYTES" by (intro mult_right_mono) simp_all
    with lim show ?thesis by (rule order_less_le_trans)
  qed
  then show ?thesis using a(1) by (auto simp: exhausted_def edge_cfgs_def)
qed

lemma open_rep:
  assumes rep: "graph_rep g V" and n: "next_edge g \<noteq> - 1" and junk: "\<forall>i. length (junk i) = PAGE_BYTES"
  obtains (full) e g' where "open_edge junk now src rel dst prov g = Some (Inl e, g')" "capacity_error e g'" "exhausted g"
      "next_edge g' = next_edge g" "edge_cfgs g' = edge_cfgs g"
  | (ok) g' where "open_edge junk now src rel dst prov g = Some (Inr (), g')" "edge_cfgs g' = edge_cfgs g"
      "graph_rep g' (fst (spec_open now (src, rel, dst) prov (V, next_edge g)))"
      "next_edge g' = snd (spec_open now (src, rel, dst) prov (V, next_edge g))" "\<And>n. pages_le n g \<Longrightarrow> pages_le (n + 1) g'"
proof -
  let ?t = "(src, rel, dst)"
  have vok: "versions_ok V (next_edge g)" using rep by (simp add: graph_rep_def)
  have step: ?thesis if g1: "graph_rep g1 (spec_close now ?t V)" "next_edge g1 = next_edge g" "edge_cfgs g1 = edge_cfgs g"
      "\<And>n. pages_le n g \<Longrightarrow> pages_le n g1"
    and eq: "open_edge junk now src rel dst prov g = open_version junk now src rel dst prov g1"
    and no: "\<not> (\<exists>h \<in> opens V. triple h = ?t \<and> eh_fact h = prov)" for g1
  proof -
    have none: "\<forall>h \<in> opens (spec_close now ?t V). triple h \<noteq> ?t" by (simp add: spec_close_ok [OF vok])
    have n1: "next_edge g1 \<noteq> - 1" using n g1(2) by simp
    have ex: "exhausted g" if "capacity_error e g1" for e
      using capacity_exhausted [OF g1(1) that] g1(3,4) unfolding exhausted_def by auto
    show ?thesis
    proof (rule open_version_rep [OF g1(1) n1 none junk, of now prov])
      fix e g'
      assume "open_version junk now src rel dst prov g1 = Some (Inl e, g')" "capacity_error e g1" "capacity_error e g'"
        "next_edge g' = next_edge g1" "edge_cfgs g' = edge_cfgs g1"
      then show ?thesis using full [of e g'] ex eq g1(2,3) by simp
    next
      fix g'
      assume "open_version junk now src rel dst prov g1 = Some (Inr (), g')"
        "graph_rep g' (insert (fresh_version now ?t prov (next_edge g1)) (spec_close now ?t V))"
        "next_edge g' = next_edge g1 + 1" "edge_cfgs g' = edge_cfgs g1" "\<And>n. pages_le n g1 \<Longrightarrow> pages_le (n + 1) g'"
      moreover have "spec_open now ?t prov (V, next_edge g) =
          (insert (fresh_version now ?t prov (next_edge g)) (spec_close now ?t V), next_edge g + 1)"
        using no by (simp add: spec_open_def)
      ultimately show ?thesis using ok [of g'] eq g1(2,3,4) by simp
    qed
  qed
  show ?thesis
  proof (rule current_rep [OF rep, of src rel dst])
    assume c: "current_edge g src rel dst = Some None" "\<forall>h \<in> opens V. triple h \<noteq> ?t"
    show ?thesis by (rule step [of g]) (use c rep in \<open>auto simp: open_edge_def spec_close_absent\<close>)
  next
    fix h assume c: "current_edge g src rel dst = Some (Some (slot_of h))" and h: "h \<in> opens V" "triple h = ?t"
    show ?thesis
    proof (cases "eh_fact h = prov")
      case True
      then have "spec_open now ?t prov (V, next_edge g) = (V, next_edge g)" using h by (auto simp: spec_open_def)
      moreover have "pages_le (n + 1) g" if "pages_le n g" for n using that by (auto simp: pages_le_def)
      ultimately show ?thesis using ok [of g] True c rep by (simp add: open_edge_def)
    next
      case False
      then have no: "\<not> (\<exists>h \<in> opens V. triple h = ?t \<and> eh_fact h = prov)"
        using h triple_unique [OF vok] by metis
      show ?thesis
        by (rule close_found [OF rep h, of now], rule step)
          (use c False no in \<open>simp_all add: open_edge_def spec_close_found [OF vok h]\<close>)
    qed
  qed
qed

lemma run_rep:
  assumes "edge_run g\<^sub>0 ops g" and "graph_rep g\<^sub>0 {}" and "next_edge g\<^sub>0 = 0" and "length ops < 2 ^ 32 - 1"
  shows "graph_rep g (fst (spec_run ops))" and "next_edge g = snd (spec_run ops)" and "edge_cfgs g = edge_cfgs g\<^sub>0"
proof -
  have "graph_rep g (fst (spec_run ops)) \<and> next_edge g = snd (spec_run ops) \<and> edge_cfgs g = edge_cfgs g\<^sub>0"
    using assms
  proof (induction rule: edge_run.induct)
    case (linked ops g junk now src rel dst prov g')
    then have len: "length ops < 2 ^ 32 - 1" by simp
    obtain V n where vn: "spec_run ops = (V, n)" by force
    have IH: "graph_rep g V" "next_edge g = n" "edge_cfgs g = edge_cfgs g\<^sub>0" using linked.IH linked.prems len vn by auto
    have "unat n < 2 ^ 32 - 1" using spec_run_ok(2) [OF len] len vn by simp
    then have n: "next_edge g \<noteq> - 1" using IH(2) by (auto simp: unsigned_minus_1_eq_mask mask_eq_exp_minus_1)
    show ?case by (rule open_rep [OF IH(1) n linked.hyps(2), of now src rel dst prov]) (use linked.hyps(3) IH vn in auto)
  next
    case (unlinked ops g now src rel dst hit g')
    then have IH: "graph_rep g (fst (spec_run ops))" "next_edge g = snd (spec_run ops)" "edge_cfgs g = edge_cfgs g\<^sub>0" by auto
    show ?case by (rule close_rep [OF IH(1), of now src rel dst]) (use unlinked.hyps(2) IH in auto)
  qed simp
  then show "graph_rep g (fst (spec_run ops))" "next_edge g = snd (spec_run ops)" "edge_cfgs g = edge_cfgs g\<^sub>0" by simp_all
qed

section \<open>The methods refine their specifications\<close>

text \<open>
  C5. Linking refines its specification. On a well-formed graph \<open>open_edge\<close> never panics. It either
  changes nothing, when the edge is open with the same provenance, or closes the open version of
  the triple at \<open>max(now, valid_from)\<close> and adds one open version under the next edge id, keeping
  both mirrors, the current graph and the history consistent, with one open version per triple at
  most; or it fails because an arena has no page left under the byte limit.
\<close>

theorem open_edge_refines:
  assumes "graph_inv g" and "next_edge g \<noteq> - 1" and "\<forall>i. length (junk i) = PAGE_BYTES"
  shows "case open_edge junk now src rel dst prov g of
      None \<Rightarrow> False
    | Some (Inl e, g') \<Rightarrow> capacity_error e g' \<and> exhausted g
    | Some (Inr _, g') \<Rightarrow> graph_inv g' \<and> edge_cfgs g' = edge_cfgs g \<and>
        (versions g', next_edge g') = spec_open now (src, rel, dst) prov (versions g, next_edge g)"
proof -
  have "graph_rep g (versions g)" using assms(1) by (simp add: graph_inv_def)
  from this assms(2,3) show ?thesis
  proof (rule open_rep [where now = now and src = src and rel = rel and dst = dst and prov = prov])
    fix g'
    assume "open_edge junk now src rel dst prov g = Some (Inr (), g')" "edge_cfgs g' = edge_cfgs g"
      and r: "graph_rep g' (fst (spec_open now (src, rel, dst) prov (versions g, next_edge g)))"
        "next_edge g' = snd (spec_open now (src, rel, dst) prov (versions g, next_edge g))"
    then show ?thesis using rep_inv [OF r(1)] rep_versions [OF r(1)] by (simp add: prod_eq_iff)
  qed simp
qed

text \<open>
  C6. Unlinking refines its specification and finds no corruption. On a well-formed graph
  \<open>close_current_edge\<close> always returns: the errors for a missing history record and for disagreeing
  mirrors cannot occur. The answer is whether the triple had an open version; exactly that
  version is closed, at \<open>max(now, valid_from)\<close>, and leaves the current graph.
\<close>

theorem close_edge_refines:
  assumes "graph_inv g"
  shows "\<exists>g'. close_current_edge now src rel dst g = Some (Inr (\<exists>h \<in> opens (versions g). triple h = (src, rel, dst)), g') \<and>
    graph_inv g' \<and> versions g' = spec_close now (src, rel, dst) (versions g) \<and> next_edge g' = next_edge g \<and> edge_cfgs g' = edge_cfgs g"
proof -
  have "graph_rep g (versions g)" using assms by (simp add: graph_inv_def)
  then show ?thesis
  proof (rule close_rep [where now = now and src = src and rel = rel and dst = dst])
    fix g'
    assume "close_current_edge now src rel dst g = Some (Inr (\<exists>h \<in> opens (versions g). triple h = (src, rel, dst)), g')"
      "next_edge g' = next_edge g" "edge_cfgs g' = edge_cfgs g" and r: "graph_rep g' (spec_close now (src, rel, dst) (versions g))"
    then show ?thesis using rep_inv [OF r] rep_versions [OF r] by simp
  qed
qed

section \<open>Histories run to completion\<close>

lemma run_exists:
  assumes new: "graph_new shards max_bytes = Inr g\<^sub>0" "shards \<le> usize_max" "max_bytes \<le> (2 ^ 32 - 1) * PAGE_BYTES"
    and len: "length ops * PAGE_BYTES \<le> max_bytes" "length ops < 2 ^ 32 - 1"
  shows "\<exists>g. edge_run g\<^sub>0 ops g \<and> pages_le (length ops) g"
  using len
proof (induction ops rule: rev_induct)
  case Nil
  then show ?case using edge_run.start graph_new_rep(4) [OF new] by auto
next
  case (snoc op ops)
  note n = graph_new_rep [OF new]
  have l: "length ops < 2 ^ 32 - 1" "length ops * PAGE_BYTES \<le> max_bytes" using snoc.prems by simp_all
  then obtain g where g: "edge_run g\<^sub>0 ops g" "pages_le (length ops) g" using snoc.IH by blast
  note r = run_rep [OF g(1) n(1,2) l(1)]
  have "unat (snd (spec_run ops)) < 2 ^ 32 - 1" using spec_run_ok(2) [OF l(1)] l(1) by simp
  then have ne: "next_edge g \<noteq> - 1" using r(2) by (auto simp: unsigned_minus_1_eq_mask mask_eq_exp_minus_1)
  have room: "\<not> exhausted g"
    using r(3) n(5) g(2) snoc.prems(1) unfolding exhausted_def by (auto simp: not_less intro!: exI [of _ "length ops"])
  show ?case
  proof (cases op)
    case (Linked now t prov)
    obtain src rel dst where t: "t = (src, rel, dst)" by (cases t)
    define junk :: "nat \<Rightarrow> bytes" where "junk = (\<lambda>_. replicate PAGE_BYTES 0)"
    have junk: "\<forall>i. length (junk i) = PAGE_BYTES" by (simp add: junk_def)
    from r(1) ne junk show ?thesis
    proof (rule open_rep [where now = now and src = src and rel = rel and dst = dst and prov = prov])
      fix g' assume o: "open_edge junk now src rel dst prov g = Some (Inr (), g')" and p: "\<And>n. pages_le n g \<Longrightarrow> pages_le (n + 1) g'"
      then show ?thesis using edge_run.linked [OF g(1) junk o] g(2) by (auto simp: Linked t)
    qed (use room in simp)
  next
    case (Unlinked now t)
    obtain src rel dst where t: "t = (src, rel, dst)" by (cases t)
    have mono: "pages_le n g' \<Longrightarrow> pages_le (Suc n) g'" for n g' by (auto simp: pages_le_def)
    from r(1) show ?thesis
    proof (rule close_rep [where now = now and src = src and rel = rel and dst = dst])
      fix g' hit assume c: "close_current_edge now src rel dst g = Some (Inr (\<exists>h \<in> opens (fst (spec_run ops)). triple h = (src, rel, dst)), g')"
        and p: "\<And>n. pages_le n g \<Longrightarrow> pages_le n g'"
      then show ?thesis using edge_run.unlinked [OF g(1) c] g(2) mono by (auto simp: Unlinked t)
    qed
  qed
qed

text \<open>
  C9. Histories run to completion. From a new graph, every sequence of links and unlinks, with any
  clock and any repetition, runs to its end without panic or error as long as each arena may hold
  one page per operation; an operation never needs more than one page of each.
\<close>

theorem edge_histories_complete:
  assumes "graph_new shards max_bytes = Inr g\<^sub>0" and "shards \<le> usize_max" and "max_bytes \<le> (2 ^ 32 - 1) * PAGE_BYTES"
    and "length ops * PAGE_BYTES \<le> max_bytes" and "length ops < 2 ^ 32 - 1"
  shows "\<exists>g. edge_run g\<^sub>0 ops g \<and> graph_inv g \<and> (versions g, next_edge g) = spec_run ops"
proof -
  obtain g where g: "edge_run g\<^sub>0 ops g" using run_exists [OF assms] by blast
  note r = run_rep [OF g graph_new_rep(1,2) [OF assms(1-3)] assms(5)]
  show ?thesis using g rep_inv [OF r(1)] rep_versions [OF r(1)] r(2) by (auto simp: prod_eq_iff)
qed

lemma demo_history:
  assumes "length ops < 16"
  obtains g\<^sub>0 g where "graph_new 1 65536 = Inr g\<^sub>0" "edge_run g\<^sub>0 ops g"
proof -
  have "is_power_of_two 1" by (simp add: is_power_of_two_def trailing_zeros.simps)
  then obtain g\<^sub>0 where g0: "graph_new 1 65536 = Inr g\<^sub>0"
    by (simp add: graph_new_def arena_new_def edge_slot_slot_def edge_history_slot_slot_def PAGE_BYTES_def Let_def)
  have "\<exists>g. edge_run g\<^sub>0 ops g \<and> pages_le (length ops) g"
    by (rule run_exists [OF g0]) (use assms in \<open>simp_all add: usize_max_def PAGE_BYTES_def\<close>)
  with g0 that show ?thesis by blast
qed

definition demo_ops :: "edge_op list" where
  "demo_ops = [Linked 5 (1, 2, 3) 7, Linked 8 (1, 2, 3) 9, Unlinked 11 (1, 2, 3)]"

theorem edge_histories_complete_witness:
  "\<exists>g\<^sub>0 g. graph_new 1 65536 = Inr g\<^sub>0 \<and> edge_run g\<^sub>0 demo_ops g \<and> graph_inv g \<and> card (versions g) = 2"
proof -
  obtain g\<^sub>0 where g0: "graph_new 1 65536 = Inr g\<^sub>0" using demo_history [of "[]"] by auto
  have "\<exists>g. edge_run g\<^sub>0 demo_ops g \<and> graph_inv g \<and> (versions g, next_edge g) = spec_run demo_ops"
    by (rule edge_histories_complete [OF g0]) (simp_all add: usize_max_def PAGE_BYTES_def demo_ops_def)
  then obtain g where g: "edge_run g\<^sub>0 demo_ops g" "graph_inv g" "versions g = fst (spec_run demo_ops)"
    by (metis fst_conv)
  have "card (fst (spec_run demo_ops)) = 2"
    by (simp add: demo_ops_def spec_run_def spec_open_def spec_close_def opens_def fresh_version_def closed_at_def
        is_open_def triple_def EDGE_CLOSED_def VALID_TO_OPEN_def)
  with g g0 show ?thesis by metis
qed

theorem open_edge_refines_witness:
  "\<exists>g r. open_edge (\<lambda>_. replicate PAGE_BYTES 0) 20 1 2 3 4 g = Some r \<and> graph_inv g \<and> card (versions g) = 2"
proof -
  obtain g\<^sub>0 g where g0: "graph_new 1 65536 = Inr g\<^sub>0" and g: "edge_run g\<^sub>0 demo_ops g"
    using demo_history [of demo_ops] by (auto simp: demo_ops_def)
  have lim: "(1::nat) \<le> usize_max" "(65536::nat) \<le> (2 ^ 32 - 1) * PAGE_BYTES" by (simp_all add: usize_max_def PAGE_BYTES_def)
  have "length demo_ops < 2 ^ 32 - 1" by (simp add: demo_ops_def)
  note r = run_rep [OF g graph_new_rep(1,2) [OF g0 lim] this]
  have card: "card (fst (spec_run demo_ops)) = 2" and n: "snd (spec_run demo_ops) = 2"
    by (simp_all add: demo_ops_def spec_run_def spec_open_def spec_close_def opens_def fresh_version_def closed_at_def
        is_open_def triple_def EDGE_CLOSED_def VALID_TO_OPEN_def)
  have "next_edge g \<noteq> - 1" using r(2) n by simp
  from open_edge_refines [OF rep_inv [OF r(1)] this, of "\<lambda>_. replicate PAGE_BYTES 0" 20 1 2 3 4]
  have "open_edge (\<lambda>_. replicate PAGE_BYTES 0) 20 1 2 3 4 g \<noteq> None" by (auto split: option.splits)
  then show ?thesis using rep_inv [OF r(1)] rep_versions [OF r(1)] card by (metis not_Some_eq)
qed

theorem close_edge_refines_witness:
  "\<exists>g g'. close_current_edge 20 1 2 3 g = Some (Inr True, g') \<and> graph_inv g \<and> graph_inv g'"
proof -
  let ?ops = "[Linked 5 (1, 2, 3) 7]"
  obtain g\<^sub>0 g where g0: "graph_new 1 65536 = Inr g\<^sub>0" and g: "edge_run g\<^sub>0 ?ops g"
    using demo_history [of ?ops] by auto
  have lim: "(1::nat) \<le> usize_max" "(65536::nat) \<le> (2 ^ 32 - 1) * PAGE_BYTES" by (simp_all add: usize_max_def PAGE_BYTES_def)
  have "length ?ops < 2 ^ 32 - 1" by simp
  note r = run_rep [OF g graph_new_rep(1,2) [OF g0 lim] this]
  have v: "versions g = {fresh_version 5 (1, 2, 3) 7 0}"
    using rep_versions [OF r(1)] by (simp add: spec_run_def spec_open_def spec_close_def opens_def)
  have "\<exists>h \<in> opens (versions g). triple h = (1, 2, 3)" by (simp add: v opens_def)
  with close_edge_refines [OF rep_inv [OF r(1)], of 20 1 2 3] rep_inv [OF r(1)] show ?thesis by auto
qed

section \<open>What the walks answer\<close>

definition edges_touching :: "(edge_triple \<Rightarrow> fact_id option) \<Rightarrow> entity_id \<Rightarrow> neighbor set" where
  "edges_touching m a = {(dst, rel, True, f) | dst rel f. m (a, rel, dst) = Some f} \<union>
     {(src, rel, False, f) | src rel f. m (src, rel, a) = Some f}"

lemma touching_versions:
  assumes "shows_graph S m"
  shows "as_source ` {h \<in> S. eh_a h = a} \<union> as_target ` {h \<in> S. eh_b h = a} = edges_touching m a"
proof -
  have m: "m (src, rel, dst) = Some f \<longleftrightarrow> (\<exists>h \<in> S. eh_a h = src \<and> eh_rel h = rel \<and> eh_b h = dst \<and> eh_fact h = f)" for src rel dst f
    using assms by (auto simp: shows_graph_def triple_def)
  show ?thesis unfolding edges_touching_def m by (force simp: as_source_def as_target_def image_iff)
qed

text \<open>
  C8. Recall's walk over an entity answers with the current graph. After any history of links and
  unlinks, whatever their timestamps, \<open>neighbors\<close> visits exactly the edges into and out of the
  entity that the history leaves linked, with the provenance of the last link; the visitor may
  stop it, and then has seen a prefix of the same sequence. The sentinel id has no neighbours.
\<close>

theorem neighbors_answer_current_graph:
  assumes "graph_new shards max_bytes = Inr g\<^sub>0" and "shards \<le> usize_max" and "max_bytes \<le> (2 ^ 32 - 1) * PAGE_BYTES"
    and "edge_run g\<^sub>0 ops g" and "length ops < 2 ^ 32 - 1"
  shows "\<exists>L. set L = (if a = NONE_U32 then {} else edges_touching (graph_now ops) a) \<and>
    (\<forall>(visit :: neighbor \<Rightarrow> 's \<Rightarrow> bool \<times> 's) s. neighbors g a t False visit s = Some (snd (visit_each visit L s)))"
proof -
  note n = graph_new_rep [OF assms(1-3)]
  note r = run_rep [OF assms(4) n(1,2) assms(5)]
  have "ordered_arenas g" using n(3) r(3) by (simp add: ordered_arenas_def)
  with r(1) show ?thesis
  proof (rule neighbors_current [where a = a and t = t])
    fix outs ins
    assume w: "\<And>(visit :: neighbor \<Rightarrow> 's \<Rightarrow> bool \<times> 's) s.
        neighbors g a t False visit s = Some (snd (visit_each visit (map as_source outs @ map as_target ins) s))"
      "side_walk False {h \<in> opens (fst (spec_run ops)). eh_a h = a \<and> a \<noteq> NONE_U32} outs"
      "side_walk False {h \<in> opens (fst (spec_run ops)). eh_b h = a \<and> a \<noteq> NONE_U32} ins"
    have "set (map as_source outs @ map as_target ins) = (if a = NONE_U32 then {} else edges_touching (graph_now ops) a)"
      using touching_versions [OF spec_run_ok(3) [OF assms(5)], of a] w(2,3) by (auto simp: side_walk_def)
    with w(1) show ?thesis by blast
  qed
qed

text \<open>
  C7. Recall as of a past instant answers with the graph of that instant. When the clock of a
  history never ran backwards, the historical walk at any \<open>t\<close> short of the open-ended sentinel
  visits exactly the edges that were current after the operations made up to \<open>t\<close>, with the
  provenance they had then, although later links and unlinks have rewritten both mirrors since.
\<close>

theorem neighbors_time_travel:
  assumes "graph_new shards max_bytes = Inr g\<^sub>0" and "shards \<le> usize_max" and "max_bytes \<le> (2 ^ 32 - 1) * PAGE_BYTES"
    and "edge_run g\<^sub>0 ops g" and "length ops < 2 ^ 32 - 1" and "sorted (map op_time ops)" and "t \<noteq> VALID_TO_OPEN"
  shows "\<exists>L. set L = edges_touching (graph_now (until t ops)) a \<and>
    (\<forall>(visit :: neighbor \<Rightarrow> 's \<Rightarrow> bool \<times> 's) s. neighbors g a t True visit s = Some (snd (visit_each visit L s)))"
proof -
  note n = graph_new_rep [OF assms(1-3)]
  note r = run_rep [OF assms(4) n(1,2) assms(5)]
  have "ordered_arenas g" using n(3) r(3) by (simp add: ordered_arenas_def)
  with r(1) show ?thesis
  proof (rule neighbors_history [where a = a and t = t])
    fix outs ins
    assume w: "\<And>(visit :: neighbor \<Rightarrow> 's \<Rightarrow> bool \<times> 's) s.
        neighbors g a t True visit s = Some (snd (visit_each visit (map as_source outs @ map as_target ins) s))"
      "side_walk True {h \<in> fst (spec_run ops). eh_a h = a \<and> edge_active_at h t} outs"
      "side_walk True {h \<in> fst (spec_run ops). eh_b h = a \<and> edge_active_at h t} ins"
    have "{h \<in> {h \<in> V. edge_active_at h t}. P h} = {h \<in> V. P h \<and> edge_active_at h t}" for V P by auto
    then have "set (map as_source outs @ map as_target ins) = edges_touching (graph_now (until t ops)) a"
      using touching_versions [OF spec_run_active(1) [OF assms(5-7)], of a] w(2,3) by (simp add: side_walk_def)
    with w(1) show ?thesis by blast
  qed
qed

lemma visit_collect: "visit_each (\<lambda>x s. (True, s @ [x])) xs s = (True, s @ xs)"
  by (induction xs arbitrary: s) simp_all

lemmas demo_lim = usize_max_def PAGE_BYTES_def

theorem neighbors_answer_current_graph_witness:
  "\<exists>g\<^sub>0 g L. graph_new 1 65536 = Inr g\<^sub>0 \<and> edge_run g\<^sub>0 [Linked 5 (1, 2, 3) 7] g \<and>
     neighbors g 3 0 False (\<lambda>x s. (True, s @ [x])) [] = Some L \<and> set L = {(1, 2, False, 7)}"
proof -
  let ?ops = "[Linked 5 (1, 2, 3) 7]"
  obtain g\<^sub>0 g where g0: "graph_new 1 65536 = Inr g\<^sub>0" and g: "edge_run g\<^sub>0 ?ops g"
    using demo_history [of ?ops] by auto
  have "\<exists>L. set L = (if 3 = NONE_U32 then {} else edges_touching (graph_now ?ops) 3) \<and>
      (\<forall>visit s. neighbors g 3 0 False visit (s :: neighbor list) = Some (snd (visit_each visit L s)))"
    by (rule neighbors_answer_current_graph [OF g0 _ _ g]) (simp_all add: demo_lim)
  moreover have "edges_touching (graph_now ?ops) 3 = {(1, 2, False, 7)}"
    by (auto simp: edges_touching_def graph_now_def split: if_splits)
  ultimately show ?thesis using g0 g by (auto simp: visit_collect NONE_U32_def)
qed

theorem neighbors_time_travel_witness:
  "\<exists>g\<^sub>0 g L. graph_new 1 65536 = Inr g\<^sub>0 \<and> edge_run g\<^sub>0 demo_ops g \<and>
     neighbors g 1 6 True (\<lambda>x s. (True, s @ [x])) [] = Some L \<and> set L = {(3, 2, True, 7)}"
proof -
  obtain g\<^sub>0 g where g0: "graph_new 1 65536 = Inr g\<^sub>0" and g: "edge_run g\<^sub>0 demo_ops g"
    using demo_history [of demo_ops] by (auto simp: demo_ops_def)
  have "\<exists>L. set L = edges_touching (graph_now (until 6 demo_ops)) 1 \<and>
      (\<forall>visit s. neighbors g 1 6 True visit (s :: neighbor list) = Some (snd (visit_each visit L s)))"
    by (rule neighbors_time_travel [OF g0 _ _ g]) (simp_all add: demo_lim demo_ops_def VALID_TO_OPEN_def)
  moreover have "edges_touching (graph_now (until 6 demo_ops)) 1 = {(3, 2, True, 7)}"
    by (auto simp: edges_touching_def graph_now_def until_def demo_ops_def split: if_splits)
  ultimately show ?thesis using g0 g by (auto simp: visit_collect)
qed

section \<open>Replaying a journal tail\<close>

lemma opens_insert: "opens {} = {}" "opens (insert h V) = (if is_open h then insert h (opens V) else opens V)"
  by (auto simp: opens_def)

lemma run_split: "edge_run g\<^sub>0 xs g \<Longrightarrow> xs = ops @ ops' \<Longrightarrow> \<exists>g1. edge_run g\<^sub>0 ops g1 \<and> edge_run g1 ops' g"
proof (induction arbitrary: ops' rule: edge_run.induct)
  case start
  then show ?case using edge_run.start by auto
next
  case (linked xs g junk now src rel dst prov g')
  show ?case
  proof (cases ops' rule: rev_cases)
    case Nil
    then show ?thesis using linked.hyps linked.prems edge_run.linked edge_run.start by (metis append_Nil2)
  next
    case (snoc ys y)
    then obtain g1 where "edge_run g\<^sub>0 ops g1" "edge_run g1 ys g" and y: "y = Linked now (src, rel, dst) prov"
      using linked.IH [of ys] linked.prems by auto
    then show ?thesis using edge_run.linked [OF _ linked.hyps(2,3)] snoc y by blast
  qed
next
  case (unlinked xs g now src rel dst hit g')
  show ?case
  proof (cases ops' rule: rev_cases)
    case Nil
    then show ?thesis using unlinked.hyps unlinked.prems edge_run.unlinked edge_run.start by (metis append_Nil2)
  next
    case (snoc ys y)
    then obtain g1 where "edge_run g\<^sub>0 ops g1" "edge_run g1 ys g" and y: "y = Unlinked now (src, rel, dst)"
      using unlinked.IH [of ys] unlinked.prems by auto
    then show ?thesis using edge_run.unlinked [OF _ unlinked.hyps(2)] snoc y by blast
  qed
qed

definition tail_ops :: "edge_op list" where
  "tail_ops = [Linked 5 (1, 2, 3) 7, Linked 8 (1, 2, 3) 9]"

text \<open>
  C39. Reapplying a journal tail is not idempotent for links. Two links of one triple with different
  provenance leave two versions. Executing the same two records again, which is what replay does
  with a journal that survived next to the snapshot already containing it (links carry no
  assigned id to skip by), leaves four, and an instant at which the same edge is active twice.
\<close>

theorem replayed_links_duplicate_versions:
  "\<exists>g\<^sub>0 g1 g. graph_new 1 65536 = Inr g\<^sub>0 \<and> edge_run g\<^sub>0 tail_ops g1 \<and> edge_run g1 tail_ops g \<and>
     card (versions g1) = 2 \<and> card (versions g) = 4 \<and>
     (\<exists>h \<in> versions g. \<exists>h' \<in> versions g. h \<noteq> h' \<and> triple h = triple h' \<and> eh_fact h = eh_fact h' \<and>
        edge_active_at h 5 \<and> edge_active_at h' 5)"
proof -
  obtain g\<^sub>0 g where g0: "graph_new 1 65536 = Inr g\<^sub>0" and g: "edge_run g\<^sub>0 (tail_ops @ tail_ops) g"
    using demo_history [of "tail_ops @ tail_ops"] by (auto simp: tail_ops_def)
  then obtain g1 where g1: "edge_run g\<^sub>0 tail_ops g1" "edge_run g1 tail_ops g" using run_split by blast
  have lim: "(1::nat) \<le> usize_max" "(65536::nat) \<le> (2 ^ 32 - 1) * PAGE_BYTES" by (simp_all add: demo_lim)
  note n = graph_new_rep(1,2) [OF g0 lim]
  have v1: "versions g1 = fst (spec_run tail_ops)" and v: "versions g = fst (spec_run (tail_ops @ tail_ops))"
    using rep_versions [OF run_rep(1) [OF g1(1) n]] rep_versions [OF run_rep(1) [OF g n]] by (simp_all add: tail_ops_def)
  let ?h = "closed_at 8 (fresh_version 5 (1, 2, 3) 7 0)" and ?h' = "closed_at 8 (fresh_version 5 (1, 2, 3) 7 2)"
  have v4: "fst (spec_run (tail_ops @ tail_ops)) =
      {?h, closed_at 8 (fresh_version 8 (1, 2, 3) 9 1), ?h', fresh_version 8 (1, 2, 3) 9 3}"
    by (simp add: tail_ops_def spec_run_def spec_open_def spec_close_def opens_insert insert_commute max_def)
  have "card (versions g1) = 2" unfolding v1
    by (simp add: tail_ops_def spec_run_def spec_open_def spec_close_def opens_def fresh_version_def closed_at_def is_open_def triple_def EDGE_CLOSED_def VALID_TO_OPEN_def)
  moreover have "card (versions g) = 4" unfolding v v4 by (simp add: fresh_version_def closed_at_def)
  moreover have ne: "?h \<noteq> ?h'" by (simp add: fresh_version_def closed_at_def)
  moreover have mem: "?h \<in> versions g" "?h' \<in> versions g" unfolding v v4 by simp_all
  have "triple ?h = triple ?h' \<and> eh_fact ?h = eh_fact ?h' \<and> edge_active_at ?h 5 \<and> edge_active_at ?h' 5"
    by (simp add: edge_active_at_def)
  with mem ne have "\<exists>h \<in> versions g. \<exists>h' \<in> versions g. h \<noteq> h' \<and> triple h = triple h' \<and> eh_fact h = eh_fact h' \<and>
      edge_active_at h 5 \<and> edge_active_at h' 5" by blast
  ultimately show ?thesis using g0 g1 by blast
qed

end
