(* ===== verification/Posting_Theorems.thy ===== *)
theory Posting_Theorems
  imports Posting_Load Arena_Load_Theorems
begin

text \<open>
  The properties of posting lists: \<open>push\<close> appends to one list of the map or refuses, the load-time
  check decides whether a store represents a map, and what a refused push does to the next load.
\<close>

section \<open>The check and the representation\<close>

lemma accepted_iff:
  "validate_postings TF h p = Some (Inr ()) \<longleftrightarrow> (\<exists>slots claimed. iter_all idlist_type idlist_read h = Some slots \<and>
    validate_lists p (map il_handle slots) (replicate (cp_chunks p) False) = (Inr (), claimed) \<and>
    (\<forall>slot \<in> set slots. \<exists>es. list_rep TF p slot es) \<and> orphan_count p claimed = Some 0)"
proof -
  have "validate_postings TF h p = Some (Inr ()) \<longleftrightarrow> (\<exists>slots claimed. iter_all idlist_type idlist_read h = Some slots \<and>
      check_slots TF p slots (replicate (cp_chunks p) False) = Some (Inr claimed) \<and> orphan_count p claimed = Some 0)"
    by (simp add: validate_postings_def bind_eq_Some_conv split: sum.split if_split) (metis sum.exhaust sum.inject(2) sum.distinct(1))
  then show ?thesis unfolding check_slots_iff by blast
qed

text \<open>The chains of the handles in use; those of \<open>lost\<close> stay unclaimed.\<close>

lemma claimed_chains:
  assumes "chunk_wf p (ls @ lost)"
  obtains css dss F where "validate_lists p ls (replicate (cp_chunks p) False) = (Inr (), mark (concat css) (replicate (cp_chunks p) False))"
    "free_map p = Some (mark F (replicate (cp_chunks p) False))" "chunk_rep p (ls @ lost) (css @ dss) F"
    "length css = length ls" "length dss = length lost"
proof -
  obtain all F where rep: "chunk_rep p (ls @ lost) all F" using assms by (auto simp: chunk_wf_def)
  define css where "css = take (length ls) all"
  define dss where "dss = drop (length ls) all"
  have all: "all = css @ dss" and len: "length css = length ls" "length dss = length lost"
    using rep_length [OF rep] by (simp_all add: css_def dss_def)
  have base: "cp_base p" using rep by (simp add: chunk_rep_def)
  have bound: "\<forall>c \<in> set (css ! i). c < cp_chunks p" if "i < length css" for i
    using rep_bound(1) [OF rep, of i] that by (auto simp: all nth_append)
  have "chain_of p (ls ! i) (css ! i)" if "i < length ls" for i
    using rep_handle [OF rep, of i] chain_of_handle [OF base bound, of i] that len by (simp add: all nth_append)
  then have chains: "list_all2 (chain_of p) ls css" using len by (simp add: list_all2_conv_all_nth)
  have inside: "\<forall>c \<in> set (concat css). c < cp_chunks p"
    using bound unfolding all_set_conv_all_nth [of "concat css"] by (metis UN_E in_set_conv_nth nth_mem set_concat)
  have "distinct (concat css)" using rep_distinct [OF rep] by (simp add: all)
  then have "validate_lists p ls (replicate (cp_chunks p) False) = (Inr (), mark (concat css) (replicate (cp_chunks p) False))"
    unfolding validate_lists_iff using chains inside by (intro exI [of _ css]) simp
  then show ?thesis using that rep_free_map [OF rep] rep len by (simp add: all)
qed

lemma covered_iff: "A \<union> B \<union> C = U \<Longrightarrow> A \<inter> B = {} \<Longrightarrow> B \<inter> C = {} \<Longrightarrow> U \<subseteq> A \<union> C \<longleftrightarrow> B = {}"
  by blast

lemma rep_accepted:
  assumes u: "arena_usable idlist_type (ps_handles s)" and rep: "posting_rep TF s m lost"
    and lost: "\<forall>l \<in> set lost. \<exists>b bs. chunk_iter (ps_pool s) l = Some (b # bs)"
  shows "validate_postings TF (ps_handles s) (ps_pool s) =
    Some (if lost = [] then Inr () else Inl (Corrupt_core ''posting pool has orphan chunks''))"
proof -
  let ?p = "ps_pool s"
  obtain slots where it: "iter_all idlist_type idlist_read (ps_handles s) = Some slots"
    and mem: "\<And>k sl. il_view (ps_handles s) k = Some sl \<longleftrightarrow> sl \<in> set slots \<and> il_key sl = k"
    by (rule slots_handles [OF u [unfolded arena_usable_def, THEN conjunct1]]) (rule that; assumption)
  have wf: "chunk_wf ?p (map il_handle slots @ lost)" and lists: "lists_rep TF s m"
    using rep unfolding rep_slots [OF u it] by blast+
  obtain css dss F where v: "validate_lists ?p (map il_handle slots) (replicate (cp_chunks ?p) False) =
      (Inr (), mark (concat css) (replicate (cp_chunks ?p) False))"
    and free: "free_map ?p = Some (mark F (replicate (cp_chunks ?p) False))"
    and r: "chunk_rep ?p (map il_handle slots @ lost) (css @ dss) F" and len: "length css = length slots" "length dss = length lost"
    using claimed_chains [OF wf] by (metis length_map)
  have es: "\<forall>slot \<in> set slots. \<exists>es. list_rep TF ?p slot es"
  proof
    fix slot assume "slot \<in> set slots"
    then have "il_view (ps_handles s) (il_key slot) = Some slot" using mem by blast
    then have "list_rep TF ?p slot (m (il_key slot))" using lists unfolding lists_rep_def by (metis option.simps(5))
    then show "\<exists>es. list_rep TF ?p slot es" by blast
  qed
  have run: "validate_postings TF (ps_handles s) ?p = do {
      orphans \<leftarrow> orphan_count ?p (mark (concat css) (replicate (cp_chunks ?p) False));
      Some (if orphans \<noteq> 0 then Inl (Corrupt_core ''posting pool has orphan chunks'') else Inr ()) }"
    using check_slots_iff [THEN iffD2, OF conjI [OF v es]] by (simp add: validate_postings_def it)
  have some: "\<exists>n. orphan_count ?p (mark (concat css) (replicate (cp_chunks ?p) False)) = Some n"
    by (simp add: orphan_count_def free)
  have zero: "orphan_count ?p (mark (concat css) (replicate (cp_chunks ?p) False)) = Some 0 \<longleftrightarrow> concat dss = []"
  proof -
    have "set (concat (css @ dss) @ F) = {..<cp_chunks ?p}" "distinct (concat (css @ dss) @ F)"
      using rep_set [OF r] rep_distinct [OF r] by blast+
    then have "set (concat css) \<union> set (concat dss) \<union> set F = {..<cp_chunks ?p}" "set (concat css) \<inter> set (concat dss) = {}"
      "set (concat dss) \<inter> set F = {}"
      by (simp_all only: concat_append set_append distinct_append) blast+
    from covered_iff [OF this] have "{..<cp_chunks ?p} \<subseteq> set (concat css) \<union> set F \<longleftrightarrow> set (concat dss) = {}" .
    then show ?thesis unfolding orphan_zero [OF free] set_empty .
  qed
  have "concat dss = [] \<longleftrightarrow> lost = []"
  proof
    assume e: "concat dss = []"
    show "lost = []"
    proof (rule ccontr)
      assume "lost \<noteq> []"
      then have n: "length slots < length (map il_handle slots @ lost)" by simp
      have "(css @ dss) ! length slots \<in> set dss" using len \<open>lost \<noteq> []\<close> by (auto simp: nth_append)
      then have "(css @ dss) ! length slots = []" using e by auto
      moreover have "(map il_handle slots @ lost) ! length slots \<in> set lost" using \<open>lost \<noteq> []\<close> by (simp add: nth_append)
      ultimately show False using rep_iter [OF r n] lost by fastforce
    qed
  qed (use len in simp)
  then show ?thesis using run some zero by auto
qed

section \<open>A fresh store\<close>

lemma postings_new_rep:
  assumes "postings_new shards max_bytes = Inr s" and "shards \<le> usize_max" and "index_room \<lparr>ac_shards = shards, ac_max_bytes = max_bytes, ac_mode = Uniform\<rparr>"
  shows "posting_rep TF s (\<lambda>_. []) []" and "ps_pool s = chunk_pool_new \<lparr>cc_max_bytes = max_bytes\<rparr>"
    and "arena_new idlist_type \<lparr>ac_shards = shards, ac_max_bytes = max_bytes, ac_mode = Uniform\<rparr> = Inr (ps_handles s)"
proof -
  show pool: "ps_pool s = chunk_pool_new \<lparr>cc_max_bytes = max_bytes\<rparr>"
    and new: "arena_new idlist_type \<lparr>ac_shards = shards, ac_max_bytes = max_bytes, ac_mode = Uniform\<rparr> = Inr (ps_handles s)"
    using assms(1) by (auto simp: postings_new_def try_res_eq_Inr)
  have "chunk_wf (ps_pool s) []" using new_pool_rep [of _ 0] by (auto simp: pool chunk_wf_def)
  then show "posting_rep TF s (\<lambda>_. []) []"
    using il_arena.new_view [OF new] assms(2,3) by (auto simp: posting_rep_def lists_rep_def handles_of_def intro!: exI [of _ "[]"])
qed

lemma new_arena_refuses:
  assumes "arena_new T cfg = Inr a" and "ac_max_bytes cfg < PAGE_BYTES" and "length buf = SIZE T" and "ac_shards cfg \<le> usize_max"
  shows "insert_bytes T junk buf a = Inl (CapacityExceeded (ac_max_bytes cfg))"
proof -
  from arena_new_rep [OF assms(1,4)] obtain rep: "arena_rep T a (replicate (ac_shards cfg) []) []" and c: "ar_cfg a = cfg"
    by auto
  have full: "arena_full a" using assms(1,2) by (auto simp: arena_new_def arena_full_def arena_pool_bytes_def owned_empty_def split: if_splits)
  define key where "key = take (KEY_LEN T) buf"
  note f = rep_frame [OF rep]
  have key: "length key = KEY_LEN T" using assms(3) f by (simp add: key_def frame_def slot_ok_def)
  have "replicate (ac_shards cfg) [] ! shard_of (ar_cfg a) key = ([] :: nat list)" using rep_shard [OF rep] by simp
  then have "find_page T a (shard_of (ar_cfg a) key) key = None"
    using find_page_none [OF f, of "shard_of (ar_cfg a) key"] rep_shard [OF rep, of key] by simp
  then show ?thesis by (simp add: insert_bytes_def key_def [symmetric] Let_def open_shard_def alloc_page_full [OF full] c)
qed

lemma demo_postings:
  assumes "n \<le> 65536"
  obtains s where "postings_new 1 n = Inr s" "posting_rep TF s (\<lambda>_. []) []" "ps_pool s = chunk_pool_new \<lparr>cc_max_bytes = n\<rparr>"
    "arena_new idlist_type \<lparr>ac_shards = 1, ac_max_bytes = n, ac_mode = Uniform\<rparr> = Inr (ps_handles s)"
proof -
  have "is_power_of_two 1" by (simp add: is_power_of_two_def trailing_zeros.simps)
  then have "\<exists>s. postings_new 1 n = Inr s"
    by (simp add: postings_new_def arena_new_def idlist_type_def PAGE_BYTES_def)
  then obtain s where s: "postings_new 1 n = Inr s" by blast
  have "index_room \<lparr>ac_shards = 1, ac_max_bytes = n, ac_mode = Uniform\<rparr>" using assms by (simp add: index_room_def PAGE_BYTES_def)
  note rep = postings_new_rep [OF s _ this]
  show ?thesis by (rule that [OF s]) (use rep in \<open>simp_all add: usize_max_def\<close>)
qed

section \<open>Dump and load of a store\<close>

text \<open>Both parts of a store load back from their dumps, and represent the same map.\<close>

lemma posting_reload:
  assumes rep: "posting_rep TF s m []" and sizes: "npages (ps_handles s) < 2 ^ 32 - 1" "ac_shards (ar_cfg (ps_handles s)) < 2 ^ 32"
    "cp_chunks (ps_pool s) < 2 ^ 32 - 1"
  obtains cmeta cpool h p where "cp_dump_meta (ps_pool s) = Some cmeta" "cp_dump_pool (ps_pool s) = Some cpool"
    "arena_load idlist_type (ar_cfg (ps_handles s)) (arena_dump_meta (ps_handles s)) (arena_dump_pool idlist_type (ps_handles s)) = Inr h"
    "chunk_load (cp_cfg (ps_pool s)) cmeta cpool = Inr p" "posting_rep TF \<lparr>ps_handles = h, ps_pool = p\<rparr> m []" "ar_cfg h = ar_cfg (ps_handles s)"
proof -
  obtain ks where u: "arena_usable idlist_type (ps_handles s)" and lists: "lists_rep TF s m"
    and ks: "distinct ks" "set ks = dom (il_view (ps_handles s))" and wf: "chunk_wf (ps_pool s) (handles_of (il_view (ps_handles s)) ks)"
    using rep by (auto simp: posting_rep_def)
  obtain runs F where a: "arena_rep idlist_type (ps_handles s) runs F" using u by (auto simp: arena_usable_def arena_inv_def)
  obtain h where h: "arena_load idlist_type (ar_cfg (ps_handles s)) (arena_dump_meta (ps_handles s)) (arena_dump_pool idlist_type (ps_handles s)) = Inr h"
    "arena_inv idlist_type h" "arena_map idlist_type h = arena_map idlist_type (ps_handles s)" "ar_cfg h = ar_cfg (ps_handles s)"
    using dump_loads [OF a sizes(1,2), of "owned_from (arena_dump_pool idlist_type (ps_handles s))"] by (auto simp: arena_load_def)
  obtain cmeta cpool p where p: "cp_dump_meta (ps_pool s) = Some cmeta" "cp_dump_pool (ps_pool s) = Some cpool"
    "chunk_load (cp_cfg (ps_pool s)) cmeta cpool = Inr p" "chunk_wf p (handles_of (il_view (ps_handles s)) ks)"
    "\<forall>l \<in> set (handles_of (il_view (ps_handles s)) ks). chunk_iter p l = chunk_iter (ps_pool s) l"
    using chunk_reload [OF wf sizes(3)] by blast
  have v: "il_view h = il_view (ps_handles s)" by (simp add: rview_def h(3) fun_eq_iff)
  have "list_rep TF p sl (m k)" if k: "il_view (ps_handles s) k = Some sl" for k sl
  proof -
    have "k \<in> set ks" using k ks(2) by blast
    then have "il_handle sl \<in> set (handles_of (il_view (ps_handles s)) ks)" using k by (force simp: handles_of_def)
    then have "chunk_iter p (il_handle sl) = chunk_iter (ps_pool s) (il_handle sl)" using p(5) by blast
    moreover have "list_rep TF (ps_pool s) sl (m k)" using lists k unfolding lists_rep_def by (metis option.simps(5))
    ultimately show ?thesis using list_rep_frame by blast
  qed
  moreover have "m k = []" if "il_view (ps_handles s) k = None" for k using lists that unfolding lists_rep_def by (metis option.simps(4))
  ultimately have "lists_rep TF \<lparr>ps_handles = h, ps_pool = p\<rparr> m" by (auto simp: lists_rep_def v split: option.split)
  then have "posting_rep TF \<lparr>ps_handles = h, ps_pool = p\<rparr> m []"
    using u h(2,4) ks p(4) v by (auto simp: posting_rep_def arena_usable_def)
  then show ?thesis using that p(1-3) h(1,4) by blast
qed

text \<open>A push adds at most one chunk.\<close>

lemma set_link_chunks: "cp_set_link c n p = Some q \<Longrightarrow> cp_chunks q = cp_chunks p"
  by (auto simp: cp_set_link_def cp_chunks_def split: if_splits)

lemma alloc_chunks: "alloc_chunk p = Some (Inr (c, q)) \<Longrightarrow> cp_chunks q \<le> cp_chunks p + 1"
  by (auto simp: alloc_chunk_def cp_chunks_def Let_def bind_eq_Some_conv dest!: set_link_chunks [unfolded cp_chunks_def]
      split: if_splits option.splits)

lemma fresh_chunks:
  assumes "fresh_tail p l = Some (Inr (l', q))"
  shows "cp_chunks q \<le> cp_chunks p + 1"
proof -
  obtain c p1 where "alloc_chunk p = Some (Inr (c, p1))" "q = p1 \<or> cp_set_link (lh_tail l) c p1 = Some q"
    using assms unfolding fresh_tail_def
    by (cases "alloc_chunk p") (auto simp: bind_eq_Some_conv split: sum.splits if_splits)
  then show ?thesis using alloc_chunks set_link_chunks by fastforce
qed

lemma chunk_push_chunks:
  assumes "chunk_push p l v = Some (Inr (l', q))"
  shows "cp_chunks q \<le> cp_chunks p + 1"
proof (cases "v = []")
  case True
  then show ?thesis using assms by (simp add: chunk_push_def split: if_splits)
next
  case False
  then have "\<exists>l1 p1. (p1 = p \<or> fresh_tail p l = Some (Inr (l1, p1))) \<and> q = append_value v l1 p1"
    using assms
    by (cases "tail_fits p l (length v)"; cases "the (tail_fits p l (length v))"; cases "fresh_tail p l"; cases "the (fresh_tail p l)")
      (auto simp: chunk_push_def split: if_splits prod.splits)
  then obtain l1 p1 where l1: "p1 = p \<or> fresh_tail p l = Some (Inr (l1, p1))" "q = append_value v l1 p1" by blast
  then have "cp_chunks p1 \<le> cp_chunks p + 1" using fresh_chunks by auto
  then show ?thesis by (simp add: l1(2) append_value_def cp_chunks_def Let_def)
qed

text \<open>A first push into a new store.\<close>

lemma demo_push:
  obtains s s' where "postings_new 1 65536 = Inr s" "posting_push True (replicate PAGE_BYTES 0) 7 3 2 s = Some (Inr (), s')"
    "posting_rep True s' ((\<lambda>_. [])(7 := [(3, 2)])) []" "npages (ps_handles s') < 2 ^ 32 - 1" "ac_shards (ar_cfg (ps_handles s')) < 2 ^ 32"
    "cp_chunks (ps_pool s') < 2 ^ 32 - 1"
proof -
  let ?cfg = "\<lparr>ac_shards = 1, ac_max_bytes = 65536, ac_mode = Uniform\<rparr>"
  obtain s where s: "postings_new 1 65536 = Inr s" "posting_rep True s (\<lambda>_. []) []" "ps_pool s = chunk_pool_new \<lparr>cc_max_bytes = 65536\<rparr>"
    "arena_new idlist_type ?cfg = Inr (ps_handles s)"
    by (rule demo_postings [of 65536]) (use that in auto)
  have a: "\<not> arena_full (ps_handles s)" "npages (ps_handles s) = 0" "ar_cfg (ps_handles s) = ?cfg"
  proof -
    have "\<not> arena_full a \<and> npages a = 0 \<and> ar_cfg a = ?cfg" if "arena_new idlist_type ?cfg = Inr a" for a
      using that by (auto simp: arena_new_def arena_full_def arena_pool_bytes_def owned_empty_def PAGE_BYTES_def npages_def split: if_splits)
    from this [OF s(4)] show "\<not> arena_full (ps_handles s)" "npages (ps_handles s) = 0" "ar_cfg (ps_handles s) = ?cfg" by blast+
  qed
  have p: "\<not> pool_full (ps_pool s)" "cp_chunks (ps_pool s) = 0"
    by (simp_all add: s(3) chunk_pool_new_def pool_full_def cp_pool_bytes_def owned_empty_def CHUNK_BYTES_def usize_max_def cp_chunks_def)
  have j: "length (replicate PAGE_BYTES (0 :: u8)) = PAGE_BYTES" by simp
  obtain s' where push: "posting_push True (replicate PAGE_BYTES 0) 7 3 2 s = Some (Inr (), s')"
    "posting_rep True s' ((\<lambda>_. [])(7 := [] @ [(3, plain_tf True 2)])) []"
    by (rule posting_push_rep [OF s(2) j, where k = 7 and i = 3 and tf = 2]) (use a(1) p(1) in auto)
  have u: "arena_usable idlist_type (ps_handles s)" using s(2) by (simp add: posting_rep_def)
  have none: "lookup_slot s 7 = Some None"
    using lookup_view [OF s(2), of 7] il_arena.new_view(2) [OF s(4)] by (simp add: usize_max_def index_room_def PAGE_BYTES_def)
  from push(1) obtain l' p' new b where run: "chunk_push (ps_pool s) EMPTY (entry_bytes True 3 2) = Some (Inr (l', p'))"
    "arena_insert idlist_type idlist_write (replicate PAGE_BYTES 0) \<lparr>il_key = 7, il_handle = l', il_count = 1, il_last = 3\<rparr> (ps_handles s) = Some (Inr (new, b))"
    "s' = \<lparr>ps_handles = b, ps_pool = p'\<rparr>"
    by (auto simp: posting_push_def reads_def none chunk_push_at_def panic_if_def store_slot_def insert_at_def put_pool_def put_handles_def and_then_def
        split: option.splits sum.splits prod.splits)
  have "npages b \<le> 1 \<and> ar_cfg b = ?cfg"
    by (rule il_arena.insert_view [OF u j, of "\<lparr>il_key = 7, il_handle = l', il_count = 1, il_last = 3\<rparr>"]) (use run(2) a in auto)
  moreover have "cp_chunks p' \<le> 1" using chunk_push_chunks [OF run(1)] p(2) by simp
  ultimately show ?thesis using that s(1) push by (simp add: plain_tf_def run(3))
qed

section \<open>Properties\<close>

text \<open>
  C10. \<open>push\<close> refines appending to one list of the map. With an id above the list's last one it
  either appends exactly \<open>(id, tf)\<close> (term frequency 1 in a store without them) and leaves every other
  list alone, or reports a full pool with every list unchanged; and what \<open>entries\<close> and \<open>count\<close> return
  are the lists of the map, in ascending id order.
\<close>

theorem posting_push_refines:
  assumes "posting_rep TF s m lost" and "length junk = PAGE_BYTES"
    and "m k = [] \<or> fst (last (m k)) < i" and "Suc (length (m k)) < 2 ^ 32"
  shows "\<exists>r s' m' lost'. posting_push TF junk k i tf s = Some (r, s') \<and> posting_rep TF s' m' lost' \<and>
    (case r of
       Inr _ \<Rightarrow> m' = m(k := m k @ [(i, plain_tf TF tf)]) \<and> lost' = lost
     | Inl e \<Rightarrow> m' = m \<and> (\<exists>n. e = Arena_err (CapacityExceeded n))) \<and>
    (\<forall>k. posting_entries TF s' k = Some (m' k) \<and> posting_count s' k = Some (of_nat (length (m' k))) \<and> ascending (m' k))"
proof (rule posting_push_rep [OF assms, of tf])
  fix s' l assume "posting_push TF junk k i tf s = Some (Inl (Arena_err (CapacityExceeded (ac_max_bytes (ar_cfg (ps_handles s))))), s')"
    "posting_rep TF s' m (lost @ [l])"
  then show ?thesis using rep_entries [of TF s' m "lost @ [l]"] by (intro exI conjI) auto
next
  fix s' assume "posting_push TF junk k i tf s = Some (Inr (), s')" "posting_rep TF s' (m(k := m k @ [(i, plain_tf TF tf)])) lost"
  then show ?thesis using rep_entries [of TF s' "m(k := m k @ [(i, plain_tf TF tf)])" lost] by (intro exI conjI) auto
qed (use assms(1) rep_entries [OF assms(1)] in \<open>intro exI conjI, auto\<close>)

theorem posting_push_refines_witness:
  "\<exists>s r s' es. postings_new 1 65536 = Inr s \<and> posting_push True (replicate PAGE_BYTES 0) 7 3 2 s = Some (r, s') \<and>
     posting_entries True s' 7 = Some es \<and> es \<in> {[], [(3, 2)]}"
proof -
  obtain s where s: "postings_new 1 65536 = Inr s" "posting_rep True s (\<lambda>_. []) []"
    by (rule demo_postings [of 65536]) (use that in auto)
  from posting_push_refines [OF s(2), where junk = "replicate PAGE_BYTES 0" and k = 7 and i = 3 and tf = 2] obtain r s' m' lost' where
    r: "posting_push True (replicate PAGE_BYTES 0) 7 3 2 s = Some (r, s')" "posting_entries True s' 7 = Some (m' 7)" "posting_rep True s' m' lost'"
    and c: "case r of Inr _ \<Rightarrow> m' = (\<lambda>_. [])(7 := [] @ [(3, plain_tf True 2)]) \<and> lost' = [] | Inl e \<Rightarrow> m' = (\<lambda>_. []) \<and> (\<exists>n. e = Arena_err (CapacityExceeded n))"
    by auto
  have "m' 7 \<in> {[], [(3, 2)]}" using c by (cases r) (auto simp: plain_tf_def)
  with r s(1) show ?thesis by blast
qed

text \<open>
  C11. What the load-time check of a posting store decides. A handle arena and a chunk pool that their loaders accepted, from any
  bytes, represent a map from keys to ascending lists with every chunk accounted for exactly when the check accepts, the pages of the
  handle arena are sorted and hold one shard each, and no chunk of a list is empty. The last two are what neither the loaders nor the
  check look at. The configured ceiling of the handle arena leaves its page ids inside 32 bits (16 TiB).
\<close>

theorem posting_validation_decides:
  assumes "arena_load idlist_type acfg hmeta hpool = Inr h \<or> arena_load_borrowed idlist_type acfg hmeta hpool = Inr h"
    and "index_room (ar_cfg h)" and "chunk_load cfg meta pool = Inr p"
  shows "(\<exists>m. posting_rep TF \<lparr>ps_handles = h, ps_pool = p\<rparr> m []) \<longleftrightarrow>
    validate_postings TF h p = Some (Inr ()) \<and> pages_sorted idlist_type h \<and>
    (\<forall>k sl bs. il_view h k = Some sl \<and> chunk_iter p (il_handle sl) = Some bs \<longrightarrow> [] \<notin> set bs)"
proof
  note inv = loaded_inv_iff [OF assms(1)]
  let ?s = "\<lparr>ps_handles = h, ps_pool = p\<rparr>"
  assume "\<exists>m. posting_rep TF ?s m []"
  then obtain m where rep: "posting_rep TF ?s m []" by blast
  then obtain ks where u: "arena_usable idlist_type h" and ks: "set ks = dom (il_view h)" and wf: "chunk_wf p (handles_of (il_view h) ks)"
    by (auto simp: posting_rep_def)
  have "[] \<notin> set bs" if k: "il_view h k = Some sl" "chunk_iter p (il_handle sl) = Some bs" for k sl bs
  proof -
    have "k \<in> set ks" using k(1) ks by blast
    then have "il_handle sl \<in> set (handles_of (il_view h) ks)" using k(1) by (force simp: handles_of_def)
    then show ?thesis using owner_decides [OF assms(3), THEN iffD1, OF wf] k(2) by fastforce
  qed
  moreover have "pages_sorted idlist_type h" using inv u by (simp add: arena_usable_def)
  moreover have "validate_postings TF h p = Some (Inr ())" using rep_accepted [of ?s TF m "[]"] rep u by simp
  ultimately show "validate_postings TF h p = Some (Inr ()) \<and> pages_sorted idlist_type h \<and>
      (\<forall>k sl bs. il_view h k = Some sl \<and> chunk_iter p (il_handle sl) = Some bs \<longrightarrow> [] \<notin> set bs)" by blast
next
  note inv = loaded_inv_iff [OF assms(1)]
  let ?s = "\<lparr>ps_handles = h, ps_pool = p\<rparr>"
  assume r: "validate_postings TF h p = Some (Inr ()) \<and> pages_sorted idlist_type h \<and>
      (\<forall>k sl bs. il_view h k = Some sl \<and> chunk_iter p (il_handle sl) = Some bs \<longrightarrow> [] \<notin> set bs)"
  then have u: "arena_usable idlist_type h" and full: "\<And>k sl bs. il_view h k = Some sl \<Longrightarrow> chunk_iter p (il_handle sl) = Some bs \<Longrightarrow> [] \<notin> set bs"
    using inv assms(2) by (auto simp: arena_usable_def)
  from r obtain slots claimed where it: "iter_all idlist_type idlist_read h = Some slots"
    and v: "validate_lists p (map il_handle slots) (replicate (cp_chunks p) False) = (Inr (), claimed)"
    and es: "\<forall>slot \<in> set slots. \<exists>es. list_rep TF p slot es" and o: "orphan_count p claimed = Some 0"
    unfolding accepted_iff by blast
  obtain sl' where it': "iter_all idlist_type idlist_read h = Some sl'"
    and mem: "\<And>k sl. il_view h k = Some sl \<longleftrightarrow> sl \<in> set sl' \<and> il_key sl = k"
    by (rule slots_handles [OF u [unfolded arena_usable_def, THEN conjunct1]]) (rule that; assumption)
  have e: "sl' = slots" using it it' by simp
  have "\<exists>bs. chunk_iter p (il_handle sl) = Some bs \<and> [] \<notin> set bs" if sl: "sl \<in> set slots" for sl
  proof -
    have "il_view h (il_key sl) = Some sl" using mem sl e by blast
    moreover obtain bs where "chunk_iter p (il_handle sl) = Some bs" using es [rule_format, OF sl] by (auto simp: list_rep_def)
    ultimately show ?thesis using full by blast
  qed
  then have wf: "chunk_wf p (map il_handle slots)"
    using v o by (subst owner_decides [OF assms(3)]) auto
  define m where "m k = (case il_view h k of None \<Rightarrow> [] | Some sl \<Rightarrow> (SOME es. list_rep TF p sl es))" for k
  have "list_rep TF p sl (m k)" if "il_view h k = Some sl" for k sl
  proof -
    have "sl \<in> set slots" using mem that e by blast
    from someI_ex [OF es [rule_format, OF this]] show ?thesis using that by (simp add: m_def)
  qed
  then have "lists_rep TF ?s m" by (simp add: lists_rep_def m_def split: option.split)
  then show "\<exists>m. posting_rep TF ?s m []" using rep_slots [of ?s slots TF m "[]"] u it wf by auto
qed

text \<open>A store with one entry, saved and loaded again.\<close>

theorem posting_validation_decides_witness:
  "\<exists>s s' cmeta cpool h p. postings_new 1 65536 = Inr s \<and> posting_push True (replicate PAGE_BYTES 0) 7 3 2 s = Some (Inr (), s') \<and>
     cp_dump_meta (ps_pool s') = Some cmeta \<and> cp_dump_pool (ps_pool s') = Some cpool \<and>
     arena_load idlist_type (ar_cfg (ps_handles s')) (arena_dump_meta (ps_handles s')) (arena_dump_pool idlist_type (ps_handles s')) = Inr h \<and>
     chunk_load (cp_cfg (ps_pool s')) cmeta cpool = Inr p \<and> posting_entries True \<lparr>ps_handles = h, ps_pool = p\<rparr> 7 = Some [(3, 2)] \<and>
     validate_postings True h p = Some (Inr ()) \<and> pages_sorted idlist_type h"
proof -
  obtain s s' where s: "postings_new 1 65536 = Inr s" "posting_push True (replicate PAGE_BYTES 0) 7 3 2 s = Some (Inr (), s')"
    "posting_rep True s' ((\<lambda>_. [])(7 := [(3, 2)])) []" and sizes: "npages (ps_handles s') < 2 ^ 32 - 1" "ac_shards (ar_cfg (ps_handles s')) < 2 ^ 32"
    "cp_chunks (ps_pool s') < 2 ^ 32 - 1"
    by (rule demo_push) (rule that; assumption)
  obtain cmeta cpool h p where l: "cp_dump_meta (ps_pool s') = Some cmeta" "cp_dump_pool (ps_pool s') = Some cpool"
    "arena_load idlist_type (ar_cfg (ps_handles s')) (arena_dump_meta (ps_handles s')) (arena_dump_pool idlist_type (ps_handles s')) = Inr h"
    "chunk_load (cp_cfg (ps_pool s')) cmeta cpool = Inr p" "posting_rep True \<lparr>ps_handles = h, ps_pool = p\<rparr> ((\<lambda>_. [])(7 := [(3, 2)])) []"
    by (rule posting_reload [OF s(3) sizes]) (rule that; assumption)
  have room: "index_room (ar_cfg h)" using l(5) by (simp add: posting_rep_def arena_usable_def)
  have "validate_postings True h p = Some (Inr ()) \<and> pages_sorted idlist_type h"
    using posting_validation_decides [OF disjI1 [OF l(3)] room l(4), of True] l(5) by blast
  moreover have "posting_entries True \<lparr>ps_handles = h, ps_pool = p\<rparr> 7 = Some [(3, 2)]"
    using rep_entries [OF l(5)] by simp
  ultimately show ?thesis using s(1,2) l(1-4) by blast
qed

text \<open>
  C12. A push that is refused because the handle arena is full has already written its entry to the
  pool: every list reads as before, but the chunk belongs to no list, and a store saved in this
  state is refused when it is loaded.
\<close>

theorem refused_push_orphans:
  assumes "posting_rep TF s m []" and "length junk = PAGE_BYTES"
    and "m k = [] \<or> fst (last (m k)) < i" and "Suc (length (m k)) < 2 ^ 32"
    and "\<not> pool_full (ps_pool s)" and "posting_push TF junk k i tf s = Some (Inl e, s')"
  shows "(\<forall>k. posting_entries TF s' k = posting_entries TF s k) \<and>
    validate_postings TF (ps_handles s) (ps_pool s) = Some (Inr ()) \<and>
    validate_postings TF (ps_handles s') (ps_pool s') = Some (Inl (Corrupt_core ''posting pool has orphan chunks''))"
proof -
  have u: "arena_usable idlist_type (ps_handles s)" using assms(1) by (simp add: posting_rep_def)
  show ?thesis
  proof (rule posting_push_rep [OF assms(1-4), of tf])
    fix t l assume p: "posting_push TF junk k i tf s = Some (Inl (Arena_err (CapacityExceeded (ac_max_bytes (ar_cfg (ps_handles s))))), t)"
      "posting_rep TF t m ([] @ [l])" "chunk_iter (ps_pool t) l = Some [entry_bytes TF i tf]" "ps_handles t = ps_handles s"
    have "validate_postings TF (ps_handles t) (ps_pool t) = Some (Inl (Corrupt_core ''posting pool has orphan chunks''))"
      using rep_accepted [OF _ p(2)] u p(3,4) by simp
    then show ?thesis
      using p(1) assms(6) rep_accepted [OF u assms(1)] rep_entries(1) [OF p(2)] rep_entries(1) [OF assms(1)] by simp
  qed (use assms(5,6) in auto)
qed

theorem refused_push_orphans_witness:
  "\<exists>s s' e. postings_new 1 64 = Inr s \<and> posting_push True (replicate PAGE_BYTES 0) 7 3 2 s = Some (Inl e, s') \<and>
     validate_postings True (ps_handles s) (ps_pool s) = Some (Inr ()) \<and>
     validate_postings True (ps_handles s') (ps_pool s') = Some (Inl (Corrupt_core ''posting pool has orphan chunks''))"
proof -
  obtain s where s: "postings_new 1 64 = Inr s" "posting_rep True s (\<lambda>_. []) []" "ps_pool s = chunk_pool_new \<lparr>cc_max_bytes = 64\<rparr>"
    "arena_new idlist_type \<lparr>ac_shards = 1, ac_max_bytes = 64, ac_mode = Uniform\<rparr> = Inr (ps_handles s)"
    by (rule demo_postings [of 64]) (use that in auto)
  let ?junk = "replicate PAGE_BYTES 0"
  have room: "\<not> pool_full (ps_pool s)"
    by (simp add: s(3) pool_full_def chunk_pool_new_def cp_pool_bytes_def cp_chunks_def owned_empty_def usize_max_def)
  have refuses: "arena_insert idlist_type idlist_write ?junk r (ps_handles s) = Some (Inl (CapacityExceeded 64))" for r
    using new_arena_refuses [OF s(4), of "idlist_image r"] by (simp add: arena_insert_def il_codec.write_fills il_codec.length_image PAGE_BYTES_def usize_max_def)
  have "\<exists>e s'. posting_push True ?junk 7 3 2 s = Some (Inl e, s')"
  proof (rule posting_push_rep [OF s(2), where junk = ?junk and k = 7 and i = 3 and tf = 2])
    fix s' assume ok: "posting_push True ?junk 7 3 2 s = Some (Inr (), s')"
    have "il_view (ps_handles s) = Map.empty"
      using il_arena.new_view(2) [OF s(4)] by (simp add: usize_max_def index_room_def PAGE_BYTES_def)
    with ok lookup_view [OF s(2), of 7] show ?thesis
      by (auto simp: posting_push_def and_then_def reads_def chunk_push_at_def put_pool_def panic_if_def store_slot_def insert_at_def refuses
          split: option.splits sum.splits prod.splits)
  qed auto
  then obtain e s' where push: "posting_push True ?junk 7 3 2 s = Some (Inl e, s')" by blast
  from refused_push_orphans [OF s(2) _ _ _ room push] show ?thesis using s(1) push by auto
qed

end
