(* ===== verification/Tag_Runs.thy ===== *)
theory Tag_Runs
  imports Tag_Catalog "HOL-Library.Multiset"
begin

text \<open>
  Sorted runs of catalog entries. \<open>run_ok\<close> says that the names of a run resolve and ascend;
  \<open>run_get\<close> is the entry a run holds for a name. Search, merge and the in-place update are
  carried to that map; a list of runs with pairwise distinct names is one map, the concatenation.
\<close>

definition nm :: "interner \<Rightarrow> cat_entry \<Rightarrow> bytes" where
  "nm dict e = the (entry_name dict e)"

definition resolves :: "interner \<Rightarrow> cat_entry list \<Rightarrow> bool" where
  "resolves dict es \<longleftrightarrow> (\<forall>e \<in> set es. entry_name dict e \<noteq> None)"

definition names :: "interner \<Rightarrow> cat_entry list \<Rightarrow> bytes list" where
  "names dict es = map (nm dict) es"

definition run_ok :: "interner \<Rightarrow> cat_entry list \<Rightarrow> bool" where
  "run_ok dict es \<longleftrightarrow> resolves dict es \<and> sorted_wrt (<) (names dict es)"

definition run_get :: "interner \<Rightarrow> cat_entry list \<Rightarrow> bytes \<Rightarrow> cat_entry option" where
  "run_get dict es = map_of (map (\<lambda>e. (nm dict e, e)) es)"

lemma names_simps [simp]:
  "names dict [] = []" "names dict (e # es) = nm dict e # names dict es" "names dict (xs @ ys) = names dict xs @ names dict ys"
  "length (names dict es) = length es" "set (names dict es) = nm dict ` set es" "i < length es \<Longrightarrow> names dict es ! i = nm dict (es ! i)"
  "take n (names dict es) = names dict (take n es)" "drop n (names dict es) = names dict (drop n es)"
  by (simp_all add: names_def take_map drop_map)

lemma resolves_simps [simp]:
  "resolves dict []" "resolves dict (e # es) \<longleftrightarrow> entry_name dict e = Some (nm dict e) \<and> resolves dict es"
  "resolves dict (xs @ ys) \<longleftrightarrow> resolves dict xs \<and> resolves dict ys"
  by (auto simp: resolves_def nm_def)

lemma resolvesD: "resolves dict es \<Longrightarrow> e \<in> set es \<Longrightarrow> entry_name dict e = Some (nm dict e)"
  by (auto simp: resolves_def nm_def)

lemma run_distinct: "run_ok dict es \<Longrightarrow> distinct (names dict es)"
  by (simp add: run_ok_def strict_sorted_iff)

lemma run_get_simps [simp]:
  "run_get dict [] = Map.empty" "run_get dict (e # es) = (run_get dict es)(nm dict e \<mapsto> e)"
  "run_get dict (xs @ ys) = run_get dict ys ++ run_get dict xs"
  by (simp_all add: run_get_def)

lemma run_get_iff: "distinct (names dict es) \<Longrightarrow> run_get dict es n = Some e \<longleftrightarrow> e \<in> set es \<and> nm dict e = n"
proof (induction es)
  case (Cons a es)
  show ?case
  proof (cases "n = nm dict a")
    case True
    moreover have "nm dict e \<noteq> nm dict a" if "e \<in> set es" using Cons.prems that by (metis distinct.simps(2) imageI names_simps(2,5))
    ultimately show ?thesis by auto
  qed (use Cons in auto)
qed simp

lemma run_get_None: "run_get dict es n = None \<longleftrightarrow> n \<notin> set (names dict es)"
  by (induction es) auto

lemma run_get_nm: "run_get dict es n = Some e \<Longrightarrow> nm dict e = n \<and> e \<in> set es"
  by (induction es) (auto split: if_splits)

lemma run_get_perm:
  assumes "distinct (names dict xs)" and "mset xs = mset ys"
  shows "run_get dict xs = run_get dict ys" and "distinct (names dict ys)"
proof -
  show d: "distinct (names dict ys)"
    using assms by (metis mset_map names_def mset_eq_imp_distinct_iff)
  show "run_get dict xs = run_get dict ys"
  proof
    fix n show "run_get dict xs n = run_get dict ys n"
      using run_get_iff [OF assms(1), of n] run_get_iff [OF d, of n] mset_eq_setD [OF assms(2)] by (metis not_Some_eq)
  qed
qed

lemma run_get_update:
  assumes d: "distinct (names dict es)" and i: "i < length es" and e: "nm dict e = nm dict (es ! i)"
  shows "run_get dict (es[i := e]) = (run_get dict es)(nm dict e \<mapsto> e)" and "names dict (es[i := e]) = names dict es"
proof -
  show n: "names dict (es[i := e]) = names dict es"
    using i e by (simp add: names_def map_update) (metis length_map list_update_id nth_map)
  show "run_get dict (es[i := e]) = (run_get dict es)(nm dict e \<mapsto> e)"
  proof
    fix x
    have d': "distinct (names dict (es[i := e]))" using d n by simp
    have "run_get dict (es[i := e]) x = Some y \<longleftrightarrow> ((run_get dict es)(nm dict e \<mapsto> e)) x = Some y" for y
    proof (cases "x = nm dict e")
      case True
      have "e \<in> set (es[i := e])" using i by (rule set_update_memI)
      then have "run_get dict (es[i := e]) x = Some e" using run_get_iff [OF d'] True by blast
      then show ?thesis using True by auto
    next
      case False
      have "y \<in> set (es[i := e]) \<and> nm dict y = x \<longleftrightarrow> y \<in> set es \<and> nm dict y = x"
        using False e i by (fastforce simp: in_set_conv_nth nth_list_update)
      then show ?thesis using run_get_iff [OF d'] run_get_iff [OF d] False by simp
    qed
    then show "run_get dict (es[i := e]) x = ((run_get dict es)(nm dict e \<mapsto> e)) x" by (metis not_Some_eq)
  qed
qed

section \<open>Search\<close>

lemma search_spec:
  assumes ok: "run_ok dict es"
  obtains (found) i where "cat_search es dict n = Some (Inr i)" "i < length es" "nm dict (es ! i) = n" "run_get dict es n = Some (es ! i)"
  | (absent) i where "cat_search es dict n = Some (Inl i)" "i \<le> length es" "run_get dict es n = None"
      "\<forall>e \<in> set (take i es). nm dict e < n" "\<forall>e \<in> set (drop i es). n < nm dict e"
proof -
  have so: "sorted_wrt (<) (names dict es)" and re: "resolves dict es" using ok by (simp_all add: run_ok_def)
  let ?f = "\<lambda>i. map_option (\<lambda>x. compare x n) (entry_name dict (es ! i))"
  have f: "i < length (names dict es) \<Longrightarrow> ?f i = Some (compare (names dict es ! i) n)" for i
    using resolvesD [OF re, of "es ! i"] by simp
  have e: "binary_search_by ?f (length (names dict es)) = cat_search es dict n" by (simp add: cat_search_def)
  from so f show ?thesis
  proof (rule binary_search_sorted)
    fix i assume i: "binary_search_by ?f (length (names dict es)) = Some (Inr i)" "i < length (names dict es)" "names dict es ! i = n"
    have "run_get dict es n = Some (es ! i)" using run_get_iff [OF run_distinct [OF ok]] i by simp
    then show ?thesis using found [of i] i unfolding e by simp
  next
    fix i assume i: "binary_search_by ?f (length (names dict es)) = Some (Inl i)" "i \<le> length (names dict es)" "n \<notin> set (names dict es)"
      "\<forall>k \<in> set (take i (names dict es)). k < n" "\<forall>k \<in> set (drop i (names dict es)). n < k"
    then show ?thesis using absent [of i] run_get_None [of dict es n] unfolding e by simp
  qed
qed

section \<open>Merging\<close>

lemma merge_spec:
  "run_ok dict as \<Longrightarrow> run_ok dict bs \<Longrightarrow> set (names dict as) \<inter> set (names dict bs) = {} \<Longrightarrow>
     \<exists>cs. merge_entries as bs dict = Some cs \<and> run_ok dict cs \<and> mset cs = mset as + mset bs"
proof (induction as bs dict rule: merge_entries.induct)
  case (3 a as b bs dict)
  have ok: "run_ok dict as" "run_ok dict bs" using 3(4,5) by (auto simp: run_ok_def)
  have r: "entry_name dict a = Some (nm dict a)" "entry_name dict b = Some (nm dict b)" using 3(4,5) by (auto simp: run_ok_def)
  have so: "\<forall>x \<in> set as. nm dict a < nm dict x" "\<forall>x \<in> set bs. nm dict b < nm dict x" using 3(4,5) by (auto simp: run_ok_def)
  have ne: "nm dict a \<noteq> nm dict b" using 3(6) by auto
  show ?case
  proof (cases "nm dict a < nm dict b")
    case True
    then have cmp: "compare (nm dict a) (nm dict b) = Less" by simp
    from "3.IH"(1) [OF r cmp ok(1) 3(5)] 3(6) obtain cs where
      cs: "merge_entries as (b # bs) dict = Some cs" "run_ok dict cs" "mset cs = mset as + mset (b # bs)" by auto
    have "set cs = set as \<union> set (b # bs)" using mset_eq_setD [of cs "as @ b # bs"] cs(3) by simp
    then have "run_ok dict (a # cs)" using cs(2) r so True by (auto simp: run_ok_def intro: less_trans)
    then show ?thesis using r True cs by (simp add: compare_def)
  next
    case False
    then have cmp: "compare (nm dict a) (nm dict b) = Greater" using ne by simp
    from "3.IH"(3) [OF r cmp 3(4) ok(2)] 3(6) obtain cs where
      cs: "merge_entries (a # as) bs dict = Some cs" "run_ok dict cs" "mset cs = mset (a # as) + mset bs" by auto
    have "set cs = set (a # as) \<union> set bs" using mset_eq_setD [of cs "(a # as) @ bs"] cs(3) by simp
    moreover have "nm dict b < nm dict a" using False ne by simp
    ultimately have "run_ok dict (b # cs)" using cs(2) r so by (auto simp: run_ok_def intro: less_trans)
    then show ?thesis using r False ne cs by (simp add: compare_def)
  qed
qed auto

section \<open>Lists of runs\<close>

definition live_runs :: "cat_entry list option list \<Rightarrow> cat_entry list list" where
  "live_runs runs = List.map_filter id runs"

lemma live_runs_simps [simp]:
  "live_runs [] = []" "live_runs (None # runs) = live_runs runs" "live_runs (Some run # runs) = run # live_runs runs"
  by (simp_all add: live_runs_def)

definition runs_ok :: "interner \<Rightarrow> cat_entry list list \<Rightarrow> bool" where
  "runs_ok dict rs \<longleftrightarrow> (\<forall>r \<in> set rs. run_ok dict r) \<and> distinct (names dict (concat rs))"

lemma runs_ok_simps [simp]:
  "runs_ok dict []"
  "runs_ok dict (r # rs) \<longleftrightarrow> run_ok dict r \<and> runs_ok dict rs \<and> set (names dict r) \<inter> set (names dict (concat rs)) = {}"
  by (auto simp: runs_ok_def dest: run_distinct)

lemma find_spec:
  "runs_ok dict (live_runs runs) \<Longrightarrow> find_in_runs dict n runs = Some (run_get dict (concat (live_runs runs)) n)"
proof (induction dict n runs rule: find_in_runs.induct)
  case (3 dict n run runs)
  then have ok: "run_ok dict run" "runs_ok dict (live_runs runs)" by auto
  show ?case
    by (rule search_spec [OF ok(1), of n]) (use 3 ok(2) in \<open>auto simp: map_add_def split: option.split\<close>)
qed auto

lemma place_spec:
  "run_ok dict carry \<Longrightarrow> runs_ok dict (live_runs runs) \<Longrightarrow> set (names dict carry) \<inter> set (names dict (concat (live_runs runs))) = {} \<Longrightarrow>
     \<exists>runs'. place_carry carry runs dict = Some runs' \<and> runs_ok dict (live_runs runs') \<and>
       mset (concat (live_runs runs')) = mset carry + mset (concat (live_runs runs))"
proof (induction carry runs dict rule: place_carry.induct)
  case (3 carry existing runs dict)
  have d: "set (names dict existing) \<inter> set (names dict carry) = {}" using 3(4) by auto
  have ok: "run_ok dict existing" "runs_ok dict (live_runs runs)" using 3(3) by auto
  obtain m where m: "merge_entries existing carry dict = Some m" "run_ok dict m" "mset m = mset existing + mset carry"
    using merge_spec [OF ok(1) 3(2) d] by blast
  have "set m = set existing \<union> set carry" using mset_eq_setD [of m "existing @ carry"] m(3) by simp
  then have "set (names dict m) = set (names dict existing) \<union> set (names dict carry)" by auto
  then have "set (names dict m) \<inter> set (names dict (concat (live_runs runs))) = {}"
    using 3(3,4) by (simp del: names_simps(5)) blast
  from "3.IH" [OF m(1,2) ok(2) this] obtain runs' where
    "place_carry m runs dict = Some runs'" "runs_ok dict (live_runs runs')" "mset (concat (live_runs runs')) = mset m + mset (concat (live_runs runs))"
    by blast
  then show ?case using m(1,3) by (intro exI [of _ "None # runs'"]) simp
qed auto

text \<open>The in-place update changes one entry of the concatenation.\<close>

definition updated :: "interner \<Rightarrow> bytes \<Rightarrow> u32 \<Rightarrow> cat_entry list \<Rightarrow> cat_entry list \<Rightarrow> bool" where
  "updated dict n new es es' \<longleftrightarrow> (\<exists>i < length es. nm dict (es ! i) = n \<and> es' = es[i := (es ! i)\<lparr>ce_count := new\<rparr>])"

lemma updated_append: "updated dict n new ys ys' \<Longrightarrow> updated dict n new (xs @ ys) (xs @ ys')" "updated dict n new xs xs' \<Longrightarrow> updated dict n new (xs @ ys) (xs' @ ys)"
proof -
  assume "updated dict n new ys ys'"
  then obtain i where "i < length ys" "nm dict (ys ! i) = n" "ys' = ys[i := (ys ! i)\<lparr>ce_count := new\<rparr>]" by (auto simp: updated_def)
  then show "updated dict n new (xs @ ys) (xs @ ys')"
    unfolding updated_def by (intro exI [of _ "length xs + i"]) (simp add: list_update_append)
next
  assume "updated dict n new xs xs'"
  then obtain i where "i < length xs" "nm dict (xs ! i) = n" "xs' = xs[i := (xs ! i)\<lparr>ce_count := new\<rparr>]" by (auto simp: updated_def)
  then show "updated dict n new (xs @ ys) (xs' @ ys)"
    unfolding updated_def by (intro exI [of _ i]) (simp add: list_update_append nth_append)
qed

lemma nm_count [simp]: "nm dict (e\<lparr>ce_count := k\<rparr>) = nm dict e"
  by (simp add: nm_def)

lemma updated_names: "updated dict n new es es' \<Longrightarrow> names dict es' = names dict es \<and> (resolves dict es \<longrightarrow> resolves dict es')"
proof -
  assume "updated dict n new es es'"
  then obtain i where i: "i < length es" "es' = es[i := (es ! i)\<lparr>ce_count := new\<rparr>]" by (auto simp: updated_def)
  have "names dict es' = names dict es"
    using i by (simp add: names_def map_update) (metis length_map list_update_id nth_map)
  moreover have "resolves dict es'" if "resolves dict es"
    using that i nth_mem [OF i(1)] by (auto simp: resolves_def dest!: set_update_subset_insert [THEN subsetD])
  ultimately show ?thesis by blast
qed

lemma updated_ok: "run_ok dict es \<Longrightarrow> updated dict n new es es' \<Longrightarrow> run_ok dict es'"
  using updated_names by (metis run_ok_def)

lemma updated_get:
  assumes "distinct (names dict es)" and "updated dict n new es es'"
  shows "\<exists>e. run_get dict es n = Some e \<and> run_get dict es' = (run_get dict es)(n \<mapsto> e\<lparr>ce_count := new\<rparr>)"
proof -
  from assms(2) obtain i where i: "i < length es" "nm dict (es ! i) = n" "es' = es[i := (es ! i)\<lparr>ce_count := new\<rparr>]" by (auto simp: updated_def)
  then show ?thesis using run_get_update(1) [OF assms(1) i(1), of "(es ! i)\<lparr>ce_count := new\<rparr>"] run_get_iff [OF assms(1), of n "es ! i"] by (intro exI [of _ "es ! i"]) simp
qed

lemma update_run_spec:
  "runs_ok dict (live_runs runs) \<Longrightarrow>
    (if run_get dict (concat (live_runs runs)) n = None then update_run dict n new runs = Some None
     else \<exists>runs'. update_run dict n new runs = Some (Some runs') \<and> runs_ok dict (live_runs runs') \<and>
       updated dict n new (concat (live_runs runs)) (concat (live_runs runs')))"
proof (induction dict n new runs rule: update_run.induct)
  case (2 dict n new runs)
  then show ?case by (auto split: if_splits)
next
  case (3 dict n new run runs)
  have ok: "run_ok dict run" "runs_ok dict (live_runs runs)" and disj: "set (names dict run) \<inter> set (names dict (concat (live_runs runs))) = {}"
    using 3(2) by auto
  show ?case
  proof (rule search_spec [OF ok(1), of n])
    fix i assume i: "cat_search run dict n = Some (Inr i)" "i < length run" "nm dict (run ! i) = n" "run_get dict run n = Some (run ! i)"
    have u: "updated dict n new run (run[i := (run ! i)\<lparr>ce_count := new\<rparr>])" using i by (auto simp: updated_def)
    have "run_ok dict (run[i := (run ! i)\<lparr>ce_count := new\<rparr>])" "names dict (run[i := (run ! i)\<lparr>ce_count := new\<rparr>]) = names dict run"
      using updated_ok [OF ok(1) u] updated_names [OF u] by auto
    then have "runs_ok dict (run[i := (run ! i)\<lparr>ce_count := new\<rparr>] # live_runs runs)" using ok(2) disj by (simp del: names_simps(5))
    then show ?thesis using i updated_append(2) [OF u] by (auto simp: map_add_def)
  next
    fix i assume i: "cat_search run dict n = Some (Inl i)" "run_get dict run n = None"
    note IH = "3.IH" [OF i(1) refl ok(2)]
    show ?thesis
    proof (cases "run_get dict (concat (live_runs runs)) n")
      case None
      then show ?thesis using IH i by (simp add: map_add_def)
    next
      case (Some e)
      then obtain runs' where r: "update_run dict n new runs = Some (Some runs')" "runs_ok dict (live_runs runs')"
        "updated dict n new (concat (live_runs runs)) (concat (live_runs runs'))" using IH by auto
      have "runs_ok dict (run # live_runs runs')" using ok(1) r(2) disj updated_names [OF r(3)] by (simp del: names_simps(5))
      then show ?thesis using i r updated_append(1) [OF r(3)] Some by (auto simp: map_add_def)
    qed
  qed
qed simp

end
