(* ===== verification/Tag_View.thy ===== *)
theory Tag_View
  imports Tag_Runs
begin

unbundle bit_operations_syntax

text \<open>
  What the catalog is: a count for every tag name, zero for most. \<open>cat_view\<close> reads it off the
  overlay and the base; \<open>cat_inv\<close> keeps the runs sorted and disjoint and the fingerprint equal to
  the xor over all active tags, whatever the order of the changes. \<open>change\<close> updates one name.
\<close>

definition overlay :: "tag_catalog \<Rightarrow> cat_entry list" where
  "overlay c = concat (tc_buffer c # live_runs (tc_runs c))"

definition cat_view :: "interner \<Rightarrow> tag_catalog \<Rightarrow> bytes \<Rightarrow> u32" where
  "cat_view dict c n = (case run_get dict (overlay c) n of
     Some e \<Rightarrow> ce_count e
   | None \<Rightarrow> (case run_get dict (tc_base c) n of Some e \<Rightarrow> ce_count e | None \<Rightarrow> 0))"

definition cat_ok :: "interner \<Rightarrow> tag_catalog \<Rightarrow> bool" where
  "cat_ok dict c \<longleftrightarrow> run_ok dict (tc_base c) \<and> (\<forall>e \<in> set (tc_base c). ce_count e \<noteq> 0) \<and>
     runs_ok dict (tc_buffer c # live_runs (tc_runs c)) \<and> length (tc_buffer c) < RUN_BASE"

interpretation xor_over: comm_monoid_set "\<lambda>a b. a XOR b :: u64" 0
  by unfold_locales (simp_all add: xor.assoc xor.commute)

definition active :: "(bytes \<Rightarrow> u32) \<Rightarrow> bytes set" where
  "active v = {n. v n \<noteq> 0}"

definition fingerprint_of :: "(bytes \<Rightarrow> u64) \<Rightarrow> (bytes \<Rightarrow> u32) \<Rightarrow> u64" where
  "fingerprint_of h v = xor_over.F (\<lambda>n. entry_hash h n (v n)) (active v)"

definition cat_inv :: "(bytes \<Rightarrow> u64) \<Rightarrow> interner \<Rightarrow> tag_catalog \<Rightarrow> bool" where
  "cat_inv h dict c \<longleftrightarrow> cat_ok dict c \<and> tc_fingerprint c = fingerprint_of h (cat_view dict c)"

lemma view_names: "cat_view dict c n \<noteq> 0 \<Longrightarrow> n \<in> set (names dict (overlay c)) \<union> set (names dict (tc_base c))"
  by (auto simp: cat_view_def dest!: run_get_nm split: option.splits simp del: names_simps(3))

lemma finite_active: "finite (active (cat_view dict c))"
  by (rule finite_subset [of _ "set (names dict (overlay c)) \<union> set (names dict (tc_base c))"])
    (use view_names in \<open>auto simp: active_def\<close>)

text \<open>Changing one count changes the fingerprint by the old and the new entry.\<close>

lemma fingerprint_update:
  assumes fin: "finite (active v)"
  shows "fingerprint_of h (v(n := k)) =
    (if v n \<noteq> 0 then entry_hash h n (v n) else 0) XOR (if k \<noteq> 0 then entry_hash h n k else 0) XOR fingerprint_of h v"
proof -
  let ?g = "\<lambda>v x. entry_hash h x (v x)"
  let ?rest = "active v - {n}"
  have rest: "xor_over.F (?g (v(n := k))) ?rest = xor_over.F (?g v) ?rest" by (rule xor_over.cong) auto
  have old: "fingerprint_of h v = (if v n \<noteq> 0 then entry_hash h n (v n) else 0) XOR xor_over.F (?g v) ?rest"
    using xor_over.remove [OF fin, of n "?g v"] by (auto simp: fingerprint_of_def active_def)
  have "active (v(n := k)) = (if k \<noteq> 0 then insert n ?rest else ?rest)" by (auto simp: active_def)
  then have "fingerprint_of h (v(n := k)) = (if k \<noteq> 0 then entry_hash h n k else 0) XOR xor_over.F (?g v) ?rest"
    using fin rest by (simp add: fingerprint_of_def xor_over.insert del: insert_Diff_single)
  then show ?thesis unfolding old by (simp add: xor.assoc xor.left_commute [of "entry_hash h n k"])
qed

section \<open>Lookup\<close>

lemma overlay_get: "run_get dict (overlay c) n = (case run_get dict (tc_buffer c) n of
    Some e \<Rightarrow> Some e | None \<Rightarrow> run_get dict (concat (live_runs (tc_runs c))) n)"
  by (simp add: overlay_def map_add_def)

lemma overlay_entry_spec:
  assumes ok: "cat_ok dict c" and n: "interner_resolve dict tid = Some n"
  shows "overlay_entry c dict tid = Some (run_get dict (overlay c) n)"
proof -
  have b: "run_ok dict (tc_buffer c)" and r: "runs_ok dict (live_runs (tc_runs c))" using ok by (auto simp: cat_ok_def)
  show ?thesis
    by (rule search_spec [OF b, of n]) (use n find_spec [OF r] in \<open>auto simp: overlay_entry_def overlay_get\<close>)
qed

lemma base_entry_spec:
  assumes ok: "cat_ok dict c" and n: "interner_resolve dict tid = Some n"
  shows "base_entry c dict tid = Some (run_get dict (tc_base c) n)"
proof -
  have b: "run_ok dict (tc_base c)" using ok by (auto simp: cat_ok_def)
  show ?thesis by (rule search_spec [OF b, of n]) (use n in \<open>auto simp: base_entry_def\<close>)
qed

lemma tag_count_spec:
  "cat_ok dict c \<Longrightarrow> interner_resolve dict tid = Some n \<Longrightarrow> tag_count c dict tid = Some (cat_view dict c n)"
  by (auto simp: tag_count_def overlay_entry_spec base_entry_spec cat_view_def split: option.split)

lemma is_overridden_spec:
  "cat_ok dict c \<Longrightarrow> interner_resolve dict tid = Some n \<Longrightarrow> is_overridden c dict tid = Some (n \<in> set (names dict (overlay c)))"
  using run_get_None [of dict "overlay c" n] by (auto simp: is_overridden_def overlay_entry_spec)

section \<open>Change\<close>

lemma insert_run:
  assumes ok: "run_ok dict es" and e: "entry_name dict e = Some (nm dict e)"
    and lt: "\<forall>x \<in> set (take i es). nm dict x < nm dict e" and gt: "\<forall>x \<in> set (drop i es). nm dict e < nm dict x"
  shows "run_ok dict (take i es @ e # drop i es)"
proof -
  have "run_ok dict (take i es @ drop i es)" using ok by simp
  then have "resolves dict (take i es)" "resolves dict (drop i es)" "sorted_wrt (<) (names dict (take i es))" "sorted_wrt (<) (names dict (drop i es))"
    unfolding run_ok_def resolves_simps names_simps sorted_wrt_append by blast+
  then show ?thesis using e lt gt by (auto simp: run_ok_def sorted_wrt_append intro: less_trans)
qed

text \<open>The place the new count goes to: only the overlay changes, by the entry for \<open>n\<close>.\<close>

lemma record_spec:
  assumes ok: "cat_ok dict c" and n: "interner_resolve dict tid = Some n"
  shows "\<exists>c'. record_count dict n tid new c = Some c' \<and> cat_ok dict c' \<and> cat_view dict c' = (cat_view dict c)(n := new) \<and>
    tc_fingerprint c' = tc_fingerprint c \<and> tc_base c' = tc_base c"
proof -
  have b: "run_ok dict (tc_buffer c)" and r: "runs_ok dict (live_runs (tc_runs c))"
    and bd: "set (names dict (tc_buffer c)) \<inter> set (names dict (concat (live_runs (tc_runs c)))) = {}"
    and len: "length (tc_buffer c) < RUN_BASE" and base: "run_ok dict (tc_base c)" "\<forall>e \<in> set (tc_base c). ce_count e \<noteq> 0"
    using ok unfolding cat_ok_def runs_ok_simps by blast+
  have dist: "distinct (names dict (overlay c))" using ok by (simp add: cat_ok_def runs_ok_def overlay_def)
  have upd: "cat_view dict c' = (cat_view dict c)(n := new)"
    if u: "updated dict n new (overlay c) (overlay c')" and b: "tc_base c' = tc_base c" for c'
  proof -
    obtain e where "run_get dict (overlay c) n = Some e" "run_get dict (overlay c') = (run_get dict (overlay c))(n \<mapsto> e\<lparr>ce_count := new\<rparr>)"
      using updated_get [OF dist u] by blast
    then show ?thesis by (intro ext) (simp add: cat_view_def b cong: option.case_cong)
  qed
  show ?thesis
  proof (rule search_spec [OF b, of n])
    fix i assume i: "cat_search (tc_buffer c) dict n = Some (Inr i)" "i < length (tc_buffer c)" "nm dict (tc_buffer c ! i) = n"
    let ?b = "(tc_buffer c)[i := (tc_buffer c ! i)\<lparr>ce_count := new\<rparr>]" and ?c = "c\<lparr>tc_buffer := (tc_buffer c)[i := (tc_buffer c ! i)\<lparr>ce_count := new\<rparr>]\<rparr>"
    have u: "updated dict n new (tc_buffer c) ?b" using i by (auto simp: updated_def)
    then have "updated dict n new (overlay c) (overlay ?c)" by (simp add: overlay_def updated_append(2))
    moreover have "cat_ok dict ?c"
      using ok updated_ok [OF b u] updated_names [OF u] unfolding cat_ok_def runs_ok_simps by (simp del: names_simps)
    ultimately show ?thesis using i upd [of ?c] by (simp add: record_count_def)
  next
    fix i assume i: "cat_search (tc_buffer c) dict n = Some (Inl i)" "i \<le> length (tc_buffer c)" "run_get dict (tc_buffer c) n = None"
      "\<forall>e \<in> set (take i (tc_buffer c)). nm dict e < n" "\<forall>e \<in> set (drop i (tc_buffer c)). n < nm dict e"
    note us = update_run_spec [OF r, of n new]
    show ?thesis
    proof (cases "run_get dict (concat (live_runs (tc_runs c))) n")
      case (Some e)
      then obtain runs where u: "update_run dict n new (tc_runs c) = Some (Some runs)" "runs_ok dict (live_runs runs)"
        "updated dict n new (concat (live_runs (tc_runs c))) (concat (live_runs runs))" using us by auto
      let ?c = "c\<lparr>tc_runs := runs\<rparr>"
      have "updated dict n new (overlay c) (overlay ?c)" using u(3) by (simp add: overlay_def updated_append(1))
      moreover have "cat_ok dict ?c"
        using ok u(2) updated_names [OF u(3)] unfolding cat_ok_def runs_ok_simps by (simp del: names_simps)
      ultimately show ?thesis using i u(1) upd [of ?c] by (simp add: record_count_def)
    next
      case None
      then have u: "update_run dict n new (tc_runs c) = Some None" using us by simp
      let ?e = "\<lparr>ce_term = tid, ce_count = new\<rparr>"
      let ?b = "take i (tc_buffer c) @ ?e # drop i (tc_buffer c)" and ?c = "c\<lparr>tc_buffer := take i (tc_buffer c) @ \<lparr>ce_term = tid, ce_count = new\<rparr> # drop i (tc_buffer c)\<rparr>"
      have e: "entry_name dict ?e = Some (nm dict ?e)" "nm dict ?e = n" using n by (simp_all add: nm_def)
      have b': "run_ok dict ?b" by (rule insert_run [OF b e(1)]) (use i e(2) in auto)
      have perm: "mset ?b = add_mset ?e (mset (tc_buffer c))" by (metis append_take_drop_id mset_append union_mset_add_mset_right mset.simps(2))
      then have sb: "set (names dict ?b) = insert n (set (names dict (tc_buffer c)))"
        using e(2) by (metis list.simps(15) mset.simps(2) mset_eq_setD image_insert names_simps(5))
      have "n \<notin> set (names dict (concat (live_runs (tc_runs c))))" using None run_get_None by metis
      then have disj: "set (names dict ?b) \<inter> set (names dict (concat (live_runs (tc_runs c)))) = {}" using sb bd by (simp only:) blast
      have view: "cat_view dict d = (cat_view dict c)(n := new)"
        if "mset (overlay d) = add_mset ?e (mset (overlay c))" "tc_base d = tc_base c" "distinct (names dict (overlay d))" for d
      proof -
        have "run_get dict (overlay d) = run_get dict (?e # overlay c)" using run_get_perm(1) [OF that(3), of "?e # overlay c"] that(1) by simp
        then show ?thesis using that(2) e(2) by (auto simp: cat_view_def fun_eq_iff cong: option.case_cong)
      qed
      show ?thesis
      proof (cases "RUN_BASE \<le> length ?b")
        case False
        then have "cat_ok dict ?c" using ok b' r disj unfolding cat_ok_def runs_ok_simps by simp
        moreover have "mset (overlay ?c) = add_mset ?e (mset (overlay c))" using perm by (simp add: overlay_def)
        moreover have "distinct (names dict (overlay ?c))" using calculation(1) by (simp add: cat_ok_def runs_ok_def overlay_def)
        ultimately show ?thesis using i u False view [of ?c] by (simp add: record_count_def Let_def)
      next
        case True
        obtain runs where p: "place_carry ?b (tc_runs c) dict = Some runs" "runs_ok dict (live_runs runs)"
          "mset (concat (live_runs runs)) = mset ?b + mset (concat (live_runs (tc_runs c)))"
          using place_spec [OF b' r disj] by blast
        let ?d = "c\<lparr>tc_runs := runs, tc_buffer := []\<rparr>"
        have "cat_ok dict ?d" using ok p(2) by (simp add: cat_ok_def run_ok_def RUN_BASE_def)
        moreover have "mset (overlay ?d) = add_mset ?e (mset (overlay c))" using p(3) perm by (simp add: overlay_def)
        moreover have "distinct (names dict (overlay ?d))" using p(2) by (simp add: runs_ok_def overlay_def)
        moreover have "record_count dict n tid new c = Some ?d"
          using i u True p(1) by (simp add: record_count_def flush_buffer_def Let_def)
        ultimately show ?thesis using view [of ?d] by simp
      qed
    qed
  qed
qed

lemma change_spec:
  assumes inv: "cat_inv h dict c" and n: "interner_resolve dict tid = Some n"
  shows "\<exists>c'. tag_change h dict tid delta c = Some c' \<and> cat_inv h dict c' \<and>
    cat_view dict c' = (cat_view dict c)(n := sat_change (cat_view dict c n) delta) \<and> tc_base c' = tc_base c"
proof -
  have ok: "cat_ok dict c" and fp: "tc_fingerprint c = fingerprint_of h (cat_view dict c)" using inv by (simp_all add: cat_inv_def)
  let ?old = "cat_view dict c n" and ?new = "sat_change (cat_view dict c n) delta"
  show ?thesis
  proof (cases "?new = ?old")
    case True
    then show ?thesis using inv by (intro exI [of _ c]) (simp add: tag_change_def tag_count_spec [OF ok n])
  next
    case False
    define f where "f = (if ?old \<noteq> 0 then tc_fingerprint c XOR entry_hash h n ?old else tc_fingerprint c)"
    define g where "g = (if ?new \<noteq> 0 then f XOR entry_hash h n ?new else f)"
    have ok': "cat_ok dict (c\<lparr>tc_fingerprint := g\<rparr>)" using ok by (simp add: cat_ok_def)
    obtain c' where c': "record_count dict n tid ?new (c\<lparr>tc_fingerprint := g\<rparr>) = Some c'" "cat_ok dict c'"
      "cat_view dict c' = (cat_view dict (c\<lparr>tc_fingerprint := g\<rparr>))(n := ?new)" "tc_fingerprint c' = g" "tc_base c' = tc_base c"
      using record_spec [OF ok' n, of ?new] by auto
    have "cat_view dict (c\<lparr>tc_fingerprint := g\<rparr>) = cat_view dict c" by (intro ext) (simp add: cat_view_def overlay_def cong: option.case_cong)
    then have v: "cat_view dict c' = (cat_view dict c)(n := ?new)" using c'(3) by simp
    have "fingerprint_of h (cat_view dict c') = g"
      unfolding v fingerprint_update [OF finite_active] fp [symmetric]
      by (simp add: g_def f_def xor.commute xor.left_commute)
    then show ?thesis using c' v False by (auto simp: tag_change_def tag_count_spec [OF ok n] n cat_inv_def Let_def f_def g_def)
  qed
qed

end
