(* ===== verification/Tag_Pages.thy ===== *)
theory Tag_Pages
  imports Tag_View
begin

text \<open>
  Pages of the catalog as a merge. Each source keeps the names it still has to show, in order; one
  round picks the smallest of their heads; the page is therefore an initial part of the sorted list
  of all unshown names.
\<close>

section \<open>Prefixes in byte order\<close>

lemma starts_with_iff: "starts_with p n \<longleftrightarrow> (\<exists>r. n = p @ r)"
proof
  assume "starts_with p n"
  then show "\<exists>r. n = p @ r" unfolding starts_with_def by (metis append_take_drop_id)
qed (auto simp: starts_with_def)

lemma starts_with_le: "starts_with p n \<Longrightarrow> p \<le> n"
proof -
  have "p \<le> p @ r" for r by (induction p) auto
  then show "starts_with p n \<Longrightarrow> p \<le> n" by (auto simp: starts_with_iff)
qed

lemma starts_with_between: "p \<le> a \<Longrightarrow> a \<le> b \<Longrightarrow> starts_with p b \<Longrightarrow> starts_with p a"
proof (induction p arbitrary: a b)
  case (Cons x p)
  obtain r where b: "b = x # p @ r" using Cons.prems(3) by (auto simp: starts_with_iff)
  obtain y a' where a: "a = y # a'" using Cons.prems(1) by (cases a) auto
  have "x = y" "p \<le> a'" "a' \<le> p @ r" using Cons.prems(1,2) by (auto simp: a b)
  with Cons.IH [of a' "p @ r"] show ?case by (auto simp: a starts_with_iff)
qed (simp add: starts_with_def)

section \<open>What a source still shows\<close>

definition shown :: "tag_catalog \<Rightarrow> interner \<Rightarrow> bool \<Rightarrow> cat_entry \<Rightarrow> bool" where
  "shown c dict is_base e \<longleftrightarrow> ce_count e \<noteq> 0 \<and> \<not> (is_base \<and> nm dict e \<in> set (names dict (overlay c)))"

definition unshown :: "tag_catalog \<Rightarrow> interner \<Rightarrow> bytes \<Rightarrow> bool \<times> cat_entry list \<Rightarrow> cat_entry list" where
  "unshown c dict prefix src = filter (shown c dict (fst src)) (takeWhile (\<lambda>e. starts_with prefix (nm dict e)) (snd src))"

definition all_unshown :: "tag_catalog \<Rightarrow> interner \<Rightarrow> bytes \<Rightarrow> (bool \<times> cat_entry list) list \<Rightarrow> cat_entry list" where
  "all_unshown c dict prefix rests = concat (map (unshown c dict prefix) rests)"

text \<open>A source after \<open>advance\<close>: empty, or headed by an entry to show.\<close>

definition at_shown :: "tag_catalog \<Rightarrow> interner \<Rightarrow> bytes \<Rightarrow> bool \<times> cat_entry list \<Rightarrow> bool" where
  "at_shown c dict prefix src \<longleftrightarrow> (case snd src of
     [] \<Rightarrow> True
   | e # es \<Rightarrow> starts_with prefix (nm dict e) \<and> shown c dict (fst src) e)"

lemma unshown_head: "at_shown c dict prefix (b, e # es) \<Longrightarrow> unshown c dict prefix (b, e # es) = e # unshown c dict prefix (b, es)"
  by (simp add: at_shown_def unshown_def)

lemma advance_spec:
  assumes ok: "cat_ok dict c"
  shows "run_ok dict es \<Longrightarrow> \<exists>es'. advance c dict prefix b es = Some es' \<and> run_ok dict es' \<and> at_shown c dict prefix (b, es') \<and>
    unshown c dict prefix (b, es') = unshown c dict prefix (b, es)"
proof (induction es)
  case Nil
  then show ?case by (simp add: at_shown_def)
next
  case (Cons e es)
  then have e: "entry_name dict e = Some (nm dict e)" and es: "run_ok dict es" by (auto simp: run_ok_def)
  note o = is_overridden_spec [OF ok e]
  consider (stop) "\<not> starts_with prefix (nm dict e)" | (here) "starts_with prefix (nm dict e)" "shown c dict b e"
    | (skip) "starts_with prefix (nm dict e)" "\<not> shown c dict b e" by blast
  then show ?case
  proof cases
    case stop
    then show ?thesis using e by (simp add: at_shown_def unshown_def run_ok_def)
  next
    case here
    then show ?thesis using e o Cons.prems by (auto simp: shown_def at_shown_def)
  next
    case skip
    then have "advance c dict prefix b (e # es) = advance c dict prefix b es" using e o by (auto simp: shown_def)
    moreover have "unshown c dict prefix (b, e # es) = unshown c dict prefix (b, es)" using skip by (simp add: unshown_def)
    ultimately show ?thesis using Cons.IH [OF es] by simp
  qed
qed

lemma unshown_sorted: "run_ok dict es \<Longrightarrow> sorted_wrt (<) (names dict (unshown c dict prefix (b, es)))"
proof -
  assume "run_ok dict es"
  then have "sorted_wrt (\<lambda>x y. nm dict x < nm dict y) es" by (simp add: run_ok_def names_def sorted_wrt_map)
  then have "sorted_wrt (\<lambda>x y. nm dict x < nm dict y) (takeWhile (\<lambda>e. starts_with prefix (nm dict e)) es)"
    by (metis sorted_wrt_append takeWhile_dropWhile_id)
  then show ?thesis by (simp add: unshown_def names_def sorted_wrt_map sorted_wrt_filter)
qed

definition srcs_ok :: "interner \<Rightarrow> (bool \<times> cat_entry list) list \<Rightarrow> bool" where
  "srcs_ok dict rests \<longleftrightarrow> (\<forall>src \<in> set rests. run_ok dict (snd src))"

lemma best_spec:
  assumes ok: "cat_ok dict c"
  shows "srcs_ok dict rests \<Longrightarrow> (\<forall>j e. best = Some (j, e) \<longrightarrow> entry_name dict e = Some (nm dict e)) \<Longrightarrow>
    \<exists>rests' best'. best_source c dict prefix i rests best = Some (rests', best') \<and> srcs_ok dict rests' \<and>
      map fst rests' = map fst rests \<and> (\<forall>src \<in> set rests'. at_shown c dict prefix src) \<and>
      map (unshown c dict prefix) rests' = map (unshown c dict prefix) rests \<and>
      (case best' of
         None \<Rightarrow> best = None \<and> all_unshown c dict prefix rests = []
       | Some (j, e) \<Rightarrow> entry_name dict e = Some (nm dict e) \<and>
           (best = Some (j, e) \<or> (\<exists>k < length rests'. j = i + k \<and> (\<exists>es. snd (rests' ! k) = e # es))) \<and>
           (\<forall>x \<in> set (all_unshown c dict prefix rests). nm dict e \<le> nm dict x) \<and>
           (\<forall>j' e'. best = Some (j', e') \<longrightarrow> nm dict e \<le> nm dict e'))"
proof (induction rests arbitrary: i best)
  case Nil
  then show ?case by (auto simp: srcs_ok_def all_unshown_def split: option.split)
next
  case (Cons src rests)
  obtain b es where src: "src = (b, es)" by (cases src)
  have es: "run_ok dict es" and rok: "srcs_ok dict rests" using Cons.prems(1) by (auto simp: srcs_ok_def src)
  obtain es' where a: "advance c dict prefix b es = Some es'" "run_ok dict es'" "at_shown c dict prefix (b, es')"
    "unshown c dict prefix (b, es') = unshown c dict prefix (b, es)" using advance_spec [OF ok es] by blast
  define best1 where "best1 = (case es' of [] \<Rightarrow> best | e # _ \<Rightarrow>
      (case best of None \<Rightarrow> Some (i, e) | Some (j, old) \<Rightarrow> Some (if nm dict e < nm dict old then (i, e) else (j, old))))"
  have r: "entry_name dict e = Some (nm dict e)" if "e \<in> set es'" for e using a(2) that resolvesD by (auto simp: run_ok_def)
  have b1: "(case es' of [] \<Rightarrow> Some best | e # _ \<Rightarrow>
      (case best of None \<Rightarrow> Some (Some (i, e)) | Some (j, old) \<Rightarrow> do {
         name \<leftarrow> entry_name dict e; old_name \<leftarrow> entry_name dict old; Some (Some (if name < old_name then (i, e) else (j, old))) })) = Some best1"
    using Cons.prems(2) r by (auto simp: best1_def split: list.split option.split)
  have prem: "\<forall>j e. best1 = Some (j, e) \<longrightarrow> entry_name dict e = Some (nm dict e)"
    using Cons.prems(2) r by (auto simp: best1_def split: list.splits option.splits if_splits)
  from Cons.IH [OF rok prem, of "i + 1"] obtain rests' best' where
    IH: "best_source c dict prefix (i + 1) rests best1 = Some (rests', best')" "srcs_ok dict rests'" "map fst rests' = map fst rests"
      "\<forall>src \<in> set rests'. at_shown c dict prefix src" "map (unshown c dict prefix) rests' = map (unshown c dict prefix) rests"
    and bst: "case best' of None \<Rightarrow> best1 = None \<and> all_unshown c dict prefix rests = []
       | Some (j, e) \<Rightarrow> entry_name dict e = Some (nm dict e) \<and>
           (best1 = Some (j, e) \<or> (\<exists>k < length rests'. j = i + 1 + k \<and> (\<exists>es. snd (rests' ! k) = e # es))) \<and>
           (\<forall>x \<in> set (all_unshown c dict prefix rests). nm dict e \<le> nm dict x) \<and>
           (\<forall>j' e'. best1 = Some (j', e') \<longrightarrow> nm dict e \<le> nm dict e')"
    by blast
  have run: "best_source c dict prefix i (src # rests) best = Some ((b, es') # rests', best')"
    using a(1) b1 IH(1) by (simp add: src)
  have pend: "all_unshown c dict prefix (src # rests) = unshown c dict prefix (b, es') @ all_unshown c dict prefix rests"
    using a(4) by (simp add: all_unshown_def src)
  have head: "\<forall>x \<in> set (unshown c dict prefix (b, es')). (\<exists>e t. es' = e # t \<and> nm dict e \<le> nm dict x)"
  proof
    fix x assume x: "x \<in> set (unshown c dict prefix (b, es'))"
    then obtain e t where e: "es' = e # t" by (cases es') (auto simp: unshown_def)
    have "sorted_wrt (<) (names dict (e # unshown c dict prefix (b, t)))"
      using unshown_sorted [OF a(2), of c prefix b] unshown_head [of c dict prefix b e t] a(3) e by simp
    then show "\<exists>e t. es' = e # t \<and> nm dict e \<le> nm dict x"
      using x unshown_head [of c dict prefix b e t] a(3) e by (auto intro: less_imp_le)
  qed
  have low: "nm dict e \<le> nm dict x" if l: "\<forall>j' e'. best1 = Some (j', e') \<longrightarrow> nm dict e \<le> nm dict e'" and x: "x \<in> set (unshown c dict prefix (b, es'))" for e x
  proof -
    obtain e0 t where e0: "es' = e0 # t" "nm dict e0 \<le> nm dict x" using head x by blast
    have "\<exists>j1 e1. best1 = Some (j1, e1) \<and> nm dict e1 \<le> nm dict e0"
      using e0(1) by (cases best) (auto simp: best1_def)
    then obtain j1 e1 where j1: "best1 = Some (j1, e1)" "nm dict e1 \<le> nm dict e0" by blast
    with l have "nm dict e \<le> nm dict e1" by blast
    then show ?thesis using j1(2) e0(2) by (meson order_trans)
  qed
  have low': "nm dict e \<le> nm dict e'" if l: "\<forall>j' e'. best1 = Some (j', e') \<longrightarrow> nm dict e \<le> nm dict e'" and o: "best = Some (j', e')" for e j' e'
  proof -
    have "\<exists>j1 e1. best1 = Some (j1, e1) \<and> nm dict e1 \<le> nm dict e'"
      using o by (cases es') (auto simp: best1_def)
    then obtain j1 e1 where j1: "best1 = Some (j1, e1)" "nm dict e1 \<le> nm dict e'" by blast
    with l have "nm dict e \<le> nm dict e1" by blast
    then show ?thesis using j1(2) by (meson order_trans)
  qed
  show ?case
  proof (cases best')
    case None
    then have "best1 = None" "all_unshown c dict prefix rests = []" using bst by auto
    moreover have "best = None" "es' = []" using calculation(1) by (auto simp: best1_def split: list.splits option.splits if_splits)
    moreover have "unshown c dict prefix (b, []) = []" by (simp add: unshown_def)
    ultimately show ?thesis using run None IH a pend by (auto simp: srcs_ok_def src)
  next
    case (Some je)
    obtain j e where je: "je = (j, e)" by (cases je)
    from bst have f: "entry_name dict e = Some (nm dict e)"
      "best1 = Some (j, e) \<or> (\<exists>k < length rests'. j = i + 1 + k \<and> (\<exists>es. snd (rests' ! k) = e # es))"
      "\<forall>x \<in> set (all_unshown c dict prefix rests). nm dict e \<le> nm dict x" "\<forall>j' e'. best1 = Some (j', e') \<longrightarrow> nm dict e \<le> nm dict e'"
      by (auto simp: Some je)
    have "best = Some (j, e) \<or> (\<exists>k < length ((b, es') # rests'). j = i + k \<and> (\<exists>es. snd (((b, es') # rests') ! k) = e # es))"
      using f(2)
    proof (elim disjE exE conjE)
      assume "best1 = Some (j, e)"
      then have "best = Some (j, e) \<or> j = i \<and> (\<exists>t. es' = e # t)"
        by (auto simp: best1_def split: list.splits option.splits if_splits)
      then show ?thesis by (metis add.right_neutral length_greater_0_conv list.discI nth_Cons_0 snd_conv)
    next
      fix k es assume "k < length rests'" "j = i + 1 + k" "snd (rests' ! k) = e # es"
      then show ?thesis by (intro disjI2 exI [of _ "Suc k"]) auto
    qed
    moreover have "\<forall>x \<in> set (all_unshown c dict prefix (src # rests)). nm dict e \<le> nm dict x"
      using f(3) low [OF f(4)] by (auto simp: pend)
    ultimately show ?thesis using run IH a f(1) low' [OF f(4)] by (auto simp: Some je srcs_ok_def src)
  qed
qed

text \<open>Taking the head of the chosen source removes exactly that entry from what is unshown.\<close>

lemma take_head:
  assumes "k < length rests" and "snd (rests ! k) = e # es" and "at_shown c dict prefix (rests ! k)"
  shows "mset (all_unshown c dict prefix rests) = add_mset e (mset (all_unshown c dict prefix (rests[k := map_prod id tl (rests ! k)])))"
proof -
  obtain b where r: "rests ! k = (b, e # es)" using assms(2) by (metis prod.collapse)
  have "map (unshown c dict prefix) rests = take k (map (unshown c dict prefix) rests) @
      (e # unshown c dict prefix (b, es)) # drop (Suc k) (map (unshown c dict prefix) rests)"
    using id_take_nth_drop [of k "map (unshown c dict prefix) rests"] assms(1,3) unshown_head [of c dict prefix b e es] r by simp
  moreover have "map (unshown c dict prefix) (rests[k := map_prod id tl (rests ! k)]) = take k (map (unshown c dict prefix) rests) @
      unshown c dict prefix (b, es) # drop (Suc k) (map (unshown c dict prefix) rests)"
    using assms(1) r by (simp add: map_update upd_conv_take_nth_drop take_map drop_map)
  ultimately show ?thesis unfolding all_unshown_def by (metis (no_types, lifting) add_mset_add_single append_Cons concat.simps(2) concat_append mset.simps(2) mset_append union_mset_add_mset_right)
qed

lemma page_loop_spec:
  assumes ok: "cat_ok dict c"
  shows "srcs_ok dict rests \<Longrightarrow> distinct (names dict (all_unshown c dict prefix rests)) \<Longrightarrow>
    (\<forall>e \<in> set (all_unshown c dict prefix rests). ce_count e = v (nm dict e)) \<Longrightarrow>
    page_loop c dict prefix limit rests items = Some (items @ take (Suc limit - length items)
      (map (\<lambda>n. (n, v n)) (sorted_list_of_set (set (names dict (all_unshown c dict prefix rests))))))"
proof (induction "Suc limit - length items" arbitrary: rests items rule: less_induct)
  case less
  show ?case
  proof (cases "length items \<le> limit")
    case False
    then show ?thesis by (subst page_loop.simps) simp
  next
    case True
    from best_spec [OF ok less.prems(1), of None prefix 0] obtain rests' best' where
      b: "best_source c dict prefix 0 rests None = Some (rests', best')" "srcs_ok dict rests'" "\<forall>src \<in> set rests'. at_shown c dict prefix src"
        "map (unshown c dict prefix) rests' = map (unshown c dict prefix) rests"
      and bst: "case best' of None \<Rightarrow> all_unshown c dict prefix rests = []
       | Some (j, e) \<Rightarrow> entry_name dict e = Some (nm dict e) \<and> (\<exists>k < length rests'. j = k \<and> (\<exists>es. snd (rests' ! k) = e # es)) \<and>
           (\<forall>x \<in> set (all_unshown c dict prefix rests). nm dict e \<le> nm dict x)"
      by (auto split: option.splits)
    have same: "all_unshown c dict prefix rests' = all_unshown c dict prefix rests" using b(4) by (simp add: all_unshown_def)
    show ?thesis
    proof (cases best')
      case None
      then show ?thesis using b(1) bst by (subst page_loop.simps) simp
    next
      case (Some je)
      obtain j e where je: "je = (j, e)" by (cases je)
      from bst obtain es where f: "entry_name dict e = Some (nm dict e)" "j < length rests'" "snd (rests' ! j) = e # es"
        "\<forall>x \<in> set (all_unshown c dict prefix rests). nm dict e \<le> nm dict x" by (auto simp: Some je)
      let ?rests = "rests'[j := map_prod id tl (rests' ! j)]"
      have m: "mset (all_unshown c dict prefix rests) = add_mset e (mset (all_unshown c dict prefix ?rests))"
        using take_head [OF f(2,3), of c dict prefix] b(3) nth_mem [OF f(2)] same by simp
      have ok': "srcs_ok dict ?rests"
      proof -
        have "run_ok dict (e # es)" using b(2) f(2,3) unfolding srcs_ok_def by (metis nth_mem)
        then have "run_ok dict es" by (simp add: run_ok_def)
        then show ?thesis using b(2) f(2,3) unfolding srcs_ok_def
          by (metis (no_types, lifting) in_set_conv_nth length_list_update list.sel(3) nth_list_update nth_mem snd_map_prod)
      qed
      have nm: "mset (names dict (all_unshown c dict prefix rests)) = add_mset (nm dict e) (mset (names dict (all_unshown c dict prefix ?rests)))"
        using m by (simp add: names_def)
      then have d': "distinct (nm dict e # names dict (all_unshown c dict prefix ?rests))"
        using less.prems(2) mset_eq_imp_distinct_iff [of "names dict (all_unshown c dict prefix rests)" "nm dict e # names dict (all_unshown c dict prefix ?rests)"] by simp
      have set: "set (all_unshown c dict prefix rests) = insert e (set (all_unshown c dict prefix ?rests))"
        using mset_eq_setD [of "all_unshown c dict prefix rests" "e # all_unshown c dict prefix ?rests"] m by simp
      let ?N = "set (names dict (all_unshown c dict prefix ?rests))"
      have N: "set (names dict (all_unshown c dict prefix rests)) = insert (nm dict e) ?N" using set by simp
      have ins: "sorted_list_of_set (insert (nm dict e) ?N) = nm dict e # sorted_list_of_set ?N"
      proof -
        have min: "Min (insert (nm dict e) ?N) = nm dict e"
          by (rule Min_eqI) (use f(4) set in auto)
        have "insert (nm dict e) ?N - {nm dict e} = ?N" using d' by auto
        then show ?thesis using sorted_list_of_set_nonempty [of "insert (nm dict e) ?N"] min by simp
      qed
      have e: "ce_count e = v (nm dict e)" using less.prems(3) set by simp
      have "page_loop c dict prefix limit rests items = page_loop c dict prefix limit ?rests (items @ [(nm dict e, ce_count e)])"
        using True b(1) f(1) by (subst page_loop.simps) (simp add: Some je)
      also have "\<dots> = Some ((items @ [(nm dict e, ce_count e)]) @ take (Suc limit - length (items @ [(nm dict e, ce_count e)]))
          (map (\<lambda>n. (n, v n)) (sorted_list_of_set ?N)))"
        by (rule less.hyps) (use True ok' d' less.prems(3) set in auto)
      finally show ?thesis unfolding N ins using True e by (simp add: Suc_diff_le)
    qed
  qed
qed

end
