(* ===== verification/Tag_Listing.thy ===== *)
theory Tag_Listing
  imports Tag_Pages
begin

text \<open>
  Where a listing starts: the first entry of each sorted source at or after the floor. What is
  unshown from there is exactly the set of active names with the prefix that lie after the cursor,
  each from one source.
\<close>

definition wanted :: "(bytes \<Rightarrow> u32) \<Rightarrow> bytes \<Rightarrow> bytes option \<Rightarrow> bytes set" where
  "wanted v prefix after = {n \<in> active v. starts_with prefix n \<and> (case after of None \<Rightarrow> True | Some floor \<Rightarrow> floor < n)}"

lemma first_after_spec:
  assumes ok: "run_ok dict es" and after: "\<forall>floor. after = Some floor \<longrightarrow> starts_with prefix floor"
  obtains at where "first_after es dict after prefix = Some at" "run_ok dict (drop at es)"
    "\<And>b c. set (unshown c dict prefix (b, drop at es)) = {e \<in> set es. shown c dict b e \<and> starts_with prefix (nm dict e) \<and>
      (case after of None \<Rightarrow> True | Some floor \<Rightarrow> floor < nm dict e)}"
proof -
  have re: "resolves dict es" and so: "sorted_wrt (<) (names dict es)" using ok by (simp_all add: run_ok_def)
  have lt: "i < j \<Longrightarrow> j < length es \<Longrightarrow> nm dict (es ! i) < nm dict (es ! j)" for i j
    using so by (simp add: names_def sorted_wrt_iff_nth_less)
  define below where "below = (\<lambda>n. case after of Some floor \<Rightarrow> n \<le> floor | None \<Rightarrow> n < prefix)"
  have f: "i < length es \<Longrightarrow> map_option below (entry_name dict (es ! i)) = Some (below (nm dict (es ! i)))" for i
    using resolvesD [OF re, of "es ! i"] by simp
  have mono: "i \<le> j \<Longrightarrow> j < length es \<Longrightarrow> below (nm dict (es ! j)) \<Longrightarrow> below (nm dict (es ! i))" for i j
    using lt [of i j] by (cases "i = j") (auto simp: below_def split: option.splits)
  obtain at where at: "partition_point (\<lambda>i. map_option below (entry_name dict (es ! i))) (length es) = Some at" "at \<le> length es"
    "\<And>j. j < at \<Longrightarrow> below (nm dict (es ! j))" "\<And>j. at \<le> j \<Longrightarrow> j < length es \<Longrightarrow> \<not> below (nm dict (es ! j))"
    by (rule partition_point_spec [of "length es" "\<lambda>i. map_option below (entry_name dict (es ! i))" "\<lambda>i. below (nm dict (es ! i))"])
      (use f mono in auto)
  have tk: "\<forall>e \<in> set (take at es). below (nm dict e)" using at(3) by (auto simp: in_set_conv_nth)
  have dr: "\<forall>e \<in> set (drop at es). \<not> below (nm dict e)" using at(4) by (auto simp: in_set_conv_nth)
  have app: "es = take at es @ drop at es" by simp
  have rd: "run_ok dict (drop at es)"
    using ok unfolding run_ok_def by (metis app names_simps(3) resolves_simps(3) sorted_wrt_append)
  have low: "prefix \<le> n" if "\<not> below n" for n
    using that after starts_with_le [of prefix] by (auto simp: below_def not_less not_le split: option.splits intro: order_trans less_imp_le)
  have pre: "takeWhile (\<lambda>e. starts_with prefix (nm dict e)) (drop at es) = filter (\<lambda>e. starts_with prefix (nm dict e)) (drop at es)"
  proof -
    have "sorted_wrt (\<lambda>x y. nm dict x < nm dict y) (drop at es)" using rd by (simp add: run_ok_def names_def sorted_wrt_map)
    moreover have "\<forall>e \<in> set (drop at es). prefix \<le> nm dict e" using dr low by blast
    ultimately show ?thesis
    proof (induction "drop at es" arbitrary: at es)
      case (Cons x xs)
      have tl: "xs = drop 1 (x # xs)" by simp
      have IH: "takeWhile (\<lambda>e. starts_with prefix (nm dict e)) xs = filter (\<lambda>e. starts_with prefix (nm dict e)) xs"
        using Cons.hyps(1) [OF tl] Cons.prems Cons.hyps(2) [symmetric] by simp
      show ?case
      proof (cases "starts_with prefix (nm dict x)")
        case True
        then show ?thesis using IH Cons.hyps(2) [symmetric] by simp
      next
        case False
        have "\<not> starts_with prefix (nm dict y)" if "y \<in> set xs" for y
          using False starts_with_between [of prefix "nm dict x" "nm dict y"] Cons.prems that Cons.hyps(2) [symmetric] by (auto intro: less_imp_le)
        then show ?thesis using False Cons.hyps(2) [symmetric] by (simp add: filter_empty_conv)
      qed
    qed simp
  qed
  have "first_after es dict after prefix = Some at"
    using at(1) by (simp add: first_after_def below_def)
  moreover have "set (unshown c dict prefix (b, drop at es)) = {e \<in> set es. shown c dict b e \<and> starts_with prefix (nm dict e) \<and>
      (case after of None \<Rightarrow> True | Some floor \<Rightarrow> floor < nm dict e)}" (is "?L = ?R") for b c
  proof -
    have eq: "\<not> below n \<longleftrightarrow> (case after of None \<Rightarrow> True | Some floor \<Rightarrow> floor < n)" if "starts_with prefix n" for n
      using starts_with_le [OF that] by (auto simp: below_def not_le split: option.splits)
    have "?L = {e \<in> set (drop at es). starts_with prefix (nm dict e) \<and> shown c dict b e}" unfolding unshown_def fst_conv snd_conv pre by auto
    also have "\<dots> = {e \<in> set es. starts_with prefix (nm dict e) \<and> shown c dict b e \<and> \<not> below (nm dict e)}"
      using tk dr by (subst (2) app) (unfold set_append, blast)
    also have "\<dots> = ?R" using eq by auto
    finally show ?thesis .
  qed
  ultimately show ?thesis using that rd by blast
qed

definition rests_of :: "interner \<Rightarrow> bytes option \<Rightarrow> bytes \<Rightarrow> tag_catalog \<Rightarrow> (bool \<times> cat_entry list) list \<Rightarrow> (bool \<times> cat_entry list) list \<Rightarrow> bool" where
  "rests_of dict after prefix c srcs rests \<longleftrightarrow> list_all2 (\<lambda>s r. fst r = fst s \<and> run_ok dict (snd r) \<and>
     set (unshown c dict prefix r) = {e \<in> set (snd s). shown c dict (fst s) e \<and> starts_with prefix (nm dict e) \<and>
      (case after of None \<Rightarrow> True | Some floor \<Rightarrow> floor < nm dict e)}) srcs rests"

lemma start_spec:
  assumes after: "\<forall>floor. after = Some floor \<longrightarrow> starts_with prefix floor"
  shows "srcs_ok dict srcs \<Longrightarrow> \<exists>rests. start_positions dict after prefix srcs = Some rests \<and> rests_of dict after prefix c srcs rests"
proof (induction srcs)
  case Nil
  then show ?case by (simp add: rests_of_def)
next
  case (Cons src srcs)
  obtain b es where src: "src = (b, es)" by (cases src)
  have ok: "run_ok dict es" "srcs_ok dict srcs" using Cons.prems by (auto simp: srcs_ok_def src)
  obtain at where at: "first_after es dict after prefix = Some at" "run_ok dict (drop at es)"
    "\<And>b c. set (unshown c dict prefix (b, drop at es)) = {e \<in> set es. shown c dict b e \<and> starts_with prefix (nm dict e) \<and>
      (case after of None \<Rightarrow> True | Some floor \<Rightarrow> floor < nm dict e)}"
    by (rule first_after_spec [OF ok(1) after]) (rule that; assumption)
  obtain rests where r: "start_positions dict after prefix srcs = Some rests" "rests_of dict after prefix c srcs rests"
    using Cons.IH [OF ok(2)] by blast
  show ?case using at(1,2) at(3) [of c b] r by (auto simp: src rests_of_def)
qed

lemma sources_ok: "cat_ok dict c \<Longrightarrow> srcs_ok dict (sources c)"
  by (auto simp: cat_ok_def srcs_ok_def sources_def runs_ok_def live_runs_def)

lemma one_source:
  "(\<exists>e \<in> {e \<in> B. f e \<notin> X \<and> Q (f e)} \<union> {e \<in> A. k e \<noteq> 0 \<and> Q (f e)}. f e = n) \<longleftrightarrow>
    ((\<exists>e \<in> A. f e = n \<and> k e \<noteq> 0) \<or> n \<notin> X \<and> (\<exists>e \<in> B. f e = n)) \<and> Q n"
  by auto

text \<open>Each active name is shown by exactly one source, with its count.\<close>

lemma start_unshown:
  assumes ok: "cat_ok dict c" and r: "rests_of dict after prefix c (sources c) rests"
  shows "srcs_ok dict rests" and "distinct (names dict (all_unshown c dict prefix rests))"
    and "\<forall>e \<in> set (all_unshown c dict prefix rests). ce_count e = cat_view dict c (nm dict e)"
    and "set (names dict (all_unshown c dict prefix rests)) = wanted (cat_view dict c) prefix after"
proof -
  let ?in = "\<lambda>e. starts_with prefix (nm dict e) \<and> (case after of None \<Rightarrow> True | Some floor \<Rightarrow> floor < nm dict e)"
  let ?live = "live_runs (tc_runs c)"
  obtain rb ro where rests: "rests = rb # ro" and rb: "fst rb" "run_ok dict (snd rb)"
    "set (unshown c dict prefix rb) = {e \<in> set (tc_base c). shown c dict True e \<and> ?in e}"
    and ro: "list_all2 (\<lambda>s r. fst r = fst s \<and> run_ok dict (snd r) \<and> set (unshown c dict prefix r) = {e \<in> set (snd s). shown c dict (fst s) e \<and> ?in e})
      (map (Pair False) (tc_buffer c # ?live)) ro"
    using r unfolding rests_of_def sources_def list_all2_Cons1 live_runs_def by auto
  have bok: "run_ok dict (tc_base c)" "\<forall>e \<in> set (tc_base c). ce_count e \<noteq> 0" and oks: "runs_ok dict (tc_buffer c # ?live)"
    using ok by (auto simp: cat_ok_def)
  show so: "srcs_ok dict rests"
  proof -
    have "run_ok dict (snd x)" if "x \<in> set ro" for x
      using ro that by (induction rule: list_all2_induct) auto
    then show ?thesis using rb(2) by (simp add: rests srcs_ok_def)
  qed
  have over: "list_all2 (\<lambda>s r. fst r = fst s \<and> run_ok dict (snd r) \<and> set (unshown c dict prefix r) = {e \<in> set (snd s). shown c dict (fst s) e \<and> ?in e})
      (map (Pair False) runs) rs \<Longrightarrow> runs_ok dict runs \<Longrightarrow>
    distinct (names dict (all_unshown c dict prefix rs)) \<and> set (all_unshown c dict prefix rs) = {e \<in> set (concat runs). ce_count e \<noteq> 0 \<and> ?in e}" for runs rs
  proof (induction runs arbitrary: rs)
    case (Cons run runs)
    then obtain x xs where x: "rs = x # xs" "\<not> fst x" "run_ok dict (snd x)" "set (unshown c dict prefix x) = {e \<in> set run. ce_count e \<noteq> 0 \<and> ?in e}"
      and IH: "distinct (names dict (all_unshown c dict prefix xs))" "set (all_unshown c dict prefix xs) = {e \<in> set (concat runs). ce_count e \<noteq> 0 \<and> ?in e}"
      by (auto simp: list_all2_Cons1 shown_def)
    have "distinct (names dict (unshown c dict prefix x))"
      using unshown_sorted [OF x(3), of c prefix "fst x"] by (simp add: strict_sorted_iff)
    moreover have "set (names dict run) \<inter> set (names dict (concat runs)) = {}" using Cons.prems(2) by (simp del: names_simps)
    then have "set (names dict (unshown c dict prefix x)) \<inter> set (names dict (all_unshown c dict prefix xs)) = {}"
      unfolding names_def set_map x(4) IH(2) by blast
    ultimately show ?case using x(4) IH by (auto simp: x(1) all_unshown_def names_def)
  qed (simp add: all_unshown_def)
  from over [OF ro oks] have d: "distinct (names dict (all_unshown c dict prefix ro))"
    and s: "set (all_unshown c dict prefix ro) = {e \<in> set (overlay c). ce_count e \<noteq> 0 \<and> ?in e}"
    unfolding overlay_def by blast+
  have ap: "all_unshown c dict prefix rests = unshown c dict prefix rb @ all_unshown c dict prefix ro" by (simp add: rests all_unshown_def)
  have d1: "distinct (names dict (unshown c dict prefix rb))"
    using unshown_sorted [OF rb(2), of c prefix "fst rb"] by (simp add: strict_sorted_iff)
  have "set (names dict (unshown c dict prefix rb)) \<inter> set (names dict (all_unshown c dict prefix ro)) = {}"
    using rb(3) s by (auto simp: names_def shown_def)
  then show "distinct (names dict (all_unshown c dict prefix rests))" using d d1 by (simp add: ap)
  have dover: "distinct (names dict (overlay c))" using oks by (simp add: overlay_def runs_ok_def)
  note og = run_get_iff [OF dover] and bg = run_get_iff [OF run_distinct [OF bok(1)]]
  show "\<forall>e \<in> set (all_unshown c dict prefix rests). ce_count e = cat_view dict c (nm dict e)"
  proof
    fix e assume "e \<in> set (all_unshown c dict prefix rests)"
    then consider "e \<in> set (tc_base c)" "nm dict e \<notin> set (names dict (overlay c))" | "e \<in> set (overlay c)"
      using rb(3) s by (auto simp: ap shown_def)
    then show "ce_count e = cat_view dict c (nm dict e)"
    proof cases
      case 1
      then have "run_get dict (overlay c) (nm dict e) = None" "run_get dict (tc_base c) (nm dict e) = Some e"
        using run_get_None [of dict "overlay c"] bg by blast+
      then show ?thesis by (simp add: cat_view_def)
    next
      case 2
      then have "run_get dict (overlay c) (nm dict e) = Some e" using og by blast
      then show ?thesis by (simp add: cat_view_def)
    qed
  qed
  show "set (names dict (all_unshown c dict prefix rests)) = wanted (cat_view dict c) prefix after" (is "?N = ?W")
  proof (rule set_eqI)
    fix n
    have iff: "n \<in> active (cat_view dict c) \<longleftrightarrow> (\<exists>e \<in> set (overlay c). nm dict e = n \<and> ce_count e \<noteq> 0) \<or>
        (n \<notin> set (names dict (overlay c)) \<and> (\<exists>e \<in> set (tc_base c). nm dict e = n))"
    proof (cases "run_get dict (overlay c) n")
      case None
      then have no: "n \<notin> set (names dict (overlay c))" using run_get_None by blast
      show ?thesis
      proof (cases "run_get dict (tc_base c) n")
        case (Some e)
        then show ?thesis using None no bg [of n e] bok(2) by (auto simp: active_def cat_view_def)
      next
        case n2: None
        then show ?thesis using None no run_get_None [of dict "tc_base c" n] by (auto simp: active_def cat_view_def names_def)
      qed
    next
      case (Some e)
      then have e: "e \<in> set (overlay c)" "nm dict e = n" using og by blast+
      have eq: "e' = e" if m: "e' \<in> set (overlay c)" and n: "nm dict e' = n" for e' using og [of n e'] m n Some by simp
      have "n \<in> set (names dict (overlay c))" using run_get_None [of dict "overlay c" n] Some by simp
      moreover have "n \<in> active (cat_view dict c) \<longleftrightarrow> ce_count e \<noteq> 0" by (simp add: active_def cat_view_def Some)
      ultimately show ?thesis using e eq by blast
    qed
    have N: "n \<in> ?N \<longleftrightarrow> (\<exists>e \<in> set (all_unshown c dict prefix rests). nm dict e = n)" by (auto simp: names_def)
    have S: "set (all_unshown c dict prefix rests) = {e \<in> set (tc_base c). nm dict e \<notin> set (names dict (overlay c)) \<and> ?in e} \<union>
        {e \<in> set (overlay c). ce_count e \<noteq> 0 \<and> ?in e}"
      using rb(3) s bok(2) by (auto simp: ap shown_def)
    show "n \<in> ?N \<longleftrightarrow> n \<in> ?W"
      unfolding N S wanted_def mem_Collect_eq iff
      by (rule one_source [where Q = "\<lambda>n. starts_with prefix n \<and> (case after of None \<Rightarrow> True | Some floor \<Rightarrow> floor < n)"])
  qed
qed

end
