(* ===== verification/Tag_Image.thy ===== *)
theory Tag_Image
  imports Tag_View
begin

unbundle bit_operations_syntax

text \<open>
  The catalog's section of the snapshot. A dump merges all sources into one sorted base without
  zero counts; loading it gives back the same counts and, because the fingerprint is a function of
  the counts, the same fingerprint. The same holds of a catalog built from a list of counts.
\<close>

text \<open>A catalog that is only a base.\<close>

definition base_only :: "cat_entry list \<Rightarrow> u64 \<Rightarrow> tag_catalog" where
  "base_only es fp = \<lparr>tc_base = es, tc_runs = [], tc_buffer = [], tc_fingerprint = fp\<rparr>"

definition entry_xor :: "(bytes \<Rightarrow> u64) \<Rightarrow> interner \<Rightarrow> cat_entry list \<Rightarrow> u64 \<Rightarrow> u64" where
  "entry_xor h dict es fp = fold (\<lambda>e fp. fp XOR entry_hash h (nm dict e) (ce_count e)) es fp"

lemma base_view: "cat_view dict (base_only es fp) n = (case run_get dict es n of Some e \<Rightarrow> ce_count e | None \<Rightarrow> 0)"
  by (simp add: cat_view_def base_only_def overlay_def)

lemma entry_xor_sum:
  assumes d: "distinct (names dict es)" and v: "\<forall>e \<in> set es. v (nm dict e) = ce_count e"
  shows "entry_xor h dict es fp = fp XOR xor_over.F (\<lambda>n. entry_hash h n (v n)) (set (names dict es))"
  using assms
proof (induction es arbitrary: fp)
  case (Cons e es)
  then have "entry_xor h dict es (fp XOR entry_hash h (nm dict e) (ce_count e)) =
      (fp XOR entry_hash h (nm dict e) (ce_count e)) XOR xor_over.F (\<lambda>n. entry_hash h n (v n)) (set (names dict es))" by simp
  moreover have "nm dict e \<notin> set (names dict es)" using Cons.prems(1) by (simp del: names_simps(5))
  ultimately show ?case using Cons.prems(2) by (simp add: entry_xor_def xor_over.insert xor.assoc del: names_simps(5))
qed (simp add: entry_xor_def)

lemma base_only_inv:
  assumes ok: "run_ok dict es" and nz: "\<forall>e \<in> set es. ce_count e \<noteq> 0"
  shows "cat_inv h dict (base_only es (entry_xor h dict es 0))"
proof -
  let ?c = "base_only es (entry_xor h dict es 0)"
  note g = run_get_iff [OF run_distinct [OF ok]]
  have v: "\<forall>e \<in> set es. cat_view dict ?c (nm dict e) = ce_count e"
  proof
    fix e assume "e \<in> set es"
    then have "run_get dict es (nm dict e) = Some e" using g by blast
    then show "cat_view dict ?c (nm dict e) = ce_count e" by (simp add: base_view)
  qed
  have a: "active (cat_view dict ?c) = set (names dict es)"
  proof (rule set_eqI)
    fix n
    show "n \<in> active (cat_view dict ?c) \<longleftrightarrow> n \<in> set (names dict es)"
      using run_get_None [of dict es n] run_get_nm [of dict es n] nz
      by (cases "run_get dict es n") (auto simp: active_def base_view simp del: names_simps(5))
  qed
  have "fingerprint_of h (cat_view dict ?c) = entry_xor h dict es 0"
    unfolding fingerprint_of_def a by (rule trans [OF xor.left_neutral [symmetric] entry_xor_sum [OF run_distinct [OF ok] v, symmetric]])
  then show ?thesis using ok nz by (simp add: cat_inv_def cat_ok_def base_only_def RUN_BASE_def run_ok_def)
qed

section \<open>Sorting\<close>

lemma sort_by_name_spec:
  assumes re: "resolves dict es" and d: "distinct (names dict es)"
  obtains s where "sort_by_name dict es = Some s" "run_ok dict s" "mset s = mset es"
proof
  let ?s = "sort_key (\<lambda>e. the (entry_name dict e)) es"
  have k: "(\<lambda>e. the (entry_name dict e)) = nm dict" by (simp add: nm_def fun_eq_iff)
  show "sort_by_name dict es = Some ?s" using re by (auto simp: sort_by_name_def resolves_def)
  show m: "mset ?s = mset es" by simp
  have "sorted (names dict ?s)" unfolding names_def k [symmetric] by simp
  moreover have "distinct (names dict ?s)" using run_get_perm(2) [OF d m [symmetric]] .
  ultimately show "run_ok dict ?s" using re by (auto simp: run_ok_def strict_sorted_iff resolves_def)
qed

lemma fold_hash_spec: "resolves dict es \<Longrightarrow> fold_hash h dict es fp = Some (entry_xor h dict es fp)"
  by (induction es arbitrary: fp) (auto simp: entry_xor_def)

section \<open>Loading\<close>

definition cat_bytes :: "cat_entry \<Rightarrow> bytes" where
  "cat_bytes e = u32_le (ce_term e) @ u32_le (ce_count e)"

lemma cat_bytes_fields [simp]: "u32_of_le (slice (cat_bytes e) 0 4) = ce_term e" "u32_of_le (slice (cat_bytes e) 4 8) = ce_count e"
  by (simp_all add: cat_bytes_def slice_def)

lemma load_entries_spec:
  "run_ok dict es \<Longrightarrow> \<forall>e \<in> set es. ce_count e \<noteq> 0 \<and> unat (ce_term e) < interner_count dict \<Longrightarrow>
     (\<forall>old. prev = Some old \<longrightarrow> (\<forall>e \<in> set es. old < nm dict e)) \<Longrightarrow>
     load_entries h dict (map cat_bytes es) prev fp base = Some (Inr (base @ es, entry_xor h dict es fp))"
proof (induction es arbitrary: prev fp base)
  case Nil
  then show ?case by (simp add: entry_xor_def)
next
  case (Cons e es)
  have e: "entry_name dict e = Some (nm dict e)" and ok: "run_ok dict es" and lt: "\<forall>x \<in> set es. nm dict e < nm dict x"
    using Cons.prems(1) by (auto simp: run_ok_def)
  have c: "ce_count e \<noteq> 0" "unat (ce_term e) < interner_count dict" and cs: "\<forall>e \<in> set es. ce_count e \<noteq> 0 \<and> unat (ce_term e) < interner_count dict"
    using Cons.prems(2) by auto
  have p: "\<not> (case prev of None \<Rightarrow> False | Some old \<Rightarrow> nm dict e \<le> old)"
    using Cons.prems(3) by (auto split: option.splits simp: not_le)
  have "load_entries h dict (map cat_bytes es) (Some (nm dict e)) (fp XOR entry_hash h (nm dict e) (ce_count e)) (base @ [e]) =
      Some (Inr ((base @ [e]) @ es, entry_xor h dict es (fp XOR entry_hash h (nm dict e) (ce_count e))))"
    using Cons.IH [OF ok cs] lt by simp
  moreover obtain t k where t: "e = \<lparr>ce_term = t, ce_count = k\<rparr>" by (cases e)
  ultimately show ?case using e c p unfolding t by (simp add: Let_def entry_xor_def)
qed

lemma chunks_entries: "chunks_exact CATALOG_ENTRY_BYTES (concat (map cat_bytes es)) = map cat_bytes es" "length (concat (map cat_bytes es)) = 8 * length es"
proof -
  have len: "length (cat_bytes e) = 8" for e by (simp add: cat_bytes_def)
  show l: "length (concat (map cat_bytes es)) = 8 * length es" by (induction es) (simp_all add: len)
  have sl: "i < length es \<Longrightarrow> slice (concat (map cat_bytes es)) (i * 8) (i * 8 + 8) = cat_bytes (es ! i)" for i
  proof (induction es arbitrary: i)
    case (Cons e es)
    then show ?case using len [of e] by (cases i) (auto simp: slice_def add.commute)
  qed simp
  show "chunks_exact CATALOG_ENTRY_BYTES (concat (map cat_bytes es)) = map cat_bytes es"
    unfolding chunks_exact_def CATALOG_ENTRY_BYTES_def l by (rule nth_equalityI) (simp_all add: sl)
qed

lemma load_spec:
  assumes "run_ok dict es" and "\<forall>e \<in> set es. ce_count e \<noteq> 0 \<and> unat (ce_term e) < interner_count dict"
  shows "catalog_load h (concat (map cat_bytes es)) dict = Some (Inr (base_only es (entry_xor h dict es 0)))"
proof -
  have "length (concat (map cat_bytes es)) mod CATALOG_ENTRY_BYTES = 0"
    by (simp add: chunks_entries(2) CATALOG_ENTRY_BYTES_def)
  then show ?thesis using load_entries_spec [OF assms, of None h 0 "[]"]
    by (simp add: catalog_load_def chunks_entries(1) base_only_def)
qed

section \<open>Dump\<close>

lemma visible_base_spec:
  "cat_ok dict c \<Longrightarrow> resolves dict es \<Longrightarrow> visible_base c dict es = Some (filter (\<lambda>e. nm dict e \<notin> set (names dict (overlay c))) es)"
proof (induction es)
  case (Cons e es)
  then show ?case using is_overridden_spec [OF Cons.prems(1), of "ce_term e" "nm dict e"] by simp
qed simp

definition merged :: "interner \<Rightarrow> tag_catalog \<Rightarrow> cat_entry list" where
  "merged dict c = filter (\<lambda>e. nm dict e \<notin> set (names dict (overlay c))) (tc_base c) @ filter (\<lambda>e. ce_count e \<noteq> 0) (overlay c)"

lemma merged_facts:
  assumes ok: "cat_ok dict c"
  shows "resolves dict (merged dict c)" and "distinct (names dict (merged dict c))" and "\<forall>e \<in> set (merged dict c). ce_count e \<noteq> 0"
    and "(case run_get dict (merged dict c) n of Some e \<Rightarrow> ce_count e | None \<Rightarrow> 0) = cat_view dict c n"
proof -
  have b: "run_ok dict (tc_base c)" "\<forall>e \<in> set (tc_base c). ce_count e \<noteq> 0" and o: "distinct (names dict (overlay c))" "resolves dict (overlay c)"
    using ok by (auto simp: cat_ok_def runs_ok_def run_ok_def overlay_def resolves_def)
  have rb: "resolves dict (tc_base c)" using b(1) by (simp add: run_ok_def)
  show "resolves dict (merged dict c)" using rb o(2) by (auto simp: merged_def resolves_def)
  show nz: "\<forall>e \<in> set (merged dict c). ce_count e \<noteq> 0" using b(2) by (auto simp: merged_def)
  have df: "distinct (names dict (filter P es))" if "distinct (names dict es)" for P es
    using that by (simp add: names_def distinct_map_filter)
  have "distinct (names dict (filter (\<lambda>e. nm dict e \<notin> set (names dict (overlay c))) (tc_base c)))"
      "distinct (names dict (filter (\<lambda>e. ce_count e \<noteq> 0) (overlay c)))"
    using df run_distinct [OF b(1)] o(1) by blast+
  then show d: "distinct (names dict (merged dict c))" by (auto simp: merged_def)
  have m: "run_get dict (merged dict c) n = Some e \<longleftrightarrow>
      (e \<in> set (tc_base c) \<and> n \<notin> set (names dict (overlay c)) \<or> e \<in> set (overlay c) \<and> ce_count e \<noteq> 0) \<and> nm dict e = n" for e
    using run_get_iff [OF d, of n e] by (auto simp: merged_def)
  note og = run_get_iff [OF o(1), of n] and bg = run_get_iff [OF run_distinct [OF b(1)], of n]
  show "(case run_get dict (merged dict c) n of Some e \<Rightarrow> ce_count e | None \<Rightarrow> 0) = cat_view dict c n"
  proof (cases "run_get dict (overlay c) n")
    case None
    then have no: "n \<notin> set (names dict (overlay c))" using run_get_None by blast
    have "run_get dict (merged dict c) n = Some e \<longleftrightarrow> run_get dict (tc_base c) n = Some e" for e
      unfolding m bg using no og None by auto
    then have "run_get dict (merged dict c) n = run_get dict (tc_base c) n" by (metis not_Some_eq)
    then show ?thesis using None by (simp add: cat_view_def)
  next
    case (Some e)
    then have e: "e \<in> set (overlay c)" "nm dict e = n" using og by blast+
    have inn: "n \<in> set (names dict (overlay c))" using Some run_get_None [of dict "overlay c" n] by simp
    have u: "x \<in> set (overlay c) \<Longrightarrow> nm dict x = n \<Longrightarrow> x = e" for x using og [of x] Some by simp
    show ?thesis
    proof (cases "ce_count e = 0")
      case True
      have "run_get dict (merged dict c) n = None"
      proof (rule ccontr)
        assume "run_get dict (merged dict c) n \<noteq> None"
        then obtain x where "run_get dict (merged dict c) n = Some x" by blast
        then show False using m [of x] inn u True by blast
      qed
      then show ?thesis using Some True by (simp add: cat_view_def)
    next
      case False
      then have "run_get dict (merged dict c) n = Some e" using m [of e] e by blast
      then show ?thesis using Some by (simp add: cat_view_def)
    qed
  qed
qed

lemma dump_spec:
  assumes ok: "cat_ok dict c"
  obtains s where "catalog_dump c dict = Some (concat (map cat_bytes s))" "run_ok dict s" "mset s = mset (merged dict c)"
proof -
  have rb: "resolves dict (tc_base c)" using ok by (simp add: cat_ok_def run_ok_def)
  obtain s where s: "sort_by_name dict (merged dict c) = Some s" "run_ok dict s" "mset s = mset (merged dict c)"
    by (rule sort_by_name_spec [OF merged_facts(1,2) [OF ok]])
  have "filter (\<lambda>e. ce_count e \<noteq> 0) (tc_buffer c) @ concat (map (filter (\<lambda>e. ce_count e \<noteq> 0)) (List.map_filter id (tc_runs c))) =
      filter (\<lambda>e. ce_count e \<noteq> 0) (overlay c)"
    by (simp add: overlay_def live_runs_def filter_concat)
  then have "catalog_dump c dict = Some (concat (map cat_bytes s))"
    unfolding catalog_dump_def visible_base_spec [OF ok rb] Let_def Option.bind_lunit
    by (simp add: merged_def [symmetric] s(1) cat_bytes_def [abs_def] del: names_simps(5))
  then show ?thesis using that s by blast
qed

lemma dump_load:
  assumes inv: "cat_inv h dict c" and ids: "\<forall>tid. interner_resolve dict tid \<noteq> None \<longrightarrow> unat tid < interner_count dict"
  shows "\<exists>bs c'. catalog_dump c dict = Some bs \<and> catalog_load h bs dict = Some (Inr c') \<and> cat_inv h dict c' \<and>
    cat_view dict c' = cat_view dict c \<and> tc_fingerprint c' = tc_fingerprint c"
proof -
  have ok: "cat_ok dict c" using inv by (simp add: cat_inv_def)
  obtain s where s: "catalog_dump c dict = Some (concat (map cat_bytes s))" "run_ok dict s" "mset s = mset (merged dict c)"
    by (rule dump_spec [OF ok])
  have nz: "\<forall>e \<in> set s. ce_count e \<noteq> 0" using merged_facts(3) [OF ok] mset_eq_setD [OF s(3)] by simp
  have "\<forall>e \<in> set s. unat (ce_term e) < interner_count dict"
    using s(2) ids resolvesD by (fastforce simp: run_ok_def)
  then have l: "catalog_load h (concat (map cat_bytes s)) dict = Some (Inr (base_only s (entry_xor h dict s 0)))"
    using load_spec [OF s(2)] nz by blast
  have i: "cat_inv h dict (base_only s (entry_xor h dict s 0))" by (rule base_only_inv [OF s(2) nz])
  have v: "cat_view dict (base_only s (entry_xor h dict s 0)) = cat_view dict c"
    using merged_facts(4) [OF ok] run_get_perm(1) [OF merged_facts(2) [OF ok] s(3) [symmetric]]
    by (intro ext) (simp add: base_view)
  have "tc_fingerprint (base_only s (entry_xor h dict s 0)) = tc_fingerprint c" using i inv v by (simp add: cat_inv_def)
  then show ?thesis using s(1) l i v by blast
qed

lemma from_counts_spec:
  assumes re: "\<forall>(tid, k) \<in> set entries. interner_resolve dict tid \<noteq> None"
    and d: "distinct (map (\<lambda>(tid, k). interner_resolve dict tid) entries)"
  shows "\<exists>c. from_counts h entries dict = Some c \<and> cat_inv h dict c \<and>
    (\<forall>(tid, k) \<in> set entries. cat_view dict c (the (interner_resolve dict tid)) = k)"
proof -
  let ?es = "map (\<lambda>(tid, k). \<lparr>ce_term = tid, ce_count = k\<rparr>) (filter (\<lambda>(_, k). k \<noteq> 0) entries)"
  have nm: "nm dict \<lparr>ce_term = tid, ce_count = k\<rparr> = the (interner_resolve dict tid)" for tid k by (simp add: nm_def)
  have r: "resolves dict ?es" using re by (auto simp: resolves_def)
  have the_inj: "inj_on the (set (map (\<lambda>(tid, k). interner_resolve dict tid) entries))"
  proof (rule inj_onI)
    fix x y assume "x \<in> set (map (\<lambda>(tid, k). interner_resolve dict tid) entries)" "y \<in> set (map (\<lambda>(tid, k). interner_resolve dict tid) entries)" and e: "the x = the y"
    then have "x \<noteq> None" "y \<noteq> None" using re by auto
    then show "x = y" using e by (cases x; cases y) auto
  qed
  have "distinct (map the (map (\<lambda>(tid, k). interner_resolve dict tid) entries))"
    using d the_inj by (subst distinct_map) simp
  then have d': "distinct (map (\<lambda>(tid, k). the (interner_resolve dict tid)) entries)" by (simp add: comp_def case_prod_unfold)
  have ns: "names dict ?es = map (\<lambda>(tid, k). the (interner_resolve dict tid)) (filter (\<lambda>(_, k). k \<noteq> 0) entries)"
    by (auto simp: names_def nm)
  have "distinct (names dict ?es)" unfolding ns by (rule distinct_map_filter [OF d'])
  then obtain s where s: "sort_by_name dict ?es = Some s" "run_ok dict s" "mset s = mset ?es" by (rule sort_by_name_spec [OF r])
  let ?c = "base_only s (entry_xor h dict s 0)"
  have "from_counts h entries dict = Some ?c"
    using s(1,2) fold_hash_spec [of dict s h 0] by (simp add: from_counts_def base_only_def run_ok_def Let_def)
  moreover have set: "set s = set ?es" using mset_eq_setD [OF s(3)] .
  then have "cat_inv h dict ?c" by (intro base_only_inv [OF s(2)]) auto
  moreover have "cat_view dict ?c (the (interner_resolve dict tid)) = k" if m: "(tid, k) \<in> set entries" for tid k
  proof (cases "k = 0")
    case False
    then have "\<lparr>ce_term = tid, ce_count = k\<rparr> \<in> set s" using set m by force
    then have "run_get dict s (the (interner_resolve dict tid)) = Some \<lparr>ce_term = tid, ce_count = k\<rparr>"
      using run_get_iff [OF run_distinct [OF s(2)]] nm by blast
    then show ?thesis by (simp add: base_view)
  next
    case True
    have "run_get dict s (the (interner_resolve dict tid)) = None"
    proof (rule ccontr)
      assume "run_get dict s (the (interner_resolve dict tid)) \<noteq> None"
      then obtain e where "run_get dict s (the (interner_resolve dict tid)) = Some e" by blast
      then have "e \<in> set s" "nm dict e = the (interner_resolve dict tid)" using run_get_nm by blast+
      then obtain tid' k' where e: "(tid', k') \<in> set entries" "k' \<noteq> 0" "the (interner_resolve dict tid') = the (interner_resolve dict tid)"
        unfolding set by (auto simp: nm)
      then have "(tid', k') = (tid, k)" using d' m by (auto simp: distinct_map inj_on_def)
      then show False using e(2) True by simp
    qed
    then show ?thesis using True by (simp add: base_view)
  qed
  ultimately show ?thesis by blast
qed

end
