(* ===== verification/Tag_Cursor.thy ===== *)
theory Tag_Cursor
  imports Tag_Catalog
begin

text \<open>The cursor codec: padded hexadecimal fields between colons are read back exactly.\<close>

lemma nat_16_cases:
  "d < 16 \<Longrightarrow> d = 0 \<or> d = 1 \<or> d = 2 \<or> d = 3 \<or> d = 4 \<or> d = 5 \<or> d = 6 \<or> d = 7 \<or> d = 8 \<or> d = 9 \<or> d = 10 \<or> d = 11 \<or> d = 12 \<or> d = 13 \<or> d = 14 \<or> d = (15 :: nat)"
  by arith

lemma hex_val_digit [simp]: "d < 16 \<Longrightarrow> hex_val (hex_digit d) = Some d"
  by (drule nat_16_cases) (elim disjE; simp add: hex_val_def hex_digit_def)

definition hex_value :: "nat \<Rightarrow> bytes \<Rightarrow> nat" where
  "hex_value acc cs = foldl (\<lambda>a c. a * 16 + the (hex_val c)) acc cs"

lemma hex_value_ge: "acc \<le> hex_value acc cs"
proof (induction cs arbitrary: acc)
  case (Cons c cs)
  have "acc \<le> acc * 16 + the (hex_val c)" by simp
  then show ?case using Cons.IH [of "acc * 16 + the (hex_val c)"] by (simp add: hex_value_def)
qed (simp add: hex_value_def)

lemma parse_hex_value:
  "\<forall>c \<in> set cs. hex_val c \<noteq> None \<Longrightarrow> hex_value acc cs < limit \<Longrightarrow> parse_hex limit acc cs = Some (hex_value acc cs)"
proof (induction cs arbitrary: acc)
  case (Cons c cs)
  then obtain d where d: "hex_val c = Some d" by auto
  have "hex_value acc (c # cs) = hex_value (acc * 16 + d) cs" using d by (simp add: hex_value_def)
  then show ?case using Cons d hex_value_ge [of "acc * 16 + d" cs] by (simp add: le_less_trans)
qed (simp add: hex_value_def)

lemma to_hex_facts: "hex_value acc (to_hex n) = acc * 16 ^ length (to_hex n) + n \<and> (\<forall>c \<in> set (to_hex n). hex_val c \<noteq> None) \<and> to_hex n \<noteq> []"
proof (induction n rule: to_hex.induct)
  case (1 n)
  show ?case
  proof (cases "n < 16")
    case True
    then show ?thesis by (subst (1 2 3 4) to_hex.simps) (simp add: hex_value_def)
  next
    case False
    have e: "to_hex n = to_hex (n div 16) @ [hex_digit (n mod 16)]" using False by (subst to_hex.simps) simp
    have "hex_value acc (to_hex n) = hex_value acc (to_hex (n div 16)) * 16 + n mod 16" unfolding e by (simp add: hex_value_def)
    then show ?thesis using "1.IH" [OF False] by (simp add: e algebra_simps)
  qed
qed

lemma hex_pad_facts:
  "hex_value 0 (hex_pad w n) = n" "\<forall>c \<in> set (hex_pad w n). hex_val c \<noteq> None" "hex_pad w n \<noteq> []"
proof -
  have z: "hex_value 0 (replicate k 48 @ cs) = hex_value 0 cs" for k cs
    by (induction k) (simp_all add: hex_value_def hex_val_def)
  show "hex_value 0 (hex_pad w n) = n" unfolding hex_pad_def z using to_hex_facts [of 0 n] by simp
  have "hex_val 48 \<noteq> None" by (simp add: hex_val_def)
  then show "\<forall>c \<in> set (hex_pad w n). hex_val c \<noteq> None" "hex_pad w n \<noteq> []"
    using to_hex_facts [of 0 n] by (auto simp: hex_pad_def)
qed

lemma from_str_hex_pad: "n < limit \<Longrightarrow> from_str_radix16 limit (hex_pad w n) = Some n"
proof -
  assume "n < limit"
  then have p: "parse_hex limit 0 (hex_pad w n) = Some n"
    using parse_hex_value [OF hex_pad_facts(2), of 0 w n limit] by (simp add: hex_pad_facts(1))
  have "43 \<notin> set (hex_pad w n)" "45 \<notin> set (hex_pad w n)" using hex_pad_facts(2) [of w n] by (auto simp: hex_val_def)
  moreover have "hex_pad w n \<noteq> []" by (rule hex_pad_facts)
  ultimately have "hex_pad w n \<noteq> [43]" "hex_pad w n \<noteq> [45]" "hd (hex_pad w n) \<noteq> 43" using hd_in_set by (fastforce+)
  then show ?thesis using p \<open>hex_pad w n \<noteq> []\<close> by (simp add: from_str_radix16_def)
qed

lemma split_on_field: "sep \<notin> set xs \<Longrightarrow> split_on sep (xs @ sep # ys) = xs # split_on sep ys" "sep \<notin> set xs \<Longrightarrow> split_on sep xs = [xs]"
  by (induction xs) auto

lemma no_colon: "58 \<notin> set (hex_pad w n)" "58 \<notin> set CURSOR_PREFIX"
  using hex_pad_facts(2) [of w n] by (auto simp: hex_val_def CURSOR_PREFIX_def)

lemma cursor_decode_encode: "decode_cursor (encode_cursor c) = Inr c"
proof -
  have "split_on 58 (encode_cursor c) = [CURSOR_PREFIX, hex_pad 16 (unat (cr_fingerprint c)), hex_pad 16 (unat (cr_prefix_hash c)),
      hex_pad 32 (unat (cr_db_uuid c)), hex_pad 8 (unat (cr_term c)), hex_pad 16 (unat (cr_term_hash c))]"
    by (simp add: encode_cursor_def split_on_field no_colon)
  then show ?thesis
    using unsigned_less [where ?'a = nat, of "cr_fingerprint c"] unsigned_less [where ?'a = nat, of "cr_prefix_hash c"]
      unsigned_less [where ?'a = nat, of "cr_db_uuid c"] unsigned_less [where ?'a = nat, of "cr_term c"] unsigned_less [where ?'a = nat, of "cr_term_hash c"]
    by (simp add: decode_cursor_def from_str_hex_pad)
qed

end
