(* ===== verification/Tag_Theorems.thy ===== *)
theory Tag_Theorems
  imports Tag_Listing Tag_Cursor Tag_Image Interner_Theorems
begin

text \<open>
  The closed statements on the catalog: a change is a map update, pages follow the sorted active
  names and a walk along the cursors shows each of them once, and a dump is loaded back as the same
  catalog with the same fingerprint, so that cursors outlive a save.
\<close>

section \<open>One page\<close>

definition page_limit :: "nat \<Rightarrow> nat" where
  "page_limit l = (if l = 0 then DEFAULT_TAG_PAGE_LIMIT else l)"

lemma wanted_resolves:
  assumes "cat_ok dict c" and "n \<in> wanted (cat_view dict c) prefix after"
  shows "\<exists>tid. interner_resolve dict tid = Some n"
proof -
  have "n \<in> set (names dict (overlay c @ tc_base c))"
    using assms(2) view_names [of dict c n] by (simp add: wanted_def active_def del: names_simps(5))
  then obtain e where e: "e \<in> set (overlay c @ tc_base c)" "nm dict e = n" by (auto simp: names_def)
  have "resolves dict (overlay c @ tc_base c)"
    using assms(1) by (auto simp: cat_ok_def run_ok_def runs_ok_def overlay_def resolves_def)
  then show ?thesis using resolvesD [OF _ e(1)] e(2) by blast
qed

lemma lookup_resolved:
  assumes "interner_inv h dict" and "interner_resolve dict tid = Some n"
  shows "interner_lookup h n dict = Some (Some tid)"
proof -
  have "unat tid < length (terms dict)" "terms dict ! unat tid = n"
    using assms dict.name_law [OF assms(1), of tid] by (auto split: if_splits)
  then show ?thesis using dict.found_iff [OF assms(1)] by blast
qed

lemma finite_wanted: "finite (wanted (cat_view dict c) prefix after)"
  by (rule finite_subset [OF _ finite_active [of dict c]]) (auto simp: wanted_def)

lemma list_tags_spec:
  assumes inv: "interner_inv h dict" and ok: "cat_ok dict c" and lim: "page_limit (tq_limit q) \<le> MAX_TAG_PAGE_LIMIT"
    and pre: "prefix = (case tq_prefix q of None \<Rightarrow> [] | Some p \<Rightarrow> p)"
    and res: "resume_after h c dict uuid (h prefix) (tq_cursor q) = Some (Inr after)"
    and after: "\<forall>floor. after = Some floor \<longrightarrow> starts_with prefix floor"
    and ns: "ns = sorted_list_of_set (wanted (cat_view dict c) prefix after)"
  shows "\<exists>next. list_tags h c dict uuid q = Some (Inr \<lparr>tp_items = take (page_limit (tq_limit q)) (map (\<lambda>n. (n, cat_view dict c n)) ns), tp_next_cursor = next\<rparr>) \<and>
    (if length ns \<le> page_limit (tq_limit q) then next = None
     else \<exists>tid. interner_resolve dict tid = Some (ns ! (page_limit (tq_limit q) - 1)) \<and>
       next = Some (encode_cursor \<lparr>cr_fingerprint = tc_fingerprint c, cr_prefix_hash = h prefix, cr_db_uuid = uuid, cr_term = tid,
         cr_term_hash = h (ns ! (page_limit (tq_limit q) - 1))\<rparr>))"
proof -
  let ?L = "page_limit (tq_limit q)" and ?v = "cat_view dict c"
  let ?items = "map (\<lambda>n. (n, ?v n)) ns"
  obtain rests where st: "start_positions dict after prefix (sources c) = Some rests" "rests_of dict after prefix c (sources c) rests"
    using start_spec [OF after sources_ok [OF ok]] by blast
  note sp = start_unshown [OF ok st(2)]
  have page: "page_loop c dict prefix ?L rests [] = Some (take (Suc ?L) ?items)"
    using page_loop_spec [OF ok sp(1-3), of ?L "[]"] sp(4) ns by simp
  have L: "0 < ?L" by (simp add: page_limit_def DEFAULT_TAG_PAGE_LIMIT_def)
  show ?thesis
  proof (cases "length ns \<le> ?L")
    case True
    then show ?thesis
      using lim res st(1) page by (simp add: list_tags_def page_limit_def [symmetric] pre [symmetric] Let_def)
  next
    case False
    let ?n = "ns ! (?L - 1)"
    have "?n \<in> wanted ?v prefix after" using False ns finite_wanted by (metis L diff_less le_less_trans less_imp_diff_less not_le nth_mem set_sorted_list_of_set)
    then obtain tid where tid: "interner_resolve dict tid = Some ?n" using wanted_resolves [OF ok] by blast
    note lk = lookup_resolved [OF inv tid]
    have bl: "butlast (take (Suc ?L) ?items) = take ?L ?items" using False by (simp add: butlast_take)
    have ls: "last (take ?L ?items) = (?n, ?v ?n)"
      using False L by (subst last_conv_nth) (auto simp: min_def)
    have len: "?L < length (take (Suc ?L) ?items)" using False by simp
    let ?next = "Some (encode_cursor \<lparr>cr_fingerprint = tc_fingerprint c, cr_prefix_hash = h prefix, cr_db_uuid = uuid, cr_term = tid, cr_term_hash = h ?n\<rparr>)"
    have "list_tags h c dict uuid q = Some (Inr \<lparr>tp_items = take ?L ?items, tp_next_cursor = ?next\<rparr>)"
      unfolding list_tags_def Let_def page_limit_def [symmetric] pre [symmetric]
      using lim res st(1) page lk len by (simp only: bl ls fst_conv Option.bind_lunit sum.case if_True not_le [symmetric] not_True_eq_False if_False simp_thms)
    then show ?thesis using False tid by (intro exI [of _ ?next]) auto
  qed
qed

section \<open>Following the cursors\<close>

fun walk_pages :: "nat \<Rightarrow> (bytes \<Rightarrow> u64) \<Rightarrow> tag_catalog \<Rightarrow> interner \<Rightarrow> u128 \<Rightarrow> tag_query \<Rightarrow> (core_error + (bytes \<times> u32) list) option" where
  "walk_pages 0 h c dict uuid q = None"
| "walk_pages (Suc fuel) h c dict uuid q = do {
     r \<leftarrow> list_tags h c dict uuid q;
     (case r of
        Inl e \<Rightarrow> Some (Inl e)
      | Inr page \<Rightarrow>
          (case tp_next_cursor page of
             None \<Rightarrow> Some (Inr (tp_items page))
           | Some cursor \<Rightarrow> do {
               rest \<leftarrow> walk_pages fuel h c dict uuid (q\<lparr>tq_cursor := Some cursor\<rparr>);
               Some (map_sum id ((@) (tp_items page)) rest) })) }"

lemma resume_spec:
  assumes inv: "interner_inv h dict" and n: "interner_resolve dict tid = Some n"
  shows "resume_after h c dict uuid ph (Some (encode_cursor \<lparr>cr_fingerprint = tc_fingerprint c, cr_prefix_hash = ph, cr_db_uuid = uuid, cr_term = tid,
    cr_term_hash = h n\<rparr>)) = Some (Inr (Some n))"
proof -
  have "unat tid < length (terms dict)" using n dict.name_law [OF inv, of tid] by (auto split: if_splits)
  then have "unat tid < interner_count dict" using inv by (simp add: interner_inv_def interner_ok_def interner_count_def)
  then show ?thesis using n by (simp add: resume_after_def cursor_decode_encode)
qed

lemma sorted_after:
  assumes fin: "finite W" and L: "0 < L" "L < length (sorted_list_of_set (W :: bytes set))"
  shows "drop L (sorted_list_of_set W) = sorted_list_of_set {n \<in> W. sorted_list_of_set W ! (L - 1) < n}"
proof -
  define s where "s = sorted_list_of_set W"
  have so: "sorted_wrt (<) s" unfolding s_def by simp
  then have lt: "i < j \<Longrightarrow> j < length s \<Longrightarrow> s ! i < s ! j" for i j by (simp add: sorted_wrt_iff_nth_less)
  have ls: "L < length s" using L(2) by (simp add: s_def)
  have "\<forall>x \<in> set (take L s). \<not> s ! (L - 1) < x"
  proof
    fix x assume "x \<in> set (take L s)"
    then obtain i where i: "i < L" "x = s ! i" using ls by (auto simp: in_set_conv_nth)
    then have "i = L - 1 \<or> i < L - 1" by linarith
    moreover have "L - 1 < length s" using ls by simp
    ultimately show "\<not> s ! (L - 1) < x" using lt [of i "L - 1"] i(2) by auto
  qed
  then have a: "filter (\<lambda>n. s ! (L - 1) < n) (take L s) = []" by (simp add: filter_empty_conv)
  have "\<forall>x \<in> set (drop L s). s ! (L - 1) < x"
  proof
    fix x assume "x \<in> set (drop L s)"
    then obtain i where i: "i < length s - L" "x = s ! (L + i)" by (auto simp: in_set_conv_nth)
    then show "s ! (L - 1) < x" using lt [of "L - 1" "L + i"] L(1) by simp
  qed
  then have b: "filter (\<lambda>n. s ! (L - 1) < n) (drop L s) = drop L s" by (simp add: filter_id_conv)
  have "drop L s = filter (\<lambda>n. s ! (L - 1) < n) (take L s @ drop L s)" unfolding filter_append a b by simp
  then have d: "drop L s = filter (\<lambda>n. s ! (L - 1) < n) s" by simp
  have w: "sorted_wrt (<) (drop L s)" using so by (simp add: sorted_wrt_drop)
  have "drop L s = sorted_list_of_set (set (drop L s))"
    using w by (simp add: sorted_list_of_set.idem_if_sorted_distinct strict_sorted_iff)
  also have "set (drop L s) = {n \<in> W. s ! (L - 1) < n}" unfolding d using fin by (auto simp: s_def)
  finally show ?thesis unfolding s_def .
qed

lemma walk_spec:
  assumes inv: "interner_inv h dict" and ok: "cat_ok dict c" and lim: "page_limit (tq_limit q) \<le> MAX_TAG_PAGE_LIMIT"
    and pre: "prefix = (case tq_prefix q of None \<Rightarrow> [] | Some p \<Rightarrow> p)"
  shows "resume_after h c dict uuid (h prefix) cur = Some (Inr after) \<Longrightarrow> \<forall>floor. after = Some floor \<longrightarrow> starts_with prefix floor \<Longrightarrow>
    card (wanted (cat_view dict c) prefix after) < fuel \<Longrightarrow>
    walk_pages fuel h c dict uuid (q\<lparr>tq_cursor := cur\<rparr>) =
      Some (Inr (map (\<lambda>n. (n, cat_view dict c n)) (sorted_list_of_set (wanted (cat_view dict c) prefix after))))"
proof (induction fuel arbitrary: cur after)
  case (Suc fuel)
  let ?L = "page_limit (tq_limit q)" and ?v = "cat_view dict c"
  define ns where "ns = sorted_list_of_set (wanted ?v prefix after)"
  let ?q = "q\<lparr>tq_cursor := cur\<rparr>"
  have e: "tq_limit ?q = tq_limit q" by simp
  have lim': "page_limit (tq_limit ?q) \<le> MAX_TAG_PAGE_LIMIT" and pre': "prefix = (case tq_prefix ?q of None \<Rightarrow> [] | Some p \<Rightarrow> p)"
    and res': "resume_after h c dict uuid (h prefix) (tq_cursor ?q) = Some (Inr after)" using lim pre Suc.prems(1) by simp_all
  obtain nxt where p: "list_tags h c dict uuid (q\<lparr>tq_cursor := cur\<rparr>) = Some (Inr \<lparr>tp_items = take ?L (map (\<lambda>n. (n, ?v n)) ns), tp_next_cursor = nxt\<rparr>)"
    "if length ns \<le> ?L then nxt = None
     else \<exists>tid. interner_resolve dict tid = Some (ns ! (?L - 1)) \<and>
       nxt = Some (encode_cursor \<lparr>cr_fingerprint = tc_fingerprint c, cr_prefix_hash = h prefix, cr_db_uuid = uuid, cr_term = tid, cr_term_hash = h (ns ! (?L - 1))\<rparr>)"
    using list_tags_spec [OF inv ok lim' pre' res' Suc.prems(2) ns_def, unfolded e] by blast
  have L: "0 < ?L" by (simp add: page_limit_def DEFAULT_TAG_PAGE_LIMIT_def)
  show ?case
  proof (cases "length ns \<le> ?L")
    case True
    then show ?thesis using p by (simp add: ns_def)
  next
    case False
    let ?n = "ns ! (?L - 1)"
    obtain tid where tid: "interner_resolve dict tid = Some ?n"
      "nxt = Some (encode_cursor \<lparr>cr_fingerprint = tc_fingerprint c, cr_prefix_hash = h prefix, cr_db_uuid = uuid, cr_term = tid, cr_term_hash = h ?n\<rparr>)"
      using p(2) False by auto
    have fin: "finite (wanted ?v prefix after)" by (rule finite_wanted)
    have "?n \<in> set ns" using False L by simp
    then have mem: "?n \<in> wanted ?v prefix after" using fin by (simp add: ns_def)
    then have rest: "{m \<in> wanted ?v prefix after. ?n < m} = wanted ?v prefix (Some ?n)"
      by (auto simp: wanted_def split: option.splits intro: less_trans)
    have dr: "drop ?L ns = sorted_list_of_set (wanted ?v prefix (Some ?n))"
      using sorted_after [OF fin L] False rest by (simp add: ns_def)
    have "card (wanted ?v prefix (Some ?n)) < card (wanted ?v prefix after)"
      unfolding rest [symmetric] by (rule psubset_card_mono [OF fin]) (use mem in blast)
    then have "card (wanted ?v prefix (Some ?n)) < fuel" using Suc.prems(3) by simp
    moreover have "\<forall>floor. Some ?n = Some floor \<longrightarrow> starts_with prefix floor" using mem by (simp add: wanted_def)
    ultimately have "walk_pages fuel h c dict uuid (q\<lparr>tq_cursor := nxt\<rparr>) = Some (Inr (map (\<lambda>n. (n, ?v n)) (drop ?L ns)))"
      using Suc.IH [of nxt "Some ?n"] resume_spec [OF inv tid(1)] tid(2) dr by simp
    then show ?thesis using p(1) tid(2) by (simp add: ns_def [symmetric] map_append [symmetric] del: map_append) (metis append_take_drop_id map_append take_map)
  qed
qed simp

section \<open>The claims\<close>

text \<open>
  C13. A change of a tag's count by any signed amount updates exactly that name in the map of counts, saturating at both ends of
  u32, through the buffer, the runs, the merge of a full buffer into the levels, or the override of a base entry; the fingerprint
  stays the xor of the entry hashes of the active tags, whatever the order of changes; and every count is read back from the map.
\<close>

theorem tag_change_refines:
  assumes "cat_inv h dict c" and "interner_resolve dict tid = Some n"
  shows "\<exists>c'. tag_change h dict tid delta c = Some c' \<and> cat_inv h dict c' \<and>
    (\<forall>m. cat_view dict c' m = (if m = n then sat_change (cat_view dict c n) delta else cat_view dict c m)) \<and>
    (\<forall>tid' m. interner_resolve dict tid' = Some m \<longrightarrow> tag_count c' dict tid' = Some (cat_view dict c' m))"
proof -
  obtain c' where c': "tag_change h dict tid delta c = Some c'" "cat_inv h dict c'"
    "cat_view dict c' = (cat_view dict c)(n := sat_change (cat_view dict c n) delta)"
    using change_spec [OF assms] by blast
  then have "cat_ok dict c'" by (simp add: cat_inv_def)
  then have "\<forall>tid' m. interner_resolve dict tid' = Some m \<longrightarrow> tag_count c' dict tid' = Some (cat_view dict c' m)"
    using tag_count_spec by blast
  then show ?thesis using c' by (intro exI [of _ c']) simp
qed

text \<open>
  C14. Following the cursors of the listing from its first page lists every active tag with the prefix exactly once, in byte order
  and with its count, for every page limit up to the maximum: no page repeats or skips a name, whichever of the base, the buffer
  and the runs holds it, and the walk ends.
\<close>

theorem tag_pages_complete:
  assumes "interner_inv h dict" and "cat_inv h dict c" and "page_limit (tq_limit q) \<le> MAX_TAG_PAGE_LIMIT"
    and "tq_cursor q = None" and "prefix = (case tq_prefix q of None \<Rightarrow> [] | Some p \<Rightarrow> p)" and "card (wanted (cat_view dict c) prefix None) < fuel"
  shows "walk_pages fuel h c dict uuid q =
    Some (Inr (map (\<lambda>n. (n, cat_view dict c n)) (sorted_list_of_set (wanted (cat_view dict c) prefix None))))"
proof -
  have ok: "cat_ok dict c" using assms(2) by (simp add: cat_inv_def)
  have q: "q\<lparr>tq_cursor := None\<rparr> = q" using assms(4) by simp
  have "resume_after h c dict uuid (h prefix) None = Some (Inr None)" by (simp add: resume_after_def)
  then show ?thesis
    using walk_spec [OF assms(1) ok assms(3) assms(5) _ _ assms(6), of uuid None] unfolding q by simp
qed

text \<open>
  C15. The dump of the catalog is loaded back as a catalog with the same counts and the same fingerprint, so that a cursor taken
  before a save is still accepted after it.
\<close>

theorem tag_dump_load:
  assumes "interner_inv h dict" and "cat_inv h dict c"
  shows "\<exists>bs c'. catalog_dump c dict = Some bs \<and> catalog_load h bs dict = Some (Inr c') \<and> cat_inv h dict c' \<and>
    cat_view dict c' = cat_view dict c \<and>
    (\<forall>uuid ph cursor. resume_after h c' dict uuid ph cursor = resume_after h c dict uuid ph cursor)"
proof -
  have ids: "\<forall>tid. interner_resolve dict tid \<noteq> None \<longrightarrow> unat tid < interner_count dict"
  proof (intro allI impI)
    fix tid assume r: "interner_resolve dict tid \<noteq> None"
    have "unat tid < length (terms dict)" using r dict.name_law [OF assms(1), of tid] by (auto split: if_splits)
    then show "unat tid < interner_count dict" using assms(1) by (simp add: interner_inv_def interner_ok_def interner_count_def)
  qed
  obtain bs c' where "catalog_dump c dict = Some bs" "catalog_load h bs dict = Some (Inr c')" "cat_inv h dict c'"
    "cat_view dict c' = cat_view dict c" and fp: "tc_fingerprint c' = tc_fingerprint c"
    using dump_load [OF assms(2) ids] by blast
  moreover have "resume_after h c' dict uuid ph cursor = resume_after h c dict uuid ph cursor" for uuid ph cursor
    unfolding resume_after_def fp ..
  ultimately show ?thesis by blast
qed

section \<open>The claims at concrete inputs\<close>

definition sample_entries :: "cat_entry list" where
  "sample_entries = map (\<lambda>i. \<lparr>ce_term = of_nat i, ce_count = 1\<rparr>) [0..<11]"

abbreviation sample_catalog :: tag_catalog where
  "sample_catalog \<equiv> base_only sample_entries (entry_xor (\<lambda>_. 0) full_interner sample_entries 0)"

lemma sample_resolve: "interner_resolve full_interner i = (if unat i < 11 then Some (terms full_interner ! unat i) else None)"
  using dict.name_law [OF full_inv, of i] by (simp add: full_terms)

lemma sample_names: "names full_interner sample_entries = terms full_interner"
  by (simp add: names_def nm_def sample_entries_def sample_resolve full_terms upt_rec)

lemma sample_ok: "run_ok full_interner sample_entries"
  unfolding run_ok_def sample_names by (simp add: full_terms resolves_def sample_entries_def sample_resolve unat_of_nat)

lemma sample_inv: "cat_inv (\<lambda>_. 0) full_interner sample_catalog"
  by (rule base_only_inv [OF sample_ok]) (simp add: sample_entries_def)

lemma sample_view: "cat_view full_interner sample_catalog n = (if n \<in> set (terms full_interner) then 1 else 0)"
proof (cases "run_get full_interner sample_entries n")
  case None
  then show ?thesis using run_get_None [of full_interner sample_entries n] by (simp add: base_view sample_names)
next
  case (Some e)
  then have "n \<in> set (terms full_interner)" using run_get_None [of full_interner sample_entries n] by (simp add: sample_names)
  moreover have "ce_count e = 1" using run_get_nm [OF Some] by (auto simp: sample_entries_def)
  ultimately show ?thesis using Some by (simp add: base_view)
qed

lemma sample_wanted: "wanted (cat_view full_interner sample_catalog) [] None = set (terms full_interner)"
  by (auto simp: wanted_def active_def sample_view starts_with_def)

theorem tag_change_refines_witness:
  "\<exists>c'. tag_change (\<lambda>_. 0) full_interner 3 (- 2) sample_catalog = Some c' \<and> cat_view full_interner c' [3] = 0 \<and> cat_view full_interner c' [4] = 1"
proof -
  have r: "interner_resolve full_interner 3 = Some [3]" by (simp add: sample_resolve full_terms)
  obtain c' where "tag_change (\<lambda>_. 0) full_interner 3 (- 2) sample_catalog = Some c'"
    "\<forall>m. cat_view full_interner c' m = (if m = [3] then sat_change (cat_view full_interner sample_catalog [3]) (- 2) else cat_view full_interner sample_catalog m)"
    using tag_change_refines [OF sample_inv r, of "- 2"] by blast
  then show ?thesis by (simp add: sample_view full_terms sat_change_def)
qed

theorem tag_pages_complete_witness:
  "walk_pages 12 (\<lambda>_. 0) sample_catalog full_interner 7 \<lparr>tq_prefix = Some [], tq_cursor = None, tq_limit = 4\<rparr> =
    Some (Inr [([0], 1), ([1], 1), ([2], 1), ([3], 1), ([4], 1), ([5], 1), ([6], 1), ([7], 1), ([8], 1), ([9], 1), ([10], 1)])"
proof -
  have "sorted_list_of_set (set (terms full_interner)) = terms full_interner"
    by (simp add: sorted_list_of_set.idem_if_sorted_distinct full_terms)
  moreover have "card (set (terms full_interner)) < 12" by (simp add: full_terms)
  moreover have "page_limit 4 \<le> MAX_TAG_PAGE_LIMIT" by (simp add: page_limit_def MAX_TAG_PAGE_LIMIT_def)
  ultimately show ?thesis
    using tag_pages_complete [OF full_inv sample_inv, of "\<lparr>tq_prefix = Some [], tq_cursor = None, tq_limit = 4\<rparr>" "[]" 12 7]
    by (simp add: sample_wanted sample_view) (simp add: full_terms)
qed

theorem tag_dump_load_witness:
  "\<exists>bs c'. catalog_dump sample_catalog full_interner = Some bs \<and> catalog_load (\<lambda>_. 0) bs full_interner = Some (Inr c') \<and>
    cat_view full_interner c' [3] = 1"
proof -
  obtain bs c' where "catalog_dump sample_catalog full_interner = Some bs" "catalog_load (\<lambda>_. 0) bs full_interner = Some (Inr c')"
    "cat_view full_interner c' = cat_view full_interner sample_catalog"
    using tag_dump_load [OF full_inv sample_inv] by blast
  then show ?thesis by (intro exI [of _ bs] exI [of _ c']) (simp add: sample_view full_terms)
qed

end
