(* ===== verification/Bm25_Theorems.thy ===== *)
theory Bm25_Theorems
  imports Bm25_Index Record_Scan Posting_Theorems
begin

unbundle bit_operations_syntax

text \<open>
  What the lexical index holds: a posting map and a table of documents, with the flat length index
  answering for the table. Indexing a document adds its entry to the list of each of its terms and
  one record whose signature never misses a term.
\<close>

lemma unat_up: "LENGTH('a) \<le> LENGTH('b) \<Longrightarrow> unat (ucast (w :: 'a::len word) :: 'b::len word) = unat w"
proof -
  assume le: "LENGTH('a) \<le> LENGTH('b)"
  have "unat w < 2 ^ LENGTH('a)" by (rule unsigned_less)
  also have "(2 :: nat) ^ LENGTH('a) \<le> 2 ^ LENGTH('b)" using le by (intro power_increasing) simp_all
  finally show ?thesis by (simp add: unsigned_ucast_eq take_bit_nat_eq_self)
qed

section \<open>Signatures\<close>

lemma sig_bit_nz: "sig_bit t \<noteq> 0"
proof -
  have "unat (drop_bit 58 (ucast t * FIB_MULT :: u64)) < 64"
  proof -
    have "unat (ucast t * FIB_MULT :: u64) < 2 ^ 64" using unsigned_less [where ?'a = nat, of "ucast t * FIB_MULT :: u64"] by simp
    then have "unat (ucast t * FIB_MULT :: u64) div 2 ^ 58 < 64" by (simp add: div_less_iff_less_mult)
    then show ?thesis by (simp add: drop_bit_eq_div unat_div)
  qed
  then have "bit (sig_bit t) (unat (drop_bit 58 (ucast t * FIB_MULT :: u64)))"
    by (simp add: sig_bit_def bit_simps)
  then show ?thesis by auto
qed

definition doc_sig :: "(u32 \<times> u8) list \<Rightarrow> u64" where
  "doc_sig tfs = fold (\<lambda>(t, _) sig. sig OR sig_bit t) tfs 0"

lemma fold_sig_keeps: "sig AND x = x \<Longrightarrow> fold (\<lambda>(t, _) sig. sig OR sig_bit t) tfs sig AND x = x"
proof (induction tfs arbitrary: sig)
  case (Cons e tfs)
  have "(sig OR sig_bit (fst e)) AND x = x"
  proof (rule bit_eqI)
    fix n
    have "bit (sig AND x) n = bit x n" using Cons.prems by simp
    then show "bit ((sig OR sig_bit (fst e)) AND x) n = bit x n" by (auto simp: bit_simps)
  qed
  then show ?case using Cons.IH by (cases e) simp
qed simp

lemma fold_sig_covers: "t \<in> fst ` set tfs \<Longrightarrow> fold (\<lambda>(t, _) sig. sig OR sig_bit t) tfs sig AND sig_bit t = sig_bit t"
proof (induction tfs arbitrary: sig)
  case (Cons e tfs)
  obtain s n where e: "e = (s, n)" by (cases e)
  show ?case
  proof (cases "t = s")
    case True
    have "(sig OR sig_bit t) AND sig_bit t = sig_bit t" by (rule bit_eqI) (auto simp: bit_simps)
    then show ?thesis using fold_sig_keeps [of "sig OR sig_bit t" "sig_bit t" tfs] by (simp add: e True)
  next
    case False
    then show ?thesis using Cons by (simp add: e)
  qed
qed simp

lemma overlap_bound_sound:
  assumes "dl_sig d = doc_sig tfs"
  shows "length (filter (\<lambda>t. t \<in> fst ` set tfs) ts) \<le> overlap_bound d ts"
proof -
  have "t \<in> fst ` set tfs \<Longrightarrow> dl_sig d AND sig_bit t \<noteq> 0" for t
    using fold_sig_covers [of t tfs 0] sig_bit_nz [of t] assms by (simp add: doc_sig_def)
  then show ?thesis unfolding overlap_bound_def by (induction ts) auto
qed

section \<open>The flat length index\<close>

definition dense_ok :: "(u32 \<Rightarrow> doc_len_slot option) \<Rightarrow> bm25_index \<Rightarrow> bool" where
  "dense_ok docs s \<longleftrightarrow>
     (\<forall>f. unat f < bm_dense_limit s \<longrightarrow>
        (if unat f < length (bm_dense s)
         then bm_dense s ! unat f = (case docs f of None \<Rightarrow> DOC_LEN_ABSENT | Some d \<Rightarrow> ucast (dl_len d))
         else docs f = None))"

lemma dense_ok_upd: "bm_dense s' = bm_dense s \<Longrightarrow> bm_dense_limit s' = bm_dense_limit s \<Longrightarrow> dense_ok docs s' = dense_ok docs s"
  by (simp add: dense_ok_def)

lemma u16_not_absent: "(ucast (w :: u16) :: u32) \<noteq> DOC_LEN_ABSENT" "ucast (ucast w :: u32) = w"
proof -
  have "uint w < 2 ^ 16" using uint_lt2p [of w] by simp
  then have "uint (ucast w :: u32) < 2 ^ 16" by (simp add: unsigned_ucast_eq take_bit_eq_mod mod_pos_pos_trivial)
  then show "(ucast w :: u32) \<noteq> DOC_LEN_ABSENT" by (auto simp: DOC_LEN_ABSENT_def unsigned_minus_1_eq_mask mask_eq_exp_minus_1)
  show "ucast (ucast w :: u32) = w" by (rule bit_word_eqI) (auto simp: bit_simps)
qed

lemma doc_len_of_spec:
  assumes a: "arena_inv doc_len_type (bm_doc_len s)" and d: "dense_ok (dl_view (bm_doc_len s)) s"
  shows "doc_len_of s f = Some (map_option dl_len (dl_view (bm_doc_len s) f))"
proof (cases "unat f < bm_dense_limit s \<and> unat f < length (bm_dense s)")
  case True
  then have "bm_dense s ! unat f = (case dl_view (bm_doc_len s) f of None \<Rightarrow> DOC_LEN_ABSENT | Some d \<Rightarrow> ucast (dl_len d))"
    using d by (auto simp: dense_ok_def)
  then show ?thesis using True u16_not_absent by (cases "dl_view (bm_doc_len s) f") (simp_all add: doc_len_of_def)
next
  case False
  have "bm25_doc s f = Some (dl_view (bm_doc_len s) f)" using dl_arena.get_view(2) [OF a, of f] by (simp add: bm25_doc_def id_key_def)
  then show ?thesis using False by (auto simp: doc_len_of_def)
qed

lemma note_dense_ok:
  assumes ok: "dense_ok docs s" and none: "docs (dl_fact doc) = None"
  shows "dense_ok (docs(dl_fact doc \<mapsto> doc)) (note_dense doc s)"
proof (cases "dense_capacity s \<le> unat (dl_fact doc)")
  case True
  then show ?thesis using ok by (auto simp: note_dense_def dense_ok_def Let_def)
next
  case False
  let ?at = "unat (dl_fact doc)"
  let ?d = "if length (bm_dense s) \<le> ?at then bm_dense s @ replicate (?at + 1 - length (bm_dense s)) DOC_LEN_ABSENT else bm_dense s"
  have e: "note_dense doc s = s\<lparr>bm_dense := ?d[?at := ucast (dl_len doc)]\<rparr>" using False by (simp add: note_dense_def Let_def)
  have len: "?at < length ?d" "length (bm_dense s) \<le> length ?d" by auto
  show ?thesis
    unfolding dense_ok_def e
  proof (intro allI impI)
    fix f :: u32 assume f: "unat f < bm_dense_limit (s\<lparr>bm_dense := ?d[?at := ucast (dl_len doc)]\<rparr>)"
    note o = ok [unfolded dense_ok_def, rule_format, of f]
    show "if unat f < length (bm_dense (s\<lparr>bm_dense := ?d[?at := ucast (dl_len doc)]\<rparr>))
      then bm_dense (s\<lparr>bm_dense := ?d[?at := ucast (dl_len doc)]\<rparr>) ! unat f =
        (case (docs(dl_fact doc \<mapsto> doc)) f of None \<Rightarrow> DOC_LEN_ABSENT | Some d \<Rightarrow> ucast (dl_len d))
      else (docs(dl_fact doc \<mapsto> doc)) f = None"
    proof (cases "f = dl_fact doc")
      case True
      then show ?thesis using len by simp
    next
      case False
      then have ne: "unat f \<noteq> ?at" by (simp add: word_unat_eq_iff)
      have d: "?d ! unat f = (if unat f < length (bm_dense s) then bm_dense s ! unat f else DOC_LEN_ABSENT)" if "unat f < length ?d"
        using that by (auto simp: nth_append split: if_splits)
      show ?thesis using f o ne False d len by (auto split: if_splits)
    qed
  qed
qed

section \<open>The rebuilt length index\<close>

lemma rebuild_limit_spec:
  assumes "fold (\<lambda>d (limit, reach). let at = unat (dl_fact d) in
     if cap \<le> at then (min limit at, reach) else (limit, max reach (at + 1))) docs (l0, r0) = (l, r)"
  shows "l \<le> l0 \<and> r0 \<le> r \<and> (\<forall>d \<in> set docs. if cap \<le> unat (dl_fact d) then l \<le> unat (dl_fact d) else unat (dl_fact d) < r)"
  using assms
proof (induction docs arbitrary: l0 r0)
  case (Cons d docs)
  show ?case
  proof (cases "cap \<le> unat (dl_fact d)")
    case True
    then show ?thesis using Cons.IH [of "min l0 (unat (dl_fact d))" r0] Cons.prems by (simp add: Let_def)
  next
    case False
    then show ?thesis using Cons.IH [of l0 "max r0 (unat (dl_fact d) + 1)"] Cons.prems by (simp add: Let_def)
  qed
qed simp

lemma rebuild_fill_spec:
  "distinct (map dl_fact docs) \<Longrightarrow> length (rebuild_fill cap docs dense) = length dense \<and>
    (\<forall>f. unat f < length dense \<longrightarrow> rebuild_fill cap docs dense ! unat f =
       (case find (\<lambda>d. dl_fact d = f) docs of
          Some d \<Rightarrow> if unat f < cap then ucast (dl_len d) else dense ! unat f
        | None \<Rightarrow> dense ! unat f))"
proof (induction docs arbitrary: dense)
  case (Cons d docs)
  let ?dense = "if unat (dl_fact d) < cap then dense[unat (dl_fact d) := ucast (dl_len d)] else dense"
  have e: "rebuild_fill cap (d # docs) dense = rebuild_fill cap docs ?dense" by (simp add: rebuild_fill_def Let_def)
  have none: "find (\<lambda>x. dl_fact x = dl_fact d) docs = None"
    using Cons.prems by (auto simp: find_None_iff image_iff)
  have ih: "length (rebuild_fill cap docs ?dense) = length ?dense"
    "\<And>f. unat f < length ?dense \<Longrightarrow> rebuild_fill cap docs ?dense ! unat f =
       (case find (\<lambda>d. dl_fact d = f) docs of Some d \<Rightarrow> if unat f < cap then ucast (dl_len d) else ?dense ! unat f | None \<Rightarrow> ?dense ! unat f)"
    using Cons.IH [of ?dense] Cons.prems by auto
  have ne: "f \<noteq> dl_fact d \<Longrightarrow> unat (dl_fact d) \<noteq> unat f" for f by (auto simp: word_unat_eq_iff)
  show ?case unfolding e
    using ih none ne by (auto split: option.splits)
qed (simp add: rebuild_fill_def)

lemma rebuild_dense_ok:
  assumes a: "arena_inv doc_len_type (bm_doc_len s)"
  obtains t where "rebuild_dense s = Some t" "dense_ok (dl_view (bm_doc_len s)) t" "bm_doc_len t = bm_doc_len s"
    "bm_postings t = bm_postings s" "bm_total_docs t = bm_total_docs s" "bm_total_len t = bm_total_len s"
proof -
  obtain ds where ds: "iter_all doc_len_type doc_len_read (bm_doc_len s) = Some ds" "distinct (map dl_fact ds)"
    "\<And>d. d \<in> set ds \<longleftrightarrow> dl_view (bm_doc_len s) (dl_fact d) = Some d"
    by (rule dl_arena.iter_view [OF a]) auto
  define cap where "cap = dense_capacity s"
  obtain l r where lr: "rebuild_limit cap ds = (l, r)" by fastforce
  note lim = rebuild_limit_spec [OF lr [unfolded rebuild_limit_def]]
  let ?v = "dl_view (bm_doc_len s)"
  let ?d = "rebuild_fill cap ds (replicate r DOC_LEN_ABSENT)"
  note fill = rebuild_fill_spec [OF ds(2), of cap "replicate r DOC_LEN_ABSENT"]
  have find: "find (\<lambda>d. dl_fact d = f) ds = ?v f" for f
  proof (cases "?v f")
    case None
    then show ?thesis using ds(3) by (auto simp: find_None_iff)
  next
    case (Some d)
    have k: "dl_fact d = f" using dl_arena.view_key [OF a Some] .
    then have "d \<in> set ds" using ds(3) Some by blast
    moreover have "x = d" if "find (\<lambda>d. dl_fact d = f) ds = Some x" for x
      using that ds(3) [of x] Some by (auto simp: find_Some_iff)
    ultimately show ?thesis using k Some by (cases "find (\<lambda>d. dl_fact d = f) ds") (auto simp: find_None_iff)
  qed
  let ?t = "s\<lparr>bm_dense := ?d, bm_dense_limit := l\<rparr>"
  have t: "rebuild_dense s = Some ?t" using ds(1) lr by (simp add: rebuild_dense_def cap_def)
  have "dense_ok ?v ?t"
    unfolding dense_ok_def
  proof (intro allI impI)
    fix f :: u32 assume f: "unat f < bm_dense_limit ?t"
    have small: "unat f < cap \<and> unat f < r" if "?v f = Some d" for d
    proof -
      have "dl_fact d = f" using dl_arena.view_key [OF a that] .
      then have "d \<in> set ds" using ds(3) that by blast
      then show ?thesis using lim f \<open>dl_fact d = f\<close> by (fastforce split: if_splits)
    qed
    then show "if unat f < length (bm_dense ?t)
         then bm_dense ?t ! unat f = (case ?v f of None \<Rightarrow> DOC_LEN_ABSENT | Some d \<Rightarrow> ucast (dl_len d))
         else ?v f = None"
      using fill by (cases "?v f") (auto simp: find)
  qed
  then show ?thesis using that [OF t] by simp
qed

section \<open>Indexing a document\<close>

definition bm25_rep :: "bm25_index \<Rightarrow> (u32 \<Rightarrow> entry list) \<Rightarrow> list_handle list \<Rightarrow> (u32 \<Rightarrow> doc_len_slot option) \<Rightarrow> bool" where
  "bm25_rep s m lost docs \<longleftrightarrow> posting_rep True (bm_postings s) m lost \<and> arena_usable doc_len_type (bm_doc_len s) \<and>
     dl_view (bm_doc_len s) = docs \<and> dense_ok docs s"

lemma ascending_short: "ascending es \<Longrightarrow> es = [] \<or> fst (last es) < i \<Longrightarrow> length es \<le> unat i"
proof -
  assume a: "ascending es" and l: "es = [] \<or> fst (last es) < i"
  have "unat (fst e) < unat i" if "e \<in> set es" for e
    using ascending_last [OF a that] l that by (auto simp: word_less_nat_alt [symmetric])
  then have "(\<lambda>e. unat (fst e)) ` set es \<subseteq> {..<unat i}" by auto
  moreover have "distinct (map (\<lambda>e. unat (fst e)) es)"
  proof -
    have "distinct (map fst es)" using a by (simp add: ascending_def strict_sorted_iff)
    then have "distinct (map unat (map fst es))" by (subst distinct_map) (simp add: inj_on_def word_unat_eq_iff)
    then show ?thesis by (simp add: comp_def)
  qed
  ultimately show ?thesis using card_mono [of "{..<unat i}" "set (map (\<lambda>e. unat (fst e)) es)"] distinct_card [of "map (\<lambda>e. unat (fst e)) es"] by simp
qed

lemma push_tf:
  assumes rep: "posting_rep True s m lost" and junk: "length junk = PAGE_BYTES"
    and asc: "m k = [] \<or> fst (last (m k)) < i" and i: "unat i < 2 ^ 32 - 1"
  obtains (ok) s' where "posting_push True junk k i tf s = Some (Inr (), s')" "posting_rep True s' (m(k := m k @ [(i, tf)])) lost"
  | (err) s' n lost' where "posting_push True junk k i tf s = Some (Inl (Arena_err (CapacityExceeded n)), s')" "posting_rep True s' m lost'"
proof -
  have "length (m k) \<le> unat i" using ascending_short [OF rep_entries(4) [OF rep]] asc by blast
  then have room: "Suc (length (m k)) < 2 ^ 32" using i by linarith
  show ?thesis
    by (rule posting_push_rep [OF rep junk asc room, of tf]) (use ok err rep in \<open>auto simp: plain_tf_def\<close>)
qed

definition add_doc :: "(u32 \<Rightarrow> entry list) \<Rightarrow> u32 \<Rightarrow> (u32 \<times> u8) list \<Rightarrow> u32 \<Rightarrow> entry list" where
  "add_doc m i tfs t = m t @ (case map_of tfs t of None \<Rightarrow> [] | Some tf \<Rightarrow> [(i, tf)])"

definition tf_total :: "(u32 \<times> u8) list \<Rightarrow> nat" where
  "tf_total tfs = sum_list (map (\<lambda>(_, tf). unat tf) tfs)"

lemma push_terms_spec:
  assumes junk: "length junk = PAGE_BYTES" and i: "unat i < 2 ^ 32 - 1"
  shows "posting_rep True (bm_postings s) m lost \<Longrightarrow> distinct (map fst tfs) \<Longrightarrow> \<forall>t \<in> fst ` set tfs. m t = [] \<or> fst (last (m t)) < i \<Longrightarrow>
    unat len + tf_total tfs < 2 ^ 32 \<Longrightarrow>
    \<exists>r p m' lost'. push_terms junk i tfs (len, sig) s = Some (r, s\<lparr>bm_postings := p\<rparr>) \<and> posting_rep True p m' lost' \<and>
      (case r of
         Inr (l, g) \<Rightarrow> m' = add_doc m i tfs \<and> lost' = lost \<and> unat l = unat len + tf_total tfs \<and> g = fold (\<lambda>(t, _) sig. sig OR sig_bit t) tfs sig
       | Inl e \<Rightarrow> (\<exists>n. e = Arena_err (CapacityExceeded n)) \<and> (\<forall>t. m' t = m t \<or> m' t = add_doc m i tfs t))"
proof (induction tfs arbitrary: s m len sig)
  case Nil
  then show ?case by (intro exI [of _ "Inr (len, sig)"] exI [of _ "bm_postings s"] exI [of _ m] exI [of _ lost]) (simp add: add_doc_def tf_total_def fun_eq_iff)
next
  case (Cons e tfs)
  obtain t tf where e: "e = (t, tf)" by (cases e)
  have asc: "m t = [] \<or> fst (last (m t)) < i" using Cons.prems(3) by (simp add: e)
  show ?case
  proof (rule push_tf [OF Cons.prems(1) junk asc i, of tf])
    fix p n lost' assume p: "posting_push True junk t i tf (bm_postings s) = Some (Inl (Arena_err (CapacityExceeded n)), p)" "posting_rep True p m lost'"
    then show ?thesis
      by (intro exI [of _ "Inl (Arena_err (CapacityExceeded n))"] exI [of _ p] exI [of _ m] exI [of _ lost']) (simp add: e put_postings_def)
  next
    fix p assume p: "posting_push True junk t i tf (bm_postings s) = Some (Inr (), p)" "posting_rep True p (m(t := m t @ [(i, tf)])) lost"
    let ?s = "s\<lparr>bm_postings := p\<rparr>" and ?m = "m(t := m t @ [(i, tf)])"
    have tot: "unat len + unat tf + tf_total tfs < 2 ^ 32" using Cons.prems(4) by (simp add: e tf_total_def)
    have ul: "unat (len + ucast tf) = unat len + unat tf"
      using tot by (simp add: unat_word_ariths unat_up)
    have nt: "t \<notin> fst ` set tfs" using Cons.prems(2) by (auto simp: e)
    have prem: "posting_rep True (bm_postings ?s) ?m lost" "distinct (map fst tfs)" "\<forall>u \<in> fst ` set tfs. ?m u = [] \<or> fst (last (?m u)) < i"
      "unat (len + ucast tf) + tf_total tfs < 2 ^ 32"
      using p(2) Cons.prems(2,3) tot nt by (auto simp: e ul)
    from Cons.IH [OF prem, of "sig OR sig_bit t"] obtain r q m' lost' where
      q: "push_terms junk i tfs (len + ucast tf, sig OR sig_bit t) ?s = Some (r, ?s\<lparr>bm_postings := q\<rparr>)" "posting_rep True q m' lost'"
      and post: "case r of
         Inr (l, g) \<Rightarrow> m' = add_doc ?m i tfs \<and> lost' = lost \<and> unat l = unat (len + ucast tf) + tf_total tfs \<and>
           g = fold (\<lambda>(t, _) sig. sig OR sig_bit t) tfs (sig OR sig_bit t)
       | Inl e \<Rightarrow> (\<exists>n. e = Arena_err (CapacityExceeded n)) \<and> (\<forall>t. m' t = ?m t \<or> m' t = add_doc ?m i tfs t)"
      by blast
    have no: "map_of tfs t = None" using nt by (simp add: map_of_eq_None_iff)
    have ad: "add_doc ?m i tfs = add_doc m i (e # tfs)"
      using no by (auto simp: add_doc_def e fun_eq_iff)
    have weak: "?m u = m u \<or> ?m u = add_doc m i (e # tfs) u" for u by (auto simp: add_doc_def e)
    have run: "push_terms junk i (e # tfs) (len, sig) s = Some (r, s\<lparr>bm_postings := q\<rparr>)"
      using p(1) q(1) tot by (simp add: e put_postings_def panic_if_def)
    have "case r of
         Inr (l, g) \<Rightarrow> m' = add_doc m i (e # tfs) \<and> lost' = lost \<and> unat l = unat len + tf_total (e # tfs) \<and>
           g = fold (\<lambda>(t, _) sig. sig OR sig_bit t) (e # tfs) sig
       | Inl er \<Rightarrow> (\<exists>n. er = Arena_err (CapacityExceeded n)) \<and> (\<forall>t. m' t = m t \<or> m' t = add_doc m i (e # tfs) t)"
    proof (cases r)
      case (Inl er)
      then show ?thesis using post weak unfolding ad by simp metis
    next
      case (Inr lg)
      then show ?thesis using post unfolding ad by (cases lg) (simp add: ul e tf_total_def)
    qed
    then show ?thesis using run q(2) by blast
  qed
qed

definition doc_record :: "u32 \<Rightarrow> (u32 \<times> u8) list \<Rightarrow> doc_len_slot" where
  "doc_record i tfs = \<lparr>dl_fact = i, dl_len = clamp_u16 (tf_total tfs), dl_distinct = clamp_u16 (length tfs), dl_sig = doc_sig tfs\<rparr>"

lemma index_doc_spec:
  assumes rep: "bm25_rep s m lost docs" and junk: "length (junk 4) = PAGE_BYTES" "length (junk 5) = PAGE_BYTES" and i: "unat i < 2 ^ 32 - 1"
    and d: "distinct (map fst tfs)" and asc: "\<forall>t \<in> fst ` set tfs. m t = [] \<or> fst (last (m t)) < i" and fresh: "docs i = None"
    and tot: "tf_total tfs < 2 ^ 32" "unat (bm_total_docs s) < 2 ^ 64 - 1" "unat (bm_total_len s) + tf_total tfs < 2 ^ 64"
  shows "\<exists>r s' m' lost' docs'. index_doc junk i tfs s = Some (r, s') \<and> bm25_rep s' m' lost' docs' \<and>
    (case r of
       Inr _ \<Rightarrow> m' = add_doc m i tfs \<and> lost' = lost \<and> docs' = docs(i \<mapsto> doc_record i tfs) \<and>
         unat (bm_total_docs s') = unat (bm_total_docs s) + 1 \<and> unat (bm_total_len s') = unat (bm_total_len s) + tf_total tfs
     | Inl e \<Rightarrow> (\<exists>n. e = Arena_err (CapacityExceeded n)) \<and> docs' = docs \<and> (\<forall>t. m' t = m t \<or> m' t = add_doc m i tfs t))"
proof -
  have p: "posting_rep True (bm_postings s) m lost" and a: "arena_usable doc_len_type (bm_doc_len s)" and v: "dl_view (bm_doc_len s) = docs"
    and de: "dense_ok docs s" using rep by (simp_all add: bm25_rep_def)
  from push_terms_spec [OF junk(1) i p d asc, of 0 0] tot(1) obtain r q m1 lost1 where
    q: "push_terms (junk 4) i tfs (0, 0) s = Some (r, s\<lparr>bm_postings := q\<rparr>)" "posting_rep True q m1 lost1"
    and post: "case r of
         Inr (l, g) \<Rightarrow> m1 = add_doc m i tfs \<and> lost1 = lost \<and> unat l = unat (0 :: u32) + tf_total tfs \<and> g = fold (\<lambda>(t, _) sig. sig OR sig_bit t) tfs 0
       | Inl e \<Rightarrow> (\<exists>n. e = Arena_err (CapacityExceeded n)) \<and> (\<forall>t. m1 t = m t \<or> m1 t = add_doc m i tfs t)"
    by auto
  let ?s1 = "s\<lparr>bm_postings := q\<rparr>"
  have rep1: "bm25_rep ?s1 m1 lost1 docs" using q(2) a v de by (simp add: bm25_rep_def dense_ok_def)
  show ?thesis
  proof (cases r)
    case (Inl e)
    then show ?thesis using q(1) rep1 post
      by (intro exI [of _ "Inl e"] exI [of _ ?s1] exI [of _ m1] exI [of _ lost1] exI [of _ docs]) (simp add: index_doc_def)
  next
    case (Inr lg)
    obtain l g where lg: "lg = (l, g)" by (cases lg)
    have l: "m1 = add_doc m i tfs" "lost1 = lost" "unat l = tf_total tfs" "g = doc_sig tfs" using post by (simp_all add: Inr lg doc_sig_def)
    let ?doc = "doc_record i tfs"
    have doc: "\<lparr>dl_fact = i, dl_len = clamp_u16 (unat l), dl_distinct = clamp_u16 (length tfs), dl_sig = g\<rparr> = ?doc" by (simp add: doc_record_def l)
    have f: "dl_fact ?doc = i" by (simp add: doc_record_def)
    show ?thesis
    proof (rule dl_arena.insert_view [OF a junk(2), of ?doc])
      fix r' assume "dl_view (bm_doc_len s) (dl_fact ?doc) = Some r'"
      then show ?thesis using fresh v f by simp
    next
      assume full: "arena_insert doc_len_type doc_len_write (junk 5) ?doc (bm_doc_len s) = Some (Inl (CapacityExceeded (ac_max_bytes (ar_cfg (bm_doc_len s)))))"
      have "index_doc junk i tfs s = Some (Inl (Arena_err (CapacityExceeded (ac_max_bytes (ar_cfg (bm_doc_len s))))), ?s1)"
        using q(1) full by (simp add: index_doc_def Inr lg doc insert_at_def Let_def)
      then show ?thesis using rep1 l(1)
        by (intro exI [of _ "Inl (Arena_err (CapacityExceeded (ac_max_bytes (ar_cfg (bm_doc_len s)))))"] exI [of _ ?s1] exI [of _ m1] exI [of _ lost1] exI [of _ docs]) simp
    next
      fix b assume b: "arena_insert doc_len_type doc_len_write (junk 5) ?doc (bm_doc_len s) = Some (Inr (True, b))"
        "arena_usable doc_len_type b" "dl_view b = (dl_view (bm_doc_len s))(dl_fact ?doc \<mapsto> ?doc)"
      let ?s2 = "note_dense ?doc (?s1\<lparr>bm_doc_len := b\<rparr>)"
      have de2: "dense_ok (docs(i \<mapsto> ?doc)) ?s2"
      proof -
        have "dense_ok docs (?s1\<lparr>bm_doc_len := b\<rparr>)" using de by (simp add: dense_ok_def)
        from note_dense_ok [OF this, of ?doc] show ?thesis using fresh f by simp
      qed
      have same: "bm_postings ?s2 = q" "bm_doc_len ?s2 = b" "bm_total_docs ?s2 = bm_total_docs s" "bm_total_len ?s2 = bm_total_len s"
        by (simp_all add: note_dense_def Let_def)
      let ?s3 = "?s2\<lparr>bm_total_docs := bm_total_docs s + 1, bm_total_len := bm_total_len s + ucast l\<rparr>"
      have nd: "bm_total_docs s \<noteq> - 1" using tot(2) by (auto simp: unsigned_minus_1_eq_mask mask_eq_exp_minus_1)
      have "index_doc junk i tfs s = Some (Inr (), ?s3)"
        using q(1) b(1) nd tot(3) same
        by (simp add: index_doc_def Inr lg l(3,4) doc_record_def [symmetric] insert_at_def put_doc_len_def Let_def panic_if_def and_then_def)
      moreover have "bm25_rep ?s3 (add_doc m i tfs) lost (docs(i \<mapsto> ?doc))"
        using q(2) b(2,3) dense_ok_upd [of ?s3 ?s2] de2 same l(1,2) v f by (simp add: bm25_rep_def)
      moreover have "unat (bm_total_docs ?s3) = unat (bm_total_docs s) + 1" "unat (bm_total_len ?s3) = unat (bm_total_len s) + tf_total tfs"
        using tot l(3) by (simp_all add: unat_word_ariths unat_up)
      ultimately show ?thesis by (intro exI [of _ "Inr ()"] exI [of _ ?s3] exI [of _ "add_doc m i tfs"] exI [of _ lost] exI [of _ "docs(i \<mapsto> ?doc)"]) simp
    qed
  qed
qed

lemma bm25_new_rep:
  assumes "bm25_new shards ceiling = Inr s" and "shards \<le> usize_max" and "index_room \<lparr>ac_shards = shards, ac_max_bytes = ceiling, ac_mode = Uniform\<rparr>"
  shows "bm25_rep s (\<lambda>_. []) [] Map.empty" and "bm_total_docs s = 0" and "bm_total_len s = 0"
proof -
  let ?cfg = "\<lparr>ac_shards = shards, ac_max_bytes = ceiling, ac_mode = Uniform\<rparr>"
  obtain p d where s: "postings_new shards ceiling = Inr p" "arena_new doc_len_type ?cfg = Inr d"
    "s = \<lparr>bm_postings = p, bm_doc_len = d, bm_total_docs = 0, bm_total_len = 0, bm_unsummarized = False, bm_dense = [], bm_dense_limit = usize_max\<rparr>"
    using assms(1) by (auto simp: bm25_new_def try_res_eq_Inr)
  have "arena_usable doc_len_type d" "dl_view d = Map.empty"
    using dl_arena.new_view [OF s(2)] assms(2,3) by auto
  moreover have "posting_rep True p (\<lambda>_. []) []" using postings_new_rep [OF s(1)] assms(2,3) by simp
  ultimately show "bm25_rep s (\<lambda>_. []) [] Map.empty" by (simp add: s(3) bm25_rep_def dense_ok_def)
  show "bm_total_docs s = 0" "bm_total_len s = 0" by (simp_all add: s(3))
qed

text \<open>An index assembled from loaded parts answers as its parts do.\<close>

lemma from_parts_rep:
  assumes "posting_rep True p m lost" and "arena_usable doc_len_type d"
  obtains s where "bm25_from_parts p d total_docs total_len = Some s" "bm25_rep s m lost (dl_view d)"
    "bm_total_docs s = total_docs" "bm_total_len s = total_len"
proof -
  let ?s = "\<lparr>bm_postings = p, bm_doc_len = d, bm_total_docs = total_docs, bm_total_len = total_len,
       bm_unsummarized = False, bm_dense = [], bm_dense_limit = usize_max\<rparr>"
  have "arena_inv doc_len_type (bm_doc_len ?s)" using assms(2) by (simp add: arena_usable_def)
  then obtain t where "rebuild_dense ?s = Some t" "dense_ok (dl_view d) t" "bm_doc_len t = d" "bm_postings t = p"
    "bm_total_docs t = total_docs" "bm_total_len t = total_len"
    by (rule rebuild_dense_ok) auto
  then show ?thesis using that [of t] assms by (simp add: bm25_from_parts_def bm25_rep_def)
qed

text \<open>
  C16. Indexing a document under a fresh, largest id appends its entry to the posting list of each of its terms and adds one
  record with its capped length and distinct count; a full pool is reported with no list changed but by that entry. Afterwards
  the flat length index answers for every id as the stored records do, also for ids it has declined, and the signature of the
  new record never rules out an overlap that exists.
\<close>

theorem bm25_index_doc_correct:
  assumes "bm25_rep s m lost docs" and "length (junk 4) = PAGE_BYTES" and "length (junk 5) = PAGE_BYTES" and "unat i < 2 ^ 32 - 1"
    and "distinct (map fst tfs)" and "\<forall>t \<in> fst ` set tfs. m t = [] \<or> fst (last (m t)) < i" and "docs i = None"
    and "tf_total tfs < 2 ^ 32" and "unat (bm_total_docs s) < 2 ^ 64 - 1" and "unat (bm_total_len s) + tf_total tfs < 2 ^ 64"
  shows "\<exists>r s' m' lost' docs'. index_doc junk i tfs s = Some (r, s') \<and> bm25_rep s' m' lost' docs' \<and>
    (case r of
       Inr _ \<Rightarrow> m' = add_doc m i tfs \<and> lost' = lost \<and> docs' = docs(i \<mapsto> doc_record i tfs)
     | Inl e \<Rightarrow> (\<exists>n. e = Arena_err (CapacityExceeded n)) \<and> docs' = docs \<and> (\<forall>t. m' t = m t \<or> m' t = add_doc m i tfs t)) \<and>
    (\<forall>t. posting_entries True (bm_postings s') t = Some (m' t) \<and> bm25_df s' t = Some (of_nat (length (m' t)))) \<and>
    (\<forall>f. bm25_doc s' f = Some (docs' f) \<and> doc_len_of s' f = Some (map_option dl_len (docs' f))) \<and>
    (\<forall>d ts. docs' i = Some d \<longrightarrow> length (filter (\<lambda>t. t \<in> fst ` set tfs) ts) \<le> overlap_bound d ts)"
proof -
  obtain r s' m' lost' docs' where x: "index_doc junk i tfs s = Some (r, s')" "bm25_rep s' m' lost' docs'"
    "case r of
       Inr _ \<Rightarrow> m' = add_doc m i tfs \<and> lost' = lost \<and> docs' = docs(i \<mapsto> doc_record i tfs) \<and>
         unat (bm_total_docs s') = unat (bm_total_docs s) + 1 \<and> unat (bm_total_len s') = unat (bm_total_len s) + tf_total tfs
     | Inl e \<Rightarrow> (\<exists>n. e = Arena_err (CapacityExceeded n)) \<and> docs' = docs \<and> (\<forall>t. m' t = m t \<or> m' t = add_doc m i tfs t)"
    using index_doc_spec [OF assms] by blast
  have p: "posting_rep True (bm_postings s') m' lost'" and inv: "arena_inv doc_len_type (bm_doc_len s')" and v: "dl_view (bm_doc_len s') = docs'"
    and de: "dense_ok docs' s'" using x(2) by (simp_all add: bm25_rep_def arena_usable_def)
  have "posting_entries True (bm_postings s') t = Some (m' t) \<and> bm25_df s' t = Some (of_nat (length (m' t)))" for t
    using rep_entries(1,3) [OF p, of t] by (simp add: bm25_df_def)
  moreover have "bm25_doc s' f = Some (docs' f) \<and> doc_len_of s' f = Some (map_option dl_len (docs' f))" for f
    using dl_arena.get_view(2) [OF inv, of f] doc_len_of_spec [OF inv, of f] v de by (simp add: bm25_doc_def id_key_def)
  moreover have "length (filter (\<lambda>t. t \<in> fst ` set tfs) ts) \<le> overlap_bound d ts" if "docs' i = Some d" for d ts
  proof -
    have "d = doc_record i tfs" using x(3) that assms(7) by (cases r) auto
    then show ?thesis using overlap_bound_sound [of d tfs ts] by (simp add: doc_record_def)
  qed
  ultimately show ?thesis using x by (intro exI [of _ r] exI [of _ s'] exI [of _ m'] exI [of _ lost'] exI [of _ docs']) (auto split: sum.splits)
qed

theorem bm25_index_doc_correct_witness:
  "\<exists>s r s'. bm25_new 1 65536 = Inr s \<and> index_doc (\<lambda>_. replicate PAGE_BYTES 0) 3 [(7, 2), (9, 1)] s = Some (r, s') \<and>
     (doc_len_of s' 3 = Some (Some 3) \<or> doc_len_of s' 3 = Some None) \<and> doc_len_of s' 2 = Some None"
proof -
  let ?cfg = "\<lparr>ac_shards = 1, ac_max_bytes = 65536, ac_mode = Uniform\<rparr>"
  obtain p where p: "postings_new 1 65536 = Inr p" by (rule demo_postings [of 65536]) (use that in auto)
  have "is_power_of_two 1" by (simp add: is_power_of_two_def trailing_zeros.simps)
  then obtain d where "arena_new doc_len_type ?cfg = Inr d" by (simp add: arena_new_def doc_len_type_def PAGE_BYTES_def)
  with p obtain s where s: "bm25_new 1 65536 = Inr s" by (simp add: bm25_new_def)
  have "index_room ?cfg" by (simp add: index_room_def PAGE_BYTES_def)
  then have rep: "bm25_rep s (\<lambda>_. []) [] Map.empty" "bm_total_docs s = 0" "bm_total_len s = 0" using bm25_new_rep [OF s] by (simp_all add: usize_max_def)
  have t: "tf_total [(7, 2), (9, 1)] = 3" by (simp add: tf_total_def)
  have prems: "unat (3 :: u32) < 2 ^ 32 - 1" "distinct (map fst [(7 :: u32, 2 :: u8), (9, 1)])" "tf_total [(7, 2), (9, 1)] < 2 ^ 32"
    "unat (bm_total_docs s) < 2 ^ 64 - 1" "unat (bm_total_len s) + tf_total [(7, 2), (9, 1)] < 2 ^ 64"
    "\<forall>t \<in> fst ` set [(7 :: u32, 2 :: u8), (9, 1)]. (\<lambda>_. []) t = ([] :: entry list) \<or> fst (last ((\<lambda>_. []) t)) < (3 :: u32)"
    "(Map.empty :: u32 \<Rightarrow> doc_len_slot option) 3 = None" "length (replicate PAGE_BYTES (0 :: u8)) = PAGE_BYTES"
    using rep(2,3) t by simp_all
  from bm25_index_doc_correct [OF rep(1), of "\<lambda>_. replicate PAGE_BYTES 0", OF prems(8) prems(8) prems(1) prems(2) prems(6) prems(7) prems(3-5)]
  obtain r s' m' lost' docs' where x: "index_doc (\<lambda>_. replicate PAGE_BYTES 0) 3 [(7, 2), (9, 1)] s = Some (r, s')"
    and "bm25_rep s' m' lost' docs'"
    and c: "case r of Inr _ \<Rightarrow> m' = add_doc (\<lambda>_. []) 3 [(7, 2), (9, 1)] \<and> lost' = [] \<and> docs' = Map.empty(3 \<mapsto> doc_record 3 [(7, 2), (9, 1)])
      | Inl e \<Rightarrow> (\<exists>n. e = Arena_err (CapacityExceeded n)) \<and> docs' = Map.empty \<and> (\<forall>t. m' t = [] \<or> m' t = add_doc (\<lambda>_. []) 3 [(7, 2), (9, 1)] t)"
    and l: "\<forall>f. bm25_doc s' f = Some (docs' f) \<and> doc_len_of s' f = Some (map_option dl_len (docs' f))"
    by (elim exE conjE) (rule that; assumption)
  have "doc_len_of s' 3 = Some (map_option dl_len (docs' 3))" "doc_len_of s' 2 = Some (map_option dl_len (docs' 2))" using l by blast+
  moreover have "dl_len (doc_record 3 [(7, 2), (9, 1)]) = 3" by (simp add: doc_record_def t clamp_u16_def)
  ultimately show ?thesis using s x c by (cases r) auto
qed

end
