(* ===== verification/Engine_Verbs.thy ===== *)
theory Engine_Verbs
  imports Similar Journal Storage
begin

text \<open>
  The public verbs of \<open>Memory\<close> and the replay of a journal, \<open>crates/plugmem-core/src/memory.rs\<close>. A verb runs
  over the engine and the caller's storage: it validates, executes through the same internal methods as
  replay, and appends one journal record. The storage is the argument \<open>ap\<close>, its \<open>append_journal\<close> with a
  formatted error on the left. \<open>replay\<close> takes the re-execution of a \<open>Maintain\<close> record as an argument.
\<close>

section \<open>The engine with its storage\<close>

type_synonym 'st appender = "bytes \<Rightarrow> 'st \<Rightarrow> (bytes + unit) \<times> 'st"

definition on_memory :: "(memory, 'a) effect \<Rightarrow> (memory \<times> 'st, 'a) effect" where
  "on_memory f = zoom fst (\<lambda>m s. (m, snd s)) f"

definition append_entry :: "'st appender \<Rightarrow> bytes \<Rightarrow> (memory \<times> 'st, unit) effect" where
  "append_entry ap entry s = (case ap entry (snd s) of (r, st) \<Rightarrow> Some (map_sum Storage id r, (fst s, st)))"

definition journal_op :: "platform \<Rightarrow> 'st appender \<Rightarrow> op \<Rightarrow> (memory \<times> 'st, unit) effect" where
  "journal_op E ap v = and_then (need (op_encode (pf_hash E) v [])) (append_entry ap)"

section \<open>Input checks\<close>

definition MAX_LINKS :: nat where "MAX_LINKS = 16"

definition validate_input :: "config \<Rightarrow> remember_input \<Rightarrow> core_error + unit" where
  "validate_input cfg input =
     (if cf_max_text cfg < length (ri_text input) then Inl (TooLarge ''text'' (length (ri_text input)) (cf_max_text cfg))
      else if MAX_TAGS < length (ri_tags input) then Inl (TooLarge ''tags'' (length (ri_tags input)) MAX_TAGS)
      else if MAX_LINKS < length (ri_links input) then Inl (TooLarge ''links'' (length (ri_links input)) MAX_LINKS)
      else if [] \<in> set (ri_tags input) then Inl (Invalid ''empty tag'')
      else if ri_links input \<noteq> [] \<and> ri_entity input = None then Inl (Invalid ''links require a subject entity'')
      else case ri_vector input of
        None \<Rightarrow> Inr ()
      | Some v \<Rightarrow>
          if cf_dim cfg = 0 then Inl (Invalid ''vector given but dim is 0'')
          else if length v \<noteq> cf_dim cfg then Inl (DimMismatch (length v) (cf_dim cfg)) else Inr ())"

definition checked_input :: "remember_input \<Rightarrow> (memory, unit) effect" where
  "checked_input input = and_then (gets m_cfg) (\<lambda>cfg. give (validate_input cfg input))"

section \<open>Verbs\<close>

record remember_outcome =
  ro_id :: fact_id
  ro_entity :: "entity_id option"
  ro_similar :: "similar_hint list"

datatype guarded_outcome = Stored (go_outcome: remember_outcome) (go_checked: bool) | Blocked (go_similar: "similar_hint list")

definition remember_op :: "remember_input \<Rightarrow> fact_id \<Rightarrow> fact_id \<Rightarrow> op" where
  "remember_op input revises assigned =
     Remember (ri_now input) (case ri_valid_from input of None \<Rightarrow> ri_now input | Some t \<Rightarrow> t) (ri_entity input) (ri_text input)
       (ri_tags input) (ri_links input) (case ri_vector input of None \<Rightarrow> [] | Some v \<Rightarrow> v)
       (case ri_metadata input of None \<Rightarrow> [] | Some ps \<Rightarrow> ps) revises assigned"

definition outcome_of :: "fact_id \<times> entity_id option \<Rightarrow> similar_hint list \<Rightarrow> remember_outcome" where
  "outcome_of out hints = \<lparr>ro_id = fst out, ro_entity = snd out, ro_similar = hints\<rparr>"

definition remember :: "platform \<Rightarrow> 'st appender \<Rightarrow> remember_input \<Rightarrow> bool \<Rightarrow> (memory \<times> 'st, remember_outcome) effect" where
  "remember E ap input skip_similar =
     and_then (on_memory (checked_input input)) (\<lambda>_.
     and_then (on_memory (apply_remember E input NONE_U32 None)) (\<lambda>out.
     and_then (on_memory (if skip_similar then done_with [] else reads (\<lambda>m. find_similar E m out))) (\<lambda>hints.
     and_then (journal_op E ap (remember_op input NONE_U32 (fst out))) (\<lambda>_.
       done_with (outcome_of out hints)))))"

fun remember_batch :: "platform \<Rightarrow> 'st appender \<Rightarrow> remember_input list \<Rightarrow> bool \<Rightarrow> (memory \<times> 'st, remember_outcome list) effect" where
  "remember_batch E ap [] skip_similar = done_with []"
| "remember_batch E ap (input # inputs) skip_similar =
     and_then (remember E ap input skip_similar) (\<lambda>out.
     and_then (remember_batch E ap inputs skip_similar) (\<lambda>outs. done_with (out # outs)))"

definition claim_vector_space :: "platform \<Rightarrow> 'st appender \<Rightarrow> bytes \<Rightarrow> (memory \<times> 'st, bool) effect" where
  "claim_vector_space E ap space =
     and_then (on_memory (gets (\<lambda>m. m))) (\<lambda>m.
     and_then (give (check_vector_space_claim m space)) (\<lambda>needed.
       if \<not> needed then done_with False
       else and_then (journal_op E ap (SetVectorSpace space)) (\<lambda>_.
            and_then (on_memory (modify (\<lambda>m. m\<lparr>m_vector_space := Some space\<rparr>))) (\<lambda>_. done_with True))))"

definition remember_guarded ::
  "platform \<Rightarrow> 'st appender \<Rightarrow> remember_input \<Rightarrow> bytes option \<Rightarrow> (memory \<times> 'st, guarded_outcome) effect" where
  "remember_guarded E ap input vector_space =
     and_then (on_memory (checked_input input)) (\<lambda>_.
     and_then (on_memory (gets (\<lambda>m. m))) (\<lambda>m.
     and_then (give (case vector_space of None \<Rightarrow> Inr True | Some space \<Rightarrow> check_vector_space_claim m space)) (\<lambda>_.
     and_then (need (find_similar_input E m input)) (\<lambda>r.
     and_then (give r) (\<lambda>similar.
       if similar \<noteq> [] then done_with (Blocked similar)
       else and_then (case vector_space of None \<Rightarrow> done_with True | Some space \<Rightarrow> claim_vector_space E ap space) (\<lambda>_.
            and_then (on_memory (apply_remember E input NONE_U32 None)) (\<lambda>out.
            and_then (journal_op E ap (remember_op input NONE_U32 (fst out))) (\<lambda>_.
              done_with (Stored (outcome_of out []) (ri_entity input \<noteq> None))))))))))"

definition revise :: "platform \<Rightarrow> 'st appender \<Rightarrow> fact_id \<Rightarrow> remember_input \<Rightarrow> (memory \<times> 'st, remember_outcome) effect" where
  "revise E ap target input =
     and_then (on_memory (checked_input input)) (\<lambda>_.
     and_then (on_memory (reads (\<lambda>m. check_revisable m target))) (\<lambda>r.
     and_then (give r) (\<lambda>_.
     and_then (on_memory (apply_remember E input target None)) (\<lambda>out.
     and_then (on_memory (close_target E target (case ri_valid_from input of None \<Rightarrow> ri_now input | Some t \<Rightarrow> t))) (\<lambda>_.
     and_then (journal_op E ap (remember_op input target (fst out))) (\<lambda>_.
       done_with (outcome_of out [])))))))"

definition forget :: "platform \<Rightarrow> 'st appender \<Rightarrow> u64 \<Rightarrow> fact_id \<Rightarrow> (memory \<times> 'st, bool) effect" where
  "forget E ap now fid =
     and_then (on_memory (apply_forget E fid)) (\<lambda>fresh.
     and_then (journal_op E ap (Forget now fid)) (\<lambda>_. done_with fresh))"

definition remove_tag :: "platform \<Rightarrow> 'st appender \<Rightarrow> u64 \<Rightarrow> bytes \<Rightarrow> (memory \<times> 'st, u32) effect" where
  "remove_tag E ap now tag =
     (if tag = [] then fail_with (Invalid ''empty tag'')
      else and_then (on_memory (apply_remove_tag E now tag)) (\<lambda>affected.
           and_then (if affected \<noteq> 0 then journal_op E ap (RemoveTag now tag) else done_with ()) (\<lambda>_. done_with affected)))"

definition link_verb :: "platform \<Rightarrow> 'st appender \<Rightarrow> u64 \<Rightarrow> bytes \<Rightarrow> bytes \<Rightarrow> bytes \<Rightarrow> fact_id option \<Rightarrow> (memory \<times> 'st, unit) effect" where
  "link_verb E ap now src rel dst provenance =
     and_then (on_memory (apply_link E now src rel dst (id_from_opt provenance))) (\<lambda>_.
       journal_op E ap (Link now src rel dst (id_from_opt provenance)))"

definition unlink_verb :: "platform \<Rightarrow> 'st appender \<Rightarrow> u64 \<Rightarrow> bytes \<Rightarrow> bytes \<Rightarrow> bytes \<Rightarrow> (memory \<times> 'st, bool) effect" where
  "unlink_verb E ap now src rel dst =
     and_then (on_memory (apply_unlink E now src rel dst)) (\<lambda>fresh.
     and_then (journal_op E ap (Unlink now src rel dst)) (\<lambda>_. done_with fresh))"

section \<open>Replay\<close>

record open_report =
  op_replayed :: nat
  op_skipped :: nat
  op_truncated :: bool

text \<open>One record: \<open>True\<close> when it was applied, \<open>False\<close> when it was skipped as already contained.\<close>

definition replay_remember :: "platform \<Rightarrow> remember_input \<Rightarrow> fact_id \<Rightarrow> fact_id \<Rightarrow> (memory, bool) effect" where
  "replay_remember E input revises assigned =
     and_then (gets m_next_fact) (\<lambda>next.
     and_then (gets m_cfg) (\<lambda>cfg.
       if assigned < next then done_with False
       else if assigned \<noteq> next then fail_with (Corrupt_core ''journal fact ids are not contiguous'')
       else if (case ri_vector input of None \<Rightarrow> False | Some v \<Rightarrow> length v \<noteq> cf_dim cfg)
         then fail_with (Corrupt_core ''journal vector dimension disagrees with dim'')
       else if MAX_TAGS < length (ri_tags input) then fail_with (Corrupt_core ''journal record carries too many tags'')
       else
         and_then (case id_some revises of
             None \<Rightarrow> done_with ()
           | Some target \<Rightarrow> and_then (reads (\<lambda>m. check_revisable m target)) (\<lambda>r.
               give (case r of Inl _ \<Rightarrow> Inl (Corrupt_core ''journal revises an unrevisable fact'') | Inr _ \<Rightarrow> Inr ()))) (\<lambda>_.
         and_then (apply_remember E input revises None) (\<lambda>_.
         and_then (case id_some revises of
             None \<Rightarrow> done_with ()
           | Some target \<Rightarrow> close_target E target (case ri_valid_from input of None \<Rightarrow> ri_now input | Some t \<Rightarrow> t)) (\<lambda>_.
           done_with True)))))"

definition replay_forget :: "platform \<Rightarrow> fact_id \<Rightarrow> (memory, bool) effect" where
  "replay_forget E fid m = map_option (\<lambda>(r, m). ((case r of
       Inl (NotFound _) \<Rightarrow> Inl (Corrupt_core ''journal forgets an unknown fact'')
     | Inl e \<Rightarrow> Inl e
     | Inr _ \<Rightarrow> Inr True), m)) (apply_forget E fid m)"

fun replay_op :: "platform \<Rightarrow> (u8 \<Rightarrow> u32 \<Rightarrow> (memory, unit) effect) \<Rightarrow> op \<Rightarrow> (memory, bool) effect" where
  "replay_op E maintain (Remember now valid_from entity body tags links vector metadata revises assigned) =
     replay_remember E \<lparr>ri_now = now, ri_text = body, ri_entity = entity, ri_tags = tags, ri_links = links,
       ri_vector = (if vector = [] then None else Some vector), ri_valid_from = Some valid_from,
       ri_metadata = (if metadata = [] then None else Some metadata)\<rparr> revises assigned"
| "replay_op E maintain (Forget now fid) = replay_forget E fid"
| "replay_op E maintain (Link now src rel dst provenance) = and_then (apply_link E now src rel dst provenance) (\<lambda>_. done_with True)"
| "replay_op E maintain (Unlink now src rel dst) = and_then (apply_unlink E now src rel dst) (\<lambda>_. done_with True)"
| "replay_op E maintain (RemoveTag now tag) = and_then (apply_remove_tag E now tag) (\<lambda>_. done_with True)"
| "replay_op E maintain (SetVectorSpace space) = and_then (apply_set_vector_space space) (\<lambda>_. done_with True)"
| "replay_op E maintain (Maintain now mode budget) = and_then (maintain mode budget) (\<lambda>_. done_with True)"

fun replay_entries :: "platform \<Rightarrow> (u8 \<Rightarrow> u32 \<Rightarrow> (memory, unit) effect) \<Rightarrow> journal_entry list \<Rightarrow> open_report \<Rightarrow> (memory, open_report) effect" where
  "replay_entries E maintain [] report = done_with report"
| "replay_entries E maintain (e # es) report =
     and_then (give (op_decode (je_op e) (je_payload e))) (\<lambda>v.
     and_then (replay_op E maintain v) (\<lambda>applied.
       replay_entries E maintain es (if applied then report\<lparr>op_replayed := op_replayed report + 1\<rparr>
         else report\<lparr>op_skipped := op_skipped report + 1\<rparr>)))"

definition replay :: "platform \<Rightarrow> (u8 \<Rightarrow> u32 \<Rightarrow> (memory, unit) effect) \<Rightarrow> bytes \<Rightarrow> (memory, open_report) effect" where
  "replay E maintain journal =
     and_then (give (scan (pf_hash E) journal)) (\<lambda>js.
       replay_entries E maintain (js_entries js) \<lparr>op_replayed = 0, op_skipped = 0, op_truncated = js_truncated js\<rparr>)"

text \<open>\<open>from_bytes\<close>; the loader of a snapshot is an argument.\<close>

definition from_bytes ::
  "platform \<Rightarrow> (u8 \<Rightarrow> u32 \<Rightarrow> (memory, unit) effect) \<Rightarrow> (bytes \<Rightarrow> config \<Rightarrow> (core_error + memory) option) \<Rightarrow> bytes option \<Rightarrow> bytes \<Rightarrow> config \<Rightarrow>
    (core_error + memory \<times> open_report) option" where
  "from_bytes E maintain load snapshot journal cfg = do {
     r \<leftarrow> (case snapshot of Some bs \<Rightarrow> load bs cfg | None \<Rightarrow> Some (memory_new cfg));
     (case r of
        Inl e \<Rightarrow> Some (Inl e)
      | Inr m \<Rightarrow> map_option (\<lambda>(r, m). map_sum id (\<lambda>report. (m, report)) r) (replay E maintain journal m)) }"

end
