(* ===== verification/Engine_Replay.thy ===== *)
theory Engine_Replay
  imports Engine_Verbs Journal_Theorems
begin

text \<open>
  Recovery: replaying what survives of the journal puts the engine back into the state it was in after
  some of its verbs. A verb executes through the internal methods that replay uses, so it is enough that
  a verb writes at most one record, that the record decodes to the operation, and that replaying the
  operation from the state before the verb gives the state after it. A verb that fails and leaves no trace
  writes no record; a verb that fails after it has written has none either, and is what a history must not
  hold for this to be true (\<open>clean_history\<close>).
\<close>

section \<open>What a verb leaves in the journal\<close>

datatype verb =
    Do_remember remember_input bool
  | Do_guarded remember_input
  | Do_revise fact_id remember_input
  | Do_forget u64 fact_id
  | Do_remove_tag u64 bytes
  | Do_link u64 bytes bytes bytes "fact_id option"
  | Do_unlink u64 bytes bytes bytes
  | Do_claim bytes

definition ignored :: "('s, 'a) effect \<Rightarrow> ('s, unit) effect" where
  "ignored f = and_then f (\<lambda>_. done_with ())"

fun run_verb :: "platform \<Rightarrow> 'st appender \<Rightarrow> verb \<Rightarrow> (memory \<times> 'st, unit) effect" where
  "run_verb E ap (Do_remember input skip) = ignored (remember E ap input skip)"
| "run_verb E ap (Do_guarded input) = ignored (remember_guarded E ap input None)"
| "run_verb E ap (Do_revise target input) = ignored (revise E ap target input)"
| "run_verb E ap (Do_forget now fid) = ignored (forget E ap now fid)"
| "run_verb E ap (Do_remove_tag now tag) = ignored (remove_tag E ap now tag)"
| "run_verb E ap (Do_link now src rel dst prov) = link_verb E ap now src rel dst prov"
| "run_verb E ap (Do_unlink now src rel dst) = ignored (unlink_verb E ap now src rel dst)"
| "run_verb E ap (Do_claim space) = ignored (claim_vector_space E ap space)"

text \<open>
  A caller that goes on after an error: every verb runs, whatever it answers; a panic ends the run. Such a history is clean when
  every verb that fails leaves the engine and the storage as they were.
\<close>

fun run_history :: "platform \<Rightarrow> 'st appender \<Rightarrow> verb list \<Rightarrow> memory \<times> 'st \<Rightarrow> (memory \<times> 'st) option" where
  "run_history E ap [] s = Some s"
| "run_history E ap (v # vs) s = (case run_verb E ap v s of None \<Rightarrow> None | Some (_, t) \<Rightarrow> run_history E ap vs t)"

fun clean_history :: "platform \<Rightarrow> 'st appender \<Rightarrow> verb list \<Rightarrow> memory \<times> 'st \<Rightarrow> bool" where
  "clean_history E ap [] s = True"
| "clean_history E ap (v # vs) s = (case run_verb E ap v s of
       None \<Rightarrow> False
     | Some (Inl _, t) \<Rightarrow> t = s \<and> clean_history E ap vs t
     | Some (Inr _, t) \<Rightarrow> clean_history E ap vs t)"

text \<open>Strings are UTF-8 and sizes fit 32 bits, as the code's types and the journal's record size have it.\<close>

definition input_ok :: "remember_input \<Rightarrow> bool" where
  "input_ok i \<longleftrightarrow> str_ok (ri_text i) \<and> entity_ok (ri_entity i) \<and> list_all str_ok (ri_tags i) \<and>
     list_all (\<lambda>x. str_ok (fst x) \<and> str_ok (snd x)) (ri_links i) \<and>
     (case ri_vector i of None \<Rightarrow> True | Some v \<Rightarrow> vec_ok v) \<and> (case ri_metadata i of None \<Rightarrow> True | Some ps \<Rightarrow> links_ok (2 ^ 32) ps)"

fun verb_ok :: "verb \<Rightarrow> bool" where
  "verb_ok (Do_remember input skip) = input_ok input"
| "verb_ok (Do_guarded input) = input_ok input"
| "verb_ok (Do_revise target input) = (input_ok input \<and> target \<noteq> NONE_U32)"
| "verb_ok (Do_forget now fid) = True"
| "verb_ok (Do_remove_tag now tag) = str_ok tag"
| "verb_ok (Do_link now src rel dst prov) = (str_ok src \<and> str_ok rel \<and> str_ok dst)"
| "verb_ok (Do_unlink now src rel dst) = (str_ok src \<and> str_ok rel \<and> str_ok dst)"
| "verb_ok (Do_claim space) = str_ok space"

text \<open>Refusals that come before the first write: the checks of the input, of the target, of the names, and of the vector space.\<close>

definition unnamed_subject :: "platform \<Rightarrow> remember_input \<Rightarrow> bool" where
  "unnamed_subject E input \<longleftrightarrow> (case ri_entity input of None \<Rightarrow> False | Some name \<Rightarrow> normalize_name E name = [])"

fun early_refusal :: "platform \<Rightarrow> memory \<Rightarrow> verb \<Rightarrow> bool" where
  "early_refusal E m (Do_remember input skip) = (isl (validate_input (m_cfg m) input) \<or> unnamed_subject E input)"
| "early_refusal E m (Do_guarded input) = (isl (validate_input (m_cfg m) input) \<or>
     (case find_similar_input E m input of None \<Rightarrow> False | Some r \<Rightarrow> isl r))"
| "early_refusal E m (Do_revise target input) = (isl (validate_input (m_cfg m) input) \<or>
     (case check_revisable m target of None \<Rightarrow> False | Some r \<Rightarrow> isl r \<or> unnamed_subject E input))"
| "early_refusal E m (Do_forget now fid) = (m_fact m fid = Some None)"
| "early_refusal E m (Do_remove_tag now tag) = (tag = [])"
| "early_refusal E m (Do_link now src rel dst prov) = (normalize_name E src = [] \<or>
     normalize_name E dst = [] \<and> (case lookup_entity_by_norm E m (normalize_name E src) of Some (Some _) \<Rightarrow> True | _ \<Rightarrow> False))"
| "early_refusal E m (Do_unlink now src rel dst) = False"
| "early_refusal E m (Do_claim space) = isl (check_vector_space_claim m space)"

lemma and_then_InrE:
  assumes "and_then m f s = Some (Inr r, t)"
  obtains x s' where "m s = Some (Inr x, s')" "f x s' = Some (Inr r, t)"
  using assms by (auto elim: and_then_SomeE)

lemma ignored_InrE:
  assumes "ignored f s = Some (Inr u, t)"
  obtains x where "f s = Some (Inr x, t)"
  using assms unfolding ignored_def by (auto elim!: and_then_InrE)

lemma on_memory_InrE:
  assumes "on_memory f s = Some (Inr x, t)"
  obtains "f (fst s) = Some (Inr x, fst t)" "snd t = snd s"
  using assms unfolding on_memory_def zoom_def by auto

lemma on_memory_gets [simp]: "on_memory (gets f) s = Some (Inr (f (fst s)), s)"
  by (simp add: on_memory_def zoom_def)

lemma need_reads_Inr [simp]:
  "need x s = Some (Inr v, t) \<longleftrightarrow> x = Some v \<and> t = s"
  "reads f s = Some (Inr v, t) \<longleftrightarrow> f s = Some v \<and> t = s"
  by (auto simp: need_def reads_def)

section \<open>Remembering again\<close>

definition given_from :: "remember_input \<Rightarrow> u64" where
  "given_from i = (case ri_valid_from i of None \<Rightarrow> ri_now i | Some t \<Rightarrow> t)"

text \<open>The input as the journal gives it back.\<close>

definition journal_input :: "remember_input \<Rightarrow> remember_input" where
  "journal_input i = i\<lparr>ri_valid_from := Some (given_from i),
     ri_vector := (case ri_vector i of Some (x # xs) \<Rightarrow> Some (x # xs) | _ \<Rightarrow> None),
     ri_metadata := (case ri_metadata i of Some (p # ps) \<Rightarrow> Some (p # ps) | _ \<Rightarrow> None)\<rparr>"

lemma replay_remember_op:
  "replay_op E maintain (remember_op i revises assigned) = replay_remember E (journal_input i) revises assigned"
  by (cases i) (auto simp: remember_op_def journal_input_def given_from_def split: option.splits list.splits)

lemma apply_journal_input:
  assumes "ri_vector i \<noteq> Some []"
  shows "apply_remember E (journal_input i) revises copy = apply_remember E i revises copy"
proof -
  have "ri_vector (journal_input i) = ri_vector i" using assms by (auto simp: journal_input_def split: option.splits list.splits)
  moreover have "store_metadata (ri_metadata (journal_input i)) = store_metadata (ri_metadata i)"
    by (auto simp: store_metadata_def journal_input_def split: option.splits list.splits)
  moreover have "ri_valid_from (journal_input i) = Some (given_from i)" "ri_now (journal_input i) = ri_now i"
    "ri_text (journal_input i) = ri_text i" "ri_entity (journal_input i) = ri_entity i"
    "ri_tags (journal_input i) = ri_tags i" "ri_links (journal_input i) = ri_links i"
    by (simp_all add: journal_input_def)
  ultimately show ?thesis unfolding apply_remember_def by (simp add: given_from_def cong: option.case_cong)
qed

lemma apply_remember_id:
  assumes "apply_remember E i revises copy m = Some (Inr out, m')"
  shows "fst out = m_next_fact m"
  using assms unfolding apply_remember_def by (auto elim!: and_then_InrE split: prod.splits)

lemma checked_inputE:
  assumes "checked_input i m = Some (Inr u, m')"
  shows "m' = m" and "length (ri_tags i) \<le> MAX_TAGS" and "length (ri_links i) \<le> MAX_LINKS" and "ri_vector i \<noteq> Some []"
    and "ri_vector i = Some v \<Longrightarrow> length v = cf_dim (m_cfg m)"
  using assms unfolding checked_input_def
  by (auto elim!: and_then_InrE simp: validate_input_def split: if_splits option.splits)

lemma remember_op_ok:
  assumes "input_ok i" and "length (ri_tags i) \<le> MAX_TAGS" and "length (ri_links i) \<le> MAX_LINKS"
  shows "op_ok (remember_op i revises assigned)"
  using assms by (auto simp: remember_op_def input_ok_def strs_ok_def links_ok_def vec_ok_def MAX_TAGS_def MAX_LINKS_def split: option.splits)

lemma replay_remember_ok:
  assumes c: "checked_input i m = Some (Inr u, m)"
    and rv: "revises = NONE_U32 \<or> check_revisable m revises = Some (Inr ())"
    and a: "apply_remember E i revises None m = Some (Inr out, m1)"
    and cl: "if revises = NONE_U32 then m' = m1 else close_target E revises (given_from i) m1 = Some (Inr (), m')"
  shows "replay_op E maintain (remember_op i revises (fst out)) m = Some (Inr True, m')"
proof -
  note ci = checked_inputE [OF c]
  have v: "case ri_vector (journal_input i) of None \<Rightarrow> True | Some v \<Rightarrow> length v = cf_dim (m_cfg m)"
    using ci(5) by (auto simp: journal_input_def split: option.splits list.splits)
  have t: "ri_tags (journal_input i) = ri_tags i" "ri_valid_from (journal_input i) = Some (given_from i)" by (simp_all add: journal_input_def)
  have ap: "apply_remember E (journal_input i) revises None m = Some (Inr out, m1)" using apply_journal_input [OF ci(4)] a by simp
  have chk: "(case id_some revises of None \<Rightarrow> done_with ()
           | Some target \<Rightarrow> and_then (reads (\<lambda>m. check_revisable m target)) (\<lambda>r.
               give (case r of Inl _ \<Rightarrow> Inl (Corrupt_core ''journal revises an unrevisable fact'') | Inr _ \<Rightarrow> Inr ()))) m = Some (Inr (), m)"
    using rv by (auto simp: id_some_def id_is_none_def)
  have close: "(case id_some revises of None \<Rightarrow> done_with ()
           | Some target \<Rightarrow> close_target E target (case ri_valid_from (journal_input i) of None \<Rightarrow> ri_now (journal_input i) | Some t \<Rightarrow> t)) m1 = Some (Inr (), m')"
    using cl t(2) by (auto simp: id_some_def id_is_none_def split: if_splits)
  show ?thesis
    unfolding replay_remember_op replay_remember_def
    using v t(1) ci(2) apply_remember_id [OF a] chk ap close by (auto split: option.splits)
qed

section \<open>One verb, one record\<close>

text \<open>Operations that all apply, none skipped.\<close>

fun replays :: "platform \<Rightarrow> (u8 \<Rightarrow> u32 \<Rightarrow> (memory, unit) effect) \<Rightarrow> op list \<Rightarrow> memory \<Rightarrow> memory \<Rightarrow> bool" where
  "replays E maintain [] m m' \<longleftrightarrow> m' = m"
| "replays E maintain (v # vs) m m' \<longleftrightarrow> (\<exists>m1. replay_op E maintain v m = Some (Inr True, m1) \<and> replays E maintain vs m1 m')"

lemma replays_append: "replays E maintain (vs @ ws) m m' \<longleftrightarrow> (\<exists>m1. replays E maintain vs m m1 \<and> replays E maintain ws m1 m')"
  by (induction vs arbitrary: m) auto

definition writable :: "op list \<Rightarrow> bool" where
  "writable vs \<longleftrightarrow> list_all op_ok vs \<and> list_all entry_fits (map op_entry vs)"

lemma writable_simps [simp]: "writable []" "writable (v # vs) \<longleftrightarrow> op_ok v \<and> entry_fits (op_entry v) \<and> writable vs"
  "writable (vs @ ws) \<longleftrightarrow> writable vs \<and> writable ws"
  by (auto simp: writable_def)

lemma replay_entries_all:
  "writable vs \<Longrightarrow> replays E maintain vs m m' \<Longrightarrow>
    replay_entries E maintain (map op_entry vs) report m = Some (Inr (report\<lparr>op_replayed := op_replayed report + length vs\<rparr>), m')"
proof (induction vs arbitrary: m report)
  case (Cons v vs)
  then obtain m1 where m1: "replay_op E maintain v m = Some (Inr True, m1)" "replays E maintain vs m1 m'" by auto
  have "op_decode (je_op (op_entry v)) (je_payload (op_entry v)) = Inr v"
    using decode_complete [of v] Cons.prems(1) by (simp add: op_entry_def entry_fits_def usize_max_def)
  then show ?case using Cons.IH [OF _ m1(2)] m1(1) Cons.prems(1) by simp
qed simp

locale journal_sink =
  fixes ap :: "'st appender" and rd :: "'st \<Rightarrow> bytes"
  assumes accepted: "ap b st = (Inr (), st') \<Longrightarrow> rd st' = rd st @ b"
begin

lemma journal_opE:
  assumes "journal_op E ap v s = Some (Inr u, t)"
  obtains "fst t = fst s" "entry_fits (op_entry v)" "rd (snd t) = rd (snd s) @ frame (pf_hash E) (op_entry v)"
proof -
  obtain entry where e: "op_encode (pf_hash E) v [] = Some entry" "append_entry ap entry s = Some (Inr u, t)"
    using assms unfolding journal_op_def by (auto elim!: and_then_InrE)
  obtain r st where r: "ap entry (snd s) = (r, st)" by fastforce
  have "r = Inr ()" "t = (fst s, st)" using e(2) r by (cases r; simp add: append_entry_def)+
  then show ?thesis using that e(1) r accepted [of entry "snd s" st] by (auto simp: op_encode_eq split: if_splits)
qed

lemma one_record:
  assumes "journal_op E ap v s' = Some (Inr u, t)" and "op_ok v" and "snd s' = snd s"
    and "replay_op E maintain v (fst s) = Some (Inr True, fst s')"
  shows "\<exists>vs. length vs \<le> 1 \<and> writable vs \<and> rd (snd t) = rd (snd s) @ frames (pf_hash E) (map op_entry vs) \<and>
    replays E maintain vs (fst s) (fst t)"
  using assms by (intro exI [of _ "[v]"]) (auto elim!: journal_opE)

lemma no_record:
  "s = t \<Longrightarrow> \<exists>vs. length vs \<le> 1 \<and> writable vs \<and> rd (snd t) = rd (snd s) @ frames (pf_hash E) (map op_entry vs) \<and>
    replays E maintain vs (fst s) (fst t)"
  by (intro exI [of _ "[]"]) simp

lemma remember_step:
  assumes c: "on_memory (checked_input i) s = Some (Inr u, s1)" and a: "on_memory (apply_remember E i NONE_U32 None) s1 = Some (Inr out, s2)"
    and j: "journal_op E ap (remember_op i NONE_U32 (fst out)) s2 = Some (Inr w, t)" and ok: "input_ok i"
  shows "\<exists>vs. length vs \<le> 1 \<and> writable vs \<and> rd (snd t) = rd (snd s) @ frames (pf_hash E) (map op_entry vs) \<and>
    replays E maintain vs (fst s) (fst t)"
proof -
  have c': "checked_input i (fst s) = Some (Inr u, fst s1)" "snd s1 = snd s" using c by (auto elim: on_memory_InrE)
  have s1: "fst s1 = fst s" using checked_inputE(1) [OF c'(1)] by simp
  have a': "apply_remember E i NONE_U32 None (fst s) = Some (Inr out, fst s2)" "snd s2 = snd s"
    using a c'(2) s1 by (auto elim: on_memory_InrE)
  show ?thesis
  proof (rule one_record [OF j])
    show "op_ok (remember_op i NONE_U32 (fst out))" using remember_op_ok [OF ok] checked_inputE(2,3) [OF c'(1)] by blast
    show "replay_op E maintain (remember_op i NONE_U32 (fst out)) (fst s) = Some (Inr True, fst s2)"
      by (rule replay_remember_ok [OF _ _ a'(1)]) (use c'(1) s1 in auto)
  qed (rule a'(2))
qed

lemma revise_step:
  assumes r: "revise E ap target i s = Some (Inr out, t)" and ok: "input_ok i" and tg: "target \<noteq> NONE_U32"
  shows "\<exists>vs. length vs \<le> 1 \<and> writable vs \<and> rd (snd t) = rd (snd s) @ frames (pf_hash E) (map op_entry vs) \<and>
    replays E maintain vs (fst s) (fst t)"
proof -
  obtain u s1 k s2 o' s3 s4 w where c: "on_memory (checked_input i) s = Some (Inr u, s1)"
    and k: "on_memory (reads (\<lambda>m. check_revisable m target)) s1 = Some (Inr k, s2)" "k = Inr ()"
    and a: "on_memory (apply_remember E i target None) s2 = Some (Inr o', s3)"
    and cl: "on_memory (close_target E target (given_from i)) s3 = Some (Inr (), s4)"
    and j: "journal_op E ap (remember_op i target (fst o')) s4 = Some (Inr w, t)"
    using r unfolding revise_def given_from_def [symmetric] by (auto elim!: and_then_InrE)
  have c': "checked_input i (fst s) = Some (Inr u, fst s1)" "snd s1 = snd s" using c by (auto elim: on_memory_InrE)
  have s1: "fst s1 = fst s" using checked_inputE(1) [OF c'(1)] by simp
  have k': "check_revisable (fst s) target = Some (Inr ())" "fst s2 = fst s" "snd s2 = snd s"
    using k s1 c'(2) by (auto elim: on_memory_InrE)
  have a': "apply_remember E i target None (fst s) = Some (Inr o', fst s3)" "snd s3 = snd s"
    using a k' by (auto elim: on_memory_InrE)
  have cl': "close_target E target (given_from i) (fst s3) = Some (Inr (), fst s4)" "snd s4 = snd s"
    using cl a'(2) by (auto elim: on_memory_InrE)
  show ?thesis
  proof (rule one_record [OF j])
    show "op_ok (remember_op i target (fst o'))" using remember_op_ok [OF ok] checked_inputE(2,3) [OF c'(1)] by blast
    show "replay_op E maintain (remember_op i target (fst o')) (fst s) = Some (Inr True, fst s4)"
      by (rule replay_remember_ok [OF _ _ a'(1)]) (use c'(1) s1 k'(1) cl'(1) tg in auto)
  qed (rule cl'(2))
qed

lemma forget_step:
  assumes "forget E ap now fid s = Some (Inr out, t)"
  shows "\<exists>vs. length vs \<le> 1 \<and> writable vs \<and> rd (snd t) = rd (snd s) @ frames (pf_hash E) (map op_entry vs) \<and>
    replays E maintain vs (fst s) (fst t)"
proof -
  obtain fr s1 w where a: "on_memory (apply_forget E fid) s = Some (Inr fr, s1)" and j: "journal_op E ap (Forget now fid) s1 = Some (Inr w, t)"
    using assms unfolding forget_def by (auto elim!: and_then_InrE)
  have a': "apply_forget E fid (fst s) = Some (Inr fr, fst s1)" "snd s1 = snd s" using a by (auto elim: on_memory_InrE)
  show ?thesis by (rule one_record [OF j]) (use a' in \<open>auto simp: replay_forget_def\<close>)
qed

lemma retag_none: "retag_each E now tag targets n m = Some (Inr r, m') \<Longrightarrow> n \<le> r"
proof (induction targets arbitrary: n m)
  case (Cons x xs)
  then obtain m1 where "retag_each E now tag xs (saturating_succ n) m1 = Some (Inr r, m')" by (auto elim!: and_then_InrE)
  then have "saturating_succ n \<le> r" by (rule Cons.IH)
  moreover have "n \<le> saturating_succ n"
  proof (cases "n = - 1")
    case False
    then have "unat n \<noteq> 2 ^ 32 - 1" by (simp add: word_unat_eq_iff unsigned_minus_1_eq_mask mask_eq_exp_minus_1)
    then have "Suc (unat n) < 2 ^ 32" using unsigned_less [where ?'a = nat, of n] by simp
    then show ?thesis using False by (simp add: saturating_succ_def word_le_nat_alt unat_word_ariths)
  qed (simp add: saturating_succ_def)
  ultimately show ?case by simp
qed simp

lemma remove_tag_step:
  assumes r: "remove_tag E ap now tag s = Some (Inr n, t)" and ok: "str_ok tag"
  shows "\<exists>vs. length vs \<le> 1 \<and> writable vs \<and> rd (snd t) = rd (snd s) @ frames (pf_hash E) (map op_entry vs) \<and>
    replays E maintain vs (fst s) (fst t)"
proof -
  obtain k s1 w where a: "on_memory (apply_remove_tag E now tag) s = Some (Inr k, s1)"
    and j: "(if k \<noteq> 0 then journal_op E ap (RemoveTag now tag) else done_with ()) s1 = Some (Inr w, t)"
    using r unfolding remove_tag_def by (auto elim!: and_then_InrE split: if_splits)
  have a': "apply_remove_tag E now tag (fst s) = Some (Inr k, fst s1)" "snd s1 = snd s" using a by (auto elim: on_memory_InrE)
  show ?thesis
  proof (cases "k = 0")
    case True
    have "fst s1 = fst s"
    proof -
      have "m1 = m" if *: "retag_each E now tag targets 0 m = Some (Inr 0, m1)" for targets m m1
      proof (cases targets)
        case (Cons x xs)
        then obtain m2 where "retag_each E now tag xs (saturating_succ 0) m2 = Some (Inr 0, m1)" using * by (auto elim!: and_then_InrE)
        from retag_none [OF this] show ?thesis by (simp add: saturating_succ_def split: if_splits)
      qed (use * in simp)
      then show ?thesis using a'(1) True unfolding apply_remove_tag_def by (auto elim!: and_then_InrE split: option.splits)
    qed
    then have "s = t" using True j a'(2) by (simp add: prod_eq_iff)
    then show ?thesis by (rule no_record)
  next
    case False
    then have j': "journal_op E ap (RemoveTag now tag) s1 = Some (Inr w, t)" using j by simp
    show ?thesis by (rule one_record [OF j']) (use a' ok in auto)
  qed
qed

lemma link_steps:
  assumes "link_verb E ap now src rel dst prov s = Some (Inr u, t)" and "str_ok src" "str_ok rel" "str_ok dst"
  shows "\<exists>vs. length vs \<le> 1 \<and> writable vs \<and> rd (snd t) = rd (snd s) @ frames (pf_hash E) (map op_entry vs) \<and>
    replays E maintain vs (fst s) (fst t)"
proof -
  obtain x s1 where a: "on_memory (apply_link E now src rel dst (id_from_opt prov)) s = Some (Inr x, s1)"
    and j: "journal_op E ap (Link now src rel dst (id_from_opt prov)) s1 = Some (Inr u, t)"
    using assms(1) unfolding link_verb_def by (auto elim!: and_then_InrE)
  have "apply_link E now src rel dst (id_from_opt prov) (fst s) = Some (Inr x, fst s1)" "snd s1 = snd s" using a by (auto elim: on_memory_InrE)
  then show ?thesis by (intro one_record [OF j]) (use assms in auto)
qed

lemma unlink_steps:
  assumes "unlink_verb E ap now src rel dst s = Some (Inr u, t)" and "str_ok src" "str_ok rel" "str_ok dst"
  shows "\<exists>vs. length vs \<le> 1 \<and> writable vs \<and> rd (snd t) = rd (snd s) @ frames (pf_hash E) (map op_entry vs) \<and>
    replays E maintain vs (fst s) (fst t)"
proof -
  obtain x s1 w where a: "on_memory (apply_unlink E now src rel dst) s = Some (Inr x, s1)"
    and j: "journal_op E ap (Unlink now src rel dst) s1 = Some (Inr w, t)"
    using assms(1) unfolding unlink_verb_def by (auto elim!: and_then_InrE)
  have "apply_unlink E now src rel dst (fst s) = Some (Inr x, fst s1)" "snd s1 = snd s" using a by (auto elim: on_memory_InrE)
  then show ?thesis by (intro one_record [OF j]) (use assms in auto)
qed

lemma claim_applies:
  "check_vector_space_claim m space = Inr True \<Longrightarrow> apply_set_vector_space space m = Some (Inr (), m\<lparr>m_vector_space := Some space\<rparr>)"
  by (auto simp: check_vector_space_claim_def apply_set_vector_space_def try_res_eq_Inr split: option.splits if_splits)

lemma claim_steps:
  assumes "claim_vector_space E ap space s = Some (Inr b, t)" and ok: "str_ok space"
  shows "\<exists>vs. length vs \<le> 1 \<and> writable vs \<and> rd (snd t) = rd (snd s) @ frames (pf_hash E) (map op_entry vs) \<and>
    replays E maintain vs (fst s) (fst t)"
proof -
  obtain needed where n: "check_vector_space_claim (fst s) space = Inr needed"
    and rest: "(if \<not> needed then done_with False
       else and_then (journal_op E ap (SetVectorSpace space)) (\<lambda>_.
            and_then (on_memory (modify (\<lambda>m. m\<lparr>m_vector_space := Some space\<rparr>))) (\<lambda>_. done_with True))) s = Some (Inr b, t)"
    using assms(1) unfolding claim_vector_space_def by (auto elim!: and_then_InrE)
  show ?thesis
  proof (cases needed)
    case False
    then have "s = t" using rest by simp
    then show ?thesis by (rule no_record)
  next
    case True
    then obtain u s1 where j: "journal_op E ap (SetVectorSpace space) s = Some (Inr u, s1)"
      and t: "fst t = (fst s1)\<lparr>m_vector_space := Some space\<rparr>" "snd t = snd s1"
      using rest by (auto elim!: and_then_InrE on_memory_InrE)
    obtain jo: "fst s1 = fst s" "entry_fits (op_entry (SetVectorSpace space))"
      "rd (snd s1) = rd (snd s) @ frame (pf_hash E) (op_entry (SetVectorSpace space))"
      by (rule journal_opE [OF j])
    have "replay_op E maintain (SetVectorSpace space) (fst s) = Some (Inr True, fst t)"
      using claim_applies [of "fst s" space] n True t(1) jo(1) by simp
    then show ?thesis using jo t(2) ok by (intro exI [of _ "[SetVectorSpace space]"]) simp
  qed
qed

lemma verb_step:
  assumes "run_verb E ap v s = Some (Inr u, t)" and "verb_ok v"
  shows "\<exists>vs. length vs \<le> 1 \<and> writable vs \<and> rd (snd t) = rd (snd s) @ frames (pf_hash E) (map op_entry vs) \<and>
    replays E maintain vs (fst s) (fst t)"
proof (cases v)
  case (Do_remember i skip)
  then obtain u s1 out s2 s3 hints w where c: "on_memory (checked_input i) s = Some (Inr u, s1)"
    and a: "on_memory (apply_remember E i NONE_U32 None) s1 = Some (Inr out, s2)"
    and h: "on_memory (if skip then done_with [] else reads (\<lambda>m. find_similar E m out)) s2 = Some (Inr hints, s3)"
    and j: "journal_op E ap (remember_op i NONE_U32 (fst out)) s3 = Some (Inr w, t)"
    using assms(1) by (auto simp: remember_def elim!: ignored_InrE and_then_InrE)
  have "s3 = s2" using h by (auto elim!: on_memory_InrE simp: prod_eq_iff split: if_splits)
  then show ?thesis using remember_step [OF c a] j assms(2) Do_remember by simp
next
  case (Do_guarded i)
  then obtain out where r: "remember_guarded E ap i None s = Some (Inr out, t)" using assms(1) by (auto elim: ignored_InrE)
  obtain u s1 similar where c: "on_memory (checked_input i) s = Some (Inr u, s1)"
    and rest: "(if similar \<noteq> [] then done_with (Blocked similar)
       else and_then (done_with True) (\<lambda>_. and_then (on_memory (apply_remember E i NONE_U32 None)) (\<lambda>out.
            and_then (journal_op E ap (remember_op i NONE_U32 (fst out))) (\<lambda>_.
              done_with (Stored (outcome_of out []) (ri_entity i \<noteq> None)))))) s1 = Some (Inr out, t)"
    using r [unfolded remember_guarded_def option.case] by (auto elim!: and_then_InrE)
  show ?thesis
  proof (cases "similar = []")
    case True
    then obtain o' s2 w where "on_memory (apply_remember E i NONE_U32 None) s1 = Some (Inr o', s2)"
      "journal_op E ap (remember_op i NONE_U32 (fst o')) s2 = Some (Inr w, t)"
      using rest by (auto elim!: and_then_InrE)
    then show ?thesis using remember_step [OF c] assms(2) Do_guarded by simp
  next
    case False
    have "s1 = s" using c checked_inputE(1) by (fastforce elim!: on_memory_InrE simp: prod_eq_iff)
    then have "s = t" using False rest by simp
    then show ?thesis by (rule no_record)
  qed
next
  case (Do_revise target i)
  then show ?thesis using assms revise_step by (auto elim!: ignored_InrE)
next
  case (Do_forget now fid)
  then show ?thesis using assms forget_step by (auto elim!: ignored_InrE)
next
  case (Do_remove_tag now tag)
  then show ?thesis using assms remove_tag_step by (auto elim!: ignored_InrE)
next
  case (Do_link now src rel dst prov)
  then show ?thesis using assms link_steps by auto
next
  case (Do_unlink now src rel dst)
  then show ?thesis using assms unlink_steps by (auto elim!: ignored_InrE)
next
  case (Do_claim space)
  then show ?thesis using assms claim_steps by (auto elim!: ignored_InrE)
qed

section \<open>A run of verbs\<close>

lemma clean_step:
  assumes "clean_history E ap (v # vs) s" and "verb_ok v"
  obtains r s1 ws where "run_verb E ap v s = Some (r, s1)" "clean_history E ap vs s1" "length ws \<le> 1" "writable ws"
    "rd (snd s1) = rd (snd s) @ frames (pf_hash E) (map op_entry ws)" "replays E maintain ws (fst s) (fst s1)"
proof -
  obtain r s1 where v: "run_verb E ap v s = Some (r, s1)" using assms(1) by (auto split: option.splits)
  have rest: "clean_history E ap vs s1" and same: "\<forall>e. r = Inl e \<longrightarrow> s1 = s" using assms(1) v by (cases r; simp)+
  have "\<exists>ws. length ws \<le> 1 \<and> writable ws \<and> rd (snd s1) = rd (snd s) @ frames (pf_hash E) (map op_entry ws) \<and> replays E maintain ws (fst s) (fst s1)"
  proof (cases r)
    case (Inl e)
    then show ?thesis using same by (intro no_record) simp
  next
    case (Inr u)
    then show ?thesis using verb_step [of E v s u s1 maintain] v assms(2) by simp
  qed
  then show ?thesis using that v rest by blast
qed

lemma trace:
  "clean_history E ap vs s \<Longrightarrow> list_all verb_ok vs \<Longrightarrow>
    \<exists>oss. length oss = length vs \<and> (\<forall>ws \<in> set oss. length ws \<le> 1 \<and> writable ws) \<and>
      (\<forall>j \<le> length vs. \<exists>sj. run_history E ap (take j vs) s = Some sj \<and>
         rd (snd sj) = rd (snd s) @ frames (pf_hash E) (map op_entry (concat (take j oss))) \<and>
         replays E maintain (concat (take j oss)) (fst s) (fst sj))"
proof (induction vs arbitrary: s)
  case (Cons v vs)
  have ok: "verb_ok v" "list_all verb_ok vs" using Cons.prems(2) by simp_all
  obtain r s1 ws where v: "run_verb E ap v s = Some (r, s1)" and rest: "clean_history E ap vs s1"
    and ws: "length ws \<le> 1" "writable ws" "rd (snd s1) = rd (snd s) @ frames (pf_hash E) (map op_entry ws)"
      "replays E maintain ws (fst s) (fst s1)"
    by (rule clean_step [OF Cons.prems(1) ok(1)])
  obtain oss where oss: "length oss = length vs" "\<forall>ws \<in> set oss. length ws \<le> 1 \<and> writable ws"
    and steps: "\<forall>j \<le> length vs. \<exists>sj. run_history E ap (take j vs) s1 = Some sj \<and>
         rd (snd sj) = rd (snd s1) @ frames (pf_hash E) (map op_entry (concat (take j oss))) \<and>
         replays E maintain (concat (take j oss)) (fst s1) (fst sj)"
    using Cons.IH [OF rest ok(2)] by auto
  have "\<exists>sj. run_history E ap (take j (v # vs)) s = Some sj \<and>
         rd (snd sj) = rd (snd s) @ frames (pf_hash E) (map op_entry (concat (take j (ws # oss)))) \<and>
         replays E maintain (concat (take j (ws # oss))) (fst s) (fst sj)" if jl: "j \<le> length (v # vs)" for j
  proof (cases j)
    case (Suc i)
    then obtain sj where "run_history E ap (take i vs) s1 = Some sj"
      "rd (snd sj) = rd (snd s1) @ frames (pf_hash E) (map op_entry (concat (take i oss)))"
      "replays E maintain (concat (take i oss)) (fst s1) (fst sj)" using steps [rule_format, of i] jl by auto
    then show ?thesis using v ws Suc by (auto simp: replays_append)
  qed simp
  then show ?case using oss ws by (intro exI [of _ "ws # oss"]) simp
qed (intro exI [of _ "[]"], simp)

end

section \<open>Refusals that leave no trace\<close>

lemmas refusal_simps = on_memory_def zoom_def checked_input_def ignored_def

lemma unnamed_fails:
  "unnamed_subject E input \<Longrightarrow>
    apply_remember E input revises copy m = Some (Inl (Invalid ''entity name has no indexable characters''), m)"
  by (auto simp: unnamed_subject_def apply_remember_def resolve_subject_def resolve_or_create_entity_def split: option.splits)

lemma early_refusal_clean:
  assumes "early_refusal E m v"
  shows "\<exists>e. run_verb E ap v (m, st) = Some (Inl e, (m, st))"
proof (cases v)
  case (Do_remember input skip)
  then show ?thesis using assms unnamed_fails [of E input NONE_U32 None m]
    by (cases "validate_input (m_cfg m) input") (auto simp: refusal_simps remember_def)
next
  case (Do_guarded input)
  then show ?thesis using assms
    by (cases "validate_input (m_cfg m) input") (auto simp: refusal_simps remember_guarded_def isl_def need_def split: option.splits)
next
  case (Do_revise target input)
  show ?thesis
  proof (cases "validate_input (m_cfg m) input")
    case (Inr _)
    then obtain r where r: "check_revisable m target = Some r" "isl r \<or> unnamed_subject E input"
      using assms Do_revise by (auto split: option.splits)
    then show ?thesis using Inr Do_revise unnamed_fails [of E input target None m]
      by (cases r) (auto simp: refusal_simps revise_def reads_def)
  qed (simp add: Do_revise refusal_simps revise_def)
next
  case (Do_link now src rel dst prov)
  then show ?thesis using assms
    by (auto simp: refusal_simps link_verb_def apply_link_def resolve_or_create_entity_def reads_def Let_def split: option.splits)
qed (use assms in \<open>auto simp: refusal_simps forget_def apply_forget_def remove_tag_def claim_vector_space_def reads_def isl_def\<close>)

section \<open>Cutting the journal\<close>

lemma scan_cut:
  assumes es: "list_all entry_fits es" and len: "length (frames h es) \<le> usize_max" and n: "n \<le> length (frames h es)"
  shows "\<exists>k trunc. k \<le> length es \<and> scan h (take n (frames h es)) = Inr \<lparr>js_entries = take k es, js_truncated = trunc\<rparr> \<and>
    length (frames h (take k es)) \<le> n \<and> (trunc \<longleftrightarrow> length (frames h (take k es)) < n) \<and>
    (k < length es \<longrightarrow> n < length (frames h (take (Suc k) es)))"
proof (cases "n < length (frames h es)")
  case True
  then obtain k m where km: "k < length es" "m < length (frame h (es ! k))" "n = length (frames h (take k es)) + m"
    using prefix_of_frames [of n h es] by auto
  then show ?thesis using scan_prefix [OF es len km(3,1,2)]
    by (intro exI [of _ k] exI [of _ "m \<noteq> 0"]) (simp add: take_Suc_conv_app_nth)
next
  case False
  then show ?thesis using scan_whole [OF es len] n by (intro exI [of _ "length es"] exI [of _ False]) simp
qed

text \<open>The last position at which a count that grows by at most one is still \<open>k\<close>.\<close>

lemma last_at:
  assumes short: "\<forall>ws \<in> set oss. length ws \<le> (1 :: nat)" and k: "k \<le> length (concat oss)"
  obtains j where "j \<le> length oss" "concat (take j oss) = take k (concat oss)"
    "\<And>i. j < i \<Longrightarrow> i \<le> length oss \<Longrightarrow> k < length (concat (take i oss))"
proof -
  let ?f = "\<lambda>j. length (concat (take j oss))"
  let ?J = "{j. j \<le> length oss \<and> ?f j \<le> k}"
  define j where "j = Max ?J"
  have fin: "finite ?J" by simp
  have "0 \<in> ?J" by simp
  then have j: "j \<le> length oss" "?f j \<le> k" using Max_in [OF fin] unfolding j_def by blast+
  have above: "k < ?f i" if "j < i" "i \<le> length oss" for i
    using Max_ge [OF fin, of i] that unfolding j_def [symmetric] by force
  have "?f j = k"
  proof (rule ccontr)
    assume "?f j \<noteq> k"
    with j have lt: "?f j < k" by simp
    then have "j < length oss" using k j by (cases "j = length oss") auto
    then have "?f (Suc j) \<le> Suc (?f j)" using short by (simp add: take_Suc_conv_app_nth)
    then show False using above [of "Suc j"] lt \<open>j < length oss\<close> by simp
  qed
  moreover have "concat oss = concat (take j oss) @ concat (drop j oss)" by (metis append_take_drop_id concat_append)
  ultimately have "concat (take j oss) = take k (concat oss)" by simp
  then show ?thesis using that j(1) above by blast
qed

lemma frames_prefix_length:
  assumes "n \<le> i"
  shows "length (frames h (take n es)) \<le> length (frames h (take i es))"
proof -
  have "take i es = take n es @ take (i - n) (drop n es)" using assms by (metis le_add_diff_inverse take_add)
  then show ?thesis by simp
qed

lemma recovery:
  assumes sink: "journal_sink ap rd"
    and start: "rd st0 = []" and clean: "clean_history E ap vs (m0, st0)" and run: "run_history E ap vs (m0, st0) = Some (m, st)" and ok: "list_all verb_ok vs"
    and len: "length (rd st) \<le> usize_max" and n: "n \<le> length (rd st)"
  shows "\<exists>j mj stj report. j \<le> length vs \<and> run_history E ap (take j vs) (m0, st0) = Some (mj, stj) \<and>
    replay E maintain (take n (rd st)) m0 = Some (Inr report, mj) \<and> op_skipped report = 0 \<and>
    length (rd stj) \<le> n \<and> (op_truncated report \<longleftrightarrow> length (rd stj) < n) \<and>
    (\<forall>i mi sti. j < i \<and> i \<le> length vs \<and> run_history E ap (take i vs) (m0, st0) = Some (mi, sti) \<longrightarrow> n < length (rd sti))"
proof -
  let ?h = "pf_hash E"
  obtain oss where oss: "length oss = length vs" "\<forall>ws \<in> set oss. length ws \<le> 1 \<and> writable ws"
    and steps: "\<forall>j \<le> length vs. \<exists>sj. run_history E ap (take j vs) (m0, st0) = Some sj \<and>
         rd (snd sj) = frames ?h (map op_entry (concat (take j oss))) \<and> replays E maintain (concat (take j oss)) m0 (fst sj)"
    using journal_sink.trace [OF sink clean ok, of maintain] start by auto
  define es where "es = map op_entry (concat oss)"
  have j: "rd st = frames ?h es" using steps run oss(1) by (auto simp: es_def dest!: spec [of _ "length vs"])
  have w: "writable (concat oss)" using oss(2) by (induction oss) auto
  then have fits: "list_all entry_fits es" by (simp add: es_def writable_def)
  obtain k trunc where k: "k \<le> length es" "scan ?h (take n (rd st)) = Inr \<lparr>js_entries = take k es, js_truncated = trunc\<rparr>"
    "length (frames ?h (take k es)) \<le> n" "trunc \<longleftrightarrow> length (frames ?h (take k es)) < n"
    "k < length es \<Longrightarrow> n < length (frames ?h (take (Suc k) es))"
    using scan_cut [OF fits _ n [unfolded j]] len unfolding j by blast
  obtain j where j': "j \<le> length oss" "concat (take j oss) = take k (concat oss)"
    "\<And>i. j < i \<Longrightarrow> i \<le> length oss \<Longrightarrow> k < length (concat (take i oss))"
    using last_at [of oss k] oss(2) k(1) unfolding es_def by auto
  have te: "map op_entry (concat (take i oss)) = take (length (concat (take i oss))) es" for i
    unfolding es_def by (metis append_eq_conv_conj append_take_drop_id concat_append take_map)
  obtain sj where sj: "run_history E ap (take j vs) (m0, st0) = Some sj"
    "rd (snd sj) = frames ?h (take k es)" "replays E maintain (take k (concat oss)) m0 (fst sj)"
    using steps j' oss(1) by (fastforce simp: es_def take_map)
  have "writable (take k (concat oss))" using w by (metis append_take_drop_id writable_simps(3))
  then have rp: "replay E maintain (take n (rd st)) m0 = Some (Inr \<lparr>op_replayed = length (take k (concat oss)), op_skipped = 0, op_truncated = trunc\<rparr>, fst sj)"
    using replay_entries_all [OF _ sj(3), of "\<lparr>op_replayed = 0, op_skipped = 0, op_truncated = trunc\<rparr>"] k(2)
    by (simp add: replay_def es_def take_map)
  have later: "n < length (rd sti)" if "j < i" "i \<le> length vs" "run_history E ap (take i vs) (m0, st0) = Some (mi, sti)" for i mi sti
  proof -
    have f: "k < length (concat (take i oss))" using j'(3) that oss(1) by simp
    have "length (concat (take i oss)) \<le> length (concat oss)" by (metis append_take_drop_id concat_append le_add1 length_append)
    then have kl: "k < length es" using f by (simp add: es_def)
    have "rd sti = frames ?h (map op_entry (concat (take i oss)))" using steps that by fastforce
    then show ?thesis using te [of i] frames_prefix_length [of "Suc k" "length (concat (take i oss))" ?h es] f k(5) [OF kl] by simp
  qed
  show ?thesis
    using j'(1) oss(1) sj rp later k(3,4)
    by (intro exI [of _ j] exI [of _ "fst sj"] exI [of _ "snd sj"] exI [of _ "\<lparr>op_replayed = length (take k (concat oss)), op_skipped = 0, op_truncated = trunc\<rparr>"]) auto
qed

end
