(* ===== verification/Engine_Theorems.thy ===== *)
theory Engine_Theorems
  imports Engine_Replay Config_Theorems Interner_Theorems
begin

text \<open>
  Guarantees of the engine: recovery from a journal cut off by a crash.
\<close>

section \<open>A new engine\<close>

lemma arena_new_exists:
  assumes "is_power_of_two n" and "n \<le> MAX_SHARDS" and "slot_ok T"
  obtains a where "arena_new T \<lparr>ac_shards = n, ac_max_bytes = c, ac_mode = md\<rparr> = Inr a"
  using assms by (simp add: arena_new_def slot_ok_def is_power_of_two_def)

lemma shard_facts:
  assumes "config_validate c = Inr ()"
  shows "is_power_of_two (cf_shards_facts c)" "is_power_of_two (cf_shards_entities c)" "is_power_of_two (cf_shards_edges c)"
    "is_power_of_two (cf_shards_temporal c)" "is_power_of_two (cf_shards_postings c)"
    "cf_shards_facts c \<le> MAX_SHARDS" "cf_shards_entities c \<le> MAX_SHARDS" "cf_shards_edges c \<le> MAX_SHARDS"
    "cf_shards_temporal c \<le> MAX_SHARDS" "cf_shards_postings c \<le> MAX_SHARDS"
  using validate_facts(1) [OF assms] by simp_all

text \<open>A valid configuration opens a new database.\<close>

lemma memory_new_exists:
  assumes c: "config_validate c = Inr ()"
  obtains m where "memory_new c = Inr m" "m_cfg m = c" "m_vecs m = vecs_new (cf_dim c) (cf_max_bytes c)" "m_vector_space m = None"
    "m_terms m = interner_new \<lparr>max_bytes = cf_max_bytes c, max_blob = cf_max_blob c\<rparr>"
    "m_texts m = blob_new \<lparr>max_bytes = cf_max_bytes c, max_blob = cf_max_blob c\<rparr>" "m_next_entity m = 0"
    "arena_new entity_record_slot \<lparr>ac_shards = cf_shards_entities c, ac_max_bytes = cf_max_bytes c, ac_mode = Uniform\<rparr> = Inr (m_entities m)"
    "arena_new entity_by_name_slot \<lparr>ac_shards = cf_shards_entities c, ac_max_bytes = cf_max_bytes c, ac_mode = Ordered\<rparr> = Inr (m_by_name m)"
proof -
  note f = shard_facts [OF c]
  have new: "\<exists>a. arena_new T \<lparr>ac_shards = n, ac_max_bytes = x, ac_mode = md\<rparr> = Inr a"
    if "slot_ok T" "n \<in> {cf_shards_facts c, cf_shards_entities c, cf_shards_edges c, cf_shards_temporal c, cf_shards_postings c}" for T n x md
    using that f arena_new_exists [of n T x md] by (elim insertE) blast+
  obtain a1 where a1: "arena_new fact_record_slot \<lparr>ac_shards = cf_shards_facts c, ac_max_bytes = cf_max_bytes c, ac_mode = Uniform\<rparr> = Inr a1"
    using new fr_codec.layout_ok by blast
  obtain a2 where a2: "arena_new fact_aux_slot \<lparr>ac_shards = cf_shards_facts c, ac_max_bytes = cf_max_bytes c, ac_mode = Uniform\<rparr> = Inr a2"
    using new fa_codec.layout_ok by blast
  obtain a3 where a3: "arena_new entity_record_slot \<lparr>ac_shards = cf_shards_entities c, ac_max_bytes = cf_max_bytes c, ac_mode = Uniform\<rparr> = Inr a3"
    using new en_codec.layout_ok by blast
  obtain a4 where a4: "arena_new entity_by_name_slot \<lparr>ac_shards = cf_shards_entities c, ac_max_bytes = cf_max_bytes c, ac_mode = Ordered\<rparr> = Inr a4"
    using new bn_codec.layout_ok by blast
  obtain a5 where a5: "arena_new edge_slot_slot \<lparr>ac_shards = cf_shards_edges c, ac_max_bytes = cf_max_bytes c, ac_mode = Ordered\<rparr> = Inr a5"
    using new es_codec.layout_ok by blast
  obtain a6 where a6: "arena_new edge_history_slot_slot \<lparr>ac_shards = cf_shards_edges c, ac_max_bytes = cf_max_bytes c, ac_mode = Ordered\<rparr> = Inr a6"
    using new eh_codec.layout_ok by blast
  obtain a7 where a7: "arena_new temporal_slot_slot \<lparr>ac_shards = cf_shards_temporal c, ac_max_bytes = cf_max_bytes c, ac_mode = Ordered\<rparr> = Inr a7"
    using new ts_codec.layout_ok by blast
  obtain a8 where a8: "arena_new doc_len_type \<lparr>ac_shards = cf_shards_postings c, ac_max_bytes = cf_max_bytes c, ac_mode = Uniform\<rparr> = Inr a8"
    using new dl_codec.layout_ok by blast
  obtain a9 where a9: "arena_new idlist_type \<lparr>ac_shards = cf_shards_postings c, ac_max_bytes = cf_max_bytes c, ac_mode = Uniform\<rparr> = Inr a9"
    using new il_codec.layout_ok by blast
  obtain a10 where a10: "arena_new idlist_type \<lparr>ac_shards = cf_shards_entities c, ac_max_bytes = cf_max_bytes c, ac_mode = Uniform\<rparr> = Inr a10"
    using new il_codec.layout_ok by blast
  note arenas = a1 a2 a3 a4 a5 a6 a7 a8 a9 a10
  have "\<exists>m. memory_new c = Inr m \<and> m_cfg m = c \<and> m_vecs m = vecs_new (cf_dim c) (cf_max_bytes c) \<and> m_vector_space m = None \<and>
      m_terms m = interner_new \<lparr>max_bytes = cf_max_bytes c, max_blob = cf_max_blob c\<rparr> \<and>
      m_texts m = blob_new \<lparr>max_bytes = cf_max_bytes c, max_blob = cf_max_blob c\<rparr> \<and> m_next_entity m = 0 \<and> m_entities m = a3 \<and> m_by_name m = a4"
    by (simp add: memory_new_def c Let_def graph_new_def bm25_new_def postings_new_def arenas)
  then show ?thesis using that a3 a4 by blast
qed

section \<open>Recovery\<close>

text \<open>
  C1. A history of verbs runs to its end, the caller going on after errors; the verbs are remember, guarded remember without a
  vector space, revise, forget, remove_tag, link, unlink and claim_vector_space, with the inputs the code's types and the size field of
  a record allow (\<open>verb_ok\<close>: UTF-8 strings, lengths within 32 bits, and no revision of the id sentinel). The history is clean: a verb that failed left
  engine and storage as they were. Then, whatever byte prefix of the journal survives a crash, replaying it over the state the
  journal starts from succeeds and gives exactly the engine state after some number of those verbs; no later verb had all its
  records within the surviving bytes, nothing is skipped, and a truncated tail is reported exactly when the cut is inside a
  record. The whole journal reproduces the live engine.

  The second part says which failures are clean whatever the state: those of the input checks, of a target that is unknown,
  forgotten or closed, of a name without indexable characters met before a write, of an empty tag, of the lookup of a guarded
  remember and of a claim on a vector space. Not clean, and so outside of the claim, are verbs that fail after a write: a pool that
  is full, a second name that is refused after an entity was created, repeated metadata keys, a vector that cannot be quantised, a
  refused append (\<open>failed_link_not_replayed\<close> below). Maintenance and re-embedding are not among the verbs, nor is a guarded
  remember with a vector space, which writes two records.
\<close>

theorem recovery_reaches_verb_boundary:
  assumes "\<forall>b s s'. ap b s = (Inr (), s') \<longrightarrow> rd s' = rd s @ b"
    and "rd st0 = []" and "run_history E ap vs (m0, st0) = Some (m, st)" and "clean_history E ap vs (m0, st0)"
    and "list_all verb_ok vs" and "length (rd st) \<le> usize_max" and "n \<le> length (rd st)"
  shows "(\<exists>j mj stj report. j \<le> length vs \<and> run_history E ap (take j vs) (m0, st0) = Some (mj, stj) \<and>
      replay E maintain (take n (rd st)) m0 = Some (Inr report, mj) \<and> op_skipped report = 0 \<and>
      length (rd stj) \<le> n \<and> (op_truncated report \<longleftrightarrow> length (rd stj) < n) \<and>
      (\<forall>i mi sti. j < i \<and> i \<le> length vs \<and> run_history E ap (take i vs) (m0, st0) = Some (mi, sti) \<longrightarrow> n < length (rd sti)) \<and>
      (n = length (rd st) \<longrightarrow> j = length vs \<and> mj = m)) \<and>
    (\<forall>v mv stv. early_refusal E mv v \<longrightarrow> (\<exists>e. run_verb E ap v (mv, stv) = Some (Inl e, (mv, stv))))"
proof
  have "journal_sink ap rd" using assms(1) by unfold_locales simp
  from recovery [OF this assms(2,4,3,5-7), of maintain] obtain j mj stj report where r: "j \<le> length vs"
    "run_history E ap (take j vs) (m0, st0) = Some (mj, stj)"
    "replay E maintain (take n (rd st)) m0 = Some (Inr report, mj)" "op_skipped report = 0"
    "length (rd stj) \<le> n" "op_truncated report \<longleftrightarrow> length (rd stj) < n"
    "\<forall>i mi sti. j < i \<and> i \<le> length vs \<and> run_history E ap (take i vs) (m0, st0) = Some (mi, sti) \<longrightarrow> n < length (rd sti)"
    by (elim exE conjE) (rule that; assumption)
  have "j = length vs \<and> mj = m" if n: "n = length (rd st)"
  proof -
    have "j = length vs"
    proof (rule ccontr)
      assume "j \<noteq> length vs"
      with r(1) have "j < length vs" by simp
      then show False using r(7) [rule_format, of "length vs" m st] assms(3) n by simp
    qed
    then show ?thesis using r(2) assms(3) by simp
  qed
  with r show "\<exists>j mj stj report. j \<le> length vs \<and> run_history E ap (take j vs) (m0, st0) = Some (mj, stj) \<and>
      replay E maintain (take n (rd st)) m0 = Some (Inr report, mj) \<and> op_skipped report = 0 \<and>
      length (rd stj) \<le> n \<and> (op_truncated report \<longleftrightarrow> length (rd stj) < n) \<and>
      (\<forall>i mi sti. j < i \<and> i \<le> length vs \<and> run_history E ap (take i vs) (m0, st0) = Some (mi, sti) \<longrightarrow> n < length (rd sti)) \<and>
      (n = length (rd st) \<longrightarrow> j = length vs \<and> mj = m)"
    by blast
qed (intro allI impI, rule early_refusal_clean)

text \<open>The in-memory storage is such a storage.\<close>

definition mem_append :: "bytes \<Rightarrow> mem_storage \<Rightarrow> (bytes + unit) \<times> mem_storage" where
  "mem_append b s = (Inr (), mem_append_journal b s)"

interpretation mem_sink: journal_sink mem_append mem_read_journal
  by unfold_locales (auto simp: mem_append_def mem.append_reads)

text \<open>A removal of the empty tag fails and leaves no trace, then a vector space is claimed, and the crash comes five bytes into the only record: the database opens as it was before the claim.\<close>

theorem recovery_reaches_verb_boundary_witness:
  "let one = (\<lambda>_ _. F32_ONE); ops = \<lparr>fl_add = one, fl_mul = one, fl_div = one, fl_max = one, fl_sqrt = \<lambda>x. x, fl_abs = \<lambda>x. x,
         fl_round_i8 = \<lambda>_. 1, fl_of_int = \<lambda>_. F32_ONE\<rparr>;
       E = \<lparr>pf_hash = \<lambda>_. 0, pf_tokens = \<lambda>_. [], pf_f32 = ops, pf_junk = \<lambda>_. []\<rparr>
   in \<exists>m0 m st report. memory_new config_default = Inr m0 \<and>
     run_history E mem_append [Do_remove_tag 7 [], Do_claim [109]] (m0, mem_storage_new) = Some (m, st) \<and> m_vector_space m = Some [109] \<and>
     replay E (\<lambda>_ _. fail_with StaleCursor) (take 5 (mem_read_journal st)) m0 = Some (Inr report, m0) \<and> op_truncated report"
proof -
  let ?one = "\<lambda>_ _. F32_ONE"
  let ?ops = "\<lparr>fl_add = ?one, fl_mul = ?one, fl_div = ?one, fl_max = ?one, fl_sqrt = \<lambda>x. x, fl_abs = \<lambda>x. x,
         fl_round_i8 = \<lambda>_. 1, fl_of_int = \<lambda>_. F32_ONE\<rparr>"
  let ?E = "\<lparr>pf_hash = \<lambda>_. 0, pf_tokens = \<lambda>_. [], pf_f32 = ?ops, pf_junk = \<lambda>_. []\<rparr>"
  let ?maintain = "\<lambda>_ _. fail_with StaleCursor"
  let ?op = "SetVectorSpace [109]" and ?vs = "[Do_remove_tag 7 [], Do_claim [109]]"
  obtain m0 where m0: "memory_new config_default = Inr m0" "m_vecs m0 = vecs_new (cf_dim config_default) (cf_max_bytes config_default)"
      "m_vector_space m0 = None"
    using memory_new_exists [OF default_valid] by blast
  have p: "length (op_payload ?op) = 5" by (simp add: put_str_def)
  have fits: "entry_fits (op_entry ?op)" by (simp add: entry_fits_def op_entry_def p del: op_payload.simps)
  have chk: "check_vector_space_claim m0 [109] = Inr True"
    using m0 by (simp add: check_vector_space_claim_def validate_vector_space_def MAX_VECTOR_SPACE_ID_BYTES_def vecs_is_empty_def
        vecs_pool_len_def vecs_new_def)
  let ?st = "mem_append_journal (frame (\<lambda>_. 0) (op_entry ?op)) mem_storage_new"
  have run: "run_history ?E mem_append ?vs (m0, mem_storage_new) = Some (m0\<lparr>m_vector_space := Some [109]\<rparr>, ?st)"
    and clean: "clean_history ?E mem_append ?vs (m0, mem_storage_new)"
    using fits chk by (simp_all add: ignored_def remove_tag_def claim_vector_space_def journal_op_def append_entry_def mem_append_def op_encode_eq on_memory_def zoom_def)
  have j: "mem_read_journal ?st = frame (\<lambda>_. 0) (op_entry ?op)" by (simp add: mem_storage_defs)
  have l: "length (mem_read_journal ?st) = 14"
    unfolding j by (simp add: length_frame op_entry_def p del: op_payload.simps)
  have ok: "list_all verb_ok ?vs" by (simp add: str_ok_def utf8_valid.simps)
  have sink: "\<forall>b s s'. mem_append b s = (Inr (), s') \<longrightarrow> mem_read_journal s' = mem_read_journal s @ b"
    using mem_sink.accepted by blast
  obtain j' mj stj report where r: "j' \<le> length ?vs"
    "run_history ?E mem_append (take j' ?vs) (m0, mem_storage_new) = Some (mj, stj)"
    "replay ?E ?maintain (take 5 (mem_read_journal ?st)) m0 = Some (Inr report, mj)"
    "length (mem_read_journal stj) \<le> 5" "op_truncated report \<longleftrightarrow> length (mem_read_journal stj) < 5"
    using recovery_reaches_verb_boundary [OF sink _ run clean ok, of 5 ?maintain] l
    by (auto simp: usize_max_def mem_storage_defs)
  have "j' < 2"
  proof (rule ccontr)
    assume "\<not> j' < 2"
    then have "j' = 2" using r(1) by simp
    then show False using r(2,4) run l by simp
  qed
  then have "j' = 0 \<or> j' = Suc 0" by linarith
  then have "mj = m0" "stj = mem_storage_new" using r(2) by (auto simp: ignored_def remove_tag_def)
  then have "replay ?E ?maintain (take 5 (mem_read_journal ?st)) m0 = Some (Inr report, m0)" "op_truncated report"
    using r(3,5) by (simp_all add: mem_storage_defs)
  then show ?thesis using m0(1) run by (auto simp: Let_def)
qed

section \<open>A failure that leaves a trace\<close>

text \<open>
  A link whose source is new and whose target has no indexable characters: it fails, but the source entity stays. Nothing is
  journaled, so that replaying the journal gives the engine without the entity, and \<open>next_entity\<close> of the two differs.
\<close>

lemma link_residue:
  assumes "normalize_name E src \<noteq> []" and "normalize_name E dst = []" and "lookup_entity_by_norm E m (normalize_name E src) = Some None"
    and "create_entity E (normalize_name E src) src now m = Some (Inr i, m1)"
  shows "link_verb E ap now src rel dst prov (m, st) = Some (Inl (Invalid ''entity name has no indexable characters''), (m1, st))"
  using assms by (simp add: link_verb_def apply_link_def resolve_or_create_entity_def on_memory_def zoom_def Let_def)

lemma first_entity:
  assumes m: "memory_new config_default = Inr m" and E: "\<forall>n. length (pf_junk E n) = PAGE_BYTES"
    and n: "utf8_valid norm" "length norm \<le> 64" "length name \<le> 64"
  shows "lookup_entity_by_norm E m norm = Some None" and "\<exists>m1. create_entity E norm name now m = Some (Inr 0, m1) \<and> m_next_entity m1 = 1"
proof -
  let ?cfg = "\<lparr>max_bytes = cf_max_bytes config_default, max_blob = cf_max_blob config_default\<rparr>"
  obtain f: "m_terms m = interner_new ?cfg" "m_texts m = blob_new ?cfg" "m_next_entity m = 0"
    "arena_new entity_record_slot \<lparr>ac_shards = cf_shards_entities config_default, ac_max_bytes = cf_max_bytes config_default, ac_mode = Uniform\<rparr> = Inr (m_entities m)"
    "arena_new entity_by_name_slot \<lparr>ac_shards = cf_shards_entities config_default, ac_max_bytes = cf_max_bytes config_default, ac_mode = Ordered\<rparr> = Inr (m_by_name m)"
    by (rule memory_new_exists [OF default_valid]) (use m in simp)
  have inv: "interner_inv (pf_hash E) (m_terms m)" "terms (m_terms m) = []" unfolding f(1) by (rule interner_new_inv)+
  show "lookup_entity_by_norm E m norm = Some None"
    using dict.find_law [OF inv(1), of norm] inv(2) by (auto simp: lookup_entity_by_norm_def lookup_term_def split: option.splits)
  have push: "\<exists>h. blob_push bs (blob_new ?cfg) = Inr (0, h)" if "length bs \<le> 64" for bs
    using that by (simp add: blob_push_def blob_new_def Let_def pool_len_def checked_add_def fresh_id_def ok_or_def config_default_def usize_max_def NONE_U32_def)
  have "in_heap (m_terms m) = blob_new ?cfg" by (simp add: f(1) interner_new_def)
  then have fits: "blob_push norm (in_heap (m_terms m)) \<noteq> Inl e" for e using push [OF n(2)] by auto
  have ok: "interner_ok (m_terms m)" "length norm < 2 ^ 32" using inv(1) n(2) by (simp_all add: interner_inv_def)
  note spec = intern_spec [OF ok(1) n(1) ok(2), of "pf_hash E"]
  obtain r u where r: "intern (pf_hash E) norm (m_terms m) = Some (r, u)" using spec by blast
  have "r \<noteq> Inl e" for e using spec r fits by auto
  then obtain t where t: "intern (pf_hash E) norm (m_terms m) = Some (Inr t, u)" using r by (cases r) auto
  obtain h where h: "blob_push name (m_texts m) = Inr (0, h)" using push n(3) f(2) by auto
  have full: "\<not> arena_full a" if "arena_new T \<lparr>ac_shards = s, ac_max_bytes = cf_max_bytes config_default, ac_mode = md\<rparr> = Inr a" for T s md a
    using that by (auto simp: arena_new_def arena_full_def arena_pool_bytes_def owned_empty_def config_default_def PAGE_BYTES_def split: if_splits)
  have room: "index_room \<lparr>ac_shards = s, ac_max_bytes = cf_max_bytes config_default, ac_mode = md\<rparr>" for s md
    by (simp add: index_room_def config_default_def PAGE_BYTES_def)
  have shards: "cf_shards_entities config_default \<le> usize_max" by (simp add: config_default_def MIN_SHARDS_def usize_max_def)
  note en = en_arena.new_view [OF f(4) _ room] and bn = bn_arena.new_view [OF f(5) _ room]
  obtain a where a: "arena_insert entity_record_slot entity_record_write (pf_junk E 8)
      \<lparr>en_id = 0, en_name = 0, en_name_term = t, en_created_at = now, en_flags = 0\<rparr> (m_entities m) = Some (Inr (True, a))"
    by (rule en_arena.insert_view [of "m_entities m" "pf_junk E 8" "\<lparr>en_id = 0, en_name = 0, en_name_term = t, en_created_at = now, en_flags = 0\<rparr>"])
      (use en full [OF f(4)] E shards in auto)
  obtain b where b: "arena_insert entity_by_name_slot entity_by_name_write (pf_junk E 9)
      \<lparr>bn_name_term = t, bn_id = 0\<rparr> (m_by_name m) = Some (Inr (True, b))"
    by (rule bn_arena.insert_view [of "m_by_name m" "pf_junk E 9" "\<lparr>bn_name_term = t, bn_id = 0\<rparr>"])
      (use bn full [OF f(5)] E shards in auto)
  show "\<exists>m1. create_entity E norm name now m = Some (Inr 0, m1) \<and> m_next_entity m1 = 1"
    using t h f(3) a b by (simp add: create_entity_def intern_term_def push_text_def insert_at_def panic_if_def modify_def and_then_def)
qed

theorem failed_link_not_replayed:
  fixes ops :: f32_ops
  defines "E \<equiv> \<lparr>pf_hash = \<lambda>_. 0, pf_tokens = \<lambda>s. if s = [97] then [[97]] else [], pf_f32 = ops, pf_junk = \<lambda>_. replicate PAGE_BYTES 0\<rparr>"
  shows "\<exists>m0 m e report. memory_new config_default = Inr m0 \<and>
    run_verb E mem_append (Do_link 7 [97] [97] [33] None) (m0, mem_storage_new) = Some (Inl e, (m, mem_storage_new)) \<and>
    replay E maintain (mem_read_journal mem_storage_new) m0 = Some (Inr report, m0) \<and> m_next_entity m0 = 0 \<and> m_next_entity m = 1"
proof -
  obtain m0 where m0: "memory_new config_default = Inr m0" "m_next_entity m0 = 0" using memory_new_exists [OF default_valid] by blast
  have n: "normalize_name E [97] = [97]" "normalize_name E [33] = []" by (simp_all add: E_def normalize_name_def)
  have j: "\<forall>n. length (pf_junk E n) = PAGE_BYTES" by (simp add: E_def)
  have a: "utf8_valid [97]" "length ([97] :: bytes) \<le> 64" by simp_all
  obtain m where m: "create_entity E [97] [97] 7 m0 = Some (Inr 0, m)" "m_next_entity m = 1"
    using first_entity(2) [OF m0(1) j a a(2)] by blast
  have none: "lookup_entity_by_norm E m0 [97] = Some None" by (rule first_entity(1) [OF m0(1) j a a(2)])
  have "run_verb E mem_append (Do_link 7 [97] [97] [33] None) (m0, mem_storage_new) =
      Some (Inl (Invalid ''entity name has no indexable characters''), (m, mem_storage_new))"
    using link_residue [of E "[97]" "[33]" m0 7 0 m] n m(1) none by simp
  moreover have "replay E maintain (mem_read_journal mem_storage_new) m0 = Some (Inr \<lparr>op_replayed = 0, op_skipped = 0, op_truncated = False\<rparr>, m0)"
    by (simp add: replay_def mem_storage_defs scan_def scan_loop.simps)
  ultimately show ?thesis using m0 m(2) by blast
qed

end
