(* ===== verification/Spec2Isabelle.thy ===== *)
theory Spec2Isabelle
  imports Prelude Rust_Std Keys Slot Paged Arena_Error Blob_Heap Chunk_Pool Chunk_Lists Chunk_Load Model Page_Slots Arena
    Arena_Rep Arena_Map Arena_Insert Arena_Remove Arena_Store Arena_Theorems Arena_Scan Arena_Scan_Theorems Arena_Load Arena_Image Arena_Load_Theorems Interner Interner_Proofs Interner_Theorems
    Core_Error Wire Storage Journal Journal_Proofs Journal_Scan Journal_Theorems Metadata Metadata_Theorems Config Config_Theorems
    Snapshot Snapshot_Writer
    Record_Arena Edges Edge_Graph Edge_Scan Edge_History Edge_Theorems
    Varint Record_Scan Postings Posting_Lists Posting_Load Posting_Theorems
    Rust_Search Tag_Catalog Tag_Runs Tag_View Tag_Pages Tag_Listing Tag_Image Tag_Cursor Tag_Theorems
    Tally Bm25_Index Bm25_Theorems Vec_Pool
    Engine Similar Engine_Verbs Engine_Replay Engine_Theorems
begin

text \<open>
  A verification development for plugmem, an embedded memory database: facts, entities and
  a bitemporal graph of edges, kept in flat byte structures that are saved as one snapshot image
  plus a journal of operations.

  The program. The crate \<open>plugmem-arena\<close> provides the byte structures: sorted record arenas, a blob
  heap, a pool of chunked lists and a string interner, all over pages that may borrow a
  memory-mapped image. The crate \<open>plugmem-core\<close> builds the engine on them: record layouts,
  configuration, journal, snapshot container, and \<open>Memory\<close> with its verbs. The host library, the
  command line, the MCP server and the language bindings wrap the engine.

  Conventions. A struct is a \<open>record\<close>, an enum a \<open>datatype\<close>; machine integers are words, \<open>usize\<close> a
  natural number bounded by \<open>usize_max\<close>, an \<open>f32\<close> its bit pattern. \<open>Result\<close> is a sum with the error on
  the left; an outer \<open>None\<close> is a panic, or a loop that does not return. Loops that a hostile
  image could make endless are \<open>partial_function\<close>s, the others have measures. Bytes of a page that
  the code leaves uninitialised, or that an allocator would choose, are arguments named \<open>junk\<close>,
  and theorems hold for all of them. Arithmetic on \<open>usize\<close> that the code checks is checked in
  the model. Functions of other crates are arguments: the 64-bit hash \<open>xxh3\<close> (\<open>h\<close>) of the journal,
  the snapshot and the interner.

  The theories, by the code they model.

  \<^item> \<open>Prelude\<close> and \<open>Rust_Std\<close>: words as bytes, slices, error results; the parts of the standard library
    the source uses.
  \<^item> \<open>Keys\<close>, \<open>Slot\<close> (\<open>key.rs\<close>, \<open>slot.rs\<close>): order-preserving keys; the contract of a record layout, as the
    locale \<open>slot_codec\<close>.
  \<^item> \<open>Paged\<close> (\<open>paged.rs\<close>): owned and copy-on-write pages, one contract \<open>page_pool\<close> for both.
  \<^item> \<open>Blob_Heap\<close> (\<open>blob.rs\<close>), \<open>Chains\<close>, \<open>Chunk_Pool\<close>, \<open>Chunk_Lists\<close>, \<open>Chunk_Load\<close> (\<open>chunk.rs\<close>): byte strings by id;
    lists in linked chunks, their free list, and the validation of untrusted images.
  \<^item> \<open>Page_Slots\<close>, \<open>Arena\<close>, \<open>Arena_Rep\<close>, \<open>Arena_Map\<close>, \<open>Arena_Insert\<close>, \<open>Arena_Remove\<close>, \<open>Arena_Store\<close>, \<open>Arena_Theorems\<close>
    (\<open>arena.rs\<close>): the sharded sorted arena. \<open>arena_rep\<close> is its representation invariant (shard chains,
    page directory, cached keys, sorted pages, free list, counts), \<open>arena_map\<close> the finite map it
    stands for; \<open>keyed_store\<close> is the interface the engine uses. \<open>Arena_Scan\<close>, \<open>Arena_Scan_Theorems\<close>: iterators and
    range cursors. \<open>Arena_Load\<close>, \<open>Arena_Image\<close>, \<open>Arena_Load_Theorems\<close>: images, and what loading one checks.
  \<^item> \<open>Interner\<close>, \<open>Interner_Proofs\<close>, \<open>Interner_Theorems\<close> (\<open>interner.rs\<close>): open addressing over the blob heap.
  \<^item> \<open>Model\<close> (\<open>id.rs\<close>, \<open>model.rs\<close>): the seven record layouts, the edge keys and scan bounds.
  \<^item> \<open>Core_Error\<close>, \<open>Wire\<close>, \<open>Storage\<close>, \<open>Journal\<close>, \<open>Journal_Proofs\<close>, \<open>Journal_Scan\<close>, \<open>Journal_Theorems\<close> (\<open>error.rs\<close>,
    \<open>storage.rs\<close>, \<open>journal.rs\<close>): framing, torn tails, the codec of every operation.
  \<^item> \<open>Metadata\<close>, \<open>Config\<close>, \<open>Snapshot\<close>, \<open>Snapshot_Writer\<close> with their theorems (\<open>metadata.rs\<close>, \<open>config.rs\<close>,
    \<open>snapshot.rs\<close>, and the streaming writer of \<open>memory/persist.rs\<close>): canonical blobs, validation bounds,
    the two writers of the container.
  \<^item> \<open>Record_Arena\<close>: arenas seen through their record types (locale \<open>record_arena\<close>), and the shape of the
    engine's fallible methods. \<open>Edges\<close>, \<open>Edge_Graph\<close>, \<open>Edge_Scan\<close>, \<open>Edge_History\<close>, \<open>Edge_Theorems\<close> (\<open>memory.rs\<close>,
    \<open>memory/recall.rs\<close>): the edge graph of \<open>Memory\<close>, refined to a set of versions, and the neighbour walks.
  \<^item> \<open>Varint\<close>, \<open>Record_Scan\<close>, \<open>Postings\<close>, \<open>Posting_Lists\<close>, \<open>Posting_Load\<close>, \<open>Posting_Theorems\<close> (\<open>index/varint.rs\<close>,
    \<open>index/postings.rs\<close>, the list checks of \<open>memory/persist.rs\<close>): per key an ascending list of ids, delta coded in a chunk list;
    \<open>posting_rep\<close> is the map from keys to lists, and the load-time check is shown to decide it.
  \<^item> \<open>Rust_Search\<close>, \<open>Tag_Catalog\<close>, \<open>Tag_Runs\<close>, \<open>Tag_View\<close>, \<open>Tag_Pages\<close>, \<open>Tag_Listing\<close>, \<open>Tag_Image\<close>, \<open>Tag_Cursor\<close>, \<open>Tag_Theorems\<close>
    (\<open>memory/tags.rs\<close>): the counts of the tags in use as base, runs and buffer; \<open>cat_view\<close> is the map from names to counts, the
    fingerprint the xor over its active names, and a listing by cursors a walk over their sorted names.
  \<^item> \<open>Tally\<close>, \<open>Bm25_Index\<close>, \<open>Bm25_Theorems\<close> (\<open>tally_term\<close> of \<open>memory.rs\<close>, \<open>index/bm25.rs\<close>): term frequencies, the postings with
    their document records, the flat length index and the term-set summaries.
  \<^item> \<open>Vec_Pool\<close> (\<open>index/vecpool.rs\<close>): the slots of quantised vectors, a list of byte strings over base and tail.
  \<^item> \<open>Engine\<close>, \<open>Similar\<close>, \<open>Engine_Verbs\<close>, \<open>Engine_Replay\<close>, \<open>Engine_Theorems\<close> (\<open>memory.rs\<close>): the record \<open>memory\<close> is the struct
    \<open>Memory\<close>, but for the HNSW graph and the scratch buffers of the searches; \<open>Engine\<close> has the internal methods
    \<open>apply_remember\<close>, \<open>apply_forget\<close>, \<open>apply_remove_tag\<close>, \<open>apply_link\<close>, \<open>apply_unlink\<close>, \<open>Similar\<close> the detection of similar facts,
    \<open>Engine_Verbs\<close> the public verbs over the caller's storage and \<open>replay\<close>. \<open>Engine_Replay\<close> shows for each verb that it appends
    at most one record and that replaying the record repeats the verb, and lifts this to histories of verbs, failures
    included, and to journals cut off anywhere. The record \<open>platform\<close> holds what the engine takes from elsewhere: the hash, the
    tokenizer as the tokens of a string, single-precision arithmetic, and the bytes of fresh pages; what a \<open>Maintain\<close> record
    re-executes is an argument of \<open>replay\<close>.

  What the lemmas show. Each operation keeps its structure's invariant and computes the abstract
  operation (map, list, dictionary, set of versions) on every branch, its error branches included;
  images round-trip and loaders accept exactly the well-formed ones, or a stated superset; loops
  end; layouts and codecs invert each other. A few theorems state what the code does where its
  comments promise something else; the manifest's findings name them.
  \<open>failed_link_not_replayed\<close> in \<open>Engine_Theorems\<close> is the one that bounds the recovery theorem beside it: a verb
  that fails after a write leaves what no record of the journal repeats.

  Bounds. \<open>index_room\<close> (a byte limit below 16 TiB) keeps page indices apart from the sentinel; ids are
  below \<open>2 ^ 32 - 1\<close>. Both are hypotheses of the theorems that need them.

  Not modelled. The tokenizer (generated Unicode tables and third-party segmentation), the
  HNSW graph, the searches and scores of recall and BM25 (floating-point rankings), maintenance,
  re-sharding and re-embedding, the assembly of an engine from the sections of a snapshot,
  migrations, and the host, command line, server and binding crates (files, locks, threads,
  sockets, type conversion).
\<close>

end
